(* ===== verification/Prelude.thy ===== *)
theory Prelude
  imports Main "HOL-Library.Word"
begin

text \<open>
  Shared vocabulary of the development: the machine integer types of the kernel, the
  collections of hints the component theories declare into, byte-order independent memory
  access (little-endian, as on the x86-64 the kernel runs on), and generic facts on words,
  lists and index searches.
\<close>

unbundle bit_operations_syntax

section \<open>Machine types\<close>

type_synonym u8 = "8 word"
type_synonym u16 = "16 word"
type_synonym u32 = "32 word"
type_synonym u64 = "64 word"

text \<open>
  Lengths and offsets (\<^verbatim>\<open>size_t\<close>) are natural numbers; the one operation on them whose
  wrap-around matters, subtraction, is written out.
\<close>

definition size_sub :: "nat \<Rightarrow> nat \<Rightarrow> nat" where
  "size_sub a b = (if b \<le> a then a - b else 2 ^ 64 + a - b)"

lemma size_sub_le [simp]: "b \<le> a \<Longrightarrow> size_sub a b = a - b"
  by (simp add: size_sub_def)

lemma size_sub_underflow: "a < b \<Longrightarrow> b \<le> 2 ^ 64 \<Longrightarrow> size_sub a b = 2 ^ 64 - (b - a)"
  by (simp add: size_sub_def)

section \<open>Hint collections\<close>

text \<open>
  \<open>frame\<close> holds the equations that say which part of the state an operation leaves alone;
  \<open>hdr_simps\<close> the equations that evaluate the fields of stored headers.
\<close>

named_theorems frame
named_theorems hdr_simps

section \<open>Words\<close>

lemma unat_u8_bound: "unat (x :: u8) < 256"
  using unsigned_less [of x] by simp

lemma unat_u16_bound: "unat (x :: u16) < 65536"
  using unsigned_less [of x] by simp

lemma unat_u32_bound: "unat (x :: u32) < 4294967296"
  using unsigned_less [of x] by simp

lemma unat_not_u16: "unat (NOT x) = 65535 - unat x" for x :: u16
proof -
  have "NOT x = - 1 - x" by (simp add: not_eq_complement)
  moreover have "x \<le> - 1" by simp
  ultimately show ?thesis by (simp add: unat_sub unsigned_minus_1_eq_mask mask_eq_exp_minus_1)
qed

lemma unat_ucast_u16_u32 [simp]: "unat (ucast w :: u32) = unat w" for w :: u16
  using unat_u16_bound [of w] by (simp add: unsigned_ucast_eq take_bit_eq_mod)

lemma unat_ucast_u8_u32 [simp]: "unat (ucast w :: u32) = unat w" for w :: u8
  using unat_u8_bound [of w] by (simp add: unsigned_ucast_eq take_bit_eq_mod)

lemma unat_ucast_u8_u16 [simp]: "unat (ucast w :: u16) = unat w" for w :: u8
  using unat_u8_bound [of w] by (simp add: unsigned_ucast_eq take_bit_eq_mod)

lemma unat_of_nat_u16 [simp]: "n < 65536 \<Longrightarrow> unat (of_nat n :: u16) = n"
  by (simp add: unsigned_of_nat take_bit_nat_eq_self)

lemma unat_of_nat_u32 [simp]: "n < 4294967296 \<Longrightarrow> unat (of_nat n :: u32) = n"
  by (simp add: unsigned_of_nat take_bit_nat_eq_self)

lemma unat_low16: "unat (s AND 0xffff) = unat s mod 65536" for s :: u32
proof -
  have "(0xffff :: u32) = mask 16" by (simp add: mask_eq_exp_minus_1)
  then have "s AND 0xffff = take_bit 16 s" by (simp only: take_bit_eq_mask)
  then show ?thesis by (simp add: take_bit_eq_mod unat_mod_distrib)
qed

lemma unat_high16: "unat (drop_bit 16 s) = unat s div 65536" for s :: u32
  by (simp add: unsigned_drop_bit_eq drop_bit_eq_div take_bit_eq_mod) (simp add: unat_div_distrib)

section \<open>Memory images of integers\<close>

definition store16 :: "u16 \<Rightarrow> u8 list" where
  "store16 w = [ucast w, ucast (drop_bit 8 w)]"

definition store32 :: "u32 \<Rightarrow> u8 list" where
  "store32 w = [ucast w, ucast (drop_bit 8 w), ucast (drop_bit 16 w), ucast (drop_bit 24 w)]"

definition load16 :: "u8 list \<Rightarrow> nat \<Rightarrow> u16" where
  "load16 bs i = ucast (bs ! i) OR push_bit 8 (ucast (bs ! Suc i))"

definition load32 :: "u8 list \<Rightarrow> nat \<Rightarrow> u32" where
  "load32 bs i = ucast (bs ! i) OR push_bit 8 (ucast (bs ! (i + 1))) OR
                 push_bit 16 (ucast (bs ! (i + 2))) OR push_bit 24 (ucast (bs ! (i + 3)))"

lemma length_store16 [simp]: "length (store16 w) = 2"
  by (simp add: store16_def)

lemma length_store32 [simp]: "length (store32 w) = 4"
  by (simp add: store32_def)

section \<open>Searching an array\<close>

text \<open>The loops over the static tables look for the first entry with a property.\<close>

fun find_idx :: "('a \<Rightarrow> bool) \<Rightarrow> 'a list \<Rightarrow> nat option" where
  "find_idx P [] = None"
| "find_idx P (x # xs) = (if P x then Some 0 else map_option Suc (find_idx P xs))"

lemma find_idx_None_iff: "find_idx P xs = None \<longleftrightarrow> (\<forall>x \<in> set xs. \<not> P x)"
  by (induction xs) auto

lemma find_idx_Some_iff:
  "find_idx P xs = Some i \<longleftrightarrow> i < length xs \<and> P (xs ! i) \<and> (\<forall>j < i. \<not> P (xs ! j))"
proof (induction xs arbitrary: i)
  case Nil
  then show ?case by simp
next
  case (Cons x xs)
  then show ?case by (cases i) (auto simp: less_Suc_eq_0_disj)
qed

lemma find_idx_SomeD: "find_idx P xs = Some i \<Longrightarrow> i < length xs \<and> P (xs ! i)"
  by (simp add: find_idx_Some_iff)

lemma find_idx_unique:
  "i < length xs \<Longrightarrow> P (xs ! i) \<Longrightarrow> (\<And>j. j < length xs \<Longrightarrow> P (xs ! j) \<Longrightarrow> j = i) \<Longrightarrow>
     find_idx P xs = Some i"
  unfolding find_idx_Some_iff by (blast dest: less_trans)

lemma set_list_update_cases: "x \<in> set (xs[i := y]) \<Longrightarrow> x = y \<or> x \<in> set xs"
  using set_update_subset_insert [of xs i y] by auto

end
