(* ===== verification/Benri.thy ===== *)
theory Benri
  imports Prelude
begin

text \<open>
  \<^verbatim>\<open>kernel/network/benri.c\<close> and the macros of \<^verbatim>\<open>benri.h\<close> without the queue: byte order,
  the Internet checksum and the arithmetic on \<^verbatim>\<open>struct timeval\<close>.
  Packet memory is a list of bytes; a read past its end is \<open>None\<close>.
\<close>

section \<open>Byte order\<close>

definition LITTLE_ENDIAN_TAG :: int where "LITTLE_ENDIAN_TAG = 1234"
definition BIG_ENDIAN_TAG :: int where "BIG_ENDIAN_TAG = 4321"

text \<open>The first byte of the memory image of 1 tells the byte order of the machine.\<close>

definition byteorder :: int where
  "byteorder = (if hd (store32 1) \<noteq> 0 then LITTLE_ENDIAN_TAG else BIG_ENDIAN_TAG)"

definition byteswap16 :: "u16 \<Rightarrow> u16" where
  "byteswap16 v = push_bit 8 (v AND 0x00ff) OR drop_bit 8 (v AND 0xff00)"

definition byteswap32 :: "u32 \<Rightarrow> u32" where
  "byteswap32 v = push_bit 24 (v AND 0x000000ff) OR push_bit 8 (v AND 0x0000ff00) OR
                  drop_bit 8 (v AND 0x00ff0000) OR drop_bit 24 (v AND 0xff000000)"

text \<open>
  The conversions read the static variable \<open>endian\<close>, which the first call sets. The state
  passing version returns the value and the variable; the short version, which the rest of
  the development uses, is the value once the variable is 0 or set (\<open>hton16_st_value\<close>).
\<close>

definition endian_of :: "int \<Rightarrow> int" where
  "endian_of endian = (if endian = 0 then byteorder else endian)"

definition hton16_st :: "int \<Rightarrow> u16 \<Rightarrow> u16 \<times> int" where
  "hton16_st endian h =
     (let e = endian_of endian
      in (if e = LITTLE_ENDIAN_TAG then byteswap16 h else h, e))"

definition hton32_st :: "int \<Rightarrow> u32 \<Rightarrow> u32 \<times> int" where
  "hton32_st endian h =
     (let e = endian_of endian
      in (if e = LITTLE_ENDIAN_TAG then byteswap32 h else h, e))"

definition hton16 :: "u16 \<Rightarrow> u16" where
  "hton16 h = (if byteorder = LITTLE_ENDIAN_TAG then byteswap16 h else h)"

definition ntoh16 :: "u16 \<Rightarrow> u16" where
  "ntoh16 n = (if byteorder = LITTLE_ENDIAN_TAG then byteswap16 n else n)"

definition hton32 :: "u32 \<Rightarrow> u32" where
  "hton32 h = (if byteorder = LITTLE_ENDIAN_TAG then byteswap32 h else h)"

definition ntoh32 :: "u32 \<Rightarrow> u32" where
  "ntoh32 n = (if byteorder = LITTLE_ENDIAN_TAG then byteswap32 n else n)"

lemma byteorder_little: "byteorder = LITTLE_ENDIAN_TAG"
  by (simp add: byteorder_def store32_def)

lemma endian_of_idem: "e = 0 \<or> e = byteorder \<Longrightarrow> endian_of e = byteorder"
  by (auto simp: endian_of_def)

lemma hton16_st_value: "e = 0 \<or> e = byteorder \<Longrightarrow> hton16_st e h = (hton16 h, byteorder)"
  by (simp add: hton16_st_def hton16_def endian_of_idem Let_def)

lemma hton32_st_value: "e = 0 \<or> e = byteorder \<Longrightarrow> hton32_st e h = (hton32 h, byteorder)"
  by (simp add: hton32_st_def hton32_def endian_of_idem Let_def)

lemma less_16_cases: "(n :: nat) < 16 \<Longrightarrow> n < 8 \<or> (8 \<le> n \<and> n < 16)"
  by auto

lemma mask_ff00_16: "(0xff00 :: u16) = push_bit 8 (mask 8)"
  by (simp add: mask_eq_exp_minus_1 push_bit_eq_mult)

lemma mask_00ff_16: "(0x00ff :: u16) = mask 8"
  by (simp add: mask_eq_exp_minus_1)

lemma bit_byteswap16:
  "bit (byteswap16 v) n \<longleftrightarrow> n < 16 \<and> bit v (if n < 8 then n + 8 else n - 8)"
  by (auto simp: byteswap16_def mask_ff00_16 mask_00ff_16 bit_simps add.commute)

lemma byteswap16_inv [simp]: "byteswap16 (byteswap16 v) = v"
  by (rule bit_word_eqI) (auto simp: bit_byteswap16)

lemma mask_bytes_32:
  "(0x000000ff :: u32) = mask 8" "(0x0000ff00 :: u32) = push_bit 8 (mask 8)"
  "(0x00ff0000 :: u32) = push_bit 16 (mask 8)" "(0xff000000 :: u32) = push_bit 24 (mask 8)"
  by (simp_all add: mask_eq_exp_minus_1 push_bit_eq_mult)

lemma bit_byteswap32:
  "bit (byteswap32 v) n \<longleftrightarrow> n < 32 \<and>
     bit v (if n < 8 then n + 24 else if n < 16 then n + 8 else if n < 24 then n - 8 else n - 24)"
  by (auto simp: byteswap32_def mask_bytes_32 bit_simps add.commute)

lemma byteswap32_inv [simp]: "byteswap32 (byteswap32 v) = v"
  by (rule bit_word_eqI) (auto simp: bit_byteswap32)

lemma ntoh16_hton16 [simp]: "ntoh16 (hton16 v) = v"
  by (simp add: ntoh16_def hton16_def)

lemma hton16_ntoh16 [simp]: "hton16 (ntoh16 v) = v"
  by (simp add: ntoh16_def hton16_def)

lemma ntoh32_hton32 [simp]: "ntoh32 (hton32 v) = v"
  by (simp add: ntoh32_def hton32_def)

lemma hton32_ntoh32 [simp]: "hton32 (ntoh32 v) = v"
  by (simp add: ntoh32_def hton32_def)

lemma hton16_eq_iff [simp]: "hton16 a = hton16 b \<longleftrightarrow> a = b"
  by (metis ntoh16_hton16)

lemma hton16_0 [simp]: "hton16 0 = 0"
  by (simp add: hton16_def byteswap16_def)

lemma hton16_eq_0_iff [simp]: "hton16 a = 0 \<longleftrightarrow> a = 0"
  using hton16_eq_iff [of a 0] by simp

text \<open>In memory, a converted integer stands most significant byte first.\<close>

lemma store16_hton16: "store16 (hton16 v) = [ucast (drop_bit 8 v), ucast v]"
  by (auto simp: store16_def hton16_def byteorder_little bit_byteswap16 bit_simps add.commute
      intro!: bit_word_eqI)

section \<open>The Internet checksum\<close>

text \<open>
  \<open>sum_words\<close> is the first loop of \<^verbatim>\<open>cksum16\<close> and the odd byte after it, over the bytes it
  reads; \<open>fold_carry\<close> is the second loop.
\<close>

fun sum_words :: "u8 list \<Rightarrow> u32 \<Rightarrow> u32" where
  "sum_words (a # b # bs) s = sum_words bs (s + ucast (load16 [a, b] 0))"
| "sum_words [a] s = s + ucast a"
| "sum_words [] s = s"

text \<open>What one round of the second loop computes, on natural numbers.\<close>

lemma carry_step: "unat ((s AND 0xffff) + drop_bit 16 s) = unat s mod 65536 + unat s div 65536"
  for s :: u32
proof -
  have "unat s div 65536 < 65536" using unat_u32_bound [of s] by simp
  moreover have "unat s mod 65536 < 65536" by simp
  ultimately have "unat s mod 65536 + unat s div 65536 < 4294967296"
    by linarith
  then show ?thesis
    by (simp add: unat_word_ariths unat_low16 unat_high16)
qed

lemma no_carry_iff: "drop_bit 16 s \<noteq> 0 \<longleftrightarrow> 65536 \<le> unat s" for s :: u32
  by (metis div_greater_zero_iff not_gr_zero unat_0 unat_eq_zero unat_high16 zero_less_numeral)

lemma carry_decreases: "65536 \<le> n \<Longrightarrow> n mod 65536 + n div 65536 < (n :: nat)"
  using div_mult_mod_eq [of n 65536] by (cases "n div 65536") auto

function fold_carry :: "u32 \<Rightarrow> u32" where
  "fold_carry s = (if drop_bit 16 s \<noteq> 0 then fold_carry ((s AND 0xffff) + drop_bit 16 s) else s)"
  by pat_completeness auto
termination
  by (relation "measure unat") (auto simp: carry_step no_carry_iff carry_decreases)

declare fold_carry.simps [simp del]

text \<open>
  The checksum of the first \<open>count\<close> bytes at an address; \<open>count\<close> is a 16-bit parameter, so
  a caller's \<^verbatim>\<open>size_t\<close> length is truncated on the way in.
\<close>

definition cksum16 :: "u8 list \<Rightarrow> u16 \<Rightarrow> u32 \<Rightarrow> u16 option" where
  "cksum16 mem count init =
     (if unat count \<le> length mem
      then Some (NOT (ucast (fold_carry (sum_words (take (unat count) mem) init))))
      else None)"

subsection \<open>Its meaning: arithmetic modulo 65535\<close>

fun sum_nat :: "u8 list \<Rightarrow> nat" where
  "sum_nat (a # b # bs) = unat (load16 [a, b] 0) + sum_nat bs"
| "sum_nat [a] = unat a"
| "sum_nat [] = 0"

lemma unat_sum_words: "unat (sum_words bs s) = (unat s + sum_nat bs) mod 2 ^ 32"
proof (induction bs s rule: sum_words.induct)
  case (1 a b bs s)
  then show ?case
    by (simp add: unat_word_ariths mod_simps add.assoc)
next
  case (2 a s)
  then show ?case by (simp add: unat_word_ariths)
next
  case (3 s)
  then show ?case using unat_u32_bound [of s] by simp
qed

lemma sum_nat_bound: "sum_nat bs \<le> 32768 * length bs"
proof (induction bs rule: sum_nat.induct)
  case (1 a b bs)
  have "unat (load16 [a, b] 0) < 65536" by (rule unat_u16_bound)
  then show ?case using 1 by simp
next
  case (2 a)
  show ?case using unat_u8_bound [of a] by simp
qed simp

lemma sum_nat_append: "even (length xs) \<Longrightarrow> sum_nat (xs @ ys) = sum_nat xs + sum_nat ys"
  by (induction xs rule: sum_nat.induct) auto

lemma load16_store16 [hdr_simps]: "load16 (store16 w @ bs) 0 = w" "load16 (store16 w) 0 = w"
  by (auto simp: load16_def store16_def bit_simps intro!: bit_word_eqI)

lemma load32_store32 [hdr_simps]: "load32 (store32 v @ bs) 0 = v" "load32 (store32 v) 0 = v"
  by (rule bit_word_eqI, auto simp: load32_def store32_def bit_simps, rule ccontr, simp)+

text \<open>The bytes of a stored integer, as the loads put them together again.\<close>

lemma store16_bytes:
  fixes w :: u16
  obtains a b where "store16 w = [a, b]" "ucast a OR push_bit 8 (ucast b) = w"
  using load16_store16(2) [of w] by (simp add: store16_def load16_def)

lemma store32_bytes:
  fixes w :: u32
  obtains a b c d where "store32 w = [a, b, c, d]"
    "ucast a OR push_bit 8 (ucast b) OR push_bit 16 (ucast c) OR push_bit 24 (ucast d) = w"
  using load32_store32(2) [of w] by (simp add: store32_def load32_def)

lemma sum_nat_store16: "sum_nat (store16 w @ bs) = unat w + sum_nat bs"
  using load16_store16(2) [of w] by (simp add: store16_def)

lemma fold_carry_spec:
  "unat (fold_carry s) < 65536 \<and> unat (fold_carry s) mod 65535 = unat s mod 65535 \<and>
   (fold_carry s = 0 \<longleftrightarrow> s = 0)"
proof (induction s rule: fold_carry.induct)
  case (1 s)
  show ?case
  proof (cases "65536 \<le> unat s")
    case True
    let ?t = "(s AND 0xffff) + drop_bit 16 s"
    have t: "unat ?t = unat s mod 65536 + unat s div 65536" by (rule carry_step)
    have "unat s = 65535 * (unat s div 65536) + unat ?t"
      using t div_mult_mod_eq [of "unat s" 65536] by linarith
    then have "unat ?t mod 65535 = unat s mod 65535"
      by (metis mod_mult_self3 mult.commute)
    moreover have "?t \<noteq> 0" "s \<noteq> 0"
      using True t by (auto simp: unat_eq_0 [symmetric])
    ultimately show ?thesis
      using 1 True by (simp add: fold_carry.simps [of s] no_carry_iff)
  next
    case False
    then show ?thesis by (simp add: fold_carry.simps [of s] no_carry_iff)
  qed
qed

lemma unat_fold_carry:
  "unat (fold_carry s) = (if s = 0 then 0 else Suc ((unat s - 1) mod 65535))"
proof (cases "s = 0")
  case True
  then show ?thesis using fold_carry_spec [of s] by simp
next
  case False
  then obtain k where k: "unat s = Suc k"
    by (metis not0_implies_Suc unat_eq_0)
  from False have "fold_carry s \<noteq> 0" using fold_carry_spec [of s] by blast
  then obtain j where j: "unat (fold_carry s) = Suc j"
    by (metis not0_implies_Suc unat_eq_0)
  have "j < 65535" and "Suc j mod 65535 = Suc k mod 65535"
    using fold_carry_spec [of s] k j by auto
  then have "j = k mod 65535"
    by (simp add: mod_Suc split: if_splits)
  then show ?thesis using False k j by simp
qed

text \<open>The checksum verifies (is 0) exactly for a nonzero sum divisible by 65535.\<close>

lemma unat_ucast_fold: "unat (ucast (fold_carry s) :: u16) = unat (fold_carry s)"
  using fold_carry_spec [of s] by (simp add: unsigned_ucast_eq take_bit_eq_mod)

lemma cksum16_Some:
  assumes "length bs \<le> 65535"
  shows "cksum16 (bs @ rest) (of_nat (length bs)) init =
           Some (NOT (ucast (fold_carry (sum_words bs init))))"
  using assms by (simp add: cksum16_def unat_of_nat)

text \<open>No carry is lost for the lengths a 16-bit count allows.\<close>

lemma unat_sum_words_small:
  assumes "length bs \<le> 65535" and "unat init \<le> 65535"
  shows "unat (sum_words bs init) = unat init + sum_nat bs"
proof -
  have "sum_nat bs \<le> 32768 * 65535"
    using sum_nat_bound [of bs] assms(1) by linarith
  with assms(2) show ?thesis by (simp add: unat_sum_words)
qed

lemma word_not_eq_0_iff: "NOT w = 0 \<longleftrightarrow> unat w = 65535" for w :: u16
proof -
  have "NOT w = 0 \<longleftrightarrow> unat (NOT w) = 0" by (simp add: unat_eq_0)
  also have "\<dots> \<longleftrightarrow> unat w = 65535"
    using unat_u16_bound [of w] by (auto simp: unat_not_u16)
  finally show ?thesis .
qed

lemma cksum16_0_iff:
  assumes len: "length bs \<le> 65535" and init: "unat init \<le> 65535"
  shows "cksum16 (bs @ rest) (of_nat (length bs)) init = Some 0 \<longleftrightarrow>
           0 < unat init + sum_nat bs \<and> (unat init + sum_nat bs) mod 65535 = 0"
proof -
  let ?s = "sum_words bs init"
  have s: "unat ?s = unat init + sum_nat bs"
    using len init by (rule unat_sum_words_small)
  have "cksum16 (bs @ rest) (of_nat (length bs)) init = Some 0 \<longleftrightarrow> unat (fold_carry ?s) = 65535"
    using len by (simp add: cksum16_Some word_not_eq_0_iff unat_ucast_fold)
  also have "\<dots> \<longleftrightarrow> 0 < unat ?s \<and> (unat ?s - 1) mod 65535 = 65534"
    by (auto simp: unat_fold_carry unat_eq_0 [symmetric])
  also have "\<dots> \<longleftrightarrow> 0 < unat ?s \<and> unat ?s mod 65535 = 0"
    by (cases "unat ?s") (auto simp: mod_Suc)
  finally show ?thesis by (simp only: s)
qed

lemma complement_residue:
  fixes n :: nat
  defines "c \<equiv> 65535 - (if n = 0 then 0 else Suc ((n - 1) mod 65535))"
  shows "0 < n + c \<and> (n + c) mod 65535 = 0"
proof (cases n)
  case 0
  then show ?thesis by (simp add: c_def)
next
  case (Suc k)
  obtain q r where qr: "q = k div 65535" "r = k mod 65535" by blast
  have "r < 65535" and "k = q * 65535 + r" by (simp_all add: qr)
  then have "n + c = 65535 * (q + 1)"
    using Suc by (simp add: c_def flip: qr(2))
  then show ?thesis using Suc by simp
qed

lemma mod_add_cancel_nat: "(k + a) mod m = (k + b) mod m \<Longrightarrow> a mod m = b mod m" for a b k m :: nat
  by (simp add: nat_mod_eq_iff)

text \<open>
  Filling the zeroed checksum field (at an even offset) with the checksum of the message
  makes the message verify.
\<close>

lemma cksum16_fill:
  assumes even: "even (length pre)" and len: "length pre + 2 + length post \<le> 65535"
    and init: "unat init \<le> 65535"
    and n: "n = of_nat (length pre + 2 + length post)"
    and c: "cksum16 (pre @ store16 0 @ post @ rest) n init = Some c"
  shows "cksum16 (pre @ store16 c @ post @ rest') n init = Some 0"
proof -
  let ?S = "unat init + (sum_nat pre + sum_nat post)"
  let ?z = "pre @ store16 0 @ post" and ?f = "pre @ store16 c @ post"
  have z: "length ?z \<le> 65535" "n = of_nat (length ?z)" and f: "length ?f \<le> 65535" "n = of_nat (length ?f)"
    using len n by simp_all
  have "unat (sum_words ?z init) = ?S"
    using unat_sum_words_small [OF z(1) init] even by (simp add: sum_nat_append sum_nat_store16)
  moreover have "c = NOT (ucast (fold_carry (sum_words ?z init)))"
    using c cksum16_Some [OF z(1), of rest init] z(2) by simp
  ultimately have "unat c = 65535 - (if ?S = 0 then 0 else Suc ((?S - 1) mod 65535))"
    by (simp add: unat_not_u16 unat_ucast_fold unat_fold_carry flip: unat_eq_0)
  then have "0 < ?S + unat c \<and> (?S + unat c) mod 65535 = 0"
    using complement_residue [of ?S] by simp
  moreover have "unat init + sum_nat ?f = ?S + unat c"
    using even by (simp add: sum_nat_append sum_nat_store16)
  ultimately have "cksum16 (?f @ rest') n init = Some 0"
    using cksum16_0_iff [OF f(1) init, of rest'] f(2) by (simp add: add.assoc)
  then show ?thesis by simp
qed

text \<open>
  Error detection: replacing one aligned 16-bit word of a message that verifies by a word of
  another residue makes it fail.
\<close>

lemma cksum16_detects:
  assumes even: "even (length pre)" and len: "length pre + 2 + length post \<le> 65535"
    and init: "unat init \<le> 65535"
    and n: "n = of_nat (length pre + 2 + length post)"
    and ok: "cksum16 (pre @ store16 w @ post) n init = Some 0"
    and diff: "unat w mod 65535 \<noteq> unat w' mod 65535"
  shows "cksum16 (pre @ store16 w' @ post) n init \<noteq> Some 0"
proof
  assume bad: "cksum16 (pre @ store16 w' @ post) n init = Some 0"
  let ?S = "unat init + (sum_nat pre + sum_nat post)"
  have val: "(?S + unat v) mod 65535 = 0"
    if "cksum16 (pre @ store16 v @ post) n init = Some 0" for v
  proof -
    have "length (pre @ store16 v @ post) \<le> 65535" using len by simp
    from cksum16_0_iff [OF this init, of "[]"] that n even show ?thesis
      by (simp add: sum_nat_append sum_nat_store16 ac_simps)
  qed
  have "unat w mod 65535 = unat w' mod 65535"
    by (rule mod_add_cancel_nat [of ?S]) (simp only: val [OF ok] val [OF bad])
  then show False using diff by simp
qed

lemma residues_differ:
  fixes v v' :: u16
  assumes "v \<noteq> v'" and "{v, v'} \<noteq> {0, 0xffff}"
  shows "unat v mod 65535 \<noteq> unat v' mod 65535"
proof
  have full: "unat x mod 65535 = (if unat x = 65535 then 0 else unat x)" for x :: u16
    using unat_u16_bound [of x] by auto
  have top: "x = 0xffff \<longleftrightarrow> unat x = 65535" and bot: "x = 0 \<longleftrightarrow> unat x = 0" for x :: u16
    by (simp_all add: word_unat_eq_iff)
  assume "unat v mod 65535 = unat v' mod 65535"
  with assms show False
    by (auto simp: full top bot doubleton_eq_iff word_unat_eq_iff split: if_splits)
qed

section \<open>Time\<close>

text \<open>
  \<^verbatim>\<open>struct timeval\<close>; its fields are 64-bit and hold tick counts, so they do not overflow.
  \<open>timersub\<close>, \<open>timercmp\<close> and \<open>timerclear\<close> are the macros of the C library.
\<close>

record timeval =
  tv_sec :: int
  tv_usec :: int

definition timerclear :: timeval where
  "timerclear = \<lparr>tv_sec = 0, tv_usec = 0\<rparr>"

definition timer_less :: "timeval \<Rightarrow> timeval \<Rightarrow> bool" where
  "timer_less a b = (if tv_sec a = tv_sec b then tv_usec a < tv_usec b else tv_sec a < tv_sec b)"

definition timersub :: "timeval \<Rightarrow> timeval \<Rightarrow> timeval" where
  "timersub a b =
     (let s = tv_sec a - tv_sec b; u = tv_usec a - tv_usec b
      in if u < 0 then \<lparr>tv_sec = s - 1, tv_usec = u + 1000000\<rparr> else \<lparr>tv_sec = s, tv_usec = u\<rparr>)"

text \<open>The macro \<^verbatim>\<open>timeval_add_usec(x, y)\<close> of \<^verbatim>\<open>benri.h\<close>.\<close>

definition timeval_add_usec :: "timeval \<Rightarrow> int \<Rightarrow> timeval" where
  "timeval_add_usec x y =
     (let s = tv_sec x + y div 1000000; u = tv_usec x + y mod 1000000
      in if 1000000 \<le> u then \<lparr>tv_sec = s + 1, tv_usec = u - 1000000\<rparr>
         else \<lparr>tv_sec = s, tv_usec = u\<rparr>)"

text \<open>The same on one number, the microseconds, for normalised times.\<close>

definition tv_norm :: "timeval \<Rightarrow> bool" where
  "tv_norm t \<longleftrightarrow> 0 \<le> tv_usec t \<and> tv_usec t < 1000000"

definition tv_us :: "timeval \<Rightarrow> int" where
  "tv_us t = tv_sec t * 1000000 + tv_usec t"

lemma timer_less_us: "tv_norm a \<Longrightarrow> tv_norm b \<Longrightarrow> timer_less a b \<longleftrightarrow> tv_us a < tv_us b"
  by (auto simp: timer_less_def tv_norm_def tv_us_def)

lemma timersub_us:
  "tv_norm a \<Longrightarrow> tv_norm b \<Longrightarrow> tv_us (timersub a b) = tv_us a - tv_us b \<and> tv_norm (timersub a b)"
  by (auto simp: timersub_def tv_norm_def tv_us_def Let_def)

lemma timeval_add_usec_us:
  assumes "tv_norm x" and "0 \<le> y"
  shows "tv_us (timeval_add_usec x y) = tv_us x + y \<and> tv_norm (timeval_add_usec x y)"
proof -
  have "y = y div 1000000 * 1000000 + y mod 1000000" by simp
  then show ?thesis using assms
    by (auto simp: timeval_add_usec_def tv_norm_def tv_us_def Let_def algebra_simps)
qed

section \<open>Properties\<close>

text \<open>
  C1: storing the checksum of a message with a zeroed checksum field, at an even offset, into
  that field makes the receiver's verification succeed, whatever lies behind the message.
\<close>

theorem cksum_verifies:
  assumes "even (length pre)" and "length pre + 2 + length post \<le> 65535"
    and "unat init \<le> 65535" and "n = of_nat (length pre + 2 + length post)"
    and "cksum16 (pre @ store16 0 @ post @ rest) n init = Some c"
  shows "cksum16 (pre @ store16 c @ post @ rest') n init = Some 0"
  using assms by (rule cksum16_fill)

theorem cksum_verifies_witness:
  "cksum16 ([0x45, 0x00, 0x00, 0x1d] @ store16 0xdb3b @ [0x80, 0x06, 0xff] @ [1, 2]) 9 0 = Some 0"
  by (rule cksum_verifies [where rest = "[]"])
    (simp_all add: cksum16_def store16_def load16_def fold_carry.simps)

text \<open>
  The checksum detects the change of any aligned 16-bit word, except between 0 and 0xffff,
  the two representations of zero.
\<close>

lemma cksum_detects:
  assumes "even (length pre)" and "length pre + 2 + length post \<le> 65535"
    and "unat init \<le> 65535" and "n = of_nat (length pre + 2 + length post)"
    and ok: "cksum16 (pre @ store16 v @ post) n init = Some 0"
    and diff: "v \<noteq> v'" "{v, v'} \<noteq> {0, 0xffff}"
  shows "cksum16 (pre @ store16 v' @ post) n init \<noteq> Some 0"
proof -
  have "unat v mod 65535 \<noteq> unat v' mod 65535"
    using diff by (rule residues_differ)
  with assms(1-4) ok show ?thesis by (rule cksum16_detects)
qed

lemma cksum_detects_witness:
  "cksum16 ([0x45, 0x00] @ store16 0xffba @ [0x00]) 5 0 = Some 0 \<and>
   cksum16 ([0x45, 0x00] @ store16 0xffbb @ [0x00]) 5 0 \<noteq> Some 0"
proof -
  have ok: "cksum16 ([0x45, 0x00] @ store16 0xffba @ [0x00]) 5 0 = Some 0"
    by (simp add: cksum16_def store16_def load16_def fold_carry.simps)
  have "cksum16 ([0x45, 0x00] @ store16 0xffbb @ [0x00]) 5 0 \<noteq> Some 0"
    by (rule cksum_detects [OF _ _ _ _ ok]) (simp_all add: doubleton_eq_iff)
  with ok show ?thesis by blast
qed

end
