(* ===== verification/Strings.thy ===== *)
theory Strings
  imports Prelude "HOL-Library.Char_ord"
begin

text \<open>
  The part of the C library's string handling that the address parsers and printers use:
  \<^verbatim>\<open>strtol\<close>, \<^verbatim>\<open>strrchr\<close> and the conversions \<^verbatim>\<open>%d\<close>, \<^verbatim>\<open>%u\<close> and \<^verbatim>\<open>%02x\<close> of \<^verbatim>\<open>snprintf\<close>. A C
  string is the list of its characters before the terminating NUL.
\<close>

section \<open>Printing\<close>

definition digit_char :: "nat \<Rightarrow> char" where
  "digit_char d = (if d < 10 then char_of (48 + d) else char_of (87 + d))"

fun dec_of_nat :: "nat \<Rightarrow> string" where
  "dec_of_nat n = (if n < 10 then [digit_char n] else dec_of_nat (n div 10) @ [digit_char (n mod 10)])"

declare dec_of_nat.simps [simp del]

definition dec_of_int :: "int \<Rightarrow> string" where
  "dec_of_int i = (if i < 0 then CHR ''-'' # dec_of_nat (nat (- i)) else dec_of_nat (nat i))"

definition hex2 :: "u8 \<Rightarrow> string" where
  "hex2 b = [digit_char (unat b div 16), digit_char (unat b mod 16)]"

text \<open>What \<^verbatim>\<open>snprintf\<close> leaves in a buffer of \<open>n\<close> bytes.\<close>

definition snprintf :: "nat \<Rightarrow> string \<Rightarrow> string" where
  "snprintf n s = take (n - 1) s"

section \<open>Scanning\<close>

definition c_isspace :: "char \<Rightarrow> bool" where
  "c_isspace c \<longleftrightarrow> of_char c = (32 :: nat) \<or> (9 \<le> (of_char c :: nat) \<and> (of_char c :: nat) \<le> 13)"

text \<open>The value of a digit, 36 for a character that is none.\<close>

definition digit_val :: "char \<Rightarrow> nat" where
  "digit_val c =
     (let n = of_char c
      in if 48 \<le> n \<and> n \<le> 57 then n - 48
         else if 97 \<le> n \<and> n \<le> 122 then n - 87
         else if 65 \<le> n \<and> n \<le> 90 then n - 55
         else 36)"

fun scan_digits :: "nat \<Rightarrow> nat \<Rightarrow> string \<Rightarrow> nat \<times> string" where
  "scan_digits base acc [] = (acc, [])"
| "scan_digits base acc (c # cs) =
     (if digit_val c < base then scan_digits base (acc * base + digit_val c) cs
      else (acc, c # cs))"

fun starts_digit :: "nat \<Rightarrow> string \<Rightarrow> bool" where
  "starts_digit base [] = False"
| "starts_digit base (c # cs) = (digit_val c < base)"

definition strip_sign :: "string \<Rightarrow> bool \<times> string" where
  "strip_sign s = (case s of [] \<Rightarrow> (False, s)
     | c # cs \<Rightarrow> if c = CHR ''-'' then (True, cs) else if c = CHR ''+'' then (False, cs) else (False, s))"

definition strip_0x :: "nat \<Rightarrow> string \<Rightarrow> string" where
  "strip_0x base s = (case s of
       z # x # cs \<Rightarrow>
         if base = 16 \<and> z = CHR ''0'' \<and> (x = CHR ''x'' \<or> x = CHR ''X'') \<and> starts_digit 16 cs
         then cs else s
     | _ \<Rightarrow> s)"

definition clamp_long :: "int \<Rightarrow> int" where
  "clamp_long i = max (- (2 ^ 63)) (min (2 ^ 63 - 1) i)"

text \<open>\<^verbatim>\<open>strtol(s, &ep, base)\<close>: the value and the string from \<open>ep\<close> on.\<close>

definition strtol :: "nat \<Rightarrow> string \<Rightarrow> int \<times> string" where
  "strtol base s =
     (let (neg, s1) = strip_sign (dropWhile c_isspace s);
          s2 = strip_0x base s1;
          (n, ep) = scan_digits base 0 s2
      in if starts_digit base s2 then (clamp_long (if neg then - int n else int n), ep)
         else (0, s))"

text \<open>The character at the start of a C string, NUL at its end.\<close>

definition c_deref :: "string \<Rightarrow> char" where
  "c_deref s = (case s of [] \<Rightarrow> CHR 0x00 | c # _ \<Rightarrow> c)"

text \<open>\<^verbatim>\<open>strrchr(s, c)\<close>: the parts before and after the last \<open>c\<close>.\<close>

fun strrchr :: "string \<Rightarrow> char \<Rightarrow> (string \<times> string) option" where
  "strrchr [] c = None"
| "strrchr (x # xs) c =
     (case strrchr xs c of
        Some (pre, post) \<Rightarrow> Some (x # pre, post)
      | None \<Rightarrow> if x = c then Some ([], xs) else None)"

section \<open>Scanning what was printed\<close>

lemma less_16_enum: "d < 16 \<Longrightarrow> d \<in> {0, 1, 2, 3, 4, 5, 6, 7, 8, 9, 10, 11, 12, 13, 14, 15}" for d :: nat
proof -
  assume "d < 16"
  then have "d \<in> set [0..<16]" by simp
  also have "set [0..<16] = {0, 1, 2, 3, 4, 5, 6, 7, 8, 9, 10, 11, 12, 13, 14, 15}"
    by code_simp
  finally show ?thesis .
qed

lemma digit_val_digit_char: "d < 16 \<Longrightarrow> digit_val (digit_char d) = d"
  by (drule less_16_enum) (auto simp: digit_val_def digit_char_def Let_def)

lemma digit_char_plain:
  "d < 16 \<Longrightarrow> \<not> c_isspace (digit_char d) \<and> digit_char d \<noteq> CHR ''-'' \<and> digit_char d \<noteq> CHR ''+'' \<and>
     digit_char d \<noteq> CHR ''x'' \<and> digit_char d \<noteq> CHR ''X'' \<and> digit_char d \<noteq> CHR '':'' \<and>
     digit_char d \<noteq> CHR ''.''"
  by (drule less_16_enum) (auto simp: digit_char_def c_isspace_def char_of_eq_iff)

lemma dec_of_nat_digits: "\<forall>c \<in> set (dec_of_nat n). \<exists>d < 10. c = digit_char d"
proof (induction n rule: dec_of_nat.induct)
  case (1 n)
  then show ?case
    by (subst dec_of_nat.simps) (auto intro: exI [of _ n] exI [of _ "n mod 10"])
qed

lemma dec_of_nat_nonempty [simp]: "dec_of_nat n \<noteq> []"
  by (subst dec_of_nat.simps) simp

lemma scan_digits_append:
  "(\<forall>c \<in> set xs. digit_val c < base) \<Longrightarrow>
     scan_digits base acc (xs @ rest) = scan_digits base (fst (scan_digits base acc xs)) rest"
  by (induction xs arbitrary: acc) auto

lemma dec_of_nat_digit_val: "c \<in> set (dec_of_nat n) \<Longrightarrow> digit_val c < 10"
  using dec_of_nat_digits [of n] digit_val_digit_char by force

lemma scan_dec_of_nat: "scan_digits 10 0 (dec_of_nat n) = (n, [])"
proof (induction n rule: dec_of_nat.induct)
  case (1 n)
  show ?case
  proof (cases "n < 10")
    case True
    then show ?thesis by (subst dec_of_nat.simps) (simp add: digit_val_digit_char)
  next
    case False
    have "\<forall>c \<in> set (dec_of_nat (n div 10)). digit_val c < 10"
      by (simp add: dec_of_nat_digit_val)
    with 1 False show ?thesis
      by (subst dec_of_nat.simps) (simp add: scan_digits_append digit_val_digit_char)
  qed
qed

lemma strtol_dec_of_nat:
  assumes "n < 2 ^ 63" and rest: "\<not> starts_digit 10 rest"
  shows "strtol 10 (dec_of_nat n @ rest) = (int n, rest)"
proof -
  obtain c cs where c: "dec_of_nat n = c # cs" by (cases "dec_of_nat n") auto
  then obtain d where d: "d < 10" "c = digit_char d" using dec_of_nat_digits [of n] by auto
  have "scan_digits 10 n rest = (n, rest)" using rest by (cases rest) auto
  moreover have "\<forall>c \<in> set (dec_of_nat n). digit_val c < 10" by (simp add: dec_of_nat_digit_val)
  ultimately have scan: "scan_digits 10 0 (dec_of_nat n @ rest) = (n, rest)"
    by (simp add: scan_digits_append scan_dec_of_nat)
  have "strip_sign (dropWhile c_isspace (dec_of_nat n @ rest)) = (False, dec_of_nat n @ rest)"
    using c d digit_char_plain [of d] by (simp add: strip_sign_def)
  moreover have "strip_0x 10 (dec_of_nat n @ rest) = dec_of_nat n @ rest"
    by (simp add: strip_0x_def split: list.splits)
  moreover have "starts_digit 10 (dec_of_nat n @ rest)"
    using c d by (simp add: digit_val_digit_char)
  ultimately show ?thesis
    using scan assms(1) by (simp add: strtol_def Let_def clamp_long_def)
qed

lemma strtol_hex2:
  assumes "\<not> starts_digit 16 rest"
  shows "strtol 16 (hex2 b @ rest) = (int (unat b), rest)"
proof -
  let ?h = "digit_char (unat b div 16)" and ?l = "digit_char (unat b mod 16)"
  have b: "unat b div 16 < 16" "unat b mod 16 < 16" using unat_u8_bound [of b] by auto
  have "strip_sign (dropWhile c_isspace (hex2 b @ rest)) = (False, hex2 b @ rest)"
    using digit_char_plain [OF b(1)] by (simp add: strip_sign_def hex2_def)
  moreover have "strip_0x 16 (hex2 b @ rest) = hex2 b @ rest"
    using digit_char_plain [OF b(2)] by (simp add: strip_0x_def hex2_def)
  moreover have "starts_digit 16 (hex2 b @ rest)"
    using b by (simp add: hex2_def digit_val_digit_char)
  moreover have "scan_digits 16 (unat b) rest = (unat b, rest)" using assms by (cases rest) auto
  then have "scan_digits 16 0 (hex2 b @ rest) = (unat b, rest)"
    using b by (simp add: hex2_def digit_val_digit_char)
  ultimately show ?thesis
    using uint_lt2p [of b] by (simp add: strtol_def Let_def clamp_long_def)
qed

lemma strrchr_append: "c \<notin> set post \<Longrightarrow> strrchr (pre @ c # post) c = Some (pre, post)"
proof (induction pre)
  case Nil
  have "strrchr post c = None" if "c \<notin> set post" for post
    using that by (induction post) auto
  with Nil show ?case by simp
next
  case (Cons x pre)
  then show ?case by simp
qed

lemma length_dec_of_nat_256: "n < 256 \<Longrightarrow> length (dec_of_nat n) \<le> 3"
  by (simp add: dec_of_nat.simps [of n] dec_of_nat.simps [of "n div 10"]
      dec_of_nat.simps [of "n div 10 div 10"])

end
