(* ===== verification/Port.thy ===== *)
theory Port
  imports Benri Strings
begin

text \<open>
  The environment of the stack: the state behind the kernel services of
  \<^verbatim>\<open>kernel/network/port/connectOS.cpp\<close> and of the C library. The outcomes of \<^verbatim>\<open>calloc\<close>
  and \<^verbatim>\<open>random\<close> are arbitrary sequences in the state, so what is proved holds for each of
  them. \<open>ub\<close> is set by a memory access the C language leaves undefined and never cleared:
  it is how the development says that an operation is memory safe. Mutexes are empty
  operations in the port and do not appear.
\<close>

record env =
  tick :: nat
  randoms :: "nat \<Rightarrow> u32"
  random_no :: nat
  alloc_ok :: "nat \<Rightarrow> bool"
  alloc_no :: nat
  cur_task :: u64
  wakeups :: "u64 list"
  softirqs :: nat
  ub :: bool

definition fault :: "'m env_scheme \<Rightarrow> 'm env_scheme" where
  "fault w = w\<lparr>ub := True\<rparr>"

definition calloc :: "'m env_scheme \<Rightarrow> bool \<times> 'm env_scheme" where
  "calloc w = (alloc_ok w (alloc_no w), w\<lparr>alloc_no := Suc (alloc_no w)\<rparr>)"

definition random :: "'m env_scheme \<Rightarrow> u32 \<times> 'm env_scheme" where
  "random w = (randoms w (random_no w), w\<lparr>random_no := Suc (random_no w)\<rparr>)"

definition kTimerFreq :: nat where "kTimerFreq = 100"

definition gettimeofday :: "'m env_scheme \<Rightarrow> timeval" where
  "gettimeofday w =
     \<lparr>tv_sec = int (tick w div kTimerFreq),
      tv_usec = int (tick w mod kTimerFreq * (1000000 div kTimerFreq))\<rparr>"

text \<open>A message to the task that runs \<^verbatim>\<open>net_softirq_handler\<close>.\<close>

definition softirq :: "'m env_scheme \<Rightarrow> 'm env_scheme" where
  "softirq w = w\<lparr>softirqs := Suc (softirqs w)\<rparr>"

section \<open>Condition variables\<close>

record cond =
  c_taskid :: u64
  c_num :: u64

definition EBUSY :: int where "EBUSY = 16"

definition cond_init :: cond where
  "cond_init = \<lparr>c_taskid = 0, c_num = 0\<rparr>"

text \<open>\<^verbatim>\<open>cond_wait\<close> up to the task's sleep, and from its wake-up on.\<close>

definition cond_sleep :: "u64 \<Rightarrow> cond \<Rightarrow> cond" where
  "cond_sleep task c = \<lparr>c_taskid = task, c_num = c_num c + 1\<rparr>"

definition cond_wake :: "cond \<Rightarrow> cond" where
  "cond_wake c = c\<lparr>c_num := c_num c - 1\<rparr>"

definition cond_broadcast :: "cond \<Rightarrow> 'm env_scheme \<Rightarrow> 'm env_scheme" where
  "cond_broadcast c w = w\<lparr>wakeups := wakeups w @ [c_taskid c]\<rparr>"

definition cond_destroy :: "cond \<Rightarrow> int \<times> cond" where
  "cond_destroy c = (if c_num c \<noteq> 0 then (EBUSY, c) else (0, \<lparr>c_taskid = 0, c_num = 0\<rparr>))"

text \<open>
  A call that may sleep on a condition: it returns a value, or its task sleeps, with the local
  variables it still needs, and continues in the state that holds when it is woken.
\<close>

datatype ('a, 'k) blocking = Returns 'a | Blocks 'k

lemma cond_destroy_not_minus1: "fst (cond_destroy c) \<noteq> -1"
  by (simp add: cond_destroy_def EBUSY_def)

lemma gettimeofday_norm: "tv_norm (gettimeofday w)"
proof -
  have "tick w mod 100 * 10000 < 1000000" by (simp add: mult_less_cancel2 [of _ 10000 100, simplified])
  then show ?thesis by (simp add: tv_norm_def gettimeofday_def kTimerFreq_def)
qed

lemma gettimeofday_us: "tv_us (gettimeofday w) = int (tick w) * 10000"
proof -
  have "tick w div 100 * 1000000 + tick w mod 100 * 10000 = tick w * 10000"
    using div_mult_mod_eq [of "tick w" 100] by linarith
  then have "int (tick w div 100 * 1000000 + tick w mod 100 * 10000) = int (tick w * 10000)"
    by (rule arg_cong)
  then show ?thesis
    by (simp add: tv_us_def gettimeofday_def kTimerFreq_def)
qed

lemma fault_simps [simp]:
  "ub (fault w)" "tick (fault w) = tick w" "env.more (fault w) = env.more w"
  by (simp_all add: fault_def)

end
