(* ===== verification/Queue.thy ===== *)
theory Queue
  imports Prelude "HOL-Library.Monad_Syntax"
begin

text \<open>
  The queue of \<^verbatim>\<open>kernel/network/benri.c\<close>: a singly linked list with head, tail and a
  counter, over an explicit heap of entries. A heap access through a dangling pointer is
  \<open>None\<close>. The abstract queue is a list; \<open>queue_impl\<close> is the contract between them, and the
  other theories work on the abstract queue.
\<close>

section \<open>The linked queue\<close>

record 'a queue_entry =
  qe_next :: "nat option"
  qe_data :: 'a

text \<open>
  \<open>cells\<close> is the heap of entries, \<open>brk\<close> the next address the allocator gives out; the
  other fields are \<^verbatim>\<open>struct queue_head\<close>.
\<close>

record 'a queue_head =
  cells :: "nat \<Rightarrow> 'a queue_entry option"
  brk :: nat
  q_head :: "nat option"
  q_tail :: "nat option"
  q_num :: u32

definition queue_init :: "'a queue_head \<Rightarrow> 'a queue_head" where
  "queue_init q = q\<lparr>q_head := None, q_tail := None, q_num := 0\<rparr>"

text \<open>Assignment through a pointer to an entry.\<close>

definition set_next :: "(nat \<Rightarrow> 'a queue_entry option) \<Rightarrow> nat \<Rightarrow> nat option \<Rightarrow>
    (nat \<Rightarrow> 'a queue_entry option) option" where
  "set_next h p n = (case h p of None \<Rightarrow> None | Some e \<Rightarrow> Some (h(p \<mapsto> e\<lparr>qe_next := n\<rparr>)))"

text \<open>The argument \<open>ok\<close> says whether \<^verbatim>\<open>calloc\<close> succeeds.\<close>

definition queue_push :: "bool \<Rightarrow> 'a \<Rightarrow> 'a queue_head \<Rightarrow> ('a option \<times> 'a queue_head) option" where
  "queue_push ok data q =
     (if \<not> ok then Some (None, q)
      else
        let entry = brk q;
            h = (cells q)(entry \<mapsto> \<lparr>qe_next = None, qe_data = data\<rparr>)
        in do {
          h' \<leftarrow> (case q_tail q of None \<Rightarrow> Some h | Some t \<Rightarrow> set_next h t (Some entry));
          Some (Some data,
                q\<lparr>cells := h', brk := Suc entry, q_tail := Some entry,
                  q_head := (case q_head q of None \<Rightarrow> Some entry | Some a \<Rightarrow> Some a),
                  q_num := q_num q + 1\<rparr>)
        })"

definition queue_pop :: "'a queue_head \<Rightarrow> ('a option \<times> 'a queue_head) option" where
  "queue_pop q =
     (case q_head q of
        None \<Rightarrow> Some (None, q)
      | Some entry \<Rightarrow> do {
          e \<leftarrow> cells q entry;
          Some (Some (qe_data e),
                q\<lparr>cells := (cells q)(entry := None), q_head := qe_next e,
                  q_tail := (if qe_next e = None then None else q_tail q),
                  q_num := q_num q - 1\<rparr>)
        })"

definition queue_peek :: "'a queue_head \<Rightarrow> 'a option option" where
  "queue_peek q =
     (case q_head q of
        None \<Rightarrow> Some None
      | Some entry \<Rightarrow> do { e \<leftarrow> cells q entry; Some (Some (qe_data e)) })"

text \<open>
  The loop of \<^verbatim>\<open>queue_foreach\<close> from one entry on. The callback sees the caller's state
  \<open>arg\<close> and the data of the entry, and may change both. A cyclic list never returns.
\<close>

partial_function (option) foreach_from ::
  "('s \<Rightarrow> 'a \<Rightarrow> 's \<times> 'a) \<Rightarrow> nat option \<Rightarrow> 's \<times> (nat \<Rightarrow> 'a queue_entry option) \<Rightarrow>
     ('s \<times> (nat \<Rightarrow> 'a queue_entry option)) option" where
  "foreach_from func p st =
     (case p of
        None \<Rightarrow> Some st
      | Some entry \<Rightarrow>
          (case snd st entry of
             None \<Rightarrow> None
           | Some e \<Rightarrow>
               foreach_from func (qe_next e)
                 (fst (func (fst st) (qe_data e)),
                  (snd st)(entry \<mapsto> e\<lparr>qe_data := snd (func (fst st) (qe_data e))\<rparr>))))"

definition queue_foreach ::
  "('s \<Rightarrow> 'a \<Rightarrow> 's \<times> 'a) \<Rightarrow> 's \<Rightarrow> 'a queue_head \<Rightarrow> ('s \<times> 'a queue_head) option" where
  "queue_foreach func arg q =
     do { (s, h) \<leftarrow> foreach_from func (q_head q) (arg, cells q); Some (s, q\<lparr>cells := h\<rparr>) }"

section \<open>The abstract queue\<close>

definition list_push :: "bool \<Rightarrow> 'a \<Rightarrow> 'a list \<Rightarrow> 'a option \<times> 'a list" where
  "list_push ok x xs = (if ok then (Some x, xs @ [x]) else (None, xs))"

fun list_pop :: "'a list \<Rightarrow> 'a option \<times> 'a list" where
  "list_pop [] = (None, [])"
| "list_pop (x # xs) = (Some x, xs)"

fun list_peek :: "'a list \<Rightarrow> 'a option" where
  "list_peek [] = None"
| "list_peek (x # xs) = Some x"

fun list_foreach :: "('s \<Rightarrow> 'a \<Rightarrow> 's \<times> 'a) \<Rightarrow> 's \<Rightarrow> 'a list \<Rightarrow> 's \<times> 'a list" where
  "list_foreach func s [] = (s, [])"
| "list_foreach func s (x # xs) =
     (let (s1, x1) = func s x; (s2, xs2) = list_foreach func s1 xs in (s2, x1 # xs2))"

text \<open>Sequences of operations, for a queue given by its three operations.\<close>

datatype 'a qop = Push bool 'a | Pop | Peek

fun list_step :: "'a qop \<Rightarrow> 'a list \<Rightarrow> 'a option \<times> 'a list" where
  "list_step (Push ok x) xs = list_push ok x xs"
| "list_step Pop xs = list_pop xs"
| "list_step Peek xs = (list_peek xs, xs)"

fun list_run :: "'a qop list \<Rightarrow> 'a list \<Rightarrow> 'a option list \<times> 'a list" where
  "list_run [] xs = ([], xs)"
| "list_run (op # ops) xs =
     (let (r, xs1) = list_step op xs; (rs, xs2) = list_run ops xs1 in (r # rs, xs2))"

fun impl_step :: "(bool \<Rightarrow> 'a \<Rightarrow> 'q \<Rightarrow> ('a option \<times> 'q) option) \<Rightarrow>
    ('q \<Rightarrow> ('a option \<times> 'q) option) \<Rightarrow> ('q \<Rightarrow> 'a option option) \<Rightarrow>
    'a qop \<Rightarrow> 'q \<Rightarrow> ('a option \<times> 'q) option" where
  "impl_step push pop peek (Push ok x) q = push ok x q"
| "impl_step push pop peek Pop q = pop q"
| "impl_step push pop peek Peek q = do { r \<leftarrow> peek q; Some (r, q) }"

fun impl_run :: "(bool \<Rightarrow> 'a \<Rightarrow> 'q \<Rightarrow> ('a option \<times> 'q) option) \<Rightarrow>
    ('q \<Rightarrow> ('a option \<times> 'q) option) \<Rightarrow> ('q \<Rightarrow> 'a option option) \<Rightarrow>
    'a qop list \<Rightarrow> 'q \<Rightarrow> ('a option list \<times> 'q) option" where
  "impl_run push pop peek [] q = Some ([], q)"
| "impl_run push pop peek (op # ops) q =
     do { (r, q1) \<leftarrow> impl_step push pop peek op q;
          (rs, q2) \<leftarrow> impl_run push pop peek ops q1;
          Some (r # rs, q2) }"

section \<open>The contract\<close>

text \<open>\<open>rep q xs\<close>: the queue \<open>q\<close> holds the elements \<open>xs\<close>, oldest first.\<close>

locale queue_impl =
  fixes push :: "bool \<Rightarrow> 'a \<Rightarrow> 'q \<Rightarrow> ('a option \<times> 'q) option"
    and pop :: "'q \<Rightarrow> ('a option \<times> 'q) option"
    and peek :: "'q \<Rightarrow> 'a option option"
    and rep :: "'q \<Rightarrow> 'a list \<Rightarrow> bool"
  assumes push_ok: "rep q xs \<Longrightarrow> \<exists>q'. push True x q = Some (Some x, q') \<and> rep q' (xs @ [x])"
    and push_fail: "push False x q = Some (None, q)"
    and pop_empty: "rep q [] \<Longrightarrow> pop q = Some (None, q)"
    and pop_first: "rep q (x # xs) \<Longrightarrow> \<exists>q'. pop q = Some (Some x, q') \<and> rep q' xs"
    and peek_empty: "rep q [] \<Longrightarrow> peek q = Some None"
    and peek_first: "rep q (x # xs) \<Longrightarrow> peek q = Some (Some x)"
begin

lemma step_refines:
  assumes "rep q xs"
  shows "\<exists>q'. impl_step push pop peek op q = Some (fst (list_step op xs), q') \<and>
              rep q' (snd (list_step op xs))"
proof (cases op)
  case (Push ok x)
  then show ?thesis using push_ok [OF assms] push_fail assms
    by (cases ok) (auto simp: list_push_def)
next
  case Pop
  then show ?thesis using assms pop_empty pop_first by (cases xs) auto
next
  case Peek
  then show ?thesis using assms peek_empty peek_first by (cases xs) auto
qed

lemma run_refines:
  "rep q xs \<Longrightarrow>
     \<exists>q'. impl_run push pop peek ops q = Some (fst (list_run ops xs), q') \<and>
          rep q' (snd (list_run ops xs))"
proof (induction ops arbitrary: q xs)
  case Nil
  then show ?case by simp
next
  case (Cons op ops)
  from step_refines [OF Cons.prems, of op] obtain q1
    where s: "impl_step push pop peek op q = Some (fst (list_step op xs), q1)"
      and r: "rep q1 (snd (list_step op xs))" by blast
  from Cons.IH [OF r] s show ?case by (auto simp: Let_def split: prod.splits)
qed

end

section \<open>The linked queue meets it\<close>

text \<open>\<open>chain h p as xs\<close>: from \<open>p\<close> the entries at \<open>as\<close>, holding \<open>xs\<close>, up to the null pointer.\<close>

fun chain :: "(nat \<Rightarrow> 'a queue_entry option) \<Rightarrow> nat option \<Rightarrow> nat list \<Rightarrow> 'a list \<Rightarrow> bool" where
  "chain h p [] [] = (p = None)"
| "chain h p (a # as) (x # xs) =
     (p = Some a \<and> (\<exists>e. h a = Some e \<and> qe_data e = x \<and> chain h (qe_next e) as xs))"
| "chain h p _ _ = False"

definition queue_rep :: "'a queue_head \<Rightarrow> 'a list \<Rightarrow> bool" where
  "queue_rep q xs \<longleftrightarrow>
     (\<exists>as. chain (cells q) (q_head q) as xs \<and> distinct as \<and> (\<forall>a \<in> set as. a < brk q) \<and>
           q_tail q = (if as = [] then None else Some (last as)) \<and>
           q_num q = of_nat (length xs))"

lemma chain_Nil [simp]: "chain h p as [] \<longleftrightarrow> as = [] \<and> p = None"
  by (cases as) auto

lemma chain_length: "chain h p as xs \<Longrightarrow> length as = length xs"
  by (induction h p as xs rule: chain.induct) auto

lemma chain_cong: "chain h p as xs \<Longrightarrow> (\<And>a. a \<in> set as \<Longrightarrow> h' a = h a) \<Longrightarrow> chain h' p as xs"
  by (induction h p as xs rule: chain.induct) auto

lemma chain_dom: "chain h p as xs \<Longrightarrow> a \<in> set as \<Longrightarrow> \<exists>e. h a = Some e"
  by (induction h p as xs rule: chain.induct) auto

text \<open>Linking a fresh entry behind the last one.\<close>

lemma chain_snoc:
  assumes "chain h p as xs" and "as \<noteq> []" and "distinct as" and "b \<notin> set as"
    and "h (last as) = Some e"
  shows "chain (h(b \<mapsto> \<lparr>qe_next = None, qe_data = x\<rparr>, last as \<mapsto> e\<lparr>qe_next := Some b\<rparr>)) p
           (as @ [b]) (xs @ [x])"
  using assms
proof (induction h p as xs rule: chain.induct)
  case (2 h p a as y ys)
  show ?case
  proof (cases "as = []")
    case True
    with 2 show ?thesis by (cases ys) auto
  next
    case False
    with 2 have "last as \<noteq> a" and "b \<noteq> a" by auto
    with 2 False show ?thesis by auto
  qed
qed auto

lemma queue_push_rep:
  assumes "queue_rep q xs"
  shows "\<exists>q'. queue_push True x q = Some (Some x, q') \<and> queue_rep q' (xs @ [x])"
proof -
  from assms obtain as where as: "chain (cells q) (q_head q) as xs" "distinct as"
      "\<forall>a \<in> set as. a < brk q" "q_tail q = (if as = [] then None else Some (last as))"
      "q_num q = of_nat (length xs)"
    by (auto simp: queue_rep_def)
  show ?thesis
  proof (cases "as = []")
    case True
    with as chain_length [OF as(1)] show ?thesis
      by (auto simp: queue_push_def queue_rep_def Let_def intro!: exI [of _ "[brk q]"])
  next
    case False
    then obtain e where e: "cells q (last as) = Some e"
      using chain_dom [OF as(1)] last_in_set by blast
    have b: "brk q \<notin> set as" using as(3) by auto
    moreover have "last as \<in> set as" using False by simp
    ultimately have l: "last as \<noteq> brk q" by metis
    have "q_head q \<noteq> None" using as(1) False by (cases as; cases xs) auto
    then show ?thesis
      using as False e b l chain_snoc [OF as(1) False as(2) b e, of x]
      by (auto simp: queue_push_def queue_rep_def set_next_def Let_def less_Suc_eq
          intro!: exI [of _ "as @ [brk q]"])
  qed
qed

lemma queue_pop_rep:
  assumes "queue_rep q (x # xs)"
  shows "\<exists>q'. queue_pop q = Some (Some x, q') \<and> queue_rep q' xs"
proof -
  from assms obtain as' where as': "chain (cells q) (q_head q) as' (x # xs)" "distinct as'"
      "\<forall>b \<in> set as'. b < brk q" "q_tail q = (if as' = [] then None else Some (last as'))"
      "q_num q = of_nat (length (x # xs))"
    unfolding queue_rep_def by blast
  then obtain a as where "as' = a # as" by (cases as') auto
  note as = as' [unfolded this]
  then obtain e where e: "cells q a = Some e" "qe_data e = x" "chain (cells q) (qe_next e) as xs"
      "q_head q = Some a"
    by auto
  have "chain ((cells q)(a := None)) (qe_next e) as xs"
    using as(2) by (intro chain_cong [OF e(3)]) auto
  moreover have "qe_next e = None \<longleftrightarrow> as = []"
    using e(3) by (cases as; cases xs) auto
  moreover have "last (a # as) = last as" if "as \<noteq> []" using that by simp
  ultimately have "queue_rep (q\<lparr>cells := (cells q)(a := None), q_head := qe_next e,
      q_tail := (if qe_next e = None then None else q_tail q), q_num := q_num q - 1\<rparr>) xs"
    using as(2-5) by (auto simp: queue_rep_def intro!: exI [of _ as])
  then show ?thesis using e(1,2,4) by (simp add: queue_pop_def)
qed

interpretation lq: queue_impl queue_push queue_pop queue_peek queue_rep
proof unfold_locales
  fix q :: "'a queue_head" and x xs
  show "queue_push False x q = Some (None, q)"
    by (simp add: queue_push_def)
  assume "queue_rep q []"
  then have "q_head q = None" by (auto simp: queue_rep_def)
  then show "queue_pop q = Some (None, q)" and "queue_peek q = Some None"
    by (simp_all add: queue_pop_def queue_peek_def)
next
  fix q :: "'a queue_head" and x xs
  assume "queue_rep q (x # xs)"
  then show "queue_peek q = Some (Some x)"
    unfolding queue_rep_def queue_peek_def by (auto elim: chain.elims)
qed (fact queue_push_rep queue_pop_rep)+

lemma queue_init_rep: "queue_rep (queue_init q) []"
  by (auto simp: queue_rep_def queue_init_def intro!: exI [of _ "[]"])

text \<open>The loop over a well-formed queue returns and is the loop over the list.\<close>

lemma foreach_from_chain:
  "chain h p as xs \<Longrightarrow> distinct as \<Longrightarrow>
     \<exists>h'. foreach_from func p (s, h) = Some (fst (list_foreach func s xs), h') \<and>
          chain h' p as (snd (list_foreach func s xs)) \<and> (\<forall>a. a \<notin> set as \<longrightarrow> h' a = h a)"
proof (induction as arbitrary: h p xs s)
  case Nil
  then show ?case by (cases xs) (auto simp: foreach_from.simps)
next
  case (Cons a as)
  then obtain x ys e where xs: "xs = x # ys" "p = Some a" "h a = Some e" "qe_data e = x"
      "chain h (qe_next e) as ys" by (cases xs) auto
  let ?h = "h(a \<mapsto> e\<lparr>qe_data := snd (func s x)\<rparr>)"
  have "chain ?h (qe_next e) as ys"
    using Cons.prems(2) by (intro chain_cong [OF xs(5)]) auto
  moreover have "distinct as" using Cons.prems(2) by simp
  ultimately obtain h' where h':
      "foreach_from func (qe_next e) (fst (func s x), ?h) =
         Some (fst (list_foreach func (fst (func s x)) ys), h')"
      "chain h' (qe_next e) as (snd (list_foreach func (fst (func s x)) ys))"
      "\<forall>b. b \<notin> set as \<longrightarrow> h' b = ?h b"
    using Cons.IH by blast
  with Cons.prems xs show ?case
    by (subst foreach_from.simps) (auto simp: Let_def split: prod.splits)
qed

lemma length_list_foreach [simp]: "length (snd (list_foreach func s xs)) = length xs"
  by (induction func s xs rule: list_foreach.induct) (auto simp: Let_def split: prod.splits)

lemma queue_foreach_rep:
  assumes "queue_rep q xs"
  shows "\<exists>q'. queue_foreach func s q = Some (fst (list_foreach func s xs), q') \<and>
              queue_rep q' (snd (list_foreach func s xs))"
proof -
  from assms obtain as where as: "chain (cells q) (q_head q) as xs" "distinct as"
      "\<forall>a \<in> set as. a < brk q" "q_tail q = (if as = [] then None else Some (last as))"
      "q_num q = of_nat (length xs)"
    by (auto simp: queue_rep_def)
  from foreach_from_chain [OF as(1,2)] obtain h' where
      "foreach_from func (q_head q) (s, cells q) = Some (fst (list_foreach func s xs), h')"
      "chain h' (q_head q) as (snd (list_foreach func s xs))" by metis
  moreover from this(2) have "queue_rep (q\<lparr>cells := h'\<rparr>) (snd (list_foreach func s xs))"
    using as(2-5) unfolding queue_rep_def by (intro exI [of _ as]) simp
  ultimately show ?thesis by (simp add: queue_foreach_def)
qed

section \<open>Properties\<close>

text \<open>
  C2: the linked queue is a first-in first-out list. Any sequence of pushes (of which some may
  run out of memory), pops and peeks on an initialised queue returns what the list returns, never
  follows a dangling pointer, and ends with the same elements queued.
\<close>

theorem queue_refines_list:
  "\<exists>q'. impl_run queue_push queue_pop queue_peek ops (queue_init q) = Some (fst (list_run ops []), q') \<and>
        queue_rep q' (snd (list_run ops []))"
  by (rule lq.run_refines [OF queue_init_rep])

end
