(* ===== verification/Network.thy ===== *)
theory Network
  imports Port Queue
begin

text \<open>
  \<^verbatim>\<open>kernel/network/network.c\<close>: devices, their interfaces, the protocol table with its
  input queues, and the timers. Structures that the code links through pointers live in
  explicit stores, functions from addresses to records; an intrusive list (a \<open>next\<close> field)
  is the list of the addresses on it, first one first. Function pointers of the protocol
  and timer tables are constructors; the driver operations behind \<^verbatim>\<open>dev->ops\<close> are
  functions on a driver state of any type.
\<close>

section \<open>Data\<close>

definition NET_DEVICE_TYPE_ETHERNET :: u16 where "NET_DEVICE_TYPE_ETHERNET = 0x0002"
definition NET_DEVICE_FLAG_UP :: u16 where "NET_DEVICE_FLAG_UP = 0x0001"
definition NET_DEVICE_FLAG_BROADCAST :: u16 where "NET_DEVICE_FLAG_BROADCAST = 0x0020"
definition NET_DEVICE_FLAG_NEED_ARP :: u16 where "NET_DEVICE_FLAG_NEED_ARP = 0x0100"
definition NET_IFACE_FAMILY_IP :: int where "NET_IFACE_FAMILY_IP = 2"
definition NET_PROTOCOL_TYPE_IP :: u16 where "NET_PROTOCOL_TYPE_IP = 0x0800"
definition NET_PROTOCOL_TYPE_ARP :: u16 where "NET_PROTOCOL_TYPE_ARP = 0x0806"
definition NET_DEVICE_ADDR_LEN :: nat where "NET_DEVICE_ADDR_LEN = 16"
definition IFNAMSIZ :: nat where "IFNAMSIZ = 16"

record net_device =
  ifaces :: "nat list"
  dev_index :: u32
  dev_name :: string
  dev_type :: u16
  mtu :: u16
  dev_flags :: u16
  hlen :: u16
  alen :: u16
  dev_addr :: "u8 list"
  dev_broadcast :: "u8 list"
  priv :: nat

text \<open>
  The operations of a driver; \<open>None\<close> for a null pointer to \<^verbatim>\<open>open\<close> or \<^verbatim>\<open>close\<close>. The result
  of \<^verbatim>\<open>transmit\<close> is \<open>None\<close> when the driver performs an undefined memory access.
\<close>

record 'd net_device_ops =
  ops_open :: "(net_device \<Rightarrow> 'd \<Rightarrow> int \<times> 'd) option"
  ops_close :: "(net_device \<Rightarrow> 'd \<Rightarrow> int \<times> 'd) option"
  ops_transmit :: "net_device \<Rightarrow> u16 \<Rightarrow> u8 list \<Rightarrow> u8 list \<Rightarrow> 'd \<Rightarrow> (int \<times> 'd) option"

text \<open>
  Every interface of the system is a \<^verbatim>\<open>struct ip_iface\<close> (of \<^verbatim>\<open>ip.h\<close>), whose first member
  is the \<^verbatim>\<open>struct net_iface\<close> with the device and the family.
\<close>

record ip_iface =
  if_dev :: nat
  family :: int
  unicast :: u32
  netmask :: u32
  broadcast :: u32

datatype proto_handler = Arp_input | Ip_input
datatype timer_handler = Arp_timer | Tcp_timer

record net_queue_entry =
  qe_dev :: nat
  qe_packet :: "u8 list"

record net_protocol =
  np_type :: u16
  np_queue :: "net_queue_entry list"
  np_handler :: proto_handler

record net_timer =
  nt_interval :: timeval
  nt_last :: timeval
  nt_handler :: timer_handler

record 'd net_state = env +
  dev_heap :: "nat \<Rightarrow> net_device"
  dev_brk :: nat
  dev_ops :: "nat \<Rightarrow> 'd net_device_ops"
  drv :: 'd
  devices :: "nat list"
  next_index :: u32
  iface_heap :: "nat \<Rightarrow> ip_iface"
  iface_brk :: nat
  net_protocols :: "net_protocol list"
  timers :: "net_timer list"

definition dev_is_up :: "net_device \<Rightarrow> bool" where
  "dev_is_up d \<longleftrightarrow> dev_flags d AND NET_DEVICE_FLAG_UP \<noteq> 0"

definition set_dev :: "nat \<Rightarrow> net_device \<Rightarrow> ('d, 'm) net_state_scheme \<Rightarrow> ('d, 'm) net_state_scheme" where
  "set_dev p d w = w\<lparr>dev_heap := (dev_heap w)(p := d)\<rparr>"

definition zero_device :: net_device where
  "zero_device = \<lparr>ifaces = [], dev_index = 0, dev_name = '''', dev_type = 0, mtu = 0, dev_flags = 0,
     hlen = 0, alen = 0, dev_addr = replicate NET_DEVICE_ADDR_LEN 0,
     dev_broadcast = replicate NET_DEVICE_ADDR_LEN 0, priv = 0\<rparr>"

section \<open>Devices\<close>

definition net_device_alloc ::
  "('d, 'm) net_state_scheme \<Rightarrow> nat option \<times> ('d, 'm) net_state_scheme" where
  "net_device_alloc w =
     (let (ok, w1) = calloc w
      in if ok then (Some (dev_brk w1),
                     (set_dev (dev_brk w1) zero_device w1)\<lparr>dev_brk := Suc (dev_brk w1)\<rparr>)
         else (None, w1))"

definition net_device_register ::
  "nat \<Rightarrow> ('d, 'm) net_state_scheme \<Rightarrow> int \<times> ('d, 'm) net_state_scheme" where
  "net_device_register dev w =
     (let i = next_index w;
          d = (dev_heap w dev)\<lparr>dev_index := i,
                dev_name := snprintf IFNAMSIZ (''net'' @ dec_of_int (sint i))\<rparr>
      in (0, (set_dev dev d w)\<lparr>next_index := i + 1, devices := dev # devices w\<rparr>))"

text \<open>The call of \<^verbatim>\<open>ops->open\<close> or \<^verbatim>\<open>ops->close\<close>, when there is one.\<close>

definition call_op ::
  "(net_device \<Rightarrow> 'd \<Rightarrow> int \<times> 'd) option \<Rightarrow> nat \<Rightarrow> ('d, 'm) net_state_scheme \<Rightarrow>
     int \<times> ('d, 'm) net_state_scheme" where
  "call_op f dev w =
     (case f of None \<Rightarrow> (0, w)
      | Some g \<Rightarrow> let (r, s) = g (dev_heap w dev) (drv w) in (r, w\<lparr>drv := s\<rparr>))"

definition net_device_open ::
  "nat \<Rightarrow> ('d, 'm) net_state_scheme \<Rightarrow> int \<times> ('d, 'm) net_state_scheme" where
  "net_device_open dev w =
     (if dev_is_up (dev_heap w dev) then (-1, w)
      else
        let (r, w1) = call_op (ops_open (dev_ops w dev)) dev w
        in if r = -1 then (-1, w1)
           else (0, set_dev dev ((dev_heap w1 dev)
                     \<lparr>dev_flags := dev_flags (dev_heap w1 dev) OR NET_DEVICE_FLAG_UP\<rparr>) w1))"

definition net_device_close ::
  "nat \<Rightarrow> ('d, 'm) net_state_scheme \<Rightarrow> int \<times> ('d, 'm) net_state_scheme" where
  "net_device_close dev w =
     (if \<not> dev_is_up (dev_heap w dev) then (-1, w)
      else
        let (r, w1) = call_op (ops_close (dev_ops w dev)) dev w
        in if r = -1 then (-1, w1)
           else (0, set_dev dev ((dev_heap w1 dev)
                     \<lparr>dev_flags := dev_flags (dev_heap w1 dev) AND NOT NET_DEVICE_FLAG_UP\<rparr>) w1))"

definition net_device_by_index :: "u32 \<Rightarrow> ('d, 'm) net_state_scheme \<Rightarrow> nat option" where
  "net_device_by_index index w = find (\<lambda>p. dev_index (dev_heap w p) = index) (devices w)"

definition net_device_by_name :: "string \<Rightarrow> ('d, 'm) net_state_scheme \<Rightarrow> nat option" where
  "net_device_by_name name w = find (\<lambda>p. dev_name (dev_heap w p) = name) (devices w)"

definition net_device_get_iface :: "nat \<Rightarrow> int \<Rightarrow> ('d, 'm) net_state_scheme \<Rightarrow> nat option" where
  "net_device_get_iface dev fam w =
     find (\<lambda>i. family (iface_heap w i) = fam) (ifaces (dev_heap w dev))"

definition net_device_add_iface ::
  "nat \<Rightarrow> nat \<Rightarrow> ('d, 'm) net_state_scheme \<Rightarrow> int \<times> ('d, 'm) net_state_scheme" where
  "net_device_add_iface dev iface w =
     (if \<exists>e \<in> set (ifaces (dev_heap w dev)).
           family (iface_heap w e) = family (iface_heap w iface) then (-1, w)
      else
        (0, (set_dev dev ((dev_heap w dev)\<lparr>ifaces := iface # ifaces (dev_heap w dev)\<rparr>) w)
              \<lparr>iface_heap := (iface_heap w)(iface := (iface_heap w iface)\<lparr>if_dev := dev\<rparr>)\<rparr>))"

definition net_device_output ::
  "nat \<Rightarrow> u16 \<Rightarrow> u8 list \<Rightarrow> u8 list \<Rightarrow> ('d, 'm) net_state_scheme \<Rightarrow>
     int \<times> ('d, 'm) net_state_scheme" where
  "net_device_output dev type data dst w =
     (let d = dev_heap w dev
      in if \<not> dev_is_up d then (-1, w)
         else if unat (mtu d) < length data then (-1, w)
         else case ops_transmit (dev_ops w dev) d type data dst (drv w) of
                None \<Rightarrow> (-1, fault w)
              | Some (r, s) \<Rightarrow> (if r = -1 then -1 else 0, w\<lparr>drv := s\<rparr>))"

section \<open>Protocols: input queues and the software interrupt\<close>

definition net_input_handler ::
  "u16 \<Rightarrow> u8 list \<Rightarrow> nat \<Rightarrow> ('d, 'm) net_state_scheme \<Rightarrow> int \<times> ('d, 'm) net_state_scheme" where
  "net_input_handler type data dev w =
     (case find_idx (\<lambda>p. np_type p = type) (net_protocols w) of
        None \<Rightarrow> (0, w)
      | Some i \<Rightarrow>
          (let (ok, w1) = calloc w
           in if \<not> ok then (-1, w1)
              else
                let (ok2, w2) = calloc w1;
                    proto = net_protocols w2 ! i;
                    (r, q) = list_push ok2 \<lparr>qe_dev = dev, qe_packet = data\<rparr> (np_queue proto)
                in if r = None then (-1, w2)
                   else (0, softirq (w2\<lparr>net_protocols :=
                              (net_protocols w2)[i := proto\<lparr>np_queue := q\<rparr>]\<rparr>))))"

definition net_protocol_register ::
  "u16 \<Rightarrow> proto_handler \<Rightarrow> ('d, 'm) net_state_scheme \<Rightarrow> int \<times> ('d, 'm) net_state_scheme" where
  "net_protocol_register type handler w =
     (if \<exists>p \<in> set (net_protocols w). np_type p = type then (-1, w)
      else
        let (ok, w1) = calloc w
        in if \<not> ok then (-1, w1)
           else (0, w1\<lparr>net_protocols :=
                   \<lparr>np_type = type, np_queue = [], np_handler = handler\<rparr> # net_protocols w1\<rparr>))"

text \<open>
  One round over the protocols: each gives at most one packet to its handler. \<open>call\<close> runs
  the handler a function pointer stands for.
\<close>

fun softirq_loop ::
  "(proto_handler \<Rightarrow> u8 list \<Rightarrow> nat \<Rightarrow> ('d, 'm) net_state_scheme \<Rightarrow> ('d, 'm) net_state_scheme) \<Rightarrow>
     nat list \<Rightarrow> ('d, 'm) net_state_scheme \<Rightarrow> ('d, 'm) net_state_scheme" where
  "softirq_loop call [] w = w"
| "softirq_loop call (i # is) w =
     (let proto = net_protocols w ! i
      in case list_pop (np_queue proto) of
           (None, _) \<Rightarrow> softirq_loop call is w
         | (Some e, q) \<Rightarrow>
             softirq_loop call is
               (call (np_handler proto) (qe_packet e) (qe_dev e)
                 (w\<lparr>net_protocols := (net_protocols w)[i := proto\<lparr>np_queue := q\<rparr>]\<rparr>)))"

definition net_softirq_handler ::
  "(proto_handler \<Rightarrow> u8 list \<Rightarrow> nat \<Rightarrow> ('d, 'm) net_state_scheme \<Rightarrow> ('d, 'm) net_state_scheme) \<Rightarrow>
     ('d, 'm) net_state_scheme \<Rightarrow> ('d, 'm) net_state_scheme" where
  "net_softirq_handler call w = softirq_loop call [0..<length (net_protocols w)] w"

section \<open>Timers\<close>

definition net_timer_register ::
  "timeval \<Rightarrow> timer_handler \<Rightarrow> ('d, 'm) net_state_scheme \<Rightarrow> int \<times> ('d, 'm) net_state_scheme" where
  "net_timer_register interval handler w =
     (let (ok, w1) = calloc w
      in if \<not> ok then (-1, w1)
         else (0, w1\<lparr>timers := \<lparr>nt_interval = interval, nt_last = gettimeofday w1,
                                nt_handler = handler\<rparr> # timers w1\<rparr>))"

fun timer_loop ::
  "(timer_handler \<Rightarrow> ('d, 'm) net_state_scheme \<Rightarrow> ('d, 'm) net_state_scheme) \<Rightarrow>
     nat list \<Rightarrow> ('d, 'm) net_state_scheme \<Rightarrow> ('d, 'm) net_state_scheme" where
  "timer_loop call [] w = w"
| "timer_loop call (i # is) w =
     (let timer = timers w ! i; now = gettimeofday w; diff = timersub now (nt_last timer)
      in if timer_less (nt_interval timer) diff
         then let w1 = call (nt_handler timer) w
              in timer_loop call is
                   (w1\<lparr>timers := (timers w1)[i := (timers w1 ! i)\<lparr>nt_last := now\<rparr>]\<rparr>)
         else timer_loop call is w)"

definition net_timer_handler ::
  "(timer_handler \<Rightarrow> ('d, 'm) net_state_scheme \<Rightarrow> ('d, 'm) net_state_scheme) \<Rightarrow>
     ('d, 'm) net_state_scheme \<Rightarrow> ('d, 'm) net_state_scheme" where
  "net_timer_handler call w = timer_loop call [0..<length (timers w)] w"

section \<open>Start and stop\<close>

definition net_run :: "('d, 'm) net_state_scheme \<Rightarrow> int \<times> ('d, 'm) net_state_scheme" where
  "net_run w = (0, fold (\<lambda>dev w. snd (net_device_open dev w)) (devices w) w)"

definition net_shutdown :: "('d, 'm) net_state_scheme \<Rightarrow> ('d, 'm) net_state_scheme" where
  "net_shutdown w = fold (\<lambda>dev w. snd (net_device_close dev w)) (devices w) w"

section \<open>What the operations leave alone\<close>

text \<open>
  Sending changes the driver's state and possibly \<open>ub\<close>, nothing else: the rest of the
  state, the fields that later components add included (\<open>more\<close>), is as before. \<open>ub\<close> is never
  cleared.
\<close>

definition driver_only :: "('d, 'm) net_state_scheme \<Rightarrow> ('d, 'm) net_state_scheme \<Rightarrow> bool" where
  "driver_only w w' \<longleftrightarrow> w' = w\<lparr>drv := drv w', ub := ub w'\<rparr> \<and> (ub w \<longrightarrow> ub w')"

lemma driver_only_refl [simp]: "driver_only w w"
  by (simp add: driver_only_def)

lemma driver_only_fault [simp]: "driver_only w (fault w)"
  by (simp add: driver_only_def fault_def)

lemma driver_only_drv [simp]: "driver_only w (w\<lparr>drv := s\<rparr>)"
  by (simp add: driver_only_def)

lemma driver_only_trans: "driver_only w1 w2 \<Longrightarrow> driver_only w2 w3 \<Longrightarrow> driver_only w1 w3"
  unfolding driver_only_def by (cases w1; cases w2; cases w3) simp

lemma driver_onlyD:
  assumes "driver_only w w'"
  shows "net_state.more w' = net_state.more w" "dev_heap w' = dev_heap w"
    "dev_ops w' = dev_ops w" "devices w' = devices w" "iface_heap w' = iface_heap w"
    "net_protocols w' = net_protocols w" "timers w' = timers w" "softirqs w' = softirqs w"
    "tick w' = tick w" "alloc_ok w' = alloc_ok w" "alloc_no w' = alloc_no w"
    "randoms w' = randoms w" "random_no w' = random_no w" "wakeups w' = wakeups w"
    "next_index w' = next_index w" "cur_task w' = cur_task w"
    "dev_brk w' = dev_brk w" "iface_brk w' = iface_brk w"
  using assms unfolding driver_only_def by (cases w; cases w'; simp)+

lemma net_device_output_driver_only [frame]:
  "driver_only w (snd (net_device_output dev type data dst w))"
  by (auto simp: net_device_output_def Let_def split: option.splits)

lemma net_device_output_result: "fst (net_device_output dev type data dst w) \<in> {-1, 0}"
  by (auto simp: net_device_output_def Let_def split: option.splits)

section \<open>Devices: names, numbers and states\<close>

lemma set_dev_simps [simp]:
  "dev_heap (set_dev p d w) = (dev_heap w)(p := d)"
  "devices (set_dev p d w) = devices w" "next_index (set_dev p d w) = next_index w"
  "dev_ops (set_dev p d w) = dev_ops w" "drv (set_dev p d w) = drv w"
  "net_protocols (set_dev p d w) = net_protocols w" "dev_brk (set_dev p d w) = dev_brk w"
  by (simp_all add: set_dev_def)

lemma up_flag_nonzero [simp]: "NET_DEVICE_FLAG_UP \<noteq> 0"
  by (simp add: NET_DEVICE_FLAG_UP_def)

lemma up_flag_set: "(f OR NET_DEVICE_FLAG_UP) AND NET_DEVICE_FLAG_UP \<noteq> 0"
  by (simp add: bit.conj_disj_distrib2)

lemma up_flag_cleared: "(f AND NOT NET_DEVICE_FLAG_UP) AND NET_DEVICE_FLAG_UP = 0"
  by (simp add: and.assoc)

lemma call_op_simps [simp]:
  "dev_heap (snd (call_op f dev w)) = dev_heap w" "dev_ops (snd (call_op f dev w)) = dev_ops w"
  "devices (snd (call_op f dev w)) = devices w"
  by (auto simp: call_op_def split: option.splits prod.splits)

text \<open>Opening brings a device up exactly when it was down and its driver agrees.\<close>

lemma net_device_open_up:
  "fst (net_device_open dev w) = 0 \<Longrightarrow>
     \<not> dev_is_up (dev_heap w dev) \<and> dev_is_up (dev_heap (snd (net_device_open dev w)) dev)"
  by (auto simp: net_device_open_def dev_is_up_def up_flag_set Let_def split: if_splits prod.splits)

lemma net_device_close_down:
  "fst (net_device_close dev w) = 0 \<Longrightarrow>
     dev_is_up (dev_heap w dev) \<and> \<not> dev_is_up (dev_heap (snd (net_device_close dev w)) dev)"
  by (auto simp: net_device_close_def dev_is_up_def up_flag_cleared Let_def split: if_splits prod.splits)

lemma net_device_open_others:
  "dev' \<noteq> dev \<Longrightarrow> dev_heap (snd (net_device_open dev w)) dev' = dev_heap w dev'"
  by (auto simp: net_device_open_def Let_def split: prod.splits)
    (metis call_op_simps(1) snd_conv)+

text \<open>
  The device table: the list holds distinct devices, numbered from 0 in the order of their
  registration, and named after their numbers.
\<close>

definition dev_inv :: "('d, 'm) net_state_scheme \<Rightarrow> bool" where
  "dev_inv w \<longleftrightarrow>
     distinct (devices w) \<and> length (devices w) < 2 ^ 31 \<and>
     next_index w = of_nat (length (devices w)) \<and>
     (\<forall>k < length (devices w).
        dev_index (dev_heap w (rev (devices w) ! k)) = of_nat k \<and>
        dev_name (dev_heap w (rev (devices w) ! k)) = ''net'' @ dec_of_nat k)"

lemma length_dec_of_nat: "n < 10 ^ k \<Longrightarrow> 0 < k \<Longrightarrow> length (dec_of_nat n) \<le> k"
proof (induction k arbitrary: n)
  case (Suc k)
  show ?case
  proof (cases "n < 10")
    case False
    with Suc.prems have "n div 10 < 10 ^ k" by (simp add: less_mult_imp_div_less mult.commute)
    moreover have "0 < k" using False Suc.prems by (cases k) auto
    ultimately show ?thesis using Suc.IH False by (simp add: dec_of_nat.simps [of n])
  qed (simp add: dec_of_nat.simps)
qed simp

lemma device_name_fits:
  assumes "k < 2 ^ 31"
  shows "snprintf IFNAMSIZ (''net'' @ dec_of_int (sint (of_nat k :: u32))) = ''net'' @ dec_of_nat k"
proof -
  have "sint (of_nat k :: u32) = int k"
    using assms by (simp add: signed_of_nat signed_take_bit_int_eq_self)
  moreover have "length (dec_of_nat k) \<le> 10"
    using assms by (intro length_dec_of_nat) auto
  ultimately show ?thesis by (simp add: dec_of_int_def snprintf_def IFNAMSIZ_def)
qed

lemma net_device_register_inv:
  assumes inv: "dev_inv w" and new: "dev \<notin> set (devices w)" and room: "Suc (length (devices w)) < 2 ^ 31"
  shows "dev_inv (snd (net_device_register dev w))"
proof -
  let ?n = "length (devices w)"
  have "?n < 2 ^ 31" using room by simp
  note name = device_name_fits [OF this]
  have old: "rev (devices w) ! k \<noteq> dev" if "k < ?n" for k
    using new that nth_mem [of k "rev (devices w)"] by (metis length_rev set_rev)
  show ?thesis
    using inv new room name old
    by (auto simp: dev_inv_def net_device_register_def Let_def nth_append less_Suc_eq)
qed

lemma dev_inv_nth:
  assumes "dev_inv w" and "p \<in> set (devices w)"
  obtains k where "k < length (devices w)" "rev (devices w) ! k = p"
    "dev_index (dev_heap w p) = of_nat k" "dev_name (dev_heap w p) = ''net'' @ dec_of_nat k"
proof -
  from assms(2) obtain k where "k < length (devices w)" "rev (devices w) ! k = p"
    by (metis in_set_conv_nth length_rev set_rev)
  with assms(1) that show ?thesis by (auto simp: dev_inv_def)
qed

lemma dec_of_nat_inj: "dec_of_nat m = dec_of_nat n \<longleftrightarrow> m = n"
  by (metis fst_conv scan_dec_of_nat)

lemma of_nat_u32_inj: "k < 2 ^ 31 \<Longrightarrow> l < 2 ^ 31 \<Longrightarrow> (of_nat k :: u32) = of_nat l \<longleftrightarrow> k = l"
  by (simp add: word_of_nat_eq_iff take_bit_nat_eq_self)

lemma find_unique:
  "p \<in> set xs \<Longrightarrow> P p \<Longrightarrow> (\<And>q. q \<in> set xs \<Longrightarrow> P q \<Longrightarrow> q = p) \<Longrightarrow> find P xs = Some p"
proof -
  assume p: "p \<in> set xs" "P p" and unique: "\<And>q. q \<in> set xs \<Longrightarrow> P q \<Longrightarrow> q = p"
  then obtain q where q: "find P xs = Some q" by (metis find_None_iff not_None_eq)
  then have "q \<in> set xs" "P q" by (auto simp: find_Some_iff)
  with q unique show ?thesis by metis
qed

lemma dev_inv_unique:
  assumes inv: "dev_inv w" and "p \<in> set (devices w)" and "q \<in> set (devices w)"
    and eq: "dev_index (dev_heap w p) = dev_index (dev_heap w q) \<or>
             dev_name (dev_heap w p) = dev_name (dev_heap w q)"
  shows "p = q"
proof -
  obtain k where k: "k < length (devices w)" "rev (devices w) ! k = p"
      "dev_index (dev_heap w p) = of_nat k" "dev_name (dev_heap w p) = ''net'' @ dec_of_nat k"
    using dev_inv_nth [OF inv assms(2)] .
  obtain l where l: "l < length (devices w)" "rev (devices w) ! l = q"
      "dev_index (dev_heap w q) = of_nat l" "dev_name (dev_heap w q) = ''net'' @ dec_of_nat l"
    using dev_inv_nth [OF inv assms(3)] .
  have "k < 2 ^ 31" "l < 2 ^ 31" using inv k(1) l(1) by (auto simp: dev_inv_def)
  with eq k(3,4) l(3,4) have "k = l" by (auto simp: of_nat_u32_inj dec_of_nat_inj)
  with k(2) l(2) show ?thesis by simp
qed

lemma device_lookups:
  assumes inv: "dev_inv w" and p: "p \<in> set (devices w)"
  shows "net_device_by_index (dev_index (dev_heap w p)) w = Some p"
    and "net_device_by_name (dev_name (dev_heap w p)) w = Some p"
  unfolding net_device_by_index_def net_device_by_name_def
  using dev_inv_unique [OF inv _ p] p by (auto intro!: find_unique)

section \<open>Properties\<close>

text \<open>The state of \<^verbatim>\<open>network.c\<close> before any call: its static variables are zero.\<close>

definition net_boot :: "'d \<Rightarrow> 'd net_state" where
  "net_boot s =
     \<lparr>tick = 0, randoms = (\<lambda>_. 0), random_no = 0, alloc_ok = (\<lambda>_. True), alloc_no = 0, cur_task = 0,
      wakeups = [], softirqs = 0, ub = False, dev_heap = (\<lambda>_. zero_device), dev_brk = 0,
      dev_ops = (\<lambda>_. \<lparr>ops_open = None, ops_close = None, ops_transmit = (\<lambda>_ _ _ _ d. Some (0, d))\<rparr>),
      drv = s, devices = [], next_index = 0,
      iface_heap = (\<lambda>_. \<lparr>if_dev = 0, family = 0, unicast = 0, netmask = 0, broadcast = 0\<rparr>),
      iface_brk = 0, net_protocols = [], timers = []\<rparr>"

text \<open>
  Registration numbers and names the devices uniquely: afterwards the new device is found
  under its index and under its name, and so is every device registered before.
\<close>

lemma device_registered:
  assumes "dev_inv w" and "dev \<notin> set (devices w)" and "Suc (length (devices w)) < 2 ^ 31"
  shows "let w' = snd (net_device_register dev w)
         in dev_inv w' \<and> set (devices w') = insert dev (set (devices w)) \<and>
            (\<forall>p \<in> set (devices w').
               net_device_by_index (dev_index (dev_heap w' p)) w' = Some p \<and>
               net_device_by_name (dev_name (dev_heap w' p)) w' = Some p)"
proof -
  have inv: "dev_inv (snd (net_device_register dev w))" using assms by (rule net_device_register_inv)
  moreover have "set (devices (snd (net_device_register dev w))) = insert dev (set (devices w))"
    by (simp add: net_device_register_def Let_def)
  ultimately show ?thesis using device_lookups [OF inv] by (simp add: Let_def)
qed

lemma device_registered_witness:
  "let w' = snd (net_device_register 1 (snd (net_device_register 7 (net_boot ()))))
   in net_device_by_name ''net0'' w' = Some 7 \<and> net_device_by_name ''net1'' w' = Some 1"
proof -
  let ?w1 = "snd (net_device_register 7 (net_boot ()))"
  let ?w2 = "snd (net_device_register 1 ?w1)"
  have w0: "dev_inv (net_boot ())" "devices (net_boot ()) = []"
    by (simp_all add: net_boot_def dev_inv_def)
  have d1: "devices ?w1 = [7]" by (simp add: net_device_register_def w0 Let_def)
  have d2: "devices ?w2 = [1, 7]" using d1 by (simp add: net_device_register_def Let_def)
  have inv: "dev_inv ?w1" using net_device_register_inv [OF w0(1)] by (simp add: w0)
  note reg = device_registered [OF inv, of 1, unfolded Let_def]
  have inv2: "dev_inv ?w2" and look: "\<forall>p \<in> {1, 7}.
      net_device_by_name (dev_name (dev_heap ?w2 p)) ?w2 = Some p"
    using reg d1 by auto
  have "dec_of_nat 0 = ''0''" "dec_of_nat 1 = ''1''"
    by (simp_all add: dec_of_nat.simps [of 0] dec_of_nat.simps [of "Suc 0"] digit_char_def char_of_eq_iff)
  moreover have "\<forall>k < 2. dev_name (dev_heap ?w2 ([7, 1] ! k)) = ''net'' @ dec_of_nat k"
    using inv2 unfolding dev_inv_def d2 by simp
  ultimately have "dev_name (dev_heap ?w2 7) = ''net0''" "dev_name (dev_heap ?w2 1) = ''net1''"
    by (auto simp: numeral_2_eq_2 less_Suc_eq)
  with look show ?thesis by (simp add: Let_def)
qed

end
