(* ===== verification/Delivery.thy ===== *)
theory Delivery
  imports Network
begin

text \<open>
  From the interrupt to the protocol handlers: the input queues of \<^verbatim>\<open>network.c\<close> as a
  component of their own. \<open>packet_handlers\<close> is what \<^verbatim>\<open>net_softirq_handler\<close> relies on from the
  handlers it calls; under it each message serves the first packet of each queue, and no accepted
  packet is stranded.
\<close>

section \<open>Protocol table\<close>

definition proto_inv :: "('d, 'm) net_state_scheme \<Rightarrow> bool" where
  "proto_inv w \<longleftrightarrow> distinct (map np_type (net_protocols w))"

text \<open>Each queued packet has a message to the network task outstanding.\<close>

definition covered :: "('d, 'm) net_state_scheme \<Rightarrow> bool" where
  "covered w \<longleftrightarrow> (\<forall>p \<in> set (net_protocols w). length (np_queue p) \<le> softirqs w)"

lemma calloc_simps [simp]:
  "net_protocols (snd (calloc w)) = net_protocols w" "softirqs (snd (calloc w)) = softirqs w"
  "timers (snd (calloc w)) = timers w"
  by (simp_all add: calloc_def)

lemma net_protocol_register_inv:
  "proto_inv w \<Longrightarrow> proto_inv (snd (net_protocol_register type h w))"
  by (auto simp: proto_inv_def net_protocol_register_def calloc_def Let_def)

lemma net_protocol_register_ok:
  assumes "fst (net_protocol_register type h w) = 0"
  shows "net_protocols (snd (net_protocol_register type h w)) =
           \<lparr>np_type = type, np_queue = [], np_handler = h\<rparr> # net_protocols w"
proof (cases "\<exists>p \<in> set (net_protocols w). np_type p = type")
  case True
  with assms show ?thesis by (simp add: net_protocol_register_def)
next
  case False
  with assms show ?thesis
    by (cases "alloc_ok w (alloc_no w)") (simp_all add: net_protocol_register_def calloc_def)
qed

lemma net_protocol_register_twice:
  assumes "fst (net_protocol_register type h w) = 0"
  shows "fst (net_protocol_register type h' (snd (net_protocol_register type h w))) = -1"
  unfolding net_protocol_register_def [of type h']
  using net_protocol_register_ok [OF assms] by simp

section \<open>Arrival\<close>

text \<open>The three outcomes of \<^verbatim>\<open>net_input_handler\<close>.\<close>

lemma net_input_handler_cases:
  obtains (unknown) "\<forall>p \<in> set (net_protocols w). np_type p \<noteq> type"
      "net_input_handler type data dev w = (0, w)"
  | (no_memory) n where "net_input_handler type data dev w = (-1, w\<lparr>alloc_no := n\<rparr>)"
  | (queued) i n where "i < length (net_protocols w)" "np_type (net_protocols w ! i) = type"
      "net_input_handler type data dev w =
         (0, w\<lparr>alloc_no := n, softirqs := Suc (softirqs w),
               net_protocols := (net_protocols w)[i := (net_protocols w ! i)
                 \<lparr>np_queue := np_queue (net_protocols w ! i) @ [\<lparr>qe_dev = dev, qe_packet = data\<rparr>]\<rparr>]\<rparr>)"
proof (cases "find_idx (\<lambda>p. np_type p = type) (net_protocols w)")
  case None
  then have "\<forall>p \<in> set (net_protocols w). np_type p \<noteq> type" by (simp add: find_idx_None_iff)
  moreover have "net_input_handler type data dev w = (0, w)"
    using None by (simp add: net_input_handler_def)
  ultimately show thesis by (rule unknown)
next
  case (Some i)
  then have i: "i < length (net_protocols w)" "np_type (net_protocols w ! i) = type"
    by (auto dest: find_idx_SomeD)
  let ?n = "alloc_no w"
  consider "\<not> alloc_ok w ?n" | "alloc_ok w ?n" "\<not> alloc_ok w (Suc ?n)"
    | "alloc_ok w ?n" "alloc_ok w (Suc ?n)" by blast
  then show thesis
  proof cases
    case 1
    with Some show ?thesis
      by (intro no_memory [of "Suc ?n"]) (simp add: net_input_handler_def calloc_def)
  next
    case 2
    with Some show ?thesis
      by (intro no_memory [of "Suc (Suc ?n)"])
        (simp add: net_input_handler_def calloc_def list_push_def)
  next
    case 3
    with Some i show ?thesis
      by (intro queued [of i "Suc (Suc ?n)"])
        (simp_all add: net_input_handler_def calloc_def list_push_def softirq_def Let_def)
  qed
qed

lemma net_input_handler_inv:
  assumes "proto_inv w"
  shows "proto_inv (snd (net_input_handler type data dev w))"
proof (cases rule: net_input_handler_cases [of w type data dev])
  case (queued i n)
  have "map np_type ((net_protocols w)[i := (net_protocols w ! i)\<lparr>np_queue := q\<rparr>]) =
          map np_type (net_protocols w)" for q
    using queued(1) by (intro nth_equalityI) (auto simp: nth_list_update)
  with assms queued(3) show ?thesis by (simp add: proto_inv_def)
qed (use assms in \<open>simp_all add: proto_inv_def\<close>)

lemma net_input_handler_covered:
  assumes "covered w"
  shows "covered (snd (net_input_handler type data dev w))"
proof (cases rule: net_input_handler_cases [of w type data dev])
  case (queued i n)
  have "length (np_queue (net_protocols w ! i)) \<le> softirqs w"
    using assms queued(1) by (simp add: covered_def)
  then show ?thesis
    using assms unfolding covered_def queued(3)
    by (auto dest!: set_list_update_cases intro: le_SucI)
qed (use assms in \<open>simp_all add: covered_def\<close>)

text \<open>A registered type, with memory left: the packet is the last of its queue.\<close>

lemma net_input_handler_queued:
  assumes inv: "proto_inv w" and p: "p \<in> set (net_protocols w)" "np_type p = type"
    and ok: "fst (net_input_handler type data dev w) = 0"
  shows "p\<lparr>np_queue := np_queue p @ [\<lparr>qe_dev = dev, qe_packet = data\<rparr>]\<rparr>
           \<in> set (net_protocols (snd (net_input_handler type data dev w)))"
proof (cases rule: net_input_handler_cases [of w type data dev])
  case unknown
  with p show ?thesis by blast
next
  case no_memory
  with ok show ?thesis by simp
next
  case (queued i n)
  from p(1) obtain j where j: "j < length (net_protocols w)" "net_protocols w ! j = p"
    by (metis in_set_conv_nth)
  with inv queued(1,2) p(2) have "j = i"
    by (metis distinct_conv_nth length_map nth_map proto_inv_def)
  with j queued show ?thesis by (simp add: set_update_memI)
qed

section \<open>Service\<close>

text \<open>
  The network task takes one message and runs the handler round (\<^verbatim>\<open>case Message::kNetInput\<close>
  of the main loop).
\<close>

definition softirq_message ::
  "(proto_handler \<Rightarrow> u8 list \<Rightarrow> nat \<Rightarrow> ('d, 'm) net_state_scheme \<Rightarrow> ('d, 'm) net_state_scheme) \<Rightarrow>
     ('d, 'm) net_state_scheme \<Rightarrow> ('d, 'm) net_state_scheme" where
  "softirq_message call w = net_softirq_handler call (w\<lparr>softirqs := softirqs w - 1\<rparr>)"

text \<open>
  The state in which the packet of protocol \<open>j\<close> is given to its handler: the protocols in front of
  it have been served and the packet has been taken from the queue.
\<close>

definition serving_state ::
  "(proto_handler \<Rightarrow> u8 list \<Rightarrow> nat \<Rightarrow> ('d, 'm) net_state_scheme \<Rightarrow> ('d, 'm) net_state_scheme) \<Rightarrow>
     nat \<Rightarrow> ('d, 'm) net_state_scheme \<Rightarrow> ('d, 'm) net_state_scheme" where
  "serving_state call j w =
     (let v = softirq_loop call [0..<j] (w\<lparr>softirqs := softirqs w - 1\<rparr>); p = net_protocols v ! j
      in v\<lparr>net_protocols := (net_protocols v)[j := p\<lparr>np_queue := tl (np_queue p)\<rparr>]\<rparr>)"

lemma softirq_loop_append: "softirq_loop call (is @ js) w = softirq_loop call js (softirq_loop call is w)"
  by (induction "is" arbitrary: w) (simp_all add: Let_def split: prod.split option.split)

locale packet_handlers =
  fixes call :: "proto_handler \<Rightarrow> u8 list \<Rightarrow> nat \<Rightarrow>
      ('d, 'm) net_state_scheme \<Rightarrow> ('d, 'm) net_state_scheme"
    and ok :: "('d, 'm) net_state_scheme \<Rightarrow> bool"
  assumes queues_kept: "ok w \<Longrightarrow> net_protocols (call h data dev w) = net_protocols w"
    and softirqs_kept: "ok w \<Longrightarrow> softirqs (call h data dev w) = softirqs w"
    and ok_kept: "ok w \<Longrightarrow> ok (call h data dev w)"
    and ok_queues: "ok (w\<lparr>net_protocols := ps\<rparr>) = ok w"
    and ok_softirqs: "ok (w\<lparr>softirqs := n\<rparr>) = ok w"
begin

lemma softirq_loop_kept:
  assumes "ok w"
  shows "length (net_protocols (softirq_loop call is w)) = length (net_protocols w)"
    "softirqs (softirq_loop call is w) = softirqs w" "ok (softirq_loop call is w)"
  using assms
  by (induction "is" arbitrary: w)
    (auto simp: Let_def queues_kept softirqs_kept ok_kept ok_queues split: prod.splits option.splits)

text \<open>A round takes the oldest packet from every queue.\<close>

lemma softirq_loop_queues:
  "ok w \<Longrightarrow> distinct is \<Longrightarrow> set is \<subseteq> {..<length (net_protocols w)} \<Longrightarrow> j < length (net_protocols w) \<Longrightarrow>
     net_protocols (softirq_loop call is w) ! j =
       (net_protocols w ! j)\<lparr>np_queue := (if j \<in> set is then tl (np_queue (net_protocols w ! j))
                                          else np_queue (net_protocols w ! j))\<rparr>"
proof (induction "is" arbitrary: w)
  case Nil
  then show ?case by simp
next
  case (Cons i "is")
  show ?case
  proof (cases "np_queue (net_protocols w ! i)")
    case Nil
    with Cons show ?thesis by (auto simp: Let_def)
  next
    case (Cons e es)
    let ?P = "(net_protocols w)[i := (net_protocols w ! i)\<lparr>np_queue := es\<rparr>]"
    let ?w = "call (np_handler (net_protocols w ! i)) (qe_packet e) (qe_dev e) (w\<lparr>net_protocols := ?P\<rparr>)"
    have "net_protocols ?w = ?P" "ok ?w" using Cons.prems(1) by (simp_all add: queues_kept ok_kept ok_queues)
    with Cons.IH [of ?w] Cons.prems Cons show ?thesis
      by (auto simp: Let_def nth_list_update)
  qed
qed

lemma softirq_round:
  assumes "ok w" and "j < length (net_protocols w)"
  shows "net_protocols (net_softirq_handler call w) ! j =
           (net_protocols w ! j)\<lparr>np_queue := tl (np_queue (net_protocols w ! j))\<rparr>"
  using softirq_loop_queues [of w "[0..<length (net_protocols w)]" j] assms
  by (simp add: net_softirq_handler_def atLeast0LessThan)

lemma softirq_message_kept:
  assumes "ok w"
  shows "ok (softirq_message call w)" "softirqs (softirq_message call w) = softirqs w - 1"
    "length (net_protocols (softirq_message call w)) = length (net_protocols w)"
  using assms by (simp_all add: softirq_message_def net_softirq_handler_def softirq_loop_kept ok_softirqs)

lemma softirq_message_nth:
  assumes "ok w" and "j < length (net_protocols w)"
  shows "net_protocols (softirq_message call w) ! j =
           (net_protocols w ! j)\<lparr>np_queue := tl (np_queue (net_protocols w ! j))\<rparr>"
  using softirq_round [of "w\<lparr>softirqs := softirqs w - 1\<rparr>" j] assms by (simp add: softirq_message_def ok_softirqs)

text \<open>The oldest packet of a protocol is given to its handler.\<close>

lemma softirq_message_serves:
  assumes "ok w" and j: "j < length (net_protocols w)" and e: "np_queue (net_protocols w ! j) = e # es"
  shows "softirq_message call w = softirq_loop call [Suc j..<length (net_protocols w)]
      (call (np_handler (net_protocols w ! j)) (qe_packet e) (qe_dev e) (serving_state call j w))"
proof -
  let ?w = "w\<lparr>softirqs := softirqs w - 1\<rparr>"
  let ?v = "softirq_loop call [0..<j] ?w"
  have "net_protocols ?v ! j = net_protocols w ! j"
    using softirq_loop_queues [of ?w "[0..<j]" j] assms(1) j by (simp add: ok_softirqs subset_iff)
  moreover have "[0..<length (net_protocols w)] = [0..<j] @ j # [Suc j..<length (net_protocols w)]"
    using j upt_add_eq_append [of 0 j "length (net_protocols w) - j"] by (simp add: upt_conv_Cons)
  ultimately show ?thesis
    using e by (simp add: softirq_message_def net_softirq_handler_def softirq_loop_append serving_state_def Let_def)
qed

lemma softirq_messages_nth:
  assumes "ok w" and "j < length (net_protocols w)"
  shows "net_protocols ((softirq_message call ^^ n) w) ! j =
      (net_protocols w ! j)\<lparr>np_queue := drop n (np_queue (net_protocols w ! j))\<rparr> \<and>
    length (net_protocols ((softirq_message call ^^ n) w)) = length (net_protocols w) \<and>
    ok ((softirq_message call ^^ n) w)"
proof (induction n)
  case (Suc n)
  with assms show ?case by (simp add: softirq_message_nth softirq_message_kept tl_drop drop_Suc)
qed (use assms in simp)

text \<open>The packets of a queue are served one per message, in their order.\<close>

lemma softirq_messages_serve:
  assumes "ok w" and j: "j < length (net_protocols w)" and n: "n < length (np_queue (net_protocols w ! j))"
  shows "(softirq_message call ^^ Suc n) w = softirq_loop call [Suc j..<length (net_protocols w)]
      (call (np_handler (net_protocols w ! j)) (qe_packet (np_queue (net_protocols w ! j) ! n))
         (qe_dev (np_queue (net_protocols w ! j) ! n)) (serving_state call j ((softirq_message call ^^ n) w)))"
proof -
  let ?u = "(softirq_message call ^^ n) w" and ?q = "np_queue (net_protocols w ! j)"
  note u = softirq_messages_nth [OF assms(1) j, of n]
  have "np_queue (net_protocols ?u ! j) = ?q ! n # drop (Suc n) ?q"
    using u n by (simp add: Cons_nth_drop_Suc)
  from softirq_message_serves [OF _ _ this] u j show ?thesis by simp
qed

lemma softirq_message_queues:
  "ok w \<Longrightarrow>
     map np_queue (net_protocols (softirq_message call w)) = map (tl \<circ> np_queue) (net_protocols w)"
  by (rule nth_equalityI) (simp_all add: softirq_message_kept softirq_message_nth)

lemma messages_queues:
  assumes "ok w"
  shows "map np_queue (net_protocols ((softirq_message call ^^ n) w)) = map (drop n \<circ> np_queue) (net_protocols w) \<and>
     ok ((softirq_message call ^^ n) w)"
proof (induction n)
  case 0
  then show ?case using assms by (simp add: comp_def)
next
  case (Suc n)
  have "map np_queue (net_protocols ((softirq_message call ^^ Suc n) w)) =
          map tl (map np_queue (net_protocols ((softirq_message call ^^ n) w)))"
    using conjunct2 [OF Suc] by (simp add: softirq_message_queues)
  also have "\<dots> = map (drop (Suc n) \<circ> np_queue) (net_protocols w)"
    by (simp add: Suc.IH comp_def tl_drop drop_Suc)
  finally show ?case using Suc by (simp add: softirq_message_kept)
qed

lemma covered_message:
  assumes "ok w" and "covered w" and "0 < softirqs w"
  shows "covered (softirq_message call w)"
proof -
  have "\<forall>q \<in> set (map np_queue (net_protocols (softirq_message call w))). length q \<le> softirqs w - 1"
    unfolding softirq_message_queues [OF assms(1)] using assms by (fastforce simp: covered_def)
  then show ?thesis by (simp add: covered_def softirq_message_kept assms(1))
qed

lemma proto_inv_message:
  assumes "ok w" and "proto_inv w"
  shows "proto_inv (softirq_message call w)"
proof -
  have "map np_type (net_protocols (softirq_message call w)) = map np_type (net_protocols w)"
    by (rule nth_equalityI) (simp_all add: softirq_message_kept softirq_message_nth assms(1))
  with assms(2) show ?thesis by (simp add: proto_inv_def)
qed

text \<open>When all outstanding messages are served, all queues are empty.\<close>

lemma covered_drains:
  assumes "ok w" and "covered w" and "p \<in> set (net_protocols ((softirq_message call ^^ softirqs w) w))"
  shows "np_queue p = []"
proof -
  from assms(3) have "np_queue p \<in> set (map (drop (softirqs w) \<circ> np_queue) (net_protocols w))"
    using messages_queues [OF assms(1), of "softirqs w"] by (metis image_eqI list.set_map)
  with assms(2) show ?thesis by (auto simp: covered_def)
qed

end

end
