(* ===== verification/Ethernet.thy ===== *)
theory Ethernet
  imports Delivery
begin

text \<open>
  \<^verbatim>\<open>kernel/network/ethernet.c\<close>: text form of MAC addresses, framing for transmission and the
  filter on reception.
\<close>

section \<open>Addresses\<close>

definition ETHER_ADDR_LEN :: nat where "ETHER_ADDR_LEN = 6"
definition ETHER_ADDR_STR_LEN :: nat where "ETHER_ADDR_STR_LEN = 18"
definition ETHER_HDR_SIZE :: nat where "ETHER_HDR_SIZE = 14"
definition ETHER_FRAME_SIZE_MIN :: nat where "ETHER_FRAME_SIZE_MIN = 60"
definition ETHER_FRAME_SIZE_MAX :: nat where "ETHER_FRAME_SIZE_MAX = 1514"
definition ETHER_PAYLOAD_SIZE_MIN :: nat where
  "ETHER_PAYLOAD_SIZE_MIN = ETHER_FRAME_SIZE_MIN - ETHER_HDR_SIZE"
definition ETHER_PAYLOAD_SIZE_MAX :: nat where
  "ETHER_PAYLOAD_SIZE_MAX = ETHER_FRAME_SIZE_MAX - ETHER_HDR_SIZE"
definition ETHER_TYPE_IP :: u16 where "ETHER_TYPE_IP = 0x0800"
definition ETHER_TYPE_ARP :: u16 where "ETHER_TYPE_ARP = 0x0806"

definition ETHER_ADDR_ANY :: "u8 list" where "ETHER_ADDR_ANY = replicate 6 0"
definition ETHER_ADDR_BROADCAST :: "u8 list" where "ETHER_ADDR_BROADCAST = replicate 6 0xff"

text \<open>
  The loop of \<^verbatim>\<open>ether_addr_pton\<close> from round \<open>index\<close> on: the index it stops at, the string
  from \<open>ep\<close> on and the bytes of \<open>n\<close>. \<open>rounds\<close> is how many rounds are left.
\<close>

fun ether_pton_loop :: "nat \<Rightarrow> nat \<Rightarrow> string \<Rightarrow> string \<Rightarrow> u8 list \<Rightarrow> nat \<times> string \<times> u8 list" where
  "ether_pton_loop 0 index p ep n = (index, ep, n)"
| "ether_pton_loop (Suc rounds) index p ep n =
     (let (val, ep1) = strtol 16 p
      in if ep1 = p \<or> val < 0 \<or> val > 0xff \<or> (index < ETHER_ADDR_LEN - 1 \<and> c_deref ep1 \<noteq> CHR '':'')
         then (index, ep1, n)
         else ether_pton_loop rounds (Suc index) (tl ep1) ep1 (n[index := of_int val]))"

definition ether_addr_pton :: "string \<Rightarrow> u8 list \<Rightarrow> int \<times> u8 list" where
  "ether_addr_pton p n =
     (let (index, ep, n1) = ether_pton_loop ETHER_ADDR_LEN 0 p [] n
      in if index \<noteq> ETHER_ADDR_LEN \<or> c_deref ep \<noteq> CHR 0x00 then (-1, n1) else (0, n1))"

definition ether_addr_ntop :: "u8 list \<Rightarrow> nat \<Rightarrow> string" where
  "ether_addr_ntop n len =
     snprintf len (hex2 (n ! 0) @ '':'' @ hex2 (n ! 1) @ '':'' @ hex2 (n ! 2) @ '':'' @
                   hex2 (n ! 3) @ '':'' @ hex2 (n ! 4) @ '':'' @ hex2 (n ! 5))"

section \<open>Frames\<close>

record ether_hdr =
  eth_dst :: "u8 list"
  eth_src :: "u8 list"
  eth_type :: u16

definition store_ether_hdr :: "ether_hdr \<Rightarrow> u8 list" where
  "store_ether_hdr h = eth_dst h @ eth_src h @ store16 (eth_type h)"

definition load_ether_hdr :: "u8 list \<Rightarrow> ether_hdr" where
  "load_ether_hdr bs =
     \<lparr>eth_dst = take 6 bs, eth_src = take 6 (drop 6 bs), eth_type = load16 bs 12\<rparr>"

text \<open>
  The frame is built in a buffer of \<open>ETHER_FRAME_SIZE_MAX\<close> zero bytes, so the padding is
  zero; a payload that does not fit is an undefined access (\<open>None\<close>).
\<close>

definition ether_transmit_helper ::
  "net_device \<Rightarrow> u16 \<Rightarrow> u8 list \<Rightarrow> u8 list \<Rightarrow> (u8 list \<Rightarrow> 'd \<Rightarrow> int \<times> 'd) \<Rightarrow> 'd \<Rightarrow> (int \<times> 'd) option" where
  "ether_transmit_helper dev type data dst callback s =
     (if ETHER_FRAME_SIZE_MAX < ETHER_HDR_SIZE + length data then None
      else
        let hdr = \<lparr>eth_dst = take ETHER_ADDR_LEN dst, eth_src = take ETHER_ADDR_LEN (dev_addr dev),
                   eth_type = hton16 type\<rparr>;
            len = length data;
            pad = (if len < ETHER_PAYLOAD_SIZE_MIN then ETHER_PAYLOAD_SIZE_MIN - len else 0);
            flen = ETHER_HDR_SIZE + len + pad;
            frame = store_ether_hdr hdr @ data @ replicate (ETHER_FRAME_SIZE_MAX - ETHER_HDR_SIZE - len) 0;
            (r, s1) = callback (take flen frame) s
        in Some (if r = int flen then 0 else -1, s1))"

definition ether_input ::
  "u8 list \<Rightarrow> nat \<Rightarrow> ('d, 'm) net_state_scheme \<Rightarrow> int \<times> ('d, 'm) net_state_scheme" where
  "ether_input data dev w =
     (if length data < ETHER_HDR_SIZE then (-1, w)
      else
        let hdr = load_ether_hdr data
        in if take ETHER_ADDR_LEN (dev_addr (dev_heap w dev)) \<noteq> eth_dst hdr \<and>
              ETHER_ADDR_BROADCAST \<noteq> eth_dst hdr then (-1, w)
           else net_input_handler (ntoh16 (eth_type hdr)) (drop ETHER_HDR_SIZE data) dev w)"

definition ether_setup_helper :: "net_device \<Rightarrow> net_device" where
  "ether_setup_helper d =
     d\<lparr>dev_type := NET_DEVICE_TYPE_ETHERNET, mtu := of_nat ETHER_PAYLOAD_SIZE_MAX,
       dev_flags := NET_DEVICE_FLAG_BROADCAST OR NET_DEVICE_FLAG_NEED_ARP,
       hlen := of_nat ETHER_HDR_SIZE, alen := of_nat ETHER_ADDR_LEN,
       dev_broadcast := ETHER_ADDR_BROADCAST @ drop ETHER_ADDR_LEN (dev_broadcast d)\<rparr>"

lemmas ether_consts = ETHER_ADDR_LEN_def ETHER_ADDR_STR_LEN_def ETHER_HDR_SIZE_def
  ETHER_FRAME_SIZE_MIN_def ETHER_FRAME_SIZE_MAX_def ETHER_PAYLOAD_SIZE_MIN_def
  ETHER_PAYLOAD_SIZE_MAX_def ETHER_ADDR_BROADCAST_def

section \<open>Properties\<close>

lemma list_of_6: "length n = 6 \<Longrightarrow> n = [n ! 0, n ! 1, n ! 2, n ! 3, n ! 4, n ! 5]"
  by (rule nth_equalityI) (auto simp: less_Suc_eq nth_Cons' eval_nat_numeral)

lemma digit_val_colon [simp]: "digit_val CHR '':'' = 36"
  by (simp add: digit_val_def)

lemma hex2_append_neq: "hex2 b @ cs \<noteq> cs"
  by (simp add: hex2_def)

text \<open>One round on a printed byte.\<close>

lemma ether_pton_round:
  assumes "\<not> starts_digit 16 rest" and "5 \<le> index \<or> c_deref rest = CHR '':''"
  shows "ether_pton_loop (Suc rounds) index (hex2 b @ rest) ep n =
           ether_pton_loop rounds (Suc index) (tl rest) rest (n[index := b])"
proof -
  have "hex2 b @ rest \<noteq> rest" by (rule hex2_append_neq)
  moreover have "uint b \<le> 255" using uint_lt2p [of b] by simp
  ultimately show ?thesis
    using assms by (auto simp add: strtol_hex2 ETHER_ADDR_LEN_def Let_def)
qed

lemma ether_addr_roundtrip:
  assumes n: "length n = 6" and m: "length m = 6"
  shows "ether_addr_pton (ether_addr_ntop n ETHER_ADDR_STR_LEN) m = (0, n)"
proof -
  let ?r5 = "hex2 (n ! 5)"
  let ?r4 = "hex2 (n ! 4) @ '':'' @ ?r5"
  let ?r3 = "hex2 (n ! 3) @ '':'' @ ?r4"
  let ?r2 = "hex2 (n ! 2) @ '':'' @ ?r3"
  let ?r1 = "hex2 (n ! 1) @ '':'' @ ?r2"
  let ?r0 = "hex2 (n ! 0) @ '':'' @ ?r1"
  have s: "ether_addr_ntop n ETHER_ADDR_STR_LEN = ?r0"
    by (simp add: ether_addr_ntop_def snprintf_def ether_consts hex2_def)
  have r: "ether_pton_loop (Suc k) i (hex2 b @ '':'' @ cs) ep l =
             ether_pton_loop k (Suc i) cs ('':'' @ cs) (l[i := b])" for k i b cs ep l
    using ether_pton_round [of "'':'' @ cs" i k b ep l]
    by (simp add: c_deref_def del: ether_pton_loop.simps)
  have last: "ether_pton_loop (Suc 0) 5 (hex2 b) ep l = (6, [], l[5 := b])" for b ep l
    using ether_pton_round [of "[]" 5 0 b ep l] by (simp del: ether_pton_loop.simps(2))
  have six: "(6 :: nat) = Suc (Suc (Suc (Suc (Suc (Suc 0)))))" by simp
  have "ether_pton_loop 6 0 ?r0 [] m = (6, [], m[0 := n!0, 1 := n!1, 2 := n!2, 3 := n!3, 4 := n!4, 5 := n!5])"
    unfolding six using last [of "n ! 5"] by (simp only: r) (simp add: eval_nat_numeral)
  moreover have "m[0 := n!0, 1 := n!1, 2 := n!2, 3 := n!3, 4 := n!4, 5 := n!5] = n"
    using n m by (intro nth_equalityI) (auto simp: less_Suc_eq nth_list_update eval_nat_numeral)
  ultimately show ?thesis
    by (simp add: s ether_addr_pton_def ETHER_ADDR_LEN_def c_deref_def)
qed

text \<open>The fields of a stored header.\<close>

lemma load_store_ether_hdr [hdr_simps]:
  assumes "length (eth_dst h) = 6" and "length (eth_src h) = 6"
  shows "load_ether_hdr (store_ether_hdr h @ bs) = h"
proof -
  have "load16 ((d @ s @ store16 t) @ bs) 12 = t" if "length d = 6" "length s = 6" for d s t
    using that load16_store16(1) [of t bs] by (simp add: load16_def nth_append store16_def)
  with assms show ?thesis
    by (cases h) (simp add: load_ether_hdr_def store_ether_hdr_def)
qed

lemma length_store_ether_hdr [simp]:
  "length (eth_dst h) = 6 \<Longrightarrow> length (eth_src h) = 6 \<Longrightarrow> length (store_ether_hdr h) = 14"
  by (simp add: store_ether_hdr_def)

text \<open>The frame for a payload of at most 1500 bytes.\<close>

definition ether_frame :: "net_device \<Rightarrow> u16 \<Rightarrow> u8 list \<Rightarrow> u8 list \<Rightarrow> u8 list" where
  "ether_frame dev type data dst =
     store_ether_hdr \<lparr>eth_dst = take ETHER_ADDR_LEN dst,
       eth_src = take ETHER_ADDR_LEN (dev_addr dev), eth_type = hton16 type\<rparr> @
     data @ replicate (ETHER_PAYLOAD_SIZE_MIN - length data) 0"

lemma ether_transmit_helper_frame:
  assumes "length data \<le> ETHER_PAYLOAD_SIZE_MAX" and "6 \<le> length dst" and "6 \<le> length (dev_addr dev)"
  shows "ether_transmit_helper dev type data dst callback s =
           (let f = ether_frame dev type data dst; (r, s1) = callback f s
            in Some (if r = int (length f) then 0 else -1, s1))"
proof -
  let ?h = "store_ether_hdr \<lparr>eth_dst = take 6 dst, eth_src = take 6 (dev_addr dev), eth_type = hton16 type\<rparr>"
  have h: "length ?h = 14" using assms by simp
  have "take (14 + length data + (if length data < 46 then 46 - length data else 0))
          (?h @ data @ replicate (1500 - length data) 0) =
        ?h @ data @ replicate (46 - length data) 0"
    using h assms(1) by (simp add: ether_consts take_replicate min_def)
  with h assms(1) show ?thesis
    by (auto simp: ether_transmit_helper_def ether_frame_def ether_consts Let_def split: prod.splits)
qed

text \<open>
  Between two hosts: a frame that the sending side builds is accepted by a receiver with the
  destination address and reaches \<^verbatim>\<open>net_input_handler\<close> with the type the sender gave and the
  payload, padded with zeros to the minimum size.
\<close>

lemma ether_frame_received:
  assumes dst: "length dst = 6" and src: "6 \<le> length (dev_addr sender)"
    and rcv: "dst = take 6 (dev_addr (dev_heap w p)) \<or> dst = ETHER_ADDR_BROADCAST"
  shows "ether_input (ether_frame sender type data dst) p w =
           net_input_handler type (data @ replicate (46 - length data) 0) p w"
proof -
  let ?h = "\<lparr>eth_dst = take 6 dst, eth_src = take 6 (dev_addr sender), eth_type = hton16 type\<rparr>"
  let ?p = "data @ replicate (46 - length data) 0"
  have f: "ether_frame sender type data dst = store_ether_hdr ?h @ ?p"
    by (simp add: ether_frame_def ether_consts)
  have h: "length (store_ether_hdr ?h) = 14" using dst src by simp
  have "load_ether_hdr (store_ether_hdr ?h @ ?p) = ?h"
    using dst src by (intro load_store_ether_hdr) auto
  moreover have "drop 14 (store_ether_hdr ?h @ ?p) = ?p" using h by simp
  ultimately show ?thesis
    using h dst rcv by (auto simp: f ether_input_def ETHER_HDR_SIZE_def ETHER_ADDR_LEN_def Let_def)
qed

lemma ether_input_other_host:
  assumes "14 \<le> length data" and "take 6 data \<noteq> take 6 (dev_addr (dev_heap w p))"
    and "take 6 data \<noteq> ETHER_ADDR_BROADCAST"
  shows "ether_input data p w = (-1, w)"
  using assms by (auto simp: ether_input_def load_ether_hdr_def Let_def ETHER_ADDR_LEN_def)

section \<open>Claims\<close>

text \<open>A MAC address survives being printed and parsed.\<close>

lemma ether_text_roundtrip:
  assumes "length n = 6" and "length m = 6"
  shows "ether_addr_pton (ether_addr_ntop n ETHER_ADDR_STR_LEN) m = (0, n)"
  using assms by (rule ether_addr_roundtrip)

lemma ether_text_roundtrip_witness:
  "ether_addr_pton (ether_addr_ntop [0x52, 0x54, 0, 0x12, 0xab, 0xff] ETHER_ADDR_STR_LEN)
     (replicate 6 0) = (0, [0x52, 0x54, 0, 0x12, 0xab, 0xff])"
  by (rule ether_text_roundtrip) simp_all

text \<open>
  A payload of at most 1500 bytes goes out as one frame of 60 to 1514 bytes, and a
  receiver that has the destination address (or for which it is broadcast) delivers exactly
  this payload, zero-padded to the minimum, under the same type; other hosts drop it.
\<close>

lemma ether_delivery:
  assumes "length data \<le> 1500" and "length dst = 6" and "6 \<le> length (dev_addr sender)"
  obtains frame where
    "ether_transmit_helper sender type data dst callback s =
       (let (r, s1) = callback frame s in Some (if r = int (length frame) then 0 else -1, s1))"
    and "60 \<le> length frame" and "length frame \<le> 1514"
    and "ether_input frame p w =
       (if dst = take 6 (dev_addr (dev_heap w p)) \<or> dst = ETHER_ADDR_BROADCAST
        then net_input_handler type (data @ replicate (46 - length data) 0) p w else (-1, w))"
proof (rule that)
  let ?f = "ether_frame sender type data dst"
  have len: "length ?f = 14 + length data + (46 - length data)"
    using assms by (simp add: ether_frame_def ether_consts)
  then show "60 \<le> length ?f" and "length ?f \<le> 1514" using assms(1) by auto
  show "ether_transmit_helper sender type data dst callback s =
      (let (r, s1) = callback ?f s in Some (if r = int (length ?f) then 0 else -1, s1))"
    using ether_transmit_helper_frame [of data dst sender type callback s] assms
    by (simp add: ether_consts Let_def)
  have "take 6 ?f = dst"
    using assms(2) by (simp add: ether_frame_def store_ether_hdr_def ether_consts)
  then show "ether_input ?f p w =
      (if dst = take 6 (dev_addr (dev_heap w p)) \<or> dst = ETHER_ADDR_BROADCAST
       then net_input_handler type (data @ replicate (46 - length data) 0) p w else (-1, w))"
    using ether_frame_received [OF assms(2,3), of w p type data]
      ether_input_other_host [of ?f w p] len by auto
qed

lemma ether_delivery_witness:
  "\<exists>frame. ether_transmit_helper (zero_device\<lparr>dev_addr := [1, 2, 3, 4, 5, 6]\<rparr>) 0x0800 [9]
             ETHER_ADDR_BROADCAST (\<lambda>f s. (int (length f), f # s)) [] = Some (0, [frame])
           \<and> ether_input frame 0 (net_boot ()) = net_input_handler 0x0800 (9 # replicate 45 0) 0 (net_boot ())"
proof -
  have "length [9 :: u8] \<le> 1500" "length ETHER_ADDR_BROADCAST = 6"
    "6 \<le> length (dev_addr (zero_device\<lparr>dev_addr := [1, 2, 3, 4, 5, 6]\<rparr>))"
    by (simp_all add: ETHER_ADDR_BROADCAST_def)
  then show ?thesis
    by (rule ether_delivery [where type = "0x0800" and callback = "\<lambda>f s. (int (length f), f # s)"
          and s = "[]" and p = 0 and w = "net_boot ()"]) auto
qed

end
