(* ===== verification/Arp.thy ===== *)
theory Arp
  imports Ethernet
begin

text \<open>
  \<^verbatim>\<open>kernel/network/arp.c\<close>: the ARP cache (a table of 32 entries), requests and replies,
  resolution for the IP layer and the ageing timer.
\<close>

section \<open>Data\<close>

definition ARP_HRD_ETHER :: u16 where "ARP_HRD_ETHER = 1"
definition ARP_PRO_IP :: u16 where "ARP_PRO_IP = ETHER_TYPE_IP"
definition ARP_OP_REQUEST :: u16 where "ARP_OP_REQUEST = 1"
definition ARP_OP_REPLY :: u16 where "ARP_OP_REPLY = 2"
definition ARP_CACHE_SIZE :: nat where "ARP_CACHE_SIZE = 32"
definition ARP_CACHE_TIMEOUT :: int where "ARP_CACHE_TIMEOUT = 30"
definition ARP_RESOLVE_ERROR :: int where "ARP_RESOLVE_ERROR = -1"
definition ARP_RESOLVE_INCOMPLETE :: int where "ARP_RESOLVE_INCOMPLETE = 0"
definition ARP_RESOLVE_FOUND :: int where "ARP_RESOLVE_FOUND = 1"
definition IP_ADDR_LEN :: nat where "IP_ADDR_LEN = 4"

datatype arp_cache_state = ARP_FREE | ARP_INCOMPLETE | ARP_RESOLVED | ARP_STATIC

record arp_cache =
  ac_state :: arp_cache_state
  ac_pa :: u32
  ac_ha :: "u8 list"
  ac_timestamp :: timeval

record 'd arp_state = "'d net_state" +
  caches :: "arp_cache list"

text \<open>The packet; \<open>arp_hdr\<close> is its first 8 bytes.\<close>

record arp_hdr =
  arp_hrd :: u16
  arp_pro :: u16
  arp_hln :: u8
  arp_pln :: u8
  arp_op :: u16

record arp_ether = arp_hdr +
  arp_sha :: "u8 list"
  arp_spa :: "u8 list"
  arp_tha :: "u8 list"
  arp_tpa :: "u8 list"

definition ARP_ETHER_SIZE :: nat where "ARP_ETHER_SIZE = 28"

definition store_arp_ether :: "arp_ether \<Rightarrow> u8 list" where
  "store_arp_ether m =
     store16 (arp_hrd m) @ store16 (arp_pro m) @ [arp_hln m, arp_pln m] @ store16 (arp_op m) @
     arp_sha m @ arp_spa m @ arp_tha m @ arp_tpa m"

definition load_arp_ether :: "u8 list \<Rightarrow> arp_ether" where
  "load_arp_ether bs =
     \<lparr>arp_hrd = load16 bs 0, arp_pro = load16 bs 2, arp_hln = bs ! 4, arp_pln = bs ! 5,
      arp_op = load16 bs 6, arp_sha = take 6 (drop 8 bs), arp_spa = take 4 (drop 14 bs),
      arp_tha = take 6 (drop 18 bs), arp_tpa = take 4 (drop 24 bs)\<rparr>"

definition arp_opcode_ntoa :: "u16 \<Rightarrow> string" where
  "arp_opcode_ntoa opcode =
     (if ntoh16 opcode = ARP_OP_REQUEST then ''Request''
      else if ntoh16 opcode = ARP_OP_REPLY then ''Reply'' else ''Unknown'')"

section \<open>The cache\<close>

text \<open>The loop of \<^verbatim>\<open>arp_cache_alloc\<close> over the entries still to look at.\<close>

fun arp_alloc_loop :: "arp_cache list \<Rightarrow> nat option \<Rightarrow> nat list \<Rightarrow> nat option" where
  "arp_alloc_loop cs oldest [] = oldest"
| "arp_alloc_loop cs oldest (e # es) =
     (if ac_state (cs ! e) = ARP_FREE then Some e
      else if (case oldest of None \<Rightarrow> True
               | Some b \<Rightarrow> timer_less (ac_timestamp (cs ! e)) (ac_timestamp (cs ! b)))
           then arp_alloc_loop cs (Some e) es
           else arp_alloc_loop cs oldest es)"

definition arp_cache_alloc :: "arp_cache list \<Rightarrow> nat option" where
  "arp_cache_alloc cs = arp_alloc_loop cs None [0..<length cs]"

definition arp_cache_select :: "u32 \<Rightarrow> arp_cache list \<Rightarrow> nat option" where
  "arp_cache_select pa cs = find_idx (\<lambda>e. ac_state e \<noteq> ARP_FREE \<and> ac_pa e = pa) cs"

definition set_cache :: "nat \<Rightarrow> arp_cache \<Rightarrow> ('d, 'm) arp_state_scheme \<Rightarrow> ('d, 'm) arp_state_scheme" where
  "set_cache i e w = w\<lparr>caches := (caches w)[i := e]\<rparr>"

definition arp_cache_update ::
  "u32 \<Rightarrow> u8 list \<Rightarrow> ('d, 'm) arp_state_scheme \<Rightarrow> nat option \<times> ('d, 'm) arp_state_scheme" where
  "arp_cache_update pa ha w =
     (case arp_cache_select pa (caches w) of
        None \<Rightarrow> (None, w)
      | Some i \<Rightarrow>
          (Some i, set_cache i ((caches w ! i)\<lparr>ac_state := ARP_RESOLVED,
                     ac_ha := take ETHER_ADDR_LEN ha, ac_timestamp := gettimeofday w\<rparr>) w))"

definition arp_cache_insert ::
  "u32 \<Rightarrow> u8 list \<Rightarrow> ('d, 'm) arp_state_scheme \<Rightarrow> nat option \<times> ('d, 'm) arp_state_scheme" where
  "arp_cache_insert pa ha w =
     (case arp_cache_alloc (caches w) of
        None \<Rightarrow> (None, w)
      | Some i \<Rightarrow>
          (Some i, set_cache i ((caches w ! i)\<lparr>ac_state := ARP_RESOLVED, ac_pa := pa,
                     ac_ha := take ETHER_ADDR_LEN ha, ac_timestamp := gettimeofday w\<rparr>) w))"

definition arp_cache_delete :: "arp_cache \<Rightarrow> arp_cache" where
  "arp_cache_delete e = e\<lparr>ac_state := ARP_FREE, ac_pa := 0,
     ac_ha := replicate ETHER_ADDR_LEN 0, ac_timestamp := timerclear\<rparr>"

section \<open>Requests and replies\<close>

text \<open>The packets, then what sends them.\<close>

definition arp_request_msg :: "net_device \<Rightarrow> ip_iface \<Rightarrow> u32 \<Rightarrow> arp_ether" where
  "arp_request_msg dev i tpa =
     \<lparr>arp_hrd = hton16 ARP_HRD_ETHER, arp_pro = hton16 ARP_PRO_IP,
      arp_hln = of_nat ETHER_ADDR_LEN, arp_pln = of_nat IP_ADDR_LEN,
      arp_op = hton16 ARP_OP_REQUEST, arp_sha = take ETHER_ADDR_LEN (dev_addr dev),
      arp_spa = store32 (unicast i), arp_tha = replicate ETHER_ADDR_LEN 0,
      arp_tpa = store32 tpa\<rparr>"

definition arp_reply_msg :: "net_device \<Rightarrow> ip_iface \<Rightarrow> u8 list \<Rightarrow> u32 \<Rightarrow> arp_ether" where
  "arp_reply_msg dev i tha tpa =
     \<lparr>arp_hrd = hton16 ARP_HRD_ETHER, arp_pro = hton16 ARP_PRO_IP,
      arp_hln = of_nat ETHER_ADDR_LEN, arp_pln = of_nat IP_ADDR_LEN,
      arp_op = hton16 ARP_OP_REPLY, arp_sha = take ETHER_ADDR_LEN (dev_addr dev),
      arp_spa = store32 (unicast i), arp_tha = take ETHER_ADDR_LEN tha,
      arp_tpa = store32 tpa\<rparr>"

definition arp_request ::
  "nat \<Rightarrow> u32 \<Rightarrow> ('d, 'm) arp_state_scheme \<Rightarrow> int \<times> ('d, 'm) arp_state_scheme" where
  "arp_request iface tpa w =
     (let i = iface_heap w iface; dev = dev_heap w (if_dev i)
      in net_device_output (if_dev i) ETHER_TYPE_ARP (store_arp_ether (arp_request_msg dev i tpa))
           (dev_broadcast dev) w)"

definition arp_reply ::
  "nat \<Rightarrow> u8 list \<Rightarrow> u32 \<Rightarrow> u8 list \<Rightarrow> ('d, 'm) arp_state_scheme \<Rightarrow>
     int \<times> ('d, 'm) arp_state_scheme" where
  "arp_reply iface tha tpa dst w =
     (let i = iface_heap w iface; dev = dev_heap w (if_dev i)
      in net_device_output (if_dev i) ETHER_TYPE_ARP (store_arp_ether (arp_reply_msg dev i tha tpa))
           dst w)"

definition arp_input ::
  "u8 list \<Rightarrow> nat \<Rightarrow> ('d, 'm) arp_state_scheme \<Rightarrow> ('d, 'm) arp_state_scheme" where
  "arp_input data dev w =
     (if length data < ARP_ETHER_SIZE then w
      else
        let msg = load_arp_ether data
        in if ntoh16 (arp_hrd msg) \<noteq> ARP_HRD_ETHER \<or> arp_hln msg \<noteq> of_nat ETHER_ADDR_LEN then w
           else if ntoh16 (arp_pro msg) \<noteq> ARP_PRO_IP \<or> arp_pln msg \<noteq> of_nat IP_ADDR_LEN then w
           else
             let spa = load32 (arp_spa msg) 0; tpa = load32 (arp_tpa msg) 0;
                 (c, w1) = arp_cache_update spa (arp_sha msg) w;
                 marge = (c \<noteq> None)
             in case net_device_get_iface dev NET_IFACE_FAMILY_IP w1 of
                  None \<Rightarrow> w1
                | Some iface \<Rightarrow>
                    if unicast (iface_heap w1 iface) = tpa then
                      let w2 = (if marge then w1 else snd (arp_cache_insert spa (arp_sha msg) w1))
                      in if ntoh16 (arp_op msg) = ARP_OP_REQUEST
                         then snd (arp_reply iface (arp_sha msg) spa (arp_sha msg) w2) else w2
                    else w1)"

text \<open>\<open>ha\<close> is the caller's buffer; its first six bytes are set when the result is FOUND.\<close>

definition arp_resolve ::
  "nat \<Rightarrow> u32 \<Rightarrow> u8 list \<Rightarrow> ('d, 'm) arp_state_scheme \<Rightarrow>
     int \<times> u8 list \<times> ('d, 'm) arp_state_scheme" where
  "arp_resolve iface pa ha w =
     (let i = iface_heap w iface
      in if dev_type (dev_heap w (if_dev i)) \<noteq> NET_DEVICE_TYPE_ETHERNET then (ARP_RESOLVE_ERROR, ha, w)
         else if family i \<noteq> NET_IFACE_FAMILY_IP then (ARP_RESOLVE_ERROR, ha, w)
         else case arp_cache_select pa (caches w) of
           None \<Rightarrow>
             (case arp_cache_alloc (caches w) of
                None \<Rightarrow> (ARP_RESOLVE_ERROR, ha, w)
              | Some c \<Rightarrow>
                  (ARP_RESOLVE_INCOMPLETE, ha,
                   snd (arp_request iface pa
                     (set_cache c ((caches w ! c)\<lparr>ac_state := ARP_INCOMPLETE, ac_pa := pa,
                        ac_timestamp := gettimeofday w\<rparr>) w))))
         | Some c \<Rightarrow>
             if ac_state (caches w ! c) = ARP_INCOMPLETE
             then (ARP_RESOLVE_INCOMPLETE, ha, snd (arp_request iface pa w))
             else (ARP_RESOLVE_FOUND,
                   take ETHER_ADDR_LEN (ac_ha (caches w ! c)) @ drop ETHER_ADDR_LEN ha, w))"

section \<open>Ageing\<close>

definition arp_expired :: "timeval \<Rightarrow> arp_cache \<Rightarrow> bool" where
  "arp_expired now e \<longleftrightarrow>
     ac_state e \<noteq> ARP_FREE \<and> ac_state e \<noteq> ARP_STATIC \<and>
     tv_sec (timersub now (ac_timestamp e)) > ARP_CACHE_TIMEOUT"

definition arp_timer :: "('d, 'm) arp_state_scheme \<Rightarrow> ('d, 'm) arp_state_scheme" where
  "arp_timer w =
     w\<lparr>caches := map (\<lambda>e. if arp_expired (gettimeofday w) e then arp_cache_delete e else e) (caches w)\<rparr>"

definition arp_init :: "('d, 'm) arp_state_scheme \<Rightarrow> int \<times> ('d, 'm) arp_state_scheme" where
  "arp_init w =
     (let (r, w1) = net_protocol_register NET_PROTOCOL_TYPE_ARP Arp_input w
      in if r = -1 then (-1, w1)
         else let (r2, w2) = net_timer_register \<lparr>tv_sec = 1, tv_usec = 0\<rparr> Arp_timer w1
              in if r2 = -1 then (-1, w2) else (0, w2))"

lemmas arp_consts = ARP_HRD_ETHER_def ARP_PRO_IP_def ARP_OP_REQUEST_def ARP_OP_REPLY_def
  ARP_ETHER_SIZE_def IP_ADDR_LEN_def ETHER_ADDR_LEN_def ETHER_TYPE_IP_def
  ARP_RESOLVE_ERROR_def ARP_RESOLVE_INCOMPLETE_def ARP_RESOLVE_FOUND_def

section \<open>The table as a map from protocol addresses\<close>

text \<open>
  Entries in use have different addresses, so the table stands for a map; \<open>arp_map\<close> is the
  abstraction function of the refinement below.
\<close>

definition table_ok :: "arp_cache list \<Rightarrow> bool" where
  "table_ok cs \<longleftrightarrow>
     length cs = ARP_CACHE_SIZE \<and> (\<forall>e \<in> set cs. length (ac_ha e) = 6) \<and>
     (\<forall>i < length cs. \<forall>j < length cs. ac_state (cs ! i) \<noteq> ARP_FREE \<longrightarrow> ac_state (cs ! j) \<noteq> ARP_FREE \<longrightarrow>
        ac_pa (cs ! i) = ac_pa (cs ! j) \<longrightarrow> i = j)"

definition arp_map :: "arp_cache list \<Rightarrow> u32 \<Rightarrow> arp_cache option" where
  "arp_map cs pa = map_option ((!) cs) (arp_cache_select pa cs)"

lemma select_SomeD:
  "arp_cache_select pa cs = Some i \<Longrightarrow>
     i < length cs \<and> ac_state (cs ! i) \<noteq> ARP_FREE \<and> ac_pa (cs ! i) = pa"
  unfolding arp_cache_select_def by (drule find_idx_SomeD) simp

lemma select_None_iff:
  "arp_cache_select pa cs = None \<longleftrightarrow> (\<forall>e \<in> set cs. ac_state e \<noteq> ARP_FREE \<longrightarrow> ac_pa e \<noteq> pa)"
  by (auto simp: arp_cache_select_def find_idx_None_iff)

lemma table_okD:
  assumes "table_ok cs"
  shows "length cs = 32" and "i < 32 \<Longrightarrow> length (ac_ha (cs ! i)) = 6"
    and "\<lbrakk>i < 32; j < 32; ac_state (cs ! i) \<noteq> ARP_FREE; ac_state (cs ! j) \<noteq> ARP_FREE;
          ac_pa (cs ! i) = ac_pa (cs ! j)\<rbrakk> \<Longrightarrow> i = j"
  using assms by (auto simp: table_ok_def ARP_CACHE_SIZE_def)

lemma select_table:
  assumes "table_ok cs" and "i < 32" and "ac_state (cs ! i) \<noteq> ARP_FREE"
  shows "arp_cache_select (ac_pa (cs ! i)) cs = Some i"
  unfolding arp_cache_select_def
  using assms table_okD [OF assms(1)] by (intro find_idx_unique) auto

lemma arp_map_Some_iff:
  assumes "table_ok cs"
  shows "arp_map cs pa = Some e \<longleftrightarrow> (\<exists>i < 32. cs ! i = e \<and> ac_state e \<noteq> ARP_FREE \<and> ac_pa e = pa)"
    (is "_ \<longleftrightarrow> ?R")
proof
  assume "arp_map cs pa = Some e"
  then obtain i where "arp_cache_select pa cs = Some i" "cs ! i = e" by (auto simp: arp_map_def)
  with select_SomeD [of pa cs i] table_okD(1) [OF assms] show ?R by auto
next
  assume ?R
  then obtain i where "i < 32" "cs ! i = e" "ac_state e \<noteq> ARP_FREE" "ac_pa e = pa" by blast
  with select_table [OF assms, of i] show "arp_map cs pa = Some e" by (simp add: arp_map_def)
qed

lemma arp_map_None_iff: "arp_map cs pa = None \<longleftrightarrow> arp_cache_select pa cs = None"
  by (simp add: arp_map_def)

text \<open>Allocation: a free entry, or else one that is as old as any.\<close>

lemma alloc_loop_spec:
  assumes "case oldest of None \<Rightarrow> es \<noteq> [] | Some b \<Rightarrow> b < length cs"
    and "set es \<subseteq> {..<length cs}"
  shows "\<exists>i < length cs. arp_alloc_loop cs oldest es = Some i"
  using assms by (induction es arbitrary: oldest) (auto split: option.splits)

lemma alloc_table:
  assumes "table_ok cs"
  obtains i where "arp_cache_alloc cs = Some i" "i < 32"
  using alloc_loop_spec [where oldest = None and es = "[0..<length cs]" and cs = cs] table_okD(1) [OF assms]
  by (auto simp: arp_cache_alloc_def atLeast0LessThan)

lemma alloc_loop_oldest:
  assumes "arp_alloc_loop cs oldest es = Some i" and "ac_state (cs ! i) \<noteq> ARP_FREE"
    and "\<forall>e \<in> set es. tv_norm (ac_timestamp (cs ! e))"
    and "\<forall>b. oldest = Some b \<longrightarrow> tv_norm (ac_timestamp (cs ! b))"
  shows "(\<forall>e \<in> set es. ac_state (cs ! e) \<noteq> ARP_FREE \<and>
            tv_us (ac_timestamp (cs ! i)) \<le> tv_us (ac_timestamp (cs ! e))) \<and>
         (\<forall>b. oldest = Some b \<longrightarrow> tv_us (ac_timestamp (cs ! i)) \<le> tv_us (ac_timestamp (cs ! b)))"
  using assms
proof (induction es arbitrary: oldest)
  case Nil
  then show ?case by simp
next
  case (Cons e es)
  have notfree: "ac_state (cs ! e) \<noteq> ARP_FREE"
    using Cons.prems(1,2) by (auto split: if_splits)
  show ?case
  proof (cases oldest)
    case None
    with Cons.IH [of "Some e"] Cons.prems notfree show ?thesis by simp
  next
    case (Some b)
    show ?thesis
    proof (cases "timer_less (ac_timestamp (cs ! e)) (ac_timestamp (cs ! b))")
      case True
      then have "tv_us (ac_timestamp (cs ! e)) < tv_us (ac_timestamp (cs ! b))"
        using Cons.prems Some by (simp add: timer_less_us)
      with Cons.IH [of "Some e"] Cons.prems notfree Some True show ?thesis by simp
    next
      case False
      then have "tv_us (ac_timestamp (cs ! b)) \<le> tv_us (ac_timestamp (cs ! e))"
        using Cons.prems Some by (simp add: timer_less_us)
      with Cons.IH [of "Some b"] Cons.prems notfree Some False show ?thesis by simp
    qed
  qed
qed

text \<open>Writing an entry in use, and freeing one, as updates of the map.\<close>

lemma option_eqI: "(\<And>x. a = Some x \<longleftrightarrow> b = Some x) \<Longrightarrow> a = b"
  by (cases a; cases b; auto)

lemma table_ok_set:
  assumes ok: "table_ok cs" and i: "i < 32" and len: "length (ac_ha e) = 6"
    and others: "ac_state e \<noteq> ARP_FREE \<Longrightarrow>
      \<forall>j < 32. j \<noteq> i \<longrightarrow> ac_state (cs ! j) \<noteq> ARP_FREE \<longrightarrow> ac_pa (cs ! j) \<noteq> ac_pa e"
  shows "table_ok (cs[i := e])"
proof -
  have n: "length cs = 32" using table_okD(1) [OF ok] .
  have "\<forall>x \<in> set (cs[i := e]). length (ac_ha x) = 6"
    using ok len by (auto simp: table_ok_def dest: set_list_update_cases)
  moreover have "k = j" if "k < 32" "j < 32" "ac_state (cs[i := e] ! k) \<noteq> ARP_FREE"
    "ac_state (cs[i := e] ! j) \<noteq> ARP_FREE" "ac_pa (cs[i := e] ! k) = ac_pa (cs[i := e] ! j)" for k j
    using that others table_okD(3) [OF ok, of k j] n i
    by (cases "k = i"; cases "j = i"; simp; metis)
  ultimately show ?thesis using n by (simp add: table_ok_def ARP_CACHE_SIZE_def)
qed

lemma arp_map_set:
  assumes ok: "table_ok cs" and i: "i < 32" and len: "length (ac_ha e) = 6"
    and used: "ac_state e \<noteq> ARP_FREE"
    and others: "\<forall>j < 32. j \<noteq> i \<longrightarrow> ac_state (cs ! j) \<noteq> ARP_FREE \<longrightarrow> ac_pa (cs ! j) \<noteq> ac_pa e"
  shows "arp_map (cs[i := e]) pa =
           (if pa = ac_pa e then Some e
            else if ac_state (cs ! i) \<noteq> ARP_FREE \<and> ac_pa (cs ! i) = pa then None
            else arp_map cs pa)"
proof (rule option_eqI)
  fix x
  have n: "length cs = 32" using table_okD(1) [OF ok] .
  note new = arp_map_Some_iff [OF table_ok_set [OF ok i len others]]
  note old = arp_map_Some_iff [OF ok]
  have "(\<exists>j < 32. cs[i := e] ! j = x \<and> ac_state x \<noteq> ARP_FREE \<and> ac_pa x = pa) \<longleftrightarrow>
        (x = e \<and> ac_pa e = pa) \<or>
        (\<exists>j < 32. j \<noteq> i \<and> cs ! j = x \<and> ac_state x \<noteq> ARP_FREE \<and> ac_pa x = pa)"
    using n i used by (auto simp: nth_list_update)
  also have "\<dots> \<longleftrightarrow>
      (if pa = ac_pa e then Some e
       else if ac_state (cs ! i) \<noteq> ARP_FREE \<and> ac_pa (cs ! i) = pa then None
       else arp_map cs pa) = Some x"
    using others i table_okD(3) [OF ok] by (auto simp: old)
  finally show "arp_map (cs[i := e]) pa = Some x \<longleftrightarrow>
      (if pa = ac_pa e then Some e
       else if ac_state (cs ! i) \<noteq> ARP_FREE \<and> ac_pa (cs ! i) = pa then None
       else arp_map cs pa) = Some x"
    by (simp only: new)
qed

lemma select_others:
  assumes ok: "table_ok cs" and sel: "arp_cache_select pa cs = Some i"
  shows "i < 32" "\<forall>j < 32. j \<noteq> i \<longrightarrow> ac_state (cs ! j) \<noteq> ARP_FREE \<longrightarrow> ac_pa (cs ! j) \<noteq> pa"
  using select_SomeD [OF sel] table_okD [OF ok] by auto

lemma unknown_others:
  assumes "table_ok cs" and "arp_cache_select pa cs = None"
  shows "\<forall>j < 32. j \<noteq> i \<longrightarrow> ac_state (cs ! j) \<noteq> ARP_FREE \<longrightarrow> ac_pa (cs ! j) \<noteq> pa"
  using assms table_okD(1) [OF assms(1)] by (auto simp: select_None_iff)

section \<open>Operations on the map\<close>

definition arp_inv :: "('d, 'm) arp_state_scheme \<Rightarrow> bool" where
  "arp_inv w \<longleftrightarrow> table_ok (caches w)"

text \<open>What is left of the map when the entry \<open>i\<close> is taken for another address.\<close>

definition arp_evict :: "arp_cache list \<Rightarrow> nat \<Rightarrow> u32 \<Rightarrow> arp_cache option" where
  "arp_evict cs i =
     (if ac_state (cs ! i) = ARP_FREE then arp_map cs else (arp_map cs)(ac_pa (cs ! i) := None))"

lemma set_cache_simps [simp]:
  "caches (set_cache i e w) = (caches w)[i := e]" "dev_heap (set_cache i e w) = dev_heap w"
  "iface_heap (set_cache i e w) = iface_heap w" "ub (set_cache i e w) = ub w"
  "dev_ops (set_cache i e w) = dev_ops w" "drv (set_cache i e w) = drv w"
  "tick (set_cache i e w) = tick w" "devices (set_cache i e w) = devices w"
  "net_protocols (set_cache i e w) = net_protocols w" "softirqs (set_cache i e w) = softirqs w"
  "timers (set_cache i e w) = timers w"
  by (simp_all add: set_cache_def)

lemma caches_driver_only: "driver_only w w' \<Longrightarrow> caches w' = caches (w :: ('d, 'm) arp_state_scheme)"
  by (drule driver_onlyD(1), cases w, cases w') simp

lemma arp_map_fresh:
  assumes ok: "table_ok cs" and new: "arp_cache_select pa cs = None" and i: "i < 32"
    and e: "length (ac_ha e) = 6" "ac_state e \<noteq> ARP_FREE" "ac_pa e = pa"
  shows "table_ok (cs[i := e])" and "arp_map (cs[i := e]) = (arp_evict cs i)(pa \<mapsto> e)"
proof -
  note others = unknown_others [OF ok new, of i, folded e(3)]
  show "table_ok (cs[i := e])" using table_ok_set [OF ok i e(1) others] .
  have "arp_map (cs[i := e]) p = ((arp_evict cs i)(pa \<mapsto> e)) p" for p
    using arp_map_set [OF ok i e(1,2) others, of p] e(3) by (auto simp: arp_evict_def)
  then show "arp_map (cs[i := e]) = (arp_evict cs i)(pa \<mapsto> e)" by blast
qed

lemma arp_cache_update_unknown:
  "arp_map (caches w) pa = None \<Longrightarrow> arp_cache_update pa ha w = (None, w)"
  by (simp add: arp_cache_update_def arp_map_None_iff)

lemma arp_cache_update_known:
  assumes inv: "arp_inv w" and known: "arp_map (caches w) pa = Some e" and ha: "6 \<le> length ha"
  obtains i w' where "arp_cache_update pa ha w = (Some i, w')" "arp_inv w'"
    "w' = w\<lparr>caches := caches w'\<rparr>"
    "arp_map (caches w') = (arp_map (caches w))(pa \<mapsto> e\<lparr>ac_state := ARP_RESOLVED,
       ac_ha := take 6 ha, ac_timestamp := gettimeofday w\<rparr>)"
proof -
  have ok: "table_ok (caches w)" using inv by (simp add: arp_inv_def)
  from known obtain i where sel: "arp_cache_select pa (caches w) = Some i" "e = caches w ! i"
    by (auto simp: arp_map_def)
  let ?e = "e\<lparr>ac_state := ARP_RESOLVED, ac_ha := take 6 ha, ac_timestamp := gettimeofday w\<rparr>"
  have pa: "ac_pa ?e = pa" and used: "ac_state (caches w ! i) \<noteq> ARP_FREE"
    using select_SomeD [OF sel(1)] sel(2) by simp_all
  note i = select_others(1) [OF ok sel(1)]
  note others = select_others(2) [OF ok sel(1), folded pa]
  have len: "length (ac_ha ?e) = 6" using ha by simp
  have st: "ac_state ?e \<noteq> ARP_FREE" by simp
  let ?w = "set_cache i ?e w"
  show thesis
  proof (rule that)
    show "arp_cache_update pa ha w = (Some i, ?w)"
      using sel by (simp add: arp_cache_update_def ETHER_ADDR_LEN_def)
    show "arp_inv ?w"
      using table_ok_set [OF ok i len others] by (simp add: arp_inv_def)
    show "?w = w\<lparr>caches := caches ?w\<rparr>" by (simp add: set_cache_def)
    have "arp_map ((caches w)[i := ?e]) p = ((arp_map (caches w))(pa \<mapsto> ?e)) p" for p
      using arp_map_set [OF ok i len st others, of p] used sel(2) pa by auto
    then show "arp_map (caches ?w) = (arp_map (caches w))(pa \<mapsto> ?e)" by auto
  qed
qed

lemma arp_cache_insert_new:
  assumes inv: "arp_inv w" and new: "arp_map (caches w) pa = None" and ha: "6 \<le> length ha"
  obtains i w' where "arp_cache_alloc (caches w) = Some i" "i < 32"
    "arp_cache_insert pa ha w = (Some i, w')" "arp_inv w'" "w' = w\<lparr>caches := caches w'\<rparr>"
    "arp_map (caches w') = (arp_evict (caches w) i)(pa \<mapsto> \<lparr>ac_state = ARP_RESOLVED,
       ac_pa = pa, ac_ha = take 6 ha, ac_timestamp = gettimeofday w\<rparr>)"
proof -
  have ok: "table_ok (caches w)" using inv by (simp add: arp_inv_def)
  obtain i where i: "arp_cache_alloc (caches w) = Some i" "i < 32" using alloc_table [OF ok] .
  let ?e = "(caches w ! i)\<lparr>ac_state := ARP_RESOLVED, ac_pa := pa, ac_ha := take 6 ha,
              ac_timestamp := gettimeofday w\<rparr>"
  have e: "?e = \<lparr>ac_state = ARP_RESOLVED, ac_pa = pa, ac_ha = take 6 ha,
                 ac_timestamp = gettimeofday w\<rparr>"
    by simp
  have sel: "arp_cache_select pa (caches w) = None" using new by (simp add: arp_map_None_iff)
  have len: "length (ac_ha ?e) = 6" using ha by simp
  have st: "ac_state ?e \<noteq> ARP_FREE" and pa: "ac_pa ?e = pa" by simp_all
  show thesis
  proof (rule that [OF i])
    show "arp_cache_insert pa ha w = (Some i, set_cache i ?e w)"
      using i(1) by (simp add: arp_cache_insert_def ETHER_ADDR_LEN_def)
    show "arp_inv (set_cache i ?e w)"
      using arp_map_fresh(1) [OF ok sel i(2) len st pa] by (simp add: arp_inv_def)
    show "set_cache i ?e w = w\<lparr>caches := caches (set_cache i ?e w)\<rparr>" by (simp add: set_cache_def)
    show "arp_map (caches (set_cache i ?e w)) = (arp_evict (caches w) i)(pa \<mapsto> \<lparr>ac_state = ARP_RESOLVED,
       ac_pa = pa, ac_ha = take 6 ha, ac_timestamp = gettimeofday w\<rparr>)"
      using arp_map_fresh(2) [OF ok sel i(2) len st pa] by (simp add: e)
  qed
qed

text \<open>Ageing removes the entries that have expired and keeps the others.\<close>

definition arp_age :: "timeval \<Rightarrow> arp_cache \<Rightarrow> arp_cache" where
  "arp_age now e = (if arp_expired now e then arp_cache_delete e else e)"

lemma arp_age_simps:
  "length (ac_ha e) = 6 \<Longrightarrow> length (ac_ha (arp_age now e)) = 6"
  "ac_state (arp_age now e) = ARP_FREE \<longleftrightarrow> ac_state e = ARP_FREE \<or> arp_expired now e"
  "\<not> arp_expired now e \<Longrightarrow> arp_age now e = e"
  by (auto simp: arp_age_def arp_cache_delete_def ETHER_ADDR_LEN_def)

lemma arp_age_table:
  assumes ok: "table_ok cs"
  shows "table_ok (map (arp_age now) cs)" "arp_map (map (arp_age now) cs) pa =
     (case arp_map cs pa of None \<Rightarrow> None | Some e \<Rightarrow> if arp_expired now e then None else Some e)"
proof -
  have n: "length cs = 32" using table_okD(1) [OF ok] .
  have "i = j" if "i < 32" "j < 32" "ac_state (arp_age now (cs ! i)) \<noteq> ARP_FREE"
    "ac_state (arp_age now (cs ! j)) \<noteq> ARP_FREE"
    "ac_pa (arp_age now (cs ! i)) = ac_pa (arp_age now (cs ! j))" for i j
  proof -
    from that have "\<not> arp_expired now (cs ! i)" "\<not> arp_expired now (cs ! j)"
      "ac_state (cs ! i) \<noteq> ARP_FREE" "ac_state (cs ! j) \<noteq> ARP_FREE"
      by (simp_all add: arp_age_simps(2))
    with that table_okD(3) [OF ok, of i j] show ?thesis by (simp add: arp_age_simps(3))
  qed
  moreover have "\<forall>e \<in> set cs. length (ac_ha (arp_age now e)) = 6"
    using ok by (simp add: table_ok_def arp_age_simps(1))
  ultimately show ok': "table_ok (map (arp_age now) cs)"
    using n by (simp add: table_ok_def ARP_CACHE_SIZE_def)
  have "(\<exists>i < 32. arp_age now (cs ! i) = x \<and> ac_state x \<noteq> ARP_FREE \<and> ac_pa x = pa) \<longleftrightarrow>
        (\<exists>i < 32. cs ! i = x \<and> ac_state x \<noteq> ARP_FREE \<and> ac_pa x = pa) \<and> \<not> arp_expired now x" for x
    by (metis arp_age_simps(2,3))
  then have "arp_map (map (arp_age now) cs) pa = Some x \<longleftrightarrow>
               arp_map cs pa = Some x \<and> \<not> arp_expired now x" for x
    using n unfolding arp_map_Some_iff [OF ok'] arp_map_Some_iff [OF ok]
    by (simp cong: conj_cong)
  then show "arp_map (map (arp_age now) cs) pa =
     (case arp_map cs pa of None \<Rightarrow> None | Some e \<Rightarrow> if arp_expired now e then None else Some e)"
    by (intro option_eqI) (auto split: option.splits)
qed

lemma arp_timer_map:
  assumes "arp_inv w"
  shows "arp_inv (arp_timer w)"
    and "arp_map (caches (arp_timer w)) pa =
           (case arp_map (caches w) pa of None \<Rightarrow> None
            | Some e \<Rightarrow> if arp_expired (gettimeofday w) e then None else Some e)"
proof -
  have ok: "table_ok (caches w)" using assms by (simp add: arp_inv_def)
  have t: "caches (arp_timer w) = map (arp_age (gettimeofday w)) (caches w)"
    by (simp add: arp_timer_def arp_age_def)
  show "arp_inv (arp_timer w)" unfolding arp_inv_def t by (rule arp_age_table(1) [OF ok])
  show "arp_map (caches (arp_timer w)) pa =
          (case arp_map (caches w) pa of None \<Rightarrow> None
            | Some e \<Rightarrow> if arp_expired (gettimeofday w) e then None else Some e)"
    unfolding t by (rule arp_age_table(2) [OF ok])
qed

section \<open>Packets\<close>

definition arp_wf :: "arp_ether \<Rightarrow> bool" where
  "arp_wf m \<longleftrightarrow> length (arp_sha m) = 6 \<and> length (arp_spa m) = 4 \<and>
                length (arp_tha m) = 6 \<and> length (arp_tpa m) = 4"

lemma length_store_arp_ether: "arp_wf m \<Longrightarrow> length (store_arp_ether m) = 28"
  by (simp add: arp_wf_def store_arp_ether_def)

lemma load_store_arp_ether: "arp_wf m \<Longrightarrow> load_arp_ether (store_arp_ether m @ pad) = m"
proof -
  have 16: "load16 (store16 a @ xs) 0 = a" for a xs by (rule load16_store16)
  have s: "load16 (x # y # xs) 2 = load16 xs 0" for x y :: u8 and xs by (simp add: load16_def)
  have 6: "load16 (a # b # c # d # e # f # xs) 6 = load16 xs 0" for a b c d e f :: u8 and xs
    by (simp add: load16_def)
  assume "arp_wf m"
  then show ?thesis
    by (cases m) (auto simp: arp_wf_def load_arp_ether_def store_arp_ether_def store16_def s 6
      16 [unfolded store16_def, simplified])
qed

lemma msg_wf:
  "6 \<le> length (dev_addr d) \<Longrightarrow> arp_wf (arp_request_msg d i tpa)"
  "6 \<le> length (dev_addr d) \<Longrightarrow> 6 \<le> length tha \<Longrightarrow> arp_wf (arp_reply_msg d i tha tpa)"
  by (simp_all add: arp_wf_def arp_request_msg_def arp_reply_msg_def ETHER_ADDR_LEN_def)

text \<open>The checks at the head of \<^verbatim>\<open>arp_input\<close>.\<close>

definition arp_accepts :: "u8 list \<Rightarrow> bool" where
  "arp_accepts data \<longleftrightarrow>
     28 \<le> length data \<and>
     (let m = load_arp_ether data
      in ntoh16 (arp_hrd m) = 1 \<and> arp_hln m = 6 \<and> ntoh16 (arp_pro m) = 0x0800 \<and> arp_pln m = 4)"

lemma msg_accepted:
  "6 \<le> length (dev_addr d) \<Longrightarrow> arp_accepts (store_arp_ether (arp_request_msg d i tpa) @ pad)"
  "6 \<le> length (dev_addr d) \<Longrightarrow> 6 \<le> length tha \<Longrightarrow>
     arp_accepts (store_arp_ether (arp_reply_msg d i tha tpa) @ pad)"
  by (simp_all add: arp_accepts_def Let_def load_store_arp_ether length_store_arp_ether msg_wf)
    (simp_all add: arp_request_msg_def arp_reply_msg_def arp_consts)

section \<open>Input and resolution\<close>

definition arp_only :: "('d, 'm) arp_state_scheme \<Rightarrow> ('d, 'm) arp_state_scheme \<Rightarrow> bool" where
  "arp_only w w' \<longleftrightarrow> w' = w\<lparr>drv := drv w', ub := ub w', caches := caches w'\<rparr> \<and> (ub w \<longrightarrow> ub w')"

lemma arp_only_refl [simp]: "arp_only w w"
  by (simp add: arp_only_def)

lemma arp_only_caches: "w' = w\<lparr>caches := caches w'\<rparr> \<Longrightarrow> arp_only w w'"
  unfolding arp_only_def by (cases w; cases w') simp

lemma arp_only_trans: "arp_only w1 w2 \<Longrightarrow> arp_only w2 w3 \<Longrightarrow> arp_only w1 w3"
  unfolding arp_only_def by (cases w1; cases w2; cases w3) simp

lemma driver_arp_only: "driver_only w w' \<Longrightarrow> arp_only w w'"
  unfolding driver_only_def arp_only_def by (cases w; cases w') simp

lemma arp_onlyD:
  assumes "arp_only w w'"
  shows "arp_state.more w' = arp_state.more w" "dev_heap w' = dev_heap w"
    "dev_ops w' = dev_ops w" "devices w' = devices w" "iface_heap w' = iface_heap w"
    "net_protocols w' = net_protocols w" "timers w' = timers w" "softirqs w' = softirqs w"
    "tick w' = tick w" "alloc_ok w' = alloc_ok w" "alloc_no w' = alloc_no w"
    "randoms w' = randoms w" "random_no w' = random_no w" "wakeups w' = wakeups w"
    "next_index w' = next_index w" "cur_task w' = cur_task w"
    "dev_brk w' = dev_brk w" "iface_brk w' = iface_brk w"
  using assms unfolding arp_only_def by (cases w; cases w'; simp)+

lemma arp_request_only: "driver_only w (snd (arp_request iface tpa w))"
  by (simp add: arp_request_def Let_def net_device_output_driver_only)

lemma arp_reply_only: "driver_only w (snd (arp_reply iface tha tpa dst w))"
  by (simp add: arp_reply_def Let_def net_device_output_driver_only)

lemma arp_timer_only: "arp_only w (arp_timer w)"
  by (simp add: arp_timer_def arp_only_def)

lemma arp_inv_driver_only: "driver_only w w' \<Longrightarrow> arp_inv w' = arp_inv w"
  by (simp add: arp_inv_def caches_driver_only)

text \<open>The table after a message from \<open>spa\<close> with hardware address \<open>sha\<close>.\<close>

definition arp_learn ::
  "nat \<Rightarrow> u32 \<Rightarrow> u8 list \<Rightarrow> ('d, 'm) arp_state_scheme \<Rightarrow> u32 \<Rightarrow> arp_cache option" where
  "arp_learn i spa sha w =
     (if arp_map (caches w) spa = None then arp_evict (caches w) i else arp_map (caches w))
       (spa \<mapsto> \<lparr>ac_state = ARP_RESOLVED, ac_pa = spa, ac_ha = sha, ac_timestamp = gettimeofday w\<rparr>)"

lemma arp_input_rejects: "\<not> arp_accepts data \<Longrightarrow> arp_input data dev w = w"
  by (auto simp: arp_accepts_def arp_input_def Let_def arp_consts)

text \<open>The steps of \<^verbatim>\<open>arp_input\<close> after the checks.\<close>

definition arp_merge :: "u32 \<Rightarrow> u8 list \<Rightarrow> ('d, 'm) arp_state_scheme \<Rightarrow> ('d, 'm) arp_state_scheme" where
  "arp_merge spa sha w =
     (if arp_map (caches w) spa = None then snd (arp_cache_insert spa sha w)
      else snd (arp_cache_update spa sha w))"

lemma arp_update_fst: "fst (arp_cache_update pa ha w) = arp_cache_select pa (caches w)"
  by (simp add: arp_cache_update_def split: option.splits)

lemma arp_update_frame: "arp_only w (snd (arp_cache_update pa ha w))"
  by (auto simp: arp_cache_update_def set_cache_def arp_only_def split: option.splits)

lemma arp_get_iface_only:
  "arp_only w w' \<Longrightarrow> net_device_get_iface dev f w' = net_device_get_iface dev f w"
  by (simp add: net_device_get_iface_def arp_onlyD)

lemma arp_input_accepted:
  assumes "arp_accepts data"
  defines "m \<equiv> load_arp_ether data"
  defines "spa \<equiv> load32 (arp_spa m) 0" and "tpa \<equiv> load32 (arp_tpa m) 0"
  shows "arp_input data dev w =
    (case net_device_get_iface dev NET_IFACE_FAMILY_IP w of
       None \<Rightarrow> snd (arp_cache_update spa (arp_sha m) w)
     | Some iface \<Rightarrow>
         if unicast (iface_heap w iface) = tpa then
           (let w1 = arp_merge spa (arp_sha m) w
            in if ntoh16 (arp_op m) = ARP_OP_REQUEST
               then snd (arp_reply iface (arp_sha m) spa (arp_sha m) w1) else w1)
         else snd (arp_cache_update spa (arp_sha m) w))"
proof -
  let ?u = "arp_cache_update spa (arp_sha m) w"
  obtain c w1 where u: "?u = (c, w1)" by (cases ?u)
  have c: "c = None \<longleftrightarrow> arp_map (caches w) spa = None"
    using arp_update_fst [of spa "arp_sha m" w] u by (simp add: arp_map_None_iff)
  have w1: "c = None \<Longrightarrow> w1 = w"
    using u arp_cache_update_unknown [of w spa "arp_sha m"] c by simp
  have only: "arp_only w w1" using arp_update_frame [of w spa "arp_sha m"] u by simp
  have i: "net_device_get_iface dev NET_IFACE_FAMILY_IP w1 = net_device_get_iface dev NET_IFACE_FAMILY_IP w"
    "iface_heap w1 = iface_heap w"
    using only by (simp_all add: arp_get_iface_only arp_onlyD)
  have merge: "arp_merge spa (arp_sha m) w =
      (if c \<noteq> None then w1 else snd (arp_cache_insert spa (arp_sha m) w1))"
    using c w1 u by (simp add: arp_merge_def)
  have ok: "\<not> length data < ARP_ETHER_SIZE"
    "\<not> (ntoh16 (arp_hrd m) \<noteq> ARP_HRD_ETHER \<or> arp_hln m \<noteq> of_nat ETHER_ADDR_LEN)"
    "\<not> (ntoh16 (arp_pro m) \<noteq> ARP_PRO_IP \<or> arp_pln m \<noteq> of_nat IP_ADDR_LEN)"
    using assms(1) by (simp_all add: arp_accepts_def m_def Let_def arp_consts)
  show ?thesis
    unfolding arp_input_def Let_def m_def [symmetric] spa_def [symmetric] tpa_def [symmetric]
      if_not_P [OF ok(1)] if_not_P [OF ok(2)] if_not_P [OF ok(3)] u case_prod_conv i merge
    using u by (simp split: option.splits)
qed

lemma arp_merge_learns:
  assumes inv: "arp_inv w" and ha: "length sha = 6"
  obtains i where "i < 32" "arp_cache_alloc (caches w) = Some i" "arp_inv (arp_merge spa sha w)"
    "arp_only w (arp_merge spa sha w)" "arp_map (caches (arp_merge spa sha w)) = arp_learn i spa sha w"
proof (cases "arp_map (caches w) spa")
  case None
  from ha have "6 \<le> length sha" by simp
  then obtain i w' where i: "arp_cache_alloc (caches w) = Some i" "i < 32"
    and w': "arp_cache_insert spa sha w = (Some i, w')" "arp_inv w'" "w' = w\<lparr>caches := caches w'\<rparr>"
    "arp_map (caches w') = (arp_evict (caches w) i)(spa \<mapsto> \<lparr>ac_state = ARP_RESOLVED,
       ac_pa = spa, ac_ha = take 6 sha, ac_timestamp = gettimeofday w\<rparr>)"
    by (rule arp_cache_insert_new [OF inv None])
  have m: "arp_merge spa sha w = w'" using None w'(1) by (simp add: arp_merge_def)
  have "arp_map (caches w') = arp_learn i spa sha w"
    using w'(4) None ha by (simp add: arp_learn_def)
  with that [OF i(2,1)] w'(2) arp_only_caches [OF w'(3)] show thesis by (simp add: m)
next
  case (Some e)
  have "table_ok (caches w)" using inv by (simp add: arp_inv_def)
  then obtain k where k: "arp_cache_alloc (caches w) = Some k" "k < 32" by (rule alloc_table)
  have pa: "ac_pa e = spa" using Some inv by (auto simp: arp_inv_def arp_map_Some_iff)
  from ha have "6 \<le> length sha" by simp
  then obtain i w' where w': "arp_cache_update spa sha w = (Some i, w')" "arp_inv w'"
    "w' = w\<lparr>caches := caches w'\<rparr>"
    "arp_map (caches w') = (arp_map (caches w))(spa \<mapsto> e\<lparr>ac_state := ARP_RESOLVED,
       ac_ha := take 6 sha, ac_timestamp := gettimeofday w\<rparr>)"
    by (rule arp_cache_update_known [OF inv Some])
  have m: "arp_merge spa sha w = w'" using Some w'(1) by (simp add: arp_merge_def)
  have "e\<lparr>ac_state := ARP_RESOLVED, ac_ha := take 6 sha, ac_timestamp := gettimeofday w\<rparr> =
      \<lparr>ac_state = ARP_RESOLVED, ac_pa = spa, ac_ha = sha, ac_timestamp = gettimeofday w\<rparr>"
    using pa ha by simp
  with w'(4) Some have "arp_map (caches w') = arp_learn k spa sha w" by (simp add: arp_learn_def)
  with that [OF k(2,1)] w'(2) arp_only_caches [OF w'(3)] show thesis by (simp add: m)
qed

lemma arp_update_inv:
  assumes "arp_inv w" and "6 \<le> length ha"
  shows "arp_inv (snd (arp_cache_update pa ha w))"
proof (cases "arp_map (caches w) pa")
  case None
  with assms(1) show ?thesis by (simp add: arp_cache_update_unknown)
next
  case (Some e)
  from arp_cache_update_known [OF assms(1) this assms(2)] show ?thesis by (metis snd_conv)
qed

lemma arp_accepts_sha: "arp_accepts data \<Longrightarrow> length (arp_sha (load_arp_ether data)) = 6"
  by (auto simp: arp_accepts_def load_arp_ether_def Let_def)

lemma arp_input_inv:
  assumes "arp_inv w"
  shows "arp_inv (arp_input data dev w) \<and> arp_only w (arp_input data dev w)"
proof (cases "arp_accepts data")
  case False
  with assms show ?thesis by (simp add: arp_input_rejects)
next
  case True
  let ?m = "load_arp_ether data"
  let ?spa = "load32 (arp_spa ?m) 0"
  let ?w1 = "arp_merge ?spa (arp_sha ?m) w"
  note sha = arp_accepts_sha [OF True]
  have u: "arp_inv (snd (arp_cache_update ?spa (arp_sha ?m) w))"
    using arp_update_inv [OF assms] sha by simp
  have m: "arp_inv ?w1" "arp_only w ?w1" using arp_merge_learns [OF assms sha] by metis+
  have r: "arp_inv (snd (arp_reply i a b c ?w1))" "arp_only w (snd (arp_reply i a b c ?w1))" for i a b c
    using m arp_only_trans [OF m(2) driver_arp_only [OF arp_reply_only]]
    by (simp_all add: arp_inv_driver_only [OF arp_reply_only])
  show ?thesis
    unfolding arp_input_accepted [OF True] Let_def
    using u m r by (simp add: arp_update_frame split: option.splits)
qed

text \<open>Resolution, by what the table says of the address.\<close>

lemma arp_resolve_found:
  assumes "arp_inv w" and "dev_type (dev_heap w (if_dev (iface_heap w iface))) = NET_DEVICE_TYPE_ETHERNET"
    and "family (iface_heap w iface) = NET_IFACE_FAMILY_IP"
    and "arp_map (caches w) pa = Some e" and "ac_state e \<noteq> ARP_INCOMPLETE"
  shows "arp_resolve iface pa ha w = (ARP_RESOLVE_FOUND, ac_ha e @ drop 6 ha, w)"
proof -
  from assms(4) obtain i where i: "arp_cache_select pa (caches w) = Some i" "caches w ! i = e"
    by (auto simp: arp_map_def)
  have ok: "table_ok (caches w)" using assms(1) by (simp add: arp_inv_def)
  then have "i < 32" using select_SomeD [OF i(1)] table_okD(1) by metis
  with ok have "length (ac_ha e) = 6" using table_okD(2) i(2) by metis
  with assms i show ?thesis by (simp add: arp_resolve_def Let_def ETHER_ADDR_LEN_def)
qed

lemma arp_resolve_waiting:
  assumes "dev_type (dev_heap w (if_dev (iface_heap w iface))) = NET_DEVICE_TYPE_ETHERNET"
    and "family (iface_heap w iface) = NET_IFACE_FAMILY_IP"
    and "arp_map (caches w) pa = Some e" and "ac_state e = ARP_INCOMPLETE"
  shows "arp_resolve iface pa ha w = (ARP_RESOLVE_INCOMPLETE, ha, snd (arp_request iface pa w))"
  using assms by (auto simp: arp_map_def arp_resolve_def Let_def)

lemma arp_resolve_unknown:
  assumes inv: "arp_inv w"
    and dev: "dev_type (dev_heap w (if_dev (iface_heap w iface))) = NET_DEVICE_TYPE_ETHERNET"
    and fam: "family (iface_heap w iface) = NET_IFACE_FAMILY_IP"
    and new: "arp_map (caches w) pa = None"
  obtains i e w1 where "arp_cache_alloc (caches w) = Some i" "i < 32"
    "arp_resolve iface pa ha w = (ARP_RESOLVE_INCOMPLETE, ha, snd (arp_request iface pa w1))"
    "arp_inv w1" "w1 = w\<lparr>caches := caches w1\<rparr>"
    "arp_map (caches w1) = (arp_evict (caches w) i)(pa \<mapsto> e)"
    "ac_state e = ARP_INCOMPLETE" "ac_timestamp e = gettimeofday w"
proof -
  have ok: "table_ok (caches w)" using inv by (simp add: arp_inv_def)
  obtain i where i: "arp_cache_alloc (caches w) = Some i" "i < 32" using alloc_table [OF ok] .
  let ?e = "(caches w ! i)\<lparr>ac_state := ARP_INCOMPLETE, ac_pa := pa, ac_timestamp := gettimeofday w\<rparr>"
  have sel: "arp_cache_select pa (caches w) = None" using new by (simp add: arp_map_None_iff)
  have len: "length (ac_ha ?e) = 6" using table_okD(2) [OF ok i(2)] by simp
  have st: "ac_state ?e \<noteq> ARP_FREE" and pa: "ac_pa ?e = pa" by simp_all
  show thesis
  proof (rule that [OF i])
    show "arp_resolve iface pa ha w =
        (ARP_RESOLVE_INCOMPLETE, ha, snd (arp_request iface pa (set_cache i ?e w)))"
      using dev fam sel i by (simp add: arp_resolve_def Let_def)
    show "arp_inv (set_cache i ?e w)"
      using arp_map_fresh(1) [OF ok sel i(2) len st pa] by (simp add: arp_inv_def)
    show "set_cache i ?e w = w\<lparr>caches := caches (set_cache i ?e w)\<rparr>" by (simp add: set_cache_def)
    show "arp_map (caches (set_cache i ?e w)) = (arp_evict (caches w) i)(pa \<mapsto> ?e)"
      using arp_map_fresh(2) [OF ok sel i(2) len st pa] by simp
  qed simp_all
qed

lemma arp_resolve_inv:
  assumes inv: "arp_inv w"
  shows "arp_inv (snd (snd (arp_resolve iface pa ha w))) \<and> arp_only w (snd (snd (arp_resolve iface pa ha w)))"
proof (cases "dev_type (dev_heap w (if_dev (iface_heap w iface))) = NET_DEVICE_TYPE_ETHERNET \<and>
    family (iface_heap w iface) = NET_IFACE_FAMILY_IP")
  case False
  with inv show ?thesis by (auto simp: arp_resolve_def Let_def)
next
  case True
  have q: "arp_inv (snd (arp_request iface pa w1)) = arp_inv w1"
    "arp_only w1 (snd (arp_request iface pa w1))" for w1 :: "('a, 'b) arp_state_scheme"
    by (rule arp_inv_driver_only [OF arp_request_only] driver_arp_only [OF arp_request_only])+
  show ?thesis
  proof (cases "arp_map (caches w) pa")
    case None
    obtain i e w1 where "arp_resolve iface pa ha w = (ARP_RESOLVE_INCOMPLETE, ha, snd (arp_request iface pa w1))"
      "arp_inv w1" "w1 = w\<lparr>caches := caches w1\<rparr>"
      using arp_resolve_unknown [OF inv _ _ None] True by metis
    with q(1) arp_only_trans [OF arp_only_caches q(2)] show ?thesis by (metis snd_conv)
  next
    case (Some e)
    show ?thesis
    proof (cases "ac_state e = ARP_INCOMPLETE")
      case i: True
      have "arp_resolve iface pa ha w = (ARP_RESOLVE_INCOMPLETE, ha, snd (arp_request iface pa w))"
        by (rule arp_resolve_waiting [OF _ _ Some i]) (use True in simp_all)
      with q inv show ?thesis by simp
    next
      case f: False
      have "arp_resolve iface pa ha w = (ARP_RESOLVE_FOUND, ac_ha e @ drop 6 ha, w)"
        by (rule arp_resolve_found [OF inv _ _ Some f]) (use True in simp_all)
      with inv show ?thesis by simp
    qed
  qed
qed

text \<open>A message for the receiving interface is learned, and resolution then succeeds.\<close>

lemma arp_input_for_us:
  assumes acc: "arp_accepts data" and inv: "arp_inv w"
    and iface: "net_device_get_iface dev NET_IFACE_FAMILY_IP w = Some iface"
    and us: "load32 (arp_tpa (load_arp_ether data)) 0 = unicast (iface_heap w iface)"
  defines "m \<equiv> load_arp_ether data"
  defines "spa \<equiv> load32 (arp_spa m) 0"
  obtains i w1 where "i < 32" "arp_cache_alloc (caches w) = Some i" "arp_inv w1" "arp_only w w1"
    "arp_map (caches w1) = arp_learn i spa (arp_sha m) w"
    "arp_input data dev w =
       (if ntoh16 (arp_op m) = ARP_OP_REQUEST then snd (arp_reply iface (arp_sha m) spa (arp_sha m) w1)
        else w1)"
proof -
  have sha: "length (arp_sha m) = 6" unfolding m_def by (rule arp_accepts_sha [OF acc])
  obtain i where i: "i < 32" "arp_cache_alloc (caches w) = Some i"
    "arp_inv (arp_merge spa (arp_sha m) w)" "arp_only w (arp_merge spa (arp_sha m) w)"
    "arp_map (caches (arp_merge spa (arp_sha m) w)) = arp_learn i spa (arp_sha m) w"
    using arp_merge_learns [OF inv sha] by metis
  have "arp_input data dev w =
      (let w1 = arp_merge spa (arp_sha m) w
       in if ntoh16 (arp_op m) = ARP_OP_REQUEST then snd (arp_reply iface (arp_sha m) spa (arp_sha m) w1)
          else w1)"
    using arp_input_accepted [OF acc, of dev w] iface us unfolding spa_def m_def by simp
  with that [OF i] show thesis by (simp add: Let_def)
qed

lemma arp_input_learns:
  assumes "arp_accepts data" and "arp_inv w"
    and "net_device_get_iface dev NET_IFACE_FAMILY_IP w = Some iface"
    and "load32 (arp_tpa (load_arp_ether data)) 0 = unicast (iface_heap w iface)"
  obtains i where "arp_cache_alloc (caches w) = Some i" "arp_map (caches (arp_input data dev w)) =
      arp_learn i (load32 (arp_spa (load_arp_ether data)) 0) (arp_sha (load_arp_ether data)) w"
proof -
  obtain i w1 where "arp_cache_alloc (caches w) = Some i"
    "arp_map (caches w1) = arp_learn i (load32 (arp_spa (load_arp_ether data)) 0) (arp_sha (load_arp_ether data)) w"
    "arp_input data dev w = w1 \<or> driver_only w1 (arp_input data dev w)"
    using arp_input_for_us [OF assms] arp_reply_only by metis
  with that [of i] caches_driver_only [of w1 "arp_input data dev w"] show thesis by metis
qed

lemma arp_learn_resolves:
  assumes "arp_inv w'" and "arp_map (caches w') = arp_learn i pa sha w"
    and "dev_type (dev_heap w' (if_dev (iface_heap w' iface))) = NET_DEVICE_TYPE_ETHERNET"
    and "family (iface_heap w' iface) = NET_IFACE_FAMILY_IP"
  shows "arp_resolve iface pa ha w' = (ARP_RESOLVE_FOUND, sha @ drop 6 ha, w')"
  using arp_resolve_found [OF assms(1,3,4), of pa] assms(2) by (simp add: arp_learn_def)

text \<open>A message for someone else refreshes an entry at most.\<close>

lemma arp_input_not_for_us:
  assumes acc: "arp_accepts data" and inv: "arp_inv w"
    and notus: "\<And>iface. net_device_get_iface dev NET_IFACE_FAMILY_IP w = Some iface \<Longrightarrow>
      load32 (arp_tpa (load_arp_ether data)) 0 \<noteq> unicast (iface_heap w iface)"
  shows "dom (arp_map (caches (arp_input data dev w))) = dom (arp_map (caches w)) \<and>
         drv (arp_input data dev w) = drv w"
proof -
  let ?spa = "load32 (arp_spa (load_arp_ether data)) 0" and ?sha = "arp_sha (load_arp_ether data)"
  have i: "arp_input data dev w = snd (arp_cache_update ?spa ?sha w)"
    using notus unfolding arp_input_accepted [OF acc] by (auto split: option.splits)
  show ?thesis
  proof (cases "arp_map (caches w) ?spa")
    case None
    then show ?thesis by (simp add: i arp_cache_update_unknown)
  next
    case (Some e)
    have "6 \<le> length ?sha" using arp_accepts_sha [OF acc] by simp
    then obtain k w' where k: "arp_cache_update ?spa ?sha w = (Some k, w')"
      "w' = w\<lparr>caches := caches w'\<rparr>"
      "arp_map (caches w') = (arp_map (caches w))(?spa \<mapsto> e\<lparr>ac_state := ARP_RESOLVED,
         ac_ha := take 6 ?sha, ac_timestamp := gettimeofday w\<rparr>)"
      by (rule arp_cache_update_known [OF inv Some])
    then have "drv w' = drv w" by (cases w; cases w') simp
    moreover have "dom (arp_map (caches w')) = dom (arp_map (caches w))" using k(3) Some by auto
    ultimately show ?thesis by (simp add: i k(1))
  qed
qed

section \<open>Two hosts\<close>

text \<open>\<open>iface\<close> is the IP interface of the Ethernet device \<open>dev\<close>.\<close>

definition arp_port :: "nat \<Rightarrow> nat \<Rightarrow> ('d, 'm) net_state_scheme \<Rightarrow> bool" where
  "arp_port dev iface w \<longleftrightarrow>
     net_device_get_iface dev NET_IFACE_FAMILY_IP w = Some iface \<and>
     if_dev (iface_heap w iface) = dev \<and> family (iface_heap w iface) = NET_IFACE_FAMILY_IP \<and>
     dev_type (dev_heap w dev) = NET_DEVICE_TYPE_ETHERNET \<and> 6 \<le> length (dev_addr (dev_heap w dev))"

lemma arp_port_only: "arp_only w w' \<Longrightarrow> arp_port dev iface w' = arp_port dev iface w"
  by (simp add: arp_port_def arp_get_iface_only arp_onlyD)

lemma msg_fields:
  "arp_sha (arp_request_msg d i tpa) = take 6 (dev_addr d)"
  "load32 (arp_spa (arp_request_msg d i tpa)) 0 = unicast i"
  "load32 (arp_tpa (arp_request_msg d i tpa)) 0 = tpa"
  "ntoh16 (arp_op (arp_request_msg d i tpa)) = ARP_OP_REQUEST"
  "arp_sha (arp_reply_msg d i tha tpa) = take 6 (dev_addr d)"
  "load32 (arp_spa (arp_reply_msg d i tha tpa)) 0 = unicast i"
  "load32 (arp_tpa (arp_reply_msg d i tha tpa)) 0 = tpa"
  "ntoh16 (arp_op (arp_reply_msg d i tha tpa)) \<noteq> ARP_OP_REQUEST"
  by (simp_all add: arp_request_msg_def arp_reply_msg_def hdr_simps ETHER_ADDR_LEN_def
      ARP_OP_REQUEST_def ARP_OP_REPLY_def)

lemma arp_request_received:
  assumes inv: "arp_inv w" and port: "arp_port dev iface w" and d: "6 \<le> length (dev_addr d)"
  obtains w1 where "arp_inv w1" "arp_only w w1"
    "arp_resolve iface (unicast i) ha w1 = (ARP_RESOLVE_FOUND, take 6 (dev_addr d) @ drop 6 ha, w1)"
    "arp_input (store_arp_ether (arp_request_msg d i (unicast (iface_heap w iface))) @ pad) dev w =
       snd (net_device_output dev ETHER_TYPE_ARP
         (store_arp_ether (arp_reply_msg (dev_heap w dev) (iface_heap w iface) (take 6 (dev_addr d)) (unicast i)))
         (take 6 (dev_addr d)) w1)"
proof -
  let ?m = "arp_request_msg d i (unicast (iface_heap w iface))"
  note acc = msg_accepted(1) [OF d, of i "unicast (iface_heap w iface)" pad]
  note l = load_store_arp_ether [OF msg_wf(1) [OF d, of i "unicast (iface_heap w iface)"], of pad]
  have iface: "net_device_get_iface dev NET_IFACE_FAMILY_IP w = Some iface"
    using port by (simp add: arp_port_def)
  have us: "load32 (arp_tpa (load_arp_ether (store_arp_ether ?m @ pad))) 0 = unicast (iface_heap w iface)"
    by (simp add: l msg_fields)
  obtain k w1 where w1: "arp_inv w1" "arp_only w w1"
    "arp_map (caches w1) = arp_learn k (unicast i) (take 6 (dev_addr d)) w"
    "arp_input (store_arp_ether ?m @ pad) dev w =
       snd (arp_reply iface (take 6 (dev_addr d)) (unicast i) (take 6 (dev_addr d)) w1)"
    using arp_input_for_us [OF acc inv iface us] by (simp add: l msg_fields) metis
  have p1: "arp_port dev iface w1" using port w1(2) by (simp add: arp_port_only)
  have "arp_resolve iface (unicast i) ha w1 = (ARP_RESOLVE_FOUND, take 6 (dev_addr d) @ drop 6 ha, w1)"
    by (rule arp_learn_resolves [OF w1(1,3)]) (use p1 in \<open>simp_all add: arp_port_def\<close>)
  with that [OF w1(1,2)] w1(4) p1 show thesis
    by (simp add: arp_reply_def Let_def arp_port_def arp_onlyD [OF w1(2)])
qed

lemma arp_request_learned:
  fixes i :: ip_iface and pad :: "u8 list"
  assumes inv: "arp_inv w" and port: "arp_port dev iface w" and d: "6 \<le> length (dev_addr d)"
  defines "w' \<equiv> arp_input (store_arp_ether (arp_request_msg d i (unicast (iface_heap w iface))) @ pad) dev w"
  shows "arp_resolve iface (unicast i) ha w' = (ARP_RESOLVE_FOUND, take 6 (dev_addr d) @ drop 6 ha, w')"
proof -
  let ?m = "arp_request_msg d i (unicast (iface_heap w iface))"
  note acc = msg_accepted(1) [OF d, of i "unicast (iface_heap w iface)" pad]
  note l = load_store_arp_ether [OF msg_wf(1) [OF d, of i "unicast (iface_heap w iface)"], of pad]
  have iface: "net_device_get_iface dev NET_IFACE_FAMILY_IP w = Some iface"
    using port by (simp add: arp_port_def)
  have us: "load32 (arp_tpa (load_arp_ether (store_arp_ether ?m @ pad))) 0 = unicast (iface_heap w iface)"
    by (simp add: l msg_fields)
  obtain k where k: "arp_map (caches w') = arp_learn k (unicast i) (take 6 (dev_addr d)) w"
    using arp_input_learns [OF acc inv iface us] unfolding w'_def by (simp add: l msg_fields) metis
  have w': "arp_inv w'" "arp_only w w'"
    unfolding w'_def using arp_input_inv [OF inv] by simp_all
  then have "arp_port dev iface w'" using port by (simp add: arp_port_only)
  then show ?thesis
    by (intro arp_learn_resolves [OF w'(1) k]) (simp_all add: arp_port_def)
qed

lemma arp_reply_received:
  fixes i :: ip_iface and pad :: "u8 list"
  assumes inv: "arp_inv w" and port: "arp_port dev iface w" and d: "6 \<le> length (dev_addr d)"
    and tha: "6 \<le> length tha"
  defines "w' \<equiv> arp_input (store_arp_ether (arp_reply_msg d i tha (unicast (iface_heap w iface))) @ pad) dev w"
  shows "arp_resolve iface (unicast i) ha w' = (ARP_RESOLVE_FOUND, take 6 (dev_addr d) @ drop 6 ha, w')"
proof -
  let ?m = "arp_reply_msg d i tha (unicast (iface_heap w iface))"
  note acc = msg_accepted(2) [OF d tha, of i "unicast (iface_heap w iface)" pad]
  note l = load_store_arp_ether [OF msg_wf(2) [OF d tha, of i "unicast (iface_heap w iface)"], of pad]
  have iface: "net_device_get_iface dev NET_IFACE_FAMILY_IP w = Some iface"
    using port by (simp add: arp_port_def)
  have us: "load32 (arp_tpa (load_arp_ether (store_arp_ether ?m @ pad))) 0 = unicast (iface_heap w iface)"
    by (simp add: l msg_fields)
  obtain k where k: "arp_map (caches w') = arp_learn k (unicast i) (take 6 (dev_addr d)) w"
    using arp_input_learns [OF acc inv iface us] unfolding w'_def by (simp add: l msg_fields) metis
  have w': "arp_inv w'" "arp_only w w'"
    unfolding w'_def using arp_input_inv [OF inv] by simp_all
  then have "arp_port dev iface w'" using port by (simp add: arp_port_only)
  then show ?thesis
    by (intro arp_learn_resolves [OF w'(1) k]) (simp_all add: arp_port_def)
qed

definition arp_boot :: "'d \<Rightarrow> 'd arp_state" where
  "arp_boot s = net_state.extend (net_boot s)
     \<lparr>caches = replicate ARP_CACHE_SIZE \<lparr>ac_state = ARP_FREE, ac_pa = 0,
        ac_ha = replicate 6 0, ac_timestamp = timerclear\<rparr>\<rparr>"

lemma arp_boot_inv: "arp_inv (arp_boot s)"
  by (simp add: arp_inv_def table_ok_def arp_boot_def net_state.defs)

text \<open>A host with one Ethernet device and one interface.\<close>

definition host :: "u8 list \<Rightarrow> u32 \<Rightarrow> unit arp_state" where
  "host mac ip = (arp_boot ())\<lparr>
     dev_heap := (\<lambda>_. zero_device\<lparr>ifaces := [0], dev_type := NET_DEVICE_TYPE_ETHERNET, dev_addr := mac\<rparr>),
     iface_heap := (\<lambda>_. \<lparr>if_dev = 0, family = NET_IFACE_FAMILY_IP, unicast = ip,
                         netmask = 0x00ffffff, broadcast = ip OR 0xff000000\<rparr>)\<rparr>"

lemma host_ready:
  "arp_inv (host mac ip)" "6 \<le> length mac \<Longrightarrow> arp_port 0 0 (host mac ip)"
  "arp_map (caches (host mac ip)) pa = None" "unicast (iface_heap (host mac ip) i) = ip"
  by (simp_all add: host_def arp_boot_def net_state.defs arp_inv_def table_ok_def arp_port_def
      net_device_get_iface_def zero_device_def arp_map_def arp_cache_select_def find_idx_None_iff)

section \<open>Claims\<close>

text \<open>
  C3: in every operation the cache keeps 32 entries of which those in use have different
  protocol addresses, and nothing of the state but the cache and the driver changes.
\<close>

theorem arp_cache_consistent:
  assumes "arp_inv w"
  shows "arp_inv (arp_input data dev w) \<and> arp_only w (arp_input data dev w) \<and>
         arp_inv (snd (snd (arp_resolve iface pa ha w))) \<and>
         arp_only w (snd (snd (arp_resolve iface pa ha w))) \<and>
         arp_inv (arp_timer w) \<and> arp_only w (arp_timer w)"
  using arp_input_inv [OF assms] arp_resolve_inv [OF assms] arp_timer_map(1) [OF assms] arp_timer_only by blast

text \<open>A reply fills the empty cache of a host; the operations then work on the filled cache.\<close>

theorem arp_cache_consistent_witness:
  "let A = host [1, 2, 3, 4, 5, 6] 0x0100000a; B = host [6, 5, 4, 3, 2, 1] 0x0200000a;
       w = arp_input (store_arp_ether (arp_reply_msg (dev_heap B 0) (iface_heap B 0) [1, 2, 3, 4, 5, 6] 0x0100000a)) 0 A
   in arp_inv w \<and> arp_only A w \<and> arp_resolve 0 0x0200000a [] w = (ARP_RESOLVE_FOUND, [6, 5, 4, 3, 2, 1], w) \<and>
      arp_inv (arp_timer w) \<and> arp_only w (arp_timer w) \<and>
      arp_inv (snd (snd (arp_resolve 0 0x0300000a [] w))) \<and> arp_only w (snd (snd (arp_resolve 0 0x0300000a [] w)))"
proof -
  let ?A = "host [1, 2, 3, 4, 5, 6] 0x0100000a" and ?B = "host [6, 5, 4, 3, 2, 1] 0x0200000a"
  let ?data = "store_arp_ether (arp_reply_msg (dev_heap ?B 0) (iface_heap ?B 0) [1, 2, 3, 4, 5, 6] 0x0100000a)"
  have port: "arp_port 0 0 ?A" by (rule host_ready) simp
  have addr: "dev_addr (dev_heap ?B 0) = [6, 5, 4, 3, 2, 1]" by (simp add: host_def)
  have "arp_resolve 0 0x0200000a [] (arp_input ?data 0 ?A) = (ARP_RESOLVE_FOUND, [6, 5, 4, 3, 2, 1], arp_input ?data 0 ?A)"
    using arp_reply_received [OF host_ready(1) port, of "dev_heap ?B 0" "[1, 2, 3, 4, 5, 6]" "iface_heap ?B 0" "[]" "[]"]
    by (simp add: addr host_ready(4))
  moreover note first = arp_cache_consistent [OF host_ready(1), of ?data 0 "[1, 2, 3, 4, 5, 6]" "0x0100000a" 0 "0x0300000a" "[]"]
  moreover have "arp_inv (arp_input ?data 0 ?A)" using first by blast
  note arp_cache_consistent [OF this, of "[]" 0 0 "0x0300000a" "[]"]
  ultimately show ?thesis unfolding Let_def by blast
qed

text \<open>
  Address resolution between two hosts. Host A does not know the address of B: its
  \<^verbatim>\<open>arp_resolve\<close> broadcasts a request and reports INCOMPLETE. When the request reaches B, B
  knows A's hardware address and sends a reply to it; when the reply reaches A, A resolves
  B's address. Padding behind the packets does not matter.
\<close>

lemma arp_exchange:
  fixes wA :: "('d, 'm) arp_state_scheme" and wB :: "('e, 'n) arp_state_scheme"
  assumes A: "arp_inv wA" "arp_port da a wA" and B: "arp_inv wB" "arp_port db b wB"
    and unknown: "arp_map (caches wA) (unicast (iface_heap wB b)) = None"
  defines "hA \<equiv> take 6 (dev_addr (dev_heap wA da))" and "hB \<equiv> take 6 (dev_addr (dev_heap wB db))"
    and "uA \<equiv> unicast (iface_heap wA a)" and "uB \<equiv> unicast (iface_heap wB b)"
  defines "req \<equiv> store_arp_ether (arp_request_msg (dev_heap wA da) (iface_heap wA a) uB)"
    and "rep \<equiv> store_arp_ether (arp_reply_msg (dev_heap wB db) (iface_heap wB b) hA uA)"
  shows "\<exists>wA1 wB1.
    arp_resolve a uB ha wA =
      (ARP_RESOLVE_INCOMPLETE, ha,
       snd (net_device_output da ETHER_TYPE_ARP req (dev_broadcast (dev_heap wA da)) wA1)) \<and>
    arp_inv wA1 \<and> arp_only wA wA1 \<and>
    arp_input (req @ pad) db wB = snd (net_device_output db ETHER_TYPE_ARP rep hA wB1) \<and>
    arp_resolve b uA ha wB1 = (ARP_RESOLVE_FOUND, hA @ drop 6 ha, wB1) \<and>
    (\<forall>wA2. arp_inv wA2 \<longrightarrow> arp_only wA1 wA2 \<longrightarrow>
       arp_resolve a uB ha (arp_input (rep @ pad) da wA2) =
         (ARP_RESOLVE_FOUND, hB @ drop 6 ha, arp_input (rep @ pad) da wA2))"
proof -
  have dA: "6 \<le> length (dev_addr (dev_heap wA da))" and dB: "6 \<le> length (dev_addr (dev_heap wB db))"
    using A(2) B(2) by (simp_all add: arp_port_def)
  then have hA: "6 \<le> length hA" by (simp add: hA_def)
  have if_a: "if_dev (iface_heap wA a) = da"
    "dev_type (dev_heap wA (if_dev (iface_heap wA a))) = NET_DEVICE_TYPE_ETHERNET"
    "family (iface_heap wA a) = NET_IFACE_FAMILY_IP"
    using A(2) by (simp_all add: arp_port_def)
  obtain wA1 where wA1: "arp_resolve a uB ha wA = (ARP_RESOLVE_INCOMPLETE, ha, snd (arp_request a uB wA1))"
    "arp_inv wA1" "arp_only wA wA1"
    using arp_resolve_unknown [OF A(1) if_a(2,3) unknown, of ha] arp_only_caches unfolding uB_def by metis
  have send: "snd (arp_request a uB wA1) =
      snd (net_device_output da ETHER_TYPE_ARP req (dev_broadcast (dev_heap wA da)) wA1)"
    by (simp add: arp_request_def Let_def arp_onlyD [OF wA1(3)] if_a req_def)
  obtain wB1 where wB1: "arp_resolve b uA ha wB1 = (ARP_RESOLVE_FOUND, hA @ drop 6 ha, wB1)"
    "arp_input (req @ pad) db wB = snd (net_device_output db ETHER_TYPE_ARP rep hA wB1)"
    using arp_request_received [OF B dA, of "iface_heap wA a" ha pad]
    unfolding uA_def hA_def rep_def req_def uB_def by metis
  have "arp_resolve a uB ha (arp_input (rep @ pad) da wA2) =
          (ARP_RESOLVE_FOUND, hB @ drop 6 ha, arp_input (rep @ pad) da wA2)"
    if "arp_inv wA2" "arp_only wA1 wA2" for wA2
  proof -
    have only: "arp_only wA wA2" using arp_only_trans [OF wA1(3) that(2)] .
    have "arp_port da a wA2" using A(2) only by (simp add: arp_port_only)
    from arp_reply_received [OF that(1) this dB hA, of "iface_heap wB b" ha pad]
    show ?thesis by (simp add: uA_def uB_def rep_def hB_def arp_onlyD [OF only])
  qed
  with wA1 send wB1 show ?thesis by metis
qed

lemma arp_exchange_witness:
  "\<exists>w1. arp_resolve 0 0x0200000a [] (host [1, 2, 3, 4, 5, 6] 0x0100000a) = (ARP_RESOLVE_INCOMPLETE, [], w1)"
  using arp_exchange [OF host_ready(1,2) host_ready(1,2), of "[1, 2, 3, 4, 5, 6]" "[6, 5, 4, 3, 2, 1]"
      "0x0100000a" "0x0200000a" "[]" "[]"]
  by (auto simp: host_ready)

text \<open>
  A well-formed message that is not for the receiving interface never adds an entry to the
  cache and is not answered: it refreshes what the cache knows of its sender at most.
\<close>

lemma arp_foreign_message:
  assumes "arp_accepts data" and "arp_inv w"
    and "\<And>iface. net_device_get_iface dev NET_IFACE_FAMILY_IP w = Some iface \<Longrightarrow>
           load32 (arp_tpa (load_arp_ether data)) 0 \<noteq> unicast (iface_heap w iface)"
  shows "dom (arp_map (caches (arp_input data dev w))) = dom (arp_map (caches w)) \<and>
         drv (arp_input data dev w) = drv w"
  using assms by (rule arp_input_not_for_us)

lemma arp_foreign_message_witness:
  "arp_map (caches (arp_input (store_arp_ether
      (arp_request_msg (zero_device\<lparr>dev_addr := [1, 2, 3, 4, 5, 6]\<rparr>)
        \<lparr>if_dev = 0, family = 2, unicast = 5, netmask = 0, broadcast = 0\<rparr> 9)) 0 (host [7] 3))) = Map.empty"
proof -
  let ?d = "zero_device\<lparr>dev_addr := [1, 2, 3, 4, 5, 6]\<rparr>"
  let ?i = "\<lparr>if_dev = 0, family = 2, unicast = 5, netmask = 0, broadcast = 0\<rparr> :: ip_iface"
  let ?data = "store_arp_ether (arp_request_msg ?d ?i 9)"
  have d: "6 \<le> length (dev_addr ?d)" by simp
  have acc: "arp_accepts ?data" using msg_accepted(1) [OF d, of ?i 9 "[]"] by simp
  have l: "load_arp_ether ?data = arp_request_msg ?d ?i 9"
    using load_store_arp_ether [OF msg_wf(1) [OF d, of ?i 9], of "[]"] by simp
  have "dom (arp_map (caches (arp_input ?data 0 (host [7] 3)))) = dom (arp_map (caches (host [7] 3)))"
    using arp_foreign_message [OF acc host_ready(1), of 0 "[7]" 3] unfolding l msg_fields host_ready
    by (simp del: One_nat_def)
  moreover have "dom (arp_map (caches (host [7] 3))) = {}" by (auto simp: host_ready(3))
  ultimately show ?thesis by simp
qed

text \<open>
  The timer forgets exactly the entries that are not static and more than 30 seconds old,
  and keeps every other as it is.
\<close>

lemma arp_ageing:
  assumes "arp_inv w"
  shows "arp_map (caches (arp_timer w)) pa =
    (case arp_map (caches w) pa of
       None \<Rightarrow> None
     | Some e \<Rightarrow>
         if ac_state e \<noteq> ARP_STATIC \<and>
            30 < tv_sec (timersub (gettimeofday w) (ac_timestamp e)) then None else Some e)"
proof -
  have "arp_map (caches w) pa = Some e \<Longrightarrow> ac_state e \<noteq> ARP_FREE" for e
    using assms by (auto simp: arp_inv_def arp_map_Some_iff)
  then show ?thesis
    using arp_timer_map(2) [OF assms, of pa]
    by (auto simp: arp_expired_def ARP_CACHE_TIMEOUT_def split: option.splits)
qed

lemma arp_ageing_witness: "arp_map (caches (arp_timer (host [1] 2))) 5 = None"
  using arp_ageing [OF host_ready(1), of "[1]" 2 5] by (simp add: host_ready)

end
