(* ===== verification/Ip.thy ===== *)
theory Ip
  imports Arp
begin

text \<open>
  \<^verbatim>\<open>kernel/network/ip.c\<close>: addresses and their text form, interfaces, the routing table,
  reception with the dispatch to the upper protocols, and transmission.
\<close>

section \<open>Addresses\<close>

text \<open>An \<^verbatim>\<open>ip_addr_t\<close> holds the address in network byte order.\<close>

definition IP_ADDR_ANY :: u32 where "IP_ADDR_ANY = 0"
definition IP_ADDR_BROADCAST :: u32 where "IP_ADDR_BROADCAST = 0xffffffff"
definition IP_ADDR_STR_LEN :: nat where "IP_ADDR_STR_LEN = 16"

text \<open>
  The loop of \<^verbatim>\<open>ip_addr_pton\<close> at round \<open>idx\<close>, with \<open>rounds\<close> rounds left; \<open>n\<close> are the four
  bytes at the destination.
\<close>

fun ip_pton_loop :: "nat \<Rightarrow> nat \<Rightarrow> string \<Rightarrow> u8 list \<Rightarrow> int \<times> u8 list" where
  "ip_pton_loop 0 idx sp n = (0, n)"
| "ip_pton_loop (Suc rounds) idx sp n =
     (let (ret, ep) = strtol 10 sp
      in if ret < 0 \<or> ret > 255 \<or> ep = sp then (-1, n)
         else if (idx = 3 \<and> c_deref ep \<noteq> CHR 0x00) \<or> (idx \<noteq> 3 \<and> c_deref ep \<noteq> CHR ''.'') then (-1, n)
         else ip_pton_loop rounds (Suc idx) (tl ep) (n[idx := of_int ret]))"

definition ip_addr_pton :: "string \<Rightarrow> u32 \<Rightarrow> int \<times> u32" where
  "ip_addr_pton p n = (let (r, bs) = ip_pton_loop 4 0 p (store32 n) in (r, load32 bs 0))"

definition dec8 :: "u8 \<Rightarrow> string" where
  "dec8 b = dec_of_nat (unat b)"

definition ip_addr_ntop :: "u32 \<Rightarrow> nat \<Rightarrow> string" where
  "ip_addr_ntop n sz =
     (let u8 = store32 n
      in snprintf sz (dec8 (u8 ! 0) @ ''.'' @ dec8 (u8 ! 1) @ ''.'' @ dec8 (u8 ! 2) @ ''.'' @ dec8 (u8 ! 3)))"

section \<open>Data\<close>

definition IP_VERSION_IPV4 :: u8 where "IP_VERSION_IPV4 = 4"
definition IP_HDR_SIZE_MIN :: nat where "IP_HDR_SIZE_MIN = 20"
definition IP_TOTAL_SIZE_MAX :: nat where "IP_TOTAL_SIZE_MAX = 4096"
definition IP_PAYLOAD_SIZE_MAX :: nat where "IP_PAYLOAD_SIZE_MAX = IP_TOTAL_SIZE_MAX - IP_HDR_SIZE_MIN"
definition IP_PROTOCOL_ICMP :: u8 where "IP_PROTOCOL_ICMP = 1"
definition IP_PROTOCOL_TCP :: u8 where "IP_PROTOCOL_TCP = 6"
definition IP_PROTOCOL_UDP :: u8 where "IP_PROTOCOL_UDP = 17"

record ip_hdr =
  ip_vhl :: u8
  ip_tos :: u8
  ip_total :: u16
  ip_hid :: u16
  ip_offset :: u16
  ip_ttl :: u8
  ip_proto :: u8
  ip_sum :: u16
  ip_src :: u32
  ip_dst :: u32

definition store_ip_hdr :: "ip_hdr \<Rightarrow> u8 list" where
  "store_ip_hdr h =
     [ip_vhl h, ip_tos h] @ store16 (ip_total h) @ store16 (ip_hid h) @ store16 (ip_offset h) @
     [ip_ttl h, ip_proto h] @ store16 (ip_sum h) @ store32 (ip_src h) @ store32 (ip_dst h)"

definition load_ip_hdr :: "u8 list \<Rightarrow> ip_hdr" where
  "load_ip_hdr bs =
     \<lparr>ip_vhl = bs ! 0, ip_tos = bs ! 1, ip_total = load16 bs 2, ip_hid = load16 bs 4,
      ip_offset = load16 bs 6, ip_ttl = bs ! 8, ip_proto = bs ! 9, ip_sum = load16 bs 10,
      ip_src = load32 bs 12, ip_dst = load32 bs 16\<rparr>"

text \<open>The handlers that are registered with \<^verbatim>\<open>ip_protocol_register\<close>.\<close>

datatype ip_handler = Icmp_input | Udp_input | Tcp_input

record ip_protocol =
  ipp_type :: u8
  ipp_handler :: ip_handler

record ip_route =
  rt_network :: u32
  rt_netmask :: u32
  rt_nexthop :: u32
  rt_iface :: nat

record 'd ip_state = "'d arp_state" +
  ip_ifaces :: "nat list"
  ip_protocols :: "ip_protocol list"
  routes :: "ip_route list"
  ip_id :: u16

section \<open>Routes\<close>

definition ip_route_add ::
  "u32 \<Rightarrow> u32 \<Rightarrow> u32 \<Rightarrow> nat \<Rightarrow> ('d, 'm) ip_state_scheme \<Rightarrow> bool \<times> ('d, 'm) ip_state_scheme" where
  "ip_route_add network nmask nexthop iface w =
     (let (ok, w1) = calloc w
      in if \<not> ok then (False, w1)
         else (True, w1\<lparr>routes := \<lparr>rt_network = network, rt_netmask = nmask, rt_nexthop = nexthop,
                                   rt_iface = iface\<rparr> # routes w1\<rparr>))"

fun route_loop :: "u32 \<Rightarrow> ip_route option \<Rightarrow> ip_route list \<Rightarrow> ip_route option" where
  "route_loop dst candidate [] = candidate"
| "route_loop dst candidate (route # rs) =
     (if dst AND rt_netmask route = rt_network route \<and>
         (case candidate of None \<Rightarrow> True
          | Some c \<Rightarrow> ntoh32 (rt_netmask c) < ntoh32 (rt_netmask route))
      then route_loop dst (Some route) rs
      else route_loop dst candidate rs)"

definition ip_route_lookup :: "u32 \<Rightarrow> ip_route list \<Rightarrow> ip_route option" where
  "ip_route_lookup dst rs = route_loop dst None rs"

definition ip_route_set_default_gateway ::
  "nat \<Rightarrow> string \<Rightarrow> ('d, 'm) ip_state_scheme \<Rightarrow> int \<times> ('d, 'm) ip_state_scheme" where
  "ip_route_set_default_gateway iface gateway w =
     (let (r, gw) = ip_addr_pton gateway 0
      in if r = -1 then (-1, w)
         else let (ok, w1) = ip_route_add IP_ADDR_ANY IP_ADDR_ANY gw iface w
              in if ok then (0, w1) else (-1, w1))"

definition ip_route_get_iface :: "u32 \<Rightarrow> ('d, 'm) ip_state_scheme \<Rightarrow> nat option" where
  "ip_route_get_iface dst w = map_option rt_iface (ip_route_lookup dst (routes w))"

section \<open>Interfaces\<close>

text \<open>
  On a failure the memory is freed again, so the next allocation may return the same
  address.
\<close>

definition ip_iface_alloc ::
  "string \<Rightarrow> string \<Rightarrow> ('d, 'm) ip_state_scheme \<Rightarrow> nat option \<times> ('d, 'm) ip_state_scheme" where
  "ip_iface_alloc uni nmask w =
     (let (ok, w1) = calloc w
      in if \<not> ok then (None, w1)
         else let (r, u) = ip_addr_pton uni 0
              in if r = -1 then (None, w1)
                 else let (r2, m) = ip_addr_pton nmask 0
                      in if r2 = -1 then (None, w1)
                         else (Some (iface_brk w1),
                               w1\<lparr>iface_heap := (iface_heap w1)(iface_brk w1 :=
                                     \<lparr>if_dev = 0, family = NET_IFACE_FAMILY_IP, unicast = u, netmask = m,
                                      broadcast = (u AND m) OR NOT m\<rparr>),
                                  iface_brk := Suc (iface_brk w1)\<rparr>))"

definition ip_iface_register ::
  "nat \<Rightarrow> nat \<Rightarrow> ('d, 'm) ip_state_scheme \<Rightarrow> int \<times> ('d, 'm) ip_state_scheme" where
  "ip_iface_register dev iface w =
     (let (r, w1) = net_device_add_iface dev iface w
      in if r = -1 then (-1, w1)
         else let i = iface_heap w1 iface;
                  (ok, w2) = ip_route_add (unicast i AND netmask i) (netmask i) IP_ADDR_ANY iface w1
              in if \<not> ok then (-1, w2)
                 else (0, w2\<lparr>ip_ifaces := iface # ip_ifaces w2\<rparr>))"

definition ip_iface_reconfigure ::
  "nat \<Rightarrow> u32 \<Rightarrow> u32 \<Rightarrow> ('d, 'm) ip_state_scheme \<Rightarrow> int \<times> ('d, 'm) ip_state_scheme" where
  "ip_iface_reconfigure iface uni nmask w =
     (0, w\<lparr>iface_heap := (iface_heap w)(iface := (iface_heap w iface)
             \<lparr>unicast := uni, netmask := nmask, broadcast := (uni AND nmask) OR NOT nmask\<rparr>),
           routes := map (\<lambda>r. if rt_iface r = iface
                              then r\<lparr>rt_network := uni AND nmask, rt_netmask := nmask\<rparr> else r) (routes w)\<rparr>)"

definition ip_iface_select :: "u32 \<Rightarrow> ('d, 'm) ip_state_scheme \<Rightarrow> nat option" where
  "ip_iface_select addr w = find (\<lambda>i. unicast (iface_heap w i) = addr) (ip_ifaces w)"

section \<open>Input\<close>

text \<open>
  \<open>call\<close> runs the handler a function pointer stands for. A handler gets the memory from its
  data pointer on and a length; the length is what \<^verbatim>\<open>total - hlen\<close> is as a \<^verbatim>\<open>size_t\<close>, which
  may be more than the memory there is.
\<close>

definition ip_input ::
  "(ip_handler \<Rightarrow> u8 list \<Rightarrow> nat \<Rightarrow> u32 \<Rightarrow> u32 \<Rightarrow> nat \<Rightarrow>
      ('d, 'm) ip_state_scheme \<Rightarrow> ('d, 'm) ip_state_scheme) \<Rightarrow>
     u8 list \<Rightarrow> nat \<Rightarrow> ('d, 'm) ip_state_scheme \<Rightarrow> ('d, 'm) ip_state_scheme" where
  "ip_input call data dev w =
     (if length data < IP_HDR_SIZE_MIN then w
      else
        let hdr = load_ip_hdr data; hlen = unat (push_bit 2 (ip_vhl hdr AND 0x0f));
            total = unat (ntoh16 (ip_total hdr)); offset = ntoh16 (ip_offset hdr)
        in if drop_bit 4 (ip_vhl hdr) \<noteq> IP_VERSION_IPV4 then w
           else if length data < hlen then w
           else if length data < total then w
           else case cksum16 data (of_nat hlen) 0 of
             None \<Rightarrow> fault w
           | Some sm \<Rightarrow>
               if sm \<noteq> 0 then w
               else if offset AND 0x2000 \<noteq> 0 \<or> offset AND 0x1fff \<noteq> 0 then w
               else case net_device_get_iface dev NET_IFACE_FAMILY_IP w of
                 None \<Rightarrow> w
               | Some iface \<Rightarrow>
                   let i = iface_heap w iface
                   in if ip_dst hdr \<noteq> unicast i \<and> ip_dst hdr \<noteq> broadcast i \<and>
                         ip_dst hdr \<noteq> IP_ADDR_BROADCAST then w
                      else case find (\<lambda>p. ipp_type p = ip_proto hdr) (ip_protocols w) of
                        None \<Rightarrow> w
                      | Some p \<Rightarrow> call (ipp_handler p) (drop hlen data) (size_sub total hlen)
                                    (ip_src hdr) (ip_dst hdr) iface w)"

section \<open>Output\<close>

definition ip_output_device ::
  "nat \<Rightarrow> u8 list \<Rightarrow> u32 \<Rightarrow> ('d, 'm) ip_state_scheme \<Rightarrow> int \<times> ('d, 'm) ip_state_scheme" where
  "ip_output_device iface data dst w =
     (let i = iface_heap w iface; dev = dev_heap w (if_dev i); hwaddr = replicate NET_DEVICE_ADDR_LEN 0
      in if dev_flags dev AND NET_DEVICE_FLAG_NEED_ARP \<noteq> 0 then
           if dst = broadcast i \<or> dst = IP_ADDR_BROADCAST then
             if NET_DEVICE_ADDR_LEN < unat (alen dev) then (-1, fault w)
             else net_device_output (if_dev i) NET_PROTOCOL_TYPE_IP data
                    (take (unat (alen dev)) (dev_broadcast dev) @ drop (unat (alen dev)) hwaddr) w
           else
             let (ret, hwaddr1, w1) = arp_resolve iface dst hwaddr w
             in if ret \<noteq> ARP_RESOLVE_FOUND then (ret, w1)
                else net_device_output (if_dev i) NET_PROTOCOL_TYPE_IP data hwaddr1 w1
         else net_device_output (if_dev i) NET_PROTOCOL_TYPE_IP data hwaddr w)"

text \<open>The datagram, in a buffer of \<open>IP_TOTAL_SIZE_MAX\<close> bytes.\<close>

definition ip_output_core ::
  "nat \<Rightarrow> u8 \<Rightarrow> u8 list \<Rightarrow> u32 \<Rightarrow> u32 \<Rightarrow> u32 \<Rightarrow> u16 \<Rightarrow> u16 \<Rightarrow> ('d, 'm) ip_state_scheme \<Rightarrow>
     int \<times> ('d, 'm) ip_state_scheme" where
  "ip_output_core iface protocol data src dst nexthop ident offset w =
     (let hlen = IP_HDR_SIZE_MIN;
          total = (of_nat (hlen + length data) :: u16);
          hdr = \<lparr>ip_vhl = push_bit 4 IP_VERSION_IPV4 OR of_nat (hlen div 4), ip_tos = 0,
                 ip_total = hton16 total, ip_hid = hton16 ident, ip_offset = hton16 offset, ip_ttl = 0xff,
                 ip_proto = protocol, ip_sum = 0, ip_src = src, ip_dst = dst\<rparr>
      in case cksum16 (store_ip_hdr hdr) (of_nat hlen) 0 of
           None \<Rightarrow> (-1, fault w)
         | Some sm \<Rightarrow>
             if IP_TOTAL_SIZE_MAX < hlen + length data then (-1, fault w)
             else ip_output_device iface
                    (take (unat total) (store_ip_hdr (hdr\<lparr>ip_sum := sm\<rparr>) @ data)) nexthop w)"

definition ip_generate_id :: "('d, 'm) ip_state_scheme \<Rightarrow> u16 \<times> ('d, 'm) ip_state_scheme" where
  "ip_generate_id w = (ip_id w, w\<lparr>ip_id := ip_id w + 1\<rparr>)"

definition ip_output ::
  "u8 \<Rightarrow> u8 list \<Rightarrow> u32 \<Rightarrow> u32 \<Rightarrow> ('d, 'm) ip_state_scheme \<Rightarrow> int \<times> ('d, 'm) ip_state_scheme" where
  "ip_output protocol data src dst w =
     (if src = IP_ADDR_ANY \<and> dst = IP_ADDR_BROADCAST then (-1, w)
      else case ip_route_lookup dst (routes w) of
        None \<Rightarrow> (-1, w)
      | Some route \<Rightarrow>
          let iface = rt_iface route; i = iface_heap w iface
          in if src \<noteq> IP_ADDR_ANY \<and> src \<noteq> unicast i then (-1, w)
             else
               let nexthop = (if rt_nexthop route \<noteq> IP_ADDR_ANY then rt_nexthop route else dst)
               in if unat (mtu (dev_heap w (if_dev i))) < IP_HDR_SIZE_MIN + length data then (-1, w)
                  else
                    let (ident, w1) = ip_generate_id w;
                        (r, w2) = ip_output_core iface protocol data (unicast i) dst nexthop ident 0 w1
                    in if r = -1 then (-1, w2) else (int (length data), w2))"

section \<open>Registration\<close>

definition ip_protocol_register ::
  "u8 \<Rightarrow> ip_handler \<Rightarrow> ('d, 'm) ip_state_scheme \<Rightarrow> int \<times> ('d, 'm) ip_state_scheme" where
  "ip_protocol_register type handler w =
     (if \<exists>e \<in> set (ip_protocols w). ipp_type e = type then (-1, w)
      else let (ok, w1) = calloc w
           in if \<not> ok then (-1, w1)
              else (0, w1\<lparr>ip_protocols := \<lparr>ipp_type = type, ipp_handler = handler\<rparr> # ip_protocols w1\<rparr>))"

definition ip_init :: "('d, 'm) ip_state_scheme \<Rightarrow> int \<times> ('d, 'm) ip_state_scheme" where
  "ip_init w =
     (let (r, w1) = net_protocol_register NET_PROTOCOL_TYPE_IP Ip_input w
      in if r = -1 then (-1, w1) else (0, w1))"

lemmas ip_consts = IP_VERSION_IPV4_def IP_HDR_SIZE_MIN_def IP_TOTAL_SIZE_MAX_def IP_ADDR_ANY_def
  IP_ADDR_BROADCAST_def IP_PROTOCOL_ICMP_def IP_PROTOCOL_TCP_def IP_PROTOCOL_UDP_def

section \<open>Text form\<close>

lemma ip_pton_round:
  assumes "idx = 3 \<longrightarrow> rest = []" and "idx \<noteq> 3 \<longrightarrow> (\<exists>cs. rest = CHR ''.'' # cs)"
  shows "ip_pton_loop (Suc rounds) idx (dec8 b @ rest) n = ip_pton_loop rounds (Suc idx) (tl rest) (n[idx := b])"
proof -
  have b: "unat b < 256" by (rule unat_u8_bound)
  have "\<not> starts_digit 10 rest" using assms by (auto simp: digit_val_def)
  then have "strtol 10 (dec8 b @ rest) = (int (unat b), rest)"
    using strtol_dec_of_nat [of "unat b" rest] b by (simp add: dec8_def)
  moreover have "uint b \<le> 255" using uint_lt2p [of b] by simp
  ultimately show ?thesis using assms by (auto simp add: dec8_def c_deref_def Let_def)
qed

lemma length_dec8: "length (dec8 b) \<le> 3"
  unfolding dec8_def by (rule length_dec_of_nat_256 [OF unat_u8_bound])

lemma ip_addr_text: "ip_addr_pton (ip_addr_ntop n IP_ADDR_STR_LEN) m = (0, n)"
proof -
  obtain b0 b1 b2 b3 where b: "store32 n = [b0, b1, b2, b3]" by (simp add: store32_def)
  obtain m0 m1 m2 m3 where m: "store32 m = [m0, m1, m2, m3]" by (simp add: store32_def)
  let ?s = "dec8 b0 @ CHR ''.'' # dec8 b1 @ CHR ''.'' # dec8 b2 @ CHR ''.'' # dec8 b3 @ []"
  have "length ?s \<le> 15"
    using length_dec8 [of b0] length_dec8 [of b1] length_dec8 [of b2] length_dec8 [of b3] by simp
  then have s: "ip_addr_ntop n IP_ADDR_STR_LEN = ?s"
    by (simp add: ip_addr_ntop_def b snprintf_def IP_ADDR_STR_LEN_def)
  have four: "(4 :: nat) = Suc (Suc (Suc (Suc 0)))" by simp
  have "ip_pton_loop 4 0 ?s [m0, m1, m2, m3] = (0, [b0, b1, b2, b3])"
    unfolding four by (simp add: ip_pton_round del: ip_pton_loop.simps(2) append_Nil2)
  then show ?thesis by (simp add: ip_addr_pton_def s m b [symmetric] hdr_simps)
qed

section \<open>Longest prefix match\<close>

definition route_match :: "u32 \<Rightarrow> ip_route \<Rightarrow> bool" where
  "route_match dst r \<longleftrightarrow> dst AND rt_netmask r = rt_network r"

lemma route_loop_Some:
  "route_loop dst cand rs = Some r \<Longrightarrow>
     (cand = Some r \<or> (r \<in> set rs \<and> route_match dst r)) \<and>
     (\<forall>q \<in> set rs. route_match dst q \<longrightarrow> ntoh32 (rt_netmask q) \<le> ntoh32 (rt_netmask r)) \<and>
     (\<forall>c. cand = Some c \<longrightarrow> ntoh32 (rt_netmask c) \<le> ntoh32 (rt_netmask r))"
proof (induction rs arbitrary: cand)
  case Nil
  then show ?case by simp
next
  case (Cons q rs)
  show ?case
  proof (cases "route_match dst q \<and>
      (case cand of None \<Rightarrow> True | Some c \<Rightarrow> ntoh32 (rt_netmask c) < ntoh32 (rt_netmask q))")
    case True
    with Cons.prems have "route_loop dst (Some q) rs = Some r" by (simp add: route_match_def)
    from Cons.IH [OF this] True show ?thesis by (auto split: option.splits)
  next
    case False
    with Cons.prems have "route_loop dst cand rs = Some r" by (auto simp: route_match_def)
    from Cons.IH [OF this] False show ?thesis by (auto split: option.splits)
  qed
qed

lemma route_loop_None: "route_loop dst cand rs = None \<longleftrightarrow> cand = None \<and> (\<forall>q \<in> set rs. \<not> route_match dst q)"
  by (induction rs arbitrary: cand) (auto simp: route_match_def split: option.splits)

lemma ip_route_lookup_Some:
  "ip_route_lookup dst rs = Some r \<Longrightarrow>
     r \<in> set rs \<and> route_match dst r \<and>
     (\<forall>q \<in> set rs. route_match dst q \<longrightarrow> ntoh32 (rt_netmask q) \<le> ntoh32 (rt_netmask r))"
  unfolding ip_route_lookup_def by (drule route_loop_Some) simp

lemma ip_route_lookup_None: "ip_route_lookup dst rs = None \<longleftrightarrow> (\<forall>q \<in> set rs. \<not> route_match dst q)"
  by (simp add: ip_route_lookup_def route_loop_None)

section \<open>Datagrams\<close>

lemma length_store_ip_hdr [simp]: "length (store_ip_hdr h) = 20"
  by (simp add: store_ip_hdr_def)

lemma load_store_ip_hdr [hdr_simps]: "load_ip_hdr (store_ip_hdr h @ bs) = h"
proof -
  obtain t0 t1 where t: "store16 (ip_total h) = [t0, t1]" "ucast t0 OR push_bit 8 (ucast t1) = ip_total h"
    by (rule store16_bytes)
  obtain i0 i1 where i: "store16 (ip_hid h) = [i0, i1]" "ucast i0 OR push_bit 8 (ucast i1) = ip_hid h"
    by (rule store16_bytes)
  obtain o0 o1 where o: "store16 (ip_offset h) = [o0, o1]" "ucast o0 OR push_bit 8 (ucast o1) = ip_offset h"
    by (rule store16_bytes)
  obtain m0 m1 where m: "store16 (ip_sum h) = [m0, m1]" "ucast m0 OR push_bit 8 (ucast m1) = ip_sum h"
    by (rule store16_bytes)
  obtain s0 s1 s2 s3 where s: "store32 (ip_src h) = [s0, s1, s2, s3]"
    "ucast s0 OR push_bit 8 (ucast s1) OR push_bit 16 (ucast s2) OR push_bit 24 (ucast s3) = ip_src h"
    by (rule store32_bytes)
  obtain d0 d1 d2 d3 where d: "store32 (ip_dst h) = [d0, d1, d2, d3]"
    "ucast d0 OR push_bit 8 (ucast d1) OR push_bit 16 (ucast d2) OR push_bit 24 (ucast d3) = ip_dst h"
    by (rule store32_bytes)
  show ?thesis
    by (simp add: load_ip_hdr_def store_ip_hdr_def load16_def load32_def t i o m s d)
qed

text \<open>The header that \<^verbatim>\<open>ip_output_core\<close> builds, before and after the checksum is filled in.\<close>

definition ip_out_hdr :: "u8 \<Rightarrow> nat \<Rightarrow> u32 \<Rightarrow> u32 \<Rightarrow> u16 \<Rightarrow> u16 \<Rightarrow> ip_hdr" where
  "ip_out_hdr protocol len src dst ident offset =
     \<lparr>ip_vhl = 0x45, ip_tos = 0, ip_total = hton16 (of_nat (20 + len)), ip_hid = hton16 ident,
      ip_offset = hton16 offset, ip_ttl = 0xff, ip_proto = protocol, ip_sum = 0, ip_src = src, ip_dst = dst\<rparr>"

definition ip_datagram :: "u8 \<Rightarrow> u8 list \<Rightarrow> u32 \<Rightarrow> u32 \<Rightarrow> u16 \<Rightarrow> u8 list" where
  "ip_datagram protocol data src dst ident =
     (let h = ip_out_hdr protocol (length data) src dst ident 0
      in store_ip_hdr (h\<lparr>ip_sum := the (cksum16 (store_ip_hdr h) 20 0)\<rparr>) @ data)"

lemma length_ip_datagram [simp]: "length (ip_datagram protocol data src dst ident) = 20 + length data"
  by (simp add: ip_datagram_def Let_def)

lemma ip_hdr_cksum:
  assumes "ip_sum h = 0"
  obtains c where "cksum16 (store_ip_hdr h) 20 0 = Some c"
    "cksum16 (store_ip_hdr (h\<lparr>ip_sum := c\<rparr>) @ rest) 20 0 = Some 0"
proof -
  obtain c where c: "cksum16 (store_ip_hdr h) 20 0 = Some c" by (simp add: cksum16_def)
  let ?pre = "[ip_vhl h, ip_tos h] @ store16 (ip_total h) @ store16 (ip_hid h) @ store16 (ip_offset h) @
     [ip_ttl h, ip_proto h]"
  let ?post = "store32 (ip_src h) @ store32 (ip_dst h)"
  have s: "store_ip_hdr (h\<lparr>ip_sum := v\<rparr>) = ?pre @ store16 v @ ?post" for v
    by (simp add: store_ip_hdr_def)
  have "h\<lparr>ip_sum := 0\<rparr> = h" using assms by simp
  then have "cksum16 (?pre @ store16 0 @ ?post @ []) 20 0 = Some c" using c s [of 0] by simp
  then have "cksum16 (?pre @ store16 c @ ?post @ rest) 20 0 = Some 0"
    by (rule cksum16_fill [rotated 4]) simp_all
  then have "cksum16 (store_ip_hdr (h\<lparr>ip_sum := c\<rparr>) @ rest) 20 0 = Some 0"
    by (simp add: s)
  with c that show thesis by blast
qed

lemma ip_output_core_datagram:
  assumes "20 + length data \<le> 4096"
  shows "ip_output_core iface protocol data src dst nexthop ident 0 w =
           ip_output_device iface (ip_datagram protocol data src dst ident) nexthop w"
proof -
  let ?h = "ip_out_hdr protocol (length data) src dst ident 0"
  obtain c where c: "cksum16 (store_ip_hdr ?h) 20 0 = Some c" by (simp add: cksum16_def)
  have t: "unat (of_nat (20 + length data) :: u16) = 20 + length data"
    using assms by (intro unat_of_nat_u16) simp
  have "push_bit 4 IP_VERSION_IPV4 OR of_nat (20 div 4) = 0x45" by (simp add: IP_VERSION_IPV4_def)
  then have h: "\<lparr>ip_vhl = push_bit 4 IP_VERSION_IPV4 OR of_nat (20 div 4), ip_tos = 0,
      ip_total = hton16 (of_nat (20 + length data)), ip_hid = hton16 ident, ip_offset = hton16 0,
      ip_ttl = 0xff, ip_proto = protocol, ip_sum = 0, ip_src = src, ip_dst = dst\<rparr> = ?h"
    by (simp only: ip_out_hdr_def)
  show ?thesis
    unfolding ip_output_core_def Let_def IP_HDR_SIZE_MIN_def h t
    using c assms by (simp add: ip_datagram_def IP_TOTAL_SIZE_MAX_def)
qed

section \<open>Reception\<close>

text \<open>The datagrams that the filter of \<^verbatim>\<open>ip_input\<close> lets through, for an interface.\<close>

definition ip_for_us :: "ip_iface \<Rightarrow> u32 \<Rightarrow> bool" where
  "ip_for_us i dst \<longleftrightarrow> dst = unicast i \<or> dst = broadcast i \<or> dst = IP_ADDR_BROADCAST"

definition ip_dispatch :: "u8 \<Rightarrow> ('d, 'm) ip_state_scheme \<Rightarrow> ip_handler option" where
  "ip_dispatch type w = map_option ipp_handler (find (\<lambda>p. ipp_type p = type) (ip_protocols w))"

lemma ip_input_datagram:
  assumes len: "length data \<le> 4076"
    and iface: "net_device_get_iface dev NET_IFACE_FAMILY_IP w = Some iface"
  shows "ip_input call (ip_datagram protocol data src dst ident @ pad) dev w =
    (if ip_for_us (iface_heap w iface) dst then
       (case ip_dispatch protocol w of None \<Rightarrow> w
        | Some h \<Rightarrow> call h (data @ pad) (length data) src dst iface w)
     else w)"
proof -
  let ?h = "ip_out_hdr protocol (length data) src dst ident 0"
  obtain c where c: "cksum16 (store_ip_hdr ?h) 20 0 = Some c"
    "cksum16 (store_ip_hdr (?h\<lparr>ip_sum := c\<rparr>) @ data @ pad) 20 0 = Some 0"
    using ip_hdr_cksum [of ?h "data @ pad"] by (auto simp: ip_out_hdr_def)
  let ?h' = "?h\<lparr>ip_sum := c\<rparr>"
  have dg: "ip_datagram protocol data src dst ident @ pad = store_ip_hdr ?h' @ data @ pad"
    by (simp add: ip_datagram_def c(1))
  have vhl: "ip_vhl ?h' = 0x45" "ip_proto ?h' = protocol" "ip_src ?h' = src" "ip_dst ?h' = dst"
    "ntoh16 (ip_total ?h') = of_nat (20 + length data)" "ntoh16 (ip_offset ?h') = 0"
    by (simp_all add: ip_out_hdr_def ntoh16_hton16 del: hton16_0)
  have t: "unat (of_nat (20 + length data) :: u16) = 20 + length data"
    using len by (intro unat_of_nat_u16) simp
  have hl: "unat (push_bit 2 ((0x45 :: u8) AND 0x0f)) = 20" "drop_bit 4 (0x45 :: u8) = IP_VERSION_IPV4"
    by (simp_all add: IP_VERSION_IPV4_def)
  show ?thesis
    unfolding ip_input_def Let_def dg load_store_ip_hdr vhl hl t
    using iface c(2) by (auto simp: IP_HDR_SIZE_MIN_def ip_for_us_def ip_dispatch_def split: option.splits)
qed

text \<open>The checks on the header, and what they leave unchecked.\<close>

definition ip_hdr_len :: "u8 list \<Rightarrow> nat" where
  "ip_hdr_len data = unat (push_bit 2 (data ! 0 AND 0x0f))"

definition ip_total_len :: "u8 list \<Rightarrow> nat" where
  "ip_total_len data = unat (ntoh16 (load16 data 2))"

definition ip_accepts :: "u8 list \<Rightarrow> bool" where
  "ip_accepts data \<longleftrightarrow>
     20 \<le> length data \<and> drop_bit 4 (data ! 0) = 4 \<and> ip_hdr_len data \<le> length data \<and>
     ip_total_len data \<le> length data \<and> cksum16 data (of_nat (ip_hdr_len data)) 0 = Some 0 \<and>
     ntoh16 (load16 data 6) AND 0x2000 = 0 \<and> ntoh16 (load16 data 6) AND 0x1fff = 0"

lemma ip_hdr_len_bound: "ip_hdr_len data < 256"
  unfolding ip_hdr_len_def by (rule unat_u8_bound)

lemma ip_input_accepted:
  assumes acc: "ip_accepts data"
    and iface: "net_device_get_iface dev NET_IFACE_FAMILY_IP w = Some iface"
    and us: "ip_for_us (iface_heap w iface) (load32 data 16)"
    and h: "ip_dispatch (data ! 9) w = Some h"
  shows "ip_input call data dev w =
    call h (drop (ip_hdr_len data) data) (size_sub (ip_total_len data) (ip_hdr_len data))
      (load32 data 12) (load32 data 16) iface w"
proof -
  obtain p where p: "find (\<lambda>p. ipp_type p = data ! 9) (ip_protocols w) = Some p" "ipp_handler p = h"
    using h by (auto simp: ip_dispatch_def)
  have f: "ip_vhl (load_ip_hdr data) = data ! 0" "ip_total (load_ip_hdr data) = load16 data 2"
    "ip_offset (load_ip_hdr data) = load16 data 6" "ip_src (load_ip_hdr data) = load32 data 12"
    "ip_dst (load_ip_hdr data) = load32 data 16" "ip_proto (load_ip_hdr data) = data ! 9"
    by (simp_all add: load_ip_hdr_def)
  show ?thesis
    unfolding ip_input_def Let_def f ip_hdr_len_def [symmetric] ip_total_len_def [symmetric]
    using acc iface us p
    by (auto simp: ip_accepts_def IP_HDR_SIZE_MIN_def IP_VERSION_IPV4_def ip_for_us_def)
qed

lemma ip_input_rejected:
  assumes "\<not> ip_accepts data"
  shows "ip_input call data dev w = w"
proof -
  have f: "ip_vhl (load_ip_hdr data) = data ! 0" "ip_total (load_ip_hdr data) = load16 data 2"
    "ip_offset (load_ip_hdr data) = load16 data 6"
    by (simp_all add: load_ip_hdr_def)
  have n: "unat (of_nat (ip_hdr_len data) :: u16) = ip_hdr_len data"
    using ip_hdr_len_bound [of data] by (intro unat_of_nat_u16) simp
  have "\<exists>c. cksum16 data (of_nat (ip_hdr_len data)) 0 = Some c" if "ip_hdr_len data \<le> length data"
    using that by (simp add: cksum16_def n)
  with assms show ?thesis
    unfolding ip_input_def Let_def f ip_hdr_len_def [symmetric] ip_total_len_def [symmetric]
    by (auto simp: ip_accepts_def IP_HDR_SIZE_MIN_def IP_VERSION_IPV4_def)
qed

section \<open>Transmission\<close>

definition ip_only :: "('d, 'm) ip_state_scheme \<Rightarrow> ('d, 'm) ip_state_scheme \<Rightarrow> bool" where
  "ip_only w w' \<longleftrightarrow> w' = w\<lparr>drv := drv w', ub := ub w', caches := caches w', ip_id := ip_id w'\<rparr> \<and>
     (ub w \<longrightarrow> ub w')"

lemma ip_only_refl [simp]: "ip_only w w"
  by (simp add: ip_only_def)

lemma ip_only_trans: "ip_only w1 w2 \<Longrightarrow> ip_only w2 w3 \<Longrightarrow> ip_only w1 w3"
  unfolding ip_only_def by (cases w1; cases w2; cases w3) simp

lemma arp_ip_only: "arp_only w w' \<Longrightarrow> ip_only w w'"
  unfolding ip_only_def arp_only_def by (cases w; cases w') simp

lemma ip_only_fault [simp]: "ip_only w (fault w)"
  by (simp add: ip_only_def fault_def)

lemma ip_onlyD:
  assumes "ip_only w w'"
  shows "ip_state.more w' = ip_state.more w" "dev_heap w' = dev_heap w"
    "dev_ops w' = dev_ops w" "devices w' = devices w" "iface_heap w' = iface_heap w"
    "net_protocols w' = net_protocols w" "timers w' = timers w" "softirqs w' = softirqs w"
    "tick w' = tick w" "alloc_ok w' = alloc_ok w" "alloc_no w' = alloc_no w"
    "randoms w' = randoms w" "random_no w' = random_no w" "wakeups w' = wakeups w"
    "next_index w' = next_index w" "cur_task w' = cur_task w"
    "dev_brk w' = dev_brk w" "iface_brk w' = iface_brk w"
    "ip_ifaces w' = ip_ifaces w" "ip_protocols w' = ip_protocols w" "routes w' = routes w"
  using assms unfolding ip_only_def by (cases w; cases w'; simp)+

lemma arp_inv_frame: "arp_inv w \<Longrightarrow> caches w' = caches w \<Longrightarrow> arp_inv w'"
  by (simp add: arp_inv_def)

lemma net_output_ip: "ip_only w (snd (net_device_output dev type data dst w))"
  by (intro arp_ip_only driver_arp_only net_device_output_driver_only)

lemma net_output_arp_inv: "arp_inv (snd (net_device_output dev type data dst w)) = arp_inv w"
  by (rule arp_inv_driver_only [OF net_device_output_driver_only])

lemma ip_output_device_frame:
  assumes "arp_inv w"
  shows "ip_only w (snd (ip_output_device iface data dst w)) \<and>
         arp_inv (snd (ip_output_device iface data dst w))"
proof -
  obtain r h w1 where a: "arp_resolve iface dst (replicate NET_DEVICE_ADDR_LEN 0) w = (r, h, w1)"
    by (metis prod_cases3)
  then have "arp_inv w1" "arp_only w w1"
    using arp_resolve_inv [OF assms, of iface dst "replicate NET_DEVICE_ADDR_LEN 0"] by simp_all
  then have "ip_only w w1" "arp_inv w1" by (simp_all add: arp_ip_only)
  with assms show ?thesis
    using ip_only_trans [OF \<open>ip_only w w1\<close> net_output_ip]
    by (simp add: ip_output_device_def Let_def a net_output_ip net_output_arp_inv)
      (simp add: arp_inv_def fault_def)
qed

lemma ip_output_core_frame:
  assumes "arp_inv w"
  shows "ip_only w (snd (ip_output_core iface protocol data src dst nexthop ident offset w)) \<and>
         arp_inv (snd (ip_output_core iface protocol data src dst nexthop ident offset w))"
  using assms ip_output_device_frame [OF assms]
  by (auto simp: ip_output_core_def Let_def arp_inv_def fault_def ip_only_def split: option.splits)

lemma ip_generate_id_frame: "ip_only w (snd (ip_generate_id w))" "arp_inv (snd (ip_generate_id w)) = arp_inv w"
  by (simp_all add: ip_generate_id_def ip_only_def arp_inv_def)

text \<open>
  What \<^verbatim>\<open>ip_output\<close> decides before it builds the datagram: the interface and the next hop for
  \<open>len\<close> bytes from \<open>src\<close> to \<open>dst\<close>, if it sends at all.
\<close>

definition ip_next_hop :: "nat \<Rightarrow> u32 \<Rightarrow> u32 \<Rightarrow> ('d, 'm) ip_state_scheme \<Rightarrow> (nat \<times> u32) option" where
  "ip_next_hop len src dst w =
     (case ip_route_lookup dst (routes w) of
        None \<Rightarrow> None
      | Some r \<Rightarrow>
          let i = iface_heap w (rt_iface r)
          in if (src = IP_ADDR_ANY \<and> dst = IP_ADDR_BROADCAST) \<or> (src \<noteq> IP_ADDR_ANY \<and> src \<noteq> unicast i) \<or>
                unat (mtu (dev_heap w (if_dev i))) < 20 + len then None
             else Some (rt_iface r, if rt_nexthop r \<noteq> IP_ADDR_ANY then rt_nexthop r else dst))"

lemma ip_output_eq:
  "ip_output protocol data src dst w =
     (case ip_next_hop (length data) src dst w of
        None \<Rightarrow> (-1, w)
      | Some (iface, nexthop) \<Rightarrow>
          (let (r, w2) = ip_output_core iface protocol data (unicast (iface_heap w iface)) dst nexthop
                           (ip_id w) 0 (w\<lparr>ip_id := ip_id w + 1\<rparr>)
           in (if r = -1 then -1 else int (length data), w2)))"
proof (cases "ip_route_lookup dst (routes w)")
  case None
  then show ?thesis by (simp add: ip_output_def ip_next_hop_def)
next
  case (Some route)
  let ?i = "iface_heap w (rt_iface route)"
  let ?n = "if rt_nexthop route \<noteq> IP_ADDR_ANY then rt_nexthop route else dst"
  obtain r w2 where c: "ip_output_core (rt_iface route) protocol data (unicast ?i) dst ?n (ip_id w) 0
      (w\<lparr>ip_id := ip_id w + 1\<rparr>) = (r, w2)"
    by fastforce
  consider "src = IP_ADDR_ANY \<and> dst = IP_ADDR_BROADCAST"
    | "\<not> (src = IP_ADDR_ANY \<and> dst = IP_ADDR_BROADCAST)" "src \<noteq> IP_ADDR_ANY \<and> src \<noteq> unicast ?i"
    | "\<not> (src = IP_ADDR_ANY \<and> dst = IP_ADDR_BROADCAST)" "\<not> (src \<noteq> IP_ADDR_ANY \<and> src \<noteq> unicast ?i)"
      "unat (mtu (dev_heap w (if_dev ?i))) < 20 + length data"
    | "\<not> (src = IP_ADDR_ANY \<and> dst = IP_ADDR_BROADCAST)" "\<not> (src \<noteq> IP_ADDR_ANY \<and> src \<noteq> unicast ?i)"
      "\<not> unat (mtu (dev_heap w (if_dev ?i))) < 20 + length data"
    by blast
  then show ?thesis
  proof cases
    case 1
    then show ?thesis using Some by (simp add: ip_output_def ip_next_hop_def)
  next
    case 4
    then show ?thesis
      by (cases "r = -1")
        (simp_all only: ip_output_def ip_next_hop_def Let_def ip_generate_id_def IP_HDR_SIZE_MIN_def
          Some c option.case prod.case if_True if_False simp_thms)
  qed (simp_all only: ip_output_def ip_next_hop_def Let_def ip_generate_id_def IP_HDR_SIZE_MIN_def
      Some option.case if_True if_False simp_thms)
qed

lemma ip_output_frame:
  assumes "arp_inv w"
  shows "ip_only w (snd (ip_output protocol data src dst w)) \<and>
         arp_inv (snd (ip_output protocol data src dst w))"
proof -
  let ?w1 = "w\<lparr>ip_id := ip_id w + 1\<rparr>"
  have w1: "arp_inv ?w1" "ip_only w ?w1" using assms by (simp_all add: arp_inv_def ip_only_def)
  have core: "ip_only w (snd (ip_output_core i p d s t n k f ?w1))"
    "arp_inv (snd (ip_output_core i p d s t n k f ?w1))" for i p d s t n k f
    using ip_output_core_frame [OF w1(1)] ip_only_trans [OF w1(2)] by blast+
  show ?thesis
  proof (cases "ip_next_hop (length data) src dst w")
    case None
    with assms show ?thesis by (simp add: ip_output_eq)
  next
    case (Some p)
    obtain iface nexthop where p: "p = (iface, nexthop)" by (cases p)
    let ?c = "ip_output_core iface protocol data (unicast (iface_heap w iface)) dst nexthop (ip_id w) 0 ?w1"
    obtain r w2 where c: "?c = (r, w2)" by (cases ?c)
    with core [of iface protocol data "unicast (iface_heap w iface)" dst nexthop "ip_id w" 0]
    have "ip_only w w2" "arp_inv w2" by simp_all
    then show ?thesis by (simp add: ip_output_eq Some p c)
  qed
qed

text \<open>Sending through a device that needs address resolution, with the next hop resolved.\<close>

lemma ip_output_resolved:
  assumes inv: "arp_inv w" and hop: "ip_next_hop (length data) src dst w = Some (iface, nexthop)"
    and len: "length data \<le> 4076"
    and dev: "dev_flags (dev_heap w (if_dev (iface_heap w iface))) AND NET_DEVICE_FLAG_NEED_ARP \<noteq> 0"
      "dev_type (dev_heap w (if_dev (iface_heap w iface))) = NET_DEVICE_TYPE_ETHERNET"
      "family (iface_heap w iface) = NET_IFACE_FAMILY_IP"
    and uni: "nexthop \<noteq> broadcast (iface_heap w iface)" "nexthop \<noteq> IP_ADDR_BROADCAST"
    and known: "arp_map (caches w) nexthop = Some e" "ac_state e \<noteq> ARP_INCOMPLETE"
  shows "ip_output protocol data src dst w =
    (let (r, w') = net_device_output (if_dev (iface_heap w iface)) NET_PROTOCOL_TYPE_IP
           (ip_datagram protocol data (unicast (iface_heap w iface)) dst (ip_id w))
           (ac_ha e @ replicate 10 0) (w\<lparr>ip_id := ip_id w + 1\<rparr>)
     in (if r = -1 then -1 else int (length data), w'))"
proof -
  let ?w1 = "w\<lparr>ip_id := ip_id w + 1\<rparr>"
  have inv1: "arp_inv ?w1" using inv by (simp add: arp_inv_def)
  have "arp_resolve iface nexthop (replicate NET_DEVICE_ADDR_LEN 0) ?w1 =
      (ARP_RESOLVE_FOUND, ac_ha e @ drop 6 (replicate NET_DEVICE_ADDR_LEN 0), ?w1)"
    by (rule arp_resolve_found [OF inv1 _ _ _ known(2)]) (use dev known in simp_all)
  then have "ip_output_device iface d nexthop ?w1 =
      net_device_output (if_dev (iface_heap w iface)) NET_PROTOCOL_TYPE_IP d (ac_ha e @ replicate 10 0) ?w1" for d
    using dev(1) uni by (simp add: ip_output_device_def Let_def NET_DEVICE_ADDR_LEN_def)
  moreover have "20 + length data \<le> 4096" using len by simp
  ultimately show ?thesis
    unfolding ip_output_eq hop by (simp add: ip_output_core_datagram Let_def)
qed

section \<open>Claims\<close>

text \<open>An IP address survives being printed and parsed.\<close>

lemma ip_text_roundtrip: "ip_addr_pton (ip_addr_ntop n IP_ADDR_STR_LEN) m = (0, n)"
  by (rule ip_addr_text)

text \<open>
  C4: the route of an address is one of the table that matches it, with a mask at least as
  long as every other route that matches; there is none only if no route matches.
\<close>

theorem longest_prefix_match:
  "case ip_route_lookup dst rs of
     None \<Rightarrow> \<forall>q \<in> set rs. dst AND rt_netmask q \<noteq> rt_network q
   | Some r \<Rightarrow> r \<in> set rs \<and> dst AND rt_netmask r = rt_network r \<and>
       (\<forall>q \<in> set rs. dst AND rt_netmask q = rt_network q \<longrightarrow> ntoh32 (rt_netmask q) \<le> ntoh32 (rt_netmask r))"
  using ip_route_lookup_None [of dst rs] ip_route_lookup_Some [of dst rs]
  by (auto simp: route_match_def split: option.splits)

theorem longest_prefix_match_witness:
  "ip_route_lookup 0x0501a8c0 [\<lparr>rt_network = 0, rt_netmask = 0, rt_nexthop = 7, rt_iface = 0\<rparr>,
      \<lparr>rt_network = 0x0001a8c0, rt_netmask = 0x00ffffff, rt_nexthop = 0, rt_iface = 1\<rparr>] =
    Some \<lparr>rt_network = 0x0001a8c0, rt_netmask = 0x00ffffff, rt_nexthop = 0, rt_iface = 1\<rparr>"
  (is "ip_route_lookup ?d [?a, ?b] = Some ?b")
proof -
  have n: "ntoh32 0 < ntoh32 0x00ffffff" by (simp add: ntoh32_def endian_of_def byteorder_def byteswap32_def
      store32_def load32_def LITTLE_ENDIAN_TAG_def BIG_ENDIAN_TAG_def)
  have m: "0x0501a8c0 AND 0x00ffffff = (0x0001a8c0 :: u32)" by simp
  show ?thesis
    using longest_prefix_match [where dst = ?d and rs = "[?a, ?b]"] n m
    by (auto split: option.splits)
qed

text \<open>
  C5: end to end over one link. When the next hop of a packet is resolved, \<^verbatim>\<open>ip_output\<close> hands
  the driver one datagram with the peer's hardware address; and wherever this datagram arrives,
  padded or not, \<^verbatim>\<open>ip_input\<close> calls the handler registered for the protocol with the payload,
  its exact length and the addresses if the destination is the interface's or a broadcast
  address, and drops it otherwise.
\<close>

theorem ip_delivery:
  fixes wA :: "('d, 'm) ip_state_scheme" and wB :: "('e, 'n) ip_state_scheme"
  assumes "arp_inv wA" and "ip_next_hop (length data) src dst wA = Some (iface, nexthop)"
    and len: "length data \<le> 1480"
    and "dev_flags (dev_heap wA (if_dev (iface_heap wA iface))) AND NET_DEVICE_FLAG_NEED_ARP \<noteq> 0"
    and "dev_type (dev_heap wA (if_dev (iface_heap wA iface))) = NET_DEVICE_TYPE_ETHERNET"
    and "family (iface_heap wA iface) = NET_IFACE_FAMILY_IP"
    and "nexthop \<noteq> broadcast (iface_heap wA iface)" "nexthop \<noteq> IP_ADDR_BROADCAST"
    and "arp_map (caches wA) nexthop = Some e" "ac_state e \<noteq> ARP_INCOMPLETE"
    and B: "net_device_get_iface dev NET_IFACE_FAMILY_IP wB = Some ifB"
  obtains dgram where "length dgram = 20 + length data"
    and "ip_output protocol data src dst wA =
      (let (r, w') = net_device_output (if_dev (iface_heap wA iface)) NET_PROTOCOL_TYPE_IP dgram
             (ac_ha e @ replicate 10 0) (wA\<lparr>ip_id := ip_id wA + 1\<rparr>)
       in (if r = -1 then -1 else int (length data), w'))"
    and "ip_input call (dgram @ pad) dev wB =
      (if dst \<in> {unicast (iface_heap wB ifB), broadcast (iface_heap wB ifB), IP_ADDR_BROADCAST} then
         (case ip_dispatch protocol wB of
            None \<Rightarrow> wB
          | Some h \<Rightarrow> call h (data @ pad) (length data) (unicast (iface_heap wA iface)) dst ifB wB)
       else wB)"
proof (rule that)
  let ?d = "ip_datagram protocol data (unicast (iface_heap wA iface)) dst (ip_id wA)"
  show "length ?d = 20 + length data" by simp
  show "ip_output protocol data src dst wA =
      (let (r, w') = net_device_output (if_dev (iface_heap wA iface)) NET_PROTOCOL_TYPE_IP ?d
             (ac_ha e @ replicate 10 0) (wA\<lparr>ip_id := ip_id wA + 1\<rparr>)
       in (if r = -1 then -1 else int (length data), w'))"
    using assms by (intro ip_output_resolved) auto
  show "ip_input call (?d @ pad) dev wB =
      (if dst \<in> {unicast (iface_heap wB ifB), broadcast (iface_heap wB ifB), IP_ADDR_BROADCAST} then
         (case ip_dispatch protocol wB of
            None \<Rightarrow> wB
          | Some h \<Rightarrow> call h (data @ pad) (length data) (unicast (iface_heap wA iface)) dst ifB wB)
       else wB)"
    using len B by (simp add: ip_input_datagram ip_for_us_def)
qed

text \<open>A host that has resolved the only other host of its network.\<close>

definition ip_host :: "u8 list \<Rightarrow> u32 \<Rightarrow> u32 \<Rightarrow> u8 list \<Rightarrow> unit ip_state" where
  "ip_host mac ip peer peer_mac =
     (let cs = replicate 31 \<lparr>ac_state = ARP_FREE, ac_pa = 0, ac_ha = replicate 6 0, ac_timestamp = timerclear\<rparr>
      in arp_state.extend (host mac ip)
           \<lparr>ip_ifaces = [0], ip_protocols = [\<lparr>ipp_type = IP_PROTOCOL_UDP, ipp_handler = Udp_input\<rparr>],
            routes = [\<lparr>rt_network = ip AND 0x00ffffff, rt_netmask = 0x00ffffff, rt_nexthop = 0, rt_iface = 0\<rparr>],
            ip_id = 128\<rparr>
           \<lparr>caches := \<lparr>ac_state = ARP_RESOLVED, ac_pa = peer, ac_ha = peer_mac, ac_timestamp = timerclear\<rparr> # cs,
            dev_heap := (\<lambda>_. (dev_heap (host mac ip) 0)\<lparr>mtu := 1500, dev_flags := 0x0121\<rparr>)\<rparr>)"

lemma ip_host_fields:
  "dev_heap (ip_host mac ip peer pm) p = (dev_heap (host mac ip) 0)\<lparr>mtu := 1500, dev_flags := 0x0121\<rparr>"
  "iface_heap (ip_host mac ip peer pm) = iface_heap (host mac ip)"
  "routes (ip_host mac ip peer pm) =
     [\<lparr>rt_network = ip AND 0x00ffffff, rt_netmask = 0x00ffffff, rt_nexthop = 0, rt_iface = 0\<rparr>]"
  "ip_id (ip_host mac ip peer pm) = 128"
  "ip_protocols (ip_host mac ip peer pm) = [\<lparr>ipp_type = IP_PROTOCOL_UDP, ipp_handler = Udp_input\<rparr>]"
  "caches (ip_host mac ip peer pm) =
     \<lparr>ac_state = ARP_RESOLVED, ac_pa = peer, ac_ha = pm, ac_timestamp = timerclear\<rparr> #
     replicate 31 \<lparr>ac_state = ARP_FREE, ac_pa = 0, ac_ha = replicate 6 0, ac_timestamp = timerclear\<rparr>"
  by (simp_all add: ip_host_def Let_def host_def arp_boot_def net_state.defs arp_state.defs)

lemma ip_host_arp:
  assumes "length pm = 6"
  shows "arp_inv (ip_host mac ip peer pm)"
    and "arp_map (caches (ip_host mac ip peer pm)) peer =
      Some \<lparr>ac_state = ARP_RESOLVED, ac_pa = peer, ac_ha = pm, ac_timestamp = timerclear\<rparr>"
proof -
  have "j = 0" if "j < 32" "ac_state (caches (ip_host mac ip peer pm) ! j) \<noteq> ARP_FREE" for j
    using that by (cases j) (auto simp: ip_host_fields)
  then show "arp_inv (ip_host mac ip peer pm)"
    using assms by (auto simp: arp_inv_def table_ok_def ARP_CACHE_SIZE_def ip_host_fields)
  show "arp_map (caches (ip_host mac ip peer pm)) peer =
      Some \<lparr>ac_state = ARP_RESOLVED, ac_pa = peer, ac_ha = pm, ac_timestamp = timerclear\<rparr>"
    by (simp add: arp_map_def arp_cache_select_def ip_host_fields)
qed

theorem ip_delivery_witness:
  "\<exists>dgram. fst (ip_output IP_PROTOCOL_UDP [1, 2, 3] 0 0x0200000a
              (ip_host [1, 1, 1, 1, 1, 1] 0x0100000a 0x0200000a [2, 2, 2, 2, 2, 2])) = 3 \<and>
     ip_input (\<lambda>h m len s d i w. w\<lparr>drv := ()\<rparr>\<lparr>tick := len\<rparr>) (dgram @ [0, 0]) 0
       (ip_host [2, 2, 2, 2, 2, 2] 0x0200000a 0x0100000a [1, 1, 1, 1, 1, 1]) =
     (ip_host [2, 2, 2, 2, 2, 2] 0x0200000a 0x0100000a [1, 1, 1, 1, 1, 1])\<lparr>drv := ()\<rparr>\<lparr>tick := 3\<rparr>"
  (is "\<exists>dgram. fst (ip_output _ ?data _ ?dst ?A) = 3 \<and> ip_input ?call _ _ ?B = ?B'")
proof -
  let ?e = "\<lparr>ac_state = ARP_RESOLVED, ac_pa = ?dst, ac_ha = [2, 2, 2, 2, 2, 2], ac_timestamp = timerclear\<rparr>"
  have hop: "ip_next_hop (length ?data) 0 ?dst ?A = Some (0, ?dst)"
    by (simp add: ip_next_hop_def ip_route_lookup_def ip_host_fields host_def ip_consts)
  have ifB: "net_device_get_iface 0 NET_IFACE_FAMILY_IP ?B = Some 0"
    by (simp add: net_device_get_iface_def ip_host_fields host_def)
  have known: "arp_map (caches ?A) ?dst = Some ?e" by (rule ip_host_arp) simp
  have dev: "dev_flags (dev_heap ?A (if_dev (iface_heap ?A 0))) AND NET_DEVICE_FLAG_NEED_ARP \<noteq> 0"
    "dev_type (dev_heap ?A (if_dev (iface_heap ?A 0))) = NET_DEVICE_TYPE_ETHERNET"
    "family (iface_heap ?A 0) = NET_IFACE_FAMILY_IP"
    "?dst \<noteq> broadcast (iface_heap ?A 0)" "?dst \<noteq> IP_ADDR_BROADCAST"
    by (simp_all add: ip_host_fields host_def NET_DEVICE_FLAG_NEED_ARP_def ip_consts)
  have inv: "arp_inv ?A" by (rule ip_host_arp) simp
  have B: "unicast (iface_heap ?B 0) = ?dst" "ip_dispatch IP_PROTOCOL_UDP ?B = Some Udp_input"
    by (simp_all add: ip_host_fields host_def ip_dispatch_def)
  have sent: "fst (net_device_output d t x y (?A\<lparr>ip_id := k\<rparr>)) = 0" if "length x \<le> 1500" for d t x y k
    using that by (simp add: net_device_output_def Let_def ip_host_fields dev_is_up_def NET_DEVICE_FLAG_UP_def)
      (simp add: ip_host_def host_def arp_boot_def net_boot_def net_state.defs arp_state.defs Let_def)
  obtain dgram where len: "length dgram = 20 + length ?data" and d: "ip_output IP_PROTOCOL_UDP ?data 0 ?dst ?A =
      (let (r, w') = net_device_output (if_dev (iface_heap ?A 0)) NET_PROTOCOL_TYPE_IP dgram
             (ac_ha ?e @ replicate 10 0) (?A\<lparr>ip_id := ip_id ?A + 1\<rparr>)
       in (if r = -1 then -1 else int (length ?data), w'))"
    "ip_input ?call (dgram @ [0, 0]) 0 ?B = ?B'"
    by (rule ip_delivery [OF inv hop _ dev known _ ifB, of IP_PROTOCOL_UDP ?call "[0, 0]"]) (simp_all add: B)
  have "fst (net_device_output (if_dev (iface_heap ?A 0)) NET_PROTOCOL_TYPE_IP dgram
      (ac_ha ?e @ replicate 10 0) (?A\<lparr>ip_id := ip_id ?A + 1\<rparr>)) = 0"
    by (rule sent) (simp add: len)
  then have "fst (ip_output IP_PROTOCOL_UDP ?data 0 ?dst ?A) = 3"
    unfolding d(1) by (simp add: Let_def case_prod_beta)
  with d(2) show ?thesis by blast
qed

text \<open>
  After an interface has been registered, it is the interface of its device, and packets
  for the hosts of its network leave through it, unless an older route to them is longer.
\<close>

lemma iface_registered:
  assumes ok: "fst (ip_iface_register dev iface w) = 0"
    and "dst AND netmask (iface_heap w iface) = unicast (iface_heap w iface) AND netmask (iface_heap w iface)"
    and "\<forall>q \<in> set (routes w). dst AND rt_netmask q = rt_network q \<longrightarrow>
           ntoh32 (rt_netmask q) \<le> ntoh32 (netmask (iface_heap w iface))"
  shows "let w' = snd (ip_iface_register dev iface w)
         in ip_route_get_iface dst w' = Some iface \<and>
            net_device_get_iface dev (family (iface_heap w iface)) w' = Some iface \<and>
            if_dev (iface_heap w' iface) = dev"
proof -
  let ?i = "iface_heap w iface"
  let ?r = "\<lparr>rt_network = unicast ?i AND netmask ?i, rt_netmask = netmask ?i,
            rt_nexthop = IP_ADDR_ANY, rt_iface = iface\<rparr>"
  let ?w = "snd (ip_iface_register dev iface w)"
  have "\<not> (\<exists>e \<in> set (ifaces (dev_heap w dev)). family (iface_heap w e) = family ?i)" (is "\<not> ?dup")
  proof
    assume ?dup
    then have "fst (ip_iface_register dev iface w) = -1"
      unfolding ip_iface_register_def net_device_add_iface_def by (simp only: if_P Let_def prod.case fst_conv simp_thms if_True)
    with ok show False by simp
  qed
  then have add: "net_device_add_iface dev iface w =
      (0, (set_dev dev ((dev_heap w dev)\<lparr>ifaces := iface # ifaces (dev_heap w dev)\<rparr>) w)
            \<lparr>iface_heap := (iface_heap w)(iface := ?i\<lparr>if_dev := dev\<rparr>)\<rparr>)" (is "_ = (0, ?w1)")
    unfolding net_device_add_iface_def by (rule if_not_P)
  have "alloc_ok ?w1 (alloc_no ?w1)"
    using ok by (auto simp: ip_iface_register_def add ip_route_add_def calloc_def Let_def split: if_splits)
  then have w': "routes ?w = ?r # routes w" "dev_heap ?w = dev_heap ?w1" "iface_heap ?w = iface_heap ?w1"
    by (simp_all add: ip_iface_register_def add ip_route_add_def calloc_def Let_def set_dev_def)
  have stay: "route_loop dst (Some ?r) rs = Some ?r" if "set rs \<subseteq> set (routes w)" for rs
    using that assms(3) by (induction rs) (auto simp: not_less)
  have "ip_route_get_iface dst ?w = Some iface"
    using assms(2) stay [of "routes w"] by (simp add: ip_route_get_iface_def ip_route_lookup_def w')
  then show ?thesis by (simp add: Let_def w' net_device_get_iface_def)
qed

lemma iface_registered_witness:
  "ip_route_get_iface 0x0501a8c0
     (snd (ip_iface_register 0 3 ((ip_host [1] 2 3 [4])\<lparr>dev_heap := (\<lambda>_. zero_device), iface_heap :=
        (\<lambda>_. \<lparr>if_dev = 0, family = 10, unicast = 0x0201a8c0, netmask = 0x00ffffff, broadcast = 0\<rparr>)\<rparr>))) = Some 3"
  (is "ip_route_get_iface ?d (snd (ip_iface_register 0 3 ?w)) = _")
proof -
  have "alloc_ok ?w k" for k
    by (simp add: ip_host_def host_def arp_boot_def net_boot_def net_state.defs arp_state.defs Let_def)
  then have ok: "fst (ip_iface_register 0 3 ?w) = 0"
    by (simp add: ip_iface_register_def net_device_add_iface_def zero_device_def ip_route_add_def calloc_def
        set_dev_def Let_def)
  show ?thesis
    using iface_registered [OF ok, of ?d] by (simp add: ip_host_fields Let_def)
qed

text \<open>
  What \<^verbatim>\<open>ip_input\<close> checks and what it does not. A packet that passes its checks, for this
  interface and a registered protocol, is given to the handler from behind the header on, with
  the addresses of the header; the length the handler is told fits in the packet exactly if the
  packet's header length does not exceed its total length, which the code does not check. Any
  packet that fails the checks is dropped without an effect.
\<close>

lemma ip_input_length:
  assumes "net_device_get_iface dev NET_IFACE_FAMILY_IP w = Some iface"
    and "ip_for_us (iface_heap w iface) (load32 data 16)" and "ip_dispatch (data ! 9) w = Some h"
    and "length data < 2 ^ 63"
  shows "\<exists>len. ip_input call data dev w =
      (if ip_accepts data then
         call h (drop (ip_hdr_len data) data) len (load32 data 12) (load32 data 16) iface w
       else w) \<and>
    (ip_accepts data \<longrightarrow>
       (len \<le> length (drop (ip_hdr_len data) data) \<longleftrightarrow> ip_hdr_len data \<le> ip_total_len data))"
proof (cases "ip_accepts data")
  case False
  then show ?thesis by (simp add: ip_input_rejected)
next
  case True
  let ?h = "ip_hdr_len data" and ?t = "ip_total_len data"
  have le: "?t \<le> length data" "?h < 256" using True ip_hdr_len_bound by (auto simp: ip_accepts_def)
  have "size_sub ?t ?h \<le> length data - ?h \<longleftrightarrow> ?h \<le> ?t"
  proof (cases "?h \<le> ?t")
    case True
    with le show ?thesis by simp
  next
    case False
    then have "size_sub ?t ?h = 2 ^ 64 - (?h - ?t)" using le by (intro size_sub_underflow) simp_all
    moreover have "2 ^ 63 < (2 ^ 64 - (?h - ?t) :: nat)" using le by simp
    ultimately show ?thesis using False assms(4) by linarith
  qed
  with True show ?thesis
    unfolding ip_input_accepted [OF True assms(1-3)] by (intro exI [of _ "size_sub ?t ?h"]) simp
qed

text \<open>A packet of 20 bytes, nothing behind the header, whose total length is 19.\<close>

lemma ip_input_length_witness:
  "let data = [0x45, 0, 0, 19, 0, 0, 0, 0, 1, 17, 0xa9, 0xcd, 9, 8, 7, 6, 0xff, 0xff, 0xff, 0xff]
   in \<exists>len > length (drop 20 data). ip_input (\<lambda>h m len s d i w. w\<lparr>tick := len\<rparr>) data 0 (ip_host [1] 2 3 [4]) =
        (ip_host [1] 2 3 [4])\<lparr>tick := len\<rparr>"
proof -
  let ?data = "[0x45, 0, 0, 19, 0, 0, 0, 0, 1, 17, 0xa9, 0xcd, 9, 8, 7, 6, 0xff, 0xff, 0xff, 0xff] :: u8 list"
  let ?w = "ip_host [1] 2 3 [4]"
  have ifc: "net_device_get_iface 0 NET_IFACE_FAMILY_IP ?w = Some 0"
    by (simp add: net_device_get_iface_def ip_host_fields host_def)
  have us: "ip_for_us (iface_heap ?w 0) (load32 ?data 16)"
    by (simp add: ip_for_us_def load32_def IP_ADDR_BROADCAST_def)
  have h: "ip_dispatch (?data ! 9) ?w = Some Udp_input"
    by (simp add: ip_dispatch_def ip_host_fields IP_PROTOCOL_UDP_def)
  have len: "ip_hdr_len ?data = 20" "ip_total_len ?data = 19"
    by (simp_all add: ip_hdr_len_def ip_total_len_def load16_def ntoh16_def endian_of_def byteorder_def
        byteswap16_def store32_def load32_def LITTLE_ENDIAN_TAG_def BIG_ENDIAN_TAG_def)
  have acc: "ip_accepts ?data"
    unfolding ip_accepts_def len
    by (simp add: cksum16_def load16_def fold_carry.simps ntoh16_def endian_of_def byteorder_def
        byteswap16_def store32_def load32_def LITTLE_ENDIAN_TAG_def BIG_ENDIAN_TAG_def)
  obtain len where "ip_input (\<lambda>h m len s d i w. w\<lparr>tick := len\<rparr>) ?data 0 ?w = ?w\<lparr>tick := len\<rparr>"
    "\<not> len \<le> length (drop 20 ?data)"
    using ip_input_length [OF ifc us h, of "\<lambda>h m len s d i w. w\<lparr>tick := len\<rparr>"] acc by (auto simp: len)
  then show ?thesis by (auto simp: Let_def not_le)
qed

end
