(* ===== verification/Udp.thy ===== *)
theory Udp
  imports Ip
begin

text \<open>
  \<^verbatim>\<open>kernel/network/udp.c\<close>: the table of protocol control blocks, datagrams with their
  checksum over the pseudo header, and the user commands.
\<close>

section \<open>Data\<close>

definition UDP_PCB_SIZE :: nat where "UDP_PCB_SIZE = 16"
definition UDP_SOURCE_PORT_MIN :: nat where "UDP_SOURCE_PORT_MIN = 49152"
definition UDP_SOURCE_PORT_MAX :: nat where "UDP_SOURCE_PORT_MAX = 65535"
definition UDP_HDR_SIZE :: nat where "UDP_HDR_SIZE = 8"
definition PSEUDO_HDR_SIZE :: nat where "PSEUDO_HDR_SIZE = 12"
definition UDP_ENDPOINT_STR_LEN :: nat where "UDP_ENDPOINT_STR_LEN = IP_ADDR_STR_LEN + 6"

text \<open>\<^verbatim>\<open>struct udp_endpoint\<close>, the same as \<^verbatim>\<open>struct tcp_endpoint\<close>; the port is in network byte order.\<close>

record endpoint =
  ep_addr :: u32
  ep_port :: u16

definition store_pseudo_hdr :: "u32 \<Rightarrow> u32 \<Rightarrow> u8 \<Rightarrow> u16 \<Rightarrow> u8 list" where
  "store_pseudo_hdr src dst protocol len = store32 src @ store32 dst @ [0, protocol] @ store16 len"

record udp_hdr =
  uh_src :: u16
  uh_dst :: u16
  uh_len :: u16
  uh_sum :: u16

definition store_udp_hdr :: "udp_hdr \<Rightarrow> u8 list" where
  "store_udp_hdr h = store16 (uh_src h) @ store16 (uh_dst h) @ store16 (uh_len h) @ store16 (uh_sum h)"

definition load_udp_hdr :: "u8 list \<Rightarrow> udp_hdr" where
  "load_udp_hdr bs =
     \<lparr>uh_src = load16 bs 0, uh_dst = load16 bs 2, uh_len = load16 bs 4, uh_sum = load16 bs 6\<rparr>"

datatype udp_pcb_state = UDP_FREE | UDP_OPEN | UDP_CLOSING

record udp_queue_entry =
  uq_foreign :: endpoint
  uq_len :: u16
  uq_data :: "u8 list"

record udp_pcb =
  up_state :: udp_pcb_state
  up_local :: endpoint
  up_queue :: "udp_queue_entry list"
  up_cond :: cond

definition zero_endpoint :: endpoint where "zero_endpoint = \<lparr>ep_addr = 0, ep_port = 0\<rparr>"

definition zero_udp_pcb :: udp_pcb where
  "zero_udp_pcb = \<lparr>up_state = UDP_FREE, up_local = zero_endpoint, up_queue = [],
     up_cond = \<lparr>c_taskid = 0, c_num = 0\<rparr>\<rparr>"

record 'd udp_state = "'d ip_state" +
  udp_pcbs :: "udp_pcb list"

definition set_udp :: "nat \<Rightarrow> udp_pcb \<Rightarrow> ('d, 'm) udp_state_scheme \<Rightarrow> ('d, 'm) udp_state_scheme" where
  "set_udp i p w = w\<lparr>udp_pcbs := (udp_pcbs w)[i := p]\<rparr>"

section \<open>Endpoints as text\<close>

text \<open>
  The host part is copied to a buffer of 16 bytes; with 16 characters or more it overflows
  or is not terminated, which is \<open>None\<close>.
\<close>

definition udp_endpoint_pton :: "string \<Rightarrow> endpoint \<Rightarrow> (int \<times> endpoint) option" where
  "udp_endpoint_pton p n =
     (case strrchr p CHR '':'' of
        None \<Rightarrow> Some (-1, n)
      | Some (pre, post) \<Rightarrow>
          if IP_ADDR_STR_LEN \<le> length pre then None
          else
            let (r, a) = ip_addr_pton pre (ep_addr n); n1 = n\<lparr>ep_addr := a\<rparr>
            in if r = -1 then Some (-1, n1)
               else
                 let (port, _) = strtol 10 post
                 in if port \<le> 0 \<or> port > 65535 then Some (-1, n1)
                    else Some (0, n1\<lparr>ep_port := hton16 (of_int port)\<rparr>))"

definition udp_endpoint_ntop :: "endpoint \<Rightarrow> nat \<Rightarrow> string" where
  "udp_endpoint_ntop n sz =
     (let p = ip_addr_ntop (ep_addr n) sz; offset = length p
      in p @ snprintf (sz - offset) (CHR '':'' # dec_of_nat (unat (ntoh16 (ep_port n)))))"

section \<open>The table\<close>

definition udp_pcb_alloc :: "('d, 'm) udp_state_scheme \<Rightarrow> nat option \<times> ('d, 'm) udp_state_scheme" where
  "udp_pcb_alloc w =
     (case find_idx (\<lambda>p. up_state p = UDP_FREE) (udp_pcbs w) of
        None \<Rightarrow> (None, w)
      | Some i \<Rightarrow> (Some i, set_udp i ((udp_pcbs w ! i)\<lparr>up_state := UDP_OPEN, up_cond := cond_init\<rparr>) w))"

definition udp_pcb_release :: "nat \<Rightarrow> ('d, 'm) udp_state_scheme \<Rightarrow> ('d, 'm) udp_state_scheme" where
  "udp_pcb_release i w =
     (let p = udp_pcbs w ! i; (r, c) = cond_destroy (up_cond p)
      in if r = EBUSY
         then cond_broadcast c (set_udp i (p\<lparr>up_state := UDP_CLOSING, up_cond := c\<rparr>) w)
         else set_udp i zero_udp_pcb w)"

definition udp_pcb_select :: "u32 \<Rightarrow> u16 \<Rightarrow> udp_pcb list \<Rightarrow> nat option" where
  "udp_pcb_select addr port ps =
     find_idx (\<lambda>p. up_state p = UDP_OPEN \<and>
       (ep_addr (up_local p) = IP_ADDR_ANY \<or> ep_addr (up_local p) = addr) \<and> ep_port (up_local p) = port) ps"

definition udp_pcb_get :: "int \<Rightarrow> udp_pcb list \<Rightarrow> nat option" where
  "udp_pcb_get i ps =
     (if i < 0 \<or> i \<ge> int UDP_PCB_SIZE then None
      else if up_state (ps ! nat i) \<noteq> UDP_OPEN then None else Some (nat i))"

section \<open>Input and output\<close>

definition pseudo_sum :: "u32 \<Rightarrow> u32 \<Rightarrow> u8 \<Rightarrow> u16 \<Rightarrow> u16" where
  "pseudo_sum src dst protocol len =
     NOT (the (cksum16 (store_pseudo_hdr src dst protocol len) (of_nat PSEUDO_HDR_SIZE) 0))"

text \<open>The part of \<^verbatim>\<open>udp_input\<close> that queues the data, once the block is found.\<close>

definition udp_deliver ::
  "nat \<Rightarrow> endpoint \<Rightarrow> u8 list \<Rightarrow> ('d, 'm) udp_state_scheme \<Rightarrow> ('d, 'm) udp_state_scheme" where
  "udp_deliver i foreign data w =
     (let (ok, w1) = calloc w
      in if \<not> ok then w1
         else
           let entry = \<lparr>uq_foreign = foreign, uq_len = of_nat (length data), uq_data = data\<rparr>;
               pcb = udp_pcbs w1 ! i;
               (ok2, w2) = calloc w1;
               (r, q) = list_push ok2 entry (up_queue pcb)
           in if r = None then w2
              else cond_broadcast (up_cond pcb) (set_udp i (pcb\<lparr>up_queue := q\<rparr>) w2))"

definition udp_input ::
  "u8 list \<Rightarrow> nat \<Rightarrow> u32 \<Rightarrow> u32 \<Rightarrow> nat \<Rightarrow> ('d, 'm) udp_state_scheme \<Rightarrow> ('d, 'm) udp_state_scheme" where
  "udp_input mem len src dst iface w =
     (if len < UDP_HDR_SIZE then w
      else if length mem < UDP_HDR_SIZE then fault w
      else
        let hdr = load_udp_hdr mem
        in if len \<noteq> unat (ntoh16 (uh_len hdr)) then w
           else case cksum16 mem (of_nat len)
               (ucast (pseudo_sum src dst IP_PROTOCOL_UDP (hton16 (of_nat len)))) of
             None \<Rightarrow> fault w
           | Some s \<Rightarrow>
               if s \<noteq> 0 then w
               else case udp_pcb_select dst (uh_dst hdr) (udp_pcbs w) of
                 None \<Rightarrow> w
               | Some i \<Rightarrow>
                   udp_deliver i \<lparr>ep_addr = src, ep_port = uh_src hdr\<rparr>
                     (take (len - UDP_HDR_SIZE) (drop UDP_HDR_SIZE mem)) w)"

definition udp_output ::
  "endpoint \<Rightarrow> endpoint \<Rightarrow> u8 list \<Rightarrow> ('d, 'm) ip_state_scheme \<Rightarrow> int \<times> ('d, 'm) ip_state_scheme" where
  "udp_output src dst data w =
     (if IP_PAYLOAD_SIZE_MAX - UDP_HDR_SIZE < length data then (-1, w)
      else
        let total = (of_nat (UDP_HDR_SIZE + length data) :: u16);
            hdr = \<lparr>uh_src = ep_port src, uh_dst = ep_port dst, uh_len = hton16 total, uh_sum = 0\<rparr>;
            psum = pseudo_sum (ep_addr src) (ep_addr dst) IP_PROTOCOL_UDP (hton16 total)
        in case cksum16 (store_udp_hdr hdr @ data) total (ucast psum) of
             None \<Rightarrow> (-1, fault w)
           | Some s \<Rightarrow>
               let (r, w1) = ip_output IP_PROTOCOL_UDP (store_udp_hdr (hdr\<lparr>uh_sum := s\<rparr>) @ data)
                               (ep_addr src) (ep_addr dst) w
               in if r = -1 then (-1, w1) else (int (length data), w1))"

section \<open>User commands\<close>

definition udp_open :: "('d, 'm) udp_state_scheme \<Rightarrow> int \<times> ('d, 'm) udp_state_scheme" where
  "udp_open w =
     (let (p, w1) = udp_pcb_alloc w
      in case p of None \<Rightarrow> (-1, w1) | Some i \<Rightarrow> (int i, w1))"

definition udp_close :: "int \<Rightarrow> ('d, 'm) udp_state_scheme \<Rightarrow> int \<times> ('d, 'm) udp_state_scheme" where
  "udp_close i w =
     (case udp_pcb_get i (udp_pcbs w) of None \<Rightarrow> (-1, w) | Some k \<Rightarrow> (0, udp_pcb_release k w))"

definition udp_bind ::
  "int \<Rightarrow> endpoint \<Rightarrow> ('d, 'm) udp_state_scheme \<Rightarrow> int \<times> ('d, 'm) udp_state_scheme" where
  "udp_bind i local w =
     (case udp_pcb_get i (udp_pcbs w) of
        None \<Rightarrow> (-1, w)
      | Some k \<Rightarrow>
          if udp_pcb_select (ep_addr local) (ep_port local) (udp_pcbs w) \<noteq> None then (-1, w)
          else (0, set_udp k ((udp_pcbs w ! k)\<lparr>up_local := local\<rparr>) w))"

text \<open>The search for a free port from \<open>p\<close> on, with \<open>n\<close> ports left.\<close>

fun udp_port_loop :: "u32 \<Rightarrow> udp_pcb list \<Rightarrow> nat \<Rightarrow> nat \<Rightarrow> nat option" where
  "udp_port_loop addr ps p 0 = None"
| "udp_port_loop addr ps p (Suc n) =
     (if udp_pcb_select addr (hton16 (of_nat p)) ps = None then Some p
      else udp_port_loop addr ps (Suc p) n)"

definition udp_sendto ::
  "int \<Rightarrow> u8 list \<Rightarrow> endpoint \<Rightarrow> ('d, 'm) udp_state_scheme \<Rightarrow> int \<times> ('d, 'm) udp_state_scheme" where
  "udp_sendto i data foreign w =
     (case udp_pcb_get i (udp_pcbs w) of
        None \<Rightarrow> (-1, w)
      | Some k \<Rightarrow>
          let pcb = udp_pcbs w ! k
          in case (if ep_addr (up_local pcb) = IP_ADDR_ANY
                   then map_option (\<lambda>f. unicast (iface_heap w f)) (ip_route_get_iface (ep_addr foreign) w)
                   else Some (ep_addr (up_local pcb))) of
               None \<Rightarrow> (-1, w)
             | Some addr \<Rightarrow>
                 if ep_port (up_local pcb) \<noteq> 0
                 then udp_output \<lparr>ep_addr = addr, ep_port = ep_port (up_local pcb)\<rparr> foreign data w
                 else case udp_port_loop addr (udp_pcbs w) UDP_SOURCE_PORT_MIN
                          (Suc UDP_SOURCE_PORT_MAX - UDP_SOURCE_PORT_MIN) of
                   None \<Rightarrow> (-1, w)
                 | Some p \<Rightarrow>
                     let port = hton16 (of_nat p)
                     in udp_output \<lparr>ep_addr = addr, ep_port = port\<rparr> foreign data
                          (set_udp k (pcb\<lparr>up_local := (up_local pcb)\<lparr>ep_port := port\<rparr>\<rparr>) w))"

text \<open>
  \<^verbatim>\<open>udp_recvfrom\<close> returns its result, the bytes written to the buffer and the sender. One
  round of its loop, from the test of the loop on, with \<open>state\<close> noted on entry; it sleeps
  when the queue is empty.
\<close>

definition udp_recv_loop ::
  "udp_pcb_state \<Rightarrow> nat \<Rightarrow> nat \<Rightarrow> ('d, 'm) udp_state_scheme \<Rightarrow>
     (int \<times> u8 list \<times> endpoint option, udp_pcb_state \<times> nat) blocking \<times> ('d, 'm) udp_state_scheme" where
  "udp_recv_loop state k sz w =
     (let pcb = udp_pcbs w ! k
      in if up_state pcb = state then
           (case list_pop (up_queue pcb) of
              (Some entry, q) \<Rightarrow>
                let len = min sz (unat (uq_len entry))
                in (Returns (int len, take len (uq_data entry), Some (uq_foreign entry)),
                    set_udp k (pcb\<lparr>up_queue := q\<rparr>) w)
            | (None, _) \<Rightarrow>
                (Blocks (state, k), set_udp k (pcb\<lparr>up_cond := cond_sleep (cur_task w) (up_cond pcb)\<rparr>) w))
         else if up_state pcb = UDP_CLOSING then (Returns (-1, [], None), udp_pcb_release k w)
         else (Returns (-1, [], None), w))"

definition udp_recvfrom ::
  "int \<Rightarrow> nat \<Rightarrow> ('d, 'm) udp_state_scheme \<Rightarrow>
     (int \<times> u8 list \<times> endpoint option, udp_pcb_state \<times> nat) blocking \<times> ('d, 'm) udp_state_scheme" where
  "udp_recvfrom i sz w =
     (case udp_pcb_get i (udp_pcbs w) of
        None \<Rightarrow> (Returns (-1, [], None), w)
      | Some k \<Rightarrow> udp_recv_loop (up_state (udp_pcbs w ! k)) k sz w)"

text \<open>The same call when its task has been woken.\<close>

definition udp_recvfrom_woken ::
  "udp_pcb_state \<Rightarrow> nat \<Rightarrow> nat \<Rightarrow> ('d, 'm) udp_state_scheme \<Rightarrow>
     (int \<times> u8 list \<times> endpoint option, udp_pcb_state \<times> nat) blocking \<times> ('d, 'm) udp_state_scheme" where
  "udp_recvfrom_woken state k sz w =
     udp_recv_loop state k sz
       (set_udp k ((udp_pcbs w ! k)\<lparr>up_cond := cond_wake (up_cond (udp_pcbs w ! k))\<rparr>) w)"

definition udp_init :: "('d, 'm) ip_state_scheme \<Rightarrow> int \<times> ('d, 'm) ip_state_scheme" where
  "udp_init w =
     (let (r, w1) = ip_protocol_register IP_PROTOCOL_UDP Udp_input w
      in if r = -1 then (-1, w1) else (0, w1))"

lemmas udp_consts = UDP_PCB_SIZE_def UDP_SOURCE_PORT_MIN_def UDP_SOURCE_PORT_MAX_def UDP_HDR_SIZE_def
  PSEUDO_HDR_SIZE_def UDP_ENDPOINT_STR_LEN_def IP_PAYLOAD_SIZE_MAX_def

section \<open>Well-formed tables\<close>

definition udp_pcb_ok :: "udp_pcb \<Rightarrow> bool" where
  "udp_pcb_ok p \<longleftrightarrow>
     (up_state p = UDP_FREE \<longrightarrow> p = zero_udp_pcb) \<and>
     (up_state p = UDP_CLOSING \<longrightarrow> c_num (up_cond p) \<noteq> 0) \<and>
     (\<forall>e \<in> set (up_queue p). length (uq_data e) = unat (uq_len e))"

definition udp_bound :: "udp_pcb \<Rightarrow> bool" where
  "udp_bound p \<longleftrightarrow> up_state p = UDP_OPEN \<and> ep_port (up_local p) \<noteq> 0"

text \<open>
  Sixteen blocks; a free one is all zeros, a closing one has a sleeper to wait for, and no
  two bound ones have the same local endpoint.
\<close>

definition udp_table :: "udp_pcb list \<Rightarrow> bool" where
  "udp_table ps \<longleftrightarrow>
     length ps = UDP_PCB_SIZE \<and> (\<forall>p \<in> set ps. udp_pcb_ok p) \<and>
     (\<forall>i < length ps. \<forall>j < length ps. udp_bound (ps ! i) \<longrightarrow> udp_bound (ps ! j) \<longrightarrow>
        up_local (ps ! i) = up_local (ps ! j) \<longrightarrow> i = j)"

definition udp_inv :: "('d, 'm) udp_state_scheme \<Rightarrow> bool" where
  "udp_inv w \<longleftrightarrow> udp_table (udp_pcbs w)"

lemma set_udp_simps [simp]:
  "udp_pcbs (set_udp i p w) = (udp_pcbs w)[i := p]" "iface_heap (set_udp i p w) = iface_heap w"
  "routes (set_udp i p w) = routes w" "cur_task (set_udp i p w) = cur_task w"
  "wakeups (set_udp i p w) = wakeups w" "caches (set_udp i p w) = caches w"
  "net_protocols (set_udp i p w) = net_protocols w" "softirqs (set_udp i p w) = softirqs w"
  "ub (set_udp i p w) = ub w" "alloc_ok (set_udp i p w) = alloc_ok w" "dev_heap (set_udp i p w) = dev_heap w"
  by (simp_all add: set_udp_def)

lemma cond_broadcast_simps [simp]:
  "udp_pcbs (cond_broadcast c (w :: ('d, 'm) udp_state_scheme)) = udp_pcbs w"
  "net_protocols (cond_broadcast c (v :: ('d, 'n) net_state_scheme)) = net_protocols v"
  "softirqs (cond_broadcast c (v :: ('d, 'n) net_state_scheme)) = softirqs v"
  "wakeups (cond_broadcast c (v :: ('d, 'n) net_state_scheme)) = wakeups v @ [c_taskid c]"
  by (simp_all add: cond_broadcast_def)

lemma udp_tableD:
  assumes "udp_table ps"
  shows "length ps = 16" and "i < 16 \<Longrightarrow> udp_pcb_ok (ps ! i)"
    and "\<lbrakk>i < 16; j < 16; udp_bound (ps ! i); udp_bound (ps ! j); up_local (ps ! i) = up_local (ps ! j)\<rbrakk>
           \<Longrightarrow> i = j"
  using assms by (auto simp: udp_table_def UDP_PCB_SIZE_def)

lemma udp_table_set:
  assumes t: "udp_table ps" and i: "i < 16" and ok: "udp_pcb_ok p"
    and new: "udp_bound p \<Longrightarrow>
      \<forall>j < 16. j \<noteq> i \<longrightarrow> udp_bound (ps ! j) \<longrightarrow> up_local (ps ! j) \<noteq> up_local p"
  shows "udp_table (ps[i := p])"
proof -
  have n: "length ps = 16" using udp_tableD(1) [OF t] .
  have "\<forall>q \<in> set (ps[i := p]). udp_pcb_ok q"
    using t ok by (auto simp: udp_table_def dest: set_list_update_cases)
  moreover have "k = j" if "k < 16" "j < 16" "udp_bound (ps[i := p] ! k)" "udp_bound (ps[i := p] ! j)"
    "up_local (ps[i := p] ! k) = up_local (ps[i := p] ! j)" for k j
    using that new udp_tableD(3) [OF t, of k j] n i
    by (cases "k = i"; cases "j = i"; simp; metis)
  ultimately show ?thesis using n by (simp add: udp_table_def UDP_PCB_SIZE_def)
qed

text \<open>A block that keeps its endpoint, or is not bound, does not disturb the others.\<close>

lemma udp_table_keep:
  assumes t: "udp_table ps" and i: "i < 16" and ok: "udp_pcb_ok p"
    and "udp_bound p \<Longrightarrow> udp_bound (ps ! i) \<and> up_local p = up_local (ps ! i)"
  shows "udp_table (ps[i := p])"
  using assms udp_tableD(3) [OF t _ i] by (intro udp_table_set [OF t i ok]) metis

lemma udp_inv_set:
  "udp_inv w \<Longrightarrow> udp_table ((udp_pcbs w)[i := p]) \<Longrightarrow> udp_inv (set_udp i p w)"
  by (simp add: udp_inv_def)

lemma udp_pcb_getD:
  "udp_pcb_get i ps = Some k \<Longrightarrow> k < 16 \<and> int k = i \<and> up_state (ps ! k) = UDP_OPEN"
  by (auto simp: udp_pcb_get_def UDP_PCB_SIZE_def split: if_splits)

lemma zero_udp_pcb_ok: "udp_pcb_ok zero_udp_pcb" "\<not> udp_bound zero_udp_pcb"
  by (simp_all add: udp_pcb_ok_def zero_udp_pcb_def udp_bound_def)

lemma udp_pcbs_ip_only: "ip_only w w' \<Longrightarrow> udp_pcbs w' = udp_pcbs (w :: ('d, 'm) udp_state_scheme)"
  by (drule ip_onlyD(1), cases w, cases w') simp

lemma udp_open_inv:
  assumes inv: "udp_inv w"
  shows "udp_inv (snd (udp_open w))"
proof (cases "find_idx (\<lambda>p. up_state p = UDP_FREE) (udp_pcbs w)")
  case None
  with inv show ?thesis by (simp add: udp_open_def udp_pcb_alloc_def)
next
  case (Some i)
  have t: "udp_table (udp_pcbs w)" using inv by (simp add: udp_inv_def)
  have i: "i < 16" "up_state (udp_pcbs w ! i) = UDP_FREE"
    using find_idx_SomeD [OF Some] udp_tableD(1) [OF t] by auto
  then have z: "udp_pcbs w ! i = zero_udp_pcb" using udp_tableD(2) [OF t i(1)] by (simp add: udp_pcb_ok_def)
  have "udp_table ((udp_pcbs w)[i := zero_udp_pcb\<lparr>up_state := UDP_OPEN, up_cond := cond_init\<rparr>])"
    by (rule udp_table_keep [OF t i(1)])
      (simp_all add: udp_pcb_ok_def zero_udp_pcb_def udp_bound_def zero_endpoint_def)
  with inv Some show ?thesis by (simp add: udp_open_def udp_pcb_alloc_def z udp_inv_def)
qed

lemma udp_pcb_release_inv:
  assumes inv: "udp_inv w" and i: "i < 16"
  shows "udp_inv (udp_pcb_release i w)"
proof -
  have t: "udp_table (udp_pcbs w)" using inv by (simp add: udp_inv_def)
  let ?p = "udp_pcbs w ! i"
  have "udp_table ((udp_pcbs w)[i := zero_udp_pcb])"
    by (rule udp_table_keep [OF t i]) (simp_all add: zero_udp_pcb_ok)
  moreover have "udp_table ((udp_pcbs w)[i := ?p\<lparr>up_state := UDP_CLOSING\<rparr>])" if "c_num (up_cond ?p) \<noteq> 0"
    using udp_tableD(2) [OF t i] that
    by (intro udp_table_keep [OF t i]) (auto simp: udp_pcb_ok_def udp_bound_def)
  ultimately show ?thesis
    by (auto simp: udp_pcb_release_def cond_destroy_def EBUSY_def Let_def udp_inv_def)
qed

lemma udp_close_inv: "udp_inv w \<Longrightarrow> udp_inv (snd (udp_close i w))"
  by (auto simp: udp_close_def udp_pcb_release_inv dest: udp_pcb_getD split: option.splits)

lemma udp_select_None:
  "udp_pcb_select a p ps = None \<longleftrightarrow>
     (\<forall>q \<in> set ps. \<not> (up_state q = UDP_OPEN \<and>
        (ep_addr (up_local q) = IP_ADDR_ANY \<or> ep_addr (up_local q) = a) \<and> ep_port (up_local q) = p))"
  by (simp add: udp_pcb_select_def find_idx_None_iff)

lemma udp_bind_inv:
  assumes inv: "udp_inv w"
  shows "udp_inv (snd (udp_bind i local w))"
proof (cases "udp_pcb_get i (udp_pcbs w)")
  case None
  with inv show ?thesis by (simp add: udp_bind_def)
next
  case (Some k)
  have t: "udp_table (udp_pcbs w)" using inv by (simp add: udp_inv_def)
  note k = udp_pcb_getD [OF Some]
  have n: "length (udp_pcbs w) = 16" using udp_tableD(1) [OF t] .
  show ?thesis
  proof (cases "udp_pcb_select (ep_addr local) (ep_port local) (udp_pcbs w)")
    case s: None
    have "udp_table ((udp_pcbs w)[k := (udp_pcbs w ! k)\<lparr>up_local := local\<rparr>])"
    proof (rule udp_table_set [OF t])
      show "udp_pcb_ok ((udp_pcbs w ! k)\<lparr>up_local := local\<rparr>)"
        using udp_tableD(2) [OF t, of k] k by (simp add: udp_pcb_ok_def)
      show "\<forall>j < 16. j \<noteq> k \<longrightarrow> udp_bound (udp_pcbs w ! j) \<longrightarrow>
          up_local (udp_pcbs w ! j) \<noteq> up_local ((udp_pcbs w ! k)\<lparr>up_local := local\<rparr>)"
        using s n by (auto simp: udp_select_None udp_bound_def)
    qed (use k in simp)
    with inv Some s show ?thesis by (simp add: udp_bind_def udp_inv_def)
  qed (use inv Some in \<open>simp add: udp_bind_def\<close>)
qed

text \<open>The search for a source port finds one: there are more ports than blocks.\<close>

lemma udp_port_loop_None:
  "udp_port_loop a ps p n = None \<longleftrightarrow>
     (\<forall>q \<in> {p..<p + n}. udp_pcb_select a (hton16 (of_nat q)) ps \<noteq> None)"
proof (induction n arbitrary: p)
  case 0
  then show ?case by simp
next
  case (Suc n)
  have "{p..<p + Suc n} = insert p {Suc p..<Suc p + n}" by auto
  with Suc show ?case by simp
qed

lemma udp_port_loop_Some:
  "udp_port_loop a ps p n = Some q \<Longrightarrow> p \<le> q \<and> q < p + n \<and> udp_pcb_select a (hton16 (of_nat q)) ps = None"
  by (induction n arbitrary: p) (fastforce split: if_splits)+

lemma of_nat_u16_inj: "p < 65536 \<Longrightarrow> q < 65536 \<Longrightarrow> (of_nat p :: u16) = of_nat q \<longleftrightarrow> p = q"
  by (metis unat_of_nat_u16)

lemma udp_port_found:
  assumes "length ps = 16"
  obtains p where "udp_port_loop a ps UDP_SOURCE_PORT_MIN (Suc UDP_SOURCE_PORT_MAX - UDP_SOURCE_PORT_MIN) = Some p"
    "49152 \<le> p" "p \<le> 65535" "udp_pcb_select a (hton16 (of_nat p)) ps = None"
proof (cases "udp_port_loop a ps 49152 16384")
  case None
  let ?f = "\<lambda>q. hton16 (of_nat q) :: u16"
  have "?f q \<in> (\<lambda>p. ep_port (up_local p)) ` set ps" if "q \<in> {49152..<65536}" for q
  proof -
    have "udp_pcb_select a (?f q) ps \<noteq> None" using None that by (simp add: udp_port_loop_None)
    then obtain p where "p \<in> set ps" "ep_port (up_local p) = ?f q"
      unfolding udp_pcb_select_def find_idx_None_iff by blast
    then show ?thesis by force
  qed
  then have "?f ` {49152..<65536} \<subseteq> (\<lambda>p. ep_port (up_local p)) ` set ps" by blast
  then have "card (?f ` {49152..<65536}) \<le> card ((\<lambda>p. ep_port (up_local p)) ` set ps)"
    by (intro card_mono) simp_all
  also have "\<dots> \<le> 16" using assms card_image_le [of "set ps"] card_length [of ps] by (metis finite_set le_trans)
  finally have "card (?f ` {49152..<65536}) \<le> 16" .
  moreover have "card (?f ` {49152..<65536}) = 16384"
    by (subst card_image) (auto simp: inj_on_def of_nat_u16_inj)
  ultimately show ?thesis by simp
next
  case (Some p)
  from udp_port_loop_Some [OF this] Some that show ?thesis by (simp add: udp_consts)
qed

lemma udp_output_frame:
  assumes "arp_inv w"
  shows "ip_only w (snd (udp_output src dst data w)) \<and> arp_inv (snd (udp_output src dst data w))"
proof -
  have f: "ip_only w (fault w)" "arp_inv (fault w)" using assms by (simp_all add: arp_inv_def fault_def ip_only_def)
  have i: "ip_only w (snd (ip_output p d s t w)) \<and> arp_inv (snd (ip_output p d s t w))" for p d s t
    by (rule ip_output_frame [OF assms])
  show ?thesis
    using f i assms by (simp add: udp_output_def Let_def split: option.splits prod.splits) (metis snd_conv)
qed

lemma udp_sendto_inv:
  assumes inv: "udp_inv w" and arp: "arp_inv w"
  shows "udp_inv (snd (udp_sendto i data foreign w))"
proof (cases "udp_pcb_get i (udp_pcbs w)")
  case None
  with inv show ?thesis by (simp add: udp_sendto_def)
next
  case (Some k)
  have t: "udp_table (udp_pcbs w)" using inv by (simp add: udp_inv_def)
  note k = udp_pcb_getD [OF Some]
  have n: "length (udp_pcbs w) = 16" using udp_tableD(1) [OF t] .
  let ?pcb = "udp_pcbs w ! k"
  have out: "udp_inv (snd (udp_output s foreign data v))" if "udp_inv v" "arp_inv v"
    for s and v :: "('a, 'b) udp_state_scheme"
    using that(1) udp_pcbs_ip_only [OF conjunct1 [OF udp_output_frame [OF that(2)]]]
    by (simp add: udp_inv_def)
  show ?thesis
  proof (cases "if ep_addr (up_local ?pcb) = IP_ADDR_ANY
                   then map_option (\<lambda>f. unicast (iface_heap w f)) (ip_route_get_iface (ep_addr foreign) w)
                   else Some (ep_addr (up_local ?pcb))")
    case n: None
    show ?thesis using inv unfolding udp_sendto_def Some Let_def option.case n by simp
  next
    case a: (Some addr)
    have addr: "ep_addr (up_local ?pcb) = IP_ADDR_ANY \<or> ep_addr (up_local ?pcb) = addr"
      using a by (auto split: if_splits)
    obtain p where p: "udp_port_loop addr (udp_pcbs w) UDP_SOURCE_PORT_MIN
        (Suc UDP_SOURCE_PORT_MAX - UDP_SOURCE_PORT_MIN) = Some p"
      "udp_pcb_select addr (hton16 (of_nat p)) (udp_pcbs w) = None"
      by (rule udp_port_found [OF n])
    let ?p = "?pcb\<lparr>up_local := (up_local ?pcb)\<lparr>ep_port := hton16 (of_nat p)\<rparr>\<rparr>"
    have "udp_table ((udp_pcbs w)[k := ?p])"
    proof (rule udp_table_set [OF t])
      show "udp_pcb_ok ?p" using udp_tableD(2) [OF t, of k] k by (simp add: udp_pcb_ok_def)
      show "\<forall>j < 16. j \<noteq> k \<longrightarrow> udp_bound (udp_pcbs w ! j) \<longrightarrow> up_local (udp_pcbs w ! j) \<noteq> up_local ?p"
        using p(2) n addr by (fastforce simp: udp_select_None udp_bound_def)
    qed (use k in simp)
    then have "udp_inv (set_udp k ?p w)" by (simp add: udp_inv_def)
    moreover have "arp_inv (set_udp k ?p w)" using arp by (simp add: arp_inv_def)
    ultimately show ?thesis
      using out inv arp unfolding udp_sendto_def Some Let_def option.case a p(1) by simp
  qed
qed

section \<open>Delivery\<close>

lemma udp_pcbs_calloc [simp]:
  "udp_pcbs (snd (calloc w)) = udp_pcbs (w :: ('d, 'm) udp_state_scheme)"
  "wakeups (snd (calloc v)) = wakeups (v :: ('d, 'n) net_state_scheme)"
  by (simp_all add: calloc_def)

lemma udp_deliver_cases:
  obtains (no_memory) n where "udp_deliver i foreign data w = w\<lparr>alloc_no := n\<rparr>"
  | (queued) n where "udp_deliver i foreign data w =
      cond_broadcast (up_cond (udp_pcbs w ! i))
        (set_udp i ((udp_pcbs w ! i)\<lparr>up_queue := up_queue (udp_pcbs w ! i) @
           [\<lparr>uq_foreign = foreign, uq_len = of_nat (length data), uq_data = data\<rparr>]\<rparr>)
         (w\<lparr>alloc_no := n\<rparr>))"
    "alloc_ok w (alloc_no w)" "alloc_ok w (Suc (alloc_no w))"
proof -
  let ?n = "alloc_no w"
  consider "\<not> alloc_ok w ?n" | "alloc_ok w ?n" "\<not> alloc_ok w (Suc ?n)"
    | "alloc_ok w ?n" "alloc_ok w (Suc ?n)" by blast
  then show thesis
  proof cases
    case 1
    then show ?thesis by (intro no_memory [of "Suc ?n"]) (simp add: udp_deliver_def calloc_def)
  next
    case 2
    then show ?thesis
      by (intro no_memory [of "Suc (Suc ?n)"]) (simp add: udp_deliver_def calloc_def list_push_def)
  next
    case 3
    then show ?thesis
      by (intro queued [of "Suc (Suc ?n)"]) (simp_all add: udp_deliver_def calloc_def list_push_def Let_def)
  qed
qed

lemma udp_deliver_inv:
  assumes inv: "udp_inv w" and i: "i < 16" and open_i: "up_state (udp_pcbs w ! i) = UDP_OPEN"
    and len: "length data \<le> 65535"
  shows "udp_inv (udp_deliver i foreign data w)"
proof (cases rule: udp_deliver_cases [of i foreign data w])
  case (no_memory n)
  with inv show ?thesis by (simp add: udp_inv_def)
next
  case (queued n)
  have t: "udp_table (udp_pcbs w)" using inv by (simp add: udp_inv_def)
  let ?p = "(udp_pcbs w ! i)\<lparr>up_queue := up_queue (udp_pcbs w ! i) @
      [\<lparr>uq_foreign = foreign, uq_len = of_nat (length data), uq_data = data\<rparr>]\<rparr>"
  have "udp_table ((udp_pcbs w)[i := ?p])"
    using udp_tableD(2) [OF t i] open_i len
    by (intro udp_table_keep [OF t i]) (auto simp: udp_pcb_ok_def udp_bound_def)
  with queued(1) show ?thesis by (simp add: udp_inv_def)
qed

lemma udp_selectD:
  assumes "udp_pcb_select a p ps = Some i"
  shows "i < length ps" "up_state (ps ! i) = UDP_OPEN" "ep_port (up_local (ps ! i)) = p"
    "ep_addr (up_local (ps ! i)) = IP_ADDR_ANY \<or> ep_addr (up_local (ps ! i)) = a"
  using find_idx_SomeD [OF assms [unfolded udp_pcb_select_def]] by auto

lemma udp_inv_fault: "udp_inv w \<Longrightarrow> udp_inv (fault w)"
  by (simp add: udp_inv_def fault_def)

lemma udp_input_inv:
  assumes inv: "udp_inv w"
  shows "udp_inv (udp_input mem len src dst iface w)"
proof -
  have t: "udp_table (udp_pcbs w)" using inv by (simp add: udp_inv_def)
  have d: "udp_inv (udp_deliver i f (take (len - 8) m) w)"
    if "udp_pcb_select dst p (udp_pcbs w) = Some i" "len = unat (v :: u16)" for i f p m v
  proof -
    have "len < 65536" using unat_u16_bound [of v] that(2) by simp
    then show ?thesis
      using udp_selectD [OF that(1)] udp_tableD(1) [OF t] by (intro udp_deliver_inv [OF inv]) simp_all
  qed
  show ?thesis
    using inv d udp_inv_fault [OF inv]
    by (auto simp: udp_input_def Let_def UDP_HDR_SIZE_def split: option.splits)
qed

lemma udp_recv_loop_inv:
  assumes inv: "udp_inv w" and k: "k < 16" "up_state (udp_pcbs w ! k) \<noteq> UDP_FREE"
  shows "udp_inv (snd (udp_recv_loop UDP_OPEN k sz w))"
proof -
  have t: "udp_table (udp_pcbs w)" using inv by (simp add: udp_inv_def)
  let ?p = "udp_pcbs w ! k"
  note ok = udp_tableD(2) [OF t k(1)]
  have pop: "udp_table ((udp_pcbs w)[k := ?p\<lparr>up_queue := q\<rparr>])" if "up_queue ?p = e # q" for e q
    using ok k that by (intro udp_table_keep [OF t k(1)]) (auto simp: udp_pcb_ok_def udp_bound_def)
  show ?thesis
  proof (cases "up_state ?p = UDP_OPEN")
    case False
    then show ?thesis
      using inv k by (auto simp: udp_recv_loop_def Let_def udp_pcb_release_inv)
  next
    case True
    show ?thesis
    proof (cases "up_queue ?p")
      case Nil
      have "udp_table ((udp_pcbs w)[k := ?p\<lparr>up_cond := cond_sleep (cur_task w) (up_cond ?p)\<rparr>])"
        using ok k True by (intro udp_table_keep [OF t k(1)]) (auto simp: udp_pcb_ok_def udp_bound_def)
      with True Nil show ?thesis by (simp add: udp_recv_loop_def Let_def udp_inv_def)
    next
      case (Cons e q)
      with True pop [OF Cons] show ?thesis by (simp add: udp_recv_loop_def Let_def udp_inv_def)
    qed
  qed
qed

lemma udp_recvfrom_inv:
  assumes inv: "udp_inv w"
  shows "udp_inv (snd (udp_recvfrom i sz w))"
  using udp_recv_loop_inv [OF inv] inv
  by (auto simp: udp_recvfrom_def split: option.splits dest!: udp_pcb_getD)

text \<open>A task that sleeps on a block is counted there, so the block is not free.\<close>

lemma udp_recvfrom_woken_inv:
  assumes inv: "udp_inv w" and k: "k < 16" and sleeper: "c_num (up_cond (udp_pcbs w ! k)) \<noteq> 0"
  shows "udp_inv (snd (udp_recvfrom_woken UDP_OPEN k sz w))"
proof -
  have t: "udp_table (udp_pcbs w)" using inv by (simp add: udp_inv_def)
  have n: "length (udp_pcbs w) = 16" using udp_tableD(1) [OF t] .
  let ?p = "udp_pcbs w ! k"
  let ?q = "?p\<lparr>up_cond := cond_wake (up_cond ?p)\<rparr>"
  let ?w = "set_udp k ?q w"
  note ok = udp_tableD(2) [OF t k]
  have nf: "up_state ?p \<noteq> UDP_FREE" using ok sleeper by (auto simp: udp_pcb_ok_def zero_udp_pcb_def)
  show ?thesis
  proof (cases "up_state ?p")
    case UDP_OPEN
    then have "udp_table ((udp_pcbs w)[k := ?q])"
      using ok by (intro udp_table_keep [OF t k]) (auto simp: udp_pcb_ok_def udp_bound_def)
    then have "udp_inv ?w" by (simp add: udp_inv_def)
    then have "udp_inv (snd (udp_recv_loop UDP_OPEN k sz ?w))"
      by (rule udp_recv_loop_inv [OF _ k]) (use n k UDP_OPEN in simp)
    then show ?thesis by (simp add: udp_recvfrom_woken_def)
  next
    case UDP_CLOSING
    then have loop: "snd (udp_recv_loop UDP_OPEN k sz ?w) = udp_pcb_release k ?w"
      using n k by (simp add: udp_recv_loop_def Let_def)
    have "udp_table ((udp_pcbs w)[k := zero_udp_pcb])"
      by (rule udp_table_keep [OF t k]) (simp_all add: zero_udp_pcb_ok)
    moreover have "udp_table ((udp_pcbs w)[k := ?q])" if "c_num (up_cond ?q) \<noteq> 0"
      using ok that UDP_CLOSING by (intro udp_table_keep [OF t k]) (auto simp: udp_pcb_ok_def udp_bound_def)
    moreover have "?q\<lparr>up_state := UDP_CLOSING\<rparr> = ?q" using UDP_CLOSING by simp
    ultimately have "udp_inv (udp_pcb_release k ?w)"
      using n k by (auto simp: udp_pcb_release_def cond_destroy_def EBUSY_def Let_def udp_inv_def)
    with loop show ?thesis by (simp add: udp_recvfrom_woken_def)
  qed (use nf in simp)
qed

section \<open>The datagram on the wire\<close>

definition udp_datagram :: "endpoint \<Rightarrow> endpoint \<Rightarrow> u8 list \<Rightarrow> u8 list" where
  "udp_datagram src dst data =
     (let total = (of_nat (8 + length data) :: u16);
          h = \<lparr>uh_src = ep_port src, uh_dst = ep_port dst, uh_len = hton16 total, uh_sum = 0\<rparr>;
          psum = pseudo_sum (ep_addr src) (ep_addr dst) IP_PROTOCOL_UDP (hton16 total)
      in store_udp_hdr (h\<lparr>uh_sum := the (cksum16 (store_udp_hdr h @ data) total (ucast psum))\<rparr>) @ data)"

lemma length_store_udp_hdr [simp]: "length (store_udp_hdr h) = 8"
  by (simp add: store_udp_hdr_def)

lemma length_udp_datagram [simp]: "length (udp_datagram s d data) = 8 + length data"
  by (simp add: udp_datagram_def Let_def)

lemma load_store_udp_hdr [hdr_simps]: "load_udp_hdr (store_udp_hdr h @ bs) = h"
proof -
  obtain a0 a1 where a: "store16 (uh_src h) = [a0, a1]" "ucast a0 OR push_bit 8 (ucast a1) = uh_src h"
    by (rule store16_bytes)
  obtain b0 b1 where b: "store16 (uh_dst h) = [b0, b1]" "ucast b0 OR push_bit 8 (ucast b1) = uh_dst h"
    by (rule store16_bytes)
  obtain c0 c1 where c: "store16 (uh_len h) = [c0, c1]" "ucast c0 OR push_bit 8 (ucast c1) = uh_len h"
    by (rule store16_bytes)
  obtain d0 d1 where d: "store16 (uh_sum h) = [d0, d1]" "ucast d0 OR push_bit 8 (ucast d1) = uh_sum h"
    by (rule store16_bytes)
  show ?thesis by (simp add: load_udp_hdr_def store_udp_hdr_def load16_def a b c d)
qed

lemma udp_datagram_fields:
  fixes src dst data pad
  defines "m \<equiv> load_udp_hdr (udp_datagram src dst data @ pad)"
  shows "uh_src m = ep_port src" "uh_dst m = ep_port dst" "uh_len m = hton16 (of_nat (8 + length data))"
    "drop 8 (udp_datagram src dst data @ pad) = data @ pad"
  by (simp_all add: m_def udp_datagram_def Let_def hdr_simps)

lemma udp_datagram_verifies:
  assumes len: "length data \<le> 65527"
  shows "cksum16 (udp_datagram src dst data @ pad) (of_nat (8 + length data))
    (ucast (pseudo_sum (ep_addr src) (ep_addr dst) IP_PROTOCOL_UDP (hton16 (of_nat (8 + length data))))) = Some 0"
proof -
  let ?n = "of_nat (8 + length data) :: u16"
  let ?h = "\<lparr>uh_src = ep_port src, uh_dst = ep_port dst, uh_len = hton16 ?n, uh_sum = 0\<rparr>"
  let ?i = "ucast (pseudo_sum (ep_addr src) (ep_addr dst) IP_PROTOCOL_UDP (hton16 ?n)) :: u32"
  let ?pre = "store16 (ep_port src) @ store16 (ep_port dst) @ store16 (hton16 ?n)"
  have s: "store_udp_hdr (?h\<lparr>uh_sum := v\<rparr>) @ xs = ?pre @ store16 v @ xs" for v xs
    by (simp add: store_udp_hdr_def)
  have "unat ?n = 8 + length data" using len by (intro unat_of_nat_u16) simp
  then obtain c where c: "cksum16 (store_udp_hdr ?h @ data) ?n ?i = Some c" by (simp add: cksum16_def)
  then have "cksum16 (?pre @ store16 0 @ data @ []) ?n ?i = Some c" using s [of 0 data] by simp
  moreover have "unat ?i \<le> 65535"
    using unat_u16_bound [of "pseudo_sum (ep_addr src) (ep_addr dst) IP_PROTOCOL_UDP (hton16 ?n)"] by simp
  ultimately have "cksum16 (?pre @ store16 c @ data @ pad) ?n ?i = Some 0"
    using len by (intro cksum16_fill [of _ data ?i ?n "[]" c]) simp_all
  moreover have "udp_datagram src dst data @ pad = store_udp_hdr (?h\<lparr>uh_sum := c\<rparr>) @ data @ pad"
    unfolding udp_datagram_def Let_def c by simp
  ultimately show ?thesis by (simp only: s)
qed

lemma udp_output_datagram:
  assumes "length data \<le> 4068"
  shows "udp_output src dst data w =
    (let (r, w1) = ip_output IP_PROTOCOL_UDP (udp_datagram src dst data) (ep_addr src) (ep_addr dst) w
     in (if r = -1 then -1 else int (length data), w1))"
proof -
  let ?n = "of_nat (8 + length data) :: u16"
  let ?h = "\<lparr>uh_src = ep_port src, uh_dst = ep_port dst, uh_len = hton16 ?n, uh_sum = 0\<rparr>"
  let ?i = "ucast (pseudo_sum (ep_addr src) (ep_addr dst) IP_PROTOCOL_UDP (hton16 ?n)) :: u32"
  have "unat ?n = 8 + length data" using assms by (intro unat_of_nat_u16) simp
  then obtain c where c: "cksum16 (store_udp_hdr ?h @ data) ?n ?i = Some c" by (simp add: cksum16_def)
  have l: "\<not> IP_PAYLOAD_SIZE_MAX - UDP_HDR_SIZE < length data"
    using assms by (simp add: udp_consts ip_consts)
  have d: "udp_datagram src dst data = store_udp_hdr (?h\<lparr>uh_sum := c\<rparr>) @ data"
    unfolding udp_datagram_def Let_def c by simp
  show ?thesis
    unfolding udp_output_def Let_def if_not_P [OF l] d unfolding UDP_HDR_SIZE_def c
    by (simp add: case_prod_beta)
qed

lemma udp_input_datagram:
  assumes len: "length data \<le> 65527"
  shows "udp_input (udp_datagram src dst data @ pad) (8 + length data) (ep_addr src) (ep_addr dst) iface w =
    (case udp_pcb_select (ep_addr dst) (ep_port dst) (udp_pcbs w) of
       None \<Rightarrow> w | Some i \<Rightarrow> udp_deliver i src data w)"
proof -
  have n: "unat (of_nat (8 + length data) :: u16) = 8 + length data"
    using len by (intro unat_of_nat_u16) simp
  note v = udp_datagram_verifies [OF len, of src dst pad]
  note f = udp_datagram_fields [of src dst data pad]
  have e: "\<lparr>ep_addr = ep_addr src, ep_port = ep_port src\<rparr> = src" by simp
  show ?thesis
    unfolding udp_input_def Let_def f v UDP_HDR_SIZE_def ntoh16_hton16 n
    by (simp add: e split: option.splits)
qed

section \<open>Claims\<close>

lemma ip_addr_ntop_16: "16 \<le> sz \<Longrightarrow> ip_addr_ntop n sz = ip_addr_ntop n IP_ADDR_STR_LEN"
proof -
  assume sz: "16 \<le> sz"
  let ?s = "dec8 (store32 n ! 0) @ ''.'' @ dec8 (store32 n ! 1) @ ''.'' @ dec8 (store32 n ! 2) @ ''.'' @
    dec8 (store32 n ! 3)"
  have "length ?s \<le> 15"
    using length_dec8 [of "store32 n ! 0"] length_dec8 [of "store32 n ! 1"]
      length_dec8 [of "store32 n ! 2"] length_dec8 [of "store32 n ! 3"] by simp
  with sz show ?thesis by (simp add: ip_addr_ntop_def Let_def snprintf_def IP_ADDR_STR_LEN_def)
qed

lemma dec_of_nat_no_colon: "CHR '':'' \<notin> set (dec_of_nat n)"
proof
  assume "CHR '':'' \<in> set (dec_of_nat n)"
  then obtain d where d: "d < 10" "CHR '':'' = digit_char d" using dec_of_nat_digits [of n] by blast
  then have "d < 16" by simp
  from digit_char_plain [OF this] d(2) show False by simp
qed

text \<open>An endpoint with a port survives being printed and parsed.\<close>

lemma udp_endpoint_roundtrip:
  assumes "ep_port n \<noteq> 0"
  shows "udp_endpoint_pton (udp_endpoint_ntop n UDP_ENDPOINT_STR_LEN) m = Some (0, n)"
proof -
  let ?a = "ip_addr_ntop (ep_addr n) IP_ADDR_STR_LEN"
  let ?port = "unat (ntoh16 (ep_port n))"
  have port: "?port < 65536" by (rule unat_u16_bound)
  obtain host where host: "?a = host" "length host \<le> 15" "\<And>m. ip_addr_pton host m = (0, ep_addr n)"
    using ip_addr_text [of "ep_addr n"]
    by (metis (no_types, lifting) ip_addr_ntop_def IP_ADDR_STR_LEN_def snprintf_def length_take
        min.cobounded2 diff_Suc_1 numeral_eq_Suc pred_numeral_simps(2) semiring_norm(26,27,28))
  have "length (dec_of_nat ?port) \<le> 5" using port by (intro length_dec_of_nat) auto
  with host(2) have s: "udp_endpoint_ntop n UDP_ENDPOINT_STR_LEN = host @ CHR '':'' # dec_of_nat ?port"
    using ip_addr_ntop_16 [of 22 "ep_addr n"] host(1)
    by (simp add: udp_endpoint_ntop_def Let_def snprintf_def UDP_ENDPOINT_STR_LEN_def IP_ADDR_STR_LEN_def)
  have "strtol 10 (dec_of_nat ?port) = (int ?port, [])"
    using strtol_dec_of_nat [of ?port "[]"] port by simp
  moreover have "0 < ?port"
  proof -
    have "ntoh16 (ep_port n) \<noteq> 0" using assms by (metis hton16_0 hton16_ntoh16)
    then show ?thesis using unat_gt_0 by blast
  qed
  moreover have "hton16 (of_int (int ?port)) = ep_port n" by simp
  moreover have "int ?port \<noteq> 0" "\<not> 65535 < int ?port" using \<open>0 < ?port\<close> port by linarith+
  ultimately show ?thesis
    using host(2,3) port
    by (simp add: udp_endpoint_pton_def s strrchr_append [OF dec_of_nat_no_colon] IP_ADDR_STR_LEN_def
        Let_def del: of_int_of_nat_eq)
qed

lemma udp_endpoint_roundtrip_witness:
  "udp_endpoint_pton (udp_endpoint_ntop \<lparr>ep_addr = 0x0100007f, ep_port = 0x3500\<rparr> UDP_ENDPOINT_STR_LEN)
     zero_endpoint = Some (0, \<lparr>ep_addr = 0x0100007f, ep_port = 0x3500\<rparr>)"
  by (rule udp_endpoint_roundtrip) simp

text \<open>
  C6: every operation keeps the table well formed; in particular no two blocks ever have the
  same local endpoint, so that a datagram has at most one exact receiver.
\<close>

theorem udp_table_kept:
  assumes "udp_inv w" and "arp_inv w"
  shows "udp_inv (snd (udp_open w)) \<and> udp_inv (snd (udp_close i w)) \<and> udp_inv (snd (udp_bind i local w)) \<and>
         udp_inv (snd (udp_sendto i data foreign w)) \<and> udp_inv (udp_input mem len src dst iface w) \<and>
         udp_inv (snd (udp_recvfrom i sz w)) \<and>
         (k < 16 \<and> c_num (up_cond (udp_pcbs w ! k)) \<noteq> 0 \<longrightarrow>
            udp_inv (snd (udp_recvfrom_woken UDP_OPEN k sz w)))"
  using assms
  by (simp add: udp_open_inv udp_close_inv udp_bind_inv udp_sendto_inv udp_input_inv udp_recvfrom_inv
      udp_recvfrom_woken_inv)

definition udp_host :: "u8 list \<Rightarrow> u32 \<Rightarrow> u32 \<Rightarrow> u8 list \<Rightarrow> unit udp_state" where
  "udp_host mac ip peer peer_mac =
     ip_state.extend (ip_host mac ip peer peer_mac) \<lparr>udp_pcbs = replicate 16 zero_udp_pcb\<rparr>"

lemma udp_host_fields:
  "caches (udp_host mac ip peer pm) = caches (ip_host mac ip peer pm)"
  "udp_pcbs (udp_host mac ip peer pm) = replicate 16 zero_udp_pcb"
  by (simp_all only: udp_host_def ip_state.defs udp_state.simps ip_state.simps arp_state.simps
      net_state.simps env.simps)

lemma udp_host_ready:
  shows "udp_inv (udp_host mac ip peer pm)"
    and "length pm = 6 \<Longrightarrow> arp_inv (udp_host mac ip peer pm)"
proof -
  have "\<forall>p \<in> set (replicate 16 zero_udp_pcb). udp_pcb_ok p \<and> \<not> udp_bound p"
    by (simp add: zero_udp_pcb_ok)
  then show "udp_inv (udp_host mac ip peer pm)"
    unfolding udp_inv_def udp_table_def udp_host_fields UDP_PCB_SIZE_def by (metis length_replicate nth_mem)
  show "length pm = 6 \<Longrightarrow> arp_inv (udp_host mac ip peer pm)"
    using ip_host_arp(1) [of pm mac ip peer] unfolding arp_inv_def udp_host_fields .
qed

theorem udp_table_kept_witness: "udp_inv (snd (udp_open (udp_host [1] 2 3 [1, 2, 3, 4, 5, 6])))"
proof -
  have "arp_inv (udp_host [1] 2 3 [1, 2, 3, 4, 5, 6])" by (rule udp_host_ready) simp
  from udp_table_kept [OF udp_host_ready(1) this] show ?thesis by blast
qed

text \<open>
  C7: end to end. What \<^verbatim>\<open>udp_output\<close> gives to the IP layer is one datagram; where it arrives,
  padded or not, \<^verbatim>\<open>udp_input\<close> appends exactly the data and the sender's endpoint to the queue
  of the block that has the destination, and wakes its sleeper. No other block changes.
\<close>

theorem udp_delivery:
  fixes wA :: "('d, 'm) ip_state_scheme" and wB :: "('e, 'n) udp_state_scheme"
  assumes len: "length data \<le> 4068" and inv: "udp_inv wB"
    and sel: "udp_pcb_select (ep_addr dst) (ep_port dst) (udp_pcbs wB) = Some i"
    and mem: "alloc_ok wB (alloc_no wB)" "alloc_ok wB (Suc (alloc_no wB))"
  obtains dgram where
    "udp_output src dst data wA =
       (let (r, w1) = ip_output IP_PROTOCOL_UDP dgram (ep_addr src) (ep_addr dst) wA
        in (if r = -1 then -1 else int (length data), w1))"
    and "let wB' = udp_input (dgram @ pad) (length dgram) (ep_addr src) (ep_addr dst) iface wB;
             p = udp_pcbs wB ! i
         in udp_pcbs wB' = (udp_pcbs wB)[i := p\<lparr>up_queue := up_queue p @
              [\<lparr>uq_foreign = src, uq_len = of_nat (length data), uq_data = data\<rparr>]\<rparr>] \<and>
            wakeups wB' = wakeups wB @ [c_taskid (up_cond p)]"
proof (rule that)
  show "udp_output src dst data wA =
       (let (r, w1) = ip_output IP_PROTOCOL_UDP (udp_datagram src dst data) (ep_addr src) (ep_addr dst) wA
        in (if r = -1 then -1 else int (length data), w1))"
    using len by (rule udp_output_datagram)
  have "length data \<le> 65527" using len by simp
  from udp_input_datagram [OF this, of src dst pad iface wB] sel
  have "udp_input (udp_datagram src dst data @ pad) (length (udp_datagram src dst data))
      (ep_addr src) (ep_addr dst) iface wB = udp_deliver i src data wB"
    by simp
  then show "let wB' = udp_input (udp_datagram src dst data @ pad) (length (udp_datagram src dst data))
             (ep_addr src) (ep_addr dst) iface wB; p = udp_pcbs wB ! i
         in udp_pcbs wB' = (udp_pcbs wB)[i := p\<lparr>up_queue := up_queue p @
              [\<lparr>uq_foreign = src, uq_len = of_nat (length data), uq_data = data\<rparr>]\<rparr>] \<and>
            wakeups wB' = wakeups wB @ [c_taskid (up_cond p)]"
    using mem by (simp add: Let_def udp_deliver_def calloc_def list_push_def)
qed

theorem udp_delivery_witness:
  "\<exists>dgram. let wB' = udp_input (dgram @ [0]) (length dgram) 7 9 0
       (snd (udp_bind 0 \<lparr>ep_addr = 0, ep_port = 0x3500\<rparr> (snd (udp_open (udp_host [1] 2 3 [1, 2, 3, 4, 5, 6])))))
     in up_queue (udp_pcbs wB' ! 0) =
          [\<lparr>uq_foreign = \<lparr>ep_addr = 7, ep_port = 5\<rparr>, uq_len = 2, uq_data = [65, 66]\<rparr>]"
proof -
  let ?h = "udp_host [1] 2 3 [1, 2, 3, 4, 5, 6]"
  let ?o = "snd (udp_open ?h)"
  let ?w = "snd (udp_bind 0 \<lparr>ep_addr = 0, ep_port = 0x3500\<rparr> ?o)"
  let ?z = "replicate 15 zero_udp_pcb"
  have inv: "udp_inv ?w" by (intro udp_bind_inv udp_open_inv udp_host_ready)
  have h: "udp_pcbs ?h = zero_udp_pcb # ?z" by (simp add: udp_host_fields replicate_Suc [symmetric] del: replicate_Suc)
  have op: "?o = set_udp 0 (zero_udp_pcb\<lparr>up_state := UDP_OPEN, up_cond := cond_init\<rparr>) ?h"
    by (simp add: udp_open_def udp_pcb_alloc_def h) (simp add: zero_udp_pcb_def)
  have o_pcbs: "udp_pcbs ?o = zero_udp_pcb\<lparr>up_state := UDP_OPEN, up_cond := cond_init\<rparr> # ?z"
    by (simp add: op h)
  have none: "udp_pcb_select 0 0x3500 (udp_pcbs ?o) = None"
    by (simp add: udp_select_None o_pcbs) (simp add: zero_udp_pcb_def zero_endpoint_def)
  have w: "?w = set_udp 0 (zero_udp_pcb\<lparr>up_state := UDP_OPEN, up_cond := cond_init,
      up_local := \<lparr>ep_addr = 0, ep_port = 0x3500\<rparr>\<rparr>) ?o"
    using none by (simp add: udp_bind_def udp_pcb_get_def o_pcbs UDP_PCB_SIZE_def)
  have w_pcbs: "udp_pcbs ?w = zero_udp_pcb\<lparr>up_state := UDP_OPEN, up_cond := cond_init,
      up_local := \<lparr>ep_addr = 0, ep_port = 0x3500\<rparr>\<rparr> # ?z"
    by (simp add: w o_pcbs)
  have sel: "udp_pcb_select (ep_addr \<lparr>ep_addr = 9, ep_port = 0x3500\<rparr>) (ep_port \<lparr>ep_addr = 9, ep_port = 0x3500\<rparr>)
      (udp_pcbs ?w) = Some 0"
    by (simp add: udp_pcb_select_def w_pcbs IP_ADDR_ANY_def)
  have mem: "alloc_ok ?w k" for k
  proof -
    have "alloc_ok ?w = alloc_ok ?o" by (subst w) simp
    also have "\<dots> = alloc_ok ?h" by (subst op) simp
    finally show ?thesis
      by (simp add: udp_host_def ip_host_def host_def arp_boot_def net_boot_def
          net_state.defs arp_state.defs ip_state.defs Let_def)
  qed
  obtain dgram where "let wB' = udp_input (dgram @ [0]) (length dgram) 7 9 0 ?w; p = udp_pcbs ?w ! 0
      in udp_pcbs wB' = (udp_pcbs ?w)[0 := p\<lparr>up_queue := up_queue p @
           [\<lparr>uq_foreign = \<lparr>ep_addr = 7, ep_port = 5\<rparr>, uq_len = of_nat (length [65, 66 :: u8]), uq_data = [65, 66]\<rparr>]\<rparr>] \<and>
         wakeups wB' = wakeups ?w @ [c_taskid (up_cond p)]"
    by (rule udp_delivery [OF _ inv sel mem mem, of "[65, 66]" "\<lparr>ep_addr = 7, ep_port = 5\<rparr>"
          "ip_host [1] 2 3 [4]" "[0]" 0]) simp_all
  then have "up_queue (udp_pcbs (udp_input (dgram @ [0]) (length dgram) 7 9 0 ?w) ! 0) =
      [\<lparr>uq_foreign = \<lparr>ep_addr = 7, ep_port = 5\<rparr>, uq_len = 2, uq_data = [65, 66]\<rparr>]"
    by (simp add: Let_def w_pcbs) (simp add: zero_udp_pcb_def)
  then show ?thesis by (auto simp: Let_def)
qed

text \<open>The source address of a datagram: the block's own, or that of the interface it leaves by.\<close>

definition udp_source_addr :: "nat \<Rightarrow> endpoint \<Rightarrow> ('d, 'm) udp_state_scheme \<Rightarrow> u32 option" where
  "udp_source_addr k foreign w =
     (if ep_addr (up_local (udp_pcbs w ! k)) = IP_ADDR_ANY
      then map_option (\<lambda>f. unicast (iface_heap w f)) (ip_route_get_iface (ep_addr foreign) w)
      else Some (ep_addr (up_local (udp_pcbs w ! k))))"

text \<open>
  A datagram sent from an unbound block gets a source port: one of the dynamic range on
  which no open block receives at the source address yet; the block is bound to it and the
  datagram carries it. The search never fails.
\<close>

lemma udp_source_port:
  assumes inv: "udp_inv w" and get: "udp_pcb_get i (udp_pcbs w) = Some k"
    and unbound: "ep_port (up_local (udp_pcbs w ! k)) = 0"
    and addr: "udp_source_addr k foreign w = Some a"
  obtains p where "49152 \<le> p" "p \<le> 65535"
    "udp_pcb_select a (hton16 (of_nat p)) (udp_pcbs w) = None"
    "udp_sendto i data foreign w =
       udp_output \<lparr>ep_addr = a, ep_port = hton16 (of_nat p)\<rparr> foreign data
         (set_udp k ((udp_pcbs w ! k)\<lparr>up_local := (up_local (udp_pcbs w ! k))
             \<lparr>ep_port := hton16 (of_nat p)\<rparr>\<rparr>) w)"
proof -
  let ?pcb = "udp_pcbs w ! k"
  have "length (udp_pcbs w) = 16" using inv udp_tableD(1) by (simp add: udp_inv_def)
  then obtain p where p: "udp_port_loop a (udp_pcbs w) UDP_SOURCE_PORT_MIN
      (Suc UDP_SOURCE_PORT_MAX - UDP_SOURCE_PORT_MIN) = Some p"
    "49152 \<le> p" "p \<le> 65535" "udp_pcb_select a (hton16 (of_nat p)) (udp_pcbs w) = None"
    by (rule udp_port_found)
  show thesis
    by (rule that [OF p(2-4)])
      (use addr unbound in \<open>simp add: udp_sendto_def get udp_source_addr_def Let_def p(1)\<close>)
qed

lemma udp_source_port_witness:
  "\<exists>p. 49152 \<le> p \<and> udp_sendto 0 [1] \<lparr>ep_addr = 0x0102a8c0, ep_port = 5\<rparr>
      (set_udp 0 \<lparr>up_state = UDP_OPEN, up_local = \<lparr>ep_addr = 7, ep_port = 0\<rparr>, up_queue = [], up_cond = cond_init\<rparr>
        (udp_host [1] 2 3 [4])) =
     udp_output \<lparr>ep_addr = 7, ep_port = hton16 (of_nat p)\<rparr> \<lparr>ep_addr = 0x0102a8c0, ep_port = 5\<rparr> [1]
      (set_udp 0 \<lparr>up_state = UDP_OPEN, up_local = \<lparr>ep_addr = 7, ep_port = hton16 (of_nat p)\<rparr>, up_queue = [],
         up_cond = cond_init\<rparr> (set_udp 0 \<lparr>up_state = UDP_OPEN, up_local = \<lparr>ep_addr = 7, ep_port = 0\<rparr>,
         up_queue = [], up_cond = cond_init\<rparr> (udp_host [1] 2 3 [4])))"
  (is "\<exists>p. _ \<and> udp_sendto 0 [1] ?f (set_udp 0 ?p ?h) = _")
proof -
  let ?w = "set_udp 0 ?p ?h"
  have nth: "udp_pcbs ?w ! 0 = ?p" by (simp add: udp_host_fields)
  have t: "udp_table (udp_pcbs ?h)" using udp_host_ready(1) by (simp only: udp_inv_def)
  have "udp_table ((udp_pcbs ?h)[0 := ?p])"
    by (rule udp_table_keep [OF t]) (simp_all add: udp_pcb_ok_def udp_bound_def)
  then have inv: "udp_inv ?w" by (simp add: udp_inv_def)
  have get: "udp_pcb_get 0 (udp_pcbs ?w) = Some 0"
    by (simp add: udp_pcb_get_def UDP_PCB_SIZE_def udp_host_fields)
  have port: "ep_port (up_local (udp_pcbs ?w ! 0)) = 0"
    and addr: "udp_source_addr 0 ?f ?w = Some 7"
    unfolding udp_source_addr_def nth by (simp_all add: IP_ADDR_ANY_def)
  obtain q where "49152 \<le> q"
    "udp_sendto 0 [1] ?f ?w = udp_output \<lparr>ep_addr = 7, ep_port = hton16 (of_nat q)\<rparr> ?f [1]
       (set_udp 0 ((udp_pcbs ?w ! 0)\<lparr>up_local := (up_local (udp_pcbs ?w ! 0))
          \<lparr>ep_port := hton16 (of_nat q)\<rparr>\<rparr>) ?w)"
    using udp_source_port [OF inv get port addr] by metis
  then show ?thesis unfolding nth by (intro exI [of _ q]) simp
qed

text \<open>
  Receiving takes the oldest datagram, cut to the size of the buffer, without waiting;
  only on an empty queue does the caller sleep, counted in the condition of the block.
\<close>

lemma udp_receive:
  assumes "udp_pcb_get i (udp_pcbs w) = Some k"
  shows "udp_recvfrom i sz w =
    (case up_queue (udp_pcbs w ! k) of
       [] \<Rightarrow> (Blocks (UDP_OPEN, k), set_udp k ((udp_pcbs w ! k)\<lparr>up_cond :=
               \<lparr>c_taskid = cur_task w, c_num = c_num (up_cond (udp_pcbs w ! k)) + 1\<rparr>\<rparr>) w)
     | e # es \<Rightarrow>
         (Returns (int (min sz (unat (uq_len e))), take (min sz (unat (uq_len e))) (uq_data e),
                   Some (uq_foreign e)),
          set_udp k ((udp_pcbs w ! k)\<lparr>up_queue := es\<rparr>) w))"
  using assms udp_pcb_getD [OF assms]
  by (simp add: udp_recvfrom_def udp_recv_loop_def cond_sleep_def Let_def split: list.splits)

lemma udp_receive_witness:
  "fst (udp_recvfrom 0 100 (set_udp 0 \<lparr>up_state = UDP_OPEN, up_local = zero_endpoint,
      up_queue = [\<lparr>uq_foreign = \<lparr>ep_addr = 7, ep_port = 5\<rparr>, uq_len = 2, uq_data = [65, 66]\<rparr>], up_cond = cond_init\<rparr>
      (udp_host [1] 2 3 [4]))) = Returns (2, [65, 66], Some \<lparr>ep_addr = 7, ep_port = 5\<rparr>)"
  (is "fst (udp_recvfrom 0 100 (set_udp 0 ?p ?h)) = _")
proof -
  have get: "udp_pcb_get 0 (udp_pcbs (set_udp 0 ?p ?h)) = Some 0"
    by (simp add: udp_pcb_get_def UDP_PCB_SIZE_def udp_host_fields)
  show ?thesis
    unfolding udp_receive [OF get] by (simp add: udp_host_fields)
qed

end
