(* ===== verification/TcpPcb.thy ===== *)
theory TcpPcb
  imports Udp
begin

text \<open>
  \<^verbatim>\<open>kernel/network/tcp.c\<close>, part 1: control blocks and their table, release, the output of
  segments and the retransmission queue.
\<close>

section \<open>Data\<close>

definition TCP_FLG_FIN :: u8 where "TCP_FLG_FIN = 0x01"
definition TCP_FLG_SYN :: u8 where "TCP_FLG_SYN = 0x02"
definition TCP_FLG_RST :: u8 where "TCP_FLG_RST = 0x04"
definition TCP_FLG_PSH :: u8 where "TCP_FLG_PSH = 0x08"
definition TCP_FLG_ACK :: u8 where "TCP_FLG_ACK = 0x10"
definition TCP_FLG_URG :: u8 where "TCP_FLG_URG = 0x20"

definition TCP_FLG_ISSET :: "u8 \<Rightarrow> u8 \<Rightarrow> bool" where
  "TCP_FLG_ISSET x y \<longleftrightarrow> (x AND 0x3f) AND y \<noteq> 0"

definition TCP_PCB_SIZE :: nat where "TCP_PCB_SIZE = 16"
definition TCP_BUF_SIZE :: nat where "TCP_BUF_SIZE = 8192"
definition TCP_PCB_MODE_RFC793 :: int where "TCP_PCB_MODE_RFC793 = 1"
definition TCP_PCB_MODE_SOCKET :: int where "TCP_PCB_MODE_SOCKET = 2"
definition TCP_DEFAULT_RTO :: u32 where "TCP_DEFAULT_RTO = 200000"
definition TCP_RETRANSMIT_DEADLINE :: int where "TCP_RETRANSMIT_DEADLINE = 12"
definition TCP_TIMEWAIT_SEC :: int where "TCP_TIMEWAIT_SEC = 30"
definition TCP_SOURCE_PORT_MIN :: nat where "TCP_SOURCE_PORT_MIN = 49152"
definition TCP_SOURCE_PORT_MAX :: nat where "TCP_SOURCE_PORT_MAX = 65535"
definition TCP_HDR_SIZE :: nat where "TCP_HDR_SIZE = 20"

datatype tcp_pcb_state = TCP_FREE | TCP_CLOSED | TCP_LISTEN | TCP_SYN_SENT | TCP_SYN_RECEIVED
  | TCP_ESTABLISHED | TCP_FIN_WAIT1 | TCP_FIN_WAIT2 | TCP_CLOSING | TCP_TIME_WAIT | TCP_CLOSE_WAIT
  | TCP_LAST_ACK

record tcp_hdr =
  th_src :: u16
  th_dst :: u16
  th_seq :: u32
  th_ack :: u32
  th_off :: u8
  th_flg :: u8
  th_wnd :: u16
  th_sum :: u16
  th_up :: u16

definition store_tcp_hdr :: "tcp_hdr \<Rightarrow> u8 list" where
  "store_tcp_hdr h =
     store16 (th_src h) @ store16 (th_dst h) @ store32 (th_seq h) @ store32 (th_ack h) @
     [th_off h, th_flg h] @ store16 (th_wnd h) @ store16 (th_sum h) @ store16 (th_up h)"

definition load_tcp_hdr :: "u8 list \<Rightarrow> tcp_hdr" where
  "load_tcp_hdr bs =
     \<lparr>th_src = load16 bs 0, th_dst = load16 bs 2, th_seq = load32 bs 4, th_ack = load32 bs 8,
      th_off = bs ! 12, th_flg = bs ! 13, th_wnd = load16 bs 14, th_sum = load16 bs 16,
      th_up = load16 bs 18\<rparr>"

record tcp_segment_info =
  seg_seq :: u32
  seg_ack :: u32
  seg_len :: u16
  seg_wnd :: u16
  seg_up :: u16

text \<open>An entry of the retransmission queue; the data follows the structure.\<close>

record tcp_queue_entry =
  tq_first :: timeval
  tq_last :: timeval
  tq_rto :: u32
  tq_seq :: u32
  tq_flg :: u8
  tq_data :: "u8 list"

record tcp_pcb =
  tp_state :: tcp_pcb_state
  tp_mode :: int
  tp_local :: endpoint
  tp_foreign :: endpoint
  snd_nxt :: u32
  snd_una :: u32
  snd_wnd :: u16
  snd_up :: u16
  snd_wl1 :: u32
  snd_wl2 :: u32
  tp_iss :: u32
  rcv_nxt :: u32
  rcv_wnd :: u16
  rcv_up :: u16
  tp_irs :: u32
  tp_mtu :: u16
  tp_mss :: u16
  tp_buf :: "u8 list"
  tp_cond :: cond
  tp_queue :: "tcp_queue_entry list"
  tp_tw_timer :: timeval
  tp_parent :: "nat option"
  tp_backlog :: "nat list"

definition zero_tcp_pcb :: tcp_pcb where
  "zero_tcp_pcb = \<lparr>tp_state = TCP_FREE, tp_mode = 0, tp_local = zero_endpoint, tp_foreign = zero_endpoint,
     snd_nxt = 0, snd_una = 0, snd_wnd = 0, snd_up = 0, snd_wl1 = 0, snd_wl2 = 0, tp_iss = 0,
     rcv_nxt = 0, rcv_wnd = 0, rcv_up = 0, tp_irs = 0, tp_mtu = 0, tp_mss = 0,
     tp_buf = replicate TCP_BUF_SIZE 0, tp_cond = \<lparr>c_taskid = 0, c_num = 0\<rparr>, tp_queue = [],
     tp_tw_timer = timerclear, tp_parent = None, tp_backlog = []\<rparr>"

text \<open>Pointers to control blocks are their indices in the table.\<close>

record 'd tcp_state = "'d udp_state" +
  tcp_pcbs :: "tcp_pcb list"

definition tcp_at :: "nat \<Rightarrow> ('d, 'm) tcp_state_scheme \<Rightarrow> tcp_pcb" where
  "tcp_at p w = tcp_pcbs w ! p"

definition set_tcp :: "nat \<Rightarrow> tcp_pcb \<Rightarrow> ('d, 'm) tcp_state_scheme \<Rightarrow> ('d, 'm) tcp_state_scheme" where
  "set_tcp p pcb w = w\<lparr>tcp_pcbs := (tcp_pcbs w)[p := pcb]\<rparr>"

text \<open>Assignments to fields of a block.\<close>

definition upd_tcp ::
  "nat \<Rightarrow> (tcp_pcb \<Rightarrow> tcp_pcb) \<Rightarrow> ('d, 'm) tcp_state_scheme \<Rightarrow> ('d, 'm) tcp_state_scheme" where
  "upd_tcp p f w = set_tcp p (f (tcp_at p w)) w"

section \<open>Text forms\<close>

text \<open>The endpoint functions are those of UDP, word for word.\<close>

definition tcp_endpoint_pton :: "string \<Rightarrow> endpoint \<Rightarrow> (int \<times> endpoint) option" where
  "tcp_endpoint_pton p n = udp_endpoint_pton p n"

definition tcp_endpoint_ntop :: "endpoint \<Rightarrow> nat \<Rightarrow> string" where
  "tcp_endpoint_ntop n sz = udp_endpoint_ntop n sz"

definition tcp_flg_ntoa :: "u8 \<Rightarrow> string" where
  "tcp_flg_ntoa flg =
     snprintf 9 (''--'' @
       [if TCP_FLG_ISSET flg TCP_FLG_URG then CHR ''U'' else CHR ''-'',
        if TCP_FLG_ISSET flg TCP_FLG_ACK then CHR ''A'' else CHR ''-'',
        if TCP_FLG_ISSET flg TCP_FLG_PSH then CHR ''P'' else CHR ''-'',
        if TCP_FLG_ISSET flg TCP_FLG_RST then CHR ''R'' else CHR ''-'',
        if TCP_FLG_ISSET flg TCP_FLG_SYN then CHR ''S'' else CHR ''-'',
        if TCP_FLG_ISSET flg TCP_FLG_FIN then CHR ''F'' else CHR ''-''])"

section \<open>The table\<close>

definition tcp_pcb_alloc :: "('d, 'm) tcp_state_scheme \<Rightarrow> nat option \<times> ('d, 'm) tcp_state_scheme" where
  "tcp_pcb_alloc w =
     (case find_idx (\<lambda>p. tp_state p = TCP_FREE) (tcp_pcbs w) of
        None \<Rightarrow> (None, w)
      | Some i \<Rightarrow> (Some i, upd_tcp i (\<lambda>p. p\<lparr>tp_state := TCP_CLOSED, tp_cond := cond_init\<rparr>) w))"

text \<open>
  \<^verbatim>\<open>tcp_pcb_release\<close> calls itself for the blocks of the backlog. \<open>tcp_release_enter\<close> is the
  body up to the second loop, \<open>True\<close> if it gets there; \<open>tcp_release_calls\<close> runs the stack of
  the calls that are in that loop, the innermost first.
\<close>

definition tcp_release_enter ::
  "nat \<Rightarrow> ('d, 'm) tcp_state_scheme \<Rightarrow> bool \<times> ('d, 'm) tcp_state_scheme" where
  "tcp_release_enter p w =
     (let (r, c) = cond_destroy (tp_cond (tcp_at p w))
      in if r = -1 then (False, cond_broadcast (tp_cond (tcp_at p w)) w)
         else (True, upd_tcp p (\<lambda>pcb. pcb\<lparr>tp_cond := c, tp_queue := []\<rparr>) w))"

definition backlog_size :: "('d, 'm) tcp_state_scheme \<Rightarrow> nat" where
  "backlog_size w = sum_list (map (\<lambda>p. length (tp_backlog p)) (tcp_pcbs w))"

lemma sum_list_update_nat:
  "i < length xs \<Longrightarrow> sum_list ((xs :: nat list)[i := v]) + xs ! i = sum_list xs + v"
  by (induction xs arbitrary: i) (auto split: nat.splits)

lemma tcp_pcbs_set [simp]: "tcp_pcbs (set_tcp p pcb w) = (tcp_pcbs w)[p := pcb]"
  by (simp add: set_tcp_def)

lemma tcp_pcbs_upd: "tcp_pcbs (upd_tcp p f w) = (tcp_pcbs w)[p := f (tcp_pcbs w ! p)]"
  by (simp add: upd_tcp_def tcp_at_def)

lemma tcp_pcbs_broadcast [simp]:
  "tcp_pcbs (cond_broadcast c w) = tcp_pcbs (w :: ('d, 'm) tcp_state_scheme)"
  by (simp add: cond_broadcast_def)

lemma backlog_size_upd:
  "p < length (tcp_pcbs w) \<Longrightarrow>
     backlog_size (upd_tcp p f w) + length (tp_backlog (tcp_pcbs w ! p)) =
       backlog_size w + length (tp_backlog (f (tcp_pcbs w ! p)))"
  using sum_list_update_nat [of p "map (\<lambda>p. length (tp_backlog p)) (tcp_pcbs w)"]
  by (simp add: backlog_size_def tcp_pcbs_upd map_update)

lemma backlog_size_keep:
  "(\<And>pcb. tp_backlog (f pcb) = tp_backlog pcb) \<Longrightarrow> backlog_size (upd_tcp p f w) = backlog_size w"
proof (cases "p < length (tcp_pcbs w)")
  case True
  assume "\<And>pcb. tp_backlog (f pcb) = tp_backlog pcb"
  with backlog_size_upd [OF True, of f] show ?thesis by simp
next
  case False
  then show ?thesis by (simp add: backlog_size_def tcp_pcbs_upd list_update_beyond)
qed

lemma backlog_size_enter: "backlog_size (snd (tcp_release_enter p w)) = backlog_size w"
  by (auto simp: tcp_release_enter_def Let_def backlog_size_keep split: prod.splits)
    (simp add: backlog_size_def)

lemma zero_backlog: "tp_backlog zero_tcp_pcb = []"
  by (simp add: zero_tcp_pcb_def)

function tcp_release_calls ::
  "nat list \<Rightarrow> ('d, 'm) tcp_state_scheme \<Rightarrow> ('d, 'm) tcp_state_scheme" where
  "tcp_release_calls [] w = w"
| "tcp_release_calls (p # st) w =
     (if length (tcp_pcbs w) \<le> p then fault w
      else case tp_backlog (tcp_at p w) of
        [] \<Rightarrow> tcp_release_calls st (set_tcp p zero_tcp_pcb w)
      | est # rest \<Rightarrow>
          (case tcp_release_enter est (upd_tcp p (\<lambda>pcb. pcb\<lparr>tp_backlog := rest\<rparr>) w) of
             (go, w1) \<Rightarrow> tcp_release_calls (if go then est # p # st else p # st) w1))"
  by pat_completeness auto

termination
proof (relation "measure (\<lambda>(st, w). 2 * backlog_size w + length st)", goal_cases)
  case 1
  show ?case by simp
next
  case (2 p st w)
  then have "backlog_size (set_tcp p zero_tcp_pcb w) = backlog_size w"
    using backlog_size_upd [of p w "\<lambda>_. zero_tcp_pcb"]
    by (simp add: upd_tcp_def tcp_at_def zero_backlog)
  then show ?case by simp
next
  case (3 p st w est rest go w1)
  let ?w = "upd_tcp p (\<lambda>pcb. pcb\<lparr>tp_backlog := rest\<rparr>) w"
  have "Suc (backlog_size ?w) = backlog_size w"
    using 3 backlog_size_upd [of p w "\<lambda>pcb. pcb\<lparr>tp_backlog := rest\<rparr>"] by (simp add: tcp_at_def)
  moreover have "backlog_size w1 = backlog_size ?w"
    using 3 backlog_size_enter [of est ?w] by (metis snd_conv)
  ultimately show ?case by auto
qed

definition tcp_pcb_release :: "nat \<Rightarrow> ('d, 'm) tcp_state_scheme \<Rightarrow> ('d, 'm) tcp_state_scheme" where
  "tcp_pcb_release p w =
     (let (go, w1) = tcp_release_enter p w in if go then tcp_release_calls [p] w1 else w1)"

text \<open>The loop of \<^verbatim>\<open>tcp_pcb_select\<close> from block \<open>i\<close> on.\<close>

fun tcp_select_loop :: "endpoint \<Rightarrow> endpoint option \<Rightarrow> nat \<Rightarrow> nat option \<Rightarrow> tcp_pcb list \<Rightarrow> nat option" where
  "tcp_select_loop local foreign i listen_pcb [] = listen_pcb"
| "tcp_select_loop local foreign i listen_pcb (pcb # ps) =
     (if (ep_addr (tp_local pcb) = IP_ADDR_ANY \<or> ep_addr (tp_local pcb) = ep_addr local) \<and>
         ep_port (tp_local pcb) = ep_port local
      then (case foreign of
              None \<Rightarrow> Some i
            | Some f \<Rightarrow>
                if ep_addr (tp_foreign pcb) = ep_addr f \<and> ep_port (tp_foreign pcb) = ep_port f then Some i
                else if tp_state pcb = TCP_LISTEN \<and> ep_addr (tp_foreign pcb) = IP_ADDR_ANY \<and>
                        ep_port (tp_foreign pcb) = 0
                then tcp_select_loop local foreign (Suc i) (Some i) ps
                else tcp_select_loop local foreign (Suc i) listen_pcb ps)
      else tcp_select_loop local foreign (Suc i) listen_pcb ps)"

definition tcp_pcb_select :: "endpoint \<Rightarrow> endpoint option \<Rightarrow> tcp_pcb list \<Rightarrow> nat option" where
  "tcp_pcb_select local foreign ps = tcp_select_loop local foreign 0 None ps"

definition tcp_pcb_get :: "int \<Rightarrow> tcp_pcb list \<Rightarrow> nat option" where
  "tcp_pcb_get i ps =
     (if i < 0 \<or> i \<ge> int TCP_PCB_SIZE then None
      else if tp_state (ps ! nat i) = TCP_FREE then None else Some (nat i))"

section \<open>Output and retransmission\<close>

text \<open>The part of \<^verbatim>\<open>tcp_retransmit_queue_add\<close> where each of the two allocations may fail.\<close>

definition tcp_retransmit_queue_add ::
  "nat \<Rightarrow> u32 \<Rightarrow> u8 \<Rightarrow> u8 list \<Rightarrow> ('d, 'm) tcp_state_scheme \<Rightarrow> int \<times> ('d, 'm) tcp_state_scheme" where
  "tcp_retransmit_queue_add p seq flg data w =
     (let (ok, w1) = calloc w
      in if \<not> ok then (-1, w1)
         else
           let now = gettimeofday w1;
               entry = \<lparr>tq_first = now, tq_last = now, tq_rto = TCP_DEFAULT_RTO, tq_seq = seq,
                        tq_flg = flg, tq_data = data\<rparr>;
               (ok2, w2) = calloc w1;
               (r, q) = list_push ok2 entry (tp_queue (tcp_at p w2))
           in if r = None then (-1, w2) else (0, upd_tcp p (\<lambda>pcb. pcb\<lparr>tp_queue := q\<rparr>) w2))"

text \<open>The loop of \<^verbatim>\<open>tcp_retransmit_queue_cleanup\<close> over the queue.\<close>

fun tcp_cleanup_loop :: "u32 \<Rightarrow> tcp_queue_entry list \<Rightarrow> tcp_queue_entry list" where
  "tcp_cleanup_loop una [] = []"
| "tcp_cleanup_loop una (e # es) = (if tq_seq e \<ge> una then e # es else tcp_cleanup_loop una es)"

definition tcp_retransmit_queue_cleanup ::
  "nat \<Rightarrow> ('d, 'm) tcp_state_scheme \<Rightarrow> ('d, 'm) tcp_state_scheme" where
  "tcp_retransmit_queue_cleanup p w =
     upd_tcp p (\<lambda>pcb. pcb\<lparr>tp_queue := tcp_cleanup_loop (snd_una pcb) (tp_queue pcb)\<rparr>) w"

definition tcp_set_timewait_timer :: "nat \<Rightarrow> ('d, 'm) tcp_state_scheme \<Rightarrow> ('d, 'm) tcp_state_scheme" where
  "tcp_set_timewait_timer p w =
     (let now = gettimeofday w
      in upd_tcp p (\<lambda>pcb. pcb\<lparr>tp_tw_timer := now\<lparr>tv_sec := tv_sec now + TCP_TIMEWAIT_SEC\<rparr>\<rparr>) w)"

text \<open>A payload that does not fit the buffer of \<open>IP_PAYLOAD_SIZE_MAX\<close> bytes is an undefined access.\<close>

definition tcp_output_segment ::
  "u32 \<Rightarrow> u32 \<Rightarrow> u8 \<Rightarrow> u16 \<Rightarrow> u8 list \<Rightarrow> endpoint \<Rightarrow> endpoint \<Rightarrow> ('d, 'm) ip_state_scheme \<Rightarrow>
     int \<times> ('d, 'm) ip_state_scheme" where
  "tcp_output_segment seq ack flg wnd data local foreign w =
     (if IP_PAYLOAD_SIZE_MAX < TCP_HDR_SIZE + length data then (-1, fault w)
      else
        let hdr = \<lparr>th_src = ep_port local, th_dst = ep_port foreign, th_seq = hton32 seq,
                   th_ack = hton32 ack, th_off = push_bit 4 (of_nat (TCP_HDR_SIZE div 4)), th_flg = flg,
                   th_wnd = hton16 wnd, th_sum = 0, th_up = 0\<rparr>;
            total = (of_nat (TCP_HDR_SIZE + length data) :: u16);
            psum = pseudo_sum (ep_addr local) (ep_addr foreign) IP_PROTOCOL_TCP (hton16 total)
        in case cksum16 (store_tcp_hdr hdr @ data) total (ucast psum) of
             None \<Rightarrow> (-1, fault w)
           | Some s \<Rightarrow>
               let (r, w1) = ip_output IP_PROTOCOL_TCP (store_tcp_hdr (hdr\<lparr>th_sum := s\<rparr>) @ data)
                               (ep_addr local) (ep_addr foreign) w
               in if r = -1 then (-1, w1) else (int (length data), w1))"

definition tcp_output ::
  "nat \<Rightarrow> u8 \<Rightarrow> u8 list \<Rightarrow> ('d, 'm) tcp_state_scheme \<Rightarrow> int \<times> ('d, 'm) tcp_state_scheme" where
  "tcp_output p flg data w =
     (let pcb = tcp_at p w;
          seq = (if TCP_FLG_ISSET flg TCP_FLG_SYN then tp_iss pcb else snd_nxt pcb);
          w1 = (if TCP_FLG_ISSET flg (TCP_FLG_SYN OR TCP_FLG_FIN) \<or> data \<noteq> []
                then snd (tcp_retransmit_queue_add p seq flg data w) else w)
      in tcp_output_segment seq (rcv_nxt pcb) flg (rcv_wnd pcb) data (tp_local pcb) (tp_foreign pcb) w1)"

text \<open>
  The callback of \<^verbatim>\<open>queue_foreach\<close>: the state (in which it changes its block) and one entry.
\<close>

definition tcp_retransmit_queue_emit ::
  "nat \<Rightarrow> ('d, 'm) tcp_state_scheme \<Rightarrow> tcp_queue_entry \<Rightarrow> ('d, 'm) tcp_state_scheme \<times> tcp_queue_entry" where
  "tcp_retransmit_queue_emit p w entry =
     (let now = gettimeofday w; diff = timersub now (tq_first entry)
      in if tv_sec diff \<ge> TCP_RETRANSMIT_DEADLINE
         then (cond_broadcast (tp_cond (tcp_at p w)) (upd_tcp p (\<lambda>pcb. pcb\<lparr>tp_state := TCP_CLOSED\<rparr>) w), entry)
         else if timer_less (timeval_add_usec (tq_last entry) (int (unat (tq_rto entry)))) now
         then let pcb = tcp_at p w
              in (snd (tcp_output_segment (tq_seq entry) (rcv_nxt pcb) (tq_flg entry) (rcv_wnd pcb)
                        (tq_data entry) (tp_local pcb) (tp_foreign pcb) w),
                  entry\<lparr>tq_last := now, tq_rto := tq_rto entry * 2\<rparr>)
         else (w, entry))"

lemmas tcp_consts = TCP_PCB_SIZE_def TCP_BUF_SIZE_def TCP_HDR_SIZE_def TCP_SOURCE_PORT_MIN_def
  TCP_SOURCE_PORT_MAX_def TCP_PCB_MODE_RFC793_def TCP_PCB_MODE_SOCKET_def

lemmas tcp_flags = TCP_FLG_FIN_def TCP_FLG_SYN_def TCP_FLG_RST_def TCP_FLG_PSH_def TCP_FLG_ACK_def
  TCP_FLG_URG_def

end
