(* ===== verification/TcpInput.thy ===== *)
theory TcpInput
  imports TcpPcb
begin

text \<open>
  \<^verbatim>\<open>kernel/network/tcp.c\<close>, part 2: reception. \<^verbatim>\<open>tcp_segment_arrives\<close> is the composition of
  its steps, as the comments of the code number them after RFC 793; a step says whether the
  processing goes on.
\<close>

section \<open>Segment arrives\<close>

text \<open>\<open>False\<close>: the function returns here.\<close>

definition and_then :: "bool \<times> 's \<Rightarrow> ('s \<Rightarrow> bool \<times> 's) \<Rightarrow> bool \<times> 's" where
  "and_then r f = (if fst r then f (snd r) else r)"

definition tcp_send_rst ::
  "tcp_segment_info \<Rightarrow> endpoint \<Rightarrow> endpoint \<Rightarrow> ('d, 'm) tcp_state_scheme \<Rightarrow> ('d, 'm) tcp_state_scheme" where
  "tcp_send_rst seg local foreign w =
     snd (tcp_output_segment (seg_ack seg) 0 TCP_FLG_RST 0 [] local foreign w)"

definition tcp_wakeup :: "nat \<Rightarrow> ('d, 'm) tcp_state_scheme \<Rightarrow> ('d, 'm) tcp_state_scheme" where
  "tcp_wakeup p w = cond_broadcast (tp_cond (tcp_at p w)) w"

definition tcp_set_state ::
  "nat \<Rightarrow> tcp_pcb_state \<Rightarrow> ('d, 'm) tcp_state_scheme \<Rightarrow> ('d, 'm) tcp_state_scheme" where
  "tcp_set_state p st w = upd_tcp p (\<lambda>pcb. pcb\<lparr>tp_state := st\<rparr>) w"

text \<open>The state becomes CLOSED and the block is released.\<close>

definition tcp_drop :: "nat \<Rightarrow> ('d, 'm) tcp_state_scheme \<Rightarrow> ('d, 'm) tcp_state_scheme" where
  "tcp_drop p w = tcp_pcb_release p (tcp_set_state p TCP_CLOSED w)"

text \<open>No block, or a closed one.\<close>

definition tcp_seg_closed ::
  "tcp_segment_info \<Rightarrow> u8 \<Rightarrow> endpoint \<Rightarrow> endpoint \<Rightarrow> ('d, 'm) tcp_state_scheme \<Rightarrow>
     ('d, 'm) tcp_state_scheme" where
  "tcp_seg_closed seg flags local foreign w =
     (if TCP_FLG_ISSET flags TCP_FLG_RST then w
      else if \<not> TCP_FLG_ISSET flags TCP_FLG_ACK
      then snd (tcp_output_segment 0 (seg_seq seg + ucast (seg_len seg)) (TCP_FLG_RST OR TCP_FLG_ACK) 0 []
                  local foreign w)
      else tcp_send_rst seg local foreign w)"

definition tcp_seg_listen ::
  "nat \<Rightarrow> tcp_segment_info \<Rightarrow> u8 \<Rightarrow> endpoint \<Rightarrow> endpoint \<Rightarrow> ('d, 'm) tcp_state_scheme \<Rightarrow>
     ('d, 'm) tcp_state_scheme" where
  "tcp_seg_listen p seg flags local foreign w =
     (if TCP_FLG_ISSET flags TCP_FLG_RST then w
      else if TCP_FLG_ISSET flags TCP_FLG_ACK then tcp_send_rst seg local foreign w
      else if TCP_FLG_ISSET flags TCP_FLG_SYN then
        (case (if tp_mode (tcp_at p w) = TCP_PCB_MODE_SOCKET
               then (case tcp_pcb_alloc w of
                       (None, w1) \<Rightarrow> (None, w1)
                     | (Some n, w1) \<Rightarrow>
                         (Some n, upd_tcp n (\<lambda>pcb. pcb\<lparr>tp_mode := TCP_PCB_MODE_SOCKET,
                                                       tp_parent := Some p\<rparr>) w1))
               else (Some p, w)) of
           (None, w1) \<Rightarrow> w1
         | (Some q, w1) \<Rightarrow>
             let (iss, w2) = random w1;
                 w3 = upd_tcp q (\<lambda>pcb. pcb\<lparr>tp_local := local, tp_foreign := foreign,
                        rcv_wnd := of_nat TCP_BUF_SIZE, rcv_nxt := seg_seq seg + 1,
                        tp_irs := seg_seq seg, tp_iss := iss\<rparr>) w2;
                 w4 = snd (tcp_output q (TCP_FLG_SYN OR TCP_FLG_ACK) [] w3)
             in upd_tcp q (\<lambda>pcb. pcb\<lparr>snd_nxt := tp_iss pcb + 1, snd_una := tp_iss pcb,
                                     tp_state := TCP_SYN_RECEIVED\<rparr>) w4)
      else w)"

definition tcp_seg_syn_sent ::
  "nat \<Rightarrow> tcp_segment_info \<Rightarrow> u8 \<Rightarrow> endpoint \<Rightarrow> endpoint \<Rightarrow> ('d, 'm) tcp_state_scheme \<Rightarrow>
     ('d, 'm) tcp_state_scheme" where
  "tcp_seg_syn_sent p seg flags local foreign w =
     (let pcb = tcp_at p w; ack = TCP_FLG_ISSET flags TCP_FLG_ACK
      in if ack \<and> (seg_ack seg \<le> tp_iss pcb \<or> seg_ack seg > snd_nxt pcb)
         then tcp_send_rst seg local foreign w
         else
           let acceptable = (ack \<and> snd_una pcb \<le> seg_ack seg \<and> seg_ack seg \<le> snd_nxt pcb)
           in if TCP_FLG_ISSET flags TCP_FLG_RST then (if acceptable then tcp_drop p w else w)
              else if TCP_FLG_ISSET flags TCP_FLG_SYN then
                let w1 = upd_tcp p (\<lambda>pcb. pcb\<lparr>rcv_nxt := seg_seq seg + 1, tp_irs := seg_seq seg\<rparr>) w;
                    w2 = (if acceptable
                          then tcp_retransmit_queue_cleanup p
                                 (upd_tcp p (\<lambda>pcb. pcb\<lparr>snd_una := seg_ack seg\<rparr>) w1)
                          else w1)
                in if snd_una (tcp_at p w2) > tp_iss (tcp_at p w2) then
                     let w3 = snd (tcp_output p TCP_FLG_ACK [] (tcp_set_state p TCP_ESTABLISHED w2))
                     in tcp_wakeup p (upd_tcp p (\<lambda>pcb. pcb\<lparr>snd_wnd := seg_wnd seg, snd_wl1 := seg_seq seg,
                                                           snd_wl2 := seg_ack seg\<rparr>) w3)
                   else snd (tcp_output p (TCP_FLG_SYN OR TCP_FLG_ACK) []
                               (tcp_set_state p TCP_SYN_RECEIVED w2))
              else w)"

text \<open>First: the sequence number.\<close>

definition tcp_acceptable :: "tcp_pcb \<Rightarrow> tcp_segment_info \<Rightarrow> bool" where
  "tcp_acceptable pcb seg \<longleftrightarrow>
     (let nxt = rcv_nxt pcb; end = rcv_nxt pcb + ucast (rcv_wnd pcb); last = seg_seq seg + ucast (seg_len seg) - 1
      in if seg_len seg = 0 then
           (if rcv_wnd pcb = 0 then seg_seq seg = nxt else nxt \<le> seg_seq seg \<and> seg_seq seg < end)
         else rcv_wnd pcb \<noteq> 0 \<and>
           ((nxt \<le> seg_seq seg \<and> seg_seq seg < end) \<or> (nxt \<le> last \<and> last < end)))"

definition tcp_synchronized :: "tcp_pcb_state \<Rightarrow> bool" where
  "tcp_synchronized st \<longleftrightarrow>
     st \<in> {TCP_SYN_RECEIVED, TCP_ESTABLISHED, TCP_FIN_WAIT1, TCP_FIN_WAIT2, TCP_CLOSE_WAIT, TCP_CLOSING,
           TCP_LAST_ACK, TCP_TIME_WAIT}"

definition tcp_check_seq ::
  "nat \<Rightarrow> tcp_segment_info \<Rightarrow> u8 \<Rightarrow> ('d, 'm) tcp_state_scheme \<Rightarrow> bool \<times> ('d, 'm) tcp_state_scheme" where
  "tcp_check_seq p seg flags w =
     (if tcp_synchronized (tp_state (tcp_at p w)) \<and> \<not> tcp_acceptable (tcp_at p w) seg
      then (False, if \<not> TCP_FLG_ISSET flags TCP_FLG_RST then snd (tcp_output p TCP_FLG_ACK [] w) else w)
      else (True, w))"

text \<open>Second: RST. Fourth: SYN.\<close>

definition tcp_check_rst ::
  "nat \<Rightarrow> u8 \<Rightarrow> ('d, 'm) tcp_state_scheme \<Rightarrow> bool \<times> ('d, 'm) tcp_state_scheme" where
  "tcp_check_rst p flags w =
     (if tcp_synchronized (tp_state (tcp_at p w)) \<and> TCP_FLG_ISSET flags TCP_FLG_RST
      then (False, tcp_drop p w) else (True, w))"

definition tcp_check_syn ::
  "nat \<Rightarrow> u8 \<Rightarrow> ('d, 'm) tcp_state_scheme \<Rightarrow> bool \<times> ('d, 'm) tcp_state_scheme" where
  "tcp_check_syn p flags w =
     (if tcp_synchronized (tp_state (tcp_at p w)) \<and> TCP_FLG_ISSET flags TCP_FLG_SYN
      then (False, tcp_drop p (snd (tcp_output p TCP_FLG_RST [] w))) else (True, w))"

text \<open>
  Fifth: ACK. First the case of SYN-RECEIVED, which falls through to the one the synchronised
  states share; then the two together with the rest of the switch.
\<close>

definition tcp_ack_syn_received ::
  "nat \<Rightarrow> tcp_segment_info \<Rightarrow> endpoint \<Rightarrow> endpoint \<Rightarrow> ('d, 'm) tcp_state_scheme \<Rightarrow>
     bool \<times> ('d, 'm) tcp_state_scheme" where
  "tcp_ack_syn_received p seg local foreign w =
     (let pcb = tcp_at p w
      in if snd_una pcb \<le> seg_ack seg \<and> seg_ack seg \<le> snd_nxt pcb then
           let w1 = tcp_wakeup p (tcp_set_state p TCP_ESTABLISHED w)
           in (True,
               case tp_parent (tcp_at p w1) of
                 None \<Rightarrow> w1
               | Some parent \<Rightarrow>
                   let (ok, w2) = calloc w1;
                       (_, q) = list_push ok p (tp_backlog (tcp_at parent w2))
                   in tcp_wakeup parent (upd_tcp parent (\<lambda>pcb. pcb\<lparr>tp_backlog := q\<rparr>) w2))
         else (False, tcp_send_rst seg local foreign w))"

definition tcp_ack_common ::
  "nat \<Rightarrow> tcp_segment_info \<Rightarrow> ('d, 'm) tcp_state_scheme \<Rightarrow> bool \<times> ('d, 'm) tcp_state_scheme" where
  "tcp_ack_common p seg w =
     (let pcb = tcp_at p w
      in if \<not> (snd_una pcb < seg_ack seg \<and> seg_ack seg \<le> snd_nxt pcb) \<and>
            \<not> seg_ack seg < snd_una pcb \<and> seg_ack seg > snd_nxt pcb
         then (False, snd (tcp_output p TCP_FLG_ACK [] w))
         else
           let w1 = (if snd_una pcb < seg_ack seg \<and> seg_ack seg \<le> snd_nxt pcb then
                       let w0 = tcp_retransmit_queue_cleanup p
                                  (upd_tcp p (\<lambda>pcb. pcb\<lparr>snd_una := seg_ack seg\<rparr>) w)
                       in if snd_wl1 pcb < seg_seq seg \<or>
                             (snd_wl1 pcb = seg_seq seg \<and> snd_wl2 pcb \<le> seg_ack seg)
                          then upd_tcp p (\<lambda>pcb. pcb\<lparr>snd_wnd := seg_wnd seg, snd_wl1 := seg_seq seg,
                                                    snd_wl2 := seg_ack seg\<rparr>) w0
                          else w0
                     else w)
           in (True,
               if tp_state (tcp_at p w1) = TCP_FIN_WAIT1 \<and> seg_ack seg = snd_nxt (tcp_at p w1)
               then tcp_set_state p TCP_FIN_WAIT2 w1
               else if tp_state (tcp_at p w1) = TCP_CLOSING \<and> seg_ack seg = snd_nxt (tcp_at p w1)
               then tcp_wakeup p (tcp_set_timewait_timer p (tcp_set_state p TCP_TIME_WAIT w1))
               else w1))"

definition tcp_check_ack ::
  "nat \<Rightarrow> tcp_segment_info \<Rightarrow> u8 \<Rightarrow> endpoint \<Rightarrow> endpoint \<Rightarrow> ('d, 'm) tcp_state_scheme \<Rightarrow>
     bool \<times> ('d, 'm) tcp_state_scheme" where
  "tcp_check_ack p seg flags local foreign w =
     (if \<not> TCP_FLG_ISSET flags TCP_FLG_ACK then (False, w)
      else
        let st = tp_state (tcp_at p w)
        in if st = TCP_SYN_RECEIVED then
             and_then (tcp_ack_syn_received p seg local foreign w) (tcp_ack_common p seg)
           else if st \<in> {TCP_ESTABLISHED, TCP_FIN_WAIT1, TCP_FIN_WAIT2, TCP_CLOSE_WAIT, TCP_CLOSING} then
             tcp_ack_common p seg w
           else if st = TCP_LAST_ACK then
             (False, if seg_ack seg = snd_nxt (tcp_at p w) then tcp_drop p w else w)
           else if st = TCP_TIME_WAIT then
             (True, if TCP_FLG_ISSET flags TCP_FLG_FIN then tcp_set_timewait_timer p w else w)
           else (True, w))"

text \<open>
  Seventh: the text. \<open>mem\<close> is the memory from the data pointer on. The copy goes to the buffer
  behind the bytes that wait there; nothing compares its length with the window. To read
  behind \<open>mem\<close> or to write behind the buffer is an undefined access, which sets the flag; only the
  bytes that are in \<open>mem\<close> and in the buffer are followed. The function goes on and takes the length off the window in
  any case, so that the window wraps around when the data was longer.
\<close>

definition tcp_text_fits :: "tcp_pcb \<Rightarrow> u8 list \<Rightarrow> nat \<Rightarrow> bool" where
  "tcp_text_fits pcb mem len \<longleftrightarrow>
     len \<le> length mem \<and> size_sub TCP_BUF_SIZE (unat (rcv_wnd pcb)) + len \<le> TCP_BUF_SIZE"

definition tcp_segment_text ::
  "nat \<Rightarrow> tcp_segment_info \<Rightarrow> u8 list \<Rightarrow> nat \<Rightarrow> ('d, 'm) tcp_state_scheme \<Rightarrow>
     bool \<times> ('d, 'm) tcp_state_scheme" where
  "tcp_segment_text p seg mem len w =
     (let pcb = tcp_at p w; offset = size_sub TCP_BUF_SIZE (unat (rcv_wnd pcb)); bytes = take len mem
      in if tp_state pcb \<in> {TCP_ESTABLISHED, TCP_FIN_WAIT1, TCP_FIN_WAIT2} \<and> len \<noteq> 0 then
           let w1 = upd_tcp p (\<lambda>pcb. pcb\<lparr>tp_buf := take TCP_BUF_SIZE
                          (take offset (tp_buf pcb) @ bytes @ drop (offset + length bytes) (tp_buf pcb)),
                        rcv_nxt := seg_seq seg + ucast (seg_len seg),
                        rcv_wnd := rcv_wnd pcb - of_nat len\<rparr>)
                      (if tcp_text_fits pcb mem len then w else fault w)
           in (True, tcp_wakeup p (snd (tcp_output p TCP_FLG_ACK [] w1)))
         else (True, w))"

text \<open>Eighth: FIN.\<close>

definition tcp_check_fin ::
  "nat \<Rightarrow> tcp_segment_info \<Rightarrow> u8 \<Rightarrow> ('d, 'm) tcp_state_scheme \<Rightarrow> ('d, 'm) tcp_state_scheme" where
  "tcp_check_fin p seg flags w =
     (if \<not> TCP_FLG_ISSET flags TCP_FLG_FIN then w
      else if tp_state (tcp_at p w) \<in> {TCP_CLOSED, TCP_LISTEN, TCP_SYN_SENT} then w
      else
        let w1 = snd (tcp_output p TCP_FLG_ACK [] (upd_tcp p (\<lambda>pcb. pcb\<lparr>rcv_nxt := seg_seq seg + 1\<rparr>) w))
        in case tp_state (tcp_at p w1) of
             TCP_SYN_RECEIVED \<Rightarrow> tcp_wakeup p (tcp_set_state p TCP_CLOSE_WAIT w1)
           | TCP_ESTABLISHED \<Rightarrow> tcp_wakeup p (tcp_set_state p TCP_CLOSE_WAIT w1)
           | TCP_FIN_WAIT1 \<Rightarrow>
               if seg_ack seg = snd_nxt (tcp_at p w1)
               then tcp_set_timewait_timer p (tcp_set_state p TCP_TIME_WAIT w1)
               else tcp_set_state p TCP_CLOSING w1
           | TCP_FIN_WAIT2 \<Rightarrow> tcp_set_timewait_timer p (tcp_set_state p TCP_TIME_WAIT w1)
           | TCP_TIME_WAIT \<Rightarrow> tcp_set_timewait_timer p w1
           | _ \<Rightarrow> w1)"

definition tcp_seg_otherwise ::
  "nat \<Rightarrow> tcp_segment_info \<Rightarrow> u8 \<Rightarrow> u8 list \<Rightarrow> nat \<Rightarrow> endpoint \<Rightarrow> endpoint \<Rightarrow>
     ('d, 'm) tcp_state_scheme \<Rightarrow> ('d, 'm) tcp_state_scheme" where
  "tcp_seg_otherwise p seg flags mem len local foreign w =
     snd (and_then (and_then (and_then (and_then (and_then
            (tcp_check_seq p seg flags w)
            (tcp_check_rst p flags))
            (tcp_check_syn p flags))
            (tcp_check_ack p seg flags local foreign))
            (tcp_segment_text p seg mem len))
            (\<lambda>w. (True, tcp_check_fin p seg flags w)))"

definition tcp_segment_arrives ::
  "tcp_segment_info \<Rightarrow> u8 \<Rightarrow> u8 list \<Rightarrow> nat \<Rightarrow> endpoint \<Rightarrow> endpoint \<Rightarrow> ('d, 'm) tcp_state_scheme \<Rightarrow>
     ('d, 'm) tcp_state_scheme" where
  "tcp_segment_arrives seg flags mem len local foreign w =
     (case tcp_pcb_select local (Some foreign) (tcp_pcbs w) of
        None \<Rightarrow> tcp_seg_closed seg flags local foreign w
      | Some p \<Rightarrow>
          (case tp_state (tcp_at p w) of
             TCP_CLOSED \<Rightarrow> tcp_seg_closed seg flags local foreign w
           | TCP_LISTEN \<Rightarrow> tcp_seg_listen p seg flags local foreign w
           | TCP_SYN_SENT \<Rightarrow> tcp_seg_syn_sent p seg flags local foreign w
           | _ \<Rightarrow> tcp_seg_otherwise p seg flags mem len local foreign w))"

section \<open>Input and timer\<close>

definition tcp_input ::
  "u8 list \<Rightarrow> nat \<Rightarrow> u32 \<Rightarrow> u32 \<Rightarrow> nat \<Rightarrow> ('d, 'm) tcp_state_scheme \<Rightarrow> ('d, 'm) tcp_state_scheme" where
  "tcp_input mem len src dst iface w =
     (if len < TCP_HDR_SIZE then w
      else case cksum16 mem (of_nat len) (ucast (pseudo_sum src dst IP_PROTOCOL_TCP (hton16 (of_nat len)))) of
        None \<Rightarrow> fault w
      | Some s \<Rightarrow>
          if s \<noteq> 0 then w
          else if src = IP_ADDR_BROADCAST \<or> src = broadcast (iface_heap w iface) \<or>
                  dst = IP_ADDR_BROADCAST \<or> dst = broadcast (iface_heap w iface) then w
          else if length mem < TCP_HDR_SIZE then fault w
          else
            let hdr = load_tcp_hdr mem;
                hlen = unat (push_bit 2 (drop_bit 4 (th_off hdr)));
                len1 = (of_nat (size_sub len hlen) :: u16);
                len2 = (if TCP_FLG_ISSET (th_flg hdr) TCP_FLG_SYN then len1 + 1 else len1);
                len3 = (if TCP_FLG_ISSET (th_flg hdr) TCP_FLG_FIN then len2 + 1 else len2)
            in tcp_segment_arrives
                 \<lparr>seg_seq = ntoh32 (th_seq hdr), seg_ack = ntoh32 (th_ack hdr), seg_len = len3,
                  seg_wnd = ntoh16 (th_wnd hdr), seg_up = ntoh16 (th_up hdr)\<rparr>
                 (th_flg hdr) (drop hlen mem) (size_sub len hlen)
                 \<lparr>ep_addr = dst, ep_port = th_dst hdr\<rparr> \<lparr>ep_addr = src, ep_port = th_src hdr\<rparr> w)"

text \<open>The body of the loop of \<^verbatim>\<open>tcp_timer\<close>.\<close>

definition tcp_timer_pcb :: "nat \<Rightarrow> ('d, 'm) tcp_state_scheme \<Rightarrow> ('d, 'm) tcp_state_scheme" where
  "tcp_timer_pcb p w =
     (if tp_state (tcp_at p w) = TCP_FREE then w
      else if tp_state (tcp_at p w) = TCP_TIME_WAIT \<and> timer_less (tp_tw_timer (tcp_at p w)) (gettimeofday w)
      then tcp_pcb_release p w
      else let (w1, q) = list_foreach (tcp_retransmit_queue_emit p) w (tp_queue (tcp_at p w))
           in upd_tcp p (\<lambda>pcb. pcb\<lparr>tp_queue := q\<rparr>) w1)"

definition tcp_timer :: "('d, 'm) tcp_state_scheme \<Rightarrow> ('d, 'm) tcp_state_scheme" where
  "tcp_timer w = fold tcp_timer_pcb [0..<TCP_PCB_SIZE] w"

definition tcp_init :: "('d, 'm) tcp_state_scheme \<Rightarrow> int \<times> ('d, 'm) tcp_state_scheme" where
  "tcp_init w =
     (let (r, w1) = ip_protocol_register IP_PROTOCOL_TCP Tcp_input w
      in if r = -1 then (-1, w1)
         else let (r2, w2) = net_timer_register \<lparr>tv_sec = 0, tv_usec = 100000\<rparr> Tcp_timer w1
              in if r2 = -1 then (-1, w2) else (0, w2))"

end
