(* ===== verification/TcpUser.thy ===== *)
theory TcpUser
  imports TcpInput "HOL-Library.Monad_Syntax"
begin

text \<open>
  \<^verbatim>\<open>kernel/network/tcp.c\<close>, part 3: the user commands. A command that waits is cut where its
  task sleeps: \<open>Blocks\<close> carries the local variables it goes on with, and the \<open>_woken\<close>
  functions are the rest of the command after the wake-up.
\<close>

section \<open>Waiting\<close>

definition tcp_sleep :: "nat \<Rightarrow> ('d, 'm) tcp_state_scheme \<Rightarrow> ('d, 'm) tcp_state_scheme" where
  "tcp_sleep p w = upd_tcp p (\<lambda>pcb. pcb\<lparr>tp_cond := cond_sleep (cur_task w) (tp_cond pcb)\<rparr>) w"

definition tcp_awake :: "nat \<Rightarrow> ('d, 'm) tcp_state_scheme \<Rightarrow> ('d, 'm) tcp_state_scheme" where
  "tcp_awake p w = upd_tcp p (\<lambda>pcb. pcb\<lparr>tp_cond := cond_wake (tp_cond pcb)\<rparr>) w"

text \<open>
  From the test of the wait loop of \<^verbatim>\<open>tcp_connect\<close> and \<^verbatim>\<open>tcp_open_rfc793\<close> on, with the state
  noted at \<^verbatim>\<open>AGAIN\<close>.
\<close>

definition tcp_wait_open ::
  "tcp_pcb_state \<Rightarrow> nat \<Rightarrow> ('d, 'm) tcp_state_scheme \<Rightarrow>
     (int, tcp_pcb_state \<times> nat) blocking \<times> ('d, 'm) tcp_state_scheme" where
  "tcp_wait_open state p w =
     (let st = tp_state (tcp_at p w)
      in if st = state then (Blocks (state, p), tcp_sleep p w)
         else if st \<noteq> TCP_ESTABLISHED then
           if st = TCP_SYN_RECEIVED then (Blocks (st, p), tcp_sleep p w)
           else (Returns (-1), tcp_drop p w)
         else (Returns (int p), w))"

definition tcp_open_woken ::
  "tcp_pcb_state \<times> nat \<Rightarrow> ('d, 'm) tcp_state_scheme \<Rightarrow>
     (int, tcp_pcb_state \<times> nat) blocking \<times> ('d, 'm) tcp_state_scheme" where
  "tcp_open_woken k w = tcp_wait_open (fst k) (snd k) (tcp_awake (snd k) w)"

text \<open>The end of an active open, from \<^verbatim>\<open>pcb->rcv.wnd = sizeof(pcb->buf)\<close> on.\<close>

definition tcp_active ::
  "nat \<Rightarrow> ('d, 'm) tcp_state_scheme \<Rightarrow> (int, tcp_pcb_state \<times> nat) blocking \<times> ('d, 'm) tcp_state_scheme" where
  "tcp_active p w =
     (let (iss, w1) = random (upd_tcp p (\<lambda>pcb. pcb\<lparr>rcv_wnd := of_nat TCP_BUF_SIZE\<rparr>) w);
          (r, w2) = tcp_output p TCP_FLG_SYN [] (upd_tcp p (\<lambda>pcb. pcb\<lparr>tp_iss := iss\<rparr>) w1)
      in if r = -1 then (Returns (-1), tcp_drop p w2)
         else tcp_wait_open TCP_SYN_SENT p
                (upd_tcp p (\<lambda>pcb. pcb\<lparr>snd_una := tp_iss pcb, snd_nxt := tp_iss pcb + 1,
                                      tp_state := TCP_SYN_SENT\<rparr>) w2))"

section \<open>Opening\<close>

text \<open>An active open without a foreign endpoint dereferences a null pointer.\<close>

definition tcp_open_rfc793 ::
  "endpoint \<Rightarrow> endpoint option \<Rightarrow> bool \<Rightarrow> ('d, 'm) tcp_state_scheme \<Rightarrow>
     (int, tcp_pcb_state \<times> nat) blocking \<times> ('d, 'm) tcp_state_scheme" where
  "tcp_open_rfc793 local foreign active w =
     (case tcp_pcb_alloc w of
        (None, w1) \<Rightarrow> (Returns (-1), w1)
      | (Some p, w1) \<Rightarrow>
          let w2 = upd_tcp p (\<lambda>pcb. pcb\<lparr>tp_mode := TCP_PCB_MODE_RFC793\<rparr>) w1
          in if \<not> active then
               let w3 = upd_tcp p (\<lambda>pcb. pcb\<lparr>tp_local := local, tp_state := TCP_LISTEN\<rparr>) w2;
                   w4 = (case foreign of None \<Rightarrow> w3
                         | Some f \<Rightarrow> upd_tcp p (\<lambda>pcb. pcb\<lparr>tp_foreign := f\<rparr>) w3)
               in tcp_wait_open TCP_LISTEN p w4
             else case foreign of
               None \<Rightarrow> (Returns (-1), fault w2)
             | Some f \<Rightarrow> tcp_active p (upd_tcp p (\<lambda>pcb. pcb\<lparr>tp_local := local, tp_foreign := f\<rparr>) w2))"

definition tcp_state_of :: "int \<Rightarrow> ('d, 'm) tcp_state_scheme \<Rightarrow> tcp_pcb_state option" where
  "tcp_state_of i w =
     (case tcp_pcb_get i (tcp_pcbs w) of
        None \<Rightarrow> None
      | Some p \<Rightarrow> if tp_mode (tcp_at p w) \<noteq> TCP_PCB_MODE_RFC793 then None else Some (tp_state (tcp_at p w)))"

definition tcp_open :: "('d, 'm) tcp_state_scheme \<Rightarrow> int \<times> ('d, 'm) tcp_state_scheme" where
  "tcp_open w =
     (case tcp_pcb_alloc w of
        (None, w1) \<Rightarrow> (-1, w1)
      | (Some p, w1) \<Rightarrow> (int p, upd_tcp p (\<lambda>pcb. pcb\<lparr>tp_mode := TCP_PCB_MODE_SOCKET\<rparr>) w1))"

text \<open>
  The search for a source port from \<open>q\<close> on, with \<open>n\<close> ports left: the value of \<^verbatim>\<open>local.port\<close> at
  its end, \<open>port\<close> being the value before. The port is not converted to network byte order.
\<close>

fun tcp_port_loop :: "u32 \<Rightarrow> endpoint \<Rightarrow> tcp_pcb list \<Rightarrow> u16 \<Rightarrow> nat \<Rightarrow> nat \<Rightarrow> u16" where
  "tcp_port_loop addr foreign ps port q 0 = port"
| "tcp_port_loop addr foreign ps port q (Suc n) =
     (if tcp_pcb_select \<lparr>ep_addr = addr, ep_port = of_nat q\<rparr> (Some foreign) ps = None then of_nat q
      else tcp_port_loop addr foreign ps (of_nat q) (Suc q) n)"

definition tcp_connect ::
  "int \<Rightarrow> endpoint \<Rightarrow> ('d, 'm) tcp_state_scheme \<Rightarrow>
     (int, tcp_pcb_state \<times> nat) blocking \<times> ('d, 'm) tcp_state_scheme" where
  "tcp_connect i foreign w =
     (case tcp_pcb_get i (tcp_pcbs w) of
        None \<Rightarrow> (Returns (-1), w)
      | Some p \<Rightarrow>
          if tp_mode (tcp_at p w) \<noteq> TCP_PCB_MODE_SOCKET then (Returns (-1), w)
          else
            let local = tp_local (tcp_at p w)
            in case (if ep_addr local = IP_ADDR_ANY
                     then map_option (\<lambda>f. unicast (iface_heap w f)) (ip_route_get_iface (ep_addr foreign) w)
                     else Some (ep_addr local)) of
                 None \<Rightarrow> (Returns (-1), w)
               | Some addr \<Rightarrow>
                   let port = (if ep_port local \<noteq> 0 then ep_port local
                               else tcp_port_loop addr foreign (tcp_pcbs w) 0 TCP_SOURCE_PORT_MIN
                                      (Suc TCP_SOURCE_PORT_MAX - TCP_SOURCE_PORT_MIN))
                   in if port = 0 then (Returns (-1), w)
                      else tcp_active p (upd_tcp p (\<lambda>pcb. pcb\<lparr>tp_local := \<lparr>ep_addr = addr, ep_port = port\<rparr>,
                                                             tp_foreign := foreign\<rparr>) w))"

definition tcp_bind :: "int \<Rightarrow> endpoint \<Rightarrow> ('d, 'm) tcp_state_scheme \<Rightarrow> int \<times> ('d, 'm) tcp_state_scheme" where
  "tcp_bind i local w =
     (case tcp_pcb_get i (tcp_pcbs w) of
        None \<Rightarrow> (-1, w)
      | Some p \<Rightarrow>
          if tp_mode (tcp_at p w) \<noteq> TCP_PCB_MODE_SOCKET then (-1, w)
          else if tcp_pcb_select local None (tcp_pcbs w) \<noteq> None then (-1, w)
          else (0, upd_tcp p (\<lambda>pcb. pcb\<lparr>tp_local := local\<rparr>) w))"

definition tcp_listen :: "int \<Rightarrow> ('d, 'm) tcp_state_scheme \<Rightarrow> int \<times> ('d, 'm) tcp_state_scheme" where
  "tcp_listen i w =
     (case tcp_pcb_get i (tcp_pcbs w) of
        None \<Rightarrow> (-1, w)
      | Some p \<Rightarrow>
          if tp_mode (tcp_at p w) \<noteq> TCP_PCB_MODE_SOCKET then (-1, w)
          else (0, tcp_set_state p TCP_LISTEN w))"

text \<open>The result of \<^verbatim>\<open>tcp_accept\<close> and the foreign endpoint it writes.\<close>

definition tcp_accept_loop ::
  "nat \<Rightarrow> ('d, 'm) tcp_state_scheme \<Rightarrow> (int \<times> endpoint option, nat) blocking \<times> ('d, 'm) tcp_state_scheme" where
  "tcp_accept_loop p w =
     (case list_pop (tp_backlog (tcp_at p w)) of
        (None, _) \<Rightarrow> (Blocks p, tcp_sleep p w)
      | (Some n, q) \<Rightarrow>
          (Returns (int n, Some (tp_foreign (tcp_at n w))), upd_tcp p (\<lambda>pcb. pcb\<lparr>tp_backlog := q\<rparr>) w))"

definition tcp_accept ::
  "int \<Rightarrow> ('d, 'm) tcp_state_scheme \<Rightarrow> (int \<times> endpoint option, nat) blocking \<times> ('d, 'm) tcp_state_scheme" where
  "tcp_accept i w =
     (case tcp_pcb_get i (tcp_pcbs w) of
        None \<Rightarrow> (Returns (-1, None), w)
      | Some p \<Rightarrow>
          if tp_mode (tcp_at p w) \<noteq> TCP_PCB_MODE_SOCKET then (Returns (-1, None), w)
          else if tp_state (tcp_at p w) \<noteq> TCP_LISTEN then (Returns (-1, None), w)
          else tcp_accept_loop p w)"

definition tcp_accept_woken ::
  "nat \<Rightarrow> ('d, 'm) tcp_state_scheme \<Rightarrow> (int \<times> endpoint option, nat) blocking \<times> ('d, 'm) tcp_state_scheme" where
  "tcp_accept_woken p w = tcp_accept_loop p (tcp_awake p w)"

section \<open>Sending\<close>

text \<open>
  The loop of \<^verbatim>\<open>tcp_send\<close>. With a maximum segment size of zero it makes no progress, and
  \<open>None\<close> says so.
\<close>

partial_function (option) tcp_send_loop ::
  "nat \<Rightarrow> nat \<Rightarrow> u8 list \<Rightarrow> nat \<Rightarrow> ('d, 'm) tcp_state_scheme \<Rightarrow>
     ((int, nat \<times> nat) blocking \<times> ('d, 'm) tcp_state_scheme) option" where
  "tcp_send_loop p mss data sent w =
     (let pcb = tcp_at p w;
          cap = unat (ucast (snd_wnd pcb) - (snd_nxt pcb - snd_una pcb));
          slen = min (min mss (length data - sent)) cap;
          out = tcp_output p (TCP_FLG_ACK OR TCP_FLG_PSH) (take slen (drop sent data)) w
      in if \<not> sent < length data then Some (Returns (int sent), w)
         else if cap = 0 then Some (Blocks (p, sent), tcp_sleep p w)
         else if fst out = -1 then Some (Returns (-1), tcp_drop p (snd out))
         else tcp_send_loop p mss data (sent + slen)
                (upd_tcp p (\<lambda>pcb. pcb\<lparr>snd_nxt := snd_nxt pcb + of_nat slen\<rparr>) (snd out)))"

text \<open>From \<^verbatim>\<open>RETRY\<close> on.\<close>

definition tcp_send_retry ::
  "nat \<Rightarrow> u8 list \<Rightarrow> nat \<Rightarrow> ('d, 'm) tcp_state_scheme \<Rightarrow>
     ((int, nat \<times> nat) blocking \<times> ('d, 'm) tcp_state_scheme) option" where
  "tcp_send_retry p data sent w =
     (if tp_state (tcp_at p w) \<in> {TCP_ESTABLISHED, TCP_CLOSE_WAIT} then
        (case ip_route_get_iface (ep_addr (tp_local (tcp_at p w))) w of
           None \<Rightarrow> Some (Returns (-1), w)
         | Some iface \<Rightarrow>
             tcp_send_loop p (size_sub (unat (mtu (dev_heap w (if_dev (iface_heap w iface)))))
                                       (IP_HDR_SIZE_MIN + TCP_HDR_SIZE)) data sent w)
      else Some (Returns (-1), w))"

definition tcp_send ::
  "int \<Rightarrow> u8 list \<Rightarrow> ('d, 'm) tcp_state_scheme \<Rightarrow>
     ((int, nat \<times> nat) blocking \<times> ('d, 'm) tcp_state_scheme) option" where
  "tcp_send i data w =
     (case tcp_pcb_get i (tcp_pcbs w) of
        None \<Rightarrow> Some (Returns (-1), w)
      | Some p \<Rightarrow> tcp_send_retry p data 0 w)"

definition tcp_send_woken ::
  "u8 list \<Rightarrow> nat \<times> nat \<Rightarrow> ('d, 'm) tcp_state_scheme \<Rightarrow>
     ((int, nat \<times> nat) blocking \<times> ('d, 'm) tcp_state_scheme) option" where
  "tcp_send_woken data k w = tcp_send_retry (fst k) data (snd k) (tcp_awake (fst k) w)"

section \<open>Receiving\<close>

text \<open>From \<^verbatim>\<open>RETRY\<close> on; the result and the bytes written to the caller's buffer.\<close>

definition tcp_receive_retry ::
  "nat \<Rightarrow> nat \<Rightarrow> ('d, 'm) tcp_state_scheme \<Rightarrow> (int \<times> u8 list, nat) blocking \<times> ('d, 'm) tcp_state_scheme" where
  "tcp_receive_retry p sz w =
     (let pcb = tcp_at p w; st = tp_state pcb; remain = size_sub TCP_BUF_SIZE (unat (rcv_wnd pcb));
          len = min sz remain;
          deliver = (Returns (int len, take len (tp_buf pcb)),
            upd_tcp p (\<lambda>pcb. pcb\<lparr>tp_buf := take (remain - len) (drop len (tp_buf pcb)) @
                                           drop (remain - len) (tp_buf pcb),
                                 rcv_wnd := rcv_wnd pcb + of_nat len\<rparr>) w)
      in if st \<in> {TCP_ESTABLISHED, TCP_FIN_WAIT1, TCP_FIN_WAIT2} then
           if remain = 0 then (Blocks p, tcp_sleep p w)
           else if TCP_BUF_SIZE < remain then (Returns (-1, []), fault w) else deliver
         else if st = TCP_CLOSE_WAIT \<and> remain \<noteq> 0 then
           if TCP_BUF_SIZE < remain then (Returns (-1, []), fault w) else deliver
         else if st \<in> {TCP_CLOSE_WAIT, TCP_CLOSING, TCP_LAST_ACK, TCP_TIME_WAIT} then (Returns (0, []), w)
         else (Returns (-1, []), w))"

definition tcp_receive ::
  "int \<Rightarrow> nat \<Rightarrow> ('d, 'm) tcp_state_scheme \<Rightarrow> (int \<times> u8 list, nat) blocking \<times> ('d, 'm) tcp_state_scheme" where
  "tcp_receive i sz w =
     (case tcp_pcb_get i (tcp_pcbs w) of
        None \<Rightarrow> (Returns (-1, []), w)
      | Some p \<Rightarrow> tcp_receive_retry p sz w)"

definition tcp_receive_woken ::
  "nat \<Rightarrow> nat \<Rightarrow> ('d, 'm) tcp_state_scheme \<Rightarrow> (int \<times> u8 list, nat) blocking \<times> ('d, 'm) tcp_state_scheme" where
  "tcp_receive_woken sz p w = tcp_receive_retry p sz (tcp_awake p w)"

section \<open>Closing\<close>

definition tcp_send_fin :: "nat \<Rightarrow> tcp_pcb_state \<Rightarrow> ('d, 'm) tcp_state_scheme \<Rightarrow> ('d, 'm) tcp_state_scheme" where
  "tcp_send_fin p st w =
     upd_tcp p (\<lambda>pcb. pcb\<lparr>snd_nxt := snd_nxt pcb + 1, tp_state := st\<rparr>)
       (snd (tcp_output p (TCP_FLG_ACK OR TCP_FLG_FIN) [] w))"

definition tcp_close :: "int \<Rightarrow> ('d, 'm) tcp_state_scheme \<Rightarrow> int \<times> ('d, 'm) tcp_state_scheme" where
  "tcp_close i w =
     (case tcp_pcb_get i (tcp_pcbs w) of
        None \<Rightarrow> (-1, w)
      | Some p \<Rightarrow>
          (case (case tp_state (tcp_at p w) of
                   TCP_LISTEN \<Rightarrow> Some (tcp_set_state p TCP_CLOSED w)
                 | TCP_SYN_SENT \<Rightarrow> Some (tcp_set_state p TCP_CLOSED w)
                 | TCP_SYN_RECEIVED \<Rightarrow> Some (tcp_send_fin p TCP_FIN_WAIT1 w)
                 | TCP_ESTABLISHED \<Rightarrow> Some (tcp_send_fin p TCP_FIN_WAIT1 w)
                 | TCP_CLOSE_WAIT \<Rightarrow> Some (tcp_send_fin p TCP_LAST_ACK w)
                 | _ \<Rightarrow> None) of
             None \<Rightarrow> (-1, w)
           | Some w1 \<Rightarrow>
               (0, if tp_state (tcp_at p w1) = TCP_CLOSED then tcp_pcb_release p w1 else tcp_wakeup p w1)))"

end
