(* ===== verification/TcpWire.thy ===== *)
theory TcpWire
  imports TcpUser
begin

text \<open>
  TCP segments on the wire: what \<^verbatim>\<open>tcp_output_segment\<close> hands to the IP layer, and what
  \<^verbatim>\<open>tcp_input\<close> makes of it where it arrives.
\<close>

section \<open>The bytes of a segment\<close>

definition tcp_out_hdr ::
  "u32 \<Rightarrow> u32 \<Rightarrow> u8 \<Rightarrow> u16 \<Rightarrow> u16 \<Rightarrow> u16 \<Rightarrow> tcp_hdr" where
  "tcp_out_hdr seq ack flg wnd sport dport =
     \<lparr>th_src = sport, th_dst = dport, th_seq = hton32 seq, th_ack = hton32 ack, th_off = 0x50,
      th_flg = flg, th_wnd = hton16 wnd, th_sum = 0, th_up = 0\<rparr>"

definition tcp_segment ::
  "u32 \<Rightarrow> u32 \<Rightarrow> u8 \<Rightarrow> u16 \<Rightarrow> u8 list \<Rightarrow> endpoint \<Rightarrow> endpoint \<Rightarrow> u8 list" where
  "tcp_segment seq ack flg wnd data local foreign =
     (let h = tcp_out_hdr seq ack flg wnd (ep_port local) (ep_port foreign);
          total = (of_nat (20 + length data) :: u16);
          psum = pseudo_sum (ep_addr local) (ep_addr foreign) IP_PROTOCOL_TCP (hton16 total)
      in store_tcp_hdr (h\<lparr>th_sum := the (cksum16 (store_tcp_hdr h @ data) total (ucast psum))\<rparr>) @ data)"

lemma length_store_tcp_hdr [simp]: "length (store_tcp_hdr h) = 20"
  by (simp add: store_tcp_hdr_def)

lemma length_tcp_segment [simp]: "length (tcp_segment s a f w data l r) = 20 + length data"
  by (simp add: tcp_segment_def Let_def)

lemma load_store_tcp_hdr [hdr_simps]: "load_tcp_hdr (store_tcp_hdr h @ bs) = h"
proof -
  obtain a0 a1 where a: "store16 (th_src h) = [a0, a1]" "ucast a0 OR push_bit 8 (ucast a1) = th_src h"
    by (rule store16_bytes)
  obtain b0 b1 where b: "store16 (th_dst h) = [b0, b1]" "ucast b0 OR push_bit 8 (ucast b1) = th_dst h"
    by (rule store16_bytes)
  obtain s0 s1 s2 s3 where s: "store32 (th_seq h) = [s0, s1, s2, s3]"
    "ucast s0 OR push_bit 8 (ucast s1) OR push_bit 16 (ucast s2) OR push_bit 24 (ucast s3) = th_seq h"
    by (rule store32_bytes)
  obtain k0 k1 k2 k3 where k: "store32 (th_ack h) = [k0, k1, k2, k3]"
    "ucast k0 OR push_bit 8 (ucast k1) OR push_bit 16 (ucast k2) OR push_bit 24 (ucast k3) = th_ack h"
    by (rule store32_bytes)
  obtain w0 w1 where w: "store16 (th_wnd h) = [w0, w1]" "ucast w0 OR push_bit 8 (ucast w1) = th_wnd h"
    by (rule store16_bytes)
  obtain c0 c1 where c: "store16 (th_sum h) = [c0, c1]" "ucast c0 OR push_bit 8 (ucast c1) = th_sum h"
    by (rule store16_bytes)
  obtain u0 u1 where u: "store16 (th_up h) = [u0, u1]" "ucast u0 OR push_bit 8 (ucast u1) = th_up h"
    by (rule store16_bytes)
  show ?thesis
    by (simp add: load_tcp_hdr_def store_tcp_hdr_def load16_def load32_def a b s k w c u)
qed

lemma tcp_segment_split:
  assumes "length data \<le> 65515"
  obtains c where
    "cksum16 (store_tcp_hdr (tcp_out_hdr s a f w (ep_port l) (ep_port r)) @ data) (of_nat (20 + length data))
       (ucast (pseudo_sum (ep_addr l) (ep_addr r) IP_PROTOCOL_TCP (hton16 (of_nat (20 + length data))))) = Some c"
    "tcp_segment s a f w data l r =
       store_tcp_hdr ((tcp_out_hdr s a f w (ep_port l) (ep_port r))\<lparr>th_sum := c\<rparr>) @ data"
proof -
  let ?n = "of_nat (20 + length data) :: u16"
  have "unat ?n = 20 + length data" using assms by (intro unat_of_nat_u16) simp
  then obtain c where c:
    "cksum16 (store_tcp_hdr (tcp_out_hdr s a f w (ep_port l) (ep_port r)) @ data) ?n
       (ucast (pseudo_sum (ep_addr l) (ep_addr r) IP_PROTOCOL_TCP (hton16 ?n))) = Some c"
    by (simp add: cksum16_def)
  show thesis
  proof (rule that [OF c])
    show "tcp_segment s a f w data l r =
       store_tcp_hdr ((tcp_out_hdr s a f w (ep_port l) (ep_port r))\<lparr>th_sum := c\<rparr>) @ data"
      unfolding tcp_segment_def Let_def c by simp
  qed
qed

lemma tcp_segment_verifies:
  assumes len: "length data \<le> 65515"
  shows "cksum16 (tcp_segment s a f w data l r @ pad) (of_nat (20 + length data))
    (ucast (pseudo_sum (ep_addr l) (ep_addr r) IP_PROTOCOL_TCP (hton16 (of_nat (20 + length data))))) = Some 0"
proof -
  let ?n = "of_nat (20 + length data) :: u16"
  let ?h = "tcp_out_hdr s a f w (ep_port l) (ep_port r)"
  let ?i = "ucast (pseudo_sum (ep_addr l) (ep_addr r) IP_PROTOCOL_TCP (hton16 ?n)) :: u32"
  let ?pre = "store16 (ep_port l) @ store16 (ep_port r) @ store32 (hton32 s) @ store32 (hton32 a) @
    [0x50, f] @ store16 (hton16 w)"
  have b: "store_tcp_hdr (?h\<lparr>th_sum := v\<rparr>) @ xs = ?pre @ store16 v @ store16 0 @ xs" for v xs
    by (simp add: store_tcp_hdr_def tcp_out_hdr_def)
  obtain c where c: "cksum16 (store_tcp_hdr ?h @ data) ?n ?i = Some c"
    "tcp_segment s a f w data l r = store_tcp_hdr (?h\<lparr>th_sum := c\<rparr>) @ data"
    using tcp_segment_split [OF len] .
  have "?h\<lparr>th_sum := 0\<rparr> = ?h" by (simp add: tcp_out_hdr_def)
  then have "cksum16 (?pre @ store16 0 @ (store16 0 @ data) @ []) ?n ?i = Some c"
    using b [of 0 data] c(1) by simp
  moreover have "unat ?i \<le> 65535"
    using unat_u16_bound [of "pseudo_sum (ep_addr l) (ep_addr r) IP_PROTOCOL_TCP (hton16 ?n)"] by simp
  ultimately have "cksum16 (?pre @ store16 c @ (store16 0 @ data) @ pad) ?n ?i = Some 0"
    using len by (intro cksum16_fill [of _ "store16 0 @ data" ?i ?n "[]" c]) simp_all
  then show ?thesis by (simp add: b c(2))
qed

section \<open>Sending and receiving it\<close>

lemma tcp_hdr_off: "push_bit 4 (of_nat (20 div 4)) = (0x50 :: u8)"
  by simp

lemma tcp_output_segment_eq:
  assumes "length data \<le> 4056"
  shows "tcp_output_segment seq ack flg wnd data local foreign w =
    (let (r, w1) = ip_output IP_PROTOCOL_TCP (tcp_segment seq ack flg wnd data local foreign)
                     (ep_addr local) (ep_addr foreign) w
     in (if r = -1 then -1 else int (length data), w1))"
proof -
  have "length data \<le> 65515" using assms by simp
  then obtain c where c:
    "cksum16 (store_tcp_hdr (tcp_out_hdr seq ack flg wnd (ep_port local) (ep_port foreign)) @ data)
       (of_nat (20 + length data))
       (ucast (pseudo_sum (ep_addr local) (ep_addr foreign) IP_PROTOCOL_TCP
          (hton16 (of_nat (20 + length data))))) = Some c"
    "tcp_segment seq ack flg wnd data local foreign =
       store_tcp_hdr ((tcp_out_hdr seq ack flg wnd (ep_port local) (ep_port foreign))\<lparr>th_sum := c\<rparr>) @ data"
    by (rule tcp_segment_split)
  have l: "\<not> IP_PAYLOAD_SIZE_MAX < 20 + length data"
    using assms by (simp add: IP_PAYLOAD_SIZE_MAX_def ip_consts)
  show ?thesis
    unfolding tcp_output_segment_def TCP_HDR_SIZE_def if_not_P [OF l] tcp_hdr_off Let_def
      tcp_out_hdr_def [symmetric] c
    by (simp add: case_prod_beta)
qed

definition tcp_seg_len :: "u8 \<Rightarrow> nat \<Rightarrow> u16" where
  "tcp_seg_len flg n =
     of_nat n + (if TCP_FLG_ISSET flg TCP_FLG_SYN then 1 else 0) +
     (if TCP_FLG_ISSET flg TCP_FLG_FIN then 1 else 0)"

lemma tcp_input_segment:
  assumes len: "length data \<le> 65515"
    and uni: "ep_addr src \<notin> {IP_ADDR_BROADCAST, broadcast (iface_heap w iface)}"
      "ep_addr dst \<notin> {IP_ADDR_BROADCAST, broadcast (iface_heap w iface)}"
  shows "tcp_input (tcp_segment seq ack flg wnd data src dst @ pad) (20 + length data)
      (ep_addr src) (ep_addr dst) iface w =
    tcp_segment_arrives \<lparr>seg_seq = seq, seg_ack = ack, seg_len = tcp_seg_len flg (length data),
        seg_wnd = wnd, seg_up = 0\<rparr> flg (data @ pad) (length data) dst src w"
proof -
  obtain c where c: "tcp_segment seq ack flg wnd data src dst =
      store_tcp_hdr ((tcp_out_hdr seq ack flg wnd (ep_port src) (ep_port dst))\<lparr>th_sum := c\<rparr>) @ data"
    using tcp_segment_split [OF len] .
  note v = tcp_segment_verifies [OF len, of seq ack flg wnd src dst pad]
  have ld: "load_tcp_hdr (tcp_segment seq ack flg wnd data src dst @ pad) =
      (tcp_out_hdr seq ack flg wnd (ep_port src) (ep_port dst))\<lparr>th_sum := c\<rparr>"
    by (simp add: c hdr_simps)
  have h: "unat (push_bit 2 (drop_bit 4 (0x50 :: u8))) = 20" by simp
  have d: "drop 20 (tcp_segment seq ack flg wnd data src dst) = data"
    by (simp add: c)
  have l: "\<not> 20 + length data < 20" "\<not> length (tcp_segment seq ack flg wnd data src dst @ pad) < 20"
    by simp_all
  have s: "size_sub (20 + length data) 20 = length data" by simp
  have e: "\<lparr>ep_addr = ep_addr x, ep_port = ep_port x\<rparr> = x" for x by simp
  have u: "\<not> (ep_addr src = IP_ADDR_BROADCAST \<or> ep_addr src = broadcast (iface_heap w iface) \<or>
      ep_addr dst = IP_ADDR_BROADCAST \<or> ep_addr dst = broadcast (iface_heap w iface))"
    using uni by auto
  have z: "\<not> (0 :: u16) \<noteq> 0" by simp
  show ?thesis
    unfolding tcp_input_def TCP_HDR_SIZE_def if_not_P [OF l(1)] v option.case if_not_P [OF z]
      if_not_P [OF u] if_not_P [OF l(2)] ld Let_def
    by (simp add: tcp_out_hdr_def h d e tcp_seg_len_def ntoh16_def [of 0] byteswap16_def)
qed

text \<open>A segment whose checksum is wrong, or that is shorter than a header, changes nothing.\<close>

lemma tcp_input_bad:
  assumes "len < 20 \<or> (\<exists>s. s \<noteq> 0 \<and>
      cksum16 mem (of_nat len) (ucast (pseudo_sum src dst IP_PROTOCOL_TCP (hton16 (of_nat len)))) = Some s)"
  shows "tcp_input mem len src dst iface w = w"
  using assms by (auto simp: tcp_input_def TCP_HDR_SIZE_def)

section \<open>Claims\<close>

text \<open>A host with nothing open in TCP.\<close>

definition tcp_host :: "u8 list \<Rightarrow> u32 \<Rightarrow> u32 \<Rightarrow> u8 list \<Rightarrow> unit tcp_state" where
  "tcp_host mac ip peer peer_mac =
     udp_state.extend (udp_host mac ip peer peer_mac) \<lparr>tcp_pcbs = replicate 16 zero_tcp_pcb\<rparr>"

lemma tcp_host_fields:
  "caches (tcp_host mac ip peer pm) = caches (ip_host mac ip peer pm)"
  "tcp_pcbs (tcp_host mac ip peer pm) = replicate 16 zero_tcp_pcb"
  "iface_heap (tcp_host mac ip peer pm) = iface_heap (ip_host mac ip peer pm)"
  "dev_heap (tcp_host mac ip peer pm) = dev_heap (ip_host mac ip peer pm)"
  "dev_ops (tcp_host mac ip peer pm) = dev_ops (ip_host mac ip peer pm)"
  "routes (tcp_host mac ip peer pm) = routes (ip_host mac ip peer pm)"
  "alloc_ok (tcp_host mac ip peer pm) = alloc_ok (ip_host mac ip peer pm)"
  "alloc_no (tcp_host mac ip peer pm) = alloc_no (ip_host mac ip peer pm)"
  "randoms (tcp_host mac ip peer pm) = randoms (ip_host mac ip peer pm)"
  "tick (tcp_host mac ip peer pm) = tick (ip_host mac ip peer pm)"
  "wakeups (tcp_host mac ip peer pm) = wakeups (ip_host mac ip peer pm)"
  "cur_task (tcp_host mac ip peer pm) = cur_task (ip_host mac ip peer pm)"
  "ub (tcp_host mac ip peer pm) = ub (ip_host mac ip peer pm)"
  by (simp_all only: tcp_host_def udp_host_def udp_state.defs ip_state.defs tcp_state.simps udp_state.simps
      ip_state.simps arp_state.simps net_state.simps env.simps)

text \<open>
  C8: end to end. What \<^verbatim>\<open>tcp_output_segment\<close> gives to the IP layer is one packet; where it
  arrives by unicast, padded or not, it passes the checksum and \<^verbatim>\<open>tcp_segment_arrives\<close> gets
  the sequence numbers, flags, window and data that were sent, with the endpoints exchanged.
\<close>

theorem tcp_segment_delivery:
  fixes wA :: "('d, 'm) ip_state_scheme" and wB :: "('e, 'n) tcp_state_scheme"
  assumes len: "length data \<le> 4056"
    and uni: "ep_addr src \<notin> {IP_ADDR_BROADCAST, broadcast (iface_heap wB iface)}"
      "ep_addr dst \<notin> {IP_ADDR_BROADCAST, broadcast (iface_heap wB iface)}"
  obtains bytes where "length bytes = 20 + length data"
    and "tcp_output_segment seq ack flg wnd data src dst wA =
       (let (r, w1) = ip_output IP_PROTOCOL_TCP bytes (ep_addr src) (ep_addr dst) wA
        in (if r = -1 then -1 else int (length data), w1))"
    and "tcp_input (bytes @ pad) (length bytes) (ep_addr src) (ep_addr dst) iface wB =
       tcp_segment_arrives \<lparr>seg_seq = seq, seg_ack = ack, seg_len = tcp_seg_len flg (length data),
         seg_wnd = wnd, seg_up = 0\<rparr> flg (data @ pad) (length data) dst src wB"
proof (rule that)
  show "tcp_output_segment seq ack flg wnd data src dst wA =
       (let (r, w1) = ip_output IP_PROTOCOL_TCP (tcp_segment seq ack flg wnd data src dst)
                        (ep_addr src) (ep_addr dst) wA
        in (if r = -1 then -1 else int (length data), w1))"
    using len by (rule tcp_output_segment_eq)
  have "length data \<le> 65515" using len by simp
  from tcp_input_segment [OF this uni]
  show "tcp_input (tcp_segment seq ack flg wnd data src dst @ pad)
      (length (tcp_segment seq ack flg wnd data src dst)) (ep_addr src) (ep_addr dst) iface wB =
       tcp_segment_arrives \<lparr>seg_seq = seq, seg_ack = ack, seg_len = tcp_seg_len flg (length data),
         seg_wnd = wnd, seg_up = 0\<rparr> flg (data @ pad) (length data) dst src wB"
    by simp
qed simp

theorem tcp_segment_delivery_witness:
  "\<exists>bytes. length bytes = 22 \<and>
     tcp_input (bytes @ [0]) (length bytes) 7 9 0 (tcp_host [1] 2 3 [1, 2, 3, 4, 5, 6]) =
     tcp_segment_arrives \<lparr>seg_seq = 5, seg_ack = 6, seg_len = 3, seg_wnd = 100, seg_up = 0\<rparr>
       (TCP_FLG_ACK OR TCP_FLG_FIN) [65, 66, 0] 2 \<lparr>ep_addr = 9, ep_port = 80\<rparr> \<lparr>ep_addr = 7, ep_port = 5\<rparr>
       (tcp_host [1] 2 3 [1, 2, 3, 4, 5, 6])"
proof -
  let ?h = "tcp_host [1] 2 3 [1, 2, 3, 4, 5, 6]"
  let ?A = "\<lparr>ep_addr = 7, ep_port = 5\<rparr>" and ?B = "\<lparr>ep_addr = 9, ep_port = 80\<rparr>"
  let ?flg = "TCP_FLG_ACK OR TCP_FLG_FIN"
  have l: "tcp_seg_len ?flg (length [65, 66 :: u8]) = 3"
    by (simp add: tcp_seg_len_def TCP_FLG_ISSET_def tcp_flags)
  have b: "broadcast (iface_heap ?h 0) \<notin> {7, 9}"
    by (simp add: tcp_host_fields ip_host_fields host_def)
  obtain bytes where "length bytes = 20 + length [65, 66 :: u8]"
    "tcp_input (bytes @ [0]) (length bytes) (ep_addr ?A) (ep_addr ?B) 0 ?h =
     tcp_segment_arrives \<lparr>seg_seq = 5, seg_ack = 6, seg_len = tcp_seg_len ?flg (length [65, 66 :: u8]),
       seg_wnd = 100, seg_up = 0\<rparr> ?flg ([65, 66] @ [0]) (length [65, 66 :: u8]) ?B ?A ?h"
    by (rule tcp_segment_delivery [of "[65, 66]" ?A ?h 0 ?B 5 6 ?flg 100 ?h "[0]"])
      (use b in \<open>auto simp: ip_consts\<close>)
  then show ?thesis unfolding l by (intro exI [of _ bytes]) (simp add: numeral_2_eq_2)
qed

end
