(* ===== verification/TcpInv.thy ===== *)
theory TcpInv
  imports TcpWire
begin

text \<open>
  What all TCP operations have in common: the part of the state they touch, the invariant of
  the table they keep, and the direction in which they move the connection states.
\<close>

section \<open>The table\<close>

text \<open>
  The shape of the table and, on top of it, the bound on the windows. Segments that are longer than
  the window break the bound, with an undefined access, and nothing else does.
\<close>

definition tcp_pcb_shape :: "tcp_pcb \<Rightarrow> bool" where
  "tcp_pcb_shape pcb \<longleftrightarrow>
     length (tp_buf pcb) = 8192 \<and>
     (\<forall>q \<in> set (tp_backlog pcb). q < 16) \<and> (\<forall>q. tp_parent pcb = Some q \<longrightarrow> q < 16)"

definition tcp_pcb_ok :: "tcp_pcb \<Rightarrow> bool" where
  "tcp_pcb_ok pcb \<longleftrightarrow> tcp_pcb_shape pcb \<and> unat (rcv_wnd pcb) \<le> 8192"

definition tcp_shape :: "('d, 'm) tcp_state_scheme \<Rightarrow> bool" where
  "tcp_shape w \<longleftrightarrow> arp_inv w \<and> length (tcp_pcbs w) = 16 \<and> (\<forall>pcb \<in> set (tcp_pcbs w). tcp_pcb_shape pcb)"

definition tcp_ok :: "('d, 'm) tcp_state_scheme \<Rightarrow> bool" where
  "tcp_ok w \<longleftrightarrow> tcp_shape w \<and> (\<forall>pcb \<in> set (tcp_pcbs w). unat (rcv_wnd pcb) \<le> 8192)"

text \<open>The fields TCP operations may change.\<close>

definition tcp_only :: "('d, 'm) tcp_state_scheme \<Rightarrow> ('d, 'm) tcp_state_scheme \<Rightarrow> bool" where
  "tcp_only w w' \<longleftrightarrow>
     w' = w\<lparr>drv := drv w', ub := ub w', caches := caches w', ip_id := ip_id w', alloc_no := alloc_no w',
            random_no := random_no w', wakeups := wakeups w', tcp_pcbs := tcp_pcbs w'\<rparr> \<and> (ub w \<longrightarrow> ub w')"

lemma tcp_only_refl [simp]: "tcp_only w w"
  by (simp add: tcp_only_def)

lemma tcp_only_trans: "tcp_only w1 w2 \<Longrightarrow> tcp_only w2 w3 \<Longrightarrow> tcp_only w1 w3"
  unfolding tcp_only_def by (cases w1; cases w2; cases w3) simp

lemma tcp_only_fields [simp]:
  "tcp_only w (w\<lparr>tcp_pcbs := ps\<rparr>)" "tcp_only w (w\<lparr>wakeups := ts\<rparr>)" "tcp_only w (w\<lparr>alloc_no := n\<rparr>)"
  "tcp_only w (w\<lparr>random_no := n\<rparr>)" "tcp_only w (fault w)"
  by (simp_all add: tcp_only_def fault_def)

lemma ip_tcp_only: "ip_only w w' \<Longrightarrow> tcp_only w w'"
  unfolding tcp_only_def ip_only_def by (cases w; cases w') simp

lemma tcp_onlyD:
  assumes "tcp_only w w'"
  shows "tcp_state.more w' = tcp_state.more w" "dev_heap w' = dev_heap w" "dev_ops w' = dev_ops w"
    "devices w' = devices w" "iface_heap w' = iface_heap w" "net_protocols w' = net_protocols w"
    "timers w' = timers w" "softirqs w' = softirqs w" "tick w' = tick w" "alloc_ok w' = alloc_ok w"
    "randoms w' = randoms w" "cur_task w' = cur_task w" "ip_ifaces w' = ip_ifaces w"
    "ip_protocols w' = ip_protocols w" "routes w' = routes w" "udp_pcbs w' = udp_pcbs w"
  using assms unfolding tcp_only_def by (cases w; cases w'; simp)+

lemma tcp_pcbs_ip_only: "ip_only w w' \<Longrightarrow> tcp_pcbs w' = tcp_pcbs (w :: ('d, 'm) tcp_state_scheme)"
  by (drule ip_onlyD(1), cases w, cases w') simp

section \<open>Connection states\<close>

text \<open>The diagram of RFC 793 without the ways back to CLOSED.\<close>

inductive tcp_edge :: "tcp_pcb_state \<Rightarrow> tcp_pcb_state \<Rightarrow> bool" where
  open_block: "tcp_edge TCP_FREE TCP_CLOSED"
| passive_open: "tcp_edge TCP_CLOSED TCP_LISTEN"
| active_open: "tcp_edge TCP_CLOSED TCP_SYN_SENT"
| send_syn: "tcp_edge TCP_LISTEN TCP_SYN_SENT"
| get_syn: "tcp_edge TCP_LISTEN TCP_SYN_RECEIVED"
| spawn: "tcp_edge TCP_CLOSED TCP_SYN_RECEIVED"
| simultaneous_open: "tcp_edge TCP_SYN_SENT TCP_SYN_RECEIVED"
| get_syn_ack: "tcp_edge TCP_SYN_SENT TCP_ESTABLISHED"
| get_ack_of_syn: "tcp_edge TCP_SYN_RECEIVED TCP_ESTABLISHED"
| close_early: "tcp_edge TCP_SYN_RECEIVED TCP_FIN_WAIT1"
| close_active: "tcp_edge TCP_ESTABLISHED TCP_FIN_WAIT1"
| get_fin: "tcp_edge TCP_ESTABLISHED TCP_CLOSE_WAIT"
| get_ack_of_fin: "tcp_edge TCP_FIN_WAIT1 TCP_FIN_WAIT2"
| get_fin_first: "tcp_edge TCP_FIN_WAIT1 TCP_CLOSING"
| get_fin_ack: "tcp_edge TCP_FIN_WAIT1 TCP_TIME_WAIT"
| get_fin_last: "tcp_edge TCP_FIN_WAIT2 TCP_TIME_WAIT"
| get_ack_last: "tcp_edge TCP_CLOSING TCP_TIME_WAIT"
| close_passive: "tcp_edge TCP_CLOSE_WAIT TCP_LAST_ACK"

inductive_simps tcp_edge_simps: "tcp_edge a b"

definition tcp_forward :: "tcp_pcb_state \<Rightarrow> tcp_pcb_state \<Rightarrow> bool" where
  "tcp_forward = tcp_edge\<^sup>*\<^sup>*"

text \<open>Aborted or released.\<close>

definition tcp_reset :: "tcp_pcb_state \<Rightarrow> tcp_pcb_state \<Rightarrow> bool" where
  "tcp_reset a b \<longleftrightarrow> b = a \<or> b = TCP_CLOSED \<or> b = TCP_FREE"

definition tcp_advance :: "tcp_pcb_state \<Rightarrow> tcp_pcb_state \<Rightarrow> bool" where
  "tcp_advance a b \<longleftrightarrow> tcp_forward a b \<or> b = TCP_CLOSED \<or> b = TCP_FREE"

text \<open>The diagram has no cycle: it goes up a rank.\<close>

fun tcp_rank :: "tcp_pcb_state \<Rightarrow> nat" where
  "tcp_rank TCP_FREE = 0"
| "tcp_rank TCP_CLOSED = 1"
| "tcp_rank TCP_LISTEN = 2"
| "tcp_rank TCP_SYN_SENT = 3"
| "tcp_rank TCP_SYN_RECEIVED = 4"
| "tcp_rank TCP_ESTABLISHED = 5"
| "tcp_rank TCP_FIN_WAIT1 = 6"
| "tcp_rank TCP_FIN_WAIT2 = 7"
| "tcp_rank TCP_CLOSING = 8"
| "tcp_rank TCP_TIME_WAIT = 9"
| "tcp_rank TCP_CLOSE_WAIT = 6"
| "tcp_rank TCP_LAST_ACK = 7"

lemma tcp_edge_rank: "tcp_edge a b \<Longrightarrow> tcp_rank a < tcp_rank b"
  by (induction rule: tcp_edge.induct) simp_all

lemma tcp_forward_rank: "tcp_forward a b \<Longrightarrow> a = b \<or> tcp_rank a < tcp_rank b"
  unfolding tcp_forward_def by (induction rule: rtranclp_induct) (auto dest: tcp_edge_rank)

lemma tcp_forward_refl [simp]: "tcp_forward a a"
  by (simp add: tcp_forward_def)

lemma tcp_forward_trans: "tcp_forward a b \<Longrightarrow> tcp_forward b c \<Longrightarrow> tcp_forward a c"
  by (simp add: tcp_forward_def)

lemma tcp_forward_edge: "tcp_edge a b \<Longrightarrow> tcp_forward a b"
  by (simp add: tcp_forward_def)

lemmas tcp_forward_edges [simp] = tcp_edge.intros [THEN tcp_forward_edge]

lemma tcp_forward_close_wait [simp]: "tcp_forward TCP_SYN_RECEIVED TCP_CLOSE_WAIT"
  by (rule tcp_forward_trans [of _ TCP_ESTABLISHED]) simp_all

lemma tcp_forward_syn_received [simp]: "tcp_forward TCP_FREE TCP_SYN_RECEIVED"
  by (rule tcp_forward_trans [of _ TCP_CLOSED]) simp_all

lemma tcp_advance_simps [simp]:
  "tcp_advance a a" "tcp_advance a TCP_CLOSED" "tcp_advance a TCP_FREE" "tcp_forward a b \<Longrightarrow> tcp_advance a b"
  "tcp_reset a a" "tcp_reset a TCP_CLOSED" "tcp_reset a TCP_FREE"
  by (simp_all add: tcp_advance_def tcp_reset_def)

section \<open>Evolution\<close>

text \<open>
  From a table of the right shape the operation touches TCP's part of the state only, keeps the
  shape and the bound on the windows, and moves the state of each block as the relation says.
\<close>

definition tcp_evolves ::
  "(nat \<Rightarrow> tcp_pcb_state \<Rightarrow> tcp_pcb_state \<Rightarrow> bool) \<Rightarrow>
     ('d, 'm) tcp_state_scheme \<Rightarrow> ('d, 'm) tcp_state_scheme \<Rightarrow> bool" where
  "tcp_evolves R w w' \<longleftrightarrow>
     (tcp_shape w \<longrightarrow> tcp_only w w' \<and> tcp_shape w' \<and> (tcp_ok w \<longrightarrow> tcp_ok w') \<and>
        (\<forall>q < 16. R q (tp_state (tcp_at q w)) (tp_state (tcp_at q w'))))"

lemma tcp_ok_shape: "tcp_ok w \<Longrightarrow> tcp_shape w"
  by (simp add: tcp_ok_def)

named_theorems evolves

lemma tcp_evolvesD:
  assumes "tcp_evolves R w w'" and "tcp_shape w"
  shows "tcp_only w w'" "tcp_shape w'" "q < 16 \<Longrightarrow> R q (tp_state (tcp_at q w)) (tp_state (tcp_at q w'))"
    "tcp_ok w \<Longrightarrow> tcp_ok w'"
  using assms by (simp_all add: tcp_evolves_def)

lemma tcp_evolves_trans:
  assumes "tcp_evolves R w1 w2" and "tcp_evolves S w2 w3"
    and "\<And>q a b c. R q a b \<Longrightarrow> S q b c \<Longrightarrow> T q a c"
  shows "tcp_evolves T w1 w3"
  using assms unfolding tcp_evolves_def by (blast intro: tcp_only_trans)

lemma tcp_evolves_mono: "tcp_evolves R w1 w2 \<Longrightarrow> (\<And>q a b. R q a b \<Longrightarrow> S q a b) \<Longrightarrow> tcp_evolves S w1 w2"
  by (auto simp: tcp_evolves_def)

text \<open>No state changes; forward; reset; forward, then possibly reset.\<close>

definition tcp_quiet :: "('d, 'm) tcp_state_scheme \<Rightarrow> ('d, 'm) tcp_state_scheme \<Rightarrow> bool" where
  "tcp_quiet = tcp_evolves (\<lambda>_. (=))"

definition tcp_forwards :: "('d, 'm) tcp_state_scheme \<Rightarrow> ('d, 'm) tcp_state_scheme \<Rightarrow> bool" where
  "tcp_forwards = tcp_evolves (\<lambda>_. tcp_forward)"

definition tcp_resets :: "('d, 'm) tcp_state_scheme \<Rightarrow> ('d, 'm) tcp_state_scheme \<Rightarrow> bool" where
  "tcp_resets = tcp_evolves (\<lambda>_. tcp_reset)"

definition tcp_advances :: "('d, 'm) tcp_state_scheme \<Rightarrow> ('d, 'm) tcp_state_scheme \<Rightarrow> bool" where
  "tcp_advances = tcp_evolves (\<lambda>_. tcp_advance)"

lemmas evolution_defs = tcp_quiet_def tcp_forwards_def tcp_resets_def tcp_advances_def

lemma tcp_quiet_refl [evolves]: "tcp_quiet w w"
  by (simp add: tcp_quiet_def tcp_evolves_def)

lemma tcp_quiet_trans: "tcp_quiet w1 w2 \<Longrightarrow> tcp_quiet w2 w3 \<Longrightarrow> tcp_quiet w1 w3"
  unfolding tcp_quiet_def by (erule (1) tcp_evolves_trans) simp

lemma tcp_quiet_forwards: "tcp_quiet w1 w2 \<Longrightarrow> tcp_forwards w1 w2"
  unfolding evolution_defs by (erule tcp_evolves_mono) simp

lemma tcp_quiet_resets: "tcp_quiet w1 w2 \<Longrightarrow> tcp_resets w1 w2"
  unfolding evolution_defs by (erule tcp_evolves_mono) simp

lemma tcp_forwards_advances: "tcp_forwards w1 w2 \<Longrightarrow> tcp_advances w1 w2"
  unfolding evolution_defs by (erule tcp_evolves_mono) simp

lemma tcp_resets_advances: "tcp_resets w1 w2 \<Longrightarrow> tcp_advances w1 w2"
  unfolding evolution_defs by (erule tcp_evolves_mono) (auto simp: tcp_reset_def)

lemma tcp_quiet_advances: "tcp_quiet w1 w2 \<Longrightarrow> tcp_advances w1 w2"
  by (intro tcp_forwards_advances tcp_quiet_forwards)

lemma tcp_forwards_trans: "tcp_forwards w1 w2 \<Longrightarrow> tcp_forwards w2 w3 \<Longrightarrow> tcp_forwards w1 w3"
  unfolding evolution_defs by (erule (1) tcp_evolves_trans) (rule tcp_forward_trans)

lemma tcp_resets_trans: "tcp_resets w1 w2 \<Longrightarrow> tcp_resets w2 w3 \<Longrightarrow> tcp_resets w1 w3"
  unfolding evolution_defs by (erule (1) tcp_evolves_trans) (auto simp: tcp_reset_def)

lemma tcp_forwards_then: "tcp_forwards w1 w2 \<Longrightarrow> tcp_advances w2 w3 \<Longrightarrow> tcp_advances w1 w3"
  unfolding evolution_defs
  by (erule (1) tcp_evolves_trans) (auto simp: tcp_advance_def intro: tcp_forward_trans)

lemma tcp_quiet_then: "tcp_quiet w1 w2 \<Longrightarrow> tcp_advances w2 w3 \<Longrightarrow> tcp_advances w1 w3"
  by (rule tcp_forwards_then) (rule tcp_quiet_forwards)

lemma tcp_then_resets: "tcp_advances w1 w2 \<Longrightarrow> tcp_resets w2 w3 \<Longrightarrow> tcp_advances w1 w3"
  unfolding evolution_defs by (erule (1) tcp_evolves_trans) (auto simp: tcp_advance_def tcp_reset_def)

text \<open>In particular a well-formed table stays well-formed.\<close>

lemma tcp_evolves_ok: "tcp_evolves R w w' \<Longrightarrow> tcp_ok w \<Longrightarrow> tcp_ok w'"
  by (simp add: tcp_evolves_def tcp_ok_shape)

lemma tcp_ok_quiet: "tcp_quiet w w' \<Longrightarrow> tcp_ok w \<Longrightarrow> tcp_ok w'"
  unfolding evolution_defs by (rule tcp_evolves_ok)

lemma tcp_ok_forwards: "tcp_forwards w w' \<Longrightarrow> tcp_ok w \<Longrightarrow> tcp_ok w'"
  unfolding evolution_defs by (rule tcp_evolves_ok)

lemma tcp_ok_resets: "tcp_resets w w' \<Longrightarrow> tcp_ok w \<Longrightarrow> tcp_ok w'"
  unfolding evolution_defs by (rule tcp_evolves_ok)

lemma tcp_ok_advances: "tcp_advances w w' \<Longrightarrow> tcp_ok w \<Longrightarrow> tcp_ok w'"
  unfolding evolution_defs by (rule tcp_evolves_ok)

section \<open>The primitives\<close>

lemma tcp_ok_caches:
  "tcp_ok w \<Longrightarrow> caches w' = caches w \<Longrightarrow> tcp_pcbs w' = tcp_pcbs w \<Longrightarrow> tcp_ok w'"
  "tcp_shape w \<Longrightarrow> caches w' = caches w \<Longrightarrow> tcp_pcbs w' = tcp_pcbs w \<Longrightarrow> tcp_shape w'"
  by (simp_all add: tcp_ok_def tcp_shape_def arp_inv_def)

text \<open>An operation that leaves the blocks and the ARP cache alone.\<close>

lemma tcp_quiet_frame:
  "tcp_only w w' \<Longrightarrow> caches w' = caches w \<Longrightarrow> tcp_pcbs w' = tcp_pcbs w \<Longrightarrow> tcp_quiet w w'"
  by (auto simp: tcp_quiet_def tcp_evolves_def tcp_at_def intro: tcp_ok_caches)

lemma tcp_quiet_prims [evolves]:
  "tcp_quiet w (cond_broadcast c w)" "tcp_quiet w (fault w)" "tcp_quiet w (snd (calloc w))"
  "tcp_quiet w (snd (random w))" "tcp_quiet w (tcp_wakeup p w)"
  by (rule tcp_quiet_frame; simp add: cond_broadcast_def calloc_def random_def tcp_wakeup_def fault_def
      tcp_only_def)+

lemma upd_tcp_only [simp]: "tcp_only w (upd_tcp p f w)"
  by (simp add: upd_tcp_def set_tcp_def)

lemma caches_upd_tcp [simp]: "caches (upd_tcp p f w) = caches w"
  by (simp add: upd_tcp_def set_tcp_def)

lemma tcp_at_upd:
  "tcp_at q (upd_tcp p f w) = (if q = p \<and> p < length (tcp_pcbs w) then f (tcp_at p w) else tcp_at q w)"
  by (cases "p < length (tcp_pcbs w)") (auto simp: tcp_at_def tcp_pcbs_upd nth_list_update list_update_beyond)

lemma tcp_shapeD:
  assumes "tcp_shape w"
  shows "length (tcp_pcbs w) = 16" "arp_inv w" "p < 16 \<Longrightarrow> tcp_pcb_shape (tcp_at p w)"
  using assms by (auto simp: tcp_shape_def tcp_at_def)

lemma tcp_okD:
  assumes "tcp_ok w"
  shows "length (tcp_pcbs w) = 16" "arp_inv w" "p < 16 \<Longrightarrow> tcp_pcb_ok (tcp_at p w)"
  using assms by (auto simp: tcp_ok_def tcp_shape_def tcp_pcb_ok_def tcp_at_def)

lemma tcp_ok_iff: "tcp_ok w \<longleftrightarrow> tcp_shape w \<and> (\<forall>p < 16. unat (rcv_wnd (tcp_at p w)) \<le> 8192)"
  by (auto simp: tcp_ok_def tcp_shape_def tcp_at_def all_set_conv_all_nth)

text \<open>Assignments to a block: the condition may use the block as it was.\<close>

lemma tcp_evolves_upd:
  assumes "\<And>pcb. tcp_at p w = pcb \<Longrightarrow> tcp_pcb_shape pcb \<Longrightarrow> p < 16 \<Longrightarrow>
      tcp_pcb_shape (f pcb) \<and> R p (tp_state pcb) (tp_state (f pcb)) \<and> (tcp_pcb_ok pcb \<longrightarrow> tcp_pcb_ok (f pcb))"
    and "\<And>q a. R q a a"
  shows "tcp_evolves R w (upd_tcp p f w)"
proof (unfold tcp_evolves_def, intro impI conjI allI)
  assume ok: "tcp_shape w"
  note n = tcp_shapeD(1) [OF ok]
  have f: "tcp_pcb_shape (f (tcp_at p w)) \<and> R p (tp_state (tcp_at p w)) (tp_state (f (tcp_at p w))) \<and>
      (tcp_pcb_ok (tcp_at p w) \<longrightarrow> tcp_pcb_ok (f (tcp_at p w)))" if "p < 16"
    using assms(1) [OF refl tcp_shapeD(3) [OF ok that] that] .
  show "tcp_only w (upd_tcp p f w)" by simp
  show "R q (tp_state (tcp_at q w)) (tp_state (tcp_at q (upd_tcp p f w)))" for q
    using f assms(2) n by (auto simp: tcp_at_upd)
  have "arp_inv (upd_tcp p f w)" using tcp_shapeD(2) [OF ok] by (simp add: arp_inv_def)
  moreover have "tcp_pcb_shape pcb" if "pcb \<in> set ((tcp_pcbs w)[p := f (tcp_pcbs w ! p)])" for pcb
    using that f ok n unfolding tcp_at_def tcp_shape_def
    by (cases "p < 16") (auto dest: set_list_update_cases simp: list_update_beyond)
  ultimately show shape: "tcp_shape (upd_tcp p f w)"
    using n by (simp add: tcp_shape_def tcp_pcbs_upd)
  assume "tcp_ok w"
  then have "tcp_pcb_ok (tcp_at q w)" if "q < 16" for q using that by (rule tcp_okD(3))
  then show "tcp_ok (upd_tcp p f w)"
    using shape f n by (auto simp: tcp_ok_iff tcp_at_upd tcp_pcb_ok_def)
qed

lemma tcp_quiet_upd:
  "(\<And>pcb. tcp_at p w = pcb \<Longrightarrow> tcp_pcb_shape pcb \<Longrightarrow> p < 16 \<Longrightarrow>
      tcp_pcb_shape (f pcb) \<and> tp_state (f pcb) = tp_state pcb \<and> (tcp_pcb_ok pcb \<longrightarrow> tcp_pcb_ok (f pcb))) \<Longrightarrow>
     tcp_quiet w (upd_tcp p f w)"
  unfolding tcp_quiet_def by (rule tcp_evolves_upd) auto

lemma tcp_forwards_upd:
  "(\<And>pcb. tcp_at p w = pcb \<Longrightarrow> tcp_pcb_shape pcb \<Longrightarrow> p < 16 \<Longrightarrow>
      tcp_pcb_shape (f pcb) \<and> tcp_forward (tp_state pcb) (tp_state (f pcb)) \<and> (tcp_pcb_ok pcb \<longrightarrow> tcp_pcb_ok (f pcb))) \<Longrightarrow>
     tcp_forwards w (upd_tcp p f w)"
  unfolding tcp_forwards_def by (rule tcp_evolves_upd) auto

lemma tcp_resets_upd:
  "(\<And>pcb. tcp_at p w = pcb \<Longrightarrow> tcp_pcb_shape pcb \<Longrightarrow> p < 16 \<Longrightarrow>
      tcp_pcb_shape (f pcb) \<and> tcp_reset (tp_state pcb) (tp_state (f pcb)) \<and> (tcp_pcb_ok pcb \<longrightarrow> tcp_pcb_ok (f pcb))) \<Longrightarrow>
     tcp_resets w (upd_tcp p f w)"
  unfolding tcp_resets_def by (rule tcp_evolves_upd) auto

lemma tcp_pcb_shape_fields [simp]:
  "tcp_pcb_shape (pcb\<lparr>tp_state := a\<rparr>) = tcp_pcb_shape pcb" "tcp_pcb_shape (pcb\<lparr>tp_queue := q\<rparr>) = tcp_pcb_shape pcb"
  "tcp_pcb_shape (pcb\<lparr>tp_cond := c\<rparr>) = tcp_pcb_shape pcb" "tcp_pcb_shape (pcb\<lparr>tp_mode := m\<rparr>) = tcp_pcb_shape pcb"
  "tcp_pcb_shape (pcb\<lparr>tp_local := l\<rparr>) = tcp_pcb_shape pcb" "tcp_pcb_shape (pcb\<lparr>tp_foreign := l\<rparr>) = tcp_pcb_shape pcb"
  "tcp_pcb_shape (pcb\<lparr>snd_nxt := x\<rparr>) = tcp_pcb_shape pcb" "tcp_pcb_shape (pcb\<lparr>snd_una := x\<rparr>) = tcp_pcb_shape pcb"
  "tcp_pcb_shape (pcb\<lparr>snd_wnd := v\<rparr>) = tcp_pcb_shape pcb" "tcp_pcb_shape (pcb\<lparr>snd_wl1 := x\<rparr>) = tcp_pcb_shape pcb"
  "tcp_pcb_shape (pcb\<lparr>snd_wl2 := x\<rparr>) = tcp_pcb_shape pcb" "tcp_pcb_shape (pcb\<lparr>tp_iss := x\<rparr>) = tcp_pcb_shape pcb"
  "tcp_pcb_shape (pcb\<lparr>tp_irs := x\<rparr>) = tcp_pcb_shape pcb" "tcp_pcb_shape (pcb\<lparr>rcv_nxt := x\<rparr>) = tcp_pcb_shape pcb"
  "tcp_pcb_shape (pcb\<lparr>tp_tw_timer := t\<rparr>) = tcp_pcb_shape pcb"
  "tcp_pcb_shape (pcb\<lparr>rcv_wnd := v\<rparr>) = tcp_pcb_shape pcb"
  by (simp_all add: tcp_pcb_shape_def)

lemma tcp_pcb_ok_fields [simp]:
  "tcp_pcb_ok (pcb\<lparr>tp_state := a\<rparr>) = tcp_pcb_ok pcb" "tcp_pcb_ok (pcb\<lparr>tp_queue := q\<rparr>) = tcp_pcb_ok pcb"
  "tcp_pcb_ok (pcb\<lparr>tp_cond := c\<rparr>) = tcp_pcb_ok pcb" "tcp_pcb_ok (pcb\<lparr>tp_mode := m\<rparr>) = tcp_pcb_ok pcb"
  "tcp_pcb_ok (pcb\<lparr>tp_local := l\<rparr>) = tcp_pcb_ok pcb" "tcp_pcb_ok (pcb\<lparr>tp_foreign := l\<rparr>) = tcp_pcb_ok pcb"
  "tcp_pcb_ok (pcb\<lparr>snd_nxt := x\<rparr>) = tcp_pcb_ok pcb" "tcp_pcb_ok (pcb\<lparr>snd_una := x\<rparr>) = tcp_pcb_ok pcb"
  "tcp_pcb_ok (pcb\<lparr>snd_wnd := v\<rparr>) = tcp_pcb_ok pcb" "tcp_pcb_ok (pcb\<lparr>snd_wl1 := x\<rparr>) = tcp_pcb_ok pcb"
  "tcp_pcb_ok (pcb\<lparr>snd_wl2 := x\<rparr>) = tcp_pcb_ok pcb" "tcp_pcb_ok (pcb\<lparr>tp_iss := x\<rparr>) = tcp_pcb_ok pcb"
  "tcp_pcb_ok (pcb\<lparr>tp_irs := x\<rparr>) = tcp_pcb_ok pcb" "tcp_pcb_ok (pcb\<lparr>rcv_nxt := x\<rparr>) = tcp_pcb_ok pcb"
  "tcp_pcb_ok (pcb\<lparr>tp_tw_timer := t\<rparr>) = tcp_pcb_ok pcb"
  by (simp_all add: tcp_pcb_ok_def)

lemma tcp_pcb_ok_window [simp]: "tcp_pcb_ok pcb \<Longrightarrow> tcp_pcb_ok (pcb\<lparr>rcv_wnd := of_nat TCP_BUF_SIZE\<rparr>)"
  by (simp add: tcp_pcb_ok_def TCP_BUF_SIZE_def)

lemma zero_tcp_pcb_ok [simp]: "tcp_pcb_shape zero_tcp_pcb" "tcp_pcb_ok zero_tcp_pcb"
  by (simp_all add: tcp_pcb_ok_def tcp_pcb_shape_def zero_tcp_pcb_def TCP_BUF_SIZE_def)

lemma tcp_forwards_set_state:
  "(p < 16 \<Longrightarrow> tcp_forward (tp_state (tcp_at p w)) a) \<Longrightarrow> tcp_forwards w (tcp_set_state p a w)"
  unfolding tcp_set_state_def by (rule tcp_forwards_upd) auto

section \<open>Output\<close>

lemma tcp_output_segment_frame:
  assumes "arp_inv w"
  shows "ip_only w (snd (tcp_output_segment seq ack flg wnd data l r w)) \<and>
         arp_inv (snd (tcp_output_segment seq ack flg wnd data l r w))"
proof -
  have f: "ip_only w (fault w)" "arp_inv (fault w)" using assms by (simp_all add: arp_inv_def fault_def ip_only_def)
  have i: "ip_only w (snd (ip_output p d s t w)) \<and> arp_inv (snd (ip_output p d s t w))" for p d s t
    by (rule ip_output_frame [OF assms])
  show ?thesis
    using f i assms by (simp add: tcp_output_segment_def Let_def split: option.splits prod.splits) (metis snd_conv)
qed

lemma tcp_output_segment_pcbs:
  "arp_inv w \<Longrightarrow> tcp_pcbs (snd (tcp_output_segment s a f n data l r w)) = tcp_pcbs (w :: ('d, 'm) tcp_state_scheme)"
  using tcp_output_segment_frame tcp_pcbs_ip_only by blast

lemma tcp_quiet_segment [evolves]: "tcp_quiet w (snd (tcp_output_segment seq ack flg wnd data l r w))"
  using tcp_output_segment_frame [of w seq ack flg wnd data l r]
  by (auto simp: tcp_quiet_def tcp_evolves_def tcp_ok_def tcp_shape_def tcp_at_def tcp_pcbs_ip_only intro: ip_tcp_only)

lemma tcp_retransmit_add_cases:
  obtains (no_memory) n where "tcp_retransmit_queue_add p seq flg data w = (-1, w\<lparr>alloc_no := n\<rparr>)"
  | (queued) n where "tcp_retransmit_queue_add p seq flg data w =
      (0, upd_tcp p (\<lambda>pcb. pcb\<lparr>tp_queue := tp_queue pcb @
         [\<lparr>tq_first = gettimeofday w, tq_last = gettimeofday w, tq_rto = TCP_DEFAULT_RTO, tq_seq = seq,
           tq_flg = flg, tq_data = data\<rparr>]\<rparr>) (w\<lparr>alloc_no := n\<rparr>))"
    "alloc_ok w (alloc_no w)" "alloc_ok w (Suc (alloc_no w))"
proof -
  let ?n = "alloc_no w"
  have t: "gettimeofday (w\<lparr>alloc_no := n\<rparr>) = gettimeofday w" for n by (simp add: gettimeofday_def)
  consider "\<not> alloc_ok w ?n" | "alloc_ok w ?n" "\<not> alloc_ok w (Suc ?n)"
    | "alloc_ok w ?n" "alloc_ok w (Suc ?n)" by blast
  then show thesis
  proof cases
    case 1
    then show ?thesis by (intro no_memory [of "Suc ?n"]) (simp add: tcp_retransmit_queue_add_def calloc_def)
  next
    case 2
    then show ?thesis
      by (intro no_memory [of "Suc (Suc ?n)"]) (simp add: tcp_retransmit_queue_add_def calloc_def list_push_def)
  next
    case 3
    then show ?thesis
      by (intro queued [of "Suc (Suc ?n)"])
        (simp_all add: tcp_retransmit_queue_add_def calloc_def list_push_def Let_def t upd_tcp_def tcp_at_def set_tcp_def)
  qed
qed

lemma tcp_quiet_alloc_no: "tcp_quiet w (w\<lparr>alloc_no := n\<rparr>)"
  by (rule tcp_quiet_frame) simp_all

lemma tcp_quiet_add [evolves]: "tcp_quiet w (snd (tcp_retransmit_queue_add p seq flg data w))"
proof (cases rule: tcp_retransmit_add_cases [of p seq flg data w])
  case (no_memory n)
  then show ?thesis by (simp add: tcp_quiet_alloc_no)
next
  case (queued n)
  show ?thesis unfolding queued(1) snd_conv
    by (rule tcp_quiet_trans [OF tcp_quiet_alloc_no tcp_quiet_upd]) simp
qed

lemma tcp_quiet_output [evolves]: "tcp_quiet w (snd (tcp_output p flg data w))"
  by (simp add: tcp_output_def Let_def tcp_quiet_segment tcp_quiet_trans [OF tcp_quiet_add tcp_quiet_segment])

lemma tcp_quiet_cleanup [evolves]: "tcp_quiet w (tcp_retransmit_queue_cleanup p w)"
  unfolding tcp_retransmit_queue_cleanup_def by (rule tcp_quiet_upd) simp

lemma tcp_quiet_timewait [evolves]: "tcp_quiet w (tcp_set_timewait_timer p w)"
  unfolding tcp_set_timewait_timer_def Let_def by (rule tcp_quiet_upd) simp

section \<open>Allocation and release\<close>

lemma tcp_forwards_alloc: "tcp_forwards w (snd (tcp_pcb_alloc w))"
proof (cases "find_idx (\<lambda>p. tp_state p = TCP_FREE) (tcp_pcbs w)")
  case None
  then show ?thesis by (simp add: tcp_pcb_alloc_def tcp_quiet_refl tcp_quiet_forwards)
next
  case (Some i)
  then have "tp_state (tcp_at i w) = TCP_FREE" by (auto dest: find_idx_SomeD simp: tcp_at_def)
  with Some show ?thesis by (auto simp: tcp_pcb_alloc_def intro!: tcp_forwards_upd)
qed

lemma tcp_release_enter_eq:
  "tcp_release_enter p w =
     (True, upd_tcp p (\<lambda>pcb. pcb\<lparr>tp_cond := snd (cond_destroy (tp_cond (tcp_at p w))), tp_queue := []\<rparr>) w)"
  using cond_destroy_not_minus1 [of "tp_cond (tcp_at p w)"]
  by (simp add: tcp_release_enter_def Let_def case_prod_beta)

lemma tcp_resets_calls: "tcp_resets w (tcp_release_calls st w)"
proof (induction st w rule: tcp_release_calls.induct)
  case (1 w)
  show ?case by (simp add: tcp_quiet_refl tcp_quiet_resets)
next
  case (2 p st w)
  show ?case
  proof (cases "length (tcp_pcbs w) \<le> p")
    case True
    then show ?thesis by (simp add: tcp_quiet_prims tcp_quiet_resets)
  next
    case False
    show ?thesis
    proof (cases "tp_backlog (tcp_at p w)")
      case Nil
      have "tcp_resets w (set_tcp p zero_tcp_pcb w)"
        using tcp_resets_upd [of p w "\<lambda>_. zero_tcp_pcb"]
        by (simp add: upd_tcp_def) (simp add: zero_tcp_pcb_def)
      with 2(1) [OF False Nil] False Nil show ?thesis by (auto intro: tcp_resets_trans)
    next
      case (Cons est rest)
      let ?w = "upd_tcp p (\<lambda>pcb. pcb\<lparr>tp_backlog := rest\<rparr>) w"
      let ?w1 = "upd_tcp est (\<lambda>pcb. pcb\<lparr>tp_cond := snd (cond_destroy (tp_cond (tcp_at est ?w))),
        tp_queue := []\<rparr>) ?w"
      have "tcp_resets w ?w"
        using Cons by (intro tcp_quiet_resets tcp_quiet_upd) (auto simp: tcp_pcb_ok_def tcp_pcb_shape_def)
      moreover have "tcp_resets ?w ?w1" by (intro tcp_quiet_resets tcp_quiet_upd) simp
      moreover have "tcp_resets ?w1 (tcp_release_calls (est # p # st) ?w1)"
        using 2(2) [OF False Cons, of True ?w1] by (simp add: tcp_release_enter_eq)
      ultimately show ?thesis
        using False Cons by (auto simp: tcp_release_enter_eq intro: tcp_resets_trans)
    qed
  qed
qed

lemma tcp_resets_release [evolves]: "tcp_resets w (tcp_pcb_release p w)"
proof -
  let ?w = "upd_tcp p (\<lambda>pcb. pcb\<lparr>tp_cond := snd (cond_destroy (tp_cond (tcp_at p w))), tp_queue := []\<rparr>) w"
  have "tcp_resets w ?w" by (intro tcp_quiet_resets tcp_quiet_upd) simp
  with tcp_resets_calls [of ?w "[p]"] show ?thesis
    by (simp add: tcp_pcb_release_def tcp_release_enter_eq Let_def del: tcp_release_calls.simps)
      (rule tcp_resets_trans)
qed

lemma tcp_resets_drop [evolves]: "tcp_resets w (tcp_drop p w)"
proof -
  have "tcp_resets w (tcp_set_state p TCP_CLOSED w)"
    unfolding tcp_set_state_def by (rule tcp_resets_upd) simp
  then show ?thesis unfolding tcp_drop_def by (rule tcp_resets_trans) (rule tcp_resets_release)
qed

text \<open>No free block is left behind by the release of a well-formed table: it never faults.\<close>

lemma ub_upd_tcp [simp]: "ub (upd_tcp p f w) = ub w"
  by (simp add: upd_tcp_def set_tcp_def)

lemma tcp_release_calls_safe:
  "tcp_ok w \<Longrightarrow> \<forall>p \<in> set st. p < 16 \<Longrightarrow> ub (tcp_release_calls st w) = ub w"
proof (induction st w rule: tcp_release_calls.induct)
  case (1 w)
  show ?case by simp
next
  case (2 p st w)
  then have p: "p < 16" "\<not> length (tcp_pcbs w) \<le> p" using tcp_okD(1) by fastforce+
  show ?case
  proof (cases "tp_backlog (tcp_at p w)")
    case Nil
    have "tcp_resets w (set_tcp p zero_tcp_pcb w)"
      using tcp_resets_upd [of p w "\<lambda>_. zero_tcp_pcb"]
      by (simp add: upd_tcp_def) (simp add: zero_tcp_pcb_def)
    then have "tcp_ok (set_tcp p zero_tcp_pcb w)"
      using 2(3) by (rule tcp_ok_resets)
    with 2(1) [OF p(2) Nil] 2(4) p Nil show ?thesis by (simp add: set_tcp_def)
  next
    case (Cons est rest)
    let ?w = "upd_tcp p (\<lambda>pcb. pcb\<lparr>tp_backlog := rest\<rparr>) w"
    let ?w1 = "upd_tcp est (\<lambda>pcb. pcb\<lparr>tp_cond := snd (cond_destroy (tp_cond (tcp_at est ?w))),
      tp_queue := []\<rparr>) ?w"
    have "tcp_quiet w ?w"
      using Cons by (intro tcp_quiet_upd) (auto simp: tcp_pcb_ok_def tcp_pcb_shape_def)
    moreover have "tcp_quiet ?w ?w1" by (intro tcp_quiet_upd) simp
    ultimately have "tcp_quiet w ?w1" by (rule tcp_quiet_trans)
    then have "tcp_ok ?w1" using 2(3) by (rule tcp_ok_quiet)
    moreover have "est < 16" using Cons tcp_okD(3) [OF 2(3) p(1)] by (simp add: tcp_pcb_ok_def tcp_pcb_shape_def)
    ultimately have "ub (tcp_release_calls (est # p # st) ?w1) = ub ?w1"
      using 2(2) [OF p(2) Cons, of True ?w1] 2(4) by (simp add: tcp_release_enter_eq)
    then show ?thesis using p Cons by (simp add: tcp_release_enter_eq)
  qed
qed

end
