(* ===== verification/TcpStates.thy ===== *)
theory TcpStates
  imports TcpInv
begin

text \<open>
  Every operation of \<^verbatim>\<open>tcp.c\<close> keeps the table well-formed and moves the connections forward
  through the state diagram, or aborts them, with the two exceptions of C10; a segment
  longer than the window keeps the shape of the table and moves the states forward, but breaks the
  bound on the windows.
\<close>

lemma tcp_evolvesI: "(tcp_shape w \<Longrightarrow> tcp_evolves R w w') \<Longrightarrow> tcp_evolves R w w'"
  by (auto simp: tcp_evolves_def)

lemma tcp_quietD:
  assumes "tcp_quiet w w'" and "tcp_shape w"
  shows "tcp_shape w'" "q < 16 \<Longrightarrow> tp_state (tcp_at q w') = tp_state (tcp_at q w)"
  using tcp_evolvesD [of "\<lambda>_. (=)" w w'] assms by (simp_all add: tcp_quiet_def)

lemma tcp_forwards_quiet_upd:
  assumes quiet: "tcp_quiet w w1"
    and fwd: "p < 16 \<Longrightarrow> tcp_forward (tp_state (tcp_at p w)) a"
    and f: "\<And>pcb. tcp_pcb_shape pcb \<Longrightarrow>
      tcp_pcb_shape (f pcb) \<and> tp_state (f pcb) = a \<and> (tcp_pcb_ok pcb \<longrightarrow> tcp_pcb_ok (f pcb))"
  shows "tcp_forwards w (upd_tcp p f w1)"
proof (unfold tcp_forwards_def, rule tcp_evolvesI, fold tcp_forwards_def)
  assume ok: "tcp_shape w"
  have "tcp_forwards w1 (upd_tcp p f w1)"
    using tcp_quietD(2) [OF quiet ok] fwd f by (intro tcp_forwards_upd) auto
  then show "tcp_forwards w (upd_tcp p f w1)"
    by (rule tcp_forwards_trans [OF tcp_quiet_forwards [OF quiet]])
qed

lemma tcp_forwards_set_after:
  assumes "tcp_quiet w w1" and "p < 16 \<Longrightarrow> tcp_forward (tp_state (tcp_at p w)) a"
  shows "tcp_forwards w (tcp_set_state p a w1)"
  unfolding tcp_set_state_def by (rule tcp_forwards_quiet_upd [OF assms]) simp_all

lemma tcp_forwards_quiet: "tcp_forwards w1 w2 \<Longrightarrow> tcp_quiet w2 w3 \<Longrightarrow> tcp_forwards w1 w3"
  by (erule tcp_forwards_trans) (rule tcp_quiet_forwards)

section \<open>Segment arrives\<close>

lemma tcp_quiet_rst [evolves]: "tcp_quiet w (tcp_send_rst seg local foreign w)"
  by (simp add: tcp_send_rst_def evolves)

lemma tcp_quiet_closed [evolves]: "tcp_quiet w (tcp_seg_closed seg flags local foreign w)"
  by (simp add: tcp_seg_closed_def evolves)

lemma tcp_pcb_alloc_Some:
  assumes "tcp_pcb_alloc w = (Some n, w1)"
  shows "n < length (tcp_pcbs w)" "tp_state (tcp_at n w) = TCP_FREE"
    "w1 = upd_tcp n (\<lambda>p. p\<lparr>tp_state := TCP_CLOSED, tp_cond := cond_init\<rparr>) w"
    "tp_state (tcp_at n w1) = TCP_CLOSED"
proof -
  from assms have find: "find_idx (\<lambda>p. tp_state p = TCP_FREE) (tcp_pcbs w) = Some n"
    and w1: "w1 = upd_tcp n (\<lambda>p. p\<lparr>tp_state := TCP_CLOSED, tp_cond := cond_init\<rparr>) w"
    by (simp_all add: tcp_pcb_alloc_def split: option.splits)
  from find_idx_SomeD [OF find] w1
  show "n < length (tcp_pcbs w)" "tp_state (tcp_at n w) = TCP_FREE"
    "w1 = upd_tcp n (\<lambda>p. p\<lparr>tp_state := TCP_CLOSED, tp_cond := cond_init\<rparr>) w"
    "tp_state (tcp_at n w1) = TCP_CLOSED"
    by (simp_all add: tcp_at_def tcp_pcbs_upd)
qed

text \<open>The end of the passive open, for the block that will be the connection.\<close>

lemma tcp_forwards_syn_received:
  assumes "q < 16 \<Longrightarrow> tcp_forward (tp_state (tcp_at q w)) TCP_SYN_RECEIVED"
  shows "tcp_forwards w
     (let (iss, w2) = random w;
          w3 = upd_tcp q (\<lambda>pcb. pcb\<lparr>tp_local := local, tp_foreign := foreign,
                 rcv_wnd := of_nat TCP_BUF_SIZE, rcv_nxt := nxt, tp_irs := irs, tp_iss := iss\<rparr>) w2;
          w4 = snd (tcp_output q (TCP_FLG_SYN OR TCP_FLG_ACK) [] w3)
      in upd_tcp q (\<lambda>pcb. pcb\<lparr>snd_nxt := tp_iss pcb + 1, snd_una := tp_iss pcb,
                              tp_state := TCP_SYN_RECEIVED\<rparr>) w4)"
proof -
  let ?u = "\<lambda>iss pcb. pcb\<lparr>tp_local := local, tp_foreign := foreign, rcv_wnd := of_nat TCP_BUF_SIZE,
      rcv_nxt := nxt, tp_irs := irs, tp_iss := iss\<rparr>"
  let ?w3 = "upd_tcp q (?u (fst (random w))) (snd (random w))"
  let ?w4 = "snd (tcp_output q (TCP_FLG_SYN OR TCP_FLG_ACK) [] ?w3)"
  have "tcp_quiet (snd (random w)) ?w3" by (rule tcp_quiet_upd) simp
  then have "tcp_quiet w ?w4"
    using tcp_quiet_trans tcp_quiet_output tcp_quiet_prims(4) by blast
  from tcp_forwards_quiet_upd [OF this assms] show ?thesis
    by (simp add: Let_def case_prod_beta)
qed

lemma tcp_forwards_listen:
  assumes "tp_state (tcp_at p w) = TCP_LISTEN" and "p < 16"
  shows "tcp_forwards w (tcp_seg_listen p seg flags local foreign w)"
proof -
  note syn = tcp_forwards_syn_received [where local = "local" and foreign = foreign and
      nxt = "seg_seq seg + 1" and irs = "seg_seq seg"]
  let ?new = "\<lambda>n w1. upd_tcp n (\<lambda>pcb. pcb\<lparr>tp_mode := TCP_PCB_MODE_SOCKET, tp_parent := Some p\<rparr>) w1"
  obtain r w1 where alloc: "tcp_pcb_alloc w = (r, w1)" by fastforce
  have w1: "tcp_forwards w w1" using tcp_forwards_alloc [of w] alloc by simp
  have new: "tcp_forwards w (?new n w1)" "tp_state (tcp_at n (?new n w1)) = TCP_CLOSED" if "r = Some n" for n
  proof -
    have "tcp_quiet w1 (?new n w1)"
      using assms(2) by (intro tcp_quiet_upd) (auto simp: tcp_pcb_ok_def tcp_pcb_shape_def)
    with w1 show "tcp_forwards w (?new n w1)" by (rule tcp_forwards_quiet)
    show "tp_state (tcp_at n (?new n w1)) = TCP_CLOSED"
      using tcp_pcb_alloc_Some [of w n w1] alloc that by (simp add: tcp_at_upd)
  qed
  consider "TCP_FLG_ISSET flags TCP_FLG_RST" | "\<not> TCP_FLG_ISSET flags TCP_FLG_RST" "TCP_FLG_ISSET flags TCP_FLG_ACK"
    | "\<not> TCP_FLG_ISSET flags TCP_FLG_RST" "\<not> TCP_FLG_ISSET flags TCP_FLG_ACK" "\<not> TCP_FLG_ISSET flags TCP_FLG_SYN"
    | "\<not> TCP_FLG_ISSET flags TCP_FLG_RST" "\<not> TCP_FLG_ISSET flags TCP_FLG_ACK" "TCP_FLG_ISSET flags TCP_FLG_SYN"
    by blast
  then show ?thesis
  proof cases
    case 4
    show ?thesis
    proof (cases "tp_mode (tcp_at p w) = TCP_PCB_MODE_SOCKET")
      case False
      have "tcp_forward (tp_state (tcp_at p w)) TCP_SYN_RECEIVED" using assms(1) by simp
      from syn [OF this] False 4 show ?thesis by (simp add: tcp_seg_listen_def)
    next
      case mode: True
      show ?thesis
      proof (cases r)
        case None
        with mode 4 w1 show ?thesis by (simp add: tcp_seg_listen_def alloc)
      next
        case (Some n)
        have "tcp_forward (tp_state (tcp_at n (?new n w1))) TCP_SYN_RECEIVED" using new(2) [OF Some] by simp
        from tcp_forwards_trans [OF new(1) [OF Some] syn [OF this]] Some mode 4 show ?thesis
          by (simp add: tcp_seg_listen_def alloc)
      qed
    qed
  qed (simp_all add: tcp_seg_listen_def evolves tcp_quiet_forwards)
qed

lemma tcp_advances_syn_sent:
  assumes st: "tp_state (tcp_at p w) = TCP_SYN_SENT"
  shows "tcp_advances w (tcp_seg_syn_sent p seg flags local foreign w)"
proof -
  let ?w1 = "upd_tcp p (\<lambda>pcb. pcb\<lparr>rcv_nxt := seg_seq seg + 1, tp_irs := seg_seq seg\<rparr>) w"
  have q1: "tcp_quiet w ?w1" by (rule tcp_quiet_upd) simp
  have "tcp_quiet ?w1 (upd_tcp p (\<lambda>pcb. pcb\<lparr>snd_una := seg_ack seg\<rparr>) ?w1)" by (rule tcp_quiet_upd) simp
  from tcp_quiet_trans [OF q1 tcp_quiet_trans [OF this tcp_quiet_cleanup]]
  have q2: "tcp_quiet w (tcp_retransmit_queue_cleanup p (upd_tcp p (\<lambda>pcb. pcb\<lparr>snd_una := seg_ack seg\<rparr>) ?w1))" .
  have est: "tcp_forwards w (tcp_wakeup p (upd_tcp p (\<lambda>pcb. pcb\<lparr>snd_wnd := seg_wnd seg, snd_wl1 := seg_seq seg,
      snd_wl2 := seg_ack seg\<rparr>) (snd (tcp_output p TCP_FLG_ACK [] (tcp_set_state p TCP_ESTABLISHED w2)))))"
    if "tcp_quiet w w2" for w2
  proof -
    have "tcp_forwards w (tcp_set_state p TCP_ESTABLISHED w2)"
      using that st by (intro tcp_forwards_set_after) simp_all
    moreover have "tcp_quiet v (upd_tcp p (\<lambda>pcb. pcb\<lparr>snd_wnd := seg_wnd seg, snd_wl1 := seg_seq seg,
      snd_wl2 := seg_ack seg\<rparr>) v)" for v :: "('a, 'b) tcp_state_scheme"
      by (rule tcp_quiet_upd) simp
    ultimately show ?thesis
      by (meson tcp_forwards_quiet tcp_quiet_output tcp_quiet_prims(5))
  qed
  have syn: "tcp_forwards w (snd (tcp_output p (TCP_FLG_SYN OR TCP_FLG_ACK) [] (tcp_set_state p TCP_SYN_RECEIVED w2)))"
    if "tcp_quiet w w2" for w2
    using that st by (intro tcp_forwards_quiet [OF tcp_forwards_set_after tcp_quiet_output]) simp_all
  show ?thesis
    using est [OF q1] est [OF q2] syn [OF q1] syn [OF q2]
    by (simp add: tcp_seg_syn_sent_def Let_def evolves tcp_quiet_advances tcp_resets_advances tcp_forwards_advances)
qed

text \<open>
  Where text is taken in, the window stays bounded only if no undefined access happened. The flag
  is never cleared, so that this goes on along a sequence of steps.
\<close>

definition tcp_may ::
  "(nat \<Rightarrow> tcp_pcb_state \<Rightarrow> tcp_pcb_state \<Rightarrow> bool) \<Rightarrow>
     ('d, 'm) tcp_state_scheme \<Rightarrow> ('d, 'm) tcp_state_scheme \<Rightarrow> bool" where
  "tcp_may R w w' \<longleftrightarrow>
     (tcp_shape w \<longrightarrow> tcp_only w w' \<and> tcp_shape w' \<and> (tcp_ok w \<longrightarrow> ub w' \<or> tcp_ok w') \<and>
        (\<forall>q < 16. R q (tp_state (tcp_at q w)) (tp_state (tcp_at q w'))))"

lemma tcp_mayD:
  assumes "tcp_may R w w'" and "tcp_shape w"
  shows "tcp_only w w'" "tcp_shape w'" "q < 16 \<Longrightarrow> R q (tp_state (tcp_at q w)) (tp_state (tcp_at q w'))"
    "tcp_ok w \<Longrightarrow> \<not> ub w' \<Longrightarrow> tcp_ok w'"
  using assms by (simp_all add: tcp_may_def)

lemma tcp_evolves_may: "tcp_evolves R w w' \<Longrightarrow> (\<And>q a b. R q a b \<Longrightarrow> S q a b) \<Longrightarrow> tcp_may S w w'"
  by (auto simp: tcp_evolves_def tcp_may_def)

lemma tcp_only_ub: "tcp_only w w' \<Longrightarrow> ub w \<Longrightarrow> ub w'"
  by (simp add: tcp_only_def)

lemma tcp_may_trans:
  assumes "tcp_may R w1 w2" and "tcp_may S w2 w3"
    and "\<And>q a b c. R q a b \<Longrightarrow> S q b c \<Longrightarrow> T q a c"
  shows "tcp_may T w1 w3"
  using assms unfolding tcp_may_def by (blast intro: tcp_only_trans tcp_only_ub)

text \<open>A step of the processing of a segment: forward as long as it goes on.\<close>

definition tcp_step_ok ::
  "('d, 'm) tcp_state_scheme \<Rightarrow> bool \<times> ('d, 'm) tcp_state_scheme \<Rightarrow> bool" where
  "tcp_step_ok w r \<longleftrightarrow>
     tcp_may (\<lambda>_. tcp_advance) w (snd r) \<and> (fst r \<longrightarrow> tcp_may (\<lambda>_. tcp_forward) w (snd r))"

lemma tcp_step_forwards: "tcp_forwards w w1 \<Longrightarrow> tcp_step_ok w (b, w1)"
  unfolding tcp_forwards_def tcp_step_ok_def by (auto intro: tcp_evolves_may)

lemma tcp_step_quiet: "tcp_quiet w w1 \<Longrightarrow> tcp_step_ok w (b, w1)"
  by (intro tcp_step_forwards tcp_quiet_forwards)

lemma tcp_step_stop: "tcp_advances w w1 \<Longrightarrow> tcp_step_ok w (False, w1)"
  unfolding tcp_advances_def tcp_step_ok_def by (auto intro: tcp_evolves_may)

lemma tcp_step_and_then:
  assumes "tcp_step_ok w r" and "\<And>w1. tcp_step_ok w1 (f w1)"
  shows "tcp_step_ok w (and_then r f)"
proof (cases "fst r")
  case True
  then have r: "tcp_may (\<lambda>_. tcp_forward) w (snd r)" using assms(1) by (simp add: tcp_step_ok_def)
  have "tcp_may (\<lambda>_. tcp_advance) w (snd (f (snd r)))"
    using assms(2) [of "snd r"] unfolding tcp_step_ok_def
    by (elim conjE tcp_may_trans [OF r]) (auto simp: tcp_advance_def intro: tcp_forward_trans)
  moreover have "tcp_may (\<lambda>_. tcp_forward) w (snd (f (snd r)))" if "fst (f (snd r))"
    using assms(2) [of "snd r"] that unfolding tcp_step_ok_def
    by (auto intro: tcp_may_trans [OF r] tcp_forward_trans)
  ultimately show ?thesis using True by (simp add: and_then_def tcp_step_ok_def)
qed (use assms(1) in \<open>simp add: and_then_def\<close>)

lemma tcp_step_seq: "tcp_step_ok w (tcp_check_seq p seg flags w)"
  by (simp add: tcp_check_seq_def tcp_step_quiet evolves)

lemma tcp_step_rst: "tcp_step_ok w (tcp_check_rst p flags w)"
  by (simp add: tcp_check_rst_def tcp_step_quiet tcp_step_stop tcp_resets_advances evolves)

lemma tcp_step_syn: "tcp_step_ok w (tcp_check_syn p flags w)"
proof -
  have "tcp_advances w (tcp_drop p (snd (tcp_output p TCP_FLG_RST [] w)))"
    by (rule tcp_quiet_then [OF tcp_quiet_output tcp_resets_advances [OF tcp_resets_drop]])
  then show ?thesis by (simp add: tcp_check_syn_def tcp_step_quiet tcp_step_stop evolves)
qed

lemma tcp_step_ack_syn_received:
  assumes "tp_state (tcp_at p w) = TCP_SYN_RECEIVED" and p: "p < 16"
  shows "tcp_step_ok w (tcp_ack_syn_received p seg local foreign w)"
proof (cases "snd_una (tcp_at p w) \<le> seg_ack seg \<and> seg_ack seg \<le> snd_nxt (tcp_at p w)")
  case True
  let ?w1 = "tcp_wakeup p (tcp_set_state p TCP_ESTABLISHED w)"
  have w1: "tcp_forwards w ?w1"
    using assms by (intro tcp_forwards_quiet [OF tcp_forwards_set_state tcp_quiet_prims(5)]) simp
  obtain ok w2 where c: "calloc ?w1 = (ok, w2)" by fastforce
  have w2: "tcp_forwards w w2"
    using tcp_forwards_quiet [OF w1 tcp_quiet_prims(3)] c by simp
  have "tcp_forwards w (tcp_wakeup parent (upd_tcp parent
      (\<lambda>pcb. pcb\<lparr>tp_backlog := snd (list_push ok p (tp_backlog (tcp_at parent w2)))\<rparr>) w2))" for parent
  proof -
    have "tcp_quiet w2 (upd_tcp parent
      (\<lambda>pcb. pcb\<lparr>tp_backlog := snd (list_push ok p (tp_backlog (tcp_at parent w2)))\<rparr>) w2)"
      using p by (intro tcp_quiet_upd) (auto simp: tcp_pcb_ok_def tcp_pcb_shape_def list_push_def)
    then show ?thesis by (meson w2 tcp_forwards_quiet tcp_quiet_prims(5))
  qed
  with w1 c True show ?thesis
    by (auto simp: tcp_ack_syn_received_def Let_def case_prod_beta intro!: tcp_step_forwards split: option.splits)
next
  case False
  then show ?thesis by (auto simp: tcp_ack_syn_received_def Let_def intro!: tcp_step_quiet evolves)
qed

lemma tcp_forwards_ack_common: "tcp_forwards w (snd (tcp_ack_common p seg w))"
proof -
  let ?pcb = "tcp_at p w"
  let ?w0 = "tcp_retransmit_queue_cleanup p (upd_tcp p (\<lambda>pcb. pcb\<lparr>snd_una := seg_ack seg\<rparr>) w)"
  let ?w' = "upd_tcp p (\<lambda>pcb. pcb\<lparr>snd_wnd := seg_wnd seg, snd_wl1 := seg_seq seg, snd_wl2 := seg_ack seg\<rparr>) ?w0"
  have "tcp_quiet w (upd_tcp p (\<lambda>pcb. pcb\<lparr>snd_una := seg_ack seg\<rparr>) w)" by (rule tcp_quiet_upd) simp
  then have q0: "tcp_quiet w ?w0" by (rule tcp_quiet_trans) (rule tcp_quiet_cleanup)
  moreover have "tcp_quiet ?w0 ?w'" by (rule tcp_quiet_upd) simp
  ultimately have q': "tcp_quiet w ?w'" by (rule tcp_quiet_trans)
  have fw2: "tcp_forwards w (tcp_set_state p TCP_FIN_WAIT2 w1)"
    if "tcp_quiet w w1" "tp_state (tcp_at p w1) = TCP_FIN_WAIT1" for w1
    using that by (intro tcp_forwards_trans [OF tcp_quiet_forwards [OF that(1)]] tcp_forwards_set_state) simp
  have tw: "tcp_forwards w (tcp_wakeup p (tcp_set_timewait_timer p (tcp_set_state p TCP_TIME_WAIT w1)))"
    if "tcp_quiet w w1" "tp_state (tcp_at p w1) = TCP_CLOSING" for w1
  proof -
    have "tcp_forwards w (tcp_set_state p TCP_TIME_WAIT w1)"
      using that by (intro tcp_forwards_trans [OF tcp_quiet_forwards [OF that(1)]] tcp_forwards_set_state) simp
    then show ?thesis by (meson tcp_forwards_quiet tcp_quiet_timewait tcp_quiet_prims(5))
  qed
  define w1 where "w1 = (if snd_una ?pcb < seg_ack seg \<and> seg_ack seg \<le> snd_nxt ?pcb then
      if snd_wl1 ?pcb < seg_seq seg \<or> (snd_wl1 ?pcb = seg_seq seg \<and> snd_wl2 ?pcb \<le> seg_ack seg)
      then ?w' else ?w0 else w)"
  have "tcp_quiet w w1" using q0 q' by (simp add: w1_def tcp_quiet_refl)
  with fw2 tw show ?thesis
    unfolding tcp_ack_common_def Let_def w1_def [symmetric]
    by (simp add: tcp_quiet_forwards evolves)
qed

lemma tcp_step_ack_common: "tcp_step_ok w (tcp_ack_common p seg w)"
  using tcp_step_forwards [OF tcp_forwards_ack_common, of w "fst (tcp_ack_common p seg w)" p seg] by simp

lemma tcp_step_ack:
  assumes p: "p < 16"
  shows "tcp_step_ok w (tcp_check_ack p seg flags local foreign w)"
proof -
  consider "\<not> TCP_FLG_ISSET flags TCP_FLG_ACK"
    | "TCP_FLG_ISSET flags TCP_FLG_ACK" "tp_state (tcp_at p w) = TCP_SYN_RECEIVED"
    | "TCP_FLG_ISSET flags TCP_FLG_ACK" "tp_state (tcp_at p w) \<noteq> TCP_SYN_RECEIVED"
    by blast
  then show ?thesis
  proof cases
    case 1
    then show ?thesis by (simp add: tcp_check_ack_def tcp_step_quiet evolves)
  next
    case 2
    then show ?thesis
      by (simp add: tcp_check_ack_def tcp_step_and_then [OF tcp_step_ack_syn_received [OF 2(2) p] tcp_step_ack_common])
  next
    case 3
    then show ?thesis
      by (simp add: tcp_check_ack_def Let_def tcp_step_ack_common tcp_step_quiet tcp_step_stop
          tcp_resets_advances evolves)
  qed
qed

text \<open>
  The data is copied. If it fits the window, the window shrinks by it; if not, there is an
  undefined access.
\<close>

definition tcp_copied :: "tcp_segment_info \<Rightarrow> u8 list \<Rightarrow> nat \<Rightarrow> nat \<Rightarrow> tcp_pcb \<Rightarrow> tcp_pcb" where
  "tcp_copied seg mem len offset pcb = pcb\<lparr>tp_buf := take TCP_BUF_SIZE
       (take offset (tp_buf pcb) @ take len mem @ drop (offset + length (take len mem)) (tp_buf pcb)),
     rcv_nxt := seg_seq seg + ucast (seg_len seg), rcv_wnd := rcv_wnd pcb - of_nat len\<rparr>"

lemma tcp_segment_text_eq:
  "tcp_segment_text p seg mem len w =
     (if tp_state (tcp_at p w) \<in> {TCP_ESTABLISHED, TCP_FIN_WAIT1, TCP_FIN_WAIT2} \<and> len \<noteq> 0
      then (True, tcp_wakeup p (snd (tcp_output p TCP_FLG_ACK []
        (upd_tcp p (tcp_copied seg mem len (size_sub TCP_BUF_SIZE (unat (rcv_wnd (tcp_at p w)))))
          (if tcp_text_fits (tcp_at p w) mem len then w else fault w)))))
      else (True, w))"
  unfolding tcp_segment_text_def tcp_copied_def Let_def ..

lemma unat_window_shrinks:
  assumes "len \<le> unat (wnd :: u16)"
  shows "unat (wnd - of_nat len) = unat wnd - len"
proof -
  have "unat (of_nat len :: u16) = len" using assms unat_u16_bound [of wnd] by (intro unat_of_nat_u16) simp
  moreover from this assms have "(of_nat len :: u16) \<le> wnd" by (simp add: word_le_nat_alt)
  ultimately show ?thesis by (simp add: unat_sub)
qed

lemma tcp_copied_shape: "tcp_pcb_shape pcb \<Longrightarrow> tcp_pcb_shape (tcp_copied seg mem len offset pcb)"
  by (auto simp: tcp_pcb_shape_def tcp_copied_def TCP_BUF_SIZE_def min_def)

lemma tcp_copied_state [simp]: "tp_state (tcp_copied seg mem len offset pcb) = tp_state pcb"
  by (simp add: tcp_copied_def)

lemma tcp_copied_ok:
  assumes "tcp_text_fits pcb mem len" "tcp_pcb_ok pcb"
  shows "tcp_pcb_ok (tcp_copied seg mem len (size_sub TCP_BUF_SIZE (unat (rcv_wnd pcb))) pcb)"
proof -
  have wnd: "unat (rcv_wnd pcb) \<le> 8192" using assms(2) by (simp add: tcp_pcb_ok_def)
  then have "8192 - unat (rcv_wnd pcb) + len \<le> 8192"
    using assms(1) by (simp only: tcp_text_fits_def TCP_BUF_SIZE_def size_sub_le)
  then have "len \<le> unat (rcv_wnd pcb)" using wnd by arith
  from unat_window_shrinks [OF this] show ?thesis
    using assms(2) wnd tcp_copied_shape by (simp add: tcp_pcb_ok_def tcp_copied_def)
qed

lemma tcp_shape_fault [simp]: "tcp_shape (fault w) = tcp_shape w"
  by (simp add: tcp_shape_def arp_inv_def fault_def)

lemma tcp_shape_copied:
  "tcp_shape w \<Longrightarrow> tcp_shape (upd_tcp p (tcp_copied seg mem len offset) w)"
  using tcp_shapeD(3) [of w p]
  by (cases "p < 16") (auto simp: tcp_shape_def tcp_pcbs_upd tcp_at_def arp_inv_def list_update_beyond
      dest!: set_list_update_cases intro!: tcp_copied_shape)

lemma tcp_quiet_acked: "tcp_quiet w (tcp_wakeup p (snd (tcp_output p TCP_FLG_ACK [] w)))"
  by (meson tcp_quiet_trans tcp_quiet_output tcp_quiet_prims(5))

lemma tcp_quiet_text:
  assumes "len = 0 \<or> tcp_text_fits (tcp_at p w) mem len"
  shows "tcp_quiet w (snd (tcp_segment_text p seg mem len w))"
proof (cases "len = 0")
  case False
  then have "tcp_quiet w (upd_tcp p (tcp_copied seg mem len (size_sub TCP_BUF_SIZE (unat (rcv_wnd (tcp_at p w))))) w)"
    using assms by (intro tcp_quiet_upd) (auto simp: tcp_copied_shape tcp_copied_ok)
  from tcp_quiet_trans [OF this tcp_quiet_acked] False assms show ?thesis
    by (simp add: tcp_segment_text_eq tcp_quiet_refl)
qed (simp add: tcp_segment_text_eq tcp_quiet_refl)

lemma tcp_step_text: "tcp_step_ok w (tcp_segment_text p seg mem len w)"
proof (cases "tp_state (tcp_at p w) \<in> {TCP_ESTABLISHED, TCP_FIN_WAIT1, TCP_FIN_WAIT2} \<and> len \<noteq> 0 \<and>
    \<not> tcp_text_fits (tcp_at p w) mem len")
  case False
  then have "tcp_quiet w (snd (tcp_segment_text p seg mem len w))"
    using tcp_quiet_text [of len p w mem seg] by (cases "len = 0 \<or> tcp_text_fits (tcp_at p w) mem len")
      (auto simp: tcp_segment_text_eq tcp_quiet_refl)
  then have "tcp_step_ok w (fst (tcp_segment_text p seg mem len w), snd (tcp_segment_text p seg mem len w))"
    by (rule tcp_step_quiet)
  then show ?thesis by simp
next
  case True
  let ?w1 = "upd_tcp p (tcp_copied seg mem len (size_sub TCP_BUF_SIZE (unat (rcv_wnd (tcp_at p w))))) (fault w)"
  have "tcp_may (\<lambda>_. (=)) w ?w1"
  proof (unfold tcp_may_def, intro impI conjI allI)
    assume w: "tcp_shape w"
    show "tcp_only w ?w1" by (rule tcp_only_trans [of _ "fault w"]) simp_all
    show "tcp_shape ?w1" using w by (intro tcp_shape_copied) simp
    show "tp_state (tcp_at q w) = tp_state (tcp_at q ?w1)" for q
      by (simp add: tcp_at_upd) (simp add: tcp_at_def fault_def)
    show "ub ?w1 \<or> tcp_ok ?w1" by (simp add: fault_def)
  qed
  moreover have "tcp_may (\<lambda>_. (=)) ?w1 (tcp_wakeup p (snd (tcp_output p TCP_FLG_ACK [] ?w1)))"
    using tcp_quiet_acked [of ?w1 p] unfolding tcp_quiet_def by (rule tcp_evolves_may)
  ultimately have m: "tcp_may R w (tcp_wakeup p (snd (tcp_output p TCP_FLG_ACK [] ?w1)))" if "\<And>q a. R q a a" for R
    by (rule tcp_may_trans) (use that in simp)
  show ?thesis using True m by (simp add: tcp_segment_text_eq tcp_step_ok_def)
qed

lemma tcp_forwards_fin: "tcp_forwards w (tcp_check_fin p seg flags w)"
proof -
  let ?w1 = "snd (tcp_output p TCP_FLG_ACK [] (upd_tcp p (\<lambda>pcb. pcb\<lparr>rcv_nxt := seg_seq seg + 1\<rparr>) w))"
  have "tcp_quiet w (upd_tcp p (\<lambda>pcb. pcb\<lparr>rcv_nxt := seg_seq seg + 1\<rparr>) w)" by (rule tcp_quiet_upd) simp
  then have q: "tcp_forwards w ?w1" by (intro tcp_quiet_forwards) (meson tcp_quiet_trans tcp_quiet_output)
  have set: "tcp_forwards w (tcp_set_state p b ?w1)" if "tcp_forward (tp_state (tcp_at p ?w1)) b" for b
    using that by (intro tcp_forwards_trans [OF q] tcp_forwards_set_state)
  note then_timer = tcp_forwards_quiet [OF set tcp_quiet_timewait] and then_wake = tcp_forwards_quiet [OF set tcp_quiet_prims(5)]
  show ?thesis
    by (cases "tp_state (tcp_at p ?w1)")
      (simp_all add: tcp_check_fin_def Let_def q set then_timer then_wake tcp_quiet_forwards tcp_quiet_refl
        tcp_forwards_quiet [OF q tcp_quiet_timewait])
qed

text \<open>The states go forward whatever arrives.\<close>

lemma tcp_may_otherwise:
  assumes p: "p < 16"
  shows "tcp_may (\<lambda>_. tcp_advance) w (tcp_seg_otherwise p seg flags mem len local foreign w)"
proof -
  have "tcp_step_ok w (and_then (and_then (and_then (and_then (and_then
            (tcp_check_seq p seg flags w) (tcp_check_rst p flags)) (tcp_check_syn p flags))
            (tcp_check_ack p seg flags local foreign)) (tcp_segment_text p seg mem len))
            (\<lambda>w. (True, tcp_check_fin p seg flags w)))"
    by (intro tcp_step_and_then tcp_step_seq tcp_step_rst tcp_step_syn tcp_step_ack [OF p] tcp_step_text
        tcp_step_forwards tcp_forwards_fin)
  then show ?thesis by (simp add: tcp_seg_otherwise_def tcp_step_ok_def)
qed

lemma tcp_select_loop_bound:
  "tcp_select_loop l f i c ps = Some j \<Longrightarrow> (\<And>k. c = Some k \<Longrightarrow> k < i) \<Longrightarrow> j < i + length ps"
  by (induction l f i c ps rule: tcp_select_loop.induct) (fastforce split: if_splits option.splits)+

lemma tcp_pcb_select_bound: "tcp_pcb_select l f ps = Some j \<Longrightarrow> j < length ps"
  using tcp_select_loop_bound [of l f 0 None ps j] by (simp add: tcp_pcb_select_def)

lemma tcp_advances_may: "tcp_advances w w' \<Longrightarrow> tcp_may (\<lambda>_. tcp_advance) w w'"
  unfolding tcp_advances_def by (rule tcp_evolves_may)

lemma tcp_may_arrives: "tcp_may (\<lambda>_. tcp_advance) w (tcp_segment_arrives seg flags mem len local foreign w)"
proof (cases "tcp_pcb_select local (Some foreign) (tcp_pcbs w)")
  case None
  then show ?thesis by (simp add: tcp_segment_arrives_def evolves tcp_quiet_advances tcp_advances_may)
next
  case (Some p)
  show ?thesis
  proof (cases "tcp_shape w")
    case True
    then have p: "p < 16" using Some tcp_shapeD(1) tcp_pcb_select_bound by fastforce
    with Some show ?thesis
      by (cases "tp_state (tcp_at p w)")
        (simp_all add: tcp_segment_arrives_def evolves tcp_quiet_advances tcp_forwards_listen
          tcp_forwards_advances tcp_advances_syn_sent tcp_advances_may tcp_may_otherwise)
  qed (simp add: tcp_may_def)
qed

lemma tcp_may_input: "tcp_may (\<lambda>_. tcp_advance) w (tcp_input mem len src dst iface w)"
  by (simp add: tcp_input_def Let_def tcp_may_arrives tcp_quiet_advances tcp_advances_may evolves split: option.split)

section \<open>Timer\<close>

lemma tcp_resets_emit: "tcp_resets w (fst (tcp_retransmit_queue_emit p w entry))"
proof -
  have "tcp_resets w (upd_tcp p (\<lambda>pcb. pcb\<lparr>tp_state := TCP_CLOSED\<rparr>) w)" by (rule tcp_resets_upd) simp
  then have "tcp_resets w (cond_broadcast (tp_cond (tcp_at p w)) (upd_tcp p (\<lambda>pcb. pcb\<lparr>tp_state := TCP_CLOSED\<rparr>) w))"
    by (rule tcp_resets_trans) (intro tcp_quiet_resets tcp_quiet_prims)
  then show ?thesis
    by (simp add: tcp_retransmit_queue_emit_def Let_def tcp_quiet_resets evolves)
qed

lemma tcp_resets_foreach: "tcp_resets w (fst (list_foreach (tcp_retransmit_queue_emit p) w es))"
proof (induction es arbitrary: w)
  case Nil
  show ?case by (simp add: tcp_quiet_resets evolves)
next
  case (Cons e es)
  obtain w1 e1 where e: "tcp_retransmit_queue_emit p w e = (w1, e1)" by fastforce
  have "tcp_resets w w1" using tcp_resets_emit [of w p e] e by simp
  from tcp_resets_trans [OF this Cons.IH [of w1]] show ?case by (simp add: e case_prod_beta)
qed

lemma tcp_resets_timer_pcb: "tcp_resets w (tcp_timer_pcb p w)"
proof -
  let ?f = "list_foreach (tcp_retransmit_queue_emit p) w (tp_queue (tcp_at p w))"
  have "tcp_resets (fst ?f) (upd_tcp p (\<lambda>pcb. pcb\<lparr>tp_queue := snd ?f\<rparr>) (fst ?f))"
    by (intro tcp_quiet_resets tcp_quiet_upd) simp
  from tcp_resets_trans [OF tcp_resets_foreach this] show ?thesis
    by (simp add: tcp_timer_pcb_def Let_def case_prod_beta evolves tcp_quiet_resets)
qed

lemma tcp_resets_timer [evolves]: "tcp_resets w (tcp_timer w)"
proof -
  have "tcp_resets w (fold tcp_timer_pcb ps w)" for ps
    by (induction ps arbitrary: w)
      (auto simp: evolves tcp_quiet_resets intro: tcp_resets_trans tcp_resets_timer_pcb)
  then show ?thesis by (simp add: tcp_timer_def)
qed

section \<open>User commands\<close>

lemma tcp_quiet_sleep [evolves]: "tcp_quiet w (tcp_sleep p w)" "tcp_quiet w (tcp_awake p w)"
  unfolding tcp_sleep_def tcp_awake_def by (rule tcp_quiet_upd; simp)+

lemma tcp_resets_wait [evolves]: "tcp_resets w (snd (tcp_wait_open st p w))"
  by (simp add: tcp_wait_open_def Let_def evolves tcp_quiet_resets)

lemma tcp_resets_open_woken [evolves]: "tcp_resets w (snd (tcp_open_woken k w))"
  unfolding tcp_open_woken_def
  by (rule tcp_resets_trans [OF tcp_quiet_resets [OF tcp_quiet_sleep(2)] tcp_resets_wait])

text \<open>A command that may put block \<open>p\<close> into a state whatever it was in.\<close>

definition tcp_puts :: "nat \<Rightarrow> tcp_pcb_state \<Rightarrow> nat \<Rightarrow> tcp_pcb_state \<Rightarrow> tcp_pcb_state \<Rightarrow> bool" where
  "tcp_puts p st q a b \<longleftrightarrow> tcp_reset a b \<or> q = p \<and> b = st"

lemma tcp_resets_puts: "tcp_resets w w' \<Longrightarrow> tcp_evolves (tcp_puts p st) w w'"
  unfolding tcp_resets_def by (erule tcp_evolves_mono) (simp add: tcp_puts_def)

lemma tcp_puts_resets:
  "tcp_evolves (tcp_puts p st) w1 w2 \<Longrightarrow> tcp_resets w2 w3 \<Longrightarrow> tcp_evolves (tcp_puts p st) w1 w3"
  unfolding tcp_resets_def by (erule (1) tcp_evolves_trans) (auto simp: tcp_puts_def tcp_reset_def)

lemma tcp_quiet_puts:
  "tcp_quiet w1 w2 \<Longrightarrow> tcp_evolves (tcp_puts p st) w2 w3 \<Longrightarrow> tcp_evolves (tcp_puts p st) w1 w3"
  unfolding tcp_quiet_def by (erule (1) tcp_evolves_trans) simp

lemma tcp_puts_refl: "tcp_evolves (tcp_puts p st) w w"
  by (intro tcp_resets_puts tcp_quiet_resets tcp_quiet_refl)

lemma tcp_puts_upd:
  "(\<And>pcb. tcp_pcb_shape pcb \<Longrightarrow>
      tcp_pcb_shape (f pcb) \<and> tp_state (f pcb) = st \<and> (tcp_pcb_ok pcb \<longrightarrow> tcp_pcb_ok (f pcb))) \<Longrightarrow>
     tcp_evolves (tcp_puts p st) w (upd_tcp p f w)"
  by (rule tcp_evolves_upd) (auto simp: tcp_puts_def)

text \<open>From a state that leads to it this is a step forward.\<close>

lemma tcp_puts_advances:
  assumes puts: "tcp_evolves (tcp_puts p st) w w'"
    and fwd: "p < 16 \<Longrightarrow> tcp_forward (tp_state (tcp_at p w)) st"
  shows "tcp_advances w w'"
proof -
  have "tcp_advance (tp_state (tcp_at q w)) (tp_state (tcp_at q w'))"
    if "q < 16" "tcp_puts p st q (tp_state (tcp_at q w)) (tp_state (tcp_at q w'))" for q
    using that fwd by (cases "q = p") (auto simp: tcp_puts_def tcp_reset_def tcp_advance_def)
  with puts show ?thesis by (simp add: tcp_advances_def tcp_evolves_def)
qed

lemma tcp_puts_active: "tcp_evolves (tcp_puts p TCP_SYN_SENT) w (snd (tcp_active p w))"
proof -
  let ?w0 = "upd_tcp p (\<lambda>pcb. pcb\<lparr>rcv_wnd := of_nat TCP_BUF_SIZE\<rparr>) w"
  let ?w1 = "upd_tcp p (\<lambda>pcb. pcb\<lparr>tp_iss := fst (random ?w0)\<rparr>) (snd (random ?w0))"
  let ?out = "tcp_output p TCP_FLG_SYN [] ?w1"
  let ?w3 = "upd_tcp p (\<lambda>pcb. pcb\<lparr>snd_una := tp_iss pcb, snd_nxt := tp_iss pcb + 1,
      tp_state := TCP_SYN_SENT\<rparr>) (snd ?out)"
  have "tcp_quiet w ?w0" by (rule tcp_quiet_upd) simp
  moreover have "tcp_quiet (snd (random ?w0)) ?w1" by (rule tcp_quiet_upd) simp
  ultimately have q: "tcp_quiet w (snd ?out)"
    by (meson tcp_quiet_trans tcp_quiet_prims(4) tcp_quiet_output)
  have "tcp_evolves (tcp_puts p TCP_SYN_SENT) (snd ?out) ?w3" by (rule tcp_puts_upd) simp
  then have "tcp_evolves (tcp_puts p TCP_SYN_SENT) w ?w3" by (rule tcp_quiet_puts [OF q])
  then have s: "tcp_evolves (tcp_puts p TCP_SYN_SENT) w (snd (tcp_wait_open TCP_SYN_SENT p ?w3))"
    by (rule tcp_puts_resets) (rule tcp_resets_wait)
  have "tcp_evolves (tcp_puts p TCP_SYN_SENT) w (tcp_drop p (snd ?out))"
    by (rule tcp_quiet_puts [OF q tcp_resets_puts [OF tcp_resets_drop]])
  with s show ?thesis by (simp add: tcp_active_def case_prod_beta Let_def)
qed

lemma tcp_advances_open_rfc793 [evolves]: "tcp_advances w (snd (tcp_open_rfc793 local foreign active w))"
proof (cases "tcp_pcb_alloc w")
  case (Pair r w1)
  have w1: "tcp_forwards w w1" using tcp_forwards_alloc [of w] Pair by simp
  show ?thesis
  proof (cases r)
    case None
    with Pair w1 show ?thesis by (simp add: tcp_open_rfc793_def tcp_forwards_advances)
  next
    case (Some p)
    with Pair have alloc: "tcp_pcb_alloc w = (Some p, w1)" by simp
    let ?w2 = "upd_tcp p (\<lambda>pcb. pcb\<lparr>tp_mode := TCP_PCB_MODE_RFC793\<rparr>) w1"
    have "tcp_quiet w1 ?w2" by (rule tcp_quiet_upd) simp
    with w1 have w2: "tcp_forwards w ?w2" by (rule tcp_forwards_quiet)
    have st: "tp_state (tcp_at p ?w2) = TCP_CLOSED"
      using tcp_pcb_alloc_Some [OF alloc] by (simp add: tcp_at_upd)
    let ?w3 = "upd_tcp p (\<lambda>pcb. pcb\<lparr>tp_local := local, tp_state := TCP_LISTEN\<rparr>) ?w2"
    have "tcp_forwards ?w2 ?w3"
      using st by (intro tcp_forwards_upd) auto
    with w2 have w3: "tcp_forwards w ?w3" by (rule tcp_forwards_trans)
    have w4: "tcp_forwards w (upd_tcp p (\<lambda>pcb. pcb\<lparr>tp_foreign := f\<rparr>) ?w3)" for f
      by (rule tcp_forwards_quiet [OF w3 tcp_quiet_upd]) simp
    have wait: "tcp_advances w (snd (tcp_wait_open TCP_LISTEN p v))" if "tcp_forwards w v" for v
      using that by (rule tcp_forwards_then) (intro tcp_resets_advances tcp_resets_wait)
    have act: "tcp_advances w (snd (tcp_active p (upd_tcp p (\<lambda>pcb. pcb\<lparr>tp_local := local, tp_foreign := f\<rparr>) ?w2)))"
      for f
    proof -
      let ?v = "upd_tcp p (\<lambda>pcb. pcb\<lparr>tp_local := local, tp_foreign := f\<rparr>) ?w2"
      have "tcp_forwards w ?v" by (rule tcp_forwards_quiet [OF w2 tcp_quiet_upd]) simp
      moreover have "tp_state (tcp_at p ?v) = TCP_CLOSED" using st by (simp add: tcp_at_upd)
      then have "tcp_advances ?v (snd (tcp_active p ?v))"
        by (intro tcp_puts_advances [OF tcp_puts_active]) simp
      ultimately show ?thesis by (rule tcp_forwards_then)
    qed
    have bad: "tcp_advances w (fault ?w2)"
      by (intro tcp_forwards_advances tcp_forwards_quiet [OF w2] tcp_quiet_prims)
    show ?thesis
      using wait [OF w3] wait [OF w4] act bad
      by (simp add: tcp_open_rfc793_def alloc Let_def split: option.split)
  qed
qed

lemma tcp_forwards_open [evolves]: "tcp_forwards w (snd (tcp_open w))"
proof (cases "tcp_pcb_alloc w")
  case (Pair r w1)
  have "tcp_forwards w w1" using tcp_forwards_alloc [of w] Pair by simp
  moreover have "tcp_quiet w1 (upd_tcp p (\<lambda>pcb. pcb\<lparr>tp_mode := TCP_PCB_MODE_SOCKET\<rparr>) w1)" for p
    by (rule tcp_quiet_upd) simp
  ultimately show ?thesis
    using Pair by (simp add: tcp_open_def tcp_forwards_quiet split: option.split)
qed

lemma tcp_pcb_getD: "tcp_pcb_get i ps = Some p \<Longrightarrow> p < 16 \<and> int p = i \<and> tp_state (ps ! p) \<noteq> TCP_FREE"
  by (auto simp: tcp_pcb_get_def TCP_PCB_SIZE_def split: if_splits)

lemma tcp_puts_connect:
  assumes "tcp_pcb_get i (tcp_pcbs w) = Some p"
  shows "tcp_evolves (tcp_puts p TCP_SYN_SENT) w (snd (tcp_connect i foreign w))"
proof -
  have q: "tcp_quiet w (upd_tcp p (\<lambda>pcb. pcb\<lparr>tp_local := l, tp_foreign := foreign\<rparr>) w)" for l
    by (rule tcp_quiet_upd) simp
  show ?thesis
    using assms tcp_quiet_puts [OF q tcp_puts_active]
    by (simp add: tcp_connect_def Let_def tcp_puts_refl split: option.split)
qed

lemma tcp_puts_listen:
  assumes "tcp_pcb_get i (tcp_pcbs w) = Some p"
  shows "tcp_evolves (tcp_puts p TCP_LISTEN) w (snd (tcp_listen i w))"
proof -
  have "tcp_evolves (tcp_puts p TCP_LISTEN) w (tcp_set_state p TCP_LISTEN w)"
    unfolding tcp_set_state_def by (rule tcp_puts_upd) simp
  with assms show ?thesis by (simp add: tcp_listen_def tcp_puts_refl)
qed

lemma tcp_quiet_bind [evolves]: "tcp_quiet w (snd (tcp_bind i local w))"
proof -
  have "tcp_quiet w (upd_tcp p (\<lambda>pcb. pcb\<lparr>tp_local := local\<rparr>) w)" for p by (rule tcp_quiet_upd) simp
  then show ?thesis by (simp add: tcp_bind_def tcp_quiet_refl split: option.split)
qed

lemma tcp_quiet_accept_loop: "tcp_quiet w (snd (tcp_accept_loop p w))"
proof (cases "tp_backlog (tcp_at p w)")
  case Nil
  then show ?thesis by (simp add: tcp_accept_loop_def evolves)
next
  case (Cons n q)
  have "tcp_quiet w (upd_tcp p (\<lambda>pcb. pcb\<lparr>tp_backlog := q\<rparr>) w)"
    using Cons by (intro tcp_quiet_upd) (auto simp: tcp_pcb_ok_def tcp_pcb_shape_def)
  with Cons show ?thesis by (simp add: tcp_accept_loop_def)
qed

lemma tcp_quiet_accept [evolves]:
  "tcp_quiet w (snd (tcp_accept i w))" "tcp_quiet w (snd (tcp_accept_woken p w))"
  by (auto simp: tcp_accept_def tcp_accept_woken_def tcp_quiet_refl tcp_quiet_accept_loop split: option.split
      intro: tcp_quiet_trans [OF tcp_quiet_sleep(2) tcp_quiet_accept_loop])

lemma tcp_resets_send_loop:
  "tcp_send_loop p mss data sent w = Some r \<Longrightarrow> tcp_resets w (snd r)"
proof (induction rule: tcp_send_loop.raw_induct [rotated 1, consumes 1])
  case (1 f p mss data sent w r)
  let ?cap = "unat (ucast (snd_wnd (tcp_at p w)) - (snd_nxt (tcp_at p w) - snd_una (tcp_at p w)))"
  let ?slen = "min (min mss (length data - sent)) ?cap"
  let ?out = "tcp_output p (TCP_FLG_ACK OR TCP_FLG_PSH) (take ?slen (drop sent data)) w"
  let ?w2 = "upd_tcp p (\<lambda>pcb. pcb\<lparr>snd_nxt := snd_nxt pcb + of_nat ?slen\<rparr>) (snd ?out)"
  have out: "tcp_resets w (snd ?out)" by (intro tcp_quiet_resets tcp_quiet_output)
  then have w2: "tcp_resets w ?w2" by (rule tcp_resets_trans) (intro tcp_quiet_resets tcp_quiet_upd, simp)
  consider (finished) "\<not> sent < length data" | (full) "sent < length data" "?cap = 0"
    | (failed) "sent < length data" "?cap \<noteq> 0" "fst ?out = -1"
    | (sent) "sent < length data" "?cap \<noteq> 0" "fst ?out \<noteq> -1"
    by blast
  then show ?case
  proof cases
    case finished
    with 1 show ?thesis by (auto simp: Let_def evolves tcp_quiet_resets)
  next
    case full
    with 1 show ?thesis by (auto simp: Let_def evolves tcp_quiet_resets)
  next
    case failed
    with 1 tcp_resets_trans [OF out tcp_resets_drop] show ?thesis by (auto simp: Let_def)
  next
    case sent
    with 1(2) have "f p mss data (sent + ?slen) ?w2 = Some r" by (simp add: Let_def)
    then have "tcp_resets ?w2 (snd r)" by (rule 1(1))
    with w2 show ?thesis by (rule tcp_resets_trans)
  qed
qed

lemma tcp_resets_send:
  "tcp_send i data w = Some r \<Longrightarrow> tcp_resets w (snd r)"
  "tcp_send_woken data k w = Some r \<Longrightarrow> tcp_resets w (snd r)"
proof -
  have retry: "tcp_resets v (snd r)" if "tcp_send_retry p data sent v = Some r" for p sent v
    using that
    by (auto simp: tcp_send_retry_def evolves tcp_quiet_resets split: if_splits option.splits
        dest: tcp_resets_send_loop)
  then show "tcp_send i data w = Some r \<Longrightarrow> tcp_resets w (snd r)"
    by (auto simp: tcp_send_def evolves tcp_quiet_resets split: option.splits)
  show "tcp_send_woken data k w = Some r \<Longrightarrow> tcp_resets w (snd r)"
    unfolding tcp_send_woken_def by (drule retry) (rule tcp_resets_trans [OF tcp_quiet_resets [OF tcp_quiet_sleep(2)]])
qed

text \<open>What is taken out of the buffer widens the window.\<close>

lemma tcp_quiet_take:
  assumes rem: "remain = size_sub TCP_BUF_SIZE (unat (rcv_wnd (tcp_at p w)))" and len: "len \<le> remain"
    and fits: "remain \<le> TCP_BUF_SIZE"
  shows "tcp_quiet w (upd_tcp p (\<lambda>pcb. pcb\<lparr>
      tp_buf := take (remain - len) (drop len (tp_buf pcb)) @ drop (remain - len) (tp_buf pcb),
      rcv_wnd := rcv_wnd pcb + of_nat len\<rparr>) w)"
proof (rule tcp_quiet_upd)
  fix pcb assume pcb: "tcp_at p w = pcb" "tcp_pcb_shape pcb"
  let ?pcb = "pcb\<lparr>tp_buf := take (remain - len) (drop len (tp_buf pcb)) @ drop (remain - len) (tp_buf pcb),
      rcv_wnd := rcv_wnd pcb + of_nat len\<rparr>"
  have shape: "tcp_pcb_shape ?pcb"
    using pcb(2) len fits by (auto simp: tcp_pcb_shape_def TCP_BUF_SIZE_def)
  moreover have "tcp_pcb_ok ?pcb" if ok: "tcp_pcb_ok pcb"
  proof -
    have "unat (rcv_wnd pcb) \<le> 8192" using ok by (simp add: tcp_pcb_ok_def)
    moreover from this have "remain = 8192 - unat (rcv_wnd pcb)" using rem pcb by (simp add: TCP_BUF_SIZE_def)
    ultimately have "unat (rcv_wnd pcb) + len \<le> 8192" using len by arith
    then have "unat (rcv_wnd pcb + of_nat len) \<le> 8192" by (subst unat_plus_if') simp
    then show ?thesis using shape by (simp add: tcp_pcb_ok_def)
  qed
  ultimately show "tcp_pcb_shape ?pcb \<and> tp_state ?pcb = tp_state pcb \<and> (tcp_pcb_ok pcb \<longrightarrow> tcp_pcb_ok ?pcb)" by simp
qed

lemma tcp_quiet_receive [evolves]:
  "tcp_quiet w (snd (tcp_receive i sz w))" "tcp_quiet w (snd (tcp_receive_woken sz p w))"
proof -
  have retry: "tcp_quiet v (snd (tcp_receive_retry p sz v))" for p and v :: "('a, 'b) tcp_state_scheme"
    using tcp_quiet_take [OF refl, of "min sz (size_sub TCP_BUF_SIZE (unat (rcv_wnd (tcp_at p v))))" p v]
    by (simp add: tcp_receive_retry_def Let_def evolves)
  then show "tcp_quiet w (snd (tcp_receive i sz w))"
    by (simp add: tcp_receive_def tcp_quiet_refl split: option.split)
  show "tcp_quiet w (snd (tcp_receive_woken sz p w))"
    unfolding tcp_receive_woken_def by (rule tcp_quiet_trans [OF tcp_quiet_sleep(2) retry])
qed

lemma tcp_forwards_send_fin:
  assumes "tcp_forward (tp_state (tcp_at p w)) st"
  shows "tcp_forwards w (tcp_send_fin p st w)"
  unfolding tcp_send_fin_def by (rule tcp_forwards_quiet_upd [OF tcp_quiet_output]) (simp_all add: assms)

lemma tcp_advances_close [evolves]: "tcp_advances w (snd (tcp_close i w))"
proof (cases "tcp_pcb_get i (tcp_pcbs w)")
  case None
  then show ?thesis by (simp add: tcp_close_def evolves tcp_quiet_advances)
next
  case (Some p)
  have stop: "tcp_advances w (if c then tcp_pcb_release p w1 else tcp_wakeup p w1)"
    if "tcp_forwards w w1" for c w1
    using that by (simp add: tcp_forwards_then [OF _ tcp_resets_advances [OF tcp_resets_release]]
        tcp_forwards_advances tcp_forwards_quiet evolves)
  have closed: "tcp_advances w (if c then tcp_pcb_release p (tcp_set_state p TCP_CLOSED w)
      else tcp_wakeup p (tcp_set_state p TCP_CLOSED w))" for c
  proof -
    have r: "tcp_resets w (tcp_set_state p TCP_CLOSED w)"
      unfolding tcp_set_state_def by (rule tcp_resets_upd) simp
    show ?thesis
      by (simp add: tcp_resets_advances tcp_resets_trans [OF r tcp_resets_release]
          tcp_resets_trans [OF r tcp_quiet_resets [OF tcp_quiet_prims(5)]])
  qed
  show ?thesis
    by (cases "tp_state (tcp_at p w)")
      (simp_all add: tcp_close_def Some stop closed tcp_forwards_send_fin evolves tcp_quiet_advances)
qed

section \<open>The operations\<close>

lemma tcp_connect_ok: "tcp_ok w \<Longrightarrow> tcp_ok (snd (tcp_connect i foreign w))"
proof (cases "tcp_pcb_get i (tcp_pcbs w)")
  case (Some p)
  then show "tcp_ok w \<Longrightarrow> ?thesis" by (rule tcp_evolves_ok [OF tcp_puts_connect])
qed (simp add: tcp_connect_def)

lemma tcp_listen_ok: "tcp_ok w \<Longrightarrow> tcp_ok (snd (tcp_listen i w))"
proof (cases "tcp_pcb_get i (tcp_pcbs w)")
  case (Some p)
  then show "tcp_ok w \<Longrightarrow> ?thesis" by (rule tcp_evolves_ok [OF tcp_puts_listen])
qed (simp add: tcp_listen_def)

lemmas tcp_ops_ok = tcp_ok_resets [OF tcp_resets_timer]
  tcp_ok_forwards [OF tcp_forwards_open] tcp_ok_advances [OF tcp_advances_open_rfc793]
  tcp_ok_resets [OF tcp_resets_open_woken] tcp_connect_ok tcp_listen_ok tcp_ok_quiet [OF tcp_quiet_bind]
  tcp_ok_quiet [OF tcp_quiet_accept(1)] tcp_ok_quiet [OF tcp_quiet_accept(2)]
  tcp_ok_quiet [OF tcp_quiet_receive(1)] tcp_ok_quiet [OF tcp_quiet_receive(2)]
  tcp_ok_advances [OF tcp_advances_close]

lemma tcp_send_advances:
  "tcp_send i data w = Some (r, w') \<Longrightarrow> tcp_advances w w'"
  "tcp_send_woken data k w = Some (r, w') \<Longrightarrow> tcp_advances w w'"
  by (drule tcp_resets_send, simp add: tcp_resets_advances)+

lemmas tcp_send_ok = tcp_send_advances [THEN tcp_ok_advances]

text \<open>The evolution of one block, read off.\<close>

lemma tcp_advancesD:
  "tcp_advances w w' \<Longrightarrow> tcp_shape w \<Longrightarrow> q < 16 \<Longrightarrow> tcp_advance (tp_state (tcp_at q w)) (tp_state (tcp_at q w'))"
  unfolding tcp_advances_def by (rule tcp_evolvesD)

lemma tcp_connect_advances:
  assumes "tcp_pcb_get i (tcp_pcbs w) = Some p" and "tp_state (tcp_at p w) \<in> {TCP_CLOSED, TCP_LISTEN}"
  shows "tcp_advances w (snd (tcp_connect i foreign w))"
  using assms(2) by (intro tcp_puts_advances [OF tcp_puts_connect [OF assms(1)]]) auto

lemma tcp_listen_advances:
  assumes "tcp_pcb_get i (tcp_pcbs w) = Some p" and "tp_state (tcp_at p w) \<in> {TCP_CLOSED, TCP_LISTEN}"
  shows "tcp_advances w (snd (tcp_listen i w))"
  using assms(2) by (intro tcp_puts_advances [OF tcp_puts_listen [OF assms(1)]]) auto

lemma tcp_host_ok:
  assumes "length pm = 6"
  shows "tcp_ok (tcp_host mac ip peer pm)"
proof -
  have "arp_inv (tcp_host mac ip peer pm)"
    using ip_host_arp(1) [OF assms, of mac ip peer] by (simp add: arp_inv_def tcp_host_fields)
  then show ?thesis
    using zero_tcp_pcb_ok by (simp add: tcp_ok_def tcp_shape_def tcp_host_fields tcp_pcb_ok_def)
qed

end
