(* ===== verification/TcpConn.thy ===== *)
theory TcpConn
  imports TcpStates
begin

text \<open>
  Connections: what the operations do to the fields of the blocks, the three-way handshake,
  and the release of blocks.
\<close>

section \<open>Output leaves the block as it is\<close>

lemma arp_inv_upd_tcp [simp]: "arp_inv (upd_tcp p f w) = arp_inv w"
  by (simp add: arp_inv_def)

lemma length_upd_tcp [simp]: "length (tcp_pcbs (upd_tcp p f w)) = length (tcp_pcbs w)"
  by (simp add: tcp_pcbs_upd)

text \<open>Only the retransmission queue of the block may grow, by the segment.\<close>

lemma tcp_output_pcbs:
  assumes "arp_inv w"
  obtains (plain) "tcp_pcbs (snd (tcp_output p flg data w)) = tcp_pcbs w"
    "arp_inv (snd (tcp_output p flg data w))"
  | (queued) seq where "tcp_pcbs (snd (tcp_output p flg data w)) =
      (tcp_pcbs w)[p := (tcp_at p w)\<lparr>tp_queue := tp_queue (tcp_at p w) @
        [\<lparr>tq_first = gettimeofday w, tq_last = gettimeofday w, tq_rto = TCP_DEFAULT_RTO, tq_seq = seq,
          tq_flg = flg, tq_data = data\<rparr>]\<rparr>]"
    "arp_inv (snd (tcp_output p flg data w))"
proof -
  let ?pcb = "tcp_at p w"
  let ?seq = "if TCP_FLG_ISSET flg TCP_FLG_SYN then tp_iss ?pcb else snd_nxt ?pcb"
  let ?seg = "\<lambda>v. tcp_output_segment ?seq (rcv_nxt ?pcb) flg (rcv_wnd ?pcb) data (tp_local ?pcb) (tp_foreign ?pcb) v"
  have seg: "tcp_pcbs (snd (?seg v)) = tcp_pcbs v \<and> arp_inv (snd (?seg v))"
    if "arp_inv v" for v :: "('a, 'b) tcp_state_scheme"
    using that tcp_output_segment_frame tcp_output_segment_pcbs by blast
  have an: "arp_inv (w\<lparr>alloc_no := n\<rparr>)" for n using assms by (simp add: arp_inv_def)
  show thesis
  proof (cases "TCP_FLG_ISSET flg (TCP_FLG_SYN OR TCP_FLG_FIN) \<or> data \<noteq> []")
    case False
    with seg [OF assms] show ?thesis by (intro plain) (simp_all add: tcp_output_def Let_def)
  next
    case True
    then have out: "tcp_output p flg data w = ?seg (snd (tcp_retransmit_queue_add p ?seq flg data w))"
      by (simp add: tcp_output_def Let_def)
    show ?thesis
    proof (cases rule: tcp_retransmit_add_cases [of p ?seq flg data w])
      case (no_memory n)
      with out seg [OF an, of n] show ?thesis by (intro plain) simp_all
    next
      case (queued n)
      with out seg [of "snd (tcp_retransmit_queue_add p ?seq flg data w)"] an show ?thesis
        by (intro that(2) [of ?seq]) (simp_all add: tcp_pcbs_upd tcp_at_def)
    qed
  qed
qed

lemma tcp_output_any_field:
  assumes "arp_inv w" and "\<And>pcb q. g (pcb\<lparr>tp_queue := q\<rparr>) = g pcb"
  shows "g (tcp_at q (snd (tcp_output p flg data w))) = g (tcp_at q w)"
  using assms(2)
  by (cases rule: tcp_output_pcbs [OF assms(1), of p flg data])
    (auto simp: tcp_at_def nth_list_update list_update_beyond, cases "p < length (tcp_pcbs w)",
     auto simp: nth_list_update list_update_beyond)

lemma tcp_output_simps [simp]:
  assumes "arp_inv w"
  shows "arp_inv (snd (tcp_output p flg data w))"
    "length (tcp_pcbs (snd (tcp_output p flg data w))) = length (tcp_pcbs w)"
    "tp_state (tcp_at q (snd (tcp_output p flg data w))) = tp_state (tcp_at q w)"
    "tp_mode (tcp_at q (snd (tcp_output p flg data w))) = tp_mode (tcp_at q w)"
    "tp_local (tcp_at q (snd (tcp_output p flg data w))) = tp_local (tcp_at q w)"
    "tp_foreign (tcp_at q (snd (tcp_output p flg data w))) = tp_foreign (tcp_at q w)"
    "snd_nxt (tcp_at q (snd (tcp_output p flg data w))) = snd_nxt (tcp_at q w)"
    "snd_una (tcp_at q (snd (tcp_output p flg data w))) = snd_una (tcp_at q w)"
    "snd_wnd (tcp_at q (snd (tcp_output p flg data w))) = snd_wnd (tcp_at q w)"
    "tp_iss (tcp_at q (snd (tcp_output p flg data w))) = tp_iss (tcp_at q w)"
    "rcv_nxt (tcp_at q (snd (tcp_output p flg data w))) = rcv_nxt (tcp_at q w)"
    "rcv_wnd (tcp_at q (snd (tcp_output p flg data w))) = rcv_wnd (tcp_at q w)"
    "tp_buf (tcp_at q (snd (tcp_output p flg data w))) = tp_buf (tcp_at q w)"
    "tp_cond (tcp_at q (snd (tcp_output p flg data w))) = tp_cond (tcp_at q w)"
    "tp_parent (tcp_at q (snd (tcp_output p flg data w))) = tp_parent (tcp_at q w)"
    "tp_backlog (tcp_at q (snd (tcp_output p flg data w))) = tp_backlog (tcp_at q w)"
    "tp_tw_timer (tcp_at q (snd (tcp_output p flg data w))) = tp_tw_timer (tcp_at q w)"
proof -
  show "length (tcp_pcbs (snd (tcp_output p flg data w))) = length (tcp_pcbs w)"
    "arp_inv (snd (tcp_output p flg data w))"
    by (cases rule: tcp_output_pcbs [OF assms, of p flg data]; simp)+
qed (rule tcp_output_any_field [OF assms], simp)+

text \<open>The same for the other primitives.\<close>

lemma tcp_at_prims [simp]:
  "tcp_at q (cond_broadcast c w) = tcp_at q w" "tcp_at q (fault w) = tcp_at q w"
  "tcp_at q (tcp_wakeup p w) = tcp_at q w" "tcp_at q (snd (calloc w)) = tcp_at q w"
  "tcp_at q (snd (random w)) = tcp_at q w"
  "arp_inv (cond_broadcast c w) = arp_inv w" "arp_inv (tcp_wakeup p w) = arp_inv w"
  "arp_inv (snd (calloc w)) = arp_inv w" "arp_inv (snd (random w)) = arp_inv w"
  "tcp_pcbs (tcp_wakeup p w) = tcp_pcbs w" "tcp_pcbs (snd (calloc w)) = tcp_pcbs w"
  "tcp_pcbs (snd (random w)) = tcp_pcbs w" "tcp_pcbs (fault w) = tcp_pcbs w"
  for w :: "('d, 'm) tcp_state_scheme"
  by (simp_all add: tcp_at_def cond_broadcast_def fault_def calloc_def random_def arp_inv_def tcp_wakeup_def)

lemma tcp_set_state_at:
  "tcp_at q (tcp_set_state p st w) =
     (if q = p \<and> p < length (tcp_pcbs w) then (tcp_at p w)\<lparr>tp_state := st\<rparr> else tcp_at q w)"
  "arp_inv (tcp_set_state p st w) = arp_inv w"
  "length (tcp_pcbs (tcp_set_state p st w)) = length (tcp_pcbs w)"
  by (simp_all add: tcp_set_state_def tcp_at_upd)

lemma tcp_cleanup_at:
  "tcp_at q (tcp_retransmit_queue_cleanup p w) =
     (if q = p \<and> p < length (tcp_pcbs w)
      then (tcp_at p w)\<lparr>tp_queue := tcp_cleanup_loop (snd_una (tcp_at p w)) (tp_queue (tcp_at p w))\<rparr>
      else tcp_at q w)"
  "arp_inv (tcp_retransmit_queue_cleanup p w) = arp_inv w"
  "length (tcp_pcbs (tcp_retransmit_queue_cleanup p w)) = length (tcp_pcbs w)"
  by (simp_all add: tcp_retransmit_queue_cleanup_def tcp_at_upd)

lemmas tcp_at_simps = tcp_at_upd tcp_set_state_at tcp_cleanup_at

lemma tcp_output_other:
  "arp_inv w \<Longrightarrow> q \<noteq> p \<Longrightarrow> tcp_at q (snd (tcp_output p flg data w)) = tcp_at q w"
  by (cases rule: tcp_output_pcbs [of w p flg data]) (auto simp: tcp_at_def)

section \<open>Finding the block of a segment\<close>

definition tcp_local_match :: "endpoint \<Rightarrow> tcp_pcb \<Rightarrow> bool" where
  "tcp_local_match l pcb \<longleftrightarrow>
     (ep_addr (tp_local pcb) = IP_ADDR_ANY \<or> ep_addr (tp_local pcb) = ep_addr l) \<and> ep_port (tp_local pcb) = ep_port l"

definition tcp_exact :: "endpoint \<Rightarrow> endpoint \<Rightarrow> tcp_pcb \<Rightarrow> bool" where
  "tcp_exact l f pcb \<longleftrightarrow> tcp_local_match l pcb \<and> tp_foreign pcb = f"

definition tcp_waiting :: "endpoint \<Rightarrow> tcp_pcb \<Rightarrow> bool" where
  "tcp_waiting l pcb \<longleftrightarrow> tcp_local_match l pcb \<and> tp_state pcb = TCP_LISTEN \<and> tp_foreign pcb = zero_endpoint"

lemma endpoint_eq_iff: "ep_addr a = ep_addr b \<and> ep_port a = ep_port b \<longleftrightarrow> a = b" for a b :: endpoint
  by (cases a; cases b) auto

lemma tcp_select_loop_Cons:
  "tcp_select_loop l (Some f) i c (pcb # ps) =
     (if tcp_exact l f pcb then Some i
      else tcp_select_loop l (Some f) (Suc i) (if tcp_waiting l pcb then Some i else c) ps)"
  by (auto simp: tcp_exact_def tcp_waiting_def tcp_local_match_def endpoint_eq_iff [symmetric]
      zero_endpoint_def IP_ADDR_ANY_def)

lemma tcp_select_exact: "find_idx (tcp_exact l f) ps = Some j \<Longrightarrow> tcp_select_loop l (Some f) i c ps = Some (i + j)"
  by (induction ps arbitrary: i c j) (auto simp: tcp_select_loop_Cons simp del: tcp_select_loop.simps(2) split: if_splits)

lemma tcp_select_other:
  "find_idx (tcp_exact l f) ps = None \<Longrightarrow> tcp_select_loop l (Some f) i c ps = Some j \<Longrightarrow>
     c = Some j \<or> (\<exists>k < length ps. j = i + k \<and> tcp_waiting l (ps ! k))"
proof (induction ps arbitrary: i c)
  case (Cons pcb ps)
  from Cons.prems(1) have e: "\<not> tcp_exact l f pcb" "find_idx (tcp_exact l f) ps = None"
    by (simp_all split: if_splits)
  from Cons.IH [OF e(2), of "Suc i" "if tcp_waiting l pcb then Some i else c"] Cons.prems(2) e(1)
  have "(if tcp_waiting l pcb then Some i else c) = Some j \<or>
      (\<exists>k < length ps. j = Suc i + k \<and> tcp_waiting l (ps ! k))"
    by (simp add: tcp_select_loop_Cons del: tcp_select_loop.simps(2))
  then show ?case by (force split: if_splits)
qed simp

text \<open>
  The connection with the segment's endpoints goes first; a listening block gets the segment
  only if there is none.
\<close>

lemma tcp_pcb_select_exact:
  assumes "j < length ps" and "tcp_exact l f (ps ! j)"
    and "\<And>k. k < length ps \<Longrightarrow> tcp_exact l f (ps ! k) \<Longrightarrow> k = j"
  shows "tcp_pcb_select l (Some f) ps = Some j"
proof -
  have "find_idx (tcp_exact l f) ps = Some j" using assms by (rule find_idx_unique)
  from tcp_select_exact [OF this] show ?thesis by (simp add: tcp_pcb_select_def)
qed

lemma tcp_pcb_select_waiting:
  assumes "tcp_pcb_select l (Some f) ps = Some p" and "\<not> tcp_exact l f (ps ! p)"
  shows "\<forall>k < length ps. \<not> tcp_exact l f (ps ! k)" "p < length ps" "tcp_waiting l (ps ! p)"
proof -
  have none: "find_idx (tcp_exact l f) ps = None"
  proof (rule ccontr)
    assume "find_idx (tcp_exact l f) ps \<noteq> None"
    then obtain j where "find_idx (tcp_exact l f) ps = Some j" by auto
    with tcp_select_exact [OF this, of 0 None] find_idx_SomeD [OF this] assms
    show False by (simp add: tcp_pcb_select_def)
  qed
  then show "\<forall>k < length ps. \<not> tcp_exact l f (ps ! k)" by (simp add: find_idx_None_iff)
  from tcp_select_other [OF none, of 0 None p] assms(1)
  show "p < length ps" "tcp_waiting l (ps ! p)" by (auto simp: tcp_pcb_select_def)
qed

section \<open>The steps of the handshake\<close>

text \<open>What \<^verbatim>\<open>tcp_output\<close> puts into the header of a segment, as the receiver sees it.\<close>

definition tcp_seg_of :: "tcp_pcb \<Rightarrow> u8 \<Rightarrow> u8 list \<Rightarrow> tcp_segment_info" where
  "tcp_seg_of pcb flg data =
     \<lparr>seg_seq = (if TCP_FLG_ISSET flg TCP_FLG_SYN then tp_iss pcb else snd_nxt pcb),
      seg_ack = rcv_nxt pcb, seg_len = tcp_seg_len flg (length data), seg_wnd = rcv_wnd pcb, seg_up = 0\<rparr>"

lemma tcp_flag_tests [simp]:
  "TCP_FLG_ISSET TCP_FLG_SYN TCP_FLG_SYN" "\<not> TCP_FLG_ISSET TCP_FLG_SYN TCP_FLG_RST"
  "\<not> TCP_FLG_ISSET TCP_FLG_SYN TCP_FLG_ACK" "\<not> TCP_FLG_ISSET TCP_FLG_SYN TCP_FLG_FIN"
  "TCP_FLG_ISSET (TCP_FLG_SYN OR TCP_FLG_ACK) TCP_FLG_SYN" "TCP_FLG_ISSET (TCP_FLG_SYN OR TCP_FLG_ACK) TCP_FLG_ACK"
  "\<not> TCP_FLG_ISSET (TCP_FLG_SYN OR TCP_FLG_ACK) TCP_FLG_RST"
  "\<not> TCP_FLG_ISSET (TCP_FLG_SYN OR TCP_FLG_ACK) TCP_FLG_FIN"
  "TCP_FLG_ISSET TCP_FLG_ACK TCP_FLG_ACK" "\<not> TCP_FLG_ISSET TCP_FLG_ACK TCP_FLG_SYN"
  "\<not> TCP_FLG_ISSET TCP_FLG_ACK TCP_FLG_RST" "\<not> TCP_FLG_ISSET TCP_FLG_ACK TCP_FLG_FIN"
  "TCP_FLG_ISSET (TCP_FLG_ACK OR TCP_FLG_FIN) TCP_FLG_ACK" "TCP_FLG_ISSET (TCP_FLG_ACK OR TCP_FLG_FIN) TCP_FLG_FIN"
  "\<not> TCP_FLG_ISSET (TCP_FLG_ACK OR TCP_FLG_FIN) TCP_FLG_SYN"
  "\<not> TCP_FLG_ISSET (TCP_FLG_ACK OR TCP_FLG_FIN) TCP_FLG_RST"
  "TCP_FLG_ISSET (TCP_FLG_ACK OR TCP_FLG_PSH) TCP_FLG_ACK"
  "\<not> TCP_FLG_ISSET (TCP_FLG_ACK OR TCP_FLG_PSH) TCP_FLG_SYN"
  "\<not> TCP_FLG_ISSET (TCP_FLG_ACK OR TCP_FLG_PSH) TCP_FLG_RST"
  "\<not> TCP_FLG_ISSET (TCP_FLG_ACK OR TCP_FLG_PSH) TCP_FLG_FIN"
  by (simp_all add: TCP_FLG_ISSET_def tcp_flags)

text \<open>A SYN for a listening socket starts a connection in a free block.\<close>

lemma tcp_listen_spawns:
  fixes w :: "('d, 'm) tcp_state_scheme" and seg mem len l f
  assumes ok: "tcp_ok w" and sel: "tcp_pcb_select l (Some f) (tcp_pcbs w) = Some p"
    and p: "tp_state (tcp_at p w) = TCP_LISTEN" "tp_mode (tcp_at p w) = TCP_PCB_MODE_SOCKET"
    and free: "find_idx (\<lambda>pcb. tp_state pcb = TCP_FREE) (tcp_pcbs w) = Some n"
  defines "w' \<equiv> tcp_segment_arrives seg TCP_FLG_SYN mem len l f w"
    and "iss \<equiv> randoms w (random_no w)"
  shows "n < 16" "n \<noteq> p" "q \<noteq> n \<Longrightarrow> tcp_at q w' = tcp_at q w"
    "tp_state (tcp_at n w') = TCP_SYN_RECEIVED" "tp_local (tcp_at n w') = l" "tp_foreign (tcp_at n w') = f"
    "rcv_nxt (tcp_at n w') = seg_seq seg + 1" "unat (rcv_wnd (tcp_at n w')) = 8192"
    "tp_iss (tcp_at n w') = iss" "snd_una (tcp_at n w') = iss" "snd_nxt (tcp_at n w') = iss + 1"
    "tp_parent (tcp_at n w') = Some p"
proof -
  have n: "n < 16" "tp_state (tcp_at n w) = TCP_FREE"
    using find_idx_SomeD [OF free] tcp_okD(1) [OF ok] by (simp_all add: tcp_at_def)
  then show "n < 16" "n \<noteq> p" using p(1) by auto
  let ?a = "\<lambda>pcb. pcb\<lparr>tp_state := TCP_CLOSED, tp_cond := cond_init\<rparr>"
  let ?b = "\<lambda>pcb. pcb\<lparr>tp_mode := TCP_PCB_MODE_SOCKET, tp_parent := Some p\<rparr>"
  let ?w1 = "upd_tcp n ?b (upd_tcp n ?a w)"
  let ?c = "\<lambda>pcb. pcb\<lparr>tp_local := l, tp_foreign := f, rcv_wnd := of_nat TCP_BUF_SIZE,
      rcv_nxt := seg_seq seg + 1, tp_irs := seg_seq seg, tp_iss := iss\<rparr>"
  let ?w3 = "upd_tcp n ?c (snd (random ?w1))"
  let ?d = "\<lambda>pcb. pcb\<lparr>snd_nxt := tp_iss pcb + 1, snd_una := tp_iss pcb, tp_state := TCP_SYN_RECEIVED\<rparr>"
  have "fst (random ?w1) = iss" by (simp add: random_def upd_tcp_def set_tcp_def iss_def)
  then have w': "w' = upd_tcp n ?d (snd (tcp_output n (TCP_FLG_SYN OR TCP_FLG_ACK) [] ?w3))"
    using sel p by (simp add: w'_def tcp_segment_arrives_def tcp_seg_listen_def tcp_pcb_alloc_def free case_prod_beta Let_def)
  have arp: "arp_inv ?w3" using tcp_okD(2) [OF ok] by simp
  have len: "length (tcp_pcbs w) = 16" by (rule tcp_okD(1) [OF ok])
  show "q \<noteq> n \<Longrightarrow> tcp_at q w' = tcp_at q w"
    by (simp add: w' tcp_at_simps tcp_output_other [OF arp])
  show "tp_state (tcp_at n w') = TCP_SYN_RECEIVED" "tp_local (tcp_at n w') = l" "tp_foreign (tcp_at n w') = f"
    "rcv_nxt (tcp_at n w') = seg_seq seg + 1" "unat (rcv_wnd (tcp_at n w')) = 8192"
    "tp_iss (tcp_at n w') = iss" "snd_una (tcp_at n w') = iss" "snd_nxt (tcp_at n w') = iss + 1"
    "tp_parent (tcp_at n w') = Some p"
    using n arp len by (simp_all add: w' tcp_at_simps TCP_BUF_SIZE_def)
qed

lemma wakeups_tcp [simp]:
  "wakeups (upd_tcp p f w) = wakeups w" "wakeups (tcp_set_state p st w) = wakeups w"
  "wakeups (tcp_retransmit_queue_cleanup p w) = wakeups w" "wakeups (tcp_wakeup p w) = wakeups w @ [c_taskid (tp_cond (tcp_at p w))]"
  "wakeups (snd (random w)) = wakeups w"
  by (simp_all add: upd_tcp_def set_tcp_def tcp_set_state_def tcp_retransmit_queue_cleanup_def tcp_wakeup_def
      cond_broadcast_def random_def)

lemma wakeups_output [simp]:
  assumes "arp_inv w"
  shows "wakeups (snd (tcp_output p flg data w)) = wakeups w"
proof -
  have seg: "wakeups (snd (tcp_output_segment s a f n d l r v)) = wakeups v" if "arp_inv v"
    for s a f n d l r and v :: "('a, 'b) tcp_state_scheme"
    using that tcp_output_segment_frame ip_onlyD(14) by blast
  have an: "arp_inv (w\<lparr>alloc_no := n\<rparr>)" for n using assms by (simp add: arp_inv_def)
  show ?thesis
    by (cases rule: tcp_retransmit_add_cases [of p "if TCP_FLG_ISSET flg TCP_FLG_SYN then tp_iss (tcp_at p w)
          else snd_nxt (tcp_at p w)" flg data w])
      (use assms an seg in \<open>simp_all add: tcp_output_def Let_def\<close>)
qed

lemma unat_plus_1: "x \<noteq> -1 \<Longrightarrow> unat (x + 1) = unat x + 1" for x :: u32
proof -
  assume "x \<noteq> -1"
  moreover have "unat (-1 :: u32) = 4294967295" by (simp add: unsigned_minus_1_eq_mask mask_eq_exp_minus_1)
  ultimately have "unat x \<noteq> 4294967295" by (metis word_unat_eq_iff)
  then have "unat x + 1 < 4294967296" using unat_u32_bound [of x] by linarith
  then show ?thesis by (simp add: unat_plus_if')
qed

text \<open>The answer to a SYN: the connection is established and the opener woken.\<close>

lemma tcp_syn_ack_establishes:
  fixes w :: "('d, 'm) tcp_state_scheme" and seg mem len l f
  assumes ok: "tcp_ok w" and sel: "tcp_pcb_select l (Some f) (tcp_pcbs w) = Some p"
    and p: "tp_state (tcp_at p w) = TCP_SYN_SENT" "snd_una (tcp_at p w) = iss" "snd_nxt (tcp_at p w) = iss + 1"
      "tp_iss (tcp_at p w) = iss"
    and iss: "iss \<noteq> -1" and ack: "seg_ack seg = iss + 1"
  defines "w' \<equiv> tcp_segment_arrives seg (TCP_FLG_SYN OR TCP_FLG_ACK) mem len l f w"
  shows "q \<noteq> p \<Longrightarrow> tcp_at q w' = tcp_at q w"
    "tp_state (tcp_at p w') = TCP_ESTABLISHED" "snd_una (tcp_at p w') = iss + 1" "snd_nxt (tcp_at p w') = iss + 1"
    "rcv_nxt (tcp_at p w') = seg_seq seg + 1" "rcv_wnd (tcp_at p w') = rcv_wnd (tcp_at p w)"
    "snd_wnd (tcp_at p w') = seg_wnd seg" "tp_local (tcp_at p w') = tp_local (tcp_at p w)"
    "tp_foreign (tcp_at p w') = tp_foreign (tcp_at p w)"
    "wakeups w' = wakeups w @ [c_taskid (tp_cond (tcp_at p w))]"
proof -
  have b: "p < 16" using tcp_pcb_select_bound [OF sel] tcp_okD(1) [OF ok] by simp
  have len: "length (tcp_pcbs w) = 16" by (rule tcp_okD(1) [OF ok])
  have lt: "iss < iss + 1" using unat_plus_1 [OF iss] by (simp add: word_less_nat_alt)
  let ?w1 = "upd_tcp p (\<lambda>pcb. pcb\<lparr>rcv_nxt := seg_seq seg + 1, tp_irs := seg_seq seg\<rparr>) w"
  let ?w2 = "tcp_retransmit_queue_cleanup p (upd_tcp p (\<lambda>pcb. pcb\<lparr>snd_una := seg_ack seg\<rparr>) ?w1)"
  let ?w3 = "snd (tcp_output p TCP_FLG_ACK [] (tcp_set_state p TCP_ESTABLISHED ?w2))"
  have "snd_una (tcp_at p ?w2) > tp_iss (tcp_at p ?w2)"
    using b len p lt ack by (simp add: tcp_at_simps)
  then have w': "w' = tcp_wakeup p (upd_tcp p (\<lambda>pcb. pcb\<lparr>snd_wnd := seg_wnd seg, snd_wl1 := seg_seq seg,
      snd_wl2 := seg_ack seg\<rparr>) ?w3)"
    using sel p lt ack by (simp add: w'_def tcp_segment_arrives_def tcp_seg_syn_sent_def Let_def)
  have arp: "arp_inv (tcp_set_state p TCP_ESTABLISHED ?w2)" using tcp_okD(2) [OF ok] by (simp add: tcp_at_simps)
  show "q \<noteq> p \<Longrightarrow> tcp_at q w' = tcp_at q w"
    by (simp add: w' tcp_at_simps tcp_output_other [OF arp])
  show "tp_state (tcp_at p w') = TCP_ESTABLISHED" "snd_una (tcp_at p w') = iss + 1" "snd_nxt (tcp_at p w') = iss + 1"
    "rcv_nxt (tcp_at p w') = seg_seq seg + 1" "rcv_wnd (tcp_at p w') = rcv_wnd (tcp_at p w)"
    "snd_wnd (tcp_at p w') = seg_wnd seg" "tp_local (tcp_at p w') = tp_local (tcp_at p w)"
    "tp_foreign (tcp_at p w') = tp_foreign (tcp_at p w)"
    "wakeups w' = wakeups w @ [c_taskid (tp_cond (tcp_at p w))]"
    using b arp len p ack by (simp_all add: w' tcp_at_simps)
qed

text \<open>A segment that passes the first four checks.\<close>

lemma tcp_otherwise_passes:
  assumes "tcp_acceptable (tcp_at p w) seg"
    and "\<not> TCP_FLG_ISSET flags TCP_FLG_RST" "\<not> TCP_FLG_ISSET flags TCP_FLG_SYN"
  shows "tcp_seg_otherwise p seg flags mem len l f w =
    snd (and_then (and_then (tcp_check_ack p seg flags l f w) (tcp_segment_text p seg mem len))
      (\<lambda>w. (True, tcp_check_fin p seg flags w)))"
  using assms by (simp add: tcp_seg_otherwise_def tcp_check_seq_def tcp_check_rst_def tcp_check_syn_def and_then_def)

text \<open>An empty segment at the left edge of an open window is acceptable, if the window does not wrap.\<close>

lemma tcp_acceptable_empty:
  assumes "seg_seq seg = rcv_nxt pcb" "seg_len seg = 0" and "unat (rcv_nxt pcb) + unat (rcv_wnd pcb) < 2 ^ 32"
  shows "tcp_acceptable pcb seg"
proof (cases "rcv_wnd pcb = 0")
  case False
  then have "0 < unat (rcv_wnd pcb)" by (simp add: unat_gt_0)
  moreover have "unat (rcv_nxt pcb + ucast (rcv_wnd pcb)) = unat (rcv_nxt pcb) + unat (rcv_wnd pcb)"
    using assms(3) by (simp add: unat_plus_if')
  ultimately have "rcv_nxt pcb < rcv_nxt pcb + ucast (rcv_wnd pcb)" by (simp add: word_less_nat_alt)
  with assms False show ?thesis by (simp add: tcp_acceptable_def Let_def)
qed (use assms in \<open>simp add: tcp_acceptable_def Let_def\<close>)

text \<open>A new acknowledgement in the states where it does not move the connection on.\<close>

lemma tcp_ack_common_new:
  fixes w :: "('d, 'm) tcp_state_scheme" and seg
  assumes p: "p < length (tcp_pcbs w)" and st: "tp_state (tcp_at p w) \<notin> {TCP_FIN_WAIT1, TCP_CLOSING}"
    and ack: "snd_una (tcp_at p w) < seg_ack seg" "seg_ack seg \<le> snd_nxt (tcp_at p w)"
  defines "w' \<equiv> snd (tcp_ack_common p seg w)"
  shows "fst (tcp_ack_common p seg w)" "q \<noteq> p \<Longrightarrow> tcp_at q w' = tcp_at q w"
    "tp_state (tcp_at p w') = tp_state (tcp_at p w)" "snd_una (tcp_at p w') = seg_ack seg"
    "snd_nxt (tcp_at p w') = snd_nxt (tcp_at p w)" "rcv_nxt (tcp_at p w') = rcv_nxt (tcp_at p w)"
    "rcv_wnd (tcp_at p w') = rcv_wnd (tcp_at p w)" "tp_buf (tcp_at p w') = tp_buf (tcp_at p w)"
    "tp_local (tcp_at p w') = tp_local (tcp_at p w)" "tp_foreign (tcp_at p w') = tp_foreign (tcp_at p w)"
    "wakeups w' = wakeups w"
  using assms(1-4) unfolding w'_def by (simp_all add: tcp_ack_common_def Let_def tcp_at_simps)

text \<open>The last segment of the handshake.\<close>

lemma tcp_ack_establishes:
  fixes w :: "('d, 'm) tcp_state_scheme" and seg mem l f
  assumes ok: "tcp_ok w" and sel: "tcp_pcb_select l (Some f) (tcp_pcbs w) = Some n"
    and n: "tp_state (tcp_at n w) = TCP_SYN_RECEIVED" "snd_una (tcp_at n w) = iss" "snd_nxt (tcp_at n w) = iss + 1"
      "tp_parent (tcp_at n w) = Some p" "p \<noteq> n"
    and mem: "alloc_ok w (alloc_no w)"
    and iss: "iss \<noteq> -1"
    and seg: "seg_ack seg = iss + 1" "seg_seq seg = rcv_nxt (tcp_at n w)" "seg_len seg = 0"
    and wrap: "unat (rcv_nxt (tcp_at n w)) + unat (rcv_wnd (tcp_at n w)) < 2 ^ 32"
  defines "w' \<equiv> tcp_segment_arrives seg TCP_FLG_ACK mem 0 l f w"
  shows "tp_state (tcp_at n w') = TCP_ESTABLISHED" "snd_una (tcp_at n w') = iss + 1"
    "snd_nxt (tcp_at n w') = iss + 1" "rcv_nxt (tcp_at n w') = rcv_nxt (tcp_at n w)"
    "tp_foreign (tcp_at n w') = tp_foreign (tcp_at n w)"
    "tcp_at p w' = (tcp_at p w)\<lparr>tp_backlog := tp_backlog (tcp_at p w) @ [n]\<rparr>"
    "c_taskid (tp_cond (tcp_at p w)) \<in> set (wakeups w')"
proof -
  have b: "n < 16" using tcp_pcb_select_bound [OF sel] tcp_okD(1) [OF ok] by simp
  have len: "length (tcp_pcbs w) = 16" by (rule tcp_okD(1) [OF ok])
  have p: "p < 16" using tcp_okD(3) [OF ok b] n(4) by (simp add: tcp_pcb_ok_def tcp_pcb_shape_def)
  have lt: "iss < iss + 1" using unat_plus_1 [OF iss] by (simp add: word_less_nat_alt)
  let ?w1 = "tcp_wakeup n (tcp_set_state n TCP_ESTABLISHED w)"
  let ?w2 = "tcp_wakeup p (upd_tcp p (\<lambda>pcb. pcb\<lparr>tp_backlog := tp_backlog (tcp_at p w) @ [n]\<rparr>) (snd (calloc ?w1)))"
  have al: "fst (calloc ?w1) = True"
    using mem by (simp add: calloc_def tcp_wakeup_def cond_broadcast_def tcp_set_state_def upd_tcp_def set_tcp_def)
  have "tcp_ack_syn_received n seg l f w = (True, ?w2)"
    using n p b len seg lt al
    by (simp add: tcp_ack_syn_received_def Let_def case_prod_beta list_push_def tcp_at_simps)
  then have ack: "tcp_check_ack n seg TCP_FLG_ACK l f w = tcp_ack_common n seg ?w2"
    using n by (simp add: tcp_check_ack_def and_then_def)
  have acc: "tcp_acceptable (tcp_at n w) seg" by (rule tcp_acceptable_empty [OF seg(2,3) wrap])
  have no_text: "tcp_segment_text q s m 0 v = (True, v)" for q s m and v :: "('d, 'm) tcp_state_scheme"
    by (simp add: tcp_segment_text_def Let_def)
  have w': "w' = snd (tcp_ack_common n seg ?w2)"
    using sel n tcp_otherwise_passes [OF acc, of TCP_FLG_ACK mem 0 l f] ack
    by (cases "tcp_ack_common n seg ?w2")
      (simp add: w'_def tcp_segment_arrives_def and_then_def no_text tcp_check_fin_def)
  have w2: "tcp_at n ?w2 = (tcp_at n w)\<lparr>tp_state := TCP_ESTABLISHED\<rparr>"
    "tcp_at p ?w2 = (tcp_at p w)\<lparr>tp_backlog := tp_backlog (tcp_at p w) @ [n]\<rparr>" "length (tcp_pcbs ?w2) = 16"
    "c_taskid (tp_cond (tcp_at p w)) \<in> set (wakeups ?w2)"
    using n p b len by (simp_all add: tcp_at_simps)
  have new: "n < length (tcp_pcbs ?w2)" "tp_state (tcp_at n ?w2) \<notin> {TCP_FIN_WAIT1, TCP_CLOSING}"
    "snd_una (tcp_at n ?w2) < seg_ack seg" "seg_ack seg \<le> snd_nxt (tcp_at n ?w2)"
    unfolding w2 using b n lt seg by simp_all
  note c = tcp_ack_common_new [OF new, folded w', unfolded w2]
  show "tp_state (tcp_at n w') = TCP_ESTABLISHED" "snd_una (tcp_at n w') = iss + 1"
    "snd_nxt (tcp_at n w') = iss + 1" "rcv_nxt (tcp_at n w') = rcv_nxt (tcp_at n w)"
    "tp_foreign (tcp_at n w') = tp_foreign (tcp_at n w)"
    using c(3-6,10) n seg by simp_all
  show "tcp_at p w' = (tcp_at p w)\<lparr>tp_backlog := tp_backlog (tcp_at p w) @ [n]\<rparr>"
    using c(2) [OF n(5)] w2(2) by simp
  show "c_taskid (tp_cond (tcp_at p w)) \<in> set (wakeups w')" unfolding c(11) by (rule w2)
qed

section \<open>Claims\<close>

lemma tcp_pcb_get_at:
  "p < 16 \<Longrightarrow> tp_state (tcp_at p w) \<noteq> TCP_FREE \<Longrightarrow> tcp_pcb_get (int p) (tcp_pcbs w) = Some p"
  by (simp add: tcp_pcb_get_def TCP_PCB_SIZE_def tcp_at_def)

text \<open>
  C11: the three-way handshake. Host A has sent its SYN from \<open>a\<close> to \<open>b\<close>; on B a socket listens
  on \<open>b\<close>, a block is free and there is memory. When the three segments, as \<^verbatim>\<open>tcp_output\<close> fills
  them in, arrive one after the other, both ends are established and agree on the sequence
  numbers, A's opener is woken, and \<^verbatim>\<open>tcp_accept\<close> on B returns the new connection and \<open>a\<close>
  without waiting. The comparisons of sequence numbers do not wrap, so the initial ones must
  not be at the end of their range.
\<close>

theorem tcp_handshake:
  fixes wA :: "('d, 'm) tcp_state_scheme" and wB :: "('e, 'n) tcp_state_scheme"
  assumes okA: "tcp_ok wA" and okB: "tcp_ok wB"
    and selA: "tcp_pcb_select a (Some b) (tcp_pcbs wA) = Some i"
    and A: "tp_state (tcp_at i wA) = TCP_SYN_SENT" "tp_iss (tcp_at i wA) = issA" "snd_una (tcp_at i wA) = issA"
      "snd_nxt (tcp_at i wA) = issA + 1"
    and selB: "tcp_pcb_select b (Some a) (tcp_pcbs wB) = Some p"
    and B: "tp_state (tcp_at p wB) = TCP_LISTEN" "tp_mode (tcp_at p wB) = TCP_PCB_MODE_SOCKET"
      "tp_foreign (tcp_at p wB) \<noteq> a" "tp_backlog (tcp_at p wB) = []"
    and free: "find_idx (\<lambda>pcb. tp_state pcb = TCP_FREE) (tcp_pcbs wB) = Some n"
    and mem: "\<And>k. alloc_ok wB k"
    and iss: "unat issA + 8193 < 2 ^ 32" "randoms wB (random_no wB) \<noteq> -1"
  shows "let syn = tcp_seg_of (tcp_at i wA) TCP_FLG_SYN [];
             wB1 = tcp_segment_arrives syn TCP_FLG_SYN data 0 b a wB;
             synack = tcp_seg_of (tcp_at n wB1) (TCP_FLG_SYN OR TCP_FLG_ACK) [];
             wA1 = tcp_segment_arrives synack (TCP_FLG_SYN OR TCP_FLG_ACK) data 0 a b wA;
             ack = tcp_seg_of (tcp_at i wA1) TCP_FLG_ACK [];
             wB2 = tcp_segment_arrives ack TCP_FLG_ACK data 0 b a wB1
         in tp_state (tcp_at i wA1) = TCP_ESTABLISHED \<and> tp_state (tcp_at n wB2) = TCP_ESTABLISHED \<and>
            snd_nxt (tcp_at i wA1) = rcv_nxt (tcp_at n wB2) \<and> snd_nxt (tcp_at n wB2) = rcv_nxt (tcp_at i wA1) \<and>
            snd_una (tcp_at i wA1) = snd_nxt (tcp_at i wA1) \<and> snd_una (tcp_at n wB2) = snd_nxt (tcp_at n wB2) \<and>
            c_taskid (tp_cond (tcp_at i wA)) \<in> set (wakeups wA1) \<and>
            fst (tcp_accept (int p) wB2) = Returns (int n, Some a)"
proof -
  let ?syn = "tcp_seg_of (tcp_at i wA) TCP_FLG_SYN []"
  define wB1 where "wB1 = tcp_segment_arrives ?syn TCP_FLG_SYN data 0 b a wB"
  note B0 = tcp_listen_spawns(1,2) [OF okB selB B(1,2) free]
  note B1 = tcp_listen_spawns(3-12) [OF okB selB B(1,2) free, where seg = ?syn and mem = data and len = 0, folded wB1_def]
  have may: "tcp_only wB wB1" "tcp_shape wB1"
    unfolding wB1_def using tcp_mayD [OF tcp_may_arrives tcp_ok_shape [OF okB]] by blast+
  have "unat (rcv_wnd (tcp_at q wB1)) \<le> 8192" if "q < 16" for q
    using B1(1) [where q = q] B1(6) tcp_okD(3) [OF okB that] by (cases "q = n") (simp_all add: tcp_pcb_ok_def)
  with may(2) have okB1: "tcp_ok wB1" by (simp add: tcp_ok_iff)
  note may(1)
  then have memB1: "alloc_ok wB1 (alloc_no wB1)" using mem by (simp add: tcp_onlyD(10))
  let ?sa = "tcp_seg_of (tcp_at n wB1) (TCP_FLG_SYN OR TCP_FLG_ACK) []"
  define wA1 where "wA1 = tcp_segment_arrives ?sa (TCP_FLG_SYN OR TCP_FLG_ACK) data 0 a b wA"
  have issA: "issA \<noteq> -1" using iss(1) by (auto simp: unsigned_minus_1_eq_mask mask_eq_exp_minus_1)
  have "seg_ack ?sa = issA + 1" using B1(5) A(2) by (simp add: tcp_seg_of_def)
  note A1 = tcp_syn_ack_establishes [OF okA selA A(1,3,4,2) issA this, where mem = data and len = 0, folded wA1_def]
  let ?ack = "tcp_seg_of (tcp_at i wA1) TCP_FLG_ACK []"
  define wB2 where "wB2 = tcp_segment_arrives ?ack TCP_FLG_ACK data 0 b a wB1"
  have lenB: "length (tcp_pcbs wB) = 16" "length (tcp_pcbs wB1) = 16" using okB okB1 by (auto dest: tcp_okD)
  have "\<not> tcp_exact b a (tcp_pcbs wB ! p)" using B(3) by (simp add: tcp_exact_def tcp_at_def)
  note others = tcp_pcb_select_waiting [OF selB this]
  have selB1: "tcp_pcb_select b (Some a) (tcp_pcbs wB1) = Some n"
  proof (rule tcp_pcb_select_exact)
    show "tcp_exact b a (tcp_pcbs wB1 ! n)"
      using B1(3,4) by (simp add: tcp_exact_def tcp_local_match_def tcp_at_def)
    show "k = n" if "k < length (tcp_pcbs wB1)" "tcp_exact b a (tcp_pcbs wB1 ! k)" for k
      using B1(1) [of k] that others(1) lenB unfolding tcp_at_def by metis
  qed (use B0(1) lenB in simp)
  have wrap: "unat (rcv_nxt (tcp_at n wB1)) + unat (rcv_wnd (tcp_at n wB1)) < 2 ^ 32"
    using B1(5,6) A(2) iss(1) issA by (simp add: tcp_seg_of_def unat_plus_1)
  have ack: "seg_ack ?ack = randoms wB (random_no wB) + 1" "seg_seq ?ack = rcv_nxt (tcp_at n wB1)"
    "seg_len ?ack = 0"
    using A1(4,5) B1(5,7) A(2) by (simp_all add: tcp_seg_of_def tcp_seg_len_def)
  note B2 = tcp_ack_establishes [OF okB1 selB1 B1(2,8,9,10) not_sym [OF B0(2)] memB1 iss(2) ack wrap,
      where mem = data, folded wB2_def]
  have p: "p < 16" using others(2) lenB by simp
  have pB2: "tcp_at p wB2 = (tcp_at p wB)\<lparr>tp_backlog := [n]\<rparr>"
    using B2(6) B1(1) [of p] B0(2) B(4) by simp
  then have get: "tcp_pcb_get (int p) (tcp_pcbs wB2) = Some p"
    using B(1) p by (intro tcp_pcb_get_at) simp_all
  have "fst (tcp_accept (int p) wB2) = Returns (int n, Some a)"
    using B B2(5) B1(4) by (simp add: tcp_accept_def get tcp_accept_loop_def pB2)
  moreover have "tp_state (tcp_at i wA1) = TCP_ESTABLISHED" "tp_state (tcp_at n wB2) = TCP_ESTABLISHED"
    "snd_nxt (tcp_at i wA1) = rcv_nxt (tcp_at n wB2)" "snd_nxt (tcp_at n wB2) = rcv_nxt (tcp_at i wA1)"
    "snd_una (tcp_at i wA1) = snd_nxt (tcp_at i wA1)" "snd_una (tcp_at n wB2) = snd_nxt (tcp_at n wB2)"
    "c_taskid (tp_cond (tcp_at i wA)) \<in> set (wakeups wA1)"
    using A1 B1 B2 A by (simp_all add: tcp_seg_of_def)
  ultimately show ?thesis
    unfolding Let_def wB1_def [symmetric] wA1_def [symmetric] wB2_def [symmetric] by blast
qed

lemma tcp_select_None:
  "tcp_select_loop l (Some f) i c ps = None \<Longrightarrow> c = None \<and> (\<forall>pcb \<in> set ps. \<not> tcp_exact l f pcb \<and> \<not> tcp_waiting l pcb)"
proof (induction ps arbitrary: i c)
  case (Cons pcb ps)
  from Cons.prems have e: "\<not> tcp_exact l f pcb"
    "tcp_select_loop l (Some f) (Suc i) (if tcp_waiting l pcb then Some i else c) ps = None"
    by (simp_all add: tcp_select_loop_Cons del: tcp_select_loop.simps(2) split: if_splits)
  from Cons.IH [OF e(2)] e(1) show ?case by (simp split: if_splits)
qed simp

lemma tcp_pcb_select_only:
  assumes "p < length ps" and "tcp_exact l f (ps ! p) \<or> tcp_waiting l (ps ! p)"
    and "\<And>k. k < length ps \<Longrightarrow> tcp_local_match l (ps ! k) \<Longrightarrow> k = p"
  shows "tcp_pcb_select l (Some f) ps = Some p"
proof (cases "tcp_pcb_select l (Some f) ps")
  case None
  with tcp_select_None [of l f 0 None ps] assms(1,2) show ?thesis by (auto simp: tcp_pcb_select_def)
next
  case (Some j)
  have "tcp_local_match l (ps ! j)"
  proof (cases "find_idx (tcp_exact l f) ps")
    case None
    with Some tcp_select_other [of l f ps 0 None j] show ?thesis
      by (auto simp: tcp_pcb_select_def tcp_waiting_def)
  next
    case (Some k)
    with \<open>tcp_pcb_select l (Some f) ps = Some j\<close> tcp_select_exact [OF Some, of 0 None] find_idx_SomeD [OF Some]
    show ?thesis by (simp add: tcp_pcb_select_def tcp_exact_def)
  qed
  with assms(3) tcp_pcb_select_bound [OF Some] Some show ?thesis by simp
qed

text \<open>A host with one block in use.\<close>

definition tcp_host1 :: "tcp_pcb \<Rightarrow> unit tcp_state" where
  "tcp_host1 pcb = upd_tcp 0 (\<lambda>_. pcb) (tcp_host [1] 2 3 [1, 2, 3, 4, 5, 6])"

lemma tcp_host1_facts:
  assumes "tcp_pcb_ok pcb"
  shows "tcp_ok (tcp_host1 pcb)" "tcp_pcbs (tcp_host1 pcb) = pcb # replicate 15 zero_tcp_pcb"
    "tcp_at 0 (tcp_host1 pcb) = pcb" "alloc_ok (tcp_host1 pcb) k" "randoms (tcp_host1 pcb) k = 0"
    "tp_state pcb \<noteq> TCP_FREE \<Longrightarrow> find_idx (\<lambda>pcb. tp_state pcb = TCP_FREE) (tcp_pcbs (tcp_host1 pcb)) = Some 1"
    "ep_port l \<noteq> 0 \<Longrightarrow> tcp_exact l f pcb \<or> tcp_waiting l pcb \<Longrightarrow>
       tcp_pcb_select l (Some f) (tcp_pcbs (tcp_host1 pcb)) = Some 0"
proof -
  let ?h = "tcp_host [1] 2 3 [1, 2, 3, 4, 5, 6]"
  have ok: "tcp_ok ?h" by (rule tcp_host_ok) simp
  have "replicate 16 zero_tcp_pcb = zero_tcp_pcb # replicate 15 zero_tcp_pcb"
    by (simp add: replicate_Suc [symmetric] del: replicate_Suc)
  then show ps: "tcp_pcbs (tcp_host1 pcb) = pcb # replicate 15 zero_tcp_pcb"
    by (simp add: tcp_host1_def tcp_pcbs_upd tcp_host_fields)
  then show "tcp_at 0 (tcp_host1 pcb) = pcb" by (simp add: tcp_at_def)
  have "arp_inv (tcp_host1 pcb)" using tcp_okD(2) [OF ok] by (simp add: tcp_host1_def)
  then show "tcp_ok (tcp_host1 pcb)"
    using assms zero_tcp_pcb_ok by (simp add: tcp_ok_def tcp_shape_def tcp_pcb_ok_def ps)
  show "alloc_ok (tcp_host1 pcb) k" "randoms (tcp_host1 pcb) k = 0"
    by (simp_all add: tcp_host1_def upd_tcp_def set_tcp_def tcp_host_fields)
      (simp_all add: ip_host_def host_def arp_boot_def net_boot_def net_state.defs arp_state.defs ip_state.defs Let_def)
  have z: "replicate 15 zero_tcp_pcb = zero_tcp_pcb # replicate 14 zero_tcp_pcb"
    by (simp add: replicate_Suc [symmetric] del: replicate_Suc)
  have zf: "tp_state zero_tcp_pcb = TCP_FREE" "ep_port (tp_local zero_tcp_pcb) = 0"
    by (simp_all add: zero_tcp_pcb_def zero_endpoint_def)
  show "tp_state pcb \<noteq> TCP_FREE \<Longrightarrow> find_idx (\<lambda>pcb. tp_state pcb = TCP_FREE) (tcp_pcbs (tcp_host1 pcb)) = Some 1"
    by (simp add: ps z zf)
  show "tcp_pcb_select l (Some f) (tcp_pcbs (tcp_host1 pcb)) = Some 0"
    if "ep_port l \<noteq> 0" "tcp_exact l f pcb \<or> tcp_waiting l pcb"
  proof (rule tcp_pcb_select_only)
    show "k = 0" if "k < length (tcp_pcbs (tcp_host1 pcb))" "tcp_local_match l (tcp_pcbs (tcp_host1 pcb) ! k)" for k
      using that \<open>ep_port l \<noteq> 0\<close> by (cases k) (auto simp: ps tcp_local_match_def zf)
  qed (use that in \<open>simp_all add: ps\<close>)
qed

theorem tcp_handshake_witness:
  "\<exists>syn synack ack.
     tp_state (tcp_at 0 (tcp_segment_arrives synack (TCP_FLG_SYN OR TCP_FLG_ACK) [] 0 \<lparr>ep_addr = 7, ep_port = 5\<rparr>
       \<lparr>ep_addr = 9, ep_port = 80\<rparr>
       (tcp_host1 (zero_tcp_pcb\<lparr>tp_state := TCP_SYN_SENT, tp_local := \<lparr>ep_addr = 7, ep_port = 5\<rparr>,
          tp_foreign := \<lparr>ep_addr = 9, ep_port = 80\<rparr>, tp_iss := 5, snd_una := 5, snd_nxt := 5 + 1\<rparr>)))) =
       TCP_ESTABLISHED \<and>
     fst (tcp_accept 0 (tcp_segment_arrives ack TCP_FLG_ACK [] 0 \<lparr>ep_addr = 9, ep_port = 80\<rparr> \<lparr>ep_addr = 7, ep_port = 5\<rparr>
       (tcp_segment_arrives syn TCP_FLG_SYN [] 0 \<lparr>ep_addr = 9, ep_port = 80\<rparr> \<lparr>ep_addr = 7, ep_port = 5\<rparr>
         (tcp_host1 (zero_tcp_pcb\<lparr>tp_state := TCP_LISTEN, tp_mode := TCP_PCB_MODE_SOCKET,
            tp_local := \<lparr>ep_addr = 0, ep_port = 80\<rparr>\<rparr>))))) = Returns (1, Some \<lparr>ep_addr = 7, ep_port = 5\<rparr>)"
proof -
  let ?a = "\<lparr>ep_addr = 7, ep_port = 5\<rparr>" and ?b = "\<lparr>ep_addr = 9, ep_port = 80\<rparr>"
  let ?pA = "zero_tcp_pcb\<lparr>tp_state := TCP_SYN_SENT, tp_local := ?a, tp_foreign := ?b, tp_iss := 5, snd_una := 5,
      snd_nxt := 5 + 1\<rparr>"
  let ?pB = "zero_tcp_pcb\<lparr>tp_state := TCP_LISTEN, tp_mode := TCP_PCB_MODE_SOCKET, tp_local := \<lparr>ep_addr = 0, ep_port = 80\<rparr>\<rparr>"
  have okp: "tcp_pcb_ok ?pA" "tcp_pcb_ok ?pB" by simp_all
  note fA = tcp_host1_facts [OF okp(1)] and fB = tcp_host1_facts [OF okp(2)]
  have selA: "tcp_pcb_select ?a (Some ?b) (tcp_pcbs (tcp_host1 ?pA)) = Some 0"
    by (rule fA(7)) (simp_all add: tcp_exact_def tcp_local_match_def)
  have selB: "tcp_pcb_select ?b (Some ?a) (tcp_pcbs (tcp_host1 ?pB)) = Some 0"
    by (rule fB(7)) (simp_all add: tcp_waiting_def tcp_local_match_def zero_tcp_pcb_def IP_ADDR_ANY_def)
  have B: "tp_foreign (tcp_at 0 (tcp_host1 ?pB)) \<noteq> ?a" "tp_backlog (tcp_at 0 (tcp_host1 ?pB)) = []"
    unfolding fB(3) by (simp_all add: zero_tcp_pcb_def zero_endpoint_def)
  have free: "find_idx (\<lambda>pcb. tp_state pcb = TCP_FREE) (tcp_pcbs (tcp_host1 ?pB)) = Some 1"
    by (rule fB(6)) simp
  have A: "tp_state (tcp_at 0 (tcp_host1 ?pA)) = TCP_SYN_SENT" "tp_iss (tcp_at 0 (tcp_host1 ?pA)) = 5"
    "snd_una (tcp_at 0 (tcp_host1 ?pA)) = 5" "snd_nxt (tcp_at 0 (tcp_host1 ?pA)) = 5 + 1"
    unfolding fA(3) by simp_all
  have Bs: "tp_state (tcp_at 0 (tcp_host1 ?pB)) = TCP_LISTEN"
    "tp_mode (tcp_at 0 (tcp_host1 ?pB)) = TCP_PCB_MODE_SOCKET"
    unfolding fB(3) by simp_all
  have iss: "unat (5 :: u32) + 8193 < 2 ^ 32" "randoms (tcp_host1 ?pB) (random_no (tcp_host1 ?pB)) \<noteq> -1"
    by (simp_all add: fB(5))
  have int: "int 0 = 0" "int 1 = 1" by simp_all
  note h = tcp_handshake [OF fA(1) fB(1) selA A selB Bs B free fB(4) iss, of "[]", unfolded Let_def int]
  from h show ?thesis by (elim conjE) (intro exI conjI, assumption+)
qed

end
