(* ===== verification/Pipe.thy ===== *)
theory Pipe
  imports Prelude
begin

text \<open>
  A stream of bytes between a producer and a consumer: what a receive buffer promises. Whatever
  the order of the calls, the consumer gets the bytes of the producer, each once and in order.
\<close>

datatype 'b pipe_op = Put "'b list" | Get nat

text \<open>A run of calls: all that was got, and the last state.\<close>

fun pipe_run ::
  "('b list \<Rightarrow> 's \<Rightarrow> 's) \<Rightarrow> (nat \<Rightarrow> 's \<Rightarrow> 'b list \<times> 's) \<Rightarrow> 'b pipe_op list \<Rightarrow> 's \<Rightarrow> 'b list \<times> 's" where
  "pipe_run put get [] s = ([], s)"
| "pipe_run put get (Put xs # ops) s = pipe_run put get ops (put xs s)"
| "pipe_run put get (Get n # ops) s =
     (let (ys, s1) = get n s; (zs, s2) = pipe_run put get ops s1 in (ys @ zs, s2))"

text \<open>Each put of the run fits when it comes.\<close>

fun pipe_fits ::
  "('b list \<Rightarrow> 's \<Rightarrow> bool) \<Rightarrow> ('b list \<Rightarrow> 's \<Rightarrow> 's) \<Rightarrow> (nat \<Rightarrow> 's \<Rightarrow> 'b list \<times> 's) \<Rightarrow>
     'b pipe_op list \<Rightarrow> 's \<Rightarrow> bool" where
  "pipe_fits fits put get [] s \<longleftrightarrow> True"
| "pipe_fits fits put get (Put xs # ops) s \<longleftrightarrow> fits xs s \<and> pipe_fits fits put get ops (put xs s)"
| "pipe_fits fits put get (Get n # ops) s \<longleftrightarrow> pipe_fits fits put get ops (snd (get n s))"

fun pipe_puts :: "'b pipe_op list \<Rightarrow> 'b list" where
  "pipe_puts [] = []"
| "pipe_puts (Put xs # ops) = xs @ pipe_puts ops"
| "pipe_puts (Get n # ops) = pipe_puts ops"

locale byte_pipe =
  fixes ok :: "'s \<Rightarrow> bool" and contents :: "'s \<Rightarrow> 'b list" and fits :: "'b list \<Rightarrow> 's \<Rightarrow> bool"
    and put :: "'b list \<Rightarrow> 's \<Rightarrow> 's" and get :: "nat \<Rightarrow> 's \<Rightarrow> 'b list \<times> 's"
  assumes put_ok: "ok s \<Longrightarrow> fits xs s \<Longrightarrow> ok (put xs s)"
    and put_contents: "ok s \<Longrightarrow> fits xs s \<Longrightarrow> contents (put xs s) = contents s @ xs"
    and get_ok: "ok s \<Longrightarrow> ok (snd (get n s))"
    and get_result: "ok s \<Longrightarrow> fst (get n s) = take n (contents s)"
    and get_contents: "ok s \<Longrightarrow> contents (snd (get n s)) = drop n (contents s)"
begin

lemma fifo:
  "ok s \<Longrightarrow> pipe_fits fits put get ops s \<Longrightarrow>
     fst (pipe_run put get ops s) @ contents (snd (pipe_run put get ops s)) = contents s @ pipe_puts ops"
  by (induction ops arbitrary: s rule: pipe_puts.induct)
    (simp_all add: put_ok put_contents get_ok get_result get_contents case_prod_beta Let_def)

lemma run_ok: "ok s \<Longrightarrow> pipe_fits fits put get ops s \<Longrightarrow> ok (snd (pipe_run put get ops s))"
  by (induction ops arbitrary: s rule: pipe_puts.induct)
    (simp_all add: put_ok get_ok case_prod_beta Let_def)

end

end
