(* ===== verification/TcpData.thy ===== *)
theory TcpData
  imports TcpConn Pipe
begin

text \<open>
  The transfer of data: the receive buffer as a stream of bytes, the segments that carry the
  data of \<^verbatim>\<open>tcp_send\<close>, and their retransmission; and, put together, what every operation does to
  the table and to the states.
\<close>

section \<open>Receiving\<close>

text \<open>The bytes that wait to be received.\<close>

definition tcp_stream :: "nat \<Rightarrow> ('d, 'm) tcp_state_scheme \<Rightarrow> u8 list" where
  "tcp_stream p w = take (8192 - unat (rcv_wnd (tcp_at p w))) (tp_buf (tcp_at p w))"

lemma unat_window_grows:
  assumes "unat (wnd :: u16) + len \<le> 8192"
  shows "unat (wnd + of_nat len) = unat wnd + len"
  using assms by (subst unat_plus_if') simp

text \<open>An empty ACK goes to IP and is not queued for retransmission.\<close>

lemma tcp_output_ack:
  "tcp_output p TCP_FLG_ACK [] w =
     tcp_output_segment (snd_nxt (tcp_at p w)) (rcv_nxt (tcp_at p w)) TCP_FLG_ACK (rcv_wnd (tcp_at p w)) []
       (tp_local (tcp_at p w)) (tp_foreign (tcp_at p w)) w"
proof -
  have "\<not> TCP_FLG_ISSET TCP_FLG_ACK (TCP_FLG_SYN OR TCP_FLG_FIN)" by (simp add: TCP_FLG_ISSET_def tcp_flags)
  then show ?thesis by (simp add: tcp_output_def Let_def)
qed

lemma tcp_at_ack: "arp_inv w \<Longrightarrow> tcp_at q (snd (tcp_output p TCP_FLG_ACK [] w)) = tcp_at q w"
  using tcp_output_segment_pcbs unfolding tcp_output_ack tcp_at_def by metis

text \<open>The acknowledgement goes to IP, whether the data fitted or not.\<close>

lemma tcp_text_acks:
  fixes seg mem
  assumes p: "p < length (tcp_pcbs w)" and len: "0 < len"
    and st: "tp_state (tcp_at p w) \<in> {TCP_ESTABLISHED, TCP_FIN_WAIT1, TCP_FIN_WAIT2}"
  defines "v \<equiv> upd_tcp p (tcp_copied seg mem len (size_sub TCP_BUF_SIZE (unat (rcv_wnd (tcp_at p w)))))
    (if tcp_text_fits (tcp_at p w) mem len then w else fault w)"
  shows "tcp_segment_text p seg mem len w = (True, tcp_wakeup p (snd (ip_output IP_PROTOCOL_TCP
      (tcp_segment (snd_nxt (tcp_at p w)) (seg_seq seg + ucast (seg_len seg)) TCP_FLG_ACK
        (rcv_wnd (tcp_at p w) - of_nat len) [] (tp_local (tcp_at p w)) (tp_foreign (tcp_at p w)))
      (ep_addr (tp_local (tcp_at p w))) (ep_addr (tp_foreign (tcp_at p w))) v)))"
proof -
  have "tcp_at p v = tcp_copied seg mem len (size_sub TCP_BUF_SIZE (unat (rcv_wnd (tcp_at p w)))) (tcp_at p w)"
    using p by (auto simp: v_def tcp_at_def fault_def upd_tcp_def set_tcp_def)
  then have "snd (tcp_output p TCP_FLG_ACK [] v) = snd (ip_output IP_PROTOCOL_TCP
      (tcp_segment (snd_nxt (tcp_at p w)) (seg_seq seg + ucast (seg_len seg)) TCP_FLG_ACK
        (rcv_wnd (tcp_at p w) - of_nat len) [] (tp_local (tcp_at p w)) (tp_foreign (tcp_at p w)))
      (ep_addr (tp_local (tcp_at p w))) (ep_addr (tp_foreign (tcp_at p w))) v)"
    by (simp add: tcp_output_ack tcp_output_segment_eq Let_def case_prod_beta tcp_copied_def)
  then show ?thesis using st len by (simp add: tcp_segment_text_eq v_def)
qed

lemma tcp_text_state:
  fixes w :: "('d, 'm) tcp_state_scheme" and seg mem
  assumes ok: "tcp_ok w" and p: "p < 16" and len: "0 < len"
    and st: "tp_state (tcp_at p w) \<in> {TCP_ESTABLISHED, TCP_FIN_WAIT1, TCP_FIN_WAIT2}"
  defines "w' \<equiv> snd (tcp_segment_text p seg mem len w)"
  shows "tcp_at p w' = tcp_copied seg mem len (8192 - unat (rcv_wnd (tcp_at p w))) (tcp_at p w)"
    "q \<noteq> p \<Longrightarrow> tcp_at q w' = tcp_at q w" "c_taskid (tp_cond (tcp_at p w)) \<in> set (wakeups w')"
    "\<not> tcp_text_fits (tcp_at p w) mem len \<Longrightarrow> ub w'"
proof -
  have pcb: "unat (rcv_wnd (tcp_at p w)) \<le> 8192"
    using tcp_okD(3) [OF ok p] by (simp add: tcp_pcb_ok_def)
  have n: "length (tcp_pcbs w) = 16" and arp: "arp_inv w" using tcp_okD [OF ok] by simp_all
  define off where "off = 8192 - unat (rcv_wnd (tcp_at p w))"
  define v where "v = upd_tcp p (tcp_copied seg mem len off) (if tcp_text_fits (tcp_at p w) mem len then w else fault w)"
  have off: "size_sub TCP_BUF_SIZE (unat (rcv_wnd (tcp_at p w))) = off"
    using pcb by (simp add: TCP_BUF_SIZE_def off_def)
  have w': "w' = tcp_wakeup p (snd (tcp_output p TCP_FLG_ACK [] v))"
    using st len unfolding w'_def tcp_segment_text_eq off v_def by simp
  have v: "tcp_at p v = tcp_copied seg mem len off (tcp_at p w)" "q \<noteq> p \<Longrightarrow> tcp_at q v = tcp_at q w" for q
    using p n by (auto simp: v_def tcp_at_def fault_def upd_tcp_def set_tcp_def)
  have arp': "arp_inv v" using arp by (simp add: v_def arp_inv_def fault_def)
  show "tcp_at p w' = tcp_copied seg mem len (8192 - unat (rcv_wnd (tcp_at p w))) (tcp_at p w)"
    unfolding w' off_def [symmetric] v(1) [symmetric] using arp' by (simp add: tcp_at_ack)
  show "q \<noteq> p \<Longrightarrow> tcp_at q w' = tcp_at q w"
    unfolding w' using arp' v(2) [of q] by (simp add: tcp_output_other)
  have "tp_cond (tcp_at p v) = tp_cond (tcp_at p w)" by (simp add: v(1) tcp_copied_def)
  then show "c_taskid (tp_cond (tcp_at p w)) \<in> set (wakeups w')"
    unfolding w' using arp' by simp
  assume "\<not> tcp_text_fits (tcp_at p w) mem len"
  then have "ub v" by (simp add: v_def fault_def upd_tcp_def set_tcp_def)
  moreover have "tcp_shape v"
    using tcp_ok_shape [OF ok] by (auto simp: v_def intro!: tcp_shape_copied)
  then have "tcp_only v w'"
    using tcp_quiet_acked [of v p] tcp_evolvesD(1) unfolding w' tcp_quiet_def by blast
  ultimately show "ub w'" by (rule tcp_only_ub [rotated])
qed

lemma tcp_text_appends:
  fixes w :: "('d, 'm) tcp_state_scheme" and seg
  assumes ok: "tcp_ok w" and p: "p < 16"
    and st: "tp_state (tcp_at p w) \<in> {TCP_ESTABLISHED, TCP_FIN_WAIT1, TCP_FIN_WAIT2}"
    and len: "0 < len" "len \<le> unat (rcv_wnd (tcp_at p w))" "len \<le> length mem"
  defines "w' \<equiv> snd (tcp_segment_text p seg mem len w)"
  shows "tcp_ok w'" "tcp_stream p w' = tcp_stream p w @ take len mem"
    "unat (rcv_wnd (tcp_at p w')) = unat (rcv_wnd (tcp_at p w)) - len"
proof -
  have pcb: "unat (rcv_wnd (tcp_at p w)) \<le> 8192" "length (tp_buf (tcp_at p w)) = 8192"
    using tcp_okD(3) [OF ok p] by (simp_all add: tcp_pcb_ok_def tcp_pcb_shape_def)
  have "tcp_text_fits (tcp_at p w) mem len"
    using len pcb(1) by (simp add: tcp_text_fits_def TCP_BUF_SIZE_def)
  then show "tcp_ok w'" unfolding w'_def by (intro tcp_ok_quiet [OF tcp_quiet_text ok]) simp
  have at: "tcp_at p w' = tcp_copied seg mem len (8192 - unat (rcv_wnd (tcp_at p w))) (tcp_at p w)"
    unfolding w'_def by (rule tcp_text_state(1) [OF ok p len(1) st])
  note wnd = unat_window_shrinks [OF len(2)]
  from at show "unat (rcv_wnd (tcp_at p w')) = unat (rcv_wnd (tcp_at p w)) - len"
    by (simp add: tcp_copied_def wnd)
  define off where "off = 8192 - unat (rcv_wnd (tcp_at p w))"
  have "8192 - (unat (rcv_wnd (tcp_at p w)) - len) = off + len" "off \<le> 8192"
    using len(2) pcb(1) by (simp_all add: off_def)
  then show "tcp_stream p w' = tcp_stream p w @ take len mem"
    unfolding tcp_stream_def off_def [symmetric] at
    using len pcb by (simp add: tcp_copied_def wnd TCP_BUF_SIZE_def)
qed

text \<open>Receiving takes from the front.\<close>

lemma tcp_receive_takes:
  fixes w :: "('d, 'm) tcp_state_scheme" and sz
  assumes ok: "tcp_ok w" and p: "p < 16"
    and st: "tp_state (tcp_at p w) \<in> {TCP_ESTABLISHED, TCP_FIN_WAIT1, TCP_FIN_WAIT2, TCP_CLOSE_WAIT}"
    and ne: "tcp_stream p w \<noteq> []"
  defines "r \<equiv> tcp_receive_retry p sz w"
  defines "n \<equiv> min sz (length (tcp_stream p w))"
  shows "fst r = Returns (int n, take sz (tcp_stream p w))" "tcp_stream p (snd r) = drop sz (tcp_stream p w)"
    "unat (rcv_wnd (tcp_at p (snd r))) = unat (rcv_wnd (tcp_at p w)) + n"
    "q \<noteq> p \<Longrightarrow> tcp_at q (snd r) = tcp_at q w" "tp_state (tcp_at p (snd r)) = tp_state (tcp_at p w)"
    "tp_local (tcp_at p (snd r)) = tp_local (tcp_at p w)" "tp_foreign (tcp_at p (snd r)) = tp_foreign (tcp_at p w)"
    "snd_una (tcp_at p (snd r)) = snd_una (tcp_at p w)" "snd_nxt (tcp_at p (snd r)) = snd_nxt (tcp_at p w)"
    "rcv_nxt (tcp_at p (snd r)) = rcv_nxt (tcp_at p w)"
proof -
  have pcb: "unat (rcv_wnd (tcp_at p w)) \<le> 8192" "length (tp_buf (tcp_at p w)) = 8192"
    using tcp_okD(3) [OF ok p] by (simp_all add: tcp_pcb_ok_def tcp_pcb_shape_def)
  have n16: "length (tcp_pcbs w) = 16" using tcp_okD [OF ok] by simp
  define rem where "rem = 8192 - unat (rcv_wnd (tcp_at p w))"
  have len: "length (tcp_stream p w) = rem" using pcb by (simp add: tcp_stream_def rem_def)
  with ne have nz: "rem \<noteq> 0" by auto
  have off: "size_sub TCP_BUF_SIZE (unat (rcv_wnd (tcp_at p w))) = rem"
    using pcb(1) by (simp add: TCP_BUF_SIZE_def rem_def)
  have n: "n = min sz rem" by (simp add: n_def len)
  let ?f = "\<lambda>pcb. pcb\<lparr>tp_buf := take (rem - n) (drop n (tp_buf pcb)) @ drop (rem - n) (tp_buf pcb),
      rcv_wnd := rcv_wnd pcb + of_nat n\<rparr>"
  have "\<not> TCP_BUF_SIZE < rem" by (simp add: TCP_BUF_SIZE_def rem_def)
  then have r: "r = (Returns (int n, take n (tp_buf (tcp_at p w))), upd_tcp p ?f w)"
    using st nz unfolding r_def tcp_receive_retry_def Let_def off n [symmetric] by auto
  have wnd: "unat (rcv_wnd (tcp_at p w) + of_nat n) = unat (rcv_wnd (tcp_at p w)) + n"
    using pcb n by (intro unat_window_grows) (simp add: rem_def)
  have at: "tcp_at p (upd_tcp p ?f w) = ?f (tcp_at p w)" using p n16 by (simp add: tcp_at_upd)
  have "take n (tp_buf (tcp_at p w)) = take sz (tcp_stream p w)"
    by (simp add: tcp_stream_def n rem_def [symmetric] min.commute)
  then show "fst r = Returns (int n, take sz (tcp_stream p w))" by (simp add: r)
  have "8192 - (unat (rcv_wnd (tcp_at p w)) + n) = rem - n" "rem \<le> 8192" by (simp_all add: rem_def)
  then have "tcp_stream p (snd r) = take (rem - n) (drop n (tp_buf (tcp_at p w)))"
    using pcb(2) by (simp add: tcp_stream_def r at wnd)
  also have "\<dots> = drop n (tcp_stream p w)" by (simp add: tcp_stream_def take_drop rem_def [symmetric] n)
  also have "\<dots> = drop sz (tcp_stream p w)" by (cases "sz \<le> rem") (simp_all add: n len)
  finally show "tcp_stream p (snd r) = drop sz (tcp_stream p w)" .
  show "q \<noteq> p \<Longrightarrow> tcp_at q (snd r) = tcp_at q w" by (simp add: r tcp_at_upd)
  show "unat (rcv_wnd (tcp_at p (snd r))) = unat (rcv_wnd (tcp_at p w)) + n"
    "tp_state (tcp_at p (snd r)) = tp_state (tcp_at p w)"
    "tp_local (tcp_at p (snd r)) = tp_local (tcp_at p w)" "tp_foreign (tcp_at p (snd r)) = tp_foreign (tcp_at p w)"
    "snd_una (tcp_at p (snd r)) = snd_una (tcp_at p w)" "snd_nxt (tcp_at p (snd r)) = snd_nxt (tcp_at p w)"
    "rcv_nxt (tcp_at p (snd r)) = rcv_nxt (tcp_at p w)"
    by (simp_all add: r at wnd)
qed

text \<open>An acknowledgement within what was sent.\<close>

lemma tcp_ack_common_known:
  fixes w :: "('d, 'm) tcp_state_scheme" and seg
  assumes p: "p < length (tcp_pcbs w)" and st: "tp_state (tcp_at p w) \<notin> {TCP_FIN_WAIT1, TCP_CLOSING}"
    and ack: "snd_una (tcp_at p w) \<le> seg_ack seg" "seg_ack seg \<le> snd_nxt (tcp_at p w)"
  defines "w' \<equiv> snd (tcp_ack_common p seg w)"
  shows "fst (tcp_ack_common p seg w)" "q \<noteq> p \<Longrightarrow> tcp_at q w' = tcp_at q w"
    "tp_state (tcp_at p w') = tp_state (tcp_at p w)" "snd_una (tcp_at p w') = seg_ack seg"
    "snd_nxt (tcp_at p w') = snd_nxt (tcp_at p w)" "rcv_nxt (tcp_at p w') = rcv_nxt (tcp_at p w)"
    "rcv_wnd (tcp_at p w') = rcv_wnd (tcp_at p w)" "tp_buf (tcp_at p w') = tp_buf (tcp_at p w)"
    "tp_local (tcp_at p w') = tp_local (tcp_at p w)" "tp_foreign (tcp_at p w') = tp_foreign (tcp_at p w)"
    "tp_cond (tcp_at p w') = tp_cond (tcp_at p w)"
proof -
  have "\<not> snd_nxt (tcp_at p w) < seg_ack seg" using ack(2) by (simp add: not_less)
  note simps = this tcp_ack_common_def Let_def tcp_at_simps
  show "fst (tcp_ack_common p seg w)" "q \<noteq> p \<Longrightarrow> tcp_at q w' = tcp_at q w"
    "tp_state (tcp_at p w') = tp_state (tcp_at p w)" "snd_una (tcp_at p w') = seg_ack seg"
    "snd_nxt (tcp_at p w') = snd_nxt (tcp_at p w)" "rcv_nxt (tcp_at p w') = rcv_nxt (tcp_at p w)"
    "rcv_wnd (tcp_at p w') = rcv_wnd (tcp_at p w)" "tp_buf (tcp_at p w') = tp_buf (tcp_at p w)"
    "tp_local (tcp_at p w') = tp_local (tcp_at p w)" "tp_foreign (tcp_at p w') = tp_foreign (tcp_at p w)"
    "tp_cond (tcp_at p w') = tp_cond (tcp_at p w)"
    using p st ack unfolding w'_def by (simp_all add: simps)
qed

text \<open>A data segment at the left edge of the window of an established connection.\<close>

definition tcp_established :: "nat \<Rightarrow> endpoint \<Rightarrow> endpoint \<Rightarrow> ('d, 'm) tcp_state_scheme \<Rightarrow> bool" where
  "tcp_established p l f w \<longleftrightarrow>
     tcp_ok w \<and> tcp_pcb_select l (Some f) (tcp_pcbs w) = Some p \<and> tp_state (tcp_at p w) = TCP_ESTABLISHED \<and>
     snd_una (tcp_at p w) \<le> snd_nxt (tcp_at p w)"

definition tcp_in_order :: "tcp_pcb \<Rightarrow> nat \<Rightarrow> tcp_segment_info \<Rightarrow> bool" where
  "tcp_in_order pcb len seg \<longleftrightarrow>
     seg_seq seg = rcv_nxt pcb \<and> seg_len seg = of_nat len \<and> 0 < len \<and> len < 65536 \<and> rcv_wnd pcb \<noteq> 0 \<and>
     unat (rcv_nxt pcb) + unat (rcv_wnd pcb) < 2 ^ 32 \<and> snd_una pcb \<le> seg_ack seg \<and> seg_ack seg \<le> snd_nxt pcb"

lemma tcp_in_order_acceptable:
  assumes "tcp_in_order pcb len seg"
  shows "tcp_acceptable pcb seg"
proof -
  have "0 < unat (rcv_wnd pcb)" using assms by (simp add: tcp_in_order_def unat_gt_0)
  moreover have "unat (rcv_nxt pcb + ucast (rcv_wnd pcb)) = unat (rcv_nxt pcb) + unat (rcv_wnd pcb)"
    using assms by (simp add: tcp_in_order_def unat_plus_if')
  ultimately have "rcv_nxt pcb < rcv_nxt pcb + ucast (rcv_wnd pcb)" by (simp add: word_less_nat_alt)
  moreover have "(of_nat len :: u16) \<noteq> 0"
    using assms unat_of_nat_u16 [of len] by (metis tcp_in_order_def less_not_refl unat_0)
  ultimately show ?thesis using assms by (simp add: tcp_acceptable_def tcp_in_order_def Let_def)
qed

lemma tcp_data_arrives:
  assumes est: "tcp_established p l f w" and ord: "tcp_in_order (tcp_at p w) len seg"
  defines "w1 \<equiv> snd (tcp_ack_common p seg w)"
  shows "tcp_segment_arrives seg (TCP_FLG_ACK OR TCP_FLG_PSH) mem len l f w = snd (tcp_segment_text p seg mem len w1)"
proof -
  have ok: "tcp_ok w" and sel: "tcp_pcb_select l (Some f) (tcp_pcbs w) = Some p"
    and st: "tp_state (tcp_at p w) = TCP_ESTABLISHED"
    using est by (simp_all add: tcp_established_def)
  have p: "p < length (tcp_pcbs w)" using tcp_pcb_select_bound [OF sel] .
  have "fst (tcp_ack_common p seg w)"
    using ord p st by (intro tcp_ack_common_known) (simp_all add: tcp_in_order_def)
  then have "tcp_check_ack p seg (TCP_FLG_ACK OR TCP_FLG_PSH) l f w = (True, w1)"
    using st by (cases "tcp_ack_common p seg w") (simp add: tcp_check_ack_def w1_def)
  with tcp_otherwise_passes [OF tcp_in_order_acceptable [OF ord], of "TCP_FLG_ACK OR TCP_FLG_PSH" mem len l f]
  show ?thesis
    using sel st by (cases "tcp_segment_text p seg mem len w1")
      (simp add: tcp_segment_arrives_def and_then_def tcp_check_fin_def)
qed

text \<open>The selection looks at endpoints and states only.\<close>

lemma tcp_select_loop_cong:
  "map (\<lambda>p. (tp_local p, tp_foreign p, tp_state p)) ps = map (\<lambda>p. (tp_local p, tp_foreign p, tp_state p)) ps' \<Longrightarrow>
     tcp_select_loop l f i c ps = tcp_select_loop l f i c ps'"
proof (induction l f i c ps arbitrary: ps' rule: tcp_select_loop.induct)
  case (2 l f i c p ps)
  then obtain p' ps'' where ps': "ps' = p' # ps''" "tp_local p = tp_local p'" "tp_foreign p = tp_foreign p'"
    "tp_state p = tp_state p'"
    "map (\<lambda>p. (tp_local p, tp_foreign p, tp_state p)) ps = map (\<lambda>p. (tp_local p, tp_foreign p, tp_state p)) ps''"
    by (auto simp: Cons_eq_map_conv)
  then show ?case using "2.IH" by (auto split: option.splits)
qed simp

lemma tcp_pcb_select_cong:
  assumes "length (tcp_pcbs w) = length (tcp_pcbs w')"
    and "\<And>q. tp_local (tcp_at q w') = tp_local (tcp_at q w) \<and> tp_foreign (tcp_at q w') = tp_foreign (tcp_at q w) \<and>
      tp_state (tcp_at q w') = tp_state (tcp_at q w)"
  shows "tcp_pcb_select l f (tcp_pcbs w') = tcp_pcb_select l f (tcp_pcbs w)"
  unfolding tcp_pcb_select_def
  by (rule tcp_select_loop_cong, rule nth_equalityI) (use assms in \<open>simp_all add: tcp_at_def\<close>)

lemma tcp_ok_ack_common: "tcp_ok w \<Longrightarrow> tcp_ok (snd (tcp_ack_common p seg w))"
  by (rule tcp_ok_forwards [OF tcp_forwards_ack_common])

lemma tcp_ack_common_only:
  assumes "tp_state (tcp_at p w) \<notin> {TCP_FIN_WAIT1, TCP_CLOSING}" and "p < length (tcp_pcbs w)"
    and "snd_una (tcp_at p w) \<le> seg_ack seg" "seg_ack seg \<le> snd_nxt (tcp_at p w)"
  shows "snd (tcp_ack_common p seg w) = w\<lparr>tcp_pcbs := tcp_pcbs (snd (tcp_ack_common p seg w))\<rparr>"
proof -
  have "\<not> snd_nxt (tcp_at p w) < seg_ack seg" using assms(4) by (simp add: not_less)
  with assms show ?thesis
    by (simp add: tcp_ack_common_def Let_def tcp_at_simps)
      (simp add: tcp_retransmit_queue_cleanup_def upd_tcp_def set_tcp_def)
qed

lemma tcp_taken_only:
  fixes p g
  assumes "w1 = w\<lparr>tcp_pcbs := tcp_pcbs w1\<rparr>" and "b \<longleftrightarrow> c"
  defines "v \<equiv> upd_tcp p g (if b then w1 else fault w1)"
  shows "v = w\<lparr>ub := ub w \<or> \<not> c, tcp_pcbs := tcp_pcbs v\<rparr>"
proof -
  obtain ps where w1: "w1 = w\<lparr>tcp_pcbs := ps\<rparr>" using assms(1) by blast
  show ?thesis using assms(2) by (cases w) (simp add: v_def w1 upd_tcp_def set_tcp_def fault_def)
qed

text \<open>What becomes of it, whether it fits the window or not.\<close>

lemma tcp_in_order_taken:
  fixes w :: "('d, 'm) tcp_state_scheme" and seg mem
  assumes est: "tcp_established p l f w" and ord: "tcp_in_order (tcp_at p w) len seg"
  defines "w1 \<equiv> snd (tcp_ack_common p seg w)"
  defines "w' \<equiv> tcp_segment_arrives seg (TCP_FLG_ACK OR TCP_FLG_PSH) mem len l f w"
  shows "tcp_ok w1" "p < 16" "w1 = w\<lparr>tcp_pcbs := tcp_pcbs w1\<rparr>" "0 < len"
    "tp_state (tcp_at p w1) \<in> {TCP_ESTABLISHED, TCP_FIN_WAIT1, TCP_FIN_WAIT2}"
    "w' = snd (tcp_segment_text p seg mem len w1)"
    "tcp_at p w' = tcp_copied seg mem len (8192 - unat (rcv_wnd (tcp_at p w))) (tcp_at p w1)"
    "q \<noteq> p \<Longrightarrow> tcp_at q w' = tcp_at q w"
    "seg_seq seg + ucast (seg_len seg) = rcv_nxt (tcp_at p w) + of_nat len"
    "c_taskid (tp_cond (tcp_at p w)) \<in> set (wakeups w')"
proof -
  have ok: "tcp_ok w" and sel: "tcp_pcb_select l (Some f) (tcp_pcbs w) = Some p"
    and st: "tp_state (tcp_at p w) = TCP_ESTABLISHED"
    using est by (simp_all add: tcp_established_def)
  show p: "p < 16" using tcp_pcb_select_bound [OF sel] tcp_okD(1) [OF ok] by simp
  then have pl: "p < length (tcp_pcbs w)" using tcp_okD(1) [OF ok] by simp
  have known: "tp_state (tcp_at p w) \<notin> {TCP_FIN_WAIT1, TCP_CLOSING}"
    "snd_una (tcp_at p w) \<le> seg_ack seg" "seg_ack seg \<le> snd_nxt (tcp_at p w)"
    using ord st by (simp_all add: tcp_in_order_def)
  note a = tcp_ack_common_known [OF pl known, folded w1_def]
  show ok1: "tcp_ok w1" unfolding w1_def using ok by (rule tcp_ok_ack_common)
  show "w1 = w\<lparr>tcp_pcbs := tcp_pcbs w1\<rparr>"
    unfolding w1_def by (rule tcp_ack_common_only [OF known(1) pl known(2,3)])
  show len: "0 < len" using ord by (simp add: tcp_in_order_def)
  show st1: "tp_state (tcp_at p w1) \<in> {TCP_ESTABLISHED, TCP_FIN_WAIT1, TCP_FIN_WAIT2}" using a(3) st by simp
  show w': "w' = snd (tcp_segment_text p seg mem len w1)"
    unfolding w'_def w1_def by (rule tcp_data_arrives [OF est ord])
  note b = tcp_text_state [OF ok1 p len st1, where seg = seg and mem = mem, folded w']
  show "tcp_at p w' = tcp_copied seg mem len (8192 - unat (rcv_wnd (tcp_at p w))) (tcp_at p w1)"
    using b(1) a(7) by simp
  show "q \<noteq> p \<Longrightarrow> tcp_at q w' = tcp_at q w" using b(2) a(2) by simp
  show "c_taskid (tp_cond (tcp_at p w)) \<in> set (wakeups w')" using b(3) a(11) by simp
  have "ucast (seg_len seg) = (of_nat len :: u32)"
    using ord by (simp add: tcp_in_order_def word_unat_eq_iff)
  then show "seg_seq seg + ucast (seg_len seg) = rcv_nxt (tcp_at p w) + of_nat len"
    using ord by (simp add: tcp_in_order_def)
qed

lemma tcp_in_order_appends:
  fixes w :: "('d, 'm) tcp_state_scheme" and seg
  assumes est: "tcp_established p l f w" and ord: "tcp_in_order (tcp_at p w) len seg"
    and len: "len \<le> length mem" "len \<le> unat (rcv_wnd (tcp_at p w))"
  defines "w' \<equiv> tcp_segment_arrives seg (TCP_FLG_ACK OR TCP_FLG_PSH) mem len l f w"
  shows "tcp_established p l f w'" "tcp_stream p w' = tcp_stream p w @ take len mem"
    "unat (rcv_wnd (tcp_at p w')) = unat (rcv_wnd (tcp_at p w)) - len"
proof -
  have ok: "tcp_ok w" and sel: "tcp_pcb_select l (Some f) (tcp_pcbs w) = Some p"
    and st: "tp_state (tcp_at p w) = TCP_ESTABLISHED"
    using est by (simp_all add: tcp_established_def)
  let ?w1 = "snd (tcp_ack_common p seg w)"
  note t = tcp_in_order_taken(1-5,9) [OF est ord]
    tcp_in_order_taken(6-8,10) [OF est ord, where mem = mem, folded w'_def]
  have p: "p < length (tcp_pcbs w)" using t(2) tcp_okD(1) [OF ok] by simp
  have known: "tp_state (tcp_at p w) \<notin> {TCP_FIN_WAIT1, TCP_CLOSING}"
    "snd_una (tcp_at p w) \<le> seg_ack seg" "seg_ack seg \<le> snd_nxt (tcp_at p w)"
    using ord st by (simp_all add: tcp_in_order_def)
  note a = tcp_ack_common_known [OF p known]
  have "len \<le> unat (rcv_wnd (tcp_at p ?w1))" using len(2) a(7) by simp
  note b = tcp_text_appends [OF t(1,2,5,4) this len(1), where seg = seg, folded t(7)]
  note copied = t(8) [unfolded tcp_copied_def]
  have "tp_local (tcp_at q w') = tp_local (tcp_at q w) \<and> tp_foreign (tcp_at q w') = tp_foreign (tcp_at q w) \<and>
      tp_state (tcp_at q w') = tp_state (tcp_at q w)" for q
    using t(9) [of q] a(3,9,10) by (cases "q = p") (simp_all add: copied)
  then have "tcp_pcb_select l (Some f) (tcp_pcbs w') = Some p"
    using sel tcp_pcb_select_cong [of w w' l "Some f"] tcp_okD(1) [OF ok] tcp_okD(1) [OF b(1)] by simp
  moreover have "snd_una (tcp_at p w') \<le> snd_nxt (tcp_at p w')"
    using a(4,5) ord by (simp add: copied tcp_in_order_def)
  ultimately show "tcp_established p l f w'"
    using a(3) b(1) st by (simp add: tcp_established_def copied)
  show "tcp_stream p w' = tcp_stream p w @ take len mem"
    using b(2) a(7,8) by (simp add: tcp_stream_def)
  show "unat (rcv_wnd (tcp_at p w')) = unat (rcv_wnd (tcp_at p w)) - len"
    using b(3) a(7) by simp
qed

section \<open>The receive buffer is a pipe\<close>

definition tcp_arrive ::
  "nat \<Rightarrow> endpoint \<Rightarrow> endpoint \<Rightarrow> u8 list \<Rightarrow> ('d, 'm) tcp_state_scheme \<Rightarrow> ('d, 'm) tcp_state_scheme" where
  "tcp_arrive p l f xs w =
     tcp_segment_arrives \<lparr>seg_seq = rcv_nxt (tcp_at p w), seg_ack = snd_una (tcp_at p w),
       seg_len = of_nat (length xs), seg_wnd = snd_wnd (tcp_at p w), seg_up = 0\<rparr>
       (TCP_FLG_ACK OR TCP_FLG_PSH) xs (length xs) l f w"

definition tcp_fits :: "nat \<Rightarrow> u8 list \<Rightarrow> ('d, 'm) tcp_state_scheme \<Rightarrow> bool" where
  "tcp_fits p xs w \<longleftrightarrow>
     xs \<noteq> [] \<and> length xs \<le> unat (rcv_wnd (tcp_at p w)) \<and>
     unat (rcv_nxt (tcp_at p w)) + unat (rcv_wnd (tcp_at p w)) < 2 ^ 32"

definition tcp_take ::
  "nat \<Rightarrow> nat \<Rightarrow> ('d, 'm) tcp_state_scheme \<Rightarrow> u8 list \<times> ('d, 'm) tcp_state_scheme" where
  "tcp_take p n w =
     (case tcp_receive (int p) n w of (Returns r, w') \<Rightarrow> (snd r, w') | (Blocks k, w') \<Rightarrow> ([], w'))"

lemma tcp_fits_in_order:
  assumes est: "tcp_established p l f w" and fits: "tcp_fits p xs w"
  shows "tcp_in_order (tcp_at p w) (length xs) \<lparr>seg_seq = rcv_nxt (tcp_at p w), seg_ack = snd_una (tcp_at p w),
       seg_len = of_nat (length xs), seg_wnd = snd_wnd (tcp_at p w), seg_up = 0\<rparr>"
proof -
  have "length xs < 65536" using fits unat_u16_bound [of "rcv_wnd (tcp_at p w)"] by (simp add: tcp_fits_def)
  with est fits show ?thesis by (auto simp: tcp_in_order_def tcp_fits_def tcp_established_def)
qed

lemma tcp_take_cases:
  fixes w :: "('d, 'm) tcp_state_scheme"
  assumes est: "tcp_established p l f w"
  shows "tcp_established p l f (snd (tcp_take p n w))" "fst (tcp_take p n w) = take n (tcp_stream p w)"
    "tcp_stream p (snd (tcp_take p n w)) = drop n (tcp_stream p w)"
proof -
  have ok: "tcp_ok w" and sel: "tcp_pcb_select l (Some f) (tcp_pcbs w) = Some p"
    and st: "tp_state (tcp_at p w) = TCP_ESTABLISHED"
    using est by (simp_all add: tcp_established_def)
  have p: "p < 16" using tcp_pcb_select_bound [OF sel] tcp_okD(1) [OF ok] by simp
  have get: "tcp_pcb_get (int p) (tcp_pcbs w) = Some p" using p st by (intro tcp_pcb_get_at) simp_all
  have pcb: "unat (rcv_wnd (tcp_at p w)) \<le> 8192" "length (tp_buf (tcp_at p w)) = 8192"
    using tcp_okD(3) [OF ok p] by (simp_all add: tcp_pcb_ok_def tcp_pcb_shape_def)
  let ?r = "tcp_receive_retry p n w"
  have r: "tcp_receive (int p) n w = ?r" by (simp add: tcp_receive_def get)
  have keeps: "tcp_established p l f (snd ?r)"
    if "\<And>q. q \<noteq> p \<Longrightarrow> tcp_at q (snd ?r) = tcp_at q w" "tp_state (tcp_at p (snd ?r)) = tp_state (tcp_at p w)"
      "tp_local (tcp_at p (snd ?r)) = tp_local (tcp_at p w)" "tp_foreign (tcp_at p (snd ?r)) = tp_foreign (tcp_at p w)"
      "snd_una (tcp_at p (snd ?r)) = snd_una (tcp_at p w)" "snd_nxt (tcp_at p (snd ?r)) = snd_nxt (tcp_at p w)"
  proof -
    have ok': "tcp_ok (snd ?r)" using tcp_ok_quiet [OF tcp_quiet_receive(1) ok, of "int p" n] by (simp add: r)
    have "tp_local (tcp_at q (snd ?r)) = tp_local (tcp_at q w) \<and> tp_foreign (tcp_at q (snd ?r)) = tp_foreign (tcp_at q w) \<and>
      tp_state (tcp_at q (snd ?r)) = tp_state (tcp_at q w)" for q
      using that by (cases "q = p") simp_all
    then have "tcp_pcb_select l (Some f) (tcp_pcbs (snd ?r)) = Some p"
      using sel tcp_pcb_select_cong [of w "snd ?r" l "Some f"] tcp_okD(1) [OF ok] tcp_okD(1) [OF ok'] by simp
    with that ok' est show ?thesis by (simp add: tcp_established_def)
  qed
  show "tcp_established p l f (snd (tcp_take p n w))" "fst (tcp_take p n w) = take n (tcp_stream p w)"
    "tcp_stream p (snd (tcp_take p n w)) = drop n (tcp_stream p w)"
  proof (atomize (full), cases "tcp_stream p w = []")
    case True
    then have "size_sub TCP_BUF_SIZE (unat (rcv_wnd (tcp_at p w))) = 0"
      using pcb by (auto simp: tcp_stream_def TCP_BUF_SIZE_def)
    then have s: "?r = (Blocks p, tcp_sleep p w)" using st by (simp add: tcp_receive_retry_def Let_def)
    have at: "tcp_at q (tcp_sleep p w) = (if q = p then (tcp_at p w)\<lparr>tp_cond := cond_sleep (cur_task w) (tp_cond (tcp_at p w))\<rparr>
        else tcp_at q w)" for q
      using p tcp_okD(1) [OF ok] by (simp add: tcp_sleep_def tcp_at_upd)
    have "tcp_established p l f (tcp_sleep p w)" using keeps unfolding s by (simp add: at)
    with True show "tcp_established p l f (snd (tcp_take p n w)) \<and> fst (tcp_take p n w) = take n (tcp_stream p w) \<and>
        tcp_stream p (snd (tcp_take p n w)) = drop n (tcp_stream p w)"
      by (simp add: tcp_take_def r s) (simp add: tcp_stream_def at)
  next
    case False
    have "tp_state (tcp_at p w) \<in> {TCP_ESTABLISHED, TCP_FIN_WAIT1, TCP_FIN_WAIT2, TCP_CLOSE_WAIT}" using st by simp
    note c = tcp_receive_takes [OF ok p this False, where sz = n]
    have "tcp_established p l f (snd ?r)" by (rule keeps) (use c in simp_all)
    with c(1,2) show "tcp_established p l f (snd (tcp_take p n w)) \<and> fst (tcp_take p n w) = take n (tcp_stream p w) \<and>
        tcp_stream p (snd (tcp_take p n w)) = drop n (tcp_stream p w)"
      by (cases ?r) (simp add: tcp_take_def r)
  qed
qed

interpretation tcp_pipe: byte_pipe "tcp_established p l f" "tcp_stream p" "tcp_fits p" "tcp_arrive p l f" "tcp_take p"
  for p l f
proof
  fix w :: "('d, 'm) tcp_state_scheme" and xs
  assume est: "tcp_established p l f w" and fits: "tcp_fits p xs w"
  then have "length xs \<le> unat (rcv_wnd (tcp_at p w))" by (simp add: tcp_fits_def)
  note a = tcp_in_order_appends [OF est tcp_fits_in_order [OF est fits] order_refl this]
  show "tcp_established p l f (tcp_arrive p l f xs w)" "tcp_stream p (tcp_arrive p l f xs w) = tcp_stream p w @ xs"
    using a(1,2) by (simp_all add: tcp_arrive_def)
qed (rule tcp_take_cases; assumption)+

section \<open>Claims\<close>

text \<open>
  C12: a data segment at the left edge of the receive window of an established connection moves
  the expected sequence number and the window by its length, wakes the task that waits, and is
  acknowledged: an empty ACK with the new sequence number and the new window is handed to IP, and
  nothing else is done. If its data fits the window, it is appended to the bytes that wait to be
  received; if not, it is written past the end of the buffer all the same, since nothing compares
  the two, and the window wraps around above the size of the buffer.
\<close>

theorem tcp_in_order_segment:
  fixes w :: "('d, 'm) tcp_state_scheme" and seg
  assumes est: "tcp_established p l f w" and ord: "tcp_in_order (tcp_at p w) len seg"
    and mem: "len \<le> length mem"
  shows "let a = tcp_at p w; fits = (len \<le> unat (rcv_wnd a));
      ack = tcp_segment (snd_nxt a) (rcv_nxt a + of_nat len) TCP_FLG_ACK (rcv_wnd a - of_nat len) []
              (tp_local a) (tp_foreign a);
      w' = tcp_segment_arrives seg (TCP_FLG_ACK OR TCP_FLG_PSH) mem len l f w
    in (\<exists>v. v = w\<lparr>ub := ub w \<or> \<not> fits, tcp_pcbs := tcp_pcbs v\<rparr> \<and>
          w' = tcp_wakeup p (snd (ip_output IP_PROTOCOL_TCP ack (ep_addr (tp_local a)) (ep_addr (tp_foreign a)) v))) \<and>
       tp_state (tcp_at p w') = TCP_ESTABLISHED \<and> c_taskid (tp_cond a) \<in> set (wakeups w') \<and>
       rcv_nxt (tcp_at p w') = rcv_nxt a + of_nat len \<and> rcv_wnd (tcp_at p w') = rcv_wnd a - of_nat len \<and>
       (if fits
        then tcp_stream p w' = tcp_stream p w @ take len mem \<and>
          unat (rcv_wnd (tcp_at p w')) = unat (rcv_wnd a) - len
        else ub w' \<and> unat (rcv_wnd (tcp_at p w')) = 65536 + unat (rcv_wnd a) - len)"
proof -
  let ?w1 = "snd (tcp_ack_common p seg w)"
  let ?a = "tcp_at p w" and ?a1 = "tcp_at p ?w1" and ?w' = "tcp_segment_arrives seg (TCP_FLG_ACK OR TCP_FLG_PSH) mem len l f w"
  let ?ack = "tcp_segment (snd_nxt ?a) (rcv_nxt ?a + of_nat len) TCP_FLG_ACK (rcv_wnd ?a - of_nat len) []
    (tp_local ?a) (tp_foreign ?a)"
  have ok: "tcp_ok w" and st: "tp_state ?a = TCP_ESTABLISHED" using est by (auto simp: tcp_established_def)
  note t = tcp_in_order_taken(1-5,9) [OF est ord] tcp_in_order_taken(6-8,10) [OF est ord, where mem = mem]
  have p: "p < length (tcp_pcbs w)" "p < length (tcp_pcbs ?w1)"
    using t(2) tcp_okD(1) [OF ok] tcp_okD(1) [OF t(1)] by simp_all
  have known: "tp_state ?a \<notin> {TCP_FIN_WAIT1, TCP_CLOSING}" "snd_una ?a \<le> seg_ack seg" "seg_ack seg \<le> snd_nxt ?a"
    using ord st by (simp_all add: tcp_in_order_def)
  note a = tcp_ack_common_known [OF p(1) known]
  have wnd: "unat (rcv_wnd ?a) \<le> 8192" using tcp_okD(3) [OF ok t(2)] by (simp add: tcp_pcb_ok_def)
  then have fits: "tcp_text_fits ?a1 mem len \<longleftrightarrow> len \<le> unat (rcv_wnd ?a)"
    using mem a(7) by (auto simp: tcp_text_fits_def TCP_BUF_SIZE_def)
  define v where "v = upd_tcp p (tcp_copied seg mem len (size_sub TCP_BUF_SIZE (unat (rcv_wnd ?a1))))
    (if tcp_text_fits ?a1 mem len then ?w1 else fault ?w1)"
  have "v = w\<lparr>ub := ub w \<or> \<not> len \<le> unat (rcv_wnd ?a), tcp_pcbs := tcp_pcbs v\<rparr>"
    unfolding v_def by (rule tcp_taken_only [OF t(3) fits])
  moreover have "?w' = tcp_wakeup p (snd (ip_output IP_PROTOCOL_TCP ?ack (ep_addr (tp_local ?a)) (ep_addr (tp_foreign ?a)) v))"
    using tcp_text_acks [OF p(2) t(4,5), of seg mem] a t(7) by (simp add: v_def t(6))
  ultimately have ack: "\<exists>v. v = w\<lparr>ub := ub w \<or> \<not> len \<le> unat (rcv_wnd ?a), tcp_pcbs := tcp_pcbs v\<rparr> \<and>
      ?w' = tcp_wakeup p (snd (ip_output IP_PROTOCOL_TCP ?ack (ep_addr (tp_local ?a)) (ep_addr (tp_foreign ?a)) v))"
    by blast
  have at: "tp_state (tcp_at p ?w') = TCP_ESTABLISHED" "rcv_nxt (tcp_at p ?w') = rcv_nxt ?a + of_nat len"
    "rcv_wnd (tcp_at p ?w') = rcv_wnd ?a - of_nat len"
    using a(3,7) st t(6) by (simp_all add: t(8) tcp_copied_def)
  show ?thesis
  proof (cases "len \<le> unat (rcv_wnd ?a)")
    case True
    with ack at t(10) tcp_in_order_appends(2,3) [OF est ord mem True] show ?thesis by (simp add: Let_def)
  next
    case False
    have "ub ?w'" using tcp_text_state(4) [OF t(1,2,4,5)] fits False t(7) by simp
    moreover have "unat (rcv_wnd ?a - of_nat len) = 65536 + unat (rcv_wnd ?a) - len"
      using False ord by (simp add: unat_sub_if_size word_size tcp_in_order_def word_le_nat_alt)
    ultimately show ?thesis using ack at t(10) False by (simp add: Let_def)
  qed
qed

text \<open>A sample connection.\<close>

definition tcp_sample_pcb :: "u32 \<Rightarrow> u16 \<Rightarrow> u32 \<Rightarrow> u16 \<Rightarrow> tcp_pcb" where
  "tcp_sample_pcb nxt wnd una peer =
     zero_tcp_pcb\<lparr>tp_state := TCP_ESTABLISHED, tp_mode := TCP_PCB_MODE_SOCKET,
       tp_local := \<lparr>ep_addr = 2, ep_port = 5\<rparr>, tp_foreign := \<lparr>ep_addr = 3, ep_port = 80\<rparr>,
       rcv_nxt := nxt, rcv_wnd := wnd, snd_una := una, snd_nxt := una, snd_wnd := peer\<rparr>"

lemma tcp_sample_established:
  assumes "unat wnd \<le> 8192"
  shows "tcp_established 0 \<lparr>ep_addr = 2, ep_port = 5\<rparr> \<lparr>ep_addr = 3, ep_port = 80\<rparr>
      (tcp_host1 (tcp_sample_pcb nxt wnd una peer))"
    "tcp_at 0 (tcp_host1 (tcp_sample_pcb nxt wnd una peer)) = tcp_sample_pcb nxt wnd una peer"
proof -
  have pcb: "tcp_pcb_ok (tcp_sample_pcb nxt wnd una peer)"
    using assms by (simp add: tcp_sample_pcb_def)
      (simp add: tcp_pcb_ok_def tcp_pcb_shape_def zero_tcp_pcb_def TCP_BUF_SIZE_def)
  note h = tcp_host1_facts [OF pcb]
  show at: "tcp_at 0 (tcp_host1 (tcp_sample_pcb nxt wnd una peer)) = tcp_sample_pcb nxt wnd una peer" by (rule h(3))
  have "tcp_pcb_select \<lparr>ep_addr = 2, ep_port = 5\<rparr> (Some \<lparr>ep_addr = 3, ep_port = 80\<rparr>)
      (tcp_pcbs (tcp_host1 (tcp_sample_pcb nxt wnd una peer))) = Some 0"
    by (rule h(7)) (simp_all add: tcp_exact_def tcp_local_match_def tcp_sample_pcb_def)
  with h(1) show "tcp_established 0 \<lparr>ep_addr = 2, ep_port = 5\<rparr> \<lparr>ep_addr = 3, ep_port = 80\<rparr>
      (tcp_host1 (tcp_sample_pcb nxt wnd una peer))"
    by (simp add: tcp_established_def at) (simp add: tcp_sample_pcb_def)
qed

theorem tcp_in_order_segment_witness:
  "tcp_stream 0 (tcp_segment_arrives \<lparr>seg_seq = 100, seg_ack = 7, seg_len = 3, seg_wnd = 50, seg_up = 0\<rparr>
     (TCP_FLG_ACK OR TCP_FLG_PSH) [11, 12, 13] 3 \<lparr>ep_addr = 2, ep_port = 5\<rparr> \<lparr>ep_addr = 3, ep_port = 80\<rparr>
     (tcp_host1 (tcp_sample_pcb 100 8192 7 50))) = [11, 12, 13] \<and>
   ub (tcp_segment_arrives \<lparr>seg_seq = 100, seg_ack = 7, seg_len = 3, seg_wnd = 50, seg_up = 0\<rparr>
     (TCP_FLG_ACK OR TCP_FLG_PSH) [11, 12, 13] 3 \<lparr>ep_addr = 2, ep_port = 5\<rparr> \<lparr>ep_addr = 3, ep_port = 80\<rparr>
     (tcp_host1 (tcp_sample_pcb 100 2 7 50)))"
proof -
  let ?seg = "\<lparr>seg_seq = 100, seg_ack = 7, seg_len = 3, seg_wnd = 50, seg_up = 0\<rparr>"
  have e: "unat (8192 :: u16) \<le> 8192" "unat (2 :: u16) \<le> 8192" by simp_all
  note s = tcp_sample_established [OF e(1), of 100 7 50] tcp_sample_established [OF e(2), of 100 7 50]
  have f: "tcp_in_order (tcp_at 0 (tcp_host1 (tcp_sample_pcb 100 wnd 7 50))) 3 ?seg"
    if "unat wnd \<le> 8192" "wnd \<noteq> 0" for wnd
    using that tcp_sample_established(2) [OF that(1)] by (simp add: tcp_in_order_def tcp_sample_pcb_def)
  have f1: "tcp_in_order (tcp_at 0 (tcp_host1 (tcp_sample_pcb 100 8192 7 50))) 3 ?seg"
    and f2: "tcp_in_order (tcp_at 0 (tcp_host1 (tcp_sample_pcb 100 2 7 50))) 3 ?seg"
    by (rule f; simp)+
  have str: "tcp_stream 0 (tcp_host1 (tcp_sample_pcb 100 8192 7 50)) = []"
    by (simp add: tcp_stream_def s(2)) (simp add: tcp_sample_pcb_def)
  have w: "rcv_wnd (tcp_sample_pcb 100 wnd 7 50) = wnd" for wnd by (simp add: tcp_sample_pcb_def)
  show ?thesis
    using tcp_in_order_segment [OF s(1) f1, of "[11, 12, 13]"] tcp_in_order_segment [OF s(3) f2, of "[11, 12, 13]"]
    by (simp add: Let_def str s(2,4) w)
qed

text \<open>
  C13: whatever the order in which data segments arrive at an established connection, each at
  the left edge and within the window, and calls of \<^verbatim>\<open>tcp_receive\<close> with buffers of any size take
  them: the bytes received, followed by the bytes still waiting, are the bytes that waited at
  first and those that arrived, each once and in order.
\<close>

theorem tcp_stream_fifo:
  fixes w :: "('d, 'm) tcp_state_scheme"
  assumes "tcp_established p l f w" and "pipe_fits (tcp_fits p) (tcp_arrive p l f) (tcp_take p) ops w"
  shows "fst (pipe_run (tcp_arrive p l f) (tcp_take p) ops w) @
      tcp_stream p (snd (pipe_run (tcp_arrive p l f) (tcp_take p) ops w)) = tcp_stream p w @ pipe_puts ops"
  using assms by (rule tcp_pipe.fifo)

theorem tcp_stream_fifo_witness:
  "let r = pipe_run (tcp_arrive 0 \<lparr>ep_addr = 2, ep_port = 5\<rparr> \<lparr>ep_addr = 3, ep_port = 80\<rparr>) (tcp_take 0)
       [Put [11, 12, 13], Get 2, Get 8] (tcp_host1 (tcp_sample_pcb 100 8192 7 50))
   in fst r @ tcp_stream 0 (snd r) = [11, 12, 13]"
proof -
  have "unat (8192 :: u16) \<le> 8192" by simp
  note s = tcp_sample_established [OF this, of 100 7 50]
  have str: "tcp_stream 0 (tcp_host1 (tcp_sample_pcb 100 8192 7 50)) = []"
    by (simp add: tcp_stream_def s(2)) (simp add: tcp_sample_pcb_def)
  have fits: "pipe_fits (tcp_fits 0) (tcp_arrive 0 \<lparr>ep_addr = 2, ep_port = 5\<rparr> \<lparr>ep_addr = 3, ep_port = 80\<rparr>)
      (tcp_take 0) [Put [11, 12, 13], Get 2, Get 8] (tcp_host1 (tcp_sample_pcb 100 8192 7 50))"
    by (simp add: tcp_fits_def s(2)) (simp add: tcp_sample_pcb_def)
  from tcp_stream_fifo [OF s(1) fits] show ?thesis by (simp only: Let_def str pipe_puts.simps append.simps)
qed

text \<open>
  C9: the table of control blocks stays well-formed: sixteen blocks, each with a buffer of
  8192 bytes and a receive window that is within it, and with links to blocks of the table
  only; whatever the allocator answers, also for commands continued after their task was woken,
  and whatever segments arrive, as long as no undefined access happened: a segment longer than
  the window, which is written past the end of the buffer (C12), breaks the bound on the window.
\<close>

theorem tcp_table_kept:
  assumes "tcp_ok w"
  shows "(\<not> ub (tcp_input mem len src dst iface w) \<longrightarrow> tcp_ok (tcp_input mem len src dst iface w)) \<and>
    tcp_ok (tcp_timer w) \<and>
    tcp_ok (snd (tcp_open w)) \<and> tcp_ok (snd (tcp_open_rfc793 local remote active w)) \<and>
    tcp_ok (snd (tcp_open_woken k w)) \<and> tcp_ok (snd (tcp_connect i foreign w)) \<and>
    tcp_ok (snd (tcp_bind i local w)) \<and> tcp_ok (snd (tcp_listen i w)) \<and>
    tcp_ok (snd (tcp_accept i w)) \<and> tcp_ok (snd (tcp_accept_woken p w)) \<and>
    (\<forall>r. tcp_send i data w = Some r \<longrightarrow> tcp_ok (snd r)) \<and>
    (\<forall>r. tcp_send_woken data j w = Some r \<longrightarrow> tcp_ok (snd r)) \<and>
    tcp_ok (snd (tcp_receive i sz w)) \<and> tcp_ok (snd (tcp_receive_woken sz p w)) \<and>
    tcp_ok (snd (tcp_close i w))"
  using assms tcp_mayD(4) [OF tcp_may_input tcp_ok_shape [OF assms] assms]
  by (auto simp: tcp_ops_ok intro: tcp_send_ok)

text \<open>The sample connection is closed.\<close>

lemma tcp_sample_close:
  "tcp_ok (tcp_host1 (tcp_sample_pcb 100 8192 7 50))"
  "tp_state (tcp_at 0 (tcp_host1 (tcp_sample_pcb 100 8192 7 50))) = TCP_ESTABLISHED"
  "tcp_pcb_get 0 (tcp_pcbs (tcp_host1 (tcp_sample_pcb 100 8192 7 50))) = Some 0"
  "tp_mode (tcp_at 0 (tcp_host1 (tcp_sample_pcb 100 8192 7 50))) = TCP_PCB_MODE_SOCKET"
  "tp_state (tcp_at 0 (snd (tcp_close 0 (tcp_host1 (tcp_sample_pcb 100 8192 7 50))))) = TCP_FIN_WAIT1"
proof -
  let ?w = "tcp_host1 (tcp_sample_pcb 100 8192 7 50)"
  have "unat (8192 :: u16) \<le> 8192" by simp
  note s = tcp_sample_established [OF this, of 100 7 50]
  show ok: "tcp_ok ?w" and st: "tp_state (tcp_at 0 ?w) = TCP_ESTABLISHED"
    using s(1) by (simp_all add: tcp_established_def)
  show mode: "tp_mode (tcp_at 0 ?w) = TCP_PCB_MODE_SOCKET" by (simp add: s(2)) (simp add: tcp_sample_pcb_def)
  have get: "tcp_pcb_get (int 0) (tcp_pcbs ?w) = Some 0"
    using st tcp_okD(1) [OF ok] by (intro tcp_pcb_get_at) simp_all
  then show "tcp_pcb_get 0 (tcp_pcbs ?w) = Some 0" by simp
  have "arp_inv ?w" using tcp_okD(2) [OF ok] .
  then show "tp_state (tcp_at 0 (snd (tcp_close 0 ?w))) = TCP_FIN_WAIT1"
    using get st mode tcp_okD(1) [OF ok]
    by (simp add: tcp_close_def tcp_send_fin_def tcp_at_simps)
qed

theorem tcp_table_kept_witness:
  "let w' = snd (tcp_close 0 (tcp_host1 (tcp_sample_pcb 100 8192 7 50)))
   in tp_state (tcp_at 0 w') = TCP_FIN_WAIT1 \<and> tcp_ok w'"
  using tcp_table_kept [OF tcp_sample_close(1)] tcp_sample_close(5) by (simp add: Let_def)

text \<open>
  C10: the state of every block moves forward along the diagram of RFC 793, which has no
  cycle, or to CLOSED or FREE, whatever segments arrive and whatever the timer and the commands
  do, with two exceptions: \<^verbatim>\<open>tcp_connect\<close> and \<^verbatim>\<open>tcp_listen\<close> do not look at the state of the block
  they are called for and put it into SYN_SENT and LISTEN, also when a connection is already
  open there, so that it goes back; all other blocks move forward with these, too.
\<close>

definition tcp_moves_on :: "tcp_pcb_state \<Rightarrow> tcp_pcb_state \<Rightarrow> bool" where
  "tcp_moves_on a b \<longleftrightarrow>
     b = a \<or> tcp_edge\<^sup>+\<^sup>+ a b \<and> tcp_rank a < tcp_rank b \<or> b \<in> {TCP_CLOSED, TCP_FREE}"

lemma tcp_advance_moves_on: "tcp_advance a b \<Longrightarrow> tcp_moves_on a b"
  using tcp_forward_rank [of a b] unfolding tcp_advance_def tcp_moves_on_def tcp_forward_def
  by (metis insertCI rtranclpD)

lemma tcp_puts_moves_on:
  assumes "\<And>p. tcp_pcb_get i (tcp_pcbs w) = Some p \<Longrightarrow> tcp_evolves (tcp_puts p st) w w'"
    and "tcp_pcb_get i (tcp_pcbs w) = None \<Longrightarrow> w' = w" and "tcp_shape w" "q < 16"
  shows "tcp_moves_on (tp_state (tcp_at q w)) (tp_state (tcp_at q w')) \<or>
    tcp_pcb_get i (tcp_pcbs w) = Some q \<and> tp_state (tcp_at q w') = st"
proof (cases "tcp_pcb_get i (tcp_pcbs w)")
  case (Some p)
  from tcp_evolvesD(3) [OF assms(1) [OF this] assms(3,4)] Some show ?thesis
    by (auto simp: tcp_puts_def tcp_reset_def tcp_moves_on_def)
qed (use assms(2) in \<open>simp add: tcp_moves_on_def\<close>)

theorem tcp_states_advance:
  assumes ok: "tcp_ok w" and q: "q < 16"
  shows "(w' \<in> {tcp_input mem len src dst iface w, tcp_timer w, snd (tcp_open w),
        snd (tcp_open_rfc793 local remote active w), snd (tcp_open_woken k w), snd (tcp_bind i local w),
        snd (tcp_accept i w), snd (tcp_accept_woken p w), snd (tcp_receive i sz w),
        snd (tcp_receive_woken sz p w), snd (tcp_close i w)} \<or>
      tcp_send i data w = Some (r, w') \<or> tcp_send_woken data j w = Some (r, w') \<longrightarrow>
      tcp_moves_on (tp_state (tcp_at q w)) (tp_state (tcp_at q w'))) \<and>
    (let w' = snd (tcp_connect i foreign w)
     in tcp_moves_on (tp_state (tcp_at q w)) (tp_state (tcp_at q w')) \<or>
        tcp_pcb_get i (tcp_pcbs w) = Some q \<and> tp_state (tcp_at q w') = TCP_SYN_SENT) \<and>
    (let w' = snd (tcp_listen i w)
     in tcp_moves_on (tp_state (tcp_at q w)) (tp_state (tcp_at q w')) \<or>
        tcp_pcb_get i (tcp_pcbs w) = Some q \<and> tp_state (tcp_at q w') = TCP_LISTEN) \<and>
    (tcp_pcb_get i (tcp_pcbs w) = Some q \<and> tp_mode (tcp_at q w) = TCP_PCB_MODE_SOCKET \<longrightarrow>
      tp_state (tcp_at q (snd (tcp_listen i w))) = TCP_LISTEN)"
proof -
  have "tcp_advances w w' \<or> w' = tcp_input mem len src dst iface w"
    if "w' \<in> {tcp_input mem len src dst iface w, tcp_timer w, snd (tcp_open w),
        snd (tcp_open_rfc793 local remote active w), snd (tcp_open_woken k w), snd (tcp_bind i local w),
        snd (tcp_accept i w), snd (tcp_accept_woken p w), snd (tcp_receive i sz w),
        snd (tcp_receive_woken sz p w), snd (tcp_close i w)} \<or>
      tcp_send i data w = Some (r, w') \<or> tcp_send_woken data j w = Some (r, w')"
    using that
    by (auto simp: evolves tcp_quiet_advances tcp_forwards_advances tcp_resets_advances intro: tcp_send_advances)
  then have on: "tcp_moves_on (tp_state (tcp_at q w)) (tp_state (tcp_at q w'))"
    if "w' \<in> {tcp_input mem len src dst iface w, tcp_timer w, snd (tcp_open w),
        snd (tcp_open_rfc793 local remote active w), snd (tcp_open_woken k w), snd (tcp_bind i local w),
        snd (tcp_accept i w), snd (tcp_accept_woken p w), snd (tcp_receive i sz w),
        snd (tcp_receive_woken sz p w), snd (tcp_close i w)} \<or>
      tcp_send i data w = Some (r, w') \<or> tcp_send_woken data j w = Some (r, w')"
    using that tcp_advancesD [OF _ tcp_ok_shape [OF ok] q] tcp_mayD(3) [OF tcp_may_input tcp_ok_shape [OF ok] q]
    by (blast intro: tcp_advance_moves_on)
  have "tcp_pcb_get i (tcp_pcbs w) = None \<Longrightarrow> snd (tcp_connect i foreign w) = w"
    "tcp_pcb_get i (tcp_pcbs w) = None \<Longrightarrow> snd (tcp_listen i w) = w"
    by (simp_all add: tcp_connect_def tcp_listen_def)
  note puts = tcp_puts_moves_on [OF tcp_puts_connect this(1) tcp_ok_shape [OF ok] q]
    tcp_puts_moves_on [OF tcp_puts_listen this(2) tcp_ok_shape [OF ok] q]
  have "tp_state (tcp_at q (snd (tcp_listen i w))) = TCP_LISTEN"
    if "tcp_pcb_get i (tcp_pcbs w) = Some q" "tp_mode (tcp_at q w) = TCP_PCB_MODE_SOCKET"
    using that q tcp_okD(1) [OF ok] by (simp add: tcp_listen_def tcp_at_simps)
  with on puts show ?thesis unfolding Let_def by blast
qed

theorem tcp_states_advance_witness:
  "let w = tcp_host1 (tcp_sample_pcb 100 8192 7 50)
   in tp_state (tcp_at 0 w) = TCP_ESTABLISHED \<and>
      tp_state (tcp_at 0 (snd (tcp_close 0 w))) = TCP_FIN_WAIT1 \<and> tcp_edge\<^sup>+\<^sup>+ TCP_ESTABLISHED TCP_FIN_WAIT1 \<and>
      tp_state (tcp_at 0 (snd (tcp_listen 0 w))) = TCP_LISTEN \<and> \<not> tcp_moves_on TCP_ESTABLISHED TCP_LISTEN"
proof -
  let ?w = "tcp_host1 (tcp_sample_pcb 100 8192 7 50)"
  note s = tcp_sample_close
  have "tcp_moves_on TCP_ESTABLISHED TCP_FIN_WAIT1"
    using tcp_states_advance [OF s(1), of 0 "snd (tcp_close 0 ?w)" _ _ _ _ _ _ _ _ _ 0] s(2,5) by simp
  moreover have "tp_state (tcp_at 0 (snd (tcp_listen 0 ?w))) = TCP_LISTEN"
    using tcp_states_advance [OF s(1), of 0 ?w _ _ _ _ _ _ _ _ _ 0] s(3,4) by simp
  ultimately show ?thesis using s(2,5) by (simp add: Let_def tcp_moves_on_def)
qed

end
