(* ===== verification/TcpSend.thy ===== *)
theory TcpSend
  imports TcpData
begin

text \<open>
  Sending and releasing: the segments \<^verbatim>\<open>tcp_send\<close> cuts the data into (as lists: \<open>chunks\<close>,
  \<open>tcp_pieces\<close>), their retransmission,
  and the blocks \<^verbatim>\<open>tcp_pcb_release\<close> frees.
\<close>

section \<open>Segments of the data\<close>

text \<open>The sequence numbers of the entries follow each other from \<open>s\<close> on.\<close>

fun tcp_chain :: "u32 \<Rightarrow> tcp_queue_entry list \<Rightarrow> bool" where
  "tcp_chain s [] \<longleftrightarrow> True"
| "tcp_chain s (e # es) \<longleftrightarrow> tq_seq e = s \<and> tcp_chain (s + of_nat (length (tq_data e))) es"

lemma tcp_chain_append:
  "tcp_chain s (es @ fs) \<longleftrightarrow> tcp_chain s es \<and> tcp_chain (s + of_nat (length (concat (map tq_data es)))) fs"
  by (induction es arbitrary: s) (simp_all add: add.assoc)

text \<open>
  The block has sent \<open>bs\<close>: the segments are in the retransmission queue and cover \<open>bs\<close>, the
  next sequence number is that after \<open>bs\<close>, and the bytes in flight are within the window.
\<close>

definition tcp_in_flight :: "tcp_pcb \<Rightarrow> nat" where
  "tcp_in_flight pcb = unat (snd_nxt pcb - snd_una pcb)"

definition tcp_piece :: "nat \<Rightarrow> tcp_queue_entry \<Rightarrow> bool" where
  "tcp_piece mss e \<longleftrightarrow>
     tq_flg e = TCP_FLG_ACK OR TCP_FLG_PSH \<and> tq_rto e = TCP_DEFAULT_RTO \<and>
     0 < length (tq_data e) \<and> length (tq_data e) \<le> mss"

definition tcp_sent :: "nat \<Rightarrow> u8 list \<Rightarrow> tcp_pcb \<Rightarrow> tcp_pcb \<Rightarrow> bool" where
  "tcp_sent mss bs a b \<longleftrightarrow>
     (\<exists>es. tp_queue b = tp_queue a @ es \<and> tcp_chain (snd_nxt a) es \<and> concat (map tq_data es) = bs \<and>
        (\<forall>e \<in> set es. tcp_piece mss e)) \<and>
     snd_nxt b = snd_nxt a + of_nat (length bs) \<and> snd_una b = snd_una a \<and> snd_wnd b = snd_wnd a \<and>
     tp_state b = tp_state a \<and> tcp_in_flight b \<le> unat (snd_wnd b)"

lemma tcp_sentD: "tcp_sent mss bs a b \<Longrightarrow> tcp_in_flight b \<le> unat (snd_wnd b)"
  unfolding tcp_sent_def by blast

lemma tcp_sent_trans:
  assumes "tcp_sent mss xs a b" and "tcp_sent mss ys b c"
  shows "tcp_sent mss (xs @ ys) a c"
proof -
  obtain es fs where es: "tp_queue b = tp_queue a @ es" "tcp_chain (snd_nxt a) es" "concat (map tq_data es) = xs"
      "\<forall>e \<in> set es. tcp_piece mss e"
    and fs: "tp_queue c = tp_queue b @ fs" "tcp_chain (snd_nxt b) fs" "concat (map tq_data fs) = ys"
      "\<forall>e \<in> set fs. tcp_piece mss e"
    using assms unfolding tcp_sent_def by blast
  have "snd_wnd c = snd_wnd a" "tcp_in_flight c \<le> unat (snd_wnd c)" using assms unfolding tcp_sent_def by metis+
  then have n: "snd_nxt b = snd_nxt a + of_nat (length xs)"
    "snd_nxt c = snd_nxt a + of_nat (length (xs @ ys)) \<and> snd_una c = snd_una a \<and> snd_wnd c = snd_wnd a \<and>
     tp_state c = tp_state a \<and> tcp_in_flight c \<le> unat (snd_wnd c)"
    using assms by (simp_all add: tcp_sent_def add.assoc)
  have "tp_queue c = tp_queue a @ (es @ fs)" "concat (map tq_data (es @ fs)) = xs @ ys"
      "\<forall>e \<in> set (es @ fs). tcp_piece mss e"
    using es fs by auto
  moreover have "tcp_chain (snd_nxt a) (es @ fs)" using es fs n(1) by (simp add: tcp_chain_append)
  ultimately show ?thesis using n(2) unfolding tcp_sent_def by blast
qed

text \<open>With memory at hand, the segment is queued.\<close>

lemma tcp_output_queues:
  fixes w :: "('d, 'm) tcp_state_scheme" and p and data
  assumes arp: "arp_inv w" and mem: "\<And>k. alloc_ok w k" and data: "data \<noteq> []"
  defines "w1 \<equiv> snd (tcp_output p (TCP_FLG_ACK OR TCP_FLG_PSH) data w)"
  shows "tcp_pcbs w1 = (tcp_pcbs w)[p := (tcp_at p w)\<lparr>tp_queue := tp_queue (tcp_at p w) @
      [\<lparr>tq_first = gettimeofday w, tq_last = gettimeofday w, tq_rto = TCP_DEFAULT_RTO,
        tq_seq = snd_nxt (tcp_at p w), tq_flg = TCP_FLG_ACK OR TCP_FLG_PSH, tq_data = data\<rparr>]\<rparr>]"
    "alloc_ok w1 = alloc_ok w"
proof -
  let ?pcb = "tcp_at p w"
  define v where "v = snd (tcp_retransmit_queue_add p (snd_nxt ?pcb) (TCP_FLG_ACK OR TCP_FLG_PSH) data w)"
  have t: "gettimeofday (w\<lparr>alloc_no := n\<rparr>) = gettimeofday w" for n by (simp add: gettimeofday_def)
  have v: "tcp_pcbs v = (tcp_pcbs w)[p := (tcp_at p w)\<lparr>tp_queue := tp_queue (tcp_at p w) @
      [\<lparr>tq_first = gettimeofday w, tq_last = gettimeofday w, tq_rto = TCP_DEFAULT_RTO,
        tq_seq = snd_nxt (tcp_at p w), tq_flg = TCP_FLG_ACK OR TCP_FLG_PSH, tq_data = data\<rparr>]\<rparr>]"
    "arp_inv v" "alloc_ok v = alloc_ok w"
    using mem arp
    by (simp_all add: v_def tcp_retransmit_queue_add_def calloc_def list_push_def Let_def t upd_tcp_def tcp_at_def
        set_tcp_def arp_inv_def)
  have w1: "w1 = snd (tcp_output_segment (snd_nxt ?pcb) (rcv_nxt ?pcb) (TCP_FLG_ACK OR TCP_FLG_PSH) (rcv_wnd ?pcb)
      data (tp_local ?pcb) (tp_foreign ?pcb) v)"
    using data by (simp add: w1_def tcp_output_def Let_def v_def TCP_FLG_ISSET_def tcp_flags)
  show "tcp_pcbs w1 = (tcp_pcbs w)[p := (tcp_at p w)\<lparr>tp_queue := tp_queue (tcp_at p w) @
      [\<lparr>tq_first = gettimeofday w, tq_last = gettimeofday w, tq_rto = TCP_DEFAULT_RTO,
        tq_seq = snd_nxt (tcp_at p w), tq_flg = TCP_FLG_ACK OR TCP_FLG_PSH, tq_data = data\<rparr>]\<rparr>]"
    unfolding w1 tcp_output_segment_pcbs [OF v(2)] by (rule v(1))
  have "ip_only v w1" unfolding w1 using tcp_output_segment_frame [OF v(2)] by blast
  from ip_onlyD(10) [OF this] show "alloc_ok w1 = alloc_ok w" by (simp only: v(3))
qed

lemma unat_capacity:
  assumes "unat (nxt - una :: u32) \<le> unat (wnd :: u16)"
  shows "unat (ucast wnd - (nxt - una) :: u32) = unat wnd - unat (nxt - una)"
proof -
  have w: "unat (ucast wnd :: u32) = unat wnd" by simp
  then have "nxt - una \<le> (ucast wnd :: u32)" using assms by (simp add: word_le_nat_alt)
  then show ?thesis using w by (simp only: unat_sub)
qed

lemma in_flight_grows:
  assumes "unat (nxt - una :: u32) + n \<le> unat (wnd :: u16)"
  shows "unat (nxt + of_nat n - una) = unat (nxt - una) + n"
proof -
  have b: "unat wnd < 65536" by (rule unat_u16_bound)
  then have n: "unat (of_nat n :: u32) = n" using assms by (simp add: unat_of_nat)
  have "unat ((nxt - una) + of_nat n) = unat (nxt - una) + n"
    using assms b n by (subst unat_plus_if') simp
  then show ?thesis by (simp add: algebra_simps)
qed

text \<open>One turn of the loop.\<close>

lemma tcp_send_piece:
  fixes w :: "('d, 'm) tcp_state_scheme" and p and bs and mss
  assumes ok: "tcp_ok w" and p: "p < 16" and mem: "\<And>k. alloc_ok w k"
    and bs: "0 < length bs" "length bs \<le> mss" "tcp_in_flight (tcp_at p w) + length bs \<le> unat (snd_wnd (tcp_at p w))"
  defines "w1 \<equiv> upd_tcp p (\<lambda>pcb. pcb\<lparr>snd_nxt := snd_nxt pcb + of_nat (length bs)\<rparr>)
      (snd (tcp_output p (TCP_FLG_ACK OR TCP_FLG_PSH) bs w))"
  shows "tcp_ok w1" "alloc_ok w1 = alloc_ok w" "tcp_sent mss bs (tcp_at p w) (tcp_at p w1)"
proof -
  let ?v = "snd (tcp_output p (TCP_FLG_ACK OR TCP_FLG_PSH) bs w)"
  have ne: "bs \<noteq> []" using bs by auto
  note q = tcp_output_queues [OF tcp_okD(2) [OF ok] mem ne, of p]
  show "alloc_ok w1 = alloc_ok w" using q(2) by (simp add: w1_def upd_tcp_def set_tcp_def)
  have "tcp_ok ?v" using ok by (rule tcp_ok_quiet [OF tcp_quiet_output])
  moreover have "tcp_quiet ?v w1" unfolding w1_def by (rule tcp_quiet_upd) simp
  ultimately show "tcp_ok w1" by (rule tcp_ok_quiet [rotated])
  have v: "tcp_at p ?v = (tcp_at p w)\<lparr>tp_queue := tp_queue (tcp_at p w) @
      [\<lparr>tq_first = gettimeofday w, tq_last = gettimeofday w, tq_rto = TCP_DEFAULT_RTO,
        tq_seq = snd_nxt (tcp_at p w), tq_flg = TCP_FLG_ACK OR TCP_FLG_PSH, tq_data = bs\<rparr>]\<rparr>"
    using p tcp_okD(1) [OF ok] unfolding tcp_at_def q(1) [unfolded tcp_at_def] by simp
  have "tcp_at p w1 = (tcp_at p ?v)\<lparr>snd_nxt := snd_nxt (tcp_at p w) + of_nat (length bs)\<rparr>"
    using p tcp_okD(1) [OF \<open>tcp_ok ?v\<close>] by (simp add: w1_def tcp_at_upd v)
  then show "tcp_sent mss bs (tcp_at p w) (tcp_at p w1)"
    using bs in_flight_grows [OF bs(3) [unfolded tcp_in_flight_def]]
    by (simp add: tcp_sent_def v tcp_piece_def tcp_in_flight_def)
qed

section \<open>Release\<close>

text \<open>Block \<open>q\<close> waits in the backlog of block \<open>p\<close>.\<close>

definition tcp_holds :: "('d, 'm) tcp_state_scheme \<Rightarrow> nat \<Rightarrow> nat \<Rightarrow> bool" where
  "tcp_holds w p q \<longleftrightarrow> q \<in> set (tp_backlog (tcp_at p w))"

lemma reach_root:
  assumes "\<And>a b. H a b \<longleftrightarrow> G a b \<or> (a = p \<and> b = e)" and "p \<in> S"
  shows "(\<exists>a \<in> insert e S. G\<^sup>*\<^sup>* a q) \<longleftrightarrow> (\<exists>a \<in> S. H\<^sup>*\<^sup>* a q)"
proof
  have "G \<le> H" using assms(1) by blast
  then have mono: "G\<^sup>*\<^sup>* a b \<Longrightarrow> H\<^sup>*\<^sup>* a b" for a b by (metis predicate2D rtranclp_mono)
  have "H p e" using assms(1) by blast
  then show "\<exists>a \<in> S. H\<^sup>*\<^sup>* a q" if "\<exists>a \<in> insert e S. G\<^sup>*\<^sup>* a q"
    using that mono assms(2) by (metis converse_rtranclp_into_rtranclp insert_iff)
next
  assume "\<exists>a \<in> S. H\<^sup>*\<^sup>* a q"
  then obtain a where a: "a \<in> S" "H\<^sup>*\<^sup>* a q" by blast
  from a(2) show "\<exists>a \<in> insert e S. G\<^sup>*\<^sup>* a q"
  proof (induction rule: rtranclp_induct)
    case base
    with a(1) show ?case by blast
  next
    case (step y z)
    then show ?case using assms(1) [of y z] by (metis insertI1 rtranclp.rtrancl_into_rtrancl rtranclp.rtrancl_refl)
  qed
qed

lemma tcp_release_calls_frees:
  "tcp_ok w \<Longrightarrow> \<forall>p \<in> set st. p < 16 \<Longrightarrow>
     tcp_at q (tcp_release_calls st w) =
       (if \<exists>p \<in> set st. (tcp_holds w)\<^sup>*\<^sup>* p q then zero_tcp_pcb else tcp_at q w)"
proof (induction st w rule: tcp_release_calls.induct)
  case (1 w)
  show ?case by simp
next
  case (2 p st w)
  then have p: "p < 16" "\<not> length (tcp_pcbs w) \<le> p" and n: "length (tcp_pcbs w) = 16"
    using tcp_okD(1) by fastforce+
  show ?case
  proof (cases "tp_backlog (tcp_at p w)")
    case Nil
    let ?w = "set_tcp p zero_tcp_pcb w"
    have w: "?w = upd_tcp p (\<lambda>_. zero_tcp_pcb) w" by (simp add: upd_tcp_def)
    have "tcp_resets w ?w" unfolding w by (rule tcp_resets_upd, simp) (simp add: zero_tcp_pcb_def)
    then have ok: "tcp_ok ?w" using 2(3) by (rule tcp_ok_resets)
    have at: "tcp_at a ?w = (if a = p then zero_tcp_pcb else tcp_at a w)" for a
      using p(2) unfolding w by (simp add: tcp_at_upd)
    have h: "tcp_holds ?w = tcp_holds w" using Nil zero_backlog by (intro ext) (simp add: tcp_holds_def at)
    have "tcp_at q (tcp_release_calls (p # st) w) =
        (if \<exists>p \<in> set st. (tcp_holds w)\<^sup>*\<^sup>* p q then zero_tcp_pcb else tcp_at q ?w)"
      using 2(1) [OF p(2) Nil ok] 2(4) p Nil by (simp add: h)
    moreover have "\<not> tcp_holds w p b" for b using Nil by (simp add: tcp_holds_def)
    then have "(tcp_holds w)\<^sup>*\<^sup>* p q \<longleftrightarrow> q = p" by (metis converse_rtranclpE rtranclp.rtrancl_refl)
    ultimately show ?thesis by (simp add: at)
  next
    case (Cons est rest)
    let ?v = "upd_tcp p (\<lambda>pcb. pcb\<lparr>tp_backlog := rest\<rparr>) w"
    let ?w = "upd_tcp est (\<lambda>pcb. pcb\<lparr>tp_cond := snd (cond_destroy (tp_cond (tcp_at est ?v))), tp_queue := []\<rparr>) ?v"
    have "tcp_quiet w ?v" using Cons by (intro tcp_quiet_upd) (auto simp: tcp_pcb_ok_def tcp_pcb_shape_def)
    moreover have "tcp_quiet ?v ?w" by (intro tcp_quiet_upd) simp
    ultimately have "tcp_quiet w ?w" by (rule tcp_quiet_trans)
    then have ok: "tcp_ok ?w" using 2(3) by (rule tcp_ok_quiet)
    have est: "est < 16" using Cons tcp_okD(3) [OF 2(3) p(1)] by (simp add: tcp_pcb_ok_def tcp_pcb_shape_def)
    have h: "tcp_holds w a b \<longleftrightarrow> tcp_holds ?w a b \<or> (a = p \<and> b = est)" for a b
      using Cons p n est by (auto simp: tcp_holds_def tcp_at_upd)
    have r: "(\<exists>a \<in> set (est # p # st). (tcp_holds ?w)\<^sup>*\<^sup>* a q) \<longleftrightarrow> (\<exists>a \<in> set (p # st). (tcp_holds w)\<^sup>*\<^sup>* a q)"
      using reach_root [of "tcp_holds w" "tcp_holds ?w" p est "set (p # st)" q, OF h] by simp
    have "tcp_release_calls (p # st) w = tcp_release_calls (est # p # st) ?w"
      using p Cons by (subst tcp_release_calls.simps) (simp add: tcp_release_enter_eq del: tcp_release_calls.simps)
    moreover have "tcp_at q (tcp_release_calls (est # p # st) ?w) =
        (if \<exists>a \<in> set (est # p # st). (tcp_holds ?w)\<^sup>*\<^sup>* a q then zero_tcp_pcb else tcp_at q ?w)"
      using 2(2) [OF p(2) Cons, of True ?w] 2(4) ok est by (simp add: tcp_release_enter_eq del: tcp_release_calls.simps)
    moreover have "tcp_at q ?w = tcp_at q w" if "\<not> (\<exists>a \<in> set (p # st). (tcp_holds w)\<^sup>*\<^sup>* a q)"
    proof -
      have "q \<noteq> p" using that by auto
      moreover have "q \<noteq> est" using that h [of p est] by auto
      ultimately show ?thesis by (simp add: tcp_at_upd)
    qed
    ultimately show ?thesis unfolding r by auto
  qed
qed

lemma tcp_release_frees:
  assumes ok: "tcp_ok w" and p: "p < 16"
  shows "tcp_at q (tcp_pcb_release p w) = (if (tcp_holds w)\<^sup>*\<^sup>* p q then zero_tcp_pcb else tcp_at q w)"
    "ub (tcp_pcb_release p w) = ub w"
proof -
  let ?w = "upd_tcp p (\<lambda>pcb. pcb\<lparr>tp_cond := snd (cond_destroy (tp_cond (tcp_at p w))), tp_queue := []\<rparr>) w"
  have r: "tcp_pcb_release p w = tcp_release_calls [p] ?w"
    by (simp add: tcp_pcb_release_def tcp_release_enter_eq Let_def del: tcp_release_calls.simps)
  have "tcp_quiet w ?w" by (rule tcp_quiet_upd) simp
  then have ok': "tcp_ok ?w" using ok by (rule tcp_ok_quiet)
  have h: "tcp_holds ?w = tcp_holds w"
    using p tcp_okD(1) [OF ok] by (intro ext) (simp add: tcp_holds_def tcp_at_upd)
  have "tcp_at q ?w = tcp_at q w" if "\<not> (tcp_holds w)\<^sup>*\<^sup>* p q"
    using that by (auto simp: tcp_at_upd)
  then show "tcp_at q (tcp_pcb_release p w) = (if (tcp_holds w)\<^sup>*\<^sup>* p q then zero_tcp_pcb else tcp_at q w)"
    using tcp_release_calls_frees [OF ok', of "[p]" q] p unfolding r h by simp
  show "ub (tcp_pcb_release p w) = ub w"
    using tcp_release_calls_safe [OF ok', of "[p]"] p unfolding r by simp
qed

lemma tcp_drop_frees: "tcp_ok w \<Longrightarrow> p < 16 \<Longrightarrow> tcp_at p (tcp_drop p w) = zero_tcp_pcb"
  using tcp_release_frees(1) [of "tcp_set_state p TCP_CLOSED w" p p]
    tcp_ok_resets [OF tcp_resets_upd, of p w "\<lambda>pcb. pcb\<lparr>tp_state := TCP_CLOSED\<rparr>"]
  by (simp add: tcp_drop_def tcp_set_state_def)

section \<open>The whole of the data\<close>

fun chunks :: "nat \<Rightarrow> 'a list \<Rightarrow> 'a list list" where
  "chunks m xs = (if m = 0 \<or> xs = [] then [] else take m xs # chunks m (drop m xs))"

declare chunks.simps [simp del]

lemma chunks_Nil [simp]: "chunks m [] = []"
  by (subst chunks.simps) simp

lemma chunks_take:
  "0 < m \<Longrightarrow> 0 < n \<Longrightarrow> xs \<noteq> [] \<Longrightarrow>
     chunks m (take n xs) = take (min m n) xs # chunks m (take (n - min m n) (drop (min m n) xs))"
  by (subst chunks.simps) (cases "m \<le> n"; simp add: drop_take)

text \<open>
  The pieces are sent one after the other, as long as this works; when it does not, the block is
  released.
\<close>

fun tcp_pieces ::
  "nat \<Rightarrow> u8 list list \<Rightarrow> ('d, 'm) tcp_state_scheme \<Rightarrow> bool \<times> ('d, 'm) tcp_state_scheme" where
  "tcp_pieces p [] w = (True, w)"
| "tcp_pieces p (bs # bss) w =
     (let (r, w1) = tcp_output p (TCP_FLG_ACK OR TCP_FLG_PSH) bs w
      in if r = -1 then (False, tcp_drop p w1)
         else tcp_pieces p bss (upd_tcp p (\<lambda>pcb. pcb\<lparr>snd_nxt := snd_nxt pcb + of_nat (length bs)\<rparr>) w1))"

text \<open>
  The loop, having come to \<open>sent\<close>: what fits the window is sent in pieces of the segment size,
  and for the rest the task sleeps.
\<close>

definition tcp_send_result ::
  "nat \<Rightarrow> nat \<Rightarrow> u8 list \<Rightarrow> nat \<Rightarrow> nat \<Rightarrow> ('d, 'm) tcp_state_scheme \<Rightarrow>
     (int, nat \<times> nat) blocking \<times> ('d, 'm) tcp_state_scheme" where
  "tcp_send_result p mss data sent n w =
     (let (ok, v) = tcp_pieces p (chunks mss (take (n - sent) (drop sent data))) w
      in if \<not> ok then (Returns (-1), v)
         else if n = length data then (Returns (int n), v) else (Blocks (p, n), tcp_sleep p v))"

lemma tcp_send_loop_sends:
  fixes w :: "('d, 'm) tcp_state_scheme"
  assumes "tcp_ok w" and "p < 16" and "0 < mss" and "sent \<le> length data" and "\<And>k. alloc_ok w k"
    and "tcp_in_flight (tcp_at p w) \<le> unat (snd_wnd (tcp_at p w))"
    and "n = min (length data) (sent + (unat (snd_wnd (tcp_at p w)) - tcp_in_flight (tcp_at p w)))"
  shows "tcp_send_loop p mss data sent w = Some (tcp_send_result p mss data sent n w) \<and>
    (let (ok, v) = tcp_pieces p (chunks mss (take (n - sent) (drop sent data))) w
     in if ok then tcp_sent mss (take (n - sent) (drop sent data)) (tcp_at p w) (tcp_at p v)
        else tcp_at p v = zero_tcp_pcb)"
  using assms
proof (induction "length data - sent" arbitrary: sent w rule: less_induct)
  case less
  let ?pcb = "tcp_at p w"
  let ?cap = "unat (ucast (snd_wnd ?pcb) - (snd_nxt ?pcb - snd_una ?pcb) :: u32)"
  have cap: "?cap = unat (snd_wnd ?pcb) - tcp_in_flight ?pcb"
    using less.prems(6) unat_capacity unfolding tcp_in_flight_def by blast
  define slen where "slen = min (min mss (length data - sent)) ?cap"
  define bs where "bs = take slen (drop sent data)"
  define out where "out = tcp_output p (TCP_FLG_ACK OR TCP_FLG_PSH) bs w"
  define w1 where "w1 = upd_tcp p (\<lambda>pcb. pcb\<lparr>snd_nxt := snd_nxt pcb + of_nat slen\<rparr>) (snd out)"
  have loop: "tcp_send_loop p mss data sent w =
      (if \<not> sent < length data then Some (Returns (int sent), w)
       else if ?cap = 0 then Some (Blocks (p, sent), tcp_sleep p w)
       else if fst out = -1 then Some (Returns (-1), tcp_drop p (snd out))
       else tcp_send_loop p mss data (sent + slen) w1)"
    by (subst tcp_send_loop.simps) (simp only: Let_def slen_def [symmetric] bs_def [symmetric] out_def [symmetric] w1_def [symmetric])
  have none: "tcp_sent mss [] ?pcb ?pcb"
    unfolding tcp_sent_def using less.prems(6) by (auto intro!: exI [of _ "[]"])
  show ?case
  proof (cases "sent < length data \<and> ?cap \<noteq> 0")
    case False
    then have "n = sent" using less.prems(4,7) cap by auto
    with False none loop show ?thesis using less.prems(4) by (auto simp: tcp_send_result_def)
  next
    case True
    have ns: "n - sent = min (length data - sent) ?cap" using True less.prems(4,7) cap by auto
    have n: "0 < n - sent" "slen = min mss (n - sent)" "n \<le> length data"
      using True less.prems(7) unfolding ns slen_def by (simp_all add: min.assoc)
    have len: "length bs = slen" "0 < slen" "slen \<le> mss" "tcp_in_flight ?pcb + slen \<le> unat (snd_wnd ?pcb)"
      "sent + slen \<le> length data"
      using True less.prems(3,6) cap by (auto simp: bs_def slen_def)
    have "drop sent data \<noteq> []" using True by simp
    from chunks_take [OF less.prems(3) n(1) this]
    have pieces: "chunks mss (take (n - sent) (drop sent data)) =
        bs # chunks mss (take (n - (sent + slen)) (drop (sent + slen) data))"
      by (simp add: n(2) [symmetric] bs_def add.commute)
    have app: "take (n - sent) (drop sent data) = bs @ take (n - (sent + slen)) (drop (sent + slen) data)"
    proof -
      have "n - sent = slen + (n - (sent + slen))" using n by simp
      then show ?thesis by (simp only: take_add drop_drop bs_def add.commute)
    qed
    show ?thesis
    proof (cases "fst out = -1")
      case fails: True
      have "tcp_ok (snd out)" unfolding out_def by (rule tcp_ok_quiet [OF tcp_quiet_output less.prems(1)])
      from tcp_drop_frees [OF this less.prems(2)] fails True loop pieces show ?thesis
        by (simp add: tcp_send_result_def out_def [symmetric] case_prod_beta)
    next
      case works: False
      have p: "tcp_ok w1" "alloc_ok w1 = alloc_ok w" "tcp_sent mss bs ?pcb (tcp_at p w1)"
        using tcp_send_piece [OF less.prems(1,2,5), of bs mss] len unfolding w1_def out_def by simp_all
      have "length data - (sent + slen) < length data - sent" using True len by linarith
      moreover have "\<And>k. alloc_ok w1 k" using less.prems(5) p(2) by simp
      moreover have "tcp_in_flight (tcp_at p w1) = tcp_in_flight ?pcb + slen" "snd_wnd (tcp_at p w1) = snd_wnd ?pcb"
        using p(3) in_flight_grows [OF len(4) [unfolded tcp_in_flight_def]] len(1)
        by (simp_all add: tcp_sent_def tcp_in_flight_def)
      then have "n = min (length data) (sent + slen + (unat (snd_wnd (tcp_at p w1)) - tcp_in_flight (tcp_at p w1)))"
        using less.prems(7) len(4) by simp
      ultimately have r: "tcp_send_loop p mss data (sent + slen) w1 = Some (tcp_send_result p mss data (sent + slen) n w1) \<and>
        (let (ok, v) = tcp_pieces p (chunks mss (take (n - (sent + slen)) (drop (sent + slen) data))) w1
         in if ok then tcp_sent mss (take (n - (sent + slen)) (drop (sent + slen) data)) (tcp_at p w1) (tcp_at p v)
            else tcp_at p v = zero_tcp_pcb)"
        by (intro less.hyps p(1) less.prems(2,3) len(5) tcp_sentD [OF p(3)])
      have step: "tcp_pieces p (chunks mss (take (n - sent) (drop sent data))) w =
          tcp_pieces p (chunks mss (take (n - (sent + slen)) (drop (sent + slen) data))) w1"
        using works by (simp add: pieces out_def [symmetric] case_prod_beta len(1) w1_def)
      have "tcp_send_result p mss data sent n w = tcp_send_result p mss data (sent + slen) n w1"
        by (simp add: tcp_send_result_def step)
      with r works True loop have "tcp_send_loop p mss data sent w = Some (tcp_send_result p mss data sent n w)"
        by simp
      moreover obtain ok v where pv:
        "tcp_pieces p (chunks mss (take (n - (sent + slen)) (drop (sent + slen) data))) w1 = (ok, v)" by fastforce
      from r have "if ok then tcp_sent mss (take (n - sent) (drop sent data)) ?pcb (tcp_at p v)
          else tcp_at p v = zero_tcp_pcb"
        using tcp_sent_trans [OF p(3)] unfolding pv app by (simp split: if_splits)
      ultimately show ?thesis unfolding step pv Let_def prod.case by blast
    qed
  qed
qed

section \<open>Retransmission\<close>

text \<open>
  The entry \<open>e\<close> of the queue of block \<open>p\<close> at the ticks of the timer that happen in the states
  \<open>ws\<close>: the number of times its segment is sent again, and the entry at the end.
\<close>

fun tcp_resends :: "nat \<Rightarrow> tcp_queue_entry \<Rightarrow> ('d, 'm) tcp_state_scheme list \<Rightarrow> nat" where
  "tcp_resends p e [] = 0"
| "tcp_resends p e (w # ws) =
     (let e1 = snd (tcp_retransmit_queue_emit p w e)
      in (if tq_rto e1 \<noteq> tq_rto e then 1 else 0) + tcp_resends p e1 ws)"

fun tcp_entry_run :: "nat \<Rightarrow> tcp_queue_entry \<Rightarrow> ('d, 'm) tcp_state_scheme list \<Rightarrow> tcp_queue_entry" where
  "tcp_entry_run p e [] = e"
| "tcp_entry_run p e (w # ws) = tcp_entry_run p (snd (tcp_retransmit_queue_emit p w e)) ws"

text \<open>Sent again \<open>k\<close> times: the waiting time has doubled as often, and all of them have passed.\<close>

definition tcp_paced :: "nat \<Rightarrow> tcp_queue_entry \<Rightarrow> bool" where
  "tcp_paced k e \<longleftrightarrow>
     k \<le> 5 \<and> unat (tq_rto e) = 200000 * 2 ^ k \<and> tv_norm (tq_first e) \<and> tv_norm (tq_last e) \<and>
     200000 * (2 ^ k - 1) \<le> tv_us (tq_last e) - tv_us (tq_first e)"

lemma tv_sec_age:
  "tv_norm a \<Longrightarrow> tv_norm b \<Longrightarrow> tv_sec (timersub a b) \<ge> 12 \<longleftrightarrow> tv_us a - tv_us b \<ge> 12000000"
  using timersub_us [of a b] by (auto simp: tv_us_def tv_norm_def)

lemma tcp_emit_cases:
  assumes "tcp_paced k e"
  obtains (late) "tv_sec (timersub (gettimeofday w) (tq_first e)) \<ge> 12"
      "tcp_retransmit_queue_emit p w e =
         (cond_broadcast (tp_cond (tcp_at p w)) (upd_tcp p (\<lambda>pcb. pcb\<lparr>tp_state := TCP_CLOSED\<rparr>) w), e)"
  | (again) "tcp_paced (Suc k) (snd (tcp_retransmit_queue_emit p w e))"
      "tq_rto (snd (tcp_retransmit_queue_emit p w e)) \<noteq> tq_rto e"
  | (waits) "tcp_retransmit_queue_emit p w e = (w, e)"
proof -
  let ?now = "gettimeofday w"
  note n = gettimeofday_norm [of w]
  have e: "k \<le> 5" "unat (tq_rto e) = 200000 * 2 ^ k" "tv_norm (tq_first e)" "tv_norm (tq_last e)"
    "200000 * (2 ^ k - 1) \<le> tv_us (tq_last e) - tv_us (tq_first e)"
    using assms by (simp_all add: tcp_paced_def)
  define rto :: int where "rto = int (unat (tq_rto e))"
  have rto: "0 \<le> rto" "rto = 200000 * 2 ^ k" using e(2) by (simp_all add: rto_def)
  consider "tv_sec (timersub ?now (tq_first e)) \<ge> 12"
    | "\<not> tv_sec (timersub ?now (tq_first e)) \<ge> 12" "timer_less (timeval_add_usec (tq_last e) rto) ?now"
    | "\<not> tv_sec (timersub ?now (tq_first e)) \<ge> 12" "\<not> timer_less (timeval_add_usec (tq_last e) rto) ?now"
    by blast
  then show ?thesis
  proof cases
    case 1
    then show ?thesis by (intro late) (simp_all add: tcp_retransmit_queue_emit_def TCP_RETRANSMIT_DEADLINE_def Let_def)
  next
    case 2
    have e1: "snd (tcp_retransmit_queue_emit p w e) = e\<lparr>tq_last := ?now, tq_rto := tq_rto e * 2\<rparr>"
      using 2 by (simp add: tcp_retransmit_queue_emit_def TCP_RETRANSMIT_DEADLINE_def Let_def rto_def)
    have due: "tv_us (tq_last e) + rto < tv_us ?now"
      using 2(2) timeval_add_usec_us [OF e(4) rto(1)] timer_less_us [OF _ n] by simp
    have young: "tv_us ?now - tv_us (tq_first e) < 12000000" using 2(1) tv_sec_age [OF n e(3)] by simp
    have "200000 * (2 ^ Suc k - 1) = 200000 * (2 ^ k - 1) + rto" by (simp add: rto)
    then have age: "200000 * (2 ^ Suc k - 1) \<le> tv_us ?now - tv_us (tq_first e)" using due e(5) by linarith
    have "k \<noteq> 5" using age young by auto
    then have k: "Suc k \<le> 5" using e(1) by simp
    then have "(2 :: nat) ^ Suc k \<le> 2 ^ 5" by (intro power_increasing) simp_all
    then have "unat (tq_rto e * 2) = 200000 * 2 ^ Suc k"
      using e(2) by (simp add: unat_mult_lem [THEN iffD1])
    then show ?thesis using k age e n by (intro again) (auto simp: e1 tcp_paced_def dest: arg_cong [of _ _ unat])
  next
    case 3
    then show ?thesis
      by (intro waits) (simp add: tcp_retransmit_queue_emit_def TCP_RETRANSMIT_DEADLINE_def Let_def rto_def)
  qed
qed

lemma tcp_paced_run:
  "tcp_paced k e \<Longrightarrow> tcp_paced (k + tcp_resends p e ws) (tcp_entry_run p e ws)"
proof (induction ws arbitrary: k e)
  case (Cons w ws)
  from Cons.prems show ?case
  proof (cases rule: tcp_emit_cases [where w = w and p = p, consumes 1, case_names late again waits])
    case again
    then show ?thesis using Cons.IH [OF again(1)] by (simp add: Let_def)
  qed (use Cons in \<open>simp_all add: Let_def\<close>)
qed simp

section \<open>Claims\<close>

text \<open>
  C14: with memory for the queue and a window that is not already exceeded, \<^verbatim>\<open>tcp_send\<close> on a
  connection returns or sleeps, it does not loop. As much of the data as the window leaves room
  for is cut into pieces of the maximum segment size (the last may be shorter), which are sent in
  order. If all are sent, they are in the retransmission queue with consecutive sequence numbers,
  never more than the window is in flight, and \<^verbatim>\<open>tcp_send\<close> returns the length if this was all of
  the data and sleeps otherwise, the window being full. Only if one of them cannot be sent the
  block is released and -1 returned.
\<close>

theorem tcp_send_sends:
  fixes w :: "('d, 'm) tcp_state_scheme"
  assumes ok: "tcp_ok w" and get: "tcp_pcb_get i (tcp_pcbs w) = Some p"
    and st: "tp_state (tcp_at p w) \<in> {TCP_ESTABLISHED, TCP_CLOSE_WAIT}"
    and route: "ip_route_get_iface (ep_addr (tp_local (tcp_at p w))) w = Some iface"
    and mtu: "unat (mtu (dev_heap w (if_dev (iface_heap w iface)))) = 40 + mss" "0 < mss"
    and mem: "\<forall>k. alloc_ok w k" and win: "tcp_in_flight (tcp_at p w) \<le> unat (snd_wnd (tcp_at p w))"
  shows "let n = min (length data) (unat (snd_wnd (tcp_at p w)) - tcp_in_flight (tcp_at p w));
       (sent, v) = tcp_pieces p (chunks mss (take n data)) w
     in tcp_send i data w =
          Some (if \<not> sent then (Returns (-1), v)
                else if n = length data then (Returns (int n), v) else (Blocks (p, n), tcp_sleep p v)) \<and>
        (if sent
         then tcp_sent mss (take n data) (tcp_at p w) (tcp_at p v) \<and>
           (n < length data \<longrightarrow> tcp_in_flight (tcp_at p v) = unat (snd_wnd (tcp_at p v)))
         else tcp_at p v = zero_tcp_pcb)"
proof -
  let ?a = "tcp_at p w"
  define n where "n = min (length data) (unat (snd_wnd ?a) - tcp_in_flight ?a)"
  have p: "p < 16" using tcp_pcb_getD [OF get] by simp
  have "size_sub (unat (mtu (dev_heap w (if_dev (iface_heap w iface))))) (IP_HDR_SIZE_MIN + TCP_HDR_SIZE) = mss"
    by (simp add: mtu(1) ip_consts TCP_HDR_SIZE_def)
  then have send: "tcp_send i data w = tcp_send_loop p mss data 0 w"
    using get st route by (simp add: tcp_send_def tcp_send_retry_def)
  have n0: "n = min (length data) (0 + (unat (snd_wnd ?a) - tcp_in_flight ?a))" by (simp add: n_def)
  have r: "tcp_send i data w = Some (tcp_send_result p mss data 0 n w) \<and>
    (let (ok, v) = tcp_pieces p (chunks mss (take n data)) w
     in if ok then tcp_sent mss (take n data) ?a (tcp_at p v) else tcp_at p v = zero_tcp_pcb)"
    using tcp_send_loop_sends [OF ok p mtu(2) le0 _ win n0] mem unfolding send diff_zero drop_0 by blast
  have full: "tcp_in_flight (tcp_at p v) = unat (snd_wnd (tcp_at p v))"
    if "tcp_sent mss (take n data) ?a (tcp_at p v)" "n < length data" for v
  proof -
    have n: "n = unat (snd_wnd ?a) - tcp_in_flight ?a" using that(2) by (simp add: n_def)
    have "snd_nxt (tcp_at p v) = snd_nxt ?a + of_nat n" "snd_una (tcp_at p v) = snd_una ?a"
      "snd_wnd (tcp_at p v) = snd_wnd ?a"
      using that by (simp_all add: tcp_sent_def)
    then show ?thesis
      using in_flight_grows [of "snd_nxt ?a" "snd_una ?a" n "snd_wnd ?a"] win by (simp add: tcp_in_flight_def n)
  qed
  show ?thesis
    unfolding n_def [symmetric] Let_def using r full
    by (cases "tcp_pieces p (chunks mss (take n data)) w") (auto simp: tcp_send_result_def)
qed

text \<open>A host and its connection to the neighbour it has resolved, which has left room for two bytes.\<close>

definition tcp_neighbour_pcb :: tcp_pcb where
  "tcp_neighbour_pcb = (tcp_sample_pcb 100 8192 7 2)\<lparr>tp_local := \<lparr>ep_addr = 0x0100000a, ep_port = 5\<rparr>,
     tp_foreign := \<lparr>ep_addr = 0x0200000a, ep_port = 80\<rparr>\<rparr>"

definition tcp_neighbours :: "unit tcp_state" where
  "tcp_neighbours = (tcp_host [1, 1, 1, 1, 1, 1] 0x0100000a 0x0200000a [2, 2, 2, 2, 2, 2])
     \<lparr>tcp_pcbs := tcp_neighbour_pcb # replicate 15 zero_tcp_pcb\<rparr>"

lemma tcp_neighbours_facts:
  "tcp_ok tcp_neighbours" "tcp_at 0 tcp_neighbours = tcp_neighbour_pcb"
  "n \<le> 1480 \<Longrightarrow> ip_next_hop n 0x0100000a 0x0200000a (tcp_neighbours\<lparr>alloc_no := k, tcp_pcbs := ps\<rparr>) = Some (0, 0x0200000a)"
  "fst (net_device_output d t x y (tcp_neighbours\<lparr>alloc_no := k, tcp_pcbs := ps, ip_id := j\<rparr>)) = 0 \<longleftrightarrow> length x \<le> 1500"
  "alloc_ok tcp_neighbours i"
proof -
  let ?h = "tcp_host [1, 1, 1, 1, 1, 1] 0x0100000a 0x0200000a [2, 2, 2, 2, 2, 2]"
  have "tcp_ok ?h" by (rule tcp_host_ok) simp
  moreover have "tcp_pcb_ok tcp_neighbour_pcb"
    by (simp add: tcp_neighbour_pcb_def tcp_sample_pcb_def)
      (simp add: tcp_pcb_ok_def tcp_pcb_shape_def zero_tcp_pcb_def TCP_BUF_SIZE_def)
  ultimately show "tcp_ok tcp_neighbours"
    using zero_tcp_pcb_ok by (simp add: tcp_neighbours_def tcp_ok_def tcp_shape_def tcp_pcb_ok_def arp_inv_def)
  show "tcp_at 0 tcp_neighbours = tcp_neighbour_pcb" by (simp add: tcp_neighbours_def tcp_at_def)
  show "n \<le> 1480 \<Longrightarrow> ip_next_hop n 0x0100000a 0x0200000a (tcp_neighbours\<lparr>alloc_no := k, tcp_pcbs := ps\<rparr>) = Some (0, 0x0200000a)"
    by (simp add: tcp_neighbours_def ip_next_hop_def ip_route_lookup_def tcp_host_fields ip_host_fields host_def ip_consts)
  show "fst (net_device_output d t x y (tcp_neighbours\<lparr>alloc_no := k, tcp_pcbs := ps, ip_id := j\<rparr>)) = 0 \<longleftrightarrow> length x \<le> 1500"
    by (simp add: tcp_neighbours_def net_device_output_def Let_def tcp_host_fields ip_host_fields dev_is_up_def
        NET_DEVICE_FLAG_UP_def)
      (simp add: ip_host_def host_def arp_boot_def net_boot_def net_state.defs arp_state.defs Let_def)
  show "alloc_ok tcp_neighbours i"
    by (simp add: tcp_neighbours_def tcp_host_fields)
      (simp add: ip_host_def host_def arp_boot_def net_boot_def net_state.defs arp_state.defs ip_state.defs Let_def)
qed

lemma tcp_neighbour_output: "fst (tcp_output 0 (TCP_FLG_ACK OR TCP_FLG_PSH) [11, 12] tcp_neighbours) = 2"
proof -
  let ?w = tcp_neighbours and ?d = "tcp_segment 7 100 (TCP_FLG_ACK OR TCP_FLG_PSH) 8192 [11, 12]
    \<lparr>ep_addr = 0x0100000a, ep_port = 5\<rparr> \<lparr>ep_addr = 0x0200000a, ep_port = 80\<rparr>"
  define v where "v = snd (tcp_retransmit_queue_add 0 7 (TCP_FLG_ACK OR TCP_FLG_PSH) [11, 12] ?w)"
  have "v = ?w\<lparr>alloc_no := alloc_no v, tcp_pcbs := tcp_pcbs v\<rparr>"
    using tcp_neighbours_facts(5)
    by (simp add: v_def tcp_retransmit_queue_add_def calloc_def list_push_def Let_def upd_tcp_def set_tcp_def)
  then obtain k ps where v: "v = ?w\<lparr>alloc_no := k, tcp_pcbs := ps\<rparr>" by blast
  have "arp_inv ?w" using tcp_okD(2) [OF tcp_neighbours_facts(1)] .
  then have inv: "arp_inv v" by (simp add: v arp_inv_def)
  have "length ?d = 22" by simp
  then have hop: "ip_next_hop (length ?d) 0x0100000a 0x0200000a v = Some (0, 0x0200000a)"
    unfolding v by (intro tcp_neighbours_facts(3)) simp
  have known: "arp_map (caches v) 0x0200000a =
      Some \<lparr>ac_state = ARP_RESOLVED, ac_pa = 0x0200000a, ac_ha = [2, 2, 2, 2, 2, 2], ac_timestamp = timerclear\<rparr>"
    unfolding v tcp_neighbours_def by (simp add: tcp_host_fields ip_host_arp(2))
  have dev: "dev_flags (dev_heap v (if_dev (iface_heap v 0))) AND NET_DEVICE_FLAG_NEED_ARP \<noteq> 0"
    "dev_type (dev_heap v (if_dev (iface_heap v 0))) = NET_DEVICE_TYPE_ETHERNET"
    "family (iface_heap v 0) = NET_IFACE_FAMILY_IP"
    "0x0200000a \<noteq> broadcast (iface_heap v 0)" "0x0200000a \<noteq> IP_ADDR_BROADCAST"
    by (simp_all add: v tcp_neighbours_def tcp_host_fields ip_host_fields host_def NET_DEVICE_FLAG_NEED_ARP_def ip_consts)
  have nd: "fst (net_device_output d t x y (v\<lparr>ip_id := j\<rparr>)) = 0" if "length x \<le> 1500" for d t x y j
    using that tcp_neighbours_facts(4) unfolding v by blast
  have "fst (ip_output IP_PROTOCOL_TCP ?d 0x0100000a 0x0200000a v) = 22"
    using ip_output_resolved [OF inv hop _ dev known, of IP_PROTOCOL_TCP] nd \<open>length ?d = 22\<close>
    by (simp add: case_prod_beta)
  moreover have "tcp_output 0 (TCP_FLG_ACK OR TCP_FLG_PSH) [11, 12] ?w =
      tcp_output_segment 7 100 (TCP_FLG_ACK OR TCP_FLG_PSH) 8192 [11, 12]
        \<lparr>ep_addr = 0x0100000a, ep_port = 5\<rparr> \<lparr>ep_addr = 0x0200000a, ep_port = 80\<rparr> v"
    by (simp add: tcp_output_def v_def tcp_neighbours_facts(2) Let_def)
      (simp add: tcp_neighbour_pcb_def tcp_sample_pcb_def)
  ultimately show ?thesis by (simp add: tcp_output_segment_eq case_prod_beta)
qed

theorem tcp_send_sends_witness:
  "let r = tcp_output 0 (TCP_FLG_ACK OR TCP_FLG_PSH) [11, 12] tcp_neighbours;
       v = upd_tcp 0 (\<lambda>pcb. pcb\<lparr>snd_nxt := snd_nxt pcb + 2\<rparr>) (snd r)
   in fst r = 2 \<and> tcp_send 0 [11, 12, 13] tcp_neighbours = Some (Blocks (0, 2), tcp_sleep 0 v) \<and>
      tcp_sent 1460 [11, 12] tcp_neighbour_pcb (tcp_at 0 v) \<and> tcp_in_flight (tcp_at 0 v) = 2"
proof -
  let ?pcb = tcp_neighbour_pcb and ?w = tcp_neighbours
  note at = tcp_neighbours_facts(2) and ok = tcp_neighbours_facts(1)
  have st: "tp_state (tcp_at 0 ?w) \<in> {TCP_ESTABLISHED, TCP_CLOSE_WAIT}"
    by (simp add: at tcp_neighbour_pcb_def tcp_sample_pcb_def)
  have get: "tcp_pcb_get 0 (tcp_pcbs ?w) = Some 0"
    using tcp_pcb_get_at [of 0 ?w] st by auto
  have mem: "\<forall>k. alloc_ok ?w k" using tcp_neighbours_facts(5) by blast
  have route: "ip_route_get_iface (ep_addr (tp_local (tcp_at 0 ?w))) ?w = Some 0"
    by (simp add: at) (simp add: tcp_neighbour_pcb_def tcp_neighbours_def ip_route_get_iface_def ip_route_lookup_def
        tcp_host_fields ip_host_fields)
  have mtu: "unat (mtu (dev_heap ?w (if_dev (iface_heap ?w 0)))) = 40 + 1460"
    by (simp add: tcp_neighbours_def tcp_host_fields ip_host_fields)
  have fl: "tcp_in_flight ?pcb = 0" "snd_wnd ?pcb = 2"
    by (simp_all add: tcp_neighbour_pcb_def tcp_sample_pcb_def tcp_in_flight_def)
  then have win: "tcp_in_flight (tcp_at 0 ?w) \<le> unat (snd_wnd (tcp_at 0 ?w))" by (simp add: at)
  have n: "min (length [11, 12, 13 :: u8]) (unat (snd_wnd ?pcb) - tcp_in_flight ?pcb) = 2" by (simp add: fl)
  have cs: "take 2 [11, 12, 13] = [11, 12 :: u8]" "chunks 1460 [11, 12] = [[11, 12 :: u8]]" by (simp_all add: chunks.simps)
  note inst = tcp_send_sends [OF ok get st route mtu _ mem win, of "[11, 12, 13]", unfolded at n Let_def cs]
  from inst tcp_neighbour_output show ?thesis by (simp add: Let_def case_prod_beta fl tcp_sent_def)
qed

text \<open>
  A segment is retransmitted at most five times, after waiting times that start at 200 ms
  and double, whatever the times of the timer ticks; twelve seconds after it was first sent,
  the connection is closed and the tasks that wait for it are woken.
\<close>

lemma tcp_backoff:
  fixes ws :: "('d, 'm) tcp_state_scheme list"
  assumes e: "tq_rto e = TCP_DEFAULT_RTO" "tq_last e = tq_first e" "tv_norm (tq_first e)" and p: "p < length (tcp_pcbs w)"
  shows "tcp_resends p e ws \<le> 5 \<and> unat (tq_rto (tcp_entry_run p e ws)) = 200000 * 2 ^ tcp_resends p e ws \<and>
    (12 \<le> tv_sec (timersub (gettimeofday w) (tq_first (tcp_entry_run p e ws))) \<longrightarrow>
       tp_state (tcp_at p (fst (tcp_retransmit_queue_emit p w (tcp_entry_run p e ws)))) = TCP_CLOSED \<and>
       c_taskid (tp_cond (tcp_at p w)) \<in>
         set (wakeups (fst (tcp_retransmit_queue_emit p w (tcp_entry_run p e ws)))))"
proof -
  have "tcp_paced 0 e" using e by (simp add: tcp_paced_def TCP_DEFAULT_RTO_def)
  from tcp_paced_run [OF this, of p ws] have "tcp_paced (tcp_resends p e ws) (tcp_entry_run p e ws)" by simp
  moreover have "tp_state (tcp_at p (fst (tcp_retransmit_queue_emit p w e'))) = TCP_CLOSED \<and>
      c_taskid (tp_cond (tcp_at p w)) \<in> set (wakeups (fst (tcp_retransmit_queue_emit p w e')))"
    if "12 \<le> tv_sec (timersub (gettimeofday w) (tq_first e'))" for e'
    using that p
    by (simp add: tcp_retransmit_queue_emit_def TCP_RETRANSMIT_DEADLINE_def Let_def tcp_at_upd tcp_wakeup_def [symmetric])
  ultimately show ?thesis unfolding tcp_paced_def by blast
qed

lemma tcp_backoff_witness:
  "let e = \<lparr>tq_first = timerclear, tq_last = timerclear, tq_rto = TCP_DEFAULT_RTO, tq_seq = 7, tq_flg = TCP_FLG_SYN,
       tq_data = []\<rparr>;
     w = tcp_host [1] 2 3 [1, 2, 3, 4, 5, 6]
   in tcp_resends 0 e [w, w\<lparr>tick := 30\<rparr>, w\<lparr>tick := 100\<rparr>] \<le> 5"
proof -
  let ?e = "\<lparr>tq_first = timerclear, tq_last = timerclear, tq_rto = TCP_DEFAULT_RTO, tq_seq = 7, tq_flg = TCP_FLG_SYN,
       tq_data = []\<rparr>" and ?w = "tcp_host [1] 2 3 [1, 2, 3, 4, 5, 6]"
  have "tv_norm timerclear" by (simp add: tv_norm_def timerclear_def)
  moreover have "0 < length (tcp_pcbs ?w)" by (simp add: tcp_host_fields)
  ultimately show ?thesis
    using tcp_backoff [of ?e 0 ?w "[?w, ?w\<lparr>tick := 30\<rparr>, ?w\<lparr>tick := 100\<rparr>]"]
    by (simp only: Let_def tcp_queue_entry.simps simp_thms)
qed

text \<open>
  Releasing a block frees it and the connections that wait in its backlog, theirs
  included, and no others; it follows no pointer out of the table. Tasks that sleep on the
  block do not keep it from being freed.
\<close>

lemma tcp_release_backlog:
  assumes "tcp_ok w" and "p < 16"
  shows "tcp_at q (tcp_pcb_release p w) = (if (tcp_holds w)\<^sup>*\<^sup>* p q then zero_tcp_pcb else tcp_at q w) \<and>
    ub (tcp_pcb_release p w) = ub w"
  using tcp_release_frees [OF assms] by blast

lemma tcp_release_backlog_witness:
  "tcp_at 0 (tcp_pcb_release 0 (tcp_host1 (zero_tcp_pcb\<lparr>tp_state := TCP_LISTEN, tp_backlog := [3]\<rparr>))) = zero_tcp_pcb \<and>
   tcp_at 3 (tcp_pcb_release 0 (tcp_host1 (zero_tcp_pcb\<lparr>tp_state := TCP_LISTEN, tp_backlog := [3]\<rparr>))) = zero_tcp_pcb"
proof -
  let ?pcb = "zero_tcp_pcb\<lparr>tp_state := TCP_LISTEN, tp_backlog := [3]\<rparr>"
  have "tcp_pcb_ok ?pcb" by (simp add: tcp_pcb_ok_def tcp_pcb_shape_def zero_tcp_pcb_def TCP_BUF_SIZE_def)
  note h = tcp_host1_facts(1,3) [OF this]
  have "tcp_holds (tcp_host1 ?pcb) 0 3" by (simp add: tcp_holds_def h(2))
  then have "(tcp_holds (tcp_host1 ?pcb))\<^sup>*\<^sup>* 0 3" by blast
  with tcp_release_backlog [OF h(1), of 0 0] tcp_release_backlog [OF h(1), of 0 3] show ?thesis by simp
qed

text \<open>
  A segment for a connection whose sequence numbers lie outside the receive window changes
  nothing of any block, whatever its flags and data: a reset is ignored, all else is answered
  with an acknowledgement.
\<close>

lemma tcp_outside_window:
  assumes ok: "tcp_ok w" and sel: "tcp_pcb_select l (Some f) (tcp_pcbs w) = Some p"
    and st: "tcp_synchronized (tp_state (tcp_at p w))" and out: "\<not> tcp_acceptable (tcp_at p w) seg"
  shows "tcp_segment_arrives seg flags mem len l f w =
      (if TCP_FLG_ISSET flags TCP_FLG_RST then w else snd (tcp_output p TCP_FLG_ACK [] w)) \<and>
    tcp_pcbs (tcp_segment_arrives seg flags mem len l f w) = tcp_pcbs w"
proof -
  let ?w = "if TCP_FLG_ISSET flags TCP_FLG_RST then w else snd (tcp_output p TCP_FLG_ACK [] w)"
  have "tcp_seg_otherwise p seg flags mem len l f w = ?w"
    using st out by (simp add: tcp_seg_otherwise_def tcp_check_seq_def and_then_def)
  then have r: "tcp_segment_arrives seg flags mem len l f w = ?w"
    using sel st by (cases "tp_state (tcp_at p w)") (simp_all add: tcp_segment_arrives_def tcp_synchronized_def)
  have "\<not> TCP_FLG_ISSET TCP_FLG_ACK (TCP_FLG_SYN OR TCP_FLG_FIN)"
    by (simp add: TCP_FLG_ISSET_def tcp_flags)
  then have "tcp_pcbs (snd (tcp_output p TCP_FLG_ACK [] w)) = tcp_pcbs w"
    using tcp_okD(2) [OF ok] by (simp add: tcp_output_def Let_def tcp_output_segment_pcbs)
  with r show ?thesis by simp
qed

lemma tcp_outside_window_witness:
  "tcp_pcbs (tcp_segment_arrives \<lparr>seg_seq = 99, seg_ack = 7, seg_len = 0, seg_wnd = 0, seg_up = 0\<rparr>
     (TCP_FLG_RST OR TCP_FLG_ACK) [] 0 \<lparr>ep_addr = 2, ep_port = 5\<rparr> \<lparr>ep_addr = 3, ep_port = 80\<rparr>
     (tcp_host1 (tcp_sample_pcb 100 8192 7 50))) = tcp_pcbs (tcp_host1 (tcp_sample_pcb 100 8192 7 50))"
proof -
  let ?w = "tcp_host1 (tcp_sample_pcb 100 8192 7 50)"
  have est: "tcp_established 0 \<lparr>ep_addr = 2, ep_port = 5\<rparr> \<lparr>ep_addr = 3, ep_port = 80\<rparr> ?w"
    and at: "tcp_at 0 ?w = tcp_sample_pcb 100 8192 7 50"
    by (rule tcp_sample_established; simp)+
  have "tcp_synchronized (tp_state (tcp_at 0 ?w))" using est by (simp add: tcp_established_def tcp_synchronized_def)
  moreover have "\<not> tcp_acceptable (tcp_at 0 ?w) \<lparr>seg_seq = 99, seg_ack = 7, seg_len = 0, seg_wnd = 0, seg_up = 0\<rparr>"
    by (simp add: at) (simp add: tcp_sample_pcb_def tcp_acceptable_def Let_def)
  moreover have "tcp_ok ?w"
    "tcp_pcb_select \<lparr>ep_addr = 2, ep_port = 5\<rparr> (Some \<lparr>ep_addr = 3, ep_port = 80\<rparr>) (tcp_pcbs ?w) = Some 0"
    using est unfolding tcp_established_def by blast+
  ultimately show ?thesis by (intro tcp_outside_window [THEN conjunct2])
qed

end
