(* ===== verification/Icmp.thy ===== *)
theory Icmp
  imports Ip
begin

text \<open>
  \<^verbatim>\<open>kernel/network/icmp.c\<close>: ICMP messages and the echo service.
\<close>

section \<open>Messages\<close>

definition ICMP_TYPE_ECHOREPLY :: u8 where "ICMP_TYPE_ECHOREPLY = 0"
definition ICMP_TYPE_DEST_UNREACH :: u8 where "ICMP_TYPE_DEST_UNREACH = 3"
definition ICMP_TYPE_SOURCE_QUENCH :: u8 where "ICMP_TYPE_SOURCE_QUENCH = 4"
definition ICMP_TYPE_REDIRECT :: u8 where "ICMP_TYPE_REDIRECT = 5"
definition ICMP_TYPE_ECHO :: u8 where "ICMP_TYPE_ECHO = 8"
definition ICMP_TYPE_TIME_EXCEEDED :: u8 where "ICMP_TYPE_TIME_EXCEEDED = 11"
definition ICMP_TYPE_PARAM_PROBLEM :: u8 where "ICMP_TYPE_PARAM_PROBLEM = 12"
definition ICMP_TYPE_TIMESTAMP :: u8 where "ICMP_TYPE_TIMESTAMP = 13"
definition ICMP_TYPE_TIMESTAMPREPLY :: u8 where "ICMP_TYPE_TIMESTAMPREPLY = 14"
definition ICMP_TYPE_INFO_REQUEST :: u8 where "ICMP_TYPE_INFO_REQUEST = 15"
definition ICMP_TYPE_INFO_REPLY :: u8 where "ICMP_TYPE_INFO_REPLY = 16"
definition ICMP_HDR_SIZE :: nat where "ICMP_HDR_SIZE = 8"
definition ICMP_BUFSIZ :: nat where "ICMP_BUFSIZ = IP_PAYLOAD_SIZE_MAX"

record icmp_hdr =
  icmp_type :: u8
  icmp_code :: u8
  icmp_sum :: u16
  icmp_values :: u32

definition store_icmp_hdr :: "icmp_hdr \<Rightarrow> u8 list" where
  "store_icmp_hdr h =
     [icmp_type h, icmp_code h] @ store16 (icmp_sum h) @ store32 (icmp_values h)"

definition load_icmp_hdr :: "u8 list \<Rightarrow> icmp_hdr" where
  "load_icmp_hdr bs =
     \<lparr>icmp_type = bs ! 0, icmp_code = bs ! 1, icmp_sum = load16 bs 2, icmp_values = load32 bs 4\<rparr>"

definition icmp_type_ntoa :: "u8 \<Rightarrow> string" where
  "icmp_type_ntoa type =
     (if type = ICMP_TYPE_ECHOREPLY then ''EchoReply''
      else if type = ICMP_TYPE_DEST_UNREACH then ''DestinationUnreachable''
      else if type = ICMP_TYPE_SOURCE_QUENCH then ''SourceQuench''
      else if type = ICMP_TYPE_REDIRECT then ''Redirect''
      else if type = ICMP_TYPE_ECHO then ''Echo''
      else if type = ICMP_TYPE_TIME_EXCEEDED then ''TimeExceeded''
      else if type = ICMP_TYPE_PARAM_PROBLEM then ''ParameterProblem''
      else if type = ICMP_TYPE_TIMESTAMP then ''Timestamp''
      else if type = ICMP_TYPE_TIMESTAMPREPLY then ''TimestampReply''
      else if type = ICMP_TYPE_INFO_REQUEST then ''InformationRequest''
      else if type = ICMP_TYPE_INFO_REPLY then ''InformationReply''
      else ''Unknown'')"

section \<open>Output and input\<close>

text \<open>
  \<open>mem\<close> is the memory from the data pointer on and \<open>len\<close> the length argument; a length that
  does not fit in the memory or in the buffer is an undefined access.
\<close>

definition icmp_output ::
  "u8 \<Rightarrow> u8 \<Rightarrow> u32 \<Rightarrow> u8 list \<Rightarrow> nat \<Rightarrow> u32 \<Rightarrow> u32 \<Rightarrow> ('d, 'm) ip_state_scheme \<Rightarrow>
     int \<times> ('d, 'm) ip_state_scheme" where
  "icmp_output type code vals mem len src dst w =
     (if length mem < len \<or> ICMP_BUFSIZ < ICMP_HDR_SIZE + len then (-1, fault w)
      else
        let hdr = \<lparr>icmp_type = type, icmp_code = code, icmp_sum = 0, icmp_values = vals\<rparr>;
            data = take len mem;
            msg_len = ICMP_HDR_SIZE + len
        in case cksum16 (store_icmp_hdr hdr @ data) (of_nat msg_len) 0 of
             None \<Rightarrow> (-1, fault w)
           | Some s \<Rightarrow> ip_output IP_PROTOCOL_ICMP (store_icmp_hdr (hdr\<lparr>icmp_sum := s\<rparr>) @ data) src dst w)"

definition icmp_input ::
  "u8 list \<Rightarrow> nat \<Rightarrow> u32 \<Rightarrow> u32 \<Rightarrow> nat \<Rightarrow> ('d, 'm) ip_state_scheme \<Rightarrow> ('d, 'm) ip_state_scheme" where
  "icmp_input mem len src dst iface w =
     (if len < ICMP_HDR_SIZE then w
      else case cksum16 mem (of_nat len) 0 of
        None \<Rightarrow> fault w
      | Some s \<Rightarrow>
          if s \<noteq> 0 then w
          else if length mem < ICMP_HDR_SIZE then fault w
          else
            let hdr = load_icmp_hdr mem
            in if icmp_type hdr = ICMP_TYPE_ECHO then
                 let dst' = (if dst \<noteq> unicast (iface_heap w iface) then unicast (iface_heap w iface) else dst)
                 in snd (icmp_output ICMP_TYPE_ECHOREPLY (icmp_code hdr) (icmp_values hdr)
                      (drop ICMP_HDR_SIZE mem) (len - ICMP_HDR_SIZE) dst' src w)
               else w)"

definition icmp_init :: "('d, 'm) ip_state_scheme \<Rightarrow> int \<times> ('d, 'm) ip_state_scheme" where
  "icmp_init w =
     (let (r, w1) = ip_protocol_register IP_PROTOCOL_ICMP Icmp_input w
      in if r = -1 then (-1, w1) else (0, w1))"

lemmas icmp_consts = ICMP_TYPE_ECHOREPLY_def ICMP_TYPE_ECHO_def ICMP_HDR_SIZE_def ICMP_BUFSIZ_def
  IP_PAYLOAD_SIZE_MAX_def

section \<open>The message on the wire\<close>

definition icmp_message :: "u8 \<Rightarrow> u8 \<Rightarrow> u32 \<Rightarrow> u8 list \<Rightarrow> u8 list" where
  "icmp_message type code vals data =
     (let h = \<lparr>icmp_type = type, icmp_code = code, icmp_sum = 0, icmp_values = vals\<rparr>
      in store_icmp_hdr (h\<lparr>icmp_sum :=
           the (cksum16 (store_icmp_hdr h @ data) (of_nat (8 + length data)) 0)\<rparr>) @ data)"

lemma length_store_icmp_hdr [simp]: "length (store_icmp_hdr h) = 8"
  by (simp add: store_icmp_hdr_def)

lemma length_icmp_message [simp]: "length (icmp_message type code vals data) = 8 + length data"
  by (simp add: icmp_message_def Let_def)

lemma load_store_icmp_hdr [hdr_simps]: "load_icmp_hdr (store_icmp_hdr h @ bs) = h"
proof -
  obtain m0 m1 where m: "store16 (icmp_sum h) = [m0, m1]" "ucast m0 OR push_bit 8 (ucast m1) = icmp_sum h"
    by (rule store16_bytes)
  obtain s0 s1 s2 s3 where s: "store32 (icmp_values h) = [s0, s1, s2, s3]"
    "ucast s0 OR push_bit 8 (ucast s1) OR push_bit 16 (ucast s2) OR push_bit 24 (ucast s3) = icmp_values h"
    by (rule store32_bytes)
  show ?thesis by (simp add: load_icmp_hdr_def store_icmp_hdr_def load16_def load32_def m s)
qed

text \<open>Bytes behind the message, such as Ethernet padding, do not take part in the checksum.\<close>

lemma icmp_message_verifies:
  assumes "length data \<le> 65527"
  shows "cksum16 (icmp_message type code vals data @ pad) (of_nat (8 + length data)) 0 = Some 0"
proof -
  let ?h = "\<lparr>icmp_type = type, icmp_code = code, icmp_sum = 0, icmp_values = vals\<rparr> :: icmp_hdr"
  let ?n = "of_nat (8 + length data) :: u16"
  have s: "store_icmp_hdr (?h\<lparr>icmp_sum := v\<rparr>) @ xs = [type, code] @ store16 v @ (store32 vals @ xs)" for v xs
    by (simp add: store_icmp_hdr_def)
  have "unat ?n = 8 + length data" using assms by (intro unat_of_nat_u16) simp
  then obtain c where c: "cksum16 (store_icmp_hdr ?h @ data) ?n 0 = Some c" by (simp add: cksum16_def)
  then have "cksum16 ([type, code] @ store16 0 @ (store32 vals @ data) @ []) ?n 0 = Some c"
    using s [of 0 data] by simp
  then have "cksum16 ([type, code] @ store16 c @ (store32 vals @ data) @ pad) ?n 0 = Some 0"
    using assms by (intro cksum16_fill [of _ _ _ _ "[]" c]) simp_all
  moreover have "icmp_message type code vals data @ pad = store_icmp_hdr (?h\<lparr>icmp_sum := c\<rparr>) @ data @ pad"
    unfolding icmp_message_def Let_def c by simp
  ultimately show ?thesis by (simp only: s append_assoc)
qed

lemma icmp_output_message:
  assumes "len \<le> length mem" and "len \<le> 4068"
  shows "icmp_output type code vals mem len src dst w =
           ip_output IP_PROTOCOL_ICMP (icmp_message type code vals (take len mem)) src dst w"
proof -
  let ?h = "\<lparr>icmp_type = type, icmp_code = code, icmp_sum = 0, icmp_values = vals\<rparr> :: icmp_hdr"
  have "unat (of_nat (8 + len) :: u16) = 8 + len" using assms by (intro unat_of_nat_u16) simp
  then obtain c where c: "cksum16 (store_icmp_hdr ?h @ take len mem) (of_nat (8 + len)) 0 = Some c"
    using assms by (auto simp: cksum16_def)
  moreover have "length (take len mem) = len" using assms by simp
  ultimately show ?thesis
    using assms by (simp add: icmp_output_def icmp_message_def icmp_consts ip_consts Let_def)
qed

lemma icmp_input_echo:
  assumes "length data \<le> 4068"
  shows "icmp_input (icmp_message ICMP_TYPE_ECHO code vals data @ pad) (8 + length data) src dst iface w =
    snd (ip_output IP_PROTOCOL_ICMP (icmp_message ICMP_TYPE_ECHOREPLY code vals data)
           (unicast (iface_heap w iface)) src w)"
proof -
  let ?m = "icmp_message ICMP_TYPE_ECHO code vals data @ pad"
  have ok: "cksum16 ?m (of_nat (8 + length data)) 0 = Some 0"
    using assms by (intro icmp_message_verifies) simp
  have l: "icmp_type (load_icmp_hdr ?m) = ICMP_TYPE_ECHO" "icmp_code (load_icmp_hdr ?m) = code"
    "icmp_values (load_icmp_hdr ?m) = vals"
    by (simp_all add: icmp_message_def Let_def hdr_simps)
  have d: "drop 8 (icmp_message ICMP_TYPE_ECHO code vals data) = data"
    by (simp add: icmp_message_def Let_def)
  have out: "icmp_output ICMP_TYPE_ECHOREPLY code vals (data @ pad) (length data) s src w =
      ip_output IP_PROTOCOL_ICMP (icmp_message ICMP_TYPE_ECHOREPLY code vals data) s src w" for s
    using icmp_output_message [of "length data" "data @ pad" ICMP_TYPE_ECHOREPLY code vals s src w] assms
    by simp
  show ?thesis
    unfolding icmp_input_def ok using l by (simp add: ICMP_HDR_SIZE_def d out Let_def)
qed

lemma icmp_input_frame:
  assumes "arp_inv w"
  shows "ip_only w (icmp_input mem len src dst iface w) \<and> arp_inv (icmp_input mem len src dst iface w)"
proof -
  have f: "ip_only w (fault w) \<and> arp_inv (fault w)" using assms by (simp add: arp_inv_def fault_def ip_only_def)
  have "ip_only w (snd (icmp_output a b c m l s d w)) \<and> arp_inv (snd (icmp_output a b c m l s d w))"
    for a b c m l s d
    using f ip_output_frame [OF assms] by (auto simp: icmp_output_def Let_def split: option.splits)
  with f assms show ?thesis by (auto simp: icmp_input_def Let_def split: option.splits)
qed

section \<open>Claims\<close>

text \<open>
  The echo service. An echo request that reaches \<^verbatim>\<open>icmp_input\<close>, for the interface's
  address or a broadcast address, padded or not, is answered by one echo reply to its sender
  from the interface's own address, with the request's code, identifier, sequence number and
  data and a valid checksum.
\<close>

lemma icmp_echo:
  assumes "length data \<le> 4068"
  shows "\<exists>reply.
    icmp_input (icmp_message ICMP_TYPE_ECHO code vals data @ pad) (8 + length data) src dst iface w =
      snd (ip_output IP_PROTOCOL_ICMP reply (unicast (iface_heap w iface)) src w) \<and>
    load_icmp_hdr reply = \<lparr>icmp_type = ICMP_TYPE_ECHOREPLY, icmp_code = code,
      icmp_sum = icmp_sum (load_icmp_hdr reply), icmp_values = vals\<rparr> \<and>
    drop 8 reply = data \<and> cksum16 reply (of_nat (length reply)) 0 = Some 0"
proof (intro exI conjI)
  let ?r = "icmp_message ICMP_TYPE_ECHOREPLY code vals data"
  show "icmp_input (icmp_message ICMP_TYPE_ECHO code vals data @ pad) (8 + length data) src dst iface w =
      snd (ip_output IP_PROTOCOL_ICMP ?r (unicast (iface_heap w iface)) src w)"
    using assms by (rule icmp_input_echo)
  show "load_icmp_hdr ?r = \<lparr>icmp_type = ICMP_TYPE_ECHOREPLY, icmp_code = code,
      icmp_sum = icmp_sum (load_icmp_hdr ?r), icmp_values = vals\<rparr>"
    by (simp add: icmp_message_def Let_def hdr_simps)
  show "drop 8 ?r = data" by (simp add: icmp_message_def Let_def)
  show "cksum16 ?r (of_nat (length ?r)) 0 = Some 0"
    using icmp_message_verifies [of data ICMP_TYPE_ECHOREPLY code vals "[]"] assms by simp
qed

lemma icmp_echo_witness:
  "\<exists>reply. icmp_input (icmp_message ICMP_TYPE_ECHO 0 7 [1, 2, 3] @ [0]) 11 9 5 0 (ip_host [1] 2 3 [4]) =
      snd (ip_output IP_PROTOCOL_ICMP reply 2 9 (ip_host [1] 2 3 [4])) \<and> drop 8 reply = [1, 2, 3]"
  using icmp_echo [of "[1, 2, 3]" 0 7 "[0]" 9 5 0 "ip_host [1] 2 3 [4]"]
  by (auto simp: ip_host_fields host_ready)

end
