(* ===== verification/Stack.thy ===== *)
theory Stack
  imports TcpSend Icmp
begin

text \<open>
  The network stack put together: the functions behind the handler pointers, \<^verbatim>\<open>net_init\<close>, and
  the events that change the state of the stack, with the invariant all of them keep.
\<close>

section \<open>Handlers\<close>

text \<open>What is registered with \<^verbatim>\<open>ip_protocol_register\<close>, \<^verbatim>\<open>net_protocol_register\<close> and
  \<^verbatim>\<open>net_timer_register\<close>.\<close>

definition ip_handler_call ::
  "ip_handler \<Rightarrow> u8 list \<Rightarrow> nat \<Rightarrow> u32 \<Rightarrow> u32 \<Rightarrow> nat \<Rightarrow> ('d, 'm) tcp_state_scheme \<Rightarrow> ('d, 'm) tcp_state_scheme" where
  "ip_handler_call h mem len src dst iface w =
     (case h of
        Icmp_input \<Rightarrow> icmp_input mem len src dst iface w
      | Udp_input \<Rightarrow> udp_input mem len src dst iface w
      | Tcp_input \<Rightarrow> tcp_input mem len src dst iface w)"

definition proto_handler_call ::
  "proto_handler \<Rightarrow> u8 list \<Rightarrow> nat \<Rightarrow> ('d, 'm) tcp_state_scheme \<Rightarrow> ('d, 'm) tcp_state_scheme" where
  "proto_handler_call h data dev w =
     (case h of Arp_input \<Rightarrow> arp_input data dev w | Ip_input \<Rightarrow> ip_input ip_handler_call data dev w)"

definition timer_handler_call ::
  "timer_handler \<Rightarrow> ('d, 'm) tcp_state_scheme \<Rightarrow> ('d, 'm) tcp_state_scheme" where
  "timer_handler_call h w = (case h of Arp_timer \<Rightarrow> arp_timer w | Tcp_timer \<Rightarrow> tcp_timer w)"

definition net_interrupt :: "('d, 'm) tcp_state_scheme \<Rightarrow> ('d, 'm) tcp_state_scheme" where
  "net_interrupt w = w"

definition net_init :: "('d, 'm) tcp_state_scheme \<Rightarrow> int \<times> ('d, 'm) tcp_state_scheme" where
  "net_init w =
     (let (r, w1) = arp_init w
      in if r = -1 then (-1, w1)
         else let (r, w2) = ip_init w1
              in if r = -1 then (-1, w2)
                 else let (r, w3) = icmp_init w2
                      in if r = -1 then (-1, w3)
                         else let (r, w4) = udp_init w3
                              in if r = -1 then (-1, w4)
                                 else let (r, w5) = tcp_init w4
                                      in if r = -1 then (-1, w5) else (0, w5))"

section \<open>What UDP changes\<close>

definition udp_only :: "('d, 'm) udp_state_scheme \<Rightarrow> ('d, 'm) udp_state_scheme \<Rightarrow> bool" where
  "udp_only w w' \<longleftrightarrow>
     w' = w\<lparr>drv := drv w', ub := ub w', caches := caches w', ip_id := ip_id w', alloc_no := alloc_no w',
            wakeups := wakeups w', udp_pcbs := udp_pcbs w'\<rparr> \<and> (ub w \<longrightarrow> ub w')"

lemma udp_only_refl [simp]: "udp_only w w"
  by (simp add: udp_only_def)

lemma udp_only_trans: "udp_only w1 w2 \<Longrightarrow> udp_only w2 w3 \<Longrightarrow> udp_only w1 w3"
  unfolding udp_only_def by (cases w1; cases w2; cases w3) simp

lemma udp_only_fields [simp]:
  "udp_only w (w\<lparr>alloc_no := n\<rparr>)" "udp_only w (fault w)" "udp_only w (cond_broadcast c w)"
  "udp_only w (set_udp i p w)"
  by (simp_all add: udp_only_def fault_def cond_broadcast_def set_udp_def)

lemma ip_udp_only: "ip_only w w' \<Longrightarrow> udp_only w w'"
  unfolding udp_only_def ip_only_def by (cases w; cases w') simp

lemma udp_onlyD:
  assumes "udp_only w w'"
  shows "udp_state.more w' = udp_state.more w" "net_protocols w' = net_protocols w" "softirqs w' = softirqs w"
    "timers w' = timers w"
  using assms unfolding udp_only_def by (cases w; cases w'; simp)+

text \<open>UDP operations keep the ARP cache well-formed and touch their part of the state only.\<close>

definition udp_frame :: "('d, 'm) udp_state_scheme \<Rightarrow> ('d, 'm) udp_state_scheme \<Rightarrow> bool" where
  "udp_frame w w' \<longleftrightarrow> (arp_inv w \<longrightarrow> udp_only w w' \<and> arp_inv w')"

named_theorems frames

lemma udp_frame_trans: "udp_frame w1 w2 \<Longrightarrow> udp_frame w2 w3 \<Longrightarrow> udp_frame w1 w3"
  unfolding udp_frame_def by (blast intro: udp_only_trans)

lemma udp_frame_prims [frames]:
  "udp_frame w w" "udp_frame w (fault w)" "udp_frame w (set_udp i p w)" "udp_frame w (cond_broadcast c w)"
  "udp_frame w (w\<lparr>alloc_no := n\<rparr>)" "udp_frame w (snd (udp_output src dst data w))"
  using udp_output_frame [of w src dst data]
  by (simp_all add: udp_frame_def arp_inv_def fault_def cond_broadcast_def set_udp_def udp_only_def)
    (auto simp: ip_only_def)

lemma udp_frame_deliver [frames]: "udp_frame w (udp_deliver i foreign data w)"
proof (cases rule: udp_deliver_cases [of i foreign data w])
  case (no_memory n)
  then show ?thesis by (simp add: frames)
next
  case (queued n)
  show ?thesis unfolding queued(1)
    by (rule udp_frame_trans [OF udp_frame_trans]) (rule frames)+
qed

lemma udp_frame_release [frames]: "udp_frame w (udp_pcb_release i w)"
  unfolding udp_pcb_release_def Let_def case_prod_beta
  by (auto simp: frames intro: udp_frame_trans frames)

lemma udp_frame_recv_loop [frames]: "udp_frame w (snd (udp_recv_loop st k sz w))"
  by (auto simp: udp_recv_loop_def Let_def frames split: prod.split option.split)

lemma udp_frame_ops [frames]:
  "udp_frame w (udp_input mem len src dst iface w)" "udp_frame w (snd (udp_open w))"
  "udp_frame w (snd (udp_close i w))" "udp_frame w (snd (udp_bind i loc w))"
  "udp_frame w (snd (udp_sendto i data foreign w))" "udp_frame w (snd (udp_recvfrom i sz w))"
  "udp_frame w (snd (udp_recvfrom_woken st k sz w))"
proof -
  show "udp_frame w (udp_input mem len src dst iface w)"
    by (simp add: udp_input_def Let_def frames split: option.split)
  show "udp_frame w (snd (udp_open w))"
    by (simp add: udp_open_def udp_pcb_alloc_def Let_def frames split: option.split)
  show "udp_frame w (snd (udp_close i w))"
    by (simp add: udp_close_def frames split: option.split)
  show "udp_frame w (snd (udp_bind i loc w))"
    by (simp add: udp_bind_def frames split: option.split)
  show "udp_frame w (snd (udp_recvfrom i sz w))"
    by (simp add: udp_recvfrom_def frames split: option.split)
  show "udp_frame w (snd (udp_recvfrom_woken st k sz w))"
    unfolding udp_recvfrom_woken_def by (rule udp_frame_trans) (rule frames)+
  have "udp_frame w (snd (udp_output s d data (set_udp k p w)))" for s d k p
    by (rule udp_frame_trans) (rule frames)+
  then show "udp_frame w (snd (udp_sendto i data foreign w))"
    by (simp add: udp_sendto_def Let_def frames split: option.split)
qed

section \<open>The invariant of the stack\<close>

text \<open>
  The tables have their shape whatever happens; the windows of TCP are within the buffers as long
  as no undefined access happened (the flag is never cleared).
\<close>

definition stack_inv :: "('d, 'm) tcp_state_scheme \<Rightarrow> bool" where
  "stack_inv w \<longleftrightarrow> udp_inv w \<and> tcp_shape w"

definition stack_kept :: "('d, 'm) tcp_state_scheme \<Rightarrow> ('d, 'm) tcp_state_scheme \<Rightarrow> bool" where
  "stack_kept w w' \<longleftrightarrow>
     (stack_inv w \<longrightarrow>
        stack_inv w' \<and> net_protocols w' = net_protocols w \<and> softirqs w' = softirqs w \<and>
        (ub w \<longrightarrow> ub w') \<and> (tcp_ok w \<longrightarrow> ub w' \<or> tcp_ok w'))"

named_theorems keeps

lemma stack_kept_trans: "stack_kept w1 w2 \<Longrightarrow> stack_kept w2 w3 \<Longrightarrow> stack_kept w1 w3"
  unfolding stack_kept_def by auto

lemma stack_inv_frame:
  "caches w' = caches w \<Longrightarrow> udp_pcbs w' = udp_pcbs w \<Longrightarrow> tcp_pcbs w' = tcp_pcbs w \<Longrightarrow> stack_inv w' = stack_inv w"
  "caches w' = caches w \<Longrightarrow> tcp_pcbs w' = tcp_pcbs w \<Longrightarrow> tcp_ok w' = tcp_ok w"
  by (simp_all add: stack_inv_def udp_inv_def tcp_ok_def tcp_shape_def arp_inv_def)

lemma stack_kept_frame:
  "caches w' = caches w \<Longrightarrow> udp_pcbs w' = udp_pcbs w \<Longrightarrow> tcp_pcbs w' = tcp_pcbs w \<Longrightarrow>
     net_protocols w' = net_protocols w \<Longrightarrow> softirqs w' = softirqs w \<Longrightarrow> (ub w \<Longrightarrow> ub w') \<Longrightarrow> stack_kept w w'"
  unfolding stack_kept_def using stack_inv_frame by blast

lemma stack_kept_refl [keeps]: "stack_kept w w"
  by (simp add: stack_kept_def)

lemma stack_kept_ip:
  assumes "arp_inv w \<Longrightarrow> ip_only w w' \<and> arp_inv w'"
  shows "stack_kept w w'"
proof -
  have "stack_inv w' \<and> net_protocols w' = net_protocols w \<and> softirqs w' = softirqs w \<and>
      (ub w \<longrightarrow> ub w') \<and> (tcp_ok w \<longrightarrow> ub w' \<or> tcp_ok w')" if inv: "stack_inv w"
  proof -
    have "arp_inv w" using inv tcp_shapeD(2) by (auto simp: stack_inv_def)
    with assms have i: "ip_only w w'" "arp_inv w'" by simp_all
    have "ub w \<longrightarrow> ub w'" using i(1) by (simp add: ip_only_def)
    with i inv udp_pcbs_ip_only [OF i(1)] tcp_pcbs_ip_only [OF i(1)] ip_onlyD [OF i(1)] show ?thesis
      by (simp add: stack_inv_def udp_inv_def tcp_ok_def tcp_shape_def)
  qed
  then show ?thesis by (simp add: stack_kept_def)
qed

lemma stack_kept_udp:
  assumes "udp_frame w w'" and "udp_inv w \<Longrightarrow> arp_inv w \<Longrightarrow> udp_inv w'"
  shows "stack_kept w w'"
proof -
  have "stack_inv w' \<and> net_protocols w' = net_protocols w \<and> softirqs w' = softirqs w \<and>
      (ub w \<longrightarrow> ub w') \<and> (tcp_ok w \<longrightarrow> ub w' \<or> tcp_ok w')" if inv: "stack_inv w"
  proof -
    have arp: "arp_inv w" and u: "udp_inv w" using inv tcp_shapeD(2) by (auto simp: stack_inv_def)
    with assms(1) have f: "udp_only w w'" "arp_inv w'" by (simp_all add: udp_frame_def)
    have "tcp_pcbs w' = tcp_pcbs w" using udp_onlyD(1) [OF f(1)] by (cases w; cases w') simp
    moreover have "ub w \<longrightarrow> ub w'" using f(1) by (simp add: udp_only_def)
    ultimately show ?thesis using f(2) udp_onlyD [OF f(1)] inv assms(2) [OF u arp]
      by (simp add: stack_inv_def tcp_ok_def tcp_shape_def)
  qed
  then show ?thesis by (simp add: stack_kept_def)
qed

lemma stack_kept_may:
  assumes "tcp_may R w w'"
  shows "stack_kept w w'"
proof -
  have "stack_inv w' \<and> net_protocols w' = net_protocols w \<and> softirqs w' = softirqs w \<and>
      (ub w \<longrightarrow> ub w') \<and> (tcp_ok w \<longrightarrow> ub w' \<or> tcp_ok w')" if inv: "stack_inv w"
  proof -
    have w: "tcp_shape w" "udp_inv w" using inv by (simp_all add: stack_inv_def)
    note d = tcp_mayD [OF assms w(1)]
    from w(2) have "udp_inv w'" by (simp add: udp_inv_def tcp_onlyD [OF d(1)])
    with d show ?thesis by (auto simp: stack_inv_def tcp_onlyD tcp_only_ub)
  qed
  then show ?thesis by (simp add: stack_kept_def)
qed

lemma stack_kept_tcp: "tcp_evolves R w w' \<Longrightarrow> stack_kept w w'"
  by (rule stack_kept_may) (erule tcp_evolves_may)

lemma stack_kept_icmp: "stack_kept w (icmp_input mem len src dst iface w)"
  by (rule stack_kept_ip) (rule icmp_input_frame)

lemma stack_kept_arp:
  "stack_kept w (arp_input data dev w)" "stack_kept w (arp_timer w)"
proof -
  show "stack_kept w (arp_timer w)"
    using arp_timer_only [of w] by (intro stack_kept_ip) (simp add: arp_ip_only arp_timer_map(1))
  show "stack_kept w (arp_input data dev w)"
    using arp_input_inv [of w data dev] by (intro stack_kept_ip) (simp add: arp_ip_only)
qed

lemma stack_kept_udp_ops [keeps]:
  "stack_kept w (udp_input mem len src dst iface w)" "stack_kept w (snd (udp_open w))"
  "stack_kept w (snd (udp_close i w))" "stack_kept w (snd (udp_bind i loc w))"
  "stack_kept w (snd (udp_sendto i data foreign w))" "stack_kept w (snd (udp_recvfrom i sz w))"
  by (rule stack_kept_udp; simp add: frames udp_open_inv udp_close_inv udp_bind_inv udp_sendto_inv udp_input_inv
      udp_recvfrom_inv)+

lemma stack_kept_tcp_advances: "tcp_advances w w' \<Longrightarrow> stack_kept w w'"
  unfolding tcp_advances_def by (rule stack_kept_tcp)

lemma stack_kept_tcp_ops [keeps]:
  "stack_kept w (tcp_input mem len src dst iface w)" "stack_kept w (tcp_timer w)"
  "stack_kept w (snd (tcp_open w))" "stack_kept w (snd (tcp_open_rfc793 loc remote active w))"
  "stack_kept w (snd (tcp_open_woken k w))" "stack_kept w (snd (tcp_connect i foreign w))"
  "stack_kept w (snd (tcp_bind i loc w))" "stack_kept w (snd (tcp_listen i w))"
  "stack_kept w (snd (tcp_accept i w))" "stack_kept w (snd (tcp_accept_woken p w))"
  "stack_kept w (snd (tcp_receive i sz w))" "stack_kept w (snd (tcp_receive_woken sz p w))"
  "stack_kept w (snd (tcp_close i w))"
  "tcp_send i data w = Some r \<Longrightarrow> stack_kept w (snd r)" "tcp_send_woken data j w = Some r \<Longrightarrow> stack_kept w (snd r)"
proof -
  show "stack_kept w (tcp_input mem len src dst iface w)" by (rule stack_kept_may) (rule tcp_may_input)
  show "stack_kept w (snd (tcp_connect i foreign w))"
    by (cases "tcp_pcb_get i (tcp_pcbs w)")
      (simp add: tcp_connect_def stack_kept_refl, rule stack_kept_tcp, rule tcp_puts_connect)
  show "stack_kept w (snd (tcp_listen i w))"
    by (cases "tcp_pcb_get i (tcp_pcbs w)")
      (simp add: tcp_listen_def stack_kept_refl, rule stack_kept_tcp, rule tcp_puts_listen)
  show "tcp_send i data w = Some r \<Longrightarrow> stack_kept w (snd r)" "tcp_send_woken data j w = Some r \<Longrightarrow> stack_kept w (snd r)"
    by (intro stack_kept_tcp_advances tcp_resets_advances tcp_resets_send; simp)+
qed (simp_all add: stack_kept_tcp_advances evolves tcp_quiet_advances tcp_forwards_advances tcp_resets_advances)

section \<open>Packets and timers\<close>

lemma ip_input_result:
  assumes "P w" and "P (fault w)" and "\<And>h m l s d i. P (call h m l s d i w)"
  shows "P (ip_input call data dev w)"
  using assms by (simp add: ip_input_def Let_def split: option.split)

lemma stack_kept_ip_handler: "stack_kept w (ip_handler_call h m l s d i w)"
  by (cases h) (simp_all add: ip_handler_call_def stack_kept_icmp keeps)

lemma stack_kept_handler [keeps]: "stack_kept w (proto_handler_call h data dev w)"
proof (cases h)
  case Arp_input
  then show ?thesis by (simp add: proto_handler_call_def stack_kept_arp)
next
  case Ip_input
  have "stack_kept w (fault w)" by (rule stack_kept_frame) (simp_all add: fault_def)
  then have "stack_kept w (ip_input ip_handler_call data dev w)"
    by (intro ip_input_result [where P = "stack_kept w"] stack_kept_refl stack_kept_ip_handler)
  with Ip_input show ?thesis by (simp add: proto_handler_call_def)
qed

definition stack_safe :: "('d, 'm) tcp_state_scheme \<Rightarrow> bool" where
  "stack_safe w \<longleftrightarrow> stack_inv w \<and> (ub w \<or> tcp_ok w)"

lemma stack_safe_frame:
  assumes "caches w' = caches w" "udp_pcbs w' = udp_pcbs w" "tcp_pcbs w' = tcp_pcbs w" "ub w' = ub w"
  shows "stack_safe w' = stack_safe w"
  using stack_inv_frame(1) [OF assms(1-3)] stack_inv_frame(2) [OF assms(1,3)] assms(4) by (simp add: stack_safe_def)

lemma stack_safe_fields:
  "stack_safe (w\<lparr>net_protocols := ps\<rparr>) = stack_safe w" "stack_safe (w\<lparr>softirqs := n\<rparr>) = stack_safe w"
  by (rule stack_safe_frame; simp)+

lemma stack_safe_kept: "stack_safe w \<Longrightarrow> stack_kept w w' \<Longrightarrow> stack_safe w'"
  by (auto simp: stack_safe_def stack_kept_def)

lemma handler_laws:
  assumes "stack_safe w"
  shows "net_protocols (proto_handler_call h data dev w) = net_protocols w"
    "softirqs (proto_handler_call h data dev w) = softirqs w" "stack_safe (proto_handler_call h data dev w)"
  using stack_kept_handler [of w h data dev] stack_safe_kept [OF assms stack_kept_handler] assms
  by (simp_all add: stack_kept_def stack_safe_def)

interpretation stack: packet_handlers proto_handler_call stack_safe
  by unfold_locales (simp_all add: handler_laws stack_safe_fields)

definition stack_ok :: "('d, 'm) tcp_state_scheme \<Rightarrow> bool" where
  "stack_ok w \<longleftrightarrow> stack_safe w \<and> proto_inv w \<and> covered w"

lemma stack_ok_kept: "stack_ok w \<Longrightarrow> stack_kept w w' \<Longrightarrow> stack_ok w'"
  using stack_safe_kept [of w w'] by (simp add: stack_ok_def stack_safe_def stack_kept_def proto_inv_def covered_def)

lemma stack_ok_arrival:
  assumes "stack_ok w"
  shows "stack_ok (snd (net_input_handler type data dev w))"
proof -
  let ?w' = "snd (net_input_handler type data dev w)"
  have "caches ?w' = caches w \<and> udp_pcbs ?w' = udp_pcbs w \<and> tcp_pcbs ?w' = tcp_pcbs w \<and> ub ?w' = ub w"
    by (cases rule: net_input_handler_cases [of w type data dev]) simp_all
  then have "stack_safe ?w' = stack_safe w" by (intro stack_safe_frame) simp_all
  with assms show ?thesis by (simp add: stack_ok_def net_input_handler_inv net_input_handler_covered)
qed

lemma stack_ok_softirq:
  assumes "stack_ok w" and "0 < softirqs w"
  shows "stack_ok (softirq_message proto_handler_call w)"
  using assms by (simp add: stack_ok_def stack.softirq_message_kept stack.covered_message stack.proto_inv_message)

lemma stack_kept_timers:
  "stack_kept w (timer_loop timer_handler_call is w)"
proof (induction "is" arbitrary: w)
  case Nil
  show ?case by (simp add: keeps)
next
  case (Cons i "is")
  let ?w1 = "timer_handler_call (nt_handler (timers w ! i)) w"
  let ?w2 = "?w1\<lparr>timers := (timers ?w1)[i := (timers ?w1 ! i)\<lparr>nt_last := gettimeofday w\<rparr>]\<rparr>"
  have "stack_kept w ?w1"
    by (cases "nt_handler (timers w ! i)") (simp_all add: timer_handler_call_def stack_kept_arp keeps)
  moreover have "stack_kept ?w1 ?w2" by (rule stack_kept_frame) simp_all
  ultimately have "stack_kept w ?w2" by (rule stack_kept_trans)
  then have "stack_kept w (timer_loop timer_handler_call is ?w2)" using Cons.IH by (rule stack_kept_trans)
  with Cons.IH [of w] show ?case by (simp only: timer_loop.simps Let_def split: if_split) blast
qed

lemma stack_kept_device:
  "stack_kept w (snd (net_device_open dev w))" "stack_kept w (snd (net_device_close dev w))"
proof -
  have c: "stack_kept w (snd (call_op f dev w))" for f
    by (cases f) (auto simp: call_op_def Let_def case_prod_beta intro: stack_kept_frame keeps)
  have "stack_kept v (set_dev dev d v)" for d and v :: "('a, 'b) tcp_state_scheme"
    by (rule stack_kept_frame) (simp_all add: set_dev_def)
  with c show "stack_kept w (snd (net_device_open dev w))" "stack_kept w (snd (net_device_close dev w))"
    by (auto simp: net_device_open_def net_device_close_def Let_def case_prod_beta keeps intro: stack_kept_trans)
qed

section \<open>Events\<close>

text \<open>
  What happens to the stack: the rest of the machine goes on (the driver's state, the clock,
  the running task, allocations and random numbers of others), devices are opened and closed,
  a driver hands over a packet, the network task serves a message, the timers run, and tasks
  call the commands of UDP and TCP or continue after a sleep.
\<close>

inductive stack_step :: "('d, 'm) tcp_state_scheme \<Rightarrow> ('d, 'm) tcp_state_scheme \<Rightarrow> bool" where
  others: "stack_step w (w\<lparr>drv := d, tick := tick w + n, cur_task := t, alloc_no := a, random_no := r\<rparr>)"
| device: "w' \<in> {snd (net_device_open dev w), snd (net_device_close dev w)} \<Longrightarrow> stack_step w w'"
| arrival: "stack_step w (snd (net_input_handler type data dev w))"
| softirq_served: "0 < softirqs w \<Longrightarrow> stack_step w (softirq_message proto_handler_call w)"
| timers_run: "stack_step w (net_timer_handler timer_handler_call w)"
| udp_command: "w' \<in> {snd (udp_open w), snd (udp_close i w), snd (udp_bind i loc w),
      snd (udp_sendto i data foreign w), snd (udp_recvfrom i sz w)} \<Longrightarrow> stack_step w w'"
| udp_continued: "k < 16 \<Longrightarrow> c_num (up_cond (udp_pcbs w ! k)) \<noteq> 0 \<Longrightarrow>
      stack_step w (snd (udp_recvfrom_woken UDP_OPEN k sz w))"
| tcp_command: "w' \<in> {snd (tcp_open w), snd (tcp_open_rfc793 loc remote active w), snd (tcp_connect i foreign w),
      snd (tcp_bind i loc w), snd (tcp_listen i w), snd (tcp_accept i w), snd (tcp_receive i sz w),
      snd (tcp_close i w)} \<Longrightarrow> stack_step w w'"
| tcp_sent: "tcp_send i data w = Some (r, w') \<Longrightarrow> stack_step w w'"
| tcp_continued: "w' \<in> {snd (tcp_open_woken k w), snd (tcp_accept_woken p w), snd (tcp_receive_woken sz p w)} \<Longrightarrow>
      stack_step w w'"
| tcp_send_continued: "tcp_send_woken data j w = Some (r, w') \<Longrightarrow> stack_step w w'"

inductive_cases stack_stepE: "stack_step w w'"

lemma stack_ok_step:
  assumes "stack_step w w'" and "stack_ok w"
  shows "stack_ok w'"
  using assms
proof (cases rule: stack_step.cases)
  case others
  then show ?thesis by (intro stack_ok_kept [OF assms(2)] stack_kept_frame) simp_all
next
  case (device dev)
  with assms(2) show ?thesis by (auto intro: stack_ok_kept stack_kept_device)
next
  case (timers_run)
  with assms(2) show ?thesis by (auto simp: net_timer_handler_def intro: stack_ok_kept stack_kept_timers)
next
  case (udp_command i loc data foreign sz)
  with assms(2) show ?thesis by (auto intro: stack_ok_kept keeps)
next
  case (udp_continued k sz)
  have "stack_kept w w'"
    unfolding udp_continued(1) by (rule stack_kept_udp) (use udp_continued in \<open>simp_all add: frames udp_recvfrom_woken_inv\<close>)
  with assms(2) show ?thesis by (rule stack_ok_kept)
next
  case (tcp_command loc remote active i foreign sz)
  with assms(2) show ?thesis by (auto intro: stack_ok_kept keeps)
next
  case (tcp_sent i data r)
  with assms(2) show ?thesis by (metis snd_conv stack_ok_kept stack_kept_tcp_ops(14))
next
  case (tcp_continued k p sz)
  with assms(2) show ?thesis by (auto intro: stack_ok_kept keeps)
next
  case (tcp_send_continued data j r)
  with assms(2) show ?thesis by (metis snd_conv stack_ok_kept stack_kept_tcp_ops(15))
qed (use assms(2) in \<open>simp_all add: stack_ok_arrival stack_ok_softirq\<close>)

lemma stack_ok_reachable: "stack_step\<^sup>*\<^sup>* w w' \<Longrightarrow> stack_ok w \<Longrightarrow> stack_ok w'"
  by (induction rule: rtranclp_induct) (simp_all add: stack_ok_step)

section \<open>Start\<close>

text \<open>The static variables as they are before \<^verbatim>\<open>net_init\<close>: all zeros.\<close>

definition net_reset :: "('d, 'm) tcp_state_scheme \<Rightarrow> bool" where
  "net_reset w \<longleftrightarrow>
     net_protocols w = [] \<and> timers w = [] \<and> softirqs w = 0 \<and> ip_protocols w = [] \<and>
     caches w = replicate 32 \<lparr>ac_state = ARP_FREE, ac_pa = 0, ac_ha = replicate 6 0, ac_timestamp = timerclear\<rparr> \<and>
     udp_pcbs w = replicate 16 zero_udp_pcb \<and> tcp_pcbs w = replicate 16 zero_tcp_pcb"

lemma net_reset_inv:
  assumes "net_reset w"
  shows "stack_safe w"
proof -
  have "arp_inv w"
    using assms by (auto simp: net_reset_def arp_inv_def table_ok_def ARP_CACHE_SIZE_def)
  moreover have "udp_inv w"
    using assms
    by (auto simp: net_reset_def udp_inv_def udp_table_def udp_pcb_ok_def udp_bound_def zero_udp_pcb_def UDP_PCB_SIZE_def)
  ultimately show ?thesis
    using assms zero_tcp_pcb_ok
    by (auto simp: stack_safe_def stack_inv_def tcp_ok_def tcp_shape_def tcp_pcb_ok_def net_reset_def)
qed

lemma net_init_result:
  assumes reset: "net_reset w" and mem: "\<forall>k < 7. alloc_ok w (alloc_no w + k)"
  shows "net_init w = (0, w\<lparr>alloc_no := alloc_no w + 7,
     net_protocols := [\<lparr>np_type = NET_PROTOCOL_TYPE_IP, np_queue = [], np_handler = Ip_input\<rparr>,
       \<lparr>np_type = NET_PROTOCOL_TYPE_ARP, np_queue = [], np_handler = Arp_input\<rparr>],
     timers := [\<lparr>nt_interval = \<lparr>tv_sec = 0, tv_usec = 100000\<rparr>, nt_last = gettimeofday w, nt_handler = Tcp_timer\<rparr>,
       \<lparr>nt_interval = \<lparr>tv_sec = 1, tv_usec = 0\<rparr>, nt_last = gettimeofday w, nt_handler = Arp_timer\<rparr>],
     ip_protocols := [\<lparr>ipp_type = IP_PROTOCOL_TCP, ipp_handler = Tcp_input\<rparr>,
       \<lparr>ipp_type = IP_PROTOCOL_UDP, ipp_handler = Udp_input\<rparr>, \<lparr>ipp_type = IP_PROTOCOL_ICMP, ipp_handler = Icmp_input\<rparr>]\<rparr>)"
proof -
  let ?n = "alloc_no w"
  have "alloc_ok w ?n" "alloc_ok w (Suc ?n)" "alloc_ok w (Suc (Suc ?n))" "alloc_ok w (Suc (Suc (Suc ?n)))"
    "alloc_ok w (Suc (Suc (Suc (Suc ?n))))" "alloc_ok w (Suc (Suc (Suc (Suc (Suc ?n)))))"
    "alloc_ok w (Suc (Suc (Suc (Suc (Suc (Suc ?n))))))"
    using mem [rule_format, of 0] mem [rule_format, of 1] mem [rule_format, of 2] mem [rule_format, of 3]
      mem [rule_format, of 4] mem [rule_format, of 5] mem [rule_format, of 6]
    by (simp_all add: eval_nat_numeral)
  then show ?thesis
    using reset
    by (simp add: net_init_def arp_init_def ip_init_def icmp_init_def udp_init_def tcp_init_def net_protocol_register_def
        net_timer_register_def ip_protocol_register_def calloc_def net_reset_def gettimeofday_def
        NET_PROTOCOL_TYPE_IP_def NET_PROTOCOL_TYPE_ARP_def ip_consts)
qed

lemma net_init_ok:
  assumes "net_reset w" and "\<forall>k < 7. alloc_ok w (alloc_no w + k)"
  shows "stack_ok (snd (net_init w))"
proof -
  have "stack_safe (snd (net_init w))"
    unfolding net_init_result [OF assms] snd_conv
    by (rule stack_safe_frame [THEN iffD2, OF _ _ _ _ net_reset_inv [OF assms(1)]]) simp_all
  then show ?thesis
    unfolding net_init_result [OF assms]
    by (simp add: stack_ok_def proto_inv_def covered_def NET_PROTOCOL_TYPE_IP_def NET_PROTOCOL_TYPE_ARP_def)
qed

section \<open>Claims\<close>

text \<open>
  With memory at hand, \<^verbatim>\<open>net_init\<close> succeeds and leaves a well-formed stack, in which the
  handlers of ARP and IP, of the three protocols above IP, and the two timers are registered.
\<close>

lemma net_init_ready:
  assumes "net_reset w" and "\<forall>k < 7. alloc_ok w (alloc_no w + k)"
  shows "fst (net_init w) = 0 \<and> stack_ok (snd (net_init w)) \<and>
    map (\<lambda>p. (np_type p, np_handler p)) (net_protocols (snd (net_init w))) =
      [(NET_PROTOCOL_TYPE_IP, Ip_input), (NET_PROTOCOL_TYPE_ARP, Arp_input)] \<and>
    map (\<lambda>p. (ipp_type p, ipp_handler p)) (ip_protocols (snd (net_init w))) =
      [(IP_PROTOCOL_TCP, Tcp_input), (IP_PROTOCOL_UDP, Udp_input), (IP_PROTOCOL_ICMP, Icmp_input)] \<and>
    map (\<lambda>t. (nt_interval t, nt_handler t)) (timers (snd (net_init w))) =
      [(\<lparr>tv_sec = 0, tv_usec = 100000\<rparr>, Tcp_timer), (\<lparr>tv_sec = 1, tv_usec = 0\<rparr>, Arp_timer)]"
  using net_init_ok [OF assms] unfolding net_init_result [OF assms] by simp

text \<open>A machine before \<^verbatim>\<open>net_init\<close>.\<close>

definition stack_boot :: "unit tcp_state" where
  "stack_boot = (tcp_host [1, 2, 3, 4, 5, 6] 2 3 [6, 5, 4, 3, 2, 1])\<lparr>net_protocols := [], timers := [], softirqs := 0,
     ip_protocols := [], caches := replicate 32 \<lparr>ac_state = ARP_FREE, ac_pa = 0, ac_ha = replicate 6 0,
       ac_timestamp = timerclear\<rparr>\<rparr>"

lemma stack_boot_ready: "net_reset stack_boot" "\<forall>k < 7. alloc_ok stack_boot (alloc_no stack_boot + k)"
  "alloc_ok stack_boot k"
proof -
  show "net_reset stack_boot"
    by (simp add: net_reset_def stack_boot_def tcp_host_fields)
      (simp add: tcp_host_def udp_host_def udp_state.defs tcp_state.defs ip_state.defs)
  have "alloc_ok stack_boot k" for k
    by (simp add: stack_boot_def tcp_host_fields)
      (simp add: ip_host_def host_def arp_boot_def net_boot_def net_state.defs arp_state.defs ip_state.defs Let_def)
  then show "\<forall>k < 7. alloc_ok stack_boot (alloc_no stack_boot + k)" "alloc_ok stack_boot k" by blast+
qed

lemma net_init_ready_witness:
  "fst (net_init stack_boot) = 0 \<and>
   map (\<lambda>p. (ipp_type p, ipp_handler p)) (ip_protocols (snd (net_init stack_boot))) =
     [(IP_PROTOCOL_TCP, Tcp_input), (IP_PROTOCOL_UDP, Udp_input), (IP_PROTOCOL_ICMP, Icmp_input)]"
  using net_init_ready [OF stack_boot_ready(1,2)] by blast

text \<open>
  C15: in every state the stack reaches without an undefined access, whatever packets arrive,
  whatever the tasks call, in whatever order the events happen and whichever allocations fail,
  the ARP cache and the tables of UDP and TCP are well-formed, no protocol is registered twice,
  and every queued packet has a message to the network task outstanding. (An undefined access is
  possible: a TCP segment longer than the window, C12.)
\<close>

theorem stack_reachable_ok:
  fixes w :: "('d, 'm) tcp_state_scheme"
  assumes "net_reset w" and "\<forall>k < 7. alloc_ok w (alloc_no w + k)" and "stack_step\<^sup>*\<^sup>* (snd (net_init w)) w'"
    and "\<not> ub w'"
  shows "arp_inv w' \<and> udp_inv w' \<and> tcp_ok w' \<and> proto_inv w' \<and> covered w'"
  using stack_ok_reachable [OF assms(3) net_init_ok [OF assms(1,2)]] tcp_okD(2) assms(4)
  unfolding stack_ok_def stack_safe_def stack_inv_def by blast

text \<open>An ARP request for the address of the machine.\<close>

definition stack_request :: "u8 list" where
  "stack_request = store_arp_ether (arp_request_msg (dev_heap (host [6, 5, 4, 3, 2, 1] 3) 0)
     (iface_heap (host [6, 5, 4, 3, 2, 1] 3) 0) 2)"

text \<open>It arrives at the machine just started.\<close>

definition stack_requested :: "unit tcp_state" where
  "stack_requested = snd (net_input_handler NET_PROTOCOL_TYPE_ARP stack_request 0 (snd (net_init stack_boot)))"

lemma stack_request_arrives:
  "fst (net_input_handler NET_PROTOCOL_TYPE_ARP stack_request 0 (snd (net_init stack_boot))) = 0"
  "net_protocols stack_requested = [\<lparr>np_type = NET_PROTOCOL_TYPE_IP, np_queue = [], np_handler = Ip_input\<rparr>,
     \<lparr>np_type = NET_PROTOCOL_TYPE_ARP, np_queue = [\<lparr>qe_dev = 0, qe_packet = stack_request\<rparr>], np_handler = Arp_input\<rparr>]"
  "softirqs stack_requested = 1" "\<not> ub stack_requested"
  "dev_heap stack_requested = dev_heap stack_boot" "iface_heap stack_requested = iface_heap stack_boot"
  "caches stack_requested = caches stack_boot"
proof -
  note w = net_init_result [OF stack_boot_ready(1,2)]
  have "net_input_handler NET_PROTOCOL_TYPE_ARP stack_request 0 (snd (net_init stack_boot)) = (0, stack_requested) \<and>
    net_protocols stack_requested = [\<lparr>np_type = NET_PROTOCOL_TYPE_IP, np_queue = [], np_handler = Ip_input\<rparr>,
      \<lparr>np_type = NET_PROTOCOL_TYPE_ARP, np_queue = [\<lparr>qe_dev = 0, qe_packet = stack_request\<rparr>], np_handler = Arp_input\<rparr>] \<and>
    softirqs stack_requested = 1 \<and> ub stack_requested = ub stack_boot \<and> dev_heap stack_requested = dev_heap stack_boot \<and>
    iface_heap stack_requested = iface_heap stack_boot \<and> caches stack_requested = caches stack_boot"
    by (simp add: stack_requested_def w net_input_handler_def calloc_def stack_boot_ready(3) list_push_def Let_def
        softirq_def NET_PROTOCOL_TYPE_ARP_def NET_PROTOCOL_TYPE_IP_def)
      (use stack_boot_ready(1) in \<open>simp add: net_reset_def\<close>)
  moreover have "\<not> ub stack_boot"
    by (simp add: stack_boot_def tcp_host_fields)
      (simp add: ip_host_def host_def arp_boot_def net_boot_def net_state.defs arp_state.defs Let_def)
  ultimately show
    "fst (net_input_handler NET_PROTOCOL_TYPE_ARP stack_request 0 (snd (net_init stack_boot))) = 0"
    "net_protocols stack_requested = [\<lparr>np_type = NET_PROTOCOL_TYPE_IP, np_queue = [], np_handler = Ip_input\<rparr>,
       \<lparr>np_type = NET_PROTOCOL_TYPE_ARP, np_queue = [\<lparr>qe_dev = 0, qe_packet = stack_request\<rparr>], np_handler = Arp_input\<rparr>]"
    "softirqs stack_requested = 1" "\<not> ub stack_requested"
    "dev_heap stack_requested = dev_heap stack_boot" "iface_heap stack_requested = iface_heap stack_boot"
    "caches stack_requested = caches stack_boot"
    by simp_all
qed

theorem stack_reachable_ok_witness:
  "let w' = snd (udp_open stack_requested) in covered w' \<and> tcp_ok w' \<and> udp_inv w' \<and> softirqs w' = 1"
proof -
  let ?w' = "snd (udp_open stack_requested)"
  have "stack_step (snd (net_init stack_boot)) stack_requested"
    unfolding stack_requested_def by (rule arrival)
  moreover have "stack_step stack_requested ?w'" by (rule udp_command) blast
  ultimately have run: "stack_step\<^sup>*\<^sup>* (snd (net_init stack_boot)) ?w'" by simp
  have "ub ?w' = ub stack_requested" "softirqs ?w' = softirqs stack_requested"
    by (simp_all add: udp_open_def udp_pcb_alloc_def set_udp_def Let_def split: option.split)
  then show ?thesis
    using stack_reachable_ok [OF stack_boot_ready(1,2) run] by (simp add: Let_def stack_request_arrives)
qed

text \<open>
  C16: no packet is stranded. A packet of a registered type that was accepted is the last of its
  queue. Every message to the network task takes the first packet of the queue and gives it to
  the handler of its protocol, after the protocols in front of it have been served and before
  those behind it are, so that the packet is handled, with its device, by the message after
  those for the packets queued before it. When the messages outstanding at any time have been
  served, all queues are empty.
\<close>

theorem packets_served:
  fixes w :: "('d, 'm) tcp_state_scheme"
  assumes ok: "stack_ok w" and p: "p \<in> set (net_protocols w)" "np_type p = type"
    and acc: "fst (net_input_handler type data dev w) = 0"
  defines "w1 \<equiv> snd (net_input_handler type data dev w)"
  shows "\<exists>j < length (net_protocols w). net_protocols w ! j = p \<and>
      (let q = np_queue p @ [\<lparr>qe_dev = dev, qe_packet = data\<rparr>];
           u = (\<lambda>n. (softirq_message proto_handler_call ^^ n) w1)
       in (\<forall>n < length q. np_queue (net_protocols (u n) ! j) = drop n q \<and>
            u (Suc n) = softirq_loop proto_handler_call [Suc j..<length (net_protocols w)]
              (proto_handler_call (np_handler p) (qe_packet (q ! n)) (qe_dev (q ! n))
                (serving_state proto_handler_call j (u n)))) \<and>
          (\<forall>p \<in> set (net_protocols (u (softirqs w1))). np_queue p = []))"
proof -
  have inv: "proto_inv w" and ok1: "stack_ok w1"
    using ok stack_ok_arrival by (simp_all add: stack_ok_def w1_def)
  have s1: "stack_safe w1" and c1: "covered w1" using ok1 by (simp_all add: stack_ok_def)
  obtain j where j: "j < length (net_protocols w)" "net_protocols w ! j = p"
      "length (net_protocols w1) = length (net_protocols w)"
      "net_protocols w1 ! j = p\<lparr>np_queue := np_queue p @ [\<lparr>qe_dev = dev, qe_packet = data\<rparr>]\<rparr>"
  proof (cases rule: net_input_handler_cases [of w type data dev])
    case unknown
    with p show thesis by blast
  next
    case no_memory
    with acc show thesis by simp
  next
    case (queued i n)
    from p(1) obtain j where j: "j < length (net_protocols w)" "net_protocols w ! j = p"
      by (metis in_set_conv_nth)
    with inv queued(1,2) p(2) have "j = i"
      by (metis distinct_conv_nth length_map nth_map proto_inv_def)
    with j queued show thesis by (intro that [of j]) (simp_all add: w1_def)
  qed
  have j1: "j < length (net_protocols w1)" using j by simp
  define q where "q = np_queue p @ [\<lparr>qe_dev = dev, qe_packet = data\<rparr>]"
  have q: "net_protocols w1 ! j = p\<lparr>np_queue := q\<rparr>" using j(4) by (simp add: q_def)
  have serves: "np_queue (net_protocols ((softirq_message proto_handler_call ^^ n) w1) ! j) = drop n q \<and>
      (softirq_message proto_handler_call ^^ Suc n) w1 =
        softirq_loop proto_handler_call [Suc j..<length (net_protocols w)]
          (proto_handler_call (np_handler p) (qe_packet (q ! n)) (qe_dev (q ! n))
            (serving_state proto_handler_call j ((softirq_message proto_handler_call ^^ n) w1)))"
    if "n < length q" for n
    using stack.softirq_messages_nth [OF s1 j1, of n] stack.softirq_messages_serve [OF s1 j1, of n] that j(3)
    by (simp add: q del: funpow.simps)
  show ?thesis
    using j(1,2) serves stack.covered_drains [OF s1 c1] unfolding Let_def q_def [symmetric] by blast
qed

text \<open>The request is served: the machine knows the sender afterwards.\<close>

theorem packets_served_witness:
  "arp_resolve 0 3 [] (softirq_message proto_handler_call stack_requested) =
     (ARP_RESOLVE_FOUND, [6, 5, 4, 3, 2, 1], softirq_message proto_handler_call stack_requested)"
proof -
  let ?w = "snd (net_init stack_boot)"
  let ?p = "\<lparr>np_type = NET_PROTOCOL_TYPE_ARP, np_queue = [], np_handler = Arp_input\<rparr>"
  let ?d = "dev_heap (host [6, 5, 4, 3, 2, 1] 3) 0" and ?i = "iface_heap (host [6, 5, 4, 3, 2, 1] 3) 0"
  note w = net_init_result [OF stack_boot_ready(1,2)]
  have p: "?p \<in> set (net_protocols ?w)" "np_type ?p = NET_PROTOCOL_TYPE_ARP" by (simp_all add: w)
  define v where "v = serving_state proto_handler_call 1 stack_requested"
  have v: "v = stack_requested\<lparr>softirqs := 0, net_protocols := (net_protocols stack_requested)[1 := ?p]\<rparr>"
    by (simp add: v_def serving_state_def stack_request_arrives(2,3) Let_def)
  obtain j where j: "j < length (net_protocols ?w)" "net_protocols ?w ! j = ?p"
    "(softirq_message proto_handler_call ^^ Suc 0) stack_requested =
      softirq_loop proto_handler_call [Suc j..<length (net_protocols ?w)]
        (proto_handler_call Arp_input stack_request 0 (serving_state proto_handler_call j stack_requested))"
    using packets_served [OF net_init_ok [OF stack_boot_ready(1,2)] p stack_request_arrives(1)]
    unfolding stack_requested_def [symmetric] by (auto simp: Let_def)
  have "length (net_protocols ?w) = 2" "net_protocols ?w ! 0 \<noteq> ?p"
    by (simp_all add: w NET_PROTOCOL_TYPE_IP_def NET_PROTOCOL_TYPE_ARP_def)
  with j(1,2) have "j = 1" by (cases j) auto
  then have served: "softirq_message proto_handler_call stack_requested = arp_input stack_request 0 v"
    using j(3) \<open>length (net_protocols ?w) = 2\<close> by (simp add: v_def proto_handler_call_def)
  have "stack_ok stack_requested"
    unfolding stack_requested_def by (rule stack_ok_arrival [OF net_init_ok [OF stack_boot_ready(1,2)]])
  then have "arp_inv stack_requested"
    using tcp_shapeD(2) by (auto simp: stack_ok_def stack_safe_def stack_inv_def)
  then have inv: "arp_inv v" by (simp add: v arp_inv_def)
  have port: "arp_port 0 0 v" and us: "unicast (iface_heap v 0) = 2"
    by (simp_all add: v stack_request_arrives arp_port_def net_device_get_iface_def stack_boot_def tcp_host_fields
        ip_host_fields host_def zero_device_def)
  have "dev_addr ?d = [6, 5, 4, 3, 2, 1]" "unicast ?i = 3" by (simp_all add: host_def)
  with arp_request_learned [OF inv port, of ?d ?i "[]" "[]"] show ?thesis
    by (simp add: served us stack_request_def)
qed

end
