(* ===== verification/Socket.thy ===== *)
theory Socket
  imports Stack
begin

text \<open>
  \<^verbatim>\<open>kernel/network/socket.c\<close>: the table of sockets over the commands of UDP and TCP, and the
  configuration of interfaces through \<^verbatim>\<open>socketioctl\<close>. A pointer to a socket is its index.
\<close>

section \<open>Data\<close>

definition AF_INET :: int where "AF_INET = 2"
definition SOCK_STREAM :: int where "SOCK_STREAM = 1"
definition SOCK_DGRAM :: int where "SOCK_DGRAM = 2"
definition SOCKETS :: nat where "SOCKETS = 128"

record socket =
  so_used :: int
  so_family :: int
  so_type :: int
  so_desc :: int

definition zero_socket :: socket where
  "zero_socket = \<lparr>so_used = 0, so_family = 0, so_type = 0, so_desc = 0\<rparr>"

record sockaddr_in =
  sin_family :: u16
  sin_port :: u16
  sin_addr :: u32

record 'd socket_state = "'d tcp_state" +
  sockets :: "socket list"

definition set_socket :: "nat \<Rightarrow> socket \<Rightarrow> ('d, 'm) socket_state_scheme \<Rightarrow> ('d, 'm) socket_state_scheme" where
  "set_socket s so w = w\<lparr>sockets := (sockets w)[s := so]\<rparr>"

text \<open>
  \<^verbatim>\<open>struct ifreq\<close>: the name, and the sixteen bytes of the union.
\<close>

record ifreq =
  ifr_name :: string
  ifr_union :: "u8 list"

text \<open>Writing into a member of the union.\<close>

definition poke :: "nat \<Rightarrow> u8 list \<Rightarrow> ifreq \<Rightarrow> ifreq" where
  "poke i bs r = r\<lparr>ifr_union := take i (ifr_union r) @ bs @ drop (i + length bs) (ifr_union r)\<rparr>"

definition ifr_family :: "ifreq \<Rightarrow> int" where
  "ifr_family r = int (unat (load16 (ifr_union r) 0))"

definition ifr_sin_addr :: "ifreq \<Rightarrow> u32" where
  "ifr_sin_addr r = load32 (ifr_union r) 4"

definition ifr_flags :: "ifreq \<Rightarrow> u16" where
  "ifr_flags r = load16 (ifr_union r) 0"

definition ifr_ifindex :: "ifreq \<Rightarrow> u32" where
  "ifr_ifindex r = load32 (ifr_union r) 0"

definition IFF_UP :: u16 where "IFF_UP = 0x0001"
definition IOC_OUT :: u32 where "IOC_OUT = 0x40000000"
definition IOC_IN :: u32 where "IOC_IN = 0x80000000"
definition IFREQ_SIZE :: u32 where "IFREQ_SIZE = 32"

definition IOC :: "u32 \<Rightarrow> u32 \<Rightarrow> u32 \<Rightarrow> u32 \<Rightarrow> u32" where
  "IOC inout grp num len = inout OR push_bit 16 (len AND 0x1fff) OR push_bit 8 grp OR num"

definition IOWR :: "u32 \<Rightarrow> u32" where "IOWR num = IOC (IOC_IN OR IOC_OUT) 0x69 num IFREQ_SIZE"
definition IOW :: "u32 \<Rightarrow> u32" where "IOW num = IOC IOC_IN 0x69 num IFREQ_SIZE"

definition SIOCGIFINDEX :: u32 where "SIOCGIFINDEX = IOWR 0"
definition SIOCGIFNAME :: u32 where "SIOCGIFNAME = IOWR 1"
definition SIOCSIFNAME :: u32 where "SIOCSIFNAME = IOW 2"
definition SIOCGIFHWADDR :: u32 where "SIOCGIFHWADDR = IOWR 3"
definition SIOCSIFHWADDR :: u32 where "SIOCSIFHWADDR = IOW 4"
definition SIOCGIFFLAGS :: u32 where "SIOCGIFFLAGS = IOWR 5"
definition SIOCSIFFLAGS :: u32 where "SIOCSIFFLAGS = IOW 6"
definition SIOCGIFADDR :: u32 where "SIOCGIFADDR = IOWR 7"
definition SIOCSIFADDR :: u32 where "SIOCSIFADDR = IOW 8"
definition SIOCGIFNETMASK :: u32 where "SIOCGIFNETMASK = IOWR 9"
definition SIOCSIFNETMASK :: u32 where "SIOCSIFNETMASK = IOW 10"
definition SIOCGIFBRDADDR :: u32 where "SIOCGIFBRDADDR = IOWR 11"
definition SIOCSIFBRDADDR :: u32 where "SIOCSIFBRDADDR = IOW 12"
definition SIOCGIFMTU :: u32 where "SIOCGIFMTU = IOWR 13"
definition SIOCSIFMTU :: u32 where "SIOCSIFMTU = IOW 14"

section \<open>Opening and closing\<close>

definition socketalloc :: "('d, 'm) socket_state_scheme \<Rightarrow> nat option \<times> ('d, 'm) socket_state_scheme" where
  "socketalloc w =
     (case find_idx (\<lambda>s. so_used s = 0) (sockets w) of
        None \<Rightarrow> (None, w)
      | Some i \<Rightarrow> (Some i, set_socket i ((sockets w ! i)\<lparr>so_used := 1\<rparr>) w))"

definition socketget :: "int \<Rightarrow> nat option" where
  "socketget i = (if i < 0 \<or> i \<ge> int SOCKETS then None else Some (nat i))"

definition socketopen ::
  "int \<Rightarrow> int \<Rightarrow> int \<Rightarrow> ('d, 'm) socket_state_scheme \<Rightarrow> int \<times> ('d, 'm) socket_state_scheme" where
  "socketopen domain type protocol w =
     (if domain \<noteq> AF_INET \<or> (type \<noteq> SOCK_STREAM \<and> type \<noteq> SOCK_DGRAM) \<or> protocol \<noteq> 0 then (-1, w)
      else case socketalloc w of
        (None, w1) \<Rightarrow> (-1, w1)
      | (Some s, w1) \<Rightarrow>
          let w2 = set_socket s ((sockets w1 ! s)\<lparr>so_family := domain, so_type := type\<rparr>) w1;
              (desc, w3) = (if type = SOCK_STREAM then tcp_open w2 else udp_open w2);
              w4 = set_socket s ((sockets w3 ! s)\<lparr>so_desc := desc\<rparr>) w3
          in if desc = -1 then (-1, w4) else (int s, w4))"

definition socketclose :: "nat \<Rightarrow> ('d, 'm) socket_state_scheme \<Rightarrow> int \<times> ('d, 'm) socket_state_scheme" where
  "socketclose s w =
     (let so = sockets w ! s
      in if so_type so = SOCK_STREAM then (0, set_socket s zero_socket (snd (tcp_close (so_desc so) w)))
         else if so_type so = SOCK_DGRAM then (0, set_socket s zero_socket (snd (udp_close (so_desc so) w)))
         else (-1, w))"

section \<open>Configuration of interfaces\<close>

text \<open>The device of the request; the IP interface of the device.\<close>

definition ioctl_device ::
  "ifreq \<Rightarrow> ('d, 'm) socket_state_scheme \<Rightarrow> (nat \<Rightarrow> int \<times> ifreq \<times> ('d, 'm) socket_state_scheme) \<Rightarrow>
     int \<times> ifreq \<times> ('d, 'm) socket_state_scheme" where
  "ioctl_device ifr w f =
     (case net_device_by_name (ifr_name ifr) w of None \<Rightarrow> (-1, ifr, w) | Some dev \<Rightarrow> f dev)"

definition ioctl_iface ::
  "ifreq \<Rightarrow> ('d, 'm) socket_state_scheme \<Rightarrow> (nat \<Rightarrow> int \<times> ifreq \<times> ('d, 'm) socket_state_scheme) \<Rightarrow>
     int \<times> ifreq \<times> ('d, 'm) socket_state_scheme" where
  "ioctl_iface ifr w f =
     ioctl_device ifr w (\<lambda>dev.
       if ifr_family ifr = AF_INET then
         (case net_device_get_iface dev NET_IFACE_FAMILY_IP w of None \<Rightarrow> (-1, ifr, w) | Some i \<Rightarrow> f i)
       else (-1, ifr, w))"

text \<open>\<^verbatim>\<open>case SIOCSIFADDR\<close>.\<close>

definition ioctl_set_addr ::
  "ifreq \<Rightarrow> nat \<Rightarrow> ('d, 'm) socket_state_scheme \<Rightarrow> int \<times> ifreq \<times> ('d, 'm) socket_state_scheme" where
  "ioctl_set_addr ifr dev w =
     (if ifr_family ifr = AF_INET then
        (case net_device_get_iface dev NET_IFACE_FAMILY_IP w of
           Some i \<Rightarrow>
             let (r, w1) = ip_iface_reconfigure i (ifr_sin_addr ifr) (netmask (iface_heap w i)) w
             in if r = -1 then (-1, ifr, w1) else (0, ifr, w1)
         | None \<Rightarrow>
             (case ip_iface_alloc (ip_addr_ntop (ifr_sin_addr ifr) IP_ADDR_STR_LEN) ''255.255.255.255'' w of
                (None, w1) \<Rightarrow> (-1, ifr, w1)
              | (Some i, w1) \<Rightarrow> (0, ifr, snd (ip_iface_register dev i w1))))
      else (-1, ifr, w))"

definition socketioctl ::
  "nat \<Rightarrow> u32 \<Rightarrow> ifreq \<Rightarrow> ('d, 'm) socket_state_scheme \<Rightarrow> int \<times> ifreq \<times> ('d, 'm) socket_state_scheme" where
  "socketioctl s req ifr w =
     (if req = SIOCGIFINDEX then
        ioctl_device ifr w (\<lambda>dev. (0, poke 0 (store32 (dev_index (dev_heap w dev))) ifr, w))
      else if req = SIOCGIFNAME then
        (case net_device_by_index (ifr_ifindex ifr) w of
           None \<Rightarrow> (-1, ifr, w)
         | Some dev \<Rightarrow> (0, ifr\<lparr>ifr_name := dev_name (dev_heap w dev)\<rparr>, w))
      else if req = SIOCSIFNAME \<or> req = SIOCSIFHWADDR \<or> req = SIOCSIFBRDADDR \<or> req = SIOCSIFMTU then (0, ifr, w)
      else if req = SIOCGIFHWADDR then
        ioctl_device ifr w (\<lambda>dev.
          let n = unat (alen (dev_heap w dev))
          in if 14 < n then (-1, ifr, fault w) else (0, poke 2 (take n (dev_addr (dev_heap w dev))) ifr, w))
      else if req = SIOCGIFFLAGS then
        ioctl_device ifr w (\<lambda>dev. (0, poke 0 (store16 (dev_flags (dev_heap w dev))) ifr, w))
      else if req = SIOCSIFFLAGS then
        ioctl_device ifr w (\<lambda>dev.
          (0, ifr,
           if dev_flags (dev_heap w dev) AND IFF_UP \<noteq> ifr_flags ifr AND IFF_UP
           then (if ifr_flags ifr AND IFF_UP \<noteq> 0 then snd (net_device_open dev w) else snd (net_device_close dev w))
           else w))
      else if req = SIOCGIFADDR then
        ioctl_iface ifr w (\<lambda>i. (0, poke 4 (store32 (unicast (iface_heap w i))) ifr, w))
      else if req = SIOCSIFADDR then ioctl_device ifr w (\<lambda>dev. ioctl_set_addr ifr dev w)
      else if req = SIOCGIFNETMASK then
        ioctl_iface ifr w (\<lambda>i. (0, poke 4 (store32 (netmask (iface_heap w i))) ifr, w))
      else if req = SIOCSIFNETMASK then
        ioctl_iface ifr w (\<lambda>i.
          let (r, w1) = ip_iface_reconfigure i (unicast (iface_heap w i)) (ifr_sin_addr ifr) w
          in if r = -1 then (-1, ifr, w1) else (0, ifr, w1))
      else if req = SIOCGIFBRDADDR then
        ioctl_iface ifr w (\<lambda>i. (0, poke 4 (store32 (broadcast (iface_heap w i))) ifr, w))
      else if req = SIOCGIFMTU then
        ioctl_device ifr w (\<lambda>dev. (0, poke 0 (store32 (ucast (mtu (dev_heap w dev)))) ifr, w))
      else (-1, ifr, w))"

section \<open>Transfer\<close>

text \<open>The endpoint of a socket address.\<close>

definition endpoint_of :: "sockaddr_in \<Rightarrow> endpoint" where
  "endpoint_of a = \<lparr>ep_addr = sin_addr a, ep_port = sin_port a\<rparr>"

text \<open>
  Buffers are lists of their bytes. The address is the one the caller gave, with the fields that
  are written; its first argument is what it was.
\<close>

definition store_endpoint :: "sockaddr_in \<Rightarrow> endpoint option \<Rightarrow> sockaddr_in" where
  "store_endpoint a ep =
     (case ep of None \<Rightarrow> a | Some e \<Rightarrow> a\<lparr>sin_addr := ep_addr e, sin_port := ep_port e\<rparr>)"

definition socketrecvfrom ::
  "nat \<Rightarrow> nat \<Rightarrow> sockaddr_in \<Rightarrow> ('d, 'm) socket_state_scheme \<Rightarrow>
     (int \<times> u8 list \<times> sockaddr_in, udp_pcb_state \<times> nat) blocking \<times> ('d, 'm) socket_state_scheme" where
  "socketrecvfrom s n addr w =
     (let so = sockets w ! s
      in if so_type so \<noteq> SOCK_DGRAM \<or> so_family so \<noteq> AF_INET then (Returns (-1, [], addr), w)
         else case udp_recvfrom (so_desc so) n w of
           (Blocks k, w1) \<Rightarrow> (Blocks k, w1)
         | (Returns (r, bs, ep), w1) \<Rightarrow> (Returns (r, bs, if r \<noteq> -1 then store_endpoint addr ep else addr), w1))"

definition socketsendto ::
  "nat \<Rightarrow> u8 list \<Rightarrow> sockaddr_in \<Rightarrow> ('d, 'm) socket_state_scheme \<Rightarrow> int \<times> ('d, 'm) socket_state_scheme" where
  "socketsendto s buf addr w =
     (let so = sockets w ! s
      in if so_type so \<noteq> SOCK_DGRAM \<or> so_family so \<noteq> AF_INET then (-1, w)
         else udp_sendto (so_desc so) buf (endpoint_of addr) w)"

definition socketbind ::
  "nat \<Rightarrow> sockaddr_in \<Rightarrow> ('d, 'm) socket_state_scheme \<Rightarrow> int \<times> ('d, 'm) socket_state_scheme" where
  "socketbind s addr w =
     (let so = sockets w ! s
      in if so_family so \<noteq> AF_INET then (-1, w)
         else if so_type so = SOCK_STREAM then tcp_bind (so_desc so) (endpoint_of addr) w
         else if so_type so = SOCK_DGRAM then udp_bind (so_desc so) (endpoint_of addr) w
         else (-1, w))"

definition socketlisten ::
  "nat \<Rightarrow> ('d, 'm) socket_state_scheme \<Rightarrow> int \<times> ('d, 'm) socket_state_scheme" where
  "socketlisten s w =
     (let so = sockets w ! s
      in if so_type so \<noteq> SOCK_STREAM \<or> so_family so \<noteq> AF_INET then (-1, w) else tcp_listen (so_desc so) w)"

text \<open>From the return of \<^verbatim>\<open>tcp_accept\<close> on; without a free socket, a null pointer is written through.\<close>

definition socketaccept_rest ::
  "nat \<Rightarrow> sockaddr_in \<Rightarrow> int \<times> endpoint option \<Rightarrow> ('d, 'm) socket_state_scheme \<Rightarrow>
     (int \<times> sockaddr_in) \<times> ('d, 'm) socket_state_scheme" where
  "socketaccept_rest s addr r w =
     (if fst r = -1 then ((-1, addr), w)
      else case socketalloc w of
        (None, w1) \<Rightarrow> ((-1, store_endpoint addr (snd r)), fault w1)
      | (Some n, w1) \<Rightarrow>
          ((int n, store_endpoint addr (snd r)),
           set_socket n ((sockets w1 ! n)\<lparr>so_family := so_family (sockets w1 ! s),
             so_type := so_type (sockets w1 ! s), so_desc := fst r\<rparr>) w1))"

definition socketaccept ::
  "nat \<Rightarrow> sockaddr_in \<Rightarrow> ('d, 'm) socket_state_scheme \<Rightarrow>
     (int \<times> sockaddr_in, nat) blocking \<times> ('d, 'm) socket_state_scheme" where
  "socketaccept s addr w =
     (let so = sockets w ! s
      in if so_type so \<noteq> SOCK_STREAM \<or> so_family so \<noteq> AF_INET then (Returns (-1, addr), w)
         else case tcp_accept (so_desc so) w of
           (Blocks k, w1) \<Rightarrow> (Blocks k, w1)
         | (Returns r, w1) \<Rightarrow> (let (x, w2) = socketaccept_rest s addr r w1 in (Returns x, w2)))"

definition socketconnect ::
  "nat \<Rightarrow> sockaddr_in \<Rightarrow> ('d, 'm) socket_state_scheme \<Rightarrow>
     (int, tcp_pcb_state \<times> nat) blocking \<times> ('d, 'm) socket_state_scheme" where
  "socketconnect s addr w =
     (let so = sockets w ! s
      in if so_type so \<noteq> SOCK_STREAM \<or> so_family so \<noteq> AF_INET then (Returns (-1), w)
         else tcp_connect (so_desc so) (endpoint_of addr) w)"

definition socketrecv ::
  "nat \<Rightarrow> nat \<Rightarrow> ('d, 'm) socket_state_scheme \<Rightarrow> (int \<times> u8 list, nat) blocking \<times> ('d, 'm) socket_state_scheme" where
  "socketrecv s n w =
     (let so = sockets w ! s
      in if so_type so \<noteq> SOCK_STREAM \<or> so_family so \<noteq> AF_INET then (Returns (-1, []), w)
         else tcp_receive (so_desc so) n w)"

definition socketsend ::
  "nat \<Rightarrow> u8 list \<Rightarrow> ('d, 'm) socket_state_scheme \<Rightarrow>
     ((int, nat \<times> nat) blocking \<times> ('d, 'm) socket_state_scheme) option" where
  "socketsend s buf w =
     (let so = sockets w ! s
      in if so_type so \<noteq> SOCK_STREAM \<or> so_family so \<noteq> AF_INET then Some (Returns (-1), w)
         else tcp_send (so_desc so) buf w)"

lemmas socket_consts = AF_INET_def SOCK_STREAM_def SOCK_DGRAM_def SOCKETS_def

lemmas ioctl_numbers = SIOCGIFINDEX_def SIOCGIFNAME_def SIOCSIFNAME_def SIOCGIFHWADDR_def SIOCSIFHWADDR_def
  SIOCGIFFLAGS_def SIOCSIFFLAGS_def SIOCGIFADDR_def SIOCSIFADDR_def SIOCGIFNETMASK_def SIOCSIFNETMASK_def
  SIOCGIFBRDADDR_def SIOCSIFBRDADDR_def SIOCGIFMTU_def SIOCSIFMTU_def IOWR_def IOW_def IOC_def IOC_IN_def
  IOC_OUT_def IFREQ_SIZE_def

section \<open>Sockets and blocks\<close>

lemma sockets_upd_tcp [simp]: "sockets (upd_tcp p f w) = sockets w"
  by (simp add: upd_tcp_def set_tcp_def)

lemma sockets_set_udp [simp]: "sockets (set_udp p f w) = sockets w"
  by (simp add: set_udp_def)

lemma set_socket_fields [simp]:
  "sockets (set_socket s so w) = (sockets w)[s := so]" "tcp_pcbs (set_socket s so w) = tcp_pcbs w"
  "udp_pcbs (set_socket s so w) = udp_pcbs w" "tcp_at p (set_socket s so w) = tcp_at p w"
  by (simp_all add: set_socket_def tcp_at_def)

lemma socket_fields [simp]:
  "so\<lparr>so_used := a, so_family := b, so_type := c, so_desc := d\<rparr> =
     \<lparr>so_used = a, so_family = b, so_type = c, so_desc = d\<rparr>"
  by (cases so) simp

lemma tcp_open_cases:
  obtains (full) "\<forall>pcb \<in> set (tcp_pcbs w). tp_state pcb \<noteq> TCP_FREE" "tcp_open w = (-1, w)"
  | (opened) p w1 where "p < length (tcp_pcbs w)" "tp_state (tcp_at p w) = TCP_FREE" "tcp_open w = (int p, w1)"
      "tp_state (tcp_at p w1) = TCP_CLOSED" "tp_mode (tcp_at p w1) = TCP_PCB_MODE_SOCKET" "sockets w1 = sockets w"
proof (cases "find_idx (\<lambda>p. tp_state p = TCP_FREE) (tcp_pcbs w)")
  case None
  have "tcp_open w = (-1, w)" using None by (simp add: tcp_open_def tcp_pcb_alloc_def)
  moreover have "\<forall>pcb \<in> set (tcp_pcbs w). tp_state pcb \<noteq> TCP_FREE" using None by (simp add: find_idx_None_iff)
  ultimately show thesis by (intro full)
next
  case (Some p)
  note p = find_idx_SomeD [OF Some]
  then have "fst (tcp_open w) = int p" "tp_state (tcp_at p (snd (tcp_open w))) = TCP_CLOSED"
    "tp_mode (tcp_at p (snd (tcp_open w))) = TCP_PCB_MODE_SOCKET" "sockets (snd (tcp_open w)) = sockets w"
    using Some by (simp_all add: tcp_open_def tcp_pcb_alloc_def tcp_at_upd)
  with p show thesis by (intro opened [of p "snd (tcp_open w)"]) (simp_all add: tcp_at_def prod_eq_iff)
qed

lemma udp_open_cases:
  obtains (full) "\<forall>pcb \<in> set (udp_pcbs w). up_state pcb \<noteq> UDP_FREE" "udp_open w = (-1, w)"
  | (opened) p w1 where "p < length (udp_pcbs w)" "up_state (udp_pcbs w ! p) = UDP_FREE" "udp_open w = (int p, w1)"
      "up_state (udp_pcbs w1 ! p) = UDP_OPEN" "sockets w1 = sockets w"
proof (cases "find_idx (\<lambda>p. up_state p = UDP_FREE) (udp_pcbs w)")
  case None
  have "udp_open w = (-1, w)" using None by (simp add: udp_open_def udp_pcb_alloc_def)
  moreover have "\<forall>pcb \<in> set (udp_pcbs w). up_state pcb \<noteq> UDP_FREE" using None by (simp add: find_idx_None_iff)
  ultimately show thesis by (intro full)
next
  case (Some p)
  note p = find_idx_SomeD [OF Some]
  then have "fst (udp_open w) = int p" "up_state (udp_pcbs (snd (udp_open w)) ! p) = UDP_OPEN"
    "sockets (snd (udp_open w)) = sockets w"
    using Some by (simp_all add: udp_open_def udp_pcb_alloc_def)
  with p show thesis by (intro opened [of p "snd (udp_open w)"]) (simp_all add: prod_eq_iff)
qed

text \<open>
  C17: with a free socket, \<^verbatim>\<open>socketopen\<close> returns it with a fresh block of its protocol; if all
  blocks are in use it fails, and the socket remains in use all the same, though nobody has
  its number: the slot is lost.
\<close>

theorem socket_open_slot:
  fixes w :: "('d, 'm) socket_state_scheme"
  assumes s: "find_idx (\<lambda>so. so_used so = 0) (sockets w) = Some s"
  defines "v \<equiv> snd (socketopen AF_INET SOCK_STREAM 0 w)" and "u \<equiv> snd (socketopen AF_INET SOCK_DGRAM 0 w)"
  shows "so_used (sockets v ! s) = 1 \<and> so_used (sockets u ! s) = 1 \<and> (\<forall>q. q \<noteq> s \<longrightarrow> sockets v ! q = sockets w ! q) \<and>
    (if \<forall>pcb \<in> set (tcp_pcbs w). tp_state pcb \<noteq> TCP_FREE then fst (socketopen AF_INET SOCK_STREAM 0 w) = -1
     else fst (socketopen AF_INET SOCK_STREAM 0 w) = int s \<and>
       (\<exists>p. sockets v ! s = \<lparr>so_used = 1, so_family = AF_INET, so_type = SOCK_STREAM, so_desc = int p\<rparr> \<and>
          tp_state (tcp_at p w) = TCP_FREE \<and> tp_state (tcp_at p v) = TCP_CLOSED)) \<and>
    (if \<forall>pcb \<in> set (udp_pcbs w). up_state pcb \<noteq> UDP_FREE then fst (socketopen AF_INET SOCK_DGRAM 0 w) = -1
     else fst (socketopen AF_INET SOCK_DGRAM 0 w) = int s \<and>
       (\<exists>p. sockets u ! s = \<lparr>so_used = 1, so_family = AF_INET, so_type = SOCK_DGRAM, so_desc = int p\<rparr> \<and>
          up_state (udp_pcbs w ! p) = UDP_FREE \<and> up_state (udp_pcbs u ! p) = UDP_OPEN))"
proof -
  note si = find_idx_SomeD [OF s]
  let ?w1 = "set_socket s ((sockets w ! s)\<lparr>so_used := 1\<rparr>) w"
  let ?w2 = "\<lambda>t. set_socket s ((sockets ?w1 ! s)\<lparr>so_family := AF_INET, so_type := t\<rparr>) ?w1"
  have o: "socketopen AF_INET t 0 w =
      (let (desc, w3) = (if t = SOCK_STREAM then tcp_open (?w2 t) else udp_open (?w2 t));
           w4 = set_socket s ((sockets w3 ! s)\<lparr>so_desc := desc\<rparr>) w3
       in if desc = -1 then (-1, w4) else (int s, w4))" if "t = SOCK_STREAM \<or> t = SOCK_DGRAM" for t
    using that s by (auto simp: socketopen_def socketalloc_def Let_def)
  have f: "tcp_pcbs (?w2 t) = tcp_pcbs w" "udp_pcbs (?w2 t) = udp_pcbs w" for t by simp_all
  have t: "so_used (sockets v ! s) = 1 \<and> (\<forall>q. q \<noteq> s \<longrightarrow> sockets v ! q = sockets w ! q) \<and>
    (if \<forall>pcb \<in> set (tcp_pcbs w). tp_state pcb \<noteq> TCP_FREE then fst (socketopen AF_INET SOCK_STREAM 0 w) = -1
     else fst (socketopen AF_INET SOCK_STREAM 0 w) = int s \<and>
       (\<exists>p. sockets v ! s = \<lparr>so_used = 1, so_family = AF_INET, so_type = SOCK_STREAM, so_desc = int p\<rparr> \<and>
          tp_state (tcp_at p w) = TCP_FREE \<and> tp_state (tcp_at p v) = TCP_CLOSED))"
  proof (cases rule: tcp_open_cases [of "?w2 SOCK_STREAM"])
    case full
    with si show ?thesis unfolding v_def o [OF disjI1 [OF refl]] f by simp
  next
    case (opened p w1)
    then have "\<not> (\<forall>pcb \<in> set (tcp_pcbs w). tp_state pcb \<noteq> TCP_FREE)" by (auto simp: tcp_at_def)
    with opened si show ?thesis unfolding v_def o [OF disjI1 [OF refl]] by simp
  qed
  have d: "SOCK_DGRAM \<noteq> SOCK_STREAM" by (simp add: socket_consts)
  have "so_used (sockets u ! s) = 1 \<and>
    (if \<forall>pcb \<in> set (udp_pcbs w). up_state pcb \<noteq> UDP_FREE then fst (socketopen AF_INET SOCK_DGRAM 0 w) = -1
     else fst (socketopen AF_INET SOCK_DGRAM 0 w) = int s \<and>
       (\<exists>p. sockets u ! s = \<lparr>so_used = 1, so_family = AF_INET, so_type = SOCK_DGRAM, so_desc = int p\<rparr> \<and>
          up_state (udp_pcbs w ! p) = UDP_FREE \<and> up_state (udp_pcbs u ! p) = UDP_OPEN))"
  proof (cases rule: udp_open_cases [of "?w2 SOCK_DGRAM"])
    case full
    with si d show ?thesis unfolding u_def o [OF disjI2 [OF refl]] f by simp
  next
    case (opened p w1)
    then have "\<not> (\<forall>pcb \<in> set (udp_pcbs w). up_state pcb \<noteq> UDP_FREE)" by auto
    with opened si d show ?thesis unfolding u_def o [OF disjI2 [OF refl]] by simp
  qed
  with t show ?thesis by blast
qed

theorem socket_open_slot_witness:
  "fst (socketopen AF_INET SOCK_STREAM 0
     (tcp_state.extend (tcp_host [1] 2 3 [1, 2, 3, 4, 5, 6]) \<lparr>sockets = replicate 128 zero_socket\<rparr>)) = 0"
proof -
  let ?w = "tcp_state.extend (tcp_host [1] 2 3 [1, 2, 3, 4, 5, 6]) \<lparr>sockets = replicate 128 zero_socket\<rparr>"
  have "replicate 128 zero_socket = zero_socket # replicate 127 zero_socket"
    by (simp add: replicate_Suc [symmetric] del: replicate_Suc)
  then have "sockets ?w = zero_socket # replicate 127 zero_socket" by (simp add: tcp_state.defs)
  then have s: "find_idx (\<lambda>so. so_used so = 0) (sockets ?w) = Some 0" by (simp add: zero_socket_def)
  have "tcp_pcbs ?w = replicate 16 zero_tcp_pcb"
    using tcp_host_fields(2) by (simp add: tcp_state.defs)
  then have f: "(\<forall>pcb \<in> set (tcp_pcbs ?w). tp_state pcb \<noteq> TCP_FREE) = False" by (simp add: zero_tcp_pcb_def)
  show ?thesis
    using socket_open_slot [OF s, THEN conjunct2, THEN conjunct2, THEN conjunct2, THEN conjunct1]
    unfolding f if_False by simp
qed

section \<open>Addresses of interfaces\<close>

lemma ifr_sin_addr_poke [simp]:
  assumes "length (ifr_union r) = 16"
  shows "ifr_sin_addr (poke 4 (store32 v) r) = v"
  using assms load32_store32(2) [of v] by (simp add: ifr_sin_addr_def poke_def load32_def nth_append store32_def)

lemma ip_mask_text: "ip_addr_pton ''255.255.255.255'' 0 = (0, -1)"
proof -
  have "ip_addr_ntop (-1) IP_ADDR_STR_LEN = ''255.255.255.255''" by code_simp
  with ip_addr_text [of "-1" 0] show ?thesis by simp
qed

text \<open>
  After \<^verbatim>\<open>SIOCSIFADDR\<close>, the interface of the device has the address, the mask it had, or all
  ones if it is new, and the broadcast address that follows from them.
\<close>

lemma ioctl_set_addr_sets:
  fixes w :: "('d, 'm) socket_state_scheme"
  assumes dev: "net_device_by_name name w = Some dev" and fam: "ifr_family r = AF_INET"
    and mem: "net_device_get_iface dev NET_IFACE_FAMILY_IP w = None \<longrightarrow>
      alloc_ok w (alloc_no w) \<and> iface_brk w \<notin> set (ifaces (dev_heap w dev))"
  defines "m \<equiv> (case net_device_get_iface dev NET_IFACE_FAMILY_IP w of None \<Rightarrow> -1 | Some i \<Rightarrow> netmask (iface_heap w i))"
  obtains i w1 where "ioctl_set_addr r dev w = (0, r, w1)" "net_device_by_name name w1 = Some dev"
    "net_device_get_iface dev NET_IFACE_FAMILY_IP w1 = Some i" "unicast (iface_heap w1 i) = ifr_sin_addr r"
    "netmask (iface_heap w1 i) = m" "broadcast (iface_heap w1 i) = (ifr_sin_addr r AND m) OR NOT m"
proof (cases "net_device_get_iface dev NET_IFACE_FAMILY_IP w")
  case (Some i)
  let ?w1 = "snd (ip_iface_reconfigure i (ifr_sin_addr r) (netmask (iface_heap w i)) w)"
  have f: "family (iface_heap ?w1 j) = family (iface_heap w j)" for j by (simp add: ip_iface_reconfigure_def)
  have d: "dev_heap ?w1 = dev_heap w" by (simp add: ip_iface_reconfigure_def)
  have "net_device_get_iface dev NET_IFACE_FAMILY_IP ?w1 = Some i"
    using Some unfolding net_device_get_iface_def f d .
  then show thesis
    using Some dev fam
    by (intro that [of ?w1 i]) (simp_all add: ioctl_set_addr_def m_def ip_iface_reconfigure_def net_device_by_name_def)
next
  case None
  define i where "i = iface_brk w"
  define new where "new = \<lparr>if_dev = 0, family = NET_IFACE_FAMILY_IP, unicast = ifr_sin_addr r, netmask = -1,
      broadcast = (ifr_sin_addr r AND -1) OR NOT (-1)\<rparr>"
  define w0 where "w0 = w\<lparr>alloc_no := Suc (alloc_no w), iface_heap := (iface_heap w)(i := new), iface_brk := Suc i\<rparr>"
  have alloc: "ip_iface_alloc (ip_addr_ntop (ifr_sin_addr r) IP_ADDR_STR_LEN) ''255.255.255.255'' w = (Some i, w0)"
    using mem None by (simp add: ip_iface_alloc_def calloc_def ip_addr_text ip_mask_text w0_def i_def new_def)
  let ?w1 = "snd (ip_iface_register dev i w0)"
  have set: "ioctl_set_addr r dev w = (0, r, ?w1)" using None fam alloc by (simp add: ioctl_set_addr_def)
  have "\<not> (\<exists>e \<in> set (ifaces (dev_heap w0 dev)). family (iface_heap w0 e) = family (iface_heap w0 i))"
    using None mem by (auto simp: net_device_get_iface_def find_None_iff w0_def new_def i_def)
  then have reg: "iface_heap ?w1 i = new\<lparr>if_dev := dev\<rparr>" "devices ?w1 = devices w"
    "dev_heap ?w1 = (dev_heap w)(dev := (dev_heap w dev)\<lparr>ifaces := i # ifaces (dev_heap w dev)\<rparr>)"
    by (simp_all add: ip_iface_register_def net_device_add_iface_def Let_def ip_route_add_def calloc_def w0_def set_dev_def)
  have "dev_name (dev_heap ?w1 p) = dev_name (dev_heap w p)" for p by (simp add: reg(3))
  then have "net_device_by_name name ?w1 = Some dev" using dev by (simp add: net_device_by_name_def reg(2))
  then show thesis
    using set None
    by (intro that [of ?w1 i]) (simp_all add: reg m_def new_def net_device_get_iface_def)
qed

lemma ioctl_numbers_distinct [simp]:
  "SIOCGIFADDR \<noteq> SIOCGIFINDEX" "SIOCGIFADDR \<noteq> SIOCGIFNAME" "SIOCGIFADDR \<noteq> SIOCSIFNAME"
  "SIOCGIFADDR \<noteq> SIOCSIFHWADDR" "SIOCGIFADDR \<noteq> SIOCSIFBRDADDR" "SIOCGIFADDR \<noteq> SIOCSIFMTU"
  "SIOCGIFADDR \<noteq> SIOCGIFHWADDR" "SIOCGIFADDR \<noteq> SIOCGIFFLAGS" "SIOCGIFADDR \<noteq> SIOCSIFFLAGS"
  "SIOCSIFADDR \<noteq> SIOCGIFINDEX" "SIOCSIFADDR \<noteq> SIOCGIFNAME" "SIOCSIFADDR \<noteq> SIOCSIFNAME"
  "SIOCSIFADDR \<noteq> SIOCSIFHWADDR" "SIOCSIFADDR \<noteq> SIOCSIFBRDADDR" "SIOCSIFADDR \<noteq> SIOCSIFMTU"
  "SIOCSIFADDR \<noteq> SIOCGIFHWADDR" "SIOCSIFADDR \<noteq> SIOCGIFFLAGS" "SIOCSIFADDR \<noteq> SIOCSIFFLAGS"
  "SIOCSIFADDR \<noteq> SIOCGIFADDR"
  "SIOCGIFBRDADDR \<noteq> SIOCGIFINDEX" "SIOCGIFBRDADDR \<noteq> SIOCGIFNAME" "SIOCGIFBRDADDR \<noteq> SIOCSIFNAME"
  "SIOCGIFBRDADDR \<noteq> SIOCSIFHWADDR" "SIOCGIFBRDADDR \<noteq> SIOCSIFBRDADDR" "SIOCGIFBRDADDR \<noteq> SIOCSIFMTU"
  "SIOCGIFBRDADDR \<noteq> SIOCGIFHWADDR" "SIOCGIFBRDADDR \<noteq> SIOCGIFFLAGS" "SIOCGIFBRDADDR \<noteq> SIOCSIFFLAGS"
  "SIOCGIFBRDADDR \<noteq> SIOCGIFADDR" "SIOCGIFBRDADDR \<noteq> SIOCSIFADDR" "SIOCGIFBRDADDR \<noteq> SIOCGIFNETMASK"
  "SIOCGIFBRDADDR \<noteq> SIOCSIFNETMASK"
  by (simp_all add: ioctl_numbers)

text \<open>
  After \<^verbatim>\<open>SIOCSIFADDR\<close>, which configures the interface of the device or gives it one,
  \<^verbatim>\<open>SIOCGIFADDR\<close> returns the address that was set and \<^verbatim>\<open>SIOCGIFBRDADDR\<close> the broadcast address of
  its network, without changing anything.
\<close>

lemma socket_ioctl_address:
  fixes w :: "('d, 'm) socket_state_scheme"
  assumes dev: "net_device_by_name (ifr_name r) w = Some dev" and fam: "ifr_family r = AF_INET"
    and len: "length (ifr_union r) = 16"
    and mem: "net_device_get_iface dev NET_IFACE_FAMILY_IP w = None \<longrightarrow>
      alloc_ok w (alloc_no w) \<and> iface_brk w \<notin> set (ifaces (dev_heap w dev))"
  defines "m \<equiv> (case net_device_get_iface dev NET_IFACE_FAMILY_IP w of None \<Rightarrow> -1 | Some i \<Rightarrow> netmask (iface_heap w i))"
  shows "\<exists>w1 r2 r3. socketioctl s SIOCSIFADDR r w = (0, r, w1) \<and> socketioctl s SIOCGIFADDR r w1 = (0, r2, w1) \<and>
    ifr_sin_addr r2 = ifr_sin_addr r \<and> socketioctl s SIOCGIFBRDADDR r w1 = (0, r3, w1) \<and>
    ifr_sin_addr r3 = (ifr_sin_addr r AND m) OR NOT m"
proof -
  obtain i w1 where w1: "ioctl_set_addr r dev w = (0, r, w1)" "net_device_by_name (ifr_name r) w1 = Some dev"
    "net_device_get_iface dev NET_IFACE_FAMILY_IP w1 = Some i" "unicast (iface_heap w1 i) = ifr_sin_addr r"
    "broadcast (iface_heap w1 i) = (ifr_sin_addr r AND m) OR NOT m"
    unfolding m_def by (rule ioctl_set_addr_sets [OF dev fam mem])
  have "socketioctl s SIOCSIFADDR r w = (0, r, w1)"
    using dev w1(1) by (simp add: socketioctl_def ioctl_device_def)
  moreover have "socketioctl s SIOCGIFADDR r w1 = (0, poke 4 (store32 (ifr_sin_addr r)) r, w1)"
    "socketioctl s SIOCGIFBRDADDR r w1 = (0, poke 4 (store32 ((ifr_sin_addr r AND m) OR NOT m)) r, w1)"
    using w1 fam by (simp_all add: socketioctl_def ioctl_iface_def ioctl_device_def)
  moreover have "ifr_sin_addr (poke 4 (store32 v) r) = v" for v using len by (rule ifr_sin_addr_poke)
  ultimately show ?thesis by blast
qed

lemma socket_ioctl_address_witness:
  "let r = \<lparr>ifr_name = ''net0'', ifr_union = [2, 0, 0, 0, 10, 0, 0, 9] @ replicate 8 0\<rparr>;
     w = tcp_state.extend ((tcp_host [1] 2 3 [1, 2, 3, 4, 5, 6])\<lparr>devices := [0],
       dev_heap := (\<lambda>_. zero_device\<lparr>dev_name := ''net0''\<rparr>)\<rparr>) \<lparr>sockets = replicate 128 zero_socket\<rparr>
   in \<exists>w1 r2. socketioctl 0 SIOCSIFADDR r w = (0, r, w1) \<and> socketioctl 0 SIOCGIFADDR r w1 = (0, r2, w1) \<and>
        ifr_sin_addr r2 = 0x0900000a"
proof -
  let ?r = "\<lparr>ifr_name = ''net0'', ifr_union = [2, 0, 0, 0, 10, 0, 0, 9] @ replicate 8 0\<rparr>"
  let ?h = "(tcp_host [1] 2 3 [1, 2, 3, 4, 5, 6])\<lparr>devices := [0], dev_heap := (\<lambda>_. zero_device\<lparr>dev_name := ''net0''\<rparr>)\<rparr>"
  let ?w = "tcp_state.extend ?h \<lparr>sockets = replicate 128 zero_socket\<rparr>"
  have dev: "net_device_by_name (ifr_name ?r) ?w = Some 0"
    by (simp add: net_device_by_name_def tcp_state.defs)
  have fam: "ifr_family ?r = AF_INET" and len: "length (ifr_union ?r) = 16" and a: "ifr_sin_addr ?r = 0x0900000a"
    by (simp_all add: ifr_family_def load16_def AF_INET_def ifr_sin_addr_def load32_def)
  have "alloc_ok ?w k" for k
    by (simp add: tcp_state.defs tcp_host_fields)
      (simp add: ip_host_def host_def arp_boot_def net_boot_def net_state.defs arp_state.defs ip_state.defs Let_def)
  then have mem: "net_device_get_iface 0 NET_IFACE_FAMILY_IP ?w = None \<longrightarrow>
      alloc_ok ?w (alloc_no ?w) \<and> iface_brk ?w \<notin> set (ifaces (dev_heap ?w 0))"
    by (simp add: tcp_state.defs zero_device_def)
  show ?thesis
    using socket_ioctl_address [OF dev fam len mem, of 0] unfolding Let_def a by blast
qed

end
