(* ===== verification/E1000.thy ===== *)
theory E1000
  imports Delivery Ethernet "HOL-Library.While_Combinator"
begin

text \<open>
  \<^verbatim>\<open>kernel/network/nic/e1000.c\<close>: the driver of the Intel 8254x network card. The card is not part
  of the sources: its registers are two functions, and a third is what it does while the driver
  waits for it. Descriptors carry the memory their address points to.
\<close>

section \<open>Data\<close>

definition RX_RING_SIZE :: nat where "RX_RING_SIZE = 16"
definition TX_RING_SIZE :: nat where "TX_RING_SIZE = 16"

definition E1000_CTL :: u16 where "E1000_CTL = 0x0000"
definition E1000_ICR :: u16 where "E1000_ICR = 0x00C0"
definition E1000_IMS :: u16 where "E1000_IMS = 0x00D0"
definition E1000_IMC :: u16 where "E1000_IMC = 0x00D8"
definition E1000_RCTL :: u16 where "E1000_RCTL = 0x0100"
definition E1000_TCTL :: u16 where "E1000_TCTL = 0x0400"
definition E1000_RDBAL :: u16 where "E1000_RDBAL = 0x2800"
definition E1000_RDBAH :: u16 where "E1000_RDBAH = 0x2804"
definition E1000_RDH :: u16 where "E1000_RDH = 0x2810"
definition E1000_RDT :: u16 where "E1000_RDT = 0x2818"
definition E1000_RDLEN :: u16 where "E1000_RDLEN = 0x2808"
definition E1000_TDBAL :: u16 where "E1000_TDBAL = 0x3800"
definition E1000_TDBAH :: u16 where "E1000_TDBAH = 0x3804"
definition E1000_TDLEN :: u16 where "E1000_TDLEN = 0x3808"
definition E1000_TDH :: u16 where "E1000_TDH = 0x3810"
definition E1000_TDT :: u16 where "E1000_TDT = 0x3818"
definition E1000_MTA :: u16 where "E1000_MTA = 0x5200"
definition E1000_CTL_SLU :: u32 where "E1000_CTL_SLU = 0x00000040"
definition E1000_IMS_RXT0 :: u32 where "E1000_IMS_RXT0 = 0x00000080"
definition E1000_ICR_RXT0 :: u32 where "E1000_ICR_RXT0 = E1000_IMS_RXT0"
definition E1000_TCTL_EN :: u32 where "E1000_TCTL_EN = 0x00000002"
definition E1000_TCTL_PSP :: u32 where "E1000_TCTL_PSP = 0x00000008"
definition E1000_RCTL_EN :: u32 where "E1000_RCTL_EN = 0x00000002"
definition E1000_RCTL_SBP :: u32 where "E1000_RCTL_SBP = 0x00000004"
definition E1000_RCTL_UPE :: u32 where "E1000_RCTL_UPE = 0x00000008"
definition E1000_RCTL_MPE :: u32 where "E1000_RCTL_MPE = 0x00000010"
definition E1000_RCTL_LPE :: u32 where "E1000_RCTL_LPE = 0x00000020"
definition E1000_RCTL_RDMTS_HALF :: u32 where "E1000_RCTL_RDMTS_HALF = 0x00000000"
definition E1000_RCTL_BAM :: u32 where "E1000_RCTL_BAM = 0x00008000"
definition E1000_RCTL_SZ_2048 :: u32 where "E1000_RCTL_SZ_2048 = 0x00000000"
definition E1000_RCTL_SECRC :: u32 where "E1000_RCTL_SECRC = 0x04000000"
definition E1000_TXD_CMD_EOP :: u8 where "E1000_TXD_CMD_EOP = 0x01"
definition E1000_TXD_CMD_RS :: u8 where "E1000_TXD_CMD_RS = 0x08"
definition E1000_RXD_STAT_DD :: u8 where "E1000_RXD_STAT_DD = 0x01"
definition E1000_RXD_STAT_EOP :: u8 where "E1000_RXD_STAT_EOP = 0x02"

record tx_desc =
  td_data :: "u8 list"
  td_length :: u16
  td_cso :: u8
  td_cmd :: u8
  td_status :: u8
  td_css :: u8
  td_special :: u16

record rx_desc =
  rd_buf :: "u8 list"
  rd_length :: u16
  rd_csum :: u16
  rd_status :: u8
  rd_errors :: u8
  rd_special :: u16

definition zero_tx_desc :: tx_desc where
  "zero_tx_desc = \<lparr>td_data = [], td_length = 0, td_cso = 0, td_cmd = 0, td_status = 0, td_css = 0, td_special = 0\<rparr>"

definition zero_rx_desc :: rx_desc where
  "zero_rx_desc = \<lparr>rd_buf = [], rd_length = 0, rd_csum = 0, rd_status = 0, rd_errors = 0, rd_special = 0\<rparr>"

text \<open>An adapter, with the state of its card behind \<^verbatim>\<open>mmio_base\<close>.\<close>

record 'h e1000 =
  card :: 'h
  rx_ring :: "rx_desc list"
  tx_ring :: "tx_desc list"
  ea_addr :: "u8 list"
  ea_dev :: nat

text \<open>
  The card: reading and writing a register, both with any effect on the card and on the rings it
  shares; what happens between two looks of the driver at a descriptor; and where the rings of an
  adapter are in memory.
\<close>

record 'h e1000_hw =
  reg_read :: "u16 \<Rightarrow> 'h e1000 \<Rightarrow> u32 \<times> 'h e1000"
  reg_write :: "u16 \<Rightarrow> u32 \<Rightarrow> 'h e1000 \<Rightarrow> 'h e1000"
  card_runs :: "'h e1000 \<Rightarrow> 'h e1000"
  new_card :: "nat \<Rightarrow> 'h"
  rx_base :: "nat \<Rightarrow> u64"
  tx_base :: "nat \<Rightarrow> u64"

record 'h e1000_state =
  adapter :: "nat \<Rightarrow> 'h e1000"
  adapters :: "nat list"
  adapter_brk :: nat

definition set_adapter :: "nat \<Rightarrow> 'h e1000 \<Rightarrow> 'h e1000_state \<Rightarrow> 'h e1000_state" where
  "set_adapter p a s = s\<lparr>adapter := (adapter s)(p := a)\<rparr>"

section \<open>Open and close\<close>

text \<open>\<^verbatim>\<open>e1000_reg_write\<close> of what \<^verbatim>\<open>e1000_reg_read\<close> returned, with bits set or cleared.\<close>

definition reg_or :: "'h e1000_hw \<Rightarrow> u16 \<Rightarrow> u32 \<Rightarrow> 'h e1000 \<Rightarrow> 'h e1000" where
  "reg_or hw reg bits a = (let (v, a1) = reg_read hw reg a in reg_write hw reg (v OR bits) a1)"

definition reg_clear :: "'h e1000_hw \<Rightarrow> u16 \<Rightarrow> u32 \<Rightarrow> 'h e1000 \<Rightarrow> 'h e1000" where
  "reg_clear hw reg bits a = (let (v, a1) = reg_read hw reg a in reg_write hw reg (v AND NOT bits) a1)"

definition e1000_open :: "'h e1000_hw \<Rightarrow> net_device \<Rightarrow> 'h e1000_state \<Rightarrow> int \<times> 'h e1000_state" where
  "e1000_open hw dev s =
     (let a = adapter s (priv dev);
          a1 = reg_write hw E1000_IMS E1000_IMS_RXT0 a;
          a2 = snd (reg_read hw E1000_ICR a1);
          a3 = reg_or hw E1000_RCTL E1000_RCTL_EN a2;
          a4 = reg_or hw E1000_TCTL E1000_TCTL_EN a3;
          a5 = reg_or hw E1000_CTL E1000_CTL_SLU a4
      in (0, set_adapter (priv dev) a5 s))"

definition e1000_close :: "'h e1000_hw \<Rightarrow> net_device \<Rightarrow> 'h e1000_state \<Rightarrow> int \<times> 'h e1000_state" where
  "e1000_close hw dev s =
     (let a = adapter s (priv dev);
          a1 = reg_write hw E1000_IMC E1000_IMS_RXT0 a;
          a2 = snd (reg_read hw E1000_ICR a1);
          a3 = reg_clear hw E1000_RCTL E1000_RCTL_EN a2;
          a4 = reg_clear hw E1000_TCTL E1000_TCTL_EN a3;
          a5 = reg_clear hw E1000_CTL E1000_CTL_SLU a4
      in (0, set_adapter (priv dev) a5 s))"

section \<open>Initialisation of the rings\<close>

text \<open>The buffers of the first \<open>n\<close> descriptors; the result of \<^verbatim>\<open>calloc\<close> is not checked.\<close>

fun rx_buffers :: "nat \<Rightarrow> 'm env_scheme \<Rightarrow> rx_desc list \<times> 'm env_scheme" where
  "rx_buffers 0 w = ([], w)"
| "rx_buffers (Suc n) w =
     (let (ok, w1) = calloc w; (ds, w2) = rx_buffers n w1
      in (zero_rx_desc\<lparr>rd_buf := if ok then replicate 2048 0 else []\<rparr> # ds, w2))"

definition e1000_rx_regs :: "'h e1000_hw \<Rightarrow> u64 \<Rightarrow> 'h e1000 \<Rightarrow> 'h e1000" where
  "e1000_rx_regs hw base a =
     (let a1 = reg_write hw E1000_RDBAL (ucast (base AND 0xffffffff)) a;
          a2 = reg_write hw E1000_RDBAH (ucast (drop_bit 32 base)) a1;
          a3 = reg_write hw E1000_RDLEN (of_nat (RX_RING_SIZE * 16)) a2;
          a4 = reg_write hw E1000_RDH 0 a3;
          a5 = reg_write hw E1000_RDT (of_nat RX_RING_SIZE - 1) a4
      in reg_write hw E1000_RCTL (E1000_RCTL_SBP OR E1000_RCTL_UPE OR E1000_RCTL_MPE OR E1000_RCTL_RDMTS_HALF OR
           E1000_RCTL_SECRC OR E1000_RCTL_LPE OR E1000_RCTL_BAM OR E1000_RCTL_SZ_2048 OR 0) a5)"

definition e1000_tx_regs :: "'h e1000_hw \<Rightarrow> u64 \<Rightarrow> 'h e1000 \<Rightarrow> 'h e1000" where
  "e1000_tx_regs hw base a =
     (let a1 = reg_write hw E1000_TDBAL (ucast (base AND 0xffffffff)) a;
          a2 = reg_write hw E1000_TDBAH (ucast (drop_bit 32 base)) a1;
          a3 = reg_write hw E1000_TDLEN (of_nat (TX_RING_SIZE * 16)) a2;
          a4 = reg_write hw E1000_TDH 0 a3;
          a5 = reg_write hw E1000_TDT 0 a4
      in reg_write hw E1000_TCTL (E1000_TCTL_PSP OR 0) a5)"

definition e1000_tx_init :: "'h e1000_hw \<Rightarrow> nat \<Rightarrow> 'h e1000 \<Rightarrow> 'h e1000" where
  "e1000_tx_init hw p a = e1000_tx_regs hw (tx_base hw p) (a\<lparr>tx_ring := replicate TX_RING_SIZE zero_tx_desc\<rparr>)"

section \<open>Transmission\<close>

text \<open>
  \<open>None\<close>: the tail is outside the ring, or the card never reports the descriptor done and the
  loop does not end.
\<close>

definition e1000_write ::
  "'h e1000_hw \<Rightarrow> net_device \<Rightarrow> u8 list \<Rightarrow> 'h e1000_state \<Rightarrow> (int \<times> 'h e1000_state) option" where
  "e1000_write hw dev data s =
     (let (tail, a) = reg_read hw E1000_TDT (adapter s (priv dev)); t = unat tail
      in if length (tx_ring a) \<le> t then None
         else
           let desc = (tx_ring a ! t)\<lparr>td_data := data, td_length := of_nat (length data), td_status := 0,
                        td_cmd := E1000_TXD_CMD_EOP OR E1000_TXD_CMD_RS\<rparr>;
               a1 = reg_write hw E1000_TDT ((tail + 1) mod of_nat TX_RING_SIZE) (a\<lparr>tx_ring := (tx_ring a)[t := desc]\<rparr>)
           in case while_option (\<lambda>a. td_status (tx_ring a ! t) AND 0x0f = 0) (card_runs hw) a1 of
                None \<Rightarrow> None
              | Some a2 \<Rightarrow> Some (int (length data), set_adapter (priv dev) a2 s))"

definition e1000_transmit ::
  "'h e1000_hw \<Rightarrow> net_device \<Rightarrow> u16 \<Rightarrow> u8 list \<Rightarrow> u8 list \<Rightarrow> 'h e1000_state \<Rightarrow> (int \<times> 'h e1000_state) option" where
  "e1000_transmit hw dev type packet dst s =
     (case ether_transmit_helper dev type packet dst
        (\<lambda>frame st. case st of None \<Rightarrow> (-1, None)
           | Some s \<Rightarrow> (case e1000_write hw dev frame s of None \<Rightarrow> (-1, None) | Some (r, s1) \<Rightarrow> (r, Some s1)))
        (Some s) of
        Some (r, Some s1) \<Rightarrow> Some (r, s1)
      | _ \<Rightarrow> None)"

definition e1000_ops :: "'h e1000_hw \<Rightarrow> 'h e1000_state net_device_ops" where
  "e1000_ops hw = \<lparr>ops_open = Some (e1000_open hw), ops_close = Some (e1000_close hw), ops_transmit = e1000_transmit hw\<rparr>"

section \<open>Reception\<close>

definition put_adapter ::
  "nat \<Rightarrow> 'h e1000 \<Rightarrow> ('h e1000_state, 'm) net_state_scheme \<Rightarrow> ('h e1000_state, 'm) net_state_scheme" where
  "put_adapter p a w = w\<lparr>drv := set_adapter p a (drv w)\<rparr>"

text \<open>One descriptor that is done.\<close>

definition e1000_rx_frame ::
  "nat \<Rightarrow> rx_desc \<Rightarrow> ('h, 'm) net_state_scheme \<Rightarrow> ('h, 'm) net_state_scheme" where
  "e1000_rx_frame dev desc w =
     (if unat (rd_length desc) < 60 then w
      else if rd_status desc AND E1000_RXD_STAT_EOP = 0 then w
      else if rd_errors desc \<noteq> 0 then w
      else if length (rd_buf desc) < unat (rd_length desc) then fault w
      else snd (ether_input (take (unat (rd_length desc)) (rd_buf desc)) dev w))"

partial_function (option) e1000_receive ::
  "'h e1000_hw \<Rightarrow> nat \<Rightarrow> ('h e1000_state, 'm) net_state_scheme \<Rightarrow>
     ('h e1000_state, 'm) net_state_scheme option" where
  "e1000_receive hw p w =
     (let r = reg_read hw E1000_RDT (adapter (drv w) p); a = snd r;
          tail = unat (fst r + 1) mod RX_RING_SIZE; desc = rx_ring a ! tail
      in if rd_status desc AND E1000_RXD_STAT_DD = 0 then
           Some (put_adapter p (reg_write hw E1000_IMS E1000_IMS_RXT0
             (snd (reg_read hw E1000_ICR (reg_write hw E1000_IMC E1000_IMS_RXT0 a)))) w)
         else
           let w1 = e1000_rx_frame (ea_dev a) desc (put_adapter p a w); a1 = adapter (drv w1) p
           in e1000_receive hw p
                (put_adapter p (reg_write hw E1000_RDT (of_nat tail)
                   (a1\<lparr>rx_ring := (rx_ring a1)[tail := (rx_ring a1 ! tail)\<lparr>rd_status := 0\<rparr>]\<rparr>)) w1))"

fun e1000_intr_loop ::
  "'h e1000_hw \<Rightarrow> nat list \<Rightarrow> ('h e1000_state, 'm) net_state_scheme \<Rightarrow>
     ('h e1000_state, 'm) net_state_scheme option" where
  "e1000_intr_loop hw [] w = Some w"
| "e1000_intr_loop hw (p # ps) w =
     (let (icr, a) = reg_read hw E1000_ICR (adapter (drv w) p); w1 = put_adapter p a w
      in if icr AND E1000_ICR_RXT0 \<noteq> 0 then
           (case e1000_receive hw p w1 of
              None \<Rightarrow> None
            | Some w2 \<Rightarrow>
                e1000_intr_loop hw ps (put_adapter p (snd (reg_read hw E1000_ICR (adapter (drv w2) p))) w2))
         else e1000_intr_loop hw ps w1)"

definition e1000_intr ::
  "'h e1000_hw \<Rightarrow> ('h e1000_state, 'm) net_state_scheme \<Rightarrow> ('h e1000_state, 'm) net_state_scheme option" where
  "e1000_intr hw w = e1000_intr_loop hw (adapters (drv w)) w"

section \<open>Initialisation\<close>

definition e1000_alloc ::
  "'h e1000_hw \<Rightarrow> ('h e1000_state, 'm) net_state_scheme \<Rightarrow> nat option \<times> ('h e1000_state, 'm) net_state_scheme" where
  "e1000_alloc hw w =
     (let (ok, w1) = calloc w
      in if \<not> ok then (None, w1)
         else
           let p = adapter_brk (drv w1);
               a = \<lparr>card = new_card hw p, rx_ring = replicate RX_RING_SIZE zero_rx_desc,
                    tx_ring = replicate TX_RING_SIZE zero_tx_desc, ea_addr = replicate 6 0, ea_dev = 0\<rparr>;
               (v1, a1) = reg_read hw 0x5400 a;
               (v2, a2) = reg_read hw 0x5404 a1;
               a3 = a2\<lparr>ea_addr := take 4 (store32 v1) @ take 2 (store32 v2)\<rparr>;
               a4 = fold (\<lambda>n a. reg_write hw (E1000_MTA + push_bit 2 (of_nat n)) 0 a) [0..<128] a3;
               (ds, w2) = rx_buffers RX_RING_SIZE w1;
               a5 = e1000_rx_regs hw (rx_base hw p) (a4\<lparr>rx_ring := ds\<rparr>);
               a6 = e1000_tx_init hw p a5
           in (Some p, put_adapter p a6 (w2\<lparr>drv := (drv w2)\<lparr>adapter_brk := Suc p\<rparr>\<rparr>)))"

definition e1000_init ::
  "'h e1000_hw \<Rightarrow> ('h e1000_state, 'm) net_state_scheme \<Rightarrow> int \<times> ('h e1000_state, 'm) net_state_scheme" where
  "e1000_init hw w =
     (case e1000_alloc hw w of
        (None, w1) \<Rightarrow> (-1, w1)
      | (Some p, w1) \<Rightarrow>
          (case net_device_alloc w1 of
             (None, w2) \<Rightarrow> (-1, w2)
           | (Some dev, w2) \<Rightarrow>
               let d = ether_setup_helper (dev_heap w2 dev);
                   w3 = set_dev dev (d\<lparr>dev_addr := take 6 (ea_addr (adapter (drv w2) p)) @ drop 6 (dev_addr d),
                          priv := p\<rparr>) w2;
                   (r, w4) = net_device_register dev (w3\<lparr>dev_ops := (dev_ops w3)(dev := e1000_ops hw)\<rparr>)
               in if r = -1 then (-1, w4)
                  else (0, w4\<lparr>drv := (set_adapter p ((adapter (drv w4) p)\<lparr>ea_dev := dev\<rparr>) (drv w4))
                                     \<lparr>adapters := p # adapters (drv w4)\<rparr>\<rparr>)))"

lemmas e1000_consts = RX_RING_SIZE_def TX_RING_SIZE_def

section \<open>The receive ring\<close>

text \<open>
  The card the theorems on the ring are about is a quiet one: the tail register holds what was
  written to it, reading it changes nothing, and writing it changes neither the device of the
  adapter nor the receive ring, so that no frame arrives while the driver empties the ring. (A real
  card may fill a descriptor as soon as it has been given back; what it fills is then found by
  the same loop or by the next interrupt.)
\<close>

definition card_keeps_tail :: "'h e1000_hw \<Rightarrow> ('h e1000 \<Rightarrow> u32) \<Rightarrow> bool" where
  "card_keeps_tail hw rdt \<longleftrightarrow>
     (\<forall>a. reg_read hw E1000_RDT a = (rdt a, a)) \<and>
     (\<forall>v a. rdt (reg_write hw E1000_RDT v a) = v \<and> rx_ring (reg_write hw E1000_RDT v a) = rx_ring a \<and>
        ea_dev (reg_write hw E1000_RDT v a) = ea_dev a) \<and>
     (\<forall>a ds. rdt (a\<lparr>rx_ring := ds\<rparr>) = rdt a)"

lemma card_keeps_tailD:
  assumes "card_keeps_tail hw rdt"
  shows "reg_read hw E1000_RDT a = (rdt a, a)" "rdt (reg_write hw E1000_RDT v a) = v"
    "rx_ring (reg_write hw E1000_RDT v a) = rx_ring a" "ea_dev (reg_write hw E1000_RDT v a) = ea_dev a"
    "rdt (a\<lparr>rx_ring := ds\<rparr>) = rdt a"
  using assms unfolding card_keeps_tail_def by blast+

text \<open>Handing a frame to the stack does not touch the driver.\<close>

lemma net_input_handler_drv:
  "net_input_handler type data dev (w\<lparr>drv := s\<rparr>) =
     (fst (net_input_handler type data dev w), (snd (net_input_handler type data dev w))\<lparr>drv := s\<rparr>)"
  "drv (snd (net_input_handler type data dev w)) = drv w"
  by (simp_all add: net_input_handler_def calloc_def Let_def softirq_def case_prod_beta split: option.split)

lemma e1000_rx_frame_drv:
  "e1000_rx_frame dev desc (w\<lparr>drv := s\<rparr>) = (e1000_rx_frame dev desc w)\<lparr>drv := s\<rparr>"
  "drv (e1000_rx_frame dev desc w) = drv w"
  by (simp_all add: e1000_rx_frame_def ether_input_def Let_def net_input_handler_drv fault_def)

lemma e1000_rx_frames_drv:
  "fold (e1000_rx_frame dev) ds (w\<lparr>drv := s\<rparr>) = (fold (e1000_rx_frame dev) ds w)\<lparr>drv := s\<rparr>"
  "drv (fold (e1000_rx_frame dev) ds w) = drv w"
  by (induction ds arbitrary: w) (simp_all add: e1000_rx_frame_drv)

lemma put_adapter_put [simp]: "put_adapter p a (put_adapter p b w) = put_adapter p a w"
  "adapter (drv (put_adapter p a w)) p = a"
  by (simp_all add: put_adapter_def set_adapter_def)

lemma rx_frames_put:
  "fold (e1000_rx_frame dev) ds (put_adapter p a w) = put_adapter p a (fold (e1000_rx_frame dev) ds w)"
  by (simp add: put_adapter_def e1000_rx_frames_drv)

text \<open>The end of the loop: the interrupt is re-armed.\<close>

definition e1000_rearm :: "'h e1000_hw \<Rightarrow> 'h e1000 \<Rightarrow> 'h e1000" where
  "e1000_rearm hw a =
     reg_write hw E1000_IMS E1000_IMS_RXT0 (snd (reg_read hw E1000_ICR (reg_write hw E1000_IMC E1000_IMS_RXT0 a)))"

definition rx_done :: "rx_desc \<Rightarrow> bool" where
  "rx_done d \<longleftrightarrow> rd_status d AND E1000_RXD_STAT_DD \<noteq> 0"

lemma e1000_receive_ring:
  fixes w :: "('h e1000_state, 'm) net_state_scheme"
  assumes hw: "card_keeps_tail hw rdt"
    and "length (rx_ring (adapter (drv w) p)) = 16" and "rdt (adapter (drv w) p) = of_nat t" and "t < 16" and "k < 16"
    and "\<forall>i. 0 < i \<and> i \<le> k \<longrightarrow> rx_done (rx_ring (adapter (drv w) p) ! ((t + i) mod 16))"
    and "\<not> rx_done (rx_ring (adapter (drv w) p) ! (Suc (t + k) mod 16))"
  shows "\<exists>a. e1000_receive hw p w = Some (put_adapter p (e1000_rearm hw a)
      (fold (e1000_rx_frame (ea_dev (adapter (drv w) p)))
        (map (\<lambda>i. rx_ring (adapter (drv w) p) ! ((t + i) mod 16)) [1..<Suc k]) w)) \<and>
    rdt a = of_nat ((t + k) mod 16) \<and> length (rx_ring a) = 16 \<and>
    (\<forall>j < 16. rx_ring a ! j = (if \<exists>i. 0 < i \<and> i \<le> k \<and> j = (t + i) mod 16
       then (rx_ring (adapter (drv w) p) ! j)\<lparr>rd_status := 0\<rparr> else rx_ring (adapter (drv w) p) ! j))"
  using assms(2-)
proof (induction k arbitrary: w t)
  case 0
  have "unat (of_nat t + 1 :: u32) = Suc t" using 0(3) unat_of_nat_u32 [of "Suc t"] by (simp add: add.commute)
  then have tail: "unat (rdt (adapter (drv w) p) + 1) mod 16 = Suc t mod 16" using 0(2) by simp
  have "e1000_receive hw p w = Some (put_adapter p (e1000_rearm hw (adapter (drv w) p)) w)"
    using 0(6) by (subst e1000_receive.simps)
      (simp add: card_keeps_tailD [OF hw] tail rx_done_def RX_RING_SIZE_def e1000_rearm_def Let_def)
  then show ?case using 0 by (intro exI [of _ "adapter (drv w) p"]) auto
next
  case (Suc k)
  let ?A = "adapter (drv w) p"
  let ?t = "Suc t mod 16"
  let ?d = "rx_ring ?A ! ?t"
  let ?a = "reg_write hw E1000_RDT (of_nat ?t) (?A\<lparr>rx_ring := (rx_ring ?A)[?t := ?d\<lparr>rd_status := 0\<rparr>]\<rparr>)"
  let ?w = "put_adapter p ?a (e1000_rx_frame (ea_dev ?A) ?d w)"
  have "unat (of_nat t + 1 :: u32) = Suc t" using Suc.prems(3) unat_of_nat_u32 [of "Suc t"] by (simp add: add.commute)
  then have tail: "unat (rdt ?A + 1) mod 16 = ?t" using Suc.prems(2) by simp
  have d: "rx_done ?d" using Suc.prems(5) [rule_format, of 1] by simp
  have id: "put_adapter p ?A w = w" by (simp add: put_adapter_def set_adapter_def)
  have step: "e1000_receive hw p w = e1000_receive hw p ?w"
    using d by (subst e1000_receive.simps)
      (simp add: card_keeps_tailD [OF hw] tail rx_done_def RX_RING_SIZE_def Let_def id e1000_rx_frame_drv)
  have idx: "(?t + i) mod 16 = (t + Suc i) mod 16" for i by presburger
  have ne: "(t + Suc i) mod 16 \<noteq> ?t" if "0 < i" "i < 16" for i
    using that mod_eq_dvd_iff_nat [of "Suc t" "t + Suc i" 16] nat_dvd_not_less [of i 16] by simp
  have a: "rx_ring ?a = (rx_ring ?A)[?t := ?d\<lparr>rd_status := 0\<rparr>]" "rdt ?a = of_nat ?t" "ea_dev ?a = ea_dev ?A"
    by (simp_all add: card_keeps_tailD [OF hw])
  have n: "rx_ring ?a ! ((?t + i) mod 16) = rx_ring ?A ! ((t + Suc i) mod 16)" if "0 < i" "i < 16" for i
    using ne [OF that] unfolding a(1) idx by simp
  obtain b where b: "e1000_receive hw p ?w = Some (put_adapter p (e1000_rearm hw b)
      (fold (e1000_rx_frame (ea_dev ?a)) (map (\<lambda>i. rx_ring ?a ! ((?t + i) mod 16)) [1..<Suc k]) ?w))"
    "rdt b = of_nat ((?t + k) mod 16)" "length (rx_ring b) = 16"
    "\<forall>j < 16. rx_ring b ! j = (if \<exists>i. 0 < i \<and> i \<le> k \<and> j = (?t + i) mod 16
       then (rx_ring ?a ! j)\<lparr>rd_status := 0\<rparr> else rx_ring ?a ! j)"
  proof (atomize_elim, rule Suc.IH [of ?w ?t, unfolded put_adapter_put])
    show "length (rx_ring ?a) = 16" "rdt ?a = of_nat ?t" "?t < 16" "k < 16"
      using Suc.prems by (simp_all add: a)
    show "\<forall>i. 0 < i \<and> i \<le> k \<longrightarrow> rx_done (rx_ring ?a ! ((?t + i) mod 16))"
    proof (intro allI impI)
      fix i assume "0 < i \<and> i \<le> k"
      then show "rx_done (rx_ring ?a ! ((?t + i) mod 16))"
        using Suc.prems(4) Suc.prems(5) [rule_format, of "Suc i"] n [of i] by simp
    qed
    have "Suc (?t + k) mod 16 = (?t + Suc k) mod 16" by simp
    moreover have "Suc (t + Suc k) mod 16 = (t + Suc (Suc k)) mod 16" by simp
    ultimately show "\<not> rx_done (rx_ring ?a ! (Suc (?t + k) mod 16))"
      using Suc.prems(4,6) n [of "Suc k"] by simp
  qed
  let ?F = "\<lambda>i. rx_ring ?A ! ((t + i) mod 16)"
  have "map (\<lambda>i. rx_ring ?a ! ((?t + i) mod 16)) [1..<Suc k] = map (\<lambda>i. ?F (Suc i)) [1..<Suc k]"
    using n Suc.prems(4) by (intro map_cong) auto
  also have "\<dots> = map ?F [Suc 1..<Suc (Suc k)]" by (simp only: map_Suc_upt [symmetric] map_map comp_def)
  finally have frames: "?d # map (\<lambda>i. rx_ring ?a ! ((?t + i) mod 16)) [1..<Suc k] = map ?F [1..<Suc (Suc k)]"
    by (simp only: upt_conv_Cons [of 1 "Suc (Suc k)"] list.map) simp
  have "e1000_receive hw p w = Some (put_adapter p (e1000_rearm hw b)
      (fold (e1000_rx_frame (ea_dev ?A)) (map ?F [1..<Suc (Suc k)]) w))"
    unfolding step b(1) frames [symmetric] by (simp add: rx_frames_put a(3))
  moreover have "rdt b = of_nat ((t + Suc k) mod 16)" using b(2) idx [of k] by (simp only:)
  moreover have "rx_ring b ! j = (if \<exists>i. 0 < i \<and> i \<le> Suc k \<and> j = (t + i) mod 16
       then (rx_ring ?A ! j)\<lparr>rd_status := 0\<rparr> else rx_ring ?A ! j)" if j: "j < 16" for j
  proof (cases "j = ?t")
    case True
    have "\<not> (\<exists>i. 0 < i \<and> i \<le> k \<and> ?t = (?t + i) mod 16)"
      using ne Suc.prems(4) idx by (metis le_imp_less_Suc less_trans order_le_less_trans)
    then have "rx_ring b ! j = ?d\<lparr>rd_status := 0\<rparr>"
      using b(4) j True Suc.prems(1) unfolding a(1) by simp
    moreover have "\<exists>i. 0 < i \<and> i \<le> Suc k \<and> j = (t + i) mod 16" using True by (intro exI [of _ 1]) simp
    ultimately show ?thesis using True by simp
  next
    case False
    have iff: "(\<exists>i. 0 < i \<and> i \<le> Suc k \<and> j = (t + i) mod 16) \<longleftrightarrow> (\<exists>i. 0 < i \<and> i \<le> k \<and> j = (?t + i) mod 16)"
    proof
      assume "\<exists>i. 0 < i \<and> i \<le> Suc k \<and> j = (t + i) mod 16"
      then obtain i where i: "0 < i" "i \<le> Suc k" "j = (t + i) mod 16" by blast
      then obtain m where "i = Suc m" by (cases i) auto
      with i False have "0 < m" "m \<le> k" "j = (?t + m) mod 16" using idx [of m] by (auto intro: Nat.gr0I)
      then show "\<exists>i. 0 < i \<and> i \<le> k \<and> j = (?t + i) mod 16" by blast
    next
      assume "\<exists>i. 0 < i \<and> i \<le> k \<and> j = (?t + i) mod 16"
      then show "\<exists>i. 0 < i \<and> i \<le> Suc k \<and> j = (t + i) mod 16" using idx by (metis Suc_le_mono zero_less_Suc)
    qed
    have "rx_ring ?a ! j = rx_ring ?A ! j" unfolding a(1) using False by (simp only: nth_list_update_neq)
    then show ?thesis using b(4) [rule_format, OF j] unfolding iff by (simp only:)
  qed
  ultimately show ?case using b(3) by blast
qed


text \<open>The loop that waits for the card.\<close>

lemma while_option_iterate:
  "while_option b c s =
     (if \<exists>n. \<not> b ((c ^^ n) s) then Some ((c ^^ (LEAST n. \<not> b ((c ^^ n) s))) s) else None)"
  by (simp add: while_option_def)

lemma e1000_write_waits:
  assumes a: "a = adapter s (priv dev)" and tail: "reg_read hw E1000_TDT a = (of_nat t, a)"
    and t: "t < 16" and len: "length (tx_ring a) = 16"
    and h: "h = reg_write hw E1000_TDT (of_nat (Suc t mod 16)) (a\<lparr>tx_ring := (tx_ring a)[t := (tx_ring a ! t)
              \<lparr>td_data := data, td_length := of_nat (length data), td_status := 0, td_cmd := 0x09\<rparr>]\<rparr>)"
  shows "e1000_write hw dev data s =
    (if \<exists>n. td_status (tx_ring ((card_runs hw ^^ n) h) ! t) AND 0x0f \<noteq> 0
     then Some (int (length data), set_adapter (priv dev)
       ((card_runs hw ^^ (LEAST n. td_status (tx_ring ((card_runs hw ^^ n) h) ! t) AND 0x0f \<noteq> 0)) h) s)
     else None)"
proof -
  have u: "unat (of_nat t :: u32) = t" using t unat_of_nat_u32 [of t] by simp
  have "unat (of_nat t + 1 :: u32) = Suc t" using t unat_of_nat_u32 [of "Suc t"] by (simp add: add.commute)
  then have m: "(of_nat t + 1) mod (0x10 :: u32) = of_nat (Suc t mod 16)"
    by (simp add: word_arith_nat_mod)
  have cmd: "E1000_TXD_CMD_EOP OR E1000_TXD_CMD_RS = 0x09"
    by (simp add: E1000_TXD_CMD_EOP_def E1000_TXD_CMD_RS_def)
  show ?thesis
    using t len unfolding e1000_write_def a [symmetric] tail
    by (simp add: Let_def u m cmd TX_RING_SIZE_def while_option_iterate h [symmetric])
qed

section \<open>A card\<close>

text \<open>
  A card whose registers hold what was written to them, and that sends every frame it is given
  as soon as it runs.
\<close>

definition plain_card :: "(u16 \<Rightarrow> u32) e1000_hw" where
  "plain_card =
     \<lparr>reg_read = \<lambda>reg a. (card a reg, a), reg_write = \<lambda>reg v a. a\<lparr>card := (card a)(reg := v)\<rparr>,
      card_runs = \<lambda>a. a\<lparr>tx_ring := map (\<lambda>d. d\<lparr>td_status := 1\<rparr>) (tx_ring a)\<rparr>,
      new_card = \<lambda>p reg. 0, rx_base = \<lambda>p. 0x100000, tx_base = \<lambda>p. 0x101000\<rparr>"

lemma plain_card_keeps_tail: "card_keeps_tail plain_card (\<lambda>a. card a E1000_RDT)"
  by (simp add: card_keeps_tail_def plain_card_def)

definition plain_adapter :: "rx_desc list \<Rightarrow> (u16 \<Rightarrow> u32) e1000_state" where
  "plain_adapter ds =
     \<lparr>adapter = \<lambda>p. \<lparr>card = (\<lambda>reg. 0)(E1000_RDT := 15), rx_ring = ds, tx_ring = replicate 16 zero_tx_desc,
        ea_addr = [0x52, 0x54, 0, 0x12, 0x34, 0x56], ea_dev = 0\<rparr>, adapters = [0], adapter_brk = 1\<rparr>"

section \<open>Claims\<close>

text \<open>
  C18: emptying the receive ring. When the \<open>k < 16\<close> descriptors behind the tail are done and the
  next one is not, the loop ends after exactly these: their frames go to the network in ring
  order, each descriptor is given back with its status cleared and no other changes, the tail
  moves on by \<open>k\<close> around the ring, and the interrupt is armed again. The card is only assumed to
  keep the tail register.
\<close>

theorem e1000_receive_frames:
  fixes w :: "('h e1000_state, 'm) net_state_scheme"
  assumes "card_keeps_tail hw rdt" and "ad = adapter (drv w) p"
    and "length (rx_ring ad) = 16" and "rdt ad = of_nat t" and "t < 16" and "k < 16"
    and "\<forall>i. 0 < i \<and> i \<le> k \<longrightarrow> rx_done (rx_ring ad ! ((t + i) mod 16))"
    and "\<not> rx_done (rx_ring ad ! (Suc (t + k) mod 16))"
  shows "\<exists>a. e1000_receive hw p w = Some (put_adapter p (e1000_rearm hw a)
      (fold (e1000_rx_frame (ea_dev ad)) (map (\<lambda>i. rx_ring ad ! ((t + i) mod 16)) [1..<Suc k]) w)) \<and>
    rdt a = of_nat ((t + k) mod 16) \<and> length (rx_ring a) = 16 \<and>
    (\<forall>j < 16. rx_ring a ! j = (if \<exists>i. 0 < i \<and> i \<le> k \<and> j = (t + i) mod 16
       then (rx_ring ad ! j)\<lparr>rd_status := 0\<rparr> else rx_ring ad ! j))"
  using assms(1,3-) unfolding assms(2) by (rule e1000_receive_ring)

theorem e1000_receive_frames_witness:
  "\<exists>a. e1000_receive plain_card 0
      (net_boot (plain_adapter (zero_rx_desc\<lparr>rd_buf := replicate 2048 7, rd_length := 60, rd_status := 3\<rparr> #
         replicate 15 zero_rx_desc))) =
    Some (put_adapter 0 (e1000_rearm plain_card a)
      (e1000_rx_frame 0 (zero_rx_desc\<lparr>rd_buf := replicate 2048 7, rd_length := 60, rd_status := 3\<rparr>)
      (net_boot (plain_adapter (zero_rx_desc\<lparr>rd_buf := replicate 2048 7, rd_length := 60, rd_status := 3\<rparr> #
         replicate 15 zero_rx_desc))))) \<and> card a E1000_RDT = 0"
proof -
  let ?d = "zero_rx_desc\<lparr>rd_buf := replicate 2048 7, rd_length := 60, rd_status := 3\<rparr>"
  let ?w = "net_boot (plain_adapter (?d # replicate 15 zero_rx_desc))"
  have d: "drv ?w = plain_adapter (?d # replicate 15 zero_rx_desc)" by (simp add: net_boot_def)
  have ring: "rx_ring (adapter (drv ?w) 0) = ?d # replicate 15 zero_rx_desc" "ea_dev (adapter (drv ?w) 0) = 0"
    "card (adapter (drv ?w) 0) E1000_RDT = of_nat 15"
    unfolding d by (simp_all add: plain_adapter_def)
  have "\<forall>i. 0 < i \<and> i \<le> 1 \<longrightarrow> rx_done ((?d # replicate 15 zero_rx_desc) ! ((15 + i) mod 16))"
    by (auto simp: rx_done_def E1000_RXD_STAT_DD_def le_Suc_eq)
  moreover have "\<not> rx_done ((?d # replicate 15 zero_rx_desc) ! (Suc (15 + 1) mod 16))"
    by (simp add: rx_done_def zero_rx_desc_def)
  ultimately show ?thesis
    using e1000_receive_frames [OF plain_card_keeps_tail refl, of ?w 0 15 1] unfolding ring by auto
qed

text \<open>
  Sending. A payload of at most 1500 bytes is laid out as one Ethernet frame, which is in the
  descriptor at the tail, with the end-of-packet and report-status commands and its status
  cleared, when the tail register is written with the next index. The driver then waits: it
  returns success the first time the card has reported the descriptor, and does not return if
  the card never does.
\<close>

lemma e1000_transmit_frame:
  fixes hw :: "'h e1000_hw"
  assumes "length data \<le> 1500" and "6 \<le> length dst" and "6 \<le> length (dev_addr dev)"
    and "a = adapter s (priv dev)" and "reg_read hw E1000_TDT a = (of_nat t, a)" and "t < 16"
    and "length (tx_ring a) = 16"
    and "frame = ether_frame dev type data dst"
    and "h = reg_write hw E1000_TDT (of_nat (Suc t mod 16)) (a\<lparr>tx_ring := (tx_ring a)[t := (tx_ring a ! t)
           \<lparr>td_data := frame, td_length := of_nat (length frame), td_status := 0, td_cmd := 0x09\<rparr>]\<rparr>)"
  shows "e1000_transmit hw dev type data dst s =
    (if \<exists>n. td_status (tx_ring ((card_runs hw ^^ n) h) ! t) AND 0x0f \<noteq> 0
     then Some (0, set_adapter (priv dev)
       ((card_runs hw ^^ (LEAST n. td_status (tx_ring ((card_runs hw ^^ n) h) ! t) AND 0x0f \<noteq> 0)) h) s)
     else None)"
proof -
  have wr: "e1000_write hw dev frame s =
    (if \<exists>n. td_status (tx_ring ((card_runs hw ^^ n) h) ! t) AND 0x0f \<noteq> 0
     then Some (int (length frame), set_adapter (priv dev)
       ((card_runs hw ^^ (LEAST n. td_status (tx_ring ((card_runs hw ^^ n) h) ! t) AND 0x0f \<noteq> 0)) h) s)
     else None)"
    using assms(4-7,9) by (rule e1000_write_waits)
  have "length data \<le> ETHER_PAYLOAD_SIZE_MAX" using assms(1) by (simp add: ether_consts)
  then show ?thesis
    using assms(2,3) by (simp add: e1000_transmit_def ether_transmit_helper_frame Let_def assms(8) [symmetric] wr)
qed

lemma e1000_transmit_frame_witness:
  "\<exists>s. e1000_transmit plain_card (zero_device\<lparr>dev_addr := [1, 2, 3, 4, 5, 6]\<rparr>) 0x0800 [9] ETHER_ADDR_BROADCAST
     (plain_adapter (replicate 16 zero_rx_desc)) = Some (0, s)"
proof -
  let ?dev = "zero_device\<lparr>dev_addr := [1, 2, 3, 4, 5, 6]\<rparr>"
  let ?s = "plain_adapter (replicate 16 zero_rx_desc)"
  let ?a = "adapter ?s (priv ?dev)"
  let ?f = "ether_frame ?dev 0x0800 [9] ETHER_ADDR_BROADCAST"
  let ?h = "reg_write plain_card E1000_TDT (of_nat (Suc 0 mod 16)) (?a\<lparr>tx_ring := (tx_ring ?a)[0 := (tx_ring ?a ! 0)
           \<lparr>td_data := ?f, td_length := of_nat (length ?f), td_status := 0, td_cmd := 0x09\<rparr>]\<rparr>)"
  have ring: "length (tx_ring ?a) = 16" "reg_read plain_card E1000_TDT ?a = (of_nat 0, ?a)"
    by (simp_all add: plain_adapter_def plain_card_def E1000_TDT_def E1000_RDT_def)
  have "tx_ring ?h \<noteq> []" by (simp add: plain_card_def plain_adapter_def)
  then have "td_status (tx_ring ((card_runs plain_card ^^ 1) ?h) ! 0) AND 0x0f \<noteq> 0"
    by (simp add: plain_card_def)
  then have "\<exists>n. td_status (tx_ring ((card_runs plain_card ^^ n) ?h) ! 0) AND 0x0f \<noteq> 0" by blast
  then show ?thesis
    using e1000_transmit_frame [of "[9]" ETHER_ADDR_BROADCAST ?dev ?a ?s plain_card 0 ?f "0x0800" ?h] ring
    by (simp add: ETHER_ADDR_BROADCAST_def)
qed

end
