(* ===== verification/Allocator.thy ===== *)
theory Allocator
  imports Prelude
begin

text \<open>
  What the users of an allocator of page frames rely on. A run of frames that was granted and not
  given back belongs to one user: whatever the order of the calls, runs in use never overlap.
\<close>

type_synonym frame_run = "nat \<times> nat"

definition frames_of :: "frame_run \<Rightarrow> nat set" where
  "frames_of r = {fst r..<fst r + snd r}"

datatype pool_op = Take_run nat | Give_back nat

text \<open>
  The calls of the users: \<open>Give_back i\<close> returns the \<open>i\<close>-th run in use. \<open>None\<close>: an operation of the
  allocator has left its memory.
\<close>

fun pool_run ::
  "(nat \<Rightarrow> 's \<Rightarrow> (nat option \<times> 's) option) \<Rightarrow> (nat \<Rightarrow> nat \<Rightarrow> 's \<Rightarrow> 's option) \<Rightarrow> pool_op list \<Rightarrow>
     frame_run list \<times> 's \<Rightarrow> (frame_run list \<times> 's) option" where
  "pool_run alloc free [] (rs, s) = Some (rs, s)"
| "pool_run alloc free (Take_run n # ops) (rs, s) =
     (case alloc n s of
        None \<Rightarrow> None
      | Some (None, s1) \<Rightarrow> pool_run alloc free ops (rs, s1)
      | Some (Some f, s1) \<Rightarrow> pool_run alloc free ops ((f, n) # rs, s1))"
| "pool_run alloc free (Give_back i # ops) (rs, s) =
     (if i < length rs then
        (case free (fst (rs ! i)) (snd (rs ! i)) s of
           None \<Rightarrow> None
         | Some s1 \<Rightarrow> pool_run alloc free ops (take i rs @ drop (Suc i) rs, s1))
      else pool_run alloc free ops (rs, s))"

text \<open>The runs in use share no frame, and all frames that are taken are theirs or were taken before.\<close>

fun runs_apart :: "frame_run list \<Rightarrow> bool" where
  "runs_apart [] \<longleftrightarrow> True"
| "runs_apart (r # rs) \<longleftrightarrow> (\<forall>q \<in> set rs. frames_of r \<inter> frames_of q = {}) \<and> runs_apart rs"

definition runs_frames :: "frame_run list \<Rightarrow> nat set" where
  "runs_frames rs = (\<Union>r \<in> set rs. frames_of r)"

lemma runs_frames_simps [simp]:
  "runs_frames [] = {}" "runs_frames (r # rs) = frames_of r \<union> runs_frames rs"
  "runs_frames (rs @ qs) = runs_frames rs \<union> runs_frames qs"
  by (auto simp: runs_frames_def)

lemma runs_apart_Cons_iff: "runs_apart (r # rs) \<longleftrightarrow> frames_of r \<inter> runs_frames rs = {} \<and> runs_apart rs"
  by (auto simp: runs_frames_def)

lemma runs_apart_append:
  "runs_apart (rs @ qs) \<longleftrightarrow> runs_apart rs \<and> runs_apart qs \<and> runs_frames rs \<inter> runs_frames qs = {}"
  by (induction rs) (auto simp: runs_frames_def)

text \<open>Taking one run out.\<close>

lemma runs_apart_remove:
  assumes "runs_apart rs" and "i < length rs"
  shows "runs_apart (take i rs @ drop (Suc i) rs)"
    "runs_frames (take i rs @ drop (Suc i) rs) = runs_frames rs - frames_of (rs ! i)"
    "frames_of (rs ! i) \<subseteq> runs_frames rs"
proof -
  have rs: "rs = take i rs @ (rs ! i) # drop (Suc i) rs" using assms(2) by (rule id_take_nth_drop)
  with assms(1) have "runs_apart (take i rs @ (rs ! i) # drop (Suc i) rs)" by simp
  then have apart: "runs_apart (take i rs)" "runs_apart (drop (Suc i) rs)"
    "frames_of (rs ! i) \<inter> runs_frames (drop (Suc i) rs) = {}"
    "runs_frames (take i rs) \<inter> (frames_of (rs ! i) \<union> runs_frames (drop (Suc i) rs)) = {}"
    unfolding runs_apart_append runs_apart_Cons_iff by auto
  then show "runs_apart (take i rs @ drop (Suc i) rs)" unfolding runs_apart_append by blast
  have "runs_frames rs = runs_frames (take i rs) \<union> (frames_of (rs ! i) \<union> runs_frames (drop (Suc i) rs))"
    by (subst rs) simp
  with apart show "runs_frames (take i rs @ drop (Suc i) rs) = runs_frames rs - frames_of (rs ! i)"
    "frames_of (rs ! i) \<subseteq> runs_frames rs" by auto
qed

locale frame_allocator =
  fixes taken :: "'s \<Rightarrow> nat set"
    and alloc :: "nat \<Rightarrow> 's \<Rightarrow> (nat option \<times> 's) option"
    and free :: "nat \<Rightarrow> nat \<Rightarrow> 's \<Rightarrow> 's option"
    and ok :: "'s \<Rightarrow> bool"
    and legal :: "nat \<Rightarrow> bool"
    and limit :: nat
  assumes alloc_total: "ok s \<Longrightarrow> legal n \<Longrightarrow> \<exists>r s'. alloc n s = Some (r, s')"
    and alloc_grants: "ok s \<Longrightarrow> legal n \<Longrightarrow> alloc n s = Some (Some f, s') \<Longrightarrow>
      ok s' \<and> frames_of (f, n) \<inter> taken s = {} \<and> taken s' = taken s \<union> frames_of (f, n) \<and> f + n \<le> limit"
    and alloc_refuses: "ok s \<Longrightarrow> legal n \<Longrightarrow> alloc n s = Some (None, s') \<Longrightarrow> s' = s"
    and free_returns: "ok s \<Longrightarrow> f + n \<le> limit \<Longrightarrow>
      \<exists>s'. free f n s = Some s' \<and> ok s' \<and> taken s' = taken s - frames_of (f, n)"
begin

text \<open>A run of calls: it ends, and the runs in use are apart from each other and from \<open>reserved\<close>.\<close>

definition pool_ok :: "nat set \<Rightarrow> frame_run list \<Rightarrow> 's \<Rightarrow> bool" where
  "pool_ok reserved rs s \<longleftrightarrow> ok s \<and> runs_apart rs \<and> (\<forall>r \<in> set rs. fst r + snd r \<le> limit) \<and>
     runs_frames rs \<inter> reserved = {} \<and> taken s = reserved \<union> runs_frames rs"

lemma pool_ok_taken:
  assumes "pool_ok reserved rs s" and "legal n" and "alloc n s = Some (Some f, s')"
  shows "pool_ok reserved ((f, n) # rs) s'"
  using alloc_grants [OF _ assms(2,3)] assms(1) unfolding pool_ok_def runs_apart_Cons_iff by auto

lemma pool_ok_given_back:
  assumes ok: "pool_ok reserved rs s" and i: "i < length rs"
  shows "\<exists>s'. free (fst (rs ! i)) (snd (rs ! i)) s = Some s' \<and>
    pool_ok reserved (take i rs @ drop (Suc i) rs) s'"
proof -
  from ok have rs: "ok s" "runs_apart rs" "\<forall>r \<in> set rs. fst r + snd r \<le> limit"
    "runs_frames rs \<inter> reserved = {}" "taken s = reserved \<union> runs_frames rs" by (auto simp: pool_ok_def)
  have "fst (rs ! i) + snd (rs ! i) \<le> limit" using rs(3) i by simp
  from free_returns [OF rs(1) this] obtain s' where s': "free (fst (rs ! i)) (snd (rs ! i)) s = Some s'"
    "ok s'" "taken s' = taken s - frames_of (rs ! i)" by auto
  have "taken s' = reserved \<union> (runs_frames rs - frames_of (rs ! i))"
    using runs_apart_remove(3) [OF rs(2) i] rs(4,5) s'(3) by auto
  moreover have "\<forall>r \<in> set (take i rs @ drop (Suc i) rs). fst r + snd r \<le> limit"
    using rs(3) by (auto dest: in_set_takeD in_set_dropD)
  ultimately have "pool_ok reserved (take i rs @ drop (Suc i) rs) s'"
    using runs_apart_remove(1,2) [OF rs(2) i] rs(4) s'(2) unfolding pool_ok_def by auto
  with s'(1) show ?thesis by blast
qed

lemma pool_run_ok:
  assumes "pool_ok reserved rs s" and "\<forall>n. Take_run n \<in> set ops \<longrightarrow> legal n"
  shows "\<exists>rs' s'. pool_run alloc free ops (rs, s) = Some (rs', s') \<and> pool_ok reserved rs' s'"
  using assms
proof (induction ops arbitrary: rs s)
  case Nil
  then show ?case by simp
next
  case (Cons op ops)
  have legal: "\<forall>n. Take_run n \<in> set ops \<longrightarrow> legal n" using Cons.prems(2) by simp
  show ?case
  proof (cases op)
    case (Take_run n)
    then have n: "legal n" using Cons.prems(2) by simp
    have "ok s" using Cons.prems(1) by (simp add: pool_ok_def)
    from alloc_total [OF this n] obtain r s1 where a: "alloc n s = Some (r, s1)" by blast
    show ?thesis
    proof (cases r)
      case None
      then have "s1 = s" using alloc_refuses [OF \<open>ok s\<close> n] a by simp
      with Cons.IH [OF Cons.prems(1) legal] show ?thesis by (simp add: Take_run a None)
    next
      case (Some f)
      from Cons.IH [OF pool_ok_taken [OF Cons.prems(1) n a [unfolded Some]] legal]
      show ?thesis by (simp add: Take_run a Some)
    qed
  next
    case (Give_back i)
    show ?thesis
    proof (cases "i < length rs")
      case True
      from pool_ok_given_back [OF Cons.prems(1) True] obtain s1
        where s1: "free (fst (rs ! i)) (snd (rs ! i)) s = Some s1" "pool_ok reserved (take i rs @ drop (Suc i) rs) s1"
        by blast
      from Cons.IH [OF s1(2) legal] show ?thesis by (simp add: Give_back True s1(1))
    next
      case False
      with Cons.IH [OF Cons.prems(1) legal] show ?thesis by (simp add: Give_back)
    qed
  qed
qed

end

end
