(* ===== verification/MemoryManager.thy ===== *)
theory MemoryManager
  imports Allocator
begin

text \<open>
  \<^verbatim>\<open>kernel/memory_manager.cpp\<close>: the bitmap of page frames, its set-up from the memory map of the
  firmware, and the heap that \<^verbatim>\<open>sbrk\<close> of \<^verbatim>\<open>kernel/newlib_support.c\<close> hands out. An access behind
  the end of the bitmap, which nothing checks, is \<open>None\<close>.
\<close>

section \<open>Data\<close>

datatype kernel_error =
    kSuccess | kFull | kEmpty | kNoEnoughMemory | kIndexOutOfRange | kHostControllerNotHalted
  | kInvalidSlotID | kPortNotConnected | kInvalidEndpointNumber | kTransferRingNotSet
  | kAlreadyAllocated | kNotImplemented | kInvalidDescriptor | kBufferTooSmall | kUnknownDevice
  | kNoCorrespondingSetupStage | kTransferFailed | kInvalidPhase | kUnknownXHCISpeedID | kNoWaiter
  | kNoPCIMSI | kUnknownPixelFormat | kNoSuchTask | kInvalidFormat | kFrameTooSmall | kInvalidFile
  | kIsDirectory | kNoSuchEntry | kFreeTypeError | kEndpointNotInCharge | kLastOfCode

definition kBytesPerFrame :: u64 where "kBytesPerFrame = 4096"
definition kFrameCount :: nat where "kFrameCount = 33554432"
definition kBitsPerMapLine :: nat where "kBitsPerMapLine = 64"

text \<open>\<open>alloc_map i\<close> is the element \<open>i\<close> of the array, which has \<open>kFrameCount div 64\<close> elements.\<close>

record frame_manager =
  alloc_map :: "nat \<Rightarrow> u64"
  range_begin :: u64
  range_end :: u64

definition new_frame_manager :: frame_manager where
  "new_frame_manager = \<lparr>alloc_map = \<lambda>i. 0, range_begin = 0, range_end = of_nat kFrameCount\<rparr>"

section \<open>The bitmap\<close>

definition GetBit :: "u64 \<Rightarrow> frame_manager \<Rightarrow> bool option" where
  "GetBit f m =
     (let line = unat f div kBitsPerMapLine; b = unat f mod kBitsPerMapLine
      in if line < kFrameCount div kBitsPerMapLine then Some (alloc_map m line AND push_bit b 1 \<noteq> 0) else None)"

definition SetBit :: "u64 \<Rightarrow> bool \<Rightarrow> frame_manager \<Rightarrow> frame_manager option" where
  "SetBit f allocated m =
     (let line = unat f div kBitsPerMapLine; b = unat f mod kBitsPerMapLine; old = alloc_map m line
      in if line < kFrameCount div kBitsPerMapLine
         then Some (m\<lparr>alloc_map := (alloc_map m)(line :=
                     (if allocated then old OR push_bit b 1 else old AND NOT (push_bit b 1)))\<rparr>)
         else None)"

text \<open>The loops of \<^verbatim>\<open>Free\<close> and \<^verbatim>\<open>MarkAllocated\<close>.\<close>

fun SetBits :: "bool \<Rightarrow> u64 \<Rightarrow> nat \<Rightarrow> frame_manager \<Rightarrow> frame_manager option" where
  "SetBits allocated f 0 m = Some m"
| "SetBits allocated f (Suc n) m =
     (case SetBit f allocated m of None \<Rightarrow> None | Some m1 \<Rightarrow> SetBits allocated (f + 1) n m1)"

definition MarkAllocated :: "u64 \<Rightarrow> u64 \<Rightarrow> frame_manager \<Rightarrow> frame_manager option" where
  "MarkAllocated start num m = SetBits True start (unat num) m"

definition Free :: "u64 \<Rightarrow> u64 \<Rightarrow> frame_manager \<Rightarrow> (kernel_error \<times> frame_manager) option" where
  "Free start num m = map_option (Pair kSuccess) (SetBits False start (unat num) m)"

definition SetMemoryRange :: "u64 \<Rightarrow> u64 \<Rightarrow> frame_manager \<Rightarrow> frame_manager" where
  "SetMemoryRange b e m = m\<lparr>range_begin := b, range_end := e\<rparr>"

definition line_count :: "u64 \<Rightarrow> nat" where
  "line_count w = length (filter (bit w) [0..<64])"

definition Stat :: "frame_manager \<Rightarrow> nat \<times> u64" where
  "Stat m =
     (sum_list (map (\<lambda>i. line_count (alloc_map m i))
        [unat (range_begin m) div kBitsPerMapLine..<unat (range_end m) div kBitsPerMapLine]),
      range_end m - range_begin m)"

section \<open>Allocation\<close>

text \<open>The inner loop of \<^verbatim>\<open>Allocate\<close> from \<open>i\<close> on, with \<open>n\<close> frames left to look at.\<close>

datatype scan = All_free | Used_at nat | Out_of_range

fun alloc_scan :: "frame_manager \<Rightarrow> u64 \<Rightarrow> nat \<Rightarrow> nat \<Rightarrow> scan option" where
  "alloc_scan m start i 0 = Some All_free"
| "alloc_scan m start i (Suc n) =
     (if range_end m \<le> start + of_nat i then Some Out_of_range
      else case GetBit (start + of_nat i) m of
          None \<Rightarrow> None
        | Some True \<Rightarrow> Some (Used_at i)
        | Some False \<Rightarrow> alloc_scan m start (Suc i) n)"

lemma unat_u64_bound: "unat (x :: u64) < 18446744073709551616"
  using unsigned_less [of x] by simp

lemma unat_u64_Suc: "w < (e :: u64) \<Longrightarrow> unat (w + 1) = Suc (unat w)"
  using unat_u64_bound [of e] by (simp add: word_less_nat_alt unat_word_ariths)

lemma alloc_scan_used:
  "alloc_scan m start i n = Some (Used_at j) \<Longrightarrow> unat (start + of_nat i) = unat start + i \<Longrightarrow>
     i \<le> j \<and> j < i + n \<and> start + of_nat j < range_end m \<and> unat (start + of_nat j) = unat start + j"
proof (induction n arbitrary: i)
  case 0
  then show ?case by simp
next
  case (Suc n)
  let ?f = "start + of_nat i"
  show ?case
  proof (cases "range_end m \<le> ?f \<or> GetBit ?f m \<noteq> Some False")
    case True
    then show ?thesis using Suc.prems by (auto split: option.splits bool.splits if_splits)
  next
    case False
    then have "?f < range_end m" by (simp add: not_le)
    then have "unat (?f + 1) = unat start + Suc i"
      using Suc.prems(2) by (simp add: unat_u64_Suc)
    moreover have "start + of_nat (Suc i) = ?f + 1" by simp
    ultimately show ?thesis using Suc.IH [of "Suc i"] Suc.prems False by (simp only:) auto
  qed
qed

function Allocate_loop :: "u64 \<Rightarrow> u64 \<Rightarrow> frame_manager \<Rightarrow> ((kernel_error + u64) \<times> frame_manager) option" where
  "Allocate_loop num start m =
     (case alloc_scan m start 0 (unat num) of
        None \<Rightarrow> None
      | Some Out_of_range \<Rightarrow> Some (Inl kNoEnoughMemory, m)
      | Some (Used_at i) \<Rightarrow> Allocate_loop num (start + (of_nat i + 1)) m
      | Some All_free \<Rightarrow> map_option (Pair (Inr start)) (MarkAllocated start num m))"
  by pat_completeness auto
termination
proof (relation "measure (\<lambda>(num, start, m). unat (range_end m) - unat start)", simp)
  fix num start m x i
  assume "alloc_scan m start 0 (unat num) = Some x" "x = Used_at i"
  then have i: "start + of_nat i < range_end m" "unat (start + of_nat i) = unat start + i"
    using alloc_scan_used [of m start 0 "unat num" i] by auto
  then have "unat (start + (of_nat i + 1)) = Suc (unat start + i)"
    using unat_u64_Suc [OF i(1)] by (simp add: add.assoc)
  moreover have "unat start + i < unat (range_end m)" using i by (simp add: word_less_nat_alt)
  ultimately show "((num, start + (of_nat i + 1), m), (num, start, m)) \<in>
      measure (\<lambda>(num, start, m). unat (range_end m) - unat start)" by simp
qed

definition Allocate :: "u64 \<Rightarrow> frame_manager \<Rightarrow> ((kernel_error + u64) \<times> frame_manager) option" where
  "Allocate num m = Allocate_loop num (range_begin m) m"


section \<open>The heap\<close>

record heap_state =
  program_break :: u64
  program_break_end :: u64
  errno :: int

definition ENOMEM :: int where "ENOMEM = 12"

definition sbrk :: "32 word \<Rightarrow> 'a heap_state_scheme \<Rightarrow> u64 \<times> 'a heap_state_scheme" where
  "sbrk incr h =
     (if program_break h = 0 \<or> program_break_end h \<le> program_break h + scast incr
      then (- 1, h\<lparr>errno := ENOMEM\<rparr>)
      else (program_break h, h\<lparr>program_break := program_break h + scast incr\<rparr>))"

definition kHeapFrames :: u64 where "kHeapFrames = 64 * 512"

definition InitializeHeap ::
  "frame_manager \<Rightarrow> 'a heap_state_scheme \<Rightarrow> (kernel_error \<times> frame_manager \<times> 'a heap_state_scheme) option" where
  "InitializeHeap m h =
     (case Allocate kHeapFrames m of
        None \<Rightarrow> None
      | Some (Inl e, m1) \<Rightarrow> Some (e, m1, h)
      | Some (Inr f, m1) \<Rightarrow>
          let b = f * kBytesPerFrame
          in Some (kSuccess, m1, h\<lparr>program_break := b, program_break_end := b + kHeapFrames * kBytesPerFrame\<rparr>))"

section \<open>Set-up from the memory map\<close>

definition kEfiBootServicesCode :: u32 where "kEfiBootServicesCode = 3"
definition kEfiBootServicesData :: u32 where "kEfiBootServicesData = 4"
definition kEfiConventionalMemory :: u32 where "kEfiConventionalMemory = 7"
definition kUEFIPageSize :: u64 where "kUEFIPageSize = 4096"

record MemoryDescriptor =
  md_type :: u32
  physical_start :: u64
  virtual_start :: u64
  number_of_pages :: u64
  attribute :: u64

definition IsAvailable :: "u32 \<Rightarrow> bool" where
  "IsAvailable type \<longleftrightarrow>
     type = kEfiBootServicesCode \<or> type = kEfiBootServicesData \<or> type = kEfiConventionalMemory"

text \<open>The loop over the descriptors of the map; the result has the final \<^verbatim>\<open>available_end\<close>.\<close>

fun init_loop :: "MemoryDescriptor list \<Rightarrow> u64 \<Rightarrow> frame_manager \<Rightarrow> (u64 \<times> frame_manager) option" where
  "init_loop [] available_end m = Some (available_end, m)"
| "init_loop (desc # ds) available_end m =
     (case (if available_end < physical_start desc
            then MarkAllocated (available_end div kBytesPerFrame)
                   ((physical_start desc - available_end) div kBytesPerFrame) m
            else Some m) of
        None \<Rightarrow> None
      | Some m1 \<Rightarrow>
          let physical_end = physical_start desc + number_of_pages desc * kUEFIPageSize
          in if IsAvailable (md_type desc) then init_loop ds physical_end m1
             else case MarkAllocated (physical_start desc div kBytesPerFrame)
                         (number_of_pages desc * kUEFIPageSize div kBytesPerFrame) m1 of
                 None \<Rightarrow> None
               | Some m2 \<Rightarrow> init_loop ds available_end m2)"

text \<open>An error of \<^verbatim>\<open>InitializeHeap\<close> is logged and ends the kernel.\<close>

definition InitializeMemoryManager ::
  "MemoryDescriptor list \<Rightarrow> 'a heap_state_scheme \<Rightarrow> (kernel_error \<times> frame_manager \<times> 'a heap_state_scheme) option" where
  "InitializeMemoryManager ds h =
     (case init_loop ds 0 new_frame_manager of
        None \<Rightarrow> None
      | Some (available_end, m) \<Rightarrow> InitializeHeap (SetMemoryRange 1 (available_end div kBytesPerFrame) m) h)"

section \<open>The bitmap as a set of frames\<close>

definition used_frames :: "frame_manager \<Rightarrow> nat set" where
  "used_frames m = {f. f < kFrameCount \<and> bit (alloc_map m (f div 64)) (f mod 64)}"

lemma GetBit_used: "unat f < kFrameCount \<Longrightarrow> GetBit f m = Some (unat f \<in> used_frames m)"
  by (simp add: GetBit_def Let_def used_frames_def kBitsPerMapLine_def kFrameCount_def
      bit_iff_and_push_bit_not_eq_0 less_mult_imp_div_less)

lemma bit_mark_word: "b < 64 \<Longrightarrow> n < 64 \<Longrightarrow>
  bit (if v then w OR push_bit b 1 else w AND NOT (push_bit b 1)) n = (if n = b then v else bit (w :: u64) n)"
  by (auto simp: bit_simps)

lemma SetBit_used:
  assumes "unat f < kFrameCount"
  shows "\<exists>m'. SetBit f v m = Some m' \<and> range_begin m' = range_begin m \<and> range_end m' = range_end m \<and>
    used_frames m' = (if v then insert (unat f) (used_frames m) else used_frames m - {unat f})"
proof -
  let ?l = "unat f div 64" and ?b = "unat f mod 64"
  let ?m = "m\<lparr>alloc_map := (alloc_map m)(?l :=
    (if v then alloc_map m ?l OR push_bit ?b 1 else alloc_map m ?l AND NOT (push_bit ?b 1)))\<rparr>"
  have "SetBit f v m = Some ?m"
    using assms by (simp add: SetBit_def Let_def kBitsPerMapLine_def kFrameCount_def less_mult_imp_div_less)
  moreover have "g \<in> used_frames ?m \<longleftrightarrow> (if g = unat f then v else g \<in> used_frames m)" for g
  proof (cases "g div 64 = ?l")
    case True
    have "g mod 64 = ?b \<longleftrightarrow> g = unat f" using True by (metis div_mult_mod_eq)
    with True show ?thesis
      using bit_mark_word [of ?b "g mod 64" v "alloc_map m ?l"] assms by (auto simp: used_frames_def)
  next
    case False
    then have "g \<noteq> unat f" by auto
    with False show ?thesis by (simp add: used_frames_def)
  qed
  then have "used_frames ?m = (if v then insert (unat f) (used_frames m) else used_frames m - {unat f})"
    by (auto split: if_splits)
  ultimately show ?thesis by (intro exI [of _ ?m]) simp
qed

lemma SetBits_used:
  "unat f + n \<le> kFrameCount \<Longrightarrow>
   \<exists>m'. SetBits v f n m = Some m' \<and> range_begin m' = range_begin m \<and> range_end m' = range_end m \<and>
     used_frames m' = (if v then used_frames m \<union> frames_of (unat f, n) else used_frames m - frames_of (unat f, n))"
proof (induction n arbitrary: f m)
  case 0
  then show ?case by (simp add: frames_of_def)
next
  case (Suc n)
  then have "unat f < kFrameCount" by simp
  from SetBit_used [OF this] obtain m1 where m1: "SetBit f v m = Some m1"
    "range_begin m1 = range_begin m" "range_end m1 = range_end m"
    "used_frames m1 = (if v then insert (unat f) (used_frames m) else used_frames m - {unat f})" by blast
  have "f < of_nat kFrameCount"
    using \<open>unat f < kFrameCount\<close> by (simp add: kFrameCount_def word_less_nat_alt)
  then have f: "unat (f + 1) = Suc (unat f)" by (rule unat_u64_Suc)
  then have "unat (f + 1) + n \<le> kFrameCount" using Suc.prems by simp
  from Suc.IH [OF this] obtain m2 where m2: "SetBits v (f + 1) n m1 = Some m2"
    "range_begin m2 = range_begin m1" "range_end m2 = range_end m1"
    "used_frames m2 = (if v then used_frames m1 \<union> frames_of (unat (f + 1), n)
       else used_frames m1 - frames_of (unat (f + 1), n))" by blast
  have "frames_of (unat f, Suc n) = insert (unat f) (frames_of (unat (f + 1), n))"
    unfolding f by (auto simp: frames_of_def)
  then show ?case using m1 m2 by auto
qed


section \<open>First fit\<close>

definition frames_ok :: "frame_manager \<Rightarrow> bool" where
  "frames_ok m \<longleftrightarrow> unat (range_end m) \<le> kFrameCount"

definition free_run :: "frame_manager \<Rightarrow> nat \<Rightarrow> nat \<Rightarrow> bool" where
  "free_run m n s \<longleftrightarrow> unat (range_begin m) \<le> s \<and> s + n \<le> unat (range_end m) \<and>
     frames_of (s, n) \<inter> used_frames m = {}"

lemma alloc_scan_result:
  assumes "frames_ok m"
  shows "unat (start + of_nat i) = unat start + i \<Longrightarrow>
    \<exists>r. alloc_scan m start i n = Some r \<and>
      (case r of All_free \<Rightarrow> (n = 0 \<or> unat start + i + n \<le> unat (range_end m)) \<and>
           frames_of (unat start + i, n) \<inter> used_frames m = {}
       | Used_at j \<Rightarrow> unat start + j \<in> used_frames m
       | Out_of_range \<Rightarrow> unat (range_end m) < unat start + i + n)"
proof (induction n arbitrary: i)
  case 0
  then show ?case by (simp add: frames_of_def)
next
  case (Suc n)
  let ?f = "start + of_nat i"
  show ?case
  proof (cases "range_end m \<le> ?f")
    case True
    then show ?thesis using Suc.prems by (simp add: word_le_nat_alt)
  next
    case False
    then have f: "?f < range_end m" by simp
    then have lt: "unat start + i < unat (range_end m)" using Suc.prems by (simp add: word_less_nat_alt)
    then have g: "GetBit ?f m = Some (unat start + i \<in> used_frames m)"
      using GetBit_used [of ?f m] assms Suc.prems by (simp add: frames_ok_def)
    show ?thesis
    proof (cases "unat start + i \<in> used_frames m")
      case True
      then show ?thesis using False g by simp
    next
      case unused: False
      have "start + of_nat (Suc i) = ?f + 1" by simp
      then have "unat (start + of_nat (Suc i)) = unat start + Suc i"
        using unat_u64_Suc [OF f] Suc.prems by (simp only:)
      from Suc.IH [OF this] obtain r where r: "alloc_scan m start (Suc i) n = Some r"
        "case r of All_free \<Rightarrow> (n = 0 \<or> unat start + Suc i + n \<le> unat (range_end m)) \<and>
             frames_of (unat start + Suc i, n) \<inter> used_frames m = {}
         | Used_at j \<Rightarrow> unat start + j \<in> used_frames m
         | Out_of_range \<Rightarrow> unat (range_end m) < unat start + Suc i + n" by blast
      have "frames_of (unat start + i, Suc n) = insert (unat start + i) (frames_of (unat start + Suc i, n))"
        by (auto simp: frames_of_def)
      with r(2) lt unused show ?thesis
        using False g r(1) by (cases r) (auto simp: Suc_le_eq)
    qed
  qed
qed

lemma free_run_past_used:
  assumes "\<forall>t < unat s. \<not> free_run m n t" and "unat s + j \<in> used_frames m" and "j < n"
  shows "\<forall>t < Suc (unat s + j). \<not> free_run m n t"
proof (intro allI impI)
  fix t assume t: "t < Suc (unat s + j)"
  show "\<not> free_run m n t"
  proof (cases "t < unat s")
    case False
    then have "unat s + j \<in> frames_of (t, n)" using t assms(3) by (auto simp: frames_of_def)
    with assms(2) show ?thesis by (auto simp: free_run_def)
  qed (use assms(1) in blast)
qed

text \<open>What \<^verbatim>\<open>Allocate\<close> returns.\<close>

definition allocated :: "nat \<Rightarrow> frame_manager \<Rightarrow> (kernel_error + u64) \<times> frame_manager \<Rightarrow> bool" where
  "allocated n m r \<longleftrightarrow>
     (case r of
        (Inr f, m') \<Rightarrow> free_run m n (unat f) \<and> (\<forall>t < unat f. \<not> free_run m n t) \<and>
          used_frames m' = used_frames m \<union> frames_of (unat f, n) \<and>
          range_begin m' = range_begin m \<and> range_end m' = range_end m
      | (Inl e, m') \<Rightarrow> e = kNoEnoughMemory \<and> m' = m \<and> (\<forall>t. \<not> free_run m n t))"

lemma Allocate_loop_allocated:
  "frames_ok m \<Longrightarrow> 0 < unat num \<Longrightarrow> unat (range_begin m) \<le> unat start \<Longrightarrow>
   \<forall>t < unat start. \<not> free_run m (unat num) t \<Longrightarrow>
   \<exists>r. Allocate_loop num start m = Some r \<and> allocated (unat num) m r"
proof (induction num start m rule: Allocate_loop.induct)
  case (1 num start m)
  obtain r where r: "alloc_scan m start 0 (unat num) = Some r"
    "case r of All_free \<Rightarrow> (unat num = 0 \<or> unat start + 0 + unat num \<le> unat (range_end m)) \<and>
           frames_of (unat start + 0, unat num) \<inter> used_frames m = {}
       | Used_at j \<Rightarrow> unat start + j \<in> used_frames m
       | Out_of_range \<Rightarrow> unat (range_end m) < unat start + 0 + unat num"
    using alloc_scan_result [OF "1.prems"(1), of start 0 "unat num"] by auto
  show ?case
  proof (cases r)
    case All_free
    with r(2) "1.prems"(2) have fit: "unat start + unat num \<le> unat (range_end m)"
      "frames_of (unat start, unat num) \<inter> used_frames m = {}" by auto
    then have "unat start + unat num \<le> kFrameCount" using "1.prems"(1) by (simp add: frames_ok_def)
    from SetBits_used [OF this, of True m] obtain m' where m': "SetBits True start (unat num) m = Some m'"
      "range_begin m' = range_begin m" "range_end m' = range_end m"
      "used_frames m' = used_frames m \<union> frames_of (unat start, unat num)" by auto
    have "Allocate_loop num start m = Some (Inr start, m')"
      using r(1) m'(1) All_free by (subst Allocate_loop.simps) (simp add: MarkAllocated_def)
    moreover have "allocated (unat num) m (Inr start, m')"
      using fit "1.prems"(3,4) m'(2-4) by (simp add: allocated_def free_run_def)
    ultimately show ?thesis by blast
  next
    case (Used_at j)
    have j: "j < unat num" "start + of_nat j < range_end m" "unat (start + of_nat j) = unat start + j"
      using alloc_scan_used [of m start 0 "unat num" j] r(1) Used_at by auto
    then have s: "unat (start + (of_nat j + 1)) = Suc (unat start + j)"
      using unat_u64_Suc [OF j(2)] by (simp add: add.assoc)
    have "unat start + j \<in> used_frames m" using r(2) Used_at by simp
    from free_run_past_used [OF "1.prems"(4) this j(1)]
    have "\<forall>t < unat (start + (of_nat j + 1)). \<not> free_run m (unat num) t" unfolding s .
    with "1.IH" [OF r(1) Used_at "1.prems"(1,2)] "1.prems"(3) obtain r' where
      "Allocate_loop num (start + (of_nat j + 1)) m = Some r'" "allocated (unat num) m r'"
      unfolding s by auto
    then show ?thesis using r(1) Used_at by (subst Allocate_loop.simps) simp
  next
    case Out_of_range
    with r(2) have "unat (range_end m) < unat start + unat num" by simp
    then have "\<not> free_run m (unat num) t" for t
      using "1.prems"(4) by (cases "t < unat start") (auto simp: free_run_def)
    then have "allocated (unat num) m (Inl kNoEnoughMemory, m)" by (simp add: allocated_def)
    moreover have "Allocate_loop num start m = Some (Inl kNoEnoughMemory, m)"
      using r(1) Out_of_range by (subst Allocate_loop.simps) simp
    ultimately show ?thesis by blast
  qed
qed

lemma Allocate_allocated:
  assumes "frames_ok m" and "0 < unat num"
  shows "\<exists>r. Allocate num m = Some r \<and> allocated (unat num) m r"
  unfolding Allocate_def using assms by (rule Allocate_loop_allocated) (auto simp: free_run_def)


section \<open>The interface of the allocator\<close>

lemma unat_of_nat_u64 [simp]: "n < 18446744073709551616 \<Longrightarrow> unat (of_nat n :: u64) = n"
  by (simp add: unsigned_of_nat take_bit_nat_eq_self)

definition pool_alloc :: "nat \<Rightarrow> frame_manager \<Rightarrow> (nat option \<times> frame_manager) option" where
  "pool_alloc n m =
     (case Allocate (of_nat n) m of
        None \<Rightarrow> None
      | Some (Inl e, m') \<Rightarrow> Some (None, m')
      | Some (Inr f, m') \<Rightarrow> Some (Some (unat f), m'))"

definition pool_free :: "nat \<Rightarrow> nat \<Rightarrow> frame_manager \<Rightarrow> frame_manager option" where
  "pool_free f n m = map_option snd (Free (of_nat f) (of_nat n) m)"

definition pool_size :: "nat \<Rightarrow> bool" where
  "pool_size n \<longleftrightarrow> 0 < n \<and> n < 2 ^ 64"

lemma Free_frees:
  assumes "frames_ok m" and "f + n \<le> kFrameCount"
  shows "\<exists>m'. Free (of_nat f) (of_nat n) m = Some (kSuccess, m') \<and> frames_ok m' \<and>
    used_frames m' = used_frames m - frames_of (f, n)"
proof -
  have "unat (of_nat f :: u64) = f" "unat (of_nat n :: u64) = n"
    using assms(2) by (simp_all add: kFrameCount_def)
  with SetBits_used [of "of_nat f" n False m] assms show ?thesis
    by (auto simp: Free_def frames_ok_def)
qed

lemma pool_alloc_allocated:
  assumes "frames_ok m" and "pool_size n"
  obtains r m' where "pool_alloc n m = Some (r, m')"
    and "case r of None \<Rightarrow> m' = m
      | Some f \<Rightarrow> frames_ok m' \<and> frames_of (f, n) \<inter> used_frames m = {} \<and>
          used_frames m' = used_frames m \<union> frames_of (f, n) \<and> f + n \<le> kFrameCount"
proof -
  have n: "unat (of_nat n :: u64) = n" using assms(2) by (simp add: pool_size_def)
  with assms(2) have "0 < unat (of_nat n :: u64)" by (simp add: pool_size_def)
  from Allocate_allocated [OF assms(1) this] obtain x m' where r: "Allocate (of_nat n) m = Some (x, m')"
    "allocated n m (x, m')" unfolding n by auto
  show thesis
  proof (cases x)
    case (Inl e)
    with r show thesis by (intro that [of None m']) (simp_all add: pool_alloc_def allocated_def)
  next
    case (Inr f)
    with r assms(1) show thesis
      by (intro that [of "Some (unat f)" m'])
        (auto simp: pool_alloc_def allocated_def free_run_def frames_ok_def)
  qed
qed

interpretation pool: frame_allocator used_frames pool_alloc pool_free frames_ok pool_size kFrameCount
proof unfold_locales
  fix s n
  assume ok: "frames_ok s" "pool_size n"
  from pool_alloc_allocated [OF this] obtain r m' where r: "pool_alloc n s = Some (r, m')"
    "case r of None \<Rightarrow> m' = s
      | Some f \<Rightarrow> frames_ok m' \<and> frames_of (f, n) \<inter> used_frames s = {} \<and>
          used_frames m' = used_frames s \<union> frames_of (f, n) \<and> f + n \<le> kFrameCount" by blast
  then show "\<exists>r s'. pool_alloc n s = Some (r, s')" by blast
  show "frames_ok s' \<and> frames_of (f, n) \<inter> used_frames s = {} \<and>
      used_frames s' = used_frames s \<union> frames_of (f, n) \<and> f + n \<le> kFrameCount"
    if "pool_alloc n s = Some (Some f, s')" for f s' using r that by auto
  show "s' = s" if "pool_alloc n s = Some (None, s')" for s' using r that by simp
next
  fix s f n
  assume "frames_ok s" "f + n \<le> kFrameCount"
  from Free_frees [OF this] show "\<exists>s'. pool_free f n s = Some s' \<and> frames_ok s' \<and>
      used_frames s' = used_frames s - frames_of (f, n)" by (auto simp: pool_free_def)
qed

section \<open>The frames of the memory map\<close>

definition desc_frames :: "MemoryDescriptor \<Rightarrow> nat set" where
  "desc_frames d = frames_of (unat (physical_start d) div 4096, unat (number_of_pages d))"

definition available_frames :: "MemoryDescriptor list \<Rightarrow> nat set" where
  "available_frames ds = (\<Union>d \<in> {d \<in> set ds. IsAvailable (md_type d)}. desc_frames d)"

text \<open>
  A map in order: the descriptors from address \<open>lim\<close> on do not overlap, are aligned to pages and
  end below the 128 GiB that the bitmap covers.
\<close>

fun map_sorted :: "nat \<Rightarrow> MemoryDescriptor list \<Rightarrow> bool" where
  "map_sorted lim [] \<longleftrightarrow> True"
| "map_sorted lim (d # ds) \<longleftrightarrow>
     lim \<le> unat (physical_start d) \<and> 4096 dvd unat (physical_start d) \<and>
     unat (physical_start d) + unat (number_of_pages d) * 4096 \<le> 2 ^ 37 \<and>
     map_sorted (unat (physical_start d) + unat (number_of_pages d) * 4096) ds"

lemma available_frames_Cons:
  "available_frames (d # ds) = (if IsAvailable (md_type d) then desc_frames d else {}) \<union> available_frames ds"
  by (auto simp: available_frames_def)

definition map_state :: "nat \<Rightarrow> nat set \<Rightarrow> u64 \<Rightarrow> frame_manager \<Rightarrow> bool" where
  "map_state lim A avail m \<longleftrightarrow>
     4096 dvd unat avail \<and> unat avail \<le> lim \<and> lim \<le> 2 ^ 37 \<and> 4096 dvd lim \<and>
     used_frames m \<subseteq> {..<lim div 4096} \<and> used_frames m \<inter> A = {} \<and>
     {..<unat avail div 4096} \<subseteq> used_frames m \<union> A \<and> A \<subseteq> {..<unat avail div 4096}"

lemma unat_div_page: "unat (w div kBytesPerFrame) = unat w div 4096"
  by (simp add: kBytesPerFrame_def unat_div_distrib)

lemma MarkAllocated_used:
  assumes "unat start + unat num \<le> kFrameCount"
  shows "\<exists>m'. MarkAllocated start num m = Some m' \<and>
    used_frames m' = used_frames m \<union> frames_of (unat start, unat num)"
  using SetBits_used [OF assms, of True m] by (auto simp: MarkAllocated_def)

lemma map_state_gap:
  assumes st: "map_state lim A avail m" and lim: "lim \<le> unat ps" and ps: "4096 dvd unat ps" "unat ps \<le> 2 ^ 37"
  shows "\<exists>m'. (if avail < ps then MarkAllocated (avail div kBytesPerFrame) ((ps - avail) div kBytesPerFrame) m
           else Some m) = Some m' \<and>
    used_frames m' \<subseteq> {..<unat ps div 4096} \<and> used_frames m' \<inter> A = {} \<and>
    {..<unat ps div 4096} \<subseteq> used_frames m' \<union> A \<and> A \<subseteq> {..<unat ps div 4096}"
proof -
  note m = st [unfolded map_state_def]
  have le: "unat avail \<le> unat ps" using m lim by simp
  show ?thesis
  proof (cases "avail < ps")
    case True
    let ?a = "unat avail div 4096" and ?p = "unat ps div 4096"
    have "unat (ps - avail) = unat ps - unat avail" using le by (simp add: unat_sub word_le_nat_alt)
    moreover have "unat ps - unat avail = (?p - ?a) * 4096"
      using m ps(1) by (simp add: diff_mult_distrib)
    ultimately have n: "unat ((ps - avail) div kBytesPerFrame) = ?p - ?a" by (simp add: unat_div_page)
    have ap: "?a \<le> ?p" using le by (rule div_le_mono)
    then have "unat (avail div kBytesPerFrame) + unat ((ps - avail) div kBytesPerFrame) \<le> kFrameCount"
      using ps(2) unfolding n by (simp add: unat_div_page kFrameCount_def)
    from MarkAllocated_used [OF this, of m] obtain m' where
      m': "MarkAllocated (avail div kBytesPerFrame) ((ps - avail) div kBytesPerFrame) m = Some m'"
      "used_frames m' = used_frames m \<union> frames_of (?a, ?p - ?a)" unfolding n by (auto simp: unat_div_page)
    have "frames_of (?a, ?p - ?a) = {?a..<?p}" using ap by (simp add: frames_of_def)
    moreover have "lim div 4096 \<le> ?p" using lim by (rule div_le_mono)
    ultimately have used: "used_frames m' = used_frames m \<union> {?a..<?p}" "lim div 4096 \<le> ?p" using m'(2) by simp_all
    have "used_frames m' \<subseteq> {..<?p}" using m used ap by (auto dest: subsetD)
    moreover have "used_frames m' \<inter> A = {}" using m unfolding used(1) by auto
    moreover have "{..<?p} \<subseteq> used_frames m' \<union> A"
    proof
      fix f assume "f \<in> {..<?p}"
      then consider "f \<in> {..<?a}" | "f \<in> {?a..<?p}" by fastforce
      then show "f \<in> used_frames m' \<union> A" unfolding used(1) using m by cases blast+
    qed
    moreover have "A \<subseteq> {..<?p}" using m ap by auto
    ultimately show ?thesis using True m'(1) by simp
  next
    case False
    then have "unat avail = unat ps" using le by (simp add: not_less word_le_nat_alt)
    then have eq: "avail = ps" by (rule word_unat_eq_iff [THEN iffD2])
    have "lim = unat ps" using m lim eq by simp
    then show ?thesis using m eq by auto
  qed
qed


lemma map_state_step:
  assumes st: "map_state lim A avail m" and d: "map_sorted lim (d # ds)"
  shows "\<exists>avail' m'. init_loop (d # ds) avail m = init_loop ds avail' m' \<and>
    map_state (unat (physical_start d) + unat (number_of_pages d) * 4096)
      (A \<union> (if IsAvailable (md_type d) then desc_frames d else {})) avail' m'"
proof -
  let ?ps = "physical_start d" and ?np = "number_of_pages d"
  let ?p = "unat ?ps div 4096"
  from d have ps: "lim \<le> unat ?ps" "4096 dvd unat ?ps" "unat ?ps + unat ?np * 4096 \<le> 2 ^ 37" by auto
  then have "unat ?ps \<le> 2 ^ 37" by simp
  from map_state_gap [OF st ps(1,2) this] obtain m1 where
    m1: "(if avail < ?ps then MarkAllocated (avail div kBytesPerFrame) ((?ps - avail) div kBytesPerFrame) m
           else Some m) = Some m1"
    "used_frames m1 \<subseteq> {..<?p}" "used_frames m1 \<inter> A = {}" "{..<?p} \<subseteq> used_frames m1 \<union> A" "A \<subseteq> {..<?p}" by blast
  have "unat ?np * 4096 < 18446744073709551616" using ps(3) by simp
  then have np: "unat (?np * kUEFIPageSize) = unat ?np * 4096"
    by (simp add: kUEFIPageSize_def unat_word_ariths)
  then have "end": "unat (?ps + ?np * kUEFIPageSize) = unat ?ps + unat ?np * 4096"
    using ps(3) by (simp add: unat_word_ariths)
  have frames: "(unat ?ps + unat ?np * 4096) div 4096 = ?p + unat ?np" by simp
  have dvd: "4096 dvd unat ?ps + unat ?np * 4096" using ps(2) by simp
  have df: "desc_frames d = {?p..<?p + unat ?np}" by (simp add: desc_frames_def frames_of_def)
  show ?thesis
  proof (cases "IsAvailable (md_type d)")
    case True
    have "map_state (unat ?ps + unat ?np * 4096) (A \<union> desc_frames d) (?ps + ?np * kUEFIPageSize) m1"
      unfolding map_state_def "end" frames df using ps(3) dvd m1(2-5) by (auto simp: subset_iff not_le)
    moreover have "init_loop (d # ds) avail m = init_loop ds (?ps + ?np * kUEFIPageSize) m1"
      using m1(1) True by simp
    ultimately show ?thesis using True by (intro exI [of _ "?ps + ?np * kUEFIPageSize"] exI [of _ m1]) simp
  next
    case False
    have "unat (?np * kUEFIPageSize div kBytesPerFrame) = unat ?np" by (simp add: unat_div_page np)
    then have n: "unat (?ps div kBytesPerFrame) = ?p" "unat (?np * kUEFIPageSize div kBytesPerFrame) = unat ?np"
      by (simp_all add: unat_div_page)
    have "?p + unat ?np \<le> kFrameCount" using ps(3) frames by (simp add: kFrameCount_def)
    with n have "unat (?ps div kBytesPerFrame) + unat (?np * kUEFIPageSize div kBytesPerFrame) \<le> kFrameCount" by simp
    from MarkAllocated_used [OF this, of m1] obtain m2 where
      m2: "MarkAllocated (?ps div kBytesPerFrame) (?np * kUEFIPageSize div kBytesPerFrame) m1 = Some m2"
      "used_frames m2 = used_frames m1 \<union> {?p..<?p + unat ?np}" unfolding n by (auto simp: frames_of_def)
    have a: "4096 dvd unat avail" "unat avail \<le> lim" "A \<subseteq> {..<unat avail div 4096}"
      "{..<unat avail div 4096} \<subseteq> used_frames m \<union> A" using st by (auto simp: map_state_def)
    have "unat avail div 4096 \<le> ?p" using a(2) ps(1) by (intro div_le_mono) simp
    with m1(4) have "{..<unat avail div 4096} \<subseteq> used_frames m2 \<union> A" unfolding m2(2) by (auto simp: subset_iff)
    moreover have "used_frames m2 \<inter> A = {}" using m1(3,5) unfolding m2(2) by (auto simp: subset_iff)
    moreover have "used_frames m2 \<subseteq> {..<?p + unat ?np}" using m1(2) unfolding m2(2) by (auto simp: subset_iff)
    ultimately have "map_state (unat ?ps + unat ?np * 4096) A avail m2"
      unfolding map_state_def frames using a ps dvd by simp
    moreover have "init_loop (d # ds) avail m = init_loop ds avail m2"
      using m1(1) m2(1) False by (simp add: Let_def)
    ultimately show ?thesis using False by (intro exI [of _ avail] exI [of _ m2]) simp
  qed
qed

lemma init_loop_map:
  "map_state lim A avail m \<Longrightarrow> map_sorted lim ds \<Longrightarrow>
   \<exists>avail' m' lim'. init_loop ds avail m = Some (avail', m') \<and> map_state lim' (A \<union> available_frames ds) avail' m'"
proof (induction ds arbitrary: lim A avail m)
  case Nil
  then show ?case by (auto simp: available_frames_def)
next
  case (Cons d ds)
  from map_state_step [OF Cons.prems] obtain avail' m' where
    step: "init_loop (d # ds) avail m = init_loop ds avail' m'"
    "map_state (unat (physical_start d) + unat (number_of_pages d) * 4096)
      (A \<union> (if IsAvailable (md_type d) then desc_frames d else {})) avail' m'" by blast
  have "map_sorted (unat (physical_start d) + unat (number_of_pages d) * 4096) ds" using Cons.prems(2) by simp
  from Cons.IH [OF step(2) this] show ?case unfolding step(1) available_frames_Cons Un_assoc .
qed


lemma new_frame_manager_used: "used_frames new_frame_manager = {}"
  by (simp add: used_frames_def new_frame_manager_def)

lemma memory_map_loop:
  assumes "map_sorted 0 ds"
  obtains avail m where "init_loop ds 0 new_frame_manager = Some (avail, m)" and "unat avail \<le> 2 ^ 37"
    and "\<forall>f < unat avail div 4096. f \<in> used_frames m \<longleftrightarrow> f \<notin> available_frames ds"
    and "available_frames ds \<subseteq> {..<unat avail div 4096}"
proof -
  have "map_state 0 {} 0 new_frame_manager" by (simp add: map_state_def new_frame_manager_used)
  from init_loop_map [OF this assms] obtain avail m lim where
    m: "init_loop ds 0 new_frame_manager = Some (avail, m)" "map_state lim (available_frames ds) avail m" by auto
  show thesis
  proof (rule that [OF m(1)])
    show "unat avail \<le> 2 ^ 37" "available_frames ds \<subseteq> {..<unat avail div 4096}"
      using m(2) by (auto simp: map_state_def)
    show "\<forall>f < unat avail div 4096. f \<in> used_frames m \<longleftrightarrow> f \<notin> available_frames ds"
      using m(2) unfolding map_state_def by (auto simp: subset_iff)
  qed
qed

text \<open>The heap is a run of free frames of the range.\<close>

lemma InitializeHeap_run:
  assumes "frames_ok m"
  shows "\<exists>e m' h'. InitializeHeap m h = Some (e, m', h') \<and> range_begin m' = range_begin m \<and>
    range_end m' = range_end m \<and>
    (if e = kSuccess
     then (let f = unat (program_break h') div 4096
           in 4096 dvd unat (program_break h') \<and> unat (program_break_end h') = unat (program_break h') + 134217728 \<and>
              free_run m 32768 f \<and> used_frames m' = used_frames m \<union> frames_of (f, 32768))
     else e = kNoEnoughMemory \<and> m' = m \<and> h' = h \<and> (\<forall>f. \<not> free_run m 32768 f))"
proof -
  have n: "unat kHeapFrames = 32768" by (simp add: kHeapFrames_def)
  then obtain r m' where r: "Allocate kHeapFrames m = Some (r, m')" "allocated 32768 m (r, m')"
    using Allocate_allocated [OF assms, of kHeapFrames] by auto
  show ?thesis
  proof (cases r)
    case (Inl e)
    with r show ?thesis by (simp add: InitializeHeap_def allocated_def)
  next
    case (Inr f)
    have fr: "free_run m 32768 (unat f)" "used_frames m' = used_frames m \<union> frames_of (unat f, 32768)"
      "range_begin m' = range_begin m" "range_end m' = range_end m"
      using r Inr by (simp_all add: allocated_def)
    have "unat f + 32768 \<le> kFrameCount" using fr(1) assms by (simp add: free_run_def frames_ok_def)
    then have f: "unat f + 32768 \<le> 33554432" by (simp add: kFrameCount_def)
    then have b: "unat (f * kBytesPerFrame) = unat f * 4096" by (simp add: kBytesPerFrame_def unat_word_ariths)
    moreover have "unat (f * kBytesPerFrame + kHeapFrames * kBytesPerFrame) = unat f * 4096 + 134217728"
    proof -
      have "unat (kHeapFrames * kBytesPerFrame) = 134217728" by (simp add: kHeapFrames_def kBytesPerFrame_def)
      then show ?thesis using f b unfolding unat_word_ariths(1) [of "f * kBytesPerFrame"] by simp
    qed
    ultimately show ?thesis using r(1) Inr fr by (simp add: InitializeHeap_def Let_def)
  qed
qed

section \<open>The heap under \<^verbatim>\<open>sbrk\<close>\<close>

text \<open>The blocks that a run of calls returns, as address and size, and the state after it.\<close>

fun sbrk_run :: "32 word list \<Rightarrow> 'a heap_state_scheme \<Rightarrow> frame_run list \<times> 'a heap_state_scheme" where
  "sbrk_run [] h = ([], h)"
| "sbrk_run (i # is) h =
     (let (p, h1) = sbrk i h; (bs, h2) = sbrk_run is h1
      in (if p = - 1 then bs else (unat p, nat (sint i)) # bs, h2))"

lemma unat_scast_u64: "0 \<le> sint i \<Longrightarrow> unat (scast (i :: 32 word) :: u64) = nat (sint i)"
proof -
  assume i: "0 \<le> sint i"
  have "sint i < 2147483648" using sint_lt [of i] by simp
  with i have "take_bit 64 (sint i) = sint i" by (simp add: take_bit_int_eq_self)
  then have "uint (scast i :: u64) = sint i" unfolding scast_eq by (simp only: unsigned_of_int) (simp add: i)
  then show ?thesis by (simp only: unat_eq_nat_uint)
qed

lemma sbrk_block:
  assumes "0 < unat (program_break h)" and "program_break h \<le> program_break_end h"
    and "unat (program_break_end h) \<le> 2 ^ 37" and "0 \<le> sint i"
  shows "sbrk i h = (if unat (program_break h) + nat (sint i) < unat (program_break_end h)
     then (program_break h, h\<lparr>program_break := program_break h + scast i\<rparr>) else (- 1, h\<lparr>errno := ENOMEM\<rparr>))"
    and "unat (program_break h + scast i) = unat (program_break h) + nat (sint i)"
    and "program_break h \<noteq> - 1"
proof -
  have s: "nat (sint i) < 2147483648" using sint_lt [of i] by simp
  have le: "unat (program_break h) \<le> 2 ^ 37" using assms(2,3) by (simp add: word_le_nat_alt)
  with s show u: "unat (program_break h + scast i) = unat (program_break h) + nat (sint i)"
    by (simp add: unat_word_ariths unat_scast_u64 [OF assms(4)])
  have "program_break h \<noteq> 0" using assms(1) by auto
  with u show "sbrk i h = (if unat (program_break h) + nat (sint i) < unat (program_break_end h)
     then (program_break h, h\<lparr>program_break := program_break h + scast i\<rparr>) else (- 1, h\<lparr>errno := ENOMEM\<rparr>))"
    by (auto simp: sbrk_def word_le_nat_alt)
  show "program_break h \<noteq> - 1" using le by (auto simp: unsigned_minus_1_eq_mask mask_eq_exp_minus_1)
qed

lemma sbrk_run_blocks:
  "0 < unat (program_break h) \<Longrightarrow> program_break h \<le> program_break_end h \<Longrightarrow>
   unat (program_break_end h) \<le> 2 ^ 37 \<Longrightarrow> \<forall>i \<in> set is. 0 \<le> sint i \<Longrightarrow> sbrk_run is h = (bs, h') \<Longrightarrow>
   runs_apart bs \<and> runs_frames bs = {unat (program_break h)..<unat (program_break h')} \<and>
   unat (program_break h) \<le> unat (program_break h') \<and>
   program_break h' \<le> program_break_end h \<and> program_break_end h' = program_break_end h"
proof (induction "is" arbitrary: h bs)
  case Nil
  then show ?case by simp
next
  case (Cons i "is")
  have i: "0 \<le> sint i" using Cons.prems(4) by simp
  note b = sbrk_block [OF Cons.prems(1-3) i]
  show ?case
  proof (cases "unat (program_break h) + nat (sint i) < unat (program_break_end h)")
    case True
    let ?h = "h\<lparr>program_break := program_break h + scast i\<rparr>"
    obtain cs where cs: "sbrk_run is ?h = (cs, h')" "bs = (unat (program_break h), nat (sint i)) # cs"
      using Cons.prems(5) True b(1,3) by (auto simp: Let_def split: prod.splits)
    have "runs_apart cs \<and> runs_frames cs = {unat (program_break ?h)..<unat (program_break h')} \<and>
        unat (program_break ?h) \<le> unat (program_break h') \<and>
        program_break h' \<le> program_break_end ?h \<and> program_break_end h' = program_break_end ?h"
      using Cons.prems(1-4) True b(2) cs(1) by (intro Cons.IH) (simp_all add: word_le_nat_alt)
    then show ?thesis unfolding cs(2) runs_apart_Cons_iff using b(2) by (auto simp: frames_of_def)
  next
    case False
    then have "sbrk_run is (h\<lparr>errno := ENOMEM\<rparr>) = (bs, h')"
      using Cons.prems(5) b(1) by (auto simp: Let_def split: prod.splits)
    with Cons.IH [of "h\<lparr>errno := ENOMEM\<rparr>" bs] Cons.prems(1-4) show ?thesis by simp
  qed
qed


section \<open>Claims\<close>

text \<open>
  C19: allocation is first fit and complete. A request for \<open>n > 0\<close> frames gets the lowest run of
  \<open>n\<close> free frames of the range and marks exactly these; it fails, changing nothing, only when the
  range has no such run. It always ends.
\<close>

theorem frames_first_fit:
  assumes "frames_ok m" and "0 < n"
  shows "\<exists>r m'. Allocate n m = Some (r, m') \<and>
    (\<forall>f. r = Inr f \<longrightarrow> free_run m (unat n) (unat f) \<and> (\<forall>t < unat f. \<not> free_run m (unat n) t) \<and>
       used_frames m' = used_frames m \<union> frames_of (unat f, unat n) \<and>
       range_begin m' = range_begin m \<and> range_end m' = range_end m) \<and>
    (\<forall>e. r = Inl e \<longrightarrow> e = kNoEnoughMemory \<and> m' = m \<and> (\<forall>t. \<not> free_run m (unat n) t))"
proof -
  have "0 < unat n" using assms(2) by (simp add: word_less_nat_alt)
  from Allocate_allocated [OF assms(1) this] show ?thesis unfolding allocated_def by auto
qed

theorem frames_first_fit_witness:
  "\<exists>m'. Allocate 2 new_frame_manager = Some (Inr 0, m') \<and> used_frames m' = {0, 1}"
proof -
  have ok: "frames_ok new_frame_manager" "free_run new_frame_manager (unat (2 :: u64)) 0" "(0 :: u64) < 2"
    unfolding frames_ok_def free_run_def new_frame_manager_used
    by (simp_all add: new_frame_manager_def kFrameCount_def)
  from frames_first_fit [OF ok(1,3)] obtain r m' where r: "Allocate 2 new_frame_manager = Some (r, m')"
    "\<forall>f. r = Inr f \<longrightarrow> (\<forall>t < unat f. \<not> free_run new_frame_manager (unat (2 :: u64)) t) \<and>
       used_frames m' = used_frames new_frame_manager \<union> frames_of (unat f, unat (2 :: u64))"
    "\<forall>e. r = Inl e \<longrightarrow> (\<forall>t. \<not> free_run new_frame_manager (unat (2 :: u64)) t)" by blast
  from r(3) ok(2) obtain f where f: "r = Inr f" by (cases r) blast+
  with r(2) ok(2) have "\<not> 0 < unat f" by blast
  then have f0: "f = 0" by (simp add: unat_eq_0)
  have "used_frames m' = used_frames new_frame_manager \<union> frames_of (unat f, unat (2 :: u64))" using r(2) f by blast
  moreover have "frames_of (unat f, unat (2 :: u64)) = {0, 1}" unfolding f0 by (auto simp: frames_of_def)
  ultimately have "used_frames m' = {0, 1}" by (simp only: new_frame_manager_used Un_empty_left)
  with r(1) f f0 show ?thesis by blast
qed

text \<open>
  C20: no frame is handed out twice. After any sequence of allocations and of returns of runs
  still in use, these runs are disjoint, none contains a frame that was marked before, and the
  bitmap marks exactly them and what was marked before.
\<close>

theorem frames_never_shared:
  assumes "frames_ok m" and "\<forall>n. Take_run n \<in> set ops \<longrightarrow> 0 < n \<and> n < 2 ^ 64"
  shows "\<exists>rs m'. pool_run pool_alloc pool_free ops ([], m) = Some (rs, m') \<and> runs_apart rs \<and>
    runs_frames rs \<inter> used_frames m = {} \<and> used_frames m' = used_frames m \<union> runs_frames rs"
proof -
  have "pool.pool_ok (used_frames m) [] m" using assms(1) by (simp add: pool.pool_ok_def)
  moreover have "\<forall>n. Take_run n \<in> set ops \<longrightarrow> pool_size n" using assms(2) by (simp add: pool_size_def)
  ultimately show ?thesis using pool.pool_run_ok [of "used_frames m" "[]" m ops] by (auto simp: pool.pool_ok_def)
qed

theorem frames_never_shared_witness:
  "\<exists>rs m'. pool_run pool_alloc pool_free [Take_run 3, Take_run 2, Give_back 1, Take_run 4] ([], new_frame_manager)
     = Some (rs, m') \<and> runs_apart rs"
proof -
  have "frames_ok new_frame_manager" by (simp add: frames_ok_def new_frame_manager_def kFrameCount_def)
  from frames_never_shared [OF this, of "[Take_run 3, Take_run 2, Give_back 1, Take_run 4]"]
  show ?thesis by auto
qed

text \<open>
  The memory map. For a map in order, the set-up succeeds unless no 128 MiB of memory are in
  one piece; afterwards a frame of the range is free exactly when it lies in a descriptor of
  available memory and not in the heap, and the heap is made of available frames only.
\<close>

lemma memory_map_frames:
  assumes "map_sorted 0 ds"
  shows "\<exists>e m h'. InitializeMemoryManager ds h = Some (e, m, h') \<and> frames_ok m \<and> range_begin m = 1 \<and>
    available_frames ds \<subseteq> {..<unat (range_end m)} \<and>
    (e = kSuccess \<longrightarrow>
       (let f = unat (program_break h') div 4096; heap = frames_of (f, 32768)
        in 4096 dvd unat (program_break h') \<and> unat (program_break_end h') = unat (program_break h') + 134217728 \<and>
           0 < f \<and> heap \<subseteq> available_frames ds \<and>
           (\<forall>g \<in> {1..<unat (range_end m)}. g \<notin> used_frames m \<longleftrightarrow> g \<in> available_frames ds - heap))) \<and>
    (e \<noteq> kSuccess \<longrightarrow>
       e = kNoEnoughMemory \<and> h' = h \<and> (\<forall>f > 0. \<not> frames_of (f, 32768) \<subseteq> available_frames ds))"
proof -
  obtain avail m where m: "init_loop ds 0 new_frame_manager = Some (avail, m)" "unat avail \<le> 2 ^ 37"
    "\<forall>f < unat avail div 4096. f \<in> used_frames m \<longleftrightarrow> f \<notin> available_frames ds"
    "available_frames ds \<subseteq> {..<unat avail div 4096}" by (rule memory_map_loop [OF assms])
  let ?m = "SetMemoryRange 1 (avail div kBytesPerFrame) m"
  have range: "range_begin ?m = 1" "unat (range_end ?m) = unat avail div 4096" "used_frames ?m = used_frames m"
    by (simp_all add: SetMemoryRange_def unat_div_page used_frames_def)
  have run: "free_run ?m 32768 f \<longleftrightarrow> 0 < f \<and> frames_of (f, 32768) \<subseteq> available_frames ds" for f
  proof -
    have "free_run ?m 32768 f \<longleftrightarrow> 0 < f \<and> f + 32768 \<le> unat avail div 4096 \<and>
        frames_of (f, 32768) \<inter> used_frames m = {}"
      unfolding free_run_def range by (auto simp: Suc_le_eq)
    moreover have "frames_of (f, 32768) \<subseteq> available_frames ds \<Longrightarrow> f + 32768 \<le> unat avail div 4096"
      using m(4) unfolding frames_of_def by (auto dest!: subsetD [of _ _ "f + 32767"])
    ultimately show ?thesis using m(3,4) unfolding frames_of_def by (auto simp: subset_iff disjoint_iff)
  qed
  have "frames_ok ?m" using m(2) unfolding frames_ok_def range kFrameCount_def by simp
  from InitializeHeap_run [OF this, of h] obtain e m' h' where h: "InitializeHeap ?m h = Some (e, m', h')"
    "range_begin m' = 1" "range_end m' = range_end ?m"
    "if e = kSuccess
     then (let f = unat (program_break h') div 4096
           in 4096 dvd unat (program_break h') \<and> unat (program_break_end h') = unat (program_break h') + 134217728 \<and>
              free_run ?m 32768 f \<and> used_frames m' = used_frames m \<union> frames_of (f, 32768))
     else e = kNoEnoughMemory \<and> m' = ?m \<and> h' = h \<and> (\<forall>f. \<not> free_run ?m 32768 f)"
    unfolding range(1,3) by blast
  have i: "InitializeMemoryManager ds h = Some (e, m', h')" by (simp add: InitializeMemoryManager_def m(1) h(1))
  have ok: "frames_ok m'" using \<open>frames_ok ?m\<close> unfolding frames_ok_def h(3) .
  show ?thesis
  proof (intro exI conjI impI, rule i, rule ok, rule h(2))
    show "available_frames ds \<subseteq> {..<unat (range_end m')}" unfolding h(3) range by (rule m(4))
    assume e: "e = kSuccess"
    show "let f = unat (program_break h') div 4096; heap = frames_of (f, 32768)
      in 4096 dvd unat (program_break h') \<and> unat (program_break_end h') = unat (program_break h') + 134217728 \<and>
         0 < f \<and> heap \<subseteq> available_frames ds \<and>
         (\<forall>g \<in> {1..<unat (range_end m')}. g \<notin> used_frames m' \<longleftrightarrow> g \<in> available_frames ds - heap)"
      using h(4) m(3) e unfolding run h(3) range by (auto simp: Let_def)
  next
    assume e: "e \<noteq> kSuccess"
    have f: "e = kNoEnoughMemory \<and> m' = ?m \<and> h' = h \<and>
        (\<forall>f. \<not> (0 < f \<and> frames_of (f, 32768) \<subseteq> available_frames ds))"
      using h(4) e unfolding run by (simp only: if_False simp_thms)
    then show "e = kNoEnoughMemory" "h' = h" "\<forall>f > 0. \<not> frames_of (f, 32768) \<subseteq> available_frames ds" by blast+
  qed
qed

lemma memory_map_frames_witness:
  "\<exists>e m h'. InitializeMemoryManager
       [\<lparr>md_type = 7, physical_start = 0, virtual_start = 0, number_of_pages = 160, attribute = 0\<rparr>,
        \<lparr>md_type = 7, physical_start = 0x100000, virtual_start = 0, number_of_pages = 65536, attribute = 0\<rparr>]
       \<lparr>program_break = 0, program_break_end = 0, errno = 0\<rparr> = Some (e, m, h') \<and> e = kSuccess"
proof -
  let ?ds = "[\<lparr>md_type = 7, physical_start = 0, virtual_start = 0, number_of_pages = 160, attribute = 0\<rparr>,
    \<lparr>md_type = 7, physical_start = 0x100000, virtual_start = 0, number_of_pages = 65536, attribute = 0\<rparr>]"
  have "map_sorted 0 ?ds" by simp
  from memory_map_frames [OF this, of "\<lparr>program_break = 0, program_break_end = 0, errno = 0\<rparr>"]
  obtain e m h' where r: "InitializeMemoryManager ?ds \<lparr>program_break = 0, program_break_end = 0, errno = 0\<rparr> = Some (e, m, h')"
    "e = kSuccess \<or> (\<forall>f > 0. \<not> frames_of (f, 32768) \<subseteq> available_frames ?ds)" by blast
  have "frames_of (256, 32768) \<subseteq> available_frames ?ds"
    unfolding available_frames_Cons
    by (simp add: IsAvailable_def kEfiConventionalMemory_def desc_frames_def frames_of_def) (simp add: subset_iff)
  then have "e = kSuccess" using r(2) by (metis zero_less_numeral)
  with r(1) show ?thesis by blast
qed

text \<open>
  The heap. A run of calls of \<^verbatim>\<open>sbrk\<close> with increments that are not negative returns blocks
  that do not overlap and lie end to end from the first break on, all below the end of the heap;
  a call that fails changes nothing but \<^verbatim>\<open>errno\<close>.
\<close>

lemma sbrk_blocks:
  assumes "0 < unat (program_break h)" and "program_break h \<le> program_break_end h"
    and "unat (program_break_end h) \<le> 2 ^ 37" and "\<forall>i \<in> set is. 0 \<le> sint i"
    and "sbrk_run is h = (bs, h')"
  shows "runs_apart bs \<and> runs_frames bs = {unat (program_break h)..<unat (program_break h')} \<and>
     program_break h' \<le> program_break_end h \<and> program_break_end h' = program_break_end h"
  using sbrk_run_blocks [OF assms] by blast

lemma sbrk_blocks_witness:
  "runs_apart (fst (sbrk_run [16, 0x10000, 0x40] \<lparr>program_break = 0x100000, program_break_end = 0x110000, errno = 0\<rparr>))"
proof -
  let ?h = "\<lparr>program_break = 0x100000, program_break_end = 0x110000, errno = 0\<rparr>"
  obtain bs h' where r: "sbrk_run [16, 0x10000, 0x40] ?h = (bs, h')" by (cases "sbrk_run [16, 0x10000, 0x40] ?h")
  have "\<forall>i \<in> set [16, 0x10000, 0x40 :: 32 word]. 0 \<le> sint i" by simp
  from sbrk_blocks [OF _ _ _ this r] show ?thesis unfolding r by simp
qed

end
