(* ===== verification/TaskManager.thy ===== *)
theory TaskManager
  imports Port MemoryManager "HOL-Library.Monad_Syntax"
begin

text \<open>
  \<^verbatim>\<open>kernel/task.cpp\<close>: tasks, the run queues of the four levels, sleeping and waking, messages, and
  the exit codes of finished tasks. A \<^verbatim>\<open>Task *\<close> is an address of \<open>task_heap\<close>. An operation is
  \<open>None\<close> when it uses the front of an empty queue, a level outside the array, or a task that is gone.
\<close>

section \<open>Data\<close>

datatype LayerOperation = Move | MoveRelative | Draw | DrawArea

datatype message_type =
    kInterruptXHCI | kTimerTimeout | kKeyPush | kLayer | kLayerFinish | kMouseMove | kMouseButton
  | kWindowActive | kPipe | kWindowClose | kInterruptE1000 | kNetInput

text \<open>The union: the member a message uses.\<close>

datatype message_arg =
    NoArg
  | ArgTimer (arg_timeout: u64) (arg_value: int)
  | ArgKeyboard u8 u8 u8 int
  | ArgLayer LayerOperation u32 int int int int
  | ArgMouseMove int int int int u8
  | ArgMouseButton int int int int
  | ArgWindowActive int
  | ArgPipe "u8 list" u8
  | ArgWindowClose u32

record message =
  msg_type :: message_type
  src_task :: u64
  msg_arg :: message_arg

record TaskContext =
  ctx_cr3 :: u64
  ctx_rip :: u64
  ctx_rflags :: u64
  ctx_cs :: u64
  ctx_ss :: u64
  ctx_fs :: u64
  ctx_gs :: u64
  ctx_rax :: u64
  ctx_rbx :: u64
  ctx_rcx :: u64
  ctx_rdx :: u64
  ctx_rdi :: u64
  ctx_rsi :: u64
  ctx_rsp :: u64
  ctx_rbp :: u64
  ctx_r8_r15 :: "u64 list"
  ctx_fxsave :: "u8 list"

definition zero_context :: TaskContext where
  "zero_context = \<lparr>ctx_cr3 = 0, ctx_rip = 0, ctx_rflags = 0, ctx_cs = 0, ctx_ss = 0, ctx_fs = 0, ctx_gs = 0,
     ctx_rax = 0, ctx_rbx = 0, ctx_rcx = 0, ctx_rdx = 0, ctx_rdi = 0, ctx_rsi = 0, ctx_rsp = 0, ctx_rbp = 0,
     ctx_r8_r15 = replicate 8 0, ctx_fxsave = replicate 512 0\<rparr>"

record Task =
  task_id :: u64
  task_context :: TaskContext
  task_msgs :: "message list"
  task_level :: nat
  task_running :: bool

definition kDefaultLevel :: nat where "kDefaultLevel = 1"
definition kMaxLevel :: nat where "kMaxLevel = 3"

text \<open>\<open>cpu\<close> holds the registers of the processor, which run the current task.\<close>

record task_state =
  task_heap :: "nat \<Rightarrow> Task"
  task_brk :: nat
  tasks :: "nat list"
  latest_id :: u64
  running :: "nat \<Rightarrow> nat list"
  current_level :: nat
  level_changed :: bool
  finish_tasks :: "u64 \<Rightarrow> int option"
  finish_waiter :: "u64 \<Rightarrow> nat option"
  cpu :: TaskContext

definition upd_task :: "nat \<Rightarrow> (Task \<Rightarrow> Task) \<Rightarrow> 'a task_state_scheme \<Rightarrow> 'a task_state_scheme" where
  "upd_task p f tm = tm\<lparr>task_heap := (task_heap tm)(p := f (task_heap tm p))\<rparr>"

definition set_queue :: "nat \<Rightarrow> nat list \<Rightarrow> 'a task_state_scheme \<Rightarrow> 'a task_state_scheme" where
  "set_queue lv q tm = tm\<lparr>running := (running tm)(lv := q)\<rparr>"

section \<open>Contexts\<close>

text \<open>
  The stack of a new task is memory of the allocator; \<open>stack_end\<close> is the address behind it. The
  four bytes from 24 on in the area for the floating point registers are \<^verbatim>\<open>MXCSR\<close>.
\<close>

definition kKernelCS :: u64 where "kKernelCS = 8"
definition kKernelSS :: u64 where "kKernelSS = 16"

definition InitContext :: "u64 \<Rightarrow> u64 \<Rightarrow> u64 \<Rightarrow> u64 \<Rightarrow> Task \<Rightarrow> Task" where
  "InitContext stack_end page_table f data t =
     t\<lparr>task_context := zero_context
         \<lparr>ctx_cr3 := page_table, ctx_rflags := 0x202, ctx_cs := kKernelCS, ctx_ss := kKernelSS,
          ctx_rsp := (stack_end AND NOT 0xf) - 8, ctx_rip := f, ctx_rdi := task_id t, ctx_rsi := data,
          ctx_fxsave := replicate 24 0 @ store32 0x1f80 @ replicate 484 0\<rparr>\<rparr>"

text \<open>\<^verbatim>\<open>RestoreContext\<close> and \<^verbatim>\<open>SwitchContext\<close> of \<^verbatim>\<open>asmfunc.asm\<close>, on whole register files.\<close>

definition RestoreContext :: "nat \<Rightarrow> 'a task_state_scheme \<Rightarrow> 'a task_state_scheme" where
  "RestoreContext p tm = tm\<lparr>cpu := task_context (task_heap tm p)\<rparr>"

definition SwitchContext :: "nat \<Rightarrow> nat \<Rightarrow> 'a task_state_scheme \<Rightarrow> 'a task_state_scheme" where
  "SwitchContext next_task current tm =
     RestoreContext next_task (upd_task current (\<lambda>t. t\<lparr>task_context := cpu tm\<rparr>) tm)"

section \<open>The run queues\<close>

definition CurrentTask :: "'a task_state_scheme \<Rightarrow> nat option" where
  "CurrentTask tm = (case running tm (current_level tm) of [] \<Rightarrow> None | p # q \<Rightarrow> Some p)"

text \<open>The search for the highest level with a task, from level \<open>lv\<close> down.\<close>

fun highest_level :: "nat \<Rightarrow> (nat \<Rightarrow> nat list) \<Rightarrow> nat \<Rightarrow> nat" where
  "highest_level 0 queues current = (if queues 0 \<noteq> [] then 0 else current)"
| "highest_level (Suc lv) queues current = (if queues (Suc lv) \<noteq> [] then Suc lv else highest_level lv queues current)"

definition RotateCurrentRunQueue ::
  "bool \<Rightarrow> 'a task_state_scheme \<Rightarrow> (nat \<times> 'a task_state_scheme) option" where
  "RotateCurrentRunQueue current_sleep tm =
     (case running tm (current_level tm) of
        [] \<Rightarrow> None
      | current_task # rest \<Rightarrow>
          let queue = (if current_sleep then rest else rest @ [current_task]);
              tm1 = set_queue (current_level tm) queue tm
          in Some (current_task,
               if level_changed tm \<or> queue = []
               then tm1\<lparr>level_changed := False,
                        current_level := highest_level kMaxLevel (running tm1) (current_level tm1)\<rparr>
               else tm1))"

text \<open>\<^verbatim>\<open>level\<close> is negative for the level the task has.\<close>

definition ChangeLevelRunning :: "nat \<Rightarrow> int \<Rightarrow> 'a task_state_scheme \<Rightarrow> 'a task_state_scheme option" where
  "ChangeLevelRunning p level tm =
     (let old = task_level (task_heap tm p); lv = nat level
      in if level < 0 \<or> lv = old then Some tm
         else if kMaxLevel < lv then None
         else case running tm (current_level tm) of
             [] \<Rightarrow> None
           | front # rest \<Rightarrow>
               if p \<noteq> front then
                 let tm1 = set_queue old (removeAll p (running tm old)) tm;
                     tm2 = upd_task p (\<lambda>t. t\<lparr>task_level := lv\<rparr>) (set_queue lv (running tm1 lv @ [p]) tm1)
                 in Some (if current_level tm < lv then tm2\<lparr>level_changed := True\<rparr> else tm2)
               else
                 let tm1 = set_queue (current_level tm) rest tm;
                     tm2 = upd_task p (\<lambda>t. t\<lparr>task_level := lv\<rparr>) (set_queue lv (p # running tm1 lv) tm1)
                 in Some (if current_level tm \<le> lv then tm2\<lparr>current_level := lv\<rparr>
                          else tm2\<lparr>current_level := lv, level_changed := True\<rparr>))"

definition Wakeup :: "nat \<Rightarrow> int \<Rightarrow> 'a task_state_scheme \<Rightarrow> 'a task_state_scheme option" where
  "Wakeup p level tm =
     (if p \<notin> set (tasks tm) then None
      else if task_running (task_heap tm p) then ChangeLevelRunning p level tm
      else
        let lv = (if level < 0 then task_level (task_heap tm p) else nat level)
        in if kMaxLevel < lv then None
           else
             let tm1 = upd_task p (\<lambda>t. t\<lparr>task_level := lv, task_running := True\<rparr>) tm;
                 tm2 = set_queue lv (running tm1 lv @ [p]) tm1
             in Some (if current_level tm < lv then tm2\<lparr>level_changed := True\<rparr> else tm2))"

definition Sleep :: "nat \<Rightarrow> 'a task_state_scheme \<Rightarrow> 'a task_state_scheme option" where
  "Sleep p tm =
     (if p \<notin> set (tasks tm) then None
      else if \<not> task_running (task_heap tm p) then Some tm
      else
        let tm1 = upd_task p (\<lambda>t. t\<lparr>task_running := False\<rparr>) tm
        in do {
             front \<leftarrow> CurrentTask tm1;
             if p = front then do {
               (current_task, tm2) \<leftarrow> RotateCurrentRunQueue True tm1;
               next_task \<leftarrow> CurrentTask tm2;
               Some (SwitchContext next_task current_task tm2)
             } else let lv = task_level (task_heap tm1 p)
                    in Some (set_queue lv (removeAll p (running tm1 lv)) tm1)
           })"

definition SwitchTask :: "TaskContext \<Rightarrow> 'a task_state_scheme \<Rightarrow> 'a task_state_scheme option" where
  "SwitchTask current_ctx tm =
     do {
       p \<leftarrow> CurrentTask tm;
       (current_task, tm2) \<leftarrow> RotateCurrentRunQueue False (upd_task p (\<lambda>t. t\<lparr>task_context := current_ctx\<rparr>) tm);
       next_task \<leftarrow> CurrentTask tm2;
       Some (if next_task \<noteq> current_task then RestoreContext next_task tm2 else tm2)
     }"

section \<open>Tasks\<close>

definition new_task :: "u64 \<Rightarrow> Task" where
  "new_task i = \<lparr>task_id = i, task_context = zero_context, task_msgs = [], task_level = kDefaultLevel,
     task_running = False\<rparr>"

definition NewTask :: "'a task_state_scheme \<Rightarrow> nat \<times> 'a task_state_scheme" where
  "NewTask tm =
     (let i = latest_id tm + 1; p = task_brk tm
      in (p, tm\<lparr>latest_id := i, task_brk := Suc p, task_heap := (task_heap tm)(p := new_task i),
                tasks := tasks tm @ [p]\<rparr>))"

text \<open>The search by identifier.\<close>

definition find_task :: "u64 \<Rightarrow> 'a task_state_scheme \<Rightarrow> nat option" where
  "find_task i tm = find (\<lambda>p. task_id (task_heap tm p) = i) (tasks tm)"

definition SleepId :: "u64 \<Rightarrow> 'a task_state_scheme \<Rightarrow> (kernel_error \<times> 'a task_state_scheme) option" where
  "SleepId i tm =
     (case find_task i tm of
        None \<Rightarrow> Some (kNoSuchTask, tm)
      | Some p \<Rightarrow> map_option (Pair kSuccess) (Sleep p tm))"

definition WakeupId :: "u64 \<Rightarrow> int \<Rightarrow> 'a task_state_scheme \<Rightarrow> (kernel_error \<times> 'a task_state_scheme) option" where
  "WakeupId i level tm =
     (case find_task i tm of
        None \<Rightarrow> Some (kNoSuchTask, tm)
      | Some p \<Rightarrow> map_option (Pair kSuccess) (Wakeup p level tm))"

text \<open>\<^verbatim>\<open>Task::SendMessage\<close>, by pointer.\<close>

definition Task_SendMessage :: "nat \<Rightarrow> message \<Rightarrow> 'a task_state_scheme \<Rightarrow> 'a task_state_scheme option" where
  "Task_SendMessage p msg tm =
     (if p \<notin> set (tasks tm) then None
      else Wakeup p (- 1) (upd_task p (\<lambda>t. t\<lparr>task_msgs := task_msgs t @ [msg]\<rparr>) tm))"

definition SendMessage :: "u64 \<Rightarrow> message \<Rightarrow> 'a task_state_scheme \<Rightarrow> (kernel_error \<times> 'a task_state_scheme) option" where
  "SendMessage i msg tm =
     (case find_task i tm of
        None \<Rightarrow> Some (kNoSuchTask, tm)
      | Some p \<Rightarrow> map_option (Pair kSuccess) (Task_SendMessage p msg tm))"

definition ReceiveMessage :: "nat \<Rightarrow> 'a task_state_scheme \<Rightarrow> message option \<times> 'a task_state_scheme" where
  "ReceiveMessage p tm =
     (case task_msgs (task_heap tm p) of
        [] \<Rightarrow> (None, tm)
      | m # ms \<Rightarrow> (Some m, upd_task p (\<lambda>t. t\<lparr>task_msgs := ms\<rparr>) tm))"

section \<open>Finishing\<close>

definition Finish :: "int \<Rightarrow> 'a task_state_scheme \<Rightarrow> 'a task_state_scheme option" where
  "Finish exit_code tm =
     do {
       (current_task, tm1) \<leftarrow> RotateCurrentRunQueue True tm;
       let i = task_id (task_heap tm1 current_task);
       tm2 \<leftarrow> (if current_task \<in> set (tasks tm1)
                then Some (tm1\<lparr>tasks := remove1 current_task (tasks tm1),
                               finish_tasks := (finish_tasks tm1)(i \<mapsto> exit_code)\<rparr>)
                else None);
       tm3 \<leftarrow> (case finish_waiter tm2 i of
                 None \<Rightarrow> Some tm2
               | Some waiter \<Rightarrow> Wakeup waiter (- 1) (tm2\<lparr>finish_waiter := (finish_waiter tm2)(i := None)\<rparr>));
       next_task \<leftarrow> CurrentTask tm3;
       Some (RestoreContext next_task tm3)
     }"

text \<open>One round of the loop of \<^verbatim>\<open>WaitFinish\<close>: after its sleep the task does the next one.\<close>

definition WaitFinish :: "u64 \<Rightarrow> 'a task_state_scheme \<Rightarrow> ((int, u64) blocking \<times> 'a task_state_scheme) option" where
  "WaitFinish i tm =
     do {
       current_task \<leftarrow> CurrentTask tm;
       case finish_tasks tm i of
         Some exit_code \<Rightarrow> Some (Returns exit_code, tm\<lparr>finish_tasks := (finish_tasks tm)(i := None)\<rparr>)
       | None \<Rightarrow> map_option (Pair (Blocks i))
           (Sleep current_task (tm\<lparr>finish_waiter := (finish_waiter tm)(i \<mapsto> current_task)\<rparr>))
     }"

section \<open>The start\<close>

text \<open>The constructor: the task that runs, at the highest level, and the idle task at the lowest.\<close>

definition no_tasks :: "TaskContext \<Rightarrow> task_state" where
  "no_tasks regs = \<lparr>task_heap = (\<lambda>p. new_task 0), task_brk = 0, tasks = [], latest_id = 0, running = (\<lambda>lv. []),
     current_level = kMaxLevel, level_changed = False, finish_tasks = (\<lambda>i. None), finish_waiter = (\<lambda>i. None),
     cpu = regs\<rparr>"

definition TaskManager_start :: "u64 \<Rightarrow> u64 \<Rightarrow> u64 \<Rightarrow> TaskContext \<Rightarrow> task_state" where
  "TaskManager_start stack_end page_table task_idle regs =
     (let (p, tm1) = NewTask (no_tasks regs);
          tm2 = upd_task p (\<lambda>t. t\<lparr>task_level := current_level tm1, task_running := True\<rparr>) tm1;
          tm3 = set_queue (current_level tm2) (running tm2 (current_level tm2) @ [p]) tm2;
          (q, tm4) = NewTask tm3;
          tm5 = upd_task q (\<lambda>t. (InitContext stack_end page_table task_idle 0 t)
                  \<lparr>task_level := 0, task_running := True\<rparr>) tm4
      in set_queue 0 (running tm5 0 @ [q]) tm5)"


lemmas task_ops = upd_task_def set_queue_def RestoreContext_def SwitchContext_def

section \<open>The invariant\<close>

text \<open>
  \<open>queues_hold R tm\<close>: the tasks with \<open>R\<close> are in the queue of their level, each once, and nothing
  else is in a queue.
\<close>

definition queues_hold :: "(nat \<Rightarrow> bool) \<Rightarrow> 'a task_state_scheme \<Rightarrow> bool" where
  "queues_hold R tm \<longleftrightarrow>
     (\<forall>lv \<le> kMaxLevel. distinct (running tm lv) \<and>
        set (running tm lv) = {p. R p \<and> task_level (task_heap tm p) = lv}) \<and>
     (\<forall>p. R p \<longrightarrow> task_level (task_heap tm p) \<le> kMaxLevel)"

definition runnable :: "'a task_state_scheme \<Rightarrow> nat \<Rightarrow> bool" where
  "runnable tm p \<longleftrightarrow> p \<in> set (tasks tm) \<and> task_running (task_heap tm p)"

text \<open>The level that runs is the highest with a task, unless a change is pending.\<close>

definition level_ok :: "'a task_state_scheme \<Rightarrow> bool" where
  "level_ok tm \<longleftrightarrow> current_level tm \<le> kMaxLevel \<and> running tm (current_level tm) \<noteq> [] \<and>
     (level_changed tm \<or> (\<forall>lv \<le> kMaxLevel. current_level tm < lv \<longrightarrow> running tm lv = []))"

text \<open>\<open>idle\<close> is the task that never sleeps.\<close>

definition table_tasks_ok :: "nat \<Rightarrow> 'a task_state_scheme \<Rightarrow> bool" where
  "table_tasks_ok idle tm \<longleftrightarrow>
     distinct (tasks tm) \<and> set (tasks tm) \<subseteq> {..<task_brk tm} \<and>
     inj_on (\<lambda>p. task_id (task_heap tm p)) (set (tasks tm)) \<and>
     (\<forall>p \<in> set (tasks tm). task_id (task_heap tm p) \<le> latest_id tm) \<and>
     (\<forall>p \<in> set (tasks tm). task_level (task_heap tm p) \<le> kMaxLevel) \<and>
     ran (finish_waiter tm) \<subseteq> set (tasks tm) \<and>
     runnable tm idle \<and> task_level (task_heap tm idle) = 0"

definition tasks_ok :: "nat \<Rightarrow> 'a task_state_scheme \<Rightarrow> bool" where
  "tasks_ok idle tm \<longleftrightarrow> table_tasks_ok idle tm \<and> queues_hold (runnable tm) tm \<and> level_ok tm"

subsection \<open>Rotation\<close>

lemma highest_level_props:
  assumes "\<exists>lv \<le> n. queues lv \<noteq> []"
  shows "highest_level n queues c \<le> n" "queues (highest_level n queues c) \<noteq> []"
    "\<forall>lv \<le> n. highest_level n queues c < lv \<longrightarrow> queues lv = []"
proof -
  have "highest_level n queues c \<le> n \<and> queues (highest_level n queues c) \<noteq> [] \<and>
      (\<forall>lv \<le> n. highest_level n queues c < lv \<longrightarrow> queues lv = [])"
    using assms by (induction n) (auto simp: le_Suc_eq)
  then show "highest_level n queues c \<le> n" "queues (highest_level n queues c) \<noteq> []"
    "\<forall>lv \<le> n. highest_level n queues c < lv \<longrightarrow> queues lv = []" by auto
qed

lemma rotate_parts:
  assumes "RotateCurrentRunQueue s tm = Some (p, tm')"
  shows "running tm (current_level tm) = p # tl (running tm (current_level tm))"
    "running tm' = (running tm)(current_level tm :=
       (if s then tl (running tm (current_level tm)) else tl (running tm (current_level tm)) @ [p]))"
    "task_heap tm' = task_heap tm" "tasks tm' = tasks tm" "task_brk tm' = task_brk tm"
    "latest_id tm' = latest_id tm" "finish_tasks tm' = finish_tasks tm" "finish_waiter tm' = finish_waiter tm"
    "cpu tm' = cpu tm" "task_state.more tm' = task_state.more tm"
  using assms by (auto simp: RotateCurrentRunQueue_def set_queue_def Let_def split: list.splits if_splits)

lemma rotate_levels:
  assumes rot: "RotateCurrentRunQueue s tm = Some (p, tm')" and lv: "level_ok tm"
    and some: "\<exists>lv \<le> kMaxLevel. running tm' lv \<noteq> []"
  shows "level_ok tm' \<and> \<not> level_changed tm'"
proof -
  let ?c = "current_level tm"
  let ?q = "if s then tl (running tm ?c) else tl (running tm ?c) @ [p]"
  note parts = rotate_parts [OF rot]
  show ?thesis
  proof (cases "level_changed tm \<or> ?q = []")
    case True
    then have "current_level tm' = highest_level kMaxLevel (running tm') ?c" "\<not> level_changed tm'"
      using rot by (auto simp: RotateCurrentRunQueue_def set_queue_def Let_def split: list.splits if_splits)
    then show ?thesis using highest_level_props [OF some, of ?c] by (simp add: level_ok_def)
  next
    case False
    then have "current_level tm' = ?c" "\<not> level_changed tm'"
      using rot by (auto simp: RotateCurrentRunQueue_def set_queue_def Let_def split: list.splits if_splits)
    with False lv show ?thesis unfolding level_ok_def parts(2) by auto
  qed
qed

lemma rotate_total:
  assumes "level_ok tm"
  obtains p tm' where "RotateCurrentRunQueue s tm = Some (p, tm')" and "CurrentTask tm = Some p"
  using assms by (cases "running tm (current_level tm)")
    (auto simp: level_ok_def RotateCurrentRunQueue_def CurrentTask_def Let_def)

text \<open>What the queues hold after a rotation.\<close>

lemma rotate_queues:
  assumes rot: "RotateCurrentRunQueue s tm = Some (p, tm')" and q: "queues_hold R tm" and lv: "level_ok tm"
  shows "queues_hold (if s then (\<lambda>q. R q \<and> q \<noteq> p) else R) tm'" "R p"
    "task_level (task_heap tm p) = current_level tm"
proof -
  let ?c = "current_level tm"
  note parts = rotate_parts [OF rot]
  have c: "?c \<le> kMaxLevel" using lv by (simp add: level_ok_def)
  then have set_c: "set (running tm ?c) = {p. R p \<and> task_level (task_heap tm p) = ?c}" "distinct (running tm ?c)"
    using q by (auto simp: queues_hold_def)
  obtain rest where rest: "running tm ?c = p # rest" using parts(1) by blast
  then have "p \<in> {p. R p \<and> task_level (task_heap tm p) = ?c}" using set_c by auto
  then show "R p" and pc: "task_level (task_heap tm p) = ?c" by auto
  have "distinct rest" "p \<notin> set rest" "set rest = {q. R q \<and> q \<noteq> p \<and> task_level (task_heap tm q) = ?c}"
    using set_c rest by auto
  then show "queues_hold (if s then (\<lambda>q. R q \<and> q \<noteq> p) else R) tm'"
    using q pc \<open>R p\<close> unfolding queues_hold_def parts(2,3) rest by auto
qed

lemma queues_hold_some:
  assumes "queues_hold R tm" and "R p"
  shows "\<exists>lv \<le> kMaxLevel. running tm lv \<noteq> []"
  using assms unfolding queues_hold_def by (metis (mono_tags, lifting) empty_iff mem_Collect_eq set_empty)


subsection \<open>Entering and leaving a queue\<close>

lemma queues_hold_enter:
  assumes "queues_hold R tm" and "\<not> R p" and "lv \<le> kMaxLevel"
    and "task_level (task_heap tm' p) = lv" and "\<forall>q. q \<noteq> p \<longrightarrow> task_level (task_heap tm' q) = task_level (task_heap tm q)"
    and "running tm' = (running tm)(lv := q)" and "q = p # running tm lv \<or> q = running tm lv @ [p]"
  shows "queues_hold (\<lambda>q. R q \<or> q = p) tm'"
proof -
  have old: "distinct (running tm l)" "set (running tm l) = {p. R p \<and> task_level (task_heap tm p) = l}"
    if "l \<le> kMaxLevel" for l
    using assms(1) that by (auto simp: queues_hold_def)
  have "p \<notin> set (running tm lv)" using old(2) [OF assms(3)] assms(2) by simp
  then have new: "distinct q" "set q = insert p (set (running tm lv))"
    using assms(7) old(1) [OF assms(3)] by auto
  have "{r. (R r \<or> r = p) \<and> task_level (task_heap tm' r) = l} =
      (if l = lv then insert p {r. R r \<and> task_level (task_heap tm r) = l}
       else {r. R r \<and> task_level (task_heap tm r) = l})" for l
    using assms(2,4,5) by (auto; metis)
  then show ?thesis
    using new old assms(1,3-5) unfolding queues_hold_def assms(6) by (auto; metis)
qed

lemma queues_hold_leave:
  assumes "queues_hold R tm" and "\<forall>q. task_level (task_heap tm' q) = task_level (task_heap tm q)"
    and "running tm' = (running tm)(lv := removeAll p (running tm lv))" and "lv = task_level (task_heap tm p)"
  shows "queues_hold (\<lambda>q. R q \<and> q \<noteq> p) tm'"
  using assms(1) unfolding queues_hold_def assms(2) [rule_format] assms(3) by (auto simp: assms(4) distinct_removeAll)

lemma queues_hold_cong:
  assumes "queues_hold R tm" and "\<forall>q. task_level (task_heap tm' q) = task_level (task_heap tm q)"
    and "running tm' = running tm" and "\<And>q. R' q = R q"
  shows "queues_hold R' tm'"
  using assms(1) unfolding queues_hold_def assms(2) [rule_format] assms(3,4) by simp

lemma tasks_okD:
  assumes "tasks_ok idle tm"
  shows "table_tasks_ok idle tm" "queues_hold (runnable tm) tm" "level_ok tm"
  using assms by (auto simp: tasks_ok_def)

lemma current_runnable:
  assumes "tasks_ok idle tm"
  obtains p rest where "running tm (current_level tm) = p # rest" and "CurrentTask tm = Some p" and "runnable tm p"
    and "task_level (task_heap tm p) = current_level tm" and "current_level tm \<le> kMaxLevel"
proof -
  note ok = tasks_okD [OF assms]
  obtain p rest where r: "running tm (current_level tm) = p # rest"
    using ok(3) by (cases "running tm (current_level tm)") (auto simp: level_ok_def)
  have c: "current_level tm \<le> kMaxLevel" using ok(3) by (simp add: level_ok_def)
  with ok(2) r have "p \<in> {p. runnable tm p \<and> task_level (task_heap tm p) = current_level tm}"
    unfolding queues_hold_def by (metis list.set_intros(1))
  then show thesis using that r c by (simp add: CurrentTask_def)
qed

subsection \<open>Every operation keeps it\<close>

definition same_tasks :: "'a task_state_scheme \<Rightarrow> 'a task_state_scheme \<Rightarrow> bool" where
  "same_tasks tm tm' \<longleftrightarrow> tasks tm' = tasks tm \<and> task_brk tm' = task_brk tm \<and> latest_id tm' = latest_id tm \<and>
     finish_waiter tm' = finish_waiter tm \<and> finish_tasks tm' = finish_tasks tm \<and>
     (\<forall>p. task_id (task_heap tm' p) = task_id (task_heap tm p))"

text \<open>The parts of the invariant of the table that a change of a level or of a sleep needs.\<close>

lemma table_tasks_kept:
  assumes "table_tasks_ok idle tm" and "same_tasks tm tm'"
    and "\<forall>p \<in> set (tasks tm). task_level (task_heap tm' p) \<le> kMaxLevel"
    and "task_running (task_heap tm' idle)" and "task_level (task_heap tm' idle) = 0"
  shows "table_tasks_ok idle tm'"
  using assms unfolding table_tasks_ok_def same_tasks_def runnable_def by (simp add: inj_on_def)

text \<open>A task that was not running enters the queue of its new level.\<close>

lemma wake_sleeping:
  assumes ok: "tasks_ok idle tm" and p: "p \<in> set (tasks tm)" "\<not> task_running (task_heap tm p)"
    and level: "level \<le> int kMaxLevel"
  shows "\<exists>tm'. Wakeup p level tm = Some tm' \<and> tasks_ok idle tm' \<and> same_tasks tm tm' \<and> runnable tm' p"
proof -
  note t = tasks_okD [OF ok]
  obtain lv where lv: "lv = (if level < 0 then task_level (task_heap tm p) else nat level)" by blast
  have le: "lv \<le> kMaxLevel" using level p(1) t(1) by (auto simp: lv table_tasks_ok_def)
  obtain tm' where w: "Wakeup p level tm = Some tm'"
    and f: "running tm' = (running tm)(lv := running tm lv @ [p])"
      "task_heap tm' = (task_heap tm)(p := (task_heap tm p)\<lparr>task_level := lv, task_running := True\<rparr>)"
      "current_level tm' = current_level tm" "level_changed tm' = (level_changed tm \<or> current_level tm < lv)"
      "tasks tm' = tasks tm" "same_tasks tm tm'"
    using p le by (simp add: Wakeup_def Let_def task_ops lv [symmetric] same_tasks_def)
  have idle: "runnable tm idle" "task_level (task_heap tm idle) = 0" using t(1) by (auto simp: table_tasks_ok_def)
  then have ip: "idle \<noteq> p" using p(2) by (auto simp: runnable_def)
  have r: "runnable tm' q \<longleftrightarrow> runnable tm q \<or> q = p" for q
    using p(1) by (auto simp: runnable_def f)
  have np: "\<not> runnable tm p" using p by (simp add: runnable_def)
  have "queues_hold (\<lambda>q. runnable tm q \<or> q = p) tm'"
    by (rule queues_hold_enter [OF t(2) np le _ _ f(1)]) (simp_all add: f(2))
  then have "queues_hold (runnable tm') tm'" by (rule queues_hold_cong) (simp_all add: r)
  moreover have "level_ok tm'" using t(3) le unfolding level_ok_def f by auto
  moreover have "table_tasks_ok idle tm'"
    using t(1) f(6) by (rule table_tasks_kept) (use t(1) le idle ip in \<open>auto simp: f(2) table_tasks_ok_def runnable_def\<close>)
  ultimately show ?thesis using w r [of p] f(6) unfolding tasks_ok_def by blast
qed

lemma change_level_ok:
  assumes ok: "tasks_ok idle tm" and p: "runnable tm p" and level: "level \<le> int kMaxLevel" "0 \<le> level \<longrightarrow> p \<noteq> idle"
  shows "\<exists>tm'. ChangeLevelRunning p level tm = Some tm' \<and> tasks_ok idle tm' \<and> same_tasks tm tm' \<and> runnable tm' p"
proof -
  note t = tasks_okD [OF ok]
  let ?c = "current_level tm" and ?old = "task_level (task_heap tm p)"
  show ?thesis
  proof (cases "level < 0 \<or> nat level = ?old")
    case True
    then have "ChangeLevelRunning p level tm = Some tm" by (simp add: ChangeLevelRunning_def Let_def)
    with ok p show ?thesis by (simp add: same_tasks_def)
  next
    case False
    obtain lv where lv: "lv = nat level" by blast
    have le: "lv \<le> kMaxLevel" and ne: "lv \<noteq> ?old" and nl: "\<not> level < 0" and pi: "p \<noteq> idle"
      using False level by (auto simp: lv)
    obtain front rest where cur: "running tm ?c = front # rest" by (rule current_runnable [OF ok])
    have old_queue: "p \<in> set (running tm ?old)" "distinct (running tm ?old)" "?old \<le> kMaxLevel"
      using t(1,2) p by (auto simp: queues_hold_def table_tasks_ok_def runnable_def)
    have front_level: "task_level (task_heap tm front) = ?c"
      using current_runnable [OF ok] cur by (metis list.inject)
    obtain tm' q where w: "ChangeLevelRunning p level tm = Some tm'"
      and f: "running tm' = ((running tm)(?old := removeAll p (running tm ?old)))(lv := q)"
        "q = p # running tm lv \<or> q = running tm lv @ [p]"
        "task_heap tm' = (task_heap tm)(p := (task_heap tm p)\<lparr>task_level := lv\<rparr>)"
        "same_tasks tm tm'"
        "if p = front then current_level tm' = lv \<and> (level_changed tm' \<or> level_changed tm' = level_changed tm \<and> ?c \<le> lv)
         else current_level tm' = ?c \<and> level_changed tm' = (level_changed tm \<or> ?c < lv)"
    proof (cases "p = front")
      case True
      have "removeAll p (running tm ?old) = rest"
        using old_queue(2) cur True front_level by (auto simp: removeAll_id)
      with True cur front_level ne nl le that show thesis
        by (auto simp: ChangeLevelRunning_def Let_def task_ops lv [symmetric] same_tasks_def)
    next
      case False
      with cur ne nl le that show thesis
        by (auto simp: ChangeLevelRunning_def Let_def task_ops lv [symmetric] same_tasks_def)
    qed
    have idle: "runnable tm idle" "task_level (task_heap tm idle) = 0" using t(1) by (auto simp: table_tasks_ok_def)
    have r: "runnable tm' q \<longleftrightarrow> runnable tm q" for q
      using f(3,4) by (simp add: runnable_def same_tasks_def)
    obtain tm1 where tm1: "tm1 = set_queue ?old (removeAll p (running tm ?old)) tm" by blast
    have left: "queues_hold (\<lambda>q. runnable tm q \<and> q \<noteq> p) tm1"
      by (rule queues_hold_leave [OF t(2), where lv = ?old]) (simp_all add: tm1 task_ops)
    have "queues_hold (\<lambda>q. (runnable tm q \<and> q \<noteq> p) \<or> q = p) tm'"
      by (rule queues_hold_enter [OF left _ le, where q = q]) (use f ne in \<open>simp_all add: tm1 task_ops\<close>)
    then have "queues_hold (runnable tm') tm'" by (rule queues_hold_cong) (use p r in auto)
    moreover have "level_ok tm'"
    proof (cases "p = front")
      case True
      then show ?thesis using f(1,2,5) t(3) le ne front_level unfolding level_ok_def by auto
    next
      case False
      then have "running tm' ?c \<noteq> []"
        using f(1,2) cur by (cases "?c = ?old") auto
      then show ?thesis using False f(1,5) t(3) le unfolding level_ok_def by auto
    qed
    moreover have "table_tasks_ok idle tm'"
      using t(1) f(4) by (rule table_tasks_kept) (use t(1) le idle pi in \<open>auto simp: f(3) table_tasks_ok_def runnable_def\<close>)
    ultimately show ?thesis using w r p f(4) unfolding tasks_ok_def by blast
  qed
qed

lemma Wakeup_ok:
  assumes "tasks_ok idle tm" and "p \<in> set (tasks tm)" and "level \<le> int kMaxLevel" and "0 \<le> level \<longrightarrow> p \<noteq> idle"
  shows "\<exists>tm'. Wakeup p level tm = Some tm' \<and> tasks_ok idle tm' \<and> same_tasks tm tm' \<and> runnable tm' p"
proof (cases "task_running (task_heap tm p)")
  case True
  then show ?thesis
    using change_level_ok [OF assms(1) _ assms(3,4)] assms(2) by (simp add: Wakeup_def runnable_def)
next
  case False
  with wake_sleeping assms show ?thesis by blast
qed


text \<open>A rotation, with the invariant of the queues for what stays.\<close>

lemma rotate_ok:
  assumes q: "queues_hold R tm" and lv: "level_ok tm" and some: "R i" "s \<longrightarrow> CurrentTask tm \<noteq> Some i"
  obtains p tm' where "RotateCurrentRunQueue s tm = Some (p, tm')" and "CurrentTask tm = Some p" and "R p"
    and "queues_hold (if s then (\<lambda>q. R q \<and> q \<noteq> p) else R) tm'" and "level_ok tm'" and "\<not> level_changed tm'"
    and "task_heap tm' = task_heap tm" and "same_tasks tm tm'" and "cpu tm' = cpu tm"
proof -
  obtain p tm' where rot: "RotateCurrentRunQueue s tm = Some (p, tm')" "CurrentTask tm = Some p"
    by (rule rotate_total [OF lv])
  note rq = rotate_queues [OF rot(1) q lv]
  have "\<exists>lv \<le> kMaxLevel. running tm' lv \<noteq> []"
    using queues_hold_some [OF rq(1), of i] some rot(2) by (auto split: if_splits)
  with rotate_levels [OF rot(1) lv] have "level_ok tm' \<and> \<not> level_changed tm'" by blast
  with that [OF rot rq(2,1)] rotate_parts [OF rot(1)] show thesis by (simp add: same_tasks_def)
qed

lemma level_ok_current:
  assumes "level_ok tm" obtains p where "CurrentTask tm = Some p"
  using rotate_total [OF assms] by metis

text \<open>Contexts and messages are not part of the invariant.\<close>

lemma tasks_ok_cong:
  assumes "tasks_ok idle tm" and "same_tasks tm tm'" and "running tm' = running tm"
    and "current_level tm' = current_level tm" and "level_changed tm' = level_changed tm"
    and "\<forall>p. task_level (task_heap tm' p) = task_level (task_heap tm p) \<and>
      task_running (task_heap tm' p) = task_running (task_heap tm p)"
  shows "tasks_ok idle tm'"
proof -
  note t = tasks_okD [OF assms(1)]
  have "queues_hold (runnable tm') tm'"
    using assms(2-) by (intro queues_hold_cong [OF t(2)]) (auto simp: runnable_def same_tasks_def)
  moreover have "table_tasks_ok idle tm'"
    using t(1) assms(2) by (rule table_tasks_kept) (use t(1) assms(6) in \<open>auto simp: table_tasks_ok_def runnable_def\<close>)
  moreover have "level_ok tm'" using t(3) assms(3-5) by (simp add: level_ok_def)
  ultimately show ?thesis by (simp add: tasks_ok_def)
qed

lemma same_tasks_trans: "same_tasks tm1 tm2 \<Longrightarrow> same_tasks tm2 tm3 \<Longrightarrow> same_tasks tm1 tm3"
  by (simp add: same_tasks_def)

lemma SwitchContext_fields [simp]:
  "running (SwitchContext n c tm) = running tm" "current_level (SwitchContext n c tm) = current_level tm"
  "level_changed (SwitchContext n c tm) = level_changed tm" "same_tasks tm (SwitchContext n c tm)"
  "task_level (task_heap (SwitchContext n c tm) p) = task_level (task_heap tm p)"
  "task_running (task_heap (SwitchContext n c tm) p) = task_running (task_heap tm p)"
  "tasks (SwitchContext n c tm) = tasks tm"
  by (simp_all add: task_ops same_tasks_def)

lemma Sleep_ok:
  assumes ok: "tasks_ok idle tm" and p: "p \<in> set (tasks tm)" "p \<noteq> idle"
  shows "\<exists>tm'. Sleep p tm = Some tm' \<and> tasks_ok idle tm' \<and> same_tasks tm tm' \<and> \<not> runnable tm' p"
proof (cases "task_running (task_heap tm p)")
  case False
  with ok p show ?thesis by (simp add: Sleep_def same_tasks_def runnable_def)
next
  case running: True
  note t = tasks_okD [OF ok]
  let ?tm1 = "upd_task p (\<lambda>t. t\<lparr>task_running := False\<rparr>) tm"
  have same1: "same_tasks tm ?tm1" by (simp add: same_tasks_def task_ops)
  have q1: "queues_hold (runnable tm) ?tm1" by (rule queues_hold_cong [OF t(2)]) (auto simp: task_ops)
  have l1: "level_ok ?tm1" using t(3) by (simp add: level_ok_def task_ops)
  have idle: "runnable tm idle" "task_level (task_heap tm idle) = 0" using t(1) by (auto simp: table_tasks_ok_def)
  have table: "table_tasks_ok idle tm'"
    if "same_tasks tm tm'" "\<And>q. task_level (task_heap tm' q) = task_level (task_heap tm q)"
      "task_running (task_heap tm' idle)" for tm'
    using t(1) that(1) by (rule table_tasks_kept) (use t(1) idle that in \<open>auto simp: table_tasks_ok_def\<close>)
  obtain front where front: "CurrentTask ?tm1 = Some front" by (rule level_ok_current [OF l1])
  show ?thesis
  proof (cases "p = front")
    case True
    then have "True \<longrightarrow> CurrentTask ?tm1 \<noteq> Some idle" using front p(2) by simp
    then obtain c tm2 where rot: "RotateCurrentRunQueue True ?tm1 = Some (c, tm2)" "CurrentTask ?tm1 = Some c"
      "queues_hold (if True then (\<lambda>q. runnable tm q \<and> q \<noteq> c) else runnable tm) tm2" "level_ok tm2"
      "task_heap tm2 = task_heap ?tm1" "same_tasks ?tm1 tm2"
      by (rule rotate_ok [OF q1 l1 idle(1), where s = True])
    obtain n where n: "CurrentTask tm2 = Some n" by (rule level_ok_current [OF rot(4)])
    let ?tm' = "SwitchContext n c tm2"
    have c: "c = p" using rot(2) front True by simp
    have r: "runnable ?tm' q \<longleftrightarrow> runnable tm q \<and> q \<noteq> p" for q
      using same1 rot(5,6) by (auto simp: runnable_def same_tasks_def task_ops)
    have same: "same_tasks tm ?tm'" using same1 rot(6) same_tasks_trans SwitchContext_fields(4) by blast
    have "queues_hold (\<lambda>q. runnable tm q \<and> q \<noteq> p) tm2" using rot(3) by (simp only: c if_True)
    then have "queues_hold (runnable ?tm') ?tm'" by (rule queues_hold_cong) (simp_all only: r SwitchContext_fields, simp)
    moreover have "level_ok ?tm'" using rot(4) by (simp add: level_ok_def)
    moreover have "table_tasks_ok idle ?tm'"
      using same by (rule table) (use idle p(2) rot(5) in \<open>auto simp: task_ops runnable_def\<close>)
    moreover have "Sleep p tm = Some ?tm'" using p running front rot(1) n True by (simp add: Sleep_def Let_def)
    ultimately show ?thesis using r same by (auto simp: tasks_ok_def)
  next
    case False
    let ?lv = "task_level (task_heap tm p)"
    let ?tm' = "set_queue ?lv (removeAll p (running ?tm1 ?lv)) ?tm1"
    have r: "runnable ?tm' q \<longleftrightarrow> runnable tm q \<and> q \<noteq> p" for q
      by (auto simp: runnable_def task_ops)
    have same: "same_tasks tm ?tm'" by (simp add: same_tasks_def task_ops)
    have "queues_hold (\<lambda>q. runnable tm q \<and> q \<noteq> p) ?tm'"
      by (rule queues_hold_leave [OF t(2)]) (auto simp: task_ops)
    then have "queues_hold (runnable ?tm') ?tm'" by (rule queues_hold_cong) (auto simp: r)
    moreover have "level_ok ?tm'"
    proof -
      obtain rest where "running tm (current_level tm) = front # rest"
        using front by (auto simp: CurrentTask_def task_ops split: list.splits)
      with False t(3) show ?thesis unfolding level_ok_def by (auto simp: task_ops)
    qed
    moreover have "table_tasks_ok idle ?tm'"
      using same by (rule table) (use idle p(2) in \<open>auto simp: task_ops runnable_def\<close>)
    moreover have "Sleep p tm = Some ?tm'"
      using p running front False by (simp add: Sleep_def Let_def) (simp add: task_ops)
    ultimately show ?thesis using r same by (auto simp: tasks_ok_def)
  qed
qed


lemma idle_in_queue:
  assumes "tasks_ok idle tm" and "CurrentTask tm = Some p" and "p \<noteq> idle"
  shows "True \<longrightarrow> CurrentTask tm \<noteq> Some idle"
  using assms by simp

text \<open>A switch: the task goes to the end of its queue, the first of the highest level comes next.\<close>

lemma SwitchTask_ok:
  assumes ok: "tasks_ok idle tm"
  shows "\<exists>tm'. SwitchTask regs tm = Some tm' \<and> tasks_ok idle tm' \<and> same_tasks tm tm' \<and> \<not> level_changed tm'"
proof -
  note t = tasks_okD [OF ok]
  obtain p where p: "CurrentTask tm = Some p" by (rule level_ok_current [OF t(3)])
  let ?tm1 = "upd_task p (\<lambda>t. t\<lparr>task_context := regs\<rparr>) tm"
  have same1: "same_tasks tm ?tm1" by (simp add: same_tasks_def task_ops)
  have "tasks_ok idle ?tm1" using ok same1 by (rule tasks_ok_cong) (simp_all add: task_ops)
  note t1 = tasks_okD [OF this]
  have idle: "runnable ?tm1 idle" using t1(1) by (simp add: table_tasks_ok_def)
  have "False \<longrightarrow> CurrentTask ?tm1 \<noteq> Some idle" by simp
  from rotate_ok [OF t1(2,3) idle this] obtain c tm2 where
    rot: "RotateCurrentRunQueue False ?tm1 = Some (c, tm2)" "queues_hold (runnable ?tm1) tm2"
    "level_ok tm2" "\<not> level_changed tm2" "task_heap tm2 = task_heap ?tm1" "same_tasks ?tm1 tm2"
    by (metis (no_types, lifting))
  obtain n where n: "CurrentTask tm2 = Some n" by (rule level_ok_current [OF rot(3)])
  let ?tm' = "if n \<noteq> c then RestoreContext n tm2 else tm2"
  have f: "running ?tm' = running tm2" "current_level ?tm' = current_level tm2" "level_changed ?tm' = level_changed tm2"
    "task_heap ?tm' = task_heap ?tm1" "same_tasks tm2 ?tm'"
    using rot(5) by (simp_all add: task_ops same_tasks_def)
  have same: "same_tasks tm ?tm'" using same1 rot(6) f(5) same_tasks_trans by blast
  have r: "runnable ?tm' q = runnable ?tm1 q" for q
    using same same1 by (simp add: runnable_def f(4) same_tasks_def)
  have "queues_hold (runnable ?tm') ?tm'" by (rule queues_hold_cong [OF rot(2)]) (simp_all only: f rot(5) r, simp)
  moreover have "level_ok ?tm'" using rot(3) unfolding level_ok_def f .
  moreover have "table_tasks_ok idle ?tm'"
    using t(1) same by (rule table_tasks_kept)
      (use t(1) in \<open>simp_all only: f(4)\<close>, auto simp: table_tasks_ok_def runnable_def task_ops)
  moreover have "SwitchTask regs tm = Some ?tm'" by (simp add: SwitchTask_def p rot(1) n)
  ultimately show ?thesis using same rot(4) f(3) by (auto simp: tasks_ok_def)
qed

lemma find_task_in: "find_task i tm = Some p \<Longrightarrow> p \<in> set (tasks tm) \<and> task_id (task_heap tm p) = i"
  by (auto simp: find_task_def find_Some_iff)

lemma Task_SendMessage_ok:
  assumes "tasks_ok idle tm" and p: "p \<in> set (tasks tm)"
  shows "\<exists>tm'. Task_SendMessage p msg tm = Some tm' \<and> tasks_ok idle tm'"
proof -
  let ?tm1 = "upd_task p (\<lambda>t. t\<lparr>task_msgs := task_msgs t @ [msg]\<rparr>) tm"
  have "tasks_ok idle ?tm1" by (rule tasks_ok_cong [OF assms(1)]) (simp_all add: task_ops same_tasks_def)
  moreover have "p \<in> set (tasks ?tm1)" using p by (simp add: task_ops)
  ultimately obtain tm' where "Wakeup p (- 1) ?tm1 = Some tm'" "tasks_ok idle tm'"
    using Wakeup_ok [of idle ?tm1 p "- 1"] by auto
  then show ?thesis using p by (simp add: Task_SendMessage_def)
qed

lemma SendMessage_ok:
  assumes "tasks_ok idle tm"
  shows "\<exists>e tm'. SendMessage i msg tm = Some (e, tm') \<and> tasks_ok idle tm'"
proof (cases "find_task i tm")
  case None
  with assms show ?thesis by (simp add: SendMessage_def)
next
  case (Some p)
  with Task_SendMessage_ok [OF assms find_task_in [OF Some, THEN conjunct1], of msg] show ?thesis by (auto simp: SendMessage_def)
qed

lemma NewTask_ok:
  assumes ok: "tasks_ok idle tm" and id: "latest_id tm + 1 \<noteq> 0"
  shows "tasks_ok idle (snd (NewTask tm)) \<and> fst (NewTask tm) \<in> set (tasks (snd (NewTask tm))) \<and>
    fst (NewTask tm) \<notin> set (tasks tm)"
proof -
  note t = tasks_okD [OF ok]
  obtain p tm' where n: "NewTask tm = (p, tm')" by (cases "NewTask tm")
  then have f: "p = task_brk tm" "running tm' = running tm" "task_heap tm' = (task_heap tm)(p := new_task (latest_id tm + 1))"
    "tasks tm' = tasks tm @ [p]" "task_brk tm' = Suc p" "latest_id tm' = latest_id tm + 1"
    "current_level tm' = current_level tm" "level_changed tm' = level_changed tm"
    "finish_waiter tm' = finish_waiter tm"
    by (auto simp: NewTask_def Let_def)
  have new: "p \<notin> set (tasks tm)" using t(1) by (auto simp: f(1) table_tasks_ok_def)
  have r: "runnable tm' q = runnable tm q" for q using new by (auto simp: runnable_def f new_task_def)
  have lev: "q \<in> set (tasks tm) \<Longrightarrow> task_heap tm' q = task_heap tm q" for q using new by (auto simp: f)
  have "{q. runnable tm q \<and> task_level (task_heap tm' q) = lv} = {q. runnable tm q \<and> task_level (task_heap tm q) = lv}" for lv
    using lev by (auto simp: runnable_def)
  then have "queues_hold (runnable tm') tm'"
    using t(2) lev unfolding queues_hold_def r f(2) by (auto simp: runnable_def)
  moreover have "level_ok tm'" using t(3) unfolding level_ok_def f .
  moreover have "table_tasks_ok idle tm'"
  proof -
    have less: "latest_id tm < latest_id tm + 1" using id unatSuc [of "latest_id tm"] by (simp add: word_less_nat_alt add.commute)
    then have "task_id (task_heap tm q) < latest_id tm + 1" if "q \<in> set (tasks tm)" for q
      using t(1) that by (auto simp: table_tasks_ok_def intro: le_less_trans)
    then have old: "task_id (task_heap tm' q) < latest_id tm + 1" "task_heap tm' q = task_heap tm q"
      if "q \<in> set (tasks tm)" for q using that lev by simp_all
    have p: "task_id (task_heap tm' p) = latest_id tm + 1" "task_level (task_heap tm' p) \<le> kMaxLevel"
      by (simp_all add: f(3) new_task_def kDefaultLevel_def kMaxLevel_def)
    have "inj_on (\<lambda>q. task_id (task_heap tm' q)) (set (tasks tm))"
      using t(1) unfolding table_tasks_ok_def by (simp add: inj_on_def old(2))
    moreover have "task_id (task_heap tm' p) \<notin> (\<lambda>q. task_id (task_heap tm' q)) ` set (tasks tm)"
      using old(1) unfolding p(1) by (metis (no_types, lifting) imageE less_irrefl)
    ultimately have "inj_on (\<lambda>q. task_id (task_heap tm' q)) (set (tasks tm'))"
      using new by (simp add: f(4) inj_on_insert)
    moreover have "idle \<in> set (tasks tm)" using t(1) by (auto simp: table_tasks_ok_def runnable_def)
    moreover have "\<forall>q \<in> set (tasks tm'). task_id (task_heap tm' q) \<le> latest_id tm'"
      using old p by (auto simp: f(4,6) less_imp_le)
    moreover have "\<forall>q \<in> set (tasks tm'). task_level (task_heap tm' q) \<le> kMaxLevel"
      using t(1) old p by (simp add: f(4) table_tasks_ok_def)
    moreover have "set (tasks tm') \<subseteq> {..<task_brk tm'}" "distinct (tasks tm')"
      using t(1) new by (auto simp: f(4,5) f(1) table_tasks_ok_def)
    ultimately show ?thesis
      using t(1) old unfolding table_tasks_ok_def r by (auto simp: f(4,9))
  qed
  ultimately show ?thesis using new by (simp add: n tasks_ok_def f(4))
qed


text \<open>The current task leaves, its exit code is kept, and the task that waits for it is woken.\<close>

lemma Finish_ok:
  assumes ok: "tasks_ok idle tm" and p: "CurrentTask tm = Some p" "p \<noteq> idle" "p \<notin> ran (finish_waiter tm)"
  shows "\<exists>tm'. Finish code tm = Some tm' \<and> tasks_ok idle tm' \<and> tasks tm' = remove1 p (tasks tm) \<and>
    finish_tasks tm' = (finish_tasks tm)(task_id (task_heap tm p) \<mapsto> code) \<and>
    finish_waiter tm' = (finish_waiter tm)(task_id (task_heap tm p) := None) \<and>
    (\<forall>q. finish_waiter tm (task_id (task_heap tm p)) = Some q \<longrightarrow> runnable tm' q)"
proof -
  note t = tasks_okD [OF ok]
  have idle: "runnable tm idle" using t(1) by (simp add: table_tasks_ok_def)
  have "True \<longrightarrow> CurrentTask tm \<noteq> Some idle" using p by simp
  then obtain c tm1 where rot: "RotateCurrentRunQueue True tm = Some (c, tm1)"
    "queues_hold (if True then (\<lambda>q. runnable tm q \<and> q \<noteq> c) else runnable tm) tm1"
    "level_ok tm1" "task_heap tm1 = task_heap tm" "same_tasks tm tm1" "runnable tm c" and c: "CurrentTask tm = Some c"
    by (rule rotate_ok [OF t(2,3) idle, where s = True])
  have c: "c = p" using c p(1) by simp
  note rot = rot [unfolded c if_True]
  note s1 = rot(5) [unfolded same_tasks_def]
  let ?i = "task_id (task_heap tm p)"
  let ?tm2 = "tm1\<lparr>tasks := remove1 p (tasks tm), finish_tasks := (finish_tasks tm)(?i \<mapsto> code)\<rparr>"
  let ?tm3 = "?tm2\<lparr>finish_waiter := (finish_waiter tm)(?i := None)\<rparr>"
  have dist: "distinct (tasks tm)" using t(1) by (simp add: table_tasks_ok_def)
  then have set2: "set (remove1 p (tasks tm)) = set (tasks tm) - {p}" by simp
  have r3: "runnable ?tm3 q \<longleftrightarrow> runnable tm q \<and> q \<noteq> p" for q
    using rot(4) set2 by (auto simp: runnable_def)
  have "queues_hold (runnable ?tm3) ?tm3" by (rule queues_hold_cong [OF rot(2)]) (simp_all only: r3, simp_all)
  moreover have "level_ok ?tm3" using rot(3) by (simp add: level_ok_def)
  moreover have "ran ((finish_waiter tm)(?i := None)) \<subseteq> set (tasks tm) - {p}"
    using t(1) p(3) by (auto simp: table_tasks_ok_def ran_def)
  then have "table_tasks_ok idle ?tm3"
    using t(1) s1 rot(4) p(2) set2 dist unfolding table_tasks_ok_def r3
    by (simp add: inj_on_diff) blast
  ultimately have ok3: "tasks_ok idle ?tm3" by (simp add: tasks_ok_def)
  have tm2: "(if p \<in> set (tasks tm1) then Some (tm1\<lparr>tasks := remove1 p (tasks tm1),
      finish_tasks := (finish_tasks tm1)(task_id (task_heap tm1 p) \<mapsto> code)\<rparr>) else None) = Some ?tm2"
    using rot(4,6) s1 by (simp add: runnable_def)
  have wake: "\<exists>tm4. (case finish_waiter ?tm2 (task_id (task_heap tm1 p)) of None \<Rightarrow> Some ?tm2
        | Some waiter \<Rightarrow> Wakeup waiter (- 1) (?tm2\<lparr>finish_waiter := (finish_waiter ?tm2)(task_id (task_heap tm1 p) := None)\<rparr>))
        = Some tm4 \<and> tasks_ok idle tm4 \<and> same_tasks ?tm3 tm4 \<and> (\<forall>q. finish_waiter tm ?i = Some q \<longrightarrow> runnable tm4 q)"
  proof (cases "finish_waiter tm ?i")
    case None
    then have "?tm3 = ?tm2" using s1 by (simp add: fun_upd_idem)
    with None ok3 s1 rot(4) show ?thesis by (simp add: same_tasks_def)
  next
    case (Some q)
    then have "q \<in> set (tasks tm) - {p}" using t(1) p(3) by (auto simp: table_tasks_ok_def ran_def)
    then have "q \<in> set (tasks ?tm3)" using set2 by simp
    with Wakeup_ok [OF ok3 this, of "- 1"] Some s1 rot(4) show ?thesis by simp
  qed
  then obtain tm4 where w: "(case finish_waiter ?tm2 (task_id (task_heap tm1 p)) of None \<Rightarrow> Some ?tm2
        | Some waiter \<Rightarrow> Wakeup waiter (- 1) (?tm2\<lparr>finish_waiter := (finish_waiter ?tm2)(task_id (task_heap tm1 p) := None)\<rparr>))
        = Some tm4" "tasks_ok idle tm4" "same_tasks ?tm3 tm4" "\<forall>q. finish_waiter tm ?i = Some q \<longrightarrow> runnable tm4 q" by blast
  obtain n where n: "CurrentTask tm4 = Some n" using level_ok_current tasks_okD(3) [OF w(2)] by blast
  have "Finish code tm = Some (RestoreContext n tm4)"
    using w(1) unfolding Finish_def rot(1) by (simp add: Let_def tm2 n)
  moreover have "tasks_ok idle (RestoreContext n tm4)"
    by (rule tasks_ok_cong [OF w(2)]) (simp_all add: task_ops same_tasks_def)
  ultimately show ?thesis
    using w(3,4) by (auto simp: same_tasks_def task_ops runnable_def)
qed

lemma WaitFinish_ok:
  assumes ok: "tasks_ok idle tm" and p: "CurrentTask tm = Some p" "p \<noteq> idle"
  shows "\<exists>r tm'. WaitFinish i tm = Some (r, tm') \<and> tasks_ok idle tm' \<and>
    (case finish_tasks tm i of
       Some c \<Rightarrow> r = Returns c \<and> tm' = tm\<lparr>finish_tasks := (finish_tasks tm)(i := None)\<rparr>
     | None \<Rightarrow> r = Blocks i \<and> finish_waiter tm' i = Some p \<and> \<not> runnable tm' p)"
proof (cases "finish_tasks tm i")
  case None
  let ?tm1 = "tm\<lparr>finish_waiter := (finish_waiter tm)(i \<mapsto> p)\<rparr>"
  note t = tasks_okD [OF ok]
  have rp: "p \<in> set (tasks tm)" using current_runnable [OF ok] p(1) by (metis option.inject runnable_def)
  have r: "runnable ?tm1 q = runnable tm q" for q by (simp add: runnable_def)
  have "queues_hold (runnable ?tm1) ?tm1" by (rule queues_hold_cong [OF t(2)]) (simp_all only: r, simp_all)
  moreover have "level_ok ?tm1" using t(3) by (simp add: level_ok_def)
  moreover have "table_tasks_ok idle ?tm1" using t(1) rp unfolding table_tasks_ok_def r by (auto simp: ran_def)
  ultimately have "tasks_ok idle ?tm1" by (simp add: tasks_ok_def)
  from Sleep_ok [OF this, of p] rp p(2) obtain tm' where s: "Sleep p ?tm1 = Some tm'" "tasks_ok idle tm'"
    "same_tasks ?tm1 tm'" "\<not> runnable tm' p" by auto
  then show ?thesis using None p(1) by (simp add: WaitFinish_def same_tasks_def)
next
  case (Some c)
  let ?tm1 = "tm\<lparr>finish_tasks := (finish_tasks tm)(i := None)\<rparr>"
  note t = tasks_okD [OF ok]
  have r: "runnable ?tm1 q = runnable tm q" for q by (simp add: runnable_def)
  have "queues_hold (runnable ?tm1) ?tm1" by (rule queues_hold_cong [OF t(2)]) (simp_all only: r, simp_all)
  moreover have "level_ok ?tm1" using t(3) by (simp add: level_ok_def)
  moreover have "table_tasks_ok idle ?tm1" using t(1) unfolding table_tasks_ok_def r by simp
  ultimately have "tasks_ok idle ?tm1" by (simp add: tasks_ok_def)
  then show ?thesis using Some p(1) by (simp add: WaitFinish_def)
qed


section \<open>Runs of the kernel\<close>

text \<open>
  The calls of the timer interrupt, the tasks and the interrupt handlers. Those that take a pointer
  to a task are \<open>None\<close> when this task is gone.
\<close>

datatype task_call =
    Do_switch TaskContext | Do_sleep nat | Do_wakeup nat int | Do_send u64 message | Do_task_send nat message
  | Do_receive nat | Do_new | Do_finish int | Do_wait u64

fun do_call :: "task_call \<Rightarrow> 'a task_state_scheme \<Rightarrow> 'a task_state_scheme option" where
  "do_call (Do_switch regs) tm = SwitchTask regs tm"
| "do_call (Do_sleep p) tm = Sleep p tm"
| "do_call (Do_wakeup p level) tm = Wakeup p level tm"
| "do_call (Do_send i msg) tm = map_option snd (SendMessage i msg tm)"
| "do_call (Do_task_send p msg) tm = Task_SendMessage p msg tm"
| "do_call (Do_receive p) tm = (if p \<notin> set (tasks tm) then None else Some (snd (ReceiveMessage p tm)))"
| "do_call Do_new tm = Some (snd (NewTask tm))"
| "do_call (Do_finish code) tm = Finish code tm"
| "do_call (Do_wait i) tm = map_option snd (WaitFinish i tm)"

text \<open>
  When the kernel makes them: the idle task, which only halts, is not put to sleep, moved or
  finished, a task that waits for another does not finish, levels are those of the array, and the
  identifiers do not run out.
\<close>

fun task_legal :: "nat \<Rightarrow> task_call \<Rightarrow> 'a task_state_scheme \<Rightarrow> bool" where
  "task_legal idle (Do_sleep p) tm \<longleftrightarrow> p \<noteq> idle"
| "task_legal idle (Do_wakeup p level) tm \<longleftrightarrow> level \<le> int kMaxLevel \<and> (0 \<le> level \<longrightarrow> p \<noteq> idle)"
| "task_legal idle Do_new tm \<longleftrightarrow> latest_id tm + 1 \<noteq> 0"
| "task_legal idle (Do_finish code) tm \<longleftrightarrow>
     CurrentTask tm \<noteq> Some idle \<and> (\<forall>q \<in> ran (finish_waiter tm). CurrentTask tm \<noteq> Some q)"
| "task_legal idle (Do_wait i) tm \<longleftrightarrow> CurrentTask tm \<noteq> Some idle"
| "task_legal idle _ tm \<longleftrightarrow> True"

text \<open>The call uses a pointer to a task that has finished and was deleted.\<close>

fun call_task :: "task_call \<Rightarrow> nat option" where
  "call_task (Do_sleep p) = Some p"
| "call_task (Do_wakeup p level) = Some p"
| "call_task (Do_task_send p msg) = Some p"
| "call_task (Do_receive p) = Some p"
| "call_task _ = None"

definition stale_call :: "task_call \<Rightarrow> 'a task_state_scheme \<Rightarrow> bool" where
  "stale_call c tm \<longleftrightarrow> (\<exists>p. call_task c = Some p \<and> p \<notin> set (tasks tm))"

inductive task_reach :: "task_state \<Rightarrow> task_state \<Rightarrow> bool" for start where
  task_start: "task_reach start start"
| task_step: "task_reach start tm \<Longrightarrow> task_legal 1 c tm \<Longrightarrow> do_call c tm = Some tm' \<Longrightarrow> task_reach start tm'"

lemma stale_call_fails: "stale_call c tm \<Longrightarrow> do_call c tm = None"
  by (cases c) (auto simp: stale_call_def Sleep_def Wakeup_def Task_SendMessage_def)

lemma do_call_ok:
  assumes ok: "tasks_ok idle tm" and legal: "task_legal idle c tm" and pointer: "\<not> stale_call c tm"
  shows "\<exists>tm'. do_call c tm = Some tm' \<and> tasks_ok idle tm'"
proof (cases c)
  case (Do_switch regs)
  with SwitchTask_ok [OF ok, of regs] show ?thesis by auto
next
  case (Do_sleep p)
  with Sleep_ok [OF ok, of p] legal pointer show ?thesis by (auto simp: stale_call_def)
next
  case (Do_wakeup p level)
  with Wakeup_ok [OF ok, of p level] legal pointer show ?thesis by (auto simp: stale_call_def)
next
  case (Do_send i msg)
  with SendMessage_ok [OF ok, of i msg] show ?thesis by auto
next
  case (Do_task_send p msg)
  with Task_SendMessage_ok [OF ok, of p msg] pointer show ?thesis by (auto simp: stale_call_def)
next
  case (Do_receive p)
  have "tasks_ok idle (snd (ReceiveMessage p tm))"
    by (rule tasks_ok_cong [OF ok]) (simp_all add: ReceiveMessage_def task_ops same_tasks_def split: list.split)
  with Do_receive pointer show ?thesis by (simp add: stale_call_def)
next
  case Do_new
  with NewTask_ok [OF ok] legal show ?thesis by simp
next
  case (Do_finish code)
  obtain p where p: "CurrentTask tm = Some p" using level_ok_current tasks_okD(3) [OF ok] by blast
  with legal Do_finish have "p \<noteq> idle" "p \<notin> ran (finish_waiter tm)" by auto
  with Finish_ok [OF ok p, of code] Do_finish show ?thesis by auto
next
  case (Do_wait i)
  obtain p where p: "CurrentTask tm = Some p" using level_ok_current tasks_okD(3) [OF ok] by blast
  with legal Do_wait have "p \<noteq> idle" by auto
  with WaitFinish_ok [OF ok p, of i] Do_wait show ?thesis by auto
qed

lemma TaskManager_start_ok: "tasks_ok 1 (TaskManager_start stack_end page_table task_idle regs)"
proof -
  let ?tm = "TaskManager_start stack_end page_table task_idle regs"
  have f: "tasks ?tm = [0, 1]" "task_brk ?tm = 2" "latest_id ?tm = 2" "finish_waiter ?tm = (\<lambda>i. None)"
    "running ?tm = ((\<lambda>lv. [])(3 := [0])) (0 := [1])" "current_level ?tm = 3"
    "task_id (task_heap ?tm 0) = 1" "task_id (task_heap ?tm 1) = 2" "task_level (task_heap ?tm 0) = 3"
    "task_level (task_heap ?tm 1) = 0" "task_running (task_heap ?tm 0)" "task_running (task_heap ?tm 1)"
    by (simp_all add: TaskManager_start_def NewTask_def no_tasks_def task_ops Let_def new_task_def kMaxLevel_def InitContext_def)
  have r: "runnable ?tm p \<longleftrightarrow> p = 0 \<or> p = 1" for p using f by (auto simp: runnable_def)
  have "table_tasks_ok 1 ?tm" unfolding table_tasks_ok_def r by (simp add: f kMaxLevel_def) (simp add: f [simplified])
  moreover have "queues_hold (runnable ?tm) ?tm"
  proof -
    have "{p. (p = 0 \<or> p = 1) \<and> task_level (task_heap ?tm p) = lv} =
        (if lv = 3 then {0} else {}) \<union> (if lv = 0 then {1} else {})" for lv
    proof (rule set_eqI)
      fix p :: nat
      consider "p = 0" | "p = 1" | "p \<noteq> 0" "p \<noteq> 1" by blast
      then show "p \<in> {p. (p = 0 \<or> p = 1) \<and> task_level (task_heap ?tm p) = lv} \<longleftrightarrow>
          p \<in> (if lv = 3 then {0} else {}) \<union> (if lv = 0 then {1} else {})"
        using f(9,10) by cases auto
    qed
    then show ?thesis unfolding queues_hold_def r kMaxLevel_def f(5) using f(9,10) by auto
  qed
  moreover have "level_ok ?tm" unfolding level_ok_def f kMaxLevel_def by simp
  ultimately show ?thesis by (simp add: tasks_ok_def)
qed

section \<open>Taking turns\<close>

text \<open>The switches of successive timer interrupts, with the registers they find.\<close>

fun switches :: "TaskContext list \<Rightarrow> 'a task_state_scheme \<Rightarrow> 'a task_state_scheme option" where
  "switches [] tm = Some tm"
| "switches (c # cs) tm = SwitchTask c tm \<bind> switches cs"

lemma switches_snoc: "switches (cs @ [c]) tm = switches cs tm \<bind> SwitchTask c"
  by (induction cs arbitrary: tm) (simp_all split: Option.bind_splits)

lemma switch_turn:
  assumes ok: "tasks_ok idle tm" and quiet: "\<not> level_changed tm" and q: "running tm (current_level tm) = p # rest"
  shows "\<exists>tm'. SwitchTask c tm = Some tm' \<and> tasks_ok idle tm' \<and> \<not> level_changed tm' \<and>
    running tm' = (running tm)(current_level tm := rest @ [p]) \<and> current_level tm' = current_level tm \<and>
    task_heap tm' = (task_heap tm)(p := (task_heap tm p)\<lparr>task_context := c\<rparr>) \<and>
    (rest \<noteq> [] \<longrightarrow> cpu tm' = task_context (task_heap tm (hd rest)))"
proof -
  from SwitchTask_ok [OF ok, of c] obtain tm' where s: "SwitchTask c tm = Some tm'" "tasks_ok idle tm'"
    "\<not> level_changed tm'" by blast
  have "distinct (p # rest)"
    using tasks_okD(2,3) [OF ok] q unfolding queues_hold_def level_ok_def by metis
  then show ?thesis
    using s quiet q
    by (cases rest) (auto simp: SwitchTask_def CurrentTask_def RotateCurrentRunQueue_def task_ops Let_def)
qed


lemma switches_turns:
  assumes ok: "tasks_ok idle tm" and quiet: "\<not> level_changed tm" and q: "running tm (current_level tm) = q"
  shows "length cs \<le> length q \<Longrightarrow> \<exists>tm'. switches cs tm = Some tm' \<and> tasks_ok idle tm' \<and> \<not> level_changed tm' \<and>
    running tm' = (running tm)(current_level tm := rotate (length cs) q) \<and> current_level tm' = current_level tm \<and>
    (\<forall>j < length cs. task_context (task_heap tm' (q ! j)) = cs ! j) \<and>
    (\<forall>p. p \<notin> (!) q ` {..<length cs} \<longrightarrow> task_heap tm' p = task_heap tm p) \<and>
    (0 < length cs \<and> 1 < length q \<longrightarrow>
       cpu tm' = (if length cs < length q then task_context (task_heap tm (q ! length cs)) else cs ! 0))"
proof (induction cs rule: rev_induct)
  case Nil
  have "running tm = (running tm)(current_level tm := q)" using q by auto
  then show ?case using ok quiet q by simp
next
  case (snoc c cs)
  let ?k = "length cs"
  have k: "?k < length q" using snoc.prems by simp
  have dist: "distinct q"
    using tasks_okD(2,3) [OF ok] q unfolding queues_hold_def level_ok_def by metis
  have "?k \<le> length q" using k by simp
  from snoc.IH [OF this] obtain tm1 where t1: "switches cs tm = Some tm1" "tasks_ok idle tm1" "\<not> level_changed tm1"
    "running tm1 = (running tm)(current_level tm := rotate ?k q)" "current_level tm1 = current_level tm"
    "\<forall>j < ?k. task_context (task_heap tm1 (q ! j)) = cs ! j"
    "\<forall>p. p \<notin> (!) q ` {..<?k} \<longrightarrow> task_heap tm1 p = task_heap tm p" by blast
  have rot: "rotate ?k q = q ! ?k # (drop (Suc ?k) q @ take ?k q)"
    using k by (simp add: rotate_drop_take Cons_nth_drop_Suc)
  then have "running tm1 (current_level tm1) = q ! ?k # (drop (Suc ?k) q @ take ?k q)" using t1(4,5) by simp
  from switch_turn [OF t1(2,3) this, of c] obtain tm2 where t2: "SwitchTask c tm1 = Some tm2" "tasks_ok idle tm2"
    "\<not> level_changed tm2" "running tm2 = (running tm1)(current_level tm1 := (drop (Suc ?k) q @ take ?k q) @ [q ! ?k])"
    "current_level tm2 = current_level tm1"
    "task_heap tm2 = (task_heap tm1)(q ! ?k := (task_heap tm1 (q ! ?k))\<lparr>task_context := c\<rparr>)"
    "drop (Suc ?k) q @ take ?k q \<noteq> [] \<longrightarrow>
      cpu tm2 = task_context (task_heap tm1 (hd (drop (Suc ?k) q @ take ?k q)))" by blast
  have ne: "q ! j \<noteq> q ! ?k" if "j < ?k" for j using that k dist by (simp add: nth_eq_iff_index_eq)
  have "rotate (Suc ?k) q = (drop (Suc ?k) q @ take ?k q) @ [q ! ?k]" unfolding rotate_Suc rot by simp
  then have run: "running tm2 = (running tm)(current_level tm := rotate (length (cs @ [c])) q)"
    using t2(4) t1(4,5) by simp
  have ctx: "\<forall>j < length (cs @ [c]). task_context (task_heap tm2 (q ! j)) = (cs @ [c]) ! j"
    using t1(6) ne by (auto simp: t2(6) nth_append less_Suc_eq)
  have other: "\<forall>p. p \<notin> (!) q ` {..<length (cs @ [c])} \<longrightarrow> task_heap tm2 p = task_heap tm p"
    using t1(7) by (auto simp: t2(6) lessThan_Suc)
  have "cpu tm2 = (if Suc ?k < length q then task_context (task_heap tm (q ! Suc ?k)) else (cs @ [c]) ! 0)"
    if "1 < length q"
  proof (cases "Suc ?k < length q")
    case True
    then have "hd (drop (Suc ?k) q @ take ?k q) = q ! Suc ?k" "drop (Suc ?k) q @ take ?k q \<noteq> []"
      by (simp_all add: hd_drop_conv_nth hd_append)
    moreover have "q ! Suc ?k \<notin> (!) q ` {..<?k}" using True dist by (auto simp: nth_eq_iff_index_eq)
    ultimately show ?thesis using t2(7) t1(7) True by simp
  next
    case False
    then have "length q = Suc ?k" using k by simp
    with that have k0: "0 < ?k" "q \<noteq> []" by auto
    then have "hd (drop (Suc ?k) q @ take ?k q) = q ! 0" "drop (Suc ?k) q @ take ?k q \<noteq> []"
      using False k0 by (simp_all add: hd_append hd_conv_nth)
    with t2(7) t1(6) k0 False show ?thesis by (simp add: nth_append)
  qed
  with t1(1,5) t2(1-3,5) run ctx other show ?case by (simp add: switches_snoc fun_upd_def)
qed


section \<open>Claims\<close>

text \<open>A parent that waits for its child: the third task, at the level of the main task.\<close>

definition waiting_tasks :: "task_state option" where
  "waiting_tasks =
     do {
       let (p, tm1) = NewTask (TaskManager_start 0x8000 0 0 zero_context);
       tm2 \<leftarrow> Wakeup p 3 tm1;
       (r, tm3) \<leftarrow> WaitFinish 3 tm2;
       Some tm3
     }"

lemma waiting_tasks_run:
  obtains tm where "waiting_tasks = Some tm" "CurrentTask tm = Some 2" "finish_waiter tm = [3 \<mapsto> 0]"
    "task_id (task_heap tm 2) = 3" "tasks_ok 1 tm" "task_reach (TaskManager_start 0x8000 0 0 zero_context) tm"
proof -
  let ?start = "TaskManager_start 0x8000 0 0 zero_context"
  let ?n = "snd (NewTask ?start)"
  have n: "fst (NewTask ?start) = 2" "tasks ?n = [0, 1, 2]" "\<not> task_running (task_heap ?n 2)"
    by (simp_all add: TaskManager_start_def NewTask_def no_tasks_def task_ops Let_def new_task_def)
  have id: "latest_id ?start + 1 \<noteq> 0"
    by (simp add: TaskManager_start_def NewTask_def no_tasks_def task_ops Let_def)
  then have ok1: "tasks_ok 1 ?n" using NewTask_ok [OF TaskManager_start_ok] by blast
  then obtain tm2 where tm2: "Wakeup 2 3 ?n = Some tm2" "tasks_ok 1 tm2"
    using wake_sleeping [OF ok1 _ n(3), of 3] n(2) by (auto simp: kMaxLevel_def)
  have c2: "CurrentTask tm2 = Some 0" "finish_tasks tm2 3 = None"
    using tm2(1) by (auto simp: Wakeup_def TaskManager_start_def NewTask_def no_tasks_def task_ops Let_def
        new_task_def kMaxLevel_def CurrentTask_def)
  from WaitFinish_ok [OF tm2(2) c2(1), of 3] c2(2) obtain tm3 where
    tm3: "WaitFinish 3 tm2 = Some (Blocks 3, tm3)" "tasks_ok 1 tm3" by auto
  have "task_reach ?start ?n" by (rule task_step [where c = Do_new, OF task_start]) (use id in simp_all)
  then have "task_reach ?start tm2"
    by (rule task_step [where c = "Do_wakeup 2 3"]) (use tm2(1) in \<open>simp_all add: kMaxLevel_def\<close>)
  then have "task_reach ?start tm3"
    by (rule task_step [where c = "Do_wait 3"]) (use tm3(1) c2(1) in simp_all)
  moreover have "waiting_tasks = Some tm3"
    using tm2(1) tm3(1) n(1) by (simp add: waiting_tasks_def Let_def case_prod_beta)
  moreover have "CurrentTask tm3 = Some 2" "finish_waiter tm3 = [3 \<mapsto> 0]" "task_id (task_heap tm3 2) = 3"
    using tm2(1) tm3(1) by (auto simp: Wakeup_def TaskManager_start_def NewTask_def no_tasks_def task_ops Let_def
        new_task_def kMaxLevel_def CurrentTask_def WaitFinish_def Sleep_def RotateCurrentRunQueue_def)
  ultimately show thesis using that tm3(2) by blast
qed

text \<open>
  C21: the task table. From the start on, whatever tasks and interrupts do, every task that can
  run is in the queue of its level, once, and nothing else is in a queue; some task can run, and
  the level that runs is the highest that has one, unless a change is pending. The calls are those
  the kernel makes (it does not put the idle task to sleep, move or finish it, a task does not
  finish while it waits for another, levels are at most 3, and fewer than 2^64 tasks are made); each
  returns, with the exception of those that use a pointer to a task that has finished: the task
  was deleted, so that they use freed memory. \<^verbatim>\<open>PipeDescriptor\<close> keeps such a pointer.
\<close>

theorem tasks_kept:
  assumes "task_reach (TaskManager_start stack_end page_table task_idle regs) tm"
  shows "tasks_ok 1 tm \<and>
    (\<forall>c. task_legal 1 c tm \<longrightarrow>
       (if stale_call c tm then do_call c tm = None else \<exists>tm'. do_call c tm = Some tm' \<and> tasks_ok 1 tm'))"
proof -
  have ok: "tasks_ok 1 tm"
    using assms
  proof (induction rule: task_reach.induct)
    case task_start
    show ?case by (rule TaskManager_start_ok)
  next
    case (task_step tm c tm')
    then show ?case using do_call_ok [of 1 tm c] stale_call_fails [of c tm] by fastforce
  qed
  with do_call_ok [OF ok] stale_call_fails show ?thesis by metis
qed

text \<open>
  The child finishes; who sends it a message then, by pointer, uses freed memory, while a message
  by identifier is refused.
\<close>

theorem tasks_kept_witness:
  "\<exists>tm tm1. waiting_tasks = Some tm \<and> Finish 7 tm = Some tm1 \<and> tasks_ok 1 tm1 \<and>
     Task_SendMessage 2 \<lparr>msg_type = kPipe, src_task = 0, msg_arg = NoArg\<rparr> tm1 = None \<and>
     (\<exists>tm2. Wakeup 0 2 tm1 = Some tm2 \<and> tasks_ok 1 tm2)"
proof -
  let ?msg = "\<lparr>msg_type = kPipe, src_task = 0, msg_arg = NoArg\<rparr>"
  obtain tm where tm: "waiting_tasks = Some tm" "CurrentTask tm = Some 2" "finish_waiter tm = [3 \<mapsto> 0]"
    "task_id (task_heap tm 2) = 3" "tasks_ok 1 tm" "task_reach (TaskManager_start 0x8000 0 0 zero_context) tm"
    by (rule waiting_tasks_run)
  have "2 \<notin> ran (finish_waiter tm)" "2 \<noteq> (1 :: nat)" by (simp_all add: tm(3))
  from Finish_ok [OF tm(5,2) this(2,1), of 7] obtain tm1 where
    f: "Finish 7 tm = Some tm1" "tasks tm1 = remove1 2 (tasks tm)" "runnable tm1 0" by (auto simp: tm(3,4))
  have "distinct (tasks tm)" using tasks_okD(1) [OF tm(5)] by (simp add: table_tasks_ok_def)
  then have gone: "2 \<notin> set (tasks tm1)" "0 \<in> set (tasks tm1)" using f(3) by (simp_all add: f(2) runnable_def)
  have "task_reach (TaskManager_start 0x8000 0 0 zero_context) tm1"
    by (rule task_step [where c = "Do_finish 7", OF tm(6)]) (use f(1) tm(2,3) in simp_all)
  note kept = tasks_kept [OF this]
  have "Task_SendMessage 2 ?msg tm1 = None"
    using kept [THEN conjunct2, rule_format, of "Do_task_send 2 ?msg"] gone by (simp add: stale_call_def)
  moreover have "\<exists>tm2. Wakeup 0 2 tm1 = Some tm2 \<and> tasks_ok 1 tm2"
    using kept [THEN conjunct2, rule_format, of "Do_wakeup 0 2"] gone by (simp add: stale_call_def kMaxLevel_def)
  ultimately show ?thesis using tm(1) f(1) kept by blast
qed

text \<open>
  C22: tasks take turns. With no change of levels pending, \<open>k\<close> timer interrupts give the processor
  to the tasks of the highest level in the order of their queue; the registers each of them had
  when it was interrupted are kept, and when its turn comes again it goes on with exactly these.
\<close>

theorem tasks_take_turns:
  assumes "tasks_ok idle tm" and "\<not> level_changed tm" and "running tm (current_level tm) = q"
    and "length cs \<le> length q"
  shows "\<exists>tm'. switches cs tm = Some tm' \<and> tasks_ok idle tm' \<and>
    running tm' = (running tm)(current_level tm := rotate (length cs) q) \<and> current_level tm' = current_level tm \<and>
    (\<forall>j < length cs. task_context (task_heap tm' (q ! j)) = cs ! j) \<and>
    (0 < length cs \<and> 1 < length q \<longrightarrow>
       cpu tm' = (if length cs < length q then task_context (task_heap tm (q ! length cs)) else cs ! 0))"
  using switches_turns [OF assms] by blast

theorem tasks_take_turns_witness:
  "\<exists>tm'. switches [zero_context] (TaskManager_start 0x8000 0 0 zero_context) = Some tm' \<and> tasks_ok 1 tm'"
proof -
  let ?start = "TaskManager_start 0x8000 0 0 zero_context"
  have "\<not> level_changed ?start" "length [zero_context] \<le> length (running ?start (current_level ?start))"
    by (simp_all add: TaskManager_start_def NewTask_def no_tasks_def task_ops Let_def kMaxLevel_def)
  from tasks_take_turns [OF TaskManager_start_ok this(1) refl this(2)] show ?thesis by auto
qed

text \<open>
  Exit codes. When a task finishes while another waits for it, it leaves the table, the waiting
  task can run again, and when that task looks, in whatever state this is, it gets the exit code,
  which is then forgotten; until then it sleeps.
\<close>

lemma exit_code_delivered:
  assumes ok: "tasks_ok idle tm" and c: "CurrentTask tm = Some c" "c \<noteq> idle" "c \<notin> ran (finish_waiter tm)"
    and wait: "finish_waiter tm (task_id (task_heap tm c)) = Some p"
  shows "\<exists>tm1. Finish code tm = Some tm1 \<and> tasks_ok idle tm1 \<and> c \<notin> set (tasks tm1) \<and> runnable tm1 p \<and>
    (\<forall>tm2. CurrentTask tm2 = Some p \<and> finish_tasks tm2 = finish_tasks tm1 \<longrightarrow>
       WaitFinish (task_id (task_heap tm c)) tm2 = Some (Returns code,
         tm2\<lparr>finish_tasks := (finish_tasks tm2)(task_id (task_heap tm c) := None)\<rparr>))"
proof -
  from Finish_ok [OF ok c, of code] obtain tm1 where f: "Finish code tm = Some tm1" "tasks_ok idle tm1"
    "tasks tm1 = remove1 c (tasks tm)" "finish_tasks tm1 = (finish_tasks tm)(task_id (task_heap tm c) \<mapsto> code)"
    "\<forall>q. finish_waiter tm (task_id (task_heap tm c)) = Some q \<longrightarrow> runnable tm1 q" by blast
  have "distinct (tasks tm)" using tasks_okD(1) [OF ok] by (simp add: table_tasks_ok_def)
  then have "c \<notin> set (tasks tm1)" by (simp add: f(3))
  then show ?thesis using f wait by (auto simp: WaitFinish_def)
qed

lemma exit_code_delivered_witness:
  "\<exists>tm tm1. waiting_tasks = Some tm \<and> Finish 7 tm = Some tm1 \<and> runnable tm1 0"
proof -
  obtain tm where tm: "waiting_tasks = Some tm" "CurrentTask tm = Some 2" "finish_waiter tm = [3 \<mapsto> 0]"
    "task_id (task_heap tm 2) = 3" "tasks_ok 1 tm"
    by (rule waiting_tasks_run)
  then have "finish_waiter tm (task_id (task_heap tm 2)) = Some 0" "2 \<notin> ran (finish_waiter tm)" "2 \<noteq> (1 :: nat)"
    by simp_all
  from exit_code_delivered [OF tm(5,2) this(3,2,1), of 7] tm(1) show ?thesis by blast
qed

end
