(* ===== verification/Timer.thy ===== *)
theory Timer
  imports TaskManager
begin

text \<open>
  \<^verbatim>\<open>kernel/timer.cpp\<close>: the queue of timers, the tick of the timer interrupt, and the task switch
  every second tick. The priority queue of the library is a list in the order of the timeouts;
  which of several timers with the same timeout comes first is not specified there, and no theorem
  depends on it.
\<close>

section \<open>Data\<close>

record Timer =
  timeout :: u64
  timer_value :: int
  timer_task :: u64

definition kTaskTimerPeriod :: u64 where "kTaskTimerPeriod = 2"
definition kTaskTimerValue :: int where "kTaskTimerValue = 2147483647"

record timer_state = task_state +
  current_tick :: u64
  timer_queue :: "Timer list"

fun timer_push :: "Timer \<Rightarrow> Timer list \<Rightarrow> Timer list" where
  "timer_push t [] = [t]"
| "timer_push t (u # us) = (if timeout t < timeout u then t # u # us else u # timer_push t us)"

section \<open>Operations\<close>

definition TimerManager_queue :: "Timer list" where
  "TimerManager_queue = timer_push \<lparr>timeout = - 1, timer_value = 0, timer_task = 0\<rparr> []"

definition AddTimer :: "Timer \<Rightarrow> 'a timer_state_scheme \<Rightarrow> 'a timer_state_scheme" where
  "AddTimer t w = w\<lparr>timer_queue := timer_push t (timer_queue w)\<rparr>"

definition timeout_message :: "Timer \<Rightarrow> message" where
  "timeout_message t =
     \<lparr>msg_type = kTimerTimeout, src_task = 0, msg_arg = ArgTimer (timeout t) (timer_value t)\<rparr>"

text \<open>The loop of \<^verbatim>\<open>Tick\<close>. It need not end: a task timer whose new timeout wraps around is due again.\<close>

partial_function (option) tick_loop :: "bool \<Rightarrow> 'a timer_state_scheme \<Rightarrow> (bool \<times> 'a timer_state_scheme) option" where
  "tick_loop task_timer_timeout w =
     (case timer_queue w of
        [] \<Rightarrow> None
      | t # ts \<Rightarrow>
          if current_tick w < timeout t then Some (task_timer_timeout, w)
          else if timer_value t = kTaskTimerValue then
            tick_loop True (w\<lparr>timer_queue :=
              timer_push \<lparr>timeout = current_tick w + kTaskTimerPeriod, timer_value = kTaskTimerValue, timer_task = 1\<rparr> ts\<rparr>)
          else (case SendMessage (timer_task t) (timeout_message t) w of
              None \<Rightarrow> None
            | Some (e, w1) \<Rightarrow> tick_loop task_timer_timeout (w1\<lparr>timer_queue := ts\<rparr>)))"

definition Tick :: "'a timer_state_scheme \<Rightarrow> (bool \<times> 'a timer_state_scheme) option" where
  "Tick w = tick_loop False (w\<lparr>current_tick := current_tick w + 1\<rparr>)"

definition LAPICTimerOnInterrupt :: "TaskContext \<Rightarrow> 'a timer_state_scheme \<Rightarrow> 'a timer_state_scheme option" where
  "LAPICTimerOnInterrupt ctx_stack w =
     do {
       (task_timer_timeout, w1) \<leftarrow> Tick w;
       if task_timer_timeout then SwitchTask ctx_stack w1 else Some w1
     }"

text \<open>
  \<^verbatim>\<open>InitializeTask\<close>, when the timer interrupt has come \<open>now\<close> times: the task manager and the first
  task timer.
\<close>

definition InitializeTask :: "u64 \<Rightarrow> u64 \<Rightarrow> u64 \<Rightarrow> TaskContext \<Rightarrow> u64 \<Rightarrow> timer_state" where
  "InitializeTask stack_end page_table task_idle regs now =
     AddTimer \<lparr>timeout = now + kTaskTimerPeriod, timer_value = kTaskTimerValue, timer_task = 1\<rparr>
       (task_state.extend (TaskManager_start stack_end page_table task_idle regs)
          \<lparr>current_tick = now, timer_queue = TimerManager_queue\<rparr>)"

section \<open>What a message changes\<close>

lemma Wakeup_rest:
  "Wakeup p level tm = Some tm' \<Longrightarrow>
     task_msgs (task_heap tm' q) = task_msgs (task_heap tm q) \<and> task_state.more tm' = task_state.more tm \<and>
     (runnable tm q \<longrightarrow> runnable tm' q)"
  by (auto simp: Wakeup_def ChangeLevelRunning_def Let_def task_ops runnable_def split: if_splits list.splits)

lemma find_task_unique:
  assumes "tasks_ok idle tm" and "p \<in> set (tasks tm)"
  shows "find_task i tm = Some p \<longleftrightarrow> task_id (task_heap tm p) = i"
proof
  assume "task_id (task_heap tm p) = i"
  with assms(2) obtain q where q: "find_task i tm = Some q"
    by (cases "find_task i tm") (auto simp: find_task_def find_None_iff)
  with find_task_in [OF q] \<open>task_id (task_heap tm p) = i\<close> assms show "find_task i tm = Some p"
    using tasks_okD(1) [OF assms(1)] by (auto simp: table_tasks_ok_def inj_on_def)
qed (use find_task_in in blast)

lemma SendMessage_result:
  assumes ok: "tasks_ok idle tm"
  obtains e tm' where "SendMessage i msg tm = Some (e, tm')" and "tasks_ok idle tm'" and "same_tasks tm tm'"
    and "task_state.more tm' = task_state.more tm"
    and "\<forall>p \<in> set (tasks tm). task_msgs (task_heap tm' p) =
      task_msgs (task_heap tm p) @ (if task_id (task_heap tm p) = i then [msg] else [])"
    and "\<forall>p \<in> set (tasks tm). runnable tm p \<or> task_id (task_heap tm p) = i \<longrightarrow> runnable tm' p"
proof (cases "find_task i tm")
  case None
  then have "\<forall>p \<in> set (tasks tm). task_id (task_heap tm p) \<noteq> i" by (auto simp: find_task_def find_None_iff)
  with None ok that show thesis by (simp add: SendMessage_def same_tasks_def)
next
  case (Some p)
  let ?tm1 = "upd_task p (\<lambda>t. t\<lparr>task_msgs := task_msgs t @ [msg]\<rparr>) tm"
  have same1: "same_tasks tm ?tm1" by (simp add: task_ops same_tasks_def)
  have "tasks_ok idle ?tm1" using ok same1 by (rule tasks_ok_cong) (simp_all add: task_ops)
  moreover have p: "p \<in> set (tasks ?tm1)" using find_task_in [OF Some] by (simp add: task_ops)
  ultimately obtain tm' where w: "Wakeup p (- 1) ?tm1 = Some tm'" "tasks_ok idle tm'" "same_tasks ?tm1 tm'" "runnable tm' p"
    using Wakeup_ok [of idle ?tm1 p "- 1"] by auto
  have iff: "task_id (task_heap tm q) = i \<longleftrightarrow> q = p" if "q \<in> set (tasks tm)" for q
    using find_task_unique [OF ok that, of i] Some by auto
  note rest = Wakeup_rest [OF w(1)]
  show thesis
  proof (rule that)
    show "SendMessage i msg tm = Some (kSuccess, tm')"
      using w(1) Some find_task_in [OF Some] by (simp add: SendMessage_def Task_SendMessage_def)
    show "same_tasks tm tm'" using same1 w(3) by (rule same_tasks_trans)
    show "task_state.more tm' = task_state.more tm" using rest by (simp add: task_ops)
    show "\<forall>q \<in> set (tasks tm). task_msgs (task_heap tm' q) =
      task_msgs (task_heap tm q) @ (if task_id (task_heap tm q) = i then [msg] else [])"
      using rest iff by (auto simp: task_ops)
    have "runnable tm q \<longrightarrow> runnable ?tm1 q" for q by (simp add: runnable_def task_ops)
    then show "\<forall>q \<in> set (tasks tm). runnable tm q \<or> task_id (task_heap tm q) = i \<longrightarrow> runnable tm' q"
      using iff w(4) rest by auto
  qed (rule w(2))
qed


section \<open>The timers that are due\<close>

lemma timer_push_due:
  "\<forall>t \<in> set due. timeout t < timeout u \<Longrightarrow> timer_push u (due @ rest) = due @ timer_push u rest"
  by (induction due) auto

text \<open>What is left in the queue: the renewed task timers are added to \<open>rest\<close>.\<close>

definition renewed :: "u64 \<Rightarrow> Timer list \<Rightarrow> Timer list \<Rightarrow> Timer list" where
  "renewed now due rest =
     fold (\<lambda>t. timer_push \<lparr>timeout = now + kTaskTimerPeriod, timer_value = kTaskTimerValue, timer_task = 1\<rparr>)
       (filter (\<lambda>t. timer_value t = kTaskTimerValue) due) rest"

definition timer_messages :: "Timer list \<Rightarrow> u64 \<Rightarrow> message list" where
  "timer_messages due i =
     map timeout_message (filter (\<lambda>t. timer_value t \<noteq> kTaskTimerValue \<and> timer_task t = i) due)"

lemma timer_fields_of_more:
  assumes "task_state.more w' = task_state.more w"
  shows "current_tick w' = current_tick w" "timer_queue w' = timer_queue w"
  using assms by (cases w; cases w'; simp)+

lemma timer_queue_irrelevant:
  "tasks_ok idle w \<Longrightarrow> tasks_ok idle (w\<lparr>timer_queue := q\<rparr>)"
  "runnable (w\<lparr>timer_queue := q\<rparr>) p = runnable w p"
  "tasks_ok idle w \<Longrightarrow> tasks_ok idle (w\<lparr>current_tick := t\<rparr>)"
  "runnable (w\<lparr>current_tick := t\<rparr>) p = runnable w p"
  by (auto simp: same_tasks_def runnable_def elim!: tasks_ok_cong)

lemma tick_loop_due:
  assumes "tasks_ok idle w" and "current_tick w < current_tick w + kTaskTimerPeriod"
    and "timer_queue w = due @ rest" and "\<forall>t \<in> set due. timeout t \<le> current_tick w"
    and "rest \<noteq> []" and "current_tick w < timeout (hd rest)"
  shows "\<exists>w'. tick_loop b w = Some (b \<or> (\<exists>t \<in> set due. timer_value t = kTaskTimerValue), w') \<and>
    tasks_ok idle w' \<and> tasks w' = tasks w \<and> current_tick w' = current_tick w \<and>
    timer_queue w' = renewed (current_tick w) due rest \<and>
    (\<forall>p \<in> set (tasks w). task_msgs (task_heap w' p) =
       task_msgs (task_heap w p) @ timer_messages due (task_id (task_heap w p)) \<and>
       (runnable w p \<or> timer_messages due (task_id (task_heap w p)) \<noteq> [] \<longrightarrow> runnable w' p))"
  using assms
proof (induction due arbitrary: w b rest)
  case Nil
  then obtain r rs where r: "rest = r # rs" by (cases rest) auto
  with Nil show ?case
    by (subst tick_loop.simps) (simp add: renewed_def timer_messages_def)
next
  case (Cons t due)
  let ?now = "current_tick w"
  let ?new = "\<lparr>timeout = ?now + kTaskTimerPeriod, timer_value = kTaskTimerValue, timer_task = 1\<rparr>"
  have due: "\<not> ?now < timeout t" "\<forall>t \<in> set due. timeout t \<le> ?now" using Cons.prems(4) by auto
  show ?case
  proof (cases "timer_value t = kTaskTimerValue")
    case True
    let ?w = "w\<lparr>timer_queue := due @ timer_push ?new rest\<rparr>"
    have "\<forall>t \<in> set due. timeout t < timeout ?new" using due(2) Cons.prems(2) by (auto intro: le_less_trans)
    then have push: "timer_push ?new (due @ rest) = due @ timer_push ?new rest" by (rule timer_push_due)
    have step: "tick_loop b w = tick_loop True ?w"
      using due(1) True Cons.prems(3) by (subst tick_loop.simps) (simp add: push)
    have "timer_push ?new rest \<noteq> []" "?now < timeout (hd (timer_push ?new rest))"
      using Cons.prems(2,5,6) by (cases rest; simp)+
    then have "\<exists>w'. tick_loop True ?w = Some (True \<or> (\<exists>t \<in> set due. timer_value t = kTaskTimerValue), w') \<and>
      tasks_ok idle w' \<and> tasks w' = tasks ?w \<and> current_tick w' = current_tick ?w \<and>
      timer_queue w' = renewed (current_tick ?w) due (timer_push ?new rest) \<and>
      (\<forall>p \<in> set (tasks ?w). task_msgs (task_heap w' p) =
         task_msgs (task_heap ?w p) @ timer_messages due (task_id (task_heap ?w p)) \<and>
         (runnable ?w p \<or> timer_messages due (task_id (task_heap ?w p)) \<noteq> [] \<longrightarrow> runnable w' p))"
      using Cons.prems(1,2) due(2) by (intro Cons.IH) (simp_all add: timer_queue_irrelevant)
    then show ?thesis
      unfolding step using True by (simp add: renewed_def timer_messages_def timer_queue_irrelevant)
  next
    case False
    obtain e w1 where m: "SendMessage (timer_task t) (timeout_message t) w = Some (e, w1)" "tasks_ok idle w1"
      "same_tasks w w1" "task_state.more w1 = task_state.more w"
      "\<forall>p \<in> set (tasks w). task_msgs (task_heap w1 p) =
        task_msgs (task_heap w p) @ (if task_id (task_heap w p) = timer_task t then [timeout_message t] else [])"
      "\<forall>p \<in> set (tasks w). runnable w p \<or> task_id (task_heap w p) = timer_task t \<longrightarrow> runnable w1 p"
      by (rule SendMessage_result [OF Cons.prems(1)])
    let ?w = "w1\<lparr>timer_queue := due @ rest\<rparr>"
    have step: "tick_loop b w = tick_loop b ?w"
      using due(1) False Cons.prems(3) m(1) by (subst tick_loop.simps) simp
    have same: "tasks ?w = tasks w" "current_tick ?w = ?now" "task_id (task_heap ?w p) = task_id (task_heap w p)" for p
      using m(3) timer_fields_of_more [OF m(4)] by (simp_all add: same_tasks_def)
    have "\<exists>w'. tick_loop b ?w = Some (b \<or> (\<exists>t \<in> set due. timer_value t = kTaskTimerValue), w') \<and>
      tasks_ok idle w' \<and> tasks w' = tasks ?w \<and> current_tick w' = current_tick ?w \<and>
      timer_queue w' = renewed (current_tick ?w) due rest \<and>
      (\<forall>p \<in> set (tasks ?w). task_msgs (task_heap w' p) =
         task_msgs (task_heap ?w p) @ timer_messages due (task_id (task_heap ?w p)) \<and>
         (runnable ?w p \<or> timer_messages due (task_id (task_heap ?w p)) \<noteq> [] \<longrightarrow> runnable w' p))"
      using Cons.prems(2,5,6) due(2) m(2) by (intro Cons.IH) (simp_all only: same, simp_all add: timer_queue_irrelevant)
    then obtain w' where w': "tick_loop b ?w = Some (b \<or> (\<exists>t \<in> set due. timer_value t = kTaskTimerValue), w')"
      "tasks_ok idle w'" "tasks w' = tasks w" "current_tick w' = ?now" "timer_queue w' = renewed ?now due rest"
      "\<forall>p \<in> set (tasks w). task_msgs (task_heap w' p) =
         task_msgs (task_heap w1 p) @ timer_messages due (task_id (task_heap w p)) \<and>
         (runnable w1 p \<or> timer_messages due (task_id (task_heap w p)) \<noteq> [] \<longrightarrow> runnable w' p)"
      unfolding same timer_queue_irrelevant by auto
    have msgs: "timer_messages (t # due) i = (if i = timer_task t then [timeout_message t] else []) @ timer_messages due i" for i
      using False by (simp add: timer_messages_def)
    have "renewed ?now (t # due) rest = renewed ?now due rest" using False by (simp add: renewed_def)
    then show ?thesis
      unfolding step w'(1) msgs using w'(2-6) m(5,6) False by auto
  qed
qed


lemma set_timer_push: "set (timer_push t ts) = insert t (set ts)"
  by (induction ts) auto

lemma sorted_timer_push: "sorted (map timeout ts) \<Longrightarrow> sorted (map timeout (timer_push t ts))"
  by (induction ts) (auto simp: set_timer_push not_less intro: less_imp_le)

lemma sorted_renewed: "sorted (map timeout rest) \<Longrightarrow> sorted (map timeout (renewed now due rest))"
  unfolding renewed_def by (induction due arbitrary: rest) (simp_all add: sorted_timer_push)

lemma tasks_ok_extend: "tasks_ok idle (task_state.extend s x) = tasks_ok idle s" for s :: task_state
  by (simp add: task_state.defs tasks_ok_def table_tasks_ok_def queues_hold_def level_ok_def runnable_def)

lemma InitializeTask_ok: "tasks_ok 1 (InitializeTask stack_end page_table task_idle regs now)"
  unfolding InitializeTask_def AddTimer_def
  by (intro timer_queue_irrelevant(1)) (simp only: tasks_ok_extend TaskManager_start_ok)

section \<open>Claims\<close>

text \<open>
  C23: the timer interrupt. Each timer that is due at the new tick, and no other, sends its message,
  in the order of the timeouts, to its task, which can run afterwards; a task timer that is due
  is set again for two ticks later and makes the interrupt switch tasks. The interrupt returns and
  the queue stays sorted, as long as the tick counter does not wrap around and a later timer is
  in the queue.
\<close>

theorem timer_interrupt:
  assumes ok: "tasks_ok idle w" and now: "now = current_tick w + 1" "now < now + kTaskTimerPeriod"
    and due: "due = takeWhile (\<lambda>t. timeout t \<le> now) (timer_queue w)"
    and rest: "rest = dropWhile (\<lambda>t. timeout t \<le> now) (timer_queue w)" "rest \<noteq> []"
    and sort: "sorted (map timeout (timer_queue w))"
  shows "\<exists>w1 w'. Tick w = Some (\<exists>t \<in> set due. timer_value t = kTaskTimerValue, w1) \<and>
    (\<forall>p \<in> set (tasks w). task_msgs (task_heap w1 p) =
       task_msgs (task_heap w p) @ timer_messages due (task_id (task_heap w p)) \<and>
       (runnable w p \<or> timer_messages due (task_id (task_heap w p)) \<noteq> [] \<longrightarrow> runnable w1 p)) \<and>
    timer_queue w1 = renewed now due rest \<and> sorted (map timeout (timer_queue w1)) \<and>
    LAPICTimerOnInterrupt regs w = Some w' \<and> tasks_ok idle w' \<and>
    (if \<exists>t \<in> set due. timer_value t = kTaskTimerValue then SwitchTask regs w1 = Some w' else w' = w1)"
proof -
  let ?w = "w\<lparr>current_tick := now\<rparr>"
  let ?switch = "\<exists>t \<in> set due. timer_value t = kTaskTimerValue"
  have split: "timer_queue ?w = due @ rest" by (simp add: due rest)
  have "\<forall>t \<in> set due. timeout t \<le> current_tick ?w" using due by (auto dest: set_takeWhileD)
  moreover have "current_tick ?w < timeout (hd rest)"
    using rest hd_dropWhile [of "\<lambda>t. timeout t \<le> now" "timer_queue w"] by auto
  ultimately obtain w1 where w1: "tick_loop False ?w = Some (?switch, w1)" "tasks_ok idle w1"
    "timer_queue w1 = renewed now due rest"
    "\<forall>p \<in> set (tasks w). task_msgs (task_heap w1 p) =
       task_msgs (task_heap w p) @ timer_messages due (task_id (task_heap w p)) \<and>
       (runnable w p \<or> timer_messages due (task_id (task_heap w p)) \<noteq> [] \<longrightarrow> runnable w1 p)"
    using tick_loop_due [of idle ?w due rest False] ok now(2) split rest(2) by (auto simp: timer_queue_irrelevant)
  have tick: "Tick w = Some (?switch, w1)" using w1(1) by (simp add: Tick_def now(1))
  have "sorted (map timeout rest)" using sort unfolding rest(1) by (metis sorted_wrt_append map_append takeWhile_dropWhile_id)
  then have sorted: "sorted (map timeout (timer_queue w1))" unfolding w1(3) by (rule sorted_renewed)
  show ?thesis
  proof (cases ?switch)
    case True
    from SwitchTask_ok [OF w1(2), of regs] obtain w' where "SwitchTask regs w1 = Some w'" "tasks_ok idle w'" by blast
    with True tick w1 sorted show ?thesis by (simp add: LAPICTimerOnInterrupt_def)
  next
    case False
    with tick w1 sorted show ?thesis by (simp add: LAPICTimerOnInterrupt_def)
  qed
qed

theorem timer_interrupt_witness:
  "\<exists>w'. LAPICTimerOnInterrupt zero_context ((InitializeTask 0x8000 0 0 zero_context 0)\<lparr>current_tick := 1\<rparr>) = Some w' \<and>
     tasks_ok 1 w'"
proof -
  let ?w = "(InitializeTask 0x8000 0 0 zero_context 0)\<lparr>current_tick := 1\<rparr>"
  let ?P = "\<lambda>t. timeout t \<le> (2 :: u64)"
  have q: "timer_queue ?w = [\<lparr>timeout = 2, timer_value = kTaskTimerValue, timer_task = 1\<rparr>,
      \<lparr>timeout = - 1, timer_value = 0, timer_task = 0\<rparr>]"
    by (simp add: InitializeTask_def AddTimer_def TimerManager_queue_def task_state.defs kTaskTimerPeriod_def)
  have "tasks_ok 1 ?w" by (intro timer_queue_irrelevant InitializeTask_ok)
  moreover have "(2 :: u64) = current_tick ?w + 1" "(2 :: u64) < 2 + kTaskTimerPeriod"
    "dropWhile ?P (timer_queue ?w) \<noteq> []" "sorted (map timeout (timer_queue ?w))"
    unfolding q
    by (simp_all add: kTaskTimerPeriod_def word_le_nat_alt unsigned_minus_1_eq_mask mask_eq_exp_minus_1)
  ultimately show ?thesis
    using timer_interrupt [of 1 ?w 2 "takeWhile ?P (timer_queue ?w)" "dropWhile ?P (timer_queue ?w)" zero_context]
    by blast
qed

end
