(* ===== verification/Fat.thy ===== *)
theory Fat
  imports Prelude MemoryManager
begin

text \<open>
  \<^verbatim>\<open>kernel/fat.cpp\<close>, the volume: its areas, the file allocation table and the chains of clusters in
  it. The image in memory is split into the table and the clusters; \<open>cluster_areas\<close> shows that the
  addresses the code computes keep them apart. An access outside the table or the clusters is \<open>None\<close>.
\<close>

section \<open>Data\<close>

text \<open>The boot sector, with which the image starts.\<close>

record BPB =
  jump_boot :: "u8 list"
  oem_name :: "u8 list"
  bytes_per_sector :: u16
  sectors_per_cluster :: u8
  reserved_sector_count :: u16
  num_fats :: u8
  root_entry_count :: u16
  total_sectors_16 :: u16
  media :: u8
  fat_size_16 :: u16
  sectors_per_track :: u16
  num_heads :: u16
  hidden_sectors :: u32
  total_sectors_32 :: u32
  fat_size_32 :: u32
  ext_flags :: u16
  fs_version :: u16
  root_cluster :: u32
  fs_info :: u16
  backup_boot_sector :: u16
  reserved :: "u8 list"
  drive_number :: u8
  reserved1 :: u8
  boot_signature :: u8
  volume_id :: u32
  volume_label :: "u8 list"
  fs_type :: "u8 list"

record volume = BPB +
  fat_table :: "u32 list"
  cluster_data :: "nat \<Rightarrow> u8 list"

definition bytes_per_cluster :: "'a BPB_scheme \<Rightarrow> nat" where
  "bytes_per_cluster v = unat (bytes_per_sector v) * unat (sectors_per_cluster v)"

definition kEndOfClusterchain :: nat where "kEndOfClusterchain = 0x0fffffff"

text \<open>Addresses, from the start of the image on.\<close>

definition GetClusterAddr :: "u64 \<Rightarrow> 'a BPB_scheme \<Rightarrow> u64" where
  "GetClusterAddr cluster v =
     (let sector_num = ucast (ucast (reserved_sector_count v) + ucast (num_fats v) * fat_size_32 v) +
                       (cluster - 2) * ucast (sectors_per_cluster v)
      in sector_num * ucast (bytes_per_sector v))"

text \<open>The product of the two 16-bit members is an \<^verbatim>\<open>int\<close>, widened with its sign.\<close>

definition fat_offset :: "'a BPB_scheme \<Rightarrow> u64" where
  "fat_offset v = scast (ucast (reserved_sector_count v) * ucast (bytes_per_sector v) :: u32)"

section \<open>The table\<close>

definition IsEndOfClusterchain :: "nat \<Rightarrow> bool" where
  "IsEndOfClusterchain cluster \<longleftrightarrow> 0x0ffffff8 \<le> cluster"

definition fat_entry :: "nat \<Rightarrow> 'a volume_scheme \<Rightarrow> nat option" where
  "fat_entry c v = (if c < length (fat_table v) then Some (unat (fat_table v ! c)) else None)"

definition NextCluster :: "nat \<Rightarrow> 'a volume_scheme \<Rightarrow> nat option" where
  "NextCluster cluster v =
     map_option (\<lambda>next. if IsEndOfClusterchain next then kEndOfClusterchain else next) (fat_entry cluster v)"

text \<open>The first loop of \<^verbatim>\<open>ExtendCluster\<close>; on a chain that is a circle it does not end.\<close>

partial_function (option) chain_end :: "nat \<Rightarrow> 'a volume_scheme \<Rightarrow> nat option" where
  "chain_end eoc_cluster v =
     (case fat_entry eoc_cluster v of
        None \<Rightarrow> None
      | Some next \<Rightarrow> if IsEndOfClusterchain next then Some eoc_cluster else chain_end next v)"

text \<open>
  The second loop, with \<open>n\<close> clusters still to allocate. The code has no bound for the candidate: a
  volume without a free cluster makes it leave the table.
\<close>

function extend_loop :: "nat \<Rightarrow> nat \<Rightarrow> nat \<Rightarrow> u32 list \<Rightarrow> (nat \<times> u32 list) option" where
  "extend_loop current candidate n fat =
     (if n = 0 then Some (current, fat)
      else if length fat \<le> candidate then None
      else if fat ! candidate \<noteq> 0 then extend_loop current (Suc candidate) n fat
      else extend_loop candidate (Suc candidate) (n - 1) (fat[current := of_nat candidate]))"
  by pat_completeness auto
termination
  by (relation "measure (\<lambda>(current, candidate, n, fat). length fat - candidate)") auto

declare extend_loop.simps [simp del]

definition ExtendCluster :: "nat \<Rightarrow> nat \<Rightarrow> 'a volume_scheme \<Rightarrow> (nat \<times> 'a volume_scheme) option" where
  "ExtendCluster eoc_cluster n v =
     (case chain_end eoc_cluster v of
        None \<Rightarrow> None
      | Some last_cluster \<Rightarrow>
          (case extend_loop last_cluster 2 n (fat_table v) of
             None \<Rightarrow> None
           | Some (current, fat) \<Rightarrow>
               Some (current, v\<lparr>fat_table := fat[current := of_nat kEndOfClusterchain]\<rparr>)))"

text \<open>The first free cluster from \<open>c\<close> on, in the table.\<close>

function free_cluster :: "nat \<Rightarrow> u32 list \<Rightarrow> nat option" where
  "free_cluster c fat =
     (if length fat \<le> c then None else if fat ! c = 0 then Some c else free_cluster (Suc c) fat)"
  by pat_completeness auto
termination
  by (relation "measure (\<lambda>(c, fat). length fat - c)") auto

declare free_cluster.simps [simp del]

definition AllocateClusterChain :: "nat \<Rightarrow> 'a volume_scheme \<Rightarrow> (nat \<times> 'a volume_scheme) option" where
  "AllocateClusterChain n v =
     (case free_cluster 2 (fat_table v) of
        None \<Rightarrow> None
      | Some first \<Rightarrow>
          let v1 = v\<lparr>fat_table := (fat_table v)[first := of_nat kEndOfClusterchain]\<rparr>
          in if 1 < n then map_option (\<lambda>(l, v2). (first, v2)) (ExtendCluster first (n - 1) v1)
             else Some (first, v1))"

section \<open>Chains\<close>

text \<open>The list of the clusters of a chain.\<close>

fun fat_chain :: "u32 list \<Rightarrow> nat list \<Rightarrow> bool" where
  "fat_chain fat [] \<longleftrightarrow> False"
| "fat_chain fat [c] \<longleftrightarrow> 2 \<le> c \<and> c < length fat \<and> IsEndOfClusterchain (unat (fat ! c))"
| "fat_chain fat (c # d # cs) \<longleftrightarrow>
     2 \<le> c \<and> c < length fat \<and> unat (fat ! c) = d \<and> \<not> IsEndOfClusterchain d \<and> fat_chain fat (d # cs)"

lemma chain_nonempty: "fat_chain fat cs \<Longrightarrow> cs \<noteq> []"
  by auto

lemma chain_range: "fat_chain fat cs \<Longrightarrow> c \<in> set cs \<Longrightarrow> 2 \<le> c \<and> c < length fat"
  by (induction fat cs rule: fat_chain.induct) auto

lemma chain_used: "fat_chain fat cs \<Longrightarrow> c \<in> set cs \<Longrightarrow> fat ! c \<noteq> 0"
proof (induction fat cs rule: fat_chain.induct)
  case (3 fat c' d cs)
  then show ?case using chain_range [of fat "d # cs" d] by (auto simp: unat_eq_0 [symmetric])
qed (auto simp: IsEndOfClusterchain_def)

text \<open>A suffix of a chain is a chain; two chains that start alike are equal.\<close>

lemma chain_suffix: "fat_chain fat (cs @ ds) \<Longrightarrow> ds \<noteq> [] \<Longrightarrow> fat_chain fat ds"
proof (induction cs)
  case (Cons c cs)
  then show ?case by (cases "cs @ ds") auto
qed simp

lemma chain_unique: "fat_chain fat (c # cs) \<Longrightarrow> fat_chain fat (c # ds) \<Longrightarrow> cs = ds"
proof (induction cs arbitrary: c ds)
  case Nil
  then show ?case by (cases ds) auto
next
  case (Cons d cs)
  then obtain es where es: "ds = d # es" by (cases ds) auto
  with Cons.IH [of d es] Cons.prems show ?case by simp
qed

lemma chain_distinct: "fat_chain fat cs \<Longrightarrow> distinct cs"
proof (induction fat cs rule: fat_chain.induct)
  case (3 fat c d cs)
  have "c \<notin> set (d # cs)"
  proof
    assume "c \<in> set (d # cs)"
    then obtain xs ys where s: "d # cs = xs @ c # ys" by (metis split_list)
    then have "fat_chain fat (c # ys)" using chain_suffix [of fat "c # xs" "c # ys"] "3.prems" by simp
    then have "ys = d # cs" using chain_unique "3.prems" by blast
    then have "length (d # cs) = length xs + Suc (length (d # cs))" using s by (metis length_append length_Cons)
    then show False by simp
  qed
  with 3 show ?case by simp
qed auto

text \<open>A chain depends on its own entries only.\<close>

lemma fat_chain_cong:
  "fat_chain fat cs \<Longrightarrow> length fat' = length fat \<Longrightarrow> (\<And>c. c \<in> set cs \<Longrightarrow> fat' ! c = fat ! c) \<Longrightarrow> fat_chain fat' cs"
  by (induction fat cs rule: fat_chain.induct) auto

lemma chain_next:
  assumes "fat_chain (fat_table v) cs" and "k < length cs"
  shows "NextCluster (cs ! k) v = Some (if Suc k < length cs then cs ! Suc k else kEndOfClusterchain)"
proof -
  have "k < length cs \<Longrightarrow> fat_table v = fat \<Longrightarrow> ?thesis" if "fat_chain fat cs" for fat
    using that
  proof (induction fat cs arbitrary: k rule: fat_chain.induct)
    case (2 fat c)
    then show ?case by (simp add: NextCluster_def fat_entry_def)
  next
    case (3 fat c d cs)
    show ?case
    proof (cases k)
      case 0
      with 3 show ?thesis by (auto simp: NextCluster_def fat_entry_def)
    next
      case (Suc m)
      with 3 show ?thesis by simp
    qed
  qed simp
  with assms show ?thesis by blast
qed

lemma chain_end_last:
  assumes "fat_chain (fat_table v) cs" and "c \<in> set cs"
  shows "chain_end c v = Some (last cs)"
proof -
  have "c \<in> set cs \<Longrightarrow> fat_table v = fat \<Longrightarrow> ?thesis" if "fat_chain fat cs" for fat
    using that
  proof (induction fat cs arbitrary: c rule: fat_chain.induct)
    case (2 fat c')
    then show ?case by (subst chain_end.simps) (simp add: fat_entry_def)
  next
    case (3 fat c' d cs)
    show ?case
    proof (cases "c = c'")
      case True
      have "chain_end d v = Some (last (d # cs))" using 3 by simp
      with 3 True show ?thesis by (subst chain_end.simps) (auto simp: fat_entry_def)
    next
      case False
      with 3 show ?thesis by simp
    qed
  qed simp
  with assms show ?thesis by blast
qed


section \<open>Extending a chain\<close>

definition free_from :: "nat \<Rightarrow> u32 list \<Rightarrow> nat list" where
  "free_from c fat = filter (\<lambda>i. fat ! i = 0) [c..<length fat]"

text \<open>The entries that link the clusters after \<open>c\<close>.\<close>

fun links :: "nat \<Rightarrow> nat list \<Rightarrow> u32 list \<Rightarrow> u32 list" where
  "links c [] fat = fat"
| "links c (d # ds) fat = links d ds (fat[c := of_nat d])"

lemma length_links [simp]: "length (links c ds fat) = length fat"
  by (induction c ds fat rule: links.induct) auto

lemma links_other: "i \<notin> set (c # butlast ds) \<Longrightarrow> links c ds fat ! i = fat ! i \<or> ds = []"
proof (induction c ds fat rule: links.induct)
  case (2 c d ds fat)
  then show ?case by (cases ds) auto
qed simp

lemma free_from_step:
  "free_from c fat = (if length fat \<le> c then [] else if fat ! c = 0 then c # free_from (Suc c) fat else free_from (Suc c) fat)"
  by (cases "c < length fat") (simp_all add: free_from_def upt_conv_Cons)

lemma free_from_update:
  assumes "c < k \<or> fat ! c \<noteq> 0" and "d \<noteq> 0"
  shows "free_from k (fat[c := d]) = free_from k fat"
  unfolding free_from_def length_list_update
proof (rule filter_cong [OF refl])
  fix i assume "i \<in> set [k..<length fat]"
  then have i: "k \<le> i" "i < length fat" by auto
  show "fat[c := d] ! i = 0 \<longleftrightarrow> fat ! i = 0"
    using assms i by (cases "i = c") (auto simp: nth_list_update)
qed

lemma extend_loop_links:
  assumes "length fat \<le> 0x0ffffff8" and "0 < candidate" and "current < candidate \<or> fat ! current \<noteq> 0"
  shows "extend_loop current candidate n fat =
    (if n \<le> length (free_from candidate fat)
     then Some (last (current # take n (free_from candidate fat)), links current (take n (free_from candidate fat)) fat)
     else None)"
  using assms
proof (induction current candidate n fat rule: extend_loop.induct)
  case (1 current candidate n fat)
  show ?case
  proof (cases "n = 0 \<or> length fat \<le> candidate")
    case True
    then show ?thesis by (subst extend_loop.simps) (auto simp: free_from_step [of candidate])
  next
    case inside: False
    show ?thesis
    proof (cases "fat ! candidate = 0")
      case used: False
      with inside 1 show ?thesis
        by (subst extend_loop.simps) (auto simp: free_from_step [of candidate])
    next
      case free: True
      let ?fat = "fat[current := of_nat candidate]"
      have "candidate < 0x0ffffff8" using inside "1.prems"(1) by simp
      then have "unat (of_nat candidate :: u32) = candidate" by simp
      then have nz: "(of_nat candidate :: u32) \<noteq> 0" using "1.prems"(2) by (metis less_irrefl unat_0)
      have "current < Suc candidate \<or> fat ! current \<noteq> 0" using "1.prems"(3) by auto
      from free_from_update [OF this nz] have eq: "free_from (Suc candidate) ?fat = free_from (Suc candidate) fat" .
      obtain m where m: "n = Suc m" using inside by (cases n) auto
      have "extend_loop candidate (Suc candidate) m ?fat =
        (if m \<le> length (free_from (Suc candidate) fat)
         then Some (last (candidate # take m (free_from (Suc candidate) fat)),
           links candidate (take m (free_from (Suc candidate) fat)) ?fat) else None)"
        using "1.IH"(2) inside free "1.prems" m eq by simp
      then show ?thesis
        using inside free m by (subst extend_loop.simps) (auto simp: free_from_step [of candidate])
    qed
  qed
qed

lemma links_chain:
  assumes "distinct (c # ds)" and "\<forall>x \<in> set (c # ds). 2 \<le> x \<and> x < length fat" and "length fat \<le> 0x0ffffff8"
  shows "fat_chain ((links c ds fat)[last (c # ds) := of_nat kEndOfClusterchain]) (c # ds)"
  using assms
proof (induction c ds fat rule: links.induct)
  case (1 c fat)
  then show ?case by (simp add: IsEndOfClusterchain_def kEndOfClusterchain_def)
next
  case (2 c d ds fat)
  let ?f = "(links d ds (fat[c := of_nat d]))[last (d # ds) := of_nat kEndOfClusterchain]"
  have ch: "fat_chain ?f (d # ds)" using 2 by simp
  have d: "d < 0x0ffffff8" "c < length fat" using "2.prems" by auto
  have "c \<noteq> last (d # ds)" using "2.prems"(1) by (metis distinct.simps(2) last_in_set list.distinct(1))
  moreover have "links d ds (fat[c := of_nat d]) ! c = of_nat d"
  proof (cases ds)
    case (Cons e es)
    have "c \<notin> set (d # butlast ds)" using "2.prems"(1) by (auto dest: in_set_butlastD)
    from links_other [OF this, of "fat[c := of_nat d]"] Cons d(2) show ?thesis by simp
  qed (use d(2) in simp)
  ultimately have "?f ! c = of_nat d" by simp
  then have "unat (?f ! c) = d" using d(1) by simp
  with ch d "2.prems" show ?case by (simp add: IsEndOfClusterchain_def)
qed

lemma chain_join:
  assumes "fat_chain fat (xs @ [c])" and "fat_chain fat' (c # ds)" and "length fat' = length fat"
    and "\<forall>x \<in> set xs. fat' ! x = fat ! x"
  shows "fat_chain fat' (xs @ c # ds)"
  using assms(1,4)
proof (induction xs)
  case Nil
  with assms(2) show ?case by simp
next
  case (Cons x xs)
  then show ?case using assms(3) by (cases xs) (auto simp: neq_Nil_conv)
qed

text \<open>\<^verbatim>\<open>ExtendCluster\<close> adds the first free clusters of the table, and changes no other chain.\<close>

lemma free_from_props: "set (free_from 2 fat) = {i. 2 \<le> i \<and> i < length fat \<and> fat ! i = 0}" "distinct (free_from 2 fat)"
  by (auto simp: free_from_def)

lemma ExtendCluster_chain:
  assumes ch: "fat_chain (fat_table v) cs" and c: "c \<in> set cs" and len: "length (fat_table v) \<le> 0x0ffffff8"
    and new_def: "new = take n (free_from 2 (fat_table v))"
  shows "if n \<le> length (free_from 2 (fat_table v))
     then \<exists>fat. ExtendCluster c n v = Some (last (cs @ new), v\<lparr>fat_table := fat\<rparr>) \<and> length fat = length (fat_table v) \<and>
       fat_chain fat (cs @ new) \<and> (\<forall>i. i \<notin> set (last cs # new) \<longrightarrow> fat ! i = fat_table v ! i)
     else ExtendCluster c n v = None"
proof -
  let ?fat = "fat_table v" and ?l = "last cs"
  have cs: "cs \<noteq> []" using ch by auto
  then have l: "?l \<in> set cs" by simp
  have used: "?fat ! ?l \<noteq> 0" using chain_used [OF ch l] .
  have loop: "extend_loop ?l 2 n ?fat =
    (if n \<le> length (free_from 2 ?fat) then Some (last (?l # new), links ?l new ?fat) else None)"
    unfolding new_def using used len by (intro extend_loop_links) auto
  show ?thesis
  proof (cases "n \<le> length (free_from 2 ?fat)")
    case False
    with loop show ?thesis by (simp add: ExtendCluster_def chain_end_last [OF ch c])
  next
    case True
    let ?f = "(links ?l new ?fat)[last (?l # new) := of_nat kEndOfClusterchain]"
    have new: "set new \<subseteq> {i. 2 \<le> i \<and> i < length ?fat \<and> ?fat ! i = 0}" "distinct new"
      unfolding new_def using free_from_props [of ?fat] by (auto dest: in_set_takeD)
    have apart: "set cs \<inter> set new = {}" using chain_used [OF ch] new(1) by auto
    have "fat_chain ?f (?l # new)"
      using new apart l chain_range [OF ch l] len by (intro links_chain) auto
    note tail = this
    have other: "?f ! i = ?fat ! i" if "i \<notin> set (?l # new)" for i
    proof -
      have "i \<noteq> last (?l # new)" using that last_in_set [of "?l # new"] by auto
      moreover have "i \<notin> set (?l # butlast new)" using that by (auto dest: in_set_butlastD)
      ultimately show ?thesis using links_other [of i ?l new ?fat] by (auto split: if_splits)
    qed
    have b: "cs = butlast cs @ [?l]" using cs by simp
    have front: "\<forall>x \<in> set (butlast cs). ?f ! x = ?fat ! x"
    proof
      fix x assume x: "x \<in> set (butlast cs)"
      have "x \<noteq> ?l" using x chain_distinct [OF ch] b by (metis distinct_butlast not_distinct_conv_prefix)
      moreover have "x \<notin> set new" using x apart by (auto dest: in_set_butlastD)
      ultimately show "?f ! x = ?fat ! x" using other by simp
    qed
    have "fat_chain ?fat (butlast cs @ [?l])" using ch cs by simp
    from chain_join [OF this tail _ front] have "fat_chain ?f (butlast cs @ ?l # new)" by simp
    moreover have "butlast cs @ ?l # new = cs @ new" using b by (metis append_Cons append_Nil append_assoc)
    ultimately have "fat_chain ?f (cs @ new)" by simp
    moreover have "last (?l # new) = last (cs @ new)" using cs by (simp add: last_append)
    moreover have "ExtendCluster c n v = Some (last (?l # new), v\<lparr>fat_table := ?f\<rparr>)"
      using loop True by (simp add: ExtendCluster_def chain_end_last [OF ch c])
    ultimately show ?thesis using True other by (simp only: if_True) (intro exI [of _ ?f], simp)
  qed
qed


text \<open>
  C29: \<^verbatim>\<open>ExtendCluster\<close>, called with any cluster of a chain, appends the first free clusters of the
  table to the chain and returns the last one. It returns exactly when enough clusters are free. No
  other entry of the table and no other chain changes.
\<close>

lemma fat_chain_extended:
  assumes ch: "fat_chain (fat_table v) cs" and c: "c \<in> set cs" and len: "length (fat_table v) \<le> 0x0ffffff8"
    and new: "new = take n (free_from 2 (fat_table v))"
  shows "(n \<le> length (free_from 2 (fat_table v)) \<longrightarrow>
      (\<exists>fat. ExtendCluster c n v = Some (last (cs @ new), v\<lparr>fat_table := fat\<rparr>) \<and> length fat = length (fat_table v) \<and>
        fat_chain fat (cs @ new) \<and> (\<forall>i. i \<notin> set (last cs # new) \<longrightarrow> fat ! i = fat_table v ! i) \<and>
        (\<forall>ds. fat_chain (fat_table v) ds \<and> set ds \<inter> set cs = {} \<longrightarrow> fat_chain fat ds))) \<and>
    (length (free_from 2 (fat_table v)) < n \<longrightarrow> ExtendCluster c n v = None)"
proof (cases "n \<le> length (free_from 2 (fat_table v))")
  case True
  with ExtendCluster_chain [OF ch c len new] obtain fat where
    fat: "ExtendCluster c n v = Some (last (cs @ new), v\<lparr>fat_table := fat\<rparr>)" "length fat = length (fat_table v)"
      "fat_chain fat (cs @ new)" "\<forall>i. i \<notin> set (last cs # new) \<longrightarrow> fat ! i = fat_table v ! i" by auto
  have "fat_chain fat ds" if ds: "fat_chain (fat_table v) ds" "set ds \<inter> set cs = {}" for ds
  proof (rule fat_chain_cong [OF ds(1) fat(2)])
    fix i assume i: "i \<in> set ds"
    then have "fat_table v ! i \<noteq> 0" using chain_used [OF ds(1)] by blast
    moreover have "fat_table v ! x = 0" if "x \<in> set new" for x
      using that in_set_takeD free_from_props(1) [of "fat_table v"] unfolding new by fastforce
    moreover have "i \<noteq> last cs" using i ds(2) last_in_set [OF chain_nonempty [OF ch]] by auto
    ultimately have "i \<notin> set (last cs # new)" by auto
    with fat(4) show "fat ! i = fat_table v ! i" by blast
  qed
  with fat have "\<exists>fat. ExtendCluster c n v = Some (last (cs @ new), v\<lparr>fat_table := fat\<rparr>) \<and> length fat = length (fat_table v) \<and>
      fat_chain fat (cs @ new) \<and> (\<forall>i. i \<notin> set (last cs # new) \<longrightarrow> fat ! i = fat_table v ! i) \<and>
      (\<forall>ds. fat_chain (fat_table v) ds \<and> set ds \<inter> set cs = {} \<longrightarrow> fat_chain fat ds)" by blast
  with True show ?thesis by (simp only: simp_thms not_less [symmetric] if_True)
next
  case False
  with ExtendCluster_chain [OF ch c len new] show ?thesis by auto
qed

definition sample_bpb :: "u16 \<Rightarrow> BPB" where
  "sample_bpb bps = \<lparr>jump_boot = [0xeb, 0x58, 0x90], oem_name = replicate 8 0x20, bytes_per_sector = bps,
     sectors_per_cluster = 1, reserved_sector_count = 32, num_fats = 2, root_entry_count = 0, total_sectors_16 = 0,
     media = 0xf8, fat_size_16 = 0, sectors_per_track = 32, num_heads = 8, hidden_sectors = 0, total_sectors_32 = 256,
     fat_size_32 = 8, ext_flags = 0, fs_version = 0, root_cluster = 2, fs_info = 1, backup_boot_sector = 6,
     reserved = replicate 12 0, drive_number = 0x80, reserved1 = 0, boot_signature = 0x29, volume_id = 0,
     volume_label = replicate 11 0x20, fs_type = replicate 8 0x20\<rparr>"

definition sample_volume :: "u16 \<Rightarrow> u32 list \<Rightarrow> (nat \<Rightarrow> u8 list) \<Rightarrow> volume" where
  "sample_volume bps fat d = BPB.extend (sample_bpb bps) \<lparr>fat_table = fat, cluster_data = d\<rparr>"

lemma sample_volume_simps [simp]:
  "fat_table (sample_volume bps fat d) = fat"
  "cluster_data (sample_volume bps fat d) = d"
  "bytes_per_cluster (sample_volume bps fat d) = unat bps"
  "root_cluster (sample_volume bps fat d) = 2"
  by (simp_all add: sample_volume_def sample_bpb_def BPB.extend_def bytes_per_cluster_def)

lemma fat_chain_extended_witness:
  "\<exists>fat. fat_chain fat [2, 4, 3, 5] \<and> fat ! 6 = 0x0fffffff"
proof -
  let ?fat = "[0, 0, 4, 0, 0x0fffffff, 0, 0x0fffffff, 0] :: u32 list"
  let ?v = "sample_volume 512 ?fat (\<lambda>_. [])"
  have free: "free_from 2 ?fat = [3, 5, 7]" by (simp add: free_from_def upt_conv_Cons)
  have "fat_chain (fat_table ?v) [2, 4]" by (simp add: IsEndOfClusterchain_def)
  from fat_chain_extended [OF this, of 2 "[3, 5]" 2] obtain fat where
    fat: "fat_chain fat [2, 4, 3, 5]" "\<forall>i. i \<notin> set [4, 3, 5] \<longrightarrow> fat ! i = ?fat ! i"
    using free by auto
  from fat(2) have "fat ! 6 = ?fat ! 6" by (rule allE [of _ 6]) simp
  with fat(1) show ?thesis by (intro exI [of _ fat]) simp
qed

text \<open>A new chain of the first free clusters.\<close>

lemma free_cluster_first: "free_cluster c fat = (case free_from c fat of [] \<Rightarrow> None | x # xs \<Rightarrow> Some x)"
proof (induction c fat rule: free_cluster.induct)
  case (1 c fat)
  then show ?case by (subst free_cluster.simps, subst free_from_step) simp
qed

lemma AllocateClusterChain_chain:
  assumes len: "length (fat_table v) \<le> 0x0ffffff8" and n: "0 < n" "n \<le> length (free_from 2 (fat_table v))"
    and new_def: "new = take n (free_from 2 (fat_table v))"
  shows "\<exists>fat. AllocateClusterChain n v = Some (hd new, v\<lparr>fat_table := fat\<rparr>) \<and> length fat = length (fat_table v) \<and>
    fat_chain fat new \<and> (\<forall>i. i \<notin> set new \<longrightarrow> fat ! i = fat_table v ! i)"
proof -
  let ?fat = "fat_table v" and ?eoc = "of_nat kEndOfClusterchain :: u32"
  obtain f rest where free: "free_from 2 ?fat = f # rest" using n by (cases "free_from 2 ?fat") auto
  have f: "2 \<le> f" "f < length ?fat" "f \<notin> set rest" "distinct rest"
    using free_from_props [of ?fat] unfolding free by auto
  let ?v = "v\<lparr>fat_table := ?fat[f := ?eoc]\<rparr>"
  have new: "new = f # take (n - 1) rest" using n(1) by (cases n) (simp_all add: new_def free)
  have ch: "fat_chain (fat_table ?v) [f]"
    using f by (simp add: IsEndOfClusterchain_def kEndOfClusterchain_def)
  have "free_from 2 (fat_table ?v) = filter (\<lambda>i. i \<noteq> f) (free_from 2 ?fat)"
    unfolding free_from_def filter_filter
    using f(2) by (auto intro!: filter_cong simp: nth_list_update kEndOfClusterchain_def split: if_splits)
  then have rest: "free_from 2 (fat_table ?v) = rest"
    using f(3) by (simp add: free) (metis (mono_tags, lifting) filter_True)
  have alloc: "AllocateClusterChain n v =
      (if 1 < n then map_option (\<lambda>(l, v2). (f, v2)) (ExtendCluster f (n - 1) ?v) else Some (f, ?v))"
    by (simp add: AllocateClusterChain_def free_cluster_first free)
  show ?thesis
  proof (cases "1 < n")
    case False
    then have "new = [f]" using new by simp
    with alloc False ch f show ?thesis by (auto intro!: exI [of _ "?fat[f := ?eoc]"])
  next
    case True
    have "n - 1 \<le> length rest" using n(2) free by simp
    with ExtendCluster_chain [OF ch _ _ refl, of f "n - 1"] len rest obtain fat where
      e: "ExtendCluster f (n - 1) ?v = Some (last ([f] @ take (n - 1) rest), ?v\<lparr>fat_table := fat\<rparr>)"
      "length fat = length ?fat" "fat_chain fat ([f] @ take (n - 1) rest)"
      "\<forall>i. i \<notin> set (f # take (n - 1) rest) \<longrightarrow> fat ! i = ?fat[f := ?eoc] ! i" by auto
    then show ?thesis using alloc True by (auto simp: new intro!: exI [of _ fat])
  qed
qed

section \<open>The areas of the image\<close>

definition geometry_ok :: "'a BPB_scheme \<Rightarrow> bool" where
  "geometry_ok v \<longleftrightarrow> 0 < unat (num_fats v) \<and> unat (bytes_per_sector v) \<le> 4096 \<and>
     unat (reserved_sector_count v) + unat (num_fats v) * unat (fat_size_32 v) < 2 ^ 32"

lemma GetClusterAddr_unat:
  assumes g: "geometry_ok v" and c: "2 \<le> c" "c < 2 ^ 28"
  shows "unat (GetClusterAddr (of_nat c) v) =
    (unat (reserved_sector_count v) + unat (num_fats v) * unat (fat_size_32 v) + (c - 2) * unat (sectors_per_cluster v)) *
      unat (bytes_per_sector v)"
proof -
  let ?r = "unat (reserved_sector_count v)" and ?n = "unat (num_fats v)" and ?z = "unat (fat_size_32 v)"
  let ?s = "unat (sectors_per_cluster v)" and ?b = "unat (bytes_per_sector v)"
  have u: "unat (ucast (x :: u32) :: u64) = unat x" "unat (ucast (y :: u16) :: u64) = unat y"
    "unat (ucast (z :: u8) :: u64) = unat z" for x y z
    using unat_u32_bound [of x] unat_u16_bound [of y] unat_u8_bound [of z]
    by (simp_all add: unsigned_ucast_eq take_bit_eq_mod)
  have g': "?r + ?n * ?z < 4294967296" using g by (simp add: geometry_ok_def)
  then have nz: "?n * ?z < 4294967296" by simp
  with g' have base: "unat (ucast (reserved_sector_count v) + ucast (num_fats v) * fat_size_32 v :: u32) = ?r + ?n * ?z"
    by (simp add: unat_word_ariths)
  have "of_nat c - (2 :: u64) = of_nat (c - 2)" using c(1) by (simp add: of_nat_diff)
  moreover have "c - 2 < 18446744073709551616" using c by simp
  ultimately have c2: "unat (of_nat c - (2 :: u64)) = c - 2" by (simp only: unat_of_nat_u64)
  have s: "?s < 256" and b: "?b < 65536" by (rule unat_u8_bound, rule unat_u16_bound)
  have "c - 2 < 268435456" using c by simp
  then have cs: "(c - 2) * ?s < 68719476736" using s mult_strict_mono [of "c - 2" 268435456 ?s 256] by simp
  then have sec: "?r + ?n * ?z + (c - 2) * ?s < 73014444032" using g' by simp
  have all: "(?r + ?n * ?z + (c - 2) * ?s) * ?b < 18446744073709551616"
    using mult_strict_mono [OF sec b] by simp
  show ?thesis
    unfolding GetClusterAddr_def Let_def
    using cs sec all g' nz by (simp add: unat_word_ariths u base c2)
qed

lemma unat_scast_small:
  fixes x :: u32
  assumes "unat x < 2 ^ 31"
  shows "unat (scast x :: u64) = unat x"
proof -
  have "nat (uint x) < nat 2147483648" using assms unfolding unat_eq_nat_uint by simp
  then have u: "uint x < 2147483648" using nat_less_eq_zless [of "uint x" 2147483648] by simp
  have "0 \<le> uint x" by simp
  then have "- 2147483648 \<le> uint x" by linarith
  with u have s: "sint x = uint x" by (simp only: sint_uint signed_take_bit_int_eq_self_iff) simp
  have "unat (scast x :: u64) = nat (sint x)" by (rule unat_scast_u64) (simp only: s \<open>0 \<le> uint x\<close>)
  also have "\<dots> = unat x" by (simp only: s unat_eq_nat_uint)
  finally show ?thesis .
qed

lemma cluster_areas:
  assumes g: "geometry_ok v" and c: "2 \<le> c" "c < d" "d < 2 ^ 28"
  shows "unat (GetClusterAddr (of_nat c) v) + bytes_per_cluster v \<le> unat (GetClusterAddr (of_nat d) v)"
    and "unat (fat_offset v) + unat (fat_size_32 v) * unat (bytes_per_sector v) \<le> unat (GetClusterAddr (of_nat c) v)"
proof -
  let ?r = "unat (reserved_sector_count v)" and ?n = "unat (num_fats v)" and ?z = "unat (fat_size_32 v)"
  let ?s = "unat (sectors_per_cluster v)" and ?b = "unat (bytes_per_sector v)"
  have "(c - 2) * ?s + ?s = (c - 1) * ?s" using c by (simp add: algebra_simps)
  also have "\<dots> \<le> (d - 2) * ?s" using c by (intro mult_right_mono) simp_all
  finally have "?r + ?n * ?z + (c - 2) * ?s + ?s \<le> ?r + ?n * ?z + (d - 2) * ?s" by simp
  then have "(?r + ?n * ?z + (c - 2) * ?s + ?s) * ?b \<le> (?r + ?n * ?z + (d - 2) * ?s) * ?b" by (rule mult_right_mono) simp
  moreover have "(?r + ?n * ?z + (c - 2) * ?s + ?s) * ?b = (?r + ?n * ?z + (c - 2) * ?s) * ?b + ?b * ?s"
    by (simp add: algebra_simps)
  ultimately show "unat (GetClusterAddr (of_nat c) v) + bytes_per_cluster v \<le> unat (GetClusterAddr (of_nat d) v)"
    using c by (simp add: GetClusterAddr_unat [OF g] bytes_per_cluster_def)
  have f: "unat (fat_offset v) = ?r * ?b"
  proof -
    have "?r * ?b \<le> 65535 * 4096"
      using g unat_u16_bound [of "reserved_sector_count v"] by (intro mult_mono) (simp_all add: geometry_ok_def)
    then have b: "?r * ?b < 2147483648" by simp
    then have p: "unat (ucast (reserved_sector_count v) * ucast (bytes_per_sector v) :: u32) = ?r * ?b"
      by (simp add: unat_word_ariths)
    then show ?thesis using unat_scast_small [of "ucast (reserved_sector_count v) * ucast (bytes_per_sector v) :: u32"] b
      by (simp add: fat_offset_def)
  qed
  have "?z \<le> ?n * ?z" using g by (simp add: geometry_ok_def)
  then have "?r + ?z \<le> ?r + ?n * ?z + (c - 2) * ?s" by (rule order_trans [OF add_left_mono le_add1])
  then have "(?r + ?z) * ?b \<le> (?r + ?n * ?z + (c - 2) * ?s) * ?b" by (rule mult_right_mono) simp
  then show "unat (fat_offset v) + ?z * ?b \<le> unat (GetClusterAddr (of_nat c) v)"
    using c f by (simp add: GetClusterAddr_unat [OF g] algebra_simps)
qed

end
