(* ===== verification/FatEntry.thy ===== *)
theory FatEntry
  imports Fat Benri
begin

text \<open>
  \<^verbatim>\<open>kernel/fat.cpp\<close>, the entries of a directory: their place in a cluster and the short names. A
  pointer to an entry is the pair of its cluster and its index there. A string argument is the list
  of its characters before the NUL.
\<close>

section \<open>Entries\<close>

record DirectoryEntry =
  de_name :: "u8 list"
  attr :: u8
  ntres :: u8
  create_time_tenth :: u8
  create_time :: u16
  create_date :: u16
  last_access_date :: u16
  first_cluster_high :: u16
  write_time :: u16
  write_date :: u16
  first_cluster_low :: u16
  file_size :: u32

definition kDirectory :: u8 where "kDirectory = 0x10"

definition FirstCluster :: "DirectoryEntry \<Rightarrow> nat" where
  "FirstCluster e = unat (ucast (first_cluster_low e) OR push_bit 16 (ucast (first_cluster_high e)) :: u32)"

definition store_entry :: "DirectoryEntry \<Rightarrow> u8 list" where
  "store_entry e = de_name e @ [attr e, ntres e, create_time_tenth e] @ store16 (create_time e) @
     store16 (create_date e) @ store16 (last_access_date e) @ store16 (first_cluster_high e) @
     store16 (write_time e) @ store16 (write_date e) @ store16 (first_cluster_low e) @ store32 (file_size e)"

definition load_entry :: "u8 list \<Rightarrow> DirectoryEntry" where
  "load_entry bs =
     \<lparr>de_name = take 11 bs, attr = bs ! 11, ntres = bs ! 12, create_time_tenth = bs ! 13,
      create_time = load16 bs 14, create_date = load16 bs 16, last_access_date = load16 bs 18,
      first_cluster_high = load16 bs 20, write_time = load16 bs 22, write_date = load16 bs 24,
      first_cluster_low = load16 bs 26, file_size = load32 bs 28\<rparr>"

text \<open>The image has a cluster for every entry of the table; a cluster elsewhere is outside the image.\<close>

definition GetSectorByCluster :: "nat \<Rightarrow> 'a volume_scheme \<Rightarrow> u8 list option" where
  "GetSectorByCluster c v = (if 2 \<le> c \<and> c < length (fat_table v) then Some (cluster_data v c) else None)"

definition put_bytes :: "nat \<Rightarrow> nat \<Rightarrow> u8 list \<Rightarrow> 'a volume_scheme \<Rightarrow> 'a volume_scheme option" where
  "put_bytes c off bs v =
     (case GetSectorByCluster c v of
        None \<Rightarrow> None
      | Some sec \<Rightarrow>
          if length sec < off + length bs then None
          else Some (v\<lparr>cluster_data := (cluster_data v)(c := take off sec @ bs @ drop (off + length bs) sec)\<rparr>))"

definition get_entry :: "nat \<times> nat \<Rightarrow> 'a volume_scheme \<Rightarrow> DirectoryEntry option" where
  "get_entry r v =
     (case GetSectorByCluster (fst r) v of
        None \<Rightarrow> None
      | Some sec \<Rightarrow> if length sec < 32 * snd r + 32 then None else Some (load_entry (drop (32 * snd r) sec)))"

definition put_entry :: "nat \<times> nat \<Rightarrow> DirectoryEntry \<Rightarrow> 'a volume_scheme \<Rightarrow> 'a volume_scheme option" where
  "put_entry r e v = put_bytes (fst r) (32 * snd r) (store_entry e) v"

lemma length_store_entry [simp]: "length (de_name e) = 11 \<Longrightarrow> length (store_entry e) = 32"
  by (simp add: store_entry_def)

lemma load_store_entry [hdr_simps]:
  assumes "length (de_name e) = 11"
  shows "load_entry (store_entry e @ bs) = e"
proof -
  have n11: "(de_name e @ xs) ! 11 = xs ! 0" "(de_name e @ xs) ! 12 = xs ! 1" "(de_name e @ xs) ! 13 = xs ! 2"
    "load16 (de_name e @ xs) 14 = load16 xs 3" "load16 (de_name e @ xs) 16 = load16 xs 5"
    "load16 (de_name e @ xs) 18 = load16 xs 7" "load16 (de_name e @ xs) 20 = load16 xs 9"
    "load16 (de_name e @ xs) 22 = load16 xs 11" "load16 (de_name e @ xs) 24 = load16 xs 13"
    "load16 (de_name e @ xs) 26 = load16 xs 15" "load32 (de_name e @ xs) 28 = load32 xs 17" for xs
    using assms by (simp_all add: load16_def load32_def nth_append)
  obtain a0 a1 where a: "store16 (create_time e) = [a0, a1]" "ucast a0 OR push_bit 8 (ucast a1) = create_time e"
    by (rule store16_bytes)
  obtain b0 b1 where b: "store16 (create_date e) = [b0, b1]" "ucast b0 OR push_bit 8 (ucast b1) = create_date e"
    by (rule store16_bytes)
  obtain c0 c1 where c: "store16 (last_access_date e) = [c0, c1]" "ucast c0 OR push_bit 8 (ucast c1) = last_access_date e"
    by (rule store16_bytes)
  obtain d0 d1 where d: "store16 (first_cluster_high e) = [d0, d1]" "ucast d0 OR push_bit 8 (ucast d1) = first_cluster_high e"
    by (rule store16_bytes)
  obtain f0 f1 where f: "store16 (write_time e) = [f0, f1]" "ucast f0 OR push_bit 8 (ucast f1) = write_time e"
    by (rule store16_bytes)
  obtain g0 g1 where g: "store16 (write_date e) = [g0, g1]" "ucast g0 OR push_bit 8 (ucast g1) = write_date e"
    by (rule store16_bytes)
  obtain h0 h1 where h: "store16 (first_cluster_low e) = [h0, h1]" "ucast h0 OR push_bit 8 (ucast h1) = first_cluster_low e"
    by (rule store16_bytes)
  obtain s0 s1 s2 s3 where s: "store32 (file_size e) = [s0, s1, s2, s3]"
    "ucast s0 OR push_bit 8 (ucast s1) OR push_bit 16 (ucast s2) OR push_bit 24 (ucast s3) = file_size e"
    by (rule store32_bytes)
  show ?thesis
    unfolding load_entry_def store_entry_def append_assoc n11
    using assms by (simp add: load16_def load32_def a b c d f g h s)
qed

lemma put_bytes_Some:
  assumes "2 \<le> c" "c < length (fat_table v)" "off + length bs \<le> length (cluster_data v c)"
  shows "put_bytes c off bs v =
    Some (v\<lparr>cluster_data := (cluster_data v)(c := take off (cluster_data v c) @ bs @ drop (off + length bs) (cluster_data v c))\<rparr>)"
  using assms by (simp add: put_bytes_def GetSectorByCluster_def)

lemma put_bytes_frame:
  "put_bytes c off bs v = Some v' \<Longrightarrow>
     \<exists>d. v' = v\<lparr>cluster_data := d\<rparr> \<and> (\<forall>x. x \<noteq> c \<longrightarrow> d x = cluster_data v x) \<and> (\<forall>x. length (d x) = length (cluster_data v x))"
  by (rule exI [of _ "cluster_data v'"]) (auto simp: put_bytes_def GetSectorByCluster_def split: option.splits if_splits)

lemma load_entry_take: "32 \<le> length bs \<Longrightarrow> load_entry (take 32 bs) = load_entry bs"
  by (simp add: load_entry_def load16_def load32_def)

text \<open>An entry that was stored is loaded again; the other entries of its cluster stay.\<close>

lemma get_put_entry:
  assumes e: "length (de_name e) = 11" and p: "put_entry r e v = Some v'"
  shows "get_entry r v' = Some e"
    and "s \<noteq> r \<Longrightarrow> get_entry s v' = get_entry s v"
proof -
  obtain sec where sec: "GetSectorByCluster (fst r) v = Some sec" and len: "32 * snd r + 32 \<le> length sec"
    and v': "v' = v\<lparr>cluster_data := (cluster_data v)(fst r := take (32 * snd r) sec @ store_entry e @ drop (32 * snd r + 32) sec)\<rparr>"
    using p e by (auto simp: put_entry_def put_bytes_def split: option.splits if_splits)
  have get: "GetSectorByCluster c v' = (if c = fst r then Some (take (32 * snd r) sec @ store_entry e @ drop (32 * snd r + 32) sec)
      else GetSectorByCluster c v)" for c
    using sec by (simp add: GetSectorByCluster_def v' split: if_splits)
  show "get_entry r v' = Some e"
    using e len by (simp add: get_entry_def get load_store_entry)
  show "get_entry s v' = get_entry s v" if "s \<noteq> r"
  proof (cases "fst s = fst r")
    case True
    with that have "snd s < snd r \<or> snd r < snd s" by (metis linorder_neqE_nat prod_eqI)
    then consider "32 * snd s + 32 \<le> 32 * snd r" | "32 * snd r + 32 \<le> 32 * snd s" by linarith
    then show ?thesis
    proof cases
      case 1
      let ?rest = "store_entry e @ drop (32 * snd r + 32) sec"
      have "take 32 (drop (32 * snd s) (take (32 * snd r) sec @ ?rest)) = take 32 (drop (32 * snd s) sec)"
        using 1 len e by (simp add: drop_take min_def, linarith)
      then have "load_entry (drop (32 * snd s) (take (32 * snd r) sec @ ?rest)) = load_entry (drop (32 * snd s) sec)"
        using load_entry_take [of "drop (32 * snd s) (take (32 * snd r) sec @ ?rest)"]
          load_entry_take [of "drop (32 * snd s) sec"] 1 len e by simp
      then show ?thesis using True len sec e 1 by (simp add: get_entry_def get)
    next
      case 2
      have "drop (32 * snd s) (take (32 * snd r) sec @ store_entry e @ drop (32 * snd r + 32) sec) = drop (32 * snd s) sec"
        using 2 len e by (simp add: algebra_simps)
      then show ?thesis using True len sec e by (simp add: get_entry_def get)
    qed
  next
    case False
    then show ?thesis by (simp add: get_entry_def get)
  qed
qed

section \<open>Short names\<close>

definition toupper :: "u8 \<Rightarrow> u8" where
  "toupper c = (if 0x61 \<le> c \<and> c \<le> 0x7a then c - 0x20 else c)"

definition strchr :: "u8 list \<Rightarrow> u8 \<Rightarrow> nat option" where
  "strchr s c = find_idx (\<lambda>x. x = c) s"

definition strrchr_pos :: "u8 list \<Rightarrow> u8 \<Rightarrow> nat option" where
  "strrchr_pos s c = map_option (\<lambda>k. length s - 1 - k) (find_idx (\<lambda>x. x = c) (rev s))"

text \<open>The string in a buffer.\<close>

definition c_string :: "u8 list \<Rightarrow> u8 list" where
  "c_string bs = takeWhile (\<lambda>c. c \<noteq> 0) bs"

text \<open>The loops of \<^verbatim>\<open>ReadName\<close>, from \<open>i = n - 1\<close> down.\<close>

fun strip_spaces :: "nat \<Rightarrow> u8 list \<Rightarrow> u8 list" where
  "strip_spaces 0 bs = bs"
| "strip_spaces (Suc i) bs = (if bs ! i = 0x20 then strip_spaces i (bs[i := 0]) else bs)"

definition ReadName :: "DirectoryEntry \<Rightarrow> u8 list \<times> u8 list" where
  "ReadName entry =
     (strip_spaces 8 (take 8 (de_name entry) @ [0]), strip_spaces 3 (take 3 (drop 8 (de_name entry)) @ [0]))"

definition FormatName :: "DirectoryEntry \<Rightarrow> u8 list" where
  "FormatName entry =
     (let (base, ext) = ReadName entry
      in if ext ! 0 \<noteq> 0 then c_string base @ 0x2e # c_string ext else c_string base)"

fun name83_loop :: "u8 list \<Rightarrow> nat \<Rightarrow> u8 list \<Rightarrow> u8 list" where
  "name83_loop [] i83 name83 = name83"
| "name83_loop (c # name) i83 name83 =
     (if 11 \<le> i83 then name83
      else if c = 0x2e then name83_loop name 8 name83
      else name83_loop name (Suc i83) (name83[i83 := toupper c]))"

definition NameIsEqual :: "DirectoryEntry \<Rightarrow> u8 list \<Rightarrow> bool" where
  "NameIsEqual entry name \<longleftrightarrow> de_name entry = name83_loop name 0 (replicate 11 0x20)"

text \<open>\<open>bs\<close> written over the start of \<open>n\<close> spaces.\<close>

definition pad :: "nat \<Rightarrow> u8 list \<Rightarrow> u8 list" where
  "pad n bs = bs @ replicate (n - length bs) 0x20"

definition SetFileName :: "DirectoryEntry \<Rightarrow> u8 list \<Rightarrow> DirectoryEntry" where
  "SetFileName entry name =
     entry\<lparr>de_name := (case strrchr_pos name 0x2e of
         Some dot \<Rightarrow> pad 8 (map toupper (take (min 8 dot) name)) @ pad 3 (map toupper (take 3 (drop (Suc dot) name)))
       | None \<Rightarrow> pad 8 (map toupper (take 8 name)) @ pad 3 [])\<rparr>"

text \<open>Names in the form base and extension.\<close>

definition name_chars :: "u8 list \<Rightarrow> bool" where
  "name_chars bs \<longleftrightarrow> (\<forall>c \<in> set bs. c \<noteq> 0 \<and> c \<noteq> 0x20 \<and> c \<noteq> 0x2e \<and> c \<noteq> 0x2f)"

definition base_ext :: "u8 list \<Rightarrow> u8 list \<Rightarrow> bool" where
  "base_ext base ext \<longleftrightarrow> base \<noteq> [] \<and> length base \<le> 8 \<and> length ext \<le> 3 \<and> name_chars base \<and> name_chars ext"

definition join_name :: "u8 list \<Rightarrow> u8 list \<Rightarrow> u8 list" where
  "join_name base ext = (if ext = [] then base else base @ 0x2e # ext)"

definition name83 :: "u8 list \<Rightarrow> u8 list \<Rightarrow> u8 list" where
  "name83 base ext = pad 8 (map toupper base) @ pad 3 (map toupper ext)"

lemma length_pad [simp]: "length bs \<le> n \<Longrightarrow> length (pad n bs) = n"
  by (simp add: pad_def)

lemma toupper_chars: "c \<noteq> 0 \<Longrightarrow> toupper c \<noteq> 0" "c \<noteq> 0x20 \<Longrightarrow> toupper c \<noteq> 0x20"
proof -
  have u: "unat (c - 0x20) = unat c - 0x20" if "0x61 \<le> c" using that by (simp add: unat_sub word_le_nat_alt)
  have "unat (toupper c) \<noteq> 0" if "unat c \<noteq> 0"
    using that u by (auto simp: toupper_def word_le_nat_alt)
  then show "c \<noteq> 0 \<Longrightarrow> toupper c \<noteq> 0" by (auto simp: unat_eq_0)
  have "unat (toupper c) \<noteq> 0x20" if "unat c \<noteq> 0x20"
    using that u by (auto simp: toupper_def word_le_nat_alt)
  then show "c \<noteq> 0x20 \<Longrightarrow> toupper c \<noteq> 0x20" by (simp add: word_unat_eq_iff)
qed

lemma toupper_dot: "toupper c = 0x2e \<longleftrightarrow> c = 0x2e"
proof -
  have "unat (c - 0x20) = unat c - 0x20" if "0x61 \<le> c" using that by (simp add: unat_sub word_le_nat_alt)
  then have "unat (toupper c) = 0x2e \<longleftrightarrow> unat c = 0x2e" by (auto simp: toupper_def word_le_nat_alt)
  then show ?thesis by (simp add: word_unat_eq_iff)
qed

lemma name_chars_map: "name_chars bs \<Longrightarrow> \<forall>c \<in> set (map toupper bs). c \<noteq> 0 \<and> c \<noteq> 0x20"
  using toupper_chars by (auto simp: name_chars_def)

text \<open>A padded name determines the name.\<close>

lemma pad_takeWhile: "\<forall>c \<in> set bs. c \<noteq> 0x20 \<Longrightarrow> takeWhile (\<lambda>c. c \<noteq> 0x20) (pad n bs) = bs"
  by (cases "n - length bs") (simp_all add: pad_def takeWhile_eq_all_conv [THEN iffD2])

lemma name83_inj:
  assumes "base_ext b x" "base_ext b' x'"
  shows "name83 b x = name83 b' x' \<longleftrightarrow> map toupper b = map toupper b' \<and> map toupper x = map toupper x'"
proof
  assume "name83 b x = name83 b' x'"
  then have "pad 8 (map toupper b) = pad 8 (map toupper b')" "pad 3 (map toupper x) = pad 3 (map toupper x')"
    using assms by (simp_all add: name83_def base_ext_def)
  moreover have "\<forall>c \<in> set (map toupper s). c \<noteq> 0x20" if "s \<in> {b, b', x, x'}" for s
    using assms that name_chars_map [of s] unfolding base_ext_def by fastforce
  ultimately show "map toupper b = map toupper b' \<and> map toupper x = map toupper x'"
    by (metis insertCI pad_takeWhile)
qed (simp add: name83_def)

lemma strrchr_pos_None: "c \<notin> set s \<Longrightarrow> strrchr_pos s c = None"
  by (auto simp: strrchr_pos_def find_idx_None_iff)

lemma strrchr_pos_last: "c \<notin> set x \<Longrightarrow> strrchr_pos (b @ c # x) c = Some (length b)"
proof -
  assume "c \<notin> set x"
  then have "find_idx (\<lambda>y. y = c) (rev x @ c # rev b) = Some (length x)"
    by (induction x rule: rev_induct) auto
  then show ?thesis by (simp add: strrchr_pos_def)
qed

lemma SetFileName_join:
  assumes "base_ext b x"
  shows "SetFileName e (join_name b x) = e\<lparr>de_name := name83 b x\<rparr>"
proof -
  have "0x2e \<notin> set b" "0x2e \<notin> set x" "length b \<le> 8" "length x \<le> 3"
    using assms by (auto simp: base_ext_def name_chars_def)
  then show ?thesis
    by (simp add: SetFileName_def join_name_def strrchr_pos_None strrchr_pos_last name83_def)
qed

lemma name83_loop_chars:
  "0x2e \<notin> set b \<Longrightarrow> i + length b \<le> 11 \<Longrightarrow> length acc = 11 \<Longrightarrow>
     name83_loop (b @ rest) i acc = name83_loop rest (i + length b) (take i acc @ map toupper b @ drop (i + length b) acc)"
proof (induction b arbitrary: i acc)
  case (Cons c b)
  then have "take (Suc i) (acc[i := toupper c]) = take i acc @ [toupper c]"
    by (simp add: take_Suc_conv_app_nth)
  with Cons show ?case by simp
qed simp

lemma NameIsEqual_join:
  assumes "base_ext b x"
  shows "NameIsEqual e (join_name b x) \<longleftrightarrow> de_name e = name83 b x"
proof -
  have b: "0x2e \<notin> set b" "length b \<le> 8" and x: "0x2e \<notin> set x" "length x \<le> 3"
    using assms by (auto simp: base_ext_def name_chars_def)
  let ?sp = "replicate 11 (0x20 :: u8)"
  have base: "name83_loop (b @ rest) 0 ?sp = name83_loop rest (length b) (map toupper b @ replicate (11 - length b) 0x20)" for rest
    using name83_loop_chars [OF b(1), of 0 ?sp rest] b(2) by simp
  have ext: "name83_loop (x @ []) 8 (map toupper b @ replicate (11 - length b) 0x20) =
      map toupper b @ replicate (8 - length b) 0x20 @ map toupper x @ replicate (3 - length x) 0x20"
    using name83_loop_chars [OF x(1), of 8 "map toupper b @ replicate (11 - length b) 0x20" "[]"] b(2) x(2)
    by (simp add: min_def)
  have "name83_loop (join_name b x) 0 ?sp = name83 b x"
  proof (cases "x = []")
    case True
    have "replicate (11 - length b) (0x20 :: u8) = replicate (8 - length b) 0x20 @ replicate 3 0x20"
      using b(2) by (simp add: replicate_add [symmetric])
    with True base [of "[]"] show ?thesis by (simp add: join_name_def name83_def pad_def)
  next
    case False
    with base [of "0x2e # x"] ext b(2) show ?thesis by (simp add: join_name_def name83_def pad_def)
  qed
  then show ?thesis by (simp add: NameIsEqual_def)
qed

lemma strip_spaces_pad:
  "\<forall>c \<in> set bs. c \<noteq> 0x20 \<Longrightarrow> strip_spaces (length bs + k) (bs @ replicate k 0x20 @ rest) = bs @ replicate k 0 @ rest"
proof (induction k arbitrary: rest)
  case 0
  then show ?case by (cases bs rule: rev_cases) (simp_all add: nth_append)
next
  case (Suc k)
  have r: "bs @ replicate (Suc k) 0x20 @ rest = bs @ replicate k 0x20 @ 0x20 # rest"
    by (simp add: replicate_append_same [symmetric])
  have u: "(bs @ replicate k 0x20 @ 0x20 # rest)[length bs + k := 0] = bs @ replicate k 0x20 @ 0 # rest"
    by (simp add: list_update_append)
  show ?case unfolding r using Suc.IH [OF Suc.prems, of "0 # rest"] u
    by (simp add: nth_append replicate_append_same [symmetric])
qed

lemma c_string_zeros: "\<forall>c \<in> set bs. c \<noteq> 0 \<Longrightarrow> c_string (bs @ replicate k 0 @ [0]) = bs"
  by (cases k) (simp_all add: c_string_def takeWhile_eq_all_conv [THEN iffD2])

lemma FormatName_join:
  assumes be: "base_ext b x" and e: "de_name e = name83 b x"
  shows "FormatName e = map toupper (join_name b x)"
proof -
  have b: "length b \<le> 8" "\<forall>c \<in> set (map toupper b). c \<noteq> 0 \<and> c \<noteq> 0x20"
    and x: "length x \<le> 3" "\<forall>c \<in> set (map toupper x). c \<noteq> 0 \<and> c \<noteq> 0x20"
    using be name_chars_map [of b] name_chars_map [of x] by (simp_all add: base_ext_def)
  have sb: "strip_spaces 8 (pad 8 (map toupper b) @ [0]) = map toupper b @ replicate (8 - length b) 0 @ [0]"
    using strip_spaces_pad [of "map toupper b" "8 - length b" "[0]"] b by (simp add: pad_def)
  have sx: "strip_spaces 3 (pad 3 (map toupper x) @ [0]) = map toupper x @ replicate (3 - length x) 0 @ [0]"
    using strip_spaces_pad [of "map toupper x" "3 - length x" "[0]"] x by (simp add: pad_def)
  have "take 8 (de_name e) = pad 8 (map toupper b)" "take 3 (drop 8 (de_name e)) = pad 3 (map toupper x)"
    using b(1) x(1) by (simp_all add: e name83_def)
  then have r: "ReadName e = (map toupper b @ replicate (8 - length b) 0 @ [0], map toupper x @ replicate (3 - length x) 0 @ [0])"
    by (simp only: ReadName_def sb sx)
  have d: "toupper 0x2e = 0x2e" by (simp add: toupper_def word_le_nat_alt)
  show ?thesis
  proof (cases x)
    case Nil
    with r b show ?thesis by (simp add: FormatName_def join_name_def c_string_zeros nth_append)
  next
    case (Cons c cs)
    then have "(map toupper x @ replicate (3 - length x) 0 @ [0]) ! 0 \<noteq> 0" using x(2) by simp
    then have "FormatName e = c_string (map toupper b @ replicate (8 - length b) 0 @ [0]) @
        0x2e # c_string (map toupper x @ replicate (3 - length x) 0 @ [0])"
      by (simp only: FormatName_def r Let_def case_prod_conv if_True simp_thms)
    also have "\<dots> = map toupper b @ 0x2e # map toupper x" using b(2) x(2) c_string_zeros [of "map toupper b"] c_string_zeros [of "map toupper x"] by metis
    finally show ?thesis using Cons d by (simp add: join_name_def)
  qed
qed

lemma join_name_eq:
  assumes "base_ext b x" "base_ext b' x'"
  shows "map toupper (join_name b x) = map toupper (join_name b' x') \<longleftrightarrow>
    map toupper b = map toupper b' \<and> map toupper x = map toupper x'"
proof -
  have dot: "0x2e \<notin> set (map toupper s)" if "name_chars s" for s
    using that toupper_dot by (force simp: name_chars_def)
  have split: "takeWhile (\<lambda>c. c \<noteq> 0x2e) (map toupper (join_name b x)) = map toupper b \<and>
      drop 1 (dropWhile (\<lambda>c. c \<noteq> 0x2e) (map toupper (join_name b x))) = map toupper x" if "base_ext b x" for b x
  proof -
    have all: "\<forall>c \<in> set (map toupper b). c \<noteq> 0x2e" using dot [of b] that unfolding base_ext_def by metis
    have "toupper 0x2e = 0x2e" by (simp add: toupper_dot)
    then show ?thesis using all
      by (cases x) (simp_all add: join_name_def takeWhile_append dropWhile_append
          takeWhile_eq_all_conv [THEN iffD2] dropWhile_eq_Nil_conv [THEN iffD2])
  qed
  show ?thesis
  proof
    assume "map toupper (join_name b x) = map toupper (join_name b' x')"
    with split [OF assms(1)] split [OF assms(2)] show "map toupper b = map toupper b' \<and> map toupper x = map toupper x'"
      by metis
  next
    assume "map toupper b = map toupper b' \<and> map toupper x = map toupper x'"
    then show "map toupper (join_name b x) = map toupper (join_name b' x')"
      by (cases "x = []") (auto simp: join_name_def)
  qed
qed

text \<open>
  For names of at most eight characters and an extension of at most three, the name that
  \<^verbatim>\<open>SetFileName\<close> writes into an entry is read back by \<^verbatim>\<open>FormatName\<close> in capitals, and
  \<^verbatim>\<open>NameIsEqual\<close> accepts exactly the names that differ from it in the case of letters only.
\<close>

lemma short_name_roundtrip:
  assumes "base_ext b x" "base_ext b' x'"
  shows "FormatName (SetFileName e (join_name b x)) = map toupper (join_name b x) \<and>
    (NameIsEqual (SetFileName e (join_name b x)) (join_name b' x') \<longleftrightarrow>
       map toupper (join_name b x) = map toupper (join_name b' x'))"
  using FormatName_join [of b x] name83_inj [OF assms] join_name_eq [OF assms]
  by (simp add: SetFileName_join NameIsEqual_join assms)

lemma short_name_roundtrip_witness:
  "FormatName (SetFileName (load_entry (replicate 32 0)) [0x61, 0x2e, 0x63]) = [0x41, 0x2e, 0x43] \<and>
   NameIsEqual (SetFileName (load_entry (replicate 32 0)) [0x61, 0x2e, 0x63]) [0x41, 0x2e, 0x63]"
proof -
  have "base_ext [0x61] [0x63]" "base_ext [0x41] [0x63]" by (simp_all add: base_ext_def name_chars_def)
  from short_name_roundtrip [OF this, of "load_entry (replicate 32 0)"] show ?thesis
    by (simp add: join_name_def toupper_def word_le_nat_alt)
qed

end
