(* ===== verification/FatFile.thy ===== *)
theory FatFile
  imports FatEntry
begin

text \<open>
  \<^verbatim>\<open>kernel/fat.cpp\<close>, the class \<^verbatim>\<open>FileDescriptor\<close>: reading, writing and loading a file, and
  \<^verbatim>\<open>ReadDelim\<close> of \<^verbatim>\<open>kernel/file.cpp\<close>, which works on every class with this interface. A read
  gives the bytes it puts into the buffer of the caller; the number it returns is their number.
\<close>

section \<open>The descriptor\<close>

record FileDescriptor =
  fd_entry :: "nat \<times> nat"
  rd_off :: nat
  rd_cluster :: nat
  rd_cluster_off :: nat
  wr_off :: nat
  wr_cluster :: nat
  wr_cluster_off :: nat

definition new_FileDescriptor :: "nat \<times> nat \<Rightarrow> FileDescriptor" where
  "new_FileDescriptor entry =
     \<lparr>fd_entry = entry, rd_off = 0, rd_cluster = 0, rd_cluster_off = 0, wr_off = 0, wr_cluster = 0, wr_cluster_off = 0\<rparr>"

section \<open>Reading\<close>

text \<open>The loop of \<^verbatim>\<open>Read\<close>, with the bytes it has copied; the code keeps their number in \<^verbatim>\<open>total\<close>.\<close>

partial_function (option) read_loop ::
    "nat \<Rightarrow> volume \<Rightarrow> u8 list \<Rightarrow> nat \<Rightarrow> nat \<Rightarrow> (u8 list \<times> nat \<times> nat) option" where
  "read_loop len v got cluster off =
     (if len \<le> length got then Some (got, cluster, off)
      else case GetSectorByCluster cluster v of
        None \<Rightarrow> None
      | Some sec \<Rightarrow>
          let n = min (len - length got) (size_sub (bytes_per_cluster v) off);
              got' = got @ take n (drop off sec)
          in if length sec < off + n then None
             else if off + n = bytes_per_cluster v then
               (case NextCluster cluster v of
                  None \<Rightarrow> None
                | Some next \<Rightarrow> read_loop len v got' next 0)
             else read_loop len v got' cluster (off + n))"

definition Read :: "nat \<Rightarrow> volume \<Rightarrow> FileDescriptor \<Rightarrow> (u8 list \<times> FileDescriptor) option" where
  "Read len v fd =
     (case get_entry (fd_entry fd) v of
        None \<Rightarrow> None
      | Some entry \<Rightarrow>
          let cluster = (if rd_cluster fd = 0 then FirstCluster entry else rd_cluster fd);
              len' = min len (size_sub (unat (file_size entry)) (rd_off fd))
          in (case read_loop len' v [] cluster (rd_cluster_off fd) of
                None \<Rightarrow> None
              | Some (got, cluster', off') \<Rightarrow>
                  Some (got, fd\<lparr>rd_off := rd_off fd + length got, rd_cluster := cluster', rd_cluster_off := off'\<rparr>)))"

definition LoadFile :: "nat \<Rightarrow> nat \<times> nat \<Rightarrow> volume \<Rightarrow> u8 list option" where
  "LoadFile len entry v = map_option fst (Read len v (new_FileDescriptor entry))"

definition Size :: "volume \<Rightarrow> FileDescriptor \<Rightarrow> nat option" where
  "Size v fd = map_option (\<lambda>e. unat (file_size e)) (get_entry (fd_entry fd) v)"

partial_function (option) load_seek :: "nat \<Rightarrow> nat \<Rightarrow> volume \<Rightarrow> (nat \<times> nat) option" where
  "load_seek offset cluster v =
     (if bytes_per_cluster v \<le> offset
      then case NextCluster cluster v of
        None \<Rightarrow> None
      | Some next \<Rightarrow> load_seek (offset - bytes_per_cluster v) next v
      else Some (offset, cluster))"

definition Load :: "nat \<Rightarrow> nat \<Rightarrow> volume \<Rightarrow> FileDescriptor \<Rightarrow> u8 list option" where
  "Load len offset v fd =
     (case get_entry (fd_entry fd) v of
        None \<Rightarrow> None
      | Some entry \<Rightarrow>
          (case load_seek offset (FirstCluster entry) v of
             None \<Rightarrow> None
           | Some (off, cluster) \<Rightarrow>
               map_option fst (Read len v ((new_FileDescriptor (fd_entry fd))
                 \<lparr>rd_off := offset, rd_cluster := cluster, rd_cluster_off := off\<rparr>))))"

section \<open>Writing\<close>

definition num_cluster :: "'a BPB_scheme \<Rightarrow> nat \<Rightarrow> nat" where
  "num_cluster v bytes = (bytes + bytes_per_cluster v - 1) div bytes_per_cluster v"

text \<open>
  The first part of the loop of \<^verbatim>\<open>Write\<close>: on the end of a cluster it goes to the next one. The loop
  copies \<open>n\<close> bytes behind \<open>buf\<close>; \<open>None\<close> where they leave the memory that is there.
\<close>

definition write_cluster :: "nat \<Rightarrow> nat \<Rightarrow> nat \<Rightarrow> volume \<Rightarrow> (nat \<times> nat \<times> volume) option" where
  "write_cluster left cluster off v =
     (if off = bytes_per_cluster v
      then case NextCluster cluster v of
        None \<Rightarrow> None
      | Some next_cluster \<Rightarrow>
          if next_cluster = kEndOfClusterchain
          then map_option (\<lambda>(c, v'). (c, 0, v')) (ExtendCluster cluster (num_cluster v left) v)
          else Some (next_cluster, 0, v)
      else Some (cluster, off, v))"

partial_function (option) write_loop ::
    "u8 list \<Rightarrow> nat \<Rightarrow> nat \<Rightarrow> nat \<Rightarrow> nat \<Rightarrow> volume \<Rightarrow> (nat \<times> nat \<times> nat \<times> volume) option" where
  "write_loop buf len copied cluster off v =
     (if len \<le> copied then Some (copied, cluster, off, v)
      else case write_cluster (len - copied) cluster off v of
        None \<Rightarrow> None
      | Some (c, o', v1) \<Rightarrow>
          let n = min len (size_sub (bytes_per_cluster v) o')
          in if length buf < copied + n then None
             else (case put_bytes c o' (take n (drop copied buf)) v1 of
                None \<Rightarrow> None
              | Some v2 \<Rightarrow> write_loop buf len (copied + n) c (o' + n) v2))"

definition set_first_cluster :: "nat \<Rightarrow> DirectoryEntry \<Rightarrow> DirectoryEntry" where
  "set_first_cluster c e = e\<lparr>first_cluster_low := of_nat c, first_cluster_high := of_nat (c div 2 ^ 16)\<rparr>"

definition write_start :: "nat \<Rightarrow> volume \<Rightarrow> FileDescriptor \<Rightarrow> (nat \<times> volume) option" where
  "write_start len v fd =
     (if wr_cluster fd \<noteq> 0 then Some (wr_cluster fd, v)
      else case get_entry (fd_entry fd) v of
        None \<Rightarrow> None
      | Some entry \<Rightarrow>
          if FirstCluster entry \<noteq> 0 then Some (FirstCluster entry, v)
          else case AllocateClusterChain (num_cluster v len) v of
            None \<Rightarrow> None
          | Some (c, v1) \<Rightarrow> map_option (\<lambda>v2. (c, v2)) (put_entry (fd_entry fd) (set_first_cluster c entry) v1))"

definition Write :: "u8 list \<Rightarrow> nat \<Rightarrow> volume \<Rightarrow> FileDescriptor \<Rightarrow> (nat \<times> volume \<times> FileDescriptor) option" where
  "Write buf len v fd =
     (case write_start len v fd of
        None \<Rightarrow> None
      | Some (c, v1) \<Rightarrow>
          (case write_loop buf len 0 c (wr_cluster_off fd) v1 of
             None \<Rightarrow> None
           | Some (copied, c', off', v2) \<Rightarrow>
               (case get_entry (fd_entry fd) v2 of
                  None \<Rightarrow> None
                | Some entry \<Rightarrow>
                    map_option (\<lambda>v3. (copied, v3, fd\<lparr>wr_off := wr_off fd + copied, wr_cluster := c', wr_cluster_off := off'\<rparr>))
                      (put_entry (fd_entry fd) (entry\<lparr>file_size := of_nat (wr_off fd + copied)\<rparr>) v2))))"

section \<open>The contents of a file\<close>

text \<open>The clusters of a file, in order.\<close>

partial_function (option) clusters_from :: "nat \<Rightarrow> volume \<Rightarrow> nat list option" where
  "clusters_from c v =
     (case fat_entry c v of
        None \<Rightarrow> None
      | Some next \<Rightarrow> if IsEndOfClusterchain next then Some [c]
          else Option.bind (clusters_from next v) (\<lambda>cs. Some (c # cs)))"

definition file_clusters :: "DirectoryEntry \<Rightarrow> volume \<Rightarrow> nat list" where
  "file_clusters e v =
     (if FirstCluster e = 0 then [] else case clusters_from (FirstCluster e) v of None \<Rightarrow> [] | Some cs \<Rightarrow> cs)"

definition cluster_bytes :: "volume \<Rightarrow> nat list \<Rightarrow> u8 list" where
  "cluster_bytes v cs = concat (map (cluster_data v) cs)"

definition file_bytes :: "nat \<times> nat \<Rightarrow> volume \<Rightarrow> u8 list" where
  "file_bytes r v =
     (case get_entry r v of
        None \<Rightarrow> []
      | Some e \<Rightarrow> take (unat (file_size e)) (cluster_bytes v (file_clusters e v)))"

definition volume_ok :: "volume \<Rightarrow> bool" where
  "volume_ok v \<longleftrightarrow> 0 < bytes_per_cluster v \<and> length (fat_table v) \<le> 0x0ffffff8 \<and>
     (\<forall>c. length (cluster_data v c) = bytes_per_cluster v)"

text \<open>The clusters of the entry \<open>r\<close> are \<open>cs\<close>, and they hold the bytes of the file.\<close>

definition file_ok :: "volume \<Rightarrow> nat \<times> nat \<Rightarrow> DirectoryEntry \<Rightarrow> nat list \<Rightarrow> bool" where
  "file_ok v r e cs \<longleftrightarrow> get_entry r v = Some e \<and>
     (if FirstCluster e = 0 then cs = [] else fat_chain (fat_table v) cs \<and> hd cs = FirstCluster e) \<and>
     unat (file_size e) \<le> length cs * bytes_per_cluster v"

definition cluster_at :: "nat list \<Rightarrow> nat \<Rightarrow> nat" where
  "cluster_at cs k = (if k < length cs then cs ! k else kEndOfClusterchain)"

text \<open>The place of a descriptor: a fresh one, or the cluster and the offset of the position.\<close>

definition place :: "nat list \<Rightarrow> nat \<Rightarrow> nat \<Rightarrow> nat \<Rightarrow> nat \<Rightarrow> bool" where
  "place cs b p cluster off \<longleftrightarrow>
     (p = 0 \<and> cluster = 0 \<and> off = 0) \<or>
     (cs \<noteq> [] \<and> p \<le> length cs * b \<and> cluster = cluster_at cs (p div b) \<and> off = p mod b)"

lemma clusters_from_chain: "fat_chain (fat_table v) cs \<Longrightarrow> clusters_from (hd cs) v = Some cs"
proof -
  have "fat_table v = fat \<Longrightarrow> ?thesis" if "fat_chain fat cs" for fat
    using that
  proof (induction fat cs rule: fat_chain.induct)
    case (2 fat c)
    then show ?case by (subst clusters_from.simps) (simp add: fat_entry_def)
  next
    case (3 fat c d cs)
    then show ?case by (subst clusters_from.simps) (auto simp: fat_entry_def)
  qed simp
  then show "fat_chain (fat_table v) cs \<Longrightarrow> ?thesis" by blast
qed

lemma file_ok_bytes:
  assumes "file_ok v r e cs"
  shows "file_clusters e v = cs" "file_bytes r v = take (unat (file_size e)) (cluster_bytes v cs)"
  using assms clusters_from_chain [of v cs]
  by (auto simp: file_ok_def file_clusters_def file_bytes_def split: if_splits)

section \<open>What a read gives\<close>

lemma length_cluster_bytes: "volume_ok v \<Longrightarrow> length (cluster_bytes v cs) = length cs * bytes_per_cluster v"
  by (induction cs) (simp_all add: cluster_bytes_def volume_ok_def)

lemma drop_cluster_bytes:
  assumes v: "volume_ok v" and k: "k < length cs" and off: "off \<le> bytes_per_cluster v"
  shows "drop (k * bytes_per_cluster v + off) (cluster_bytes v cs) =
    drop off (cluster_data v (cs ! k)) @ drop (Suc k * bytes_per_cluster v) (cluster_bytes v cs)"
proof -
  let ?b = "bytes_per_cluster v" and ?d = "cluster_data v (cs ! k)"
  have "cs = take k cs @ cs ! k # drop (Suc k) cs" using k by (rule id_take_nth_drop)
  then have "cluster_bytes v cs = cluster_bytes v (take k cs) @ ?d @ cluster_bytes v (drop (Suc k) cs)"
    unfolding cluster_bytes_def by (metis concat.simps(2) concat_append list.simps(9) map_append)
  moreover have "length (cluster_bytes v (take k cs)) = k * ?b" "length ?d = ?b"
    using v k by (simp_all add: length_cluster_bytes) (simp add: volume_ok_def)
  ultimately show ?thesis using off by simp
qed

lemma read_loop_done: "len \<le> length got \<Longrightarrow> read_loop len v got c off = Some (got, c, off)"
  by (subst read_loop.simps) simp

lemma read_loop_chain:
  assumes v: "volume_ok v" and ch: "fat_chain (fat_table v) cs"
    and k: "k < length cs" and off: "off < bytes_per_cluster v"
    and len: "len - length got \<le> length cs * bytes_per_cluster v - (k * bytes_per_cluster v + off)"
    and p': "p' = k * bytes_per_cluster v + off + (len - length got)"
  shows "read_loop len v got (cs ! k) off =
    Some (got @ take (len - length got) (drop (k * bytes_per_cluster v + off) (cluster_bytes v cs)),
      cluster_at cs (p' div bytes_per_cluster v), p' mod bytes_per_cluster v)"
  using k off len p'
proof (induction "len - length got" arbitrary: got k off rule: less_induct)
  case less
  let ?b = "bytes_per_cluster v" and ?n = "min (len - length got) (bytes_per_cluster v - off)"
  have b: "0 < ?b" using v by (simp add: volume_ok_def)
  show ?case
  proof (cases "len \<le> length got")
    case True
    with less.prems b show ?thesis by (subst read_loop.simps) (simp add: cluster_at_def)
  next
    case more: False
    let ?sec = "cluster_data v (cs ! k)" and ?got = "got @ take ?n (drop off (cluster_data v (cs ! k)))"
    have sec: "GetSectorByCluster (cs ! k) v = Some ?sec" "length ?sec = ?b"
      using chain_range [OF ch, of "cs ! k"] less.prems(1) v by (auto simp: GetSectorByCluster_def volume_ok_def)
    then have got: "length ?got = length got + ?n" using less.prems(2) by simp
    have data: "drop (k * ?b + off) (cluster_bytes v cs) = drop off ?sec @ drop (Suc k * ?b) (cluster_bytes v cs)"
      using less.prems by (intro drop_cluster_bytes v) auto
    have fits: "\<not> length ?sec < off + ?n" using sec less.prems by simp
    have step: "read_loop len v got (cs ! k) off =
      (if off + ?n = ?b then (case NextCluster (cs ! k) v of None \<Rightarrow> None | Some next \<Rightarrow> read_loop len v ?got next 0)
       else read_loop len v ?got (cs ! k) (off + ?n))"
      using more sec fits less.prems(2) by (subst read_loop.simps) (simp add: Let_def)
    show ?thesis
    proof (cases "off + ?n = ?b")
      case True
      then have n: "?n = ?b - off" using less.prems by simp
      have nx: "NextCluster (cs ! k) v = Some (cluster_at cs (Suc k))"
        using chain_next [OF ch less.prems(1)] by (simp add: cluster_at_def)
      have p'': "p' = Suc k * ?b + 0 + (len - length ?got)"
        using less.prems(2,4) n more unfolding got by (simp add: min_def split: if_splits)
      have t: "take (len - length got) (drop off ?sec @ drop (Suc k * ?b) (cluster_bytes v cs)) =
          take ?n (drop off ?sec) @ take (len - length ?got) (drop (Suc k * ?b) (cluster_bytes v cs))"
        using sec(2) n less.prems(2) unfolding got by (simp add: min_def split: if_splits)
      show ?thesis
      proof (cases "Suc k < length cs")
        case inside: True
        have "len - length ?got < len - length got" using more n less.prems(2) unfolding got by simp
        moreover have "len - length ?got \<le> length cs * ?b - (Suc k * ?b + 0)"
          using less.prems(2,3) n unfolding got by (simp add: algebra_simps)
        ultimately have "read_loop len v ?got (cs ! Suc k) 0 =
            Some (?got @ take (len - length ?got) (drop (Suc k * ?b + 0) (cluster_bytes v cs)),
              cluster_at cs (p' div ?b), p' mod ?b)"
          using less.hyps [of ?got "Suc k" 0] inside b p'' by blast
        then show ?thesis unfolding step data t using True nx inside by (simp add: cluster_at_def)
      next
        case last: False
        then have k: "length cs = Suc k" using less.prems(1) by simp
        then have "len - length got \<le> ?b - off" using less.prems(3) by (simp add: algebra_simps)
        then have stop: "len \<le> length ?got" using n less.prems(2) more unfolding got by simp
        then have "read_loop len v ?got (cluster_at cs (Suc k)) 0 = Some (?got, cluster_at cs (Suc k), 0)"
          by (rule read_loop_done)
        moreover have "p' = Suc k * ?b" using p'' stop by simp
        then have "p' div ?b = Suc k" "p' mod ?b = 0" using b by simp_all
        ultimately show ?thesis unfolding step data t if_P [OF True] nx option.case
          using stop by (simp only: diff_is_0_eq' take_0 append_Nil2)
      qed
    next
      case False
      then have n: "?n = len - length got" "off + (len - length got) < ?b" using less.prems(2) by (auto simp: min_def split: if_splits)
      then have "len \<le> length ?got" unfolding got by simp
      then have "read_loop len v ?got (cs ! k) (off + ?n) = Some (?got, cs ! k, off + ?n)"
        by (rule read_loop_done)
      moreover have "p' = off + ?n + k * ?b" using less.prems(4) n(1) by simp
      then have "p' div ?b = k" "p' mod ?b = off + ?n" using n b by simp_all
      ultimately show ?thesis unfolding step data using False n sec less.prems(1) by (simp add: cluster_at_def)
    qed
  qed
qed

text \<open>What is left to read, and the descriptors that read it.\<close>

definition unread :: "volume \<Rightarrow> FileDescriptor \<Rightarrow> u8 list" where
  "unread v fd = drop (rd_off fd) (file_bytes (fd_entry fd) v)"

definition readable :: "volume \<Rightarrow> FileDescriptor \<Rightarrow> bool" where
  "readable v fd \<longleftrightarrow> volume_ok v \<and> (\<exists>e cs. file_ok v (fd_entry fd) e cs \<and> rd_off fd \<le> unat (file_size e) \<and>
     place cs (bytes_per_cluster v) (rd_off fd) (rd_cluster fd) (rd_cluster_off fd))"

lemma new_readable: "volume_ok v \<Longrightarrow> file_ok v r e cs \<Longrightarrow> readable v (new_FileDescriptor r)"
  by (auto simp: readable_def new_FileDescriptor_def place_def)

lemma chain_cluster_at: "fat_chain fat cs \<Longrightarrow> cluster_at cs k \<noteq> 0"
  using chain_range [of fat cs "cs ! k"] by (auto simp: cluster_at_def kEndOfClusterchain_def)

lemma read_loop_place:
  assumes v: "volume_ok v" and f: "file_ok v r e cs" and pl: "place cs (bytes_per_cluster v) p c off"
    and p: "p \<le> length cs * bytes_per_cluster v" and n: "n \<le> length cs * bytes_per_cluster v - p"
  shows "\<exists>cl' off'. read_loop n v [] (if c = 0 then FirstCluster e else c) off =
      Some (take n (drop p (cluster_bytes v cs)), cl', off') \<and> place cs (bytes_per_cluster v) (p + n) cl' off'"
proof -
  let ?b = "bytes_per_cluster v" and ?cl = "if c = 0 then FirstCluster e else c"
  have b: "0 < ?b" using v by (simp add: volume_ok_def)
  show ?thesis
  proof (cases "cs = [] \<or> p = length cs * ?b")
    case True
    then have len: "n = 0" using n by auto
    have "place cs ?b p ?cl off"
    proof (cases "cs = []")
      case True
      then show ?thesis using pl f by (auto simp: place_def file_ok_def split: if_splits)
    next
      case False
      then show ?thesis using True pl b by (auto simp: place_def cluster_at_def kEndOfClusterchain_def)
    qed
    moreover have "read_loop n v [] ?cl off = Some ([], ?cl, off)"
      using len by (intro read_loop_done) simp
    ultimately show ?thesis using len by simp
  next
    case False
    then have ch: "fat_chain (fat_table v) cs" "hd cs = FirstCluster e" and k: "p div ?b < length cs"
      using f p b by (auto simp: file_ok_def less_mult_imp_div_less split: if_splits)
    have "cs ! (p div ?b) \<noteq> 0" using chain_cluster_at [OF ch(1), of "p div ?b"] k by (simp add: cluster_at_def)
    then have cl: "?cl = cs ! (p div ?b)" "off = p mod ?b"
      using pl ch k chain_nonempty [OF ch(1)] by (auto simp: place_def cluster_at_def hd_conv_nth)
    have p_eq: "p div ?b * ?b + p mod ?b = p" by simp
    have "read_loop n v [] (cs ! (p div ?b)) (p mod ?b) =
      Some ([] @ take (n - length ([] :: u8 list)) (drop (p div ?b * ?b + p mod ?b) (cluster_bytes v cs)),
        cluster_at cs ((p + n) div ?b), (p + n) mod ?b)"
      using n b by (intro read_loop_chain [OF v ch(1) k]) auto
    then have "read_loop n v [] ?cl off = Some (take n (drop p (cluster_bytes v cs)),
        cluster_at cs ((p + n) div ?b), (p + n) mod ?b)"
      unfolding cl p_eq by simp
    moreover have "place cs ?b (p + n) (cluster_at cs ((p + n) div ?b)) ((p + n) mod ?b)"
      using False p n by (auto simp: place_def)
    ultimately show ?thesis by blast
  qed
qed

lemma Read_ok:
  assumes "readable v fd"
  shows "\<exists>fd'. Read len v fd = Some (take len (unread v fd), fd') \<and> readable v fd' \<and> fd_entry fd' = fd_entry fd \<and>
    unread v fd' = drop len (unread v fd)"
proof -
  let ?b = "bytes_per_cluster v" and ?p = "rd_off fd"
  from assms obtain e cs where v: "volume_ok v" and f: "file_ok v (fd_entry fd) e cs" and p: "?p \<le> unat (file_size e)"
    and pl: "place cs ?b ?p (rd_cluster fd) (rd_cluster_off fd)" by (auto simp: readable_def)
  let ?size = "unat (file_size e)" and ?len = "min len (unat (file_size e) - rd_off fd)"
  have size: "?size \<le> length cs * ?b" and e: "get_entry (fd_entry fd) v = Some e" using f by (simp_all add: file_ok_def)
  have bytes: "unread v fd = take (?size - ?p) (drop ?p (cluster_bytes v cs))"
    unfolding unread_def file_ok_bytes(2) [OF f] by (simp add: drop_take)
  then have out: "take len (unread v fd) = take ?len (drop ?p (cluster_bytes v cs))" by (simp add: min.commute)
  have lout: "length (take ?len (drop ?p (cluster_bytes v cs))) = ?len"
    using size p by (simp add: length_cluster_bytes [OF v])
  have "?p \<le> length cs * ?b" "?len \<le> length cs * ?b - ?p" using size p by simp_all
  from read_loop_place [OF v f pl this] obtain cl' off' where
    loop: "read_loop ?len v [] (if rd_cluster fd = 0 then FirstCluster e else rd_cluster fd) (rd_cluster_off fd) =
      Some (take ?len (drop ?p (cluster_bytes v cs)), cl', off')" and pl': "place cs ?b (?p + ?len) cl' off'" by blast
  let ?fd = "fd\<lparr>rd_off := ?p + ?len, rd_cluster := cl', rd_cluster_off := off'\<rparr>"
  have "Read len v fd = Some (take len (unread v fd), ?fd)"
    unfolding Read_def e option.case Let_def size_sub_le [OF p] loop out prod.case lout ..
  moreover have "?p + ?len \<le> ?size" using p by simp
  then have "readable v ?fd"
    using v f pl' unfolding readable_def by (intro conjI exI [of _ e] exI [of _ cs]) simp_all
  moreover have "unread v ?fd = drop len (unread v fd)"
    using p by (simp add: unread_def bytes file_ok_bytes(2) [OF f] drop_take min_def) (simp add: algebra_simps)
  ultimately show ?thesis by (intro exI [of _ ?fd]) simp
qed

text \<open>\<^verbatim>\<open>Load\<close>, in the file and behind its end.\<close>

lemma load_seek_chain:
  assumes ch: "fat_chain (fat_table v) cs" and b: "0 < bytes_per_cluster v"
  shows "j + offset div bytes_per_cluster v \<le> length cs \<Longrightarrow>
    load_seek offset (cluster_at cs j) v =
      Some (offset mod bytes_per_cluster v, cluster_at cs (j + offset div bytes_per_cluster v))"
proof (induction offset arbitrary: j rule: less_induct)
  case (less offset)
  let ?b = "bytes_per_cluster v"
  show ?case
  proof (cases "?b \<le> offset")
    case True
    then have d: "offset div ?b = Suc ((offset - ?b) div ?b)" "offset mod ?b = (offset - ?b) mod ?b"
      using b by (simp_all add: le_div_geq le_mod_geq)
    then have j: "j < length cs" using less.prems by simp
    have "NextCluster (cluster_at cs j) v = Some (cluster_at cs (Suc j))"
      using chain_next [OF ch j] j by (simp add: cluster_at_def)
    moreover have "load_seek (offset - ?b) (cluster_at cs (Suc j)) v =
        Some ((offset - ?b) mod ?b, cluster_at cs (Suc j + (offset - ?b) div ?b))"
      using True b less.prems d by (intro less.IH) simp_all
    ultimately show ?thesis using True d by (subst load_seek.simps) simp
  next
    case False
    then show ?thesis by (subst load_seek.simps) simp
  qed
qed

lemma Load_at:
  assumes v: "volume_ok v" and f: "file_ok v (fd_entry fd) e cs" and o: "offset \<le> length cs * bytes_per_cluster v"
    and n: "n = min len (size_sub (unat (file_size e)) offset)" "n \<le> length cs * bytes_per_cluster v - offset"
  shows "Load len offset v fd = Some (take n (drop offset (cluster_bytes v cs)))"
proof -
  let ?b = "bytes_per_cluster v"
  have b: "0 < ?b" using v by (simp add: volume_ok_def)
  have e: "get_entry (fd_entry fd) v = Some e" using f by (simp add: file_ok_def)
  obtain c off where seek: "load_seek offset (FirstCluster e) v = Some (off, c)" and pl: "place cs ?b offset c off"
  proof (cases "FirstCluster e = 0")
    case True
    then have "cs = []" "offset = 0" using f o by (auto simp: file_ok_def)
    then have "load_seek offset (FirstCluster e) v = Some (0, 0)" using b True by (subst load_seek.simps) simp
    then show ?thesis using that \<open>offset = 0\<close> by (simp add: place_def)
  next
    case False
    then have ch: "fat_chain (fat_table v) cs" "cluster_at cs 0 = FirstCluster e"
      using f chain_nonempty [of "fat_table v" cs] by (auto simp: file_ok_def cluster_at_def hd_conv_nth)
    have "offset div ?b \<le> length cs" using o b by (metis div_le_mono div_mult_self_is_m)
    then have "load_seek offset (FirstCluster e) v = Some (offset mod ?b, cluster_at cs (offset div ?b))"
      using load_seek_chain [OF ch(1) b, of 0 offset] ch(2) by simp
    moreover have "place cs ?b offset (cluster_at cs (offset div ?b)) (offset mod ?b)"
      using o chain_nonempty [OF ch(1)] by (simp add: place_def)
    ultimately show ?thesis using that by blast
  qed
  from read_loop_place [OF v f pl o n(2)] obtain cl' off' where
    "read_loop n v [] (if c = 0 then FirstCluster e else c) off = Some (take n (drop offset (cluster_bytes v cs)), cl', off')"
    by blast
  then have "read_loop (min len (size_sub (unat (file_size e)) offset)) v [] (if c = 0 then FirstCluster e else c) off =
      Some (take n (drop offset (cluster_bytes v cs)), cl', off')" unfolding n(1) .
  then show ?thesis by (cases "c = 0") (simp_all add: Load_def e seek Read_def new_FileDescriptor_def)
qed

section \<open>The interface\<close>

text \<open>
  What the clients of the class \<^verbatim>\<open>FileDescriptor\<close> rely on: a read of \<open>n\<close> bytes gives the next \<open>n\<close>, fewer
  only at the end, and leaves the ones after them.
\<close>

locale byte_source =
  fixes rd :: "nat \<Rightarrow> 's \<Rightarrow> (u8 list \<times> 's) option"
    and left :: "'s \<Rightarrow> u8 list"
    and good :: "'s \<Rightarrow> bool"
  assumes rd: "good s \<Longrightarrow> \<exists>s'. rd n s = Some (take n (left s), s') \<and> good s' \<and> left s' = drop n (left s)"

text \<open>A sequence of reads.\<close>

fun reads :: "(nat \<Rightarrow> 's \<Rightarrow> (u8 list \<times> 's) option) \<Rightarrow> nat list \<Rightarrow> 's \<Rightarrow> (u8 list list \<times> 's) option" where
  "reads rd [] s = Some ([], s)"
| "reads rd (n # ns) s =
     (case rd n s of
        None \<Rightarrow> None
      | Some (bs, s') \<Rightarrow> map_option (\<lambda>(out, s''). (bs # out, s'')) (reads rd ns s'))"

text \<open>
  \<^verbatim>\<open>ReadDelim\<close>: \<open>n\<close> is what is left of \<open>len - 1\<close>, which wraps around for \<open>len = 0\<close>. The result is what
  the buffer then holds up to the NUL, and it returns the number of the bytes before it.
\<close>

fun delim_loop :: "(nat \<Rightarrow> 's \<Rightarrow> (u8 list \<times> 's) option) \<Rightarrow> u8 \<Rightarrow> nat \<Rightarrow> u8 list \<Rightarrow> 's \<Rightarrow> (u8 list \<times> 's) option" where
  "delim_loop rd delim 0 buf fd = Some (buf, fd)"
| "delim_loop rd delim (Suc n) buf fd =
     (case rd 1 fd of
        None \<Rightarrow> None
      | Some (bs, fd') \<Rightarrow>
          if bs = [] then Some (buf, fd')
          else if hd bs = delim then Some (buf @ bs, fd')
          else delim_loop rd delim n (buf @ bs) fd')"

definition ReadDelim :: "(nat \<Rightarrow> 's \<Rightarrow> (u8 list \<times> 's) option) \<Rightarrow> u8 \<Rightarrow> nat \<Rightarrow> 's \<Rightarrow> (nat \<times> u8 list \<times> 's) option" where
  "ReadDelim rd delim len fd =
     (case delim_loop rd delim (size_sub len 1) [] fd of
        None \<Rightarrow> None
      | Some (buf, fd') \<Rightarrow> Some (length buf, buf @ [0], fd'))"

text \<open>The bytes up to the first \<open>d\<close>, which is among them.\<close>

fun line :: "u8 \<Rightarrow> u8 list \<Rightarrow> u8 list" where
  "line d [] = []"
| "line d (c # cs) = (if c = d then [c] else c # line d cs)"

context byte_source
begin

lemma reads_left:
  "good s \<Longrightarrow> \<exists>out s'. reads rd ns s = Some (out, s') \<and> good s' \<and> length out = length ns \<and>
     concat out = take (sum_list ns) (left s) \<and> left s' = drop (sum_list ns) (left s)"
proof (induction ns arbitrary: s)
  case (Cons n ns)
  from rd [OF Cons.prems, of n] obtain s1 where s1: "rd n s = Some (take n (left s), s1)" "good s1" "left s1 = drop n (left s)"
    by blast
  from Cons.IH [OF s1(2)] obtain out s' where
    "reads rd ns s1 = Some (out, s')" "good s'" "length out = length ns"
    "concat out = take (sum_list ns) (left s1)" "left s' = drop (sum_list ns) (left s1)" by blast
  then show ?case using s1 by (simp add: take_add add.commute)
qed simp

lemma delim_loop_line:
  "good s \<Longrightarrow> \<exists>s'. delim_loop rd d n buf s = Some (buf @ take n (line d (left s)), s') \<and> good s' \<and>
     left s' = drop (length (take n (line d (left s)))) (left s)"
proof (induction n arbitrary: buf s)
  case (Suc n)
  from rd [OF Suc.prems, of 1] obtain s1 where s1: "rd 1 s = Some (take 1 (left s), s1)" "good s1" "left s1 = drop 1 (left s)"
    by blast
  show ?case
  proof (cases "left s")
    case Nil
    with s1 show ?thesis by simp
  next
    case (Cons c cs)
    with s1 Suc.IH [OF s1(2), of "buf @ [c]"] show ?thesis by auto
  qed
qed simp

lemma ReadDelim_line:
  assumes "good s" and "0 < len"
  shows "\<exists>s'. ReadDelim rd d len s = Some (min (len - 1) (length (line d (left s))), take (len - 1) (line d (left s)) @ [0], s') \<and>
     good s' \<and> left s' = drop (min (len - 1) (length (line d (left s)))) (left s)"
proof -
  from delim_loop_line [OF assms(1), of d "len - 1" "[]"] obtain s' where
    "delim_loop rd d (len - 1) [] s = Some (take (len - 1) (line d (left s)), s')" "good s'"
    "left s' = drop (length (take (len - 1) (line d (left s)))) (left s)" by auto
  then show ?thesis using assms(2) by (simp add: ReadDelim_def min.commute)
qed

end

interpretation fat_file: byte_source "\<lambda>n fd. Read n v fd" "unread v" "readable v" for v
  by unfold_locales (use Read_ok in blast)

text \<open>A volume of clusters of 32 bytes: a directory with one file of 40 bytes in two clusters.\<close>

definition sample_entry :: "u16 \<Rightarrow> u32 \<Rightarrow> DirectoryEntry" where
  "sample_entry c n =
     \<lparr>de_name = replicate 11 0x41, attr = 0x20, ntres = 0, create_time_tenth = 0, create_time = 0, create_date = 0,
      last_access_date = 0, first_cluster_high = 0, write_time = 0, write_date = 0, first_cluster_low = c, file_size = n\<rparr>"

definition sample_fs :: "DirectoryEntry \<Rightarrow> u32 list \<Rightarrow> volume" where
  "sample_fs e fat = sample_volume 32 fat
     (\<lambda>c. if c = 2 then store_entry e else if c = 3 then 0x61 # 0x0a # replicate 30 0x62 else replicate 32 0x63)"

lemma sample_entry_simps [simp]:
  "length (de_name (sample_entry c n)) = 11" "file_size (sample_entry c n) = n" "FirstCluster (sample_entry c n) = unat c"
  "de_name (sample_entry c n) = replicate 11 0x41"
  by (simp_all add: sample_entry_def FirstCluster_def)

lemma sample_fs_ok:
  assumes "length (de_name e) = 11" "length fat \<le> 0x0ffffff8" "2 < length fat"
  shows "volume_ok (sample_fs e fat)" "get_entry (2, 0) (sample_fs e fat) = Some e"
    "fat_table (sample_fs e fat) = fat" "bytes_per_cluster (sample_fs e fat) = 32"
  using assms load_store_entry [of e "[]"]
  by (simp_all add: sample_fs_def volume_ok_def get_entry_def GetSectorByCluster_def)

definition sample_read :: "volume" where
  "sample_read = sample_fs (sample_entry 3 40) [0, 0, 0x0fffffff, 4, 0x0fffffff, 0, 0, 0]"

lemma sample_read_ok: "volume_ok sample_read" "file_ok sample_read (2, 0) (sample_entry 3 40) [3, 4]"
  "bytes_per_cluster sample_read = 32" "cluster_bytes sample_read [3, 4] = 0x61 # 0x0a # replicate 30 0x62 @ replicate 32 0x63"
proof -
  note ok = sample_fs_ok [of "sample_entry 3 40" "[0, 0, 0x0fffffff, 4, 0x0fffffff, 0, 0, 0]", folded sample_read_def]
  show "volume_ok sample_read" "bytes_per_cluster sample_read = 32" by (rule ok; simp)+
  have "fat_chain (fat_table sample_read) [3, 4]" by (subst ok(3)) (simp_all add: IsEndOfClusterchain_def)
  then show "file_ok sample_read (2, 0) (sample_entry 3 40) [3, 4]"
    unfolding file_ok_def using ok(2,4) by simp
  show "cluster_bytes sample_read [3, 4] = 0x61 # 0x0a # replicate 30 0x62 @ replicate 32 0x63"
    by (simp add: cluster_bytes_def sample_read_def sample_fs_def)
qed

lemma sample_read_bytes: "file_bytes (2, 0) sample_read = 0x61 # 0x0a # replicate 30 0x62 @ replicate 8 0x63"
  using file_ok_bytes(2) [OF sample_read_ok(2)] by (simp add: sample_read_ok(4) take_Cons')

text \<open>
  Successive reads from a file give successive pieces of its bytes: together they are the first
  bytes of the file that have not been read, as many as were asked for and there are.
\<close>

lemma fat_reads:
  assumes "readable v fd"
  shows "\<exists>out fd'. reads (\<lambda>n fd. Read n v fd) ns fd = Some (out, fd') \<and> length out = length ns \<and>
    concat out = take (sum_list ns) (drop (rd_off fd) (file_bytes (fd_entry fd) v)) \<and>
    unread v fd' = drop (sum_list ns) (unread v fd) \<and> readable v fd'"
proof -
  from fat_file.reads_left [OF assms, of ns] obtain out fd' where
    "reads (\<lambda>n fd. Read n v fd) ns fd = Some (out, fd')" "readable v fd'" "length out = length ns"
    "concat out = take (sum_list ns) (unread v fd)" "unread v fd' = drop (sum_list ns) (unread v fd)" by blast
  then show ?thesis by (simp add: unread_def)
qed

text \<open>
  C35: \<^verbatim>\<open>ReadDelim\<close> on a file copies the bytes up to and with the delimiter, at most \<open>len - 1\<close> of them,
  ends them with a NUL inside the buffer and leaves the file behind the bytes it copied.
\<close>

lemma fat_read_line:
  assumes "readable v fd" and "0 < len"
    and copied: "copy = take (len - 1) (line d (drop (rd_off fd) (file_bytes (fd_entry fd) v)))"
  shows "\<exists>fd'. ReadDelim (\<lambda>n fd. Read n v fd) d len fd = Some (length copy, copy @ [0], fd') \<and> length (copy @ [0]) \<le> len \<and>
    unread v fd' = drop (length copy) (unread v fd) \<and> readable v fd'"
proof -
  from fat_file.ReadDelim_line [OF assms(1,2), of d] obtain fd' where
    "ReadDelim (\<lambda>n fd. Read n v fd) d len fd =
      Some (min (len - 1) (length (line d (unread v fd))), take (len - 1) (line d (unread v fd)) @ [0], fd')"
    "readable v fd'" "unread v fd' = drop (min (len - 1) (length (line d (unread v fd)))) (unread v fd)" by blast
  then show ?thesis using assms(2) by (intro exI [of _ fd']) (simp add: copied unread_def min.commute)
qed

text \<open>
  C32: \<^verbatim>\<open>Load\<close> with an offset in the file gives the bytes of the file from there on. With an offset
  behind the end the number of the bytes left wraps around, and it gives what the clusters hold there,
  which is not part of the file.
\<close>

lemma fat_load:
  assumes v: "volume_ok v" and f: "file_ok v (fd_entry fd) e cs" and o: "offset + len \<le> length cs * bytes_per_cluster v"
    and big: "length cs * bytes_per_cluster v < 2 ^ 62"
  shows "(offset \<le> unat (file_size e) \<longrightarrow> Load len offset v fd = Some (take len (drop offset (file_bytes (fd_entry fd) v)))) \<and>
    (unat (file_size e) < offset \<longrightarrow> Load len offset v fd = Some (take len (drop offset (cluster_bytes v cs))))"
proof (intro conjI impI)
  let ?size = "unat (file_size e)"
  have size: "?size \<le> length cs * bytes_per_cluster v" using f by (simp add: file_ok_def)
  show "Load len offset v fd = Some (take len (drop offset (file_bytes (fd_entry fd) v)))" if "offset \<le> ?size"
    using Load_at [OF v f _ refl, of offset len] o size that
    by (simp add: file_ok_bytes(2) [OF f] drop_take min.commute)
  show "Load len offset v fd = Some (take len (drop offset (cluster_bytes v cs)))" if "?size < offset"
  proof -
    have "size_sub ?size offset = 2 ^ 64 + ?size - offset" using that by (simp add: size_sub_def)
    then have "len \<le> size_sub ?size offset" using o big by simp
    then show ?thesis using Load_at [OF v f _ refl, of offset len] o by (simp add: min_def)
  qed
qed

lemma fat_reads_witness:
  "\<exists>out fd'. reads (\<lambda>n fd. Read n sample_read fd) [1, 3] (new_FileDescriptor (2, 0)) = Some (out, fd') \<and>
     concat out = [0x61, 0x0a, 0x62, 0x62]"
proof -
  have r: "readable sample_read (new_FileDescriptor (2, 0))" using sample_read_ok by (intro new_readable)
  have "take (sum_list [1, 3]) (drop (rd_off (new_FileDescriptor (2, 0)))
      (file_bytes (fd_entry (new_FileDescriptor (2, 0))) sample_read)) = [0x61, 0x0a, 0x62, 0x62]"
    by (simp add: new_FileDescriptor_def sample_read_bytes take_Cons') (simp add: numeral_2_eq_2)
  with fat_reads [OF r, of "[1, 3]"] show ?thesis by metis
qed

lemma fat_read_line_witness:
  "\<exists>fd'. ReadDelim (\<lambda>n fd. Read n sample_read fd) 0x0a 16 (new_FileDescriptor (2, 0)) = Some (2, [0x61, 0x0a, 0], fd')"
proof -
  have r: "readable sample_read (new_FileDescriptor (2, 0))" using sample_read_ok by (intro new_readable)
  have "[0x61, 0x0a] = take (16 - 1) (line 0x0a (drop (rd_off (new_FileDescriptor (2, 0)))
      (file_bytes (fd_entry (new_FileDescriptor (2, 0))) sample_read)))"
    by (simp add: new_FileDescriptor_def sample_read_bytes)
  from fat_read_line [OF r _ this] show ?thesis by auto
qed

lemma fat_load_witness:
  "Load 2 1 sample_read (new_FileDescriptor (2, 0)) = Some [0x0a, 0x62] \<and>
   Load 2 50 sample_read (new_FileDescriptor (2, 0)) = Some [0x63, 0x63]"
proof -
  note l = fat_load [OF sample_read_ok(1), of "new_FileDescriptor (2, 0)" "sample_entry 3 40" "[3, 4]"]
  have f: "file_ok sample_read (fd_entry (new_FileDescriptor (2, 0))) (sample_entry 3 40) [3, 4]"
    using sample_read_ok(2) by (simp add: new_FileDescriptor_def)
  have r: "replicate 30 (0x62 :: u8) = 0x62 # replicate 29 0x62" by (simp add: numeral_eq_Suc)
  have "take 2 (drop 1 (file_bytes (fd_entry (new_FileDescriptor (2, 0))) sample_read)) = [0x0a, 0x62]"
    by (simp add: new_FileDescriptor_def sample_read_bytes r take_Cons')
  moreover have "take 2 (drop 50 (cluster_bytes sample_read [3, 4])) = [0x63, 0x63]"
    by (simp add: sample_read_ok(4) drop_Cons' numeral_2_eq_2)
  moreover have "\<not> (50 :: nat) \<le> unat (file_size (sample_entry 3 40))" "(1 :: nat) \<le> unat (file_size (sample_entry 3 40))"
    "(50 :: nat) + 2 \<le> length [3, 4 :: nat] * bytes_per_cluster sample_read"
    "length [3, 4 :: nat] * bytes_per_cluster sample_read < 2 ^ 62"
    by (simp_all add: sample_read_ok)
  ultimately show ?thesis using l [OF f, of 1 2] l [OF f, of 50 2] by simp
qed

end
