(* ===== verification/FatWrite.thy ===== *)
theory FatWrite
  imports FatFile
begin

text \<open>
  \<^verbatim>\<open>Write\<close> of \<^verbatim>\<open>kernel/fat.cpp\<close>: chunks that do not cross a cluster boundary are appended and can be
  read back; a chunk that crosses one reads behind its buffer.
\<close>

section \<open>What a write leaves alone\<close>

lemma bytes_per_cluster_fat [simp]: "bytes_per_cluster (v\<lparr>fat_table := f\<rparr>) = bytes_per_cluster v"
  "bytes_per_cluster (v\<lparr>cluster_data := d\<rparr>) = bytes_per_cluster v"
  by (simp_all add: bytes_per_cluster_def)

lemma volume_ok_update:
  "volume_ok v \<Longrightarrow> length f = length (fat_table v) \<Longrightarrow> volume_ok (v\<lparr>fat_table := f\<rparr>)"
  "volume_ok v \<Longrightarrow> (\<And>c. length (d c) = length (cluster_data v c)) \<Longrightarrow> volume_ok (v\<lparr>cluster_data := d\<rparr>)"
  by (simp_all add: volume_ok_def)

lemma get_entry_fat: "length f = length (fat_table v) \<Longrightarrow> get_entry r (v\<lparr>fat_table := f\<rparr>) = get_entry r v"
  by (simp add: get_entry_def GetSectorByCluster_def)

lemma get_entry_data: "d (fst r) = cluster_data v (fst r) \<Longrightarrow> get_entry r (v\<lparr>cluster_data := d\<rparr>) = get_entry r v"
  by (simp add: get_entry_def GetSectorByCluster_def)

lemma get_entry_name: "get_entry r v = Some e \<Longrightarrow> length (de_name e) = 11"
  by (auto simp: get_entry_def load_entry_def split: option.splits if_splits)

lemma get_entry_range: "get_entry r v = Some e \<Longrightarrow> 2 \<le> fst r \<and> fst r < length (fat_table v) \<and> 32 * snd r + 32 \<le> length (cluster_data v (fst r))"
  by (auto simp: get_entry_def GetSectorByCluster_def split: option.splits if_splits)

lemma put_entry_ok:
  assumes v: "volume_ok v" and e: "get_entry r v = Some e" and e': "length (de_name e') = 11"
  shows "\<exists>d. put_entry r e' v = Some (v\<lparr>cluster_data := d\<rparr>) \<and> (\<forall>c. c \<noteq> fst r \<longrightarrow> d c = cluster_data v c) \<and>
    volume_ok (v\<lparr>cluster_data := d\<rparr>) \<and> get_entry r (v\<lparr>cluster_data := d\<rparr>) = Some e' \<and>
    (\<forall>s. s \<noteq> r \<longrightarrow> get_entry s (v\<lparr>cluster_data := d\<rparr>) = get_entry s v)"
proof -
  have "\<exists>v'. put_entry r e' v = Some v'"
    using get_entry_range [OF e] e' by (simp add: put_entry_def put_bytes_Some)
  then obtain v' where p: "put_entry r e' v = Some v'" by blast
  from put_bytes_frame [OF p [unfolded put_entry_def]] obtain d where
    d: "v' = v\<lparr>cluster_data := d\<rparr>" "\<forall>x. x \<noteq> fst r \<longrightarrow> d x = cluster_data v x" "\<forall>x. length (d x) = length (cluster_data v x)"
    by blast
  then show ?thesis using p get_put_entry [OF e' p] volume_ok_update(2) [OF v, of d] by blast
qed

text \<open>The entry lies in a cluster that is in use and not one of the file.\<close>

definition apart :: "volume \<Rightarrow> nat \<times> nat \<Rightarrow> nat list \<Rightarrow> bool" where
  "apart v r cs \<longleftrightarrow> fst r \<notin> set cs \<and> fst r < length (fat_table v) \<and> fat_table v ! fst r \<noteq> 0"

text \<open>What is in use beside the clusters \<open>cs\<close> and the entry \<open>r\<close> is the same in both volumes.\<close>

definition kept :: "volume \<Rightarrow> nat list \<Rightarrow> nat \<times> nat \<Rightarrow> volume \<Rightarrow> bool" where
  "kept v cs r v' \<longleftrightarrow> length (fat_table v') = length (fat_table v) \<and> bytes_per_cluster v' = bytes_per_cluster v \<and>
     (\<forall>c < length (fat_table v). fat_table v ! c \<noteq> 0 \<and> c \<notin> set cs \<longrightarrow>
        fat_table v' ! c = fat_table v ! c \<and> (c \<noteq> fst r \<longrightarrow> cluster_data v' c = cluster_data v c) \<and>
        (\<forall>i. (c, i) \<noteq> r \<longrightarrow> get_entry (c, i) v' = get_entry (c, i) v))"

text \<open>The clusters of the file after a step: new ones were free.\<close>

definition grown :: "volume \<Rightarrow> nat list \<Rightarrow> nat list \<Rightarrow> bool" where
  "grown v cs cs' \<longleftrightarrow> (\<forall>c \<in> set cs'. c \<in> set cs \<or> fat_table v ! c = 0)"

definition room :: "volume \<Rightarrow> nat list \<Rightarrow> nat" where
  "room v cs = length cs + length (free_from 2 (fat_table v))"

lemma kept_refl: "kept v cs r v"
  by (simp add: kept_def)

lemma grown_refl: "grown v cs cs"
  by (simp add: grown_def)

lemma kept_trans:
  assumes "kept v cs r v1" "grown v cs cs1" "kept v1 cs1 r v2"
  shows "kept v cs r v2"
  unfolding kept_def
proof (intro conjI allI impI, goal_cases)
  case (3 c)
  then have "fat_table v1 ! c = fat_table v ! c" "c \<notin> set cs1" "c < length (fat_table v1)"
    using assms(1,2) by (auto simp: kept_def grown_def)
  then show ?case using 3 assms by (simp add: kept_def)
next
  case (4 c)
  then have "fat_table v1 ! c = fat_table v ! c" "c \<notin> set cs1" "c < length (fat_table v1)"
    using assms(1,2) by (auto simp: kept_def grown_def)
  then show ?case using 4 assms by (simp add: kept_def)
next
  case (5 c i)
  then have "fat_table v1 ! c = fat_table v ! c" "c \<notin> set cs1" "c < length (fat_table v1)"
    using assms(1,2) by (auto simp: kept_def grown_def)
  then show ?case using 5 assms by (simp add: kept_def)
qed (use assms in \<open>simp_all add: kept_def\<close>)

lemma grown_trans:
  assumes "kept v cs r v1" "grown v cs cs1" "grown v1 cs1 cs2" "\<forall>c \<in> set cs2. c < length (fat_table v)"
  shows "grown v cs cs2"
proof (unfold grown_def, intro ballI, rule ccontr)
  fix c assume c: "c \<in> set cs2" and n: "\<not> (c \<in> set cs \<or> fat_table v ! c = 0)"
  then have "fat_table v1 ! c = fat_table v ! c" using assms(1,4) by (auto simp: kept_def)
  moreover have "c \<notin> set cs1" using n assms(2) by (auto simp: grown_def)
  ultimately show False using n c assms(3) by (auto simp: grown_def)
qed

lemma free_from_taken:
  assumes "length fat' = length fat" and new: "new = take n (free_from 2 fat)" and "\<forall>x \<in> set new. fat' ! x \<noteq> 0"
    and "\<forall>i < length fat. i \<notin> set new \<longrightarrow> (fat' ! i = 0 \<longleftrightarrow> fat ! i = 0)"
  shows "free_from 2 fat' = drop n (free_from 2 fat)"
proof -
  have "free_from 2 fat' = filter (\<lambda>i. i \<notin> set new) (free_from 2 fat)"
    unfolding free_from_def filter_filter assms(1) using assms(3,4) by (intro filter_cong) auto
  also have "\<dots> = filter (\<lambda>i. i \<notin> set new) (new @ drop n (free_from 2 fat))" by (simp add: new)
  also have "\<dots> = drop n (free_from 2 fat)"
  proof -
    have "distinct (new @ drop n (free_from 2 fat))" using free_from_props(2) [of fat] by (simp add: new)
    then have "\<forall>x \<in> set (drop n (free_from 2 fat)). x \<notin> set new" by auto
    then show ?thesis by (simp add: filter_id_conv)
  qed
  finally show ?thesis .
qed

section \<open>New clusters\<close>

lemma table_kept:
  assumes "length f = length (fat_table v)" "\<forall>i. i \<notin> set cs \<and> fat_table v ! i \<noteq> 0 \<longrightarrow> f ! i = fat_table v ! i"
  shows "kept v cs r (v\<lparr>fat_table := f\<rparr>)"
  using assms by (simp add: kept_def get_entry_fat)

lemma extend_one:
  assumes v: "volume_ok v" and ch: "fat_chain (fat_table v) cs" and free: "free_from 2 (fat_table v) \<noteq> []"
  shows "\<exists>x f. ExtendCluster (last cs) 1 v = Some (x, v\<lparr>fat_table := f\<rparr>) \<and> fat_chain f (cs @ [x]) \<and> volume_ok (v\<lparr>fat_table := f\<rparr>) \<and>
    length f = length (fat_table v) \<and> grown v cs (cs @ [x]) \<and> kept v cs r (v\<lparr>fat_table := f\<rparr>) \<and>
    room (v\<lparr>fat_table := f\<rparr>) (cs @ [x]) = room v cs"
proof -
  let ?fat = "fat_table v"
  obtain x xs where x: "free_from 2 ?fat = x # xs" using free by (cases "free_from 2 ?fat") auto
  have fx: "?fat ! x = 0" using free_from_props(1) [of ?fat] x by auto
  have cs: "cs \<noteq> []" "last cs \<in> set cs" using chain_nonempty [OF ch] by auto
  have len: "length ?fat \<le> 0x0ffffff8" using v by (simp add: volume_ok_def)
  from ExtendCluster_chain [OF ch cs(2) len refl, of 1] obtain f where
    f: "ExtendCluster (last cs) 1 v = Some (x, v\<lparr>fat_table := f\<rparr>)" "length f = length ?fat" "fat_chain f (cs @ [x])"
      "\<forall>i. i \<notin> {last cs, x} \<longrightarrow> f ! i = ?fat ! i" by (auto simp: x)
  have "free_from 2 f = drop 1 (free_from 2 ?fat)"
  proof (rule free_from_taken [OF f(2) refl])
    show "\<forall>y \<in> set (take 1 (free_from 2 ?fat)). f ! y \<noteq> 0" using chain_used [OF f(3)] by (simp add: x)
    have "f ! last cs \<noteq> 0" "?fat ! last cs \<noteq> 0" using chain_used [OF f(3)] chain_used [OF ch] cs(2) by auto
    then have "f ! i = 0 \<longleftrightarrow> ?fat ! i = 0" if "i \<noteq> x" for i using f(4) that by (cases "i = last cs") simp_all
    then show "\<forall>i < length ?fat. i \<notin> set (take 1 (free_from 2 ?fat)) \<longrightarrow> (f ! i = 0 \<longleftrightarrow> ?fat ! i = 0)"
      by (simp add: x)
  qed
  then have "room (v\<lparr>fat_table := f\<rparr>) (cs @ [x]) = room v cs" by (simp add: room_def x)
  moreover have "f ! i = ?fat ! i" if "i \<notin> set cs" "?fat ! i \<noteq> 0" for i
  proof -
    have "i \<noteq> last cs" "i \<noteq> x" using that cs(2) fx by auto
    with f(4) show ?thesis by simp
  qed
  then have "kept v cs r (v\<lparr>fat_table := f\<rparr>)" using f(2) by (intro table_kept) simp_all
  moreover have "grown v cs (cs @ [x])" using fx by (simp add: grown_def)
  ultimately show ?thesis using f volume_ok_update(1) [OF v f(2)] by blast
qed

lemma allocate_one:
  assumes v: "volume_ok v" and n: "n \<le> 1" and free: "free_from 2 (fat_table v) \<noteq> []"
  shows "\<exists>x f. AllocateClusterChain n v = Some (x, v\<lparr>fat_table := f\<rparr>) \<and> fat_chain f [x] \<and> volume_ok (v\<lparr>fat_table := f\<rparr>) \<and>
    length f = length (fat_table v) \<and> grown v [] [x] \<and> kept v [] r (v\<lparr>fat_table := f\<rparr>) \<and>
    room (v\<lparr>fat_table := f\<rparr>) [x] = room v []"
proof -
  let ?fat = "fat_table v"
  obtain x xs where x: "free_from 2 ?fat = x # xs" using free by (cases "free_from 2 ?fat") auto
  have fx: "?fat ! x = 0" using free_from_props(1) [of ?fat] x by auto
  have len: "length ?fat \<le> 0x0ffffff8" using v by (simp add: volume_ok_def)
  have n1: "AllocateClusterChain n v = AllocateClusterChain 1 v" using n
    by (auto simp: AllocateClusterChain_def split: option.split)
  from AllocateClusterChain_chain [OF len _ _ refl, of 1] obtain f where
    f: "AllocateClusterChain n v = Some (x, v\<lparr>fat_table := f\<rparr>)" "length f = length ?fat" "fat_chain f [x]"
      "\<forall>i. i \<noteq> x \<longrightarrow> f ! i = ?fat ! i" by (auto simp: x n1)
  have "free_from 2 f = drop 1 (free_from 2 ?fat)"
  proof (rule free_from_taken [OF f(2) refl])
    show "\<forall>y \<in> set (take 1 (free_from 2 ?fat)). f ! y \<noteq> 0" using chain_used [OF f(3)] by (simp add: x)
    show "\<forall>i < length ?fat. i \<notin> set (take 1 (free_from 2 ?fat)) \<longrightarrow> (f ! i = 0 \<longleftrightarrow> ?fat ! i = 0)"
      using f(4) by (auto simp: x)
  qed
  then have "room (v\<lparr>fat_table := f\<rparr>) [x] = room v []" by (simp add: room_def x)
  moreover have "kept v [] r (v\<lparr>fat_table := f\<rparr>)" using f(2,4) fx by (intro table_kept) auto
  moreover have "grown v [] [x]" using fx by (simp add: grown_def)
  ultimately show ?thesis using f volume_ok_update(1) [OF v f(2)] by blast
qed

lemma FirstCluster_set:
  assumes "c < 2 ^ 28"
  shows "FirstCluster (set_first_cluster c e) = c"
proof -
  have "ucast (of_nat c :: u16) OR push_bit 16 (ucast (of_nat (drop_bit 16 c) :: u16)) = (of_nat c :: u32)"
    by (rule bit_word_eqI) (auto simp: bit_simps)
  then show ?thesis
    using assms by (simp add: FirstCluster_def set_first_cluster_def drop_bit_eq_div)
qed

section \<open>The steps of a write\<close>

text \<open>\<open>W\<close> has been written, and the descriptor stands at its end, in the cluster \<open>c\<close>.\<close>

definition at_cluster :: "volume \<Rightarrow> nat \<times> nat \<Rightarrow> nat list \<Rightarrow> nat \<Rightarrow> nat \<Rightarrow> u8 list \<Rightarrow> bool" where
  "at_cluster v r cs c off W \<longleftrightarrow> volume_ok v \<and> fat_chain (fat_table v) cs \<and> apart v r cs \<and>
     (\<exists>e. get_entry r v = Some e \<and> FirstCluster e = hd cs) \<and>
     (\<exists>k < length cs. c = cs ! k \<and> off \<le> bytes_per_cluster v \<and> length W = k * bytes_per_cluster v + off) \<and>
     take (length W) (cluster_bytes v cs) = W"

lemma apart_kept:
  assumes "apart v r cs" "grown v cs cs'" "kept v cs r v'"
  shows "apart v' r cs'"
  using assms by (auto simp: apart_def grown_def kept_def)

lemma chain_end_neq:
  assumes "volume_ok v" "fat_chain (fat_table v) cs" "k < length cs"
  shows "cs ! k \<noteq> kEndOfClusterchain" "cs ! k \<noteq> 0"
  using chain_range [OF assms(2), of "cs ! k"] assms(1,3) by (auto simp: volume_ok_def kEndOfClusterchain_def)

lemma write_cluster_ok:
  assumes a: "at_cluster v r cs c off W" and n: "0 < n" "length W mod bytes_per_cluster v + n \<le> bytes_per_cluster v"
    and rm: "length W + n \<le> room v cs * bytes_per_cluster v"
  shows "\<exists>c' o' v' cs'. write_cluster n c off v = Some (c', o', v') \<and> at_cluster v' r cs' c' o' W \<and>
    o' = length W mod bytes_per_cluster v \<and> grown v cs cs' \<and> kept v cs r v' \<and> room v' cs' = room v cs"
proof -
  let ?b = "bytes_per_cluster v"
  from a obtain k e where v: "volume_ok v" and ch: "fat_chain (fat_table v) cs" and ap: "apart v r cs"
    and e: "get_entry r v = Some e" "FirstCluster e = hd cs"
    and k: "k < length cs" "c = cs ! k" and off: "off \<le> ?b" and W: "length W = k * ?b + off"
    and dat: "take (length W) (cluster_bytes v cs) = W" by (auto simp: at_cluster_def)
  have b: "0 < ?b" using v by (simp add: volume_ok_def)
  show ?thesis
  proof (cases "off = ?b")
    case False
    then have "write_cluster n c off v = Some (c, off, v)" "off = length W mod ?b"
      using off W by (simp_all add: write_cluster_def)
    with a show ?thesis using kept_refl grown_refl by blast
  next
    case full: True
    have W': "length W = Suc k * ?b" using W full by simp
    show ?thesis
    proof (cases "Suc k < length cs")
      case True
      have "NextCluster c v = Some (cs ! Suc k)" using chain_next [OF ch k(1)] k(2) True by simp
      then have "write_cluster n c off v = Some (cs ! Suc k, 0, v)"
        using full chain_end_neq(1) [OF v ch True] by (simp add: write_cluster_def)
      moreover have "at_cluster v r cs (cs ! Suc k) 0 W"
        using v ch ap e dat True W' b unfolding at_cluster_def by (intro conjI exI [of _ "Suc k"]) auto
      moreover have "0 = length W mod ?b" using W' by simp
      ultimately show ?thesis using kept_refl grown_refl by blast
    next
      case False
      then have len: "length cs = Suc k" using k(1) by simp
      then have c: "c = last cs" using k by (metis diff_Suc_1 last_conv_nth length_0_conv nat.distinct(1))
      have "NextCluster c v = Some kEndOfClusterchain" using chain_next [OF ch k(1)] k(2) False by simp
      moreover have "num_cluster v n = 1"
      proof -
        have "n \<le> ?b" using n by simp
        then have "n + ?b - 1 = ?b + (n - 1)" "n - 1 < ?b" using n(1) by simp_all
        then have "(n + ?b - 1) div ?b = 1" using b by (metis add.commute add_0_right div_add_self1 div_less less_irrefl plus_1_eq_Suc One_nat_def)
        then show ?thesis by (simp add: num_cluster_def)
      qed
      moreover have "Suc k * ?b < room v cs * ?b" using rm n(1) W' by simp
      then have "Suc k < room v cs" by (simp only: mult_less_cancel2)
      then have "length cs < room v cs" using len by simp
      then have "free_from 2 (fat_table v) \<noteq> []" by (auto simp: room_def)
      from extend_one [OF v ch this, of r] obtain x f where x: "ExtendCluster (last cs) 1 v = Some (x, v\<lparr>fat_table := f\<rparr>)"
        "fat_chain f (cs @ [x])" "volume_ok (v\<lparr>fat_table := f\<rparr>)" "length f = length (fat_table v)"
        "grown v cs (cs @ [x])" "kept v cs r (v\<lparr>fat_table := f\<rparr>)" "room (v\<lparr>fat_table := f\<rparr>) (cs @ [x]) = room v cs"
        by blast
      ultimately have "write_cluster n c off v = Some (x, 0, v\<lparr>fat_table := f\<rparr>)"
        using full c by (simp add: write_cluster_def)
      moreover have "at_cluster (v\<lparr>fat_table := f\<rparr>) r (cs @ [x]) x 0 W"
      proof -
        have "cluster_bytes (v\<lparr>fat_table := f\<rparr>) (cs @ [x]) = cluster_bytes v cs @ cluster_data v x"
          by (simp add: cluster_bytes_def)
        moreover have "length W \<le> length (cluster_bytes v cs)" using W' len by (simp add: length_cluster_bytes [OF v])
        ultimately have "take (length W) (cluster_bytes (v\<lparr>fat_table := f\<rparr>) (cs @ [x])) = W" using dat by simp
        moreover have "hd (cs @ [x]) = hd cs" using len by (cases cs) simp_all
        moreover have "(cs @ [x]) ! Suc k = x" using len by (simp add: nth_append)
        ultimately show ?thesis
          using x e ap apart_kept [OF ap x(5,6)] W' len unfolding at_cluster_def
          by (intro conjI exI [of _ "Suc k"] exI [of _ e]) (simp_all add: get_entry_fat)
      qed
      moreover have "0 = length W mod ?b" using W' by simp
      ultimately show ?thesis using x by blast
    qed
  qed
qed

lemma cluster_bytes_put:
  assumes v: "volume_ok v" and k: "k < length cs" and d: "distinct cs"
    and x: "length x = bytes_per_cluster v"
  shows "cluster_bytes (v\<lparr>cluster_data := (cluster_data v)(cs ! k := x)\<rparr>) cs =
    take (k * bytes_per_cluster v) (cluster_bytes v cs) @ x @ drop (Suc k * bytes_per_cluster v) (cluster_bytes v cs)"
proof -
  let ?v = "v\<lparr>cluster_data := (cluster_data v)(cs ! k := x)\<rparr>" and ?b = "bytes_per_cluster v"
  have cs: "cs = take k cs @ cs ! k # drop (Suc k) cs" using k by (rule id_take_nth_drop)
  have "cs ! k \<notin> set (take k cs)" "cs ! k \<notin> set (drop (Suc k) cs)"
    using d cs by (metis distinct_append distinct.simps(2) disjoint_insert(1) list.simps(15), metis d cs distinct_append distinct.simps(2))
  then have same: "cluster_bytes ?v (take k cs) = cluster_bytes v (take k cs)"
    "cluster_bytes ?v (drop (Suc k) cs) = cluster_bytes v (drop (Suc k) cs)"
    unfolding cluster_bytes_def by (auto intro!: arg_cong [of _ _ concat] map_cong)
  have split: "cluster_bytes w cs = cluster_bytes w (take k cs) @ cluster_data w (cs ! k) @ cluster_bytes w (drop (Suc k) cs)" for w
    using arg_cong [OF cs, of "cluster_bytes w"] by (simp only: cluster_bytes_def map_append list.map concat_append concat.simps)
  have "length (cluster_bytes v (take k cs)) = k * ?b" "length (cluster_data v (cs ! k)) = ?b"
    using v k by (simp_all add: length_cluster_bytes) (simp add: volume_ok_def)
  then have "take (k * ?b) (cluster_bytes v cs) = cluster_bytes v (take k cs)"
    "drop (Suc k * ?b) (cluster_bytes v cs) = cluster_bytes v (drop (Suc k) cs)"
    unfolding split [of v] by simp_all
  then show ?thesis unfolding split [of ?v] same by simp
qed

lemma put_data_ok:
  assumes a: "at_cluster v r cs c off W" and n: "off + length d \<le> bytes_per_cluster v"
  shows "\<exists>v'. put_bytes c off d v = Some v' \<and> at_cluster v' r cs c (off + length d) (W @ d) \<and>
    kept v cs r v' \<and> fat_table v' = fat_table v"
proof -
  let ?b = "bytes_per_cluster v"
  from a obtain k e where v: "volume_ok v" and ch: "fat_chain (fat_table v) cs" and ap: "apart v r cs"
    and e: "get_entry r v = Some e" "FirstCluster e = hd cs"
    and k: "k < length cs" "c = cs ! k" and off: "off \<le> ?b" and W: "length W = k * ?b + off"
    and dat: "take (length W) (cluster_bytes v cs) = W" by (auto simp: at_cluster_def)
  let ?x = "take off (cluster_data v c) @ d @ drop (off + length d) (cluster_data v c)"
  let ?v = "v\<lparr>cluster_data := (cluster_data v)(c := ?x)\<rparr>"
  have c: "2 \<le> c" "c < length (fat_table v)" "c \<in> set cs" using chain_range [OF ch] k by auto
  have len: "length (cluster_data v y) = ?b" for y using v by (simp add: volume_ok_def)
  have x: "length ?x = ?b" using n by (simp add: len)
  have put: "put_bytes c off d v = Some ?v" using c n by (intro put_bytes_Some) (simp_all add: len)
  have rc: "fst r \<noteq> c" using ap c by (auto simp: apart_def)
  then have g: "get_entry r ?v = get_entry r v" by (simp add: get_entry_data)
  have kept: "kept v cs r ?v" using c by (auto simp: kept_def intro: get_entry_data)
  have "length (cluster_bytes v cs) = length cs * ?b" by (rule length_cluster_bytes [OF v])
  moreover have "Suc k * ?b \<le> length cs * ?b" using k by (intro mult_right_mono) simp_all
  ultimately have kb: "Suc k * ?b \<le> length (cluster_bytes v cs)" by simp
  have "take off (drop (k * ?b) (cluster_bytes v cs)) = take off (cluster_data v c)"
    using drop_cluster_bytes [OF v k(1), of 0] off by (simp add: k(2) len)
  then have Wk: "W = take (k * ?b) (cluster_bytes v cs) @ take off (cluster_data v c)"
    using dat W by (simp add: take_add)
  have "take (length (W @ d)) (cluster_bytes ?v cs) = W @ d"
  proof -
    have "cluster_bytes ?v cs = take (k * ?b) (cluster_bytes v cs) @ ?x @ drop (Suc k * ?b) (cluster_bytes v cs)"
      using cluster_bytes_put [OF v k(1) chain_distinct [OF ch] x] k(2) by simp
    also have "\<dots> = W @ d @ drop (off + length d) (cluster_data v c) @ drop (Suc k * ?b) (cluster_bytes v cs)"
      by (simp add: Wk)
    finally show ?thesis by simp
  qed
  then have "at_cluster ?v r cs c (off + length d) (W @ d)"
    using v ch ap e k n W g volume_ok_update(2) [OF v, of "(cluster_data v)(c := ?x)"] x unfolding at_cluster_def
    by (intro conjI exI [of _ k] exI [of _ e]) (auto simp: apart_def len)
  with put kept show ?thesis by (intro exI [of _ ?v]) simp
qed

lemma put_entry_at:
  assumes v: "volume_ok v" and ap: "apart v r cs" and e: "get_entry r v = Some e" and n: "length (de_name e') = 11"
  shows "\<exists>v'. put_entry r e' v = Some v' \<and> volume_ok v' \<and> apart v' r cs \<and> get_entry r v' = Some e' \<and> kept v cs r v' \<and>
    fat_table v' = fat_table v \<and> bytes_per_cluster v' = bytes_per_cluster v \<and> cluster_bytes v' cs = cluster_bytes v cs"
proof -
  from put_entry_ok [OF v e n] obtain d where d: "put_entry r e' v = Some (v\<lparr>cluster_data := d\<rparr>)"
    "\<forall>c. c \<noteq> fst r \<longrightarrow> d c = cluster_data v c" "volume_ok (v\<lparr>cluster_data := d\<rparr>)"
    "get_entry r (v\<lparr>cluster_data := d\<rparr>) = Some e'" "\<forall>s. s \<noteq> r \<longrightarrow> get_entry s (v\<lparr>cluster_data := d\<rparr>) = get_entry s v"
    by blast
  have "cluster_bytes (v\<lparr>cluster_data := d\<rparr>) cs = cluster_bytes v cs"
    using ap d(2) unfolding cluster_bytes_def apart_def by (intro arg_cong [of _ _ concat] map_cong) (simp_all, metis)
  then show ?thesis using d ap by (intro exI [of _ "v\<lparr>cluster_data := d\<rparr>"]) (auto simp: kept_def apart_def)
qed

text \<open>A descriptor that has written \<open>W\<close>, or a fresh one.\<close>

definition writing :: "volume \<Rightarrow> FileDescriptor \<Rightarrow> nat list \<Rightarrow> u8 list \<Rightarrow> bool" where
  "writing v fd cs W \<longleftrightarrow> wr_off fd = length W \<and>
     (at_cluster v (fd_entry fd) cs (wr_cluster fd) (wr_cluster_off fd) W \<or>
      (W = [] \<and> wr_cluster fd = 0 \<and> wr_cluster_off fd = 0 \<and> volume_ok v \<and> apart v (fd_entry fd) cs \<and>
       (\<exists>e. get_entry (fd_entry fd) v = Some e \<and>
         (if FirstCluster e = 0 then cs = [] else fat_chain (fat_table v) cs \<and> hd cs = FirstCluster e))))"

lemma write_start_ok:
  assumes w: "writing v fd cs W" and n: "n \<le> bytes_per_cluster v" and rm: "0 < room v cs"
  shows "\<exists>c v' cs'. write_start n v fd = Some (c, v') \<and> at_cluster v' (fd_entry fd) cs' c (wr_cluster_off fd) W \<and>
    grown v cs cs' \<and> kept v cs (fd_entry fd) v' \<and> room v' cs' = room v cs"
proof (cases "at_cluster v (fd_entry fd) cs (wr_cluster fd) (wr_cluster_off fd) W")
  case True
  then have "wr_cluster fd \<noteq> 0" using chain_end_neq(2) [of v cs] by (auto simp: at_cluster_def)
  with True show ?thesis using kept_refl grown_refl by (auto simp: write_start_def)
next
  case False
  let ?r = "fd_entry fd"
  from w False obtain e where W: "W = []" and z: "wr_cluster fd = 0" "wr_cluster_off fd = 0" and v: "volume_ok v"
    and ap: "apart v ?r cs" and e: "get_entry ?r v = Some e"
    and cs: "if FirstCluster e = 0 then cs = [] else fat_chain (fat_table v) cs \<and> hd cs = FirstCluster e"
    by (auto simp: writing_def)
  show ?thesis
  proof (cases "FirstCluster e = 0")
    case False
    then have ch: "fat_chain (fat_table v) cs" "hd cs = FirstCluster e" using cs by simp_all
    then have k: "0 < length cs" "FirstCluster e = cs ! 0" using chain_nonempty [OF ch(1)] by (simp_all add: hd_conv_nth)
    have "at_cluster v ?r cs (FirstCluster e) 0 W"
      using v ch ap e k W unfolding at_cluster_def by (intro conjI exI [of _ 0] exI [of _ e]) simp_all
    moreover have "write_start n v fd = Some (FirstCluster e, v)" using z e False by (simp add: write_start_def)
    ultimately show ?thesis using kept_refl [of v cs ?r] grown_refl [of v cs] z by auto
  next
    case True
    then have nil: "cs = []" using cs by simp
    have "num_cluster v n \<le> 1"
    proof -
      have "(n + bytes_per_cluster v - 1) div bytes_per_cluster v < 2"
        using n v unfolding volume_ok_def by (intro less_mult_imp_div_less) linarith
      then show ?thesis by (simp add: num_cluster_def)
    qed
    moreover have "free_from 2 (fat_table v) \<noteq> []" using rm nil by (auto simp: room_def)
    ultimately obtain x f where x: "AllocateClusterChain (num_cluster v n) v = Some (x, v\<lparr>fat_table := f\<rparr>)"
      "fat_chain f [x]" "volume_ok (v\<lparr>fat_table := f\<rparr>)" "length f = length (fat_table v)" "grown v [] [x]"
      "kept v [] ?r (v\<lparr>fat_table := f\<rparr>)" "room (v\<lparr>fat_table := f\<rparr>) [x] = room v []"
      using allocate_one [OF v, of "num_cluster v n" ?r] by blast
    let ?v = "v\<lparr>fat_table := f\<rparr>" and ?e = "set_first_cluster x e"
    have ap': "apart ?v ?r [x]" using apart_kept [of v ?r "[]" "[x]" ?v] ap nil x(5,6) by simp
    have e': "get_entry ?r ?v = Some e" using e x(4) by (simp add: get_entry_fat)
    have "length (de_name ?e) = 11" using get_entry_name [OF e] by (simp add: set_first_cluster_def)
    from put_entry_at [OF x(3) ap' e' this] obtain v' where
      v': "put_entry ?r ?e ?v = Some v'" "volume_ok v'" "apart v' ?r [x]" "get_entry ?r v' = Some ?e" "kept ?v [x] ?r v'"
        "fat_table v' = f" "bytes_per_cluster v' = bytes_per_cluster ?v" by auto
    have "x < length f" using chain_range [OF x(2), of x] by simp
    then have "x < 2 ^ 28" using x(3,4) by (simp add: volume_ok_def)
    then have "FirstCluster ?e = x" by (rule FirstCluster_set)
    then have "at_cluster v' ?r [x] x 0 W"
      using v' x(2) W unfolding at_cluster_def by (intro conjI exI [of _ 0] exI [of _ ?e]) simp_all
    moreover have "write_start n v fd = Some (x, v')" using z e True x(1) v'(1) by (simp add: write_start_def)
    moreover have "kept v [] ?r v'" using kept_trans [OF x(6,5) v'(5)] .
    moreover have "room v' [x] = room v []" using x(7) v'(6) by (simp add: room_def)
    ultimately show ?thesis using x(5) z nil by auto
  qed
qed

lemma write_loop_chunk:
  assumes a: "at_cluster v r cs c off W" and fit: "length W mod bytes_per_cluster v + length d \<le> bytes_per_cluster v"
    and rm: "length W + length d \<le> room v cs * bytes_per_cluster v"
  shows "\<exists>c' off' v' cs'. write_loop d (length d) 0 c off v = Some (length d, c', off', v') \<and>
    at_cluster v' r cs' c' off' (W @ d) \<and> grown v cs cs' \<and> kept v cs r v' \<and> room v' cs' = room v cs"
proof (cases "d = []")
  case True
  then have "write_loop d (length d) 0 c off v = Some (length d, c, off, v)" by (subst write_loop.simps) simp
  with a True show ?thesis using kept_refl grown_refl by auto
next
  case False
  then have n: "0 < length d" by simp
  from write_cluster_ok [OF a n fit rm] obtain c1 o1 v1 cs1 where
    s1: "write_cluster (length d) c off v = Some (c1, o1, v1)" "at_cluster v1 r cs1 c1 o1 W" "o1 = length W mod bytes_per_cluster v"
      "grown v cs cs1" "kept v cs r v1" "room v1 cs1 = room v cs" by blast
  have b: "bytes_per_cluster v1 = bytes_per_cluster v" using s1(5) by (simp add: kept_def)
  then have fit1: "o1 + length d \<le> bytes_per_cluster v1" using fit s1(3) by simp
  from put_data_ok [OF s1(2) this] obtain v2 where
    s2: "put_bytes c1 o1 d v1 = Some v2" "at_cluster v2 r cs1 c1 (o1 + length d) (W @ d)" "kept v1 cs1 r v2" "fat_table v2 = fat_table v1"
    by blast
  have m: "min (length d) (size_sub (bytes_per_cluster v) o1) = length d" using fit1 b by simp
  have "write_loop d (length d) (length d) c1 (o1 + length d) v2 = Some (length d, c1, o1 + length d, v2)"
    by (subst write_loop.simps) simp
  then have "write_loop d (length d) 0 c off v = Some (length d, c1, o1 + length d, v2)"
    using s1(1) s2(1) n by (subst write_loop.simps) (simp add: m Let_def)
  moreover have "kept v cs r v2" using kept_trans [OF s1(5,4) s2(3)] .
  moreover have "room v2 cs1 = room v cs" using s1(6) s2(4) by (simp add: room_def)
  ultimately show ?thesis using s2(2) s1(4) by blast
qed

text \<open>A write that fits makes the file what was written so far.\<close>

lemma Write_ok:
  assumes w: "writing v fd cs W" and fit: "length W mod bytes_per_cluster v + length d \<le> bytes_per_cluster v"
    and rm: "length W + length d \<le> room v cs * bytes_per_cluster v" "0 < room v cs" and big: "length W + length d < 2 ^ 32"
  shows "\<exists>v' fd' cs'. Write d (length d) v fd = Some (length d, v', fd') \<and> writing v' fd' cs' (W @ d) \<and> fd_entry fd' = fd_entry fd \<and>
    file_bytes (fd_entry fd) v' = W @ d \<and> (\<exists>e. file_ok v' (fd_entry fd) e cs') \<and>
    grown v cs cs' \<and> kept v cs (fd_entry fd) v' \<and> room v' cs' = room v cs"
proof -
  let ?r = "fd_entry fd" and ?b = "bytes_per_cluster v"
  have "length d \<le> ?b" using fit by simp
  from write_start_ok [OF w this rm(2)] obtain c v1 cs1 where
    s1: "write_start (length d) v fd = Some (c, v1)" "at_cluster v1 ?r cs1 c (wr_cluster_off fd) W"
      "grown v cs cs1" "kept v cs ?r v1" "room v1 cs1 = room v cs" by blast
  have b1: "bytes_per_cluster v1 = ?b" using s1(4) by (simp add: kept_def)
  from write_loop_chunk [OF s1(2), of d] fit rm(1) b1 s1(5) obtain c2 o2 v2 cs2 where
    s2: "write_loop d (length d) 0 c (wr_cluster_off fd) v1 = Some (length d, c2, o2, v2)" "at_cluster v2 ?r cs2 c2 o2 (W @ d)"
      "grown v1 cs1 cs2" "kept v1 cs1 ?r v2" "room v2 cs2 = room v1 cs1" by auto
  from s2(2) obtain k e where v2: "volume_ok v2" "fat_chain (fat_table v2) cs2" "apart v2 ?r cs2" "get_entry ?r v2 = Some e"
    "FirstCluster e = hd cs2" and k: "k < length cs2" "c2 = cs2 ! k" "o2 \<le> bytes_per_cluster v2"
      "length (W @ d) = k * bytes_per_cluster v2 + o2"
    and dat: "take (length (W @ d)) (cluster_bytes v2 cs2) = W @ d" unfolding at_cluster_def by blast
  let ?e = "e\<lparr>file_size := of_nat (wr_off fd + length d)\<rparr>"
  have off: "wr_off fd = length W" using w by (simp add: writing_def)
  have "length (de_name ?e) = 11" using get_entry_name [OF v2(4)] by simp
  from put_entry_at [OF v2(1,3,4) this] obtain v3 where
    s3: "put_entry ?r ?e v2 = Some v3" "volume_ok v3" "apart v3 ?r cs2" "get_entry ?r v3 = Some ?e" "kept v2 cs2 ?r v3"
      "fat_table v3 = fat_table v2" "bytes_per_cluster v3 = bytes_per_cluster v2" "cluster_bytes v3 cs2 = cluster_bytes v2 cs2"
    by blast
  have fc: "FirstCluster ?e = hd cs2" using v2(5) by (simp add: FirstCluster_def)
  let ?fd = "fd\<lparr>wr_off := length W + length d, wr_cluster := c2, wr_cluster_off := o2\<rparr>"
  have "Write d (length d) v fd = Some (length d, v3, ?fd)"
    using s1(1) s2(1) v2(4) s3(1) by (simp add: Write_def off)
  moreover have "at_cluster v3 ?r cs2 c2 o2 (W @ d)"
    using s3 v2(2) fc k dat unfolding at_cluster_def by (intro conjI exI [of _ k] exI [of _ ?e]) simp_all
  then have "writing v3 ?fd cs2 (W @ d)" by (simp add: writing_def)
  moreover have size: "unat (file_size ?e) = length (W @ d)"
    using unat_of_nat_u32 [of "length W + length d"] big off by (simp del: of_nat_add unat_of_nat_u32)
  have lenb: "length (W @ d) \<le> length cs2 * bytes_per_cluster v3"
  proof -
    have "length (W @ d) \<le> Suc k * bytes_per_cluster v2" using k by simp
    also have "\<dots> \<le> length cs2 * bytes_per_cluster v2" using k(1) by (intro mult_right_mono) simp_all
    finally show ?thesis using s3(7) by simp
  qed
  have ne: "cs2 \<noteq> []" by (rule chain_nonempty [OF v2(2)])
  then have "cs2 ! 0 \<noteq> 0" by (intro chain_end_neq(2) [OF v2(1,2)]) simp
  then have "hd cs2 \<noteq> 0" using ne by (simp add: hd_conv_nth)
  then have fok: "file_ok v3 ?r ?e cs2"
    using s3(4,6) v2(2) fc lenb unfolding file_ok_def size by simp
  then have "file_bytes ?r v3 = W @ d" using file_ok_bytes(2) [OF fok] dat s3(8) unfolding size by simp
  moreover have "kept v cs ?r v3"
    using kept_trans [OF kept_trans [OF s1(4,3) s2(4)] _ s3(5)] grown_trans [OF s1(4,3) s2(3)] chain_range [OF v2(2)]
      s1(4) s2(4) by (simp add: kept_def)
  moreover have "grown v cs cs2"
    using grown_trans [OF s1(4,3) s2(3)] chain_range [OF v2(2)] s1(4) s2(4) by (simp add: kept_def)
  moreover have "room v3 cs2 = room v cs" using s1(5) s2(5) s3(6) by (simp add: room_def)
  ultimately show ?thesis using fok by (intro exI [of _ v3] exI [of _ ?fd] exI [of _ cs2]) auto
qed

section \<open>Sequences of writes\<close>

fun writes :: "u8 list list \<Rightarrow> volume \<Rightarrow> FileDescriptor \<Rightarrow> (nat list \<times> volume \<times> FileDescriptor) option" where
  "writes [] v fd = Some ([], v, fd)"
| "writes (d # ds) v fd =
     (case Write d (length d) v fd of
        None \<Rightarrow> None
      | Some (n, v', fd') \<Rightarrow> map_option (\<lambda>(ns, v'', fd''). (n # ns, v'', fd'')) (writes ds v' fd'))"

text \<open>No chunk crosses a multiple of \<open>b\<close>, from the position \<open>p\<close> on.\<close>

fun fits :: "nat \<Rightarrow> nat \<Rightarrow> u8 list list \<Rightarrow> bool" where
  "fits b p [] \<longleftrightarrow> True"
| "fits b p (d # ds) \<longleftrightarrow> p mod b + length d \<le> b \<and> fits b (p + length d) ds"

lemma writing_volume: "writing v fd cs W \<Longrightarrow> volume_ok v"
  by (auto simp: writing_def at_cluster_def)

lemma writes_ok:
  assumes "writing v fd cs W" "fits (bytes_per_cluster v) (length W) ds"
    "length W + length (concat ds) \<le> room v cs * bytes_per_cluster v" "0 < room v cs" "length W + length (concat ds) < 2 ^ 32"
  shows "\<exists>v' fd' cs'. writes ds v fd = Some (map length ds, v', fd') \<and> writing v' fd' cs' (W @ concat ds) \<and> fd_entry fd' = fd_entry fd \<and>
    (ds \<noteq> [] \<or> file_bytes (fd_entry fd) v = W \<and> (\<exists>e. file_ok v (fd_entry fd) e cs) \<longrightarrow>
       file_bytes (fd_entry fd) v' = W @ concat ds \<and> (\<exists>e. file_ok v' (fd_entry fd) e cs')) \<and>
    grown v cs cs' \<and> kept v cs (fd_entry fd) v' \<and> room v' cs' = room v cs \<and> (\<forall>c \<in> set cs'. c < length (fat_table v)) "
  using assms
proof (induction ds arbitrary: v fd cs W)
  case Nil
  then have "\<forall>c \<in> set cs. c < length (fat_table v)"
    using chain_range [of "fat_table v" cs] by (auto simp: writing_def at_cluster_def split: if_splits)
  with Nil show ?case using kept_refl [of v cs] grown_refl [of v cs] by auto
next
  case (Cons d ds)
  have fit: "length W mod bytes_per_cluster v + length d \<le> bytes_per_cluster v"
    and rest: "fits (bytes_per_cluster v) (length W + length d) ds" using Cons.prems(2) by simp_all
  from Write_ok [OF Cons.prems(1) fit _ Cons.prems(4)] Cons.prems(3,5) obtain v1 fd1 cs1 where
    s1: "Write d (length d) v fd = Some (length d, v1, fd1)" "writing v1 fd1 cs1 (W @ d)" "fd_entry fd1 = fd_entry fd"
      "file_bytes (fd_entry fd) v1 = W @ d" "\<exists>e. file_ok v1 (fd_entry fd) e cs1"
      "grown v cs cs1" "kept v cs (fd_entry fd) v1" "room v1 cs1 = room v cs" by auto
  have b: "bytes_per_cluster v1 = bytes_per_cluster v" "length (fat_table v1) = length (fat_table v)"
    using s1(7) by (simp_all add: kept_def)
  from Cons.IH [OF s1(2)] rest Cons.prems(3-5) b s1(8) obtain v2 fd2 cs2 where
    s2: "writes ds v1 fd1 = Some (map length ds, v2, fd2)" "writing v2 fd2 cs2 ((W @ d) @ concat ds)" "fd_entry fd2 = fd_entry fd"
      "file_bytes (fd_entry fd) v2 = (W @ d) @ concat ds \<and> (\<exists>e. file_ok v2 (fd_entry fd) e cs2)"
      "grown v1 cs1 cs2" "kept v1 cs1 (fd_entry fd) v2" "room v2 cs2 = room v1 cs1"
      "\<forall>c \<in> set cs2. c < length (fat_table v)"
    using s1(4,5) by (auto simp: s1(3))
  have "kept v cs (fd_entry fd) v2" using kept_trans [OF s1(7,6) s2(6)] .
  moreover have "grown v cs cs2" using grown_trans [OF s1(7,6) s2(5,8)] .
  ultimately show ?case using s1 s2 by (intro exI [of _ v2] exI [of _ fd2] exI [of _ cs2]) simp
qed

text \<open>
  C24: Chunks of data that are written to a file one after the other, none across the end of a cluster,
  are what the file holds afterwards and what is read back from it; every write returns the length of its
  chunk. Clusters are taken from the free ones as needed, as long as there are enough, and nothing else
  in use on the volume changes.
\<close>

theorem fat_write_read:
  assumes w: "writing v (new_FileDescriptor r) cs []" and ds: "ds \<noteq> []" "fits (bytes_per_cluster v) 0 ds"
    and rm: "length (concat ds) \<le> room v cs * bytes_per_cluster v" "0 < room v cs" and big: "length (concat ds) < 2 ^ 32"
  shows "\<exists>v' fd'. writes ds v (new_FileDescriptor r) = Some (map length ds, v', fd') \<and> file_bytes r v' = concat ds \<and>
    LoadFile n r v' = Some (take n (concat ds)) \<and> kept v cs r v'"
proof -
  have r: "fd_entry (new_FileDescriptor r) = r" by (simp add: new_FileDescriptor_def)
  from writes_ok [OF w, of ds] ds rm big obtain v' fd' cs' where
    s: "writes ds v (new_FileDescriptor r) = Some (map length ds, v', fd')" "writing v' fd' cs' (concat ds)"
      "file_bytes r v' = concat ds" "\<exists>e. file_ok v' r e cs'" "kept v cs r v'"
    by (auto simp: r)
  from s(4) obtain e where "file_ok v' r e cs'" by blast
  then have "readable v' (new_FileDescriptor r)" by (rule new_readable [OF writing_volume [OF s(2)]])
  from Read_ok [OF this, of n] have "LoadFile n r v' = Some (take n (concat ds))"
    using s(3) by (auto simp: LoadFile_def unread_def new_FileDescriptor_def)
  with s show ?thesis by blast
qed

text \<open>The volume of the reading example before the file was written.\<close>

definition sample_write :: "volume" where
  "sample_write = sample_fs (sample_entry 0 0) [0, 0, 0x0fffffff, 0, 0, 0, 0, 0]"

lemma sample_write_ok: "writing sample_write (new_FileDescriptor (2, 0)) [] []" "bytes_per_cluster sample_write = 32"
  "room sample_write [] = 5"
proof -
  note ok = sample_fs_ok [of "sample_entry 0 0" "[0, 0, 0x0fffffff, 0, 0, 0, 0, 0]", folded sample_write_def]
  show "bytes_per_cluster sample_write = 32" by (rule ok; simp)
  have f: "fat_table sample_write = [0, 0, 0x0fffffff, 0, 0, 0, 0, 0]" by (rule ok; simp)
  then show "room sample_write [] = 5" by (simp add: room_def free_from_def upt_conv_Cons)
  have "volume_ok sample_write" "get_entry (2, 0) sample_write = Some (sample_entry 0 0)" by (rule ok; simp)+
  then show "writing sample_write (new_FileDescriptor (2, 0)) [] []"
    by (simp add: writing_def new_FileDescriptor_def apart_def f)
qed

theorem fat_write_read_witness:
  "\<exists>v' fd'. writes [[1, 2], [3]] sample_write (new_FileDescriptor (2, 0)) = Some ([2, 1], v', fd') \<and>
     LoadFile 10 (2, 0) v' = Some [1, 2, 3]"
  using fat_write_read [OF sample_write_ok(1), of "[[1, 2], [3]]" 10] by (auto simp: sample_write_ok)

section \<open>A chunk that crosses a cluster boundary\<close>

lemma write_cluster_frame:
  assumes "write_cluster n c off v = Some (c', o', v')"
  shows "bytes_per_cluster v' = bytes_per_cluster v \<and> o' = (if off = bytes_per_cluster v then 0 else off)"
  using assms by (auto simp: write_cluster_def ExtendCluster_def split: if_splits option.splits prod.splits)

lemma write_loop_crossing:
  assumes "write_loop buf len t c off v = Some (n, c', off', v')" "0 < bytes_per_cluster v" "t < len"
    and "t = 0 \<and> off \<le> bytes_per_cluster v \<and> bytes_per_cluster v < off mod bytes_per_cluster v + len \<and>
           (off + len) mod bytes_per_cluster v \<noteq> 0 \<or>
         0 < t \<and> off = bytes_per_cluster v \<and> (len - t) mod bytes_per_cluster v \<noteq> 0"
  shows "len < n \<and> n \<le> length buf"
  using assms
proof (induction "len - t" arbitrary: t c off v rule: less_induct)
  case less
  let ?b = "bytes_per_cluster v"
  from less.prems(1,3) obtain c1 o1 v1 v2 where
    s1: "write_cluster (len - t) c off v = Some (c1, o1, v1)"
    and le: "t + min len (size_sub ?b o1) \<le> length buf"
    and s2: "put_bytes c1 o1 (take (min len (size_sub ?b o1)) (drop t buf)) v1 = Some v2"
    and s3: "write_loop buf len (t + min len (size_sub ?b o1)) c1 (o1 + min len (size_sub ?b o1)) v2 = Some (n, c', off', v')"
    by (subst (asm) write_loop.simps) (auto simp: Let_def split: option.splits prod.splits if_splits)
  have o1: "o1 = (if off = ?b then 0 else off)" and b1: "bytes_per_cluster v1 = ?b" using write_cluster_frame [OF s1] by simp_all
  have b2: "bytes_per_cluster v2 = ?b" using put_bytes_frame [OF s2] b1 by auto
  have o1': "o1 = off mod ?b" "o1 < ?b" using o1 less.prems(2,4) by auto
  then have m: "min len (size_sub ?b o1) = min len (?b - o1)" by simp
  have "len < t + min len (?b - o1) \<or>
      t + min len (?b - o1) < len \<and> min len (?b - o1) = ?b - o1 \<and> (len - (t + (?b - o1))) mod ?b \<noteq> 0"
  proof (cases "t = 0")
    case True
    then have p: "?b < o1 + len" "(off + len) mod ?b \<noteq> 0" using less.prems(2,4) o1' by auto
    have "(len - (?b - o1)) mod ?b = (len - (?b - o1) + ?b) mod ?b" by simp
    also have "len - (?b - o1) + ?b = o1 + len" using p o1' by simp
    also have "(o1 + len) mod ?b = (off + len) mod ?b" unfolding o1'(1) by (rule mod_add_left_eq)
    finally have "(len - (?b - o1)) mod ?b \<noteq> 0" using p(2) by simp
    moreover have "?b - o1 < len" using p(1) o1'(2) by linarith
    ultimately show ?thesis using True by simp
  next
    case False
    then have p: "off = ?b" "(len - t) mod ?b \<noteq> 0" using less.prems(4) by auto
    then have z: "o1 = 0" using o1 by simp
    show ?thesis
    proof (cases "len \<le> ?b")
      case True
      then show ?thesis using False z less.prems(3) by simp
    next
      case big: False
      show ?thesis
      proof (cases "len - t < ?b")
        case True
        then show ?thesis using big z less.prems(3) by simp
      next
        case ge: False
        have "len - t \<noteq> ?b" "(len - (t + ?b)) mod ?b = (len - t) mod ?b"
          using ge p(2) mod_self by (auto simp: le_mod_geq diff_diff_left)
        moreover have "t + ?b < len" using calculation(1) ge less.prems(3) by linarith
        ultimately show ?thesis using big p(2) z by simp
      qed
    qed
  qed
  then show ?case
  proof
    assume over: "len < t + min len (?b - o1)"
    then have "n = t + min len (?b - o1)"
      using s3 by (subst (asm) write_loop.simps) (simp add: m)
    with over le m show ?thesis by simp
  next
    assume h: "t + min len (?b - o1) < len \<and> min len (?b - o1) = ?b - o1 \<and> (len - (t + (?b - o1))) mod ?b \<noteq> 0"
    define t' where "t' = t + (?b - o1)"
    have t': "t' < len" "(len - t') mod ?b \<noteq> 0" using h by (auto simp only: t'_def)
    have "0 < t'" "len - t' < len - t" using o1'(2) less.prems(3) unfolding t'_def by linarith+
    moreover have "write_loop buf len t' c1 ?b v2 = Some (n, c', off', v')"
      using s3 o1'(2) h unfolding m t'_def by (simp only: le_add_diff_inverse less_imp_le)
    ultimately show ?thesis using less.hyps [of t' c1 ?b v2] t' less.prems(2) unfolding b2 by blast
  qed
qed

text \<open>
  A write that crosses the end of a cluster without ending on one copies too much: \<^verbatim>\<open>Write\<close> bounds each
  piece by the length of the whole buffer instead of by what is left of it. When it returns, it has
  read behind the buffer, counted more bytes than it was given and made the file that much longer.
\<close>

lemma fat_write_crossing:
  assumes wr: "Write buf len v fd = Some (n, v', fd')"
    and b: "0 < bytes_per_cluster v" "wr_cluster_off fd \<le> bytes_per_cluster v"
    and cross: "bytes_per_cluster v < wr_cluster_off fd mod bytes_per_cluster v + len"
      "(wr_cluster_off fd + len) mod bytes_per_cluster v \<noteq> 0"
  shows "len < n \<and> n \<le> length buf \<and> wr_off fd' = wr_off fd + n"
proof -
  from wr obtain c v1 c2 o2 v2 where s: "write_start len v fd = Some (c, v1)"
    "write_loop buf len 0 c (wr_cluster_off fd) v1 = Some (n, c2, o2, v2)" and off: "wr_off fd' = wr_off fd + n"
    by (auto simp: Write_def split: option.splits prod.splits)
  have b1: "bytes_per_cluster v1 = bytes_per_cluster v"
  proof -
    have al: "bytes_per_cluster w2 = bytes_per_cluster w" if "AllocateClusterChain k w = Some (x, w2)" for k w x w2
      using that by (auto simp: AllocateClusterChain_def ExtendCluster_def Let_def split: option.splits if_splits prod.splits)
    have pu: "bytes_per_cluster w2 = bytes_per_cluster w" if "put_entry r e w = Some w2" for r e w w2
      using put_bytes_frame [OF that [unfolded put_entry_def]] by auto
    show ?thesis using s(1) by (auto simp: write_start_def split: if_splits option.splits prod.splits dest!: al pu)
  qed
  have "0 < len"
    using cross(1) mod_less_divisor [OF b(1), of "wr_cluster_off fd"] by simp
  then have "len < n \<and> n \<le> length buf" using write_loop_crossing [OF s(2)] b b1 cross by simp
  with off show ?thesis by simp
qed

lemma fat_write_crossing_witness:
  "Write (replicate 33 0) 33 sample_write (new_FileDescriptor (2, 0)) = None"
proof (rule ccontr)
  assume "Write (replicate 33 0) 33 sample_write (new_FileDescriptor (2, 0)) \<noteq> None"
  then obtain n v' fd' where w: "Write (replicate 33 0) 33 sample_write (new_FileDescriptor (2, 0)) = Some (n, v', fd')"
    by auto
  show False using fat_write_crossing [OF w] by (auto simp: sample_write_ok new_FileDescriptor_def)
qed

end
