(* ===== verification/FatDir.thy ===== *)
theory FatDir
  imports FatWrite
begin

text \<open>
  \<^verbatim>\<open>kernel/fat.cpp\<close>, directories: looking a path up, finding a free entry and creating a file.
\<close>

section \<open>Looking up\<close>

text \<open>The first element of a path, the rest behind the slash, and whether there is a slash.\<close>

definition NextPathElement :: "u8 list \<Rightarrow> u8 list \<times> u8 list option \<times> bool" where
  "NextPathElement path =
     (case strchr path 0x2f of
        None \<Rightarrow> (path, None, False)
      | Some next_slash \<Rightarrow> (take next_slash path, Some (drop (Suc next_slash) path), True))"

datatype dir_scan = End_of_directory | Found nat | Cluster_done

text \<open>The loop over the entries of a cluster, of which \<open>n\<close> are left.\<close>

fun find_scan :: "u8 list \<Rightarrow> nat \<Rightarrow> volume \<Rightarrow> nat \<Rightarrow> nat \<Rightarrow> dir_scan option" where
  "find_scan elem c v i 0 = Some Cluster_done"
| "find_scan elem c v i (Suc n) =
     (case get_entry (c, i) v of
        None \<Rightarrow> None
      | Some e \<Rightarrow>
          if de_name e ! 0 = 0 then Some End_of_directory
          else if \<not> NameIsEqual e elem then find_scan elem c v (Suc i) n
          else Some (Found i))"

definition dir_entries :: "'a BPB_scheme \<Rightarrow> nat" where
  "dir_entries v = bytes_per_cluster v div 32"

partial_function (option) find_loop :: "u8 list \<Rightarrow> nat \<Rightarrow> volume \<Rightarrow> (nat \<times> nat) option option" where
  "find_loop elem directory_cluster v =
     (if directory_cluster = kEndOfClusterchain then Some None
      else case find_scan elem directory_cluster v 0 (dir_entries v) of
        None \<Rightarrow> None
      | Some End_of_directory \<Rightarrow> Some None
      | Some (Found i) \<Rightarrow> Some (Some (directory_cluster, i))
      | Some Cluster_done \<Rightarrow>
          (case NextCluster directory_cluster v of None \<Rightarrow> None | Some next \<Rightarrow> find_loop elem next v))"

text \<open>An element of 13 characters or more does not fit \<^verbatim>\<open>path_elem\<close>.\<close>

partial_function (option) FindFile :: "u8 list \<Rightarrow> nat \<Rightarrow> volume \<Rightarrow> ((nat \<times> nat) option \<times> bool) option" where
  "FindFile path directory_cluster v =
     (let absolute = (path \<noteq> [] \<and> hd path = 0x2f);
          dir = (if absolute \<or> directory_cluster = 0 then unat (root_cluster v) else directory_cluster);
          (path_elem, next_path, post_slash) = NextPathElement (if absolute then tl path else path)
      in if 13 \<le> length path_elem then None
         else case find_loop path_elem dir v of
           None \<Rightarrow> None
         | Some None \<Rightarrow> Some (None, post_slash)
         | Some (Some r) \<Rightarrow>
             (case get_entry r v of
                None \<Rightarrow> None
              | Some e \<Rightarrow>
                  (case next_path of
                     None \<Rightarrow> Some (Some r, post_slash)
                   | Some rest \<Rightarrow>
                       if attr e = kDirectory \<and> rest \<noteq> [] then FindFile rest (FirstCluster e) v
                       else Some (Some r, post_slash))))"

section \<open>Creating\<close>

fun free_scan :: "nat \<Rightarrow> volume \<Rightarrow> nat \<Rightarrow> nat \<Rightarrow> nat option option" where
  "free_scan c v i 0 = Some None"
| "free_scan c v i (Suc n) =
     (case get_entry (c, i) v of
        None \<Rightarrow> None
      | Some e \<Rightarrow> if de_name e ! 0 = 0 \<or> de_name e ! 0 = 0xe5 then Some (Some i) else free_scan c v (Suc i) n)"

text \<open>The loop of \<^verbatim>\<open>AllocateEntry\<close>: a free entry, or the last cluster of the directory.\<close>

partial_function (option) entry_loop :: "nat \<Rightarrow> volume \<Rightarrow> ((nat \<times> nat) + nat) option" where
  "entry_loop dir_cluster v =
     (case free_scan dir_cluster v 0 (dir_entries v) of
        None \<Rightarrow> None
      | Some (Some i) \<Rightarrow> Some (Inl (dir_cluster, i))
      | Some None \<Rightarrow>
          (case NextCluster dir_cluster v of
             None \<Rightarrow> None
           | Some next \<Rightarrow> if next = kEndOfClusterchain then Some (Inr dir_cluster) else entry_loop next v))"

definition AllocateEntry :: "nat \<Rightarrow> volume \<Rightarrow> ((nat \<times> nat) \<times> volume) option" where
  "AllocateEntry dir_cluster v =
     (case entry_loop dir_cluster v of
        None \<Rightarrow> None
      | Some (Inl r) \<Rightarrow> Some (r, v)
      | Some (Inr last_cluster) \<Rightarrow>
          (case ExtendCluster last_cluster 1 v of
             None \<Rightarrow> None
           | Some (c, v1) \<Rightarrow>
               map_option (\<lambda>v2. ((c, 0), v2)) (put_bytes c 0 (replicate (bytes_per_cluster v1) 0) v1)))"

text \<open>The end of \<^verbatim>\<open>CreateFile\<close>, with the cluster of the parent directory.\<close>

definition create_in :: "nat \<Rightarrow> u8 list \<Rightarrow> volume \<Rightarrow> ((kernel_error + nat \<times> nat) \<times> volume) option" where
  "create_in parent_dir_cluster filename v =
     (case AllocateEntry parent_dir_cluster v of
        None \<Rightarrow> None
      | Some (r, v1) \<Rightarrow>
          (case get_entry r v1 of
             None \<Rightarrow> None
           | Some e \<Rightarrow> map_option (\<lambda>v2. (Inr r, v2)) (put_entry r ((SetFileName e filename)\<lparr>file_size := 0\<rparr>) v1)))"

definition CreateFile :: "u8 list \<Rightarrow> volume \<Rightarrow> ((kernel_error + nat \<times> nat) \<times> volume) option" where
  "CreateFile path v =
     (case strrchr_pos path 0x2f of
        None \<Rightarrow> create_in (unat (root_cluster v)) path v
      | Some slash_pos \<Rightarrow>
          let filename = drop (Suc slash_pos) path; parent_dir_name = take slash_pos path
          in if filename = [] then Some (Inl kIsDirectory, v)
             else if parent_dir_name = [] then create_in (unat (root_cluster v)) filename v
             else (case FindFile parent_dir_name 0 v of
                     None \<Rightarrow> None
                   | Some (None, post_slash2) \<Rightarrow> Some (Inl kNoSuchEntry, v)
                   | Some (Some parent_dir, post_slash2) \<Rightarrow>
                       (case get_entry parent_dir v of
                          None \<Rightarrow> None
                        | Some e \<Rightarrow> create_in (FirstCluster e) filename v)))"

section \<open>A directory as a list\<close>

definition refs :: "'a BPB_scheme \<Rightarrow> nat list \<Rightarrow> (nat \<times> nat) list" where
  "refs v ds = concat (map (\<lambda>c. map (Pair c) [0..<dir_entries v]) ds)"

definition entry :: "volume \<Rightarrow> nat \<times> nat \<Rightarrow> DirectoryEntry" where
  "entry v r = (case get_entry r v of Some e \<Rightarrow> e | None \<Rightarrow> load_entry [])"

text \<open>The first entry of the list with a name, if an entry that ends the directory does not come first.\<close>

fun lookup :: "u8 list \<Rightarrow> volume \<Rightarrow> (nat \<times> nat) list \<Rightarrow> (nat \<times> nat) option option" where
  "lookup elem v [] = None"
| "lookup elem v (r # rs) =
     (if de_name (entry v r) ! 0 = 0 then Some None
      else if NameIsEqual (entry v r) elem then Some (Some r) else lookup elem v rs)"

definition is_free :: "volume \<Rightarrow> nat \<times> nat \<Rightarrow> bool" where
  "is_free v r \<longleftrightarrow> de_name (entry v r) ! 0 = 0 \<or> de_name (entry v r) ! 0 = 0xe5"

lemma lookup_append: "lookup elem v (xs @ ys) = (case lookup elem v xs of None \<Rightarrow> lookup elem v ys | Some x \<Rightarrow> Some x)"
  by (induction xs) auto

lemma lookup_cong: "(\<And>r. r \<in> set rs \<Longrightarrow> entry v' r = entry v r) \<Longrightarrow> lookup elem v' rs = lookup elem v rs"
  by (induction rs) auto

lemma lookup_used: "\<forall>r \<in> set rs. \<not> is_free v r \<Longrightarrow> lookup elem v rs \<noteq> Some None"
  by (induction rs) (auto simp: is_free_def)

lemma lookup_mem: "lookup elem v rs = Some (Some r) \<Longrightarrow> r \<in> set rs"
  by (induction rs) (auto split: if_splits)

lemma lookup_same_name: "(\<And>e. NameIsEqual e elem \<longleftrightarrow> NameIsEqual e name) \<Longrightarrow> lookup elem v rs = lookup name v rs"
  by (induction rs) auto

lemma refs_Cons: "refs v (c # ds) = map (Pair c) [0..<dir_entries v] @ refs v ds"
  by (simp add: refs_def)

lemma refs_append: "refs v (ds @ es) = refs v ds @ refs v es"
  by (simp add: refs_def)

lemma refs_mem: "r \<in> set (refs v ds) \<longleftrightarrow> fst r \<in> set ds \<and> snd r < dir_entries v"
  by (cases r) (fastforce simp: refs_def)

lemma distinct_refs: "distinct ds \<Longrightarrow> distinct (refs v ds)"
proof (induction ds)
  case Nil
  then show ?case by (simp add: refs_def)
next
  case (Cons c ds)
  then show ?case by (auto simp: refs_Cons distinct_map inj_on_def refs_mem)
qed

lemma get_entry_in:
  assumes v: "volume_ok v" and c: "2 \<le> c" "c < length (fat_table v)" and i: "i < dir_entries v"
  shows "get_entry (c, i) v = Some (entry v (c, i))"
proof -
  have "Suc i \<le> bytes_per_cluster v div 32" using i by (simp add: dir_entries_def)
  then have "Suc i * 32 \<le> bytes_per_cluster v" by (simp add: less_eq_div_iff_mult_less_eq)
  then show ?thesis using v c by (simp add: entry_def get_entry_def GetSectorByCluster_def volume_ok_def)
qed

lemma find_scan_lookup:
  assumes v: "volume_ok v" and c: "2 \<le> c" "c < length (fat_table v)"
  shows "i + n \<le> dir_entries v \<Longrightarrow> find_scan elem c v i n =
    Some (case lookup elem v (map (Pair c) [i..<i + n]) of
            None \<Rightarrow> Cluster_done | Some None \<Rightarrow> End_of_directory | Some (Some r) \<Rightarrow> Found (snd r))"
proof (induction n arbitrary: i)
  case (Suc n)
  have "[i..<i + Suc n] = i # [Suc i..<Suc i + n]" by (simp add: upt_conv_Cons)
  moreover have "get_entry (c, i) v = Some (entry v (c, i))" using get_entry_in [OF v c, of i] Suc.prems by simp
  ultimately show ?case using Suc.IH [of "Suc i"] Suc.prems by simp
qed simp

lemma free_scan_find:
  assumes v: "volume_ok v" and c: "2 \<le> c" "c < length (fat_table v)"
  shows "i + n \<le> dir_entries v \<Longrightarrow> free_scan c v i n = Some (map_option snd (find (is_free v) (map (Pair c) [i..<i + n])))"
proof (induction n arbitrary: i)
  case (Suc n)
  have "[i..<i + Suc n] = i # [Suc i..<Suc i + n]" by (simp add: upt_conv_Cons)
  moreover have "get_entry (c, i) v = Some (entry v (c, i))" using get_entry_in [OF v c, of i] Suc.prems by simp
  ultimately show ?case using Suc.IH [of "Suc i"] Suc.prems by (simp add: is_free_def)
qed simp

lemma lookup_fst: "lookup elem v (map (Pair c) is) = Some (Some r) \<Longrightarrow> r = (c, snd r)"
  by (induction "is") (auto split: if_splits)

lemma find_fst: "find P (map (Pair c) is) = Some r \<Longrightarrow> r = (c, snd r)"
  by (induction "is") (auto split: if_splits)

lemma find_append: "find P (xs @ ys) = (case find P xs of None \<Rightarrow> find P ys | Some x \<Rightarrow> Some x)"
  by (induction xs) auto

text \<open>The loops over the clusters search this list.\<close>

lemma find_loop_lookup:
  assumes v: "volume_ok v" and ch: "fat_chain (fat_table v) ds"
  shows "find_loop elem (hd ds) v = Some (case lookup elem v (refs v ds) of None \<Rightarrow> None | Some x \<Rightarrow> x)"
proof -
  have c_end: "c \<noteq> kEndOfClusterchain" if "c < length (fat_table v)" for c
    using that v by (auto simp: volume_ok_def kEndOfClusterchain_def)
  have "fat_table v = fat \<Longrightarrow> ?thesis" if "fat_chain fat ds" for fat
    using that
  proof (induction fat ds rule: fat_chain.induct)
    case (2 fat c)
    then have c: "2 \<le> c" "c < length (fat_table v)" and n: "NextCluster c v = Some kEndOfClusterchain"
      by (simp_all add: NextCluster_def fat_entry_def)
    have stop: "find_loop elem kEndOfClusterchain v = Some None" by (subst find_loop.simps) simp
    show ?case using find_scan_lookup [OF v c, of 0 "dir_entries v" elem] c_end [OF c(2)] n stop
        lookup_fst [of elem v c "[0..<dir_entries v]"]
      by (subst find_loop.simps) (auto simp: refs_Cons refs_def split: option.splits)
  next
    case (3 fat c d ds)
    then have c: "2 \<le> c" "c < length (fat_table v)" and n: "NextCluster c v = Some d"
      by (auto simp: NextCluster_def fat_entry_def)
    have IH: "find_loop elem d v = Some (case lookup elem v (refs v (d # ds)) of None \<Rightarrow> None | Some x \<Rightarrow> x)"
      using 3 by simp
    have split: "lookup elem v (refs v (c # d # ds)) =
        (case lookup elem v (map (Pair c) [0..<dir_entries v]) of None \<Rightarrow> lookup elem v (refs v (d # ds)) | Some x \<Rightarrow> Some x)"
      unfolding refs_Cons [of v c] lookup_append ..
    show ?case using find_scan_lookup [OF v c, of 0 "dir_entries v" elem] c_end [OF c(2)] n IH
        lookup_fst [of elem v c "[0..<dir_entries v]"] unfolding split
      by (subst find_loop.simps) (auto split: option.splits)
  qed simp
  with ch show ?thesis by blast
qed

lemma entry_loop_find:
  assumes v: "volume_ok v" and ch: "fat_chain (fat_table v) ds"
  shows "entry_loop (hd ds) v = Some (case find (is_free v) (refs v ds) of None \<Rightarrow> Inr (last ds) | Some r \<Rightarrow> Inl r)"
proof -
  have c_end: "c \<noteq> kEndOfClusterchain" if "c < length (fat_table v)" for c
    using that v by (auto simp: volume_ok_def kEndOfClusterchain_def)
  have "fat_table v = fat \<Longrightarrow> ?thesis" if "fat_chain fat ds" for fat
    using that
  proof (induction fat ds rule: fat_chain.induct)
    case (2 fat c)
    then have c: "2 \<le> c" "c < length (fat_table v)" and n: "NextCluster c v = Some kEndOfClusterchain"
      by (simp_all add: NextCluster_def fat_entry_def)
    show ?case using free_scan_find [OF v c, of 0 "dir_entries v"] n find_fst [of "is_free v" c "[0..<dir_entries v]"]
      by (subst entry_loop.simps) (auto simp: refs_Cons refs_def split: option.splits)
  next
    case (3 fat c d ds)
    then have c: "2 \<le> c" "c < length (fat_table v)" and n: "NextCluster c v = Some d" and d: "d \<noteq> kEndOfClusterchain"
      using chain_range [of fat "d # ds" d] c_end [of d] by (auto simp: NextCluster_def fat_entry_def)
    have IH: "entry_loop d v = Some (case find (is_free v) (refs v (d # ds)) of None \<Rightarrow> Inr (last (d # ds)) | Some r \<Rightarrow> Inl r)"
      using 3 by simp
    have split: "find (is_free v) (refs v (c # d # ds)) =
        (case find (is_free v) (map (Pair c) [0..<dir_entries v]) of None \<Rightarrow> find (is_free v) (refs v (d # ds)) | Some x \<Rightarrow> Some x)"
      unfolding refs_Cons [of v c] find_append ..
    show ?case using free_scan_find [OF v c, of 0 "dir_entries v"] n IH d find_fst [of "is_free v" c "[0..<dir_entries v]"]
      unfolding split by (subst entry_loop.simps) (auto split: option.splits)
  qed simp
  with ch show ?thesis by blast
qed

text \<open>
  The two loops over a directory are searches of one list, that of the entries of its clusters in the
  order of the chain: \<^verbatim>\<open>FindFile\<close> finds the first entry with the name before the first unused one, and
  \<^verbatim>\<open>AllocateEntry\<close> takes the first unused or deleted one.
\<close>

lemma fat_directory_list:
  assumes "volume_ok v" and "fat_chain (fat_table v) ds"
  shows "find_loop elem (hd ds) v = Some (case lookup elem v (refs v ds) of None \<Rightarrow> None | Some y \<Rightarrow> y) \<and>
    entry_loop (hd ds) v = Some (case find (is_free v) (refs v ds) of None \<Rightarrow> Inr (last ds) | Some r \<Rightarrow> Inl r)"
  using find_loop_lookup [OF assms] entry_loop_find [OF assms] by simp

lemma fat_directory_list_witness:
  "entry_loop 2 sample_write = Some (Inr 2)"
proof -
  note ok = sample_fs_ok [of "sample_entry 0 0" "[0, 0, 0x0fffffff, 0, 0, 0, 0, 0]", folded sample_write_def]
  have v: "volume_ok sample_write" and e: "get_entry (2, 0) sample_write = Some (sample_entry 0 0)"
    and f: "fat_table sample_write = [0, 0, 0x0fffffff, 0, 0, 0, 0, 0]" and b: "bytes_per_cluster sample_write = 32" by (rule ok; simp)+
  have "fat_chain (fat_table sample_write) [2]" by (simp add: f IsEndOfClusterchain_def)
  moreover have "find (is_free sample_write) (refs sample_write [2]) = None"
    using e by (simp add: refs_def dir_entries_def b is_free_def entry_def)
  ultimately show ?thesis using fat_directory_list [OF v, of "[2]" "[]"] by simp
qed

section \<open>A new entry\<close>

lemma root_cluster_kept: "root_cluster (v\<lparr>fat_table := f\<rparr>) = root_cluster v" "root_cluster (v\<lparr>cluster_data := d\<rparr>) = root_cluster v"
  by simp_all

lemma refs_cong: "bytes_per_cluster v' = bytes_per_cluster v \<Longrightarrow> refs v' ds = refs v ds"
  by (simp add: refs_def dir_entries_def)

lemma find_split: "find P xs = Some r \<Longrightarrow> \<exists>ys zs. xs = ys @ r # zs \<and> (\<forall>s \<in> set ys. \<not> P s)"
proof (induction xs)
  case (Cons x xs)
  show ?case
  proof (cases "P x")
    case True
    with Cons.prems have "x # xs = [] @ r # xs" by simp
    then show ?thesis by (metis empty_iff list.set(1))
  next
    case False
    with Cons obtain ys zs where "xs = ys @ r # zs" "\<forall>s \<in> set ys. \<not> P s" by auto
    with False have "x # xs = (x # ys) @ r # zs" "\<forall>s \<in> set (x # ys). \<not> P s" by simp_all
    then show ?thesis by blast
  qed
qed simp

lemma AllocateEntry_ok:
  assumes v: "volume_ok v" and ch: "fat_chain (fat_table v) ds" and n: "32 \<le> bytes_per_cluster v"
    and free: "free_from 2 (fat_table v) \<noteq> []"
  shows "\<exists>r v1 ds' xs ys. AllocateEntry (hd ds) v = Some (r, v1) \<and> volume_ok v1 \<and> fat_chain (fat_table v1) ds' \<and> hd ds' = hd ds \<and>
    root_cluster v1 = root_cluster v \<and> bytes_per_cluster v1 = bytes_per_cluster v \<and>
    refs v ds' = xs @ r # ys \<and> (\<forall>s \<in> set xs. \<not> is_free v s \<and> entry v1 s = entry v s) \<and>
    (refs v ds = xs \<or> refs v ds = xs @ r # ys \<and> v1 = v \<and> is_free v r)"
proof (cases "find (is_free v) (refs v ds)")
  case (Some r)
  then obtain xs ys where "refs v ds = xs @ r # ys" "\<forall>s \<in> set xs. \<not> is_free v s"
    using find_split by metis
  moreover have "is_free v r" using Some by (auto simp: find_Some_iff)
  moreover have "AllocateEntry (hd ds) v = Some (r, v)"
    using entry_loop_find [OF v ch] Some by (simp add: AllocateEntry_def)
  ultimately show ?thesis using v ch by blast
next
  case None
  then have used: "\<forall>s \<in> set (refs v ds). \<not> is_free v s" by (auto simp: find_None_iff)
  from extend_one [OF v ch free, of "(0, 0)"] obtain x f where x: "ExtendCluster (last ds) 1 v = Some (x, v\<lparr>fat_table := f\<rparr>)"
    "fat_chain f (ds @ [x])" "volume_ok (v\<lparr>fat_table := f\<rparr>)" "length f = length (fat_table v)"
    "grown v ds (ds @ [x])" "kept v ds (0, 0) (v\<lparr>fat_table := f\<rparr>)" by blast
  let ?b = "bytes_per_cluster v" and ?v = "v\<lparr>fat_table := f\<rparr>"
  have xr: "2 \<le> x" "x < length (fat_table ?v)" "x \<notin> set ds"
    using chain_range [OF x(2), of x] chain_distinct [OF x(2)] by auto
  have len: "length (cluster_data v x) = ?b" using v by (simp add: volume_ok_def)
  let ?d = "(cluster_data v)(x := replicate ?b 0)" and ?w = "v\<lparr>fat_table := f, cluster_data := (cluster_data v)(x := replicate ?b 0)\<rparr>"
  have "put_bytes x 0 (replicate (bytes_per_cluster ?v) 0) ?v = Some ?w"
    using xr len by (subst put_bytes_Some) (simp_all add: fun_upd_def)
  then have alloc: "AllocateEntry (hd ds) v = Some ((x, 0), ?w)"
    using entry_loop_find [OF v ch] None x(1) by (simp add: AllocateEntry_def)
  have w: "volume_ok ?w" by (rule volume_ok_update(2) [OF x(3)]) (simp add: len)
  have bw: "bytes_per_cluster ?w = ?b" by (simp add: bytes_per_cluster_def)
  have same: "entry ?w s = entry v s" if "s \<in> set (refs v ds)" for s
  proof -
    have "fst s \<noteq> x" using that xr(3) by (auto simp: refs_mem)
    then have "get_entry s ?w = get_entry s v" using x(4) by (simp add: get_entry_def GetSectorByCluster_def)
    then show ?thesis by (simp only: entry_def)
  qed
  have "dir_entries v \<noteq> 0" using n by (simp add: dir_entries_def div_greater_zero_iff)
  then obtain m where m: "dir_entries v = Suc m" by (cases "dir_entries v") auto
  have "refs v (ds @ [x]) = refs v ds @ (x, 0) # map (Pair x) [1..<Suc m]"
    by (simp add: refs_append refs_def m upt_conv_Cons del: upt_Suc)
  moreover have "hd (ds @ [x]) = hd ds" using chain_nonempty [OF ch] by simp
  moreover have "fat_chain (fat_table ?w) (ds @ [x])" "root_cluster ?w = root_cluster v" using x(2) by simp_all
  ultimately show ?thesis using alloc w bw used same by blast
qed

text \<open>Elements of a path that have no slash are looked up in the root directory.\<close>

lemma FindFile_single:
  assumes "0x2f \<notin> set name" "name \<noteq> []" "length name < 13"
  shows "FindFile name 0 v =
    (case find_loop name (unat (root_cluster v)) v of
       None \<Rightarrow> None
     | Some None \<Rightarrow> Some (None, False)
     | Some (Some r) \<Rightarrow> (case get_entry r v of None \<Rightarrow> None | Some e \<Rightarrow> Some (Some r, False)))"
proof -
  have "hd name \<noteq> 0x2f" using assms(1,2) by (metis hd_in_set)
  moreover have "NextPathElement name = (name, None, False)"
    using assms(1) by (auto simp: NextPathElement_def strchr_def find_idx_None_iff split: option.split dest!: find_idx_SomeD)
  ultimately show ?thesis using assms by (subst FindFile.simps) (auto simp: Let_def split: option.split)
qed

lemma CreateFile_single: "0x2f \<notin> set name \<Longrightarrow> CreateFile name v = create_in (unat (root_cluster v)) name v"
  by (simp add: CreateFile_def strrchr_pos_None)

lemma name_first:
  assumes "base_ext b x"
  shows "name83 b x ! 0 \<noteq> 0"
proof -
  obtain c cs where "b = c # cs" using assms by (cases b) (auto simp: base_ext_def)
  with assms show ?thesis using toupper_chars(1) [of c] by (simp add: name83_def pad_def base_ext_def name_chars_def)
qed

lemma join_name_props:
  assumes "base_ext b x"
  shows "0x2f \<notin> set (join_name b x)" "join_name b x \<noteq> []" "length (join_name b x) < 13"
  using assms by (auto simp: base_ext_def name_chars_def join_name_def)

text \<open>
  C25: A file that is created in the root directory under a name that is not there yet, with a cluster free,
  is found under its name afterwards, with its size 0; every entry that could be found before and is
  not a deleted one is still found under its name and is unchanged.
\<close>

theorem fat_create_find:
  assumes v: "volume_ok v" and n: "32 \<le> bytes_per_cluster v" and ch: "fat_chain (fat_table v) ds"
    and root: "hd ds = unat (root_cluster v)" and free: "free_from 2 (fat_table v) \<noteq> []"
    and name: "base_ext b x" and new: "FindFile (join_name b x) 0 v = Some (None, False)"
  shows "\<exists>r v' e. CreateFile (join_name b x) v = Some (Inr r, v') \<and> FindFile (join_name b x) 0 v' = Some (Some r, False) \<and>
    get_entry r v' = Some e \<and> de_name e = name83 b x \<and> file_size e = 0 \<and>
    (\<forall>elem s e'. find_loop elem (unat (root_cluster v)) v = Some (Some s) \<and> get_entry s v = Some e' \<and> de_name e' ! 0 \<noteq> 0xe5 \<longrightarrow>
       find_loop elem (unat (root_cluster v')) v' = Some (Some s) \<and> get_entry s v' = Some e')"
proof -
  let ?name = "join_name b x"
  from AllocateEntry_ok [OF v ch n free] obtain r v1 ds' xs ys where
    alloc: "AllocateEntry (hd ds) v = Some (r, v1)" and v1: "volume_ok v1" "fat_chain (fat_table v1) ds'" "hd ds' = hd ds"
      "root_cluster v1 = root_cluster v" "bytes_per_cluster v1 = bytes_per_cluster v" and rs: "refs v ds' = xs @ r # ys"
      and xs: "\<forall>s \<in> set xs. \<not> is_free v s \<and> entry v1 s = entry v s"
      and old: "refs v ds = xs \<or> refs v ds = xs @ r # ys \<and> v1 = v \<and> is_free v r" by blast
  have "r \<in> set (refs v ds')" by (simp add: rs)
  then have r: "fst r \<in> set ds'" "snd r < dir_entries v1" using v1(5) by (simp_all add: refs_mem dir_entries_def)
  have "get_entry r v1 = Some (entry v1 r)"
    using get_entry_in [OF v1(1), of "fst r" "snd r"] chain_range [OF v1(2) r(1)] r(2) by simp
  let ?e = "(SetFileName (entry v1 r) ?name)\<lparr>file_size := 0\<rparr>"
  have e: "?e = (entry v1 r)\<lparr>de_name := name83 b x, file_size := 0\<rparr>" by (simp add: SetFileName_join [OF name])
  have len: "length (de_name ?e) = 11" using name by (simp add: e name83_def base_ext_def)
  from put_entry_ok [OF v1(1) \<open>get_entry r v1 = _\<close> len] obtain d where
    d: "put_entry r ?e v1 = Some (v1\<lparr>cluster_data := d\<rparr>)" "volume_ok (v1\<lparr>cluster_data := d\<rparr>)"
      "get_entry r (v1\<lparr>cluster_data := d\<rparr>) = Some ?e" "\<forall>s. s \<noteq> r \<longrightarrow> get_entry s (v1\<lparr>cluster_data := d\<rparr>) = get_entry s v1"
    by blast
  let ?v = "v1\<lparr>cluster_data := d\<rparr>"
  have create: "CreateFile ?name v = Some (Inr r, ?v)"
    using alloc \<open>get_entry r v1 = _\<close> d(1) root
    by (simp add: CreateFile_single join_name_props [OF name] create_in_def)
  have ch': "fat_chain (fat_table ?v) ds'" and rt: "unat (root_cluster ?v) = hd ds'" "unat (root_cluster v) = hd ds"
    using v1 root by simp_all
  have refs: "refs ?v ds' = xs @ r # ys" using rs v1(5) refs_cong [of ?v v ds'] by simp
  have find': "find_loop elem (unat (root_cluster ?v)) ?v =
      Some (case lookup elem ?v (xs @ r # ys) of None \<Rightarrow> None | Some y \<Rightarrow> y)" for elem
    unfolding rt find_loop_lookup [OF d(2) ch'] refs ..
  have find: "find_loop elem (unat (root_cluster v)) v = Some (case lookup elem v (refs v ds) of None \<Rightarrow> None | Some y \<Rightarrow> y)" for elem
    unfolding rt by (rule find_loop_lookup [OF v ch])
  have dist: "r \<notin> set xs" "r \<notin> set ys"
    using distinct_refs [OF chain_distinct [OF v1(2)], of v] unfolding rs by simp_all
  have get': "get_entry s ?v = Some (entry ?v s)" if "s \<in> set (refs v ds')" for s
    using that get_entry_in [OF d(2), of "fst s" "snd s"] chain_range [OF ch', of "fst s"] v1(5)
    by (simp add: refs_mem dir_entries_def)
  have er: "entry ?v r = ?e" using d(3) by (simp add: entry_def)
  have other: "entry ?v s = entry v1 s" if "s \<noteq> r" for s
    using d(4) [rule_format, OF that] by (simp only: entry_def)
  have xs': "entry ?v s = entry v s" if "s \<in> set xs" for s using other [of s] xs dist(1) that by auto
  then have lxs: "lookup elem ?v xs = lookup elem v xs" for elem by (rule lookup_cong)
  have xs_used: "lookup elem v xs \<noteq> Some None" for elem using xs by (intro lookup_used) simp
  have none: "lookup ?name v (refs v ds) = None \<or> lookup ?name v (refs v ds) = Some None"
    using new find [of ?name] by (auto simp: FindFile_single join_name_props [OF name] split: option.splits)
  have none_xs: "lookup ?name v xs = None"
    using old none xs_used [of ?name] by (auto simp: lookup_append split: option.splits)
  have nz: "de_name ?e ! 0 \<noteq> 0" using name_first [OF name] by (simp add: e)
  have is_new: "NameIsEqual ?e ?name" using NameIsEqual_join [OF name, of ?e] by (simp add: e)
  have "lookup ?name ?v (xs @ r # ys) = Some (Some r)"
    using none_xs nz is_new by (simp add: lookup_append lxs er)
  then have "FindFile ?name 0 ?v = Some (Some r, False)"
    using find' [of ?name] d(3) by (simp add: FindFile_single join_name_props [OF name])
  moreover have "find_loop elem (unat (root_cluster ?v)) ?v = Some (Some s) \<and> get_entry s ?v = Some e'"
    if s: "find_loop elem (unat (root_cluster v)) v = Some (Some s)" "get_entry s v = Some e'" "de_name e' ! 0 \<noteq> 0xe5" for elem s e'
  proof -
    have l: "lookup elem v (refs v ds) = Some (Some s)" using s(1) find [of elem] by (simp split: option.splits)
    show ?thesis
    proof (cases "lookup elem v xs")
      case (Some y)
      then have "y = Some s" using l old by (auto simp: lookup_append)
      then have "s \<in> set xs" and found: "lookup elem ?v (xs @ r # ys) = Some (Some s)"
        using Some lookup_mem [of elem v xs s] lxs by (simp_all add: lookup_append)
      then have "get_entry s ?v = Some e'" using get' [of s] xs' [of s] s(2) by (simp add: rs entry_def)
      then show ?thesis using found find' by simp
    next
      case None
      then have old': "refs v ds = xs @ r # ys" "v1 = v" "is_free v r" using l old by auto
      have "de_name (entry v r) ! 0 \<noteq> 0 \<and> \<not> NameIsEqual (entry v r) elem \<and> lookup elem v ys = Some (Some s)"
        using l None s(2,3) old'(1,3) by (auto simp: lookup_append is_free_def entry_def split: if_splits)
      moreover have "\<not> NameIsEqual ?e elem"
      proof
        assume "NameIsEqual ?e elem"
        then have "lookup elem v (refs v ds) = lookup ?name v (refs v ds)"
          using is_new by (intro lookup_same_name) (simp add: NameIsEqual_def)
        with l none show False by simp
      qed
      moreover have "entry ?v t = entry v t" if "t \<in> set ys" for t using other [of t] that dist(2) old'(2) by auto
      then have "lookup elem ?v ys = lookup elem v ys" by (rule lookup_cong)
      ultimately have l': "lookup elem v ys = Some (Some s)" "lookup elem ?v (xs @ r # ys) = Some (Some s)"
        using None lxs nz by (simp_all add: lookup_append er)
      have "s \<noteq> r" using lookup_mem [OF l'(1)] dist(2) by auto
      from d(4) [rule_format, OF this] have "get_entry s ?v = Some e'" using s(2) by (simp only: old'(2))
      with l'(2) find' show ?thesis by simp
    qed
  qed
  moreover have "de_name ?e = name83 b x" "file_size ?e = 0" by (simp_all add: e)
  ultimately show ?thesis using create d(3) by blast
qed

theorem fat_create_find_witness:
  "\<exists>r v'. CreateFile [0x62, 0x2e, 0x63] sample_write = Some (Inr r, v') \<and>
     FindFile [0x62, 0x2e, 0x63] 0 v' = Some (Some r, False)"
proof -
  note ok = sample_fs_ok [of "sample_entry 0 0" "[0, 0, 0x0fffffff, 0, 0, 0, 0, 0]", folded sample_write_def]
  have v: "volume_ok sample_write" and e: "get_entry (2, 0) sample_write = Some (sample_entry 0 0)"
    and f: "fat_table sample_write = [0, 0, 0x0fffffff, 0, 0, 0, 0, 0]" and b: "bytes_per_cluster sample_write = 32" by (rule ok; simp)+
  have ch: "fat_chain (fat_table sample_write) [2]" by (simp add: f IsEndOfClusterchain_def)
  have root: "root_cluster sample_write = 2" by (simp add: sample_write_def sample_fs_def)
  have name: "base_ext [0x62] [0x63]" by (simp add: base_ext_def name_chars_def)
  have j: "join_name [0x62] [0x63] = [0x62, 0x2e, 0x63]" by (simp add: join_name_def)
  have refs: "refs sample_write [2] = [(2, 0)]" by (simp add: refs_def dir_entries_def b)
  have "name83 [0x62] [0x63] ! 0 = 0x42" by (simp add: name83_def pad_def toupper_def word_le_nat_alt)
  moreover have "de_name (sample_entry 0 0) ! 0 = 0x41" by simp
  ultimately have "de_name (sample_entry 0 0) \<noteq> name83 [0x62] [0x63]" by (auto dest!: arg_cong [of _ _ "\<lambda>s. s ! 0"])
  then have "\<not> NameIsEqual (sample_entry 0 0) (join_name [0x62] [0x63])"
    unfolding NameIsEqual_join [OF name] .
  then have "lookup (join_name [0x62] [0x63]) sample_write [(2, 0)] = None"
    using e by (simp add: entry_def)
  then have new: "FindFile (join_name [0x62] [0x63]) 0 sample_write = Some (None, False)"
    using find_loop_lookup [OF v ch, of "join_name [0x62] [0x63]"] root
    by (simp add: FindFile_single join_name_props [OF name] refs)
  have free: "free_from 2 (fat_table sample_write) \<noteq> []" by (simp add: f free_from_def upt_conv_Cons)
  have "(32 :: nat) \<le> bytes_per_cluster sample_write" "hd [2] = unat (root_cluster sample_write)" using b root by simp_all
  from fat_create_find [OF v this(1) ch this(2) free name new] show ?thesis unfolding j by blast
qed

end
