(* ===== verification/Paging.thy ===== *)
theory Paging
  imports MemoryManager
begin

text \<open>
  \<^verbatim>\<open>kernel/paging.cpp\<close>: the four-level page tables of the user half of the address space, over the
  allocator of page frames. Pages are found by their address; a page is 512 words.
\<close>

section \<open>Data\<close>

record paging_state =
  frame_pool :: frame_manager
  page_mem :: "u64 \<Rightarrow> u64 list"
  cr3 :: u64

text \<open>\<^verbatim>\<open>LinearAddress4Level\<close>: the offset and the parts that index the tables of the levels 1 to 4.\<close>

definition part_shift :: "nat \<Rightarrow> nat" where
  "part_shift level = (if level = 0 then 0 else 3 + 9 * level)"

definition part_width :: "nat \<Rightarrow> nat" where
  "part_width level = (if level = 0 then 12 else 9)"

definition Part :: "nat \<Rightarrow> u64 \<Rightarrow> nat" where
  "Part level a = (if level \<le> 4 then unat (take_bit (part_width level) (drop_bit (part_shift level) a)) else 0)"

definition SetPart :: "nat \<Rightarrow> nat \<Rightarrow> u64 \<Rightarrow> u64" where
  "SetPart level v a =
     (if level \<le> 4
      then (a AND NOT (push_bit (part_shift level) (mask (part_width level)))) OR
           push_bit (part_shift level) (take_bit (part_width level) (of_nat v))
      else a)"

text \<open>\<^verbatim>\<open>PageMapEntry\<close>: flags and the number of a page.\<close>

definition present :: "u64 \<Rightarrow> bool" where "present e = bit e 0"
definition writable :: "u64 \<Rightarrow> bool" where "writable e = bit e 1"
definition user :: "u64 \<Rightarrow> bool" where "user e = bit e 2"

definition set_flag :: "nat \<Rightarrow> bool \<Rightarrow> u64 \<Rightarrow> u64" where
  "set_flag n b e = (if b then set_bit n e else unset_bit n e)"

definition Pointer :: "u64 \<Rightarrow> u64" where
  "Pointer e = push_bit 12 (take_bit 40 (drop_bit 12 e))"

definition SetPointer :: "u64 \<Rightarrow> u64 \<Rightarrow> u64" where
  "SetPointer p e = (e AND NOT (push_bit 12 (mask 40))) OR push_bit 12 (take_bit 40 (drop_bit 12 p))"

definition get_pte :: "u64 \<Rightarrow> nat \<Rightarrow> paging_state \<Rightarrow> u64" where
  "get_pte p i w = page_mem w p ! i"

definition set_pte :: "u64 \<Rightarrow> nat \<Rightarrow> u64 \<Rightarrow> paging_state \<Rightarrow> paging_state" where
  "set_pte p i e w = w\<lparr>page_mem := (page_mem w)(p := (page_mem w p)[i := e])\<rparr>"

section \<open>Setting up\<close>

definition NewPageMap :: "paging_state \<Rightarrow> ((kernel_error + u64) \<times> paging_state) option" where
  "NewPageMap w =
     (case Allocate 1 (frame_pool w) of
        None \<Rightarrow> None
      | Some (Inl e, m) \<Rightarrow> Some (Inl e, w\<lparr>frame_pool := m\<rparr>)
      | Some (Inr f, m) \<Rightarrow>
          Some (Inr (f * kBytesPerFrame), w\<lparr>frame_pool := m, page_mem := (page_mem w)(f * kBytesPerFrame := replicate 512 0)\<rparr>))"

definition FreePageMap :: "u64 \<Rightarrow> paging_state \<Rightarrow> (kernel_error \<times> paging_state) option" where
  "FreePageMap p w =
     map_option (\<lambda>(e, m). (e, w\<lparr>frame_pool := m\<rparr>)) (Free (p div kBytesPerFrame) 1 (frame_pool w))"

definition SetNewPageMapIfNotPresent :: "u64 \<Rightarrow> nat \<Rightarrow> paging_state \<Rightarrow> ((kernel_error + u64) \<times> paging_state) option" where
  "SetNewPageMapIfNotPresent p i w =
     (if present (get_pte p i w) then Some (Inr (Pointer (get_pte p i w)), w)
      else case NewPageMap w of
        None \<Rightarrow> None
      | Some (Inl e, w1) \<Rightarrow> Some (Inl e, w1)
      | Some (Inr child_map, w1) \<Rightarrow>
          Some (Inr child_map, set_pte p i (set_flag 0 True (SetPointer child_map (get_pte p i w1))) w1))"

text \<open>The address of the next entry: the part is increased and the parts below it are 0.\<close>

fun clear_parts :: "nat \<Rightarrow> u64 \<Rightarrow> u64" where
  "clear_parts 0 a = a"
| "clear_parts (Suc level) a = clear_parts level (SetPart (Suc level) 0 a)"

definition next_entry :: "nat \<Rightarrow> nat \<Rightarrow> u64 \<Rightarrow> u64" where
  "next_entry level i a = clear_parts (level - 1) (SetPart level (i + 1) a)"

lemma Part_less: "Part (Suc l) a < 512"
  using take_bit_nat_less_exp [of 9 "unat (drop_bit (part_shift (Suc l)) a)"]
  by (simp add: Part_def part_width_def unsigned_take_bit_eq)

lemma bit_SetPart:
  assumes "l \<le> 4" and "n < 64"
  shows "bit (SetPart l v a) n \<longleftrightarrow>
    (if part_shift l \<le> n \<and> n < part_shift l + part_width l then bit v (n - part_shift l) else bit a n)"
  using assms by (auto simp: SetPart_def bit_simps)

lemma parts_apart: "k < l \<Longrightarrow> part_shift k + part_width k \<le> part_shift l"
  by (auto simp: part_shift_def part_width_def)

lemma part_end: "l \<le> 4 \<Longrightarrow> part_shift l + part_width l \<le> 48"
  by (auto simp: part_shift_def part_width_def)

lemma Part_SetPart_other:
  assumes "l \<le> 4" "k \<le> 4" "k \<noteq> l"
  shows "Part k (SetPart l v a) = Part k a"
proof -
  have "take_bit (part_width k) (drop_bit (part_shift k) (SetPart l v a)) = take_bit (part_width k) (drop_bit (part_shift k) a)"
  proof (rule bit_word_eqI)
    fix n
    have "k < l \<or> l < k" using assms(3) by auto
    then have "n < part_width k \<Longrightarrow> \<not> (part_shift l \<le> part_shift k + n \<and> part_shift k + n < part_shift l + part_width l)"
      using parts_apart [of k l] parts_apart [of l k] by auto
    moreover have "n < part_width k \<Longrightarrow> part_shift k + n < 64" using part_end [OF assms(2)] by auto
    ultimately show "bit (take_bit (part_width k) (drop_bit (part_shift k) (SetPart l v a))) n =
        bit (take_bit (part_width k) (drop_bit (part_shift k) a)) n"
      using bit_SetPart [OF assms(1), of "part_shift k + n" v a] by (auto simp: bit_simps)
  qed
  then show ?thesis by (simp add: Part_def)
qed

lemma Part_SetPart_same:
  assumes "l \<le> 4"
  shows "Part l (SetPart l v a) = v mod 2 ^ part_width l"
proof -
  have "take_bit (part_width l) (drop_bit (part_shift l) (SetPart l v a)) = take_bit (part_width l) (of_nat v)"
  proof (rule bit_word_eqI)
    fix n
    have "n < part_width l \<Longrightarrow> part_shift l + n < 64" using part_end [OF assms] by auto
    then show "bit (take_bit (part_width l) (drop_bit (part_shift l) (SetPart l v a))) n = bit (take_bit (part_width l) (of_nat v :: u64)) n"
      using bit_SetPart [OF assms, of "part_shift l + n" v a] by (auto simp: bit_simps)
  qed
  moreover have "part_width l \<le> 64" by (simp add: part_width_def)
  ultimately show ?thesis using assms
    by (simp add: Part_def take_bit_eq_mod [symmetric] unsigned_take_bit_eq unsigned_of_nat min_def)
qed

text \<open>The number of a page inside the tables of a level.\<close>

fun page_number :: "nat \<Rightarrow> u64 \<Rightarrow> nat" where
  "page_number 0 a = 0"
| "page_number (Suc l) a = Part (Suc l) a * 512 ^ l + page_number l a"

lemma page_number_less: "page_number l a < 512 ^ l"
proof (induction l)
  case (Suc l)
  have "Part (Suc l) a * 512 ^ l \<le> 511 * 512 ^ l" using Part_less [of l a] by (intro mult_right_mono) simp_all
  with Suc show ?case unfolding page_number.simps power_Suc by linarith
qed simp

lemma page_number_parts: "page_number (Suc l) a div 512 ^ l = Part (Suc l) a" "page_number (Suc l) a mod 512 ^ l = page_number l a"
  using page_number_less [of l a] by simp_all

lemma page_number_cong: "(\<And>k. 0 < k \<Longrightarrow> k \<le> l \<Longrightarrow> Part k a = Part k b) \<Longrightarrow> page_number l a = page_number l b"
  by (induction l) auto

lemma clear_parts_Part:
  "l \<le> 4 \<Longrightarrow> k \<le> 4 \<Longrightarrow> Part k (clear_parts l a) = (if 0 < k \<and> k \<le> l then 0 else Part k a)"
proof (induction l arbitrary: a)
  case (Suc l)
  then show ?case by (cases "k = Suc l") (simp_all add: Part_SetPart_other Part_SetPart_same)
qed simp

lemma page_number_clear: "l \<le> 4 \<Longrightarrow> page_number l (clear_parts l a) = 0"
proof -
  have "k \<le> l \<Longrightarrow> l \<le> 4 \<Longrightarrow> page_number k (clear_parts l a) = 0" for k
    by (induction k) (simp_all add: clear_parts_Part)
  then show "l \<le> 4 \<Longrightarrow> ?thesis" by simp
qed

lemma next_entry_number:
  assumes "Suc l \<le> 4" "i < 511"
  shows "page_number (Suc l) (next_entry (Suc l) i a) = (i + 1) * 512 ^ l"
  using assms by (simp add: next_entry_def clear_parts_Part page_number_clear Part_SetPart_same part_width_def)

lemma next_entry_Part: "0 < l \<Longrightarrow> l \<le> 4 \<Longrightarrow> i < 511 \<Longrightarrow> Part l (next_entry l i a) = i + 1"
  by (cases l) (simp_all add: next_entry_def clear_parts_Part Part_SetPart_same part_width_def)

lemma next_entry_decreases:
  assumes "0 < l" "l \<le> 4" "Part l a \<noteq> 511"
  shows "512 - Part l (next_entry l (Part l a) a) < 512 - Part l a"
proof -
  have "Part l a < 511" using Part_less [of "l - 1" a] assms by simp
  with assms show ?thesis by (simp add: next_entry_Part)
qed

text \<open>
  The result of \<^verbatim>\<open>SetupPageMap\<close> is the number of pages that are left, the error and the state. Levels
  outside 1 to 4 do not occur.
\<close>

function SetupPageMap ::
  "nat \<Rightarrow> u64 \<Rightarrow> u64 \<Rightarrow> nat \<Rightarrow> bool \<Rightarrow> paging_state \<Rightarrow> (nat \<times> kernel_error \<times> paging_state) option" where
  "SetupPageMap level page_map addr num wr w =
     (if level = 0 \<or> 4 < level then None
      else if num = 0 then Some (0, kSuccess, w)
      else
        let i = Part level addr
        in (case SetNewPageMapIfNotPresent page_map i w of
              None \<Rightarrow> None
            | Some (Inl err, w1) \<Rightarrow> Some (num, err, w1)
            | Some (Inr child_map, w1) \<Rightarrow>
                let w2 = set_pte page_map i (set_flag 2 True (get_pte page_map i w1)) w1
                in if level = 1 then
                     let w3 = set_pte page_map i (set_flag 1 wr (get_pte page_map i w2)) w2
                     in if i = 511 then Some (num - 1, kSuccess, w3)
                        else SetupPageMap level page_map (next_entry level i addr) (num - 1) wr w3
                   else
                     let w3 = set_pte page_map i (set_flag 1 True (get_pte page_map i w2)) w2
                     in (case SetupPageMap (level - 1) child_map addr num wr w3 of
                           None \<Rightarrow> None
                         | Some (num_remain, err, w4) \<Rightarrow>
                             if err \<noteq> kSuccess then Some (num, err, w4)
                             else if i = 511 then Some (num_remain, kSuccess, w4)
                             else SetupPageMap level page_map (next_entry level i addr) num_remain wr w4)))"
  by pat_completeness auto
termination
  by (relation "measures [\<lambda>(l, p, a, n, wr, w). l, \<lambda>(l, p, a, n, wr, w). 512 - Part l a]")
    (auto simp: next_entry_decreases)

declare SetupPageMap.simps [simp del]

definition SetupPageMaps :: "u64 \<Rightarrow> nat \<Rightarrow> bool \<Rightarrow> paging_state \<Rightarrow> (kernel_error \<times> paging_state) option" where
  "SetupPageMaps addr num wr w = map_option snd (SetupPageMap 4 (cr3 w) addr num wr w)"

section \<open>The tables as a tree\<close>

definition kids :: "nat \<Rightarrow> paging_state \<Rightarrow> u64 \<Rightarrow> nat set" where
  "kids lo w p = {i. lo \<le> i \<and> i < 512 \<and> present (get_pte p i w)}"

text \<open>
  The pages of the tree below a table \<open>p\<close>, with the pages that are mapped, and the tables among them.
  Only the entries from \<open>lo\<close> on of the table itself count: in the table of level 4 the entries below 256
  are the kernel's.
\<close>

fun nodes :: "nat \<Rightarrow> nat \<Rightarrow> paging_state \<Rightarrow> u64 \<Rightarrow> u64 set" where
  "nodes 0 lo w p = {p}"
| "nodes (Suc l) lo w p = insert p (\<Union>i \<in> kids lo w p. nodes l 0 w (Pointer (get_pte p i w)))"

fun tabs :: "nat \<Rightarrow> nat \<Rightarrow> paging_state \<Rightarrow> u64 \<Rightarrow> u64 set" where
  "tabs 0 lo w p = {}"
| "tabs (Suc l) lo w p = insert p (\<Union>i \<in> kids lo w p. tabs l 0 w (Pointer (get_pte p i w)))"

text \<open>No page has two places in the tree.\<close>

fun well :: "nat \<Rightarrow> nat \<Rightarrow> paging_state \<Rightarrow> u64 \<Rightarrow> bool" where
  "well 0 lo w p \<longleftrightarrow> True"
| "well (Suc l) lo w p \<longleftrightarrow> length (page_mem w p) = 512 \<and>
     (\<forall>i \<in> kids lo w p. p \<notin> nodes l 0 w (Pointer (get_pte p i w)) \<and> well l 0 w (Pointer (get_pte p i w))) \<and>
     (\<forall>i \<in> kids lo w p. \<forall>j \<in> kids lo w p. i \<noteq> j \<longrightarrow>
        nodes l 0 w (Pointer (get_pte p i w)) \<inter> nodes l 0 w (Pointer (get_pte p j w)) = {})"

text \<open>
  The translation of the page \<open>x\<close>: the entry of level 1, and whether all entries above it allow a user to
  write.
\<close>

fun walk :: "nat \<Rightarrow> paging_state \<Rightarrow> u64 \<Rightarrow> nat \<Rightarrow> (u64 \<times> bool) option" where
  "walk 0 w p x = None"
| "walk (Suc l) w p x =
     (let e = get_pte p (x div 512 ^ l) w
      in if \<not> present e then None
         else if l = 0 then Some (e, True)
         else map_option (\<lambda>(e', r). (e', r \<and> user e \<and> writable e)) (walk l w (Pointer e) (x mod 512 ^ l)))"

lemma tabs_nodes: "tabs l lo w p \<subseteq> nodes l lo w p"
  by (induction l lo w p rule: nodes.induct) auto

lemma root_tab [simp]: "p \<in> tabs (Suc l) lo w p"
  by simp

lemma tree_cong:
  "(\<And>q. q \<in> tabs l lo w p \<Longrightarrow> page_mem w' q = page_mem w q) \<Longrightarrow>
     nodes l lo w' p = nodes l lo w p \<and> tabs l lo w' p = tabs l lo w p \<and> (well l lo w' p \<longleftrightarrow> well l lo w p) \<and>
     (\<forall>x. x < 512 ^ l \<and> lo \<le> x div 512 ^ (l - 1) \<longrightarrow> walk l w' p x = walk l w p x)"
proof (induction l lo w p rule: nodes.induct)
  case (2 l lo w p)
  have p: "get_pte p i w' = get_pte p i w" for i using 2(2) [of p] by (simp add: get_pte_def)
  then have k: "kids lo w' p = kids lo w p" by (simp add: kids_def)
  have sub: "nodes l 0 w' (Pointer (get_pte p i w)) = nodes l 0 w (Pointer (get_pte p i w)) \<and>
      tabs l 0 w' (Pointer (get_pte p i w)) = tabs l 0 w (Pointer (get_pte p i w)) \<and>
      (well l 0 w' (Pointer (get_pte p i w)) \<longleftrightarrow> well l 0 w (Pointer (get_pte p i w))) \<and>
      (\<forall>x. x < 512 ^ l \<longrightarrow> walk l w' (Pointer (get_pte p i w)) x = walk l w (Pointer (get_pte p i w)) x)"
    if "i \<in> kids lo w p" for i
  proof -
    have "page_mem w' q = page_mem w q" if "q \<in> tabs l 0 w (Pointer (get_pte p i w))" for q
      using 2(2) [of q] that \<open>i \<in> kids lo w p\<close> by auto
    from 2(1) [OF \<open>i \<in> kids lo w p\<close> this] show ?thesis by simp
  qed
  have walks: "walk (Suc l) w' p x = walk (Suc l) w p x" if x: "x < 512 ^ Suc l" "lo \<le> x div 512 ^ l" for x
  proof -
    have "x div 512 ^ l < 512" using x(1) by (simp add: less_mult_imp_div_less mult.commute)
    then have "present (get_pte p (x div 512 ^ l) w) \<Longrightarrow> x div 512 ^ l \<in> kids lo w p" using x(2) by (simp add: kids_def)
    then show ?thesis using sub [of "x div 512 ^ l"] by (auto simp: p Let_def)
  qed
  have "page_mem w' p = page_mem w p" using 2(2) by simp
  then show ?case using sub walks by (simp add: p k cong: conj_cong ball_cong)
qed simp

text \<open>The entries that lead to other tables allow the user to write.\<close>

fun upper_ok :: "nat \<Rightarrow> nat \<Rightarrow> paging_state \<Rightarrow> u64 \<Rightarrow> bool" where
  "upper_ok 0 lo w p \<longleftrightarrow> True"
| "upper_ok (Suc l) lo w p \<longleftrightarrow>
     (\<forall>i \<in> kids lo w p. (0 < l \<longrightarrow> user (get_pte p i w) \<and> writable (get_pte p i w)) \<and> upper_ok l 0 w (Pointer (get_pte p i w)))"

lemma upper_cong: "(\<And>q. q \<in> tabs l lo w p \<Longrightarrow> page_mem w' q = page_mem w q) \<Longrightarrow> upper_ok l lo w' p = upper_ok l lo w p"
proof (induction l lo w p rule: upper_ok.induct)
  case (2 l lo w p)
  have p: "get_pte p i w' = get_pte p i w" for i using 2(2) [of p] by (simp add: get_pte_def)
  then have k: "kids lo w' p = kids lo w p" by (simp add: kids_def)
  have "upper_ok l 0 w' (Pointer (get_pte p i w)) = upper_ok l 0 w (Pointer (get_pte p i w))" if "i \<in> kids lo w p" for i
    using 2(1) [OF that] 2(2) that by auto
  then show ?case unfolding upper_ok.simps k p by (intro ball_cong refl) simp
qed simp

text \<open>The entries of level 1: they lead to the pages that are mapped.\<close>

definition leaves :: "nat \<Rightarrow> nat \<Rightarrow> paging_state \<Rightarrow> u64 \<Rightarrow> u64 set" where
  "leaves l lo w p = {e. \<exists>x r. x < 512 ^ l \<and> lo \<le> x div 512 ^ (l - 1) \<and> walk l w p x = Some (e, r)}"

lemma leaves_Suc:
  "leaves (Suc 0) lo w p = (\<lambda>i. get_pte p i w) ` kids lo w p"
  "0 < l \<Longrightarrow> leaves (Suc l) lo w p = (\<Union>i \<in> kids lo w p. leaves l 0 w (Pointer (get_pte p i w)))"
proof -
  show "leaves (Suc 0) lo w p = (\<lambda>i. get_pte p i w) ` kids lo w p"
    by (auto simp: leaves_def kids_def Let_def split: if_splits)
  assume l: "0 < l"
  show "leaves (Suc l) lo w p = (\<Union>i \<in> kids lo w p. leaves l 0 w (Pointer (get_pte p i w)))"
  proof (intro equalityI subsetI)
    fix e assume "e \<in> leaves (Suc l) lo w p"
    then obtain x r where x: "x < 512 ^ Suc l" "lo \<le> x div 512 ^ l" "walk (Suc l) w p x = Some (e, r)" by (auto simp: leaves_def)
    let ?i = "x div 512 ^ l"
    have "?i < 512" using x(1) by (simp add: less_mult_imp_div_less mult.commute)
    then have "?i \<in> kids lo w p" using x(2,3) by (auto simp: kids_def Let_def split: if_splits)
    moreover have "e \<in> leaves l 0 w (Pointer (get_pte p ?i w))"
      using x(3) l by (force simp: leaves_def Let_def split: if_splits)
    ultimately show "e \<in> (\<Union>i \<in> kids lo w p. leaves l 0 w (Pointer (get_pte p i w)))" by blast
  next
    fix e assume "e \<in> (\<Union>i \<in> kids lo w p. leaves l 0 w (Pointer (get_pte p i w)))"
    then obtain i x r where i: "i \<in> kids lo w p" and x: "x < 512 ^ l" "walk l w (Pointer (get_pte p i w)) x = Some (e, r)"
      by (auto simp: leaves_def)
    have "(i + 1) * 512 ^ l \<le> 512 * 512 ^ l" using i by (intro mult_right_mono) (auto simp: kids_def)
    then have "i * 512 ^ l + x < 512 ^ Suc l" using x(1) unfolding add_mult_distrib power_Suc by linarith
    moreover have "(i * 512 ^ l + x) div 512 ^ l = i" "(i * 512 ^ l + x) mod 512 ^ l = x" using x(1) by simp_all
    moreover from this have "\<exists>r. walk (Suc l) w p (i * 512 ^ l + x) = Some (e, r)"
      using i x(2) l by (simp add: kids_def Let_def)
    ultimately show "e \<in> leaves (Suc l) lo w p" using i unfolding leaves_def by (auto simp: kids_def)
  qed
qed

lemma nodes_leaves: "0 < l \<Longrightarrow> nodes l lo w p = tabs l lo w p \<union> Pointer ` leaves l lo w p"
proof (induction l arbitrary: lo p)
  case (Suc l)
  show ?case
  proof (cases "l = 0")
    case True
    then show ?thesis by (auto simp: leaves_Suc)
  next
    case False
    then have "nodes l 0 w q = tabs l 0 w q \<union> Pointer ` leaves l 0 w q" for q using Suc.IH by simp
    then show ?thesis using False by (simp add: leaves_Suc(2)) blast
  qed
qed simp

section \<open>Entries and new pages\<close>

text \<open>Addresses that an entry can hold.\<close>

definition page_addr :: "u64 \<Rightarrow> bool" where
  "page_addr p \<longleftrightarrow> Pointer p = p"

lemma entry_simps [simp]:
  "Pointer (set_flag 0 b e) = Pointer e" "Pointer (set_flag (Suc 0) b e) = Pointer e"
  "Pointer (set_flag 1 b e) = Pointer e" "Pointer (set_flag 2 b e) = Pointer e"
  "page_addr p \<Longrightarrow> Pointer (SetPointer p e) = p"
  "present (set_flag 0 b e) = b"
  "present (set_flag (Suc n) b e) = present e" "present (set_flag (numeral k) b e) = present e"
  "user (set_flag 2 b e) = b" "writable (set_flag 1 b e) = b" "writable (set_flag (Suc 0) b e) = b"
  "user (set_flag 1 b e) = user e" "user (set_flag (Suc 0) b e) = user e"
proof -
  have "Pointer (set_flag n b e) = Pointer e" if "n < 12" for n
    using that by (intro bit_word_eqI) (auto simp: Pointer_def set_flag_def bit_simps)
  then show "Pointer (set_flag 0 b e) = Pointer e" "Pointer (set_flag (Suc 0) b e) = Pointer e"
    "Pointer (set_flag 1 b e) = Pointer e" "Pointer (set_flag 2 b e) = Pointer e" by simp_all
  have "Pointer (SetPointer p e) = Pointer p"
    by (intro bit_word_eqI) (auto simp: Pointer_def SetPointer_def bit_simps)
  then show "page_addr p \<Longrightarrow> Pointer (SetPointer p e) = p" by (simp add: page_addr_def)
qed (auto simp: present_def user_def writable_def set_flag_def bit_simps)

lemma zero_not_present [simp]: "\<not> present 0"
  by (simp add: present_def)

definition frame_addr :: "nat \<Rightarrow> u64" where
  "frame_addr f = of_nat f * kBytesPerFrame"

definition used_pages :: "paging_state \<Rightarrow> u64 set" where
  "used_pages w = frame_addr ` used_frames (frame_pool w)"

lemma frame_addr_push: "frame_addr f = push_bit 12 (of_nat f)"
  by (simp add: frame_addr_def kBytesPerFrame_def push_bit_eq_mult)

lemma frame_addr_page: "f < kFrameCount \<Longrightarrow> page_addr (frame_addr f)"
proof -
  assume f: "f < kFrameCount"
  then have "take_bit 40 f = f" by (simp add: take_bit_nat_eq_self kFrameCount_def)
  then have t: "take_bit 40 (of_nat f :: u64) = of_nat f" by (simp add: take_bit_of_nat)
  have hi: "\<not> bit (of_nat f :: u64) n" if "40 \<le> n" for n
  proof -
    have "bit (take_bit 40 (of_nat f :: u64)) n \<longleftrightarrow> bit (of_nat f :: u64) n" by (simp only: t)
    with that show ?thesis by (simp add: bit_take_bit_iff)
  qed
  have "Pointer (push_bit 12 (of_nat f)) = push_bit 12 (of_nat f)"
  proof (rule bit_word_eqI)
    fix n
    show "bit (Pointer (push_bit 12 (of_nat f))) n = bit (push_bit 12 (of_nat f :: u64)) n"
      using hi [of "n - 12"] by (simp add: Pointer_def bit_push_bit_iff bit_take_bit_iff bit_drop_bit_eq) linarith
  qed
  then show ?thesis unfolding page_addr_def frame_addr_push .
qed

lemma frame_addr_inj: "f < kFrameCount \<Longrightarrow> g < kFrameCount \<Longrightarrow> frame_addr f = frame_addr g \<longleftrightarrow> f = g"
proof -
  assume f: "f < kFrameCount" "g < kFrameCount"
  have "unat (frame_addr h) = h * 4096" if "h < kFrameCount" for h
  proof -
    have "frame_addr h = of_nat (h * 4096)" by (simp add: frame_addr_def kBytesPerFrame_def)
    moreover have "h * 4096 < 18446744073709551616" using that by (simp add: kFrameCount_def)
    ultimately show ?thesis by (simp only: unat_of_nat_u64)
  qed
  from this [OF f(1)] this [OF f(2)] show "frame_addr f = frame_addr g \<longleftrightarrow> f = g"
    by (metis mult_cancel2 zero_neq_numeral)
qed

definition out_of_frames :: "paging_state \<Rightarrow> bool" where
  "out_of_frames w \<longleftrightarrow> (\<forall>f. \<not> free_run (frame_pool w) 1 f)"

lemma NewPageMap_ok:
  assumes "frames_ok (frame_pool w)"
  shows "\<exists>r w'. NewPageMap w = Some (r, w') \<and> frames_ok (frame_pool w') \<and> cr3 w' = cr3 w \<and>
    (\<forall>c. r = Inr c \<longrightarrow> page_addr c \<and> c \<notin> used_pages w \<and> used_pages w' = insert c (used_pages w) \<and>
       page_mem w' = (page_mem w)(c := replicate 512 0)) \<and>
    (\<forall>e. r = Inl e \<longrightarrow> e = kNoEnoughMemory \<and> w' = w \<and> out_of_frames w)"
proof -
  have one: "unat (1 :: u64) = 1" by simp
  have "0 < unat (1 :: u64)" by simp
  from Allocate_allocated [OF assms this] obtain r m where a: "Allocate 1 (frame_pool w) = Some (r, m)"
    "allocated 1 (frame_pool w) (r, m)" unfolding one by auto
  show ?thesis
  proof (cases r)
    case (Inl e)
    with a assms show ?thesis by (simp add: NewPageMap_def allocated_def out_of_frames_def)
  next
    case (Inr f)
    from a(2) Inr have f: "unat f \<notin> used_frames (frame_pool w)" "used_frames m = insert (unat f) (used_frames (frame_pool w))"
      "range_end m = range_end (frame_pool w)" "unat f + 1 \<le> unat (range_end (frame_pool w))"
      by (auto simp: allocated_def free_run_def frames_of_def)
    then have lt: "unat f < kFrameCount" using assms by (simp add: frames_ok_def)
    have fa: "frame_addr (unat f) = f * kBytesPerFrame" by (simp add: frame_addr_def)
    let ?w = "w\<lparr>frame_pool := m, page_mem := (page_mem w)(f * kBytesPerFrame := replicate 512 0)\<rparr>"
    have "NewPageMap w = Some (Inr (f * kBytesPerFrame), ?w)" using a Inr by (simp add: NewPageMap_def)
    moreover have "page_addr (f * kBytesPerFrame)" using frame_addr_page [OF lt] fa by simp
    moreover have "f * kBytesPerFrame \<notin> used_pages w"
    proof
      assume "f * kBytesPerFrame \<in> used_pages w"
      then obtain g where g: "g \<in> used_frames (frame_pool w)" "frame_addr g = frame_addr (unat f)"
        by (auto simp: used_pages_def fa)
      then have "g < kFrameCount" by (simp add: used_frames_def)
      with g(2) lt have "g = unat f" by (simp add: frame_addr_inj)
      with g(1) f(1) show False by simp
    qed
    moreover have "used_pages ?w = insert (f * kBytesPerFrame) (used_pages w)" by (simp add: used_pages_def f(2) fa)
    ultimately show ?thesis using assms f(3) by (simp add: frames_ok_def)
  qed
qed

section \<open>One step of the descent\<close>

definition pages_ok :: "nat \<Rightarrow> nat \<Rightarrow> paging_state \<Rightarrow> u64 \<Rightarrow> bool" where
  "pages_ok l lo w p \<longleftrightarrow> frames_ok (frame_pool w) \<and> well l lo w p \<and> nodes l lo w p \<subseteq> used_pages w"

text \<open>
  The tree has grown by pages that were free; nothing else in use has changed, the pages that are mapped
  included.
\<close>

definition grows :: "nat \<Rightarrow> nat \<Rightarrow> u64 \<Rightarrow> paging_state \<Rightarrow> paging_state \<Rightarrow> bool" where
  "grows l lo p w w' \<longleftrightarrow> pages_ok l lo w' p \<and> cr3 w' = cr3 w \<and>
     nodes l lo w' p \<inter> used_pages w = nodes l lo w p \<and> used_pages w' = used_pages w \<union> nodes l lo w' p \<and>
     tabs l lo w' p \<inter> used_pages w = tabs l lo w p \<and>
     (\<forall>q \<in> used_pages w - tabs l lo w p. page_mem w' q = page_mem w q)"

lemma tabs_used: "pages_ok l lo w p \<Longrightarrow> tabs l lo w p \<subseteq> used_pages w"
  using tabs_nodes [of l lo w p] by (auto simp: pages_ok_def)

lemma grows_refl: "pages_ok l lo w p \<Longrightarrow> grows l lo p w w"
  using tabs_used [of l lo w p] by (auto simp: grows_def pages_ok_def)

lemma grows_trans:
  assumes "grows l lo p w w1" "grows l lo p w1 w2"
  shows "grows l lo p w w2"
proof -
  have "page_mem w2 q = page_mem w q" if "q \<in> used_pages w - tabs l lo w p" for q
  proof -
    have "q \<in> used_pages w1 - tabs l lo w1 p" using that assms(1) by (auto simp: grows_def)
    then show ?thesis using that assms by (simp add: grows_def)
  qed
  moreover have "nodes l lo w2 p \<inter> used_pages w = nodes l lo w p" "used_pages w2 = used_pages w \<union> nodes l lo w2 p"
    "tabs l lo w2 p \<inter> used_pages w = tabs l lo w p"
    using assms unfolding grows_def by blast+
  ultimately show ?thesis using assms by (simp add: grows_def)
qed

lemma kid_facts:
  assumes "pages_ok (Suc l) lo w p" "i \<in> kids lo w p"
  shows "pages_ok l 0 w (Pointer (get_pte p i w))" "p \<notin> nodes l 0 w (Pointer (get_pte p i w))"
    "j \<in> kids lo w p \<Longrightarrow> j \<noteq> i \<Longrightarrow>
       nodes l 0 w (Pointer (get_pte p j w)) \<inter> nodes l 0 w (Pointer (get_pte p i w)) = {}"
    "nodes l 0 w (Pointer (get_pte p i w)) \<subseteq> nodes (Suc l) lo w p" "p \<in> used_pages w"
  using assms by (auto simp: pages_ok_def)

text \<open>What grows below one entry grows in the whole tree, and the other entries stay.\<close>

lemma grows_lift:
  assumes ok: "pages_ok (Suc l) lo w p" and i: "i \<in> kids lo w p" and g: "grows l 0 (Pointer (get_pte p i w)) w w'"
  shows "grows (Suc l) lo p w w'" "get_pte p j w' = get_pte p j w"
    "j \<in> kids lo w p \<Longrightarrow> j \<noteq> i \<Longrightarrow> x < 512 ^ l \<Longrightarrow>
       walk l w' (Pointer (get_pte p j w)) x = walk l w (Pointer (get_pte p j w)) x"
proof -
  let ?c = "\<lambda>j. Pointer (get_pte p j w)"
  have p: "p \<notin> tabs l 0 w (?c i)" "p \<in> used_pages w" using kid_facts(2,5) [OF ok i] tabs_nodes [of l 0 w "?c i"] by blast+
  then have pm: "page_mem w' p = page_mem w p" using g by (simp add: grows_def)
  then have pte: "get_pte p j w' = get_pte p j w" for j by (simp add: get_pte_def)
  then show "get_pte p j w' = get_pte p j w" by this
  have k: "kids lo w' p = kids lo w p" by (simp add: kids_def pte)
  have other: "nodes l 0 w' (?c j) = nodes l 0 w (?c j) \<and> tabs l 0 w' (?c j) = tabs l 0 w (?c j) \<and>
      (well l 0 w' (?c j) \<longleftrightarrow> well l 0 w (?c j)) \<and> (\<forall>x. x < 512 ^ l \<and> 0 \<le> x div 512 ^ (l - 1) \<longrightarrow> walk l w' (?c j) x = walk l w (?c j) x)"
    if j: "j \<in> kids lo w p" "j \<noteq> i" for j
  proof (rule tree_cong)
    fix q assume q: "q \<in> tabs l 0 w (?c j)"
    then have "q \<in> nodes l 0 w (?c j)" using tabs_nodes by blast
    then have "q \<notin> nodes l 0 w (?c i)" "q \<in> used_pages w"
      using kid_facts(3) [OF ok i j] kid_facts(1) [OF ok j(1)] by (auto simp: pages_ok_def)
    then have "q \<in> used_pages w - tabs l 0 w (?c i)" using tabs_nodes [of l 0 w "?c i"] by blast
    then show "page_mem w' q = page_mem w q" using g unfolding grows_def by blast
  qed
  then show "j \<in> kids lo w p \<Longrightarrow> j \<noteq> i \<Longrightarrow> x < 512 ^ l \<Longrightarrow> walk l w' (?c j) x = walk l w (?c j) x" by simp
  let ?R = "\<Union>j \<in> kids lo w p - {i}. nodes l 0 w (?c j)" and ?T = "\<Union>j \<in> kids lo w p - {i}. tabs l 0 w (?c j)"
  have n: "nodes (Suc l) lo w p = insert p (?R \<union> nodes l 0 w (?c i))" using i by auto
  have same: "(\<Union>j \<in> kids lo w p - {i}. nodes l 0 w' (?c j)) = ?R" "(\<Union>j \<in> kids lo w p - {i}. tabs l 0 w' (?c j)) = ?T"
    using other by (intro SUP_cong refl; simp)+
  have "nodes (Suc l) lo w' p = insert p ((\<Union>j \<in> kids lo w p - {i}. nodes l 0 w' (?c j)) \<union> nodes l 0 w' (?c i))"
    using i by (auto simp: k pte)
  then have n': "nodes (Suc l) lo w' p = insert p (?R \<union> nodes l 0 w' (?c i))" by (simp only: same)
  have t: "tabs (Suc l) lo w p = insert p (?T \<union> tabs l 0 w (?c i))" using i by auto
  have "tabs (Suc l) lo w' p = insert p ((\<Union>j \<in> kids lo w p - {i}. tabs l 0 w' (?c j)) \<union> tabs l 0 w' (?c i))"
    using i by (auto simp: k pte)
  then have t': "tabs (Suc l) lo w' p = insert p (?T \<union> tabs l 0 w' (?c i))" by (simp only: same)
  have R: "?R \<subseteq> used_pages w"
  proof (rule UN_least)
    fix j assume "j \<in> kids lo w p - {i}"
    then show "nodes l 0 w (?c j) \<subseteq> used_pages w" using kid_facts(1) [OF ok, of j] by (simp add: pages_ok_def)
  qed
  have T: "?T \<subseteq> ?R" by (intro UN_mono subset_refl tabs_nodes)
  have gi: "nodes l 0 w' (?c i) \<inter> used_pages w = nodes l 0 w (?c i)" "used_pages w' = used_pages w \<union> nodes l 0 w' (?c i)"
    "tabs l 0 w' (?c i) \<inter> used_pages w = tabs l 0 w (?c i)" "well l 0 w' (?c i)" "frames_ok (frame_pool w')" "cr3 w' = cr3 w"
    using g by (simp_all add: grows_def pages_ok_def)
  have "p \<notin> nodes l 0 w' (?c i)" using gi(1) p(2) kid_facts(2) [OF ok i] by blast
  moreover have disj: "nodes l 0 w (?c j) \<inter> nodes l 0 w' (?c i) = {}" if "j \<in> kids lo w p" "j \<noteq> i" for j
    using kid_facts(3) [OF ok i that] kid_facts(1) [OF ok that(1)] gi(1) by (auto simp: pages_ok_def)
  ultimately have apart: "p \<notin> nodes l 0 w' (?c j) \<and> well l 0 w' (?c j)" "j \<noteq> j' \<Longrightarrow> nodes l 0 w' (?c j) \<inter> nodes l 0 w' (?c j') = {}"
    if "j \<in> kids lo w p" "j' \<in> kids lo w p" for j j'
  proof -
    have old: "p \<notin> nodes l 0 w (?c j)" "well l 0 w (?c j)" "j \<noteq> j' \<Longrightarrow> nodes l 0 w (?c j) \<inter> nodes l 0 w (?c j') = {}"
      using ok that by (auto simp: pages_ok_def)
    show "p \<notin> nodes l 0 w' (?c j) \<and> well l 0 w' (?c j)"
      using other [OF that(1)] old(1,2) \<open>p \<notin> nodes l 0 w' (?c i)\<close> gi(4) by (cases "j = i") simp_all
    show "j \<noteq> j' \<Longrightarrow> nodes l 0 w' (?c j) \<inter> nodes l 0 w' (?c j') = {}"
      using other [OF that(1)] other [OF that(2)] old(3) disj [OF that(1)] disj [OF that(2)]
      by (cases "j = i"; cases "j' = i") (simp_all add: Int_commute)
  qed
  have "length (page_mem w' p) = 512" using ok pm by (simp add: pages_ok_def)
  then have "well (Suc l) lo w' p" using apart by (simp add: k pte)
  moreover have "nodes (Suc l) lo w' p \<subseteq> used_pages w'" unfolding n' using R p(2) gi(2) by auto
  ultimately have "pages_ok (Suc l) lo w' p" using gi(5) by (simp add: pages_ok_def)
  moreover have "nodes (Suc l) lo w' p \<inter> used_pages w = nodes (Suc l) lo w p" unfolding n n' using R p(2) gi(1) by auto
  moreover have "used_pages w' = used_pages w \<union> nodes (Suc l) lo w' p" unfolding n' using R p(2) gi(2) by auto
  moreover have "?T \<subseteq> used_pages w" using T R by (rule subset_trans)
  then have "tabs (Suc l) lo w' p \<inter> used_pages w = tabs (Suc l) lo w p" unfolding t t' using p(2) gi(3) by blast
  moreover have "\<forall>q \<in> used_pages w - tabs (Suc l) lo w p. page_mem w' q = page_mem w q"
    unfolding t using g by (simp add: grows_def)
  ultimately show "grows (Suc l) lo p w w'" using gi(6) unfolding grows_def by blast
qed

text \<open>The entry that leads to a page: it is made when it is not there, and marked.\<close>

definition mark :: "u64 \<Rightarrow> nat \<Rightarrow> bool \<Rightarrow> paging_state \<Rightarrow> paging_state" where
  "mark p i b w =
     (let w2 = set_pte p i (set_flag 2 True (get_pte p i w)) w
      in set_pte p i (set_flag 1 b (get_pte p i w2)) w2)"

lemma pte_simps [simp]:
  "get_pte q j (set_pte p i e w) =
     (if p = q \<and> i < length (page_mem w p) then (if i = j then e else get_pte q j w) else get_pte q j w)"
  "frame_pool (set_pte p i e w) = frame_pool w" "cr3 (set_pte p i e w) = cr3 w"
  "used_pages (set_pte p i e w) = used_pages w"
  "length (page_mem (set_pte p i e w) q) = length (page_mem w q)"
  by (auto simp: get_pte_def set_pte_def used_pages_def nth_list_update not_less list_update_beyond)

lemma mark_simps:
  assumes "i < length (page_mem w p)"
  shows "get_pte q j (mark p i b w) = (if q = p \<and> j = i then set_flag 1 b (set_flag 2 True (get_pte p i w)) else get_pte q j w)"
    "frame_pool (mark p i b w) = frame_pool w" "cr3 (mark p i b w) = cr3 w" "used_pages (mark p i b w) = used_pages w"
    "length (page_mem (mark p i b w) q) = length (page_mem w q)" "q \<noteq> p \<Longrightarrow> page_mem (mark p i b w) q = page_mem w q"
  using assms by (auto simp: mark_def Let_def) (simp add: set_pte_def)

text \<open>A change of the table at \<open>p\<close> that keeps where its entries lead.\<close>

lemma retag:
  assumes ok: "pages_ok (Suc l) lo w p" and p: "length (page_mem w' p) = 512" and q: "\<And>q. q \<noteq> p \<Longrightarrow> page_mem w' q = page_mem w q"
    and pool: "frame_pool w' = frame_pool w" "cr3 w' = cr3 w"
    and e: "\<And>j. j < 512 \<Longrightarrow> present (get_pte p j w') = present (get_pte p j w)"
      "\<And>j. j < 512 \<Longrightarrow> Pointer (get_pte p j w') = Pointer (get_pte p j w)"
  shows "grows (Suc l) lo p w w'" "j \<in> kids lo w p \<Longrightarrow> x < 512 ^ l \<Longrightarrow>
    walk l w' (Pointer (get_pte p j w)) x = walk l w (Pointer (get_pte p j w)) x"
proof -
  let ?c = "\<lambda>j. Pointer (get_pte p j w)"
  have k: "kids lo w' p = kids lo w p" using e(1) by (auto simp: kids_def)
  have c: "Pointer (get_pte p j w') = ?c j" if "j \<in> kids lo w p" for j using that e(2) by (simp add: kids_def)
  have sub: "nodes l 0 w' (?c j) = nodes l 0 w (?c j) \<and> tabs l 0 w' (?c j) = tabs l 0 w (?c j) \<and>
      (well l 0 w' (?c j) \<longleftrightarrow> well l 0 w (?c j)) \<and> (\<forall>x. x < 512 ^ l \<and> 0 \<le> x div 512 ^ (l - 1) \<longrightarrow> walk l w' (?c j) x = walk l w (?c j) x)"
    if j: "j \<in> kids lo w p" for j
  proof (rule tree_cong)
    fix t assume "t \<in> tabs l 0 w (?c j)"
    then have "t \<noteq> p" using kid_facts(2) [OF ok j] tabs_nodes [of l 0 w "?c j"] by auto
    then show "page_mem w' t = page_mem w t" by (rule q)
  qed
  then show "j \<in> kids lo w p \<Longrightarrow> x < 512 ^ l \<Longrightarrow> walk l w' (?c j) x = walk l w (?c j) x" by simp
  have "(\<Union>j \<in> kids lo w' p. nodes l 0 w' (Pointer (get_pte p j w'))) = (\<Union>j \<in> kids lo w p. nodes l 0 w (?c j))"
    "(\<Union>j \<in> kids lo w' p. tabs l 0 w' (Pointer (get_pte p j w'))) = (\<Union>j \<in> kids lo w p. tabs l 0 w (?c j))"
    using sub c by (intro SUP_cong k; simp)+
  then have n: "nodes (Suc l) lo w' p = nodes (Suc l) lo w p" "tabs (Suc l) lo w' p = tabs (Suc l) lo w p" by simp_all
  have w: "well (Suc l) lo w' p" using ok p sub c by (simp add: pages_ok_def k)
  have u: "used_pages w' = used_pages w" by (simp add: used_pages_def pool)
  have "pages_ok (Suc l) lo w' p" using ok w by (simp only: pages_ok_def pool n u)
  moreover have "\<forall>t \<in> used_pages w - tabs (Suc l) lo w p. page_mem w' t = page_mem w t" using q by auto
  ultimately show "grows (Suc l) lo p w w'"
    using ok tabs_used [OF ok] by (auto simp: grows_def pool n u pages_ok_def simp del: nodes.simps tabs.simps)
qed

text \<open>A new page that becomes the child of an entry.\<close>

lemma empty_table:
  assumes "page_mem w c = replicate 512 0"
  shows "nodes l lo w c = {c}" "tabs l lo w c \<subseteq> {c}" "well l lo w c" "x < 512 ^ l \<Longrightarrow> walk l w c x = None"
proof -
  have z: "i < 512 \<Longrightarrow> get_pte c i w = 0" for i using assms by (simp add: get_pte_def)
  then have k: "kids lo w c = {}" for lo by (auto simp: kids_def)
  show "nodes l lo w c = {c}" "tabs l lo w c \<subseteq> {c}" "well l lo w c" by (cases l; simp add: k assms)+
  show "walk l w c x = None" if "x < 512 ^ l"
  proof (cases l)
    case (Suc m)
    then have "x div 512 ^ m < 512" using that by (simp add: less_mult_imp_div_less mult.commute)
    with Suc show ?thesis by (simp add: z)
  qed simp
qed

lemma attach:
  assumes ok: "pages_ok (Suc l) lo w p" and i: "lo \<le> i" "i < 512" "\<not> present (get_pte p i w)"
    and c: "c \<notin> used_pages w" "used_pages w' = insert c (used_pages w)" "page_mem w' c = replicate 512 0"
    and f: "frames_ok (frame_pool w')" "cr3 w' = cr3 w" and p: "length (page_mem w' p) = 512"
    and q: "\<And>q. q \<noteq> p \<Longrightarrow> q \<noteq> c \<Longrightarrow> page_mem w' q = page_mem w q"
    and e: "\<And>j. j \<noteq> i \<Longrightarrow> get_pte p j w' = get_pte p j w" "present (get_pte p i w')" "Pointer (get_pte p i w') = c"
  shows "grows (Suc l) lo p w w'" "j \<in> kids lo w p \<Longrightarrow> x < 512 ^ l \<Longrightarrow>
    walk l w' (Pointer (get_pte p j w)) x = walk l w (Pointer (get_pte p j w)) x"
proof -
  let ?c = "\<lambda>j. Pointer (get_pte p j w)"
  note new = empty_table [OF c(3)]
  have pu: "p \<in> used_pages w" using ok by (simp add: pages_ok_def)
  then have pc: "p \<noteq> c" using c(1) by auto
  have ni: "i \<notin> kids lo w p" using i by (simp add: kids_def)
  have k: "kids lo w' p = insert i (kids lo w p)"
  proof (rule set_eqI)
    fix j show "j \<in> kids lo w' p \<longleftrightarrow> j \<in> insert i (kids lo w p)"
      using i e by (cases "j = i") (simp_all add: kids_def)
  qed
  have ej: "get_pte p j w' = get_pte p j w" if "j \<in> kids lo w p" for j using e(1) [of j] ni that by auto
  have kid_used: "nodes l 0 w (?c j) \<subseteq> used_pages w" if "j \<in> kids lo w p" for j
    using kid_facts(1) [OF ok that] by (simp add: pages_ok_def)
  have sub: "nodes l 0 w' (?c j) = nodes l 0 w (?c j) \<and> tabs l 0 w' (?c j) = tabs l 0 w (?c j) \<and>
      (well l 0 w' (?c j) \<longleftrightarrow> well l 0 w (?c j)) \<and> (\<forall>x. x < 512 ^ l \<and> 0 \<le> x div 512 ^ (l - 1) \<longrightarrow> walk l w' (?c j) x = walk l w (?c j) x)"
    if j: "j \<in> kids lo w p" for j
  proof (rule tree_cong)
    fix t assume "t \<in> tabs l 0 w (?c j)"
    then have t: "t \<in> nodes l 0 w (?c j)" using tabs_nodes by blast
    then have "t \<noteq> p" "t \<noteq> c" using kid_facts(2) [OF ok j] kid_used [OF j] c(1) by auto
    then show "page_mem w' t = page_mem w t" by (rule q)
  qed
  then show "j \<in> kids lo w p \<Longrightarrow> x < 512 ^ l \<Longrightarrow> walk l w' (?c j) x = walk l w (?c j) x" by simp
  have "(\<Union>j \<in> kids lo w p. nodes l 0 w' (Pointer (get_pte p j w'))) = (\<Union>j \<in> kids lo w p. nodes l 0 w (?c j))"
    "(\<Union>j \<in> kids lo w p. tabs l 0 w' (Pointer (get_pte p j w'))) = (\<Union>j \<in> kids lo w p. tabs l 0 w (?c j))"
    using sub ej by (intro SUP_cong refl; simp)+
  then have n: "nodes (Suc l) lo w' p = insert c (nodes (Suc l) lo w p)"
    and t: "tabs (Suc l) lo w' p = tabs l 0 w' c \<union> tabs (Suc l) lo w p" by (auto simp: k e(3) new(1))
  have "well (Suc l) lo w' p"
  proof -
    have "p \<notin> nodes l 0 w' (Pointer (get_pte p j w')) \<and> well l 0 w' (Pointer (get_pte p j w'))" if "j \<in> kids lo w' p" for j
    proof (cases "j = i")
      case True
      then show ?thesis using new(1,3) [of l 0] pc e(3) by simp
    next
      case False
      then have j: "j \<in> kids lo w p" using that k by simp
      then show ?thesis using sub [OF j] ok by (simp add: ej pages_ok_def)
    qed
    moreover have "nodes l 0 w' (Pointer (get_pte p j w')) \<inter> nodes l 0 w' (Pointer (get_pte p j' w')) = {}"
      if j: "j \<in> kids lo w' p" "j' \<in> kids lo w' p" "j \<noteq> j'" for j j'
    proof -
      have c_apart: "c \<notin> nodes l 0 w' (Pointer (get_pte p h w'))" if "h \<in> kids lo w p" for h
        using sub [OF that] kid_used [OF that] c(1) by (auto simp: ej [OF that])
      consider "j = i" "j' \<in> kids lo w p" | "j' = i" "j \<in> kids lo w p" | "j \<in> kids lo w p" "j' \<in> kids lo w p"
        using j k by auto
      then show ?thesis
      proof cases
        case 1
        then show ?thesis using c_apart [of j'] new(1) e(3) by simp
      next
        case 2
        then show ?thesis using c_apart [of j] new(1) e(3) by simp
      next
        case 3
        then show ?thesis using sub [of j] sub [of j'] kid_facts(3) [OF ok, of j' j] j(3) by (simp add: ej)
      qed
    qed
    ultimately show ?thesis using p by simp
  qed
  moreover have "nodes (Suc l) lo w' p \<subseteq> used_pages w'" using n c(2) ok by (auto simp: pages_ok_def simp del: nodes.simps)
  ultimately have "pages_ok (Suc l) lo w' p" using f(1) by (simp add: pages_ok_def)
  moreover have "nodes (Suc l) lo w p \<subseteq> used_pages w" "tabs (Suc l) lo w p \<subseteq> used_pages w"
    using ok tabs_used [OF ok] by (simp_all add: pages_ok_def)
  moreover have "\<forall>t \<in> used_pages w - tabs (Suc l) lo w p. page_mem w' t = page_mem w t" using q c(1) by auto
  ultimately show "grows (Suc l) lo p w w'"
    using n t c(1,2) new(2) [of l 0] f(2) by (auto simp: grows_def simp del: nodes.simps tabs.simps)
qed

section \<open>Mapping one page\<close>

text \<open>The reference for \<^verbatim>\<open>SetupPageMap\<close>: one descent from the table to the page \<open>x\<close>.\<close>

fun map_page :: "nat \<Rightarrow> bool \<Rightarrow> u64 \<Rightarrow> nat \<Rightarrow> paging_state \<Rightarrow> (kernel_error \<times> paging_state) option" where
  "map_page 0 wr p x w = Some (kSuccess, w)"
| "map_page (Suc l) wr p x w =
     (case SetNewPageMapIfNotPresent p (x div 512 ^ l) w of
        None \<Rightarrow> None
      | Some (Inl e, w1) \<Rightarrow> Some (e, w1)
      | Some (Inr c, w1) \<Rightarrow> map_page l wr c (x mod 512 ^ l) (mark p (x div 512 ^ l) (l = 0 \<longrightarrow> wr) w1))"

text \<open>What is known of the entry on the way down.\<close>

lemma descend:
  assumes ok: "pages_ok (Suc l) lo w p" and i: "lo \<le> i" "i < 512"
  shows "\<exists>r w1. SetNewPageMapIfNotPresent p i w = Some (r, w1) \<and>
    (\<forall>e. r = Inl e \<longrightarrow> e = kNoEnoughMemory \<and> w1 = w \<and> out_of_frames w \<and> \<not> present (get_pte p i w)) \<and>
    (\<forall>c. r = Inr c \<longrightarrow>
       grows (Suc l) lo p w (mark p i b w1) \<and> i \<in> kids lo (mark p i b w1) p \<and>
       Pointer (get_pte p i (mark p i b w1)) = c \<and> user (get_pte p i (mark p i b w1)) \<and>
       writable (get_pte p i (mark p i b w1)) = b \<and>
       (\<forall>j. j \<noteq> i \<longrightarrow> get_pte p j (mark p i b w1) = get_pte p j w) \<and>
       (\<forall>q \<in> used_pages w. q \<noteq> p \<longrightarrow> page_mem (mark p i b w1) q = page_mem w q) \<and>
       (\<forall>j x. j \<in> kids lo w p \<and> x < 512 ^ l \<longrightarrow>
          walk l (mark p i b w1) (Pointer (get_pte p j w)) x = walk l w (Pointer (get_pte p j w)) x) \<and>
       (if present (get_pte p i w) then c = Pointer (get_pte p i w)
        else c \<notin> used_pages w \<and> page_mem (mark p i b w1) c = replicate 512 0))"
proof (cases "present (get_pte p i w)")
  case True
  let ?w = "mark p i b w"
  have len: "length (page_mem w p) = 512" using ok by (simp add: pages_ok_def)
  then have m: "get_pte q j ?w = (if q = p \<and> j = i then set_flag 1 b (set_flag 2 True (get_pte p i w)) else get_pte q j w)" for q j
    using mark_simps(1) [of i w p q j b] i by simp
  have "grows (Suc l) lo p w ?w \<and> (\<forall>j x. j \<in> kids lo w p \<and> x < 512 ^ l \<longrightarrow>
      walk l ?w (Pointer (get_pte p j w)) x = walk l w (Pointer (get_pte p j w)) x)"
  proof -
    have "length (page_mem ?w p) = 512" "\<And>q. q \<noteq> p \<Longrightarrow> page_mem ?w q = page_mem w q" "frame_pool ?w = frame_pool w" "cr3 ?w = cr3 w"
      using mark_simps [where i = i and w = w and p = p and b = b] len i by simp_all
    moreover have "present (get_pte p j ?w) = present (get_pte p j w)" "Pointer (get_pte p j ?w) = Pointer (get_pte p j w)" for j
      by (simp_all add: m)
    ultimately show ?thesis using retag [OF ok, of ?w] by blast
  qed
  moreover have "\<And>q. q \<noteq> p \<Longrightarrow> page_mem ?w q = page_mem w q" using mark_simps(6) [of i w p _ b] len i by simp
  ultimately show ?thesis using True i by (simp add: SetNewPageMapIfNotPresent_def m kids_def)
next
  case False
  have len: "length (page_mem w p) = 512" and pu: "p \<in> used_pages w" using ok by (simp_all add: pages_ok_def)
  have "frames_ok (frame_pool w)" using ok by (simp add: pages_ok_def)
  from NewPageMap_ok [OF this] obtain r w0 where r: "NewPageMap w = Some (r, w0)" "frames_ok (frame_pool w0)" "cr3 w0 = cr3 w"
    "\<forall>c. r = Inr c \<longrightarrow> page_addr c \<and> c \<notin> used_pages w \<and> used_pages w0 = insert c (used_pages w) \<and>
       page_mem w0 = (page_mem w)(c := replicate 512 0)"
    "\<forall>e. r = Inl e \<longrightarrow> e = kNoEnoughMemory \<and> w0 = w \<and> out_of_frames w" by blast
  show ?thesis
  proof (cases r)
    case (Inl e)
    with r False show ?thesis by (simp add: SetNewPageMapIfNotPresent_def)
  next
    case (Inr c)
    with r(4) have c: "page_addr c" "c \<notin> used_pages w" "used_pages w0 = insert c (used_pages w)"
      "page_mem w0 = (page_mem w)(c := replicate 512 0)" by auto
    have pc: "p \<noteq> c" using pu c(2) by auto
    let ?w1 = "set_pte p i (set_flag 0 True (SetPointer c (get_pte p i w0))) w0"
    let ?w = "mark p i b ?w1"
    have len0: "length (page_mem w0 p) = 512" using len pc by (simp add: c(4))
    have pte0: "get_pte p j w0 = get_pte p j w" for j using pc by (simp add: get_pte_def c(4))
    have len1: "length (page_mem ?w1 q) = length (page_mem w0 q)" for q by simp
    have m: "get_pte p j ?w = (if j = i then set_flag 1 b (set_flag 2 True (set_flag 0 True (SetPointer c (get_pte p i w)))) else get_pte p j w)" for j
      using mark_simps(1) [of i ?w1 p p j b] i len0 by (simp add: len1 pte0)
    have mem: "page_mem ?w q = page_mem w0 q" if "q \<noteq> p" for q
      using mark_simps(6) [of i ?w1 p q b] i len0 that by (simp add: len1) (simp add: set_pte_def)
    have pool: "frame_pool ?w = frame_pool w0" "cr3 ?w = cr3 w0" "used_pages ?w = used_pages w0" "length (page_mem ?w p) = 512"
      using mark_simps [where i = i and w = ?w1 and p = p and b = b] i len0 by (simp_all add: len1)
    have "page_mem ?w c = replicate 512 0" using mem [of c] pc by (simp add: c(4))
    moreover have rest: "\<And>q. q \<noteq> p \<Longrightarrow> q \<noteq> c \<Longrightarrow> page_mem ?w q = page_mem w q" using mem by (simp add: c(4))
    moreover have "present (get_pte p i ?w)" "Pointer (get_pte p i ?w) = c" by (simp_all add: m c(1))
    moreover have "frames_ok (frame_pool ?w)" "cr3 ?w = cr3 w" "used_pages ?w = insert c (used_pages w)" using pool r(2,3) c(3) by simp_all
    moreover have "\<And>j. j \<noteq> i \<Longrightarrow> get_pte p j ?w = get_pte p j w" by (simp add: m)
    ultimately have "grows (Suc l) lo p w ?w \<and> (\<forall>j x. j \<in> kids lo w p \<and> x < 512 ^ l \<longrightarrow>
        walk l ?w (Pointer (get_pte p j w)) x = walk l w (Pointer (get_pte p j w)) x)"
      using attach [OF ok i False c(2), of ?w] pool(4) by blast
    moreover have "SetNewPageMapIfNotPresent p i w = Some (Inr c, ?w1)"
      using False r(1) Inr by (simp add: SetNewPageMapIfNotPresent_def)
    moreover have "\<forall>q \<in> used_pages w. q \<noteq> p \<longrightarrow> page_mem ?w q = page_mem w q" using rest c(2) by blast
    ultimately show ?thesis
      using False c \<open>page_mem ?w c = replicate 512 0\<close> i by (simp add: m kids_def)
  qed
qed

text \<open>The same page with at least the same rights.\<close>

definition kept_walk :: "(u64 \<times> bool) option \<Rightarrow> (u64 \<times> bool) option \<Rightarrow> bool" where
  "kept_walk a b \<longleftrightarrow> map_option fst b = map_option fst a \<and> (\<forall>e. a = Some (e, True) \<longrightarrow> b = Some (e, True))"

definition walks_kept :: "nat \<Rightarrow> nat \<Rightarrow> u64 \<Rightarrow> nat set \<Rightarrow> paging_state \<Rightarrow> paging_state \<Rightarrow> bool" where
  "walks_kept l lo p X w w' \<longleftrightarrow>
     (\<forall>y < 512 ^ l. lo \<le> y div 512 ^ (l - 1) \<and> y \<notin> X \<longrightarrow> kept_walk (walk l w p y) (walk l w' p y))"

text \<open>The page \<open>x\<close> is mapped for the user: where it was, or as a new page of zeros.\<close>

definition mapped :: "nat \<Rightarrow> bool \<Rightarrow> u64 \<Rightarrow> nat \<Rightarrow> paging_state \<Rightarrow> paging_state \<Rightarrow> bool" where
  "mapped l wr p x w w' \<longleftrightarrow>
     (\<exists>e. walk l w' p x = Some (e, True) \<and> user e \<and> writable e = wr \<and>
        (case walk l w p x of
           Some (e0, r) \<Rightarrow> Pointer e = Pointer e0
         | None \<Rightarrow> Pointer e \<notin> used_pages w \<and> page_mem w' (Pointer e) = replicate 512 0))"

lemma kept_walk_refl [simp]: "kept_walk a a"
  by (simp add: kept_walk_def)

lemma kept_walk_trans: "kept_walk a b \<Longrightarrow> kept_walk b c \<Longrightarrow> kept_walk a c"
  by (simp add: kept_walk_def)

lemma kept_walk_None [simp]: "kept_walk None b \<longleftrightarrow> b = None"
  by (auto simp: kept_walk_def)

lemma kept_walk_rights: "kept_walk a b \<Longrightarrow> kept_walk (map_option (\<lambda>(e, r). (e, r \<and> u \<and> v)) a) b"
  by (cases a; cases b) (auto simp: kept_walk_def)

lemma map_page_ok:
  "pages_ok l lo w p \<Longrightarrow> x < 512 ^ l \<Longrightarrow> lo \<le> x div 512 ^ (l - 1) \<Longrightarrow>
   \<exists>e w'. map_page l wr p x w = Some (e, w') \<and> grows l lo p w w' \<and> walks_kept l lo p {x} w w' \<and>
     (e = kSuccess \<and> (0 < l \<longrightarrow> mapped l wr p x w w') \<or>
      e = kNoEnoughMemory \<and> out_of_frames w' \<and> walk l w p x = None \<and> walk l w' p x = None)"
proof (induction l arbitrary: lo w p x)
  case 0
  then show ?case using grows_refl [of 0 lo w p] by (simp add: walks_kept_def)
next
  case (Suc l)
  let ?i = "x div 512 ^ l" and ?x = "x mod 512 ^ l" and ?b = "l = 0 \<longrightarrow> wr"
  have i: "lo \<le> ?i" "?i < 512" using Suc.prems(2,3) by (simp_all add: less_mult_imp_div_less mult.commute)
  from descend [OF Suc.prems(1) i, of ?b] obtain r w1 where r: "SetNewPageMapIfNotPresent p ?i w = Some (r, w1)"
    "\<forall>e. r = Inl e \<longrightarrow> e = kNoEnoughMemory \<and> w1 = w \<and> out_of_frames w \<and> \<not> present (get_pte p ?i w)"
    "\<forall>c. r = Inr c \<longrightarrow>
       grows (Suc l) lo p w (mark p ?i ?b w1) \<and> ?i \<in> kids lo (mark p ?i ?b w1) p \<and>
       Pointer (get_pte p ?i (mark p ?i ?b w1)) = c \<and> user (get_pte p ?i (mark p ?i ?b w1)) \<and>
       writable (get_pte p ?i (mark p ?i ?b w1)) = ?b \<and>
       (\<forall>j. j \<noteq> ?i \<longrightarrow> get_pte p j (mark p ?i ?b w1) = get_pte p j w) \<and>
       (\<forall>q \<in> used_pages w. q \<noteq> p \<longrightarrow> page_mem (mark p ?i ?b w1) q = page_mem w q) \<and>
       (\<forall>j x. j \<in> kids lo w p \<and> x < 512 ^ l \<longrightarrow>
          walk l (mark p ?i ?b w1) (Pointer (get_pte p j w)) x = walk l w (Pointer (get_pte p j w)) x) \<and>
       (if present (get_pte p ?i w) then c = Pointer (get_pte p ?i w)
        else c \<notin> used_pages w \<and> page_mem (mark p ?i ?b w1) c = replicate 512 0)"
    by blast
  show ?case
  proof (cases r)
    case (Inl e)
    with r have "map_page (Suc l) wr p x w = Some (kNoEnoughMemory, w)" "walk (Suc l) w p x = None" "out_of_frames w" by simp_all
    then show ?thesis using grows_refl [OF Suc.prems(1)] by (auto simp: walks_kept_def)
  next
    case (Inr c)
    let ?w = "mark p ?i ?b w1"
    have g1: "grows (Suc l) lo p w ?w" and ik: "?i \<in> kids lo ?w p" and c: "Pointer (get_pte p ?i ?w) = c"
      and rights: "user (get_pte p ?i ?w)" "writable (get_pte p ?i ?w) = ?b"
      and other: "\<And>j. j \<noteq> ?i \<Longrightarrow> get_pte p j ?w = get_pte p j w"
      and walks: "\<And>j x. j \<in> kids lo w p \<Longrightarrow> x < 512 ^ l \<Longrightarrow>
          walk l ?w (Pointer (get_pte p j w)) x = walk l w (Pointer (get_pte p j w)) x"
      and old: "present (get_pte p ?i w) \<Longrightarrow> c = Pointer (get_pte p ?i w)"
      and new: "\<not> present (get_pte p ?i w) \<Longrightarrow> c \<notin> used_pages w \<and> page_mem ?w c = replicate 512 0"
      using r(3) Inr by (auto split: if_splits)
    have ok: "pages_ok (Suc l) lo ?w p" using g1 by (simp add: grows_def)
    then have okc: "pages_ok l 0 ?w c" using kid_facts(1) [OF ok ik] c by simp
    have "?x < 512 ^ l" by simp
    from Suc.IH [OF okc this] obtain e w' where IH: "map_page l wr c ?x ?w = Some (e, w')" "grows l 0 c ?w w'"
      "walks_kept l 0 c {?x} ?w w'" "e = kSuccess \<and> (0 < l \<longrightarrow> mapped l wr c ?x ?w w') \<or>
        e = kNoEnoughMemory \<and> out_of_frames w' \<and> walk l ?w c ?x = None \<and> walk l w' c ?x = None" by auto
    note lift = grows_lift [OF ok ik IH(2) [folded c]]
    have grow: "grows (Suc l) lo p w w'" using grows_trans [OF g1 lift(1)] .
    have pte: "get_pte p j w' = get_pte p j ?w" for j by (rule lift(2))
    have below: "walk l ?w c y = (if present (get_pte p ?i w) then walk l w c y else None)" if "y < 512 ^ l" for y
    proof (cases "present (get_pte p ?i w)")
      case True
      then have "?i \<in> kids lo w p" using i by (simp add: kids_def)
      from walks [OF this that] show ?thesis using True old [OF True] by simp
    next
      case False
      with empty_table(4) [of ?w c] new that show ?thesis by simp
    qed
    have down: "walk (Suc l) w' p y = (if l = 0 then Some (get_pte p ?i ?w, True) else walk l w' c (y mod 512 ^ l))"
      if "y div 512 ^ l = ?i" for y
      using that ik c rights by (auto simp: pte kids_def Let_def option.map_ident case_prod_beta' option.map_comp o_def)
    have "walks_kept (Suc l) lo p {x} w w'"
      unfolding walks_kept_def
    proof (intro allI impI, elim conjE)
      fix y assume y: "y < 512 ^ Suc l" "lo \<le> y div 512 ^ (Suc l - 1)" "y \<notin> {x}"
      let ?j = "y div 512 ^ l" and ?y = "y mod 512 ^ l"
      have j: "?j < 512" "lo \<le> ?j" using y by (simp_all add: less_mult_imp_div_less mult.commute)
      have yl: "?y < 512 ^ l" by simp
      show "kept_walk (walk (Suc l) w p y) (walk (Suc l) w' p y)"
      proof (cases "?j = ?i")
        case False
        show ?thesis
        proof (cases "present (get_pte p ?j w)")
          case True
          have jk: "?j \<in> kids lo w p" "?j \<in> kids lo ?w p" using True j other [OF False] by (simp_all add: kids_def)
          have "walk l w' (Pointer (get_pte p ?j w)) ?y = walk l w (Pointer (get_pte p ?j w)) ?y"
            using lift(3) [OF jk(2) False yl] walks [OF jk(1) yl] other [OF False] by simp
          then show ?thesis using True by (simp add: pte other [OF False] Let_def)
        next
          case np: False
          then show ?thesis by (simp add: pte other [OF False])
        qed
      next
        case True
        then have "?y \<noteq> ?x" using y(3) by (metis div_mult_mod_eq singletonI)
        moreover from this have l: "l \<noteq> 0" by (intro notI) simp
        ultimately have "kept_walk (walk l ?w c ?y) (walk l w' c ?y)" using IH(3) yl by (simp add: walks_kept_def)
        then have k: "kept_walk (if present (get_pte p ?i w) then walk l w c ?y else None) (walk (Suc l) w' p y)"
          using below [OF yl] down [OF True] l by simp
        show ?thesis
        proof (cases "present (get_pte p ?i w)")
          case pr: True
          have "walk (Suc l) w p y = map_option (\<lambda>(e, r). (e, r \<and> user (get_pte p ?i w) \<and> writable (get_pte p ?i w))) (walk l w c ?y)"
            using True pr old [OF pr] l by (simp add: Let_def)
          then show ?thesis using kept_walk_rights k pr by simp
        next
          case np: False
          then have "walk (Suc l) w p y = None" using True by simp
          with k np show ?thesis by simp
        qed
      qed
    qed
    moreover have "map_page (Suc l) wr p x w = Some (e, w')" using r(1) Inr IH(1) by simp
    moreover have walk_x: "walk (Suc l) w p x =
        (if present (get_pte p ?i w) then (if l = 0 then Some (get_pte p ?i w, True)
         else map_option (\<lambda>(e, r). (e, r \<and> user (get_pte p ?i w) \<and> writable (get_pte p ?i w))) (walk l ?w c ?x)) else None)"
    proof (cases "present (get_pte p ?i w)")
      case True
      have "?x < 512 ^ l" by simp
      then have "walk l ?w c ?x = walk l w (Pointer (get_pte p ?i w)) ?x" using below [of ?x] True old [OF True] by simp
      then show ?thesis using True by (simp only: walk.simps Let_def if_True not_True_eq_False if_False)
    qed (simp add: Let_def)
    have "e = kSuccess \<and> mapped (Suc l) wr p x w w' \<or> e = kNoEnoughMemory \<and> out_of_frames w' \<and> walk (Suc l) w p x = None \<and> walk (Suc l) w' p x = None"
    proof (cases "l = 0")
      case True
      then have "w' = ?w" "e = kSuccess" using IH(1) by simp_all
      moreover have "mapped (Suc l) wr p x w ?w"
        unfolding mapped_def walk_x using down [of x] True rights c old new \<open>w' = ?w\<close> by auto
      ultimately show ?thesis by simp
    next
      case False
      have uw: "used_pages w \<subseteq> used_pages ?w" using g1 by (auto simp: grows_def)
      from IH(4) show ?thesis
      proof
        assume "e = kSuccess \<and> (0 < l \<longrightarrow> mapped l wr c ?x ?w w')"
        then have e: "e = kSuccess" and m: "mapped l wr c ?x ?w w'" using False by simp_all
        from m obtain e' where e': "walk l w' c ?x = Some (e', True)" "user e'" "writable e' = wr"
          "case walk l ?w c ?x of Some (e0, r) \<Rightarrow> Pointer e' = Pointer e0
             | None \<Rightarrow> Pointer e' \<notin> used_pages ?w \<and> page_mem w' (Pointer e') = replicate 512 0" by (auto simp: mapped_def)
        have "mapped (Suc l) wr p x w w'"
        proof (unfold mapped_def, intro exI [of _ e'] conjI)
          show "walk (Suc l) w' p x = Some (e', True)" "user e'" "writable e' = wr" using down [of x] e' False by simp_all
          show "case walk (Suc l) w p x of Some (e0, r) \<Rightarrow> Pointer e' = Pointer e0
             | None \<Rightarrow> Pointer e' \<notin> used_pages w \<and> page_mem w' (Pointer e') = replicate 512 0"
            unfolding walk_x using e'(4) False below [of ?x] uw
            by (cases "walk l ?w c ?x") (auto split: if_splits)
        qed
        with e show ?thesis by simp
      next
        assume "e = kNoEnoughMemory \<and> out_of_frames w' \<and> walk l ?w c ?x = None \<and> walk l w' c ?x = None"
        then show ?thesis using walk_x down [of x] False by simp
      qed
    qed
    ultimately show ?thesis using grow by auto
  qed
qed


text \<open>A descent leaves the entries above level 1 open to the user.\<close>

lemma map_page_upper:
  "pages_ok l lo w p \<Longrightarrow> x < 512 ^ l \<Longrightarrow> lo \<le> x div 512 ^ (l - 1) \<Longrightarrow> upper_ok l lo w p \<Longrightarrow>
   map_page l wr p x w = Some (e, w') \<Longrightarrow> upper_ok l lo w' p"
proof (induction l arbitrary: lo w p x)
  case (Suc l)
  let ?i = "x div 512 ^ l" and ?x = "x mod 512 ^ l" and ?b = "l = 0 \<longrightarrow> wr"
  have i: "lo \<le> ?i" "?i < 512" using Suc.prems(2,3) by (simp_all add: less_mult_imp_div_less mult.commute)
  from descend [OF Suc.prems(1) i, of ?b] obtain r w1 where r: "SetNewPageMapIfNotPresent p ?i w = Some (r, w1)"
    "\<forall>e. r = Inl e \<longrightarrow> w1 = w"
    "\<forall>c. r = Inr c \<longrightarrow>
       grows (Suc l) lo p w (mark p ?i ?b w1) \<and> ?i \<in> kids lo (mark p ?i ?b w1) p \<and>
       Pointer (get_pte p ?i (mark p ?i ?b w1)) = c \<and> user (get_pte p ?i (mark p ?i ?b w1)) \<and>
       writable (get_pte p ?i (mark p ?i ?b w1)) = ?b \<and>
       (\<forall>j. j \<noteq> ?i \<longrightarrow> get_pte p j (mark p ?i ?b w1) = get_pte p j w) \<and>
       (\<forall>q \<in> used_pages w. q \<noteq> p \<longrightarrow> page_mem (mark p ?i ?b w1) q = page_mem w q) \<and>
       (if present (get_pte p ?i w) then c = Pointer (get_pte p ?i w)
        else c \<notin> used_pages w \<and> page_mem (mark p ?i ?b w1) c = replicate 512 0)"
    by blast
  show ?case
  proof (cases r)
    case (Inl e')
    then show ?thesis using r Suc.prems(4,5) by simp
  next
    case (Inr c)
    let ?w = "mark p ?i ?b w1"
    have g1: "grows (Suc l) lo p w ?w" and ik: "?i \<in> kids lo ?w p" and c: "Pointer (get_pte p ?i ?w) = c"
      and rights: "user (get_pte p ?i ?w)" "writable (get_pte p ?i ?w) = ?b"
      and other: "\<And>j. j \<noteq> ?i \<Longrightarrow> get_pte p j ?w = get_pte p j w"
      and mem: "\<And>q. q \<in> used_pages w \<Longrightarrow> q \<noteq> p \<Longrightarrow> page_mem ?w q = page_mem w q"
      and old: "present (get_pte p ?i w) \<Longrightarrow> c = Pointer (get_pte p ?i w)"
      and new: "\<not> present (get_pte p ?i w) \<Longrightarrow> page_mem ?w c = replicate 512 0"
      using r(3) Inr by (auto split: if_splits)
    have run: "map_page l wr c ?x ?w = Some (e, w')" using Suc.prems(5) r(1) Inr by simp
    have ok: "pages_ok (Suc l) lo ?w p" using g1 by (simp add: grows_def)
    then have okc: "pages_ok l 0 ?w c" using kid_facts(1) [OF ok ik] c by simp
    have kid: "upper_ok l 0 ?w (Pointer (get_pte p j w))" if jk: "j \<in> kids lo w p" for j
    proof -
      have "page_mem ?w q = page_mem w q" if q: "q \<in> tabs l 0 w (Pointer (get_pte p j w))" for q
      proof (rule mem)
        have "q \<in> nodes l 0 w (Pointer (get_pte p j w))" using q tabs_nodes by blast
        then show "q \<in> used_pages w" "q \<noteq> p" using kid_facts(1,2) [OF Suc.prems(1) jk] by (auto simp: pages_ok_def)
      qed
      then show ?thesis using upper_cong [of l 0 w "Pointer (get_pte p j w)" ?w] Suc.prems(4) jk by auto
    qed
    have upc: "upper_ok l 0 ?w c"
    proof (cases "present (get_pte p ?i w)")
      case True
      then show ?thesis using kid [of ?i] old i by (simp add: kids_def)
    next
      case False
      then have "kids 0 ?w c = {}" using new by (auto simp: kids_def get_pte_def)
      then show ?thesis by (cases l) simp_all
    qed
    have xl: "?x < 512 ^ l" "0 \<le> ?x div 512 ^ (l - 1)" by simp_all
    have up: "upper_ok l 0 w' c" using Suc.IH [OF okc xl upc run] .
    from map_page_ok [OF okc xl, of wr] run have g2: "grows l 0 c ?w w'" by auto
    note lift = grows_lift [OF ok ik g2 [folded c]]
    have kids': "kids lo w' p = kids lo ?w p" by (simp add: kids_def lift(2))
    have "(0 < l \<longrightarrow> user (get_pte p j ?w) \<and> writable (get_pte p j ?w)) \<and> upper_ok l 0 w' (Pointer (get_pte p j ?w))"
      if j: "j \<in> kids lo ?w p" for j
    proof (cases "j = ?i")
      case True
      have "0 < l \<Longrightarrow> writable (get_pte p ?i ?w)" using rights(2) by (metis not_gr_zero)
      then show ?thesis unfolding True c using rights(1) up by blast
    next
      case False
      then have jw: "j \<in> kids lo w p" using j other by (simp add: kids_def)
      let ?d = "Pointer (get_pte p j w)"
      have "page_mem w' q = page_mem ?w q" if "q \<in> tabs l 0 ?w ?d" for q
      proof -
        have "q \<in> nodes l 0 ?w ?d" using that tabs_nodes by blast
        then have "q \<in> used_pages ?w" "q \<notin> nodes l 0 ?w c"
          using kid_facts(1) [OF ok j] kid_facts(3) [OF ok ik j False] other [OF False] c by (auto simp: pages_ok_def)
        then have "q \<in> used_pages ?w - tabs l 0 ?w c" using tabs_nodes [of l 0 ?w c] by blast
        then show ?thesis using g2 unfolding grows_def by blast
      qed
      then have "upper_ok l 0 w' ?d" using upper_cong [of l 0 ?w ?d w'] kid [OF jw] by simp
      moreover have "0 < l \<longrightarrow> user (get_pte p j w) \<and> writable (get_pte p j w)" using Suc.prems(4) jw by simp
      ultimately show ?thesis unfolding other [OF False] by blast
    qed
    then show ?thesis unfolding upper_ok.simps kids' lift(2) by blast
  qed
qed simp

lemma walk_leaf:
  "well l lo w p \<Longrightarrow> x < 512 ^ l \<Longrightarrow> lo \<le> x div 512 ^ (l - 1) \<Longrightarrow> walk l w p x = Some (e, r) \<Longrightarrow>
   Pointer e \<in> nodes l lo w p - tabs l lo w p"
proof (induction l arbitrary: lo p x r)
  case (Suc l)
  let ?i = "x div 512 ^ l" and ?c = "\<lambda>i. Pointer (get_pte p i w)"
  have "?i < 512" using Suc.prems(2) by (simp add: less_mult_imp_div_less mult.commute)
  moreover have "present (get_pte p ?i w)" using Suc.prems(4) by (simp add: Let_def split: if_splits)
  ultimately have i: "?i \<in> kids lo w p" using Suc.prems(3) by (simp add: kids_def)
  have w: "p \<notin> nodes l 0 w (?c ?i)" "well l 0 w (?c ?i)" using Suc.prems(1) i by simp_all
  have "Pointer e \<in> nodes l 0 w (?c ?i) - tabs l 0 w (?c ?i)"
  proof (cases "l = 0")
    case True
    then have "e = get_pte p ?i w" using Suc.prems(4) by (simp add: Let_def split: if_splits)
    with True show ?thesis by simp
  next
    case False
    then obtain r' where "walk l w (?c ?i) (x mod 512 ^ l) = Some (e, r')"
      using Suc.prems(4) by (auto simp: Let_def split: if_splits)
    from Suc.IH [OF w(2) _ _ this] show ?thesis by simp
  qed
  moreover have "Pointer e \<notin> tabs l 0 w (?c j)" if "Pointer e \<in> nodes l 0 w (?c ?i)" "Pointer e \<notin> tabs l 0 w (?c ?i)" "j \<in> kids lo w p" for j
  proof (cases "j = ?i")
    case False
    then have "nodes l 0 w (?c j) \<inter> nodes l 0 w (?c ?i) = {}" using Suc.prems(1) i that(3) by simp
    then show ?thesis using that(1) tabs_nodes [of l 0 w "?c j"] by blast
  qed (use that(2) in simp)
  ultimately show ?case using i w(1) by auto
qed simp

section \<open>Mapping a list of pages\<close>

fun map_pages :: "nat \<Rightarrow> bool \<Rightarrow> u64 \<Rightarrow> nat list \<Rightarrow> paging_state \<Rightarrow> (kernel_error \<times> paging_state) option" where
  "map_pages l wr p [] w = Some (kSuccess, w)"
| "map_pages l wr p (x # xs) w =
     (case map_page l wr p x w of
        None \<Rightarrow> None
      | Some (e, w1) \<Rightarrow> if e \<noteq> kSuccess then Some (e, w1) else map_pages l wr p xs w1)"

lemma map_pages_append:
  "map_pages l wr p (xs @ ys) w =
     (case map_pages l wr p xs w of
        None \<Rightarrow> None
      | Some (e, w1) \<Rightarrow> if e \<noteq> kSuccess then Some (e, w1) else map_pages l wr p ys w1)"
  by (induction xs arbitrary: w) (auto split: option.splits)

lemma mapped_then:
  assumes m: "mapped l wr p x w w1" and g: "grows l lo p w w1" "grows l lo p w1 w2"
    and x: "x < 512 ^ l" "lo \<le> x div 512 ^ (l - 1)" and k: "kept_walk (walk l w1 p x) (walk l w2 p x)"
  shows "mapped l wr p x w w2"
proof -
  from m obtain e where e: "walk l w1 p x = Some (e, True)" "user e" "writable e = wr"
    "case walk l w p x of Some (e0, r) \<Rightarrow> Pointer e = Pointer e0
       | None \<Rightarrow> Pointer e \<notin> used_pages w \<and> page_mem w1 (Pointer e) = replicate 512 0" by (auto simp: mapped_def)
  have "pages_ok l lo w1 p" using g(1) by (simp add: grows_def)
  then have "Pointer e \<in> used_pages w1 - tabs l lo w1 p"
    using walk_leaf [OF _ x e(1)] by (auto simp: pages_ok_def)
  then have "page_mem w2 (Pointer e) = page_mem w1 (Pointer e)" using g(2) unfolding grows_def by blast
  moreover have "walk l w2 p x = Some (e, True)" using k e(1) by (simp add: kept_walk_def)
  ultimately show ?thesis using e(2-4) unfolding mapped_def by (cases "walk l w p x") auto
qed

lemma mapped_after:
  assumes m: "mapped l wr p x w1 w2" and g: "grows l lo p w w1" and k: "kept_walk (walk l w p x) (walk l w1 p x)"
  shows "mapped l wr p x w w2"
proof -
  have "used_pages w \<subseteq> used_pages w1" using g by (auto simp: grows_def)
  then show ?thesis using m k unfolding mapped_def kept_walk_def by (cases "walk l w p x"; cases "walk l w1 p x") auto
qed

lemma map_pages_ok:
  "pages_ok l lo w p \<Longrightarrow> 0 < l \<Longrightarrow> distinct xs \<Longrightarrow> \<forall>x \<in> set xs. x < 512 ^ l \<and> lo \<le> x div 512 ^ (l - 1) \<Longrightarrow>
   \<exists>e w'. map_pages l wr p xs w = Some (e, w') \<and> grows l lo p w w' \<and> walks_kept l lo p (set xs) w w' \<and>
     (e = kSuccess \<and> (\<forall>x \<in> set xs. mapped l wr p x w w') \<or>
      e = kNoEnoughMemory \<and> out_of_frames w' \<and> (\<forall>x \<in> set xs. mapped l wr p x w w' \<or> kept_walk (walk l w p x) (walk l w' p x)))"
proof (induction xs arbitrary: w)
  case Nil
  then show ?case using grows_refl [of l lo w p] by (simp add: walks_kept_def)
next
  case (Cons x xs)
  have x: "x < 512 ^ l" "lo \<le> x div 512 ^ (l - 1)" using Cons.prems(4) by simp_all
  from map_page_ok [OF Cons.prems(1) x, of wr] obtain e w1 where 1: "map_page l wr p x w = Some (e, w1)" "grows l lo p w w1"
    "walks_kept l lo p {x} w w1" "e = kSuccess \<and> mapped l wr p x w w1 \<or>
      e = kNoEnoughMemory \<and> out_of_frames w1 \<and> walk l w p x = None \<and> walk l w1 p x = None" using Cons.prems(2) by auto
  have kept1: "kept_walk (walk l w p y) (walk l w1 p y)" if "y < 512 ^ l" "lo \<le> y div 512 ^ (l - 1)" "y \<noteq> x" for y
    using 1(3) that by (simp add: walks_kept_def)
  show ?case
  proof (cases "e = kSuccess")
    case False
    then have "\<forall>y \<in> set (x # xs). kept_walk (walk l w p y) (walk l w1 p y)"
      using 1(4) kept1 Cons.prems(4) by (metis kept_walk_refl)
    moreover have "walks_kept l lo p (set (x # xs)) w w1" using 1(3) by (simp add: walks_kept_def)
    ultimately show ?thesis using 1 False by simp
  next
    case True
    then have m1: "mapped l wr p x w w1" using 1(4) by simp
    have "pages_ok l lo w1 p" using 1(2) by (simp add: grows_def)
    from Cons.IH [OF this Cons.prems(2)] Cons.prems(3,4) obtain e' w' where 2: "map_pages l wr p xs w1 = Some (e', w')" "grows l lo p w1 w'"
      "walks_kept l lo p (set xs) w1 w'" "e' = kSuccess \<and> (\<forall>x \<in> set xs. mapped l wr p x w1 w') \<or>
        e' = kNoEnoughMemory \<and> out_of_frames w' \<and> (\<forall>x \<in> set xs. mapped l wr p x w1 w' \<or> kept_walk (walk l w1 p x) (walk l w' p x))" by auto
    have "kept_walk (walk l w1 p x) (walk l w' p x)" using 2(3) x Cons.prems(3) by (simp add: walks_kept_def)
    then have mx: "mapped l wr p x w w'" using mapped_then [OF m1 1(2) 2(2) x] by simp
    have rest: "y < 512 ^ l \<and> lo \<le> y div 512 ^ (l - 1) \<and> y \<noteq> x" if "y \<in> set xs" for y
      using that Cons.prems(3,4) by auto
    have ms: "mapped l wr p y w w'" if "y \<in> set xs" "mapped l wr p y w1 w'" for y
      using mapped_after [OF that(2) 1(2)] kept1 rest [OF that(1)] by simp
    have ks: "kept_walk (walk l w p y) (walk l w' p y)" if "y \<in> set xs" "kept_walk (walk l w1 p y) (walk l w' p y)" for y
      using kept_walk_trans [OF kept1 that(2)] rest [OF that(1)] by simp
    have "walks_kept l lo p (set (x # xs)) w w'"
      unfolding walks_kept_def
    proof (intro allI impI, elim conjE)
      fix y assume y: "y < 512 ^ l" "lo \<le> y div 512 ^ (l - 1)" "y \<notin> set (x # xs)"
      then have "kept_walk (walk l w1 p y) (walk l w' p y)" using 2(3) by (simp add: walks_kept_def)
      from kept_walk_trans [OF kept1 [OF y(1,2)] this] y(3) show "kept_walk (walk l w p y) (walk l w' p y)" by simp
    qed
    moreover have "grows l lo p w w'" using 1(2) 2(2) by (rule grows_trans)
    moreover have "map_pages l wr p (x # xs) w = Some (e', w')" using 1(1) 2(1) True by simp
    moreover have "e' = kSuccess \<and> (\<forall>x \<in> set (x # xs). mapped l wr p x w w') \<or>
        e' = kNoEnoughMemory \<and> out_of_frames w' \<and> (\<forall>x \<in> set (x # xs). mapped l wr p x w w' \<or> kept_walk (walk l w p x) (walk l w' p x))"
      using 2(4) mx ms ks unfolding list.set by blast
    ultimately show ?thesis by blast
  qed
qed

lemma map_pages_upper:
  "pages_ok l lo w p \<Longrightarrow> \<forall>x \<in> set xs. x < 512 ^ l \<and> lo \<le> x div 512 ^ (l - 1) \<Longrightarrow> upper_ok l lo w p \<Longrightarrow>
   map_pages l wr p xs w = Some (e, w') \<Longrightarrow> upper_ok l lo w' p"
proof (induction xs arbitrary: w)
  case (Cons x xs)
  have x: "x < 512 ^ l" "lo \<le> x div 512 ^ (l - 1)" using Cons.prems(2) by simp_all
  from map_page_ok [OF Cons.prems(1) x, of wr] obtain e1 w1 where 1: "map_page l wr p x w = Some (e1, w1)" "grows l lo p w w1" by blast
  have up: "upper_ok l lo w1 p" by (rule map_page_upper [OF Cons.prems(1) x Cons.prems(3) 1(1)])
  have "pages_ok l lo w1 p" using 1(2) by (simp add: grows_def)
  then show ?case using Cons.IH [of w1] Cons.prems(2,4) up 1(1) by (auto split: if_splits)
qed simp

section \<open>Page by page\<close>

lemma set_pte_id [simp]: "set_pte p i (get_pte p i w) w = w"
  by (simp add: set_pte_def get_pte_def)

lemma mark_again: "user (get_pte p i w) \<Longrightarrow> writable (get_pte p i w) = b \<Longrightarrow> mark p i b w = w"
proof -
  assume u: "user (get_pte p i w)" and wr: "writable (get_pte p i w) = b"
  have "set_flag 2 True (get_pte p i w) = get_pte p i w"
    using u by (intro bit_word_eqI) (auto simp: set_flag_def user_def bit_simps)
  moreover have "set_flag 1 b (get_pte p i w) = get_pte p i w"
    using wr by (intro bit_word_eqI) (auto simp: set_flag_def writable_def bit_simps)
  ultimately show ?thesis by (simp add: mark_def Let_def)
qed

lemma page_in_entry: "y < 512 ^ l \<Longrightarrow> (i * 512 ^ l + y) div 512 ^ l = i" "y < 512 ^ l \<Longrightarrow> (i * 512 ^ l + y) mod 512 ^ l = (y :: nat)"
  by simp_all

text \<open>Below an entry that is there and marked, the descent from the root only repeats it.\<close>

lemma map_pages_child:
  assumes l: "0 < l"
  shows "pages_ok (Suc l) lo w p \<Longrightarrow> i \<in> kids lo w p \<Longrightarrow> user (get_pte p i w) \<Longrightarrow> writable (get_pte p i w) \<Longrightarrow>
    c = Pointer (get_pte p i w) \<Longrightarrow> \<forall>y \<in> set ys. y < 512 ^ l \<Longrightarrow>
    map_pages (Suc l) wr p (map (\<lambda>y. i * 512 ^ l + y) ys) w = map_pages l wr c ys w"
proof (induction ys arbitrary: w)
  case (Cons y ys)
  have y: "y < 512 ^ l" using Cons.prems(6) by simp
  have pr: "present (get_pte p i w)" using Cons.prems(2) by (simp add: kids_def)
  have "mark p i (l = 0 \<longrightarrow> wr) w = w" using mark_again Cons.prems(3,4) l by simp
  then have one: "map_page (Suc l) wr p (i * 512 ^ l + y) w = map_page l wr c y w"
    using pr Cons.prems(5) by (simp only: map_page.simps page_in_entry [OF y] SetNewPageMapIfNotPresent_def) simp
  have okc: "pages_ok l 0 w c" using kid_facts(1) [OF Cons.prems(1,2)] Cons.prems(5) by simp
  have "0 \<le> y div 512 ^ (l - 1)" by simp
  from map_page_ok [OF okc y this, of wr] obtain e w1 where 1: "map_page l wr c y w = Some (e, w1)" "grows l 0 c w w1" by blast
  note lift = grows_lift [OF Cons.prems(1,2) 1(2) [unfolded Cons.prems(5)]]
  have "pages_ok (Suc l) lo w1 p" using lift(1) by (simp add: grows_def)
  moreover have "i \<in> kids lo w1 p" using Cons.prems(2) by (simp add: kids_def lift(2))
  ultimately have "map_pages (Suc l) wr p (map (\<lambda>y. i * 512 ^ l + y) ys) w1 = map_pages l wr c ys w1"
    using Cons.IH [of w1] Cons.prems(3-6) by (simp only: lift(2)) simp
  then show ?case using one 1(1) by (simp del: map_page.simps)
qed simp

lemma map_pages_entry:
  assumes l: "0 < l" and ok: "pages_ok (Suc l) lo w p" and i: "lo \<le> i" "i < 512"
    and s: "SetNewPageMapIfNotPresent p i w = Some (Inr c, w1)" and ys: "ys \<noteq> []" "\<forall>y \<in> set ys. y < 512 ^ l"
  shows "map_pages (Suc l) wr p (map (\<lambda>y. i * 512 ^ l + y) ys) w = map_pages l wr c ys (mark p i True w1)"
proof -
  let ?w = "mark p i True w1"
  obtain y zs where y: "ys = y # zs" using ys(1) by (cases ys) auto
  from descend [OF ok i, of True] s have d: "grows (Suc l) lo p w ?w" "i \<in> kids lo ?w p" "Pointer (get_pte p i ?w) = c"
    "user (get_pte p i ?w)" "writable (get_pte p i ?w)" by auto
  have okw: "pages_ok (Suc l) lo ?w p" using d(1) by (simp add: grows_def)
  have yl: "y < 512 ^ l" using ys(2) y by simp
  have "present (get_pte p i ?w)" using d(2) by (simp add: kids_def)
  then have "SetNewPageMapIfNotPresent p i ?w = Some (Inr c, ?w)" using d(3) by (simp add: SetNewPageMapIfNotPresent_def)
  moreover have "mark p i True ?w = ?w" using mark_again d(4,5) by simp
  ultimately have "map_page (Suc l) wr p (i * 512 ^ l + y) w = map_page (Suc l) wr p (i * 512 ^ l + y) ?w"
    using s l by (simp only: map_page.simps page_in_entry [OF yl]) simp
  then have "map_pages (Suc l) wr p (map (\<lambda>y. i * 512 ^ l + y) ys) w = map_pages (Suc l) wr p (map (\<lambda>y. i * 512 ^ l + y) ys) ?w"
    by (simp add: y del: map_page.simps)
  also have "\<dots> = map_pages l wr c ys ?w" using map_pages_child [OF l okw d(2) d(4,5) d(3) [symmetric] ys(2)] .
  finally show ?thesis .
qed

lemma add_upt: "[c + i ..< c + j] = map (\<lambda>y. c + y) [i ..< (j :: nat)]"
  by (rule nth_equalityI) auto

lemma upt_step: "[i ..< i + Suc k] = i # [i + 1 ..< i + 1 + k]"
  by (simp add: upt_conv_Cons)

text \<open>The ranges of an entry and of those after it.\<close>

lemma ranges:
  fixes L v r i n :: nat
  assumes v: "v = i * L + r" and r: "r < L" and i: "i < 512"
  defines "m1 \<equiv> min n (L - r)"
  shows "i = 511 \<Longrightarrow> min n (512 * L - v) = m1"
    "i \<noteq> 511 \<Longrightarrow> min n (512 * L - v) = m1 + min (n - m1) (512 * L - (i + 1) * L)"
    "i \<noteq> 511 \<Longrightarrow> [v ..< v + min n (512 * L - v)] =
       [v ..< v + m1] @ [(i + 1) * L ..< (i + 1) * L + min (n - m1) (512 * L - (i + 1) * L)]"
proof -
  show "i = 511 \<Longrightarrow> min n (512 * L - v) = m1" using r by (simp add: v m1_def)
  have big: "i \<noteq> 511 \<Longrightarrow> (i + 1) * L + L \<le> 512 * L"
  proof -
    assume "i \<noteq> 511"
    then have "i + 2 \<le> 512" using i by simp
    from mult_right_mono [OF this, of L] show ?thesis by (simp add: algebra_simps)
  qed
  show s: "i \<noteq> 511 \<Longrightarrow> min n (512 * L - v) = m1 + min (n - m1) (512 * L - (i + 1) * L)"
  proof -
    assume "i \<noteq> 511"
    then have b: "i * L + 2 * L \<le> 512 * L" using big by (simp add: algebra_simps)
    have "(i + 1) * L = i * L + L" by simp
    with b r show ?thesis unfolding v m1_def by linarith
  qed
  show "i \<noteq> 511 \<Longrightarrow> [v ..< v + min n (512 * L - v)] =
      [v ..< v + m1] @ [(i + 1) * L ..< (i + 1) * L + min (n - m1) (512 * L - (i + 1) * L)]"
  proof -
    assume ne: "i \<noteq> 511"
    show ?thesis
    proof (cases "n \<le> L - r")
      case True
      then have "m1 = n" by (simp add: m1_def)
      then show ?thesis using s [OF ne] by simp
    next
      case False
      let ?K = "min (n - m1) (512 * L - (i + 1) * L)"
      from False have e: "v + m1 = (i + 1) * L" using r by (simp add: v m1_def algebra_simps)
      have "v + min n (512 * L - v) = v + m1 + ?K" using s [OF ne] by (simp only: add.assoc)
      moreover have "[v ..< v + m1 + ?K] = [v ..< v + m1] @ [v + m1 ..< v + m1 + ?K]" by (rule upt_add_eq_append) simp
      moreover have "[v + m1 ..< v + m1 + ?K] = [(i + 1) * L ..< (i + 1) * L + ?K]" by (simp only: e)
      ultimately show ?thesis by (simp only:)
    qed
  qed
qed

lemma next_entry_page:
  assumes "Suc l \<le> 4" "Part (Suc l) a \<noteq> 511"
  shows "page_number (Suc l) (next_entry (Suc l) (Part (Suc l) a) a) = (Part (Suc l) a + 1) * 512 ^ l"
    "Part (Suc l) (next_entry (Suc l) (Part (Suc l) a) a) = Part (Suc l) a + 1"
  using assms Part_less [of l a] by (simp_all add: next_entry_number next_entry_Part del: page_number.simps)

text \<open>\<^verbatim>\<open>SetupPageMap\<close> makes the same pages as one descent for each page of its range.\<close>

definition same_as_pages :: "nat \<Rightarrow> nat \<Rightarrow> u64 \<Rightarrow> u64 \<Rightarrow> nat \<Rightarrow> bool \<Rightarrow> paging_state \<Rightarrow> bool" where
  "same_as_pages l lo p a n wr w \<longleftrightarrow>
     (let v = page_number l a; m = min n (512 ^ l - v)
      in \<exists>k e w'. SetupPageMap l p a n wr w = Some (k, e, w') \<and> map_pages l wr p [v ..< v + m] w = Some (e, w') \<and>
           grows l lo p w w' \<and> (e = kSuccess \<longrightarrow> k = n - m))"

lemma range_bounds:
  assumes "lo \<le> Part (Suc l) a" "x \<in> set [page_number (Suc l) a ..< page_number (Suc l) a + min n (512 ^ Suc l - page_number (Suc l) a)]"
  shows "x < 512 ^ Suc l \<and> lo \<le> x div 512 ^ l"
proof -
  have "page_number (Suc l) a \<le> x" "x < 512 ^ Suc l" using assms(2) page_number_less [of "Suc l" a] by auto
  then show ?thesis using div_le_mono [of "page_number (Suc l) a" x "512 ^ l"] assms(1) page_number_parts(1) [of l a] by simp
qed

lemma same_0:
  assumes "pages_ok (Suc l) lo w p" "Suc l \<le> 4"
  shows "same_as_pages (Suc l) lo p a 0 wr w"
  using assms grows_refl [OF assms(1)] by (simp add: same_as_pages_def SetupPageMap.simps [of "Suc l"])

text \<open>A step at level 1, and a step above it.\<close>

lemma same_leaf:
  assumes ok: "pages_ok (Suc 0) lo w p" and i: "lo \<le> Part (Suc 0) a" and n: "0 < n"
    and q: "SetNewPageMapIfNotPresent p (Part (Suc 0) a) w = Some (Inr c, w1)"
    and g: "grows (Suc 0) lo p w (mark p (Part (Suc 0) a) wr w1)"
    and again: "Part (Suc 0) a \<noteq> 511 \<Longrightarrow> same_as_pages (Suc 0) lo p (next_entry (Suc 0) (Part (Suc 0) a) a) (n - 1) wr (mark p (Part (Suc 0) a) wr w1)"
  shows "same_as_pages (Suc 0) lo p a n wr w"
proof -
  let ?i = "Part (Suc 0) a" and ?w = "mark p (Part (Suc 0) a) wr w1"
  have i512: "?i < 512" by (rule Part_less)
  have step: "SetupPageMap (Suc 0) p a n wr w =
      (if ?i = 511 then Some (n - 1, kSuccess, ?w) else SetupPageMap (Suc 0) p (next_entry (Suc 0) ?i a) (n - 1) wr ?w)"
    using q n by (simp add: SetupPageMap.simps [of "Suc 0" p a n] Let_def mark_def)
  have one: "map_pages (Suc 0) wr p (?i # xs) w = map_pages (Suc 0) wr p xs ?w" for xs using q by simp
  show ?thesis
  proof (cases "?i = 511")
    case True
    then have "min n (512 - ?i) = 1" using n by simp
    then show ?thesis using step one [of "[]"] g True by (simp add: same_as_pages_def del: One_nat_def)
  next
    case False
    from again [OF False] obtain k e w' where 1: "SetupPageMap (Suc 0) p (next_entry (Suc 0) ?i a) (n - 1) wr ?w = Some (k, e, w')"
      "map_pages (Suc 0) wr p [?i + 1 ..< ?i + 1 + min (n - 1) (512 - (?i + 1))] ?w = Some (e, w')"
      "grows (Suc 0) lo p ?w w'" "e = kSuccess \<longrightarrow> k = n - 1 - min (n - 1) (512 - (?i + 1))"
      unfolding same_as_pages_def Let_def using next_entry_page(1) [of 0 a] False by (auto simp del: page_number.simps)
    have m: "min n (512 - ?i) = Suc (min (n - 1) (512 - (?i + 1)))" using n i512 by simp
    have "[?i ..< ?i + min n (512 - ?i)] = ?i # [?i + 1 ..< ?i + 1 + min (n - 1) (512 - (?i + 1))]"
      unfolding m by (rule upt_step)
    then have "map_pages (Suc 0) wr p [?i ..< ?i + min n (512 - ?i)] w = Some (e, w')" using one 1(2) by simp
    moreover have "e = kSuccess \<longrightarrow> k = n - min n (512 - ?i)" using 1(4) m by simp
    moreover have "grows (Suc 0) lo p w w'" using grows_trans [OF g 1(3)] .
    ultimately show ?thesis using step 1(1) False by (simp add: same_as_pages_def)
  qed
qed

lemma same_inner:
  assumes ok: "pages_ok (Suc l) lo w p" and l: "0 < l" "Suc l \<le> 4" and i: "lo \<le> Part (Suc l) a" and n: "0 < n"
    and q: "SetNewPageMapIfNotPresent p (Part (Suc l) a) w = Some (Inr c, w1)"
    and g: "grows (Suc l) lo p w (mark p (Part (Suc l) a) True w1)"
    and kid: "Part (Suc l) a \<in> kids lo (mark p (Part (Suc l) a) True w1) p" "Pointer (get_pte p (Part (Suc l) a) (mark p (Part (Suc l) a) True w1)) = c"
    and child: "same_as_pages l 0 c a n wr (mark p (Part (Suc l) a) True w1)"
    and again: "\<And>n' w'. pages_ok (Suc l) lo w' p \<Longrightarrow> Part (Suc l) a \<noteq> 511 \<Longrightarrow>
       same_as_pages (Suc l) lo p (next_entry (Suc l) (Part (Suc l) a) a) n' wr w'"
  shows "same_as_pages (Suc l) lo p a n wr w"
proof -
  let ?i = "Part (Suc l) a" and ?L = "512 ^ l :: nat" and ?v = "page_number (Suc l) a" and ?r = "page_number l a"
  let ?w = "mark p ?i True w1" and ?m = "min n (512 ^ Suc l - page_number (Suc l) a)" and ?m1 = "min n (512 ^ l - page_number l a)"
  have i512: "?i < 512" by (rule Part_less)
  have r: "?r < ?L" by (rule page_number_less)
  note R = ranges [OF page_number.simps(2) [of l a] r i512, of n, folded power_Suc]
  from child obtain k e w2 where 1: "SetupPageMap l c a n wr ?w = Some (k, e, w2)" "map_pages l wr c [?r ..< ?r + ?m1] ?w = Some (e, w2)"
    "grows l 0 c ?w w2" "e = kSuccess \<longrightarrow> k = n - ?m1" unfolding same_as_pages_def Let_def by blast
  have okw: "pages_ok (Suc l) lo ?w p" using g by (simp add: grows_def)
  have g2: "grows (Suc l) lo p ?w w2" using grows_lift(1) [OF okw kid(1)] 1(3) kid(2) by simp
  then have g12: "grows (Suc l) lo p w w2" by (rule grows_trans [OF g])
  have ok2: "pages_ok (Suc l) lo w2 p" using g2 by (simp add: grows_def)
  have "map_pages (Suc l) wr p (map (\<lambda>y. ?i * ?L + y) [?r ..< ?r + ?m1]) w = map_pages l wr c [?r ..< ?r + ?m1] ?w"
  proof (rule map_pages_entry [OF l(1) ok i i512 q])
    show "[?r ..< ?r + ?m1] \<noteq> []" "\<forall>y \<in> set [?r ..< ?r + ?m1]. y < ?L" using n r by auto
  qed
  then have part: "map_pages (Suc l) wr p [?v ..< ?v + ?m1] w = Some (e, w2)"
    using 1(2) add_upt [of "?i * ?L" ?r "?r + ?m1"] by (simp add: add.assoc)
  have step: "SetupPageMap (Suc l) p a n wr w =
      (if e \<noteq> kSuccess then Some (n, e, w2) else if ?i = 511 then Some (k, kSuccess, w2)
       else SetupPageMap (Suc l) p (next_entry (Suc l) ?i a) k wr w2)"
    using q n l 1(1) by (simp add: SetupPageMap.simps [of "Suc l" p a n] Let_def mark_def)
  show ?thesis
  proof (cases "?i = 511")
    case True
    then show ?thesis using step part g12 1(4) R(1) by (auto simp: same_as_pages_def Let_def simp del: page_number.simps)
  next
    case False
    show ?thesis
    proof (cases "e = kSuccess")
      case err: False
      then show ?thesis using step g12 part R(3) [OF False] map_pages_append [of "Suc l" wr p "[?v ..< ?v + ?m1]"]
        by (simp add: same_as_pages_def Let_def del: page_number.simps)
    next
      case e: True
      from again [OF ok2 False, of k] obtain k' e' w' where 2: "SetupPageMap (Suc l) p (next_entry (Suc l) ?i a) k wr w2 = Some (k', e', w')"
        "map_pages (Suc l) wr p [(?i + 1) * ?L ..< (?i + 1) * ?L + min k (512 ^ Suc l - (?i + 1) * ?L)] w2 = Some (e', w')"
        "grows (Suc l) lo p w2 w'" "e' = kSuccess \<longrightarrow> k' = k - min k (512 ^ Suc l - (?i + 1) * ?L)"
        unfolding same_as_pages_def Let_def next_entry_page(1) [OF l(2) False] by blast
      have k: "k = n - ?m1" using 1(4) e by simp
      have "map_pages (Suc l) wr p [?v ..< ?v + ?m] w = Some (e', w')"
        unfolding R(3) [OF False] map_pages_append part using 2(2) [unfolded k] by (simp only: e option.case prod.case not_True_eq_False if_False refl)
      moreover have "e' = kSuccess \<longrightarrow> k' = n - ?m" using 2(4) [unfolded k] by (simp only: R(2) [OF False] diff_diff_left)
      moreover have "grows (Suc l) lo p w w'" using grows_trans [OF g12 2(3)] .
      ultimately show ?thesis using step 2(1) e False by (simp add: same_as_pages_def Let_def)
    qed
  qed
qed

lemma SetupPageMap_pages:
  "0 < l \<Longrightarrow> l \<le> 4 \<Longrightarrow> pages_ok l lo w p \<Longrightarrow> lo \<le> Part l a \<Longrightarrow> same_as_pages l lo p a n wr w"
proof (induction l arbitrary: lo w p a n)
  case (Suc l)
  note outer = Suc.IH
  from Suc.prems(2-4) show ?case
  proof (induction "512 - Part (Suc l) a" arbitrary: a n w rule: less_induct)
    case less
    let ?i = "Part (Suc l) a" and ?L = "512 ^ l :: nat" and ?v = "page_number (Suc l) a" and ?r = "page_number l a"
    have i: "?i < 512" by (rule Part_less)
    have r: "?r < ?L" by (rule page_number_less)
    have v: "?v = ?i * ?L + ?r" by simp
    have again: "same_as_pages (Suc l) lo p (next_entry (Suc l) ?i a) n' wr w'" if "pages_ok (Suc l) lo w' p" "?i \<noteq> 511" for n' w'
    proof (rule less.hyps)
      show "512 - Part (Suc l) (next_entry (Suc l) ?i a) < 512 - ?i" using next_entry_page(2) [OF less.prems(1) that(2)] i that(2) by simp
      show "lo \<le> Part (Suc l) (next_entry (Suc l) ?i a)" using next_entry_page(2) [OF less.prems(1) that(2)] less.prems(3) by simp
    qed (fact less.prems(1) that(1))+
    show ?case
    proof (cases "n = 0")
      case True
      then show ?thesis using same_0 [OF less.prems(2,1)] by simp
    next
      case n: False
      let ?b = "l = 0 \<longrightarrow> wr"
      from descend [OF less.prems(2,3) i, of ?b] obtain q w1 where q: "SetNewPageMapIfNotPresent p ?i w = Some (q, w1)"
        "\<forall>e. q = Inl e \<longrightarrow> e = kNoEnoughMemory \<and> w1 = w"
        "\<forall>c. q = Inr c \<longrightarrow> grows (Suc l) lo p w (mark p ?i ?b w1) \<and> ?i \<in> kids lo (mark p ?i ?b w1) p \<and>
           Pointer (get_pte p ?i (mark p ?i ?b w1)) = c" by blast
      show ?thesis
      proof (cases q)
        case (Inl e)
        have "0 < min n (512 ^ Suc l - ?v)" using n page_number_less [of "Suc l" a] by simp
        then have "[?v ..< ?v + min n (512 ^ Suc l - ?v)] = ?v # [Suc ?v ..< ?v + min n (512 ^ Suc l - ?v)]" by (simp only: upt_conv_Cons)
        moreover have "map_page (Suc l) wr p ?v w = Some (e, w)" using q(1,2) Inl by (simp only: map_page.simps page_number_parts) simp
        moreover have "e \<noteq> kSuccess" using q(2) Inl by simp
        moreover have "SetupPageMap (Suc l) p a n wr w = Some (n, e, w)"
          using q(1,2) Inl n less.prems(1) by (simp add: SetupPageMap.simps [of "Suc l"] Let_def)
        ultimately show ?thesis using grows_refl [OF less.prems(2)] by (simp add: same_as_pages_def)
      next
        case (Inr c)
        then have g: "grows (Suc l) lo p w (mark p ?i ?b w1)" "?i \<in> kids lo (mark p ?i ?b w1) p"
          "Pointer (get_pte p ?i (mark p ?i ?b w1)) = c" and s: "SetNewPageMapIfNotPresent p ?i w = Some (Inr c, w1)" using q by simp_all
        then have ok: "pages_ok (Suc l) lo (mark p ?i ?b w1) p" by (simp add: grows_def)
        show ?thesis
        proof (cases "l = 0")
          case True
          show ?thesis using same_leaf [of lo w p a n c w1 wr] less.prems(2,3) n s g(1) again [OF ok] unfolding True by simp
        next
          case False
          then have b: "?b = True" by simp
          have "pages_ok l 0 (mark p ?i True w1) c" using kid_facts(1) [OF ok g(2)] g(3) unfolding b by simp
          then have "same_as_pages l 0 c a n wr (mark p ?i True w1)" using outer False less.prems(1) by simp
          then show ?thesis using same_inner [OF less.prems(2) _ less.prems(1,3) _ s] g again False n unfolding b by simp
        qed
      qed
    qed
  qed
qed simp

section \<open>What a set-up promises\<close>

text \<open>The pages that a set-up of \<open>n\<close> pages from an address covers; it stops at the end of the address space.\<close>

definition page_range :: "u64 \<Rightarrow> nat \<Rightarrow> nat list" where
  "page_range a n = [page_number 4 a ..< page_number 4 a + min n (512 ^ 4 - page_number 4 a)]"

lemma page_range_user:
  assumes "256 \<le> Part 4 a"
  shows "\<forall>x \<in> set (page_range a n). x < 512 ^ 4 \<and> 256 \<le> x div 512 ^ (4 - 1)"
proof
  have four: "Suc 3 = 4" by simp
  fix x assume "x \<in> set (page_range a n)"
  then show "x < 512 ^ 4 \<and> 256 \<le> x div 512 ^ (4 - 1)"
    using range_bounds [of 256 3 a x n] assms unfolding four page_range_def by simp
qed

lemma SetupPageMaps_pages:
  assumes "pages_ok 4 256 w (cr3 w)" "256 \<le> Part 4 a"
  shows "SetupPageMaps a n wr w = map_pages 4 wr (cr3 w) (page_range a n) w"
  using SetupPageMap_pages [of 4 256 w "cr3 w" a n wr] assms
  by (auto simp: same_as_pages_def Let_def SetupPageMaps_def page_range_def)

lemma numeral_4: "4 = Suc (Suc (Suc (Suc 0)))"
  by simp

text \<open>A state with one table for the user, which is empty.\<close>

definition one_table :: paging_state where
  "one_table = \<lparr>frame_pool = new_frame_manager\<lparr>alloc_map := (alloc_map new_frame_manager)(0 := 3)\<rparr>,
     page_mem = (\<lambda>p. replicate 512 0), cr3 = 0x1000\<rparr>"

lemma one_table_ok: "pages_ok 4 256 one_table (cr3 one_table)" "cr3 one_table = 0x1000"
proof -
  have u: "0x1000 \<in> used_pages one_table"
  proof -
    have "1 \<in> used_frames (frame_pool one_table)" by (simp add: used_frames_def one_table_def kFrameCount_def bit_iff_odd)
    then show ?thesis by (force simp: used_pages_def frame_addr_def kBytesPerFrame_def)
  qed
  have z: "page_mem one_table 0x1000 = replicate 512 0" by (simp add: one_table_def)
  have "frames_ok (frame_pool one_table)" by (simp add: one_table_def frames_ok_def new_frame_manager_def kFrameCount_def)
  then show "pages_ok 4 256 one_table (cr3 one_table)" using empty_table(1,3) [OF z, of 4 256] u
    by (simp add: pages_ok_def one_table_def)
qed (simp add: one_table_def)

lemma top_pages:
  "page_range 0xFFFFFFFFFFFFE000 3 = [512 ^ 4 - 2, 512 ^ 4 - 1]" "256 \<le> Part 4 0xFFFFFFFFFFFFE000"
proof -
  have "page_number (Suc (Suc (Suc (Suc 0)))) 0xFFFFFFFFFFFFE000 = 512 ^ 4 - 2"
    by (simp add: Part_def part_shift_def part_width_def take_bit_eq_mod)
  then have "page_number 4 0xFFFFFFFFFFFFE000 = 512 ^ 4 - 2" by (simp only: numeral_4)
  then show "page_range 0xFFFFFFFFFFFFE000 3 = [512 ^ 4 - 2, 512 ^ 4 - 1]" by (simp add: page_range_def upt_rec)
  show "256 \<le> Part 4 0xFFFFFFFFFFFFE000" by (simp add: Part_def part_shift_def part_width_def take_bit_eq_mod)
qed

text \<open>
  C26: the set-up of the pages of a range, which goes through the tables level by level and fills a table
  before it returns, does what one descent from the root for each page does, in the order of the addresses,
  errors included.
\<close>

theorem page_by_page:
  assumes "pages_ok 4 256 w (cr3 w)" "256 \<le> Part 4 a"
  shows "SetupPageMaps a n wr w = map_pages 4 wr (cr3 w) (page_range a n) w"
  by (rule SetupPageMaps_pages [OF assms])

theorem page_by_page_witness:
  "SetupPageMaps 0xFFFFFFFFFFFFE000 3 True one_table =
     map_pages 4 True 0x1000 [512 ^ 4 - 2, 512 ^ 4 - 1] one_table"
  using page_by_page [OF one_table_ok(1) top_pages(2), of 3 True] unfolding top_pages(1) one_table_ok(2) .

text \<open>
  C27: a set-up of pages for the user. It fails only when no frame is left free. The tree of tables grows by pages that were
  free, and the memory of no page in use changes but for the tables of the tree. On success each page of the range is
  mapped with the rights asked for, where it was or as a new page of zeros; every other page of the user keeps
  its page and does not lose rights. After a failure this holds with some pages of the range not mapped.
\<close>

theorem pages_mapped:
  assumes "pages_ok 4 256 w (cr3 w)" "256 \<le> Part 4 a"
  shows "\<exists>e w'. SetupPageMaps a n wr w = Some (e, w') \<and> grows 4 256 (cr3 w) w w' \<and>
    walks_kept 4 256 (cr3 w) (set (page_range a n)) w w' \<and>
    (e = kSuccess \<and> (\<forall>x \<in> set (page_range a n). mapped 4 wr (cr3 w) x w w') \<or>
     e = kNoEnoughMemory \<and> out_of_frames w' \<and> (\<forall>x \<in> set (page_range a n). mapped 4 wr (cr3 w) x w w' \<or>
       kept_walk (walk 4 w (cr3 w) x) (walk 4 w' (cr3 w) x)))"
proof -
  have "distinct (page_range a n)" by (simp add: page_range_def)
  from map_pages_ok [OF assms(1) _ this page_range_user [OF assms(2)]] show ?thesis
    unfolding SetupPageMaps_pages [OF assms] by simp
qed

theorem pages_mapped_witness:
  "\<exists>e w'. SetupPageMaps 0xFFFFFFFFFFFFE000 3 True one_table = Some (e, w') \<and>
     (e = kSuccess \<longrightarrow> (\<exists>f. walk 4 w' 0x1000 (512 ^ 4 - 1) = Some (f, True) \<and> page_mem w' (Pointer f) = replicate 512 0))"
proof -
  have "page_mem one_table 0x1000 = replicate 512 0" by (simp add: one_table_def)
  then have "walk 4 one_table 0x1000 (512 ^ 4 - 1) = None" by (intro empty_table(4)) simp_all
  moreover from pages_mapped [OF one_table_ok(1) top_pages(2), of 3 True] obtain e w'
    where "SetupPageMaps 0xFFFFFFFFFFFFE000 3 True one_table = Some (e, w')"
      "e = kSuccess \<longrightarrow> mapped 4 True 0x1000 (512 ^ 4 - 1) one_table w'"
    unfolding top_pages(1) one_table_ok(2) by auto
  ultimately show ?thesis unfolding mapped_def by fastforce
qed

end
