(* ===== verification/PageCopy.thy ===== *)
theory PageCopy
  imports Paging
begin

text \<open>
  \<^verbatim>\<open>kernel/paging.cpp\<close>: the tables of a new task, which share the pages of the program that is loaded, and
  the page of its own that a task gets on its first write.
\<close>

section \<open>Copying the tables\<close>

fun for_entries ::
  "(nat \<Rightarrow> paging_state \<Rightarrow> (kernel_error \<times> paging_state) option) \<Rightarrow> nat list \<Rightarrow> paging_state \<Rightarrow>
   (kernel_error \<times> paging_state) option" where
  "for_entries f [] w = Some (kSuccess, w)"
| "for_entries f (i # is) w =
     (case f i w of
        None \<Rightarrow> None
      | Some (err, w1) \<Rightarrow> if err \<noteq> kSuccess then Some (err, w1) else for_entries f is w1)"

text \<open>The levels are 1 to 4.\<close>

fun CopyPageMaps :: "u64 \<Rightarrow> u64 \<Rightarrow> nat \<Rightarrow> nat \<Rightarrow> paging_state \<Rightarrow> (kernel_error \<times> paging_state) option" where
  "CopyPageMaps dest src 0 start w = None"
| "CopyPageMaps dest src (Suc l) start w =
     for_entries
       (\<lambda>i w. if \<not> present (get_pte src i w) then Some (kSuccess, w)
          else if l = 0 then
            let w1 = set_pte dest i (get_pte src i w) w
            in Some (kSuccess, set_pte dest i (set_flag 1 False (get_pte dest i w1)) w1)
          else
            (case NewPageMap w of
               None \<Rightarrow> None
             | Some (Inl err, w1) \<Rightarrow> Some (err, w1)
             | Some (Inr table, w1) \<Rightarrow>
                 let w2 = set_pte dest i (get_pte src i w1) w1;
                     w3 = set_pte dest i (SetPointer table (get_pte dest i w2)) w2
                 in CopyPageMaps table (Pointer (get_pte src i w3)) l 0 w3))
       [start ..< 512] w"

lemma for_entries_inv:
  assumes "\<And>i w. a \<le> i \<Longrightarrow> i < b \<Longrightarrow> P i w \<Longrightarrow>
      \<exists>e w'. f i w = Some (e, w') \<and> (e = kSuccess \<and> P (Suc i) w' \<or> e \<noteq> kSuccess \<and> Q e w')"
  shows "a \<le> b \<Longrightarrow> P a w \<Longrightarrow>
    \<exists>e w'. for_entries f [a ..< b] w = Some (e, w') \<and> (e = kSuccess \<and> P b w' \<or> e \<noteq> kSuccess \<and> Q e w')"
  using assms
proof (induction "b - a" arbitrary: a w)
  case (Suc n)
  then have ab: "a < b" by simp
  from Suc.prems(3) [OF _ ab Suc.prems(2)] obtain e w1 where 1: "f a w = Some (e, w1)"
    "e = kSuccess \<and> P (Suc a) w1 \<or> e \<noteq> kSuccess \<and> Q e w1" by blast
  have u: "[a ..< b] = a # [Suc a ..< b]" using ab by (rule upt_conv_Cons)
  show ?case
  proof (cases "e = kSuccess")
    case True
    then have "P (Suc a) w1" using 1(2) by simp
    moreover have "n = b - Suc a" "Suc a \<le> b" using Suc.hyps(2) ab by simp_all
    ultimately have "\<exists>e w'. for_entries f [Suc a ..< b] w1 = Some (e, w') \<and> (e = kSuccess \<and> P b w' \<or> e \<noteq> kSuccess \<and> Q e w')"
      using Suc.hyps(1) [of "Suc a" w1] Suc.prems(3) by simp
    then show ?thesis using 1(1) True by (simp add: u)
  next
    case False
    then show ?thesis using 1 by (simp add: u)
  qed
qed simp

text \<open>
  A copy has tables of its own and the pages of the original, and translates as the original does, but
  without the right to write.
\<close>

definition read_only :: "(u64 \<times> bool) option \<Rightarrow> (u64 \<times> bool) option" where
  "read_only = map_option (\<lambda>(e, r). (set_flag 1 False e, r))"

definition copied :: "nat \<Rightarrow> nat \<Rightarrow> paging_state \<Rightarrow> u64 \<Rightarrow> paging_state \<Rightarrow> u64 \<Rightarrow> bool" where
  "copied l lo w s w' d \<longleftrightarrow> well l lo w' d \<and>
     nodes l lo w' d \<subseteq> tabs l lo w' d \<union> (nodes l lo w s - tabs l lo w s) \<and>
     (\<forall>x. x < 512 ^ l \<and> lo \<le> x div 512 ^ (l - 1) \<longrightarrow> walk l w' d x = read_only (walk l w s x)) \<and>
     (upper_ok l lo w s \<longrightarrow> upper_ok l lo w' d)"

lemma copied_cong:
  assumes "\<And>q. q \<in> tabs l lo w1 d \<Longrightarrow> page_mem w2 q = page_mem w1 q" "copied l lo w s w1 d"
  shows "copied l lo w s w2 d" "tabs l lo w2 d = tabs l lo w1 d"
  using tree_cong [of l lo w1 d w2, OF assms(1)] upper_cong [of l lo w1 d w2, OF assms(1)] assms(2) by (simp_all add: copied_def)

lemma copied_cong_src:
  assumes "\<And>q. q \<in> tabs l lo w s \<Longrightarrow> page_mem w1 q = page_mem w q"
  shows "copied l lo w1 s w2 d \<longleftrightarrow> copied l lo w s w2 d"
  using tree_cong [of l lo w s w1, OF assms] upper_cong [of l lo w s w1, OF assms] by (auto simp: copied_def)

text \<open>The entry of a copy.\<close>

definition copied_entry :: "nat \<Rightarrow> u64 \<Rightarrow> u64 \<Rightarrow> bool" where
  "copied_entry l e e' \<longleftrightarrow> present e' \<and> user e' = user e \<and>
     (if l = 0 then e' = set_flag 1 False e else writable e' = writable e)"

definition copy_part :: "nat \<Rightarrow> nat \<Rightarrow> paging_state \<Rightarrow> u64 \<Rightarrow> u64 \<Rightarrow> nat \<Rightarrow> paging_state \<Rightarrow> bool" where
  "copy_part l lo w s d k w' \<longleftrightarrow>
     frames_ok (frame_pool w') \<and> cr3 w' = cr3 w \<and> length (page_mem w' d) = 512 \<and>
     (\<forall>q \<in> used_pages w - {d}. page_mem w' q = page_mem w q) \<and>
     (\<forall>j. j < lo \<or> k \<le> j \<longrightarrow> get_pte d j w' = get_pte d j w) \<and>
     used_pages w' = used_pages w \<union> (\<Union>j \<in> kids lo w s \<inter> {..<k}. tabs l 0 w' (Pointer (get_pte d j w'))) \<and>
     (\<forall>j \<in> kids lo w s \<inter> {..<k}. copied_entry l (get_pte s j w) (get_pte d j w') \<and>
        copied l 0 w (Pointer (get_pte s j w)) w' (Pointer (get_pte d j w')) \<and>
        tabs l 0 w' (Pointer (get_pte d j w')) \<inter> used_pages w = {}) \<and>
     (\<forall>j < k. lo \<le> j \<and> j \<notin> kids lo w s \<longrightarrow> \<not> present (get_pte d j w')) \<and>
     (\<forall>i \<in> kids lo w s \<inter> {..<k}. \<forall>j \<in> kids lo w s \<inter> {..<k}. i \<noteq> j \<longrightarrow>
        tabs l 0 w' (Pointer (get_pte d i w')) \<inter> tabs l 0 w' (Pointer (get_pte d j w')) = {})"

lemma copy_part_next:
  assumes P: "copy_part l lo w s d k w1" and d: "d \<in> used_pages w" and k: "k \<in> kids lo w s"
    and w2: "frames_ok (frame_pool w2)" "cr3 w2 = cr3 w1" "length (page_mem w2 d) = 512"
      "\<And>q. q \<in> used_pages w1 \<Longrightarrow> q \<noteq> d \<Longrightarrow> page_mem w2 q = page_mem w1 q"
      "\<And>j. j \<noteq> k \<Longrightarrow> get_pte d j w2 = get_pte d j w1"
    and e: "copied_entry l (get_pte s k w) (get_pte d k w2)"
      "copied l 0 w (Pointer (get_pte s k w)) w2 (Pointer (get_pte d k w2))"
    and t: "tabs l 0 w2 (Pointer (get_pte d k w2)) \<inter> used_pages w1 = {}"
      "used_pages w2 = used_pages w1 \<union> tabs l 0 w2 (Pointer (get_pte d k w2))"
  shows "copy_part l lo w s d (Suc k) w2"
proof -
  let ?K = "kids lo w s" and ?T = "\<lambda>w j. tabs l 0 w (Pointer (get_pte d j w))"
  have p: "\<forall>q \<in> used_pages w - {d}. page_mem w1 q = page_mem w q" "\<forall>j. j < lo \<or> k \<le> j \<longrightarrow> get_pte d j w1 = get_pte d j w"
    "used_pages w1 = used_pages w \<union> (\<Union>j \<in> ?K \<inter> {..<k}. ?T w1 j)"
    "\<And>j. j \<in> ?K \<inter> {..<k} \<Longrightarrow> copied_entry l (get_pte s j w) (get_pte d j w1) \<and>
        copied l 0 w (Pointer (get_pte s j w)) w1 (Pointer (get_pte d j w1)) \<and> ?T w1 j \<inter> used_pages w = {}"
    "\<forall>j < k. lo \<le> j \<and> j \<notin> ?K \<longrightarrow> \<not> present (get_pte d j w1)"
    "\<And>i j. i \<in> ?K \<inter> {..<k} \<Longrightarrow> j \<in> ?K \<inter> {..<k} \<Longrightarrow> i \<noteq> j \<Longrightarrow> ?T w1 i \<inter> ?T w1 j = {}"
    using P unfolding copy_part_def by blast+
  have u: "used_pages w \<subseteq> used_pages w1" using p(3) by blast
  have K: "?K \<inter> {..<Suc k} = insert k (?K \<inter> {..<k})" using k by auto
  have old: "copied l 0 w (Pointer (get_pte s j w)) w2 (Pointer (get_pte d j w2)) \<and> ?T w2 j = ?T w1 j" if j: "j \<in> ?K \<inter> {..<k}" for j
  proof -
    have same: "page_mem w2 q = page_mem w1 q" if q: "q \<in> ?T w1 j" for q
    proof (rule w2(4))
      show "q \<in> used_pages w1" using p(3) j q by blast
      show "q \<noteq> d" using p(4) [OF j] q d by blast
    qed
    have "get_pte d j w2 = get_pte d j w1" using j by (intro w2(5)) auto
    moreover have "copied l 0 w (Pointer (get_pte s j w)) w1 (Pointer (get_pte d j w1))" using p(4) [OF j] by simp
    ultimately show ?thesis
      using copied_cong(1) [OF same] copied_cong(2) [OF same] by (simp only: refl simp_thms)
  qed
  have pte: "get_pte d j w2 = get_pte d j w1" if "j \<in> ?K \<inter> {..<k}" for j using that by (intro w2(5)) auto
  have T: "(\<Union>j \<in> ?K \<inter> {..<k}. ?T w2 j) = (\<Union>j \<in> ?K \<inter> {..<k}. ?T w1 j)" using old by (intro SUP_cong refl) simp
  have mem: "\<forall>q \<in> used_pages w - {d}. page_mem w2 q = page_mem w q"
  proof
    fix q assume q: "q \<in> used_pages w - {d}"
    then have "page_mem w2 q = page_mem w1 q" using w2(4) u by blast
    with p(1) q show "page_mem w2 q = page_mem w q" by simp
  qed
  have low: "\<forall>j. j < lo \<or> Suc k \<le> j \<longrightarrow> get_pte d j w2 = get_pte d j w"
  proof (intro allI impI)
    fix j assume j: "j < lo \<or> Suc k \<le> j"
    then have "j \<noteq> k" using k by (auto simp: kids_def)
    then show "get_pte d j w2 = get_pte d j w" using w2(5) p(2) j by auto
  qed
  have used: "used_pages w2 = used_pages w \<union> (\<Union>j \<in> ?K \<inter> {..<Suc k}. ?T w2 j)" unfolding K t(2) p(3) using T by auto
  have per: "copied_entry l (get_pte s j w) (get_pte d j w2) \<and>
      copied l 0 w (Pointer (get_pte s j w)) w2 (Pointer (get_pte d j w2)) \<and> ?T w2 j \<inter> used_pages w = {}"
    if "j \<in> ?K \<inter> {..<Suc k}" for j
  proof (cases "j = k")
    case True
    then show ?thesis using e t(1) u by auto
  next
    case False
    then have j: "j \<in> ?K \<inter> {..<k}" using that by auto
    then show ?thesis using old [OF j] p(4) [OF j] pte [OF j] by simp
  qed
  have none: "\<forall>j < Suc k. lo \<le> j \<and> j \<notin> ?K \<longrightarrow> \<not> present (get_pte d j w2)"
  proof (intro allI impI)
    fix j assume j: "j < Suc k" "lo \<le> j \<and> j \<notin> ?K"
    then have "j \<noteq> k" using k by auto
    then show "\<not> present (get_pte d j w2)" using w2(5) p(5) j by simp
  qed
  have dis: "?T w2 i \<inter> ?T w2 j = {}" if ij: "i \<in> ?K \<inter> {..<Suc k}" "j \<in> ?K \<inter> {..<Suc k}" "i \<noteq> j" for i j
  proof -
    have new: "?T w2 k \<inter> ?T w2 j = {}" if "j \<in> ?K \<inter> {..<k}" for j
    proof -
      have "?T w1 j \<subseteq> used_pages w1" unfolding p(3) using that by blast
      moreover have "?T w2 j = ?T w1 j" using old [OF that] by simp
      ultimately show ?thesis using t(1) by blast
    qed
    consider "i = k" "j \<in> ?K \<inter> {..<k}" | "j = k" "i \<in> ?K \<inter> {..<k}" | "i \<in> ?K \<inter> {..<k}" "j \<in> ?K \<inter> {..<k}"
      using ij unfolding K by blast
    then show ?thesis
    proof cases
      case 1
      then show ?thesis using new [of j] by simp
    next
      case 2
      then show ?thesis using new [of i] by (simp add: Int_commute)
    next
      case 3
      then show ?thesis using p(6) [OF 3 ij(3)] old [OF 3(1)] old [OF 3(2)] by simp
    qed
  qed
  have cr: "cr3 w2 = cr3 w" using P w2(2) by (simp add: copy_part_def)
  have per': "\<forall>j \<in> ?K \<inter> {..<Suc k}. copied_entry l (get_pte s j w) (get_pte d j w2) \<and>
      copied l 0 w (Pointer (get_pte s j w)) w2 (Pointer (get_pte d j w2)) \<and> ?T w2 j \<inter> used_pages w = {}"
    using per by (rule ballI)
  have dis': "\<forall>i \<in> ?K \<inter> {..<Suc k}. \<forall>j \<in> ?K \<inter> {..<Suc k}. i \<noteq> j \<longrightarrow> ?T w2 i \<inter> ?T w2 j = {}"
    using dis by (intro ballI impI)
  show ?thesis
    unfolding copy_part_def by (intro conjI) (fact w2(1) w2(3) mem low used per' none dis' cr)+
qed

lemma copy_part_start:
  assumes "frames_ok (frame_pool w)" "length (page_mem w d) = 512"
  shows "copy_part l lo w s d lo w"
proof -
  have "kids lo w s \<inter> {..<lo} = {}" by (auto simp: kids_def)
  with assms show ?thesis by (simp add: copy_part_def)
qed

lemma copy_part_skip:
  assumes "copy_part l lo w s d k w1" "\<not> present (get_pte s k w)" "lo \<le> k" "\<not> present (get_pte d k w)"
  shows "copy_part l lo w s d (Suc k) w1"
proof -
  have "k \<notin> kids lo w s" using assms(2) by (simp add: kids_def)
  then have "kids lo w s \<inter> {..<Suc k} = kids lo w s \<inter> {..<k}" by (auto simp: less_Suc_eq)
  moreover have "\<not> present (get_pte d k w1)" using assms by (simp add: copy_part_def)
  ultimately show ?thesis using assms(1) unfolding copy_part_def by (auto simp: less_Suc_eq)
qed

lemma copy_part_end:
  assumes P: "copy_part l lo w s d 512 w'" and d: "d \<in> used_pages w" "d \<notin> nodes (Suc l) lo w s" and s: "pages_ok (Suc l) lo w s"
  shows "copied (Suc l) lo w s w' d" "tabs (Suc l) lo w' d \<inter> used_pages w = {d}"
    "used_pages w' = used_pages w \<union> tabs (Suc l) lo w' d"
proof -
  let ?K = "kids lo w s" and ?D = "\<lambda>j. Pointer (get_pte d j w')" and ?S = "\<lambda>j. Pointer (get_pte s j w)"
  have K: "?K \<inter> {..<512} = ?K" by (auto simp: kids_def)
  have p: "length (page_mem w' d) = 512" "used_pages w' = used_pages w \<union> (\<Union>j \<in> ?K. tabs l 0 w' (?D j))"
    "\<And>j. j \<in> ?K \<Longrightarrow> copied_entry l (get_pte s j w) (get_pte d j w') \<and> copied l 0 w (?S j) w' (?D j) \<and>
       tabs l 0 w' (?D j) \<inter> used_pages w = {}"
    "\<forall>j < 512. lo \<le> j \<and> j \<notin> ?K \<longrightarrow> \<not> present (get_pte d j w')"
    "\<And>i j. i \<in> ?K \<Longrightarrow> j \<in> ?K \<Longrightarrow> i \<noteq> j \<Longrightarrow> tabs l 0 w' (?D i) \<inter> tabs l 0 w' (?D j) = {}"
    using P unfolding copy_part_def K by blast+
  have kd: "kids lo w' d = ?K"
  proof (rule set_eqI)
    fix j show "j \<in> kids lo w' d \<longleftrightarrow> j \<in> ?K"
      using p(3) [of j] p(4) by (cases "j \<in> ?K") (auto simp: kids_def copied_entry_def)
  qed
  have leaf: "nodes l 0 w' (?D j) \<subseteq> tabs l 0 w' (?D j) \<union> (nodes l 0 w (?S j) - tabs l 0 w (?S j))" if "j \<in> ?K" for j
    using p(3) [OF that] by (simp add: copied_def)
  have src: "nodes l 0 w (?S j) \<subseteq> used_pages w" "d \<notin> nodes l 0 w (?S j)" "s \<notin> nodes l 0 w (?S j)" if "j \<in> ?K" for j
    using kid_facts(1,2,4) [OF s that] d(2) by (auto simp: pages_ok_def)
  have apart: "nodes l 0 w' (?D i) \<inter> nodes l 0 w' (?D j) = {}" if "i \<in> ?K" "j \<in> ?K" "i \<noteq> j" for i j
    using leaf [OF that(1)] leaf [OF that(2)] p(5) [OF that] p(3) [OF that(1)] p(3) [OF that(2)] src(1) [OF that(1)] src(1) [OF that(2)]
      kid_facts(3) [OF s that(2) that(1) that(3)] by blast
  have wl: "d \<notin> nodes l 0 w' (?D j) \<and> well l 0 w' (?D j)" if "j \<in> ?K" for j
    using leaf [OF that] p(3) [OF that] src(2) [OF that] d(1) unfolding copied_def by blast
  have "well (Suc l) lo w' d" using p(1) wl apart by (simp add: kd)
  moreover have "nodes (Suc l) lo w' d \<subseteq> tabs (Suc l) lo w' d \<union> (nodes (Suc l) lo w s - tabs (Suc l) lo w s)"
  proof -
    have "q \<notin> tabs (Suc l) lo w s" if j: "j \<in> ?K" and q: "q \<in> nodes l 0 w (?S j)" "q \<notin> tabs l 0 w (?S j)" for j q
    proof -
      have "q \<notin> tabs l 0 w (?S i)" if "i \<in> ?K" for i
        using kid_facts(3) [OF s j that] tabs_nodes [of l 0 w "?S i"] q by (cases "i = j") blast+
      moreover have "q \<noteq> s" using src(3) [OF j] q(1) by auto
      ultimately show ?thesis by auto
    qed
    moreover have "nodes l 0 w (?S j) \<subseteq> nodes (Suc l) lo w s" if "j \<in> ?K" for j using kid_facts(4) [OF s that] .
    ultimately have kid: "nodes l 0 w' (?D j) \<subseteq> tabs l 0 w' (?D j) \<union> (nodes (Suc l) lo w s - tabs (Suc l) lo w s)" if "j \<in> ?K" for j
      using leaf [OF that] that by blast
    have "nodes (Suc l) lo w' d = insert d (\<Union>j \<in> ?K. nodes l 0 w' (?D j))" "tabs (Suc l) lo w' d = insert d (\<Union>j \<in> ?K. tabs l 0 w' (?D j))"
      by (simp_all add: kd)
    then show ?thesis using kid by blast
  qed
  moreover have "walk (Suc l) w' d x = read_only (walk (Suc l) w s x)" if x: "x < 512 ^ Suc l" "lo \<le> x div 512 ^ l" for x
  proof -
    let ?j = "x div 512 ^ l"
    have j: "?j < 512" using x(1) by (simp add: less_mult_imp_div_less mult.commute)
    show ?thesis
    proof (cases "?j \<in> ?K")
      case False
      then have "\<not> present (get_pte d ?j w')" "\<not> present (get_pte s ?j w)" using p(4) j x(2) by (simp_all add: kids_def)
      then show ?thesis by (simp add: read_only_def Let_def)
    next
      case True
      have "x mod 512 ^ l < 512 ^ l" by simp
      then have "walk l w' (?D ?j) (x mod 512 ^ l) = read_only (walk l w (?S ?j) (x mod 512 ^ l))"
        using p(3) [OF True] unfolding copied_def by blast
      moreover have "present (get_pte s ?j w)" using True by (simp add: kids_def)
      ultimately show ?thesis using p(3) [OF True]
        by (cases "walk l w (?S ?j) (x mod 512 ^ l)") (auto simp: read_only_def copied_entry_def Let_def)
    qed
  qed
  moreover have "upper_ok (Suc l) lo w' d" if "upper_ok (Suc l) lo w s"
  proof -
    have "(0 < l \<longrightarrow> user (get_pte d j w') \<and> writable (get_pte d j w')) \<and> upper_ok l 0 w' (?D j)" if j: "j \<in> ?K" for j
      using p(3) [OF j] \<open>upper_ok (Suc l) lo w s\<close> j by (simp add: copied_entry_def copied_def)
    then show ?thesis unfolding upper_ok.simps kd by blast
  qed
  ultimately show "copied (Suc l) lo w s w' d" by (simp add: copied_def del: upper_ok.simps nodes.simps tabs.simps well.simps walk.simps)
  show "tabs (Suc l) lo w' d \<inter> used_pages w = {d}" using p(3) d(1) by (auto simp: kd)
  show "used_pages w' = used_pages w \<union> tabs (Suc l) lo w' d" using p(2) d(1) by (auto simp: kd)
qed

text \<open>What a copy keeps, failures included.\<close>

definition copy_keeps :: "nat \<Rightarrow> paging_state \<Rightarrow> u64 \<Rightarrow> paging_state \<Rightarrow> bool" where
  "copy_keeps lo w d w' \<longleftrightarrow> frames_ok (frame_pool w') \<and> cr3 w' = cr3 w \<and> length (page_mem w' d) = 512 \<and>
     (\<forall>q \<in> used_pages w - {d}. page_mem w' q = page_mem w q) \<and> used_pages w \<subseteq> used_pages w' \<and>
     (\<forall>j < lo. get_pte d j w' = get_pte d j w)"

lemma copy_part_keeps: "copy_part l lo w s d k w' \<Longrightarrow> copy_keeps lo w d w'"
  unfolding copy_part_def copy_keeps_def by blast

definition copy_done :: "nat \<Rightarrow> nat \<Rightarrow> paging_state \<Rightarrow> u64 \<Rightarrow> u64 \<Rightarrow> kernel_error \<Rightarrow> paging_state \<Rightarrow> bool" where
  "copy_done l lo w s d e w' \<longleftrightarrow> copy_keeps lo w d w' \<and>
     (e = kSuccess \<and> copied l lo w s w' d \<and> tabs l lo w' d \<inter> used_pages w = {d} \<and>
        used_pages w' = used_pages w \<union> tabs l lo w' d \<or>
      e = kNoEnoughMemory \<and> out_of_frames w')"

lemma SetPointer_flags [simp]:
  "present (SetPointer p e) = present e" "user (SetPointer p e) = user e" "writable (SetPointer p e) = writable e"
  by (auto simp: present_def user_def writable_def SetPointer_def bit_simps)

lemma copy_leaf_step:
  assumes P: "copy_part 0 lo w s d k w1" and d: "d \<in> used_pages w" and k: "k \<in> kids lo w s"
    and s: "get_pte s k w1 = get_pte s k w" "d \<noteq> s"
  shows "copy_part 0 lo w s d (Suc k)
    (let w2 = set_pte d k (get_pte s k w1) w1 in set_pte d k (set_flag 1 False (get_pte d k w2)) w2)"
proof -
  let ?e = "set_flag 1 False (get_pte s k w)"
  define w2 where "w2 = (let w2 = set_pte d k (get_pte s k w1) w1 in set_pte d k (set_flag 1 False (get_pte d k w2)) w2)"
  have len: "length (page_mem w1 d) = 512" using P by (simp add: copy_part_def)
  have k512: "k < 512" "present (get_pte s k w)" using k by (simp_all add: kids_def)
  have pte: "get_pte d j w2 = (if j = k then ?e else get_pte d j w1)" for j using len k512 s by (simp add: w2_def Let_def)
  have "copy_part 0 lo w s d (Suc k) w2"
  proof (rule copy_part_next [OF P d k])
    show "copied_entry 0 (get_pte s k w) (get_pte d k w2)" using k512 unfolding pte by (simp add: copied_entry_def)
    show "copied 0 0 w (Pointer (get_pte s k w)) w2 (Pointer (get_pte d k w2))"
      unfolding pte by (simp add: copied_def read_only_def)
    show "page_mem w2 q = page_mem w1 q" if "q \<noteq> d" for q using that by (simp add: w2_def Let_def set_pte_def)
    show "frames_ok (frame_pool w2)" "cr3 w2 = cr3 w1" "length (page_mem w2 d) = 512"
      using P by (simp_all add: w2_def Let_def copy_part_def)
    show "used_pages w2 = used_pages w1 \<union> tabs 0 0 w2 (Pointer (get_pte d k w2))" by (simp add: w2_def Let_def)
  qed (simp_all add: pte)
  then show ?thesis unfolding w2_def .
qed

lemma copy_table_start:
  assumes P: "copy_part l lo w s d k w1" and d: "d \<in> used_pages w" "d \<notin> nodes (Suc l) lo w s" and s: "pages_ok (Suc l) lo w s"
    and k: "k \<in> kids lo w s" and n: "page_addr t" "t \<notin> used_pages w1" "used_pages w0 = insert t (used_pages w1)"
      "page_mem w0 = (page_mem w1)(t := replicate 512 0)" "frames_ok (frame_pool w0)" "cr3 w0 = cr3 w1"
    and w3: "w3 = (let w2 = set_pte d k (get_pte s k w0) w0 in set_pte d k (SetPointer t (get_pte d k w2)) w2)"
  shows "get_pte d j w3 = (if j = k then SetPointer t (get_pte s k w) else get_pte d j w1)"
    "q \<in> used_pages w1 \<Longrightarrow> q \<noteq> d \<Longrightarrow> page_mem w3 q = page_mem w1 q" "page_mem w3 t = replicate 512 0"
    "used_pages w3 = insert t (used_pages w1)" "cr3 w3 = cr3 w1" "length (page_mem w3 d) = 512"
    "get_pte s k w3 = get_pte s k w" "pages_ok l 0 w3 (Pointer (get_pte s k w))" "t \<notin> nodes l 0 w3 (Pointer (get_pte s k w))"
    "copied l 0 w3 (Pointer (get_pte s k w)) w' d' \<longleftrightarrow> copied l 0 w (Pointer (get_pte s k w)) w' d'"
proof -
  have u: "used_pages w \<subseteq> used_pages w1" and mem: "\<forall>q \<in> used_pages w - {d}. page_mem w1 q = page_mem w q"
    and len: "length (page_mem w1 d) = 512" using copy_part_keeps [OF P] by (simp_all add: copy_keeps_def)
  have ds: "d \<noteq> s" and su: "s \<in> used_pages w" using d(2) kid_facts(5) [OF s k] by auto
  have dt: "d \<noteq> t" "s \<noteq> t" using n(2) u d(1) su by auto
  have k512: "k < 512" using k by (simp add: kids_def)
  have p0: "get_pte d j w0 = get_pte d j w1" "get_pte s k w0 = get_pte s k w" for j
    using dt n(4) mem su ds by (simp_all add: get_pte_def)
  have len0: "length (page_mem w0 d) = 512" using len dt n(4) by simp
  show "get_pte d j w3 = (if j = k then SetPointer t (get_pte s k w) else get_pte d j w1)" for j
    using len0 k512 p0 by (simp add: w3 Let_def)
  have m3: "page_mem w3 q = page_mem w0 q" if "q \<noteq> d" for q using that by (simp add: w3 Let_def set_pte_def)
  show m1: "q \<in> used_pages w1 \<Longrightarrow> q \<noteq> d \<Longrightarrow> page_mem w3 q = page_mem w1 q" for q using m3 n(2,4) by auto
  show "page_mem w3 t = replicate 512 0" using m3 dt n(4) by simp
  show u3: "used_pages w3 = insert t (used_pages w1)" using n(3) by (simp add: w3 Let_def)
  show "cr3 w3 = cr3 w1" "length (page_mem w3 d) = 512" using n(6) len0 by (simp_all add: w3 Let_def)
  show "get_pte s k w3 = get_pte s k w" using m3 [of s] ds p0(2) by (simp add: get_pte_def)
  let ?S = "Pointer (get_pte s k w)"
  have ok: "pages_ok l 0 w ?S" "nodes l 0 w ?S \<subseteq> nodes (Suc l) lo w s" using kid_facts(1,4) [OF s k] by simp_all
  have same: "page_mem w3 q = page_mem w q" if "q \<in> tabs l 0 w ?S" for q
  proof -
    have "q \<in> nodes l 0 w ?S" using that tabs_nodes by blast
    then have "q \<in> used_pages w" "q \<noteq> d" using ok d(2) by (auto simp: pages_ok_def)
    then show ?thesis using m1 [of q] u mem by auto
  qed
  note c = tree_cong [of l 0 w ?S w3, OF same]
  have "frames_ok (frame_pool w3)" using n(5) by (simp add: w3 Let_def)
  then show "pages_ok l 0 w3 ?S" using ok(1) c u3 u by (auto simp: pages_ok_def)
  show "t \<notin> nodes l 0 w3 ?S" using ok(1) c u n(2) by (auto simp: pages_ok_def)
  show "copied l 0 w3 ?S w' d' \<longleftrightarrow> copied l 0 w ?S w' d'" by (rule copied_cong_src [OF same])
qed

lemma copy_table_step:
  assumes P: "copy_part l lo w s d k w1" and d: "d \<in> used_pages w" "d \<notin> nodes (Suc l) lo w s" and s: "pages_ok (Suc l) lo w s"
    and k: "k \<in> kids lo w s" and n: "page_addr t" "t \<notin> used_pages w1" "used_pages w0 = insert t (used_pages w1)"
      "page_mem w0 = (page_mem w1)(t := replicate 512 0)" "frames_ok (frame_pool w0)" "cr3 w0 = cr3 w1"
    and w3: "w3 = (let w2 = set_pte d k (get_pte s k w0) w0 in set_pte d k (SetPointer t (get_pte d k w2)) w2)"
    and l: "0 < l" and c: "copy_done l 0 w3 (Pointer (get_pte s k w)) t e w4"
  shows "e = kSuccess \<and> copy_part l lo w s d (Suc k) w4 \<or> e = kNoEnoughMemory \<and> out_of_frames w4 \<and> copy_keeps lo w d w4"
proof -
  note T = copy_table_start [OF P d s k n w3]
  have K: "copy_keeps lo w d w1" by (rule copy_part_keeps [OF P])
  have du: "d \<in> used_pages w1" "d \<noteq> t" using K d(1) n(2) by (auto simp: copy_keeps_def)
  have keep: "copy_keeps 0 w3 t w4" using c by (simp add: copy_done_def)
  have m4: "page_mem w4 q = page_mem w3 q" if "q \<in> used_pages w1" for q
    using keep that T(4) n(2) by (auto simp: copy_keeps_def)
  then have pte4: "get_pte d j w4 = get_pte d j w3" for j using du(1) by (simp add: get_pte_def)
  have mem: "page_mem w4 q = page_mem w1 q" if "q \<in> used_pages w1" "q \<noteq> d" for q using m4 T(2) that by simp
  have basic: "frames_ok (frame_pool w4)" "cr3 w4 = cr3 w1" "length (page_mem w4 d) = 512" "used_pages w1 \<subseteq> used_pages w4"
    using keep m4 [OF du(1)] T(4,5,6) by (auto simp: copy_keeps_def)
  from c consider "e = kSuccess" "copied l 0 w3 (Pointer (get_pte s k w)) w4 t" "tabs l 0 w4 t \<inter> used_pages w3 = {t}"
      "used_pages w4 = used_pages w3 \<union> tabs l 0 w4 t" | "e = kNoEnoughMemory" "out_of_frames w4"
    by (auto simp: copy_done_def)
  then show ?thesis
  proof cases
    case 1
    have e4: "get_pte d k w4 = SetPointer t (get_pte s k w)" using pte4 T(1) by simp
    have pt: "Pointer (get_pte d k w4) = t" using n(1) by (simp add: e4)
    have "copy_part l lo w s d (Suc k) w4"
    proof (rule copy_part_next [OF P d(1) k basic(1,2,3) mem])
      show "get_pte d j w4 = get_pte d j w1" if "j \<noteq> k" for j using pte4 T(1) that by simp
      show "copied_entry l (get_pte s k w) (get_pte d k w4)" using k l by (simp add: e4 copied_entry_def kids_def)
      show "copied l 0 w (Pointer (get_pte s k w)) w4 (Pointer (get_pte d k w4))" unfolding pt using 1(2) T(10) by simp
      have "used_pages w1 \<subseteq> used_pages w3 - {t}" using T(4) n(2) by auto
      then show "tabs l 0 w4 (Pointer (get_pte d k w4)) \<inter> used_pages w1 = {}" unfolding pt using 1(3) by blast
      show "used_pages w4 = used_pages w1 \<union> tabs l 0 w4 (Pointer (get_pte d k w4))" unfolding pt 1(4) T(4) using 1(3) by blast
    qed
    with 1(1) show ?thesis by simp
  next
    case 2
    have klo: "lo \<le> k" using k by (simp add: kids_def)
    have "copy_keeps lo w d w4"
      unfolding copy_keeps_def
    proof (intro conjI ballI allI impI)
      show "page_mem w4 q = page_mem w q" if "q \<in> used_pages w - {d}" for q
        using mem [of q] K that by (auto simp: copy_keeps_def)
      show "get_pte d j w4 = get_pte d j w" if "j < lo" for j
        using pte4 T(1) [of j] K klo that by (simp add: copy_keeps_def)
    qed (use basic K in \<open>auto simp: copy_keeps_def\<close>)
    with 2 show ?thesis by simp
  qed
qed

lemma CopyPageMaps_ok:
  "pages_ok l lo w s \<Longrightarrow> 0 < l \<Longrightarrow> lo \<le> 512 \<Longrightarrow> d \<in> used_pages w \<Longrightarrow> d \<notin> nodes l lo w s \<Longrightarrow> length (page_mem w d) = 512 \<Longrightarrow>
   \<forall>i < 512. lo \<le> i \<longrightarrow> \<not> present (get_pte d i w) \<Longrightarrow>
   \<exists>e w'. CopyPageMaps d s l lo w = Some (e, w') \<and> copy_done l lo w s d e w'"
proof (induction l arbitrary: lo w s d)
  case (Suc l)
  note s = Suc.prems(1) and d = Suc.prems(4,5)
  define f where "f = (\<lambda>i w. if \<not> present (get_pte s i w) then Some (kSuccess, w)
     else if l = 0 then
       let w1 = set_pte d i (get_pte s i w) w
       in Some (kSuccess, set_pte d i (set_flag 1 False (get_pte d i w1)) w1)
     else
       (case NewPageMap w of
          None \<Rightarrow> None
        | Some (Inl err, w1) \<Rightarrow> Some (err, w1)
        | Some (Inr table, w1) \<Rightarrow>
            let w2 = set_pte d i (get_pte s i w1) w1;
                w3 = set_pte d i (SetPointer table (get_pte d i w2)) w2
            in CopyPageMaps table (Pointer (get_pte s i w3)) l 0 w3))"
  have ds: "d \<noteq> s" "s \<in> used_pages w" using d(2) s by (auto simp: pages_ok_def)
  have step: "\<exists>e w'. f k w1 = Some (e, w') \<and> (e = kSuccess \<and> copy_part l lo w s d (Suc k) w' \<or>
      e \<noteq> kSuccess \<and> (e = kNoEnoughMemory \<and> out_of_frames w' \<and> copy_keeps lo w d w'))"
    if k: "lo \<le> k" "k < 512" and P: "copy_part l lo w s d k w1" for k w1
  proof -
    have K: "copy_keeps lo w d w1" by (rule copy_part_keeps [OF P])
    have sk: "get_pte s k w1 = get_pte s k w" using K ds by (simp add: copy_keeps_def get_pte_def)
    show ?thesis
    proof (cases "present (get_pte s k w)")
      case False
      then show ?thesis using copy_part_skip [OF P False k(1)] Suc.prems(7) k sk by (simp add: f_def)
    next
      case pr: True
      have kk: "k \<in> kids lo w s" using pr k by (simp add: kids_def)
      show ?thesis
      proof (cases "l = 0")
        case True
        with P have P0: "copy_part 0 lo w s d k w1" by simp
        from copy_leaf_step [OF P0 d(1) kk sk ds(1)] show ?thesis using pr sk True by (simp add: f_def Let_def)
      next
        case False
        then have l: "0 < l" by simp
        have "frames_ok (frame_pool w1)" using K by (simp add: copy_keeps_def)
        from NewPageMap_ok [OF this] obtain r w0 where r: "NewPageMap w1 = Some (r, w0)" "frames_ok (frame_pool w0)" "cr3 w0 = cr3 w1"
          "\<forall>c. r = Inr c \<longrightarrow> page_addr c \<and> c \<notin> used_pages w1 \<and> used_pages w0 = insert c (used_pages w1) \<and>
             page_mem w0 = (page_mem w1)(c := replicate 512 0)"
          "\<forall>e. r = Inl e \<longrightarrow> e = kNoEnoughMemory \<and> w0 = w1 \<and> out_of_frames w1" by blast
        show ?thesis
        proof (cases r)
          case (Inl e)
          then show ?thesis using r K pr sk False by (simp add: f_def)
        next
          case (Inr t)
          with r(4) have n: "page_addr t" "t \<notin> used_pages w1" "used_pages w0 = insert t (used_pages w1)"
            "page_mem w0 = (page_mem w1)(t := replicate 512 0)" by auto
          define w3 where "w3 = (let w2 = set_pte d k (get_pte s k w0) w0 in set_pte d k (SetPointer t (get_pte d k w2)) w2)"
          note T = copy_table_start [OF P d s kk n r(2,3) w3_def]
          have "\<forall>i < 512. 0 \<le> i \<longrightarrow> \<not> present (get_pte t i w3)" using T(3) by (simp add: get_pte_def)
          moreover have "t \<in> used_pages w3" "length (page_mem w3 t) = 512" using T(3,4) by simp_all
          ultimately obtain e w4 where c: "CopyPageMaps t (Pointer (get_pte s k w)) l 0 w3 = Some (e, w4)"
            "copy_done l 0 w3 (Pointer (get_pte s k w)) t e w4"
            using Suc.IH [OF T(8) l _ _ T(9)] by auto
          have "f k w1 = CopyPageMaps t (Pointer (get_pte s k w3)) l 0 w3"
            using pr sk False r(1) Inr ds(1) by (simp add: f_def w3_def Let_def)
          then have "f k w1 = Some (e, w4)" using c(1) T(7) by simp
          then show ?thesis using copy_table_step [OF P d s kk n r(2,3) w3_def l c(2)] by auto
        qed
      qed
    qed
  qed
  have "frames_ok (frame_pool w)" using s by (simp add: pages_ok_def)
  from for_entries_inv [where P = "copy_part l lo w s d" and Q = "\<lambda>e w'. e = kNoEnoughMemory \<and> out_of_frames w' \<and> copy_keeps lo w d w'" and f = f,
      OF step Suc.prems(3) copy_part_start [OF this Suc.prems(6)]]
  obtain e w' where r: "for_entries f [lo ..< 512] w = Some (e, w')" "e = kSuccess \<and> copy_part l lo w s d 512 w' \<or>
      e \<noteq> kSuccess \<and> (e = kNoEnoughMemory \<and> out_of_frames w' \<and> copy_keeps lo w d w')" by blast
  have "CopyPageMaps d s (Suc l) lo w = Some (e, w')" using r(1) by (simp add: f_def)
  moreover have "copy_done (Suc l) lo w s d e w'"
    using r(2) copy_part_end [OF _ d s] copy_part_keeps by (auto simp only: copy_done_def)
  ultimately show ?case by blast
qed simp

section \<open>Copy on write\<close>

fun SetPageContent :: "u64 \<Rightarrow> nat \<Rightarrow> u64 \<Rightarrow> u64 \<Rightarrow> paging_state \<Rightarrow> (kernel_error \<times> paging_state) option" where
  "SetPageContent table 0 addr content w = None"
| "SetPageContent table (Suc l) addr content w =
     (let i = Part (Suc l) addr
      in if l = 0 then
           let w1 = set_pte table i (SetPointer content (get_pte table i w)) w
           in Some (kSuccess, set_pte table i (set_flag 1 True (get_pte table i w1)) w1)
         else SetPageContent (Pointer (get_pte table i w)) l addr content w)"

text \<open>
  The page behind an address: the kernel maps the first 64 GiB to themselves, the user's pages are found in
  the tables.
\<close>

definition virtual_page :: "u64 \<Rightarrow> paging_state \<Rightarrow> u64 option" where
  "virtual_page a w =
     (if a < 0x1000000000 then Some (a AND NOT (mask 12))
      else if 256 \<le> Part 4 a then map_option (\<lambda>(e, r). Pointer e) (walk 4 w (cr3 w) (page_number 4 a))
      else None)"

definition CopyOnePage :: "u64 \<Rightarrow> paging_state \<Rightarrow> (kernel_error \<times> paging_state) option" where
  "CopyOnePage causal_addr w =
     (case NewPageMap w of
        None \<Rightarrow> None
      | Some (Inl err, w1) \<Rightarrow> Some (err, w1)
      | Some (Inr p, w1) \<Rightarrow>
          let aligned_addr = causal_addr AND 0xfffffffffffff000
          in (case virtual_page aligned_addr w1 of
                None \<Rightarrow> None
              | Some q \<Rightarrow> SetPageContent (cr3 w1) 4 causal_addr p (w1\<lparr>page_mem := (page_mem w1)(p := page_mem w1 q)\<rparr>)))"

text \<open>The page \<open>x\<close> of the tree is replaced by the page \<open>c\<close>, which can be written; no other translation changes.\<close>

definition replaced :: "nat \<Rightarrow> nat \<Rightarrow> u64 \<Rightarrow> nat \<Rightarrow> u64 \<Rightarrow> paging_state \<Rightarrow> paging_state \<Rightarrow> bool" where
  "replaced l lo p x c w w' \<longleftrightarrow> frame_pool w' = frame_pool w \<and> cr3 w' = cr3 w \<and> well l lo w' p \<and>
     tabs l lo w' p = tabs l lo w p \<and> nodes l lo w' p \<subseteq> insert c (nodes l lo w p) \<and>
     (\<forall>q. q \<notin> tabs l lo w p \<longrightarrow> page_mem w' q = page_mem w q) \<and>
     (\<forall>e r. walk l w p x = Some (e, r) \<longrightarrow> walk l w' p x = Some (set_flag 1 True (SetPointer c e), r)) \<and>
     (\<forall>y < 512 ^ l. lo \<le> y div 512 ^ (l - 1) \<and> y \<noteq> x \<longrightarrow> walk l w' p y = walk l w p y) \<and>
     (upper_ok l lo w p \<longrightarrow> upper_ok l lo w' p)"

lemma replaced_leaf:
  assumes w: "well (Suc 0) lo w p" and i: "i \<in> kids lo w p" and c: "page_addr c" "c \<notin> nodes (Suc 0) lo w p"
    and w': "frame_pool w' = frame_pool w" "cr3 w' = cr3 w" "length (page_mem w' p) = 512" "\<And>q. q \<noteq> p \<Longrightarrow> page_mem w' q = page_mem w q"
      "\<And>j. get_pte p j w' = (if j = i then set_flag 1 True (SetPointer c (get_pte p i w)) else get_pte p j w)"
  shows "replaced (Suc 0) lo p i c w w'"
proof -
  have k: "kids lo w' p = kids lo w p" using i by (auto simp: kids_def w'(5))
  have ptr: "Pointer (get_pte p j w') = (if j = i then c else Pointer (get_pte p j w))" for j using c(1) by (simp add: w'(5))
  have c2: "c \<noteq> p" "c \<noteq> Pointer (get_pte p j w)" if "j \<in> kids lo w p" for j using c(2) that by auto
  have "well (Suc 0) lo w' p" using w c2(1) [OF i] c2(2) w'(3) i by (auto simp: k ptr)
  moreover have "nodes (Suc 0) lo w' p \<subseteq> insert c (nodes (Suc 0) lo w p)"
  proof
    fix q assume "q \<in> nodes (Suc 0) lo w' p"
    then have "q = p \<or> (\<exists>j \<in> kids lo w p. q = Pointer (get_pte p j w'))" by (simp only: nodes.simps k) blast
    then have "q = p \<or> q = c \<or> (\<exists>j \<in> kids lo w p. q = Pointer (get_pte p j w))" unfolding ptr by (metis (full_types))
    then show "q \<in> insert c (nodes (Suc 0) lo w p)" unfolding nodes.simps by blast
  qed
  moreover have "present (get_pte p i w)" using i by (simp add: kids_def)
  ultimately show ?thesis using w'(1,2,4,5) i unfolding replaced_def by (auto simp: k Let_def kids_def)
qed

lemma replaced_child:
  assumes w: "well (Suc l) lo w p" and i: "i \<in> kids lo w p" and l: "0 < l" and c: "c \<notin> nodes (Suc l) lo w p"
    and x: "x < 512 ^ l" and r: "replaced l 0 (Pointer (get_pte p i w)) x c w w'"
  shows "replaced (Suc l) lo p (i * 512 ^ l + x) c w w'"
proof -
  let ?c = "\<lambda>j. Pointer (get_pte p j w)" and ?K = "kids lo w p"
  have R: "well l 0 w' (?c i)" "tabs l 0 w' (?c i) = tabs l 0 w (?c i)" "nodes l 0 w' (?c i) \<subseteq> insert c (nodes l 0 w (?c i))"
    "\<And>q. q \<notin> tabs l 0 w (?c i) \<Longrightarrow> page_mem w' q = page_mem w q"
    "\<And>e r. walk l w (?c i) x = Some (e, r) \<Longrightarrow> walk l w' (?c i) x = Some (set_flag 1 True (SetPointer c e), r)"
    "\<And>y. y < 512 ^ l \<Longrightarrow> y \<noteq> x \<Longrightarrow> walk l w' (?c i) y = walk l w (?c i) y" "frame_pool w' = frame_pool w" "cr3 w' = cr3 w"
    "upper_ok l 0 w (?c i) \<longrightarrow> upper_ok l 0 w' (?c i)"
    using r by (simp_all add: replaced_def)
  have W: "p \<notin> nodes l 0 w (?c j)" "well l 0 w (?c j)" if "j \<in> ?K" for j using w that by simp_all
  have D: "nodes l 0 w (?c j) \<inter> nodes l 0 w (?c j') = {}" if "j \<in> ?K" "j' \<in> ?K" "j \<noteq> j'" for j j' using w that by simp
  have "p \<notin> tabs l 0 w (?c i)" using W(1) [OF i] tabs_nodes [of l 0 w "?c i"] by blast
  then have pm: "page_mem w' p = page_mem w p" by (rule R(4))
  then have pte: "get_pte p j w' = get_pte p j w" for j by (simp add: get_pte_def)
  then have k: "kids lo w' p = ?K" by (simp add: kids_def)
  have same: "page_mem w' q = page_mem w q" if j: "j \<in> ?K" "j \<noteq> i" and q: "q \<in> tabs l 0 w (?c j)" for j q
    using q D [OF j(1) i j(2)] tabs_nodes [of l 0 w "?c i"] tabs_nodes [of l 0 w "?c j"] by (intro R(4)) blast
  have other: "nodes l 0 w' (?c j) = nodes l 0 w (?c j) \<and> tabs l 0 w' (?c j) = tabs l 0 w (?c j) \<and>
      (well l 0 w' (?c j) \<longleftrightarrow> well l 0 w (?c j)) \<and> (\<forall>y. y < 512 ^ l \<and> 0 \<le> y div 512 ^ (l - 1) \<longrightarrow> walk l w' (?c j) y = walk l w (?c j) y)"
    if j: "j \<in> ?K" "j \<noteq> i" for j
    using same [OF j] by (rule tree_cong)
  have up: "upper_ok l 0 w' (?c j)" if "j \<in> ?K" "upper_ok l 0 w (?c j)" for j
    using upper_cong [of l 0 w "?c j" w'] same [OF that(1)] that(2) R(9) by (cases "j = i") auto
  have tab: "tabs l 0 w' (?c j) = tabs l 0 w (?c j)" if "j \<in> ?K" for j using that other R(2) by (cases "j = i") simp_all
  have node: "nodes l 0 w' (?c j) \<subseteq> (if j = i then insert c (nodes l 0 w (?c j)) else nodes l 0 w (?c j))" if "j \<in> ?K" for j
    using that other R(3) by simp
  have cn: "c \<notin> nodes l 0 w (?c j)" "c \<noteq> p" if "j \<in> ?K" for j using c that by auto
  have "well (Suc l) lo w' p"
  proof -
    have "p \<notin> nodes l 0 w' (?c j) \<and> well l 0 w' (?c j)" if "j \<in> ?K" for j
      using node [OF that] W [OF that] cn(2) [OF that] other [OF that] R(1) by (cases "j = i") auto
    moreover have "nodes l 0 w' (?c j) \<inter> nodes l 0 w' (?c j') = {}" if "j \<in> ?K" "j' \<in> ?K" "j \<noteq> j'" for j j'
      using node [OF that(1)] node [OF that(2)] D [OF that] cn(1) [OF that(1)] cn(1) [OF that(2)] that(3)
      by (cases "j = i"; cases "j' = i"; simp) blast+
    moreover have "length (page_mem w' p) = 512" using w pm by simp
    ultimately show ?thesis by (simp add: k pte)
  qed
  moreover have "tabs (Suc l) lo w' p = tabs (Suc l) lo w p" using tab by (simp add: k pte)
  moreover have "nodes (Suc l) lo w' p \<subseteq> insert c (nodes (Suc l) lo w p)" using node by (fastforce simp: k pte split: if_splits)
  moreover have "page_mem w' q = page_mem w q" if "q \<notin> tabs (Suc l) lo w p" for q using that i by (intro R(4)) auto
  moreover have "walk (Suc l) w' p (i * 512 ^ l + x) = Some (set_flag 1 True (SetPointer c e), r)"
    if "walk (Suc l) w p (i * 512 ^ l + x) = Some (e, r)" for e r
    using that R(5) l x by (cases "walk l w (?c i) x") (auto simp: pte Let_def split: if_splits)
  moreover have "walk (Suc l) w' p y = walk (Suc l) w p y"
    if y: "y < 512 ^ Suc l" "lo \<le> y div 512 ^ l" "y \<noteq> i * 512 ^ l + x" for y
  proof -
    let ?j = "y div 512 ^ l" and ?y = "y mod 512 ^ l"
    have j: "?j < 512" using y(1) by (simp add: less_mult_imp_div_less mult.commute)
    have yl: "?y < 512 ^ l" by simp
    have "walk l w' (?c ?j) ?y = walk l w (?c ?j) ?y" if "?j \<in> ?K"
    proof (cases "?j = i")
      case True
      then have "?y \<noteq> x" using y(3) by (metis div_mult_mod_eq)
      with R(6) [OF yl] True show ?thesis by simp
    next
      case False
      with other [OF that] yl show ?thesis by simp
    qed
    then show ?thesis using j y(2) by (auto simp: pte kids_def Let_def)
  qed
  moreover have "upper_ok (Suc l) lo w p \<longrightarrow> upper_ok (Suc l) lo w' p" using up by (simp add: k pte)
  ultimately show ?thesis using R(7,8) unfolding replaced_def by simp
qed

lemma SetPageContent_ok:
  "well l lo w p \<Longrightarrow> l \<le> 4 \<Longrightarrow> lo \<le> Part l a \<Longrightarrow> page_addr c \<Longrightarrow> c \<notin> nodes l lo w p \<Longrightarrow>
   walk l w p (page_number l a) = Some (e, r) \<Longrightarrow>
   \<exists>w'. SetPageContent p l a c w = Some (kSuccess, w') \<and> replaced l lo p (page_number l a) c w w'"
proof (induction l arbitrary: lo p r)
  case (Suc l)
  let ?i = "Part (Suc l) a" and ?x = "page_number l a"
  have x: "?x < 512 ^ l" by (rule page_number_less)
  have v: "page_number (Suc l) a div 512 ^ l = ?i" "page_number (Suc l) a mod 512 ^ l = ?x" by (rule page_number_parts)+
  have pr: "present (get_pte p ?i w)" using Suc.prems(6) unfolding walk.simps v by (simp add: Let_def split: if_splits)
  then have i: "?i \<in> kids lo w p" using Suc.prems(3) Part_less [of l a] by (simp add: kids_def)
  show ?case
  proof (cases "l = 0")
    case True
    let ?w = "set_pte p ?i (SetPointer c (get_pte p ?i w)) w"
    define w' where "w' = set_pte p ?i (set_flag 1 True (get_pte p ?i ?w)) ?w"
    have len: "length (page_mem w p) = 512" using Suc.prems(1) by simp
    have w1: "well (Suc 0) lo w p" "c \<notin> nodes (Suc 0) lo w p" using Suc.prems(1,5) unfolding True by simp_all
    have "replaced (Suc 0) lo p ?i c w w'"
    proof (rule replaced_leaf [OF w1(1) i Suc.prems(4) w1(2)])
      show "page_mem w' q = page_mem w q" if "q \<noteq> p" for q using that by (simp add: w'_def set_pte_def)
      show "get_pte p j w' = (if j = ?i then set_flag 1 True (SetPointer c (get_pte p ?i w)) else get_pte p j w)" for j
        using len Part_less [of l a] by (simp add: w'_def)
    qed (simp_all add: w'_def len)
    moreover have "SetPageContent p (Suc l) a c w = Some (kSuccess, w')" by (simp add: True w'_def Let_def)
    ultimately show ?thesis by (simp add: True)
  next
    case False
    then have l: "0 < l" by simp
    let ?c = "Pointer (get_pte p ?i w)"
    obtain r' where "walk l w ?c ?x = Some (e, r')"
      using Suc.prems(6) l unfolding walk.simps v by (auto simp: Let_def split: if_splits)
    moreover have "well l 0 w ?c" "c \<notin> nodes l 0 w ?c" using Suc.prems(1,5) i by auto
    ultimately obtain w' where w': "SetPageContent ?c l a c w = Some (kSuccess, w')" "replaced l 0 ?c ?x c w w'"
      using Suc.IH [of 0 ?c] Suc.prems(2,4) by auto
    have "replaced (Suc l) lo p (page_number (Suc l) a) c w w'"
      using replaced_child [OF Suc.prems(1) i l Suc.prems(5) x w'(2)] by simp
    then show ?thesis using w'(1) l by (simp add: Let_def)
  qed
qed simp

text \<open>Addresses of the user, and the page they lie in.\<close>

lemma page_bits: "(0xfffffffffffff000 :: u64) = NOT (mask 12)"
  by (simp add: mask_eq_exp_minus_1)

lemma Part_aligned: "0 < k \<Longrightarrow> Part k (a AND NOT (mask 12)) = Part k a"
proof -
  assume k: "0 < k"
  have "take_bit (part_width k) (drop_bit (part_shift k) (a AND NOT (mask 12))) = take_bit (part_width k) (drop_bit (part_shift k) a)"
    if "k \<le> 4"
  proof (rule bit_word_eqI)
    fix n
    have "12 \<le> part_shift k" using k by (simp add: part_shift_def)
    then show "bit (take_bit (part_width k) (drop_bit (part_shift k) (a AND NOT (mask 12)))) n = bit (take_bit (part_width k) (drop_bit (part_shift k) a)) n"
      by (auto simp: bit_simps dest: bit_imp_le_length)
  qed
  then show ?thesis by (simp add: Part_def)
qed

lemma page_number_aligned: "page_number l (a AND NOT (mask 12)) = page_number l a"
  by (rule page_number_cong) (simp add: Part_aligned)

lemma user_high:
  assumes "256 \<le> Part 4 a"
  shows "\<not> a < 0x1000000000"
proof
  assume "a < 0x1000000000"
  then have "unat a < 2 ^ 36" by (simp add: word_less_nat_alt)
  then have "unat (drop_bit 39 a) = 0" by (simp add: drop_bit_eq_div unat_div_distrib)
  then have "drop_bit 39 a = 0" by (simp only: unat_eq_0)
  with assms show False by (simp add: Part_def part_shift_def)
qed

lemma page_range_one: "page_range a 1 = [page_number 4 a]"
proof -
  have "page_number 4 a < 512 ^ 4" by (rule page_number_less)
  then have "min 1 (512 ^ 4 - page_number 4 a) = 1" by simp
  then show ?thesis by (simp only: page_range_def) simp
qed

lemma virtual_page_user:
  assumes "256 \<le> Part 4 a"
  shows "virtual_page (a AND NOT (mask 12)) w = map_option (\<lambda>(e, r). Pointer e) (walk 4 w (cr3 w) (page_number 4 a))"
proof -
  have "256 \<le> Part 4 (a AND NOT (mask 12))" using assms by (simp add: Part_aligned)
  then show ?thesis using user_high by (simp add: virtual_page_def page_number_aligned)
qed

text \<open>What a write to a shared page leads to.\<close>

definition cow_result :: "nat \<Rightarrow> u64 \<Rightarrow> bool \<Rightarrow> paging_state \<Rightarrow> paging_state \<Rightarrow> bool" where
  "cow_result x e r w w' \<longleftrightarrow> pages_ok 4 256 w' (cr3 w) \<and> cr3 w' = cr3 w \<and>
     tabs 4 256 w' (cr3 w) = tabs 4 256 w (cr3 w) \<and> (upper_ok 4 256 w (cr3 w) \<longrightarrow> upper_ok 4 256 w' (cr3 w)) \<and>
     (\<exists>p. page_addr p \<and> p \<notin> used_pages w \<and> used_pages w' = insert p (used_pages w) \<and>
        page_mem w' p = page_mem w (Pointer e) \<and> walk 4 w' (cr3 w) x = Some (set_flag 1 True (SetPointer p e), r)) \<and>
     (\<forall>q \<in> used_pages w - tabs 4 256 w (cr3 w). page_mem w' q = page_mem w q) \<and>
     (\<forall>y < 512 ^ 4. 256 \<le> y div 512 ^ 3 \<and> y \<noteq> x \<longrightarrow> walk 4 w' (cr3 w) y = walk 4 w (cr3 w) y)"

lemma CopyOnePage_ok:
  assumes ok: "pages_ok 4 256 w (cr3 w)" and a: "256 \<le> Part 4 a" and e: "walk 4 w (cr3 w) (page_number 4 a) = Some (e, r)"
  shows "\<exists>err w'. CopyOnePage a w = Some (err, w') \<and>
    (err = kNoEnoughMemory \<and> w' = w \<and> out_of_frames w \<or> err = kSuccess \<and> cow_result (page_number 4 a) e r w w')"
proof -
  let ?p = "cr3 w" and ?x = "page_number 4 a"
  have "frames_ok (frame_pool w)" using ok by (simp add: pages_ok_def)
  from NewPageMap_ok [OF this] obtain q w1 where q: "NewPageMap w = Some (q, w1)" "frames_ok (frame_pool w1)" "cr3 w1 = cr3 w"
    "\<forall>c. q = Inr c \<longrightarrow> page_addr c \<and> c \<notin> used_pages w \<and> used_pages w1 = insert c (used_pages w) \<and>
       page_mem w1 = (page_mem w)(c := replicate 512 0)"
    "\<forall>e. q = Inl e \<longrightarrow> e = kNoEnoughMemory \<and> w1 = w \<and> out_of_frames w" by blast
  show ?thesis
  proof (cases q)
    case (Inl err)
    then show ?thesis using q by (simp add: CopyOnePage_def)
  next
    case (Inr c)
    with q(4) have c: "page_addr c" "c \<notin> used_pages w" "used_pages w1 = insert c (used_pages w)"
      "page_mem w1 = (page_mem w)(c := replicate 512 0)" by auto
    have nu: "nodes 4 256 w ?p \<subseteq> used_pages w" "tabs 4 256 w ?p \<subseteq> used_pages w" using ok tabs_used [OF ok] by (simp_all add: pages_ok_def)
    have x: "?x < 512 ^ 4" "256 \<le> ?x div 512 ^ (4 - 1)" using page_range_user [OF a, of 1] unfolding page_range_one by simp_all
    have "well 4 256 w ?p" using ok by (simp add: pages_ok_def)
    from walk_leaf [OF this x e] nu(1) have ec: "Pointer e \<noteq> c" "Pointer e \<in> used_pages w" "Pointer e \<notin> tabs 4 256 w ?p" using c(2) by auto
    have w1: "page_mem w1 t = page_mem w t" if "t \<in> tabs 4 256 w ?p" for t using that nu(2) c(2,4) by auto
    note C1 = tree_cong [of 4 256 w ?p w1, OF w1]
    have "virtual_page (a AND NOT (mask 12)) w1 = Some (Pointer e)"
      using virtual_page_user [OF a, of w1] C1 x e q(3) by simp
    moreover define w2 where "w2 = w1\<lparr>page_mem := (page_mem w1)(c := page_mem w1 (Pointer e))\<rparr>"
    ultimately have run: "CopyOnePage a w = SetPageContent ?p 4 a c w2"
      using q(1,3) Inr by (simp add: CopyOnePage_def page_bits Let_def)
    have m2: "page_mem w2 = (page_mem w)(c := page_mem w (Pointer e))" using ec by (simp add: w2_def c(4))
    have w2: "page_mem w2 t = page_mem w t" if "t \<in> tabs 4 256 w ?p" for t using that nu(2) c(2) by (auto simp: m2)
    note C2 = tree_cong [of 4 256 w ?p w2, OF w2]
    have "well 4 256 w2 ?p" "c \<notin> nodes 4 256 w2 ?p" "walk 4 w2 ?p ?x = Some (e, r)"
      using C2 ok nu(1) c(2) e x by (auto simp: pages_ok_def)
    from SetPageContent_ok [OF this(1) _ a c(1) this(2,3)] obtain w' where s: "SetPageContent ?p 4 a c w2 = Some (kSuccess, w')"
      "replaced 4 256 ?p ?x c w2 w'" by auto
    have pool: "frame_pool w' = frame_pool w1" "cr3 w' = cr3 w" "used_pages w' = insert c (used_pages w)"
      using s(2) q(3) c(3) by (simp_all add: replaced_def w2_def used_pages_def)
    have "cow_result ?x e r w w'"
      unfolding cow_result_def
    proof (intro conjI exI [of _ c])
      have "nodes 4 256 w' ?p \<subseteq> insert c (nodes 4 256 w ?p)" "well 4 256 w' ?p" using s(2) C2 by (simp_all add: replaced_def)
      moreover from this(1) have "nodes 4 256 w' ?p \<subseteq> used_pages w'" unfolding pool(3) using nu(1) by blast
      ultimately show "pages_ok 4 256 w' ?p" using q(2) pool(1) by (simp add: pages_ok_def)
      show "tabs 4 256 w' ?p = tabs 4 256 w ?p" using s(2) C2 by (simp add: replaced_def)
      show "upper_ok 4 256 w ?p \<longrightarrow> upper_ok 4 256 w' ?p" using s(2) upper_cong [of 4 256 w ?p w2, OF w2] by (simp add: replaced_def)
      have "c \<notin> tabs 4 256 w2 ?p" using C2 nu(2) c(2) by auto
      then show "page_mem w' c = page_mem w (Pointer e)" using s(2) by (simp add: replaced_def m2)
      show "walk 4 w' ?p ?x = Some (set_flag 1 True (SetPointer c e), r)"
        using s(2) \<open>walk 4 w2 ?p ?x = Some (e, r)\<close> by (simp add: replaced_def)
      show "\<forall>t \<in> used_pages w - tabs 4 256 w ?p. page_mem w' t = page_mem w t"
        using s(2) C2 c(2) by (auto simp: replaced_def m2)
      show "\<forall>y < 512 ^ 4. 256 \<le> y div 512 ^ 3 \<and> y \<noteq> ?x \<longrightarrow> walk 4 w' ?p y = walk 4 w ?p y"
        using s(2) C2 by (simp add: replaced_def)
    qed (use pool c in simp_all)
    then show ?thesis using run s(1) by simp
  qed
qed

section \<open>The tables of a new task\<close>

text \<open>
  \<^verbatim>\<open>kernel/terminal.cpp\<close>. The result is that of the function, the \<open>cr3\<close> of the task's context and the state;
  \<open>pml4_table\<close> is the table of the kernel, which \<^verbatim>\<open>ResetCR3\<close> puts back.
\<close>

definition SetupPML4 :: "u64 \<Rightarrow> paging_state \<Rightarrow> ((kernel_error + u64) \<times> u64 \<times> paging_state) option" where
  "SetupPML4 context_cr3 w =
     (case NewPageMap w of
        None \<Rightarrow> None
      | Some (Inl err, w1) \<Rightarrow> Some (Inl err, context_cr3, w1)
      | Some (Inr pml4, w1) \<Rightarrow>
          let current_pml4 = cr3 w1;
              w2 = w1\<lparr>page_mem := (page_mem w1)(pml4 := take 256 (page_mem w1 current_pml4) @ drop 256 (page_mem w1 pml4))\<rparr>
          in Some (Inr pml4, pml4, w2\<lparr>cr3 := pml4\<rparr>))"

definition FreePML4 :: "u64 \<Rightarrow> u64 \<Rightarrow> paging_state \<Rightarrow> (kernel_error \<times> u64 \<times> paging_state) option" where
  "FreePML4 pml4_table context_cr3 w =
     map_option (\<lambda>(e, w'). (e, 0, w')) (FreePageMap context_cr3 (w\<lparr>cr3 := pml4_table\<rparr>))"

text \<open>The branch of \<^verbatim>\<open>LoadApp\<close> for a program that was loaded before, with the tables \<open>app_pml4\<close>.\<close>

definition LoadApp_again :: "u64 \<Rightarrow> u64 \<Rightarrow> paging_state \<Rightarrow> (kernel_error \<times> u64 \<times> paging_state) option" where
  "LoadApp_again app_pml4 context_cr3 w =
     (case SetupPML4 context_cr3 w of
        None \<Rightarrow> None
      | Some (Inl err, ctx, w1) \<Rightarrow> Some (err, ctx, w1)
      | Some (Inr temp_pml4, ctx, w1) \<Rightarrow>
          map_option (\<lambda>(err, w2). (err, ctx, w2)) (CopyPageMaps temp_pml4 app_pml4 4 256 w1))"

text \<open>A new task: its tables, its right to the program's pages, and what it leaves alone.\<close>

definition started :: "u64 \<Rightarrow> paging_state \<Rightarrow> u64 \<Rightarrow> paging_state \<Rightarrow> bool" where
  "started s w d w' \<longleftrightarrow> cr3 w' = d \<and> d \<notin> used_pages w \<and> pages_ok 4 256 w' d \<and>
     (\<forall>j < 256. get_pte d j w' = get_pte (cr3 w) j w) \<and>
     (\<forall>x < 512 ^ 4. 256 \<le> x div 512 ^ 3 \<longrightarrow> walk 4 w' d x = read_only (walk 4 w s x)) \<and>
     tabs 4 256 w' d \<inter> used_pages w = {} \<and> used_pages w' = used_pages w \<union> tabs 4 256 w' d \<and>
     (\<forall>q \<in> used_pages w. page_mem w' q = page_mem w q) \<and> (upper_ok 4 256 w s \<longrightarrow> upper_ok 4 256 w' d)"

lemma LoadApp_again_ok:
  assumes s: "pages_ok 4 256 w s" and c: "length (page_mem w (cr3 w)) = 512" "cr3 w \<in> used_pages w"
  shows "\<exists>err ctx' w'. LoadApp_again s ctx w = Some (err, ctx', w') \<and> (\<forall>q \<in> used_pages w. page_mem w' q = page_mem w q) \<and>
    (err = kSuccess \<and> started s w ctx' w' \<or> err = kNoEnoughMemory \<and> out_of_frames w')"
proof -
  have "frames_ok (frame_pool w)" using s by (simp add: pages_ok_def)
  from NewPageMap_ok [OF this] obtain r w1 where r: "NewPageMap w = Some (r, w1)" "frames_ok (frame_pool w1)" "cr3 w1 = cr3 w"
    "\<forall>d. r = Inr d \<longrightarrow> page_addr d \<and> d \<notin> used_pages w \<and> used_pages w1 = insert d (used_pages w) \<and>
       page_mem w1 = (page_mem w)(d := replicate 512 0)"
    "\<forall>e. r = Inl e \<longrightarrow> e = kNoEnoughMemory \<and> w1 = w \<and> out_of_frames w" by blast
  show ?thesis
  proof (cases r)
    case (Inl err)
    then show ?thesis using r by (simp add: LoadApp_again_def SetupPML4_def)
  next
    case (Inr d)
    with r(4) have d: "page_addr d" "d \<notin> used_pages w" "used_pages w1 = insert d (used_pages w)"
      "page_mem w1 = (page_mem w)(d := replicate 512 0)" by auto
    define w2 where "w2 = w1\<lparr>page_mem := (page_mem w1)(d := take 256 (page_mem w1 (cr3 w1)) @ drop 256 (page_mem w1 d)), cr3 := d\<rparr>"
    have cd: "cr3 w \<noteq> d" using c(2) d(2) by auto
    have m2: "page_mem w2 = (page_mem w)(d := take 256 (page_mem w (cr3 w)) @ replicate 256 0)"
      using cd by (simp add: w2_def d(4) r(3))
    have u2: "used_pages w2 = insert d (used_pages w)" "frames_ok (frame_pool w2)" "cr3 w2 = d"
      using d(3) r(2) by (simp_all add: w2_def used_pages_def)
    have run: "LoadApp_again s ctx w = map_option (\<lambda>(err, w'). (err, d, w')) (CopyPageMaps d s 4 256 w2)"
      using r(1) Inr by (simp add: LoadApp_again_def SetupPML4_def w2_def Let_def)
    have su: "nodes 4 256 w s \<subseteq> used_pages w" "tabs 4 256 w s \<subseteq> used_pages w" using s tabs_used [OF s] by (simp_all add: pages_ok_def)
    have same: "page_mem w2 q = page_mem w q" if "q \<in> tabs 4 256 w s" for q using that su(2) d(2) by (auto simp: m2)
    note C = tree_cong [of 4 256 w s w2, OF same]
    have ok2: "pages_ok 4 256 w2 s" using s C u2 by (auto simp: pages_ok_def)
    have "length (page_mem w2 d) = 512" by (simp add: m2 c(1))
    moreover have "\<forall>i < 512. 256 \<le> i \<longrightarrow> \<not> present (get_pte d i w2)" by (simp add: get_pte_def m2 nth_append c(1))
    moreover have "d \<in> used_pages w2" "d \<notin> nodes 4 256 w2 s" using u2 C su(1) d(2) by auto
    ultimately obtain err w' where cp: "CopyPageMaps d s 4 256 w2 = Some (err, w')" "copy_done 4 256 w2 s d err w'"
      using CopyPageMaps_ok [OF ok2, of d] by auto
    have mem: "\<forall>q \<in> used_pages w. page_mem w' q = page_mem w q"
      using cp(2) d(2) u2(1) by (auto simp: copy_done_def copy_keeps_def m2)
    have "started s w d w'" if "err = kSuccess"
    proof -
      have k: "copied 4 256 w2 s w' d" "tabs 4 256 w' d \<inter> used_pages w2 = {d}" "used_pages w' = used_pages w2 \<union> tabs 4 256 w' d"
        "copy_keeps 256 w2 d w'" using cp(2) that by (auto simp: copy_done_def)
      have "\<forall>j < 256. get_pte d j w' = get_pte (cr3 w) j w" using k(4) c(1) by (simp add: copy_keeps_def get_pte_def m2 nth_append)
      moreover have "nodes 4 256 w' d \<subseteq> used_pages w'"
        using k(1,3) C su(1) u2(1) unfolding copied_def by blast
      moreover have "\<forall>x < 512 ^ 4. 256 \<le> x div 512 ^ 3 \<longrightarrow> walk 4 w' d x = read_only (walk 4 w s x)"
        using k(1) C by (simp add: copied_def)
      moreover have "tabs 4 256 w' d \<inter> used_pages w = {}" using k(2) u2(1) d(2) by auto
      moreover have "used_pages w' = used_pages w \<union> tabs 4 256 w' d" using k(2,3) u2(1) by auto
      moreover have "well 4 256 w' d" "frames_ok (frame_pool w')" "cr3 w' = d" using k(1,4) u2(3) by (simp_all add: copied_def copy_keeps_def)
      moreover have "upper_ok 4 256 w s \<longrightarrow> upper_ok 4 256 w' d"
        using k(1) upper_cong [of 4 256 w s w2, OF same] by (simp add: copied_def)
      ultimately show ?thesis using d(2) mem by (simp add: started_def pages_ok_def)
    qed
    moreover have "err = kSuccess \<or> err = kNoEnoughMemory \<and> out_of_frames w'" using cp(2) by (auto simp: copy_done_def)
    ultimately show ?thesis using run cp(1) mem by auto
  qed
qed

end
