(* ===== verification/PageFault.thy ===== *)
theory PageFault
  imports PageCopy FatFile
begin

text \<open>
  \<^verbatim>\<open>kernel/paging.cpp\<close>: page faults of the user, which bring pages in on demand, from files or as copies, and
  what a task can do to memory by its faults and its writes to its own half of the address space.
\<close>

section \<open>The handler\<close>

record file_mapping =
  fm_fd :: int
  vaddr_begin :: u64
  vaddr_end :: u64

text \<open>
  What the handler reads of the task; \<open>file_load fd len offset\<close> is what \<^verbatim>\<open>Load\<close> of the descriptor behind \<open>fd\<close> gives.
\<close>

record fault_task =
  dpaging_begin :: u64
  dpaging_end :: u64
  file_maps :: "file_mapping list"
  file_load :: "int \<Rightarrow> nat \<Rightarrow> nat \<Rightarrow> u8 list option"

definition FindFileMapping :: "file_mapping list \<Rightarrow> u64 \<Rightarrow> file_mapping option" where
  "FindFileMapping fmaps causal_vaddr = find (\<lambda>m. vaddr_begin m \<le> causal_vaddr \<and> causal_vaddr < vaddr_end m) fmaps"

text \<open>Bytes in a page of words, the lowest byte first.\<close>

fun word_le :: "u8 list \<Rightarrow> u64" where
  "word_le [] = 0"
| "word_le (b # bs) = ucast b OR push_bit 8 (word_le bs)"

definition bytes_le :: "u64 \<Rightarrow> u8 list" where
  "bytes_le w = map (\<lambda>i. ucast (drop_bit (8 * i) w)) [0..<8]"

definition page_bytes :: "u64 list \<Rightarrow> u8 list" where
  "page_bytes ws = concat (map bytes_le ws)"

definition put_in_page :: "u8 list \<Rightarrow> u64 list \<Rightarrow> u64 list" where
  "put_in_page bs ws =
     (let all = bs @ drop (length bs) (page_bytes ws)
      in map (\<lambda>i. word_le (take 8 (drop (8 * i) all))) [0 ..< length ws])"

definition PreparePageCache ::
  "(int \<Rightarrow> nat \<Rightarrow> nat \<Rightarrow> u8 list option) \<Rightarrow> file_mapping \<Rightarrow> u64 \<Rightarrow> paging_state \<Rightarrow> (kernel_error \<times> paging_state) option" where
  "PreparePageCache load m causal_vaddr w =
     (let page_vaddr = SetPart 0 0 causal_vaddr
      in (case SetupPageMaps page_vaddr 1 True w of
            None \<Rightarrow> None
          | Some (err, w1) \<Rightarrow>
              if err \<noteq> kSuccess then Some (err, w1)
              else (case (virtual_page page_vaddr w1, load (fm_fd m) 4096 (unat (page_vaddr - vaddr_begin m))) of
                      (Some page_cache, Some bytes) \<Rightarrow>
                        Some (kSuccess, w1\<lparr>page_mem := (page_mem w1)(page_cache := put_in_page bytes (page_mem w1 page_cache))\<rparr>)
                    | _ \<Rightarrow> None)))"

definition HandlePageFault :: "fault_task \<Rightarrow> u64 \<Rightarrow> u64 \<Rightarrow> paging_state \<Rightarrow> (kernel_error \<times> paging_state) option" where
  "HandlePageFault task error_code causal_addr w =
     (let present = bit error_code 0; rw = bit error_code 1; user = bit error_code 2
      in if present \<and> rw \<and> user then CopyOnePage causal_addr w
         else if present then Some (kAlreadyAllocated, w)
         else if dpaging_begin task \<le> causal_addr \<and> causal_addr < dpaging_end task then SetupPageMaps causal_addr 1 True w
         else (case FindFileMapping (file_maps task) causal_addr of
                 Some m \<Rightarrow> PreparePageCache (file_load task) m causal_addr w
               | None \<Rightarrow> Some (kIndexOutOfRange, w)))"

section \<open>Memory as a task sees it\<close>

text \<open>
  What can happen to the memory of a task: it writes to a page that it may write or takes a fault, or the
  kernel sets up its pages for arguments and stack, where nothing is mapped yet. The processor reports in bit 0 of
  the code of a fault whether the page is there, and it does not report a write of the user to a page that the user
  may write. Faults are taken in the user's half (\<open>page_fault\<close>) and at addresses of the kernel (\<open>kernel_fault\<close>). One
  kind is left out, that of a write of the user to a page of the kernel that is there: it is handled as copy on
  write and changes pages the task does not own, which is the subject of \<open>PageKernel\<close>. Demand paging and mapped
  files lie in the user's half. What the kernel itself writes for the task in system calls is not modelled.
\<close>

inductive task_step :: "paging_state \<Rightarrow> paging_state \<Rightarrow> bool" where
  user_write: "x < 512 ^ 4 \<Longrightarrow> 256 \<le> x div 512 ^ 3 \<Longrightarrow> walk 4 w (cr3 w) x = Some (e, True) \<Longrightarrow> user e \<Longrightarrow> writable e \<Longrightarrow>
     task_step w (w\<lparr>page_mem := (page_mem w)(Pointer e := ws)\<rparr>)"
| page_fault: "256 \<le> Part 4 a \<Longrightarrow> bit code 0 \<longleftrightarrow> walk 4 w (cr3 w) (page_number 4 a) \<noteq> None \<Longrightarrow>
     (\<And>e. bit code 0 \<Longrightarrow> bit code 1 \<Longrightarrow> bit code 2 \<Longrightarrow>
        walk 4 w (cr3 w) (page_number 4 a) = Some (e, True) \<Longrightarrow> user e \<Longrightarrow> \<not> writable e) \<Longrightarrow>
     HandlePageFault t code a w = Some (err, w') \<Longrightarrow> task_step w w'"
| kernel_fault: "Part 4 a < 256 \<Longrightarrow> \<not> (bit code 0 \<and> bit code 1 \<and> bit code 2) \<Longrightarrow>
     \<not> (dpaging_begin t \<le> a \<and> a < dpaging_end t) \<Longrightarrow> FindFileMapping (file_maps t) a = None \<Longrightarrow>
     HandlePageFault t code a w = Some (err, w') \<Longrightarrow> task_step w w'"
| pages_set_up: "256 \<le> Part 4 a \<Longrightarrow> \<forall>x \<in> set (page_range a n). walk 4 w (cr3 w) x = None \<Longrightarrow>
     SetupPageMaps a n True w = Some (err, w') \<Longrightarrow> task_step w w'"

inductive task_runs :: "paging_state \<Rightarrow> paging_state \<Rightarrow> bool" where
  here: "task_runs w w"
| step: "task_runs w w1 \<Longrightarrow> task_step w1 w2 \<Longrightarrow> task_runs w w2"

inductive_cases task_stepE: "task_step w w'"

text \<open>A fault that is not handled changes nothing.\<close>

lemma unhandled_fault:
  assumes "\<not> (bit code 0 \<and> bit code 1 \<and> bit code 2)" "\<not> (dpaging_begin t \<le> a \<and> a < dpaging_end t)"
    and "FindFileMapping (file_maps t) a = None" "HandlePageFault t code a w = Some (err, w')"
  shows "w' = w \<and> err \<in> {kAlreadyAllocated, kIndexOutOfRange}"
  using assms by (auto simp: HandlePageFault_def Let_def split: if_splits)

text \<open>The pages \<open>S\<close> that were in use when the task started, with their contents.\<close>

definition isolated :: "u64 set \<Rightarrow> (u64 \<Rightarrow> u64 list) \<Rightarrow> paging_state \<Rightarrow> bool" where
  "isolated S mem w \<longleftrightarrow> pages_ok 4 256 w (cr3 w) \<and> S \<subseteq> used_pages w \<and> tabs 4 256 w (cr3 w) \<inter> S = {} \<and>
     (\<forall>q \<in> S. page_mem w q = mem q) \<and>
     (\<forall>x < 512 ^ 4. 256 \<le> x div 512 ^ 3 \<longrightarrow>
        (\<forall>e r. walk 4 w (cr3 w) x = Some (e, r) \<and> writable e \<longrightarrow> Pointer e \<notin> S))"

lemma isolated_write:
  assumes "isolated S mem w" "x < 512 ^ 4" "256 \<le> x div 512 ^ 3" "walk 4 w (cr3 w) x = Some (e, r)" "writable e"
  shows "isolated S mem (w\<lparr>page_mem := (page_mem w)(Pointer e := ws)\<rparr>)"
proof -
  let ?w = "w\<lparr>page_mem := (page_mem w)(Pointer e := ws)\<rparr>"
  have ok: "pages_ok 4 256 w (cr3 w)" using assms(1) by (simp add: isolated_def)
  have leaf: "Pointer e \<notin> tabs 4 256 w (cr3 w)" using walk_leaf [of 4 256 w "cr3 w" x e r] ok assms(2-4) by (simp add: pages_ok_def)
  have C: "nodes 4 256 ?w (cr3 w) = nodes 4 256 w (cr3 w) \<and> tabs 4 256 ?w (cr3 w) = tabs 4 256 w (cr3 w) \<and>
      (well 4 256 ?w (cr3 w) \<longleftrightarrow> well 4 256 w (cr3 w)) \<and>
      (\<forall>x. x < 512 ^ 4 \<and> 256 \<le> x div 512 ^ (4 - 1) \<longrightarrow> walk 4 ?w (cr3 w) x = walk 4 w (cr3 w) x)"
    by (rule tree_cong) (use leaf in auto)
  have "Pointer e \<notin> S" using assms by (auto simp: isolated_def)
  moreover have "used_pages ?w = used_pages w" by (simp add: used_pages_def)
  ultimately show ?thesis using assms(1) C by (auto simp: isolated_def pages_ok_def)
qed

lemma SetupPageMaps_ok:
  assumes "pages_ok 4 256 w (cr3 w)" "256 \<le> Part 4 a"
  shows "\<exists>e w'. SetupPageMaps a n wr w = Some (e, w') \<and> grows 4 256 (cr3 w) w w' \<and>
    walks_kept 4 256 (cr3 w) (set (page_range a n)) w w' \<and>
    (e = kSuccess \<and> (\<forall>x \<in> set (page_range a n). mapped 4 wr (cr3 w) x w w') \<or>
     e = kNoEnoughMemory \<and> out_of_frames w' \<and> (\<forall>x \<in> set (page_range a n). mapped 4 wr (cr3 w) x w w' \<or>
       kept_walk (walk 4 w (cr3 w) x) (walk 4 w' (cr3 w) x)))"
proof -
  have "distinct (page_range a n)" by (simp add: page_range_def)
  from map_pages_ok [OF assms(1) _ this page_range_user [OF assms(2)]] show ?thesis
    unfolding SetupPageMaps_pages [OF assms] by simp
qed

lemma user_page: "256 \<le> Part 4 a \<Longrightarrow> page_number 4 a < 512 ^ 4 \<and> 256 \<le> page_number 4 a div 512 ^ 3"
  using page_range_user [of a 1] unfolding page_range_one by simp

lemma isolated_setup:
  assumes A: "isolated S mem w" and a: "256 \<le> Part 4 a" and n: "\<forall>x \<in> set (page_range a n). walk 4 w (cr3 w) x = None"
    and s: "SetupPageMaps a n True w = Some (err, w')"
  shows "isolated S mem w'" "err = kSuccess \<Longrightarrow> \<forall>x \<in> set (page_range a n). \<exists>e. walk 4 w' (cr3 w') x = Some (e, True) \<and>
    user e \<and> writable e \<and> Pointer e \<notin> used_pages w \<and> page_mem w' (Pointer e) = replicate 512 0"
proof -
  let ?p = "cr3 w" and ?X = "set (page_range a n)"
  have ok: "pages_ok 4 256 w ?p" using A by (simp add: isolated_def)
  from SetupPageMaps_ok [OF ok a, of n True] s have G: "grows 4 256 ?p w w'" "walks_kept 4 256 ?p ?X w w'"
    "\<forall>x \<in> ?X. mapped 4 True ?p x w w' \<or> kept_walk (walk 4 w ?p x) (walk 4 w' ?p x)"
    "err = kSuccess \<Longrightarrow> \<forall>x \<in> ?X. mapped 4 True ?p x w w'"
    by auto
  have c: "cr3 w' = ?p" using G(1) by (simp add: grows_def)
  have new: "Pointer e \<notin> used_pages w" if "x \<in> ?X" "walk 4 w' ?p x = Some (e, r)" for x e r
    using bspec [OF G(3) that(1)] that(2) bspec [OF n that(1)] by (auto simp: mapped_def)
  have mem: "page_mem w' q = mem q" if "q \<in> S" for q
  proof -
    have "q \<in> used_pages w - tabs 4 256 w ?p" "page_mem w q = mem q" using A that by (auto simp: isolated_def)
    then show ?thesis using G(1) unfolding grows_def by auto
  qed
  have "Pointer e \<notin> S" if y: "y < 512 ^ 4" "256 \<le> y div 512 ^ 3" "walk 4 w' ?p y = Some (e, r)" "writable e" for y e r
  proof (cases "y \<in> ?X")
    case True
    then show ?thesis using new [OF True y(3)] A by (auto simp: isolated_def)
  next
    case False
    then have "kept_walk (walk 4 w ?p y) (walk 4 w' ?p y)" using G(2) y(1,2) by (simp add: walks_kept_def)
    then obtain r' where "walk 4 w ?p y = Some (e, r')" using y(3) by (cases "walk 4 w ?p y") (auto simp: kept_walk_def)
    then show ?thesis using A y by (auto simp: isolated_def)
  qed
  moreover have "S \<subseteq> used_pages w'" "tabs 4 256 w' ?p \<inter> S = {}" "pages_ok 4 256 w' ?p"
    using A G(1) unfolding isolated_def grows_def by blast+
  ultimately show "isolated S mem w'" using mem c by (simp add: isolated_def)
  show "\<forall>x \<in> ?X. \<exists>e. walk 4 w' (cr3 w') x = Some (e, True) \<and> user e \<and> writable e \<and>
      Pointer e \<notin> used_pages w \<and> page_mem w' (Pointer e) = replicate 512 0" if "err = kSuccess"
    using G(4) [OF that] n by (fastforce simp: mapped_def c)
qed

lemma isolated_cow:
  assumes A: "isolated S mem w" and a: "256 \<le> Part 4 a" and e: "walk 4 w (cr3 w) (page_number 4 a) \<noteq> None"
    and s: "CopyOnePage a w = Some (err, w')"
  shows "isolated S mem w'"
proof -
  let ?p = "cr3 w" and ?x = "page_number 4 a"
  have ok: "pages_ok 4 256 w ?p" using A by (simp add: isolated_def)
  obtain e r where er: "walk 4 w ?p ?x = Some (e, r)" using e by auto
  from CopyOnePage_ok [OF ok a er] s consider "w' = w" | "cow_result ?x e r w w'" by auto
  then show ?thesis
  proof cases
    case 2
    then obtain c where c: "page_addr c" "c \<notin> used_pages w" "used_pages w' = insert c (used_pages w)"
      "walk 4 w' ?p ?x = Some (set_flag 1 True (SetPointer c e), r)" by (auto simp: cow_result_def)
    have R: "pages_ok 4 256 w' ?p" "cr3 w' = ?p" "tabs 4 256 w' ?p = tabs 4 256 w ?p"
      "\<forall>q \<in> used_pages w - tabs 4 256 w ?p. page_mem w' q = page_mem w q"
      "\<And>y. y < 512 ^ 4 \<Longrightarrow> 256 \<le> y div 512 ^ 3 \<Longrightarrow> y \<noteq> ?x \<Longrightarrow> walk 4 w' ?p y = walk 4 w ?p y"
      using 2 by (simp_all add: cow_result_def)
    have "Pointer e' \<notin> S" if y: "y < 512 ^ 4" "256 \<le> y div 512 ^ 3" "walk 4 w' ?p y = Some (e', r')" "writable e'" for y e' r'
    proof (cases "y = ?x")
      case True
      then have "Pointer e' = c" using c(1,4) y(3) by auto
      then show ?thesis using c(2) A by (auto simp: isolated_def)
    next
      case False
      then show ?thesis using R(5) y A by (auto simp: isolated_def)
    qed
    moreover have "page_mem w' q = mem q" if "q \<in> S" for q
    proof -
      have "q \<in> used_pages w - tabs 4 256 w ?p" "page_mem w q = mem q" using A that by (auto simp: isolated_def)
      then show ?thesis using R(4) by auto
    qed
    moreover have "S \<subseteq> used_pages w'" "tabs 4 256 w' ?p \<inter> S = {}" using A c(3) R(3) by (auto simp: isolated_def)
    ultimately show ?thesis using R(1,2) by (simp add: isolated_def)
  qed (use A in simp)
qed

lemma SetPart_offset: "SetPart 0 0 a = a AND NOT (mask 12)"
  by (simp add: SetPart_def part_shift_def part_width_def)

lemma isolated_cache:
  assumes A: "isolated S mem w" and a: "256 \<le> Part 4 a" and n: "walk 4 w (cr3 w) (page_number 4 a) = None"
    and s: "PreparePageCache load m a w = Some (err, w')"
  shows "isolated S mem w'"
proof -
  let ?v = "a AND NOT (mask 12)"
  have v: "256 \<le> Part 4 ?v" "page_range ?v 1 = [page_number 4 a]" unfolding page_range_one
    using a by (simp_all add: Part_aligned page_number_aligned)
  obtain err1 w1 where s1: "SetupPageMaps ?v 1 True w = Some (err1, w1)"
    using s by (auto simp: PreparePageCache_def SetPart_offset Let_def split: option.splits)
  have "\<forall>x \<in> set (page_range ?v 1). walk 4 w (cr3 w) x = None" unfolding v(2) using n by simp
  note S = isolated_setup [OF A v(1) this s1, unfolded v(2)]
  show ?thesis
  proof (cases "err1 = kSuccess")
    case False
    then show ?thesis using s s1 S(1) by (simp add: PreparePageCache_def SetPart_offset Let_def)
  next
    case True
    then obtain e where e: "walk 4 w1 (cr3 w1) (page_number 4 a) = Some (e, True)" "writable e" using S(2) by auto
    then have "virtual_page ?v w1 = Some (Pointer e)" using virtual_page_user [OF a] by simp
    then obtain ws where "w' = w1\<lparr>page_mem := (page_mem w1)(Pointer e := ws)\<rparr>"
      using s s1 True by (auto simp: PreparePageCache_def SetPart_offset Let_def split: option.splits)
    then show ?thesis using isolated_write [OF S(1) _ _ e] user_page [OF a] by simp
  qed
qed

lemma isolated_step:
  assumes "task_step w w'" "isolated S mem w"
  shows "isolated S mem w'"
  using assms(1)
proof cases
  case (user_write x e ws)
  then show ?thesis using isolated_write [OF assms(2)] by simp
next
  case (page_fault a code t err)
  show ?thesis
  proof (cases "bit code 0")
    case True
    then have "walk 4 w (cr3 w) (page_number 4 a) \<noteq> None" using page_fault(2) by blast
    with page_fault(4) True assms(2) page_fault(1) show ?thesis
      by (auto simp: HandlePageFault_def Let_def split: if_splits intro: isolated_cow)
  next
    case False
    then have n: "walk 4 w (cr3 w) (page_number 4 a) = None" using page_fault(2) by blast
    then have "\<forall>x \<in> set (page_range a 1). walk 4 w (cr3 w) x = None" unfolding page_range_one by simp
    from page_fault(4) False consider "SetupPageMaps a 1 True w = Some (err, w')" | "w' = w"
      | m where "PreparePageCache (file_load t) m a w = Some (err, w')"
      by (auto simp: HandlePageFault_def Let_def split: if_splits option.splits)
    then show ?thesis
    proof cases
      case 1
      then show ?thesis using isolated_setup(1) [OF assms(2) page_fault(1) \<open>\<forall>x \<in> set (page_range a 1). _ x\<close>] by simp
    next
      case 3
      then show ?thesis using isolated_cache [OF assms(2) page_fault(1) n] by simp
    qed (use assms(2) in simp)
  qed
next
  case (kernel_fault a code t err)
  then show ?thesis using unhandled_fault [OF kernel_fault(2-5)] assms(2) by simp
next
  case (pages_set_up a n err)
  then show ?thesis using isolated_setup(1) [OF assms(2)] by simp
qed

lemma isolated_runs: "task_runs w w' \<Longrightarrow> isolated S mem w \<Longrightarrow> isolated S mem w'"
  by (induction rule: task_runs.induct) (auto intro: isolated_step)

lemma started_isolated:
  assumes "started s w d w1"
  shows "isolated (used_pages w) (page_mem w) w1"
proof -
  have "Pointer e \<notin> used_pages w" if "x < 512 ^ 4" "256 \<le> x div 512 ^ 3" "walk 4 w1 d x = Some (e, r)" "writable e" for x e r
  proof -
    have "walk 4 w1 d x = read_only (walk 4 w s x)" using assms that by (simp add: started_def)
    with that(3,4) show ?thesis by (auto simp: read_only_def)
  qed
  then show ?thesis using assms by (auto simp: started_def isolated_def)
qed

section \<open>The bytes of a page\<close>

lemma bit_word_le: "n < 64 \<Longrightarrow> bit (word_le bs) n \<longleftrightarrow> n div 8 < length bs \<and> bit (bs ! (n div 8)) (n mod 8)"
proof (induction bs arbitrary: n)
  case (Cons b bs)
  show ?case
  proof (cases "n < 8")
    case True
    then show ?thesis by (simp add: bit_simps)
  next
    case False
    then have "n div 8 = Suc ((n - 8) div 8)" "n mod 8 = (n - 8) mod 8" by (simp_all add: le_div_geq le_mod_geq)
    moreover have "\<not> bit b n" using False by (auto dest: bit_imp_le_length)
    ultimately show ?thesis using Cons.IH [of "n - 8"] Cons.prems False by (simp add: bit_simps)
  qed
qed simp

lemma bytes_le_word_le: "length bs = 8 \<Longrightarrow> bytes_le (word_le bs) = bs"
proof (rule nth_equalityI)
  assume l: "length bs = 8"
  then show "length (bytes_le (word_le bs)) = length bs" by (simp add: bytes_le_def)
  fix i assume "i < length (bytes_le (word_le bs))"
  then have i: "i < 8" by (simp add: bytes_le_def)
  have "bit (ucast (drop_bit (8 * i) (word_le bs)) :: u8) m = bit (bs ! i) m" if "m < 8" for m
    using bit_word_le [of "8 * i + m" bs] i that l by (simp add: bit_simps)
  then show "bytes_le (word_le bs) ! i = bs ! i" using i by (intro bit_word_eqI) (simp add: bytes_le_def)
qed

lemma concat_chunks: "concat (map (\<lambda>i. take 8 (drop (8 * i) xs)) [0 ..< n]) = take (8 * n) xs"
proof (induction n)
  case (Suc n)
  then show ?case using take_add [of "8 * n" 8 xs] by (simp add: add.commute)
qed simp

lemma length_page_bytes: "length (page_bytes ws) = 8 * length ws"
  by (induction ws) (simp_all add: page_bytes_def bytes_le_def)

lemma page_bytes_put:
  assumes "length bs \<le> 8 * length ws"
  shows "page_bytes (put_in_page bs ws) = bs @ drop (length bs) (page_bytes ws)"
proof -
  let ?all = "bs @ drop (length bs) (page_bytes ws)"
  have len: "length ?all = 8 * length ws" using assms by (simp add: length_page_bytes)
  have "map bytes_le (put_in_page bs ws) = map (\<lambda>i. take 8 (drop (8 * i) ?all)) [0 ..< length ws]"
  proof -
    have "bytes_le (word_le (take 8 (drop (8 * i) ?all))) = take 8 (drop (8 * i) ?all)" if "i < length ws" for i
    proof (rule bytes_le_word_le)
      have "8 * i + 8 \<le> length ?all" unfolding len using that by simp
      then show "length (take 8 (drop (8 * i) ?all)) = 8" by (simp only: length_take length_drop)
    qed
    then show ?thesis by (simp add: put_in_page_def Let_def)
  qed
  then have "page_bytes (put_in_page bs ws) = take (8 * length ws) ?all" unfolding page_bytes_def by (simp only: concat_chunks)
  then show ?thesis using len by simp
qed

lemma page_bytes_zero: "page_bytes (replicate n 0) = replicate (8 * n) 0"
proof (induction n)
  case (Suc n)
  have "bytes_le 0 = replicate 8 0" by (simp add: bytes_le_def map_replicate_const)
  then have "page_bytes (replicate (Suc n) 0) = replicate 8 0 @ replicate (8 * n) 0" using Suc by (simp add: page_bytes_def)
  then show ?case by (simp flip: replicate_add)
qed (simp add: page_bytes_def)

text \<open>A page that a fault brings in: it is new, the user may read and write it, and it has these bytes.\<close>

definition brought_in :: "u64 \<Rightarrow> u8 list \<Rightarrow> paging_state \<Rightarrow> kernel_error \<Rightarrow> paging_state \<Rightarrow> bool" where
  "brought_in a bytes w err w' \<longleftrightarrow> err = kNoEnoughMemory \<and> out_of_frames w' \<or>
     err = kSuccess \<and> (\<exists>e. walk 4 w' (cr3 w) (page_number 4 a) = Some (e, True) \<and> user e \<and> writable e \<and>
       Pointer e \<notin> used_pages w \<and> page_bytes (page_mem w' (Pointer e)) = bytes)"

lemma cache_filled:
  assumes ok: "pages_ok 4 256 w (cr3 w)" and a: "256 \<le> Part 4 a" and n: "walk 4 w (cr3 w) (page_number 4 a) = None"
    and l: "load (fm_fd m) 4096 (unat (SetPart 0 0 a - vaddr_begin m)) = Some bs" "length bs \<le> 4096"
  shows "\<exists>err w'. PreparePageCache load m a w = Some (err, w') \<and> (err = kNoEnoughMemory \<and> out_of_frames w' \<or>
    err = kSuccess \<and> (\<exists>e. walk 4 w' (cr3 w) (page_number 4 a) = Some (e, True) \<and> user e \<and> writable e \<and> Pointer e \<notin> used_pages w \<and>
      page_bytes (page_mem w' (Pointer e)) = bs @ replicate (4096 - length bs) 0))"
proof -
  let ?v = "a AND NOT (mask 12)" and ?p = "cr3 w" and ?x = "page_number 4 a"
  have v: "256 \<le> Part 4 ?v" "page_range ?v 1 = [?x]" unfolding page_range_one
    using a by (simp_all add: Part_aligned page_number_aligned)
  from SetupPageMaps_ok [OF ok v(1), of 1 True] obtain err1 w1 where s: "SetupPageMaps ?v 1 True w = Some (err1, w1)"
    "grows 4 256 ?p w w1" "err1 = kSuccess \<and> mapped 4 True ?p ?x w w1 \<or> err1 = kNoEnoughMemory \<and> out_of_frames w1"
    unfolding v(2) by auto
  show ?thesis
  proof (cases "err1 = kSuccess")
    case False
    then show ?thesis using s by (simp add: PreparePageCache_def SetPart_offset Let_def)
  next
    case True
    with s(3) have "mapped 4 True ?p ?x w w1" by auto
    then obtain e where e: "walk 4 w1 ?p ?x = Some (e, True)" "user e" "writable e" "Pointer e \<notin> used_pages w"
      "page_mem w1 (Pointer e) = replicate 512 0" using n by (auto simp: mapped_def)
    have c: "cr3 w1 = ?p" "pages_ok 4 256 w1 ?p" using s(2) by (simp_all add: grows_def)
    let ?w = "w1\<lparr>page_mem := (page_mem w1)(Pointer e := put_in_page bs (page_mem w1 (Pointer e)))\<rparr>"
    have "virtual_page ?v w1 = Some (Pointer e)" using virtual_page_user [OF a, of w1] e(1) c(1) by simp
    then have "PreparePageCache load m a w = Some (kSuccess, ?w)"
      using s(1) True l(1) by (simp add: PreparePageCache_def SetPart_offset Let_def)
    moreover have "walk 4 ?w ?p ?x = Some (e, True)"
    proof -
      have "Pointer e \<notin> tabs 4 256 w1 ?p"
        using walk_leaf [of 4 256 w1 ?p ?x e True] c(2) user_page [OF a] e(1) by (simp add: pages_ok_def)
      then have "page_mem ?w q = page_mem w1 q" if "q \<in> tabs 4 256 w1 ?p" for q using that by auto
      from tree_cong [of 4 256 w1 ?p ?w, OF this] show ?thesis using user_page [OF a] e(1) by simp
    qed
    moreover have "page_bytes (page_mem ?w (Pointer e)) = bs @ replicate (4096 - length bs) 0"
      using l(2) page_bytes_put [of bs "replicate 512 0"] by (simp add: e(5) page_bytes_zero)
    ultimately show ?thesis using e(2-4) by blast
  qed
qed

section \<open>Concrete states\<close>

lemma one_table_free: "\<not> out_of_frames one_table"
proof -
  have "2 \<notin> used_frames (frame_pool one_table)" by (simp add: used_frames_def one_table_def bit_iff_odd)
  moreover have "frames_of (2, 1) = {2}" by (auto simp: frames_of_def)
  ultimately have "free_run (frame_pool one_table) 1 2"
    unfolding free_run_def by (simp add: one_table_def new_frame_manager_def kFrameCount_def)
  then show ?thesis by (auto simp: out_of_frames_def)
qed

lemma for_entries_none:
  "(\<And>i. i \<in> set is \<Longrightarrow> f i w = Some (kSuccess, w)) \<Longrightarrow> for_entries f is w = Some (kSuccess, w)"
  by (induction "is") auto

lemma CopyPageMaps_empty:
  assumes "page_mem w s = replicate 512 0"
  shows "CopyPageMaps d s (Suc l) lo w = Some (kSuccess, w)"
proof -
  have "\<not> present (get_pte s i w)" if "i \<in> set [lo ..< 512]" for i using that assms by (simp add: get_pte_def)
  then show ?thesis unfolding CopyPageMaps.simps by (intro for_entries_none) simp
qed

lemma one_table_starts: "\<exists>d w1. LoadApp_again 0x1000 0 one_table = Some (kSuccess, d, w1)"
proof -
  have ok: "frames_ok (frame_pool one_table)" using one_table_ok(1) by (simp add: pages_ok_def)
  from NewPageMap_ok [OF this] one_table_free obtain d w1 where n: "NewPageMap one_table = Some (Inr d, w1)"
    "d \<notin> used_pages one_table" "page_mem w1 = (page_mem one_table)(d := replicate 512 0)"
    by (metis sum.exhaust)
  have "0x1000 \<in> used_pages one_table" using one_table_ok by (simp add: pages_ok_def numeral_4)
  then have "d \<noteq> 0x1000" using n(2) by auto
  then have "page_mem (w1\<lparr>page_mem := (page_mem w1)(d := ts), cr3 := d\<rparr>) 0x1000 = replicate 512 0" for ts
    by (simp add: n(3) one_table_def)
  from CopyPageMaps_empty [OF this, of d 3 256] show ?thesis using n(1)
    by (simp add: LoadApp_again_def SetupPML4_def Let_def numeral_4)
qed

lemma one_table_root: "length (page_mem one_table (cr3 one_table)) = 512" "cr3 one_table \<in> used_pages one_table"
  using one_table_ok(1) by (simp_all add: one_table_def pages_ok_def numeral_4)

text \<open>A task without pages on demand and files.\<close>

definition no_files :: fault_task where
  "no_files = \<lparr>dpaging_begin = 0, dpaging_end = 0, file_maps = [], file_load = (\<lambda>fd len off. None)\<rparr>"

text \<open>One page of sevens, which cannot be written, at the end of the address space.\<close>

definition one_page :: paging_state where
  "one_page = \<lparr>frame_pool = new_frame_manager\<lparr>alloc_map := (alloc_map new_frame_manager)(0 := 0x3F)\<rparr>,
     page_mem = (\<lambda>p. if p = 0x1000 then (replicate 512 0)[511 := 0x2007] else if p = 0x2000 then (replicate 512 0)[511 := 0x3007]
       else if p = 0x3000 then (replicate 512 0)[511 := 0x4007] else if p = 0x4000 then (replicate 512 0)[511 := 0x5005]
       else replicate 512 7), cr3 = 0x1000\<rparr>"

lemma one_entry:
  assumes "page_mem w p = (replicate 512 0)[511 := e]"
  shows "present e \<Longrightarrow> lo \<le> 511 \<Longrightarrow> kids lo w p = {511}" "get_pte p 511 w = e" "length (page_mem w p) = 512"
proof -
  have "get_pte p i w = (if i = 511 then e else 0)" if "i < 512" for i using that assms(1) by (simp add: get_pte_def nth_list_update)
  then show "present e \<Longrightarrow> lo \<le> 511 \<Longrightarrow> kids lo w p = {511}" "get_pte p 511 w = e" by (auto simp: kids_def split: if_splits)
  show "length (page_mem w p) = 512" using assms(1) by simp
qed

lemma one_page_entries:
  "page_mem one_page 0x1000 = (replicate 512 0)[511 := 0x2007]" "page_mem one_page 0x2000 = (replicate 512 0)[511 := 0x3007]"
  "page_mem one_page 0x3000 = (replicate 512 0)[511 := 0x4007]" "page_mem one_page 0x4000 = (replicate 512 0)[511 := 0x5005]"
  by (simp_all only: one_page_def) simp_all

lemma one_page_flags [simp]:
  "present 0x2007" "present 0x3007" "present 0x4007" "present 0x5005"
  "user 0x2007" "user 0x3007" "user 0x4007" "writable 0x2007" "writable 0x3007" "writable 0x4007"
  "Pointer 0x2007 = 0x2000" "Pointer 0x3007 = 0x3000" "Pointer 0x4007 = 0x4000" "Pointer 0x5005 = 0x5000"
  by (simp_all add: present_def user_def writable_def Pointer_def bit_iff_odd take_bit_eq_mod drop_bit_eq_div push_bit_eq_mult)

lemmas one_page_tables =
  one_entry [OF one_page_entries(1)] one_entry [OF one_page_entries(2)] one_entry [OF one_page_entries(3)] one_entry [OF one_page_entries(4)]

lemma one_page_tree: "nodes 4 256 one_page 0x1000 = {0x1000, 0x2000, 0x3000, 0x4000, 0x5000}" "well 4 256 one_page 0x1000"
  unfolding numeral_4 by (simp_all add: one_page_tables)

lemma one_page_walk: "walk 4 one_page 0x1000 (page_number 4 0xFFFFFFFFFFFFF000) = Some (0x5005, True)"
proof -
  have "Part (Suc l) 0xFFFFFFFFFFFFF000 = 511" if "l < 4" for l
  proof -
    have "l = 0 \<or> l = 1 \<or> l = 2 \<or> l = 3" using that by auto
    then show ?thesis by (elim disjE) (simp_all add: Part_def part_shift_def part_width_def take_bit_eq_mod)
  qed
  then show ?thesis unfolding numeral_4 walk.simps page_number_parts by (simp add: one_page_tables Let_def)
qed

lemma one_page_ok: "pages_ok 4 256 one_page (cr3 one_page)" "cr3 one_page = 0x1000" "256 \<le> Part 4 0xFFFFFFFFFFFFF000"
proof -
  have "{1, 2, 3, 4, 5} \<subseteq> used_frames (frame_pool one_page)"
    by (simp add: used_frames_def one_page_def kFrameCount_def bit_iff_odd)
  then have "frame_addr ` {1, 2, 3, 4, 5} \<subseteq> used_pages one_page" unfolding used_pages_def by (rule image_mono)
  then have "nodes 4 256 one_page 0x1000 \<subseteq> used_pages one_page"
    unfolding one_page_tree(1) by (simp add: frame_addr_def kBytesPerFrame_def)
  moreover have "frames_ok (frame_pool one_page)" by (simp add: one_page_def frames_ok_def new_frame_manager_def kFrameCount_def)
  moreover show c: "cr3 one_page = 0x1000" by (simp add: one_page_def)
  ultimately show "pages_ok 4 256 one_page (cr3 one_page)" using one_page_tree(2) unfolding c by (simp add: pages_ok_def)
  show "256 \<le> Part 4 0xFFFFFFFFFFFFF000" by (simp add: Part_def part_shift_def part_width_def take_bit_eq_mod)
qed

section \<open>Properties\<close>

text \<open>
  The tables of a task that runs a program which is loaded already. Unless memory runs out, the task gets
  tables of its own, made of pages that were free: the kernel's half is the kernel's, and in the user's half each
  page of the program is found where it was, with its rights but the one to write. The pages that were in use keep
  their contents, also when it fails.
\<close>

lemma new_task_tables:
  assumes "pages_ok 4 256 w s" "length (page_mem w (cr3 w)) = 512" "cr3 w \<in> used_pages w"
  shows "\<exists>err ctx' w'. LoadApp_again s ctx w = Some (err, ctx', w') \<and> (\<forall>q \<in> used_pages w. page_mem w' q = page_mem w q) \<and>
    (err = kSuccess \<and> started s w ctx' w' \<or> err = kNoEnoughMemory \<and> out_of_frames w')"
  by (rule LoadApp_again_ok [OF assms])

lemma new_task_tables_witness:
  "\<exists>d w'. LoadApp_again 0x1000 0 one_table = Some (kSuccess, d, w') \<and> started 0x1000 one_table d w'"
proof -
  have "pages_ok 4 256 one_table 0x1000" using one_table_ok by simp
  from new_task_tables [OF this one_table_root, of 0] one_table_starts show ?thesis by auto
qed

text \<open>
  C28: whatever page faults a task takes and whatever it writes to its own half of the address space, the pages that
  were in use before it started, those of the program and of all other tasks, keep their contents, and the program's
  pages stay where they are. The faults may also be at addresses of the kernel, with one exception: a write to a
  page of the kernel that is there, which C32 shows not to be contained. The program itself has to have been loaded
  before, and the pages the kernel sets up for the task are where nothing was mapped.
\<close>

theorem task_isolation:
  assumes "pages_ok 4 256 w s" "length (page_mem w (cr3 w)) = 512" "cr3 w \<in> used_pages w"
    and "LoadApp_again s ctx w = Some (kSuccess, ctx', w1)" "task_runs w1 w2"
  shows "(\<forall>q \<in> used_pages w. page_mem w2 q = page_mem w q) \<and>
    (\<forall>x < 512 ^ 4. 256 \<le> x div 512 ^ 3 \<longrightarrow> walk 4 w2 s x = walk 4 w s x)"
proof -
  from LoadApp_again_ok [OF assms(1-3), of ctx] assms(4) have "started s w ctx' w1" by auto
  from isolated_runs [OF assms(5) started_isolated [OF this]] have same: "\<forall>q \<in> used_pages w. page_mem w2 q = page_mem w q"
    by (simp add: isolated_def)
  have "page_mem w2 q = page_mem w q" if "q \<in> tabs 4 256 w s" for q
    using same that tabs_used [OF assms(1)] by blast
  from tree_cong [of 4 256 w s w2, OF this] same show ?thesis by simp
qed

lemma one_table_fault:
  assumes "started 0x1000 one_table d w1"
  shows "\<exists>err w2. HandlePageFault \<lparr>dpaging_begin = 0xFFFFFFFFFFFFE000, dpaging_end = 0xFFFFFFFFFFFFF000, file_maps = [],
      file_load = (\<lambda>fd n off. None)\<rparr> 6 0xFFFFFFFFFFFFE000 w1 = Some (err, w2) \<and> task_step w1 w2"
proof -
  let ?t = "\<lparr>dpaging_begin = 0xFFFFFFFFFFFFE000, dpaging_end = 0xFFFFFFFFFFFFF000, file_maps = [], file_load = (\<lambda>fd n off. None)\<rparr>"
  let ?a = "0xFFFFFFFFFFFFE000 :: u64"
  have c: "cr3 w1 = d" "pages_ok 4 256 w1 d" using assms by (simp_all add: started_def)
  from SetupPageMaps_ok [of w1 ?a 1 True] c top_pages(2) obtain err w2 where s: "SetupPageMaps ?a 1 True w1 = Some (err, w2)" by auto
  then have h: "HandlePageFault ?t 6 ?a w1 = Some (err, w2)" by (simp add: HandlePageFault_def bit_iff_odd)
  have "page_mem one_table 0x1000 = replicate 512 0" by (simp add: one_table_def)
  then have "walk 4 one_table 0x1000 (page_number 4 ?a) = None" by (intro empty_table(4) page_number_less)
  then have "walk 4 w1 d (page_number 4 ?a) = None"
    using assms user_page [OF top_pages(2)] by (simp add: started_def read_only_def)
  then have "task_step w1 w2" using h top_pages(2) by (intro page_fault [of ?a 6 w1 ?t err]) (simp_all add: c bit_iff_odd)
  with h show ?thesis by blast
qed

theorem task_isolation_witness:
  "\<exists>d w1 err w2. LoadApp_again 0x1000 0 one_table = Some (kSuccess, d, w1) \<and>
     HandlePageFault \<lparr>dpaging_begin = 0xFFFFFFFFFFFFE000, dpaging_end = 0xFFFFFFFFFFFFF000, file_maps = [], file_load = (\<lambda>fd n off. None)\<rparr>
       6 0xFFFFFFFFFFFFE000 w1 = Some (err, w2) \<and> page_mem w2 0x1000 = page_mem one_table 0x1000"
proof -
  obtain d w1 where l: "LoadApp_again 0x1000 0 one_table = Some (kSuccess, d, w1)" using one_table_starts by blast
  have ok: "pages_ok 4 256 one_table 0x1000" using one_table_ok by simp
  from LoadApp_again_ok [OF this one_table_root, of 0] l have "started 0x1000 one_table d w1" by auto
  from one_table_fault [OF this] obtain err w2 where f: "HandlePageFault
      \<lparr>dpaging_begin = 0xFFFFFFFFFFFFE000, dpaging_end = 0xFFFFFFFFFFFFF000, file_maps = [], file_load = (\<lambda>fd n off. None)\<rparr>
      6 0xFFFFFFFFFFFFE000 w1 = Some (err, w2)" "task_step w1 w2" by blast
  have "task_runs w1 w2" by (rule task_runs.step [OF task_runs.here f(2)])
  from task_isolation [OF ok one_table_root l this] one_table_root(2) have "page_mem w2 0x1000 = page_mem one_table 0x1000"
    by (simp add: one_table_ok(2))
  with l f(1) show ?thesis by blast
qed

text \<open>
  C29: the fault of a write to a page that is there. Unless no frame is free, the task gets a page of its own
  with the contents of the old one, which it may write; the old page and every other page in use keep their
  contents, and no other address of the user is translated in a new way.
\<close>

theorem copy_on_write:
  assumes "pages_ok 4 256 w (cr3 w)" "256 \<le> Part 4 a" "walk 4 w (cr3 w) (page_number 4 a) = Some (e, r)"
    and "bit code 0" "bit code 1" "bit code 2"
  shows "\<exists>err w'. HandlePageFault t code a w = Some (err, w') \<and>
    (err = kNoEnoughMemory \<and> w' = w \<and> out_of_frames w \<or> err = kSuccess \<and> cow_result (page_number 4 a) e r w w')"
  using CopyOnePage_ok [OF assms(1-3)] assms(4-6) by (simp add: HandlePageFault_def)

theorem copy_on_write_witness:
  "\<exists>err w'. HandlePageFault no_files 7 0xFFFFFFFFFFFFF000 one_page = Some (err, w') \<and> page_mem w' 0x5000 = replicate 512 7 \<and>
     (err = kSuccess \<longrightarrow> (\<exists>e. walk 4 w' 0x1000 (page_number 4 0xFFFFFFFFFFFFF000) = Some (e, True) \<and> writable e \<and>
        Pointer e \<noteq> 0x5000 \<and> page_mem w' (Pointer e) = replicate 512 7))"
proof -
  have b: "bit (7 :: u64) 0" "bit (7 :: u64) 1" "bit (7 :: u64) 2" by (simp_all add: bit_iff_odd)
  have m: "page_mem one_page 0x5000 = replicate 512 7" by (simp add: one_page_def)
  have u: "0x5000 \<in> used_pages one_page" "0x5000 \<notin> tabs 4 256 one_page 0x1000"
    using one_page_ok(1,2) one_page_tree walk_leaf [OF one_page_tree(2) _ _ one_page_walk] user_page [OF one_page_ok(3)]
    by (auto simp: pages_ok_def)
  from copy_on_write [OF one_page_ok(1,3) _ b, of "0x5005" True no_files] one_page_walk obtain err w'
    where r: "HandlePageFault no_files 7 0xFFFFFFFFFFFFF000 one_page = Some (err, w')"
      "err = kNoEnoughMemory \<and> w' = one_page \<or> err = kSuccess \<and> cow_result (page_number 4 0xFFFFFFFFFFFFF000) 0x5005 True one_page w'"
    unfolding one_page_ok(2) by blast
  from r(2) show ?thesis
  proof
    assume s: "err = kSuccess \<and> cow_result (page_number 4 0xFFFFFFFFFFFFF000) 0x5005 True one_page w'"
    then obtain p where p: "page_addr p" "p \<notin> used_pages one_page" "page_mem w' p = replicate 512 7" "page_mem w' 0x5000 = replicate 512 7"
      "walk 4 w' 0x1000 (page_number 4 0xFFFFFFFFFFFFF000) = Some (set_flag 1 True (SetPointer p 0x5005), True)"
      using u m by (auto simp: cow_result_def one_page_ok(2))
    then have "Pointer (set_flag 1 True (SetPointer p 0x5005)) = p" "p \<noteq> 0x5000" using u(1) by auto
    with r(1) p show ?thesis by (intro exI [of _ err] exI [of _ w']) simp
  qed (use r(1) m in auto)
qed

text \<open>
  C30: the fault of an access to a page that is not there. In the range of demand paging the address gets a new
  page of zeros; in a file that is mapped, a new page with the bytes that \<^verbatim>\<open>Load\<close> gives for the page's place in the
  file, then zeros; elsewhere it is an error. It fails otherwise only when no frame is left free.
\<close>

theorem demand_paging:
  assumes "pages_ok 4 256 w (cr3 w)" "256 \<le> Part 4 a" "walk 4 w (cr3 w) (page_number 4 a) = None" "\<not> bit code 0"
    and "\<And>m. FindFileMapping (file_maps t) a = Some m \<Longrightarrow>
      \<exists>bs. file_load t (fm_fd m) 4096 (unat (SetPart 0 0 a - vaddr_begin m)) = Some bs \<and> length bs \<le> 4096"
  shows "\<exists>err w'. HandlePageFault t code a w = Some (err, w') \<and>
    (if dpaging_begin t \<le> a \<and> a < dpaging_end t then brought_in a (replicate 4096 0) w err w'
     else case FindFileMapping (file_maps t) a of
            None \<Rightarrow> err = kIndexOutOfRange \<and> w' = w
          | Some m \<Rightarrow>
              (let bs = the (file_load t (fm_fd m) 4096 (unat (SetPart 0 0 a - vaddr_begin m)))
               in brought_in a (bs @ replicate (4096 - length bs) 0) w err w'))"
proof (cases "dpaging_begin t \<le> a \<and> a < dpaging_end t")
  case True
  from SetupPageMaps_ok [OF assms(1,2), of 1 True] obtain err w' where s: "SetupPageMaps a 1 True w = Some (err, w')"
    "err = kSuccess \<and> mapped 4 True (cr3 w) (page_number 4 a) w w' \<or> err = kNoEnoughMemory \<and> out_of_frames w'"
    unfolding page_range_one by auto
  have "page_bytes (replicate 512 0) = replicate 4096 0" by (simp add: page_bytes_zero)
  then have "brought_in a (replicate 4096 0) w err w'" using s(2) assms(3) by (auto simp: mapped_def brought_in_def)
  moreover have "HandlePageFault t code a w = Some (err, w')" using s(1) True assms(4) by (simp add: HandlePageFault_def)
  ultimately show ?thesis using True by simp
next
  case False
  show ?thesis
  proof (cases "FindFileMapping (file_maps t) a")
    case None
    then show ?thesis using False assms(4) by (auto simp: HandlePageFault_def)
  next
    case (Some m)
    then obtain bs where bs: "file_load t (fm_fd m) 4096 (unat (SetPart 0 0 a - vaddr_begin m)) = Some bs" "length bs \<le> 4096"
      using assms(5) by blast
    have "HandlePageFault t code a w = PreparePageCache (file_load t) m a w"
      using False assms(4) Some by (auto simp: HandlePageFault_def)
    then show ?thesis using cache_filled [where load = "file_load t", OF assms(1-3) bs] Some False bs(1) by (auto simp: brought_in_def)
  qed
qed

theorem demand_paging_witness:
  "\<exists>err w'. HandlePageFault \<lparr>dpaging_begin = 0, dpaging_end = 0,
       file_maps = [\<lparr>fm_fd = 3, vaddr_begin = 0xFFFFFFFFFFFFD000, vaddr_end = 0xFFFFFFFFFFFFF000\<rparr>],
       file_load = (\<lambda>fd len off. Some (replicate off 1))\<rparr> 4 0xFFFFFFFFFFFFE000 one_table = Some (err, w') \<and>
     (err = kSuccess \<longrightarrow> (\<exists>e. page_bytes (page_mem w' (Pointer e)) = replicate 4096 1))"
proof -
  let ?m = "\<lparr>fm_fd = 3, vaddr_begin = 0xFFFFFFFFFFFFD000, vaddr_end = 0xFFFFFFFFFFFFF000\<rparr>"
  let ?t = "\<lparr>dpaging_begin = 0, dpaging_end = 0, file_maps = [?m], file_load = (\<lambda>fd len off. Some (replicate off (1 :: u8)))\<rparr>"
  let ?a = "0xFFFFFFFFFFFFE000 :: u64"
  have f: "FindFileMapping (file_maps ?t) ?a = Some ?m" by (simp add: FindFileMapping_def)
  have "SetPart 0 0 ?a - vaddr_begin ?m = 0x1000" by (simp add: SetPart_offset mask_eq_exp_minus_1)
  then have l: "file_load ?t (fm_fd ?m) 4096 (unat (SetPart 0 0 ?a - vaddr_begin ?m)) = Some (replicate 4096 1) \<and> length (replicate 4096 (1 :: u8)) \<le> 4096"
    by simp
  have "page_mem one_table 0x1000 = replicate 512 0" by (simp add: one_table_def)
  then have w: "walk 4 one_table (cr3 one_table) (page_number 4 ?a) = None"
    unfolding one_table_ok(2) by (intro empty_table(4) page_number_less)
  have "\<not> bit (4 :: u64) 0" by (simp add: bit_iff_odd)
  from demand_paging [OF one_table_ok(1) top_pages(2) w this, of ?t] f l
  show ?thesis by (auto simp: brought_in_def)
qed

end
