(* ===== verification/PageClean.thy ===== *)
theory PageClean
  imports PageFault
begin

text \<open>
  \<^verbatim>\<open>kernel/paging.cpp\<close>: the end of a task, which gives back the tables and the pages that are its own.
\<close>

section \<open>Giving back the pages\<close>

text \<open>The levels are 1 to 4.\<close>

fun CleanPageMap :: "u64 \<Rightarrow> nat \<Rightarrow> u64 \<Rightarrow> paging_state \<Rightarrow> (kernel_error \<times> paging_state) option" where
  "CleanPageMap page_map 0 addr w = None"
| "CleanPageMap page_map (Suc l) addr w =
     for_entries
       (\<lambda>i w. let entry = get_pte page_map i w
          in if \<not> present entry then Some (kSuccess, w)
             else (case (if 0 < l then CleanPageMap (Pointer entry) l addr w else Some (kSuccess, w)) of
                     None \<Rightarrow> None
                   | Some (err, w1) \<Rightarrow>
                       if err \<noteq> kSuccess then Some (err, w1)
                       else (case (if writable entry then FreePageMap (Pointer entry) w1 else Some (kSuccess, w1)) of
                               None \<Rightarrow> None
                             | Some (err, w2) \<Rightarrow>
                                 if err \<noteq> kSuccess then Some (err, w2)
                                 else Some (kSuccess, set_pte page_map i 0 w2))))
       [Part (Suc l) addr ..< 512] w"

definition CleanPageMaps :: "u64 \<Rightarrow> paging_state \<Rightarrow> (kernel_error \<times> paging_state) option" where
  "CleanPageMaps addr w = CleanPageMap (cr3 w) 4 addr w"

lemma FreePageMap_ok:
  assumes "frames_ok (frame_pool w)" "p \<in> used_pages w"
  shows "\<exists>w'. FreePageMap p w = Some (kSuccess, w') \<and> frames_ok (frame_pool w') \<and> cr3 w' = cr3 w \<and> page_mem w' = page_mem w \<and>
    used_pages w' = used_pages w - {p}"
proof -
  obtain f where f: "p = frame_addr f" "f \<in> used_frames (frame_pool w)" "f < kFrameCount"
    using assms(2) by (auto simp: used_pages_def used_frames_def)
  have "unat (frame_addr f) = f * 4096"
  proof -
    have "frame_addr f = of_nat (f * 4096)" by (simp add: frame_addr_def kBytesPerFrame_def)
    moreover have "f * 4096 < 18446744073709551616" using f(3) by (simp add: kFrameCount_def)
    ultimately show ?thesis by (simp only: unat_of_nat_u64)
  qed
  then have "unat (p div kBytesPerFrame) = f" by (simp add: f(1) unat_div_page)
  then have "of_nat (unat (p div kBytesPerFrame)) = (of_nat f :: u64)" by simp
  then have d: "p div kBytesPerFrame = of_nat f" by simp
  have "f + 1 \<le> kFrameCount" using f(3) by simp
  from Free_frees [OF assms(1) this] obtain m where m: "Free (of_nat f) 1 (frame_pool w) = Some (kSuccess, m)" "frames_ok m"
    "used_frames m = used_frames (frame_pool w) - {f}" by (auto simp: frames_of_def)
  have "frame_addr ` (used_frames (frame_pool w) - {f}) = frame_addr ` used_frames (frame_pool w) - {frame_addr f}"
    using frame_addr_inj [OF _ f(3)] by (auto simp: used_frames_def)
  then have "used_pages (w\<lparr>frame_pool := m\<rparr>) = used_pages w - {p}" by (simp add: used_pages_def m(3) f(1))
  moreover have "FreePageMap p w = Some (kSuccess, w\<lparr>frame_pool := m\<rparr>)" by (simp add: FreePageMap_def d m(1))
  ultimately show ?thesis using m(2) by simp
qed

text \<open>The pages below a table that its tree owns: those behind an entry that allows to write.\<close>

fun owned :: "nat \<Rightarrow> nat \<Rightarrow> paging_state \<Rightarrow> u64 \<Rightarrow> u64 set" where
  "owned 0 lo w p = {}"
| "owned (Suc l) lo w p =
     (\<Union>i \<in> kids lo w p. (if writable (get_pte p i w) then {Pointer (get_pte p i w)} else {}) \<union> owned l 0 w (Pointer (get_pte p i w)))"

lemma root_node [simp]: "p \<in> nodes l lo w p"
  by (cases l) simp_all

lemma owned_nodes: "well l lo w p \<Longrightarrow> owned l lo w p \<subseteq> nodes l lo w p - {p}"
proof (induction l arbitrary: lo p)
  case (Suc l)
  have "(if writable (get_pte p i w) then {Pointer (get_pte p i w)} else {}) \<union> owned l 0 w (Pointer (get_pte p i w)) \<subseteq>
      nodes (Suc l) lo w p - {p}" if "i \<in> kids lo w p" for i
  proof -
    let ?c = "Pointer (get_pte p i w)"
    have "p \<notin> nodes l 0 w ?c" "well l 0 w ?c" using Suc.prems that by simp_all
    moreover from Suc.IH [OF this(2)] have "owned l 0 w ?c \<subseteq> nodes l 0 w ?c" by blast
    moreover have "(if writable (get_pte p i w) then {?c} else {}) \<subseteq> nodes l 0 w ?c" by simp
    moreover have "nodes l 0 w ?c \<subseteq> nodes (Suc l) lo w p" using that by auto
    ultimately show ?thesis by blast
  qed
  then show ?case unfolding owned.simps by blast
qed simp

lemma owned_cong: "(\<And>q. q \<in> tabs l lo w p \<Longrightarrow> page_mem w' q = page_mem w q) \<Longrightarrow> owned l lo w' p = owned l lo w p"
proof (induction l lo w p rule: owned.induct)
  case (2 l lo w p)
  have p: "get_pte p i w' = get_pte p i w" for i using 2(2) [of p] by (simp add: get_pte_def)
  then have k: "kids lo w' p = kids lo w p" by (simp add: kids_def)
  have "owned l 0 w' (Pointer (get_pte p i w)) = owned l 0 w (Pointer (get_pte p i w))" if "i \<in> kids lo w p" for i
    using 2(1) [OF that] 2(2) that by auto
  then show ?case unfolding owned.simps k p by (intro SUP_cong refl) simp
qed simp

definition clean_done :: "nat \<Rightarrow> nat \<Rightarrow> paging_state \<Rightarrow> u64 \<Rightarrow> paging_state \<Rightarrow> bool" where
  "clean_done l lo w p w' \<longleftrightarrow> frames_ok (frame_pool w') \<and> cr3 w' = cr3 w \<and>
     (\<forall>q. q \<notin> tabs l lo w p \<longrightarrow> page_mem w' q = page_mem w q) \<and>
     (\<forall>j < lo. get_pte p j w' = get_pte p j w) \<and> (\<forall>j < 512. lo \<le> j \<longrightarrow> \<not> present (get_pte p j w')) \<and>
     used_pages w' = used_pages w - owned l lo w p"

text \<open>The entry \<open>j\<close> of a table and what is freed for it.\<close>

definition own :: "nat \<Rightarrow> paging_state \<Rightarrow> u64 \<Rightarrow> nat \<Rightarrow> u64 set" where
  "own l w p j = (if writable (get_pte p j w) then {Pointer (get_pte p j w)} else {}) \<union> owned l 0 w (Pointer (get_pte p j w))"

definition clean_part :: "nat \<Rightarrow> nat \<Rightarrow> paging_state \<Rightarrow> u64 \<Rightarrow> nat \<Rightarrow> paging_state \<Rightarrow> bool" where
  "clean_part l lo w p k w' \<longleftrightarrow> frames_ok (frame_pool w') \<and> cr3 w' = cr3 w \<and> length (page_mem w' p) = 512 \<and>
     (\<forall>q. q \<notin> tabs (Suc l) lo w p \<longrightarrow> page_mem w' q = page_mem w q) \<and>
     (\<forall>j. j < lo \<or> k \<le> j \<longrightarrow> get_pte p j w' = get_pte p j w) \<and> (\<forall>j < k. lo \<le> j \<longrightarrow> \<not> present (get_pte p j w')) \<and>
     (\<forall>j \<in> kids lo w p. k \<le> j \<longrightarrow> (\<forall>q \<in> tabs l 0 w (Pointer (get_pte p j w)). page_mem w' q = page_mem w q)) \<and>
     used_pages w' = used_pages w - (\<Union>j \<in> kids lo w p \<inter> {..<k}. own l w p j)"

lemma own_nodes: "well (Suc l) lo w p \<Longrightarrow> j \<in> kids lo w p \<Longrightarrow> own l w p j \<subseteq> nodes l 0 w (Pointer (get_pte p j w))"
  using owned_nodes [of l 0 w "Pointer (get_pte p j w)"] root_node [of "Pointer (get_pte p j w)" l 0 w] by (auto simp: own_def)

lemma clean_part_skip:
  assumes "clean_part l lo w p k w1" "lo \<le> k" "\<not> present (get_pte p k w)"
  shows "clean_part l lo w p (Suc k) w1"
proof -
  have "k \<notin> kids lo w p" using assms(3) by (simp add: kids_def)
  then have "kids lo w p \<inter> {..<Suc k} = kids lo w p \<inter> {..<k}" by (auto simp: less_Suc_eq)
  moreover have "\<not> present (get_pte p k w1)" using assms by (simp add: clean_part_def)
  ultimately show ?thesis using assms(1) unfolding clean_part_def by (auto simp: less_Suc_eq)
qed

lemma clean_part_next:
  assumes P: "clean_part l lo w p k w1" and ok: "pages_ok (Suc l) lo w p" and k: "k \<in> kids lo w p"
    and w2: "frames_ok (frame_pool w2)" "cr3 w2 = cr3 w1" "length (page_mem w2 p) = 512"
      "\<And>q. q \<noteq> p \<Longrightarrow> q \<notin> tabs l 0 w (Pointer (get_pte p k w)) \<Longrightarrow> page_mem w2 q = page_mem w1 q"
      "\<And>j. get_pte p j w2 = (if j = k then 0 else get_pte p j w1)"
      "used_pages w2 = used_pages w1 - own l w p k"
  shows "clean_part l lo w p (Suc k) w2"
proof -
  let ?K = "kids lo w p" and ?c = "\<lambda>j. Pointer (get_pte p j w)"
  have p: "\<And>q. q \<notin> tabs (Suc l) lo w p \<Longrightarrow> page_mem w1 q = page_mem w q" "\<forall>j. j < lo \<or> k \<le> j \<longrightarrow> get_pte p j w1 = get_pte p j w"
    "\<forall>j < k. lo \<le> j \<longrightarrow> \<not> present (get_pte p j w1)"
    "\<And>j q. j \<in> ?K \<Longrightarrow> k \<le> j \<Longrightarrow> q \<in> tabs l 0 w (?c j) \<Longrightarrow> page_mem w1 q = page_mem w q"
    "used_pages w1 = used_pages w - (\<Union>j \<in> ?K \<inter> {..<k}. own l w p j)" "cr3 w1 = cr3 w"
    using P unfolding clean_part_def by blast+
  have K: "?K \<inter> {..<Suc k} = insert k (?K \<inter> {..<k})" using k by auto
  have sub: "tabs l 0 w (?c k) \<subseteq> tabs (Suc l) lo w p" "p \<in> tabs (Suc l) lo w p" using k by auto
  have outside: "\<forall>q. q \<notin> tabs (Suc l) lo w p \<longrightarrow> page_mem w2 q = page_mem w q"
  proof (intro allI impI)
    fix q assume q: "q \<notin> tabs (Suc l) lo w p"
    then have "q \<noteq> p" "q \<notin> tabs l 0 w (?c k)" using sub by blast+
    then show "page_mem w2 q = page_mem w q" using w2(4) p(1) [OF q] by simp
  qed
  have later: "\<forall>j \<in> ?K. Suc k \<le> j \<longrightarrow> (\<forall>q \<in> tabs l 0 w (?c j). page_mem w2 q = page_mem w q)"
  proof (intro ballI impI)
    fix j q assume j: "j \<in> ?K" "Suc k \<le> j" and q: "q \<in> tabs l 0 w (?c j)"
    then have "q \<in> nodes l 0 w (?c j)" using tabs_nodes by blast
    then have "q \<noteq> p" "q \<notin> tabs l 0 w (?c k)"
      using kid_facts(2) [OF ok j(1)] kid_facts(3) [OF ok k j(1)] j(2) tabs_nodes [of l 0 w "?c k"] by auto
    then show "page_mem w2 q = page_mem w q" using w2(4) p(4) [OF j(1) _ q] j(2) by simp
  qed
  have entries: "\<forall>j. j < lo \<or> Suc k \<le> j \<longrightarrow> get_pte p j w2 = get_pte p j w" "\<forall>j < Suc k. lo \<le> j \<longrightarrow> \<not> present (get_pte p j w2)"
    using p(2,3) w2(5) k by (auto simp: kids_def less_Suc_eq)
  have used: "used_pages w2 = used_pages w - (\<Union>j \<in> ?K \<inter> {..<Suc k}. own l w p j)" unfolding w2(6) p(5) K by blast
  have cr: "cr3 w2 = cr3 w" using w2(2) p(6) by simp
  show ?thesis unfolding clean_part_def by (intro conjI) (fact w2(1) w2(3) outside later entries used cr)+
qed

lemma clean_part_child:
  assumes P: "clean_part l lo w p k w1" and ok: "pages_ok (Suc l) lo w p" and k: "k \<in> kids lo w p"
  shows "pages_ok l 0 w1 (Pointer (get_pte p k w))" "owned l 0 w1 (Pointer (get_pte p k w)) = owned l 0 w (Pointer (get_pte p k w))"
    "tabs l 0 w1 (Pointer (get_pte p k w)) = tabs l 0 w (Pointer (get_pte p k w))"
    "nodes l 0 w1 (Pointer (get_pte p k w)) = nodes l 0 w (Pointer (get_pte p k w))"
proof -
  let ?c = "\<lambda>j. Pointer (get_pte p j w)"
  have same: "page_mem w1 q = page_mem w q" if "q \<in> tabs l 0 w (?c k)" for q using P k that unfolding clean_part_def by blast
  note C = tree_cong [of l 0 w "?c k" w1, OF same]
  show "owned l 0 w1 (?c k) = owned l 0 w (?c k)" by (rule owned_cong [OF same])
  show "tabs l 0 w1 (?c k) = tabs l 0 w (?c k)" "nodes l 0 w1 (?c k) = nodes l 0 w (?c k)" using C by simp_all
  have w: "well (Suc l) lo w p" using ok by (simp add: pages_ok_def)
  have "nodes l 0 w (?c k) \<inter> own l w p j = {}" if "j \<in> kids lo w p" "j < k" for j
    using own_nodes [OF w that(1)] kid_facts(3) [OF ok k that(1)] that(2) by blast
  moreover have "used_pages w1 = used_pages w - (\<Union>j \<in> kids lo w p \<inter> {..<k}. own l w p j)" "frames_ok (frame_pool w1)"
    using P by (simp_all add: clean_part_def)
  moreover have "nodes l 0 w (?c k) \<subseteq> used_pages w" "well l 0 w (?c k)" using kid_facts(1) [OF ok k] by (simp_all add: pages_ok_def)
  ultimately have "nodes l 0 w (?c k) \<subseteq> used_pages w1" "frames_ok (frame_pool w1)" "well l 0 w (?c k)" by blast+
  then show "pages_ok l 0 w1 (?c k)" using C unfolding pages_ok_def by simp
qed

lemma CleanPageMap_ok:
  "pages_ok l lo w p \<Longrightarrow> 0 < l \<Longrightarrow> Part l a = lo \<Longrightarrow> \<forall>k < l. 0 < k \<longrightarrow> Part k a = 0 \<Longrightarrow>
   \<exists>w'. CleanPageMap p l a w = Some (kSuccess, w') \<and> clean_done l lo w p w'"
proof (induction l arbitrary: lo w p)
  case (Suc l)
  note ok = Suc.prems(1)
  have w: "well (Suc l) lo w p" "frames_ok (frame_pool w)" using ok by (simp_all add: pages_ok_def)
  define f where "f = (\<lambda>i w. let entry = get_pte p i w
     in if \<not> present entry then Some (kSuccess, w)
        else (case (if 0 < l then CleanPageMap (Pointer entry) l a w else Some (kSuccess, w)) of
                None \<Rightarrow> None
              | Some (err, w1) \<Rightarrow>
                  if err \<noteq> kSuccess then Some (err, w1)
                  else (case (if writable entry then FreePageMap (Pointer entry) w1 else Some (kSuccess, w1)) of
                          None \<Rightarrow> None
                        | Some (err, w2) \<Rightarrow>
                            if err \<noteq> kSuccess then Some (err, w2)
                            else Some (kSuccess, set_pte p i 0 w2))))"
  have step: "\<exists>e w'. f k w1 = Some (e, w') \<and> (e = kSuccess \<and> clean_part l lo w p (Suc k) w' \<or> e \<noteq> kSuccess \<and> False)"
    if k: "lo \<le> k" "k < 512" and P: "clean_part l lo w p k w1" for k w1
  proof (cases "present (get_pte p k w)")
    case False
    moreover have "get_pte p k w1 = get_pte p k w" using P by (simp add: clean_part_def)
    ultimately show ?thesis using clean_part_skip [OF P k(1) False] by (simp add: f_def)
  next
    case True
    let ?e = "get_pte p k w" and ?c = "Pointer (get_pte p k w)"
    have kk: "k \<in> kids lo w p" using True k by (simp add: kids_def)
    have ek: "get_pte p k w1 = ?e" and len: "length (page_mem w1 p) = 512" using P by (simp_all add: clean_part_def)
    note C = clean_part_child [OF P ok kk]
    have pc: "p \<notin> tabs l 0 w ?c" using kid_facts(2) [OF ok kk] tabs_nodes by blast
    obtain w2 where c: "(if 0 < l then CleanPageMap ?c l a w1 else Some (kSuccess, w1)) = Some (kSuccess, w2)"
      "frames_ok (frame_pool w2)" "cr3 w2 = cr3 w1" "\<And>q. q \<notin> tabs l 0 w ?c \<Longrightarrow> page_mem w2 q = page_mem w1 q"
      "used_pages w2 = used_pages w1 - owned l 0 w ?c"
    proof (cases "l = 0")
      case True
      then show ?thesis using that [of w1] P by (simp add: clean_part_def)
    next
      case False
      then obtain w2 where "CleanPageMap ?c l a w1 = Some (kSuccess, w2)" "clean_done l 0 w1 ?c w2"
        using Suc.IH [OF C(1)] Suc.prems(4) by auto
      then show ?thesis using that [of w2] False C by (simp add: clean_done_def)
    qed
    have "?c \<in> used_pages w1" using C(1) root_node [of ?c l 0 w1] by (auto simp: pages_ok_def)
    moreover have "?c \<notin> owned l 0 w ?c" using owned_nodes [of l 0 w ?c] w(1) kk by auto
    ultimately have "?c \<in> used_pages w2" using c(5) by simp
    from FreePageMap_ok [OF c(2) this] obtain w3 where
      d: "(if writable ?e then FreePageMap ?c w2 else Some (kSuccess, w2)) = Some (kSuccess, w3)"
      "frames_ok (frame_pool w3)" "cr3 w3 = cr3 w2" "page_mem w3 = page_mem w2"
      "used_pages w3 = used_pages w2 - (if writable ?e then {?c} else {})" using c(2) by (cases "writable ?e") auto
    have "f k w1 = Some (kSuccess, set_pte p k 0 w3)" 
      unfolding f_def Let_def ek by (simp only: True not_True_eq_False if_False if_True c(1) d(1) option.case prod.case simp_thms)
    moreover have "clean_part l lo w p (Suc k) (set_pte p k 0 w3)"
    proof (rule clean_part_next [OF P ok kk])
      have pm: "page_mem w3 p = page_mem w1 p" using c(4) [OF pc] d(4) by simp
      then have pe: "get_pte p j w3 = get_pte p j w1" for j by (simp add: get_pte_def)
      show "length (page_mem (set_pte p k 0 w3) p) = 512" using len pm by simp
      show "get_pte p j (set_pte p k 0 w3) = (if j = k then 0 else get_pte p j w1)" for j using len pm k by (simp add: pe)
      show "page_mem (set_pte p k 0 w3) q = page_mem w1 q" if "q \<noteq> p" "q \<notin> tabs l 0 w ?c" for q
        using that c(4) [OF that(2)] d(4) by (simp add: set_pte_def)
      show "used_pages (set_pte p k 0 w3) = used_pages w1 - own l w p k" unfolding own_def using c(5) d(5) by auto
    qed (use c d in simp_all)
    ultimately show ?thesis by simp
  qed
  have "kids lo w p \<inter> {..<lo} = {}" by (auto simp: kids_def)
  then have "clean_part l lo w p lo w" using w by (simp add: clean_part_def)
  moreover have "lo \<le> 512" using Part_less [of l a] Suc.prems(3) by simp
  ultimately obtain w' where r: "for_entries f [lo ..< 512] w = Some (kSuccess, w')" "clean_part l lo w p 512 w'"
    using for_entries_inv [where P = "clean_part l lo w p" and Q = "\<lambda>e w'. False" and f = f and a = lo and b = 512 and w = w, OF step] by blast
  have "CleanPageMap p (Suc l) a w = Some (kSuccess, w')" using r(1) Suc.prems(3) by (simp add: f_def)
  moreover have "clean_done (Suc l) lo w p w'"
  proof -
    have "kids lo w p \<inter> {..<512} = kids lo w p" by (auto simp: kids_def)
    then have "(\<Union>j \<in> kids lo w p \<inter> {..<512}. own l w p j) = owned (Suc l) lo w p" by (simp add: own_def)
    then have "used_pages w' = used_pages w - owned (Suc l) lo w p" using r(2) by (simp only: clean_part_def)
    then show ?thesis using r(2) unfolding clean_done_def
      by (intro conjI) (simp_all add: clean_part_def del: tabs.simps owned.simps)
  qed
  ultimately show ?case by blast
qed simp

section \<open>What a task owns\<close>

lemma walk_rights: "upper_ok l lo w p \<Longrightarrow> x < 512 ^ l \<Longrightarrow> lo \<le> x div 512 ^ (l - 1) \<Longrightarrow> walk l w p x = Some (e, r) \<Longrightarrow> r"
proof (induction l arbitrary: lo p x r)
  case (Suc l)
  let ?i = "x div 512 ^ l"
  have "?i < 512" using Suc.prems(2) by (simp add: less_mult_imp_div_less mult.commute)
  then have i: "?i \<in> kids lo w p" using Suc.prems(3,4) by (auto simp: kids_def Let_def split: if_splits)
  show ?case
  proof (cases "l = 0")
    case True
    then show ?thesis using Suc.prems(4) by (simp add: Let_def split: if_splits)
  next
    case False
    then obtain r' where r: "walk l w (Pointer (get_pte p ?i w)) (x mod 512 ^ l) = Some (e, r')"
      "r = (r' \<and> user (get_pte p ?i w) \<and> writable (get_pte p ?i w))"
      using Suc.prems(4) by (auto simp: Let_def split: if_splits)
    have "upper_ok l 0 w (Pointer (get_pte p ?i w))" "user (get_pte p ?i w) \<and> writable (get_pte p ?i w)"
      using Suc.prems(1) i False by auto
    then show ?thesis using Suc.IH [OF _ _ _ r(1)] r(2) by simp
  qed
qed simp

lemma owned_leaves:
  "0 < l \<Longrightarrow> well l lo w p \<Longrightarrow> upper_ok l lo w p \<Longrightarrow>
   owned l lo w p = (tabs l lo w p - {p}) \<union> Pointer ` {e \<in> leaves l lo w p. writable e}"
proof (induction l arbitrary: lo p)
  case (Suc l)
  let ?K = "kids lo w p" and ?c = "\<lambda>i. Pointer (get_pte p i w)"
  show ?case
  proof (cases "l = 0")
    case True
    then show ?thesis by (auto simp: leaves_Suc)
  next
    case False
    then have l: "0 < l" by simp
    have kid: "(if writable (get_pte p i w) then {?c i} else {}) \<union> owned l 0 w (?c i) =
        tabs l 0 w (?c i) \<union> Pointer ` {e \<in> leaves l 0 w (?c i). writable e}" if i: "i \<in> ?K" for i
    proof -
      have "writable (get_pte p i w)" "upper_ok l 0 w (?c i)" "well l 0 w (?c i)" using Suc.prems i l by simp_all
      moreover have "?c i \<in> tabs l 0 w (?c i)" using l by (cases l) simp_all
      ultimately show ?thesis using Suc.IH [OF l, of 0 "?c i"] by auto
    qed
    have "p \<notin> tabs l 0 w (?c i)" if "i \<in> ?K" for i using Suc.prems(2) that tabs_nodes [of l 0 w "?c i"] by auto
    then have "tabs (Suc l) lo w p - {p} = (\<Union>i \<in> ?K. tabs l 0 w (?c i))" by auto
    moreover have "Pointer ` {e \<in> leaves (Suc l) lo w p. writable e} = (\<Union>i \<in> ?K. Pointer ` {e \<in> leaves l 0 w (?c i). writable e})"
      unfolding leaves_Suc(2) [OF l] by blast
    moreover have "owned (Suc l) lo w p = (\<Union>i \<in> ?K. tabs l 0 w (?c i) \<union> Pointer ` {e \<in> leaves l 0 w (?c i). writable e})"
      unfolding owned.simps by (intro SUP_cong refl kid)
    ultimately show ?thesis by (simp only: UN_Un_distrib)
  qed
qed simp

text \<open>The pages in use are those of before, \<open>S\<close>, and those the task owns.\<close>

definition balanced :: "u64 set \<Rightarrow> paging_state \<Rightarrow> bool" where
  "balanced S w \<longleftrightarrow> upper_ok 4 256 w (cr3 w) \<and> (\<forall>e \<in> leaves 4 256 w (cr3 w). user e) \<and>
     used_pages w = S \<union> tabs 4 256 w (cr3 w) \<union> Pointer ` {e \<in> leaves 4 256 w (cr3 w). writable e}"

lemma leaf_of: "x < 512 ^ 4 \<Longrightarrow> 256 \<le> x div 512 ^ 3 \<Longrightarrow> walk 4 w p x = Some (e, r) \<Longrightarrow> e \<in> leaves 4 256 w p"
  by (auto simp: leaves_def)

lemma leavesE:
  assumes "e \<in> leaves 4 256 w p"
  obtains x r where "x < 512 ^ 4" "256 \<le> x div 512 ^ 3" "walk 4 w p x = Some (e, r)"
  using assms by (auto simp: leaves_def)

lemma balanced_write:
  assumes B: "balanced S w" and I: "isolated S mem w" and x: "x < 512 ^ 4" "256 \<le> x div 512 ^ 3" "walk 4 w (cr3 w) x = Some (e, r)"
  shows "balanced S (w\<lparr>page_mem := (page_mem w)(Pointer e := ws)\<rparr>)"
proof -
  let ?w = "w\<lparr>page_mem := (page_mem w)(Pointer e := ws)\<rparr>" and ?p = "cr3 w"
  have "Pointer e \<notin> tabs 4 256 w ?p" using walk_leaf [of 4 256 w ?p x e r] I x by (simp add: isolated_def pages_ok_def)
  then have same: "page_mem ?w q = page_mem w q" if "q \<in> tabs 4 256 w ?p" for q using that by auto
  note C = tree_cong [of 4 256 w ?p ?w, OF same] and U = upper_cong [of 4 256 w ?p ?w, OF same]
  have "leaves 4 256 ?w ?p = leaves 4 256 w ?p" using C unfolding leaves_def by (intro Collect_cong) auto
  moreover have "used_pages ?w = used_pages w" by (simp add: used_pages_def)
  ultimately show ?thesis using B C U by (simp add: balanced_def)
qed

lemma all_owned:
  "L \<subseteq> u \<Longrightarrow> u = S \<union> t \<union> W \<Longrightarrow> u' = u \<union> t' \<union> L' \<Longrightarrow> L' \<subseteq> L \<union> W' \<Longrightarrow> W \<subseteq> W' \<Longrightarrow> t \<subseteq> t' \<Longrightarrow> W' \<subseteq> L' \<Longrightarrow> u' = S \<union> t' \<union> W'"
  by blast

lemma balanced_setup:
  assumes B: "balanced S w" and I: "isolated S mem w" and a: "256 \<le> Part 4 a"
    and n: "\<forall>x \<in> set (page_range a n). walk 4 w (cr3 w) x = None" and s: "SetupPageMaps a n True w = Some (err, w')"
  shows "balanced S w'"
proof -
  let ?p = "cr3 w" and ?X = "set (page_range a n)" and ?L = "leaves 4 256 w (cr3 w)" and ?L' = "leaves 4 256 w' (cr3 w)"
  have ok: "pages_ok 4 256 w ?p" using I by (simp add: isolated_def)
  from SetupPageMaps_ok [OF ok a, of n True] s have G: "grows 4 256 ?p w w'" "walks_kept 4 256 ?p ?X w w'"
    "\<forall>x \<in> ?X. mapped 4 True ?p x w w' \<or> kept_walk (walk 4 w ?p x) (walk 4 w' ?p x)" by auto
  have c: "cr3 w' = ?p" "pages_ok 4 256 w' ?p" "tabs 4 256 w' ?p \<inter> used_pages w = tabs 4 256 w ?p"
    "used_pages w' = used_pages w \<union> nodes 4 256 w' ?p" using G(1) by (simp_all add: grows_def)
  have "upper_ok 4 256 w' ?p"
    using map_pages_upper [OF ok page_range_user [OF a]] B s unfolding SetupPageMaps_pages [OF ok a] by (simp add: balanced_def)
  moreover have new: "e \<in> ?L \<or> user e \<and> writable e" if e: "e \<in> ?L'" for e
  proof -
    obtain y r where y: "y < 512 ^ 4" "256 \<le> y div 512 ^ 3" "walk 4 w' ?p y = Some (e, r)" by (rule leavesE [OF e])
    show ?thesis
    proof (cases "y \<in> ?X")
      case True
      then show ?thesis using bspec [OF G(3) True] bspec [OF n True] y(3) by (auto simp: mapped_def)
    next
      case False
      then have "kept_walk (walk 4 w ?p y) (walk 4 w' ?p y)" using G(2) y(1,2) by (simp add: walks_kept_def)
      then obtain r' where "walk 4 w ?p y = Some (e, r')" using y(3) by (cases "walk 4 w ?p y") (auto simp: kept_walk_def)
      then show ?thesis using leaf_of y(1,2) by blast
    qed
  qed
  moreover have old: "?L \<subseteq> ?L'"
  proof
    fix e assume "e \<in> ?L"
    then obtain y r where y: "y < 512 ^ 4" "256 \<le> y div 512 ^ 3" "walk 4 w ?p y = Some (e, r)" by (rule leavesE)
    then have "y \<notin> ?X" using n by auto
    then have "kept_walk (walk 4 w ?p y) (walk 4 w' ?p y)" using G(2) y(1,2) by (simp add: walks_kept_def)
    then obtain r' where "walk 4 w' ?p y = Some (e, r')" using y(3) by (cases "walk 4 w' ?p y") (auto simp: kept_walk_def)
    then show "e \<in> ?L'" using leaf_of y(1,2) by blast
  qed
  moreover have "used_pages w' = S \<union> tabs 4 256 w' ?p \<union> Pointer ` {e \<in> ?L'. writable e}"
  proof -
    have "nodes 4 256 w ?p \<subseteq> used_pages w" using ok by (simp add: pages_ok_def)
    then have "Pointer ` ?L \<subseteq> used_pages w" using nodes_leaves [of 4 256 w ?p] by auto
    moreover have "used_pages w = S \<union> tabs 4 256 w ?p \<union> Pointer ` {e \<in> ?L. writable e}" using B by (simp add: balanced_def)
    moreover have "used_pages w' = used_pages w \<union> tabs 4 256 w' ?p \<union> Pointer ` ?L'" using c(4) nodes_leaves [of 4 256 w' ?p] by auto
    moreover have "Pointer ` ?L' \<subseteq> Pointer ` ?L \<union> Pointer ` {e \<in> ?L'. writable e}" using new by blast
    moreover have "Pointer ` {e \<in> ?L. writable e} \<subseteq> Pointer ` {e \<in> ?L'. writable e}" using old by blast
    moreover have "tabs 4 256 w ?p \<subseteq> tabs 4 256 w' ?p" using c(3) by blast
    moreover have "Pointer ` {e \<in> ?L'. writable e} \<subseteq> Pointer ` ?L'" by blast
    ultimately show ?thesis by (rule all_owned)
  qed
  ultimately show ?thesis using B unfolding balanced_def c(1) by blast
qed

lemma balanced_cow:
  assumes B: "balanced S w" and I: "isolated S mem w" and a: "256 \<le> Part 4 a"
    and e: "walk 4 w (cr3 w) (page_number 4 a) = Some (e, r)" "\<not> writable e" and s: "CopyOnePage a w = Some (err, w')"
  shows "balanced S w'"
proof -
  let ?p = "cr3 w" and ?x = "page_number 4 a" and ?L = "leaves 4 256 w (cr3 w)" and ?L' = "leaves 4 256 w' (cr3 w)"
  have ok: "pages_ok 4 256 w ?p" using I by (simp add: isolated_def)
  from CopyOnePage_ok [OF ok a e(1)] s consider "w' = w" | "cow_result ?x e r w w'" by auto
  then show ?thesis
  proof cases
    case 2
    define e' where "e' = (\<lambda>c. set_flag 1 True (SetPointer c e))"
    from 2 obtain c where c: "page_addr c" "used_pages w' = insert c (used_pages w)" "walk 4 w' ?p ?x = Some (e' c, r)"
      by (auto simp: cow_result_def e'_def)
    have ec: "Pointer (e' c) = c" "user (e' c) = user e" "writable (e' c)" using c(1) by (simp_all add: e'_def)
    have R: "cr3 w' = ?p" "tabs 4 256 w' ?p = tabs 4 256 w ?p" "upper_ok 4 256 w ?p \<longrightarrow> upper_ok 4 256 w' ?p"
      "\<And>y. y < 512 ^ 4 \<Longrightarrow> 256 \<le> y div 512 ^ 3 \<Longrightarrow> y \<noteq> ?x \<Longrightarrow> walk 4 w' ?p y = walk 4 w ?p y"
      using 2 by (simp_all add: cow_result_def)
    have L': "?L' \<subseteq> insert (e' c) ?L"
    proof
      fix f assume "f \<in> ?L'"
      then obtain y q where y: "y < 512 ^ 4" "256 \<le> y div 512 ^ 3" "walk 4 w' ?p y = Some (f, q)" by (rule leavesE)
      then show "f \<in> insert (e' c) ?L" using c(3) R(4) leaf_of [of y w ?p f q] by (cases "y = ?x") auto
    qed
    have new: "e' c \<in> ?L'" "e \<in> ?L" using leaf_of c(3) e(1) user_page [OF a] by blast+
    have old: "{f \<in> ?L. writable f} \<subseteq> {f \<in> ?L'. writable f}"
    proof
      fix f assume "f \<in> {f \<in> ?L. writable f}"
      then have f: "f \<in> ?L" "writable f" by simp_all
      then obtain y q where y: "y < 512 ^ 4" "256 \<le> y div 512 ^ 3" "walk 4 w ?p y = Some (f, q)" by (blast elim: leavesE)
      then have "y \<noteq> ?x" using e f(2) by auto
      then show "f \<in> {f \<in> ?L'. writable f}" using R(4) y f(2) leaf_of by fastforce
    qed
    have W: "Pointer ` {f \<in> ?L'. writable f} = insert c (Pointer ` {f \<in> ?L. writable f})"
    proof
      show "Pointer ` {f \<in> ?L'. writable f} \<subseteq> insert c (Pointer ` {f \<in> ?L. writable f})" using L' ec(1) by blast
      have "c \<in> Pointer ` {f \<in> ?L'. writable f}" using new(1) ec(3) by (intro image_eqI [of _ _ "e' c"]) (simp_all add: ec(1))
      then show "insert c (Pointer ` {f \<in> ?L. writable f}) \<subseteq> Pointer ` {f \<in> ?L'. writable f}" using old by blast
    qed
    have "\<forall>f \<in> ?L'. user f" using L' new(2) ec(2) B by (auto simp: balanced_def)
    moreover have "used_pages w' = S \<union> tabs 4 256 w' ?p \<union> Pointer ` {f \<in> ?L'. writable f}"
      unfolding W R(2) c(2) using B by (simp add: balanced_def)
    ultimately show ?thesis using B R(1,3) by (simp add: balanced_def)
  qed (use B in simp)
qed

lemma balanced_cache:
  assumes B: "balanced S w" and I: "isolated S mem w" and a: "256 \<le> Part 4 a" and n: "walk 4 w (cr3 w) (page_number 4 a) = None"
    and s: "PreparePageCache load m a w = Some (err, w')"
  shows "balanced S w'"
proof -
  let ?v = "a AND NOT (mask 12)"
  have v: "256 \<le> Part 4 ?v" "page_range ?v 1 = [page_number 4 a]" unfolding page_range_one
    using a by (simp_all add: Part_aligned page_number_aligned)
  obtain err1 w1 where s1: "SetupPageMaps ?v 1 True w = Some (err1, w1)"
    using s by (auto simp: PreparePageCache_def SetPart_offset Let_def split: option.splits)
  have n1: "\<forall>x \<in> set (page_range ?v 1). walk 4 w (cr3 w) x = None" unfolding v(2) using n by simp
  note A = isolated_setup [OF I v(1) n1 s1, unfolded v(2)] and B1 = balanced_setup [OF B I v(1) n1 s1]
  show ?thesis
  proof (cases "err1 = kSuccess")
    case False
    then show ?thesis using s s1 B1 by (simp add: PreparePageCache_def SetPart_offset Let_def)
  next
    case True
    then obtain e where e: "walk 4 w1 (cr3 w1) (page_number 4 a) = Some (e, True)" using A(2) by auto
    then have "virtual_page ?v w1 = Some (Pointer e)" using virtual_page_user [OF a] by simp
    then obtain ws where "w' = w1\<lparr>page_mem := (page_mem w1)(Pointer e := ws)\<rparr>"
      using s s1 True by (auto simp: PreparePageCache_def SetPart_offset Let_def split: option.splits)
    then show ?thesis using balanced_write [OF B1 A(1) _ _ e] user_page [OF a] by simp
  qed
qed

lemma balanced_step:
  assumes "task_step w w'" "isolated S mem w" "balanced S w"
  shows "balanced S w'"
  using assms(1)
proof cases
  case (user_write x e ws)
  then show ?thesis using balanced_write [OF assms(3,2)] by simp
next
  case (page_fault a code t err)
  show ?thesis
  proof (cases "bit code 0")
    case True
    then obtain e r where e: "walk 4 w (cr3 w) (page_number 4 a) = Some (e, r)" using page_fault(2) by auto
    have r: "r" using walk_rights [of 4 256 w, OF _ _ _ e] assms(3) user_page [OF page_fault(1)] by (simp add: balanced_def)
    have u: "user e" using leaf_of [OF _ _ e] user_page [OF page_fault(1)] assms(3) by (auto simp: balanced_def)
    show ?thesis
    proof (cases "bit code 1 \<and> bit code 2")
      case both: True
      then have "\<not> writable e" using page_fault(3) [of e] e r u True by simp
      moreover have "CopyOnePage a w = Some (err, w')" using page_fault(4) True both by (simp add: HandlePageFault_def)
      ultimately show ?thesis using balanced_cow [OF assms(3,2) page_fault(1) e] by simp
    next
      case False
      then have "w' = w" using page_fault(4) True by (auto simp: HandlePageFault_def)
      with assms(3) show ?thesis by simp
    qed
  next
    case False
    then have n: "walk 4 w (cr3 w) (page_number 4 a) = None" using page_fault(2) by blast
    then have n1: "\<forall>x \<in> set (page_range a 1). walk 4 w (cr3 w) x = None" unfolding page_range_one by simp
    from page_fault(4) False consider "SetupPageMaps a 1 True w = Some (err, w')" | "w' = w"
      | m where "PreparePageCache (file_load t) m a w = Some (err, w')"
      by (auto simp: HandlePageFault_def Let_def split: if_splits option.splits)
    then show ?thesis
    proof cases
      case 1
      then show ?thesis using balanced_setup [OF assms(3,2) page_fault(1) n1] by simp
    next
      case 3
      then show ?thesis using balanced_cache [OF assms(3,2) page_fault(1) n] by simp
    qed (use assms(3) in simp)
  qed
next
  case (kernel_fault a code t err)
  then show ?thesis using unhandled_fault [OF kernel_fault(2-5)] assms(3) by simp
next
  case (pages_set_up a n err)
  then show ?thesis using balanced_setup [OF assms(3,2)] by simp
qed

lemma balanced_runs: "task_runs w w' \<Longrightarrow> isolated S mem w \<Longrightarrow> balanced S w \<Longrightarrow> balanced S w'"
proof (induction rule: task_runs.induct)
  case (step w w1 w2)
  then show ?case using balanced_step [OF step.hyps(2) isolated_runs [OF step.hyps(1) step.prems(1)]] by simp
qed

lemma started_balanced:
  assumes "started s w d w1" "upper_ok 4 256 w s" "\<forall>e \<in> leaves 4 256 w s. user e"
  shows "balanced (used_pages w) w1"
proof -
  have leaf: "user e \<and> \<not> writable e" if e: "e \<in> leaves 4 256 w1 d" for e
  proof -
    obtain x r where x: "x < 512 ^ 4" "256 \<le> x div 512 ^ 3" "walk 4 w1 d x = Some (e, r)" by (rule leavesE [OF e])
    then have "read_only (walk 4 w s x) = Some (e, r)" using assms(1) by (simp add: started_def)
    then obtain e0 where "walk 4 w s x = Some (e0, r)" "e = set_flag 1 False e0" by (auto simp: read_only_def)
    then show ?thesis using assms(3) leaf_of [OF x(1,2)] by auto
  qed
  then have W: "Pointer ` {e \<in> leaves 4 256 w1 d. writable e} = {}" by blast
  have d: "cr3 w1 = d" using assms(1) by (simp add: started_def)
  show ?thesis unfolding balanced_def d W using assms(1,2) leaf by (simp add: started_def)
qed

text \<open>A task keeps its tables.\<close>

lemma setup_cr3: "pages_ok 4 256 w (cr3 w) \<Longrightarrow> 256 \<le> Part 4 a \<Longrightarrow> SetupPageMaps a n wr w = Some (err, w') \<Longrightarrow> cr3 w' = cr3 w"
  using SetupPageMaps_ok [of w a n wr] by (auto simp: grows_def)

lemma cache_cr3:
  assumes "pages_ok 4 256 w (cr3 w)" "256 \<le> Part 4 a" "PreparePageCache load m a w = Some (err, w')"
  shows "cr3 w' = cr3 w"
proof -
  have v: "256 \<le> Part 4 (a AND NOT (mask 12))" using assms(2) by (simp add: Part_aligned)
  obtain err1 w1 where "SetupPageMaps (a AND NOT (mask 12)) 1 True w = Some (err1, w1)" "cr3 w' = cr3 w1"
    using assms(3) by (auto simp: PreparePageCache_def SetPart_offset Let_def split: option.splits if_splits)
  then show ?thesis using setup_cr3 [OF assms(1) v] by auto
qed

lemma step_cr3:
  assumes "task_step w w'" "isolated S mem w"
  shows "cr3 w' = cr3 w"
  using assms(1)
proof cases
  case (user_write x e ws)
  then show ?thesis by simp
next
  case (page_fault a code t err)
  have ok: "pages_ok 4 256 w (cr3 w)" using assms(2) by (simp add: isolated_def)
  show ?thesis
  proof (cases "bit code 0")
    case True
    then obtain e r where e: "walk 4 w (cr3 w) (page_number 4 a) = Some (e, r)" using page_fault(2) by auto
    from page_fault(4) True consider "CopyOnePage a w = Some (err, w')" | "w' = w"
      by (auto simp: HandlePageFault_def split: if_splits)
    then show ?thesis using CopyOnePage_ok [OF ok page_fault(1) e] by cases (auto simp: cow_result_def)
  next
    case False
    with page_fault(4) consider "SetupPageMaps a 1 True w = Some (err, w')" | "w' = w"
      | m where "PreparePageCache (file_load t) m a w = Some (err, w')"
      by (auto simp: HandlePageFault_def Let_def split: if_splits option.splits)
    then show ?thesis using setup_cr3 [OF ok page_fault(1)] cache_cr3 [OF ok page_fault(1)] by cases auto
  qed
next
  case (kernel_fault a code t err)
  then show ?thesis using unhandled_fault [OF kernel_fault(2-5)] by simp
next
  case (pages_set_up a n err)
  then show ?thesis using setup_cr3 assms(2) by (simp add: isolated_def)
qed

lemma runs_cr3: "task_runs w w' \<Longrightarrow> isolated S mem w \<Longrightarrow> cr3 w' = cr3 w"
proof (induction rule: task_runs.induct)
  case (step w w1 w2)
  then show ?case using step_cr3 [OF step.hyps(2) isolated_runs [OF step.hyps(1) step.prems]] by simp
qed simp

section \<open>The end of a task\<close>

lemma user_half: "Part 4 0xFFFF800000000000 = 256" "0 < k \<Longrightarrow> k < 4 \<Longrightarrow> Part k 0xFFFF800000000000 = 0"
proof -
  show "Part 4 0xFFFF800000000000 = 256" by (simp add: Part_def part_shift_def part_width_def take_bit_eq_mod)
  assume "0 < k" "k < 4"
  then have "k = 1 \<or> k = 2 \<or> k = 3" by auto
  then show "Part k 0xFFFF800000000000 = 0"
    by (elim disjE) (simp_all add: Part_def part_shift_def part_width_def take_bit_eq_mod)
qed

lemma task_ends:
  assumes B: "balanced S w" and I: "isolated S mem w"
  shows "\<exists>w1 w2. CleanPageMaps 0xFFFF800000000000 w = Some (kSuccess, w1) \<and> FreePML4 pml4 (cr3 w) w1 = Some (kSuccess, 0, w2) \<and>
    used_pages w2 = S \<and> (\<forall>q \<in> S. page_mem w2 q = mem q) \<and> cr3 w2 = pml4"
proof -
  let ?p = "cr3 w"
  have ok: "pages_ok 4 256 w ?p" and apart: "tabs 4 256 w ?p \<inter> S = {}" and mem: "\<forall>q \<in> S. page_mem w q = mem q"
    using I by (simp_all add: isolated_def)
  have leaf: "Pointer e \<notin> S" if "e \<in> leaves 4 256 w ?p" "writable e" for e
    using that I unfolding isolated_def by (blast elim: leavesE)
  have "\<forall>k < 4. 0 < k \<longrightarrow> Part k 0xFFFF800000000000 = 0" using user_half(2) by blast
  from CleanPageMap_ok [OF ok _ user_half(1) this] obtain w1 where c: "CleanPageMap ?p 4 0xFFFF800000000000 w = Some (kSuccess, w1)"
    "clean_done 4 256 w ?p w1" by auto
  have root: "?p \<in> tabs 4 256 w ?p" unfolding numeral_4 by simp
  have well: "well 4 256 w ?p" using ok by (simp add: pages_ok_def)
  have "owned 4 256 w ?p = (tabs 4 256 w ?p - {?p}) \<union> Pointer ` {e \<in> leaves 4 256 w ?p. writable e}"
    using owned_leaves [OF _ well] B by (simp add: balanced_def)
  moreover have "?p \<notin> owned 4 256 w ?p" using owned_nodes [OF well] by blast
  moreover have "S \<inter> Pointer ` {e \<in> leaves 4 256 w ?p. writable e} = {}" using leaf by blast
  moreover have "used_pages w = S \<union> tabs 4 256 w ?p \<union> Pointer ` {e \<in> leaves 4 256 w ?p. writable e}" using B by (simp add: balanced_def)
  ultimately have u: "used_pages w - owned 4 256 w ?p = insert ?p S" using apart root by auto
  let ?w = "w1\<lparr>cr3 := pml4\<rparr>"
  have "frames_ok (frame_pool ?w)" "used_pages ?w = insert ?p S" using c(2) u by (simp_all add: clean_done_def used_pages_def)
  then obtain w2 where f: "FreePageMap ?p ?w = Some (kSuccess, w2)" "cr3 w2 = pml4" "page_mem w2 = page_mem w1" "used_pages w2 = insert ?p S - {?p}"
    using FreePageMap_ok [of ?w ?p] by auto
  have "?p \<notin> S" using apart root by blast
  then have "used_pages w2 = S" using f(4) by simp
  moreover have "\<forall>q \<in> S. page_mem w2 q = mem q" using c(2) f(3) apart mem by (auto simp: clean_done_def)
  ultimately show ?thesis using c(1) f(1,2) by (simp add: CleanPageMaps_def FreePML4_def)
qed

section \<open>Properties\<close>

text \<open>
  C31: a task leaves nothing behind. When a task has run a program that was loaded before, with any writes to its
  half of the address space and any page faults but those of C32, writes to pages of the kernel that are there, the
  kernel's clean-up succeeds, and then exactly the pages are in use that were in use before the task started, with
  the same contents.
\<close>

theorem task_pages_returned:
  assumes "pages_ok 4 256 w s" "upper_ok 4 256 w s" "\<forall>e \<in> leaves 4 256 w s. user e"
    and "length (page_mem w (cr3 w)) = 512" "cr3 w \<in> used_pages w"
    and "LoadApp_again s ctx w = Some (kSuccess, ctx', w1)" "task_runs w1 w2"
  shows "\<exists>w3 w4. CleanPageMaps 0xFFFF800000000000 w2 = Some (kSuccess, w3) \<and> FreePML4 pml4 ctx' w3 = Some (kSuccess, 0, w4) \<and>
    used_pages w4 = used_pages w \<and> (\<forall>q \<in> used_pages w. page_mem w4 q = page_mem w q) \<and> cr3 w4 = pml4"
proof -
  from LoadApp_again_ok [OF assms(1,4,5), of ctx] assms(6) have s: "started s w ctx' w1" by auto
  have I: "isolated (used_pages w) (page_mem w) w1" by (rule started_isolated [OF s])
  have "balanced (used_pages w) w2" using balanced_runs [OF assms(7) I] started_balanced [OF s assms(2,3)] .
  moreover have "isolated (used_pages w) (page_mem w) w2" by (rule isolated_runs [OF assms(7) I])
  moreover have "cr3 w2 = ctx'" using runs_cr3 [OF assms(7) I] s by (simp add: started_def)
  ultimately show ?thesis using task_ends by blast
qed

theorem task_pages_returned_witness:
  "\<exists>d w1 w2 w3 w4. LoadApp_again 0x1000 0 one_table = Some (kSuccess, d, w1) \<and> task_step w1 w2 \<and>
     CleanPageMaps 0xFFFF800000000000 w2 = Some (kSuccess, w3) \<and> FreePML4 0 d w3 = Some (kSuccess, 0, w4) \<and>
     used_pages w4 = used_pages one_table"
proof -
  obtain d w1 where l: "LoadApp_again 0x1000 0 one_table = Some (kSuccess, d, w1)" using one_table_starts by blast
  have ok: "pages_ok 4 256 one_table 0x1000" using one_table_ok by simp
  from LoadApp_again_ok [OF this one_table_root, of 0] l have s: "started 0x1000 one_table d w1" by auto
  from one_table_fault [OF s] obtain w2 where t: "task_step w1 w2" by blast
  have r: "task_runs w1 w2" by (rule task_runs.step [OF task_runs.here t])
  have z: "page_mem one_table 0x1000 = replicate 512 0" by (simp add: one_table_def)
  then have "kids 256 one_table 0x1000 = {}" by (auto simp: kids_def get_pte_def)
  then have u: "upper_ok 4 256 one_table 0x1000" unfolding numeral_4 by simp
  have e: "\<forall>e \<in> leaves 4 256 one_table 0x1000. user e"
    using empty_table(4) [OF z, of _ 4] by (auto simp: leaves_def)
  from task_pages_returned [OF ok u e one_table_root l r, of 0] l t show ?thesis by blast
qed

end
