(* ===== verification/PageKernel.thy ===== *)
theory PageKernel
  imports PageFault
begin

text \<open>
  \<^verbatim>\<open>kernel/paging.cpp\<close>: the tables of the kernel, which map the first 64 GiB to themselves in pages of 2 MiB,
  and what a fault of the user there does to them.
\<close>

section \<open>The identity tables\<close>

definition kPageSize4K :: u64 where "kPageSize4K = 4096"
definition kPageSize2M :: u64 where "kPageSize2M = 512 * kPageSize4K"
definition kPageSize1G :: u64 where "kPageSize1G = 512 * kPageSize2M"
definition kPageDirectoryCount :: nat where "kPageDirectoryCount = 64"

definition identity_entry :: "nat \<Rightarrow> nat \<Rightarrow> u64" where
  "identity_entry i_pdpt i_pd = (of_nat i_pdpt * kPageSize1G + of_nat i_pd * kPageSize2M) OR 0x083"

text \<open>The three arguments are the addresses of \<^verbatim>\<open>pml4_table\<close>, \<^verbatim>\<open>pdp_table\<close> and the elements of \<^verbatim>\<open>page_directory\<close>.\<close>

definition SetupIdentityPageTable :: "u64 \<Rightarrow> u64 \<Rightarrow> (nat \<Rightarrow> u64) \<Rightarrow> paging_state \<Rightarrow> paging_state" where
  "SetupIdentityPageTable pml4_table pdp_table page_directory w =
     (let w1 = set_pte pml4_table 0 (pdp_table OR 0x003) w;
          w2 = foldl (\<lambda>w i_pdpt.
                 foldl (\<lambda>w i_pd. set_pte (page_directory i_pdpt) i_pd (identity_entry i_pdpt i_pd) w)
                   (set_pte pdp_table i_pdpt (page_directory i_pdpt OR 0x003) w) [0 ..< 512])
               w1 [0 ..< kPageDirectoryCount]
      in w2\<lparr>cr3 := pml4_table\<rparr>)"

lemma fill_table:
  "n \<le> length (page_mem w p) \<Longrightarrow>
   page_mem (foldl (\<lambda>w j. set_pte p j (f j) w) w [0 ..< n]) = (page_mem w)(p := map f [0 ..< n] @ drop n (page_mem w p))"
proof (induction n)
  case (Suc n)
  then have "drop n (page_mem w p) = page_mem w p ! n # drop (Suc n) (page_mem w p)" by (simp add: Cons_nth_drop_Suc)
  with Suc show ?case by (simp add: set_pte_def fun_eq_iff list_update_append)
qed (simp add: fun_eq_iff)

text \<open>The state after \<open>n\<close> directories.\<close>

definition directories :: "u64 \<Rightarrow> u64 \<Rightarrow> (nat \<Rightarrow> u64) \<Rightarrow> nat \<Rightarrow> paging_state \<Rightarrow> bool" where
  "directories pml4 pdp pd n w \<longleftrightarrow> length (page_mem w pml4) = 512 \<and> length (page_mem w pdp) = 512 \<and>
     (\<forall>i < kPageDirectoryCount. length (page_mem w (pd i)) = 512) \<and> get_pte pml4 0 w = pdp OR 3 \<and>
     (\<forall>i < n. get_pte pdp i w = pd i OR 3 \<and> page_mem w (pd i) = map (identity_entry i) [0 ..< 512])"

definition apart_tables :: "u64 \<Rightarrow> u64 \<Rightarrow> (nat \<Rightarrow> u64) \<Rightarrow> bool" where
  "apart_tables pml4 pdp pd \<longleftrightarrow> pml4 \<noteq> pdp \<and> (\<forall>i < kPageDirectoryCount. pd i \<noteq> pml4 \<and> pd i \<noteq> pdp) \<and>
     inj_on pd {..<kPageDirectoryCount}"

lemma directories_next:
  assumes a: "apart_tables pml4 pdp pd" and d: "directories pml4 pdp pd n w" and n: "n < kPageDirectoryCount"
  shows "directories pml4 pdp pd (Suc n)
    (foldl (\<lambda>w j. set_pte (pd n) j (identity_entry n j) w) (set_pte pdp n (pd n OR 3) w) [0 ..< 512])"
proof -
  let ?w1 = "set_pte pdp n (pd n OR 3) w"
  define w' where "w' = foldl (\<lambda>w j. set_pte (pd n) j (identity_entry n j) w) ?w1 [0 ..< 512]"
  have l: "length (page_mem ?w1 (pd n)) = 512" "n < 512" using d n by (simp_all add: directories_def kPageDirectoryCount_def)
  have m: "page_mem w' = (page_mem ?w1)(pd n := map (identity_entry n) [0 ..< 512])"
    using fill_table [of 512 ?w1 "pd n" "identity_entry n"] l by (simp add: w'_def)
  have ne: "pd i \<noteq> pd n" if "i < n" for i using a n that unfolding apart_tables_def inj_on_def by fastforce
  have apart: "pml4 \<noteq> pdp" "pd n \<noteq> pml4" "pd n \<noteq> pdp" using a n by (simp_all add: apart_tables_def)
  have pte: "get_pte pdp i w' = (if i = n then pd n OR 3 else get_pte pdp i w)" for i
    using apart d l(2) by (simp add: get_pte_def m directories_def set_pte_def nth_list_update)
  have rest: "page_mem w' q = page_mem w q" if "q \<noteq> pdp" "q \<noteq> pd n" for q using that by (simp add: m set_pte_def)
  have "get_pte pml4 0 w' = pdp OR 3" using rest [of pml4] apart d by (simp add: directories_def get_pte_def)
  moreover have "length (page_mem w' q) = 512" if "length (page_mem w q) = 512" for q using that by (simp add: m)
  moreover have "get_pte pdp i w' = pd i OR 3 \<and> page_mem w' (pd i) = map (identity_entry i) [0 ..< 512]" if "i < Suc n" for i
  proof (cases "i = n")
    case True
    then show ?thesis using pte by (simp add: m)
  next
    case False
    then have i: "i < n" using that by simp
    then have "pd i \<noteq> pdp" using a n by (simp add: apart_tables_def)
    then show ?thesis using pte [of i] rest [of "pd i"] ne [OF i] d i by (simp add: directories_def)
  qed
  ultimately have "directories pml4 pdp pd (Suc n) w'" using d unfolding directories_def by blast
  then show ?thesis unfolding w'_def .
qed

lemma SetupIdentityPageTable_directories:
  assumes a: "apart_tables pml4 pdp pd" and l: "length (page_mem w pml4) = 512" "length (page_mem w pdp) = 512"
    "\<forall>i < kPageDirectoryCount. length (page_mem w (pd i)) = 512"
  shows "directories pml4 pdp pd kPageDirectoryCount (SetupIdentityPageTable pml4 pdp pd w)"
    "cr3 (SetupIdentityPageTable pml4 pdp pd w) = pml4"
proof -
  let ?f = "\<lambda>w i. foldl (\<lambda>w j. set_pte (pd i) j (identity_entry i j) w) (set_pte pdp i (pd i OR 3) w) [0 ..< 512]"
  have 0: "directories pml4 pdp pd 0 (set_pte pml4 0 (pdp OR 3) w)" using l by (simp add: directories_def)
  have "n \<le> kPageDirectoryCount \<Longrightarrow> directories pml4 pdp pd n (foldl ?f (set_pte pml4 0 (pdp OR 3) w) [0 ..< n])" for n
    by (induction n) (simp_all add: 0 directories_next [OF a])
  from this [of kPageDirectoryCount] show "directories pml4 pdp pd kPageDirectoryCount (SetupIdentityPageTable pml4 pdp pd w)"
    by (simp add: SetupIdentityPageTable_def directories_def get_pte_def)
  show "cr3 (SetupIdentityPageTable pml4 pdp pd w) = pml4" by (simp add: SetupIdentityPageTable_def)
qed

section \<open>Addresses of the kernel\<close>

lemma of_nat_Part: "k \<le> 4 \<Longrightarrow> of_nat (Part k a) = take_bit (part_width k) (drop_bit (part_shift k) a)"
  by (simp add: Part_def)

lemma identity_bits:
  "(of_nat (Part 3 a) * kPageSize1G + of_nat (Part 2 a) * kPageSize2M :: u64) =
   push_bit 30 (take_bit 9 (drop_bit 30 a)) OR push_bit 21 (take_bit 9 (drop_bit 21 a))"
proof -
  let ?x = "push_bit 30 (take_bit 9 (drop_bit 30 a))" and ?y = "push_bit 21 (take_bit 9 (drop_bit 21 a))"
  have "?x AND ?y = 0" by (intro bit_word_eqI) (auto simp: bit_simps)
  then have "?x + ?y = ?x OR ?y" by (rule disjunctive_add_eq_or)
  moreover have "of_nat (Part 3 a) * kPageSize1G = ?x" "of_nat (Part 2 a) * kPageSize2M = ?y"
    by (simp_all add: of_nat_Part part_width_def part_shift_def kPageSize1G_def kPageSize2M_def kPageSize4K_def push_bit_eq_mult)
  ultimately show ?thesis by simp
qed

lemma low_bits: "a < 0x1000000000 \<Longrightarrow> 36 \<le> n \<Longrightarrow> \<not> bit a n" for a :: u64
proof -
  assume a: "a < 0x1000000000" and n: "36 \<le> n"
  have "unat a < 2 ^ 36" using a by (simp add: word_less_nat_alt)
  then have "unat (drop_bit 36 a) = 0" by (simp add: drop_bit_eq_div unat_div_distrib)
  then have "\<not> bit (drop_bit 36 a) (n - 36)" by (simp only: unat_eq_0) simp
  then show ?thesis using n by (simp add: bit_drop_bit_eq)
qed

text \<open>The entries on the way to an address below 64 GiB, and where the last one leads.\<close>

lemma identity_pointer:
  assumes "a < 0x1000000000"
  shows "Pointer (identity_entry (Part 3 a) (Part 2 a)) = a AND NOT (mask 21)" "present (identity_entry i j)"
    "bit (identity_entry (Part 3 a) (Part 2 a)) 7" "\<not> user (identity_entry (Part 3 a) (Part 2 a))"
proof -
  have e: "identity_entry (Part 3 a) (Part 2 a) = (push_bit 30 (take_bit 9 (drop_bit 30 a)) OR push_bit 21 (take_bit 9 (drop_bit 21 a))) OR 0x83"
    by (simp add: identity_entry_def identity_bits)
  have b: "bit (0x83 :: u64) n \<longleftrightarrow> n \<in> {0, 1, 7}" for n
  proof -
    have eq: "(0x83 :: u64) = set_bit 7 (set_bit 1 (set_bit 0 0))" by (simp add: set_bit_eq_or push_bit_eq_mult)
    show ?thesis unfolding eq by (auto simp: bit_simps)
  qed
  show "present (identity_entry i j)" by (simp add: present_def identity_entry_def bit_or_iff b)
  show "bit (identity_entry (Part 3 a) (Part 2 a)) 7" "\<not> user (identity_entry (Part 3 a) (Part 2 a))"
    by (simp_all add: e bit_or_iff b user_def bit_push_bit_iff)
  show "Pointer (identity_entry (Part 3 a) (Part 2 a)) = a AND NOT (mask 21)"
  proof (rule bit_word_eqI)
    fix n :: nat
    show "bit (Pointer (identity_entry (Part 3 a) (Part 2 a))) n = bit (a AND NOT (mask 21)) n" if "n < LENGTH(64)"
    proof (cases "36 \<le> n")
      case True
      then show ?thesis using low_bits [OF assms True] that unfolding e Pointer_def by (auto simp: bit_simps b)
    next
      case False
      then show ?thesis using that unfolding e Pointer_def by (auto simp: bit_simps b)
    qed
  qed
qed

lemma kernel_parts:
  assumes "a < 0x1000000000"
  shows "Part 4 a = 0" "Part 3 a < kPageDirectoryCount" "Part 2 a < 512"
proof -
  have "take_bit 9 (drop_bit 39 a) = 0" by (intro bit_word_eqI) (auto simp: bit_simps low_bits [OF assms])
  then show "Part 4 a = 0" by (simp add: Part_def part_width_def part_shift_def)
  have "take_bit 9 (drop_bit 30 a) = take_bit 6 (drop_bit 30 a)"
  proof (rule bit_word_eqI)
    fix n
    have "n < 6 \<or> \<not> bit a (30 + n)" using low_bits [OF assms, of "30 + n"] by linarith
    then show "bit (take_bit 9 (drop_bit 30 a)) n = bit (take_bit 6 (drop_bit 30 a)) n" by (auto simp: bit_simps)
  qed
  then have "Part 3 a = unat (take_bit 6 (drop_bit 30 a))" by (simp add: Part_def part_width_def part_shift_def)
  then show "Part 3 a < kPageDirectoryCount"
    using take_bit_nat_less_exp [of 6 "unat (drop_bit 30 a)"] by (simp add: kPageDirectoryCount_def unsigned_take_bit_eq)
  show "Part 2 a < 512" using Part_less [of 1 a] by (simp add: numeral_2_eq_2)
qed

lemma table_pointer: "page_addr p \<Longrightarrow> Pointer (p OR 3) = p" "present (p OR 3)"
proof -
  have b: "bit (3 :: u64) n \<longleftrightarrow> n \<in> {0, 1}" for n
  proof -
    have eq: "(3 :: u64) = set_bit 1 (set_bit 0 0)" by (simp add: set_bit_eq_or push_bit_eq_mult)
    show ?thesis unfolding eq by (auto simp: bit_simps)
  qed
  have "Pointer (p OR 3) = Pointer p" by (intro bit_word_eqI) (auto simp: Pointer_def bit_simps b)
  then show "page_addr p \<Longrightarrow> Pointer (p OR 3) = p" by (simp add: page_addr_def)
  show "present (p OR 3)" by (simp add: present_def bit_or_iff b)
qed

text \<open>
  The user's tables share the kernel's through the entry 0 of the table of level 4. The processor stops at the entry of
  level 2, which maps 2 MiB; \<^verbatim>\<open>SetPageContent\<close> follows it as if it led to a table.
\<close>

definition kernel_half :: "u64 \<Rightarrow> (nat \<Rightarrow> u64) \<Rightarrow> paging_state \<Rightarrow> bool" where
  "kernel_half pdp pd w \<longleftrightarrow> get_pte (cr3 w) 0 w = pdp OR 3 \<and> page_addr pdp \<and> (\<forall>i < kPageDirectoryCount. page_addr (pd i)) \<and>
     (\<forall>i < kPageDirectoryCount. get_pte pdp i w = pd i OR 3 \<and> page_mem w (pd i) = map (identity_entry i) [0 ..< 512])"

lemma SetPageContent_kernel:
  assumes k: "kernel_half pdp pd w" and a: "a < 0x1000000000"
  shows "SetPageContent (cr3 w) 4 a c w = SetPageContent (a AND NOT (mask 21)) 1 a c w"
proof -
  note P = kernel_parts [OF a]
  have e: "get_pte (pd (Part 3 a)) (Part 2 a) w = identity_entry (Part 3 a) (Part 2 a)"
    using k P(2,3) by (simp add: kernel_half_def get_pte_def)
  have three: "4 = Suc (Suc (Suc (Suc 0)))" by simp
  have "Part (Suc (Suc (Suc (Suc 0)))) a = Part 4 a" "Part (Suc (Suc (Suc 0))) a = Part 3 a" "Part (Suc (Suc 0)) a = Part 2 a"
    by (simp_all add: numeral_2_eq_2 numeral_3_eq_3 three)
  then have "SetPageContent (cr3 w) 4 a c w = SetPageContent (Pointer (get_pte (pd (Part 3 a)) (Part 2 a) w)) (Suc 0) a c w"
    using k P table_pointer unfolding three kernel_half_def by (simp add: Let_def)
  then show ?thesis using identity_pointer(1) [OF a] by (simp add: e)
qed

section \<open>A concrete kernel\<close>

text \<open>The tables in the frames 1 to 66, made in a state where the frames up to there are in use.\<close>

definition bare_state :: paging_state where
  "bare_state = \<lparr>frame_pool = new_frame_manager\<lparr>alloc_map := (\<lambda>i. 0)(0 := - 1, 1 := 7)\<rparr>,
     page_mem = (\<lambda>p. replicate 512 0), cr3 = 0\<rparr>"

definition kernel_pd :: "nat \<Rightarrow> u64" where
  "kernel_pd i = frame_addr (3 + i)"

definition kernel_state :: paging_state where
  "kernel_state = SetupIdentityPageTable (frame_addr 1) (frame_addr 2) kernel_pd bare_state"

lemma kernel_tables:
  "apart_tables (frame_addr 1) (frame_addr 2) kernel_pd" "page_addr (frame_addr 2)" "\<forall>i < kPageDirectoryCount. page_addr (kernel_pd i)"
proof -
  have k: "i < kPageDirectoryCount \<Longrightarrow> 3 + i < kFrameCount" for i by (simp add: kPageDirectoryCount_def kFrameCount_def)
  have s: "1 < kFrameCount" "2 < kFrameCount" by (simp_all add: kFrameCount_def)
  show "apart_tables (frame_addr 1) (frame_addr 2) kernel_pd"
    using k s by (auto simp: apart_tables_def kernel_pd_def frame_addr_inj inj_on_def)
  show "page_addr (frame_addr 2)" "\<forall>i < kPageDirectoryCount. page_addr (kernel_pd i)"
    using k s frame_addr_page by (simp_all add: kernel_pd_def)
qed

lemma bare_lengths: "length (page_mem bare_state p) = 512"
  by (simp add: bare_state_def)

lemma foldl_keeps: "(\<And>w i. f (g w i) = f w) \<Longrightarrow> f (foldl g w is) = f w"
  by (induction "is" arbitrary: w) simp_all

lemma kernel_frames: "frame_pool kernel_state = frame_pool bare_state"
  unfolding kernel_state_def SetupIdentityPageTable_def Let_def by (simp add: foldl_keeps)

lemma kernel_state_ok:
  "kernel_half (frame_addr 2) kernel_pd kernel_state" "cr3 kernel_state = frame_addr 1"
  "frames_ok (frame_pool kernel_state)" "\<not> out_of_frames kernel_state" "f \<le> 66 \<Longrightarrow> frame_addr f \<in> used_pages kernel_state"
proof -
  note D = SetupIdentityPageTable_directories [OF kernel_tables(1) bare_lengths bare_lengths]
  show c: "cr3 kernel_state = frame_addr 1" using D(2) bare_lengths by (simp add: kernel_state_def)
  show "kernel_half (frame_addr 2) kernel_pd kernel_state"
    using D(1) bare_lengths kernel_tables(2,3) c by (simp add: kernel_half_def directories_def kernel_state_def)
  show "frames_ok (frame_pool kernel_state)"
    by (simp add: kernel_frames bare_state_def frames_ok_def new_frame_manager_def kFrameCount_def)
  have b: "bit (7 :: u64) n \<longleftrightarrow> n < 3" for n
  proof -
    have eq: "(7 :: u64) = mask 3" by (simp add: mask_eq_exp_minus_1)
    show ?thesis unfolding eq by (auto simp: bit_simps)
  qed
  have "100 \<notin> used_frames (frame_pool kernel_state)" by (simp add: kernel_frames bare_state_def used_frames_def b)
  moreover have "frames_of (100, 1) = {100}" by (auto simp: frames_of_def)
  ultimately have "free_run (frame_pool kernel_state) 1 100"
    unfolding free_run_def by (simp add: kernel_frames bare_state_def new_frame_manager_def kFrameCount_def)
  then show "\<not> out_of_frames kernel_state" by (auto simp: out_of_frames_def)
  assume f: "f \<le> 66"
  have "f \<in> used_frames (frame_pool kernel_state)"
  proof (cases "f < 64")
    case True
    then show ?thesis by (simp add: kernel_frames bare_state_def used_frames_def kFrameCount_def bit_simps)
  next
    case False
    then have "f = 64 \<or> f = 65 \<or> f = 66" using f by auto
    then have "f div 64 = 1" "f mod 64 < 3" by auto
    then show ?thesis using f b [of "f mod 64"] by (simp add: kernel_frames bare_state_def used_frames_def kFrameCount_def)
  qed
  then show "frame_addr f \<in> used_pages kernel_state" by (auto simp: used_pages_def)
qed

section \<open>Properties\<close>

text \<open>
  The kernel's tables map the first 64 GiB to themselves. For an address below 64 GiB the tables lead, through
  two tables, to an entry for a page of 2 MiB that starts at the address rounded down, which the user may not reach.
\<close>

lemma identity_mapping:
  assumes "apart_tables pml4 pdp pd" "page_addr pdp" "\<forall>i < kPageDirectoryCount. page_addr (pd i)"
    and "length (page_mem w pml4) = 512" "length (page_mem w pdp) = 512" "\<forall>i < kPageDirectoryCount. length (page_mem w (pd i)) = 512"
    and "a < 0x1000000000" "w' = SetupIdentityPageTable pml4 pdp pd w"
  shows "\<exists>e4 e3 e2. get_pte (cr3 w') (Part 4 a) w' = e4 \<and> get_pte (Pointer e4) (Part 3 a) w' = e3 \<and>
    get_pte (Pointer e3) (Part 2 a) w' = e2 \<and> present e4 \<and> present e3 \<and> present e2 \<and> bit e2 7 \<and> \<not> user e2 \<and>
    Pointer e2 = a AND NOT (mask 21)"
proof -
  from SetupIdentityPageTable_directories [OF assms(1,4-6)] assms(8)
  have d: "directories pml4 pdp pd kPageDirectoryCount w'" "cr3 w' = pml4" by simp_all
  note P = kernel_parts [OF assms(7)]
  have "get_pte (cr3 w') (Part 4 a) w' = pdp OR 3" "get_pte pdp (Part 3 a) w' = pd (Part 3 a) OR 3"
    "get_pte (pd (Part 3 a)) (Part 2 a) w' = identity_entry (Part 3 a) (Part 2 a)"
    using d P by (simp_all add: directories_def get_pte_def)
  moreover have "Pointer (pdp OR 3) = pdp" "Pointer (pd (Part 3 a) OR 3) = pd (Part 3 a)"
    using table_pointer(1) assms(2,3) P(2) by simp_all
  ultimately show ?thesis using table_pointer(2) identity_pointer [OF assms(7)] by simp
qed

lemma identity_mapping_witness:
  "\<exists>e4 e3 e2. get_pte (cr3 kernel_state) (Part 4 0x12345678) kernel_state = e4 \<and>
    get_pte (Pointer e4) (Part 3 0x12345678) kernel_state = e3 \<and> get_pte (Pointer e3) (Part 2 0x12345678) kernel_state = e2 \<and>
    bit e2 7 \<and> Pointer e2 = 0x12200000"
proof -
  have "0x12345678 < (0x1000000000 :: u64)" by simp
  moreover have "(0x12345678 AND NOT (mask 21) :: u64) = 0x12200000" by (simp add: mask_eq_exp_minus_1)
  ultimately show ?thesis
    using identity_mapping [OF kernel_tables bare_lengths bare_lengths, of "0x12345678" kernel_state] bare_lengths
    by (auto simp: kernel_state_def)
qed

text \<open>
  C32: a write of the user to an address of the kernel. The processor reports a page that is there and a write of
  the user, so the handler takes it for a write to a shared page. It makes a copy of the kernel's page and enters it
  in what it takes for the last table, but this is the memory of the kernel at the start of the 2 MiB around the
  address: a word there is overwritten and the fault counts as handled.
\<close>

theorem kernel_memory_overwritten:
  assumes "kernel_half pdp pd w" "a < 0x1000000000" "bit code 0" "bit code 1" "bit code 2"
    and "frames_ok (frame_pool w)" "\<not> out_of_frames w" "a AND NOT (mask 21) \<in> used_pages w" "cr3 w \<in> used_pages w"
      "pdp \<in> used_pages w" "\<forall>i < kPageDirectoryCount. pd i \<in> used_pages w"
  shows "\<exists>p w'. HandlePageFault t code a w = Some (kSuccess, w') \<and> p \<notin> used_pages w \<and>
    page_mem w' (a AND NOT (mask 21)) = (page_mem w (a AND NOT (mask 21)))[Part 1 a := set_flag 1 True (SetPointer p
      (page_mem w (a AND NOT (mask 21)) ! Part 1 a))]"
proof -
  let ?b = "a AND NOT (mask 21)"
  from NewPageMap_ok [OF assms(6)] assms(7) obtain p w1 where n: "NewPageMap w = Some (Inr p, w1)" "cr3 w1 = cr3 w"
    "p \<notin> used_pages w" "page_mem w1 = (page_mem w)(p := replicate 512 0)" by (metis sum.exhaust)
  define v where "v = a AND NOT (mask 12)"
  have "v < 0x1000000000" using assms(2) word_and_le2 [of a "NOT (mask 12)"] by (simp add: v_def)
  then have "virtual_page v w1 = Some v" by (simp add: virtual_page_def v_def)
  moreover define w2 where "w2 = w1\<lparr>page_mem := (page_mem w1)(p := page_mem w1 v)\<rparr>"
  ultimately have run: "CopyOnePage a w = SetPageContent (cr3 w2) 4 a p w2"
    using n(1) by (simp add: CopyOnePage_def page_bits v_def Let_def)
  have mem: "page_mem w2 q = page_mem w q" if "q \<in> used_pages w" for q using that n(3,4) by (auto simp: w2_def)
  have "kernel_half pdp pd w2"
    using assms(1,9-11) mem n(2) unfolding kernel_half_def get_pte_def by (simp add: w2_def)
  then have "CopyOnePage a w = SetPageContent ?b 1 a p w2" using SetPageContent_kernel assms(2) run by simp
  then obtain w' where r: "CopyOnePage a w = Some (kSuccess, w')" "page_mem w' ?b =
      (page_mem w2 ?b)[Part 1 a := set_flag 1 True (get_pte ?b (Part 1 a) (set_pte ?b (Part 1 a) (SetPointer p (get_pte ?b (Part 1 a) w2)) w2))]"
    by (simp add: Let_def set_pte_def)
  have "page_mem w' ?b = (page_mem w ?b)[Part 1 a := set_flag 1 True (SetPointer p (page_mem w ?b ! Part 1 a))]"
    unfolding r(2) mem [OF assms(8)]
    by (cases "Part 1 a < length (page_mem w ?b)") (simp_all add: mem [OF assms(8)] get_pte_def set_pte_def list_update_beyond)
  moreover have "HandlePageFault t code a w = Some (kSuccess, w')" using r(1) assms(3-5) by (simp add: HandlePageFault_def)
  ultimately show ?thesis using n(3) by blast
qed


theorem kernel_memory_overwritten_witness:
  "\<exists>p w'. HandlePageFault no_files 7 0x100000 kernel_state = Some (kSuccess, w') \<and> p \<notin> used_pages kernel_state \<and>
    page_mem w' 0 = (page_mem kernel_state 0)[256 := set_flag 1 True (SetPointer p (page_mem kernel_state 0 ! 256))]"
proof -
  have a: "0x100000 < (0x1000000000 :: u64)" by simp
  have b: "bit (7 :: u64) 0" "bit (7 :: u64) 1" "bit (7 :: u64) 2" by (simp_all add: bit_iff_odd)
  have z: "(0x100000 AND NOT (mask 21) :: u64) = 0" by (simp add: mask_eq_exp_minus_1)
  have part: "Part 1 0x100000 = 256" by (simp add: Part_def part_shift_def part_width_def take_bit_eq_mod)
  have "frame_addr 0 = 0" by (simp add: frame_addr_def)
  then have u: "0x100000 AND NOT (mask 21) \<in> used_pages kernel_state" "cr3 kernel_state \<in> used_pages kernel_state"
    "frame_addr 2 \<in> used_pages kernel_state" "\<forall>i < kPageDirectoryCount. kernel_pd i \<in> used_pages kernel_state"
    using kernel_state_ok(5) [of 0] kernel_state_ok(5) [of 1] kernel_state_ok(5) [of 2] kernel_state_ok(5)
    by (simp_all add: z kernel_state_ok(2) kernel_pd_def kPageDirectoryCount_def)
  from kernel_memory_overwritten [OF kernel_state_ok(1) a b kernel_state_ok(3,4) u, of no_files] show ?thesis
    unfolding z part .
qed

end
