(* ===== verification/UsbMemory.thy ===== *)
theory UsbMemory
  imports MemoryManager
begin

text \<open>
  The memory of the USB host controller driver (\<^verbatim>\<open>src/kernel/usb/memory.cpp\<close>): rings, contexts
  and buffers the controller reads are cut from a static pool by a pointer that only moves
  forward; \<^verbatim>\<open>FreeMem\<close> does nothing.  A block is aligned, and is moved to the next boundary when it
  would cross one.  Addresses and sizes are 64-bit words, as \<^verbatim>\<open>uintptr_t\<close> and \<^verbatim>\<open>size_t\<close>.
\<close>

section \<open>The pool\<close>

definition kMemoryPoolSize :: u64 where
  "kMemoryPoolSize = 4096 * 32"

record usb_pool =
  memory_pool :: u64
  alloc_ptr :: u64

definition Ceil :: "u64 \<Rightarrow> u32 \<Rightarrow> u64" where
  "Ceil value alignment = (value + ucast alignment - 1) AND NOT (ucast (alignment - 1))"

text \<open>A null pointer is the address 0.  The allocation pointer keeps the alignment also when there is no room.\<close>

definition AllocMem :: "u64 \<Rightarrow> u32 \<Rightarrow> u32 \<Rightarrow> usb_pool \<Rightarrow> u64 \<times> usb_pool" where
  "AllocMem n alignment boundary p =
    (let a1 = (if 0 < alignment then Ceil (alloc_ptr p) alignment else alloc_ptr p);
         a2 = (if 0 < boundary
               then (let next_boundary = Ceil a1 boundary
                     in if next_boundary < a1 + n then next_boundary else a1)
               else a1)
     in if memory_pool p + kMemoryPoolSize < a2 + n
        then (0, p\<lparr>alloc_ptr := a2\<rparr>)
        else (a2, p\<lparr>alloc_ptr := a2 + n\<rparr>))"

definition FreeMem :: "u64 \<Rightarrow> usb_pool \<Rightarrow> usb_pool" where
  "FreeMem a p = p"

text \<open>\<^verbatim>\<open>AllocArray<T>\<close>, with the size of \<^verbatim>\<open>T\<close> as an argument.\<close>

definition AllocArray :: "u64 \<Rightarrow> u64 \<Rightarrow> u32 \<Rightarrow> u32 \<Rightarrow> usb_pool \<Rightarrow> u64 \<times> usb_pool" where
  "AllocArray size_of num_obj alignment boundary p = AllocMem (size_of * num_obj) alignment boundary p"

section \<open>Rounding up\<close>

definition ceil_to :: "nat \<Rightarrow> nat \<Rightarrow> nat" where
  "ceil_to b n = (n + (b - 1)) div b * b"

lemma ceil_to_ge: "0 < b \<Longrightarrow> n \<le> ceil_to b n"
proof -
  assume b: "0 < b"
  have "(n + (b - 1)) div b * b + (n + (b - 1)) mod b = n + (b - 1)" by simp
  moreover have "(n + (b - 1)) mod b \<le> b - 1" using b mod_less_divisor [of b "n + (b - 1)"] by linarith
  ultimately show ?thesis unfolding ceil_to_def by linarith
qed

lemma ceil_to_le: "ceil_to b n \<le> n + (b - 1)"
  unfolding ceil_to_def by (rule div_times_less_eq_dividend)

lemma ceil_to_dvd [simp]: "b dvd ceil_to b n"
  by (simp add: ceil_to_def)

lemma ceil_to_least: assumes "0 < b" "b dvd m" "n \<le> m" shows "ceil_to b n \<le> m"
proof -
  obtain k where m: "m = k * b" using assms(2) by (auto simp: dvd_def mult.commute)
  have "n + (b - 1) < (k + 1) * b" using assms(1,3) by (simp add: m add.commute)
  then have "(n + (b - 1)) div b < k + 1" by (rule less_mult_imp_div_less)
  then have "(n + (b - 1)) div b \<le> k" by linarith
  then show ?thesis unfolding ceil_to_def m by (rule mult_le_mono1)
qed

lemma unat_clear_low:
  fixes w :: u64
  shows "unat (w AND NOT (mask k)) = unat w div 2 ^ k * 2 ^ k"
proof -
  have "w AND NOT (mask k) = push_bit k (drop_bit k w)"
    by (rule bit_word_eqI) (auto simp: bit_simps)
  also have "unat \<dots> = take_bit 64 (push_bit k (drop_bit k (take_bit 64 (unat w))))"
    by (simp add: unsigned_push_bit_eq unsigned_drop_bit_eq)
  also have "take_bit 64 (unat w) = unat w"
    by (rule take_bit_nat_eq_self) (use unsigned_less [of w] in simp)
  also have "take_bit 64 (push_bit k (drop_bit k (unat w))) = unat w div 2 ^ k * 2 ^ k"
  proof -
    have "unat w div 2 ^ k * 2 ^ k \<le> unat w" by (rule div_times_less_eq_dividend)
    also have "unat w < 2 ^ 64" using unsigned_less [of w] by simp
    finally show ?thesis by (simp add: push_bit_eq_mult drop_bit_eq_div take_bit_eq_mod)
  qed
  finally show ?thesis .
qed

lemma unat_Ceil:
  assumes k: "k < 32" and room: "unat v + 2 ^ k \<le> 2 ^ 64"
  shows "unat (Ceil v (2 ^ k)) = ceil_to (2 ^ k) (unat v)"
proof -
  have "ucast ((2::u32) ^ k - 1) = (mask k :: u64)"
  proof -
    have "(2::u32) ^ k - 1 = mask k" by (simp add: mask_eq_exp_minus_1)
    moreover have "ucast (mask k :: u32) = (mask k :: u64)"
      using k by (intro bit_word_eqI) (auto simp: bit_simps)
    ultimately show ?thesis by simp
  qed
  moreover have "ucast ((2::u32) ^ k) = (2 ^ k :: u64)"
    using k by (intro bit_word_eqI) (auto simp: bit_simps)
  moreover have "unat (v + 2 ^ k - 1) = unat v + (2 ^ k - 1)"
  proof -
    have p: "unat ((2::u64) ^ k - 1) = 2 ^ k - 1"
    proof -
      have q: "unat ((2::u64) ^ k) = 2 ^ k" 
      proof -
        have "(2::nat) ^ k < 2 ^ 64" using k by (intro power_strict_increasing) simp_all
        then have "unat (of_nat (2 ^ k) :: u64) = 2 ^ k" using k by (simp add: unsigned_of_nat take_bit_nat_eq_self del: of_nat_power)
        then show ?thesis by (simp only: of_nat_power of_nat_numeral)
      qed
      then have "1 \<le> (2::u64) ^ k" by (simp add: word_le_nat_alt)
      with q show ?thesis by (simp add: unat_sub)
    qed
    have "v + 2 ^ k - 1 = v + (2 ^ k - 1)" by simp
    also have "unat \<dots> = unat v + unat ((2::u64) ^ k - 1)"
    proof (rule unat_add_lem [THEN iffD1])
      have "0 < (2::nat) ^ k" by simp
      then show "unat v + unat ((2::u64) ^ k - 1) < 2 ^ LENGTH(64)" unfolding p using room by simp
    qed
    also have "\<dots> = unat v + (2 ^ k - 1)" by (simp only: p)
    finally show ?thesis .
  qed
  ultimately show ?thesis by (simp only: Ceil_def unat_clear_low ceil_to_def)
qed

section \<open>What a request gets\<close>

text \<open>
  The requests of the driver: sizes below 4 GiB, alignments and boundaries 0 (none) or a power of
  two up to 64 KiB.  The pool lies at some distance from the end of the address space.
\<close>

definition pow2_upto :: "u32 \<Rightarrow> bool" where
  "pow2_upto a \<longleftrightarrow> a = 0 \<or> (\<exists>k \<le> 16. a = 2 ^ k)"

definition request_ok :: "u64 \<times> u32 \<times> u32 \<Rightarrow> bool" where
  "request_ok r = (case r of (n, alignment, boundary) \<Rightarrow>
     unat n < 2 ^ 32 \<and> pow2_upto alignment \<and> pow2_upto boundary)"

definition usb_pool_ok :: "usb_pool \<Rightarrow> bool" where
  "usb_pool_ok p \<longleftrightarrow> 0 < memory_pool p \<and> unat (memory_pool p) + 2 ^ 33 \<le> 2 ^ 64 \<and>
     memory_pool p \<le> alloc_ptr p \<and>
     unat (alloc_ptr p) \<le> ceil_to 65536 (unat (memory_pool p) + 131072)"

definition block_ok :: "usb_pool \<Rightarrow> u64 \<times> u32 \<times> u32 \<Rightarrow> u64 \<Rightarrow> bool" where
  "block_ok p r q = (case r of (n, alignment, boundary) \<Rightarrow>
     unat (memory_pool p) \<le> unat q \<and> unat q + unat n \<le> unat (memory_pool p) + 131072 \<and>
     (0 < alignment \<and> (boundary = 0 \<or> alignment \<le> boundary) \<longrightarrow> unat alignment dvd unat q) \<and>
     (0 < boundary \<and> unat n \<le> unat boundary \<longrightarrow>
        unat q + unat n \<le> unat q div unat boundary * unat boundary + unat boundary))"

lemma unat_pow2_u32: "k \<le> 16 \<Longrightarrow> unat ((2::u32) ^ k) = 2 ^ k"
proof -
  assume k: "k \<le> 16"
  have "(2::nat) ^ k < 2 ^ 32" using k by (intro power_strict_increasing) simp_all
  then have "unat (of_nat (2 ^ k) :: u32) = 2 ^ k"
    using k by (simp add: unsigned_of_nat take_bit_nat_eq_self del: of_nat_power)
  then show ?thesis by (simp only: of_nat_power of_nat_numeral)
qed

lemma ceil_to_span:
  assumes "0 < b" shows "ceil_to b n \<le> n div b * b + b"
proof (rule ceil_to_least [OF assms])
  show "n \<le> n div b * b + b" using div_mult_mod_eq [of n b] mod_less_divisor [OF assms, of n] by linarith
qed simp

text \<open>Rounding to a power of two never passes the next multiple of a larger one.\<close>

lemma ceil_to_pow2_bound:
  assumes "k \<le> 16" "n \<le> ceil_to 65536 m" shows "ceil_to (2 ^ k) n \<le> ceil_to 65536 m"
proof (rule ceil_to_least)
  have "(2::nat) ^ k dvd 2 ^ 16" using assms(1) by (rule le_imp_power_dvd)
  then have "(2::nat) ^ k dvd 65536" by simp
  then show "2 ^ k dvd ceil_to 65536 m" by (rule dvd_trans) simp
qed (use assms(2) in simp_all)

definition round_ptr :: "u32 \<Rightarrow> u64 \<Rightarrow> u64" where
  "round_ptr b v = (if 0 < b then Ceil v b else v)"

lemma round_ptr_bounds:
  assumes b: "pow2_upto b" and v: "unat v \<le> ceil_to 65536 m" and m: "m + 2 ^ 32 \<le> 2 ^ 64"
  shows "unat v \<le> unat (round_ptr b v)" and "unat (round_ptr b v) \<le> ceil_to 65536 m"
    and "0 < b \<Longrightarrow> unat (round_ptr b v) = ceil_to (unat b) (unat v)"
proof -
  have "unat v \<le> unat (round_ptr b v) \<and> unat (round_ptr b v) \<le> ceil_to 65536 m \<and>
    (0 < b \<longrightarrow> unat (round_ptr b v) = ceil_to (unat b) (unat v))"
  proof (cases "b = 0")
    case True
    then show ?thesis using v by (simp add: round_ptr_def)
  next
    case False
    then obtain k where k: "k \<le> 16" "b = 2 ^ k" using b by (auto simp: pow2_upto_def)
    have u: "unat b = 2 ^ k" using k by (simp add: unat_pow2_u32)
    have "ceil_to 65536 m \<le> m + 65535" using ceil_to_le [of 65536 m] by simp
    moreover have "(2::nat) ^ k \<le> 2 ^ 16" using k(1) by (intro power_increasing) simp_all
    ultimately have "unat v + 2 ^ k \<le> 2 ^ 64" using v m by simp
    then have c: "unat (Ceil v b) = ceil_to (2 ^ k) (unat v)" unfolding k(2) using k(1) by (intro unat_Ceil) simp_all
    have "0 < b" using False by (simp add: word_gt_0)
    then have r: "round_ptr b v = Ceil v b" by (simp add: round_ptr_def)
    have "unat v \<le> ceil_to (2 ^ k) (unat v)" by (rule ceil_to_ge) simp
    moreover have "ceil_to (2 ^ k) (unat v) \<le> ceil_to 65536 m" using k(1) v by (rule ceil_to_pow2_bound)
    ultimately show ?thesis by (simp add: r c u)
  qed
  then show "unat v \<le> unat (round_ptr b v)" "unat (round_ptr b v) \<le> ceil_to 65536 m"
    "0 < b \<Longrightarrow> unat (round_ptr b v) = ceil_to (unat b) (unat v)" by blast+
qed

lemma AllocMem_round:
  "AllocMem n alignment boundary p =
    (let a1 = round_ptr alignment (alloc_ptr p);
         a2 = (if round_ptr boundary a1 < a1 + n then round_ptr boundary a1 else a1)
     in if memory_pool p + kMemoryPoolSize < a2 + n
        then (0, p\<lparr>alloc_ptr := a2\<rparr>) else (a2, p\<lparr>alloc_ptr := a2 + n\<rparr>))"
  by (simp add: AllocMem_def round_ptr_def Let_def)

text \<open>Below the bound, adding a size does not wrap.\<close>

lemma unat_add_size: "unat v \<le> ceil_to 65536 m \<Longrightarrow> m + 2 ^ 33 \<le> 2 ^ 64 + 131072 \<Longrightarrow> unat n < 2 ^ 32 \<Longrightarrow>
    unat (v + n) = unat v + unat n" for v n :: u64
proof -
  assume a: "unat v \<le> ceil_to 65536 m" "m + 2 ^ 33 \<le> 2 ^ 64 + 131072" "unat n < 2 ^ 32"
  have "ceil_to 65536 m \<le> m + 65535" using ceil_to_le [of 65536 m] by simp
  with a have "unat v + unat n < 2 ^ LENGTH(64)" by simp
  then show ?thesis by (rule unat_add_lem [THEN iffD1])
qed

lemma pow2_upto_dvd:
  assumes "pow2_upto a" "pow2_upto b" "0 < a" "a \<le> b" shows "unat a dvd unat b"
proof -
  have "0 < b" using assms(3,4) by simp
  then obtain j k where "j \<le> 16" "a = 2 ^ j" "k \<le> 16" "b = 2 ^ k"
    using assms by (auto simp: pow2_upto_def)
  moreover have "unat a \<le> unat b" using assms(4) by (simp add: word_le_nat_alt)
  ultimately show ?thesis by (simp add: unat_pow2_u32 le_imp_power_dvd)
qed

lemma AllocMem_block:
  assumes p: "usb_pool_ok p" and r: "request_ok (n, alignment, boundary)"
    and res: "AllocMem n alignment boundary p = (q, p')"
  shows "usb_pool_ok p' \<and> memory_pool p' = memory_pool p \<and> alloc_ptr p \<le> alloc_ptr p' \<and>
    (q = 0 \<and> unat (memory_pool p) + 131072 < unat (alloc_ptr p') + unat n \<or>
     q \<noteq> 0 \<and> alloc_ptr p \<le> q \<and> unat q + unat n = unat (alloc_ptr p') \<and>
     block_ok p (n, alignment, boundary) q)"
proof -
  define m where "m = unat (memory_pool p) + 131072"
  define a1 where "a1 = round_ptr alignment (alloc_ptr p)"
  define nb where "nb = round_ptr boundary a1"
  define a2 where "a2 = (if nb < a1 + n then nb else a1)"
  have al: "pow2_upto alignment" and bd: "pow2_upto boundary" and n: "unat n < 2 ^ 32"
    using r by (auto simp: request_ok_def)
  have p1: "0 < unat (memory_pool p)" "unat (memory_pool p) \<le> unat (alloc_ptr p)"
    "unat (alloc_ptr p) \<le> ceil_to 65536 m" "m + 2 ^ 33 \<le> 2 ^ 64 + 131072" "m + 2 ^ 32 \<le> 2 ^ 64"
    using p by (auto simp: usb_pool_ok_def m_def word_le_nat_alt word_less_nat_alt)
  note r1 = round_ptr_bounds [OF al p1(3,5), folded a1_def]
  note r2 = round_ptr_bounds [OF bd r1(2) p1(5), folded nb_def]
  have a2: "unat a1 \<le> unat a2" "unat a2 \<le> ceil_to 65536 m" using r1(2) r2(1,2) by (auto simp: a2_def)
  have s1: "unat (a1 + n) = unat a1 + unat n" by (rule unat_add_size [OF r1(2) p1(4) n])
  have s2: "unat (a2 + n) = unat a2 + unat n" by (rule unat_add_size [OF a2(2) p1(4) n])
  have s3: "unat (memory_pool p + kMemoryPoolSize) = m"
  proof -
    have "unat (memory_pool p) \<le> ceil_to 65536 m" using p1 by simp
    then show ?thesis using unat_add_size [of "memory_pool p" m kMemoryPoolSize] p1(4) by (simp add: kMemoryPoolSize_def m_def)
  qed
  have alg: "unat alignment dvd unat a2" if h: "0 < alignment" "boundary = 0 \<or> alignment \<le> boundary"
  proof (cases "nb < a1 + n \<and> 0 < boundary")
    case True
    then have "unat a2 = ceil_to (unat boundary) (unat a1)" using r2(3) by (simp add: a2_def)
    moreover have "unat alignment dvd unat boundary"
      using h True by (intro pow2_upto_dvd [OF al bd]) (auto simp: word_gt_0)
    ultimately show ?thesis by (simp add: dvd_trans [OF _ ceil_to_dvd])
  next
    case False
    then have "a2 = a1" using r2 by (auto simp: a2_def nb_def round_ptr_def)
    then show ?thesis using r1(3) h(1) by simp
  qed
  have crs: "unat a2 + unat n \<le> unat a2 div unat boundary * unat boundary + unat boundary"
    if h: "0 < boundary" "unat n \<le> unat boundary"
  proof (cases "nb < a1 + n")
    case True
    then have "unat boundary dvd unat a2" using r2(3) h(1) by (simp add: a2_def)
    then show ?thesis using h(2) by simp
  next
    case False
    then have "unat a1 + unat n \<le> ceil_to (unat boundary) (unat a1)"
      using r2(3) h(1) s1 by (simp add: word_less_nat_alt)
    also have "\<dots> \<le> unat a1 div unat boundary * unat boundary + unat boundary"
      using h(1) by (intro ceil_to_span) (simp add: word_less_nat_alt)
    finally show ?thesis using False by (simp add: a2_def)
  qed
  have res': "(q, p') = (if memory_pool p + kMemoryPoolSize < a2 + n
        then (0, p\<lparr>alloc_ptr := a2\<rparr>) else (a2, p\<lparr>alloc_ptr := a2 + n\<rparr>))"
    using res [symmetric]
    by (simp only: AllocMem_round Let_def a1_def [symmetric] nb_def [symmetric] a2_def [symmetric])
  show ?thesis
  proof (cases "m < unat a2 + unat n")
    case True
    then have "q = 0" "p' = p\<lparr>alloc_ptr := a2\<rparr>" using res' s2 s3 by (simp_all add: word_less_nat_alt)
    then show ?thesis
      using p True a2 r1(1) p1 by (auto simp: usb_pool_ok_def m_def word_le_nat_alt)
  next
    case False
    then have q: "q = a2" "p' = p\<lparr>alloc_ptr := a2 + n\<rparr>" using res' s2 s3 by (simp_all add: word_less_nat_alt)
    have "m \<le> ceil_to 65536 m" by (rule ceil_to_ge) simp
    then have "usb_pool_ok p'"
      using p False a2 r1(1) p1 s2 unfolding q by (auto simp: usb_pool_ok_def m_def word_le_nat_alt)
    moreover have "a2 \<noteq> 0" using a2(1) r1(1) p1 by auto
    moreover have "block_ok p (n, alignment, boundary) a2"
      using alg crs a2(1) r1(1) p1 False by (simp add: block_ok_def m_def)
    ultimately show ?thesis
      using a2(1) r1(1) s2 unfolding q by (simp add: word_le_nat_alt)
  qed
qed

section \<open>Runs of requests\<close>

fun AllocMems :: "(u64 \<times> u32 \<times> u32) list \<Rightarrow> usb_pool \<Rightarrow> u64 list \<times> usb_pool" where
  "AllocMems [] p = ([], p)"
| "AllocMems ((n, alignment, boundary) # rs) p =
    (case AllocMem n alignment boundary p of (q, p') \<Rightarrow>
       case AllocMems rs p' of (qs, p'') \<Rightarrow> (q # qs, p''))"

lemma AllocMems_blocks:
  assumes "usb_pool_ok p" "list_all request_ok rs" "AllocMems rs p = (qs, p')"
  shows "length qs = length rs \<and> usb_pool_ok p' \<and>
    (\<forall>i < length rs. qs ! i \<noteq> 0 \<longrightarrow> alloc_ptr p \<le> qs ! i \<and> block_ok p (rs ! i) (qs ! i)) \<and>
    (\<forall>i j. i < j \<longrightarrow> j < length rs \<longrightarrow> qs ! i \<noteq> 0 \<longrightarrow> qs ! j \<noteq> 0 \<longrightarrow>
       unat (qs ! i) + unat (fst (rs ! i)) \<le> unat (qs ! j))"
  using assms
proof (induction rs p arbitrary: qs p' rule: AllocMems.induct)
  case (1 p)
  then show ?case by auto
next
  case (2 n alignment boundary rs p)
  obtain q p1 where a: "AllocMem n alignment boundary p = (q, p1)" by fastforce
  obtain qs' p2 where b: "AllocMems rs p1 = (qs', p2)" by fastforce
  have r: "qs = q # qs'" "p' = p2" using 2(4) a b by auto
  have f: "request_ok (n, alignment, boundary)" "list_all request_ok rs" using 2(3) by auto
  note blk = AllocMem_block [OF 2(2) f(1) a]
  then have p1: "usb_pool_ok p1" "memory_pool p1 = memory_pool p" "alloc_ptr p \<le> alloc_ptr p1" by auto
  note ih = 2(1) [OF a [symmetric] p1(1) f(2) b]
  have bk: "block_ok p1 = block_ok p" using p1(2) by (auto simp: block_ok_def fun_eq_iff)
  have l: "length qs' = length rs" "usb_pool_ok p2" using ih by auto
  show ?case
  proof (intro conjI allI impI)
    show "length qs = length ((n, alignment, boundary) # rs)" "usb_pool_ok p'" using l r by auto
    fix i assume i: "i < length ((n, alignment, boundary) # rs)" "qs ! i \<noteq> 0"
    show "alloc_ptr p \<le> qs ! i"
      using i ih blk p1(3) unfolding r by (cases i) (auto intro: order_trans)
    show "block_ok p (((n, alignment, boundary) # rs) ! i) (qs ! i)"
      using i ih blk unfolding r bk by (cases i) auto
  next
    fix i j assume ij: "i < j" "j < length ((n, alignment, boundary) # rs)" "qs ! i \<noteq> 0" "qs ! j \<noteq> 0"
    then obtain j' where j: "j = Suc j'" by (cases j) auto
    show "unat (qs ! i) + unat (fst (((n, alignment, boundary) # rs) ! i)) \<le> unat (qs ! j)"
    proof (cases i)
      case 0
      then have "unat q + unat n = unat (alloc_ptr p1)" using blk ij unfolding r by auto
      moreover have "alloc_ptr p1 \<le> qs' ! j'" using ih ij unfolding r j by auto
      ultimately show ?thesis unfolding r j 0 by (simp add: word_le_nat_alt)
    next
      case (Suc i')
      then show ?thesis using ih ij unfolding r j by auto
    qed
  qed
qed

text \<open>
  From a fresh pool, however many requests are made, every block handed out lies in the pool, is
  aligned as asked, does not cross a boundary it fits in, and ends before the next block begins:
  the rings, contexts and transfer buffers of the controller never share memory, although nothing
  is ever freed; a request the pool has no room for gets the null pointer.
\<close>

lemma usb_blocks_apart:
  assumes "0 < memory_pool p" "unat (memory_pool p) + 2 ^ 33 \<le> 2 ^ 64" "alloc_ptr p = memory_pool p"
    and "list_all request_ok rs" "AllocMems rs p = (qs, p')"
  shows "length qs = length rs \<and>
    (\<forall>i < length rs. qs ! i \<noteq> 0 \<longrightarrow> block_ok p (rs ! i) (qs ! i)) \<and>
    (\<forall>i j. i < j \<and> j < length rs \<and> qs ! i \<noteq> 0 \<and> qs ! j \<noteq> 0 \<longrightarrow>
       unat (qs ! i) + unat (fst (rs ! i)) \<le> unat (qs ! j))"
proof -
  have "unat (memory_pool p) \<le> ceil_to 65536 (unat (memory_pool p) + 131072)"
    using ceil_to_ge [of 65536 "unat (memory_pool p) + 131072"] by simp
  then have "usb_pool_ok p" using assms(1-3) by (simp add: usb_pool_ok_def)
  from AllocMems_blocks [OF this assms(4,5)] show ?thesis by blast
qed

text \<open>Four requests; the last one, aligned to a page, is behind the end of the pool.\<close>

definition usb_pool_example :: usb_pool where
  "usb_pool_example = \<lparr>memory_pool = 0x200040, alloc_ptr = 0x200040\<rparr>"

lemma usb_pool_example_ok: "usb_pool_ok usb_pool_example"
  by (simp add: usb_pool_ok_def usb_pool_example_def ceil_to_def)

lemma usb_pool_example_run:
  "AllocMems [(512, 64, 65536), (0x10000, 64, 65536), (8, 0, 0), (0x10000, 4096, 4096)] usb_pool_example =
     ([0x200040, 0x210000, 0x220000, 0], usb_pool_example\<lparr>alloc_ptr := 0x221000\<rparr>)"
  by (simp add: usb_pool_example_def AllocMem_def Ceil_def kMemoryPoolSize_def Let_def)

lemma usb_blocks_apart_witness:
  "block_ok usb_pool_example (0x10000, 64, 65536) 0x210000"
proof -
  have "list_all request_ok [(512, 64, 65536), (0x10000, 64, 65536), (8, 0, 0), (0x10000, 4096, 4096)]"
  proof -
    have k: "pow2_upto 64" "pow2_upto 65536" "pow2_upto 4096" "pow2_upto 0"
      using exI [of "\<lambda>k. k \<le> 16 \<and> (64::u32) = 2 ^ k" 6] exI [of "\<lambda>k. k \<le> 16 \<and> (65536::u32) = 2 ^ k" 16]
        exI [of "\<lambda>k. k \<le> 16 \<and> (4096::u32) = 2 ^ k" 12] by (simp_all add: pow2_upto_def)
    then show ?thesis by (simp add: request_ok_def)
  qed
  from usb_blocks_apart [OF _ _ _ this usb_pool_example_run]
  have "\<forall>i < 4. [0x200040, 0x210000, 0x220000, 0] ! i \<noteq> (0 :: u64) \<longrightarrow>
    block_ok usb_pool_example ([(512, 64, 65536), (0x10000, 64, 65536), (8, 0, 0), (0x10000, 4096, 4096)] ! i)
      ([0x200040, 0x210000, 0x220000, 0] ! i)"
    by (simp add: usb_pool_example_def)
  from this [rule_format, of 1] show ?thesis by simp
qed

text \<open>The sum with the size is not checked: a size that wraps moves the pointer back.\<close>

lemma AllocMem_wraps:
  "AllocMem (- 64) 64 0 usb_pool_example = (0x200040, usb_pool_example\<lparr>alloc_ptr := 0x200000\<rparr>)"
  by (simp add: usb_pool_example_def AllocMem_def Ceil_def kMemoryPoolSize_def Let_def)

end
