(* ===== verification/XhciRing.thy ===== *)
theory XhciRing
  imports UsbMemory "HOL-Library.Monad_Syntax"
begin

text \<open>
  The rings through which the driver and the xHCI host controller talk
  (\<^verbatim>\<open>src/kernel/usb/xhci/ring.cpp\<close>, \<^verbatim>\<open>ring.hpp\<close>, and the request blocks of \<^verbatim>\<open>trb.hpp\<close>): the
  command and transfer rings the driver fills, closed by a link TRB, and the event ring the driver
  drains.  Who owns a slot is told by its cycle bit alone.  Access to a slot behind the end of a
  ring is \<open>None\<close>.
\<close>

section \<open>Transfer request blocks\<close>

text \<open>A TRB is the array \<open>data\<close> of four 32-bit words; the bit fields of the unions are parts of them.\<close>

type_synonym trb = "u32 list"

definition no_trb :: trb where
  "no_trb = [0, 0, 0, 0]"

definition trb_cycle :: "trb \<Rightarrow> bool" where
  "trb_cycle t = odd (t ! 3)"

definition trb_type :: "trb \<Rightarrow> u32" where
  "trb_type t = take_bit 6 (drop_bit 10 (t ! 3))"

definition LinkTRB :: "u64 \<Rightarrow> trb" where
  "LinkTRB p = [ucast (push_bit 4 (drop_bit 4 p)), ucast (drop_bit 32 p), 0, push_bit 10 6]"

definition LinkTRB_Pointer :: "trb \<Rightarrow> u64" where
  "LinkTRB_Pointer t = push_bit 4 (drop_bit 4 (push_bit 32 (ucast (t ! 1)) OR ucast (t ! 0)))"

definition toggle_cycle :: "trb \<Rightarrow> bool" where
  "toggle_cycle t = bit (t ! 3) 1"

section \<open>The rings the driver fills\<close>

record ring =
  rbuf :: u64
  rtrbs :: "trb list"
  rbuf_size :: nat
  rcycle_bit :: bool
  rwrite_index :: nat

definition Ring_Initialize :: "nat \<Rightarrow> ring \<Rightarrow> usb_pool \<Rightarrow> kernel_error \<times> ring \<times> usb_pool" where
  "Ring_Initialize n r p =
    (let p0 = (if rbuf r \<noteq> 0 then FreeMem (rbuf r) p else p);
         r0 = r\<lparr>rcycle_bit := True, rwrite_index := 0, rbuf_size := n\<rparr>
     in case AllocArray 16 (of_nat n) 64 (64 * 1024) p0 of (b, p1) \<Rightarrow>
          if b = 0 then (kNoEnoughMemory, r0\<lparr>rbuf := 0\<rparr>, p1)
          else (kSuccess, r0\<lparr>rbuf := b, rtrbs := replicate n no_trb\<rparr>, p1))"

text \<open>The words of a TRB are stored one at a time, the word with the cycle bit last.\<close>

definition write_word :: "nat \<Rightarrow> u32 \<Rightarrow> ring \<Rightarrow> ring option" where
  "write_word i v r =
    (if rwrite_index r < length (rtrbs r)
     then Some (r\<lparr>rtrbs := (rtrbs r)[rwrite_index r := (rtrbs r ! rwrite_index r)[i := v]]\<rparr>) else None)"

fun copy_words :: "trb \<Rightarrow> nat list \<Rightarrow> ring \<Rightarrow> ring option" where
  "copy_words d [] r = Some r"
| "copy_words d (i # is) r = do { r' \<leftarrow> write_word i (d ! i) r; copy_words d is r' }"

definition CopyToLast :: "trb \<Rightarrow> ring \<Rightarrow> ring option" where
  "CopyToLast d r = do {
     r' \<leftarrow> copy_words d [0..<3] r;
     write_word 3 ((d ! 3 AND 0xfffffffe) OR of_bool (rcycle_bit r')) r' }"

definition Ring_Push :: "trb \<Rightarrow> ring \<Rightarrow> (u64 \<times> ring) option" where
  "Ring_Push d r = do {
     let trb_ptr = rbuf r + 16 * of_nat (rwrite_index r);
     r1 \<leftarrow> CopyToLast d r;
     let r2 = r1\<lparr>rwrite_index := rwrite_index r1 + 1\<rparr>;
     if rwrite_index r2 = size_sub (rbuf_size r2) 1
     then do {
       let link = LinkTRB (rbuf r2);
       r3 \<leftarrow> CopyToLast (link[3 := link ! 3 OR push_bit 1 1]) r2;
       Some (trb_ptr, r3\<lparr>rwrite_index := 0, rcycle_bit := \<not> rcycle_bit r3\<rparr>)
     }
     else Some (trb_ptr, r2) }"

section \<open>The event ring\<close>

text \<open>
  The registers of the interrupter the driver reads back are fields: the dequeue pointer and the
  segment table registers.  Four bits of the former belong to the controller.
\<close>

record event_ring =
  ebuf :: u64
  etrbs :: "trb list"
  ebuf_size :: nat
  ecycle_bit :: bool
  erst :: u64
  ring_segment_base_address :: u64
  ring_segment_size :: u16
  ERSTSZ :: u32
  ERSTBA :: u64
  ERDP :: u64

definition ReadDequeuePointer :: "event_ring \<Rightarrow> u64" where
  "ReadDequeuePointer e = push_bit 4 (drop_bit 4 (ERDP e))"

definition WriteDequeuePointer :: "u64 \<Rightarrow> event_ring \<Rightarrow> event_ring" where
  "WriteDequeuePointer p e = e\<lparr>ERDP := (ERDP e AND mask 4) OR push_bit 4 (drop_bit 4 p)\<rparr>"

definition EventRing_Initialize :: "nat \<Rightarrow> event_ring \<Rightarrow> usb_pool \<Rightarrow> kernel_error \<times> event_ring \<times> usb_pool" where
  "EventRing_Initialize n e p =
    (let p0 = (if ebuf e \<noteq> 0 then FreeMem (ebuf e) p else p);
         e0 = e\<lparr>ecycle_bit := True, ebuf_size := n\<rparr>
     in case AllocArray 16 (of_nat n) 64 (64 * 1024) p0 of (b, p1) \<Rightarrow>
        if b = 0 then (kNoEnoughMemory, e0\<lparr>ebuf := 0\<rparr>, p1)
        else
          let e1 = e0\<lparr>ebuf := b, etrbs := replicate n no_trb\<rparr>
          in case AllocArray 16 1 64 (64 * 1024) p1 of (t, p2) \<Rightarrow>
             if t = 0 then (kNoEnoughMemory, e1\<lparr>erst := 0\<rparr>, FreeMem b p2)
             else
               let e2 = e1\<lparr>erst := t, ring_segment_base_address := b, ring_segment_size := of_nat n\<rparr>;
                   e3 = e2\<lparr>ERSTSZ := (ERSTSZ e2 AND NOT (mask 16)) OR 1\<rparr>;
                   e4 = WriteDequeuePointer b e3;
                   e5 = e4\<lparr>ERSTBA := (ERSTBA e4 AND mask 6) OR push_bit 6 (drop_bit 6 t)\<rparr>
               in (kSuccess, e5, p2))"

text \<open>The TRB a pointer into the ring points to.\<close>

definition event_at :: "u64 \<Rightarrow> event_ring \<Rightarrow> trb option" where
  "event_at a e = (let i = unat (a - ebuf e) div 16
                   in if i < length (etrbs e) then Some (etrbs e ! i) else None)"

definition Front :: "event_ring \<Rightarrow> u64" where
  "Front e = ReadDequeuePointer e"

definition HasFront :: "event_ring \<Rightarrow> bool option" where
  "HasFront e = map_option (\<lambda>t. trb_cycle t = ecycle_bit e) (event_at (Front e) e)"

definition Pop :: "event_ring \<Rightarrow> event_ring" where
  "Pop e =
    (let p = ReadDequeuePointer e + 16;
         segment_begin = ring_segment_base_address e;
         segment_end = segment_begin + 16 * ucast (ring_segment_size e)
     in if p = segment_end
        then WriteDequeuePointer segment_begin (e\<lparr>ecycle_bit := \<not> ecycle_bit e\<rparr>)
        else WriteDequeuePointer p e)"

section \<open>One store at a time\<close>

text \<open>
  Until the last of its stores, copying a TRB leaves the cycle bit of the slot as it was: the
  controller never sees a slot as its own that is only partly written.
\<close>

lemma write_word_some:
  "rwrite_index r < length (rtrbs r) \<Longrightarrow>
     write_word i v r = Some (r\<lparr>rtrbs := (rtrbs r)[rwrite_index r := (rtrbs r ! rwrite_index r)[i := v]]\<rparr>)"
  by (simp add: write_word_def)

lemma copy_words_cycle:
  assumes "copy_words d is r = Some r'" "3 \<notin> set is" "rwrite_index r < length (rtrbs r)"
  shows "trb_cycle (rtrbs r' ! i) = trb_cycle (rtrbs r ! i)"
  using assms
proof (induction d "is" r rule: copy_words.induct)
  case (2 d j js r)
  then have w: "copy_words d js (r\<lparr>rtrbs := (rtrbs r)[rwrite_index r := (rtrbs r ! rwrite_index r)[j := d ! j]]\<rparr>) = Some r'"
    by (simp add: write_word_some)
  with 2 show ?case
    by (cases "i = rwrite_index r") (auto simp: write_word_some trb_cycle_def)
qed simp

definition stamp :: "bool \<Rightarrow> trb \<Rightarrow> trb" where
  "stamp c d = [d ! 0, d ! 1, d ! 2, (d ! 3 AND 0xfffffffe) OR of_bool c]"

lemma CopyToLast_stamp:
  assumes "rwrite_index r < length (rtrbs r)" "length (rtrbs r ! rwrite_index r) = 4"
  shows "CopyToLast d r = Some (r\<lparr>rtrbs := (rtrbs r)[rwrite_index r := stamp (rcycle_bit r) d]\<rparr>)"
proof -
  obtain a b c e where t: "rtrbs r ! rwrite_index r = [a, b, c, e]"
    using assms(2) by (auto simp: numeral_eq_Suc length_Suc_conv)
  have "[0..<3] = [0, 1, 2 :: nat]" by (simp add: upt_rec)
  then show ?thesis using assms(1) t by (simp add: CopyToLast_def write_word_some stamp_def)
qed

lemma stamp_cycle [simp]: "trb_cycle (stamp c d) = c"
proof -
  have "(0xfffffffe :: u32) = NOT (mask 1)" by simp
  then have "bit ((d ! 3 AND 0xfffffffe) OR of_bool c) 0 = c" by (simp only: bit_simps) (auto simp: bit_simps)
  then show ?thesis by (simp add: trb_cycle_def stamp_def bit_0)
qed

lemma stamp_bit: "0 < k \<Longrightarrow> bit (stamp c d ! 3) k = bit (d ! 3) k"
proof -
  assume k: "0 < k"
  have m: "(0xfffffffe :: u32) = NOT (mask 1)" by simp
  have "bit ((d ! 3 AND NOT (mask 1)) OR of_bool c) k = bit (d ! 3) k"
    using k by (cases c) (auto simp: bit_simps dest: bit_imp_le_length)
  then show ?thesis by (simp only: m stamp_def) simp
qed

lemma stamp_type [simp]: "trb_type (stamp c d) = trb_type d"
  unfolding trb_type_def by (rule bit_word_eqI) (simp add: bit_simps stamp_bit)

lemma stamp_toggle [simp]: "toggle_cycle (stamp c d) = toggle_cycle d"
  by (simp add: toggle_cycle_def stamp_bit)

lemma stamp_pointer [simp]: "LinkTRB_Pointer (stamp c d) = LinkTRB_Pointer d"
  by (simp add: LinkTRB_Pointer_def stamp_def)

lemma length_stamp [simp]: "length (stamp c d) = 4"
  by (simp add: stamp_def)

lemma no_trb_simps [simp]: "length no_trb = 4" "\<not> trb_cycle no_trb"
  by (simp_all add: no_trb_def trb_cycle_def)

section \<open>What the controller finds\<close>

text \<open>
  The link TRB at the end of a ring leads back to its first slot and flips the sense of the cycle bit.
\<close>

definition ring_link :: "u64 \<Rightarrow> trb" where
  "ring_link b = (LinkTRB b)[3 := LinkTRB b ! 3 OR push_bit 1 1]"

lemma ring_link_fields:
  assumes "16 dvd unat b"
  shows "trb_type (ring_link b) = 6" "toggle_cycle (ring_link b)" "LinkTRB_Pointer (ring_link b) = b"
    "length (ring_link b) = 4"
proof -
  show "trb_type (ring_link b) = 6" "toggle_cycle (ring_link b)" "length (ring_link b) = 4"
    by (simp_all add: ring_link_def LinkTRB_def trb_type_def toggle_cycle_def)
  have low: "\<not> bit b k" if "k < 4" for k
  proof -
    have "take_bit 4 (unat b) = 0" using assms by (simp add: take_bit_eq_mod dvd_eq_mod_eq_0)
    then have "\<not> bit (take_bit 4 (unat b)) k" by simp
    then show ?thesis using that by (simp add: bit_simps)
  qed
  show "LinkTRB_Pointer (ring_link b) = b"
  proof (rule bit_word_eqI)
    fix k assume "k < LENGTH(64)"
    then show "bit (LinkTRB_Pointer (ring_link b)) k = bit b k"
      using low by (cases "k < 4"; cases "k < 32")
        (auto simp: LinkTRB_Pointer_def ring_link_def LinkTRB_def bit_simps)
  qed
qed

text \<open>
  A reader of the ring, by the rule of the cycle bit: at slot \<open>i\<close>, with the sense \<open>c\<close>, it
  takes the TRB whose cycle bit is \<open>c\<close>, and follows a link.  The argument \<open>k\<close> bounds its steps.
\<close>

fun ring_reader :: "nat \<Rightarrow> u64 \<Rightarrow> trb list \<Rightarrow> nat \<Rightarrow> bool \<Rightarrow> trb list" where
  "ring_reader 0 b ts i c = []"
| "ring_reader (Suc k) b ts i c =
    (if i < length ts \<and> trb_cycle (ts ! i) = c
     then if trb_type (ts ! i) = 6
          then if LinkTRB_Pointer (ts ! i) = b
               then ring_reader k b ts 0 (if toggle_cycle (ts ! i) then \<not> c else c) else []
          else ts ! i # ring_reader k b ts (Suc i) c
     else [])"

text \<open>After the TRBs \<open>ds\<close> have been pushed, the slots hold the last of them, each with the cycle bit of its lap.\<close>

definition ring_holds :: "trb list \<Rightarrow> ring \<Rightarrow> bool" where
  "ring_holds ds r \<longleftrightarrow>
     (let n = rbuf_size r; m = n - 1; P = length ds
      in 2 \<le> n \<and> length (rtrbs r) = n \<and> (\<forall>i < n. length (rtrbs r ! i) = 4) \<and>
         rwrite_index r = P mod m \<and> rcycle_bit r = even (P div m) \<and>
         (\<forall>j < P. P \<le> j + m \<longrightarrow> rtrbs r ! (j mod m) = stamp (even (j div m)) (ds ! j)) \<and>
         (\<forall>i < m. P \<le> i \<longrightarrow> rtrbs r ! i = no_trb) \<and>
         rtrbs r ! m = (if P < m then no_trb else stamp (odd (P div m)) (ring_link (rbuf r))))"

lemma ring_holds_Initialize:
  assumes "Ring_Initialize n r p = (kSuccess, r', p')" "2 \<le> n"
  shows "ring_holds [] r'"
  using assms
  by (auto simp: Ring_Initialize_def Let_def ring_holds_def split: prod.splits if_splits)

lemma div_mod_Suc_wrap: "0 < m \<Longrightarrow> Suc (P mod m) = m \<Longrightarrow> Suc P mod m = 0 \<and> Suc P div m = Suc (P div m)"
  for m P :: nat
  by (simp add: mod_Suc div_Suc)

lemma div_mod_Suc_same: "Suc (P mod m) \<noteq> m \<Longrightarrow> Suc P mod m = Suc (P mod m) \<and> Suc P div m = P div m"
  for m P :: nat
  by (simp add: mod_Suc div_Suc)

text \<open>Two indexes less than a lap apart use different slots.\<close>

lemma slot_inj: "j < P \<Longrightarrow> P < j + m \<Longrightarrow> j mod m \<noteq> P mod m" for j P m :: nat
proof
  assume a: "j < P" "P < j + m" "j mod m = P mod m"
  then have "m dvd P - j" by (metis mod_eq_dvd_iff_nat less_imp_le_nat)
  then have "m \<le> P - j" using a by (intro dvd_imp_le) simp_all
  then show False using a by simp
qed

lemma Ring_Push_holds:
  assumes h: "ring_holds ds r" and d: "length d = 4"
  shows "\<exists>r'. Ring_Push d r = Some (rbuf r + 16 * of_nat (length ds mod (rbuf_size r - 1)), r') \<and>
    rbuf r' = rbuf r \<and> rbuf_size r' = rbuf_size r \<and> ring_holds (ds @ [d]) r'"
proof -
  define n m P where "n = rbuf_size r" and "m = n - 1" and "P = length ds"
  have n: "2 \<le> n" "0 < m" "n = Suc m" and len: "length (rtrbs r) = n" "\<forall>i < n. length (rtrbs r ! i) = 4"
    and w: "rwrite_index r = P mod m" and c: "rcycle_bit r = even (P div m)"
    and held: "\<And>j. j < P \<Longrightarrow> P \<le> j + m \<Longrightarrow> rtrbs r ! (j mod m) = stamp (even (j div m)) (ds ! j)"
    and blank: "\<And>i. i < m \<Longrightarrow> P \<le> i \<Longrightarrow> rtrbs r ! i = no_trb"
    and link: "rtrbs r ! m = (if P < m then no_trb else stamp (odd (P div m)) (ring_link (rbuf r)))"
    using h by (auto simp: ring_holds_def Let_def n_def m_def P_def)
  have wm: "P mod m < m" using n by simp
  then have wn: "P mod m < n" using n(3) by linarith
  define ts where "ts = (rtrbs r)[P mod m := stamp (even (P div m)) d]"
  define r1 where "r1 = r\<lparr>rtrbs := ts\<rparr>"
  have c1: "CopyToLast d r = Some r1"
    using CopyToLast_stamp [of r d] wn len w c by (simp add: r1_def ts_def)
  have ts: "length ts = n" "\<forall>i < n. length (ts ! i) = 4" "ts ! m = rtrbs r ! m"
    using len wm wn by (simp_all add: ts_def nth_list_update)
  have held': "ts ! (j mod m) = stamp (even (j div m)) ((ds @ [d]) ! j)" if "j < Suc P" "Suc P \<le> j + m" for j
  proof (cases "j = P")
    case True
    then show ?thesis using wn len(1) by (simp add: ts_def P_def)
  next
    case False
    then have "j mod m \<noteq> P mod m" using that slot_inj [of j P m] by simp
    then show ?thesis using False that held [of j] by (simp add: ts_def nth_append P_def)
  qed
  have blank': "ts ! i = no_trb" if "i < m" "Suc P \<le> i" for i
    using that blank [of i] by (simp add: ts_def)
  have size: "size_sub (rbuf_size r) 1 = m" using n by (simp add: n_def m_def)
  show ?thesis
  proof (cases "Suc (P mod m) = m")
    case False
    define r2 where "r2 = r1\<lparr>rwrite_index := Suc (P mod m)\<rparr>"
    note nx = div_mod_Suc_same [OF False]
    have "Ring_Push d r = Some (rbuf r + 16 * of_nat (P mod m), r2)"
      using c1 False size by (simp add: Ring_Push_def Let_def r2_def r1_def w)
    moreover have "Suc P < m \<longleftrightarrow> P < m" using False by (cases "P < m") auto
    then have "ring_holds (ds @ [d]) r2"
      using n ts held' blank' link nx c
      by (simp add: ring_holds_def Let_def r2_def r1_def n_def [symmetric] m_def [symmetric] P_def [symmetric])
    ultimately show ?thesis by (auto simp: r2_def r1_def n_def m_def P_def)
  next
    case True
    define r2 where "r2 = r1\<lparr>rwrite_index := m\<rparr>"
    define r3 where "r3 = r2\<lparr>rtrbs := ts[m := stamp (even (P div m)) (ring_link (rbuf r))]\<rparr>"
    define r4 where "r4 = r3\<lparr>rwrite_index := 0, rcycle_bit := \<not> rcycle_bit r3\<rparr>"
    note nx = div_mod_Suc_wrap [OF n(2) True]
    have "CopyToLast (ring_link (rbuf r)) r2 = Some r3"
    proof -
      have "length (ts ! m) = 4" using ts(2) n(3) by simp
      then show ?thesis
        using CopyToLast_stamp [of r2 "ring_link (rbuf r)"] n(3) ts(1) c by (simp add: r2_def r1_def r3_def)
    qed
    then have "Ring_Push d r = Some (rbuf r + 16 * of_nat (P mod m), r4)"
      using c1 True size
      by (simp add: Ring_Push_def Let_def r2_def [symmetric] ring_link_def [symmetric] r4_def)
         (simp add: r1_def r2_def r3_def w ring_link_def)
    note push = this
    have "m \<le> Suc P" using True mod_less_eq_dividend [of P m] by linarith
    moreover have "\<forall>i < Suc m. length (ts[m := stamp (even (P div m)) (ring_link (rbuf r))] ! i) = 4"
      using ts n(3) by (auto simp: nth_list_update)
    moreover have "\<forall>j < Suc P. Suc P \<le> j + m \<longrightarrow>
        ts[m := stamp (even (P div m)) (ring_link (rbuf r))] ! (j mod m) = stamp (even (j div m)) ((ds @ [d]) ! j)"
    proof (intro allI impI)
      fix j assume j: "j < Suc P" "Suc P \<le> j + m"
      have "j mod m \<noteq> m" using mod_less_divisor [OF n(2), of j] by linarith
      then show "ts[m := stamp (even (P div m)) (ring_link (rbuf r))] ! (j mod m) = stamp (even (j div m)) ((ds @ [d]) ! j)"
        using held' [OF j] by simp
    qed
    ultimately have "ring_holds (ds @ [d]) r4"
      using n ts held' blank' nx c
      by (simp add: ring_holds_def Let_def r4_def r3_def r2_def r1_def n_def [symmetric] m_def [symmetric] P_def [symmetric])
    with push show ?thesis by (auto simp: r4_def r3_def r2_def r1_def n_def m_def P_def)
  qed
qed

text \<open>Pushing a list of TRBs, one after the other.\<close>

fun Ring_Pushes :: "trb list \<Rightarrow> ring \<Rightarrow> ring option" where
  "Ring_Pushes [] r = Some r"
| "Ring_Pushes (d # ds) r = do { (a, r') \<leftarrow> Ring_Push d r; Ring_Pushes ds r' }"

lemma Ring_Pushes_holds:
  assumes "ring_holds ds r" "list_all (\<lambda>d. length d = 4) es"
  shows "\<exists>r'. Ring_Pushes es r = Some r' \<and> rbuf r' = rbuf r \<and> rbuf_size r' = rbuf_size r \<and> ring_holds (ds @ es) r'"
  using assms
proof (induction es arbitrary: ds r)
  case (Cons e es)
  then obtain a r1 where r1: "Ring_Push e r = Some (a, r1)" "rbuf r1 = rbuf r" "rbuf_size r1 = rbuf_size r"
    "ring_holds (ds @ [e]) r1"
    using Ring_Push_holds [of ds r e] by auto
  from Cons.IH [OF r1(4)] Cons.prems(2) show ?case using r1(1-3) by auto
qed simp

lemma ring_reader_stops:
  assumes "ring_holds ds r"
  shows "ring_reader k b (rtrbs r) (length ds mod (rbuf_size r - 1)) (even (length ds div (rbuf_size r - 1))) = []"
proof (cases k)
  case (Suc k')
  define m P where "m = rbuf_size r - 1" and "P = length ds"
  have m: "0 < m" using assms by (auto simp: ring_holds_def Let_def m_def)
  have "trb_cycle (rtrbs r ! (P mod m)) \<noteq> even (P div m)"
  proof (cases "P < m")
    case True
    then show ?thesis using assms by (simp add: ring_holds_def Let_def m_def P_def)
  next
    case False
    have "P - m < P" "P \<le> P - m + m" "(P - m) mod m = P mod m" "P div m = Suc ((P - m) div m)"
      using False m by (simp_all add: le_mod_geq le_div_geq)
    moreover have "rtrbs r ! ((P - m) mod m) = stamp (even ((P - m) div m)) (ds ! (P - m))"
      using assms calculation(1,2) by (simp add: ring_holds_def Let_def m_def P_def)
    ultimately show ?thesis by simp
  qed
  then show ?thesis by (simp add: Suc m_def P_def)
qed simp

lemma ring_reader_holds:
  assumes h: "ring_holds ds r" and b: "16 dvd unat (rbuf r)" and t: "list_all (\<lambda>d. trb_type d \<noteq> 6) ds"
    and C: "C \<le> length ds" "length ds \<le> C + (rbuf_size r - 1)" and k: "2 * (length ds - C) < k"
  shows "ring_reader k (rbuf r) (rtrbs r) (C mod (rbuf_size r - 1)) (even (C div (rbuf_size r - 1))) =
    map (\<lambda>j. stamp (even (j div (rbuf_size r - 1))) (ds ! j)) [C..<length ds]"
  using C k
proof (induction "length ds - C" arbitrary: C k)
  case 0
  then show ?case using ring_reader_stops [OF h] by simp
next
  case (Suc x)
  define n m P where "n = rbuf_size r" and "m = n - 1" and "P = length ds"
  have n: "0 < m" "n = Suc m" and len: "length (rtrbs r) = n"
    and held: "\<And>j. j < P \<Longrightarrow> P \<le> j + m \<Longrightarrow> rtrbs r ! (j mod m) = stamp (even (j div m)) (ds ! j)"
    and link: "rtrbs r ! m = (if P < m then no_trb else stamp (odd (P div m)) (ring_link (rbuf r)))"
    using h by (auto simp: ring_holds_def Let_def n_def m_def P_def)
  have CP: "C < P" "P \<le> C + m" using Suc by (simp_all add: P_def m_def n_def)
  have i: "C mod m < n" using mod_less_divisor [OF n(1), of C] n(2) by linarith
  have slot: "rtrbs r ! (C mod m) = stamp (even (C div m)) (ds ! C)" using held CP by simp
  have ty: "trb_type (ds ! C) \<noteq> 6" using t CP by (simp add: list_all_length P_def)
  obtain k1 where k1: "k = Suc k1" "0 < k1" using Suc by (cases k) auto
  have IH: "ring_reader k' (rbuf r) (rtrbs r) (Suc C mod m) (even (Suc C div m)) =
      map (\<lambda>j. stamp (even (j div m)) (ds ! j)) [Suc C..<P]" if "2 * (P - Suc C) < k'" for k'
    using Suc.hyps(1) [of "Suc C" k'] Suc.hyps(2) Suc.prems that by (simp add: m_def n_def P_def)
  have first: "ring_reader k (rbuf r) (rtrbs r) (C mod m) (even (C div m)) =
      rtrbs r ! (C mod m) # ring_reader k1 (rbuf r) (rtrbs r) (Suc (C mod m)) (even (C div m))"
    using i len slot ty by (simp add: k1)
  also have "ring_reader k1 (rbuf r) (rtrbs r) (Suc (C mod m)) (even (C div m)) =
      map (\<lambda>j. stamp (even (j div m)) (ds ! j)) [Suc C..<P]"
  proof (cases "Suc (C mod m) = m")
    case False
    then show ?thesis using IH [of k1] div_mod_Suc_same [OF False] Suc.prems(3) k1 by (simp add: P_def)
  next
    case True
    note nx = div_mod_Suc_wrap [OF n(1) True]
    obtain k2 where k2: "k1 = Suc k2" using k1(2) by (cases k1) auto
    have L: "Suc C = Suc (C div m) * m"
    proof -
      have "C div m * m + Suc (C mod m) = Suc C" by simp
      then show ?thesis unfolding True by simp
    qed
    have "P div m = Suc (C div m)"
    proof (rule div_nat_eqI)
      show "m * Suc (C div m) \<le> P" using L CP by (simp add: mult.commute)
      show "P < m * Suc (Suc (C div m))" using L CP by (simp add: mult.commute)
    qed
    moreover have "\<not> P < m" using True CP mod_less_eq_dividend [of C m] by linarith
    ultimately have "rtrbs r ! m = stamp (even (C div m)) (ring_link (rbuf r))" using link by simp
    then have "ring_reader k1 (rbuf r) (rtrbs r) m (even (C div m)) =
        ring_reader k2 (rbuf r) (rtrbs r) 0 (odd (C div m))"
      using len n(2) ring_link_fields [OF b] by (simp add: k2)
    also have "\<dots> = map (\<lambda>j. stamp (even (j div m)) (ds ! j)) [Suc C..<P]"
      using IH [of k2] nx Suc.prems(3) k1 k2 CP by (simp add: P_def)
    finally show ?thesis by (simp only: True)
  qed
  finally show ?case using CP slot by (simp add: m_def n_def P_def upt_rec [of C])
qed

lemma Ring_Initialize_aligned:
  assumes "usb_pool_ok p" "n < 2 ^ 28" "Ring_Initialize n r p = (kSuccess, r', p')"
  shows "64 dvd unat (rbuf r')" "rbuf_size r' = n"
proof -
  obtain b p1 where a: "AllocMem (16 * of_nat n) 64 65536 p = (b, p1)" by fastforce
  have r: "rbuf r' = b" "rbuf_size r' = n" "b \<noteq> 0"
    using assms(3) a by (auto simp: Ring_Initialize_def AllocArray_def FreeMem_def Let_def split: if_splits)
  have "unat (16 * of_nat n :: u64) = 16 * n"
    using assms(2) unat_of_nat_u64 [of "16 * n"] by simp
  moreover have "pow2_upto 64" "pow2_upto 65536"
    using exI [of "\<lambda>k. k \<le> 16 \<and> (64::u32) = 2 ^ k" 6] exI [of "\<lambda>k. k \<le> 16 \<and> (65536::u32) = 2 ^ k" 16]
    by (simp_all add: pow2_upto_def)
  ultimately have "request_ok (16 * of_nat n, 64, 65536)" using assms(2) by (simp add: request_ok_def)
  from AllocMem_block [OF assms(1) this a] r(3) show "64 dvd unat (rbuf r')"
    by (auto simp: block_ok_def r(1))
  show "rbuf_size r' = n" by (rule r(2))
qed

text \<open>
  C33: a command or transfer ring is a queue of TRBs.  After the driver has initialised a ring of \<open>n\<close>
  slots and pushed any number of TRBs, a reader that has taken the first \<open>C\<close> of them, and is at most
  \<open>n - 1\<close> behind, finds exactly the TRBs pushed since, in order, each stamped with the cycle bit of
  its lap, across every wrap through the link TRB, and then a slot that is not its own.
\<close>

theorem ring_fifo:
  assumes "usb_pool_ok p" "2 \<le> n" "n < 2 ^ 28" "Ring_Initialize n r p = (kSuccess, r0, p')"
    and "list_all (\<lambda>d. length d = 4 \<and> trb_type d \<noteq> 6) ds"
    and "C \<le> length ds" "length ds \<le> C + (n - 1)" "2 * (length ds - C) < k"
  shows "\<exists>r'. Ring_Pushes ds r0 = Some r' \<and>
    ring_reader k (rbuf r') (rtrbs r') (C mod (n - 1)) (even (C div (n - 1))) =
      map (\<lambda>j. stamp (even (j div (n - 1))) (ds ! j)) [C..<length ds]"
proof -
  have a: "64 dvd unat (rbuf r0)" "rbuf_size r0 = n" by (rule Ring_Initialize_aligned [OF assms(1,3,4)])+
  have l: "list_all (\<lambda>d. length d = 4) ds" "list_all (\<lambda>d. trb_type d \<noteq> 6) ds"
    using assms(5) by (simp_all add: list_all_iff)
  obtain r' where r': "Ring_Pushes ds r0 = Some r'" "rbuf r' = rbuf r0" "rbuf_size r' = n" "ring_holds ds r'"
    using Ring_Pushes_holds [OF ring_holds_Initialize [OF assms(4,2)] l(1)] a(2) by auto
  have "16 dvd unat (rbuf r')" unfolding r'(2) by (rule dvd_trans [OF _ a(1)]) simp
  from ring_reader_holds [OF r'(4) this l(2), of C k] assms(6-8) r'(1,3) show ?thesis by auto
qed

definition empty_ring :: ring where
  "empty_ring = \<lparr>rbuf = 0, rtrbs = [], rbuf_size = 0, rcycle_bit = False, rwrite_index = 0\<rparr>"

text \<open>A ring of four slots, five TRBs, the reader two behind: its two TRBs lie on both sides of the link.\<close>

theorem ring_fifo_witness:
  "\<exists>r'. Ring_Pushes [[1,0,0,0x400], [2,0,0,0x400], [3,0,0,0x400], [4,0,0,0x401], [5,0,0,0x400]]
      (fst (snd (Ring_Initialize 4 empty_ring usb_pool_example))) = Some r' \<and>
    ring_reader 7 (rbuf r') (rtrbs r') 2 True = [[3,0,0,0x401], [4,0,0,0x400], [5,0,0,0x400]]"
proof -
  have i: "Ring_Initialize 4 empty_ring usb_pool_example =
      (kSuccess, fst (snd (Ring_Initialize 4 empty_ring usb_pool_example)), snd (snd (Ring_Initialize 4 empty_ring usb_pool_example)))"
    by (simp add: Ring_Initialize_def empty_ring_def usb_pool_example_def AllocArray_def AllocMem_def Ceil_def
        kMemoryPoolSize_def Let_def)
  have u: "[2..<5] = [2, 3, 4 :: nat]" by (simp add: upt_rec)
  show ?thesis
    using ring_fifo [OF usb_pool_example_ok _ _ i, of "[[1,0,0,0x400], [2,0,0,0x400], [3,0,0,0x400], [4,0,0,0x401], [5,0,0,0x400]]" 2 7]
    by (simp add: trb_type_def stamp_def u)
qed

section \<open>The driver drains the event ring\<close>

text \<open>
  What the controller writes: its \<open>j\<close>-th event into slot \<open>j mod n\<close>, with the cycle bit of the lap; and
  where the driver stands after it has taken \<open>C\<close> events.
\<close>

definition events_posted :: "trb list \<Rightarrow> event_ring \<Rightarrow> bool" where
  "events_posted es e \<longleftrightarrow>
     (let n = ebuf_size e; P = length es
      in length (etrbs e) = n \<and>
         (\<forall>j < P. P \<le> j + n \<longrightarrow> etrbs e ! (j mod n) = stamp (even (j div n)) (es ! j)) \<and>
         (\<forall>i < n. P \<le> i \<longrightarrow> etrbs e ! i = no_trb))"

definition event_reader :: "nat \<Rightarrow> event_ring \<Rightarrow> bool" where
  "event_reader C e \<longleftrightarrow>
     (let n = ebuf_size e
      in 0 < n \<and> n < 65536 \<and> 16 dvd unat (ebuf e) \<and> unat (ebuf e) + 16 * n < 2 ^ 64 \<and>
         ring_segment_base_address e = ebuf e \<and> ring_segment_size e = of_nat n \<and>
         ReadDequeuePointer e = ebuf e + 16 * of_nat (C mod n) \<and> ecycle_bit e = even (C div n))"

definition event_queue :: "event_ring \<Rightarrow> trb list \<Rightarrow> bool" where
  "event_queue e xs \<longleftrightarrow>
     (\<exists>es C. events_posted es e \<and> event_reader C e \<and> C \<le> length es \<and> length es \<le> C + ebuf_size e \<and>
        xs = map (\<lambda>j. stamp (even (j div ebuf_size e)) (es ! j)) [C..<length es])"

lemma dequeue_pointer_written:
  assumes "16 dvd unat p" shows "ReadDequeuePointer (WriteDequeuePointer p e) = p"
proof -
  have low: "\<not> bit p k" if "k < 4" for k
  proof -
    have "take_bit 4 (unat p) = 0" using assms by (simp add: take_bit_eq_mod dvd_eq_mod_eq_0)
    then have "\<not> bit (take_bit 4 (unat p)) k" by simp
    then show ?thesis using that by (simp add: bit_simps)
  qed
  show ?thesis
  proof (rule bit_word_eqI)
    fix k assume "k < LENGTH(64)"
    then show "bit (ReadDequeuePointer (WriteDequeuePointer p e)) k = bit p k"
      using low by (cases "k < 4") (auto simp: ReadDequeuePointer_def WriteDequeuePointer_def bit_simps)
  qed
qed

lemma event_at_slot:
  assumes "i < length (etrbs e)" "16 * i < 2 ^ 64"
  shows "event_at (ebuf e + 16 * of_nat i) e = Some (etrbs e ! i)"
proof -
  have "unat (16 * of_nat i :: u64) = 16 * i" using assms(2) unat_of_nat_u64 [of "16 * i"] by simp
  then show ?thesis using assms(1) by (simp add: event_at_def Let_def)
qed

lemma event_slot_of:
  assumes "event_reader C e" "events_posted es e"
  shows "event_at (Front e) e = Some (etrbs e ! (C mod ebuf_size e))"
proof -
  have "C mod ebuf_size e < ebuf_size e" "ebuf_size e < 65536" "length (etrbs e) = ebuf_size e"
    using assms by (auto simp: event_reader_def events_posted_def Let_def)
  then show ?thesis using assms(1) event_at_slot [of "C mod ebuf_size e" e]
    by (simp add: Front_def event_reader_def Let_def)
qed

lemma event_front:
  assumes "event_reader C e" "events_posted es e" "C \<le> length es" "length es \<le> C + ebuf_size e"
  shows "HasFront e = Some (C < length es)"
    and "C < length es \<Longrightarrow> event_at (Front e) e = Some (stamp (even (C div ebuf_size e)) (es ! C))"
proof -
  define n where "n = ebuf_size e"
  have n: "0 < n" and c: "ecycle_bit e = even (C div n)" using assms(1) by (auto simp: event_reader_def Let_def n_def)
  note at = event_slot_of [OF assms(1,2), folded n_def]
  show own: "event_at (Front e) e = Some (stamp (even (C div ebuf_size e)) (es ! C))" if "C < length es"
    using assms(2,4) that at by (simp add: events_posted_def Let_def n_def)
  show "HasFront e = Some (C < length es)"
  proof (cases "C < length es")
    case True
    then show ?thesis using own c by (simp add: HasFront_def n_def)
  next
    case False
    then have P: "length es = C" using assms(3) by simp
    have "trb_cycle (etrbs e ! (C mod n)) \<noteq> even (C div n)"
    proof (cases "C < n")
      case True
      then show ?thesis using assms(2) P by (simp add: events_posted_def Let_def n_def)
    next
      case False
      have "C - n < C" "C \<le> C - n + n" "(C - n) mod n = C mod n" "C div n = Suc ((C - n) div n)"
        using False n by (simp_all add: le_mod_geq le_div_geq)
      moreover have "etrbs e ! ((C - n) mod n) = stamp (even ((C - n) div n)) (es ! (C - n))"
        using assms(2) calculation(1,2) P by (simp add: events_posted_def Let_def n_def)
      ultimately show ?thesis by simp
    qed
    then show ?thesis using at P c by (simp add: HasFront_def)
  qed
qed

lemma event_reader_write:
  "ebuf (WriteDequeuePointer p e) = ebuf e" "etrbs (WriteDequeuePointer p e) = etrbs e"
  "ebuf_size (WriteDequeuePointer p e) = ebuf_size e" "ecycle_bit (WriteDequeuePointer p e) = ecycle_bit e"
  "ring_segment_base_address (WriteDequeuePointer p e) = ring_segment_base_address e"
  "ring_segment_size (WriteDequeuePointer p e) = ring_segment_size e"
  by (simp_all add: WriteDequeuePointer_def)

lemma Pop_reader:
  assumes r: "event_reader C e"
  shows "event_reader (Suc C) (Pop e)" "etrbs (Pop e) = etrbs e" "ebuf_size (Pop e) = ebuf_size e"
proof -
  define n where "n = ebuf_size e"
  have n: "0 < n" "n < 65536" and al: "16 dvd unat (ebuf e)" and top: "unat (ebuf e) + 16 * n < 2 ^ 64"
    and seg: "ring_segment_base_address e = ebuf e" "ring_segment_size e = of_nat n"
    and dq: "ReadDequeuePointer e = ebuf e + 16 * of_nat (C mod n)" and c: "ecycle_bit e = even (C div n)"
    using r by (auto simp: event_reader_def Let_def n_def)
  have at: "unat (ebuf e + 16 * of_nat i) = unat (ebuf e) + 16 * i" if "i \<le> n" for i
  proof -
    have u: "unat (16 * of_nat i :: u64) = 16 * i" using that n unat_of_nat_u64 [of "16 * i"] by simp
    have "unat (ebuf e) + unat (16 * of_nat i :: u64) < 2 ^ LENGTH(64)" using that top unfolding u by simp
    then show ?thesis using u by (simp add: unat_add_lem [THEN iffD1])
  qed
  have nxt: "ReadDequeuePointer e + 16 = ebuf e + 16 * of_nat (Suc (C mod n))" unfolding dq by (simp add: algebra_simps)
  have lim: "ring_segment_base_address e + 16 * ucast (ring_segment_size e) = ebuf e + 16 * of_nat n"
  proof -
    have "ucast (of_nat n :: u16) = (of_nat n :: u64)"
      using n(2) by (intro word_unat_eq_iff [THEN iffD2]) (simp add: unsigned_ucast_eq take_bit_nat_eq_self)
    then show ?thesis by (simp only: seg)
  qed
  have le: "Suc (C mod n) \<le> n" using n(1) by (simp add: Suc_leI)
  have eq: "ReadDequeuePointer e + 16 = ring_segment_base_address e + 16 * ucast (ring_segment_size e) \<longleftrightarrow> Suc (C mod n) = n"
    unfolding nxt lim word_unat_eq_iff at [OF le] at [OF order_refl] by (simp only: add_left_cancel mult_cancel1) simp
  have al': "16 dvd unat (ebuf e + 16 * of_nat i)" if "i \<le> n" for i unfolding at [OF that] using al by simp
  have "event_reader (Suc C) (Pop e) \<and> etrbs (Pop e) = etrbs e \<and> ebuf_size (Pop e) = ebuf_size e"
  proof (cases "Suc (C mod n) = n")
    case True
    then have "Pop e = WriteDequeuePointer (ebuf e) (e\<lparr>ecycle_bit := \<not> ecycle_bit e\<rparr>)"
      using eq seg(1) by (simp add: Pop_def Let_def)
    then show ?thesis
      using div_mod_Suc_wrap [OF n(1) True] n al top seg c dequeue_pointer_written [OF al]
      by (simp add: event_reader_def Let_def event_reader_write n_def [symmetric])
  next
    case False
    then have "Pop e = WriteDequeuePointer (ebuf e + 16 * of_nat (Suc (C mod n))) e"
      using False unfolding Pop_def Let_def eq nxt [symmetric] by simp
    then show ?thesis
      using div_mod_Suc_same [OF False] n al top seg c dequeue_pointer_written [OF al' [OF le]]
      by (simp add: event_reader_def Let_def event_reader_write n_def [symmetric])
  qed
  then show "event_reader (Suc C) (Pop e)" "etrbs (Pop e) = etrbs e" "ebuf_size (Pop e) = ebuf_size e" by blast+
qed

lemma event_queue_HasFront: "event_queue e xs \<Longrightarrow> HasFront e = Some (xs \<noteq> [])"
  unfolding event_queue_def using event_front(1) by fastforce

lemma event_queue_Front: "event_queue e (x # xs) \<Longrightarrow> event_at (Front e) e = Some x"
proof -
  assume "event_queue e (x # xs)"
  then obtain es C where e: "events_posted es e" "event_reader C e" "C \<le> length es" "length es \<le> C + ebuf_size e"
    and xs: "x # xs = map (\<lambda>j. stamp (even (j div ebuf_size e)) (es ! j)) [C..<length es]"
    by (auto simp: event_queue_def)
  then have "C < length es" by (cases "C < length es") auto
  with xs have "x = stamp (even (C div ebuf_size e)) (es ! C)" by (simp add: upt_rec [of C])
  then show ?thesis using event_front(2) [OF e(2,1,3,4) \<open>C < length es\<close>] by simp
qed

lemma event_queue_Pop: "event_queue e (x # xs) \<Longrightarrow> event_queue (Pop e) xs"
proof -
  assume "event_queue e (x # xs)"
  then obtain es C where e: "events_posted es e" "event_reader C e" "C \<le> length es" "length es \<le> C + ebuf_size e"
    and xs: "x # xs = map (\<lambda>j. stamp (even (j div ebuf_size e)) (es ! j)) [C..<length es]"
    by (auto simp: event_queue_def)
  then have C: "C < length es" by (cases "C < length es") auto
  note p = Pop_reader [OF e(2)]
  have "events_posted es (Pop e)" using e(1) p(2,3) by (simp add: events_posted_def Let_def)
  moreover have "xs = map (\<lambda>j. stamp (even (j div ebuf_size e)) (es ! j)) [Suc C..<length es]"
    using xs C by (simp add: upt_rec [of C])
  ultimately show ?thesis
    unfolding event_queue_def using p C e(4) by (intro exI [of _ es] exI [of _ "Suc C"]) simp
qed

lemma EventRing_Initialize_queue:
  assumes "usb_pool_ok p" "0 < n" "n < 65536" "EventRing_Initialize n e p = (kSuccess, e', p')"
  shows "event_queue e' []"
proof -
  obtain b p1 where a: "AllocMem (16 * of_nat n) 64 65536 p = (b, p1)" by fastforce
  have bu: "b \<noteq> 0" using assms(4) a
    by (auto simp: EventRing_Initialize_def AllocArray_def FreeMem_def Let_def split: if_splits)
  have sz: "unat (16 * of_nat n :: u64) = 16 * n"
    using assms(3) unat_of_nat_u64 [of "16 * n"] by simp
  moreover have "pow2_upto 64" "pow2_upto 65536"
    using exI [of "\<lambda>k. k \<le> 16 \<and> (64::u32) = 2 ^ k" 6] exI [of "\<lambda>k. k \<le> 16 \<and> (65536::u32) = 2 ^ k" 16]
    by (simp_all add: pow2_upto_def)
  ultimately have "request_ok (16 * of_nat n, 64, 65536)" using assms(3) by (simp add: request_ok_def)
  from AllocMem_block [OF assms(1) this a] bu
  have blk: "block_ok p (16 * of_nat n, 64, 65536) b" by blast
  then have al: "16 dvd unat b" by (auto simp: block_ok_def intro: dvd_trans [of 16 64])
  have "unat (memory_pool p) + 2 ^ 33 \<le> 2 ^ 64" using assms(1) by (simp add: usb_pool_ok_def)
  then have top: "unat b + 16 * n < 2 ^ 64" using blk sz by (simp add: block_ok_def)
  obtain t p2 where t: "AllocMem 16 64 65536 p1 = (t, p2)" by fastforce
  have e': "ebuf e' = b" "etrbs e' = replicate n no_trb" "ebuf_size e' = n" "ecycle_bit e'"
    "ring_segment_base_address e' = b" "ring_segment_size e' = of_nat n" "ReadDequeuePointer e' = b"
    using assms(4) a t bu dequeue_pointer_written [OF al]
    by (auto simp: EventRing_Initialize_def AllocArray_def FreeMem_def Let_def event_reader_write ReadDequeuePointer_def split: if_splits)
  have "event_reader 0 e'" using e' al top assms(2,3) by (simp add: event_reader_def Let_def)
  moreover have "events_posted [] e'" using e' by (simp add: events_posted_def Let_def)
  ultimately show ?thesis unfolding event_queue_def by (intro exI [of _ "[]"] exI [of _ 0]) simp
qed

text \<open>An event the controller posts while there is room goes to the end of the queue.\<close>

definition post_event :: "trb list \<Rightarrow> trb \<Rightarrow> event_ring \<Rightarrow> event_ring" where
  "post_event es x e = e\<lparr>etrbs := (etrbs e)[length es mod ebuf_size e := stamp (even (length es div ebuf_size e)) x]\<rparr>"

lemma post_event_posted:
  assumes "events_posted es e" "event_reader C e"
  shows "events_posted (es @ [x]) (post_event es x e)" "event_reader C (post_event es x e)"
proof -
  define n P where "n = ebuf_size e" and "P = length es"
  have n: "0 < n" "length (etrbs e) = n"
    and held: "\<And>j. j < P \<Longrightarrow> P \<le> j + n \<Longrightarrow> etrbs e ! (j mod n) = stamp (even (j div n)) (es ! j)"
    and blank: "\<And>i. i < n \<Longrightarrow> P \<le> i \<Longrightarrow> etrbs e ! i = no_trb"
    using assms by (auto simp: events_posted_def event_reader_def Let_def n_def P_def)
  have Pn: "P mod n < n" using n(1) by simp
  have "(etrbs e)[P mod n := stamp (even (P div n)) x] ! (j mod n) = stamp (even (j div n)) ((es @ [x]) ! j)"
    if j: "j < Suc P" "Suc P \<le> j + n" for j
  proof (cases "j = P")
    case True
    then show ?thesis using n Pn by (simp add: P_def)
  next
    case False
    then have "j mod n \<noteq> P mod n" using j slot_inj [of j P n] by simp
    then show ?thesis using False j held [of j] by (simp add: nth_append P_def)
  qed
  moreover have "(etrbs e)[P mod n := stamp (even (P div n)) x] ! i = no_trb" if "i < n" "Suc P \<le> i" for i
    using that blank [of i] by simp
  ultimately show "events_posted (es @ [x]) (post_event es x e)"
    using n(2) by (simp add: events_posted_def post_event_def Let_def n_def [symmetric] P_def [symmetric])
  show "event_reader C (post_event es x e)"
    using assms(2) by (simp add: event_reader_def post_event_def Let_def ReadDequeuePointer_def)
qed

section \<open>Draining a source of events\<close>

text \<open>\<^verbatim>\<open>while (HasFront()) ProcessEvent();\<close>, with the rounds bounded by \<open>k\<close>; \<open>None\<close> when the bound is reached or a round fails.\<close>

fun event_loop :: "('s \<Rightarrow> bool option) \<Rightarrow> ('s \<Rightarrow> 's option) \<Rightarrow> nat \<Rightarrow> 's \<Rightarrow> 's option" where
  "event_loop has_front process 0 s = None"
| "event_loop has_front process (Suc k) s =
    (case has_front s of
       None \<Rightarrow> None
     | Some False \<Rightarrow> Some s
     | Some True \<Rightarrow> Option.bind (process s) (event_loop has_front process k))"

fun handle_all :: "('a \<Rightarrow> 's \<Rightarrow> 's option) \<Rightarrow> 'a list \<Rightarrow> 's \<Rightarrow> 's option" where
  "handle_all handle [] s = Some s"
| "handle_all handle (x # xs) s = Option.bind (handle x s) (handle_all handle xs)"

locale event_source =
  fixes has_front :: "'s \<Rightarrow> bool option"
    and process :: "'s \<Rightarrow> 's option"
    and handle :: "'a \<Rightarrow> 's \<Rightarrow> 's option"
    and pending :: "'s \<Rightarrow> 'a list \<Rightarrow> bool"
  assumes has_front: "pending s xs \<Longrightarrow> has_front s = Some (xs \<noteq> [])"
    and process: "pending s (x # xs) \<Longrightarrow> process s = handle x s"
    and handled: "pending s (x # xs) \<Longrightarrow> handle x s = Some s' \<Longrightarrow> pending s' xs"
begin

text \<open>The loop comes to what handling one event after the other comes to, also when this does not return.\<close>

lemma drains:
  assumes "pending s xs" "length xs < k"
  shows "event_loop has_front process k s = handle_all handle xs s \<and>
    (\<forall>s'. handle_all handle xs s = Some s' \<longrightarrow> pending s' [])"
  using assms
proof (induction xs arbitrary: s k)
  case Nil
  then show ?case using has_front [of s "[]"] by (cases k) auto
next
  case (Cons x xs)
  obtain k' where k: "k = Suc k'" using Cons.prems(2) by (cases k) auto
  show ?case
  proof (cases "handle x s")
    case None
    then show ?thesis using has_front [OF Cons.prems(1)] process [OF Cons.prems(1)] by (simp add: k)
  next
    case (Some s1)
    from Cons.IH [OF handled [OF Cons.prems(1) Some], of k'] Cons.prems(2) show ?thesis
      using has_front [OF Cons.prems(1)] process [OF Cons.prems(1)] Some by (simp add: k)
  qed
qed

end

end
