(* ===== verification/UsbDescriptor.thy ===== *)
theory UsbDescriptor
  imports MemoryManager
begin

text \<open>
  Reading the configuration descriptor of a USB device (\<^verbatim>\<open>src/kernel/usb/device.cpp\<close>,
  \<^verbatim>\<open>descriptor.hpp\<close>, \<^verbatim>\<open>endpoint.hpp\<close>): the walk over the descriptors the device sent, the choice
  of a class driver, and the endpoints it gets.  Memory is a function from addresses to bytes, as
  the walk is bounded by nothing but the lengths the device wrote; the loops are partial
  functions, \<open>None\<close> for a walk that does not end.
\<close>

section \<open>Endpoints and descriptors\<close>

type_synonym memory = "u64 \<Rightarrow> u8"

datatype endpoint_type = kControl | kIsochronous | kBulk | kInterrupt

text \<open>An \<^verbatim>\<open>EndpointID\<close> is its address: the number, shifted, and the direction.\<close>

type_synonym endpoint_id = nat

definition EndpointID :: "nat \<Rightarrow> bool \<Rightarrow> endpoint_id" where
  "EndpointID ep_num dir_in = 2 * ep_num + of_bool dir_in"

definition Number :: "endpoint_id \<Rightarrow> nat" where
  "Number e = e div 2"

definition IsIn :: "endpoint_id \<Rightarrow> bool" where
  "IsIn e = odd e"

definition kDefaultControlPipeID :: endpoint_id where
  "kDefaultControlPipeID = EndpointID 0 True"

record endpoint_config =
  ep_id :: endpoint_id
  ep_type :: endpoint_type
  ep_max_packet_size :: nat
  ep_interval :: nat

text \<open>The types of descriptor the walk tells apart.\<close>

definition kDeviceDesc :: u8 where "kDeviceDesc = 1"
definition kConfigurationDesc :: u8 where "kConfigurationDesc = 2"
definition kInterfaceDesc :: u8 where "kInterfaceDesc = 4"
definition kEndpointDesc :: u8 where "kEndpointDesc = 5"

text \<open>\<^verbatim>\<open>DescriptorDynamicCast<T>\<close>: the descriptor at an address, if it is of the type.\<close>

definition DescriptorDynamicCast :: "memory \<Rightarrow> u8 \<Rightarrow> u64 \<Rightarrow> u64" where
  "DescriptorDynamicCast mem ty a = (if mem (a + 1) = ty then a else 0)"

definition transfer_type :: "u8 \<Rightarrow> endpoint_type" where
  "transfer_type w = (if w = 0 then kControl else if w = 1 then kIsochronous else if w = 2 then kBulk else kInterrupt)"

definition MakeEPConfig :: "memory \<Rightarrow> u64 \<Rightarrow> endpoint_config" where
  "MakeEPConfig mem a =
     \<lparr>ep_id = EndpointID (unat (take_bit 4 (mem (a + 2)))) (bit (mem (a + 2)) 7),
      ep_type = transfer_type (take_bit 2 (mem (a + 3))),
      ep_max_packet_size = unat (mem (a + 4)) + 256 * unat (mem (a + 5)),
      ep_interval = unat (mem (a + 6))\<rparr>"

section \<open>Walking over descriptors\<close>

record conf_reader =
  desc_buf :: u64
  desc_buf_len :: int
  desc_p :: u64

definition ConfigurationDescriptorReader :: "u64 \<Rightarrow> int \<Rightarrow> conf_reader" where
  "ConfigurationDescriptorReader b len = \<lparr>desc_buf = b, desc_buf_len = len, desc_p = b\<rparr>"

definition NextDesc :: "memory \<Rightarrow> conf_reader \<Rightarrow> u64 \<times> conf_reader" where
  "NextDesc mem r =
     (let p = desc_p r + ucast (mem (desc_p r))
      in (if p < desc_buf r + of_int (desc_buf_len r) then p else 0, r\<lparr>desc_p := p\<rparr>))"

partial_function (option) NextOf :: "memory \<Rightarrow> u8 \<Rightarrow> conf_reader \<Rightarrow> (u64 \<times> conf_reader) option" where
  "NextOf mem ty r =
     (case NextDesc mem r of (n, r') \<Rightarrow>
        if n = 0 then Some (0, r')
        else if DescriptorDynamicCast mem ty n \<noteq> 0 then Some (n, r')
        else NextOf mem ty r')"

section \<open>Choosing a class driver\<close>

datatype hid_kind = Keyboard | Mouse

text \<open>The drivers for the boot protocol, for an interface; the interface's number goes with it.\<close>

definition NewHIDDriver :: "memory \<Rightarrow> u64 \<Rightarrow> (hid_kind \<times> u8) option" where
  "NewHIDDriver mem a =
     (if mem (a + 5) = 3 \<and> mem (a + 6) = 1
      then if mem (a + 7) = 1 then Some (Keyboard, mem (a + 2))
           else if mem (a + 7) = 2 then Some (Mouse, mem (a + 2))
           else None
      else None)"

partial_function (option) endpoint_loop ::
  "memory \<Rightarrow> nat \<Rightarrow> nat \<Rightarrow> endpoint_config list \<Rightarrow> conf_reader \<Rightarrow> (endpoint_config list \<times> conf_reader) option" where
  "endpoint_loop mem num_endpoints ep_index eps r =
     (if ep_index < num_endpoints
      then case NextDesc mem r of (desc, r') \<Rightarrow>
        if DescriptorDynamicCast mem kEndpointDesc desc \<noteq> 0
        then endpoint_loop mem num_endpoints (ep_index + 1) (eps @ [MakeEPConfig mem desc]) r'
        else endpoint_loop mem num_endpoints ep_index eps r'
      else Some (eps, r))"

text \<open>The loop over the interfaces of a device of no class of its own: the first with a driver is taken.\<close>

partial_function (option) interface_loop ::
  "memory \<Rightarrow> endpoint_config list \<Rightarrow> conf_reader \<Rightarrow> ((hid_kind \<times> u8) option \<times> endpoint_config list) option" where
  "interface_loop mem eps r =
     (case NextOf mem kInterfaceDesc r of
        None \<Rightarrow> None
      | Some (if_desc, r1) \<Rightarrow>
          if if_desc = 0 then Some (None, eps)
          else case NewHIDDriver mem if_desc of
              None \<Rightarrow> interface_loop mem eps r1
            | Some drv \<Rightarrow>
                (case endpoint_loop mem (unat (mem (if_desc + 4))) 0 eps r1 of
                   None \<Rightarrow> None
                 | Some (eps', r2) \<Rightarrow> Some (Some drv, eps')))"

text \<open>The loop for a communication device: every interface, each with as many descriptors as it has endpoints.\<close>

fun cdc_descriptors :: "memory \<Rightarrow> nat \<Rightarrow> endpoint_config list \<Rightarrow> conf_reader \<Rightarrow> endpoint_config list \<times> conf_reader" where
  "cdc_descriptors mem 0 eps r = (eps, r)"
| "cdc_descriptors mem (Suc n) eps r =
     (case NextDesc mem r of (desc, r') \<Rightarrow>
        cdc_descriptors mem n
          (if DescriptorDynamicCast mem kEndpointDesc desc \<noteq> 0 then eps @ [MakeEPConfig mem desc] else eps) r')"

partial_function (option) cdc_loop :: "memory \<Rightarrow> endpoint_config list \<Rightarrow> conf_reader \<Rightarrow> endpoint_config list option" where
  "cdc_loop mem eps r =
     (case NextOf mem kInterfaceDesc r of
        None \<Rightarrow> None
      | Some (if_desc, r1) \<Rightarrow>
          if if_desc = 0 then Some eps
          else case cdc_descriptors mem (unat (mem (if_desc + 4))) eps r1 of
             (eps', r2) \<Rightarrow> cdc_loop mem eps' r2)"

section \<open>Descriptors as a list\<close>

text \<open>
  A descriptor begins with its own length and its type; interface and endpoint descriptors are as
  long as the standard says.
\<close>

definition desc_ok :: "u8 list \<Rightarrow> bool" where
  "desc_ok d \<longleftrightarrow> 2 \<le> length d \<and> unat (d ! 0) = length d \<and>
     (d ! 1 = kInterfaceDesc \<longrightarrow> 9 \<le> length d) \<and> (d ! 1 = kEndpointDesc \<longrightarrow> 7 \<le> length d)"

definition mem_holds :: "memory \<Rightarrow> u64 \<Rightarrow> u8 list \<Rightarrow> bool" where
  "mem_holds mem a bs \<longleftrightarrow> (\<forall>i < length bs. mem (a + of_nat i) = bs ! i)"

lemma mem_holds_append:
  "mem_holds mem a (xs @ ys) \<longleftrightarrow> mem_holds mem a xs \<and> mem_holds mem (a + of_nat (length xs)) ys"
proof
  assume h: "mem_holds mem a (xs @ ys)"
  have "mem (a + of_nat (length xs) + of_nat i) = ys ! i" if "i < length ys" for i
    using h [unfolded mem_holds_def, rule_format, of "length xs + i"] that by (simp add: nth_append add.commute add.left_commute)
  moreover have "mem (a + of_nat i) = xs ! i" if "i < length xs" for i
    using h [unfolded mem_holds_def, rule_format, of i] that by (simp add: nth_append)
  ultimately show "mem_holds mem a xs \<and> mem_holds mem (a + of_nat (length xs)) ys" by (simp add: mem_holds_def)
next
  assume h: "mem_holds mem a xs \<and> mem_holds mem (a + of_nat (length xs)) ys"
  show "mem_holds mem a (xs @ ys)"
    unfolding mem_holds_def
  proof (intro allI impI)
    fix i assume i: "i < length (xs @ ys)"
    show "mem (a + of_nat i) = (xs @ ys) ! i"
    proof (cases "i < length xs")
      case True
      then show ?thesis using h by (simp add: mem_holds_def nth_append)
    next
      case False
      then have "i - length xs < length ys" using i by auto
      then have "mem (a + of_nat (length xs) + of_nat (i - length xs)) = ys ! (i - length xs)"
        using h unfolding mem_holds_def by blast
      moreover have "a + of_nat (length xs) + of_nat (i - length xs) = a + of_nat i"
        using False by (simp add: of_nat_diff)
      ultimately have "mem (a + of_nat i) = ys ! (i - length xs)" by (simp only:)
      then show ?thesis using False by (simp add: nth_append)
    qed
  qed
qed

text \<open>The walk stands at the descriptor \<open>d\<close>, before the descriptors \<open>ds\<close>, which end the buffer.\<close>

definition reads_at :: "memory \<Rightarrow> conf_reader \<Rightarrow> u8 list \<Rightarrow> u8 list list \<Rightarrow> bool" where
  "reads_at mem r d ds \<longleftrightarrow>
     list_all desc_ok (d # ds) \<and> mem_holds mem (desc_p r) (d @ concat ds) \<and> 0 < desc_p r \<and>
     unat (desc_p r) + length (d @ concat ds) < 2 ^ 64 \<and>
     desc_buf r + of_int (desc_buf_len r) = desc_p r + of_nat (length (d @ concat ds))"

lemma mem_holds_nth: "mem_holds mem a bs \<Longrightarrow> i < length bs \<Longrightarrow> mem (a + of_nat i) = bs ! i"
  by (simp add: mem_holds_def)

lemma reads_at_byte:
  assumes "reads_at mem r d ds" "i < length d" shows "mem (desc_p r + of_nat i) = d ! i"
  using assms by (simp add: reads_at_def mem_holds_append mem_holds_nth)

lemma reads_at_first:
  assumes "reads_at mem r d ds"
  shows "mem (desc_p r) = d ! 0" "mem (desc_p r + 1) = d ! 1" "2 \<le> length d" "unat (d ! 0) = length d" "0 < desc_p r"
proof -
  show l: "2 \<le> length d" "unat (d ! 0) = length d" "0 < desc_p r" using assms by (simp_all add: reads_at_def desc_ok_def)
  show "mem (desc_p r) = d ! 0" using reads_at_byte [OF assms, of 0] l by (cases d) auto
  show "mem (desc_p r + 1) = d ! 1" using reads_at_byte [OF assms, of 1] l by simp
qed

lemma NextDesc_reads:
  assumes "reads_at mem r d ds"
  shows "case ds of
      [] \<Rightarrow> fst (NextDesc mem r) = 0
    | e # es \<Rightarrow> \<exists>r'. NextDesc mem r = (desc_p r', r') \<and> reads_at mem r' e es"
proof -
  define p where "p = desc_p r + of_nat (length d)"
  have step: "desc_p r + ucast (mem (desc_p r)) = p"
  proof -
    have "ucast (d ! 0) = (of_nat (unat (d ! 0)) :: u64)" by simp
    then show ?thesis using reads_at_first [OF assms] by (simp add: p_def)
  qed
  have h: "list_all desc_ok (d # ds)" "mem_holds mem (desc_p r) (d @ concat ds)" "0 < desc_p r"
    "unat (desc_p r) + length (d @ concat ds) < 2 ^ 64"
    "desc_buf r + of_int (desc_buf_len r) = desc_p r + of_nat (length (d @ concat ds))"
    using assms by (auto simp: reads_at_def)
  have u: "unat (desc_p r + of_nat k) = unat (desc_p r) + k" if "k \<le> length (d @ concat ds)" for k
  proof -
    have k: "unat (of_nat k :: u64) = k" using that h(4) by simp
    have "unat (desc_p r) + unat (of_nat k :: u64) < 2 ^ LENGTH(64)" using that h(4) unfolding k by simp
    then show ?thesis using k by (simp add: unat_add_lem [THEN iffD1])
  qed
  have up: "unat p = unat (desc_p r) + length d" unfolding p_def by (rule u) simp
  have nxt: "NextDesc mem r = (if p < desc_p r + of_nat (length (d @ concat ds)) then p else 0, r\<lparr>desc_p := p\<rparr>)"
    unfolding NextDesc_def Let_def step h(5) ..
  have lt: "p < desc_p r + of_nat (length (d @ concat ds)) \<longleftrightarrow> 0 < length (concat ds)"
    unfolding word_less_nat_alt u [OF order_refl] up by simp
  show ?thesis
  proof (cases ds)
    case Nil
    then show ?thesis using nxt lt by simp
  next
    case (Cons e es)
    have e: "desc_ok e" using h(1) Cons by simp
    then have "0 < length (concat ds)" using Cons by (auto simp: desc_ok_def)
    then have n: "NextDesc mem r = (p, r\<lparr>desc_p := p\<rparr>)" using nxt lt by simp
    have "0 < p" using up h(3) by (simp add: word_less_nat_alt)
    then have "reads_at mem (r\<lparr>desc_p := p\<rparr>) e es"
      using h up Cons by (simp add: reads_at_def mem_holds_append p_def algebra_simps)
    then show ?thesis using n Cons by auto
  qed
qed

lemma NextDesc_last: "reads_at mem r d [] \<Longrightarrow> fst (NextDesc mem r) = 0"
  using NextDesc_reads [of mem r d "[]"] by simp

lemma NextDesc_step:
  assumes "reads_at mem r d (e # es)"
  obtains r' where "NextDesc mem r = (desc_p r', r')" "reads_at mem r' e es" "desc_p r' \<noteq> 0"
    "\<And>ty. DescriptorDynamicCast mem ty (desc_p r') \<noteq> 0 \<longleftrightarrow> e ! 1 = ty"
proof -
  obtain r' where r': "NextDesc mem r = (desc_p r', r')" "reads_at mem r' e es"
    using NextDesc_reads [OF assms] by auto
  have "desc_p r' \<noteq> 0" using reads_at_first(5) [OF r'(2)] by auto
  moreover have "DescriptorDynamicCast mem ty (desc_p r') \<noteq> 0 \<longleftrightarrow> e ! 1 = ty" for ty
    using reads_at_first(2) [OF r'(2)] calculation by (simp add: DescriptorDynamicCast_def)
  ultimately show thesis using r' that by blast
qed

section \<open>What the loops compute\<close>

text \<open>The same on lists of descriptors.\<close>

definition config_of :: "u8 list \<Rightarrow> endpoint_config" where
  "config_of d =
     \<lparr>ep_id = EndpointID (unat (take_bit 4 (d ! 2))) (bit (d ! 2) 7),
      ep_type = transfer_type (take_bit 2 (d ! 3)),
      ep_max_packet_size = unat (d ! 4) + 256 * unat (d ! 5),
      ep_interval = unat (d ! 6)\<rparr>"

definition boot_driver :: "u8 list \<Rightarrow> (hid_kind \<times> u8) option" where
  "boot_driver d =
     (if d ! 1 = kInterfaceDesc \<and> d ! 5 = 3 \<and> d ! 6 = 1
      then if d ! 7 = 1 then Some (Keyboard, d ! 2) else if d ! 7 = 2 then Some (Mouse, d ! 2) else None
      else None)"

definition endpoint_descs :: "u8 list list \<Rightarrow> u8 list list" where
  "endpoint_descs ds = filter (\<lambda>d. d ! 1 = kEndpointDesc) ds"

fun chosen :: "u8 list list \<Rightarrow> ((hid_kind \<times> u8) option \<times> endpoint_config list) option" where
  "chosen [] = Some (None, [])"
| "chosen (d # ds) =
     (case boot_driver d of
        None \<Rightarrow> chosen ds
      | Some drv \<Rightarrow>
          (let n = unat (d ! 4)
           in if n \<le> length (endpoint_descs ds) then Some (Some drv, map config_of (take n (endpoint_descs ds)))
              else None))"

lemma MakeEPConfig_reads: "reads_at mem r d ds \<Longrightarrow> d ! 1 = kEndpointDesc \<Longrightarrow> MakeEPConfig mem (desc_p r) = config_of d"
proof -
  assume h: "reads_at mem r d ds" "d ! 1 = kEndpointDesc"
  then have "7 \<le> length d" by (simp add: reads_at_def desc_ok_def)
  then have "mem (desc_p r + of_nat i) = d ! i" if "i < 7" for i using h(1) that by (intro reads_at_byte) simp_all
  from this [of 2] this [of 3] this [of 4] this [of 5] this [of 6] show ?thesis
    by (simp add: MakeEPConfig_def config_of_def)
qed

lemma interface_reads:
  assumes "reads_at mem r d ds" "d ! 1 = kInterfaceDesc"
  shows "NewHIDDriver mem (desc_p r) = boot_driver d" "mem (desc_p r + 4) = d ! 4"
proof -
  have "9 \<le> length d" using assms by (simp add: reads_at_def desc_ok_def)
  then have m: "mem (desc_p r + of_nat i) = d ! i" if "i < 9" for i using assms(1) that by (intro reads_at_byte) simp_all
  from m [of 2] m [of 5] m [of 6] m [of 7] assms(2) show "NewHIDDriver mem (desc_p r) = boot_driver d"
    by (simp add: NewHIDDriver_def boot_driver_def)
  from m [of 4] show "mem (desc_p r + 4) = d ! 4" by simp
qed

lemma endpoint_loop_reads:
  assumes "reads_at mem r d ds" "n - i \<le> length (endpoint_descs ds)" "i \<le> n"
  shows "\<exists>r'. endpoint_loop mem n i eps r = Some (eps @ map config_of (take (n - i) (endpoint_descs ds)), r')"
  using assms
proof (induction ds arbitrary: d r i eps)
  case Nil
  then show ?case by (subst endpoint_loop.simps) (simp add: endpoint_descs_def)
next
  case (Cons e es)
  show ?case
  proof (cases "i < n")
    case False
    then show ?thesis using Cons.prems by (subst endpoint_loop.simps) simp
  next
    case True
    obtain r' where r': "NextDesc mem r = (desc_p r', r')" "reads_at mem r' e es"
      "\<And>ty. DescriptorDynamicCast mem ty (desc_p r') \<noteq> 0 \<longleftrightarrow> e ! 1 = ty"
      using NextDesc_step [OF Cons.prems(1)] by blast
    show ?thesis
    proof (cases "e ! 1 = kEndpointDesc")
      case ep: True
      have "n - (i + 1) \<le> length (endpoint_descs es)" using Cons.prems(2) ep True by (simp add: endpoint_descs_def)
      with Cons.IH [OF r'(2), of "i + 1" "eps @ [config_of e]"] True obtain r2 where
        "endpoint_loop mem n (i + 1) (eps @ [config_of e]) r' =
           Some (eps @ [config_of e] @ map config_of (take (n - (i + 1)) (endpoint_descs es)), r2)" by auto
      moreover have "n - i = Suc (n - (i + 1))" using True by simp
      ultimately show ?thesis
        using True r' ep MakeEPConfig_reads [OF r'(2) ep]
        by (subst endpoint_loop.simps) (simp add: endpoint_descs_def)
    next
      case False
      then have "n - i \<le> length (endpoint_descs es)" using Cons.prems(2) by (simp add: endpoint_descs_def)
      from Cons.IH [OF r'(2) this Cons.prems(3), of eps] False True r' show ?thesis
        by (subst endpoint_loop.simps) (simp add: endpoint_descs_def)
    qed
  qed
qed

text \<open>\<^verbatim>\<open>Next<T>\<close> stops at the first descriptor of the type, or behind the last.\<close>

lemma NextOf_none:
  assumes "reads_at mem r d ds" "\<forall>e \<in> set ds. e ! 1 \<noteq> ty"
  shows "\<exists>r'. NextOf mem ty r = Some (0, r')"
  using assms
proof (induction ds arbitrary: d r)
  case Nil
  then have "fst (NextDesc mem r) = 0" by (simp add: NextDesc_last)
  then show ?case by (subst NextOf.simps) (auto split: prod.split)
next
  case (Cons e es)
  obtain r' where r': "NextDesc mem r = (desc_p r', r')" "reads_at mem r' e es" "desc_p r' \<noteq> 0"
    "\<And>ty. DescriptorDynamicCast mem ty (desc_p r') \<noteq> 0 \<longleftrightarrow> e ! 1 = ty"
    using NextDesc_step [OF Cons.prems(1)] by blast
  have "DescriptorDynamicCast mem ty (desc_p r') = 0" using r'(4) [of ty] Cons.prems(2) by auto
  then show ?case using r' Cons.IH [OF r'(2)] Cons.prems(2) by (subst NextOf.simps) simp
qed

lemma NextOf_some:
  assumes "reads_at mem r d (cs @ e # es)" "\<forall>c \<in> set cs. c ! 1 \<noteq> ty" "e ! 1 = ty"
  shows "\<exists>r'. NextOf mem ty r = Some (desc_p r', r') \<and> reads_at mem r' e es \<and> desc_p r' \<noteq> 0"
  using assms
proof (induction cs arbitrary: d r)
  case Nil
  then have "reads_at mem r d (e # es)" by simp
  from NextDesc_step [OF this] obtain r' where r': "NextDesc mem r = (desc_p r', r')" "reads_at mem r' e es" "desc_p r' \<noteq> 0"
    "\<And>ty. DescriptorDynamicCast mem ty (desc_p r') \<noteq> 0 \<longleftrightarrow> e ! 1 = ty"
    by blast
  then show ?case using assms(3) by (subst NextOf.simps) simp
next
  case (Cons c cs)
  then have "reads_at mem r d (c # (cs @ e # es))" by simp
  from NextDesc_step [OF this] obtain r' where r': "NextDesc mem r = (desc_p r', r')" "reads_at mem r' c (cs @ e # es)" "desc_p r' \<noteq> 0"
    "\<And>ty. DescriptorDynamicCast mem ty (desc_p r') \<noteq> 0 \<longleftrightarrow> c ! 1 = ty"
    by blast
  have "DescriptorDynamicCast mem ty (desc_p r') = 0" using r'(4) [of ty] Cons.prems(2) by auto
  then show ?case using r' Cons.IH [OF r'(2)] Cons.prems by (subst NextOf.simps) simp
qed

lemma chosen_skip: "\<forall>c \<in> set cs. c ! 1 \<noteq> kInterfaceDesc \<Longrightarrow> chosen (cs @ ds) = chosen ds"
  by (induction cs) (auto simp: boot_driver_def)

lemma interface_loop_reads:
  assumes "reads_at mem r d ds" "chosen ds = Some (drv, eps')"
  shows "interface_loop mem eps r = Some (drv, eps @ eps')"
  using assms
proof (induction "length ds" arbitrary: d ds r rule: less_induct)
  case less
  show ?case
  proof (cases "\<forall>e \<in> set ds. e ! 1 \<noteq> kInterfaceDesc")
    case True
    then have "drv = None" "eps' = []" using less.prems(2) chosen_skip [of ds "[]"] by simp_all
    then show ?thesis using NextOf_none [OF less.prems(1) True] by (subst interface_loop.simps) auto
  next
    case False
    then obtain cs e es where ds: "ds = cs @ e # es" "\<forall>c \<in> set cs. c ! 1 \<noteq> kInterfaceDesc" "e ! 1 = kInterfaceDesc"
      using split_list_first_prop [of ds "\<lambda>e. e ! 1 = kInterfaceDesc"] by blast
    obtain r' where r': "NextOf mem kInterfaceDesc r = Some (desc_p r', r')" "reads_at mem r' e es" "desc_p r' \<noteq> 0"
      using NextOf_some [OF less.prems(1) [unfolded ds(1)] ds(2,3)] by blast
    have ch: "chosen (e # es) = Some (drv, eps')" using less.prems(2) ds chosen_skip [of cs] by simp
    note i = interface_reads [OF r'(2) ds(3)]
    show ?thesis
    proof (cases "boot_driver e")
      case None
      then have "interface_loop mem eps r' = Some (drv, eps @ eps')"
        using ch less.hyps [OF _ r'(2)] ds(1) by simp
      then show ?thesis using r' i None by (subst interface_loop.simps) simp
    next
      case (Some dv)
      define n where "n = unat (e ! 4)"
      have n: "n \<le> length (endpoint_descs es)" "drv = Some dv" "eps' = map config_of (take n (endpoint_descs es))"
        using ch Some by (auto simp: Let_def n_def split: if_splits)
      from endpoint_loop_reads [OF r'(2), of n 0 eps] n(1) obtain r2 where
        "endpoint_loop mem n 0 eps r' = Some (eps @ eps', r2)" by (auto simp: n(3))
      then show ?thesis using r' i Some n(2) by (subst interface_loop.simps) (simp add: n_def)
    qed
  qed
qed

text \<open>A descriptor that says its length is zero is read over and over again.\<close>

lemma NextOf_zero_length:
  assumes "mem (desc_p r) = 0" "desc_p r < desc_buf r + of_int (desc_buf_len r)" "desc_p r \<noteq> 0" "mem (desc_p r + 1) \<noteq> ty"
  shows "NextOf mem ty r = None"
proof -
  have nxt: "NextDesc mem r = (desc_p r, r)" using assms(1,2) by (simp add: NextDesc_def Let_def)
  have "\<not> (m = mem \<and> t = ty \<and> x = r)" if "NextOf m t x = Some y" for m t x y
  proof (rule NextOf.raw_induct [OF _ that])
    fix NextOf' m t x y
    assume ih: "\<And>m t x y. NextOf' m t x = Some y \<Longrightarrow> \<not> (m = mem \<and> t = ty \<and> x = r)"
      and eq: "(case NextDesc m x of (n, r') \<Rightarrow>
        if n = 0 then Some (0, r')
        else if DescriptorDynamicCast m t n \<noteq> 0 then Some (n, r')
        else NextOf' m t r') = Some y"
    show "\<not> (m = mem \<and> t = ty \<and> x = r)"
    proof
      assume e: "m = mem \<and> t = ty \<and> x = r"
      then have "NextOf' mem ty r = Some y"
        using eq nxt assms(3,4) by (simp add: DescriptorDynamicCast_def)
      from ih [OF this] show False by simp
    qed
  qed
  then show ?thesis by (cases "NextOf mem ty r") blast+
qed

section \<open>Properties\<close>

text \<open>Memory that holds bytes from an address on.\<close>

definition mem_of :: "u64 \<Rightarrow> u8 list \<Rightarrow> memory" where
  "mem_of a bs = (\<lambda>x. if unat (x - a) < length bs then bs ! unat (x - a) else 0)"

lemma mem_holds_mem_of: "length bs < 18446744073709551616 \<Longrightarrow> mem_holds (mem_of a bs) a bs"
  by (simp add: mem_holds_def mem_of_def)

lemma configuration_loop_parsed:
  assumes "list_all desc_ok (d # ds)" "mem_holds mem a (concat (d # ds))"
    and "0 < a" "unat a + length (concat (d # ds)) < 2 ^ 64"
    and "chosen ds = Some (drv, eps)"
  shows "interface_loop mem [] (ConfigurationDescriptorReader a (int (length (concat (d # ds))))) = Some (drv, eps)"
proof -
  have "reads_at mem (ConfigurationDescriptorReader a (int (length (concat (d # ds))))) d ds"
    using assms(1-4) by (simp add: reads_at_def ConfigurationDescriptorReader_def)
  from interface_loop_reads [OF this assms(5), of "[]"] show ?thesis by simp
qed

text \<open>
  C34: the walk over the bytes of a configuration descriptor is the search of the list of its
  descriptors: the class driver is chosen by the first interface of the boot protocol, keyboard or
  mouse, and gets the first endpoint descriptors behind it, as many as the interface says, with
  the descriptors of other types left out; with no such interface there is no driver.
\<close>

theorem configuration_parsed:
  assumes "list_all desc_ok (d # ds)" "mem_holds mem a (concat (d # ds))"
    and "0 < a" "unat a + length (concat (d # ds)) < 2 ^ 64"
    and "chosen ds = Some (drv, eps)"
  shows "interface_loop mem [] (ConfigurationDescriptorReader a (int (length (concat (d # ds))))) = Some (drv, eps)"
  by (rule configuration_loop_parsed [OF assms])

definition keyboard_configuration :: "u8 list list" where
  "keyboard_configuration =
     [[9, 2, 34, 0, 1, 1, 0, 0xa0, 50], [9, 4, 0, 0, 1, 3, 1, 1, 0],
      [9, 33, 0x11, 1, 0, 1, 34, 63, 0], [7, 5, 0x81, 3, 8, 0, 10]]"

lemma keyboard_configuration_ok:
  "list_all desc_ok keyboard_configuration" "length (concat keyboard_configuration) = 34"
  "chosen (tl keyboard_configuration) =
     Some (Some (Keyboard, 0), [\<lparr>ep_id = 3, ep_type = kInterrupt, ep_max_packet_size = 8, ep_interval = 10\<rparr>])"
  by (simp_all add: keyboard_configuration_def desc_ok_def boot_driver_def endpoint_descs_def config_of_def
      kInterfaceDesc_def kEndpointDesc_def EndpointID_def transfer_type_def)

theorem configuration_parsed_witness:
  "interface_loop (mem_of 0x200000 (concat keyboard_configuration)) []
     (ConfigurationDescriptorReader 0x200000 34) =
   Some (Some (Keyboard, 0), [\<lparr>ep_id = 3, ep_type = kInterrupt, ep_max_packet_size = 8, ep_interval = 10\<rparr>])"
proof -
  have c: "keyboard_configuration = hd keyboard_configuration # tl keyboard_configuration"
    by (simp add: keyboard_configuration_def)
  have m: "mem_holds (mem_of 0x200000 (concat keyboard_configuration)) 0x200000 (concat keyboard_configuration)"
    by (rule mem_holds_mem_of) (simp add: keyboard_configuration_ok(2))
  show ?thesis
    using configuration_parsed [of "hd keyboard_configuration" "tl keyboard_configuration", folded c,
        OF keyboard_configuration_ok(1) m _ _ keyboard_configuration_ok(3)] by (simp add: keyboard_configuration_ok(2))
qed

text \<open>
  C35: a device can hang the kernel: a descriptor whose length byte is zero, right behind the
  configuration descriptor in the bytes the device sent, is never passed, and neither the search
  for an interface nor the handler that started it returns.
\<close>

theorem zero_length_descriptor_hangs:
  assumes "2 \<le> unat (mem a)" "unat (mem a) < n" "0 < a" "unat a + n < 2 ^ 64"
    and "mem (a + ucast (mem a)) = 0" "mem (a + ucast (mem a) + 1) \<noteq> kInterfaceDesc"
  shows "interface_loop mem eps (ConfigurationDescriptorReader a (int n)) = None"
proof -
  define p where "p = a + ucast (mem a)"
  define r where "r = (ConfigurationDescriptorReader a (int n))\<lparr>desc_p := p\<rparr>"
  have k: "unat (ucast (mem a) :: u64) = unat (mem a)"
    using unat_u8_bound [of "mem a"] by (simp add: unsigned_ucast_eq take_bit_nat_eq_self)
  have "unat a + unat (ucast (mem a) :: u64) < 2 ^ LENGTH(64)" using assms(2,4) unfolding k by simp
  then have up: "unat p = unat a + unat (mem a)" using k by (simp add: p_def unat_add_lem [THEN iffD1])
  have n: "unat (of_nat n :: u64) = n" using assms(4) by simp
  have "unat a + unat (of_nat n :: u64) < 2 ^ LENGTH(64)" using assms(4) unfolding n by simp
  then have ue: "unat (a + of_nat n) = unat a + n" using n by (simp add: unat_add_lem [THEN iffD1])
  have lt: "p < a + of_nat n" unfolding word_less_nat_alt up ue using assms(2) by simp
  have p0: "p \<noteq> 0" using up assms(1) by auto
  have first: "NextDesc mem (ConfigurationDescriptorReader a (int n)) = (p, r)"
    using lt by (simp add: NextDesc_def ConfigurationDescriptorReader_def Let_def r_def p_def)
  have "NextOf mem kInterfaceDesc r = None"
    using assms(5,6) lt p0
    by (intro NextOf_zero_length) (simp_all add: r_def ConfigurationDescriptorReader_def p_def [symmetric])
  then have "NextOf mem kInterfaceDesc (ConfigurationDescriptorReader a (int n)) = None"
    using first p0 assms(6) by (subst NextOf.simps) (simp add: DescriptorDynamicCast_def p_def)
  then show ?thesis by (subst interface_loop.simps) simp
qed

theorem zero_length_descriptor_hangs_witness:
  "interface_loop (mem_of 0x200000 [9, 2, 12, 0, 1, 1, 0, 0xa0, 50, 0, 0, 0]) [] (ConfigurationDescriptorReader 0x200000 12) = None"
  using zero_length_descriptor_hangs
    [where mem = "mem_of 0x200000 [9, 2, 12, 0, 1, 1, 0, 0xa0, 50, 0, 0, 0]" and a = "0x200000" and n = 12 and eps = "[]"]
  by (simp add: mem_of_def kInterfaceDesc_def)

end
