(* ===== verification/UsbDevice.thy ===== *)
theory UsbDevice
  imports XhciRing UsbDescriptor
begin

text \<open>
  USB devices (\<^verbatim>\<open>src/kernel/usb/device.cpp\<close>, \<^verbatim>\<open>arraymap.hpp\<close>, \<^verbatim>\<open>xhci/device.cpp\<close>, and the class drivers
  under \<^verbatim>\<open>usb/classdriver\<close>): control and interrupt transfers on the transfer rings, the steps of
  the enumeration of a device, each started by the completion of the transfer before, and the
  keyboard, mouse and serial drivers.  The memory the device writes is an argument of the handlers;
  an access no code checks (a ring that is not there, a TRB outside the rings) is \<open>None\<close>.
\<close>

section \<open>Array maps\<close>

type_synonym ('k, 'v) array_map = "('k \<times> 'v) option list"

definition key_at :: "'k \<Rightarrow> ('k \<times> 'v) option \<Rightarrow> bool" where
  "key_at k e = (case e of None \<Rightarrow> False | Some (k', v) \<Rightarrow> k' = k)"

definition map_Get :: "'k \<Rightarrow> ('k, 'v) array_map \<Rightarrow> 'v option" where
  "map_Get k t = (case find_idx (key_at k) t of None \<Rightarrow> None | Some i \<Rightarrow> map_option snd (t ! i))"

definition map_Put :: "'k \<Rightarrow> 'v \<Rightarrow> ('k, 'v) array_map \<Rightarrow> ('k, 'v) array_map" where
  "map_Put k v t = (case find_idx Option.is_none t of None \<Rightarrow> t | Some i \<Rightarrow> t[i := Some (k, v)])"

definition map_Delete :: "'k \<Rightarrow> ('k, 'v) array_map \<Rightarrow> ('k, 'v) array_map" where
  "map_Delete k t = (case find_idx (key_at k) t of None \<Rightarrow> t | Some i \<Rightarrow> t[i := None])"

section \<open>Requests and their TRBs\<close>

record setup_data =
  sd_request_type :: u8
  sd_request :: u8
  sd_value :: u16
  sd_index :: u16
  sd_length :: u16

definition request_type_data :: "u8 \<Rightarrow> u8 \<Rightarrow> u8 \<Rightarrow> u8" where
  "request_type_data direction ty recipient = recipient OR push_bit 5 ty OR push_bit 7 direction"

definition MakeSetupStageTRB :: "setup_data \<Rightarrow> u32 \<Rightarrow> trb" where
  "MakeSetupStageTRB s tt =
     [ucast (sd_request_type s) OR push_bit 8 (ucast (sd_request s)) OR push_bit 16 (ucast (sd_value s)),
      ucast (sd_index s) OR push_bit 16 (ucast (sd_length s)),
      8,
      push_bit 6 1 OR push_bit 10 2 OR push_bit 16 (take_bit 2 tt)]"

definition setup_data_of :: "trb \<Rightarrow> setup_data" where
  "setup_data_of t =
     \<lparr>sd_request_type = ucast (t ! 0), sd_request = ucast (drop_bit 8 (t ! 0)), sd_value = ucast (drop_bit 16 (t ! 0)),
      sd_index = ucast (t ! 1), sd_length = ucast (drop_bit 16 (t ! 1))\<rparr>"

definition trb_pointer :: "trb \<Rightarrow> u64" where
  "trb_pointer t = ucast (t ! 0) OR push_bit 32 (ucast (t ! 1))"

definition trb_transfer_length :: "trb \<Rightarrow> int" where
  "trb_transfer_length t = uint (take_bit 17 (t ! 2))"

definition MakeDataStageTRB :: "u64 \<Rightarrow> nat \<Rightarrow> bool \<Rightarrow> trb" where
  "MakeDataStageTRB p len dir_in =
     [ucast p, ucast (drop_bit 32 p), take_bit 17 (of_nat len), push_bit 10 3 OR push_bit 16 (of_bool dir_in)]"

definition StatusStageTRB :: "bool \<Rightarrow> trb" where
  "StatusStageTRB dir = [0, 0, 0, push_bit 10 4 OR push_bit 16 (of_bool dir)]"

definition NormalTRB :: "u64 \<Rightarrow> nat \<Rightarrow> trb" where
  "NormalTRB p len =
     [ucast p, ucast (drop_bit 32 p), take_bit 17 (of_nat len), push_bit 2 1 OR push_bit 5 1 OR push_bit 10 1]"

definition interrupt_on_completion :: "trb \<Rightarrow> trb" where
  "interrupt_on_completion t = t[3 := t ! 3 OR push_bit 5 1]"

text \<open>\<^verbatim>\<open>TRBDynamicCast<T>\<close>: the address of a TRB, if it is of the type.\<close>

definition TRBDynamicCast :: "u32 \<Rightarrow> u64 \<Rightarrow> trb \<Rightarrow> u64" where
  "TRBDynamicCast ty a t = (if trb_type t = ty then a else 0)"

definition trb_at :: "u64 \<Rightarrow> ring \<Rightarrow> trb option" where
  "trb_at a r = (let i = unat (a - rbuf r) div 16
                 in if i < length (rtrbs r) then Some (rtrbs r ! i) else None)"

section \<open>Class drivers and devices\<close>

record hid =
  hid_kind :: hid_kind
  hid_interface :: u8
  hid_in_packet_size :: nat
  hid_phase :: nat
  hid_ep_in :: endpoint_id
  hid_ep_out :: endpoint_id
  hid_buf :: u64
  hid_previous :: "u8 list"

record cdc =
  cdc_ep_interrupt_in :: endpoint_id
  cdc_ep_bulk_in :: endpoint_id
  cdc_ep_bulk_out :: endpoint_id
  cdc_receive_buf :: "u8 list"

datatype class_driver = HID hid | CDC cdc

text \<open>
  A class driver is known by its place among the drivers of its device. The last two fields are
  what the observers of keyboards and mice were told.
\<close>

record device =
  dv_slot_id :: u8
  dv_buf :: u64
  dv_desc :: "u8 list"
  dv_num_configurations :: u8
  dv_config_index :: u8
  dv_is_initialized :: bool
  dv_initialize_phase :: nat
  dv_ep_configs :: "endpoint_config list"
  dv_class_drivers :: "class_driver list"
  dv_event_waiters :: "(setup_data, nat) array_map"
  dv_transfer_rings :: "ring option list"
  dv_setup_stage_map :: "(u64, u64) array_map"
  dv_doorbells :: "endpoint_id list"
  dv_key_pushes :: "(u8 \<times> u8 \<times> bool) list"
  dv_mouse_moves :: "(u8 \<times> u8 \<times> u8) list"

type_synonym device_result = "(kernel_error \<times> device) option"

text \<open>The device contexts index of an endpoint is its address; the array of rings has 31 elements.\<close>

definition transfer_ring :: "endpoint_id \<Rightarrow> device \<Rightarrow> ring option option" where
  "transfer_ring e d = (if 0 < e \<and> e - 1 < length (dv_transfer_rings d) then Some (dv_transfer_rings d ! (e - 1)) else None)"

definition set_ring :: "endpoint_id \<Rightarrow> ring \<Rightarrow> device \<Rightarrow> device" where
  "set_ring e r d = d\<lparr>dv_transfer_rings := (dv_transfer_rings d)[e - 1 := Some r]\<rparr>"

definition ring_doorbell :: "endpoint_id \<Rightarrow> device \<Rightarrow> device" where
  "ring_doorbell e d = d\<lparr>dv_doorbells := dv_doorbells d @ [e]\<rparr>"

definition put_waiter :: "nat option \<Rightarrow> setup_data \<Rightarrow> device \<Rightarrow> device" where
  "put_waiter issuer s d =
     (case issuer of None \<Rightarrow> d | Some i \<Rightarrow> d\<lparr>dv_event_waiters := map_Put s i (dv_event_waiters d)\<rparr>)"

definition put_setup :: "u64 \<Rightarrow> u64 \<Rightarrow> device \<Rightarrow> device" where
  "put_setup p s d = d\<lparr>dv_setup_stage_map := map_Put p s (dv_setup_stage_map d)\<rparr>"

definition PushOneTransaction :: "endpoint_id \<Rightarrow> u64 \<Rightarrow> nat \<Rightarrow> device \<Rightarrow> device_result" where
  "PushOneTransaction e buf len d = do {
     tr \<leftarrow> transfer_ring e d;
     case tr of
       None \<Rightarrow> Some (kTransferRingNotSet, d)
     | Some r \<Rightarrow> do {
         (a, r') \<leftarrow> Ring_Push (NormalTRB buf len) r;
         Some (kSuccess, ring_doorbell e (set_ring e r' d)) } }"

definition NormalIn :: "endpoint_id \<Rightarrow> u64 \<Rightarrow> nat \<Rightarrow> device \<Rightarrow> device_result" where
  "NormalIn e buf len d = PushOneTransaction e buf len d"

definition NormalOut :: "endpoint_id \<Rightarrow> u64 \<Rightarrow> nat \<Rightarrow> device \<Rightarrow> device_result" where
  "NormalOut e buf len d = PushOneTransaction e buf len d"

definition ControlIn :: "endpoint_id \<Rightarrow> setup_data \<Rightarrow> u64 \<Rightarrow> nat \<Rightarrow> nat option \<Rightarrow> device \<Rightarrow> device_result" where
  "ControlIn e s buf len issuer d0 =
    (let d = put_waiter issuer s d0
     in if 15 < Number e then Some (kInvalidEndpointNumber, d)
        else do {
          tr \<leftarrow> transfer_ring e d;
          case tr of
            None \<Rightarrow> Some (kTransferRingNotSet, d)
          | Some r \<Rightarrow>
              if buf \<noteq> 0 then do {
                (a, r1) \<leftarrow> Ring_Push (MakeSetupStageTRB s 3) r;
                st \<leftarrow> trb_at a r1;
                (b, r2) \<leftarrow> Ring_Push (interrupt_on_completion (MakeDataStageTRB buf len True)) r1;
                (c, r3) \<leftarrow> Ring_Push (StatusStageTRB False) r2;
                Some (kSuccess, ring_doorbell e (put_setup b (TRBDynamicCast 2 a st) (set_ring e r3 d)))
              } else do {
                (a, r1) \<leftarrow> Ring_Push (MakeSetupStageTRB s 0) r;
                st \<leftarrow> trb_at a r1;
                (b, r2) \<leftarrow> Ring_Push (interrupt_on_completion (StatusStageTRB True)) r1;
                Some (kSuccess, ring_doorbell e (put_setup b (TRBDynamicCast 2 a st) (set_ring e r2 d)))
              } })"

definition ControlOut :: "endpoint_id \<Rightarrow> setup_data \<Rightarrow> u64 \<Rightarrow> nat \<Rightarrow> nat option \<Rightarrow> device \<Rightarrow> device_result" where
  "ControlOut e s buf len issuer d0 =
    (let d = put_waiter issuer s d0
     in if 15 < Number e then Some (kInvalidEndpointNumber, d)
        else do {
          tr \<leftarrow> transfer_ring e d;
          case tr of
            None \<Rightarrow> Some (kTransferRingNotSet, d)
          | Some r \<Rightarrow>
              if buf \<noteq> 0 then do {
                (a, r1) \<leftarrow> Ring_Push (MakeSetupStageTRB s 2) r;
                st \<leftarrow> trb_at a r1;
                (b, r2) \<leftarrow> Ring_Push (interrupt_on_completion (MakeDataStageTRB buf len False)) r1;
                (c, r3) \<leftarrow> Ring_Push (StatusStageTRB True) r2;
                Some (kSuccess, ring_doorbell e (put_setup b (TRBDynamicCast 2 a st) (set_ring e r3 d)))
              } else do {
                (a, r1) \<leftarrow> Ring_Push (MakeSetupStageTRB s 0) r;
                st \<leftarrow> trb_at a r1;
                (b, r2) \<leftarrow> Ring_Push (interrupt_on_completion (StatusStageTRB True)) r1;
                Some (kSuccess, ring_doorbell e (put_setup b (TRBDynamicCast 2 a st) (set_ring e r2 d)))
              } })"

definition GetDescriptor :: "endpoint_id \<Rightarrow> u8 \<Rightarrow> u8 \<Rightarrow> u64 \<Rightarrow> nat \<Rightarrow> device \<Rightarrow> device_result" where
  "GetDescriptor e desc_type desc_index buf len d =
     ControlIn e \<lparr>sd_request_type = request_type_data 1 0 0, sd_request = 6,
                 sd_value = push_bit 8 (ucast desc_type) OR ucast desc_index, sd_index = 0, sd_length = of_nat len\<rparr>
       buf len None d"

definition SetConfiguration :: "endpoint_id \<Rightarrow> u8 \<Rightarrow> device \<Rightarrow> device_result" where
  "SetConfiguration e config_value d =
     ControlOut e \<lparr>sd_request_type = request_type_data 0 0 0, sd_request = 9,
                  sd_value = ucast config_value, sd_index = 0, sd_length = 0\<rparr>
       0 0 None d"

section \<open>The class drivers\<close>

definition HID_SetEndpoint :: "endpoint_config list \<Rightarrow> hid \<Rightarrow> hid" where
  "HID_SetEndpoint configs h =
     fold (\<lambda>c h. if ep_type c = kInterrupt \<and> IsIn (ep_id c) then h\<lparr>hid_ep_in := ep_id c\<rparr>
                 else if ep_type c = kInterrupt \<and> \<not> IsIn (ep_id c) then h\<lparr>hid_ep_out := ep_id c\<rparr>
                 else h) configs h"

definition CDC_SetEndpoint :: "endpoint_config list \<Rightarrow> cdc \<Rightarrow> cdc" where
  "CDC_SetEndpoint configs h =
     fold (\<lambda>c h. if ep_type c = kInterrupt \<and> IsIn (ep_id c) then h\<lparr>cdc_ep_interrupt_in := ep_id c\<rparr>
                 else if ep_type c = kBulk \<and> IsIn (ep_id c) then h\<lparr>cdc_ep_bulk_in := ep_id c\<rparr>
                 else if ep_type c = kBulk \<and> \<not> IsIn (ep_id c) then h\<lparr>cdc_ep_bulk_out := ep_id c\<rparr>
                 else h) configs h"

definition SetEndpoint :: "endpoint_config list \<Rightarrow> class_driver \<Rightarrow> class_driver" where
  "SetEndpoint configs c = (case c of HID h \<Rightarrow> HID (HID_SetEndpoint configs h) | CDC h \<Rightarrow> CDC (CDC_SetEndpoint configs h))"

definition set_driver :: "nat \<Rightarrow> class_driver \<Rightarrow> device \<Rightarrow> device" where
  "set_driver i c d = d\<lparr>dv_class_drivers := (dv_class_drivers d)[i := c]\<rparr>"

text \<open>A keyboard is put into the boot protocol; the request's completion comes back to the driver.\<close>

definition set_protocol :: "hid \<Rightarrow> setup_data" where
  "set_protocol h = \<lparr>sd_request_type = request_type_data 0 1 1, sd_request = 11, sd_value = 0,
                     sd_index = ucast (hid_interface h), sd_length = 0\<rparr>"

definition driver_OnEndpointsConfigured :: "nat \<Rightarrow> device \<Rightarrow> device_result" where
  "driver_OnEndpointsConfigured i d =
     (case dv_class_drivers d ! i of
        HID h \<Rightarrow> ControlOut kDefaultControlPipeID (set_protocol h) 0 0 (Some i) (set_driver i (HID (h\<lparr>hid_phase := 1\<rparr>)) d)
      | CDC h \<Rightarrow> Some (kSuccess, d))"

definition driver_OnControlCompleted :: "nat \<Rightarrow> device \<Rightarrow> device_result" where
  "driver_OnControlCompleted i d =
     (case dv_class_drivers d ! i of
        HID h \<Rightarrow>
          if hid_phase h = 1
          then NormalIn (hid_ep_in h) (hid_buf h) (hid_in_packet_size h) (set_driver i (HID (h\<lparr>hid_phase := 2\<rparr>)) d)
          else Some (kNotImplemented, d)
      | CDC h \<Rightarrow> Some (kNotImplemented, d))"

text \<open>The keys of a boot report, bytes 2 to 7, as a set of 256 bits; the changes are told key by key.\<close>

definition report_keys :: "(nat \<Rightarrow> u8) \<Rightarrow> nat \<Rightarrow> bool" where
  "report_keys report = fold (\<lambda>i f. f(unat (report i) := True)) [2..<8] (\<lambda>k. False)"

definition Keyboard_OnDataReceived :: "(nat \<Rightarrow> u8) \<Rightarrow> (nat \<Rightarrow> u8) \<Rightarrow> (u8 \<times> u8 \<times> bool) list" where
  "Keyboard_OnDataReceived previous_buf buf =
     (let prev = report_keys previous_buf; current = report_keys buf;
          changed = (\<lambda>k. prev k \<noteq> current k); pressed = (\<lambda>k. changed k \<and> current k)
      in map (\<lambda>k. (buf 0, of_nat k, pressed k)) (filter changed [1..<256]))"

definition Mouse_OnDataReceived :: "(nat \<Rightarrow> u8) \<Rightarrow> u8 \<times> u8 \<times> u8" where
  "Mouse_OnDataReceived buf = (buf 0, buf 1, buf 2)"

definition OnDataReceived :: "memory \<Rightarrow> hid \<Rightarrow> device \<Rightarrow> device" where
  "OnDataReceived mem h d =
     (let buf = (\<lambda>i. mem (hid_buf h + of_nat i))
      in case hid_kind h of
           Keyboard \<Rightarrow> d\<lparr>dv_key_pushes := dv_key_pushes d @ Keyboard_OnDataReceived (\<lambda>i. hid_previous h ! i) buf\<rparr>
         | Mouse \<Rightarrow> d\<lparr>dv_mouse_moves := dv_mouse_moves d @ [Mouse_OnDataReceived buf]\<rparr>)"

definition bytes_at :: "memory \<Rightarrow> u64 \<Rightarrow> int \<Rightarrow> u8 list" where
  "bytes_at mem a len = map (\<lambda>i. mem (a + of_nat i)) [0..<nat len]"

definition driver_OnNormalCompleted :: "memory \<Rightarrow> nat \<Rightarrow> endpoint_id \<Rightarrow> u64 \<Rightarrow> int \<Rightarrow> device \<Rightarrow> device_result" where
  "driver_OnNormalCompleted mem i e buf len d =
     (case dv_class_drivers d ! i of
        HID h \<Rightarrow>
          if IsIn e
          then let d1 = OnDataReceived mem h d
               in if nat len \<le> length (hid_previous h)
                  then NormalIn (hid_ep_in h) (hid_buf h) (hid_in_packet_size h)
                         (set_driver i (HID (h\<lparr>hid_previous := bytes_at mem (hid_buf h) len @ drop (nat len) (hid_previous h)\<rparr>)) d1)
                  else None
          else Some (kEndpointNotInCharge, d)
      | CDC h \<Rightarrow>
          if e = cdc_ep_bulk_in h
          then Some (kSuccess, set_driver i (CDC (h\<lparr>cdc_receive_buf := cdc_receive_buf h @ bytes_at mem buf len\<rparr>)) d)
          else if e = cdc_ep_bulk_out h then Some (kSuccess, d)
          else Some (kEndpointNotInCharge, d))"

text \<open>Sending goes out of a copy of the data, and asks for eight bytes back; the addresses of the two new buffers are arguments.\<close>

definition SendSerial :: "nat \<Rightarrow> u64 \<Rightarrow> u64 \<Rightarrow> nat \<Rightarrow> device \<Rightarrow> device_result" where
  "SendSerial i buf_out buf_in len d =
     (case dv_class_drivers d ! i of
        HID h \<Rightarrow> None
      | CDC h \<Rightarrow> do {
          (err, d1) \<leftarrow> NormalOut (cdc_ep_bulk_out h) buf_out len d;
          if err \<noteq> kSuccess then Some (err, d1) else NormalIn (cdc_ep_bulk_in h) buf_in 8 d1 })"

definition ReceiveSerial :: "int \<Rightarrow> cdc \<Rightarrow> u8 list \<times> cdc" where
  "ReceiveSerial len h =
     (let recv_len = nat (min len (int (length (cdc_receive_buf h))))
      in (take recv_len (cdc_receive_buf h), h\<lparr>cdc_receive_buf := drop recv_len (cdc_receive_buf h)\<rparr>))"

section \<open>The enumeration of a device\<close>

fun drivers_OnEndpointsConfigured :: "nat list \<Rightarrow> device \<Rightarrow> device_result" where
  "drivers_OnEndpointsConfigured [] d = Some (kSuccess, d)"
| "drivers_OnEndpointsConfigured (i # is) d = do {
     (err, d') \<leftarrow> driver_OnEndpointsConfigured i d;
     if err \<noteq> kSuccess then Some (err, d') else drivers_OnEndpointsConfigured is d' }"

definition OnEndpointsConfigured :: "device \<Rightarrow> device_result" where
  "OnEndpointsConfigured d = drivers_OnEndpointsConfigured [0..<length (dv_class_drivers d)] d"

fun drivers_OnNormalCompleted :: "memory \<Rightarrow> endpoint_id \<Rightarrow> u64 \<Rightarrow> int \<Rightarrow> nat list \<Rightarrow> device \<Rightarrow> device_result" where
  "drivers_OnNormalCompleted mem e buf len [] d = Some (kSuccess, d)"
| "drivers_OnNormalCompleted mem e buf len (i # is) d = do {
     (err, d') \<leftarrow> driver_OnNormalCompleted mem i e buf len d;
     if err = kEndpointNotInCharge then drivers_OnNormalCompleted mem e buf len is d'
     else if err \<noteq> kSuccess then Some (err, d')
     else drivers_OnNormalCompleted mem e buf len is d' }"

definition OnNormalCompleted :: "memory \<Rightarrow> endpoint_id \<Rightarrow> u64 \<Rightarrow> int \<Rightarrow> device \<Rightarrow> device_result" where
  "OnNormalCompleted mem e buf len d = drivers_OnNormalCompleted mem e buf len [0..<length (dv_class_drivers d)] d"

definition StartInitialize :: "device \<Rightarrow> device_result" where
  "StartInitialize d =
     GetDescriptor kDefaultControlPipeID kDeviceDesc 0 (dv_buf d) 256
       (d\<lparr>dv_is_initialized := False, dv_initialize_phase := 1\<rparr>)"

definition InitializePhase1 :: "memory \<Rightarrow> u64 \<Rightarrow> int \<Rightarrow> device \<Rightarrow> device_result" where
  "InitializePhase1 mem buf len d =
     (if len \<noteq> 18 then Some (kInvalidDescriptor, d)
      else let desc = bytes_at mem buf len;
               d1 = d\<lparr>dv_desc := desc, dv_num_configurations := desc ! 17, dv_config_index := 0, dv_initialize_phase := 2\<rparr>
           in GetDescriptor kDefaultControlPipeID kConfigurationDesc (dv_config_index d1) (dv_buf d1) 256 d1)"

text \<open>The address of the buffer of a new driver is the argument \<open>nb\<close>.\<close>

definition new_hid :: "hid_kind \<Rightarrow> u8 \<Rightarrow> u64 \<Rightarrow> hid" where
  "new_hid k interface_number nb =
     \<lparr>hid_kind = k, hid_interface = interface_number, hid_in_packet_size = (case k of Keyboard \<Rightarrow> 8 | Mouse \<Rightarrow> 3),
      hid_phase = 0, hid_ep_in = 0, hid_ep_out = 0, hid_buf = nb, hid_previous = replicate 1024 0\<rparr>"

definition new_cdc :: cdc where
  "new_cdc = \<lparr>cdc_ep_interrupt_in = 0, cdc_ep_bulk_in = 0, cdc_ep_bulk_out = 0, cdc_receive_buf = []\<rparr>"

definition InitializePhase2 :: "u64 \<Rightarrow> memory \<Rightarrow> u64 \<Rightarrow> int \<Rightarrow> device \<Rightarrow> device_result" where
  "InitializePhase2 nb mem buf len d =
    (let conf_desc = DescriptorDynamicCast mem kConfigurationDesc buf;
         config_reader = ConfigurationDescriptorReader buf len;
         configure = (\<lambda>d1. SetConfiguration kDefaultControlPipeID (mem (conf_desc + 5)) (d1\<lparr>dv_initialize_phase := 3\<rparr>))
     in if conf_desc = 0 then Some (kInvalidDescriptor, d)
        else if dv_desc d ! 4 \<noteq> 0
        then if dv_desc d ! 4 = 2
             then do {
               eps \<leftarrow> cdc_loop mem (dv_ep_configs d) config_reader;
               configure (d\<lparr>dv_ep_configs := eps, dv_class_drivers := dv_class_drivers d @ [CDC new_cdc]\<rparr>) }
             else Some (kNotImplemented, d)
        else do {
          (drv, eps) \<leftarrow> interface_loop mem (dv_ep_configs d) config_reader;
          case drv of
            None \<Rightarrow> Some (kSuccess, d)
          | Some (k, interface_number) \<Rightarrow>
              configure (d\<lparr>dv_ep_configs := eps,
                           dv_class_drivers := dv_class_drivers d @ [HID (new_hid k interface_number nb)]\<rparr>) })"

definition InitializePhase3 :: "u8 \<Rightarrow> device \<Rightarrow> device_result" where
  "InitializePhase3 config_value d =
     Some (kSuccess, d\<lparr>dv_class_drivers := map (SetEndpoint (dv_ep_configs d)) (dv_class_drivers d),
                        dv_initialize_phase := 4, dv_is_initialized := True\<rparr>)"

definition OnControlCompleted :: "u64 \<Rightarrow> memory \<Rightarrow> endpoint_id \<Rightarrow> setup_data \<Rightarrow> u64 \<Rightarrow> int \<Rightarrow> device \<Rightarrow> device_result" where
  "OnControlCompleted nb mem e s buf len d =
    (if dv_is_initialized d
     then (case map_Get s (dv_event_waiters d) of
             Some w \<Rightarrow> driver_OnControlCompleted w d
           | None \<Rightarrow> Some (kNoWaiter, d))
     else if dv_initialize_phase d = 1
     then if sd_request s = 6 \<and> DescriptorDynamicCast mem kDeviceDesc buf \<noteq> 0
          then InitializePhase1 mem buf len d else Some (kInvalidPhase, d)
     else if dv_initialize_phase d = 2
     then if sd_request s = 6 \<and> DescriptorDynamicCast mem kConfigurationDesc buf \<noteq> 0
          then InitializePhase2 nb mem buf len d else Some (kInvalidPhase, d)
     else if dv_initialize_phase d = 3
     then if sd_request s = 9 then InitializePhase3 (ucast (sd_value s)) d else Some (kInvalidPhase, d)
     else Some (kNotImplemented, d))"

text \<open>The transfer events of the controller, and the TRB in one of the rings such an event points to.\<close>

definition te_completion_code :: "trb \<Rightarrow> u32" where
  "te_completion_code t = drop_bit 24 (t ! 2)"

definition te_residual_length :: "trb \<Rightarrow> int" where
  "te_residual_length t = uint (take_bit 24 (t ! 2))"

definition te_endpoint_id :: "trb \<Rightarrow> endpoint_id" where
  "te_endpoint_id t = unat (take_bit 5 (drop_bit 16 (t ! 3)))"

definition te_slot_id :: "trb \<Rightarrow> u8" where
  "te_slot_id t = ucast (drop_bit 24 (t ! 3))"

fun trb_in_rings :: "u64 \<Rightarrow> ring option list \<Rightarrow> trb option" where
  "trb_in_rings a [] = None"
| "trb_in_rings a (None # rs) = trb_in_rings a rs"
| "trb_in_rings a (Some r # rs) = (case trb_at a r of Some t \<Rightarrow> Some t | None \<Rightarrow> trb_in_rings a rs)"

definition OnTransferEventReceived :: "u64 \<Rightarrow> memory \<Rightarrow> trb \<Rightarrow> device \<Rightarrow> device_result" where
  "OnTransferEventReceived nb mem ev d =
    (let residual_length = te_residual_length ev; issuer = trb_pointer ev
     in if te_completion_code ev \<noteq> 1 \<and> te_completion_code ev \<noteq> 13 then Some (kTransferFailed, d)
        else do {
          issuer_trb \<leftarrow> trb_in_rings issuer (dv_transfer_rings d);
          if trb_type issuer_trb = 1
          then OnNormalCompleted mem (te_endpoint_id ev) (trb_pointer issuer_trb)
                 (trb_transfer_length issuer_trb - residual_length) d
          else case map_Get issuer (dv_setup_stage_map d) of
              None \<Rightarrow> Some (kNoCorrespondingSetupStage, d)
            | Some setup \<Rightarrow> do {
                let d1 = d\<lparr>dv_setup_stage_map := map_Delete issuer (dv_setup_stage_map d)\<rparr>;
                setup_stage_trb \<leftarrow> trb_in_rings setup (dv_transfer_rings d);
                let s = setup_data_of setup_stage_trb;
                if trb_type issuer_trb = 3
                then OnControlCompleted nb mem (te_endpoint_id ev) s (trb_pointer issuer_trb)
                       (trb_transfer_length issuer_trb - residual_length) d1
                else if trb_type issuer_trb = 4
                then OnControlCompleted nb mem (te_endpoint_id ev) s 0 0 d1
                else Some (kNotImplemented, d1) } })"

section \<open>Requests travel through the ring\<close>

lemma setup_data_roundtrip: "setup_data_of (stamp c (MakeSetupStageTRB s tt)) = s"
proof -
  have "ucast (stamp c (MakeSetupStageTRB s tt) ! 0) = sd_request_type s"
    "ucast (drop_bit 8 (stamp c (MakeSetupStageTRB s tt) ! 0)) = sd_request s"
    "ucast (drop_bit 16 (stamp c (MakeSetupStageTRB s tt) ! 0)) = sd_value s"
    "ucast (stamp c (MakeSetupStageTRB s tt) ! 1) = sd_index s"
    "ucast (drop_bit 16 (stamp c (MakeSetupStageTRB s tt) ! 1)) = sd_length s"
    by (rule bit_word_eqI; auto simp: stamp_def MakeSetupStageTRB_def bit_simps dest: bit_imp_le_length)+
  then show ?thesis by (simp add: setup_data_of_def)
qed

lemma trb_types:
  "trb_type (MakeSetupStageTRB s tt) = 2"
  "trb_type (MakeDataStageTRB a len dir) = 3"
  "trb_type (StatusStageTRB dir) = 4"
  "trb_type (NormalTRB a len) = 1"
  "length t = 4 \<Longrightarrow> trb_type (interrupt_on_completion t) = trb_type t"
proof -
  show "trb_type (MakeSetupStageTRB s tt) = 2"
  proof -
    have "take_bit 6 (drop_bit 10 (push_bit 6 1 OR push_bit 10 2 OR push_bit 16 (take_bit 2 tt) :: u32)) = 2"
      by (rule bit_word_eqI) (auto simp: bit_simps)
    then show ?thesis by (simp add: trb_type_def MakeSetupStageTRB_def)
  qed
  show "trb_type (MakeDataStageTRB a len dir) = 3" "trb_type (StatusStageTRB dir) = 4"
    by (cases dir; simp add: trb_type_def MakeDataStageTRB_def StatusStageTRB_def)+
  show "trb_type (NormalTRB a len) = 1" by (simp add: trb_type_def NormalTRB_def)
  show "trb_type (interrupt_on_completion t) = trb_type t" if "length t = 4"
    unfolding trb_type_def interrupt_on_completion_def using that
    by (intro bit_word_eqI) (auto simp: bit_simps)
qed

lemma trb_lengths:
  "length (MakeSetupStageTRB s tt) = 4" "length (MakeDataStageTRB a len dir) = 4" "length (StatusStageTRB dir) = 4"
  "length (NormalTRB a len) = 4" "length (interrupt_on_completion t) = length t"
  by (simp_all add: MakeSetupStageTRB_def MakeDataStageTRB_def StatusStageTRB_def NormalTRB_def interrupt_on_completion_def)

lemma data_stage_pointer: "trb_pointer (stamp c (interrupt_on_completion (MakeDataStageTRB a len dir))) = a"
  by (rule bit_word_eqI)
     (auto simp: trb_pointer_def stamp_def interrupt_on_completion_def MakeDataStageTRB_def bit_simps)

lemma data_stage_length:
  assumes "len < 131072"
  shows "trb_transfer_length (stamp c (interrupt_on_completion (MakeDataStageTRB a len dir))) = int len"
proof -
  have "take_bit 17 (of_nat len :: u32) = of_nat len"
    using assms by (intro word_unat_eq_iff [THEN iffD2]) (simp add: unsigned_take_bit_eq take_bit_nat_eq_self)
  then show ?thesis
    using assms by (simp add: trb_transfer_length_def stamp_def interrupt_on_completion_def MakeDataStageTRB_def
        flip: uint_nat) (simp add: unsigned_of_nat take_bit_nat_eq_self uint_nat)
qed

section \<open>Control transfers\<close>

definition ring_addr :: "ring \<Rightarrow> nat \<Rightarrow> u64" where
  "ring_addr r j = rbuf r + 16 * of_nat (j mod (rbuf_size r - 1))"

lemma trb_at_ring:
  assumes h: "ring_holds ds r" and j: "j < length ds" "length ds \<le> j + (rbuf_size r - 1)" and n: "rbuf_size r < 2 ^ 28"
  shows "trb_at (ring_addr r j) r = Some (stamp (even (j div (rbuf_size r - 1))) (ds ! j))"
proof -
  define m where "m = rbuf_size r - 1"
  have r: "0 < m" "length (rtrbs r) = Suc m" "rtrbs r ! (j mod m) = stamp (even (j div m)) (ds ! j)"
    using h j by (auto simp: ring_holds_def Let_def m_def)
  have jm: "j mod m < m" using r(1) by simp
  then have "16 * (j mod m) < 18446744073709551616" using n by (simp add: m_def)
  then have "unat (16 * of_nat (j mod m) :: u64) = 16 * (j mod m)" using unat_of_nat_u64 [of "16 * (j mod m)"] by simp
  then show ?thesis unfolding trb_at_def Let_def ring_addr_def m_def [symmetric] using r jm by simp
qed

text \<open>A device whose first ring, that of the default control pipe, holds the TRBs \<open>ds\<close>.\<close>

definition control_ring :: "device \<Rightarrow> ring \<Rightarrow> trb list \<Rightarrow> bool" where
  "control_ring d r ds \<longleftrightarrow>
     dv_transfer_rings d \<noteq> [] \<and> hd (dv_transfer_rings d) = Some r \<and> ring_holds ds r \<and>
     8 \<le> rbuf_size r \<and> rbuf_size r < 2 ^ 28"

lemma control_ring_transfer: "control_ring d r ds \<Longrightarrow> transfer_ring kDefaultControlPipeID d = Some (Some r)"
  by (cases "dv_transfer_rings d")
     (auto simp: control_ring_def transfer_ring_def kDefaultControlPipeID_def EndpointID_def)

lemma control_ring_push:
  assumes "control_ring d r ds" "length t = 4"
  obtains r' where "Ring_Push t r = Some (ring_addr r (length ds), r')" "rbuf r' = rbuf r" "rbuf_size r' = rbuf_size r"
    "ring_holds (ds @ [t]) r'" "ring_addr r' = ring_addr r"
    "\<And>e. control_ring (set_ring kDefaultControlPipeID r' e) r' (ds @ [t]) \<longleftrightarrow> dv_transfer_rings e \<noteq> []"
proof -
  from assms obtain r' where r': "Ring_Push t r = Some (ring_addr r (length ds), r')" "rbuf r' = rbuf r"
    "rbuf_size r' = rbuf_size r" "ring_holds (ds @ [t]) r'"
    using Ring_Push_holds [of ds r t] by (auto simp: control_ring_def ring_addr_def)
  moreover have "control_ring (set_ring kDefaultControlPipeID r' e) r' (ds @ [t]) \<longleftrightarrow> dv_transfer_rings e \<noteq> []" for e
    using r' assms(1) by (cases "dv_transfer_rings e")
      (auto simp: control_ring_def set_ring_def kDefaultControlPipeID_def EndpointID_def)
  ultimately show thesis using that by (auto simp: ring_addr_def fun_eq_iff)
qed

lemma control_ring_first: "control_ring d r ds \<Longrightarrow> control_ring (set_ring kDefaultControlPipeID r' d) r' es \<longleftrightarrow>
    ring_holds es r' \<and> 8 \<le> rbuf_size r' \<and> rbuf_size r' < 2 ^ 28"
  by (cases "dv_transfer_rings d")
     (auto simp: control_ring_def set_ring_def kDefaultControlPipeID_def EndpointID_def)

text \<open>What one request puts into the ring.\<close>

definition in_request :: "setup_data \<Rightarrow> u64 \<Rightarrow> nat \<Rightarrow> trb list" where
  "in_request s buf len = [MakeSetupStageTRB s 3, interrupt_on_completion (MakeDataStageTRB buf len True), StatusStageTRB False]"

definition out_request :: "setup_data \<Rightarrow> trb list" where
  "out_request s = [MakeSetupStageTRB s 0, interrupt_on_completion (StatusStageTRB True)]"

definition requested :: "device \<Rightarrow> ring \<Rightarrow> ring \<Rightarrow> nat \<Rightarrow> device" where
  "requested d r r' P =
     ring_doorbell kDefaultControlPipeID (put_setup (ring_addr r (P + 1)) (ring_addr r P) (set_ring kDefaultControlPipeID r' d))"

lemma control_number: "\<not> 15 < Number kDefaultControlPipeID"
  by (simp add: Number_def kDefaultControlPipeID_def EndpointID_def)

lemma ControlIn_requested:
  assumes c: "control_ring d r ds" and buf: "buf \<noteq> 0"
  shows "\<exists>r'. ControlIn kDefaultControlPipeID s buf len None d = Some (kSuccess, requested d r r' (length ds)) \<and>
    rbuf r' = rbuf r \<and> rbuf_size r' = rbuf_size r \<and> ring_holds (ds @ in_request s buf len) r'"
proof -
  obtain r1 where r1: "Ring_Push (MakeSetupStageTRB s 3) r = Some (ring_addr r (length ds), r1)" "rbuf r1 = rbuf r"
    "rbuf_size r1 = rbuf_size r" "ring_holds (ds @ [MakeSetupStageTRB s 3]) r1" "ring_addr r1 = ring_addr r"
    using control_ring_push [OF c, of "MakeSetupStageTRB s 3"] by (auto simp: trb_lengths)
  have c1: "control_ring (set_ring kDefaultControlPipeID r1 d) r1 (ds @ [MakeSetupStageTRB s 3])"
    using r1 c by (simp add: control_ring_first [OF c]) (simp add: control_ring_def)
  have st: "trb_at (ring_addr r (length ds)) r1 = Some (stamp (even (length ds div (rbuf_size r - 1))) (MakeSetupStageTRB s 3))"
  proof -
    have "8 \<le> rbuf_size r" "rbuf_size r < 2 ^ 28" using c by (simp_all add: control_ring_def)
    then have "1 \<le> rbuf_size r - 1" "rbuf_size r1 < 2 ^ 28" using r1(3) by simp_all
    then show ?thesis using trb_at_ring [OF r1(4), of "length ds"] r1(3,5) by simp
  qed
  let ?data = "interrupt_on_completion (MakeDataStageTRB buf len True)"
  obtain r2 where r2: "Ring_Push ?data r1 = Some (ring_addr r (Suc (length ds)), r2)" "rbuf r2 = rbuf r"
    "rbuf_size r2 = rbuf_size r" "ring_holds (ds @ [MakeSetupStageTRB s 3, ?data]) r2" "ring_addr r2 = ring_addr r"
    using control_ring_push [OF c1, of ?data] r1(2,3,5) by (auto simp: trb_lengths)
  have c2: "control_ring (set_ring kDefaultControlPipeID r2 d) r2 (ds @ [MakeSetupStageTRB s 3, ?data])"
    using r2 c by (simp add: control_ring_first [OF c]) (simp add: control_ring_def)
  have "length (StatusStageTRB False) = 4" by (rule trb_lengths)
  from control_ring_push [OF c2 this] obtain r3 where "Ring_Push (StatusStageTRB False) r2 = Some (ring_addr r2 (length (ds @ [MakeSetupStageTRB s 3, ?data])), r3)"
    "rbuf r3 = rbuf r2" "rbuf_size r3 = rbuf_size r2" "ring_holds ((ds @ [MakeSetupStageTRB s 3, ?data]) @ [StatusStageTRB False]) r3"
    by blast
  then have r3: "Ring_Push (StatusStageTRB False) r2 = Some (ring_addr r2 (length ds + 2), r3)" "rbuf r3 = rbuf r"
    "rbuf_size r3 = rbuf_size r" "ring_holds (ds @ in_request s buf len) r3"
    using r2(2,3) by (simp_all add: in_request_def)
  show ?thesis
    using r1(1) r2(1) r3 st buf control_number control_ring_transfer [OF c]
    by (intro exI [of _ r3])
       (simp add: ControlIn_def put_waiter_def requested_def TRBDynamicCast_def trb_types)
qed

lemma ControlOut_requested:
  assumes c: "control_ring (put_waiter i s d) r ds"
  shows "\<exists>r'. ControlOut kDefaultControlPipeID s 0 len i d = Some (kSuccess, requested (put_waiter i s d) r r' (length ds)) \<and>
    rbuf r' = rbuf r \<and> rbuf_size r' = rbuf_size r \<and> ring_holds (ds @ out_request s) r'"
proof -
  let ?d = "put_waiter i s d"
  obtain r1 where r1: "Ring_Push (MakeSetupStageTRB s 0) r = Some (ring_addr r (length ds), r1)" "rbuf r1 = rbuf r"
    "rbuf_size r1 = rbuf_size r" "ring_holds (ds @ [MakeSetupStageTRB s 0]) r1" "ring_addr r1 = ring_addr r"
    using control_ring_push [OF c, of "MakeSetupStageTRB s 0"] by (auto simp: trb_lengths)
  have c1: "control_ring (set_ring kDefaultControlPipeID r1 ?d) r1 (ds @ [MakeSetupStageTRB s 0])"
    using r1 c by (simp add: control_ring_first [OF c]) (simp add: control_ring_def)
  have st: "trb_at (ring_addr r (length ds)) r1 = Some (stamp (even (length ds div (rbuf_size r - 1))) (MakeSetupStageTRB s 0))"
  proof -
    have "8 \<le> rbuf_size r" "rbuf_size r < 2 ^ 28" using c by (simp_all add: control_ring_def)
    then have "1 \<le> rbuf_size r - 1" "rbuf_size r1 < 2 ^ 28" using r1(3) by simp_all
    then show ?thesis using trb_at_ring [OF r1(4), of "length ds"] r1(3,5) by simp
  qed
  let ?status = "interrupt_on_completion (StatusStageTRB True)"
  obtain r2 where r2: "Ring_Push ?status r1 = Some (ring_addr r (Suc (length ds)), r2)" "rbuf r2 = rbuf r"
    "rbuf_size r2 = rbuf_size r" "ring_holds (ds @ out_request s) r2"
    using control_ring_push [OF c1, of ?status] r1(2,3,5) by (auto simp: trb_lengths out_request_def)
  show ?thesis
    using r1(1) r2 st control_number control_ring_transfer [OF c]
    by (intro exI [of _ r2])
       (simp add: ControlOut_def requested_def TRBDynamicCast_def trb_types)
qed

section \<open>A transfer completes\<close>

lemma map_Put_empty: "map_Put k v (replicate (Suc n) None) = Some (k, v) # replicate n None"
  by (simp add: map_Put_def)

lemma map_Get_first: "map_Get k (Some (k, v) # t) = Some v"
  by (simp add: map_Get_def key_at_def)

lemma map_Delete_first: "map_Delete k (Some (k, v) # t) = None # t"
  by (simp add: map_Delete_def key_at_def)

lemma trb_in_rings_first:
  assumes "control_ring d r ds" "j < length ds" "length ds \<le> j + 7"
  shows "trb_in_rings (ring_addr r j) (dv_transfer_rings d) = Some (stamp (even (j div (rbuf_size r - 1))) (ds ! j))"
proof -
  have n: "8 \<le> rbuf_size r" "ring_holds ds r" "rbuf_size r < 2 ^ 28"
    using assms(1) by (simp_all add: control_ring_def)
  then have "length ds \<le> j + (rbuf_size r - 1)" using assms(3) by linarith
  note n(2) this n(3)
  from trb_at_ring [OF this(1) assms(2) this(2,3)] show ?thesis
    using assms(1) by (cases "dv_transfer_rings d") (auto simp: control_ring_def)
qed

text \<open>A successful event for the data stage of a request hands the request and the data to \<^verbatim>\<open>OnControlCompleted\<close>.\<close>

definition completes :: "trb \<Rightarrow> u64 \<Rightarrow> nat \<Rightarrow> bool" where
  "completes ev a residual \<longleftrightarrow>
     trb_pointer ev = a \<and> te_completion_code ev \<in> {1, 13} \<and> te_residual_length ev = int residual"

definition idle_transfers :: "device \<Rightarrow> bool" where
  "idle_transfers d \<longleftrightarrow> dv_setup_stage_map d = replicate 16 None"

lemma requested_fields:
  "dv_buf (requested d r r' P) = dv_buf d" "dv_class_drivers (requested d r r' P) = dv_class_drivers d"
  "dv_ep_configs (requested d r r' P) = dv_ep_configs d" "dv_is_initialized (requested d r r' P) = dv_is_initialized d"
  "dv_initialize_phase (requested d r r' P) = dv_initialize_phase d" "dv_desc (requested d r r' P) = dv_desc d"
  "dv_event_waiters (requested d r r' P) = dv_event_waiters d"
  "dv_doorbells (requested d r r' P) = dv_doorbells d @ [kDefaultControlPipeID]"
  "dv_transfer_rings (requested d r r' P) = (dv_transfer_rings d)[0 := Some r']"
  "dv_setup_stage_map (requested d r r' P) = map_Put (ring_addr r (P + 1)) (ring_addr r P) (dv_setup_stage_map d)"
  "idle_transfers d \<Longrightarrow> dv_setup_stage_map (requested d r r' P) = Some (ring_addr r (P + 1), ring_addr r P) # replicate 15 None"
  using map_Put_empty [of "ring_addr r (P + 1)" "ring_addr r P" 15]
  by (simp_all add: requested_def ring_doorbell_def put_setup_def set_ring_def kDefaultControlPipeID_def EndpointID_def
      idle_transfers_def flip: replicate_Suc)

lemma control_ring_requested:
  assumes "control_ring d r ds" "ring_holds es r'" "rbuf_size r' = rbuf_size r"
  shows "control_ring (requested d r r' P) r' es"
  using assms by (cases "dv_transfer_rings d") (auto simp: control_ring_def requested_fields)

lemma in_request_completed:
  assumes c: "control_ring d r' (ds @ in_request s buf len)"
    and map: "dv_setup_stage_map d = Some (ring_addr r' (length ds + 1), ring_addr r' (length ds)) # replicate 15 None"
    and ev: "completes ev (ring_addr r' (length ds + 1)) residual" and len: "len < 131072"
  shows "OnTransferEventReceived nb mem ev d =
    OnControlCompleted nb mem (te_endpoint_id ev) s buf (int len - int residual)
      (d\<lparr>dv_setup_stage_map := replicate 16 None\<rparr>)"
proof -
  have data: "\<exists>c. trb_in_rings (ring_addr r' (length ds + 1)) (dv_transfer_rings d) =
      Some (stamp c (interrupt_on_completion (MakeDataStageTRB buf len True)))"
    using trb_in_rings_first [OF c, of "length ds + 1"] by (auto simp: in_request_def nth_append)
  have stp: "\<exists>c. trb_in_rings (ring_addr r' (length ds)) (dv_transfer_rings d) = Some (stamp c (MakeSetupStageTRB s 3))"
    using trb_in_rings_first [OF c, of "length ds"] by (auto simp: in_request_def nth_append)
  have rep: "None # replicate 15 None = replicate 16 (None :: (u64 \<times> u64) option)" by (simp add: numeral_eq_Suc)
  show ?thesis
    using data stp map ev
    by (auto simp: OnTransferEventReceived_def completes_def Let_def trb_types trb_lengths map_Get_first map_Delete_first rep
        setup_data_roundtrip data_stage_pointer data_stage_length [OF len])
qed

lemma out_request_completed:
  assumes c: "control_ring d r' (ds @ out_request s)"
    and map: "dv_setup_stage_map d = Some (ring_addr r' (length ds + 1), ring_addr r' (length ds)) # replicate 15 None"
    and ev: "completes ev (ring_addr r' (length ds + 1)) residual"
  shows "OnTransferEventReceived nb mem ev d =
    OnControlCompleted nb mem (te_endpoint_id ev) s 0 0 (d\<lparr>dv_setup_stage_map := replicate 16 None\<rparr>)"
proof -
  have status: "\<exists>c. trb_in_rings (ring_addr r' (length ds + 1)) (dv_transfer_rings d) =
      Some (stamp c (interrupt_on_completion (StatusStageTRB True)))"
    using trb_in_rings_first [OF c, of "length ds + 1"] by (auto simp: out_request_def nth_append)
  have stp: "\<exists>c. trb_in_rings (ring_addr r' (length ds)) (dv_transfer_rings d) = Some (stamp c (MakeSetupStageTRB s 0))"
    using trb_in_rings_first [OF c, of "length ds"] by (auto simp: out_request_def nth_append)
  have rep: "None # replicate 15 None = replicate 16 (None :: (u64 \<times> u64) option)" by (simp add: numeral_eq_Suc)
  show ?thesis
    using status stp map ev
    by (auto simp: OnTransferEventReceived_def completes_def Let_def trb_types trb_lengths map_Get_first map_Delete_first rep
        setup_data_roundtrip)
qed

lemma bytes_at_holds: "mem_holds mem a bs \<Longrightarrow> bytes_at mem a (int (length bs)) = bs"
  by (rule nth_equalityI) (simp_all add: bytes_at_def mem_holds_def)

lemma DescriptorDynamicCast_holds:
  "mem_holds mem a bs \<Longrightarrow> 1 < length bs \<Longrightarrow> DescriptorDynamicCast mem (bs ! 1) a = a"
  using mem_holds_nth [of mem a bs 1] by (simp add: DescriptorDynamicCast_def)

definition get_descriptor :: "u8 \<Rightarrow> setup_data" where
  "get_descriptor ty = \<lparr>sd_request_type = request_type_data 1 0 0, sd_request = 6,
                        sd_value = push_bit 8 (ucast ty), sd_index = 0, sd_length = 256\<rparr>"

definition set_configuration :: "u8 \<Rightarrow> setup_data" where
  "set_configuration v = \<lparr>sd_request_type = request_type_data 0 0 0, sd_request = 9, sd_value = ucast v, sd_index = 0, sd_length = 0\<rparr>"

text \<open>A device that waits for the completion of its last request, made after the TRBs \<open>ds\<close>.\<close>

definition waiting_in :: "device \<Rightarrow> ring \<Rightarrow> trb list \<Rightarrow> setup_data \<Rightarrow> bool" where
  "waiting_in d r ds s \<longleftrightarrow>
     control_ring d r (ds @ in_request s (dv_buf d) 256) \<and> dv_buf d \<noteq> 0 \<and>
     dv_setup_stage_map d = Some (ring_addr r (length ds + 1), ring_addr r (length ds)) # replicate 15 None"

definition waiting_out :: "device \<Rightarrow> ring \<Rightarrow> trb list \<Rightarrow> setup_data \<Rightarrow> bool" where
  "waiting_out d r ds s \<longleftrightarrow>
     control_ring d r (ds @ out_request s) \<and>
     dv_setup_stage_map d = Some (ring_addr r (length ds + 1), ring_addr r (length ds)) # replicate 15 None"

text \<open>What stays from one step to the next, apart from the ring.\<close>

definition steps_to :: "device \<Rightarrow> device \<Rightarrow> bool" where
  "steps_to d d' \<longleftrightarrow>
     dv_buf d' = dv_buf d \<and> dv_is_initialized d' = dv_is_initialized d \<and>
     dv_doorbells d' = dv_doorbells d @ [kDefaultControlPipeID]"

lemma GetDescriptor_waits:
  assumes "control_ring d r ds" "idle_transfers d" "dv_buf d \<noteq> 0"
  shows "\<exists>d' r'. GetDescriptor kDefaultControlPipeID ty 0 (dv_buf d) 256 d = Some (kSuccess, d') \<and>
    waiting_in d' r' ds (get_descriptor ty) \<and> ring_addr r' = ring_addr r \<and> steps_to d d' \<and>
    dv_initialize_phase d' = dv_initialize_phase d \<and> dv_desc d' = dv_desc d \<and>
    dv_class_drivers d' = dv_class_drivers d \<and> dv_ep_configs d' = dv_ep_configs d"
proof -
  obtain r' where r': "ControlIn kDefaultControlPipeID (get_descriptor ty) (dv_buf d) 256 None d =
      Some (kSuccess, requested d r r' (length ds))" "rbuf r' = rbuf r" "rbuf_size r' = rbuf_size r"
      "ring_holds (ds @ in_request (get_descriptor ty) (dv_buf d) 256) r'"
    using ControlIn_requested [OF assms(1,3)] by blast
  have addr: "ring_addr r' = ring_addr r" using r'(2,3) by (simp add: ring_addr_def fun_eq_iff)
  have "waiting_in (requested d r r' (length ds)) r' ds (get_descriptor ty)"
    using control_ring_requested [OF assms(1) r'(4,3)] requested_fields(11) [OF assms(2)] assms(3)
    by (simp add: waiting_in_def requested_fields addr)
  with r'(1) addr show ?thesis
    by (intro exI [of _ "requested d r r' (length ds)"] exI [of _ r'])
       (simp add: GetDescriptor_def get_descriptor_def requested_fields steps_to_def)
qed

lemma device_starts:
  assumes "control_ring d r ds" "idle_transfers d" "dv_buf d \<noteq> 0"
  shows "\<exists>d1 r1. StartInitialize d = Some (kSuccess, d1) \<and> waiting_in d1 r1 ds (get_descriptor kDeviceDesc) \<and>
    ring_addr r1 = ring_addr r \<and> dv_doorbells d1 = dv_doorbells d @ [kDefaultControlPipeID] \<and>
    \<not> dv_is_initialized d1 \<and> dv_initialize_phase d1 = 1 \<and> dv_class_drivers d1 = dv_class_drivers d \<and>
    dv_ep_configs d1 = dv_ep_configs d \<and> dv_buf d1 = dv_buf d"
proof -
  define d0 where "d0 = d\<lparr>dv_is_initialized := False, dv_initialize_phase := 1\<rparr>"
  have "control_ring d0 r ds" "idle_transfers d0" "dv_buf d0 \<noteq> 0"
    using assms by (simp_all add: control_ring_def idle_transfers_def d0_def)
  from GetDescriptor_waits [OF this, of kDeviceDesc] show ?thesis
    by (auto simp: StartInitialize_def d0_def steps_to_def)
qed

lemma SetConfiguration_waits:
  assumes "control_ring d r ds" "idle_transfers d"
  shows "\<exists>d' r'. SetConfiguration kDefaultControlPipeID v d = Some (kSuccess, d') \<and>
    waiting_out d' r' ds (set_configuration v) \<and> ring_addr r' = ring_addr r \<and> steps_to d d' \<and>
    dv_initialize_phase d' = dv_initialize_phase d \<and>
    dv_class_drivers d' = dv_class_drivers d \<and> dv_ep_configs d' = dv_ep_configs d"
proof -
  have w: "put_waiter None s d = d" for s by (simp add: put_waiter_def)
  obtain r' where r': "ControlOut kDefaultControlPipeID (set_configuration v) 0 0 None d =
      Some (kSuccess, requested d r r' (length ds))" "rbuf r' = rbuf r" "rbuf_size r' = rbuf_size r"
      "ring_holds (ds @ out_request (set_configuration v)) r'"
    using ControlOut_requested [of None "set_configuration v" d, unfolded w, OF assms(1)] by blast
  have addr: "ring_addr r' = ring_addr r" using r'(2,3) by (simp add: ring_addr_def fun_eq_iff)
  have "waiting_out (requested d r r' (length ds)) r' ds (set_configuration v)"
    using control_ring_requested [OF assms(1) r'(4,3)] requested_fields(11) [OF assms(2)]
    by (simp add: waiting_out_def addr)
  with r'(1) addr show ?thesis
    by (intro exI [of _ "requested d r r' (length ds)"] exI [of _ r'])
       (simp add: SetConfiguration_def set_configuration_def requested_fields steps_to_def)
qed

lemma phase1_completes:
  assumes w: "waiting_in d r ds (get_descriptor kDeviceDesc)" "\<not> dv_is_initialized d" "dv_initialize_phase d = 1"
    and mem: "mem_holds mem (dv_buf d) dd" "length dd = 18" "dd ! 1 = kDeviceDesc"
    and ev: "completes ev (ring_addr r (length ds + 1)) (256 - 18)"
  shows "\<exists>d' r'. OnTransferEventReceived nb mem ev d = Some (kSuccess, d') \<and>
    waiting_in d' r' (ds @ in_request (get_descriptor kDeviceDesc) (dv_buf d) 256) (get_descriptor kConfigurationDesc) \<and>
    ring_addr r' = ring_addr r \<and> steps_to d d' \<and> dv_initialize_phase d' = 2 \<and> dv_desc d' = dd \<and>
    dv_class_drivers d' = dv_class_drivers d \<and> dv_ep_configs d' = dv_ep_configs d"
proof -
  define d1 where "d1 = d\<lparr>dv_setup_stage_map := replicate 16 None, dv_desc := dd, dv_num_configurations := dd ! 17,
      dv_config_index := 0, dv_initialize_phase := 2\<rparr>"
  have c: "control_ring d1 r (ds @ in_request (get_descriptor kDeviceDesc) (dv_buf d) 256)" and b: "dv_buf d1 \<noteq> 0"
    and i: "idle_transfers d1"
    using w(1) by (simp_all add: waiting_in_def control_ring_def d1_def idle_transfers_def)
  have "bytes_at mem (dv_buf d) 18 = dd" "DescriptorDynamicCast mem kDeviceDesc (dv_buf d) = dv_buf d"
    using mem bytes_at_holds [OF mem(1)] DescriptorDynamicCast_holds [OF mem(1)] by simp_all
  then have hd: "OnControlCompleted nb mem e (get_descriptor kDeviceDesc) (dv_buf d) 18 (d\<lparr>dv_setup_stage_map := replicate 16 None\<rparr>) =
      GetDescriptor kDefaultControlPipeID kConfigurationDesc 0 (dv_buf d1) 256 d1" for e
    using w by (simp add: OnControlCompleted_def InitializePhase1_def Let_def d1_def get_descriptor_def waiting_in_def)
  have "OnTransferEventReceived nb mem ev d = GetDescriptor kDefaultControlPipeID kConfigurationDesc 0 (dv_buf d1) 256 d1"
    using in_request_completed [of d r ds "get_descriptor kDeviceDesc" "dv_buf d" 256 ev "256 - 18" nb mem] w(1) ev hd
    by (simp add: waiting_in_def)
  with GetDescriptor_waits [OF c i b, of kConfigurationDesc] show ?thesis
    by (simp add: steps_to_def d1_def)
qed

lemma phase2_completes:
  assumes w: "waiting_in d r ds (get_descriptor kConfigurationDesc)" "\<not> dv_is_initialized d" "dv_initialize_phase d = 2"
    and class0: "dv_desc d ! 4 = 0" and fresh: "dv_ep_configs d = []" "dv_class_drivers d = []"
    and mem: "mem_holds mem (dv_buf d) (concat (c # cs))" "length (concat (c # cs)) \<le> 256" "unat (dv_buf d) + 256 < 2 ^ 64"
    and conf: "list_all desc_ok (c # cs)" "c ! 1 = kConfigurationDesc" "chosen cs = Some (Some (k, n), eps)"
    and ev: "completes ev (ring_addr r (length ds + 1)) (256 - length (concat (c # cs)))"
  shows "\<exists>d' r' v. OnTransferEventReceived nb mem ev d = Some (kSuccess, d') \<and>
    waiting_out d' r' (ds @ in_request (get_descriptor kConfigurationDesc) (dv_buf d) 256) (set_configuration v) \<and>
    ring_addr r' = ring_addr r \<and> steps_to d d' \<and> dv_initialize_phase d' = 3 \<and>
    dv_class_drivers d' = [HID (new_hid k n nb)] \<and> dv_ep_configs d' = eps"
proof -
  define total where "total = length (concat (c # cs))"
  define d1 where "d1 = d\<lparr>dv_setup_stage_map := replicate 16 None, dv_ep_configs := eps,
      dv_class_drivers := [HID (new_hid k n nb)], dv_initialize_phase := 3\<rparr>"
  have ring: "control_ring d1 r (ds @ in_request (get_descriptor kConfigurationDesc) (dv_buf d) 256)" and b: "dv_buf d \<noteq> 0"
    and i: "idle_transfers d1"
    using w(1) by (simp_all add: waiting_in_def control_ring_def d1_def idle_transfers_def)
  have "0 < dv_buf d" using b by (simp add: word_gt_0)
  then have parsed: "interface_loop mem [] (ConfigurationDescriptorReader (dv_buf d) (int total)) = Some (Some (k, n), eps)"
    using configuration_loop_parsed [OF conf(1) mem(1) _ _ conf(3)] mem(2,3) by (simp add: total_def)
  have "2 \<le> length c" using conf(1) by (simp add: desc_ok_def)
  then have cast: "DescriptorDynamicCast mem kConfigurationDesc (dv_buf d) = dv_buf d"
    using DescriptorDynamicCast_holds [OF mem(1)] conf(2) by (simp add: nth_append)
  define v where "v = mem (dv_buf d + 5)"
  have hd: "OnControlCompleted nb mem e (get_descriptor kConfigurationDesc) (dv_buf d) (int total) (d\<lparr>dv_setup_stage_map := replicate 16 None\<rparr>) =
      SetConfiguration kDefaultControlPipeID v d1" for e
    using w(2,3) b class0 fresh parsed cast
    by (simp add: OnControlCompleted_def InitializePhase2_def Let_def d1_def get_descriptor_def v_def)
  have "OnTransferEventReceived nb mem ev d = SetConfiguration kDefaultControlPipeID v d1"
    using in_request_completed [of d r ds "get_descriptor kConfigurationDesc" "dv_buf d" 256 ev "256 - total" nb mem] w(1) ev hd mem(2)
    by (simp add: waiting_in_def total_def)
  with SetConfiguration_waits [OF ring i, of v] show ?thesis
    by (simp add: steps_to_def d1_def) blast
qed

lemma phase3_completes:
  assumes w: "waiting_out d r ds (set_configuration v)" "\<not> dv_is_initialized d" "dv_initialize_phase d = 3"
    and ev: "completes ev (ring_addr r (length ds + 1)) 0"
  shows "OnTransferEventReceived nb mem ev d =
    Some (kSuccess, d\<lparr>dv_setup_stage_map := replicate 16 None, dv_class_drivers := map (SetEndpoint (dv_ep_configs d)) (dv_class_drivers d),
      dv_initialize_phase := 4, dv_is_initialized := True\<rparr>)"
  using out_request_completed [of d r ds "set_configuration v" ev 0 nb mem] w ev
  by (simp add: waiting_out_def OnControlCompleted_def InitializePhase3_def set_configuration_def)

text \<open>
  C36: the enumeration of a keyboard or mouse.  \<^verbatim>\<open>StartInitialize\<close> asks for the device descriptor; when
  the transfer of 18 bytes completes, the handler asks for the configuration; when that completes,
  with descriptors among which a driver is chosen, it creates the driver and selects the
  configuration; and when that completes the device is initialised, with the driver on the
  endpoints of its interface. Each completion is told apart by the address of its TRB alone, through
  the map from data and status stages to the setup stages in the ring.
\<close>

theorem device_enumerated:
  assumes "control_ring d r ds" "idle_transfers d" "dv_buf d \<noteq> 0" "unat (dv_buf d) + 256 < 2 ^ 64"
    and "dv_class_drivers d = []" "dv_ep_configs d = []"
    and "mem_holds mem1 (dv_buf d) dd" "length dd = 18" "dd ! 1 = kDeviceDesc" "dd ! 4 = 0"
    and "mem_holds mem2 (dv_buf d) (concat (c # cs))" "length (concat (c # cs)) \<le> 256" "list_all desc_ok (c # cs)"
    and "c ! 1 = kConfigurationDesc" "chosen cs = Some (Some (k, n), eps)"
    and "completes ev1 (ring_addr r (length ds + 1)) (256 - 18)"
    and "completes ev2 (ring_addr r (length ds + 4)) (256 - length (concat (c # cs)))"
    and "completes ev3 (ring_addr r (length ds + 7)) 0"
  shows "\<exists>d1 d2 d3 d4.
    StartInitialize d = Some (kSuccess, d1) \<and>
    OnTransferEventReceived nb mem1 ev1 d1 = Some (kSuccess, d2) \<and>
    OnTransferEventReceived nb mem2 ev2 d2 = Some (kSuccess, d3) \<and>
    OnTransferEventReceived nb mem3 ev3 d3 = Some (kSuccess, d4) \<and>
    dv_is_initialized d4 \<and> dv_ep_configs d4 = eps \<and>
    dv_class_drivers d4 = [HID (HID_SetEndpoint eps (new_hid k n nb))] \<and>
    idle_transfers d4 \<and> dv_doorbells d4 = dv_doorbells d @ [1, 1, 1]"
proof -
  from device_starts [OF assms(1-3)] obtain d1 r1 where
    s1: "StartInitialize d = Some (kSuccess, d1)" and w1: "waiting_in d1 r1 ds (get_descriptor kDeviceDesc)"
    and a1: "ring_addr r1 = ring_addr r" and f1: "dv_doorbells d1 = dv_doorbells d @ [kDefaultControlPipeID]" "\<not> dv_is_initialized d1"
      "dv_initialize_phase d1 = 1" "dv_class_drivers d1 = []" "dv_ep_configs d1 = []" "dv_buf d1 = dv_buf d"
    using assms(5,6) by auto
  obtain d2 r2 where s2: "OnTransferEventReceived nb mem1 ev1 d1 = Some (kSuccess, d2)"
    and w2: "waiting_in d2 r2 (ds @ in_request (get_descriptor kDeviceDesc) (dv_buf d) 256) (get_descriptor kConfigurationDesc)"
    and a2: "ring_addr r2 = ring_addr r" and f2: "steps_to d1 d2" "dv_initialize_phase d2 = 2" "dv_desc d2 = dd"
      "dv_class_drivers d2 = []" "dv_ep_configs d2 = []"
    using phase1_completes [OF w1 f1(2,3), of mem1 dd ev1 nb] assms(7-9,16) f1 a1 by auto
  have n2: "\<not> dv_is_initialized d2" "dv_buf d2 = dv_buf d" using f2(1) f1 by (simp_all add: steps_to_def)
  let ?q = "(ds @ in_request (get_descriptor kDeviceDesc) (dv_buf d) 256) @ in_request (get_descriptor kConfigurationDesc) (dv_buf d) 256"
  have l: "length (ds @ in_request (get_descriptor kDeviceDesc) (dv_buf d) 256) + 1 = length ds + 4" "length ?q + 1 = length ds + 7"
    by (simp_all add: in_request_def)
  obtain d3 r3 v where s3: "OnTransferEventReceived nb mem2 ev2 d2 = Some (kSuccess, d3)"
    and w3: "waiting_out d3 r3 ?q (set_configuration v)"
    and a3: "ring_addr r3 = ring_addr r" and f3: "steps_to d2 d3" "dv_initialize_phase d3 = 3"
      "dv_class_drivers d3 = [HID (new_hid k n nb)]" "dv_ep_configs d3 = eps"
    using phase2_completes [OF w2 n2(1) f2(2), of mem2 c cs k n eps ev2 nb] assms(4,10-15,17) f2 n2 a2 unfolding l by auto
  have n3: "\<not> dv_is_initialized d3" using f3(1) n2 by (simp add: steps_to_def)
  have s4: "OnTransferEventReceived nb mem3 ev3 d3 = Some (kSuccess, d3\<lparr>dv_setup_stage_map := replicate 16 None,
      dv_class_drivers := [HID (HID_SetEndpoint eps (new_hid k n nb))], dv_initialize_phase := 4, dv_is_initialized := True\<rparr>)"
    using phase3_completes [OF w3 n3 f3(2), of ev3 nb mem3] assms(18) f3 unfolding l a3 by (simp add: SetEndpoint_def)
  have "dv_doorbells d3 = dv_doorbells d @ [1, 1, 1]"
    using f1(1) f2(1) f3(1) by (simp add: steps_to_def kDefaultControlPipeID_def EndpointID_def)
  then show ?thesis using s1 s2 s3 s4 f3(4) by (simp add: idle_transfers_def)
qed

text \<open>The device descriptor of a keyboard, its configuration, and the three events.\<close>

definition keyboard_device :: device where
  "keyboard_device =
     \<lparr>dv_slot_id = 1, dv_buf = 0x300000, dv_desc = [], dv_num_configurations = 0, dv_config_index = 0,
      dv_is_initialized = False, dv_initialize_phase = 0, dv_ep_configs = [], dv_class_drivers = [],
      dv_event_waiters = replicate 4 None,
      dv_transfer_rings = Some (fst (snd (Ring_Initialize 32 empty_ring usb_pool_example))) # replicate 30 None,
      dv_setup_stage_map = replicate 16 None, dv_doorbells = [], dv_key_pushes = [], dv_mouse_moves = []\<rparr>"

lemma keyboard_ring:
  "Ring_Initialize 32 empty_ring usb_pool_example =
     (kSuccess, \<lparr>rbuf = 0x200040, rtrbs = replicate 32 no_trb, rbuf_size = 32, rcycle_bit = True, rwrite_index = 0\<rparr>,
      usb_pool_example\<lparr>alloc_ptr := 0x200240\<rparr>)"
  by (simp add: Ring_Initialize_def empty_ring_def usb_pool_example_def AllocArray_def AllocMem_def Ceil_def
      kMemoryPoolSize_def Let_def)

lemma keyboard_device_ring:
  "control_ring keyboard_device \<lparr>rbuf = 0x200040, rtrbs = replicate 32 no_trb, rbuf_size = 32, rcycle_bit = True, rwrite_index = 0\<rparr> []"
  using ring_holds_Initialize [OF keyboard_ring]
  by (simp add: control_ring_def keyboard_device_def keyboard_ring)

theorem device_enumerated_witness:
  "\<exists>d1 d2 d3 d4.
    StartInitialize keyboard_device = Some (kSuccess, d1) \<and>
    OnTransferEventReceived 0x301000 (mem_of 0x300000 [18, 1, 0, 2, 0, 0, 0, 8, 0, 0, 0, 0, 0, 0, 0, 0, 0, 1])
      [0x200050, 0, 0x10000EE, 0] d1 = Some (kSuccess, d2) \<and>
    OnTransferEventReceived 0x301000 (mem_of 0x300000 (concat keyboard_configuration))
      [0x200080, 0, 0xD0000DE, 0] d2 = Some (kSuccess, d3) \<and>
    OnTransferEventReceived 0x301000 (mem_of 0 []) [0x2000B0, 0, 0x1000000, 0] d3 = Some (kSuccess, d4) \<and>
    map (\<lambda>c. case c of HID h \<Rightarrow> hid_ep_in h | CDC h \<Rightarrow> 0) (dv_class_drivers d4) = [3]"
proof -
  let ?r = "\<lparr>rbuf = 0x200040, rtrbs = replicate 32 no_trb, rbuf_size = 32, rcycle_bit = True, rwrite_index = 0\<rparr> :: ring"
  let ?dd = "[18, 1, 0, 2, 0, 0, 0, 8, 0, 0, 0, 0, 0, 0, 0, 0, 0, 1] :: u8 list"
  have c: "keyboard_configuration = hd keyboard_configuration # tl keyboard_configuration"
    by (simp add: keyboard_configuration_def)
  have m1: "mem_holds (mem_of 0x300000 ?dd) (dv_buf keyboard_device) ?dd"
    unfolding keyboard_device_def by simp (rule mem_holds_mem_of, simp)
  have m2: "mem_holds (mem_of 0x300000 (concat keyboard_configuration)) (dv_buf keyboard_device)
      (concat (hd keyboard_configuration # tl keyboard_configuration))"
    unfolding keyboard_device_def c [symmetric] by simp (rule mem_holds_mem_of, simp add: keyboard_configuration_ok(2))
  have len: "length (concat (hd keyboard_configuration # tl keyboard_configuration)) = 34"
    unfolding c [symmetric] by (rule keyboard_configuration_ok(2))
  have ok: "list_all desc_ok (hd keyboard_configuration # tl keyboard_configuration)"
    unfolding c [symmetric] by (rule keyboard_configuration_ok(1))
  have e1: "completes [0x200050, 0, 0x10000EE, 0] (ring_addr ?r (length ([] :: trb list) + 1)) (256 - 18)"
    and e2: "completes [0x200080, 0, 0xD0000DE, 0] (ring_addr ?r (length ([] :: trb list) + 4))
      (256 - length (concat (hd keyboard_configuration # tl keyboard_configuration)))"
    and e3: "completes [0x2000B0, 0, 0x1000000, 0] (ring_addr ?r (length ([] :: trb list) + 7)) 0"
    unfolding len
    by (simp_all add: completes_def trb_pointer_def te_completion_code_def te_residual_length_def ring_addr_def)
  have f: "idle_transfers keyboard_device" "dv_buf keyboard_device \<noteq> 0" "unat (dv_buf keyboard_device) + 256 < 2 ^ 64"
    "dv_class_drivers keyboard_device = []" "dv_ep_configs keyboard_device = []"
    "length ?dd = 18" "?dd ! 1 = kDeviceDesc" "?dd ! 4 = 0"
    "length (concat (hd keyboard_configuration # tl keyboard_configuration)) \<le> 256"
    "hd keyboard_configuration ! 1 = kConfigurationDesc"
    unfolding len by (simp_all add: keyboard_device_def idle_transfers_def kDeviceDesc_def kConfigurationDesc_def keyboard_configuration_def)
  from device_enumerated [OF keyboard_device_ring f(1-5) m1 f(6-8) m2 f(9) ok f(10) keyboard_configuration_ok(3) e1 e2 e3,
      of "0x301000" "mem_of 0 []"]
  show ?thesis
    unfolding c [symmetric] by (auto simp: HID_SetEndpoint_def new_hid_def IsIn_def)
qed

section \<open>Keys\<close>

text \<open>The keys a report names, but for the filler 0, and the keys held down by the notifications.\<close>

definition keys_of :: "(nat \<Rightarrow> u8) \<Rightarrow> u8 set" where
  "keys_of report = {k. k \<noteq> 0 \<and> k \<in> report ` {2..<8}}"

definition track :: "u8 \<times> u8 \<times> bool \<Rightarrow> u8 set \<Rightarrow> u8 set" where
  "track n held = (case n of (modifier, key, press) \<Rightarrow> if press then insert key held else held - {key})"

lemma report_keys_iff: "report_keys report k \<longleftrightarrow> (\<exists>i \<in> {2..<8}. unat (report i) = k)"
proof -
  have "fold (\<lambda>i f. f(unat (report i) := True)) is g k \<longleftrightarrow> g k \<or> (\<exists>i \<in> set is. unat (report i) = k)" for "is" g
    by (induction "is" arbitrary: g) auto
  then show ?thesis by (simp only: report_keys_def set_upt simp_thms)
qed

lemma keys_of_iff: "0 < k \<Longrightarrow> k < 256 \<Longrightarrow> of_nat k \<in> keys_of report \<longleftrightarrow> report_keys report k"
proof -
  assume k: "0 < k" "k < 256"
  have u: "unat (of_nat k :: u8) = k" using k by (simp add: unsigned_of_nat take_bit_nat_eq_self)
  then have nz: "of_nat k \<noteq> (0 :: u8)" using k(1) by (metis unat_0 less_irrefl)
  have "of_nat k = report i \<longleftrightarrow> unat (report i) = k" for i
    using u by (simp only: word_unat_eq_iff) (simp only: eq_commute)
  then show ?thesis using nz unfolding report_keys_iff keys_of_def image_iff mem_Collect_eq by simp
qed

lemma fold_track:
  "distinct ks \<Longrightarrow> fold track (map (\<lambda>k. (m, k, P k)) ks) held = (held - set ks) \<union> {k \<in> set ks. P k}"
  by (induction ks arbitrary: held) (auto simp: track_def)

lemma Keyboard_changes:
  "Keyboard_OnDataReceived p c =
     map (\<lambda>k. (c 0, k, k \<in> keys_of c)) (map of_nat (filter (\<lambda>k. report_keys p k \<noteq> report_keys c k) [1..<256]))"
  by (auto simp: Keyboard_OnDataReceived_def Let_def keys_of_iff)

lemma unat_of_nat_u8: "n < 256 \<Longrightarrow> unat (of_nat n :: u8) = n"
  by (simp add: unsigned_of_nat take_bit_nat_eq_self)

text \<open>
  C37: what the keyboard driver tells its observers is exactly the difference of the reports: each key
  that is in one of the two boot reports and not in the other, once, with the modifiers of the new
  report, as pressed when the new report has it; whoever follows the notifications holds exactly
  the keys of the new report.
\<close>

theorem keyboard_notifications:
  "fold track (Keyboard_OnDataReceived p c) (keys_of p) = keys_of c \<and>
   set (Keyboard_OnDataReceived p c) = (\<lambda>k. (c 0, k, k \<in> keys_of c)) ` ((keys_of p - keys_of c) \<union> (keys_of c - keys_of p)) \<and>
   distinct (map (\<lambda>(m, k, b). k) (Keyboard_OnDataReceived p c))"
proof -
  define ks where "ks = map (of_nat :: nat \<Rightarrow> u8) (filter (\<lambda>k. report_keys p k \<noteq> report_keys c k) [1..<256])"
  have K: "Keyboard_OnDataReceived p c = map (\<lambda>k. (c 0, k, k \<in> keys_of c)) ks"
    unfolding ks_def by (rule Keyboard_changes)
  have "inj_on (of_nat :: nat \<Rightarrow> u8) {1..<256}" by (rule inj_onI) (metis unat_of_nat_u8 atLeastLessThan_iff)
  then have "inj_on (of_nat :: nat \<Rightarrow> u8) (set (filter (\<lambda>k. report_keys p k \<noteq> report_keys c k) [1..<256]))"
    by (rule inj_on_subset) (simp only: set_filter set_upt, blast)
  then have "distinct ks"
    unfolding ks_def distinct_map by (simp only: simp_thms distinct_filter distinct_upt)
  have ks: "set ks = (keys_of p - keys_of c) \<union> (keys_of c - keys_of p)"
  proof (rule set_eqI)
    fix x :: u8
    have x: "of_nat (unat x) = x" "unat x < 256" by (simp_all add: unat_u8_bound)
    have "x \<in> set ks \<longleftrightarrow> 0 < unat x \<and> report_keys p (unat x) \<noteq> report_keys c (unat x)"
    proof -
      have "x \<in> set ks \<longleftrightarrow> (\<exists>k. 1 \<le> k \<and> k < 256 \<and> report_keys p k \<noteq> report_keys c k \<and> x = of_nat k)"
        unfolding ks_def set_map set_filter set_upt by auto
      also have "\<dots> \<longleftrightarrow> 0 < unat x \<and> report_keys p (unat x) \<noteq> report_keys c (unat x)"
        using x by (auto simp: unat_of_nat_u8 Suc_le_eq intro: exI [of _ "unat x"])
      finally show ?thesis .
    qed
    also have "\<dots> \<longleftrightarrow> x \<in> (keys_of p - keys_of c) \<union> (keys_of c - keys_of p)"
    proof (cases "0 < unat x")
      case True
      then show ?thesis using keys_of_iff [of "unat x" p] keys_of_iff [of "unat x" c] x by auto
    next
      case False
      then have "x = 0" by (simp add: unat_eq_0)
      then show ?thesis by (simp add: keys_of_def)
    qed
    finally show "x \<in> set ks \<longleftrightarrow> x \<in> (keys_of p - keys_of c) \<union> (keys_of c - keys_of p)" .
  qed
  have "fold track (Keyboard_OnDataReceived p c) (keys_of p) = keys_of c"
    unfolding K fold_track [OF \<open>distinct ks\<close>] ks by blast
  moreover have "map (\<lambda>(m, k, b). k) (Keyboard_OnDataReceived p c) = ks" unfolding K by (simp add: comp_def)
  ultimately show ?thesis using \<open>distinct ks\<close> by (simp add: K ks)
qed

end
