(* ===== verification/Xhci.thy ===== *)
theory Xhci
  imports UsbDevice
begin

text \<open>
  The xHCI host controller driver (\<^verbatim>\<open>src/kernel/usb/xhci/xhci.cpp\<close>, \<^verbatim>\<open>port.cpp\<close>, \<^verbatim>\<open>devmgr.cpp\<close>): the
  handlers of the controller's events, which take every root hub port from the reset to a configured
  device, one port at a time between reset and address; the table of devices by slot; and the loop
  that drains the event ring.  The controller is known by its registers, its memory and its events;
  what a port's status register reads as after a write is the argument \<open>hw\<close>.
\<close>

section \<open>State\<close>

datatype config_phase =
    PhNotConnected | PhWaitingAddressed | PhResettingPort | PhEnablingSlot | PhAddressingDevice
  | PhInitializingDevice | PhConfiguringEndpoints | PhConfigured

text \<open>Sizes and offsets the compiler chooses.\<close>

record layout =
  sizeof_Device :: u64
  sizeof_Ring :: u64
  sizeof_HIDDriver :: u64
  off_ctx :: u64
  off_input_ctx :: u64
  off_buf :: u64
  off_hid_buf :: u64

record endpoint_context =
  ec_ep_type :: nat
  ec_max_packet_size :: nat
  ec_max_burst_size :: nat
  ec_tr_dequeue :: u64
  ec_dequeue_cycle_state :: bool
  ec_interval :: u8
  ec_max_primary_streams :: nat
  ec_mult :: nat
  ec_error_count :: nat
  ec_average_trb_length :: nat

record slot_context =
  sc_route_string :: u32
  sc_root_hub_port_num :: u8
  sc_context_entries :: nat
  sc_speed :: nat

record input_context =
  ic_add_context_flags :: u32
  ic_slot :: slot_context
  ic_ep :: "nat \<Rightarrow> endpoint_context"

text \<open>
  The fields from \<open>portsc\<close> to \<open>xmem\<close> are also written by the controller: the status registers of the
  ports, the slot contexts of the devices it maintains, the event ring, the memory it transfers to.
\<close>

record xhc =
  port_config_phase :: "u8 \<Rightarrow> config_phase"
  addressing_port :: u8
  max_slots :: nat
  devices :: "nat \<Rightarrow> (u64 \<times> device) option"
  dcbaa :: "nat \<Rightarrow> u64"
  input_ctxs :: "nat \<Rightarrow> input_context"
  command_ring :: ring
  doorbells :: "(nat \<times> nat) list"
  xpool :: usb_pool
  portsc :: "u8 \<Rightarrow> u32"
  device_ctx :: "nat \<Rightarrow> slot_context"
  xevents :: event_ring
  xmem :: memory

type_synonym port_hw = "u8 \<Rightarrow> u32 \<Rightarrow> u32 \<Rightarrow> u32"
type_synonym xhc_result = "(kernel_error \<times> xhc) option"

section \<open>Ports\<close>

definition IsConnected :: "u8 \<Rightarrow> xhc \<Rightarrow> bool" where
  "IsConnected p s = bit (portsc s p) 0"

definition IsEnabled :: "u8 \<Rightarrow> xhc \<Rightarrow> bool" where
  "IsEnabled p s = bit (portsc s p) 1"

definition IsPortResetChanged :: "u8 \<Rightarrow> xhc \<Rightarrow> bool" where
  "IsPortResetChanged p s = bit (portsc s p) 21"

definition Speed :: "u8 \<Rightarrow> xhc \<Rightarrow> nat" where
  "Speed p s = unat (take_bit 4 (drop_bit 10 (portsc s p)))"

definition write_portsc :: "port_hw \<Rightarrow> u8 \<Rightarrow> u32 \<Rightarrow> xhc \<Rightarrow> xhc" where
  "write_portsc hw p v s = s\<lparr>portsc := (portsc s)(p := hw p (portsc s p) v)\<rparr>"

text \<open>The reset waits for the port to clear its reset bit; \<open>None\<close> when it never does.\<close>

definition Port_Reset :: "port_hw \<Rightarrow> u8 \<Rightarrow> xhc \<Rightarrow> xhc option" where
  "Port_Reset hw p s =
    (let s' = write_portsc hw p ((portsc s p AND 0x0e00c3e0) OR 0x00020010) s
     in if bit (portsc s' p) 4 then None else Some s')"

definition ClearPortResetChange :: "port_hw \<Rightarrow> u8 \<Rightarrow> xhc \<Rightarrow> xhc" where
  "ClearPortResetChange hw p s = write_portsc hw p ((portsc s p AND 0x0e01c3e0) OR push_bit 21 1) s"

section \<open>Devices by slot\<close>

definition FindBySlot :: "u8 \<Rightarrow> xhc \<Rightarrow> (u64 \<times> device) option" where
  "FindBySlot slot s = (if max_slots s < unat slot then None else devices s (unat slot))"

definition set_device :: "u8 \<Rightarrow> u64 \<Rightarrow> device \<Rightarrow> xhc \<Rightarrow> xhc" where
  "set_device slot a d s = s\<lparr>devices := (devices s)(unat slot := Some (a, d))\<rparr>"

text \<open>The pool is zero where nothing was allocated before, so are the fields a constructor leaves alone.\<close>

definition new_device :: "layout \<Rightarrow> u8 \<Rightarrow> u64 \<Rightarrow> device" where
  "new_device lay slot a =
     \<lparr>dv_slot_id = slot, dv_buf = a + off_buf lay, dv_desc = replicate 18 0, dv_num_configurations = 0,
      dv_config_index = 0, dv_is_initialized = False, dv_initialize_phase = 0, dv_ep_configs = [],
      dv_class_drivers = [], dv_event_waiters = replicate 4 None, dv_transfer_rings = replicate 31 None,
      dv_setup_stage_map = replicate 16 None, dv_doorbells = [], dv_key_pushes = [], dv_mouse_moves = []\<rparr>"

text \<open>
  The result of \<^verbatim>\<open>AllocArray\<close> is not looked at: with the pool used up, the constructor writes to address 0,
  which is \<open>None\<close> here.
\<close>

definition AllocDevice :: "layout \<Rightarrow> u8 \<Rightarrow> xhc \<Rightarrow> xhc_result" where
  "AllocDevice lay slot s =
    (if max_slots s < unat slot then Some (kInvalidSlotID, s)
     else if devices s (unat slot) \<noteq> None then Some (kAlreadyAllocated, s)
     else case AllocArray (sizeof_Device lay) 1 64 4096 (xpool s) of (a, p) \<Rightarrow>
       if a = 0 then None
       else Some (kSuccess, set_device slot a (new_device lay slot a) (s\<lparr>xpool := p\<rparr>)))"

definition LoadDCBAA :: "layout \<Rightarrow> u8 \<Rightarrow> u64 \<Rightarrow> xhc \<Rightarrow> kernel_error \<times> xhc" where
  "LoadDCBAA lay slot a s =
    (if max_slots s < unat slot then (kInvalidSlotID, s)
     else (kSuccess, s\<lparr>dcbaa := (dcbaa s)(unat slot := a + off_ctx lay)\<rparr>))"

text \<open>A new transfer ring; the result of its initialisation is not looked at.  \<open>None\<close> when there is no memory for the ring itself.\<close>

definition AllocTransferRing :: "layout \<Rightarrow> nat \<Rightarrow> nat \<Rightarrow> device \<Rightarrow> usb_pool \<Rightarrow> (ring \<times> device \<times> usb_pool) option" where
  "AllocTransferRing lay index buf_size d p =
    (case AllocArray (sizeof_Ring lay) 1 64 4096 p of (tr, p1) \<Rightarrow>
       if tr = 0 \<or> index = 0 \<or> 31 < index then None
       else case Ring_Initialize buf_size empty_ring p1 of (err, r, p2) \<Rightarrow>
         Some (r, d\<lparr>dv_transfer_rings := (dv_transfer_rings d)[index - 1 := Some r]\<rparr>, p2))"

section \<open>Commands\<close>

definition EnableSlotCommandTRB :: trb where
  "EnableSlotCommandTRB = [0, 0, 0, push_bit 10 9]"

definition AddressDeviceCommandTRB :: "u64 \<Rightarrow> u8 \<Rightarrow> trb" where
  "AddressDeviceCommandTRB ctx slot =
     [ucast (push_bit 4 (drop_bit 4 ctx)), ucast (drop_bit 32 ctx), 0, push_bit 10 11 OR push_bit 24 (ucast slot)]"

definition ConfigureEndpointCommandTRB :: "u64 \<Rightarrow> u8 \<Rightarrow> trb" where
  "ConfigureEndpointCommandTRB ctx slot =
     [ucast (push_bit 4 (drop_bit 4 ctx)), ucast (drop_bit 32 ctx), 0, push_bit 10 12 OR push_bit 24 (ucast slot)]"

definition push_command :: "trb \<Rightarrow> xhc \<Rightarrow> xhc option" where
  "push_command t s =
     (case Ring_Push t (command_ring s) of
        None \<Rightarrow> None
      | Some (a, r) \<Rightarrow> Some (s\<lparr>command_ring := r, doorbells := doorbells s @ [(0, 0)]\<rparr>))"

definition set_phase :: "u8 \<Rightarrow> config_phase \<Rightarrow> xhc \<Rightarrow> xhc" where
  "set_phase p ph s = s\<lparr>port_config_phase := (port_config_phase s)(p := ph)\<rparr>"

section \<open>The steps of a port\<close>

definition ResetPort :: "port_hw \<Rightarrow> u8 \<Rightarrow> xhc \<Rightarrow> xhc_result" where
  "ResetPort hw p s =
    (if \<not> IsConnected p s then Some (kSuccess, s)
     else if addressing_port s \<noteq> 0 then Some (kSuccess, set_phase p PhWaitingAddressed s)
     else if port_config_phase s p \<noteq> PhNotConnected \<and> port_config_phase s p \<noteq> PhWaitingAddressed
     then Some (kInvalidPhase, s)
     else map_option (Pair kSuccess) (Port_Reset hw p (set_phase p PhResettingPort (s\<lparr>addressing_port := p\<rparr>))))"

definition EnableSlot :: "port_hw \<Rightarrow> u8 \<Rightarrow> xhc \<Rightarrow> xhc_result" where
  "EnableSlot hw p s =
    (if IsEnabled p s \<and> IsPortResetChanged p s
     then map_option (Pair kSuccess)
            (push_command EnableSlotCommandTRB (set_phase p PhEnablingSlot (ClearPortResetChange hw p s)))
     else Some (kSuccess, s))"

definition DetermineMaxPacketSizeForControlPipe :: "nat \<Rightarrow> nat" where
  "DetermineMaxPacketSizeForControlPipe slot_speed = (if slot_speed = 4 then 512 else if slot_speed = 3 then 64 else 8)"

definition InitializeSlotContext :: "u8 \<Rightarrow> nat \<Rightarrow> slot_context" where
  "InitializeSlotContext p speed =
     \<lparr>sc_route_string = 0, sc_root_hub_port_num = p, sc_context_entries = 1, sc_speed = speed\<rparr>"

definition InitializeEP0Context :: "u64 \<Rightarrow> nat \<Rightarrow> endpoint_context \<Rightarrow> endpoint_context" where
  "InitializeEP0Context buf max_packet_size c =
     c\<lparr>ec_ep_type := 4, ec_max_packet_size := max_packet_size, ec_max_burst_size := 0,
       ec_tr_dequeue := push_bit 4 (drop_bit 4 buf), ec_dequeue_cycle_state := True, ec_interval := 0,
       ec_max_primary_streams := 0, ec_mult := 0, ec_error_count := 3\<rparr>"

definition AddressDevice :: "layout \<Rightarrow> u8 \<Rightarrow> u8 \<Rightarrow> xhc \<Rightarrow> xhc_result" where
  "AddressDevice lay port_id slot_id s0 = do {
     (err, s) \<leftarrow> AllocDevice lay slot_id s0;
     case FindBySlot slot_id s of
       None \<Rightarrow> Some (kInvalidSlotID, s)
     | Some (a, d) \<Rightarrow> do {
         let speed = Speed port_id s;
         (r, d', p') \<leftarrow> AllocTransferRing lay 1 32 d (xpool s);
         let ic = \<lparr>ic_add_context_flags = 3, ic_slot = InitializeSlotContext port_id speed,
                   ic_ep = (ic_ep (input_ctxs s (unat slot_id)))
                     (0 := InitializeEP0Context (rbuf r) (DetermineMaxPacketSizeForControlPipe speed)
                             (ic_ep (input_ctxs s (unat slot_id)) 0))\<rparr>;
         let s1 = set_device slot_id a d'
                    (s\<lparr>xpool := p', input_ctxs := (input_ctxs s)(unat slot_id := ic)\<rparr>);
         let s2 = snd (LoadDCBAA lay slot_id a s1);
         s3 \<leftarrow> push_command (AddressDeviceCommandTRB (a + off_input_ctx lay) slot_id)
                 (set_phase port_id PhAddressingDevice s2);
         Some (kSuccess, s3) } }"

definition InitializeDevice :: "u8 \<Rightarrow> u8 \<Rightarrow> xhc \<Rightarrow> xhc_result" where
  "InitializeDevice port_id slot_id s =
    (case FindBySlot slot_id s of
       None \<Rightarrow> Some (kInvalidSlotID, s)
     | Some (a, d) \<Rightarrow> do {
         (err, d') \<leftarrow> StartInitialize d;
         Some (kSuccess, set_device slot_id a d' (set_phase port_id PhInitializingDevice s)) })"

definition CompleteConfiguration :: "u8 \<Rightarrow> u8 \<Rightarrow> xhc \<Rightarrow> xhc_result" where
  "CompleteConfiguration port_id slot_id s =
    (case FindBySlot slot_id s of
       None \<Rightarrow> Some (kInvalidSlotID, s)
     | Some (a, d) \<Rightarrow> do {
         (err, d') \<leftarrow> OnEndpointsConfigured d;
         Some (kSuccess, set_phase port_id PhConfigured (set_device slot_id a d' s)) })"

section \<open>Configuring the endpoints\<close>

primrec bit_below :: "nat \<Rightarrow> u32 \<Rightarrow> int" where
  "bit_below 0 v = - 1"
| "bit_below (Suc n) v = (if bit v n then int n else bit_below n v)"

definition MostSignificantBit :: "u32 \<Rightarrow> int" where
  "MostSignificantBit v = bit_below 32 v"

definition convert_interval :: "nat \<Rightarrow> endpoint_type \<Rightarrow> int \<Rightarrow> int" where
  "convert_interval port_speed ty interval =
    (if port_speed = 1 \<or> port_speed = 2
     then if ty = kIsochronous then interval + 2 else MostSignificantBit (of_int interval) + 3
     else interval - 1)"

definition ep_context_type :: "endpoint_config \<Rightarrow> nat" where
  "ep_context_type c =
    (case ep_type c of
       kControl \<Rightarrow> 4
     | kIsochronous \<Rightarrow> if IsIn (ep_id c) then 5 else 1
     | kBulk \<Rightarrow> if IsIn (ep_id c) then 6 else 2
     | kInterrupt \<Rightarrow> if IsIn (ep_id c) then 7 else 3)"

fun configure_eps :: "layout \<Rightarrow> nat \<Rightarrow> endpoint_config list \<Rightarrow> input_context \<Rightarrow> device \<Rightarrow> usb_pool \<Rightarrow>
    (input_context \<times> device \<times> usb_pool) option" where
  "configure_eps lay speed [] ic d p = Some (ic, d, p)"
| "configure_eps lay speed (c # cs) ic d p = do {
     (r, d', p') \<leftarrow> AllocTransferRing lay (ep_id c) 32 d p;
     let ec = (ic_ep ic (ep_id c - 1))\<lparr>ec_ep_type := ep_context_type c, ec_max_packet_size := ep_max_packet_size c,
           ec_interval := of_int (convert_interval speed (ep_type c) (int (ep_interval c))),
           ec_average_trb_length := 1, ec_tr_dequeue := push_bit 4 (drop_bit 4 (rbuf r)),
           ec_dequeue_cycle_state := True, ec_max_primary_streams := 0, ec_mult := 0, ec_error_count := 3\<rparr>;
     configure_eps lay speed cs
       (ic\<lparr>ic_add_context_flags := ic_add_context_flags ic OR push_bit (ep_id c) 1,
           ic_ep := (ic_ep ic)(ep_id c - 1 := ec)\<rparr>) d' p' }"

definition ConfigureEndpoints :: "layout \<Rightarrow> u8 \<Rightarrow> u64 \<Rightarrow> device \<Rightarrow> xhc \<Rightarrow> xhc_result" where
  "ConfigureEndpoints lay slot_id a d s =
    (let ctx = device_ctx s (unat slot_id);
         ic = (input_ctxs s (unat slot_id))\<lparr>ic_add_context_flags := 1, ic_slot := ctx\<lparr>sc_context_entries := 31\<rparr>\<rparr>;
         s1 = s\<lparr>input_ctxs := (input_ctxs s)(unat slot_id := ic)\<rparr>;
         port_id = sc_root_hub_port_num ctx;
         port_speed = Speed port_id s
     in if port_speed = 0 \<or> port_speed > 5 then Some (kUnknownXHCISpeedID, s1)
        else do {
          (ic', d', p') \<leftarrow> configure_eps lay port_speed (dv_ep_configs d) ic d (xpool s1);
          let s2 = set_device slot_id a d' (s1\<lparr>xpool := p', input_ctxs := (input_ctxs s1)(unat slot_id := ic')\<rparr>);
          s3 \<leftarrow> push_command (ConfigureEndpointCommandTRB (a + off_input_ctx lay) (dv_slot_id d))
                  (set_phase port_id PhConfiguringEndpoints s2);
          Some (kSuccess, s3) })"

section \<open>Events\<close>

definition psc_port_id :: "trb \<Rightarrow> u8" where
  "psc_port_id t = ucast (drop_bit 24 (t ! 0))"

definition cc_slot_id :: "trb \<Rightarrow> u8" where
  "cc_slot_id t = ucast (drop_bit 24 (t ! 3))"

definition cc_pointer :: "trb \<Rightarrow> u64" where
  "cc_pointer t = push_bit 4 (drop_bit 4 (trb_pointer t))"

definition OnPortStatusChange :: "port_hw \<Rightarrow> trb \<Rightarrow> xhc \<Rightarrow> xhc_result" where
  "OnPortStatusChange hw t s =
    (let port_id = psc_port_id t
     in case port_config_phase s port_id of
          PhNotConnected \<Rightarrow> ResetPort hw port_id s
        | PhResettingPort \<Rightarrow> EnableSlot hw port_id s
        | _ \<Rightarrow> Some (kInvalidPhase, s))"

text \<open>A driver the device gets while it is enumerated takes its memory from the pool.\<close>

definition OnTransferEvent :: "layout \<Rightarrow> trb \<Rightarrow> xhc \<Rightarrow> xhc_result" where
  "OnTransferEvent lay t s =
    (let slot_id = te_slot_id t
     in case FindBySlot slot_id s of
          None \<Rightarrow> Some (kInvalidSlotID, s)
        | Some (a, d) \<Rightarrow>
            (case AllocMem (sizeof_HIDDriver lay) 0 0 (xpool s) of (drv, p) \<Rightarrow> do {
               (err, d') \<leftarrow> OnTransferEventReceived (drv + off_hid_buf lay) (xmem s) t d;
               let s1 = set_device slot_id a d' s;
               let s2 = (if length (dv_class_drivers d') = length (dv_class_drivers d) then s1 else s1\<lparr>xpool := p\<rparr>);
               let port_id = sc_root_hub_port_num (device_ctx s2 (unat slot_id));
               if err \<noteq> kSuccess then Some (err, s2)
               else if dv_is_initialized d' \<and> port_config_phase s2 port_id = PhInitializingDevice
               then ConfigureEndpoints lay slot_id a d' s2
               else Some (kSuccess, s2) }))"

text \<open>The first port that waits for its turn.\<close>

definition waiting_port :: "xhc \<Rightarrow> u8 option" where
  "waiting_port s = map_option of_nat (find_idx (\<lambda>i. port_config_phase s (of_nat i) = PhWaitingAddressed) [0..<256])"

definition OnCommandCompletion :: "port_hw \<Rightarrow> layout \<Rightarrow> trb \<Rightarrow> xhc \<Rightarrow> xhc_result" where
  "OnCommandCompletion hw lay t s = do {
     issuer \<leftarrow> trb_at (cc_pointer t) (command_ring s);
     let issuer_type = trb_type issuer;
     let slot_id = cc_slot_id t;
     if issuer_type = 9
     then if port_config_phase s (addressing_port s) \<noteq> PhEnablingSlot then Some (kInvalidPhase, s)
          else AddressDevice lay (addressing_port s) slot_id s
     else if issuer_type = 11
     then case FindBySlot slot_id s of
            None \<Rightarrow> Some (kInvalidSlotID, s)
          | Some dev \<Rightarrow>
              let port_id = sc_root_hub_port_num (device_ctx s (unat slot_id))
              in if port_id \<noteq> addressing_port s then Some (kInvalidPhase, s)
                 else if port_config_phase s port_id \<noteq> PhAddressingDevice then Some (kInvalidPhase, s)
                 else let s1 = s\<lparr>addressing_port := 0\<rparr>
                      in case waiting_port s1 of
                           None \<Rightarrow> InitializeDevice port_id slot_id s1
                         | Some i \<Rightarrow> do {
                             (err, s2) \<leftarrow> ResetPort hw i s1;
                             if err \<noteq> kSuccess then Some (err, s2) else InitializeDevice port_id slot_id s2 }
     else if issuer_type = 12
     then case FindBySlot slot_id s of
            None \<Rightarrow> Some (kInvalidSlotID, s)
          | Some dev \<Rightarrow>
              let port_id = sc_root_hub_port_num (device_ctx s (unat slot_id))
              in if port_config_phase s port_id \<noteq> PhConfiguringEndpoints then Some (kInvalidPhase, s)
                 else CompleteConfiguration port_id slot_id s
     else Some (kInvalidPhase, s) }"

definition handle_event :: "port_hw \<Rightarrow> layout \<Rightarrow> trb \<Rightarrow> xhc \<Rightarrow> xhc_result" where
  "handle_event hw lay t s =
    (if trb_type t = 32 then OnTransferEvent lay t s
     else if trb_type t = 34 then OnPortStatusChange hw t s
     else if trb_type t = 33 then OnCommandCompletion hw lay t s
     else Some (kNotImplemented, s))"

definition ProcessEvent :: "port_hw \<Rightarrow> layout \<Rightarrow> xhc \<Rightarrow> xhc_result" where
  "ProcessEvent hw lay s = do {
     has \<leftarrow> HasFront (xevents s);
     if \<not> has then Some (kSuccess, s)
     else do {
       t \<leftarrow> event_at (Front (xevents s)) (xevents s);
       (err, s') \<leftarrow> handle_event hw lay t s;
       Some (err, s'\<lparr>xevents := Pop (xevents s')\<rparr>) } }"

text \<open>The errors of the single events are only logged.\<close>

definition ProcessEvents :: "port_hw \<Rightarrow> layout \<Rightarrow> nat \<Rightarrow> xhc \<Rightarrow> xhc option" where
  "ProcessEvents hw lay = event_loop (\<lambda>s. HasFront (xevents s)) (\<lambda>s. map_option snd (ProcessEvent hw lay s))"

definition ConfigurePort :: "port_hw \<Rightarrow> u8 \<Rightarrow> xhc \<Rightarrow> xhc_result" where
  "ConfigurePort hw p s =
    (if port_config_phase s p = PhNotConnected then ResetPort hw p s else Some (kSuccess, s))"

section \<open>What the handlers leave alone\<close>

lemma frames [frame]:
  "port_config_phase (write_portsc hw p v s) = port_config_phase s" "addressing_port (write_portsc hw p v s) = addressing_port s"
  "xevents (write_portsc hw p v s) = xevents s" "xevents (set_phase p ph s) = xevents s"
  "port_config_phase (set_phase p ph s) = (port_config_phase s)(p := ph)" "addressing_port (set_phase p ph s) = addressing_port s"
  "port_config_phase (set_device slot a d s) = port_config_phase s" "addressing_port (set_device slot a d s) = addressing_port s"
  "xevents (set_device slot a d s) = xevents s"
  "portsc (set_phase p ph s) = portsc s" "portsc (set_device slot a d s) = portsc s"
  by (simp_all add: write_portsc_def set_phase_def set_device_def)

lemma push_command_frame:
  "push_command t s = Some s' \<Longrightarrow> port_config_phase s' = port_config_phase s \<and> addressing_port s' = addressing_port s \<and>
     xevents s' = xevents s \<and> portsc s' = portsc s"
  by (auto simp: push_command_def split: option.splits prod.splits)

lemma AllocDevice_frame:
  "AllocDevice lay slot s = Some (err, s') \<Longrightarrow> port_config_phase s' = port_config_phase s \<and>
     addressing_port s' = addressing_port s \<and> xevents s' = xevents s \<and> portsc s' = portsc s"
  by (auto simp: AllocDevice_def frame split: prod.splits if_splits)

lemma LoadDCBAA_frame:
  "port_config_phase (snd (LoadDCBAA lay slot a s)) = port_config_phase s \<and> addressing_port (snd (LoadDCBAA lay slot a s)) = addressing_port s \<and>
     xevents (snd (LoadDCBAA lay slot a s)) = xevents s \<and> portsc (snd (LoadDCBAA lay slot a s)) = portsc s"
  by (simp add: LoadDCBAA_def)

lemma Port_Reset_frame:
  "Port_Reset hw p s = Some s' \<Longrightarrow> port_config_phase s' = port_config_phase s \<and> addressing_port s' = addressing_port s \<and> xevents s' = xevents s"
  by (auto simp: Port_Reset_def Let_def frame split: if_splits)

text \<open>What each step makes of the phases, when it returns.\<close>

lemma ResetPort_phase:
  assumes "ResetPort hw p s = Some (err, s')"
  shows "xevents s' = xevents s \<and>
    (if \<not> IsConnected p s then s' = s \<and> err = kSuccess
     else if addressing_port s \<noteq> 0
     then port_config_phase s' = (port_config_phase s)(p := PhWaitingAddressed) \<and> addressing_port s' = addressing_port s \<and> err = kSuccess
     else if port_config_phase s p \<in> {PhNotConnected, PhWaitingAddressed}
     then port_config_phase s' = (port_config_phase s)(p := PhResettingPort) \<and> addressing_port s' = p \<and> err = kSuccess
     else s' = s \<and> err = kInvalidPhase)"
  using assms by (auto simp: ResetPort_def frame dest!: Port_Reset_frame split: if_splits)

lemma EnableSlot_phase:
  assumes "EnableSlot hw p s = Some (err, s')"
  shows "addressing_port s' = addressing_port s \<and> xevents s' = xevents s \<and>
    (port_config_phase s' = port_config_phase s \<or> port_config_phase s' = (port_config_phase s)(p := PhEnablingSlot))"
  using assms by (auto simp: EnableSlot_def ClearPortResetChange_def frame dest!: push_command_frame split: if_splits)

lemma AddressDevice_phase:
  assumes "AddressDevice lay p slot s = Some (err, s')"
  shows "addressing_port s' = addressing_port s \<and> xevents s' = xevents s \<and>
    (port_config_phase s' = port_config_phase s \<or> port_config_phase s' = (port_config_phase s)(p := PhAddressingDevice))"
  using assms
  by (auto simp: AddressDevice_def Let_def frame LoadDCBAA_frame bind_eq_Some_conv
      dest!: push_command_frame AllocDevice_frame split: option.splits prod.splits)

lemma InitializeDevice_phase:
  assumes "InitializeDevice p slot s = Some (err, s')"
  shows "addressing_port s' = addressing_port s \<and> xevents s' = xevents s \<and>
    (if FindBySlot slot s = None then s' = s else port_config_phase s' = (port_config_phase s)(p := PhInitializingDevice))"
  using assms by (auto simp: InitializeDevice_def frame bind_eq_Some_conv split: option.splits prod.splits)

lemma CompleteConfiguration_phase:
  assumes "CompleteConfiguration p slot s = Some (err, s')"
  shows "addressing_port s' = addressing_port s \<and> xevents s' = xevents s \<and>
    (port_config_phase s' = port_config_phase s \<or> port_config_phase s' = (port_config_phase s)(p := PhConfigured))"
  using assms by (auto simp: CompleteConfiguration_def frame bind_eq_Some_conv split: option.splits prod.splits)

lemma ConfigureEndpoints_phase:
  assumes "ConfigureEndpoints lay slot a d s = Some (err, s')"
  shows "addressing_port s' = addressing_port s \<and> xevents s' = xevents s \<and>
    (port_config_phase s' = port_config_phase s \<or>
     port_config_phase s' = (port_config_phase s)(sc_root_hub_port_num (device_ctx s (unat slot)) := PhConfiguringEndpoints))"
  using assms by (auto simp: ConfigureEndpoints_def Let_def frame bind_eq_Some_conv dest!: push_command_frame split: if_splits prod.splits)

lemma OnTransferEvent_phase:
  assumes "OnTransferEvent lay t s = Some (err, s')"
  shows "addressing_port s' = addressing_port s \<and> xevents s' = xevents s \<and>
    (port_config_phase s' = port_config_phase s \<or>
     (\<exists>p. port_config_phase s p = PhInitializingDevice \<and> port_config_phase s' = (port_config_phase s)(p := PhConfiguringEndpoints)))"
  using assms
  by (auto simp: OnTransferEvent_def Let_def frame bind_eq_Some_conv set_device_def dest!: ConfigureEndpoints_phase
      split: option.splits prod.splits if_splits)

section \<open>One port at a time\<close>

definition active :: "config_phase \<Rightarrow> bool" where
  "active ph \<longleftrightarrow> ph = PhResettingPort \<or> ph = PhEnablingSlot \<or> ph = PhAddressingDevice"

lemma active_simps [simp]:
  "active PhResettingPort" "active PhEnablingSlot" "active PhAddressingDevice"
  "\<not> active PhNotConnected" "\<not> active PhWaitingAddressed" "\<not> active PhInitializingDevice"
  "\<not> active PhConfiguringEndpoints" "\<not> active PhConfigured"
  by (simp_all add: active_def)

definition phases_ok :: "xhc \<Rightarrow> bool" where
  "phases_ok s \<longleftrightarrow>
     port_config_phase s 0 = PhNotConnected \<and>
     (\<forall>p. active (port_config_phase s p) \<longleftrightarrow> addressing_port s \<noteq> 0 \<and> p = addressing_port s)"

lemma phases_ok_active: "phases_ok s \<Longrightarrow> active (port_config_phase s p) \<Longrightarrow> p \<noteq> 0 \<and> addressing_port s = p"
  by (auto simp: phases_ok_def)

lemma phases_ok_same:
  "phases_ok s \<Longrightarrow> port_config_phase s' = port_config_phase s \<Longrightarrow> addressing_port s' = addressing_port s \<Longrightarrow> phases_ok s'"
  by (simp add: phases_ok_def)

lemma phases_ok_update:
  assumes "phases_ok s" "port_config_phase s' = (port_config_phase s)(p := ph)" "addressing_port s' = addressing_port s"
    and "active ph \<longleftrightarrow> active (port_config_phase s p)" "p \<noteq> 0"
  shows "phases_ok s'"
  using assms by (simp add: phases_ok_def)

lemma ResetPort_ok:
  assumes ok: "phases_ok s" and p: "p \<noteq> 0" "port_config_phase s p \<in> {PhNotConnected, PhWaitingAddressed}"
    and r: "ResetPort hw p s = Some (err, s')"
  shows "phases_ok s' \<and> err = kSuccess"
proof -
  note ph = ResetPort_phase [OF r]
  show ?thesis
  proof (cases "IsConnected p s \<and> addressing_port s = 0")
    case True
    then have "port_config_phase s' = (port_config_phase s)(p := PhResettingPort)" "addressing_port s' = p" "err = kSuccess"
      using ph p(2) by auto
    then show ?thesis using ok True p(1) by (simp add: phases_ok_def)
  next
    case False
    then show ?thesis
      using ph ok p by (auto intro: phases_ok_update [OF ok, of s' p PhWaitingAddressed] split: if_splits)
  qed
qed

lemma waiting_port_some: "waiting_port s = Some i \<Longrightarrow> port_config_phase s i = PhWaitingAddressed"
  by (auto simp: waiting_port_def dest!: find_idx_SomeD)

text \<open>The completion of Address Device: the port is done, the next one that waits begins.\<close>

lemma address_completed:
  assumes ok: "phases_ok s" and t: "trb_at (cc_pointer t) (command_ring s) = Some iss" "trb_type iss = 11"
    and r: "OnCommandCompletion hw lay t s = Some (err, s')"
  shows "phases_ok s' \<and> xevents s' = xevents s \<and>
    (s' = s \<or>
     (let p = addressing_port s; s1 = s\<lparr>addressing_port := 0\<rparr>
      in port_config_phase s p = PhAddressingDevice \<and> p \<noteq> 0 \<and>
         (case waiting_port s1 of
            None \<Rightarrow> InitializeDevice p (cc_slot_id t) s1 = Some (err, s')
          | Some i \<Rightarrow> \<exists>s2. ResetPort hw i s1 = Some (kSuccess, s2) \<and> InitializeDevice p (cc_slot_id t) s2 = Some (err, s'))))"
proof (cases "s' = s")
  case True
  then show ?thesis using ok by simp
next
  case False
  define p where "p = addressing_port s"
  define s1 where "s1 = s\<lparr>addressing_port := 0\<rparr>"
  have d: "FindBySlot (cc_slot_id t) s \<noteq> None" "sc_root_hub_port_num (device_ctx s (unat (cc_slot_id t))) = p"
    "port_config_phase s p = PhAddressingDevice"
    using r t False by (auto simp: OnCommandCompletion_def Let_def p_def split: option.splits if_splits)
  have p: "p \<noteq> 0" using phases_ok_active [OF ok, of p] d(3) by simp
  have others: "active (port_config_phase s q) \<longleftrightarrow> q = p" for q using ok p by (simp add: phases_ok_def p_def)
  have z: "port_config_phase s 0 = PhNotConnected" using ok by (simp add: phases_ok_def)
  have fin: "phases_ok s''" if "InitializeDevice p (cc_slot_id t) s2 = Some (e, s'')" "FindBySlot (cc_slot_id t) s2 \<noteq> None"
    "\<And>q. q \<noteq> p \<Longrightarrow> active (port_config_phase s2 q) \<longleftrightarrow> addressing_port s2 \<noteq> 0 \<and> q = addressing_port s2"
    "addressing_port s2 \<noteq> p" "port_config_phase s2 0 = PhNotConnected" for s2 s'' e
    using InitializeDevice_phase [OF that(1)] that(2-5) p by (auto simp: phases_ok_def)
  show ?thesis
  proof (cases "waiting_port s1")
    case None
    then have i: "InitializeDevice p (cc_slot_id t) s1 = Some (err, s')"
      using r t d by (auto simp: OnCommandCompletion_def Let_def p_def s1_def split: option.splits)
    moreover have "phases_ok s'" using d(1) others p z by (intro fin [OF i]) (auto simp: s1_def FindBySlot_def)
    moreover have "xevents s' = xevents s" using InitializeDevice_phase [OF i] by (simp add: s1_def)
    ultimately show ?thesis using None d p by (simp add: Let_def p_def [symmetric] s1_def [symmetric])
  next
    case (Some i)
    have w: "port_config_phase s1 i = PhWaitingAddressed" using waiting_port_some [OF Some] .
    then have ip: "i \<noteq> p" "i \<noteq> 0" using d(3) z by (auto simp: s1_def)
    obtain e2 s2 where s2: "ResetPort hw i s1 = Some (e2, s2)"
      using r t d Some by (auto simp: OnCommandCompletion_def Let_def p_def [symmetric] s1_def [symmetric] bind_eq_Some_conv split: option.splits)
    note ph = ResetPort_phase [OF s2]
    have e2: "e2 = kSuccess" using ph w by (auto simp: s1_def split: if_splits)
    have i: "InitializeDevice p (cc_slot_id t) s2 = Some (err, s')"
      using r t d Some s2 e2 by (auto simp: OnCommandCompletion_def Let_def p_def [symmetric] s1_def [symmetric] split: option.splits)
    have dev: "FindBySlot (cc_slot_id t) s2 \<noteq> None"
      using s2 d(1) by (auto simp: ResetPort_def Port_Reset_def Let_def FindBySlot_def s1_def set_phase_def write_portsc_def split: if_splits)
    have "phases_ok s'"
      using ph w ip others p z by (intro fin [OF i dev]) (auto simp: s1_def split: if_splits)
    moreover have "xevents s' = xevents s" using InitializeDevice_phase [OF i] ph by (simp add: s1_def)
    ultimately show ?thesis using Some d p s2 e2 i by (simp add: Let_def p_def [symmetric] s1_def [symmetric])
  qed
qed

lemma OnCommandCompletion_other:
  assumes "trb_at (cc_pointer t) (command_ring s) = Some iss" "trb_type iss \<noteq> 11"
    and "OnCommandCompletion hw lay t s = Some (err, s')"
  shows "addressing_port s' = addressing_port s \<and> xevents s' = xevents s \<and>
    (port_config_phase s' = port_config_phase s \<or>
     port_config_phase s (addressing_port s) = PhEnablingSlot \<and>
       port_config_phase s' = (port_config_phase s)(addressing_port s := PhAddressingDevice) \<or>
     (\<exists>p. port_config_phase s p = PhConfiguringEndpoints \<and> port_config_phase s' = (port_config_phase s)(p := PhConfigured)))"
  using assms
  by (auto simp: OnCommandCompletion_def Let_def dest!: AddressDevice_phase CompleteConfiguration_phase
      split: option.splits if_splits)

lemma handle_event_ok:
  assumes ok: "phases_ok s" and t: "trb_type t = 34 \<Longrightarrow> psc_port_id t \<noteq> 0" and h: "handle_event hw lay t s = Some (err, s')"
  shows "phases_ok s' \<and> xevents s' = xevents s"
proof -
  consider "trb_type t = 32" | "trb_type t = 34" | "trb_type t = 33" | "trb_type t \<notin> {32, 33, 34}" by auto
  then show ?thesis
  proof cases
    case 1
    then have "OnTransferEvent lay t s = Some (err, s')" using h by (simp add: handle_event_def)
    from OnTransferEvent_phase [OF this] show ?thesis
    proof (elim conjE disjE exE)
      fix p assume a: "addressing_port s' = addressing_port s" "xevents s' = xevents s"
        "port_config_phase s p = PhInitializingDevice" "port_config_phase s' = (port_config_phase s)(p := PhConfiguringEndpoints)"
      then have "p \<noteq> 0" using ok by (auto simp: phases_ok_def)
      with a show ?thesis using phases_ok_update [OF ok a(4,1)] by simp
    qed (simp add: phases_ok_same [OF ok])
  next
    case 2
    then have h': "OnPortStatusChange hw t s = Some (err, s')" and p: "psc_port_id t \<noteq> 0"
      using h t by (simp_all add: handle_event_def)
    show ?thesis
    proof (cases "port_config_phase s (psc_port_id t)")
      case PhNotConnected
      then have r: "ResetPort hw (psc_port_id t) s = Some (err, s')" using h' by (simp add: OnPortStatusChange_def Let_def)
      then show ?thesis using ResetPort_ok [OF ok p _ r] ResetPort_phase [OF r] PhNotConnected by simp
    next
      case PhResettingPort
      then have "EnableSlot hw (psc_port_id t) s = Some (err, s')" using h' by (simp add: OnPortStatusChange_def Let_def)
      from EnableSlot_phase [OF this] show ?thesis
        using phases_ok_update [OF ok, of s' "psc_port_id t" PhEnablingSlot] phases_ok_same [OF ok, of s'] PhResettingPort p by auto
    qed (use h' ok in \<open>simp_all add: OnPortStatusChange_def Let_def\<close>)
  next
    case 3
    then have r: "OnCommandCompletion hw lay t s = Some (err, s')" using h by (simp add: handle_event_def)
    then obtain iss where iss: "trb_at (cc_pointer t) (command_ring s) = Some iss"
      by (auto simp: OnCommandCompletion_def bind_eq_Some_conv)
    show ?thesis
    proof (cases "trb_type iss = 11")
      case True
      then show ?thesis using address_completed [OF ok iss True r] by simp
    next
      case False
      from OnCommandCompletion_other [OF iss False r] show ?thesis
      proof (elim conjE disjE exE)
        assume a: "addressing_port s' = addressing_port s" "xevents s' = xevents s"
          "port_config_phase s (addressing_port s) = PhEnablingSlot"
          "port_config_phase s' = (port_config_phase s)(addressing_port s := PhAddressingDevice)"
        then show ?thesis
          using phases_ok_update [OF ok a(4,1)] phases_ok_active [OF ok, of "addressing_port s"] by simp
      next
        fix p assume a: "addressing_port s' = addressing_port s" "xevents s' = xevents s"
          "port_config_phase s p = PhConfiguringEndpoints" "port_config_phase s' = (port_config_phase s)(p := PhConfigured)"
        then have "p \<noteq> 0" using ok by (auto simp: phases_ok_def)
        with a show ?thesis using phases_ok_update [OF ok a(4,1)] by simp
      qed (simp add: phases_ok_same [OF ok])
    qed
  next
    case 4
    then show ?thesis using h ok by (simp add: handle_event_def)
  qed
qed

section \<open>Runs of the controller\<close>

text \<open>
  A step of the system: the hardware changes what it owns; the driver configures a port, at start-up;
  or an event is handled.  Root hub ports are numbered from 1, also in the events.
\<close>

inductive xhc_step :: "port_hw \<Rightarrow> layout \<Rightarrow> xhc \<Rightarrow> xhc \<Rightarrow> bool" for hw lay where
  hardware: "xhc_step hw lay s (s\<lparr>portsc := ps, device_ctx := ctx, xevents := evs, xmem := m\<rparr>)"
| configure: "p \<noteq> 0 \<Longrightarrow> ConfigurePort hw p s = Some (err, s') \<Longrightarrow> xhc_step hw lay s s'"
| event: "(trb_type t = 34 \<Longrightarrow> psc_port_id t \<noteq> 0) \<Longrightarrow> handle_event hw lay t s = Some (err, s') \<Longrightarrow> xhc_step hw lay s s'"

inductive xhc_runs :: "port_hw \<Rightarrow> layout \<Rightarrow> xhc \<Rightarrow> xhc \<Rightarrow> bool" for hw lay where
  start: "xhc_runs hw lay s s"
| run: "xhc_runs hw lay s s1 \<Longrightarrow> xhc_step hw lay s1 s2 \<Longrightarrow> xhc_runs hw lay s s2"

inductive_cases xhc_stepE: "xhc_step hw lay s s'"

lemma xhc_step_ok: "xhc_step hw lay s s' \<Longrightarrow> phases_ok s \<Longrightarrow> phases_ok s'"
proof (induction rule: xhc_step.induct)
  case (hardware s ps ctx evs m)
  then show ?case by (simp add: phases_ok_def)
next
  case (configure p s err s')
  then show ?case using ResetPort_ok [of s p hw err s'] by (auto simp: ConfigurePort_def split: if_splits)
next
  case (event t s err s')
  then show ?case using handle_event_ok by blast
qed

lemma xhc_runs_ok: "xhc_runs hw lay s s' \<Longrightarrow> phases_ok s \<Longrightarrow> phases_ok s'"
  by (induction rule: xhc_runs.induct) (auto dest: xhc_step_ok)

definition all_unconnected :: "xhc \<Rightarrow> bool" where
  "all_unconnected s \<longleftrightarrow> addressing_port s = 0 \<and> port_config_phase s = (\<lambda>p. PhNotConnected)"

text \<open>
  C38: at most one port is between its reset and its address, whatever the controller reports and in
  whatever order: from the start of the driver on, a port is in the phases from the reset to the
  addressing of its device exactly when it is the one \<^verbatim>\<open>addressing_port\<close> names, so that of two such
  ports each is the other, and no device answers at the default address but the one expected.
\<close>

theorem one_port_addressed:
  assumes "all_unconnected s0" "xhc_runs hw lay s0 s"
  shows "(active (port_config_phase s p) \<longleftrightarrow> addressing_port s \<noteq> 0 \<and> p = addressing_port s) \<and>
    (active (port_config_phase s p) \<and> active (port_config_phase s q) \<longrightarrow> p = q)"
proof -
  have "phases_ok s0" using assms(1) by (simp add: all_unconnected_def phases_ok_def)
  with assms(2) have "phases_ok s" by (rule xhc_runs_ok)
  then show ?thesis by (simp add: phases_ok_def)
qed

section \<open>The ports that wait\<close>

text \<open>
  Nothing that happens reaches a waiting port but the completion of Address Device for another port.
  A run in which no port is newly connected: the status events are not for unconnected ports that
  now read as connected, and no port is configured.
\<close>

inductive quiet_runs :: "port_hw \<Rightarrow> layout \<Rightarrow> xhc \<Rightarrow> xhc \<Rightarrow> bool" for hw lay where
  quiet_start: "quiet_runs hw lay s s"
| quiet_hardware: "quiet_runs hw lay s s1 \<Longrightarrow>
    quiet_runs hw lay s (s1\<lparr>portsc := ps, device_ctx := ctx, xevents := evs, xmem := m\<rparr>)"
| quiet_event: "quiet_runs hw lay s s1 \<Longrightarrow>
    (trb_type t = 34 \<Longrightarrow> psc_port_id t \<noteq> 0 \<and>
       (port_config_phase s1 (psc_port_id t) \<noteq> PhNotConnected \<or> \<not> IsConnected (psc_port_id t) s1)) \<Longrightarrow>
    handle_event hw lay t s1 = Some (err, s2) \<Longrightarrow> quiet_runs hw lay s s2"

definition starved :: "u8 \<Rightarrow> xhc \<Rightarrow> bool" where
  "starved w s \<longleftrightarrow> phases_ok s \<and> addressing_port s = 0 \<and> port_config_phase s w = PhWaitingAddressed"

lemma starved_event:
  assumes s: "starved w s" and t: "trb_type t = 34 \<Longrightarrow> psc_port_id t \<noteq> 0 \<and>
      (port_config_phase s (psc_port_id t) \<noteq> PhNotConnected \<or> \<not> IsConnected (psc_port_id t) s)"
    and h: "handle_event hw lay t s = Some (err, s')"
  shows "starved w s'"
proof -
  have ok: "phases_ok s" and z: "addressing_port s = 0" and w: "port_config_phase s w = PhWaitingAddressed"
    using s by (simp_all add: starved_def)
  have ok': "phases_ok s'" using handle_event_ok [OF ok _ h] t by simp
  have none: "\<not> active (port_config_phase s p)" for p using ok z by (simp add: phases_ok_def)
  have "addressing_port s' = 0 \<and> port_config_phase s' w = PhWaitingAddressed"
  proof -
    consider "trb_type t = 32" | "trb_type t = 34" | "trb_type t = 33" | "trb_type t \<notin> {32, 33, 34}" by auto
    then show ?thesis
    proof cases
      case 1
      then have "OnTransferEvent lay t s = Some (err, s')" using h by (simp add: handle_event_def)
      from OnTransferEvent_phase [OF this] show ?thesis using z w by auto
    next
      case 2
      have "port_config_phase s (psc_port_id t) \<noteq> PhResettingPort" using none [of "psc_port_id t"] by auto
      then have "s' = s"
        using h 2 t by (auto simp: handle_event_def OnPortStatusChange_def Let_def ResetPort_def split: config_phase.splits)
      then show ?thesis using z w by simp
    next
      case 3
      then have r: "OnCommandCompletion hw lay t s = Some (err, s')" using h by (simp add: handle_event_def)
      then obtain iss where iss: "trb_at (cc_pointer t) (command_ring s) = Some iss"
        by (auto simp: OnCommandCompletion_def bind_eq_Some_conv)
      show ?thesis
      proof (cases "trb_type iss = 11")
        case True
        then show ?thesis using address_completed [OF ok iss True r] z w none [of 0] by (auto simp: Let_def)
      next
        case False
        then show ?thesis using OnCommandCompletion_other [OF iss False r] z w none [of 0] by auto
      qed
    next
      case 4
      then show ?thesis using h z w by (simp add: handle_event_def)
    qed
  qed
  with ok' show ?thesis by (simp add: starved_def)
qed

lemma starved_runs: "quiet_runs hw lay s s' \<Longrightarrow> starved w s \<Longrightarrow> starved w s'"
proof (induction rule: quiet_runs.induct)
  case (quiet_hardware s s1 ps ctx evs m)
  then show ?case by (simp add: starved_def phases_ok_def)
next
  case (quiet_event s s1 t err s2)
  then show ?case using starved_event by blast
qed

text \<open>The event that an Address Device command for the device of the slot has completed.\<close>

definition address_done :: "trb \<Rightarrow> xhc \<Rightarrow> bool" where
  "address_done t s \<longleftrightarrow>
     trb_type t = 33 \<and> map_option trb_type (trb_at (cc_pointer t) (command_ring s)) = Some 11 \<and>
     FindBySlot (cc_slot_id t) s \<noteq> None \<and>
     sc_root_hub_port_num (device_ctx s (unat (cc_slot_id t))) = addressing_port s \<and>
     port_config_phase s (addressing_port s) = PhAddressingDevice"

lemma waiting_port_addressing: "waiting_port (s\<lparr>addressing_port := a\<rparr>) = waiting_port s"
  by (simp add: waiting_port_def)

text \<open>
  C39: when the device on a port has its address, the turn passes to the first port that waits, if a
  device is still connected there: it is the next to be reset.  If that port has been unplugged in the
  meantime, the turn is lost: nobody is addressed, and every other waiting port goes on waiting,
  whatever the controller reports, as long as no new device is plugged into a port that was
  never connected.
\<close>

theorem turn_passes_or_is_lost:
  assumes "phases_ok s" "address_done t s" "waiting_port s = Some i" "handle_event hw lay t s = Some (err, s1)"
  shows "port_config_phase s1 (addressing_port s) = PhInitializingDevice \<and>
    (if IsConnected i s
     then addressing_port s1 = i \<and> port_config_phase s1 i = PhResettingPort
     else \<forall>w s2. port_config_phase s w = PhWaitingAddressed \<and> quiet_runs hw lay s1 s2 \<longrightarrow>
            addressing_port s2 = 0 \<and> port_config_phase s2 w = PhWaitingAddressed)"
proof -
  define p s0 where "p = addressing_port s" and "s0 = s\<lparr>addressing_port := 0\<rparr>"
  have r: "OnCommandCompletion hw lay t s = Some (err, s1)" using assms(2,4) by (simp add: handle_event_def address_done_def)
  obtain iss where iss: "trb_at (cc_pointer t) (command_ring s) = Some iss" "trb_type iss = 11"
    using assms(2) by (auto simp: address_done_def)
  have w: "waiting_port s0 = Some i" using assms(3) by (simp add: s0_def waiting_port_addressing)
  have ph: "port_config_phase s p = PhAddressingDevice" using assms(2) by (simp add: address_done_def p_def)
  note ad = address_completed [OF assms(1) iss r]
  have d: "FindBySlot (cc_slot_id t) s \<noteq> None" "sc_root_hub_port_num (device_ctx s (unat (cc_slot_id t))) = p"
    using assms(2) by (simp_all add: address_done_def p_def)
  obtain e2 s2 where s2: "ResetPort hw i s0 = Some (e2, s2)"
    using r iss d ph w by (auto simp: OnCommandCompletion_def Let_def p_def [symmetric] s0_def [symmetric] bind_eq_Some_conv split: option.splits)
  note rp = ResetPort_phase [OF s2]
  have wi: "port_config_phase s i = PhWaitingAddressed" using waiting_port_some [OF assms(3)] .
  have e2: "e2 = kSuccess" using rp wi by (auto simp: s0_def split: if_splits)
  have ini: "InitializeDevice p (cc_slot_id t) s2 = Some (err, s1)"
    using r iss d ph w s2 e2 by (auto simp: OnCommandCompletion_def Let_def p_def [symmetric] s0_def [symmetric] split: option.splits)
  have dev: "FindBySlot (cc_slot_id t) s2 \<noteq> None"
    using s2 d(1) by (auto simp: ResetPort_def Port_Reset_def Let_def FindBySlot_def s0_def set_phase_def write_portsc_def split: if_splits)
  note ip = InitializeDevice_phase [OF ini]
  have phases: "port_config_phase s1 = (port_config_phase s2)(p := PhInitializingDevice)" "addressing_port s1 = addressing_port s2"
    using ip dev by auto
  have pi: "p \<noteq> i" using ph wi by auto
  show ?thesis
  proof (cases "IsConnected i s")
    case True
    then have "port_config_phase s2 = (port_config_phase s)(i := PhResettingPort)" "addressing_port s2 = i"
      using rp wi by (auto simp: s0_def IsConnected_def)
    then show ?thesis using True phases pi by (simp add: p_def)
  next
    case False
    then have s20: "s2 = s0" using rp by (auto simp: s0_def IsConnected_def)
    have st: "starved w s1" if "port_config_phase s w = PhWaitingAddressed" for w
    proof -
      have "w \<noteq> p" using that ph by auto
      then show ?thesis using that ad phases s20 by (simp add: starved_def s0_def)
    qed
    have "addressing_port s3 = 0 \<and> port_config_phase s3 w = PhWaitingAddressed"
      if "port_config_phase s w = PhWaitingAddressed" "quiet_runs hw lay s1 s3" for w s3
      using starved_runs [OF that(2) st [OF that(1)]] by (simp add: starved_def)
    moreover have "addressing_port s1 = 0" using phases(2) s20 by (simp add: s0_def)
    ultimately show ?thesis using False phases by (auto simp: p_def)
  qed
qed

text \<open>
  No handler looks at the completion code of a command.  When Enable Slot fails, with no slot free, the
  slot of its completion is 0, and a device is made for it: its context is written into the first entry
  of the array of device contexts, which holds the scratchpad buffers of the controller.
\<close>

lemma failed_enable_slot:
  assumes "trb_type t = 33" "map_option trb_type (trb_at (cc_pointer t) (command_ring s)) = Some 9" "cc_slot_id t = 0"
    and "port_config_phase s (addressing_port s) = PhEnablingSlot" "handle_event hw lay t s = Some (kSuccess, s')"
  shows "\<exists>err s1 a d. AllocDevice lay 0 s = Some (err, s1) \<and> FindBySlot 0 s1 = Some (a, d) \<and> dcbaa s' 0 = a + off_ctx lay"
proof -
  have "AddressDevice lay (addressing_port s) 0 s = Some (kSuccess, s')"
    using assms by (auto simp: handle_event_def OnCommandCompletion_def Let_def)
  then show ?thesis
    by (auto simp: AddressDevice_def Let_def LoadDCBAA_def set_device_def set_phase_def push_command_def bind_eq_Some_conv
        split: option.splits prod.splits)
qed

section \<open>The loop over the events\<close>

definition handled :: "port_hw \<Rightarrow> layout \<Rightarrow> trb \<Rightarrow> xhc \<Rightarrow> xhc option" where
  "handled hw lay t s = map_option (\<lambda>(err, s'). s'\<lparr>xevents := Pop (xevents s')\<rparr>) (handle_event hw lay t s)"

definition port_event_ok :: "trb \<Rightarrow> bool" where
  "port_event_ok t \<longleftrightarrow> (trb_type t = 34 \<longrightarrow> psc_port_id t \<noteq> 0)"

definition events_pending :: "xhc \<Rightarrow> trb list \<Rightarrow> bool" where
  "events_pending s ts \<longleftrightarrow> event_queue (xevents s) ts \<and> phases_ok s \<and> list_all port_event_ok ts"

interpretation controller: event_source "\<lambda>s. HasFront (xevents s)" "\<lambda>s. map_option snd (ProcessEvent hw lay s)"
  "handled hw lay" events_pending for hw :: port_hw and lay :: layout
proof unfold_locales
  fix s xs
  assume "events_pending s xs"
  then show "HasFront (xevents s) = Some (xs \<noteq> [])" by (simp add: events_pending_def event_queue_HasFront)
next
  fix s x xs
  assume p: "events_pending s (x # xs)"
  then show "map_option snd (ProcessEvent hw lay s) = handled hw lay x s"
    using event_queue_HasFront [of "xevents s" "x # xs"] event_queue_Front [of "xevents s" x xs]
    by (cases "handle_event hw lay x s") (auto simp: events_pending_def ProcessEvent_def handled_def)
next
  fix s x xs s'
  assume p: "events_pending s (x # xs)" and h: "handled hw lay x s = Some s'"
  then obtain err s1 where s1: "handle_event hw lay x s = Some (err, s1)" "s' = s1\<lparr>xevents := Pop (xevents s1)\<rparr>"
    by (auto simp: handled_def)
  have "phases_ok s1 \<and> xevents s1 = xevents s"
    using p handle_event_ok [OF _ _ s1(1)] by (simp add: events_pending_def port_event_ok_def)
  then show "events_pending s' xs"
    using p event_queue_Pop [of "xevents s" x xs] by (simp add: events_pending_def s1(2) phases_ok_def)
qed

text \<open>
  C40: the interrupt's loop over the event ring handles the events that are in it, each once and in
  the order the controller posted them, and errors of single events do not stop it: after as many
  rounds as there are events it has come to what handling one after the other comes to. So it ends
  if the handlers return, and then the ring is empty, with its dequeue pointer where the next event
  will be. It does not end, or runs into an undefined access, if a handler does: the wait in
  \<^verbatim>\<open>Port::Reset\<close> for a port that does not leave its reset, and the descriptors of C35.
\<close>

theorem events_drained:
  assumes "phases_ok s" "event_queue (xevents s) ts" "list_all port_event_ok ts" "length ts < k"
  shows "ProcessEvents hw lay k s = handle_all (handled hw lay) ts s \<and>
    (\<forall>s'. ProcessEvents hw lay k s = Some s' \<longrightarrow> event_queue (xevents s') [])"
proof -
  have "events_pending s ts" using assms(1-3) by (simp add: events_pending_def)
  from controller.drains [OF this assms(4)] show ?thesis by (simp add: ProcessEvents_def events_pending_def)
qed

section \<open>Examples\<close>

text \<open>A port that, once written to, has finished its reset and is enabled.\<close>

definition example_hw :: port_hw where
  "example_hw p old v = (v AND NOT 0x10) OR 3"

definition example_layout :: layout where
  "example_layout = \<lparr>sizeof_Device = 4096, sizeof_Ring = 32, sizeof_HIDDriver = 2200, off_ctx = 1024,
     off_input_ctx = 2048, off_buf = 32, off_hid_buf = 64\<rparr>"

definition example_slot :: "u8 \<Rightarrow> slot_context" where
  "example_slot p = \<lparr>sc_route_string = 0, sc_root_hub_port_num = p, sc_context_entries = 1, sc_speed = 3\<rparr>"

definition example_ep :: endpoint_context where
  "example_ep = \<lparr>ec_ep_type = 0, ec_max_packet_size = 0, ec_max_burst_size = 0, ec_tr_dequeue = 0,
     ec_dequeue_cycle_state = False, ec_interval = 0, ec_max_primary_streams = 0, ec_mult = 0,
     ec_error_count = 0, ec_average_trb_length = 0\<rparr>"

text \<open>One event, the status change of port 1, in an event ring of 32 slots.\<close>

definition example_events :: event_ring where
  "example_events =
     post_event [] [0x1000000, 0, 0, 0x8800]
       \<lparr>ebuf = 0x210000, etrbs = replicate 32 no_trb, ebuf_size = 32, ecycle_bit = True, erst = 0x211000,
        ring_segment_base_address = 0x210000, ring_segment_size = 32, ERSTSZ = 1, ERSTBA = 0x211000, ERDP = 0x210000\<rparr>"

definition example_xhc :: xhc where
  "example_xhc =
     \<lparr>port_config_phase = \<lambda>p. PhNotConnected, addressing_port = 0, max_slots = 8, devices = \<lambda>i. None, dcbaa = \<lambda>i. 0,
      input_ctxs = \<lambda>i. \<lparr>ic_add_context_flags = 0, ic_slot = example_slot 0, ic_ep = \<lambda>j. example_ep\<rparr>,
      command_ring = empty_ring, doorbells = [], xpool = usb_pool_example, portsc = \<lambda>p. 1,
      device_ctx = \<lambda>i. example_slot 0, xevents = example_events, xmem = mem_of 0 []\<rparr>"

lemma example_reset:
  "ResetPort example_hw 1 example_xhc =
     Some (kSuccess, example_xhc\<lparr>addressing_port := 1, port_config_phase := (\<lambda>p. PhNotConnected)(1 := PhResettingPort),
       portsc := (\<lambda>p. 1)(1 := 0x20003)\<rparr>)"
  by (simp add: ResetPort_def IsConnected_def example_xhc_def Port_Reset_def set_phase_def write_portsc_def example_hw_def Let_def)

theorem one_port_addressed_witness:
  "active (port_config_phase (example_xhc\<lparr>addressing_port := 1,
     port_config_phase := (\<lambda>p. PhNotConnected)(1 := PhResettingPort), portsc := (\<lambda>p. 1)(1 := 0x20003)\<rparr>) 1)"
proof -
  have u: "all_unconnected example_xhc" by (simp add: all_unconnected_def example_xhc_def)
  have "ConfigurePort example_hw 1 example_xhc = ResetPort example_hw 1 example_xhc"
    by (simp add: ConfigurePort_def example_xhc_def)
  then have "xhc_step example_hw example_layout example_xhc (example_xhc\<lparr>addressing_port := 1,
     port_config_phase := (\<lambda>p. PhNotConnected)(1 := PhResettingPort), portsc := (\<lambda>p. 1)(1 := 0x20003)\<rparr>)"
    using example_reset by (intro xhc_step.configure [of 1 _ _ kSuccess]) simp_all
  with xhc_runs.start have "xhc_runs example_hw example_layout example_xhc (example_xhc\<lparr>addressing_port := 1,
     port_config_phase := (\<lambda>p. PhNotConnected)(1 := PhResettingPort), portsc := (\<lambda>p. 1)(1 := 0x20003)\<rparr>)"
    by (rule xhc_runs.run)
  from one_port_addressed [OF u this, of 1] show ?thesis by simp
qed

lemma example_queue: "event_queue example_events [stamp True [0x1000000, 0, 0, 0x8800]]"
proof -
  let ?e = "\<lparr>ebuf = 0x210000, etrbs = replicate 32 no_trb, ebuf_size = 32, ecycle_bit = True, erst = 0x211000,
        ring_segment_base_address = 0x210000, ring_segment_size = 32, ERSTSZ = 1, ERSTBA = 0x211000, ERDP = 0x210000\<rparr>"
  have "events_posted [] ?e" by (simp add: events_posted_def Let_def)
  moreover have "event_reader 0 ?e" by (simp add: event_reader_def Let_def ReadDequeuePointer_def)
  ultimately have "events_posted [[0x1000000, 0, 0, 0x8800]] example_events" "event_reader 0 example_events"
    using post_event_posted [of "[]" ?e 0 "[0x1000000, 0, 0, 0x8800]"] by (simp_all add: example_events_def)
  then show ?thesis
    unfolding event_queue_def
    by (intro exI [of _ "[[0x1000000, 0, 0, 0x8800]]"] exI [of _ 0]) (simp add: example_events_def post_event_def)
qed

text \<open>A port that stays in its reset.\<close>

definition stuck_hw :: port_hw where
  "stuck_hw p old v = v"

theorem events_drained_witness:
  "(\<exists>s'. ProcessEvents example_hw example_layout 2 example_xhc = Some s' \<and> addressing_port s' = 1 \<and>
      port_config_phase s' 1 = PhResettingPort \<and> event_queue (xevents s') []) \<and>
   ProcessEvents stuck_hw example_layout 2 example_xhc = None"
proof -
  let ?t = "stamp True [0x1000000, 0, 0, 0x8800]"
  have ok: "phases_ok example_xhc" by (simp add: phases_ok_def example_xhc_def)
  have q: "event_queue (xevents example_xhc) [?t]" using example_queue by (simp add: example_xhc_def)
  have p: "list_all port_event_ok [?t]" "trb_type ?t = 34" "psc_port_id ?t = 1"
    by (simp_all add: port_event_ok_def psc_port_id_def trb_type_def stamp_def)
  have h: "handle_event hw example_layout ?t example_xhc = ResetPort hw 1 example_xhc" for hw
    using p by (simp add: handle_event_def OnPortStatusChange_def Let_def example_xhc_def)
  obtain s' where s': "handle_all (handled example_hw example_layout) [?t] example_xhc = Some s'"
    "addressing_port s' = 1" "port_config_phase s' 1 = PhResettingPort"
    by (simp add: handled_def example_reset h)
  have "ResetPort stuck_hw 1 example_xhc = None"
    by (simp add: ResetPort_def IsConnected_def example_xhc_def Port_Reset_def set_phase_def write_portsc_def
        stuck_hw_def Let_def)
  then have "handle_all (handled stuck_hw example_layout) [?t] example_xhc = None" by (simp add: handled_def h)
  then show ?thesis
    using events_drained [OF ok q p(1), of 2 example_hw example_layout] s'
      events_drained [OF ok q p(1), of 2 stuck_hw example_layout]
    by auto
qed

text \<open>Port 3 is being addressed, ports 1 and 2 wait, and port 1 has been unplugged.\<close>

definition example_waiting :: xhc where
  "example_waiting = example_xhc
     \<lparr>port_config_phase := (\<lambda>p. PhNotConnected)(1 := PhWaitingAddressed, 2 := PhWaitingAddressed, 3 := PhAddressingDevice),
      addressing_port := 3, devices := (\<lambda>i. None)(1 := Some (0x300000, keyboard_device)),
      command_ring := \<lparr>rbuf = 0x200040, rtrbs = [stamp True (AddressDeviceCommandTRB 0x300800 1), no_trb], rbuf_size = 2,
                       rcycle_bit = False, rwrite_index = 0\<rparr>,
      portsc := (\<lambda>p. 1)(1 := 0), device_ctx := \<lambda>i. example_slot 3\<rparr>"

theorem turn_passes_or_is_lost_witness:
  "\<exists>s1. handle_event example_hw example_layout [0x200040, 0, 0x1000000, 0x1008401] example_waiting = Some (kSuccess, s1) \<and>
     addressing_port s1 = 0 \<and> port_config_phase s1 2 = PhWaitingAddressed"
proof -
  let ?t = "[0x200040, 0, 0x1000000, 0x1008401] :: trb"
  obtain d1 where d1: "StartInitialize keyboard_device = Some (kSuccess, d1)"
    using device_starts [OF keyboard_device_ring] by (auto simp: keyboard_device_def idle_transfers_def)
  have ok: "phases_ok example_waiting" by (simp add: phases_ok_def example_waiting_def)
  have t: "address_done ?t example_waiting"
    by (simp add: address_done_def example_waiting_def example_xhc_def trb_type_def cc_pointer_def cc_slot_id_def trb_pointer_def
        trb_at_def FindBySlot_def example_slot_def stamp_def AddressDeviceCommandTRB_def)
  have w: "waiting_port example_waiting = Some 1"
  proof -
    have "find_idx (\<lambda>i. port_config_phase example_waiting (of_nat i) = PhWaitingAddressed) [0..<256] = Some 1"
      by (simp add: find_idx_Some_iff example_waiting_def)
    then show ?thesis by (simp add: waiting_port_def)
  qed
  have u: "\<not> IsConnected 1 example_waiting" by (simp add: IsConnected_def example_waiting_def)
  obtain s1 where s1: "handle_event example_hw example_layout ?t example_waiting = Some (kSuccess, s1)"
  proof -
    obtain iss where iss: "trb_at (cc_pointer ?t) (command_ring example_waiting) = Some iss" "trb_type iss = 11"
      using t by (auto simp: address_done_def)
    have f: "trb_type ?t = 33" "cc_slot_id ?t = 1" "FindBySlot 1 example_waiting = Some (0x300000, keyboard_device)"
      "sc_root_hub_port_num (device_ctx example_waiting (unat (1 :: u8))) = 3" "addressing_port example_waiting = 3"
      "port_config_phase example_waiting 3 = PhAddressingDevice"
      by (simp_all add: trb_type_def cc_slot_id_def FindBySlot_def example_waiting_def example_xhc_def example_slot_def)
    have nc: "\<not> IsConnected 1 (example_waiting\<lparr>addressing_port := 0\<rparr>)" using u by (simp add: IsConnected_def)
    have "handle_event example_hw example_layout ?t example_waiting =
        InitializeDevice 3 1 (example_waiting\<lparr>addressing_port := 0\<rparr>)"
      unfolding handle_event_def OnCommandCompletion_def Let_def f(1,2) iss(1) Option.bind.bind_lunit iss(2) f(3)
      using f(4-6) w nc by (simp add: waiting_port_addressing ResetPort_def)
    then show thesis
      using that d1 by (simp add: InitializeDevice_def FindBySlot_def example_waiting_def example_xhc_def)
  qed
  have "port_config_phase example_waiting 2 = PhWaitingAddressed" by (simp add: example_waiting_def)
  then show ?thesis
    using turn_passes_or_is_lost [OF ok t w s1] u s1 quiet_runs.quiet_start [of example_hw example_layout s1] by auto
qed

end
