(* ===== verification/Spec2Isabelle.thy ===== *)
theory Spec2Isabelle
  imports Socket E1000 Timer FatDir PageClean PageKernel Xhci
begin

text \<open>
  A verification development for laplus, an operating system for x86-64. It models the C parts of
  the kernel, above all its TCP/IP stack (\<^verbatim>\<open>src/kernel/network\<close>), and the parts of the C++ kernel
  that decide who gets memory and who runs, and that keep files. Paths below are relative to \<^verbatim>\<open>src\<close>.

  \<^bold>\<open>The program.\<close> The network card raises an interrupt; \<^verbatim>\<open>e1000_intr\<close> empties the receive ring and
  gives each frame to \<^verbatim>\<open>ether_input\<close>, which calls \<^verbatim>\<open>net_input_handler\<close>. This only queues the packet
  for its protocol and sends a message to the network task. There \<^verbatim>\<open>net_softirq_handler\<close> empties all
  queues into the handlers of ARP and IP; IP calls ICMP, UDP or TCP. Tasks reach the stack from the
  other side, through the sockets: UDP and TCP commands that may sleep on a condition until the
  network task wakes them. Timers age the ARP cache and send TCP segments again. Output goes down
  through \<^verbatim>\<open>ip_output\<close>, the ARP cache and the driver. Below all this is the allocator of page
  frames, which the kernel sets up from the firmware's memory map and whose first customer is the
  heap behind \<^verbatim>\<open>calloc\<close>. The timer interrupt sends the messages of the timers that are due and switches
  between the tasks of the highest level; tasks sleep and are woken by messages. Files live on a FAT
  volume in memory, which tasks use through file descriptors. A program gets page tables of its own that
  share the pages it was loaded into; page faults give it copies, new pages and pages of mapped files.
  USB devices are found, addressed and configured by handlers of the events of their host controller.

  \<^bold>\<open>Conventions.\<close> A theory per component; definitions have the names of the functions they model.
  Stateful functions take the state and return it updated, after their result. The state of the
  stack is one record that grows from layer to layer (\<^verbatim>\<open>env\<close>, \<^verbatim>\<open>net_state\<close>, \<^verbatim>\<open>arp_state\<close>, \<^verbatim>\<open>ip_state\<close>,
  \<^verbatim>\<open>udp_state\<close>, \<^verbatim>\<open>tcp_state\<close>, \<^verbatim>\<open>socket_state\<close>), so an operation of a layer works on the states of all
  layers above. Pointers into static tables are indices, heap pointers are addresses. Integers have
  their width; lengths are natural numbers, with the wrap-around of subtractions written out. The
  outcome of every \<^verbatim>\<open>calloc\<close> comes from a stream in the state, so each theorem covers failures of
  memory unless it says otherwise. An access that C leaves undefined sets the flag \<^verbatim>\<open>ub\<close> or makes the
  result \<open>None\<close>. Behind the flag a function goes on as the code does, as far as the objects of the state are
  concerned; what else the access destroys is not followed. One such access is in reach of every peer, a TCP segment
  longer than the receive window, so that the bound on the windows (C9, C15) holds as long as the flag is not set. Logging is left out. A call that may sleep is cut where its task sleeps: it returns
  \<open>Blocks\<close> with what it needs to go on, and a second definition goes on after the wake-up, so that
  anything can happen in between. Mutexes are empty operations in the source.

  \<^bold>\<open>Theories and sources.\<close>
  \<^item> \<^verbatim>\<open>Prelude\<close>: words, memory images of integers, searching arrays. \<^verbatim>\<open>Strings\<close>: the part of the C
    library that parsers and printers use. \<^verbatim>\<open>Port\<close>: \<^verbatim>\<open>kernel/network/port\<close> (conditions, time, wake-ups).
  \<^item> \<^verbatim>\<open>Benri\<close>, \<^verbatim>\<open>Queue\<close>: \<^verbatim>\<open>kernel/network/benri.c\<close>. The Internet checksum verifies what it signs and
    detects every change of one 16-bit word; the pointer queue refines a list.
  \<^item> \<^verbatim>\<open>Network\<close>, \<^verbatim>\<open>Delivery\<close>: \<^verbatim>\<open>kernel/network/network.c\<close>: devices, protocols, timers; the queues
    between interrupt and network task, with the interface of their handlers as a locale.
  \<^item> \<^verbatim>\<open>Ethernet\<close>, \<^verbatim>\<open>Arp\<close>, \<^verbatim>\<open>Ip\<close>, \<^verbatim>\<open>Icmp\<close>, \<^verbatim>\<open>Udp\<close>: the files of these names. What one host sends, another
    receives; the caches and tables keep their invariants; the routing table finds the longest prefix.
  \<^item> \<^verbatim>\<open>TcpPcb\<close>, \<^verbatim>\<open>TcpInput\<close>, \<^verbatim>\<open>TcpUser\<close>: \<^verbatim>\<open>kernel/network/tcp.c\<close> (blocks and queues; segments that arrive;
    commands). \<^verbatim>\<open>TcpWire\<close>: segments between hosts. \<^verbatim>\<open>TcpInv\<close>, \<^verbatim>\<open>TcpStates\<close>: the table's invariant and the
    state machine, for each operation. \<^verbatim>\<open>TcpConn\<close>: handshake and release. \<^verbatim>\<open>Pipe\<close>, \<^verbatim>\<open>TcpData\<close>: the receive buffer as a
    stream of bytes (locale \<open>byte_pipe\<close>), and what all operations together keep. \<^verbatim>\<open>TcpSend\<close>: the send window and retransmission.
  \<^item> \<^verbatim>\<open>Stack\<close>: \<^verbatim>\<open>net_init\<close> and the handlers behind the function pointers; a step relation of everything
    that can happen to the stack, and what holds in all states it reaches without an undefined access.
  \<^item> \<^verbatim>\<open>Socket\<close>: \<^verbatim>\<open>kernel/network/socket.c\<close>. \<^verbatim>\<open>E1000\<close>: \<^verbatim>\<open>kernel/network/nic/e1000.c\<close>, over a card whose
    registers are parameters.
  \<^item> \<^verbatim>\<open>Allocator\<close>, \<^verbatim>\<open>MemoryManager\<close>: \<^verbatim>\<open>kernel/memory_manager.cpp\<close>, \<^verbatim>\<open>sbrk\<close> of \<^verbatim>\<open>kernel/newlib_support.c\<close>
    and what the users of the allocator rely on (locale \<open>frame_allocator\<close>).
  \<^item> \<^verbatim>\<open>TaskManager\<close>, \<^verbatim>\<open>Timer\<close>: \<^verbatim>\<open>kernel/task.cpp\<close> and \<^verbatim>\<open>kernel/timer.cpp\<close>. The queues of the levels hold
    each task that can run once in every reachable state; a call fails only for a pointer to a task that is gone; tasks take turns; timers fire in order.
  \<^item> \<^verbatim>\<open>Paging\<close> (setting up pages: the tables as a tree, and equal to one descent for each page),
    \<^verbatim>\<open>PageCopy\<close> (the tables of a new task, copies on write), \<^verbatim>\<open>PageFault\<close> (the handler; a step relation of what
    a task can do to memory by its faults and its writes to its own half, which isolates tasks), \<^verbatim>\<open>PageClean\<close> (the end of a task: every page comes back)
    and \<^verbatim>\<open>PageKernel\<close> (the identity tables, and the write to a page of the kernel that isolation does not cover): \<^verbatim>\<open>kernel/paging.cpp\<close> and the page tables of
    \<^verbatim>\<open>kernel/terminal.cpp\<close>. A page is 512 words, found by its address; the pages of a tree are in use and
    have one place in it (\<open>pages_ok\<close>), which the kernel keeps.
  \<^item> \<^verbatim>\<open>Fat\<close> (table and chains of clusters), \<^verbatim>\<open>FatEntry\<close> (entries and short names), \<^verbatim>\<open>FatFile\<close> (reading, and
    the interface of the class \<^verbatim>\<open>FileDescriptor\<close> as the locale \<open>byte_source\<close>, with its client \<^verbatim>\<open>ReadDelim\<close>),
    \<^verbatim>\<open>FatWrite\<close>, \<^verbatim>\<open>FatDir\<close> (paths, new files): \<^verbatim>\<open>kernel/fat.cpp\<close> and \<^verbatim>\<open>kernel/file.cpp\<close>. What is written is read
    back, new files are found, and other files stay as they are.
  \<^item> \<^verbatim>\<open>UsbMemory\<close>, \<^verbatim>\<open>XhciRing\<close>: \<^verbatim>\<open>kernel/usb/memory.cpp\<close> and \<^verbatim>\<open>kernel/usb/xhci/ring.cpp\<close>. The blocks of the pool
    never overlap; the rings are queues told from stale slots by the cycle bit (locale \<open>event_source\<close>
    for the loop that drains one). \<^verbatim>\<open>UsbDescriptor\<close>, \<^verbatim>\<open>UsbDevice\<close>: \<^verbatim>\<open>kernel/usb/device.cpp\<close>,
    \<^verbatim>\<open>kernel/usb/xhci/device.cpp\<close> and \<^verbatim>\<open>kernel/usb/classdriver\<close>: descriptors, transfers, enumeration, keyboard.
    \<^verbatim>\<open>Xhci\<close>: the events of the controller and the phases of the ports (\<^verbatim>\<open>kernel/usb/xhci/xhci.cpp\<close>), with a step
    relation in which the hardware may change what it owns at any time.

  \<^bold>\<open>Loops.\<close> Recursion over the data where the code walks an array or a list. Loops whose end depends
  on the state are functions with a termination proof (the checksum's carries, the release of TCP
  blocks, the search for frames) or \<open>partial_function (option)\<close> (queues that handlers may fill again,
  \<^verbatim>\<open>tcp_send\<close>, the receive ring, timers, chains of clusters, descriptors), and that they end is proved, or,
  for descriptors, that they may not. The loop over USB events takes a bound on its rounds; with one more than the
  events it comes to the same as the handlers one after the other, so that it ends if they do.

  \<^bold>\<open>Parameters.\<close> The network driver of the stack, the card of \<^verbatim>\<open>E1000\<close>, random numbers, the clock and the
  outcomes of \<^verbatim>\<open>calloc\<close>; for page faults, what \<^verbatim>\<open>Load\<close> of a mapped file gives, and that the processor
  reports in the error code whether the page is there and only writes that the tables forbid; for USB, what
  a port's register reads as after a write, the memory the devices write to, and the compiler's layout. Theorems about the card name what they rely on.

  \<^bold>\<open>Not modelled.\<close> Dump and logging functions; PCI probing; the boot loaders, whose work is calls of
  the firmware; graphics, windows and fonts, which are drawing; the start-up of the USB host controller; the
  terminal and the system calls but for the page tables of a task (what the kernel writes for a task in a system
  call is not checked against its page tables, since the start of the kernel clears CR0.WP); the applications; vendored code (\<^verbatim>\<open>stb_image.h\<close>).
\<close>

end
